(* ===== verification/Prelude.thy ===== *)
theory Prelude
  imports Main "HOL-Library.Word"
begin

text \<open>
  The vocabulary every component theory shares: the machine types of the C code
  (\<open>uint8_t\<close> to \<open>uint64_t\<close> as words, \<open>size_t\<close> as a 64-bit quantity), the result
  convention of the parsers, big-endian loads and stores with their arithmetic
  meaning, and the generic list and word lemmas the component proofs rest on.
\<close>

unbundle bit_operations_syntax

section \<open>Machine types\<close>

type_synonym u8 = "8 word"
type_synonym u16 = "16 word"
type_synonym u32 = "32 word"
type_synonym u64 = "64 word"

text \<open>
  \<open>size_t\<close> has 64 bits on the platforms the pod is built for. Lengths and offsets are
  natural numbers; where the source tests a sum or a product for wrap-around the model
  writes \<open>mod SIZE_MOD\<close> out.
\<close>

definition SIZE_MOD :: nat where
  "SIZE_MOD = 2 ^ 64"

definition INT_MAX :: nat where
  "INT_MAX = 2 ^ 31 - 1"

named_theorems wordsimps \<open>values of small word expressions as natural numbers\<close>
named_theorems evals \<open>evaluation of concrete runs\<close>

section \<open>Results that keep the reader's position\<close>

text \<open>
  A C parser returns 1 or 0 and updates the reader it is given, also on some of its failing
  paths. A step is a pair of an optional result (\<open>None\<close> for a return of 0) and the reader
  after the call; \<open>then_get\<close> is the sequencing of two calls by an early return.
\<close>

definition then_get :: "'a option \<times> 's \<Rightarrow> ('a \<Rightarrow> 's \<Rightarrow> 'b option \<times> 's) \<Rightarrow> 'b option \<times> 's" where
  "then_get r f = (case r of (None, s) \<Rightarrow> (None, s) | (Some x, s) \<Rightarrow> f x s)"

lemma then_get_simps [simp]:
  "then_get (None, s) f = (None, s)"
  "then_get (Some x, s) f = f x s"
  by (simp_all add: then_get_def)

lemma then_get_Some:
  "then_get r f = (Some y, t) \<longleftrightarrow> (\<exists>x s. r = (Some x, s) \<and> f x s = (Some y, t))"
  by (cases r) (auto simp: then_get_def split: option.splits)

lemma then_get_SomeE:
  assumes "then_get r f = (Some y, t)"
  obtains x s where "r = (Some x, s)" "f x s = (Some y, t)"
  using assms by (auto simp: then_get_Some)

section \<open>Words as numbers\<close>

lemma unat_drop_bit_word [wordsimps]: "unat (drop_bit n (w :: 'a::len word)) = unat w div 2 ^ n"
  by (metis unat_drop_bit_eq drop_bit_eq_div)

lemma unat_ucast8 [wordsimps]: "unat (ucast (w :: 'a::len word) :: u8) = unat w mod 256"
  by (simp add: unsigned_ucast_eq take_bit_eq_mod)

lemma unat_u8_less: "unat (b :: u8) < 256"
  using unsigned_less [of b] by simp

lemma unat_u16_less: "unat (w :: u16) < 65536"
  using unsigned_less [of w] by simp

lemma unat_u32_less: "unat (w :: u32) < 4294967296"
  using unsigned_less [of w] by simp

lemma unat_u64_less: "unat (w :: u64) < 18446744073709551616"
  using unsigned_less [of w] by simp

lemma unat_u8_64 [wordsimps]: "unat (ucast (b :: u8) :: u64) = unat b"
  by (simp add: unsigned_ucast_eq take_bit_eq_mod less_trans [OF unat_u8_less])

lemma unat_u8_32 [wordsimps]: "unat (ucast (b :: u8) :: u32) = unat b"
  by (simp add: unsigned_ucast_eq take_bit_eq_mod less_trans [OF unat_u8_less])

lemma shift_or_eq_add:
  assumes "unat (b :: 'a::len word) < 2 ^ n"
  shows "push_bit n w OR b = push_bit n w + b"
proof -
  have "take_bit n b = b"
    using assms by (metis unsigned_take_bit_eq take_bit_nat_eq_self unsigned_word_eqI)
  then have "\<not> bit b m" if "n \<le> m" for m
    using that by (metis bit_take_bit_iff not_le)
  then show ?thesis
    by (intro disjunctive_add_eq_or [symmetric]) (auto simp: bit_eq_iff bit_simps)
qed


lemma unat_shift_or:
  assumes "unat (b :: 'a::len word) < 2 ^ n" and "unat w * 2 ^ n + unat b < 2 ^ LENGTH('a)"
  shows "unat (push_bit n w OR b) = unat w * 2 ^ n + unat b"
proof -
  have "unat (push_bit n w) = unat w * 2 ^ n"
    using assms(2) by (subst unsigned_push_bit_eq) (simp add: push_bit_eq_mult [where ?'a=nat] take_bit_nat_eq_self)
  with assms show ?thesis
    by (simp add: shift_or_eq_add unat_word_ariths)
qed

lemma mult_add_cancel_mod:
  assumes "x < (k::nat)" "y < k" "k * a + x = k * c + y"
  shows "a = c \<and> x = y"
proof -
  have "(k * a + x) div k = (k * c + y) div k" "(k * a + x) mod k = (k * c + y) mod k"
    using assms(3) by simp_all
  with assms(1,2) show ?thesis by simp
qed

lemma unat_and_mask: "unat (b AND mask n :: 'a::len word) = unat b mod 2 ^ n"
  by (metis take_bit_eq_mask take_bit_eq_mod unsigned_take_bit_eq)

lemma unat_and_7f [wordsimps]: "unat (b AND 0x7f :: u8) = unat b mod 128"
  using unat_and_mask [of b 7] by (simp add: mask_eq_exp_minus_1)

lemma and_pow_zero: "(b :: 'a::len word) AND push_bit n 1 = 0 \<longleftrightarrow> \<not> bit b n"
  by (simp add: and_exp_eq_0_iff_not_bit)

lemma bit_top_u8: "bit (b :: u8) 7 \<longleftrightarrow> 128 \<le> unat b"
proof -
  have "bit b 7 \<longleftrightarrow> odd (unat b div 2 ^ 7)"
    by (metis bit_iff_odd bit_unsigned_iff possible_bit_nat)
  moreover have "unat b div 2 ^ 7 = (if unat b < 128 then 0 else 1)"
    using unat_u8_less [of b] by (auto intro!: div_nat_eqI)
  ultimately show ?thesis by auto
qed

lemma and_80_zero [wordsimps]: "(b AND 0x80 :: u8) = 0 \<longleftrightarrow> unat b < 128"
  using and_pow_zero [of b 7] bit_top_u8 [of b] by (simp add: not_le)

text \<open>A statement about every byte is 256 closed instances.\<close>

lemma u8_exhaust: "(\<forall>b :: u8. P b) \<longleftrightarrow> (\<forall>n<256. P (of_nat n))"
  by (metis unat_u8_less of_nat_unat ucast_id unsigned_of_nat)

text \<open>A byte by its number.\<close>

definition byte :: "nat \<Rightarrow> u8" where
  "byte n = of_nat n"

lemma byte_unat [simp]: "byte (unat b) = b"
  by (simp add: byte_def)

lemma unat_byte [simp]: "n < 256 \<Longrightarrow> unat (byte n) = n"
  by (simp add: byte_def unat_of_nat take_bit_nat_eq_self)

lemma byte_eqI: "unat b = n \<Longrightarrow> byte n = b"
  by auto

lemma unat_of_nat_u64: "n < 2 ^ 64 \<Longrightarrow> unat (of_nat n :: u64) = n"
  by (simp add: unat_of_nat take_bit_nat_eq_self)

lemma unat_of_nat_u32: "n < 2 ^ 32 \<Longrightarrow> unat (of_nat n :: u32) = n"
  by (simp add: unat_of_nat take_bit_nat_eq_self)

lemma drop_bit_zero_iff: "drop_bit n (w :: 'a::len word) = 0 \<longleftrightarrow> unat w < 2 ^ n"
proof -
  have "drop_bit n w = 0 \<longleftrightarrow> unat w div 2 ^ n = 0"
    by (simp only: unat_drop_bit_word [symmetric] unat_eq_zero)
  then show ?thesis by (simp add: div_eq_0_iff)
qed

section \<open>Big-endian numbers\<close>

text \<open>
  \<open>be_load\<close> is the loop \<open>result <<= 8; result |= data[i]\<close>, \<open>be_store\<close> the loop
  that writes the low byte last and shifts right; what is left in the shifted value
  is its second result. \<open>be_val\<close> is the number a byte string denotes.
\<close>

definition shift_in :: "u64 \<Rightarrow> u8 \<Rightarrow> u64" where
  "shift_in r b = push_bit 8 r OR ucast b"

definition be_load :: "u8 list \<Rightarrow> u64" where
  "be_load bs = foldl shift_in 0 bs"

fun be_store :: "nat \<Rightarrow> u64 \<Rightarrow> u8 list \<times> u64" where
  "be_store 0 v = ([], v)"
| "be_store (Suc n) v = (let (bs, r) = be_store n (drop_bit 8 v) in (bs @ [ucast v], r))"

lemma be_store_numeral [evals]:
  "be_store (numeral k) v = (let (bs, r) = be_store (pred_numeral k) (drop_bit 8 v) in (bs @ [ucast v], r))"
  by (simp add: numeral_eq_Suc)

definition be_val :: "u8 list \<Rightarrow> nat" where
  "be_val bs = foldl (\<lambda>r b. 256 * r + unat b) 0 bs"

lemma be_val_Nil [simp]: "be_val [] = 0"
  by (simp add: be_val_def)

lemma be_val_snoc [simp]: "be_val (bs @ [b]) = 256 * be_val bs + unat b"
  by (simp add: be_val_def)

lemma be_val_append: "be_val (xs @ ys) = 256 ^ length ys * be_val xs + be_val ys"
proof (induction ys rule: rev_induct)
  case Nil
  then show ?case by simp
next
  case (snoc y ys)
  have "be_val (xs @ ys @ [y]) = be_val ((xs @ ys) @ [y])" by simp
  also have "\<dots> = 256 * be_val (xs @ ys) + unat y" by (rule be_val_snoc)
  finally show ?case by (simp add: snoc.IH algebra_simps)
qed

lemma be_val_Cons: "be_val (x # xs) = unat x * 256 ^ length xs + be_val xs"
  using be_val_append [of "[x]" xs] be_val_snoc [of "[]" x] by simp

lemma be_val_less: "be_val bs < 256 ^ length bs"
proof (induction bs rule: rev_induct)
  case (snoc b bs)
  have "be_val (bs @ [b]) < 256 * (be_val bs + 1)"
    using unat_u8_less [of b] by (simp add: algebra_simps)
  also have "\<dots> \<le> 256 * 256 ^ length bs"
    using snoc.IH by (intro mult_le_mono) auto
  finally show ?case by simp
qed simp

lemma be_val_bound: "length bs \<le> n \<Longrightarrow> be_val bs < 256 ^ n"
  by (meson be_val_less le_less_trans less_le_trans one_le_numeral power_increasing)

lemma be_val_inj:
  "length xs = length ys \<Longrightarrow> be_val xs = be_val ys \<Longrightarrow> xs = ys"
proof (induction xs arbitrary: ys rule: rev_induct)
  case (snoc x xs)
  from snoc.prems(1) obtain ys' y where ys: "ys = ys' @ [y]"
    by (cases ys rule: rev_cases) auto
  have "256 * be_val xs + unat x = 256 * be_val ys' + unat y"
    using snoc.prems(2) ys by simp
  then have "be_val xs = be_val ys' \<and> unat x = unat y"
    using unat_u8_less [of x] unat_u8_less [of y] by (metis mult_add_cancel_mod)
  then show ?case
    using snoc ys by (auto simp: word_unat_eq_iff)
qed simp

lemma unat_shift_in: "unat r < 2 ^ 56 \<Longrightarrow> unat (shift_in r b) = 256 * unat r + unat b"
  unfolding shift_in_def using unat_u8_less [of b]
  by (subst unat_shift_or) (auto simp: wordsimps)

lemma unat_foldl_shift_in:
  "unat r * 256 ^ length bs + be_val bs < 2 ^ 64 \<Longrightarrow>
    unat (foldl shift_in r bs) = unat r * 256 ^ length bs + be_val bs"
proof (induction bs rule: rev_induct)
  case (snoc b bs)
  let ?m = "unat r * 256 ^ length bs + be_val bs"
  have *: "256 * ?m + unat b < 2 ^ 64"
    using snoc.prems by (simp add: algebra_simps)
  then have "?m < 2 ^ 56" by simp
  with snoc.IH have "unat (foldl shift_in r bs) = ?m" by simp
  with \<open>?m < 2 ^ 56\<close> show ?case
    by (simp add: unat_shift_in algebra_simps)
qed simp

lemma unat_be_load: "length bs \<le> 8 \<Longrightarrow> unat (be_load bs) = be_val bs"
  using be_val_bound [of bs 8] unat_foldl_shift_in [of 0 bs]
  by (simp add: be_load_def)

lemma length_be_store [simp]: "length (fst (be_store n v)) = n"
  by (induction n arbitrary: v) (auto simp: split_beta)

lemma be_store_value:
  "256 ^ n * unat (snd (be_store n v)) + be_val (fst (be_store n v)) = unat v"
proof (induction n arbitrary: v)
  case (Suc n)
  let ?r = "unat (snd (be_store n (drop_bit 8 v)))" and ?b = "be_val (fst (be_store n (drop_bit 8 v)))"
  have "256 * (256 ^ n * ?r + ?b) + unat v mod 256 = unat v"
    using Suc.IH [of "drop_bit 8 v"] by (simp add: wordsimps)
  then show ?case
    by (simp add: split_beta wordsimps algebra_simps)
qed simp

lemma be_store_split:
  assumes "unat v < 256 ^ n"
  shows "snd (be_store n v) = 0" and "be_val (fst (be_store n v)) = unat v"
proof -
  let ?r = "unat (snd (be_store n v))"
  have "256 ^ n * ?r < 256 ^ n * 1"
    using be_store_value [of n v] assms by linarith
  then have "?r = 0" by (metis less_one mult_less_cancel1)
  then show "snd (be_store n v) = 0" by (simp add: unat_eq_zero)
  with be_store_value [of n v] show "be_val (fst (be_store n v)) = unat v" by simp
qed

lemma be_store_overflow: "256 ^ n \<le> unat v \<Longrightarrow> snd (be_store n v) \<noteq> 0"
  using be_store_value [of n v] be_val_less [of "fst (be_store n v)"] by auto

lemma be_load_store:
  assumes "n \<le> 8" and "unat v < 256 ^ n"
  shows "be_load (fst (be_store n v)) = v"
  using assms unat_be_load [of "fst (be_store n v)"] be_store_split(2) [of v n]
  by (simp add: word_unat_eq_iff)

end
