(* ===== verification/Mem.thy ===== *)
theory Mem
  imports Prelude
begin

text \<open>
  \<^verbatim>\<open>crypto/mem.c\<close>: the allocation wrappers and the byte and C-string helpers.
  The system allocator is a parameter \<open>mal\<close>: asked for a number of bytes it returns
  nothing or the (arbitrary) contents of a fresh block. Memory is a list of bytes from the
  pointer on; a helper that would read or write past the list returns \<open>None\<close>.
\<close>

section \<open>Allocation\<close>

type_synonym allocator = "nat \<Rightarrow> u8 list option"

text \<open>What C promises of \<open>malloc\<close>: a block has the size asked for, and no object is larger than
  \<open>PTRDIFF_MAX\<close> bytes.\<close>

definition malloc_contract :: "allocator \<Rightarrow> bool" where
  "malloc_contract mal \<longleftrightarrow> (\<forall>n b. mal n = Some b \<longrightarrow> length b = n \<and> n < 2 ^ 63)"

text \<open>An allocator that meets it: zeroed blocks, for the concrete runs.\<close>

definition zero_malloc :: allocator where
  "zero_malloc n = (if n < 2 ^ 63 then Some (replicate n 0) else None)"

lemma zero_malloc_contract [simp]: "malloc_contract zero_malloc"
  by (simp add: malloc_contract_def zero_malloc_def)

definition OPENSSL_MALLOC_PREFIX :: nat where
  "OPENSSL_MALLOC_PREFIX = 8"

text \<open>The size is kept in the prefix; the result is the block after the prefix. The sum of
  the size and the prefix is a \<open>size_t\<close>.\<close>

definition OPENSSL_malloc :: "allocator \<Rightarrow> nat \<Rightarrow> u8 list option" where
  "OPENSSL_malloc mal n =
     (case mal ((n + OPENSSL_MALLOC_PREFIX) mod SIZE_MOD) of
        None \<Rightarrow> None
      | Some ptr \<Rightarrow> Some (drop OPENSSL_MALLOC_PREFIX ptr))"

definition OPENSSL_cleanse :: "u8 list \<Rightarrow> nat \<Rightarrow> u8 list" where
  "OPENSSL_cleanse ptr len = replicate len 0 @ drop len ptr"

text \<open>A block as the wrappers see it: the size in its prefix and the bytes after the prefix.\<close>

type_synonym mblock = "nat \<times> u8 list"

definition raw_block :: "mblock \<Rightarrow> u8 list" where
  "raw_block m = rev (fst (be_store 8 (of_nat (fst m)))) @ snd m"

text \<open>What the system's \<open>free\<close> is handed: the raw block after the cleansing.\<close>

definition OPENSSL_free :: "mblock option \<Rightarrow> u8 list option" where
  "OPENSSL_free orig =
     (case orig of
        None \<Rightarrow> None
      | Some m \<Rightarrow> Some (OPENSSL_cleanse (raw_block m) (fst m + OPENSSL_MALLOC_PREFIX)))"

definition OPENSSL_clear_free :: "mblock option \<Rightarrow> nat \<Rightarrow> u8 list option" where
  "OPENSSL_clear_free ptr unused = OPENSSL_free ptr"

text \<open>A block that is resized is handed to \<open>free\<close> afterwards; the result is the new block.\<close>

definition OPENSSL_realloc :: "allocator \<Rightarrow> mblock option \<Rightarrow> nat \<Rightarrow> u8 list option" where
  "OPENSSL_realloc mal orig new_size =
     (case orig of
        None \<Rightarrow> OPENSSL_malloc mal new_size
      | Some (old_size, old) \<Rightarrow>
          (case OPENSSL_malloc mal new_size of
             None \<Rightarrow> None
           | Some ret \<Rightarrow>
               (let to_copy = (if old_size < new_size then old_size else new_size)
                in Some (take to_copy old @ drop to_copy ret))))"

definition OPENSSL_memdup :: "allocator \<Rightarrow> u8 list \<Rightarrow> u8 list option" where
  "OPENSSL_memdup mal data =
     (if length data = 0 then None
      else (case OPENSSL_malloc mal (length data) of None \<Rightarrow> None | Some _ \<Rightarrow> Some data))"

lemma OPENSSL_realloc_NULL: "OPENSSL_realloc mal None n = OPENSSL_realloc mal (Some (0, old)) n"
  by (simp add: OPENSSL_realloc_def split: option.splits)

lemma OPENSSL_malloc_length:
  assumes "malloc_contract mal" and "n + 8 < 2 ^ 64" and "OPENSSL_malloc mal n = Some b"
  shows "length b = n" and "n < 2 ^ 63 - 8"
proof -
  from assms(3) obtain p where p: "mal ((n + 8) mod SIZE_MOD) = Some p" "b = drop 8 p"
    by (auto simp: OPENSSL_malloc_def OPENSSL_MALLOC_PREFIX_def split: option.splits)
  have "(n + 8) mod SIZE_MOD = n + 8"
    using assms(2) by (simp add: SIZE_MOD_def)
  with p assms(1) have "length p = n + 8" "n + 8 < 2 ^ 63"
    unfolding malloc_contract_def by auto
  with p(2) show "length b = n" "n < 2 ^ 63 - 8" by auto
qed

lemma OPENSSL_realloc_Some:
  assumes "malloc_contract mal" and "new_size + 8 < 2 ^ 64"
    and "OPENSSL_realloc mal (Some (length old, old)) new_size = Some b"
  shows "length b = new_size" and "new_size < 2 ^ 63 - 8"
    and "take (min (length old) new_size) b = take new_size old"
proof -
  from assms(3) obtain r where r: "OPENSSL_malloc mal new_size = Some r"
    and b: "b = take (min (length old) new_size) old @ drop (min (length old) new_size) r"
    by (auto simp: OPENSSL_realloc_def Let_def min_def split: option.splits if_splits)
  from OPENSSL_malloc_length [OF assms(1,2) r] b
  show "length b = new_size" "new_size < 2 ^ 63 - 8"
    "take (min (length old) new_size) b = take new_size old"
    by (auto simp: min_def)
qed

lemma OPENSSL_realloc_grow:
  assumes "malloc_contract mal" and "new_size + 8 < 2 ^ 64" and "length old \<le> new_size"
    and "OPENSSL_realloc mal (Some (length old, old)) new_size = Some b"
  shows "length b = new_size" and "new_size < 2 ^ 63 - 8" and "take (length old) b = old"
  using OPENSSL_realloc_Some [OF assms(1,2,4)] assms(3) by (auto simp: min_def)

text \<open>An allocator that serves every request below \<open>2\<^sup>62\<close> bytes.\<close>

definition malloc_total :: "allocator \<Rightarrow> bool" where
  "malloc_total mal \<longleftrightarrow> (\<forall>n<2 ^ 62. mal n \<noteq> None)"

lemma zero_malloc_total [simp]: "malloc_total zero_malloc"
  by (simp add: malloc_total_def zero_malloc_def)

lemma malloc_total_realloc:
  assumes "malloc_total mal" "n < 2 ^ 61 + 1"
  shows "OPENSSL_realloc mal p n \<noteq> None"
proof -
  have "(n + 8) mod SIZE_MOD < 2 ^ 62" using assms(2) by (simp add: SIZE_MOD_def)
  then show ?thesis using assms(1)
    by (auto simp: malloc_total_def OPENSSL_realloc_def OPENSSL_malloc_def OPENSSL_MALLOC_PREFIX_def Let_def
        split: option.splits)
qed

lemma malloc_total_malloc: "malloc_total mal \<Longrightarrow> n < 2 ^ 61 + 1 \<Longrightarrow> OPENSSL_malloc mal n \<noteq> None"
  using malloc_total_realloc [of mal n None] by (simp add: OPENSSL_realloc_def)

section \<open>Comparison and hashing\<close>

definition CRYPTO_memcmp :: "u8 list \<Rightarrow> u8 list \<Rightarrow> nat \<Rightarrow> u8" where
  "CRYPTO_memcmp a b len = foldl (\<lambda>x i. x OR (a ! i XOR b ! i)) 0 [0..<len]"

lemma foldl_or_zero:
  "foldl (\<lambda>x i. x OR f i) (z :: 'a::len word) is = 0 \<longleftrightarrow> z = 0 \<and> (\<forall>i\<in>set is. f i = 0)"
  by (induction "is" arbitrary: z) (auto simp: or_eq_0_iff)

lemma xor_eq_zero_iff: "(a :: 'a::len word) XOR b = 0 \<longleftrightarrow> a = b"
  by (metis xor.right_neutral xor.assoc xor_self_eq)

lemma CRYPTO_memcmp_zero:
  assumes "len \<le> length a" "len \<le> length b"
  shows "CRYPTO_memcmp a b len = 0 \<longleftrightarrow> take len a = take len b"
proof -
  have "CRYPTO_memcmp a b len = 0 \<longleftrightarrow> (\<forall>i<len. a ! i = b ! i)"
    by (auto simp: CRYPTO_memcmp_def foldl_or_zero xor_eq_zero_iff)
  also have "\<dots> \<longleftrightarrow> take len a = take len b"
    using assms by (auto simp: list_eq_iff_nth_eq)
  finally show ?thesis .
qed

definition OPENSSL_hash32 :: "u8 list \<Rightarrow> u32" where
  "OPENSSL_hash32 bs = foldl (\<lambda>h b. (h XOR ucast b) * 16777619) 2166136261 bs"

section \<open>C strings\<close>

text \<open>
  A C string is the memory from its pointer on; \<open>None\<close> is a read or a write past that
  memory. \<open>cstr\<close> is the text before the first NUL.
\<close>

definition is_cstr :: "u8 list \<Rightarrow> bool" where
  "is_cstr s \<longleftrightarrow> 0 \<in> set s"

definition cstr :: "u8 list \<Rightarrow> u8 list" where
  "cstr s = takeWhile (\<lambda>c. c \<noteq> 0) s"

fun strlen :: "u8 list \<Rightarrow> nat option" where
  "strlen [] = None"
| "strlen (c # s) = (if c = 0 then Some 0 else map_option Suc (strlen s))"

fun OPENSSL_strnlen :: "u8 list \<Rightarrow> nat \<Rightarrow> nat option" where
  "OPENSSL_strnlen s 0 = Some 0"
| "OPENSSL_strnlen [] (Suc n) = None"
| "OPENSSL_strnlen (c # s) (Suc n) = (if c = 0 then Some 0 else map_option Suc (OPENSSL_strnlen s n))"

definition OPENSSL_strdup :: "allocator \<Rightarrow> u8 list option \<Rightarrow> u8 list option" where
  "OPENSSL_strdup mal s =
     (case s of
        None \<Rightarrow> None
      | Some s \<Rightarrow>
          (case strlen s of
             None \<Rightarrow> None
           | Some l \<Rightarrow>
               (case OPENSSL_malloc mal (l + 1) of
                  None \<Rightarrow> None
                | Some r \<Rightarrow> Some (take (l + 1) s @ drop (l + 1) r))))"

definition OPENSSL_strndup :: "allocator \<Rightarrow> u8 list option \<Rightarrow> nat \<Rightarrow> u8 list option" where
  "OPENSSL_strndup mal str n =
     (case str of
        None \<Rightarrow> None
      | Some s \<Rightarrow>
          (case OPENSSL_strnlen s n of
             None \<Rightarrow> None
           | Some l \<Rightarrow>
               (let alloc_size = (l + 1) mod SIZE_MOD
                in if alloc_size < l then None
                   else (case OPENSSL_malloc mal alloc_size of
                           None \<Rightarrow> None
                         | Some r \<Rightarrow> Some ((take l s @ drop l r)[l := 0])))))"

definition OPENSSL_tolower :: "int \<Rightarrow> int" where
  "OPENSSL_tolower c = (if c \<ge> 65 \<and> c \<le> 90 then c + (97 - 65) else c)"

text \<open>\<open>char\<close> is signed on the target platforms.\<close>

fun OPENSSL_strcasecmp :: "u8 list \<Rightarrow> u8 list \<Rightarrow> int option" where
  "OPENSSL_strcasecmp (a # as) (b # bs) =
     (let aa = OPENSSL_tolower (sint a); bb = OPENSSL_tolower (sint b)
      in if aa < bb then Some (- 1)
         else if aa > bb then Some 1
         else if aa = 0 then Some 0
         else OPENSSL_strcasecmp as bs)"
| "OPENSSL_strcasecmp _ _ = None"

fun OPENSSL_strncasecmp :: "u8 list \<Rightarrow> u8 list \<Rightarrow> nat \<Rightarrow> int option" where
  "OPENSSL_strncasecmp _ _ 0 = Some 0"
| "OPENSSL_strncasecmp (a # as) (b # bs) (Suc n) =
     (let aa = OPENSSL_tolower (sint a); bb = OPENSSL_tolower (sint b)
      in if aa < bb then Some (- 1)
         else if aa > bb then Some 1
         else if aa = 0 then Some 0
         else OPENSSL_strncasecmp as bs n)"
| "OPENSSL_strncasecmp _ _ (Suc n) = None"

text \<open>The destination is the memory from \<open>dst\<close> on; the result is that memory after the call
  and the returned length.\<close>

fun OPENSSL_strlcpy :: "u8 list \<Rightarrow> u8 list \<Rightarrow> nat \<Rightarrow> (u8 list \<times> nat) option" where
  "OPENSSL_strlcpy dst [] dst_size = None"
| "OPENSSL_strlcpy dst (c # src) dst_size =
     (if dst_size > 1 \<and> c \<noteq> 0 then
        (case dst of
           [] \<Rightarrow> None
         | _ # dst' \<Rightarrow>
             (case OPENSSL_strlcpy dst' src (dst_size - 1) of
                None \<Rightarrow> None
              | Some (d, l) \<Rightarrow> Some (c # d, Suc l)))
      else if dst_size > 0 then
        (case dst of
           [] \<Rightarrow> None
         | _ # dst' \<Rightarrow> map_option (\<lambda>l. (0 # dst', l)) (strlen (c # src)))
      else map_option (\<lambda>l. (dst, l)) (strlen (c # src)))"

fun OPENSSL_strlcat :: "u8 list \<Rightarrow> u8 list \<Rightarrow> nat \<Rightarrow> (u8 list \<times> nat) option" where
  "OPENSSL_strlcat [] src dst_size =
     (if dst_size > 0 then None else OPENSSL_strlcpy [] src dst_size)"
| "OPENSSL_strlcat (c # dst) src dst_size =
     (if dst_size > 0 \<and> c \<noteq> 0 then
        (case OPENSSL_strlcat dst src (dst_size - 1) of
           None \<Rightarrow> None
         | Some (d, l) \<Rightarrow> Some (c # d, Suc l))
      else OPENSSL_strlcpy (c # dst) src dst_size)"

lemma cstr_simps [simp]:
  "cstr [] = []"
  "cstr (c # s) = (if c = 0 then [] else c # cstr s)"
  by (simp_all add: cstr_def)

lemma is_cstr_simps [simp]:
  "\<not> is_cstr []"
  "is_cstr (c # s) \<longleftrightarrow> c = 0 \<or> is_cstr s"
  by (auto simp: is_cstr_def)

lemma zero_notin_cstr: "0 \<notin> set (cstr s)"
  by (auto simp: cstr_def dest: set_takeWhileD)

lemma strlen_cstr: "strlen s = (if is_cstr s then Some (length (cstr s)) else None)"
  by (induction s) auto

lemma OPENSSL_strnlen_cstr:
  "is_cstr s \<or> n \<le> length s \<Longrightarrow> OPENSSL_strnlen s n = Some (min n (length (cstr s)))"
  by (induction s n rule: OPENSSL_strnlen.induct) auto

lemma OPENSSL_strlcpy_eq:
  "is_cstr src \<Longrightarrow> n \<le> length dst \<Longrightarrow>
    OPENSSL_strlcpy dst src n =
      Some (if n = 0 then dst
            else take (n - 1) (cstr src) @ 0 # drop (Suc (length (take (n - 1) (cstr src)))) dst,
            length (cstr src))"
proof (induction dst src n rule: OPENSSL_strlcpy.induct)
  case (2 dst c src n)
  show ?case
  proof (cases "n > 1 \<and> c \<noteq> 0")
    case True
    with "2.prems" obtain x dst' where dst: "dst = x # dst'" by (cases dst) auto
    have "OPENSSL_strlcpy dst' src (n - 1) =
      Some (take (n - 1 - 1) (cstr src) @ 0 # drop (Suc (length (take (n - 1 - 1) (cstr src)))) dst',
            length (cstr src))"
      using "2.IH" [OF True dst] "2.prems" True dst by auto
    moreover obtain m where "n = Suc (Suc m)" using True by (cases n; cases "n - 1") auto
    ultimately show ?thesis using True dst by simp
  next
    case False
    with "2.prems" show ?thesis
      by (cases dst; cases n) (auto simp: strlen_cstr)
  qed
qed simp

lemma OPENSSL_strlcat_eq:
  "is_cstr src \<Longrightarrow> is_cstr dst \<Longrightarrow> length (cstr dst) < n \<Longrightarrow> n \<le> length dst \<Longrightarrow>
    OPENSSL_strlcat dst src n =
      Some (take (n - 1) (cstr dst @ cstr src) @
              0 # drop (Suc (length (take (n - 1) (cstr dst @ cstr src)))) dst,
            length (cstr dst) + length (cstr src))"
proof (induction dst src n rule: OPENSSL_strlcat.induct)
  case (2 c dst src n)
  show ?case
  proof (cases "c = 0")
    case True
    with "2.prems" show ?thesis by (simp add: OPENSSL_strlcpy_eq)
  next
    case False
    with "2.prems" have n: "n > 0" "is_cstr dst" "length (cstr dst) < n - 1" "n - 1 \<le> length dst"
      by auto
    with "2.IH" False "2.prems"(1) n obtain m where "n = Suc m" "m > 0"
      by (cases n) auto
    with "2.IH" False "2.prems"(1) n show ?thesis
      by (simp add: take_Cons' )
  qed
qed simp

text \<open>Case-insensitive comparison is lexicographic comparison of the lower-cased texts.\<close>

definition lower :: "u8 \<Rightarrow> int" where
  "lower c = OPENSSL_tolower (sint c)"

lemma lower_zero [simp]: "lower c = 0 \<longleftrightarrow> c = 0"
  by (auto simp: lower_def OPENSSL_tolower_def split: if_splits)
     (metis sint_0 signed_word_eqI)

lemma lower_0 [simp]: "lower 0 = 0"
  by simp

lemma OPENSSL_strcasecmp_Cons:
  "OPENSSL_strcasecmp (a # as) (b # bs) =
     (if lower a < lower b then Some (- 1) else if lower b < lower a then Some 1
      else if a = 0 then Some 0 else OPENSSL_strcasecmp as bs)"
  by (simp add: Let_def flip: lower_def)

lemma OPENSSL_strcasecmp_zero:
  "is_cstr a \<Longrightarrow> is_cstr b \<Longrightarrow>
    OPENSSL_strcasecmp a b = Some 0 \<longleftrightarrow> map lower (cstr a) = map lower (cstr b)"
proof (induction a b rule: OPENSSL_strcasecmp.induct)
  case (1 a as b bs)
  consider "lower a \<noteq> lower b" | "lower a = lower b" "a = 0" "b = 0"
    | "lower a = lower b" "a \<noteq> 0" "b \<noteq> 0"
    using lower_zero [of a] lower_zero [of b] by metis
  then show ?case
  proof cases
    case 1
    then show ?thesis
      by (auto simp: OPENSSL_strcasecmp_Cons simp del: OPENSSL_strcasecmp.simps)
  next
    case 2
    then show ?thesis by (simp add: OPENSSL_strcasecmp_Cons del: OPENSSL_strcasecmp.simps)
  next
    case 3
    have "OPENSSL_strcasecmp as bs = Some 0 \<longleftrightarrow> map lower (cstr as) = map lower (cstr bs)"
      using 3 "1.prems" "1.IH" [OF refl refl] by (simp flip: lower_def)
    with 3 show ?thesis by (simp add: OPENSSL_strcasecmp_Cons del: OPENSSL_strcasecmp.simps)
  qed
qed auto

end
