(* ===== verification/Cbs.thy ===== *)
theory Cbs
  imports Mem
begin

text \<open>
  \<^verbatim>\<open>crypto/bytestring/cbs.c\<close>: the reader \<open>CBS\<close>. A \<open>CBS\<close> is the list of the \<open>len\<close> bytes at
  its pointer. Every \<open>CBS_get_*\<close> function is a step in the sense of \<^const>\<open>then_get\<close>:
  its result (\<open>None\<close> where the source returns 0) and the reader after the call, which has
  moved on some failing paths too. Out-parameters are results.
\<close>

section \<open>Reading bytes and integers\<close>

type_synonym CBS = "u8 list"

definition CBS_init :: "u8 list \<Rightarrow> nat \<Rightarrow> CBS" where
  "CBS_init data len = take len data"

definition cbs_get :: "CBS \<Rightarrow> nat \<Rightarrow> u8 list option \<times> CBS" where
  "cbs_get cbs n = (if length cbs < n then (None, cbs) else (Some (take n cbs), drop n cbs))"

definition CBS_skip :: "CBS \<Rightarrow> nat \<Rightarrow> unit option \<times> CBS" where
  "CBS_skip cbs len = then_get (cbs_get cbs len) (\<lambda>_ cbs. (Some (), cbs))"

definition CBS_data :: "CBS \<Rightarrow> u8 list" where
  "CBS_data cbs = cbs"

definition CBS_len :: "CBS \<Rightarrow> nat" where
  "CBS_len cbs = length cbs"

text \<open>The stowed copy: \<open>Some None\<close> is a NULL pointer with success, \<open>None\<close> a failure.\<close>

definition CBS_stow :: "allocator \<Rightarrow> CBS \<Rightarrow> u8 list option option" where
  "CBS_stow mal cbs =
     (if CBS_len cbs = 0 then Some None
      else (case OPENSSL_memdup mal (CBS_data cbs) of None \<Rightarrow> None | Some p \<Rightarrow> Some (Some p)))"

definition CBS_strdup :: "allocator \<Rightarrow> CBS \<Rightarrow> u8 list option" where
  "CBS_strdup mal cbs = OPENSSL_strndup mal (Some (CBS_data cbs)) (CBS_len cbs)"

definition CBS_contains_zero_byte :: "CBS \<Rightarrow> bool" where
  "CBS_contains_zero_byte cbs = (0 \<in> set cbs)"

definition CBS_mem_equal :: "CBS \<Rightarrow> u8 list \<Rightarrow> nat \<Rightarrow> bool" where
  "CBS_mem_equal cbs data len =
     (if len \<noteq> CBS_len cbs then False else CRYPTO_memcmp (CBS_data cbs) data len = 0)"

definition cbs_get_u :: "CBS \<Rightarrow> nat \<Rightarrow> u64 option \<times> CBS" where
  "cbs_get_u cbs len = then_get (cbs_get cbs len) (\<lambda>data cbs. (Some (be_load data), cbs))"

definition CBS_get_u8 :: "CBS \<Rightarrow> u8 option \<times> CBS" where
  "CBS_get_u8 cbs = then_get (cbs_get cbs 1) (\<lambda>v cbs. (Some (v ! 0), cbs))"

definition CBS_get_u16 :: "CBS \<Rightarrow> u16 option \<times> CBS" where
  "CBS_get_u16 cbs = then_get (cbs_get_u cbs 2) (\<lambda>v cbs. (Some (ucast v), cbs))"

definition CRYPTO_bswap2 :: "u16 \<Rightarrow> u16" where
  "CRYPTO_bswap2 x = drop_bit 8 x OR push_bit 8 x"

definition CRYPTO_bswap4 :: "u32 \<Rightarrow> u32" where
  "CRYPTO_bswap4 x =
     (let x = drop_bit 16 x OR push_bit 16 x
      in drop_bit 8 (x AND 0xff00ff00) OR push_bit 8 (x AND 0x00ff00ff))"

definition CRYPTO_bswap8 :: "u64 \<Rightarrow> u64" where
  "CRYPTO_bswap8 x =
     ucast (CRYPTO_bswap4 (ucast (drop_bit 32 x))) OR push_bit 32 (ucast (CRYPTO_bswap4 (ucast x)))"

definition CBS_get_u16le :: "CBS \<Rightarrow> u16 option \<times> CBS" where
  "CBS_get_u16le cbs = then_get (CBS_get_u16 cbs) (\<lambda>v cbs. (Some (CRYPTO_bswap2 v), cbs))"

definition CBS_get_u24 :: "CBS \<Rightarrow> u32 option \<times> CBS" where
  "CBS_get_u24 cbs = then_get (cbs_get_u cbs 3) (\<lambda>v cbs. (Some (ucast v), cbs))"

definition CBS_get_u32 :: "CBS \<Rightarrow> u32 option \<times> CBS" where
  "CBS_get_u32 cbs = then_get (cbs_get_u cbs 4) (\<lambda>v cbs. (Some (ucast v), cbs))"

definition CBS_get_u32le :: "CBS \<Rightarrow> u32 option \<times> CBS" where
  "CBS_get_u32le cbs = then_get (CBS_get_u32 cbs) (\<lambda>v cbs. (Some (CRYPTO_bswap4 v), cbs))"

definition CBS_get_u64 :: "CBS \<Rightarrow> u64 option \<times> CBS" where
  "CBS_get_u64 cbs = cbs_get_u cbs 8"

definition CBS_get_u64le :: "CBS \<Rightarrow> u64 option \<times> CBS" where
  "CBS_get_u64le cbs = then_get (cbs_get_u cbs 8) (\<lambda>v cbs. (Some (CRYPTO_bswap8 v), cbs))"

definition CBS_get_last_u8 :: "CBS \<Rightarrow> u8 option \<times> CBS" where
  "CBS_get_last_u8 cbs =
     (if CBS_len cbs = 0 then (None, cbs)
      else (Some (cbs ! (CBS_len cbs - 1)), take (CBS_len cbs - 1) cbs))"

definition CBS_get_bytes :: "CBS \<Rightarrow> nat \<Rightarrow> CBS option \<times> CBS" where
  "CBS_get_bytes cbs len =
     then_get (cbs_get cbs len) (\<lambda>v cbs. (Some (CBS_init v len), cbs))"

definition CBS_copy_bytes :: "CBS \<Rightarrow> u8 list \<Rightarrow> nat \<Rightarrow> u8 list option \<times> CBS" where
  "CBS_copy_bytes cbs out len =
     then_get (cbs_get cbs len) (\<lambda>v cbs. (Some (v @ drop len out), cbs))"

definition cbs_get_length_prefixed :: "CBS \<Rightarrow> nat \<Rightarrow> CBS option \<times> CBS" where
  "cbs_get_length_prefixed cbs len_len =
     then_get (cbs_get_u cbs len_len) (\<lambda>len cbs. CBS_get_bytes cbs (unat len))"

definition CBS_get_u8_length_prefixed :: "CBS \<Rightarrow> CBS option \<times> CBS" where
  "CBS_get_u8_length_prefixed cbs = cbs_get_length_prefixed cbs 1"

definition CBS_get_u16_length_prefixed :: "CBS \<Rightarrow> CBS option \<times> CBS" where
  "CBS_get_u16_length_prefixed cbs = cbs_get_length_prefixed cbs 2"

definition CBS_get_u24_length_prefixed :: "CBS \<Rightarrow> CBS option \<times> CBS" where
  "CBS_get_u24_length_prefixed cbs = cbs_get_length_prefixed cbs 3"

section \<open>ASN.1 elements\<close>

text \<open>The loop of \<open>parse_base128_integer\<close> with its accumulator.\<close>

fun parse_base128_loop :: "u64 \<Rightarrow> CBS \<Rightarrow> u64 option \<times> CBS" where
  "parse_base128_loop v [] = (None, [])"
| "parse_base128_loop v (b # cbs) =
     (if drop_bit (64 - 7) v \<noteq> 0 then (None, cbs)
      else if v = 0 \<and> b = 0x80 then (None, cbs)
      else
        let v = push_bit 7 v OR ucast (b AND 0x7f)
        in if b AND 0x80 \<noteq> 0 then parse_base128_loop v cbs else (Some v, cbs))"

definition parse_base128_integer :: "CBS \<Rightarrow> u64 option \<times> CBS" where
  "parse_base128_integer cbs = parse_base128_loop 0 cbs"

definition CBS_ASN1_TAG_SHIFT :: nat where
  "CBS_ASN1_TAG_SHIFT = 24"

definition CBS_ASN1_CONSTRUCTED :: u32 where
  "CBS_ASN1_CONSTRUCTED = push_bit CBS_ASN1_TAG_SHIFT 0x20"

definition CBS_ASN1_TAG_NUMBER_MASK :: u32 where
  "CBS_ASN1_TAG_NUMBER_MASK = push_bit (5 + CBS_ASN1_TAG_SHIFT) 1 - 1"

abbreviation CBS_ASN1_BOOLEAN :: u32 where
  "CBS_ASN1_BOOLEAN \<equiv> 0x1"
abbreviation CBS_ASN1_INTEGER :: u32 where
  "CBS_ASN1_INTEGER \<equiv> 0x2"
abbreviation CBS_ASN1_OCTETSTRING :: u32 where
  "CBS_ASN1_OCTETSTRING \<equiv> 0x4"

definition parse_asn1_tag :: "CBS \<Rightarrow> u32 option \<times> CBS" where
  "parse_asn1_tag cbs =
     then_get (CBS_get_u8 cbs) (\<lambda>tag_byte cbs.
       let tag = push_bit CBS_ASN1_TAG_SHIFT (ucast tag_byte AND 0xe0 :: u32);
           tag_number = ucast (tag_byte AND 0x1f) :: u32
       in if tag_number = 0x1f then
            then_get (parse_base128_integer cbs) (\<lambda>v cbs.
              if v > ucast CBS_ASN1_TAG_NUMBER_MASK \<or> v < 0x1f then (None, cbs)
              else (Some (tag OR ucast v), cbs))
          else (Some (tag OR tag_number), cbs))"

text \<open>The result is the tag, the header length and the element with its header. Parsing runs on
  a copy, so the reader moves only in the final \<open>CBS_get_bytes\<close>.\<close>

definition cbs_get_any_asn1_element ::
    "CBS \<Rightarrow> bool \<Rightarrow> (u32 \<times> nat \<times> CBS) option \<times> CBS" where
  "cbs_get_any_asn1_element cbs ber_ok =
     (case parse_asn1_tag cbs of
        (None, _) \<Rightarrow> (None, cbs)
      | (Some tag, header) \<Rightarrow>
     (case CBS_get_u8 header of
        (None, _) \<Rightarrow> (None, cbs)
      | (Some length_byte, header) \<Rightarrow>
          let header_len = CBS_len cbs - CBS_len header
          in if length_byte AND 0x80 = 0 then
               then_get (CBS_get_bytes cbs (unat length_byte + header_len))
                 (\<lambda>out cbs. (Some (tag, header_len, out), cbs))
             else
               let num_bytes = unat (length_byte AND 0x7f)
               in if ber_ok \<and> tag AND CBS_ASN1_CONSTRUCTED \<noteq> 0 \<and> num_bytes = 0 then
                    then_get (CBS_get_bytes cbs header_len)
                      (\<lambda>out cbs. (Some (tag, header_len, out), cbs))
                  else if num_bytes = 0 \<or> num_bytes > 4 then (None, cbs)
                  else
                    (case cbs_get_u header num_bytes of
                       (None, _) \<Rightarrow> (None, cbs)
                     | (Some len64, _) \<Rightarrow>
                         if len64 < 128 then (None, cbs)
                         else if drop_bit ((num_bytes - 1) * 8) len64 = 0 then (None, cbs)
                         else if len64 + of_nat header_len + of_nat num_bytes < len64 then (None, cbs)
                         else
                           then_get
                             (CBS_get_bytes cbs (unat (len64 + of_nat (header_len + num_bytes))))
                             (\<lambda>out cbs. (Some (tag, header_len + num_bytes, out), cbs)))))"

definition CBS_get_any_asn1_element :: "CBS \<Rightarrow> (u32 \<times> nat \<times> CBS) option \<times> CBS" where
  "CBS_get_any_asn1_element cbs = cbs_get_any_asn1_element cbs False"

definition CBS_get_any_ber_asn1_element :: "CBS \<Rightarrow> (u32 \<times> nat \<times> CBS) option \<times> CBS" where
  "CBS_get_any_ber_asn1_element cbs = cbs_get_any_asn1_element cbs True"

definition CBS_get_any_asn1 :: "CBS \<Rightarrow> (u32 \<times> CBS) option \<times> CBS" where
  "CBS_get_any_asn1 cbs =
     then_get (CBS_get_any_asn1_element cbs) (\<lambda>(tag, header_len, out) cbs.
       (case CBS_skip out header_len of
          (None, _) \<Rightarrow> (None, cbs)
        | (Some _, out) \<Rightarrow> (Some (tag, out), cbs)))"

definition cbs_get_asn1 :: "CBS \<Rightarrow> u32 \<Rightarrow> bool \<Rightarrow> CBS option \<times> CBS" where
  "cbs_get_asn1 cbs tag_value skip_header =
     then_get (CBS_get_any_asn1_element cbs) (\<lambda>(tag, header_len, out) cbs.
       if tag \<noteq> tag_value then (None, cbs)
       else if skip_header then
         (case CBS_skip out header_len of
            (None, _) \<Rightarrow> (None, cbs)
          | (Some _, out) \<Rightarrow> (Some out, cbs))
       else (Some out, cbs))"

definition CBS_get_asn1 :: "CBS \<Rightarrow> u32 \<Rightarrow> CBS option \<times> CBS" where
  "CBS_get_asn1 cbs tag_value = cbs_get_asn1 cbs tag_value True"

definition CBS_get_asn1_element :: "CBS \<Rightarrow> u32 \<Rightarrow> CBS option \<times> CBS" where
  "CBS_get_asn1_element cbs tag_value = cbs_get_asn1 cbs tag_value False"

definition CBS_peek_asn1_tag :: "CBS \<Rightarrow> u32 \<Rightarrow> bool" where
  "CBS_peek_asn1_tag cbs tag_value =
     (if CBS_len cbs < 1 then False
      else (case fst (parse_asn1_tag cbs) of
              None \<Rightarrow> False
            | Some actual_tag \<Rightarrow> tag_value = actual_tag))"

section \<open>ASN.1 primitive values\<close>

text \<open>The accumulating loop of \<open>CBS_get_asn1_uint64\<close>.\<close>

fun asn1_uint64_loop :: "u64 \<Rightarrow> u8 list \<Rightarrow> u64 option" where
  "asn1_uint64_loop out [] = Some out"
| "asn1_uint64_loop out (d # ds) =
     (if drop_bit 56 out \<noteq> 0 then None else asn1_uint64_loop (push_bit 8 out OR ucast d) ds)"

definition CBS_get_asn1_uint64 :: "CBS \<Rightarrow> u64 option \<times> CBS" where
  "CBS_get_asn1_uint64 cbs =
     then_get (CBS_get_asn1 cbs CBS_ASN1_INTEGER) (\<lambda>bytes cbs.
       let data = CBS_data bytes; len = CBS_len bytes
       in if len = 0 then (None, cbs)
          else if data ! 0 AND 0x80 \<noteq> 0 then (None, cbs)
          else if data ! 0 = 0 \<and> len > 1 \<and> data ! 1 AND 0x80 = 0 then (None, cbs)
          else (asn1_uint64_loop 0 (take len data), cbs))"

definition le_load :: "u8 list \<Rightarrow> u64" where
  "le_load bs = be_load (rev bs)"

definition CBS_get_asn1_int64 :: "CBS \<Rightarrow> u64 option \<times> CBS" where
  "CBS_get_asn1_int64 cbs =
     then_get (CBS_get_asn1 cbs CBS_ASN1_INTEGER) (\<lambda>bytes cbs.
       let data = CBS_data bytes; len = CBS_len bytes
       in if len = 0 \<or> len > 8 then (None, cbs)
          else if len > 1 \<and> data ! 0 = 0 \<and> data ! 1 AND 0x80 = 0 then (None, cbs)
          else if len > 1 \<and> data ! 0 = 0xff \<and> data ! 1 AND 0x80 \<noteq> 0 then (None, cbs)
          else
            let is_negative = data ! 0 AND 0x80 \<noteq> 0;
                u_bytes = replicate 8 (if is_negative then 0xff else 0 :: u8);
                u_bytes = foldl (\<lambda>u i. u[i := data ! (len - i - 1)]) u_bytes [0..<len]
            in (Some (le_load u_bytes), cbs))"

definition CBS_get_asn1_bool :: "CBS \<Rightarrow> bool option \<times> CBS" where
  "CBS_get_asn1_bool cbs =
     then_get (CBS_get_asn1 cbs CBS_ASN1_BOOLEAN) (\<lambda>bytes cbs.
       if CBS_len bytes \<noteq> 1 then (None, cbs)
       else
         let value = CBS_data bytes ! 0
         in if value \<noteq> 0 \<and> value \<noteq> 0xff then (None, cbs) else (Some (value \<noteq> 0), cbs))"

text \<open>\<open>Some None\<close>: success with the element absent.\<close>

definition CBS_get_optional_asn1 :: "CBS \<Rightarrow> u32 \<Rightarrow> CBS option option \<times> CBS" where
  "CBS_get_optional_asn1 cbs tag =
     (if CBS_peek_asn1_tag cbs tag then
        then_get (CBS_get_asn1 cbs tag) (\<lambda>out cbs. (Some (Some out), cbs))
      else (Some None, cbs))"

text \<open>The result is the string and whether it was present.\<close>

definition CBS_get_optional_asn1_octet_string :: "CBS \<Rightarrow> u32 \<Rightarrow> (CBS \<times> bool) option \<times> CBS" where
  "CBS_get_optional_asn1_octet_string cbs tag =
     then_get (CBS_get_optional_asn1 cbs tag) (\<lambda>r cbs.
       (case r of
          Some child \<Rightarrow>
            (case CBS_get_asn1 child CBS_ASN1_OCTETSTRING of
               (None, _) \<Rightarrow> (None, cbs)
             | (Some out, child) \<Rightarrow>
                 if CBS_len child \<noteq> 0 then (None, cbs) else (Some (out, True), cbs))
        | None \<Rightarrow> (Some ([], False), cbs)))"

definition CBS_get_optional_asn1_uint64 :: "CBS \<Rightarrow> u32 \<Rightarrow> u64 \<Rightarrow> u64 option \<times> CBS" where
  "CBS_get_optional_asn1_uint64 cbs tag default_value =
     then_get (CBS_get_optional_asn1 cbs tag) (\<lambda>r cbs.
       (case r of
          Some child \<Rightarrow>
            (case CBS_get_asn1_uint64 child of
               (None, _) \<Rightarrow> (None, cbs)
             | (Some out, child) \<Rightarrow>
                 if CBS_len child \<noteq> 0 then (None, cbs) else (Some out, cbs))
        | None \<Rightarrow> (Some default_value, cbs)))"

definition CBS_get_optional_asn1_bool :: "CBS \<Rightarrow> u32 \<Rightarrow> int \<Rightarrow> int option \<times> CBS" where
  "CBS_get_optional_asn1_bool cbs tag default_value =
     then_get (CBS_get_optional_asn1 cbs tag) (\<lambda>r cbs.
       (case r of
          Some child \<Rightarrow>
            (case CBS_get_asn1 child CBS_ASN1_BOOLEAN of
               (None, _) \<Rightarrow> (None, cbs)
             | (Some child2, child) \<Rightarrow>
                 if CBS_len child2 \<noteq> 1 \<or> CBS_len child \<noteq> 0 then (None, cbs)
                 else
                   let boolean = CBS_data child2 ! 0
                   in if boolean = 0 then (Some 0, cbs)
                      else if boolean = 0xff then (Some 1, cbs)
                      else (None, cbs))
        | None \<Rightarrow> (Some default_value, cbs)))"

definition CBS_is_valid_asn1_bitstring :: "CBS \<Rightarrow> bool" where
  "CBS_is_valid_asn1_bitstring cbs =
     (case CBS_get_u8 cbs of
        (None, _) \<Rightarrow> False
      | (Some num_unused_bits, in_rest) \<Rightarrow>
          if num_unused_bits > 7 then False
          else if num_unused_bits = 0 then True
          else (case CBS_get_last_u8 in_rest of
                  (None, _) \<Rightarrow> False
                | (Some lst, _) \<Rightarrow> lst AND (push_bit (unat num_unused_bits) 1 - 1) = 0))"

definition CBS_asn1_bitstring_has_bit :: "CBS \<Rightarrow> u32 \<Rightarrow> bool" where
  "CBS_asn1_bitstring_has_bit cbs b =
     (if \<not> CBS_is_valid_asn1_bitstring cbs then False
      else
        let byte_num = drop_bit 3 b + 1; bit_num = 7 - (b AND 7)
        in unat byte_num < CBS_len cbs \<and>
           CBS_data cbs ! unat byte_num AND push_bit (unat bit_num) 1 \<noteq> 0)"

section \<open>Elementary facts\<close>

lemma CBS_get_u8_simps [simp]:
  "CBS_get_u8 [] = (None, [])"
  "CBS_get_u8 (b # cbs) = (Some b, cbs)"
  by (simp_all add: CBS_get_u8_def cbs_get_def)

lemma CBS_get_bytes_eq:
  "CBS_get_bytes cbs n = (if length cbs < n then (None, cbs) else (Some (take n cbs), drop n cbs))"
  by (simp add: CBS_get_bytes_def cbs_get_def CBS_init_def)

lemma CBS_get_bytes_append [simp]: "n = length xs \<Longrightarrow> CBS_get_bytes (xs @ ys) n = (Some xs, ys)"
  by (simp add: CBS_get_bytes_eq)

lemma CBS_skip_append [simp]: "n = length xs \<Longrightarrow> CBS_skip (xs @ ys) n = (Some (), ys)"
  by (simp add: CBS_skip_def cbs_get_def)

lemma cbs_get_u_append:
  "length xs = n \<Longrightarrow> cbs_get_u (xs @ ys) n = (Some (be_load xs), ys)"
  by (simp add: cbs_get_u_def cbs_get_def)

lemma cbs_get_u_Some:
  "cbs_get_u cbs n = (Some v, rest) \<longleftrightarrow>
    (\<exists>xs. cbs = xs @ rest \<and> length xs = n \<and> v = be_load xs)"
  by (auto simp: cbs_get_u_def cbs_get_def intro!: exI [of _ "take n cbs"])

lemma CBS_mem_equal_iff:
  "CBS_mem_equal cbs data n \<longleftrightarrow> n = length cbs \<and> take n data = cbs" if "n \<le> length data"
  using that by (auto simp: CBS_mem_equal_def CBS_len_def CBS_data_def CRYPTO_memcmp_zero)

lemma CBS_get_asn1_consumes:
  assumes "CBS_get_any_asn1_element cbs = (Some (tag, h, out), rest)"
  shows "cbs = out @ rest"
  using assms
  by (auto simp: CBS_get_any_asn1_element_def cbs_get_any_asn1_element_def Let_def CBS_get_bytes_eq
      split: option.splits prod.splits if_splits elim!: then_get_SomeE)

end
