(* ===== verification/Der.thy ===== *)
theory Der
  imports Cbs
begin

text \<open>
  The abstract specification of the ASN.1 layer: the DER encoding of tags, lengths and
  base-128 numbers as functions from numbers to bytes, and the proof that the parser of
  \<^verbatim>\<open>cbs.c\<close> accepts exactly these encodings. The builder of \<^verbatim>\<open>cbb.c\<close> is proved against
  the same specification.
\<close>

section \<open>Base-128 numbers\<close>

text \<open>The digits of a number with the continuation bit set; zero has none.\<close>

fun hi7 :: "nat \<Rightarrow> u8 list" where
  "hi7 n = (if n = 0 then [] else hi7 (n div 128) @ [byte (128 + n mod 128)])"

declare hi7.simps [simp del]

definition base128 :: "nat \<Rightarrow> u8 list" where
  "base128 n = hi7 (n div 128) @ [byte (n mod 128)]"

lemma hi7_0 [simp]: "hi7 0 = []"
  by (subst hi7.simps) simp

lemma hi7_step: "0 < n \<Longrightarrow> hi7 n = hi7 (n div 128) @ [byte (128 + n mod 128)]"
  by (subst hi7.simps) simp

lemma hi7_snoc: "0 < 128 * n + d \<Longrightarrow> d < 128 \<Longrightarrow> hi7 (128 * n + d) = hi7 n @ [byte (128 + d)]"
  by (subst hi7_step) auto

text \<open>One round of the loop on a byte.\<close>

lemma base128_round:
  assumes "drop_bit 57 v = (0 :: u64)"
  shows "unat (push_bit 7 v OR ucast (b AND 0x7f :: u8)) = 128 * unat v + unat b mod 128"
proof -
  have "unat v < 2 ^ 57"
    using assms by (simp add: drop_bit_zero_iff)
  moreover have u: "unat (ucast (b AND 0x7f) :: u64) = unat b mod 128"
    by (simp add: wordsimps)
  moreover have "unat b mod 128 < 128" by simp
  ultimately have "unat v * 2 ^ 7 + unat b mod 128 < 2 ^ 64" by simp
  with u show ?thesis
    by (subst unat_shift_or) auto
qed

lemma byte_cont: "128 \<le> unat b \<Longrightarrow> byte (128 + unat b mod 128) = b"
  using unat_u8_less [of b] by (intro byte_eqI) (simp add: le_mod_geq)

theorem parse_base128_sound:
  "parse_base128_loop v cbs = (Some r, rest) \<Longrightarrow>
    \<exists>bs. cbs = bs @ rest \<and> hi7 (unat v) @ bs = base128 (unat r)"
proof (induction v cbs rule: parse_base128_loop.induct)
  case (2 v b cbs)
  let ?v = "push_bit 7 v OR ucast (b AND 0x7f) :: u64"
  have small: "drop_bit 57 v = 0" and nz: "\<not> (v = 0 \<and> b = 0x80)"
    using "2.prems" by (auto split: if_splits)
  note val = base128_round [OF small, of b]
  show ?case
  proof (cases "b AND 0x80 = 0")
    case True
    then have b: "unat b < 128" by (simp add: and_80_zero)
    have "r = ?v" "rest = cbs" using "2.prems" small nz True by (auto simp: Let_def)
    with val b have "base128 (unat r) = hi7 (unat v) @ [b]"
      by (simp add: base128_def)
    with \<open>rest = cbs\<close> show ?thesis by auto
  next
    case False
    then have b: "128 \<le> unat b" by (simp add: and_80_zero)
    have "parse_base128_loop ?v cbs = (Some r, rest)"
      using "2.prems" small nz False by (auto simp: Let_def)
    with "2.IH" small nz False obtain bs
      where bs: "cbs = bs @ rest" "hi7 (unat ?v) @ bs = base128 (unat r)"
      by (auto simp: Let_def)
    have "0 < 128 * unat v + unat b mod 128"
    proof (rule ccontr)
      assume "\<not> ?thesis"
      then have "unat v = 0" "unat b mod 128 = 0" by auto
      then have "v = 0" "unat b = 128"
        using b unat_u8_less [of b] by (auto simp: unat_eq_zero mod_eq_0_iff_dvd elim!: dvdE)
      with nz show False by (simp add: word_unat_eq_iff)
    qed
    then have "hi7 (unat ?v) = hi7 (unat v) @ [b]"
      unfolding val by (subst hi7_snoc) (simp_all add: byte_cont [OF b])
    with bs show ?thesis by auto
  qed
qed simp

lemma parse_hi7:
  "n < 2 ^ 57 \<Longrightarrow> parse_base128_loop 0 (hi7 n @ bs) = parse_base128_loop (of_nat n) bs"
proof (induction n arbitrary: bs rule: hi7.induct)
  case (1 n)
  show ?case
  proof (cases "n = 0")
    case False
    let ?b = "byte (128 + n mod 128)"
    have ub: "unat ?b = 128 + n mod 128" by (rule unat_byte) auto
    have un: "unat (of_nat (n div 128) :: u64) = n div 128"
      using "1.prems" by (simp add: unat_of_nat take_bit_nat_eq_self)
    have small: "drop_bit 57 (of_nat (n div 128) :: u64) = 0"
      unfolding drop_bit_zero_iff un using "1.prems" by auto
    have "push_bit 7 (of_nat (n div 128)) OR ucast (?b AND 0x7f) = (of_nat n :: u64)"
      using base128_round [OF small, of ?b] un ub "1.prems"
      by (simp add: word_unat_eq_iff unat_of_nat take_bit_nat_eq_self)
    moreover have "\<not> (of_nat (n div 128) = (0::u64) \<and> ?b = 0x80)"
      using un ub False by (auto simp: word_unat_eq_iff)
    moreover have "?b AND 0x80 \<noteq> 0"
      using ub by (simp add: and_80_zero)
    moreover have "parse_base128_loop 0 (hi7 (n div 128) @ ?b # bs)
        = parse_base128_loop (of_nat (n div 128)) (?b # bs)"
      using "1.IH" [OF False] "1.prems" by (auto simp: le_less_trans [OF div_le_dividend])
    ultimately show ?thesis
      using False small by (auto simp add: hi7_step Let_def)
  qed simp
qed

theorem parse_base128_complete:
  assumes "n < 2 ^ 64"
  shows "parse_base128_integer (base128 n @ rest) = (Some (of_nat n), rest)"
proof -
  let ?b = "byte (n mod 128)"
  have ub: "unat ?b = n mod 128" by (rule unat_byte) (simp add: less_trans [OF mod_less_divisor])
  have un: "unat (of_nat (n div 128) :: u64) = n div 128"
    using assms by (simp add: unat_of_nat take_bit_nat_eq_self)
  have small: "drop_bit 57 (of_nat (n div 128) :: u64) = 0"
    unfolding drop_bit_zero_iff un using assms by auto
  have "push_bit 7 (of_nat (n div 128)) OR ucast (?b AND 0x7f) = (of_nat n :: u64)"
    using base128_round [OF small, of ?b] un ub assms
    by (simp add: word_unat_eq_iff unat_of_nat take_bit_nat_eq_self)
  moreover have "?b AND 0x80 = 0" using ub by (simp add: and_80_zero)
  moreover have "?b \<noteq> 0x80" using ub by (auto simp: word_unat_eq_iff)
  moreover have "n div 128 < 2 ^ 57" using assms by auto
  ultimately show ?thesis
    using small by (simp add: parse_base128_integer_def base128_def parse_hi7 Let_def)
qed

section \<open>Tags\<close>

text \<open>In memory a tag has its class and constructed bits on top and a 29-bit number below.\<close>

definition tag_bits :: "u32 \<Rightarrow> nat" where
  "tag_bits tag = unat tag div 2 ^ 29"

definition tag_num :: "u32 \<Rightarrow> nat" where
  "tag_num tag = unat tag mod 2 ^ 29"

definition der_tag :: "u32 \<Rightarrow> u8 list" where
  "der_tag tag =
     (if tag_num tag < 31 then [byte (32 * tag_bits tag + tag_num tag)]
      else byte (32 * tag_bits tag + 31) # base128 (tag_num tag))"

lemma tag_bits_less: "tag_bits tag < 8"
  using unat_u32_less [of tag] by (auto simp: tag_bits_def)

lemma tag_num_less: "tag_num tag < 2 ^ 29"
  by (simp add: tag_num_def)

lemma tag_split: "unat tag = tag_bits tag * 2 ^ 29 + tag_num tag"
  by (simp add: tag_bits_def tag_num_def)

lemma top3_bits: "(ucast (b :: u8) AND 0xe0 :: u32) = push_bit 5 (drop_bit 5 (ucast b))"
proof -
  have "(0xe0 :: u32) = push_bit 5 (mask 3)" by (simp add: mask_eq_exp_minus_1)
  then show ?thesis by (auto simp: bit_eq_iff bit_simps simp del: push_bit_numeral dest: bit_imp_le_length)
qed

lemma unat_and_1f: "unat (b AND 0x1f :: u8) = unat b mod 32"
  using unat_and_mask [of b 5] by (simp add: mask_eq_exp_minus_1)

lemma unat_tag_word:
  assumes "unat n < 2 ^ 29"
  shows "unat (push_bit CBS_ASN1_TAG_SHIFT (ucast (b :: u8) AND 0xe0 :: u32) OR n)
    = (unat b div 32) * 2 ^ 29 + unat n"
proof -
  have "push_bit CBS_ASN1_TAG_SHIFT (ucast b AND 0xe0 :: u32)
      = push_bit 29 (drop_bit 5 (ucast b))"
    by (simp add: top3_bits CBS_ASN1_TAG_SHIFT_def del: push_bit_numeral)
  moreover have "unat (drop_bit 5 (ucast b) :: u32) = unat b div 32"
    by (simp add: wordsimps)
  moreover have "unat b div 32 < 8" using unat_u8_less [of b] by auto
  ultimately show ?thesis
    using assms by (simp only:) (subst unat_shift_or; simp)
qed

lemma tag_of_parts:
  assumes "unat tag = k * 2 ^ 29 + n" "n < 2 ^ 29"
  shows "tag_bits tag = k" "tag_num tag = n"
  using assms by (simp_all add: tag_bits_def tag_num_def)

theorem parse_asn1_tag_sound:
  assumes "parse_asn1_tag cbs = (Some tag, rest)"
  shows "cbs = der_tag tag @ rest"
proof -
  obtain b c where cbs: "cbs = b # c"
    using assms by (cases cbs) (auto simp: parse_asn1_tag_def)
  have n5: "unat (ucast (b AND 0x1f) :: u32) = unat b mod 32"
    by (simp add: wordsimps unat_and_1f)
  show ?thesis
  proof (cases "ucast (b AND 0x1f) = (0x1f :: u32)")
    case True
    then have b31: "unat b mod 32 = 31" using n5 by simp
    obtain v where v: "parse_base128_integer c = (Some v, rest)"
      and lim: "\<not> v > ucast CBS_ASN1_TAG_NUMBER_MASK" "\<not> v < 0x1f"
      and tag: "tag = push_bit CBS_ASN1_TAG_SHIFT (ucast b AND 0xe0) OR ucast v"
      using assms True by (auto simp: cbs parse_asn1_tag_def Let_def then_get_Some split: if_splits)
    have "unat v \<le> 2 ^ 29 - 1" "31 \<le> unat v"
      using lim by (auto simp: word_less_nat_alt CBS_ASN1_TAG_NUMBER_MASK_def CBS_ASN1_TAG_SHIFT_def not_less)
    then have uv: "unat (ucast v :: u32) = unat v" "unat v < 2 ^ 29" "31 \<le> unat v"
      by (auto simp: unsigned_ucast_eq take_bit_nat_eq_self)
    have "unat tag = (unat b div 32) * 2 ^ 29 + unat v"
      unfolding tag using uv by (subst unat_tag_word) auto
    note parts = tag_of_parts [OF this uv(2)]
    have "32 * (unat b div 32) + 31 = unat b"
      using b31 mult_div_mod_eq [of 32 "unat b"] by simp
    moreover obtain bs where "c = bs @ rest" "bs = base128 (unat v)"
      using parse_base128_sound [of 0 c v rest] v by (auto simp: parse_base128_integer_def)
    ultimately show ?thesis
      using uv parts by (simp add: cbs der_tag_def)
  next
    case False
    then have "unat b mod 32 \<noteq> 31"
      using n5 by (auto simp: word_unat_eq_iff)
    then have b31: "unat b mod 32 < 31"
      using mod_less_divisor [of 32 "unat b"] by linarith
    have tag: "tag = push_bit CBS_ASN1_TAG_SHIFT (ucast b AND 0xe0) OR ucast (b AND 0x1f)" "rest = c"
      using assms False by (auto simp: cbs parse_asn1_tag_def Let_def split: if_splits)
    have "unat tag = (unat b div 32) * 2 ^ 29 + unat b mod 32"
      unfolding tag using n5 by (subst unat_tag_word) (auto intro: less_trans [OF b31])
    note parts = tag_of_parts [OF this less_trans [OF b31]]
    show ?thesis using parts b31 tag(2) by (simp add: cbs der_tag_def)
  qed
qed

theorem parse_asn1_tag_complete: "parse_asn1_tag (der_tag tag @ rest) = (Some tag, rest)"
proof (cases "tag_num tag < 31")
  case True
  let ?b = "byte (32 * tag_bits tag + tag_num tag)"
  have ub: "unat ?b = 32 * tag_bits tag + tag_num tag"
    using True tag_bits_less [of tag] by (intro unat_byte) auto
  have n5: "unat (ucast (?b AND 0x1f) :: u32) = tag_num tag"
    using ub True by (simp add: wordsimps unat_and_1f)
  then have "ucast (?b AND 0x1f) \<noteq> (0x1f :: u32)" using True by auto
  moreover have "push_bit CBS_ASN1_TAG_SHIFT (ucast ?b AND 0xe0) OR ucast (?b AND 0x1f) = tag"
    using n5 ub True tag_split [of tag] unat_tag_word [of "ucast (?b AND 0x1f)" ?b]
    by (simp add: word_unat_eq_iff)
  ultimately show ?thesis
    using True by (simp add: der_tag_def parse_asn1_tag_def Let_def)
next
  case False
  let ?b = "byte (32 * tag_bits tag + 31)"
  let ?v = "of_nat (tag_num tag) :: u64"
  have ub: "unat ?b = 32 * tag_bits tag + 31"
    using tag_bits_less [of tag] by (intro unat_byte) auto
  have "unat (ucast (?b AND 0x1f) :: u32) = 31"
    using ub by (simp add: wordsimps unat_and_1f)
  then have n5: "ucast (?b AND 0x1f) = (0x1f :: u32)" by (simp add: word_unat_eq_iff)
  have n: "tag_num tag < 2 ^ 29" by (rule tag_num_less)
  then have uv: "unat ?v = tag_num tag" by (intro unat_of_nat_u64) simp
  then have uc: "unat (ucast ?v :: u32) = tag_num tag"
    using n by (simp add: unsigned_ucast_eq take_bit_nat_eq_self)
  have lim: "\<not> ?v > ucast CBS_ASN1_TAG_NUMBER_MASK" "\<not> ?v < 0x1f"
    using n False uv by (auto simp: word_less_nat_alt CBS_ASN1_TAG_NUMBER_MASK_def CBS_ASN1_TAG_SHIFT_def)
  have "push_bit CBS_ASN1_TAG_SHIFT (ucast ?b AND 0xe0) OR ucast ?v = tag"
    using uc ub n tag_split [of tag] unat_tag_word [of "ucast ?v" ?b]
    by (simp add: word_unat_eq_iff)
  moreover have "tag_num tag < 2 ^ 64" using n by simp
  ultimately show ?thesis
    using False n5 lim by (simp add: der_tag_def parse_asn1_tag_def Let_def parse_base128_complete)
qed

section \<open>Lengths and elements\<close>

definition be_bytes :: "nat \<Rightarrow> nat \<Rightarrow> u8 list" where
  "be_bytes k n = fst (be_store k (of_nat n))"

definition len_bytes :: "nat \<Rightarrow> nat" where
  "len_bytes n = (if n < 256 then 1 else if n < 65536 then 2 else if n < 16777216 then 3 else 4)"

definition der_len :: "nat \<Rightarrow> u8 list" where
  "der_len n =
     (if n < 128 then [byte n] else byte (128 + len_bytes n) # be_bytes (len_bytes n) n)"

definition der_header :: "u32 \<Rightarrow> nat \<Rightarrow> u8 list" where
  "der_header tag n = der_tag tag @ der_len n"

definition der_tlv :: "u32 \<Rightarrow> u8 list \<Rightarrow> u8 list" where
  "der_tlv tag body = der_header tag (length body) @ body"

lemmas [evals] = der_tlv_def der_header_def der_tag_def tag_num_def tag_bits_def der_len_def byte_def
  be_bytes_def len_bytes_def base128_def

lemma length_be_bytes [simp]: "length (be_bytes k n) = k"
  by (simp add: be_bytes_def)

lemma be_val_be_bytes: "n < 256 ^ k \<Longrightarrow> k \<le> 8 \<Longrightarrow> be_val (be_bytes k n) = n"
proof -
  assume n: "n < 256 ^ k" "k \<le> 8"
  have "n < 256 ^ 8" using n by (meson less_le_trans one_le_numeral power_increasing)
  then have "unat (of_nat n :: u64) = n" by (intro unat_of_nat_u64) simp
  with n(1) show ?thesis unfolding be_bytes_def by (subst be_store_split(2)) auto
qed

lemma be_bytes_be_val: "length xs = k \<Longrightarrow> k \<le> 8 \<Longrightarrow> be_bytes k (be_val xs) = xs"
  using be_val_less [of xs] by (intro be_val_inj) (simp_all add: be_val_be_bytes)

lemma len_bytes_bounds: "n < 2 ^ 32 \<Longrightarrow> n < 256 ^ len_bytes n" "1 \<le> len_bytes n" "len_bytes n \<le> 4"
  by (auto simp: len_bytes_def)

lemma len_bytes_eq:
  assumes "n < 256 ^ k" "256 ^ (k - 1) \<le> n" "1 \<le> k" "k \<le> 4"
  shows "len_bytes n = k"
proof -
  from assms(3,4) have "k = 1 \<or> k = 2 \<or> k = 3 \<or> k = 4" by auto
  with assms(1,2) show ?thesis by (auto simp: len_bytes_def)
qed

lemma length_hi7: "n < 128 ^ k \<Longrightarrow> length (hi7 n) \<le> k"
proof (induction k arbitrary: n)
  case (Suc k)
  then show ?case
    by (cases "n = 0") (auto simp: hi7_step less_mult_imp_div_less mult.commute)
qed simp

lemma length_der_tag: "1 \<le> length (der_tag tag)" "length (der_tag tag) \<le> 6"
proof -
  have "tag_num tag div 128 < 128 ^ 4"
    using tag_num_less [of tag] by auto
  from length_hi7 [OF this] show "1 \<le> length (der_tag tag)" "length (der_tag tag) \<le> 6"
    by (auto simp: der_tag_def base128_def)
qed

lemma length_der_len: "length (der_len n) = (if n < 128 then 1 else 1 + len_bytes n)"
  by (simp add: der_len_def)

text \<open>Adding the header length to the content length does not wrap.\<close>

lemma unat_total_len:
  assumes "unat l < 2 ^ 32" "h \<le> 11"
  shows "unat (l + of_nat h :: u64) = unat l + h"
proof -
  have "unat (of_nat h :: u64) = h" using assms(2) by (intro unat_of_nat_u64) simp
  then show ?thesis using assms by (simp add: unat_word_ariths)
qed

text \<open>The two shapes of an accepted element.\<close>

definition element_ok :: "bool \<Rightarrow> u32 \<Rightarrow> nat \<Rightarrow> u8 list \<Rightarrow> bool" where
  "element_ok ber_ok tag h out \<longleftrightarrow>
     (\<exists>body. length body < 2 ^ 32 \<and> out = der_tlv tag body \<and>
        h = length (der_header tag (length body))) \<or>
     (ber_ok \<and> tag AND CBS_ASN1_CONSTRUCTED \<noteq> 0 \<and> out = der_tag tag @ [0x80] \<and> h = length out)"

lemma pow_256: "(256::nat) ^ m = 2 ^ (m * 8)"
proof -
  have "(256::nat) ^ m = (2 ^ 8) ^ m" by simp
  then show ?thesis by (simp only: power_mult [symmetric] mult.commute)
qed

lemma long_form_total:
  assumes xs: "length xs = k" "1 \<le> k" "k \<le> 4"
    and v: "\<not> be_load xs < 128" "drop_bit ((k - 1) * 8) (be_load xs) \<noteq> 0"
  shows "der_len (unat (be_load xs)) = byte (128 + k) # xs" "unat (be_load xs) < 2 ^ 32"
proof -
  have u: "unat (be_load xs) = be_val xs" using xs by (intro unat_be_load) simp
  have lt: "be_val xs < 256 ^ k" using be_val_less [of xs] xs(1) by simp
  have ge: "256 ^ (k - 1) \<le> be_val xs"
    using v(2) u by (simp only: drop_bit_zero_iff not_less pow_256)
  have l: "len_bytes (be_val xs) = k" using lt ge xs by (intro len_bytes_eq)
  have "128 \<le> be_val xs" using v(1) u by (simp add: word_less_nat_alt)
  then show "der_len (unat (be_load xs)) = byte (128 + k) # xs"
    unfolding u using l xs by (simp add: der_len_def be_bytes_be_val)
  have "(256::nat) ^ k \<le> 256 ^ 4" using xs(3) by (intro power_increasing) auto
  with lt show "unat (be_load xs) < 2 ^ 32" unfolding u by simp
qed

theorem asn1_element_sound:
  assumes "cbs_get_any_asn1_element cbs ber_ok = (Some (tag, h, out), rest)"
  shows "cbs = out @ rest \<and> element_ok ber_ok tag h out"
proof -
  obtain header where p: "parse_asn1_tag cbs = (Some tag, header)"
    using assms by (auto simp: cbs_get_any_asn1_element_def Let_def
        split: option.splits prod.splits if_splits elim!: then_get_SomeE)
  then have cbs: "cbs = der_tag tag @ header" by (rule parse_asn1_tag_sound)
  obtain b hd2 where hd: "header = b # hd2"
    using assms p by (cases header) (auto simp: cbs_get_any_asn1_element_def)
  have hl: "CBS_len cbs - CBS_len hd2 = length (der_tag tag) + 1"
    by (simp add: cbs hd CBS_len_def)
  let ?t = "length (der_tag tag)"
  note R = assms [unfolded cbs_get_any_asn1_element_def p hd CBS_get_u8_simps option.case prod.case
      Let_def hl]
  show ?thesis
  proof (cases "b AND 0x80 = 0")
    case True
    then have b: "unat b < 128" by (simp add: and_80_zero)
    from R True have "unat b + (?t + 1) \<le> length cbs" "out = take (unat b + (?t + 1)) cbs"
      "rest = drop (unat b + (?t + 1)) cbs" "h = ?t + 1"
      by (auto simp: CBS_get_bytes_eq split: if_splits)
    moreover from this have "length (take (unat b) hd2) = unat b" by (simp add: cbs hd)
    moreover have "out = der_tlv tag (take (unat b) hd2)"
      using calculation b by (simp add: cbs hd der_tlv_def der_header_def der_len_def)
    ultimately show ?thesis using b
      by (auto simp: element_ok_def der_header_def der_len_def intro!: exI [of _ "take (unat b) hd2"])
  next
    case False
    then have b: "128 \<le> unat b" by (simp add: and_80_zero)
    let ?k = "unat (b AND 0x7f)"
    have bk: "byte (128 + ?k) = b" using byte_cont [OF b] by (simp add: unat_and_7f)
    show ?thesis
    proof (cases "ber_ok \<and> tag AND CBS_ASN1_CONSTRUCTED \<noteq> 0 \<and> ?k = 0")
      case True
      with R False have "out = take (?t + 1) cbs" "rest = drop (?t + 1) cbs" "h = ?t + 1"
        by (auto simp: CBS_get_bytes_eq split: if_splits)
      moreover have "b = 0x80" using bk True by (auto simp: byte_def)
      ultimately show ?thesis using True by (auto simp: cbs hd element_ok_def)
    next
      case ind: False
      then have k: "1 \<le> ?k" "?k \<le> 4" using R False by (auto split: if_splits)
      then obtain len64 hd3 where u: "cbs_get_u hd2 ?k = (Some len64, hd3)"
        using R False ind by (auto split: if_splits option.splits prod.splits)
      then obtain xs where xs: "hd2 = xs @ hd3" "length xs = ?k" "len64 = be_load xs"
        by (auto simp: cbs_get_u_Some)
      have chk: "\<not> be_load xs < 128" "drop_bit ((?k - 1) * 8) (be_load xs) \<noteq> 0"
        using R False ind k u xs by (auto split: if_splits)
      note L = long_form_total [OF xs(2) k chk]
      let ?n = "unat (be_load xs)"
      have tot: "unat (be_load xs + of_nat (?t + 1 + ?k) :: u64) = ?n + (?t + 1 + ?k)"
        using L(2) k length_der_tag(2) [of tag] by (intro unat_total_len) auto
      from R False ind k u xs chk tot
      have out: "?n + (?t + 1 + ?k) \<le> length cbs" "out = take (?n + (?t + 1 + ?k)) cbs"
        "rest = drop (?n + (?t + 1 + ?k)) cbs" "h = ?t + 1 + ?k"
        by (auto simp: CBS_get_bytes_eq split: if_splits)
      have lb: "length (take ?n hd3) = ?n" using out(1) xs by (simp add: cbs hd)
      have "out = der_tlv tag (take ?n hd3)"
        using out xs lb L(1) bk by (simp add: cbs hd der_tlv_def der_header_def)
      moreover have "h = length (der_header tag (length (take ?n hd3)))"
        unfolding lb using out(4) L(1) xs(2) by (simp add: der_header_def)
      ultimately have "\<exists>body. length body < 2 ^ 32 \<and> out = der_tlv tag body \<and>
          h = length (der_header tag (length body))"
        using lb L(2) by (intro exI [of _ "take ?n hd3"]) simp
      then have "element_ok ber_ok tag h out" by (simp add: element_ok_def)
      moreover have "cbs = out @ rest" using out(2,3) by simp
      ultimately show ?thesis by simp
    qed
  qed
qed

lemma der_len_bound:
  assumes "n < 2 ^ 32"
  shows "length (der_len n) \<le> 5"
  using len_bytes_bounds(3) [of n] by (simp add: length_der_len)

theorem asn1_element_complete:
  assumes "length body < 2 ^ 32"
  shows "cbs_get_any_asn1_element (der_tlv tag body @ rest) ber_ok =
    (Some (tag, length (der_header tag (length body)), der_tlv tag body), rest)"
proof -
  let ?n = "length body" and ?t = "length (der_tag tag)"
  let ?cbs = "der_tlv tag body @ rest"
  have cbs: "?cbs = der_tag tag @ der_len ?n @ body @ rest"
    by (simp add: der_tlv_def der_header_def)
  have P: "parse_asn1_tag ?cbs = (Some tag, der_len ?n @ body @ rest)"
    unfolding cbs by (rule parse_asn1_tag_complete)
  show ?thesis
  proof (cases "?n < 128")
    case True
    have ub: "unat (byte ?n) = ?n" using True by simp
    have "byte ?n AND 0x80 = 0" using True by (simp add: and_80_zero ub)
    moreover have "CBS_get_bytes ?cbs (?n + (?t + 1)) = (Some (der_tlv tag body), rest)"
      using True by (intro CBS_get_bytes_append) (simp add: der_tlv_def der_header_def der_len_def)
    moreover have "CBS_len ?cbs - CBS_len (body @ rest) = ?t + 1"
      using True by (simp add: cbs CBS_len_def der_len_def)
    moreover have "der_len ?n @ body @ rest = byte ?n # body @ rest"
      "length (der_header tag ?n) = ?t + 1"
      using True by (simp_all add: der_len_def der_header_def)
    ultimately show ?thesis
      unfolding cbs_get_any_asn1_element_def P by (simp add: ub Let_def)
  next
    case False
    define k where "k = len_bytes ?n"
    have k: "?n < 256 ^ k" "1 \<le> k" "k \<le> 4"
      using len_bytes_bounds [of ?n] assms by (simp_all add: k_def)
    let ?b = "byte (128 + k)"
    have ub: "unat ?b = 128 + k" using k by (intro unat_byte) auto
    have b80: "?b AND 0x80 \<noteq> 0" by (simp add: and_80_zero ub)
    have bk: "unat (?b AND 0x7f) = k" using k by (simp add: unat_and_7f ub)
    define xs where "xs = be_bytes k ?n"
    have xs: "length xs = k" "be_val xs = ?n"
      using k by (simp_all add: xs_def be_val_be_bytes)
    then have ld: "unat (be_load xs) = ?n" using k by (simp add: unat_be_load)
    have dl: "der_len ?n = ?b # xs" using False by (simp add: der_len_def k_def xs_def)
    have c1: "\<not> be_load xs < 128" using ld False by (simp add: word_less_nat_alt)
    have "256 ^ (k - 1) \<le> ?n"
      using False by (auto simp: k_def len_bytes_def)
    then have "(2::nat) ^ ((k - 1) * 8) \<le> ?n"
      by (simp only: pow_256)
    then have c2: "drop_bit ((k - 1) * 8) (be_load xs) \<noteq> 0"
      by (simp add: drop_bit_zero_iff ld)
    have tot: "unat (be_load xs + of_nat (?t + 1 + k) :: u64) = ?n + (?t + 1 + k)"
      using assms k length_der_tag(2) [of tag] ld by (subst unat_total_len) auto
    have c3: "\<not> be_load xs + of_nat (?t + 1) + of_nat k < be_load xs"
      using tot ld by (simp add: word_less_nat_alt add.assoc)
    have get: "CBS_get_bytes ?cbs (?n + (?t + 1 + k)) = (Some (der_tlv tag body), rest)"
      using dl xs by (intro CBS_get_bytes_append) (simp add: der_tlv_def der_header_def)
    have hl: "CBS_len ?cbs - CBS_len (xs @ body @ rest) = ?t + 1"
      using xs dl by (simp add: cbs CBS_len_def)
    have get_u: "cbs_get_u (xs @ body @ rest) k = (Some (be_load xs), body @ rest)"
      using xs(1) by (rule cbs_get_u_append)
    have hd: "length (der_header tag ?n) = ?t + 1 + k"
      using dl xs(1) by (simp add: der_header_def)
    have g1: "\<not> (ber_ok \<and> tag AND CBS_ASN1_CONSTRUCTED \<noteq> 0 \<and> k = 0)" "\<not> (k = 0 \<or> k > 4)"
      using k by auto
    show ?thesis
      unfolding cbs_get_any_asn1_element_def P dl append_Cons CBS_get_u8_simps option.case prod.case
        Let_def hl if_not_P [OF b80] bk if_not_P [OF g1(1)] if_not_P [OF g1(2)] get_u
        if_not_P [OF c1] if_not_P [OF c2] if_not_P [OF c3] tot get then_get_simps hd ..
  qed
qed

lemma asn1_indefinite_complete:
  assumes "tag AND CBS_ASN1_CONSTRUCTED \<noteq> 0"
  shows "cbs_get_any_asn1_element (der_tag tag @ 0x80 # rest) True =
    (Some (tag, Suc (length (der_tag tag)), der_tag tag @ [0x80]), rest)"
proof -
  have "CBS_get_bytes ((der_tag tag @ [0x80]) @ rest) (Suc (length (der_tag tag)))
      = (Some (der_tag tag @ [0x80]), rest)"
    by (rule CBS_get_bytes_append) simp
  then show ?thesis
    using assms by (simp add: cbs_get_any_asn1_element_def parse_asn1_tag_complete CBS_len_def Let_def)
qed

theorem CBS_get_any_asn1_element_iff:
  "CBS_get_any_asn1_element cbs = (Some (tag, h, out), rest) \<longleftrightarrow>
    (\<exists>body. length body < 2 ^ 32 \<and> out = der_tlv tag body \<and> cbs = out @ rest \<and>
       h = length (der_header tag (length body)))"
  unfolding CBS_get_any_asn1_element_def
  by (auto dest!: asn1_element_sound simp: element_ok_def asn1_element_complete)

lemma CBS_skip_header [simp]:
  "CBS_skip (der_tlv tag body) (length (der_header tag (length body))) = (Some (), body)"
  by (simp add: der_tlv_def)

lemma get_any_asn1_element_tlv:
  "length body < 2 ^ 32 \<Longrightarrow> CBS_get_any_asn1_element (der_tlv tag body @ rest) =
    (Some (tag, length (der_header tag (length body)), der_tlv tag body), rest)"
  unfolding CBS_get_any_asn1_element_def by (rule asn1_element_complete)

theorem CBS_get_any_asn1_iff:
  "CBS_get_any_asn1 cbs = (Some (tag, body), rest) \<longleftrightarrow>
    cbs = der_tlv tag body @ rest \<and> length body < 2 ^ 32"
  (is "?L \<longleftrightarrow> ?R")
proof
  assume ?L
  then show ?R by (auto simp: CBS_get_any_asn1_def then_get_Some CBS_get_any_asn1_element_iff)
next
  assume ?R
  then show ?L by (simp add: CBS_get_any_asn1_def get_any_asn1_element_tlv)
qed

theorem CBS_get_asn1_iff:
  "CBS_get_asn1 cbs tag = (Some body, rest) \<longleftrightarrow>
    cbs = der_tlv tag body @ rest \<and> length body < 2 ^ 32"
  (is "?L \<longleftrightarrow> ?R")
proof
  assume ?L
  then show ?R by (auto simp: CBS_get_asn1_def cbs_get_asn1_def then_get_Some
        CBS_get_any_asn1_element_iff split: if_splits)
next
  assume ?R
  then show ?L by (simp add: CBS_get_asn1_def cbs_get_asn1_def get_any_asn1_element_tlv)
qed

theorem CBS_get_asn1_element_iff:
  "CBS_get_asn1_element cbs tag = (Some out, rest) \<longleftrightarrow>
    (\<exists>body. out = der_tlv tag body \<and> cbs = out @ rest \<and> length body < 2 ^ 32)"
  by (auto simp: CBS_get_asn1_element_def cbs_get_asn1_def then_get_Some
      CBS_get_any_asn1_element_iff split: if_splits)

lemma der_tlv_nonempty: "0 < length (der_tlv tag body)"
  using length_der_tag(1) [of tag] by (auto simp: der_tlv_def der_header_def)

lemma der_tlv_cancel:
  "length b1 < 2 ^ 32 \<Longrightarrow> length b2 < 2 ^ 32 \<Longrightarrow>
    der_tlv t1 b1 @ r1 = der_tlv t2 b2 @ r2 \<Longrightarrow> t1 = t2 \<and> b1 = b2 \<and> r1 = r2"
  using CBS_get_any_asn1_iff [of "der_tlv t1 b1 @ r1" t1 b1 r1]
    CBS_get_any_asn1_iff [of "der_tlv t1 b1 @ r1" t2 b2 r2] by auto

end
