(* ===== verification/Cbb.thy ===== *)
theory Cbb
  imports Der
begin

text \<open>
  \<^verbatim>\<open>crypto/bytestring/cbb.c\<close>: the builder \<open>CBB\<close>. All \<open>CBB\<close> objects that write to one
  buffer form a chain: the root, its child, the child's child. A state is the shared buffer and
  that chain; a call names the object it is given by its depth in the chain (0 is the root).
  An object that has been flushed away has a NULL base in C and is a depth beyond the
  chain here: every call on it fails. Operations return whether the C function returned 1, and
  the state after the call.
\<close>

section \<open>State\<close>

text \<open>\<open>struct cbb_buffer_st\<close>: \<open>cbuf\<close> is the allocated block of \<open>ccap\<close> bytes.\<close>

record cbb_buffer =
  cbuf :: "u8 list"
  clen :: nat
  ccap :: nat
  can_resize :: bool
  cerror :: bool

text \<open>The fields of a child \<open>CBB\<close>.\<close>

record cbb_child =
  coffset :: nat
  pending_len_len :: nat
  pending_is_asn1 :: bool

record CBB =
  cbase :: "cbb_buffer option"
  children :: "cbb_child list"

definition CBB_zero :: CBB where
  "CBB_zero = \<lparr>cbase = None, children = []\<rparr>"

definition cbb_init :: "allocator \<Rightarrow> u8 list \<Rightarrow> nat \<Rightarrow> bool \<times> CBB" where
  "cbb_init mal buf cap =
     (case OPENSSL_malloc mal 32 of
        None \<Rightarrow> (False, CBB_zero)
      | Some _ \<Rightarrow>
          (True, CBB_zero\<lparr>cbase := Some \<lparr>cbuf = buf, clen = 0, ccap = cap, can_resize = True,
                                         cerror = False\<rparr>\<rparr>))"

definition CBB_init :: "allocator \<Rightarrow> nat \<Rightarrow> bool \<times> CBB" where
  "CBB_init mal initial_capacity =
     (case OPENSSL_malloc mal initial_capacity of
        None \<Rightarrow> if initial_capacity > 0 then (False, CBB_zero) else cbb_init mal [] 0
      | Some buf \<Rightarrow> cbb_init mal buf initial_capacity)"

definition CBB_init_fixed :: "allocator \<Rightarrow> u8 list \<Rightarrow> bool \<times> CBB" where
  "CBB_init_fixed mal buf =
     (case cbb_init mal buf (length buf) of
        (False, cbb) \<Rightarrow> (False, cbb)
      | (True, cbb) \<Rightarrow>
          (True, cbb\<lparr>cbase := map_option (\<lambda>b. b\<lparr>can_resize := False\<rparr>) (cbase cbb)\<rparr>))"

definition CBB_cleanup :: "nat \<Rightarrow> CBB \<Rightarrow> CBB" where
  "CBB_cleanup d cbb = (if d \<noteq> 0 then cbb else cbb\<lparr>cbase := None\<rparr>)"

section \<open>The buffer\<close>

definition cbb_buffer_reserve :: "allocator \<Rightarrow> cbb_buffer \<Rightarrow> nat \<Rightarrow> bool \<times> cbb_buffer" where
  "cbb_buffer_reserve mal b len =
     (let newlen = (clen b + len) mod SIZE_MOD
      in if newlen < clen b then (False, b\<lparr>cerror := True\<rparr>)
         else if newlen > ccap b then
           (if \<not> can_resize b then (False, b\<lparr>cerror := True\<rparr>)
            else
              let newcap = ccap b * 2 mod SIZE_MOD;
                  newcap = (if newcap < ccap b \<or> newcap < newlen then newlen else newcap)
              in (case OPENSSL_realloc mal (Some (ccap b, cbuf b)) newcap of
                    None \<Rightarrow> (False, b\<lparr>cerror := True\<rparr>)
                  | Some newbuf \<Rightarrow> (True, b\<lparr>cbuf := newbuf, ccap := newcap\<rparr>)))
         else (True, b))"

definition cbb_buffer_add :: "allocator \<Rightarrow> cbb_buffer \<Rightarrow> nat \<Rightarrow> bool \<times> cbb_buffer" where
  "cbb_buffer_add mal b len =
     (case cbb_buffer_reserve mal b len of
        (False, b) \<Rightarrow> (False, b)
      | (True, b) \<Rightarrow> (True, b\<lparr>clen := clen b + len\<rparr>))"

text \<open>Writing bytes into the block at a position.\<close>

definition buf_write :: "cbb_buffer \<Rightarrow> nat \<Rightarrow> u8 list \<Rightarrow> cbb_buffer" where
  "buf_write b pos bs =
     b\<lparr>cbuf := take pos (cbuf b) @ bs @ drop (pos + length bs) (cbuf b)\<rparr>"

definition cbb_buffer_add_u :: "allocator \<Rightarrow> cbb_buffer \<Rightarrow> u64 \<Rightarrow> nat \<Rightarrow> bool \<times> cbb_buffer" where
  "cbb_buffer_add_u mal b v len_len =
     (if len_len = 0 then (True, b)
      else (case cbb_buffer_add mal b len_len of
              (False, b') \<Rightarrow> (False, b')
            | (True, b') \<Rightarrow>
                let (bs, v) = be_store len_len v;
                    b' = buf_write b' (clen b) bs
                in if v \<noteq> 0 then (False, b'\<lparr>cerror := True\<rparr>) else (True, b')))"

section \<open>Flushing\<close>

text \<open>The number of length bytes, the initial length byte and what is left of the length.\<close>

definition asn1_len_form :: "nat \<Rightarrow> nat \<times> u8 \<times> nat" where
  "asn1_len_form len =
     (if len > 0xffffff then (5, 0x80 OR 4, len)
      else if len > 0xffff then (4, 0x80 OR 3, len)
      else if len > 0xff then (3, 0x80 OR 2, len)
      else if len > 0x7f then (2, 0x80 OR 1, len)
      else (1, byte len, 0))"

text \<open>The ASN.1 part of \<open>CBB_flush\<close>: makes room for a longer length, writes its initial byte and
  leaves the remaining length bytes pending.\<close>

definition flush_asn1_len ::
    "allocator \<Rightarrow> cbb_buffer \<Rightarrow> cbb_child \<Rightarrow> nat \<Rightarrow> nat \<Rightarrow>
      bool \<times> cbb_buffer \<times> cbb_child \<times> nat" where
  "flush_asn1_len mal b c child_start len =
     (if len > 0xfffffffe then (False, b, c, len)
      else
        let (len_len, initial_length_byte, len') = asn1_len_form len;
            (ok, b) =
              (if len_len \<noteq> 1 then
                 let extra_bytes = len_len - 1
                 in (case cbb_buffer_add mal b extra_bytes of
                       (False, b) \<Rightarrow> (False, b)
                     | (True, b) \<Rightarrow>
                         (True, buf_write b (child_start + extra_bytes)
                                  (take len (drop child_start (cbuf b)))))
               else (True, b))
        in if \<not> ok then (False, b, c, len')
           else (True, buf_write b (coffset c) [initial_length_byte],
                 c\<lparr>coffset := coffset c + 1, pending_len_len := len_len - 1\<rparr>, len'))"

text \<open>\<open>CBB_flush\<close> on an object whose descendants are the given chain.\<close>

fun flush_chain ::
    "allocator \<Rightarrow> cbb_buffer \<Rightarrow> cbb_child list \<Rightarrow> bool \<times> cbb_buffer \<times> cbb_child list" where
  "flush_chain mal b [] = (\<not> cerror b, b, [])"
| "flush_chain mal b (c # cs) =
     (if cerror b then (False, b, c # cs)
      else if pending_len_len c = 0 then (True, b, c # cs)
      else
        let child_start = (coffset c + pending_len_len c) mod SIZE_MOD
        in (case flush_chain mal b cs of
              (ok, b, cs) \<Rightarrow>
                if \<not> ok \<or> child_start < coffset c \<or> clen b < child_start
                then (False, b\<lparr>cerror := True\<rparr>, c # cs)
                else
                  let len = clen b - child_start;
                      (ok, b, c, len) =
                        (if pending_is_asn1 c then flush_asn1_len mal b c child_start len
                         else (True, b, c, len))
                  in if \<not> ok then (False, b\<lparr>cerror := True\<rparr>, c # cs)
                     else
                       let (bs, rest) = be_store (pending_len_len c) (of_nat len);
                           b = buf_write b (coffset c) bs
                       in if rest \<noteq> 0 then (False, b\<lparr>cerror := True\<rparr>, c # cs)
                          else (True, b, [])))"

definition CBB_flush :: "allocator \<Rightarrow> nat \<Rightarrow> CBB \<Rightarrow> bool \<times> CBB" where
  "CBB_flush mal d cbb =
     (case cbase cbb of
        None \<Rightarrow> (False, cbb)
      | Some b \<Rightarrow>
          if d > length (children cbb) then (False, cbb)
          else
            let (ok, b, cs) = flush_chain mal b (drop d (children cbb))
            in (ok, \<lparr>cbase = Some b, children = take d (children cbb) @ cs\<rparr>))"

text \<open>The idiom \<open>if (!CBB_flush(cbb)) return 0;\<close> followed by an operation on the base.\<close>

definition flush_then ::
    "allocator \<Rightarrow> nat \<Rightarrow> CBB \<Rightarrow> (cbb_buffer \<Rightarrow> bool \<times> cbb_buffer) \<Rightarrow> bool \<times> CBB" where
  "flush_then mal d cbb f =
     (case CBB_flush mal d cbb of
        (False, cbb) \<Rightarrow> (False, cbb)
      | (True, cbb) \<Rightarrow>
          (case cbase cbb of
             None \<Rightarrow> (False, cbb)
           | Some b \<Rightarrow> let (ok, b) = f b in (ok, cbb\<lparr>cbase := Some b\<rparr>)))"

text \<open>Two calls in a row, the second only when the first returned 1.\<close>

definition and_then :: "bool \<times> 's \<Rightarrow> ('s \<Rightarrow> bool \<times> 's) \<Rightarrow> bool \<times> 's" where
  "and_then r f = (case r of (ok, s) \<Rightarrow> if ok then f s else (False, s))"

lemma and_then_ret [simp]: "and_then r (\<lambda>s. (True, s)) = r"
  by (auto simp: and_then_def split: prod.splits)

section \<open>Operations\<close>

definition CBB_finish :: "allocator \<Rightarrow> nat \<Rightarrow> CBB \<Rightarrow> bool \<Rightarrow> u8 list option \<times> CBB" where
  "CBB_finish mal d cbb out_null =
     (if d \<noteq> 0 then (None, cbb)
      else (case CBB_flush mal 0 cbb of
              (False, cbb) \<Rightarrow> (None, cbb)
            | (True, cbb) \<Rightarrow>
                (case cbase cbb of
                   None \<Rightarrow> (None, cbb)
                 | Some b \<Rightarrow>
                     if can_resize b \<and> out_null then (None, cbb)
                     else (Some (take (clen b) (cbuf b)), CBB_cleanup 0 cbb))))"

text \<open>The bytes an object without children holds.\<close>

definition cbb_start :: "nat \<Rightarrow> CBB \<Rightarrow> nat" where
  "cbb_start d cbb =
     (if d = 0 then 0
      else coffset (children cbb ! (d - 1)) + pending_len_len (children cbb ! (d - 1)))"

definition CBB_len :: "nat \<Rightarrow> CBB \<Rightarrow> nat" where
  "CBB_len d cbb = (case cbase cbb of None \<Rightarrow> 0 | Some b \<Rightarrow> clen b - cbb_start d cbb)"

definition CBB_data :: "nat \<Rightarrow> CBB \<Rightarrow> u8 list" where
  "CBB_data d cbb = (case cbase cbb of None \<Rightarrow> [] | Some b \<Rightarrow> drop (cbb_start d cbb) (cbuf b))"

definition cbb_add_length_prefixed :: "allocator \<Rightarrow> nat \<Rightarrow> CBB \<Rightarrow> nat \<Rightarrow> bool \<times> CBB" where
  "cbb_add_length_prefixed mal d cbb len_len =
     (case CBB_flush mal d cbb of
        (False, cbb) \<Rightarrow> (False, cbb)
      | (True, cbb) \<Rightarrow>
          (case cbase cbb of
             None \<Rightarrow> (False, cbb)
           | Some b \<Rightarrow>
               let off = clen b
               in (case cbb_buffer_add mal b len_len of
                     (False, b) \<Rightarrow> (False, cbb\<lparr>cbase := Some b\<rparr>)
                   | (True, b) \<Rightarrow>
                       (True, \<lparr>cbase = Some (buf_write b off (replicate len_len 0)),
                               children = take d (children cbb) @
                                 [\<lparr>coffset = off, pending_len_len = len_len,
                                   pending_is_asn1 = False\<rparr>]\<rparr>))))"

definition CBB_add_u8_length_prefixed :: "allocator \<Rightarrow> nat \<Rightarrow> CBB \<Rightarrow> bool \<times> CBB" where
  "CBB_add_u8_length_prefixed mal d cbb = cbb_add_length_prefixed mal d cbb 1"

definition CBB_add_u16_length_prefixed :: "allocator \<Rightarrow> nat \<Rightarrow> CBB \<Rightarrow> bool \<times> CBB" where
  "CBB_add_u16_length_prefixed mal d cbb = cbb_add_length_prefixed mal d cbb 2"

definition CBB_add_u24_length_prefixed :: "allocator \<Rightarrow> nat \<Rightarrow> CBB \<Rightarrow> bool \<times> CBB" where
  "CBB_add_u24_length_prefixed mal d cbb = cbb_add_length_prefixed mal d cbb 3"

definition CBB_add_bytes :: "allocator \<Rightarrow> nat \<Rightarrow> CBB \<Rightarrow> u8 list \<Rightarrow> bool \<times> CBB" where
  "CBB_add_bytes mal d cbb data =
     flush_then mal d cbb (\<lambda>b.
       (case cbb_buffer_add mal b (length data) of
          (False, b') \<Rightarrow> (False, b')
        | (True, b') \<Rightarrow> (True, buf_write b' (clen b) data)))"

text \<open>The space \<open>CBB_add_space\<close> hands out starts at the old length.\<close>

definition CBB_add_space :: "allocator \<Rightarrow> nat \<Rightarrow> CBB \<Rightarrow> nat \<Rightarrow> bool \<times> CBB" where
  "CBB_add_space mal d cbb len = flush_then mal d cbb (\<lambda>b. cbb_buffer_add mal b len)"

definition CBB_reserve :: "allocator \<Rightarrow> nat \<Rightarrow> CBB \<Rightarrow> nat \<Rightarrow> bool \<times> CBB" where
  "CBB_reserve mal d cbb len = flush_then mal d cbb (\<lambda>b. cbb_buffer_reserve mal b len)"

definition CBB_did_write :: "nat \<Rightarrow> CBB \<Rightarrow> nat \<Rightarrow> bool \<times> CBB" where
  "CBB_did_write d cbb len =
     (case cbase cbb of
        None \<Rightarrow> (False, cbb)
      | Some b \<Rightarrow>
          let newlen = (clen b + len) mod SIZE_MOD
          in if d < length (children cbb) \<or> newlen < clen b \<or> newlen > ccap b then (False, cbb)
             else (True, cbb\<lparr>cbase := Some (b\<lparr>clen := newlen\<rparr>)\<rparr>))"

definition CBB_add_u8 :: "allocator \<Rightarrow> nat \<Rightarrow> CBB \<Rightarrow> u8 \<Rightarrow> bool \<times> CBB" where
  "CBB_add_u8 mal d cbb v = flush_then mal d cbb (\<lambda>b. cbb_buffer_add_u mal b (ucast v) 1)"

definition CBB_add_u16 :: "allocator \<Rightarrow> nat \<Rightarrow> CBB \<Rightarrow> u16 \<Rightarrow> bool \<times> CBB" where
  "CBB_add_u16 mal d cbb v = flush_then mal d cbb (\<lambda>b. cbb_buffer_add_u mal b (ucast v) 2)"

definition CBB_add_u16le :: "allocator \<Rightarrow> nat \<Rightarrow> CBB \<Rightarrow> u16 \<Rightarrow> bool \<times> CBB" where
  "CBB_add_u16le mal d cbb v = CBB_add_u16 mal d cbb (CRYPTO_bswap2 v)"

definition CBB_add_u24 :: "allocator \<Rightarrow> nat \<Rightarrow> CBB \<Rightarrow> u32 \<Rightarrow> bool \<times> CBB" where
  "CBB_add_u24 mal d cbb v = flush_then mal d cbb (\<lambda>b. cbb_buffer_add_u mal b (ucast v) 3)"

definition CBB_add_u32 :: "allocator \<Rightarrow> nat \<Rightarrow> CBB \<Rightarrow> u32 \<Rightarrow> bool \<times> CBB" where
  "CBB_add_u32 mal d cbb v = flush_then mal d cbb (\<lambda>b. cbb_buffer_add_u mal b (ucast v) 4)"

definition CBB_add_u32le :: "allocator \<Rightarrow> nat \<Rightarrow> CBB \<Rightarrow> u32 \<Rightarrow> bool \<times> CBB" where
  "CBB_add_u32le mal d cbb v = CBB_add_u32 mal d cbb (CRYPTO_bswap4 v)"

definition CBB_add_u64 :: "allocator \<Rightarrow> nat \<Rightarrow> CBB \<Rightarrow> u64 \<Rightarrow> bool \<times> CBB" where
  "CBB_add_u64 mal d cbb v = flush_then mal d cbb (\<lambda>b. cbb_buffer_add_u mal b v 8)"

definition CBB_add_u64le :: "allocator \<Rightarrow> nat \<Rightarrow> CBB \<Rightarrow> u64 \<Rightarrow> bool \<times> CBB" where
  "CBB_add_u64le mal d cbb v = CBB_add_u64 mal d cbb (CRYPTO_bswap8 v)"

definition CBB_discard_child :: "nat \<Rightarrow> CBB \<Rightarrow> CBB" where
  "CBB_discard_child d cbb =
     (if d \<ge> length (children cbb) then cbb
      else cbb\<lparr>cbase := map_option (\<lambda>b. b\<lparr>clen := coffset (children cbb ! d)\<rparr>) (cbase cbb),
               children := take d (children cbb)\<rparr>)"

text \<open>A loop that calls \<open>CBB_add_u8\<close> on each byte and returns on the first failure.\<close>

fun add_u8_each :: "allocator \<Rightarrow> nat \<Rightarrow> CBB \<Rightarrow> u8 list \<Rightarrow> bool \<times> CBB" where
  "add_u8_each mal d cbb [] = (True, cbb)"
| "add_u8_each mal d cbb (b # bs) =
     and_then (CBB_add_u8 mal d cbb b) (\<lambda>cbb. add_u8_each mal d cbb bs)"

function base128_len :: "u64 \<Rightarrow> nat" where
  "base128_len copy = (if copy > 0 then Suc (base128_len (drop_bit 7 copy)) else 0)"
  by pat_completeness auto
termination
  by (relation "measure unat")
     (auto simp: unat_drop_bit_word unat_gt_0 intro!: div_less_dividend)

declare base128_len.simps [simp del]

definition base128_byte :: "u64 \<Rightarrow> nat \<Rightarrow> u8" where
  "base128_byte v i =
     (let b = ucast (drop_bit (7 * i) v AND 0x7f) in if i \<noteq> 0 then b OR 0x80 else b)"

definition add_base128_integer :: "allocator \<Rightarrow> nat \<Rightarrow> CBB \<Rightarrow> u64 \<Rightarrow> bool \<times> CBB" where
  "add_base128_integer mal d cbb v =
     (let len_len = base128_len v;
          len_len = (if len_len = 0 then 1 else len_len)
      in add_u8_each mal d cbb (map (base128_byte v) (rev [0..<len_len])))"

definition CBB_add_asn1 :: "allocator \<Rightarrow> nat \<Rightarrow> CBB \<Rightarrow> u32 \<Rightarrow> bool \<times> CBB" where
  "CBB_add_asn1 mal d cbb tag =
     (let tag_bits = ucast (drop_bit CBS_ASN1_TAG_SHIFT tag) AND 0xe0 :: u8;
          tag_number = tag AND CBS_ASN1_TAG_NUMBER_MASK
      in and_then (CBB_flush mal d cbb) (\<lambda>cbb.
         and_then
           (if tag_number \<ge> 0x1f then
              and_then (CBB_add_u8 mal d cbb (tag_bits OR 0x1f))
                (\<lambda>cbb. add_base128_integer mal d cbb (ucast tag_number))
            else CBB_add_u8 mal d cbb (tag_bits OR ucast tag_number)) (\<lambda>cbb.
         let off = (case cbase cbb of None \<Rightarrow> 0 | Some b \<Rightarrow> clen b)
         in and_then (CBB_add_u8 mal d cbb 0) (\<lambda>cbb.
              (True, cbb\<lparr>children := take d (children cbb) @
                 [\<lparr>coffset = off, pending_len_len = 1, pending_is_asn1 = True\<rparr>]\<rparr>)))))"

text \<open>The loop of \<open>CBB_add_asn1_uint64\<close> over the bytes of the value, most significant first;
  the second result is \<open>started\<close>.\<close>

fun asn1_uint64_emit :: "allocator \<Rightarrow> nat \<Rightarrow> CBB \<Rightarrow> bool \<Rightarrow> u8 list \<Rightarrow> bool \<times> bool \<times> CBB" where
  "asn1_uint64_emit mal d cbb started [] = (True, started, cbb)"
| "asn1_uint64_emit mal d cbb started (b # bs) =
     (if \<not> started \<and> b = 0 then asn1_uint64_emit mal d cbb started bs
      else
        (case (if \<not> started \<and> b AND 0x80 \<noteq> 0 then CBB_add_u8 mal d cbb 0 else (True, cbb)) of
           (False, cbb) \<Rightarrow> (False, started, cbb)
         | (True, cbb) \<Rightarrow>
             (case CBB_add_u8 mal d cbb b of
                (False, cbb) \<Rightarrow> (False, True, cbb)
              | (True, cbb) \<Rightarrow> asn1_uint64_emit mal d cbb True bs)))"

definition CBB_add_asn1_uint64 :: "allocator \<Rightarrow> nat \<Rightarrow> CBB \<Rightarrow> u64 \<Rightarrow> bool \<times> CBB" where
  "CBB_add_asn1_uint64 mal d cbb v =
     and_then (CBB_add_asn1 mal d cbb CBS_ASN1_INTEGER) (\<lambda>cbb.
       (case asn1_uint64_emit mal (Suc d) cbb False
               (map (\<lambda>i. ucast (drop_bit (8 * (7 - i)) v AND 0xff)) [0..<8]) of
          (ok, started, cbb) \<Rightarrow>
            if \<not> ok then (False, cbb)
            else
              and_then (if \<not> started then CBB_add_u8 mal (Suc d) cbb 0 else (True, cbb))
                (\<lambda>cbb. CBB_flush mal d cbb)))"

text \<open>The index at which \<open>CBB_add_asn1_int64\<close> starts, counting down from 7.\<close>

fun int64_start :: "u8 list \<Rightarrow> nat \<Rightarrow> nat" where
  "int64_start bytes 0 = 0"
| "int64_start bytes (Suc n) =
     (if bytes ! Suc n = 0xff \<and> bytes ! n AND 0x80 \<noteq> 0 then int64_start bytes n else Suc n)"

definition CBB_add_asn1_int64 :: "allocator \<Rightarrow> nat \<Rightarrow> CBB \<Rightarrow> u64 \<Rightarrow> bool \<times> CBB" where
  "CBB_add_asn1_int64 mal d cbb v =
     (if sint v \<ge> 0 then CBB_add_asn1_uint64 mal d cbb v
      else
        let bytes = rev (fst (be_store 8 v));
            start = int64_start bytes 7
        in and_then (CBB_add_asn1 mal d cbb CBS_ASN1_INTEGER) (\<lambda>cbb.
           and_then (add_u8_each mal (Suc d) cbb (map (\<lambda>i. bytes ! i) (rev [0..<Suc start])))
             (\<lambda>cbb. CBB_flush mal d cbb)))"

definition CBB_add_asn1_octet_string :: "allocator \<Rightarrow> nat \<Rightarrow> CBB \<Rightarrow> u8 list \<Rightarrow> bool \<times> CBB" where
  "CBB_add_asn1_octet_string mal d cbb data =
     and_then (CBB_add_asn1 mal d cbb CBS_ASN1_OCTETSTRING) (\<lambda>cbb.
     and_then (CBB_add_bytes mal (Suc d) cbb data) (\<lambda>cbb. CBB_flush mal d cbb))"

definition CBB_add_asn1_bool :: "allocator \<Rightarrow> nat \<Rightarrow> CBB \<Rightarrow> int \<Rightarrow> bool \<times> CBB" where
  "CBB_add_asn1_bool mal d cbb v =
     and_then (CBB_add_asn1 mal d cbb CBS_ASN1_BOOLEAN) (\<lambda>cbb.
     and_then (CBB_add_u8 mal (Suc d) cbb (if v \<noteq> 0 then 0xff else 0))
       (\<lambda>cbb. CBB_flush mal d cbb))"

end
