(* ===== verification/CbbSpec.thy ===== *)
theory CbbSpec
  imports Cbb
begin

text \<open>
  The abstract builder and the proof that \<^verbatim>\<open>cbb.c\<close> implements it. An abstract state is the
  bytes of the root and the open length-prefixed segments below it, innermost last, each with
  the bytes written to it so far. Flushing an object replaces the segments below it by their
  encodings; writing to an object flushes it and appends. The relation \<open>rep\<close> connects an
  abstract state with the buffer and the chain of children; each operation that returns 1
  preserves it.
\<close>

section \<open>The buffer\<close>

definition buf_ok :: "cbb_buffer \<Rightarrow> bool" where
  "buf_ok b \<longleftrightarrow> clen b \<le> ccap b \<and> length (cbuf b) = ccap b \<and> ccap b < 2 ^ 63 - 8"

definition cbytes :: "cbb_buffer \<Rightarrow> u8 list" where
  "cbytes b = take (clen b) (cbuf b)"

lemma length_cbytes: "buf_ok b \<Longrightarrow> length (cbytes b) = clen b"
  by (simp add: buf_ok_def cbytes_def)

lemma reserve_True:
  assumes "malloc_contract mal" "buf_ok b" "n < 2 ^ 63" "cbb_buffer_reserve mal b n = (True, b')"
  shows "buf_ok b' \<and> clen b' = clen b \<and> cbytes b' = cbytes b \<and> clen b + n \<le> ccap b' \<and>
    cerror b' = cerror b \<and> can_resize b' = can_resize b"
proof -
  have ok: "clen b \<le> ccap b" "length (cbuf b) = ccap b" "ccap b < 2 ^ 63 - 8"
    using assms(2) by (auto simp: buf_ok_def)
  have nl: "(clen b + n) mod SIZE_MOD = clen b + n"
    using ok assms(3) by (simp add: SIZE_MOD_def)
  have nc: "ccap b * 2 mod SIZE_MOD = ccap b * 2"
    using ok by (simp add: SIZE_MOD_def)
  show ?thesis
  proof (cases "clen b + n > ccap b")
    case False
    then show ?thesis using assms nl by (simp add: cbb_buffer_reserve_def Let_def)
  next
    case True
    let ?c = "if ccap b * 2 < clen b + n then clen b + n else ccap b * 2"
    have c8: "?c + 8 < 2 ^ 64" "ccap b \<le> ?c" "clen b + n \<le> ?c"
      using ok assms(3) True by auto
    obtain nb where nb: "OPENSSL_realloc mal (Some (length (cbuf b), cbuf b)) ?c = Some nb"
      and b': "b' = b\<lparr>cbuf := nb, ccap := ?c\<rparr>"
      using assms(4) True nl nc ok
      by (auto simp: cbb_buffer_reserve_def Let_def split: if_splits option.splits)
    note R = OPENSSL_realloc_grow [OF assms(1) c8(1) _ nb]
    have "length nb = ?c" "?c < 2 ^ 63 - 8" "take (ccap b) nb = cbuf b"
      using R ok c8 by auto
    moreover have "take (clen b) nb = take (clen b) (cbuf b)"
      using calculation(3) ok by (metis min.absorb1 take_take)
    ultimately show ?thesis using b' c8 ok by (auto simp: buf_ok_def cbytes_def)
  qed
qed

lemma add_True:
  assumes "malloc_contract mal" "buf_ok b" "n < 2 ^ 63" "cbb_buffer_add mal b n = (True, b')"
  shows "buf_ok b' \<and> clen b' = clen b + n \<and> take (clen b) (cbuf b') = cbytes b \<and>
    cerror b' = cerror b \<and> can_resize b' = can_resize b"
proof -
  obtain c where c: "cbb_buffer_reserve mal b n = (True, c)" "b' = c\<lparr>clen := clen c + n\<rparr>"
    using assms(4) by (auto simp: cbb_buffer_add_def split: prod.splits bool.splits)
  from reserve_True [OF assms(1-3) c(1)] c(2) show ?thesis
    by (auto simp: buf_ok_def cbytes_def)
qed

lemma buf_write_ok:
  assumes "buf_ok b" "pos + length bs \<le> clen b"
  shows "buf_ok (buf_write b pos bs) \<and> clen (buf_write b pos bs) = clen b \<and>
    cbytes (buf_write b pos bs) = take pos (cbytes b) @ bs @ drop (pos + length bs) (cbytes b) \<and>
    cerror (buf_write b pos bs) = cerror b \<and> can_resize (buf_write b pos bs) = can_resize b"
proof -
  have "length (take pos (cbuf b)) = pos" "pos \<le> clen b" "min pos (clen b) = pos"
    using assms by (auto simp: buf_ok_def)
  then have "cbytes (buf_write b pos bs) = take pos (cbytes b) @ bs @ drop (pos + length bs) (cbytes b)"
    using assms(2) by (simp add: cbytes_def buf_write_def drop_take take_take)
  then show ?thesis
    using assms by (auto simp: buf_ok_def buf_write_def)
qed

lemma buf_write_sel [simp]:
  "clen (buf_write b pos bs) = clen b" "cerror (buf_write b pos bs) = cerror b"
  "can_resize (buf_write b pos bs) = can_resize b" "ccap (buf_write b pos bs) = ccap b"
  by (simp_all add: buf_write_def)

text \<open>Adding room and filling it appends.\<close>

lemma append_True:
  assumes "malloc_contract mal" "buf_ok b" "length data < 2 ^ 63"
    and "cbb_buffer_add mal b (length data) = (True, b')"
  shows "buf_ok (buf_write b' (clen b) data) \<and> cbytes (buf_write b' (clen b) data) = cbytes b @ data \<and>
    cerror (buf_write b' (clen b) data) = cerror b"
proof -
  note A = add_True [OF assms]
  then have W: "buf_ok (buf_write b' (clen b) data)"
    "cbytes (buf_write b' (clen b) data) = take (clen b) (cbytes b') @ data @ drop (clen b + length data) (cbytes b')"
    using buf_write_ok [of b' "clen b" data] by auto
  have "take (clen b) (cbytes b') = cbytes b"
    using A by (auto simp: cbytes_def)
  moreover have "drop (clen b + length data) (cbytes b') = []"
    using A length_cbytes [of b'] by simp
  ultimately show ?thesis using W A by simp
qed

lemma add_u_True:
  assumes "malloc_contract mal" "buf_ok b" "0 < k" "k \<le> 8" "cbb_buffer_add_u mal b v k = (True, b')"
  shows "buf_ok b' \<and> cbytes b' = cbytes b @ fst (be_store k v) \<and> cerror b' = cerror b \<and>
    snd (be_store k v) = 0"
proof -
  obtain c where c: "cbb_buffer_add mal b k = (True, c)"
    and b': "b' = buf_write c (clen b) (fst (be_store k v))" "snd (be_store k v) = 0"
    using assms(3,5)
    by (auto simp: cbb_buffer_add_u_def Let_def split: prod.splits bool.splits if_splits)
  have l: "length (fst (be_store k v)) < 2 ^ 63" using assms(4) by simp
  from c have c': "cbb_buffer_add mal b (length (fst (be_store k v))) = (True, c)" by simp
  from append_True [OF assms(1,2) l c'] b' show ?thesis by simp
qed

section \<open>Abstract builder\<close>

datatype seg_kind = Prefixed nat | Asn1

type_synonym segs = "(seg_kind \<times> u8 list) list"
type_synonym abuilder = "u8 list \<times> segs"

fun pll :: "seg_kind \<Rightarrow> nat" where
  "pll (Prefixed k) = k"
| "pll Asn1 = 1"

fun seg_enc :: "seg_kind \<Rightarrow> u8 list \<Rightarrow> u8 list" where
  "seg_enc (Prefixed k) s = be_bytes k (length s) @ s"
| "seg_enc Asn1 s = der_len (length s) @ s"

fun seg_fits :: "seg_kind \<Rightarrow> nat \<Rightarrow> bool" where
  "seg_fits (Prefixed k) n = (n < 256 ^ k)"
| "seg_fits Asn1 n = (n \<le> 0xfffffffe)"

fun merge_segs :: "segs \<Rightarrow> u8 list" where
  "merge_segs [] = []"
| "merge_segs ((k, s) # r) = seg_enc k (s @ merge_segs r)"

fun segs_fit :: "segs \<Rightarrow> bool" where
  "segs_fit [] = True"
| "segs_fit ((k, s) # r) = (seg_fits k (length (s @ merge_segs r)) \<and> segs_fit r)"

text \<open>The bytes in the buffer while the segments are open, and their children.\<close>

fun raw_segs :: "segs \<Rightarrow> u8 list" where
  "raw_segs [] = []"
| "raw_segs ((k, s) # r) = replicate (pll k) 0 @ s @ raw_segs r"

fun frames :: "nat \<Rightarrow> segs \<Rightarrow> cbb_child list" where
  "frames off [] = []"
| "frames off ((k, s) # r) =
     \<lparr>coffset = off, pending_len_len = pll k, pending_is_asn1 = (k = Asn1)\<rparr>
       # frames (off + pll k + length s) r"

definition segs_wf :: "segs \<Rightarrow> bool" where
  "segs_wf segs \<longleftrightarrow> (\<forall>(k, s) \<in> set segs. 1 \<le> pll k \<and> pll k \<le> 8)"

lemma segs_wf_simps [simp]:
  "segs_wf []" "segs_wf ((k, s) # r) \<longleftrightarrow> 1 \<le> pll k \<and> pll k \<le> 8 \<and> segs_wf r"
  by (auto simp: segs_wf_def)

lemma asn1_len_form_spec:
  assumes "n \<le> 0xfffffffe" "asn1_len_form n = (k, b, r)"
  shows "1 \<le> k" "k \<le> 5" "b # fst (be_store (k - 1) (of_nat r)) = der_len n"
    "snd (be_store (k - 1) (of_nat r)) = 0"
proof -
  have n: "n < 2 ^ 64" using assms(1) by simp
  have forms: "(k, b, r) \<in> (if n < 128 then {(1, byte n, 0)} else {(Suc (len_bytes n), byte (128 + len_bytes n), n)})"
    using assms by (auto simp: asn1_len_form_def len_bytes_def byte_def split: if_splits)
  then show "1 \<le> k" "k \<le> 5" using len_bytes_bounds(2,3) [of n] by (auto split: if_splits)
  show "b # fst (be_store (k - 1) (of_nat r)) = der_len n"
    using forms by (auto simp: der_len_def be_bytes_def split: if_splits)
  show "snd (be_store (k - 1) (of_nat r)) = 0"
  proof (cases "n < 128")
    case True
    then show ?thesis using forms by simp
  next
    case False
    then have "k - 1 = len_bytes n" "r = n" using forms by auto
    moreover have "n < 256 ^ len_bytes n" using assms(1) by (intro len_bytes_bounds) simp
    ultimately show ?thesis by (simp add: be_store_split(1) unat_of_nat_u64 [OF n])
  qed
qed

section \<open>Flushing merges the open segments\<close>

lemma flush_asn1_len_True:
  assumes "malloc_contract mal" "buf_ok b" "cbytes b = pre @ z # body" "coffset c = length pre"
    and "flush_asn1_len mal b c (length pre + 1) (length body) = (True, b', c', r')"
    and "asn1_len_form (length body) = (k, ib, r)"
  shows "length body \<le> 0xfffffffe \<and> r' = r \<and> coffset c' = length pre + 1 \<and>
    pending_len_len c' = k - 1 \<and> buf_ok b' \<and> cerror b' = cerror b \<and>
    (\<exists>junk. length junk = k - 1 \<and> cbytes b' = pre @ ib # junk @ body)"
proof -
  have lim: "length body \<le> 0xfffffffe" using assms(5) by (auto simp: flush_asn1_len_def split: if_splits)
  have cl: "clen b = length pre + 1 + length body"
    using length_cbytes [OF assms(2)] assms(3) by simp
  have k: "1 \<le> k" "k \<le> 5" using asn1_len_form_spec [OF lim assms(6)] by auto
  have c': "coffset c' = length pre + 1" "pending_len_len c' = k - 1" "r' = r"
    using assms(4-6) lim by (auto simp: flush_asn1_len_def Let_def split: if_splits prod.splits bool.splits)
  show ?thesis
  proof (cases "k = 1")
    case True
    then have b': "b' = buf_write b (length pre) [ib]"
      using assms(4-6) lim by (auto simp: flush_asn1_len_def Let_def split: if_splits)
    show ?thesis
      using buf_write_ok [OF assms(2), of "length pre" "[ib]"] cl assms(3) lim c' True
      by (auto simp: b')
  next
    case False
    let ?w = "\<lambda>c. buf_write c (length pre + 1 + (k - 1)) (take (length body) (drop (length pre + 1) (cbuf c)))"
    obtain b1 where add: "cbb_buffer_add mal b (k - 1) = (True, b1)"
      and b': "b' = buf_write (?w b1) (length pre) [ib]"
      using assms(4-6) lim False
      by (auto simp: flush_asn1_len_def Let_def split: if_splits prod.splits bool.splits)
    have "k - 1 < 2 ^ 63" using k by simp
    note A = add_True [OF assms(1,2) this add]
    have body: "take (length body) (drop (length pre + 1) (cbuf b1)) = body"
    proof -
      have "take (length body) (drop (length pre + 1) (take (clen b) (cbuf b1))) = body"
        using A assms(3) by simp
      then show ?thesis by (simp add: drop_take cl)
    qed
    obtain junk0 where cb1: "cbytes b1 = cbytes b @ junk0"
    proof -
      have "take (clen b) (cbytes b1) = cbytes b"
        using A by (simp add: cbytes_def min_def)
      then show ?thesis by (metis append_take_drop_id that)
    qed
    have "length (cbytes b1) = clen b + (k - 1)" using A length_cbytes by auto
    then have lj: "length junk0 = k - 1" using cb1 length_cbytes [OF assms(2)] by simp
    have fit: "length pre + 1 + (k - 1) + length body \<le> clen b1" using A cl by simp
    have W1: "buf_ok (?w b1)" "clen (?w b1) = clen b1" "cerror (?w b1) = cerror b"
      "cbytes (?w b1) = take (length pre + 1 + (k - 1)) (cbytes b1) @ body"
      using buf_write_ok [of b1 "length pre + 1 + (k - 1)" body] A fit cl cb1 assms(3) lj
      unfolding body by auto
    define junk where "junk = drop (length pre + 1) (take (length pre + 1 + (k - 1)) (cbytes b1))"
    have lk: "length junk = k - 1" using cb1 assms(3) lj by (simp add: junk_def)
    have "take (length pre + 1 + (k - 1)) (cbytes b1) = pre @ z # junk"
      unfolding junk_def cb1 assms(3) by simp
    then have "cbytes (?w b1) = pre @ z # junk @ body" using W1 by simp
    then have "cbytes b' = pre @ ib # junk @ body" "buf_ok b'" "cerror b' = cerror b"
      using buf_write_ok [of "?w b1" "length pre" "[ib]"] W1 fit unfolding b' by auto
    then show ?thesis using lim c' lk by auto
  qed
qed

lemma child_start_eq:
  assumes "buf_ok b" "off + k \<le> clen b"
  shows "(off + k) mod SIZE_MOD = off + k"
  using assms by (simp add: buf_ok_def SIZE_MOD_def)

theorem flush_chain_True:
  "malloc_contract mal \<Longrightarrow> buf_ok b \<Longrightarrow> cbytes b = pre @ raw_segs segs \<Longrightarrow> segs_wf segs \<Longrightarrow>
    flush_chain mal b (frames (length pre) segs) = (True, b', cs') \<Longrightarrow>
    cs' = [] \<and> buf_ok b' \<and> \<not> cerror b' \<and> cbytes b' = pre @ merge_segs segs \<and> segs_fit segs"
proof (induction segs arbitrary: b pre b' cs')
  case Nil
  then show ?case by auto
next
  case (Cons seg r)
  obtain k s where seg: "seg = (k, s)" by (cases seg)
  let ?P = "length pre" and ?body = "s @ merge_segs r"
  have k: "1 \<le> pll k" "pll k \<le> 8" "segs_wf r" using Cons.prems(4) seg by auto
  have lb: "length (cbytes b) = clen b" using Cons.prems(2) by (rule length_cbytes)
  have st: "(?P + pll k) mod SIZE_MOD = ?P + pll k"
    using lb Cons.prems(3) seg by (intro child_start_eq [OF Cons.prems(2)]) simp
  have pre': "length (pre @ replicate (pll k) 0 @ s) = ?P + pll k + length s" by simp
  define c where "c = \<lparr>coffset = ?P, pending_len_len = pll k, pending_is_asn1 = (k = Asn1)\<rparr>"
  obtain b1 cs1 where f1: "flush_chain mal b (frames (?P + pll k + length s) r) = (True, b1, cs1)"
    using Cons.prems(5) k(1) st seg by (auto simp: Let_def split: if_splits prod.splits)
  have IH: "cs1 = []" "buf_ok b1" "\<not> cerror b1" "cbytes b1 = (pre @ replicate (pll k) 0 @ s) @ merge_segs r" "segs_fit r"
    using Cons.IH [OF Cons.prems(1,2) _ k(3), of "pre @ replicate (pll k) 0 @ s" b1 cs1] f1 Cons.prems(3) seg
    by (auto simp: add.assoc)
  have cl: "clen b1 = ?P + pll k + length ?body"
    using length_cbytes [OF IH(2)] IH(4) by simp
  show ?case
  proof (cases k)
    case (Prefixed n)
    have n: "1 \<le> n" "n \<le> 8" using k Prefixed by auto
    have nlen: "length ?body < 2 ^ 64" using cl IH(2) by (auto simp: buf_ok_def)
    have R: "snd (be_store n (of_nat (length ?body))) = 0" "cs' = []"
      "b' = buf_write b1 ?P (fst (be_store n (of_nat (length ?body))))"
      using Cons.prems(5) k(1) st f1 Prefixed cl seg
      by (auto simp: Let_def split: if_splits prod.splits)
    have "length ?body < 256 ^ n"
      using R(1) be_store_overflow [of n "of_nat (length ?body)"] unat_of_nat_u64 [OF nlen] by force
    moreover have "cbytes b' = pre @ be_bytes n (length ?body) @ ?body \<and> buf_ok b' \<and> \<not> cerror b'"
      using buf_write_ok [OF IH(2), of ?P "be_bytes n (length ?body)"] cl IH Prefixed R(3)
      by (simp add: be_bytes_def)
    ultimately show ?thesis using R(2) IH(5) Prefixed seg by simp
  next
    case Asn1
    have cb1: "cbytes b1 = pre @ 0 # ?body" using IH(4) Asn1 by simp
    have len1: "clen b1 - (?P + 1) = length ?body" using cl Asn1 by simp
    obtain kk ib rr where form: "asn1_len_form (length ?body) = (kk, ib, rr)" by (cases "asn1_len_form (length ?body)")
    obtain b2 c2 r2 where fl: "flush_asn1_len mal b1 c (?P + 1) (length ?body) = (True, b2, c2, r2)"
      and R: "snd (be_store (pending_len_len c2) (of_nat r2)) = 0" "cs' = []"
        "b' = buf_write b2 (coffset c2) (fst (be_store (pending_len_len c2) (of_nat r2)))"
      using Cons.prems(5) k(1) st f1 Asn1 len1 seg
      by (auto simp: Let_def c_def split: if_splits prod.splits)
    note F = flush_asn1_len_True [OF Cons.prems(1) IH(2) cb1 _ fl form]
    then obtain junk where J: "length junk = kk - 1" "cbytes b2 = pre @ ib # junk @ ?body" "buf_ok b2"
      "cerror b2 = cerror b1" "pending_len_len c2 = kk - 1" "coffset c2 = ?P + 1" "r2 = rr" "length ?body \<le> 0xfffffffe"
      by (auto simp: c_def)
    have "b' = buf_write b2 (?P + 1) (fst (be_store (kk - 1) (of_nat rr)))" using R J by simp
    then have "cbytes b' = (pre @ [ib]) @ fst (be_store (kk - 1) (of_nat rr)) @ ?body"
      "buf_ok b'" "\<not> cerror b'"
      using buf_write_ok [OF J(3), of "?P + 1" "fst (be_store (kk - 1) (of_nat rr))"]
        J IH(3) length_cbytes [OF J(3)] by auto
    moreover have "ib # fst (be_store (kk - 1) (of_nat rr)) = der_len (length ?body)"
      using asn1_len_form_spec [OF J(8) form] by simp
    ultimately show ?thesis using R(2) IH(5) Asn1 J(8) seg
      by simp
  qed
qed

section \<open>The refinement relation\<close>

text \<open>Appending to the innermost object, flushing an object, writing to it, opening a child.\<close>

definition put :: "abuilder \<Rightarrow> u8 list \<Rightarrow> abuilder" where
  "put a bs =
     (case a of (s, segs) \<Rightarrow>
        if segs = [] then (s @ bs, [])
        else (s, butlast segs @ [(fst (last segs), snd (last segs) @ bs)]))"

definition collapse :: "nat \<Rightarrow> abuilder \<Rightarrow> abuilder" where
  "collapse d a = put (fst a, take d (snd a)) (merge_segs (drop d (snd a)))"

definition a_write :: "nat \<Rightarrow> u8 list \<Rightarrow> abuilder \<Rightarrow> abuilder" where
  "a_write d bs a = put (collapse d a) bs"

definition a_open :: "nat \<Rightarrow> seg_kind \<Rightarrow> abuilder \<Rightarrow> abuilder" where
  "a_open d k a = (fst (collapse d a), snd (collapse d a) @ [(k, [])])"

definition a_raw :: "abuilder \<Rightarrow> u8 list" where
  "a_raw a = fst a @ raw_segs (snd a)"

definition rep :: "CBB \<Rightarrow> abuilder \<Rightarrow> bool" where
  "rep cbb a \<longleftrightarrow>
     (\<exists>b. cbase cbb = Some b \<and> buf_ok b \<and> \<not> cerror b \<and> cbytes b = a_raw a \<and>
        children cbb = frames (length (fst a)) (snd a) \<and> segs_wf (snd a))"

lemma raw_segs_append [simp]: "raw_segs (xs @ ys) = raw_segs xs @ raw_segs ys"
  by (induction xs rule: raw_segs.induct) auto

lemma frames_append [simp]:
  "frames off (xs @ ys) = frames off xs @ frames (off + length (raw_segs xs)) ys"
  by (induction xs arbitrary: off rule: raw_segs.induct) (auto simp: add.assoc)

lemma length_frames [simp]: "length (frames off xs) = length xs"
  by (induction off xs rule: frames.induct) auto

lemma segs_wf_append [simp]: "segs_wf (xs @ ys) \<longleftrightarrow> segs_wf xs \<and> segs_wf ys"
  by (auto simp: segs_wf_def)

lemma seg_snoc_cases: obtains "xs = []" | ys k t where "xs = ys @ [(k, t)]"
  by (cases xs rule: rev_cases) auto

lemma put_simps [simp]:
  "put (s, []) bs = (s @ bs, [])"
  "put (s, segs @ [(k, t)]) bs = (s, segs @ [(k, t @ bs)])"
  by (simp_all add: put_def)

lemma put_props [simp]:
  "a_raw (put a bs) = a_raw a @ bs"
  "frames (length (fst (put a bs))) (snd (put a bs)) = frames (length (fst a)) (snd a)"
  "segs_wf (snd (put a bs)) = segs_wf (snd a)"
  "length (snd (put a bs)) = length (snd a)"
  by (cases a; cases "snd a" rule: seg_snoc_cases; simp add: a_raw_def)+

lemma put_put [simp]: "put (put a x) y = put a (x @ y)"
  by (cases a; cases "snd a" rule: seg_snoc_cases; simp)

lemma put_Nil [simp]: "put a [] = a"
  by (cases a; cases "snd a" rule: seg_snoc_cases; simp)

lemma length_collapse [simp]: "d \<le> length (snd a) \<Longrightarrow> length (snd (collapse d a)) = d"
  by (simp add: collapse_def)

lemma collapse_id: "length (snd a) = d \<Longrightarrow> collapse d a = a"
  by (simp add: collapse_def)

lemma collapse_collapse [simp]: "d \<le> length (snd a) \<Longrightarrow> collapse d (collapse d a) = collapse d a"
  by (simp add: collapse_id)

lemma collapse_put [simp]: "d \<le> length (snd a) \<Longrightarrow> collapse d (put (collapse d a) bs) = put (collapse d a) bs"
  by (simp add: collapse_id)

lemma length_a_write [simp]: "d \<le> length (snd a) \<Longrightarrow> length (snd (a_write d bs a)) = d"
  by (simp add: a_write_def)

lemma a_write_a_write [simp]:
  "d \<le> length (snd a) \<Longrightarrow> a_write d y (a_write d x a) = a_write d (x @ y) a"
  by (simp add: a_write_def)

lemma collapse_a_write [simp]: "d \<le> length (snd a) \<Longrightarrow> collapse d (a_write d x a) = a_write d x a"
  by (simp add: a_write_def)

lemma a_write_collapse: "d \<le> length (snd a) \<Longrightarrow> a_write d x (collapse d a) = a_write d x a"
  by (simp add: a_write_def)

lemma a_open_collapse: "d \<le> length (snd a) \<Longrightarrow> a_open d k (collapse d a) = a_open d k a"
  by (simp add: a_open_def)

lemma length_a_open [simp]: "d \<le> length (snd a) \<Longrightarrow> length (snd (a_open d k a)) = Suc d"
  by (simp add: a_open_def)

text \<open>A child that was opened, filled and flushed is its encoding written to the parent.\<close>

lemma collapse_child:
  assumes "d \<le> length (snd a)"
  shows "collapse d (a_write (Suc d) bs (a_open d k a)) = a_write d (seg_enc k bs) a"
proof -
  let ?c = "collapse d a"
  have l: "length (snd ?c) = d" using assms by simp
  have "a_write (Suc d) bs (a_open d k a) = (fst ?c, snd ?c @ [(k, bs)])"
    using l by (simp add: a_write_def a_open_def collapse_id)
  then show ?thesis using l by (simp add: a_write_def) (simp add: collapse_def)
qed

lemma CBB_flush_True:
  assumes "malloc_contract mal" "rep cbb a" "CBB_flush mal d cbb = (True, cbb')"
  shows "d \<le> length (snd a) \<and> rep cbb' (collapse d a) \<and> segs_fit (drop d (snd a))"
proof -
  obtain b where b: "cbase cbb = Some b" "buf_ok b" "\<not> cerror b" "cbytes b = a_raw a"
    "children cbb = frames (length (fst a)) (snd a)" "segs_wf (snd a)"
    using assms(2) by (auto simp: rep_def)
  have d: "d \<le> length (snd a)"
    using assms(3) b by (auto simp: CBB_flush_def split: if_splits)
  define xs ys where "xs = take d (snd a)" and "ys = drop d (snd a)"
  have split: "snd a = xs @ ys" "length xs = d" using d by (simp_all add: xs_def ys_def)
  let ?pre = "fst a @ raw_segs xs"
  obtain b' cs' where f: "flush_chain mal b (frames (length ?pre) ys) = (True, b', cs')"
    and cbb': "cbb' = \<lparr>cbase = Some b', children = frames (length (fst a)) xs @ cs'\<rparr>"
    using assms(3) b d split by (auto simp: CBB_flush_def split: prod.splits)
  have "cs' = [] \<and> buf_ok b' \<and> \<not> cerror b' \<and> cbytes b' = ?pre @ merge_segs ys \<and> segs_fit ys"
    using b split by (intro flush_chain_True [OF assms(1) b(2) _ _ f]) (auto simp: a_raw_def)
  moreover have "collapse d a = put (fst a, xs) (merge_segs ys)"
    by (simp add: collapse_def xs_def ys_def)
  ultimately have "rep cbb' (collapse d a) \<and> segs_fit ys"
    using cbb' b(6) split by (auto simp: rep_def a_raw_def [of "(_, _)"])
  with d show ?thesis by (simp add: ys_def)
qed

lemma flush_then_True:
  assumes "malloc_contract mal" "rep cbb a" "flush_then mal d cbb f = (True, cbb')"
    and "\<And>b b'. buf_ok b \<Longrightarrow> \<not> cerror b \<Longrightarrow> f b = (True, b') \<Longrightarrow>
      buf_ok b' \<and> \<not> cerror b' \<and> cbytes b' = cbytes b @ bs"
  shows "d \<le> length (snd a) \<and> rep cbb' (a_write d bs a) \<and> segs_fit (drop d (snd a))"
proof -
  obtain c where c: "CBB_flush mal d cbb = (True, c)"
    using assms(3) by (auto simp: flush_then_def split: prod.splits bool.splits)
  note F = CBB_flush_True [OF assms(1,2) c]
  then obtain b where b: "cbase c = Some b" "buf_ok b" "\<not> cerror b" "cbytes b = a_raw (collapse d a)"
    "children c = frames (length (fst (collapse d a))) (snd (collapse d a))" "segs_wf (snd (collapse d a))"
    by (auto simp: rep_def)
  obtain b' where b': "f b = (True, b')" "cbb' = c\<lparr>cbase := Some b'\<rparr>"
    using assms(3) c b by (auto simp: flush_then_def Let_def split: prod.splits)
  from assms(4) [OF b(2,3) b'(1)] b b'(2) F show ?thesis
    by (auto simp: rep_def a_write_def)
qed

end
