(* ===== verification/CbbRefine.thy ===== *)
theory CbbRefine
  imports CbbSpec
begin

text \<open>
  Every writing operation of \<^verbatim>\<open>cbb.c\<close> that returns 1 refines its abstract counterpart: the
  integers and byte strings append, the length-prefixed and ASN.1 operations open a child.
  The typed ASN.1 writers append one complete DER element.
\<close>

section \<open>Bytes and integers\<close>

lemma and_then_True: "and_then r f = (True, s) \<longleftrightarrow> (\<exists>t. r = (True, t) \<and> f t = (True, s))"
  by (cases r) (auto simp: and_then_def)

lemma and_then_simps [simp]: "and_then (True, s) f = f s" "and_then (False, s) f = (False, s)"
  by (simp_all add: and_then_def)

lemma CBB_add_bytes_True:
  assumes "malloc_contract mal" "rep cbb a" "length data < 2 ^ 63"
    and "CBB_add_bytes mal d cbb data = (True, cbb')"
  shows "d \<le> length (snd a) \<and> rep cbb' (a_write d data a) \<and> segs_fit (drop d (snd a))"
proof (rule flush_then_True [OF assms(1,2) assms(4) [unfolded CBB_add_bytes_def]])
  fix b b'
  assume b: "buf_ok b" "\<not> cerror b"
    and w: "(case cbb_buffer_add mal b (length data) of (False, b') \<Rightarrow> (False, b')
        | (True, b') \<Rightarrow> (True, buf_write b' (clen b) data)) = (True, b')"
  then obtain c where "cbb_buffer_add mal b (length data) = (True, c)" "b' = buf_write c (clen b) data"
    by (auto split: prod.splits bool.splits)
  with append_True [OF assms(1) b(1) assms(3)] b(2)
  show "buf_ok b' \<and> \<not> cerror b' \<and> cbytes b' = cbytes b @ data" by auto
qed

lemma add_u_step:
  assumes "malloc_contract mal" "rep cbb a" "0 < k" "k \<le> 8"
    and "flush_then mal d cbb (\<lambda>b. cbb_buffer_add_u mal b v k) = (True, cbb')"
  shows "d \<le> length (snd a) \<and> rep cbb' (a_write d (fst (be_store k v)) a) \<and> segs_fit (drop d (snd a))"
  using assms(1,2,5) by (rule flush_then_True) (use add_u_True [OF assms(1) _ assms(3,4)] in auto)

lemma CBB_add_u8_True:
  assumes "malloc_contract mal" "rep cbb a" "CBB_add_u8 mal d cbb v = (True, cbb')"
  shows "d \<le> length (snd a) \<and> rep cbb' (a_write d [v] a) \<and> segs_fit (drop d (snd a))"
proof -
  have "ucast (ucast v :: u64) = v" by (simp add: word_unat_eq_iff unat_ucast8 unat_u8_64 unat_u8_less)
  then show ?thesis
    using add_u_step [OF assms(1,2) _ _ assms(3) [unfolded CBB_add_u8_def]] by simp
qed

text \<open>The multi-byte integers are written big-endian.\<close>

lemma be_bytes_unat: "be_bytes k (unat v) = fst (be_store k (v :: u64))"
  by (simp add: be_bytes_def)

lemma unat_ucast_64:
  "unat (ucast (x :: u16) :: u64) = unat x" "unat (ucast (y :: u32) :: u64) = unat y"
  by (simp_all add: unsigned_ucast_eq take_bit_nat_eq_self unat_u16_less [THEN less_trans]
      unat_u32_less [THEN less_trans])

lemma CBB_add_u16_True:
  assumes "malloc_contract mal" "rep cbb a" "CBB_add_u16 mal d cbb v = (True, cbb')"
  shows "d \<le> length (snd a) \<and> rep cbb' (a_write d (be_bytes 2 (unat v)) a) \<and> segs_fit (drop d (snd a))"
  using add_u_step [OF assms(1,2) _ _ assms(3) [unfolded CBB_add_u16_def]]
  by (simp only: be_bytes_unat [symmetric] unat_ucast_64)

lemma CBB_add_u24_True:
  assumes "malloc_contract mal" "rep cbb a" "CBB_add_u24 mal d cbb v = (True, cbb')"
  shows "d \<le> length (snd a) \<and> rep cbb' (a_write d (be_bytes 3 (unat v)) a) \<and> segs_fit (drop d (snd a))"
  using add_u_step [OF assms(1,2) _ _ assms(3) [unfolded CBB_add_u24_def]]
  by (simp only: be_bytes_unat [symmetric] unat_ucast_64)

lemma CBB_add_u32_True:
  assumes "malloc_contract mal" "rep cbb a" "CBB_add_u32 mal d cbb v = (True, cbb')"
  shows "d \<le> length (snd a) \<and> rep cbb' (a_write d (be_bytes 4 (unat v)) a) \<and> segs_fit (drop d (snd a))"
  using add_u_step [OF assms(1,2) _ _ assms(3) [unfolded CBB_add_u32_def]]
  by (simp only: be_bytes_unat [symmetric] unat_ucast_64)

lemma CBB_add_u64_True:
  assumes "malloc_contract mal" "rep cbb a" "CBB_add_u64 mal d cbb v = (True, cbb')"
  shows "d \<le> length (snd a) \<and> rep cbb' (a_write d (be_bytes 8 (unat v)) a) \<and> segs_fit (drop d (snd a))"
  using add_u_step [OF assms(1,2) _ _ assms(3) [unfolded CBB_add_u64_def]]
  by (simp only: be_bytes_unat [symmetric])

text \<open>A loop of \<open>CBB_add_u8\<close>; with no byte at all it does not even flush.\<close>

lemma add_u8_each_True:
  assumes "malloc_contract mal"
  shows "rep cbb a \<Longrightarrow> bs \<noteq> [] \<Longrightarrow> add_u8_each mal d cbb bs = (True, cbb') \<Longrightarrow>
    d \<le> length (snd a) \<and> rep cbb' (a_write d bs a) \<and> segs_fit (drop d (snd a))"
proof (induction bs arbitrary: cbb a)
  case (Cons b bs)
  then obtain c where c: "CBB_add_u8 mal d cbb b = (True, c)" "add_u8_each mal d c bs = (True, cbb')"
    by (auto simp: and_then_True)
  note U = CBB_add_u8_True [OF assms Cons.prems(1) c(1)]
  show ?case
  proof (cases "bs = []")
    case True
    then show ?thesis using U c by simp
  next
    case False
    from Cons.IH [OF _ False c(2), of "a_write d [b] a"] U show ?thesis by simp
  qed
qed simp

section \<open>Opening a child\<close>

lemma rep_open:
  assumes "rep cbb a" "children cbb = frames (length (fst a)) (snd a)" "length (snd a) = d"
    and "cbase cbb = Some b" "1 \<le> pll k" "pll k \<le> 8"
    and "buf_ok b'" "\<not> cerror b'" "cbytes b' = cbytes b @ replicate (pll k) 0"
  shows "rep \<lparr>cbase = Some b', children = take d (children cbb) @
      [\<lparr>coffset = clen b, pending_len_len = pll k, pending_is_asn1 = (k = Asn1)\<rparr>]\<rparr> (a_open d k a)"
proof -
  from assms(1,4) have b: "buf_ok b" "cbytes b = a_raw a" "segs_wf (snd a)" by (auto simp: rep_def)
  have "clen b = length (a_raw a)" using b length_cbytes [of b] by simp
  then show ?thesis
    using assms b by (auto simp: rep_def a_open_def collapse_id a_raw_def)
qed

lemma cbb_add_length_prefixed_True:
  assumes "malloc_contract mal" "rep cbb a" "1 \<le> k" "k \<le> 8"
    and "cbb_add_length_prefixed mal d cbb k = (True, cbb')"
  shows "d \<le> length (snd a) \<and> rep cbb' (a_open d (Prefixed k) a) \<and> segs_fit (drop d (snd a))"
proof -
  obtain c where c: "CBB_flush mal d cbb = (True, c)"
    using assms(5) by (auto simp: cbb_add_length_prefixed_def split: prod.splits bool.splits)
  note F = CBB_flush_True [OF assms(1,2) c]
  then obtain b where b: "cbase c = Some b" "buf_ok b" "\<not> cerror b"
    "children c = frames (length (fst (collapse d a))) (snd (collapse d a))"
    by (auto simp: rep_def)
  obtain b1 where b1: "cbb_buffer_add mal b k = (True, b1)"
    and cbb': "cbb' = \<lparr>cbase = Some (buf_write b1 (clen b) (replicate k 0)),
      children = take d (children c) @ [\<lparr>coffset = clen b, pending_len_len = k, pending_is_asn1 = False\<rparr>]\<rparr>"
    using assms(5) c b by (auto simp: cbb_add_length_prefixed_def Let_def split: prod.splits bool.splits)
  from b1 have b1': "cbb_buffer_add mal b (length (replicate k (0::u8))) = (True, b1)" by simp
  have "length (replicate k (0::u8)) < 2 ^ 63" using assms(4) by simp
  note A = append_True [OF assms(1) b(2) this b1']
  have "rep cbb' (a_open d (Prefixed k) (collapse d a))"
    unfolding cbb' using rep_open [OF _ b(4) _ b(1), of d "Prefixed k"] F A b(3) assms(3,4) by auto
  then show ?thesis using F by (simp add: a_open_collapse)
qed

section \<open>ASN.1 headers\<close>

lemma base128_len_spec: "0 < unat v \<Longrightarrow> base128_len v = Suc (length (hi7 (unat v div 128)))"
proof (induction v rule: base128_len.induct)
  case (1 v)
  have v: "0 < v" using "1.prems" by (simp add: word_gt_0 unat_gt_0)
  have u: "unat (drop_bit 7 v) = unat v div 128" by (simp add: unat_drop_bit_word)
  show ?case
  proof (cases "unat v div 128 = 0")
    case True
    then have "drop_bit 7 v = 0" using u by (metis unat_eq_zero)
    then have "base128_len (drop_bit 7 v) = 0" by (subst base128_len.simps) simp
    then show ?thesis using v True by (subst base128_len.simps) simp
  next
    case False
    then have "base128_len (drop_bit 7 v) = Suc (length (hi7 (unat v div 128 div 128)))"
      using "1.IH" v u by simp
    then show ?thesis using v False by (subst base128_len.simps) (simp add: hi7_step)
  qed
qed

lemma base128_byte_spec:
  "base128_byte v i = byte ((unat v div 128 ^ i) mod 128 + (if i = 0 then 0 else 128))"
proof -
  have "unat (drop_bit (7 * i) v AND 0x7f) = unat v div 2 ^ (7 * i) mod 2 ^ 7"
    using unat_and_mask [of "drop_bit (7 * i) v" 7] by (simp add: unat_drop_bit_word mask_eq_exp_minus_1)
  also have "(2::nat) ^ (7 * i) = 128 ^ i" by (simp add: power_mult)
  finally have u: "unat (drop_bit (7 * i) v AND 0x7f) = unat v div 128 ^ i mod 128" by simp
  then have b: "unat (ucast (drop_bit (7 * i) v AND 0x7f) :: u8) = unat v div 128 ^ i mod 128"
    by (simp add: unat_ucast8 mod_less [of _ 256])
  have "unat (x OR 0x80 :: u8) = unat x + 128" if "unat x < 128" for x
  proof -
    have "unat (push_bit 7 1 OR x) = unat (1::u8) * 2 ^ 7 + unat x"
      using that by (intro unat_shift_or) auto
    then show ?thesis by (simp add: or.commute)
  qed
  then have "unat (base128_byte v i) = unat v div 128 ^ i mod 128 + (if i = 0 then 0 else 128)"
    using b unfolding base128_byte_def Let_def by (cases "i = 0") simp_all
  then show ?thesis by (rule byte_eqI [symmetric])
qed

lemma upt_Suc_shift: "rev [0..<Suc n] = map Suc (rev [0..<n]) @ [0]"
  by (simp add: upt_conv_Cons map_Suc_upt rev_map [symmetric] del: upt_Suc)

lemma hi7_digits: "hi7 m = map (\<lambda>i. byte (128 + m div 128 ^ i mod 128)) (rev [0..<length (hi7 m)])"
proof (induction m rule: hi7.induct)
  case (1 m)
  show ?case
  proof (cases "m = 0")
    case False
    then have h: "hi7 m = hi7 (m div 128) @ [byte (128 + m mod 128)]" by (simp add: hi7_step)
    have "map (\<lambda>i. byte (128 + m div 128 ^ i mod 128)) (rev [0..<length (hi7 m)])
        = map (\<lambda>i. byte (128 + m div 128 div 128 ^ i mod 128)) (rev [0..<length (hi7 (m div 128))])
          @ [byte (128 + m mod 128)]"
      unfolding h by (simp add: upt_Suc_shift div_mult2_eq del: upt_Suc)
    then show ?thesis using "1.IH" [OF False] h by simp
  qed simp
qed

lemma base128_bytes:
  assumes "len_len = (if base128_len v = 0 then 1 else base128_len v)"
  shows "map (base128_byte v) (rev [0..<len_len]) = base128 (unat v)"
proof -
  have n: "len_len = Suc (length (hi7 (unat v div 128)))"
  proof (cases "unat v = 0")
    case True
    then have "v = 0" by (simp add: unat_eq_zero)
    then have "base128_len v = 0" by (subst base128_len.simps) simp
    then show ?thesis using assms True by simp
  qed (use base128_len_spec [of v] assms in auto)
  show ?thesis
    unfolding n upt_Suc_shift base128_def
    by (subst (2) hi7_digits) (simp add: base128_byte_spec div_mult2_eq add.commute)
qed

lemma add_base128_integer_True:
  assumes "malloc_contract mal" "rep cbb a" "add_base128_integer mal d cbb v = (True, cbb')"
  shows "d \<le> length (snd a) \<and> rep cbb' (a_write d (base128 (unat v)) a) \<and> segs_fit (drop d (snd a))"
proof -
  have "add_u8_each mal d cbb (base128 (unat v)) = (True, cbb')"
    using assms(3) by (simp add: add_base128_integer_def Let_def base128_bytes)
  then show ?thesis
    by (rule add_u8_each_True [OF assms(1,2), rotated]) (simp add: base128_def)
qed

text \<open>The identifier octet.\<close>

lemma tag_octet:
  assumes "unat x < 32"
  shows "(ucast (drop_bit CBS_ASN1_TAG_SHIFT tag) AND 0xe0 :: u8) OR x = byte (32 * tag_bits tag + unat x)"
proof -
  have "(ucast (drop_bit 24 tag) AND 0xe0 :: u8) = push_bit 5 (ucast (drop_bit 29 tag))"
  proof -
    have "(0xe0 :: u8) = push_bit 5 (mask 3)" by (simp add: mask_eq_exp_minus_1)
    then show ?thesis
      by (auto simp: bit_eq_iff bit_simps simp del: push_bit_numeral dest: bit_imp_le_length)
  qed
  moreover have b: "unat (ucast (drop_bit 29 tag) :: u8) = tag_bits tag"
    using tag_bits_less [of tag]
    by (simp add: unat_ucast8 unat_drop_bit_word tag_bits_def)
  moreover have "unat (push_bit 5 (ucast (drop_bit 29 tag)) OR x) = tag_bits tag * 2 ^ 5 + unat x"
    using assms tag_bits_less [of tag] unfolding b [symmetric] by (intro unat_shift_or) auto
  ultimately show ?thesis
    by (intro byte_eqI [symmetric]) (simp add: CBS_ASN1_TAG_SHIFT_def del: push_bit_numeral)
qed

lemma tag_number_word: "unat (tag AND CBS_ASN1_TAG_NUMBER_MASK) = tag_num tag"
  using unat_and_mask [of tag 29]
  by (simp add: CBS_ASN1_TAG_NUMBER_MASK_def CBS_ASN1_TAG_SHIFT_def tag_num_def mask_eq_exp_minus_1)

lemma CBB_add_asn1_True:
  assumes "malloc_contract mal" "rep cbb a" "CBB_add_asn1 mal d cbb tag = (True, cbb')"
  shows "d \<le> length (snd a) \<and> segs_fit (drop d (snd a)) \<and>
    rep cbb' (a_open d Asn1 (a_write d (der_tag tag) a))"
proof -
  let ?tb = "ucast (drop_bit CBS_ASN1_TAG_SHIFT tag) AND 0xe0 :: u8"
  let ?tn = "tag AND CBS_ASN1_TAG_NUMBER_MASK"
  obtain c0 c1 c2 where c0: "CBB_flush mal d cbb = (True, c0)"
    and c1: "(if ?tn \<ge> 0x1f then
              and_then (CBB_add_u8 mal d c0 (?tb OR 0x1f)) (\<lambda>cbb. add_base128_integer mal d cbb (ucast ?tn))
            else CBB_add_u8 mal d c0 (?tb OR ucast ?tn)) = (True, c1)"
    and c2: "CBB_add_u8 mal d c1 0 = (True, c2)"
    and cbb': "cbb' = c2\<lparr>children := take d (children c2) @
      [\<lparr>coffset = (case cbase c1 of None \<Rightarrow> 0 | Some b \<Rightarrow> clen b), pending_len_len = 1, pending_is_asn1 = True\<rparr>]\<rparr>"
    using assms(3) by (auto simp: CBB_add_asn1_def Let_def and_then_True)
  note F = CBB_flush_True [OF assms(1,2) c0]
  have ge: "?tn \<ge> 0x1f \<longleftrightarrow> 31 \<le> tag_num tag"
    using tag_number_word [of tag] by (simp add: word_le_nat_alt)
  have tag: "rep c1 (a_write d (der_tag tag) a)"
  proof (cases "31 \<le> tag_num tag")
    case True
    then obtain c where c: "CBB_add_u8 mal d c0 (?tb OR 0x1f) = (True, c)"
      "add_base128_integer mal d c (ucast ?tn) = (True, c1)"
      using c1 ge by (auto simp: and_then_True)
    have U: "rep c (a_write d [?tb OR 0x1f] a)"
      using CBB_add_u8_True [OF assms(1) _ c(1), of "collapse d a"] F by (simp add: a_write_collapse)
    have n: "unat (ucast ?tn :: u64) = tag_num tag"
      by (simp add: unat_ucast_64 tag_number_word)
    have t: "?tb OR 0x1f = byte (32 * tag_bits tag + 31)" using tag_octet [of "0x1f" tag] by simp
    show ?thesis
      using add_base128_integer_True [OF assms(1) U c(2)] F True t n by (simp add: der_tag_def)
  next
    case False
    then have c: "CBB_add_u8 mal d c0 (?tb OR ucast ?tn) = (True, c1)" using c1 ge by simp
    have n: "unat (ucast ?tn :: u8) = tag_num tag"
      using False by (simp add: unat_ucast8 tag_number_word)
    have "?tb OR ucast ?tn = byte (32 * tag_bits tag + tag_num tag)"
      using tag_octet [of "ucast ?tn" tag] n False by simp
    then show ?thesis
      using CBB_add_u8_True [OF assms(1) _ c, of "collapse d a"] F False
      by (simp add: a_write_collapse der_tag_def)
  qed
  let ?a = "a_write d (der_tag tag) a"
  have d: "length (snd ?a) = d" using F by simp
  from tag obtain b1 where b1: "cbase c1 = Some b1" "buf_ok b1" "cbytes b1 = a_raw ?a"
    "children c1 = frames (length (fst ?a)) (snd ?a)"
    by (auto simp: rep_def)
  have "rep c2 (a_write d [0] ?a)" using CBB_add_u8_True [OF assms(1) tag c2] by simp
  then obtain b2 where b2: "cbase c2 = Some b2" "buf_ok b2" "\<not> cerror b2" "cbytes b2 = a_raw ?a @ [0]"
    "children c2 = children c1"
    using b1(4) d by (auto simp: rep_def a_write_def collapse_id)
  have "cbb' = \<lparr>cbase = Some b2, children = take d (children c1) @
      [\<lparr>coffset = clen b1, pending_len_len = pll Asn1, pending_is_asn1 = (Asn1 = Asn1)\<rparr>]\<rparr>"
    using cbb' b1 b2 by (cases c2) simp
  also have "rep \<dots> (a_open d Asn1 ?a)"
    using rep_open [OF tag b1(4) d b1(1), of Asn1 b2] b1 b2 by simp
  finally show ?thesis using F by simp
qed

end
