(* ===== verification/Asn1Int.thy ===== *)
theory Asn1Int
  imports CbbRefine
begin

text \<open>
  The typed ASN.1 values of \<^verbatim>\<open>cbs.c\<close> and \<^verbatim>\<open>cbb.c\<close>: unsigned and signed 64-bit INTEGERs,
  BOOLEANs and OCTET STRINGs. The specification of an INTEGER is its minimal content; the
  parsers are shown to accept exactly the minimal contents and the writers to produce them.
\<close>

section \<open>Minimal contents\<close>

definition strip0 :: "u8 list \<Rightarrow> u8 list" where
  "strip0 bs = dropWhile (\<lambda>b. b = 0) bs"

text \<open>The unsigned content of a big-endian number, and the minimal two's complement content.\<close>

definition uint_content :: "u8 list \<Rightarrow> u8 list" where
  "uint_content bs =
     (let t = strip0 bs
      in if t = [] then [0] else if hd t AND 0x80 \<noteq> 0 then 0 # t else t)"

fun sint_content :: "u8 list \<Rightarrow> u8 list" where
  "sint_content (a # b # r) =
     (if a = 0 \<and> b AND 0x80 = 0 \<or> a = 0xff \<and> b AND 0x80 \<noteq> 0 then sint_content (b # r) else a # b # r)"
| "sint_content bs = bs"

fun sint_minimal :: "u8 list \<Rightarrow> bool" where
  "sint_minimal (a # b # r) \<longleftrightarrow> \<not> (a = 0 \<and> b AND 0x80 = 0 \<or> a = 0xff \<and> b AND 0x80 \<noteq> 0)"
| "sint_minimal bs \<longleftrightarrow> bs \<noteq> []"

definition sign_fill :: "u8 list \<Rightarrow> u8" where
  "sign_fill d = (if hd d AND 0x80 \<noteq> 0 then 0xff else 0)"

definition sign_extend :: "u8 list \<Rightarrow> u8 list" where
  "sign_extend d = replicate (8 - length d) (sign_fill d) @ d"

lemma strip0_simps [simp]: "strip0 [] = []" "strip0 (b # bs) = (if b = 0 then strip0 bs else b # bs)"
  by (simp_all add: strip0_def)

lemma strip0_replicate [simp]: "strip0 (replicate k 0 @ bs) = strip0 bs"
  by (induction k) auto

lemma be_val_strip0 [simp]: "be_val (strip0 bs) = be_val bs"
  by (induction bs) (auto simp: be_val_Cons)

lemma length_strip0: "length (strip0 bs) \<le> length bs"
  by (induction bs) auto

lemma strip0_strip0 [simp]: "strip0 (strip0 bs) = strip0 bs"
  by (induction bs) auto

lemma strip0_hd: "strip0 bs \<noteq> [] \<Longrightarrow> hd (strip0 bs) \<noteq> 0"
  by (induction bs) auto

lemma strip0_short: "be_val bs < 256 ^ k \<Longrightarrow> length (strip0 bs) \<le> k"
proof (rule ccontr)
  assume b: "be_val bs < 256 ^ k" "\<not> length (strip0 bs) \<le> k"
  then obtain x xs where x: "strip0 bs = x # xs" "k \<le> length xs" by (cases "strip0 bs") auto
  then have "0 < unat x" using strip0_hd [of bs] by (simp add: unat_gt_0)
  then have "256 ^ length xs \<le> be_val (strip0 bs)" by (simp add: x be_val_Cons trans_le_add1)
  moreover have "(256::nat) ^ k \<le> 256 ^ length xs" using x(2) by (rule power_increasing) simp
  ultimately show False using b(1) by simp
qed

lemma be_val_pad: "be_val (replicate k 0 @ bs) = be_val bs"
  by (induction k) (auto simp: be_val_Cons)

lemma be_bytes_strip0:
  assumes "be_val d < 256 ^ k" "k \<le> 8"
  shows "strip0 (be_bytes k (be_val d)) = strip0 d"
proof -
  have "be_bytes k (be_val d) = replicate (k - length (strip0 d)) 0 @ strip0 d"
    using strip0_short [OF assms(1)] assms by (intro be_val_inj) (simp_all add: be_val_be_bytes be_val_pad)
  then show ?thesis by simp
qed

definition uint_ok :: "u8 list \<Rightarrow> bool" where
  "uint_ok d \<longleftrightarrow> d \<noteq> [] \<and> d ! 0 AND 0x80 = 0 \<and> \<not> (d ! 0 = 0 \<and> length d > 1 \<and> d ! 1 AND 0x80 = 0)"

lemma uint_content_ok: "uint_ok (uint_content bs)" "be_val (uint_content bs) = be_val bs"
proof -
  show "uint_ok (uint_content bs)"
    using strip0_hd [of bs] by (cases "strip0 bs") (auto simp: uint_content_def uint_ok_def Let_def)
  have "be_val (uint_content bs) = be_val (strip0 bs)"
    by (auto simp: uint_content_def Let_def be_val_Cons simp del: be_val_strip0)
  then show "be_val (uint_content bs) = be_val bs" by simp
qed

lemma uint_ok_canonical:
  assumes "uint_ok d"
  shows "d = uint_content d"
proof (cases d)
  case (Cons a r)
  show ?thesis
  proof (cases "a = 0 \<and> r \<noteq> []")
    case True
    then obtain b s where r: "r = b # s" by (cases r) auto
    then have "b \<noteq> 0" "b AND 0x80 \<noteq> 0" using assms Cons True by (auto simp: uint_ok_def)
    then show ?thesis using Cons True r by (simp add: uint_content_def)
  next
    case False
    then show ?thesis using assms Cons by (auto simp: uint_content_def uint_ok_def)
  qed
qed (use assms in \<open>auto simp: uint_ok_def\<close>)

lemma uint_content_cong: "strip0 a = strip0 b \<Longrightarrow> uint_content a = uint_content b"
  by (simp add: uint_content_def)

lemma asn1_uint64_loop_iff:
  "asn1_uint64_loop out ds = Some v \<longleftrightarrow>
    unat out * 256 ^ length ds + be_val ds < 2 ^ 64 \<and> unat v = unat out * 256 ^ length ds + be_val ds"
proof (induction ds arbitrary: out)
  case Nil
  then show ?case using unat_u64_less [of out] by (auto simp: word_unat_eq_iff)
next
  case (Cons d ds)
  show ?case
  proof (cases "drop_bit 56 out = 0")
    case True
    then have "unat out < 2 ^ 56" by (simp only: drop_bit_zero_iff)
    then have "unat (push_bit 8 out OR ucast d) = 256 * unat out + unat d"
      using unat_shift_in [of out d] by (simp add: shift_in_def)
    then show ?thesis using True Cons.IH
      by (simp add: be_val_Cons algebra_simps del: push_bit_numeral)
  next
    case False
    then have "2 ^ 56 \<le> unat out" by (metis drop_bit_zero_iff not_less)
    moreover have "256 \<le> (256::nat) ^ length (d # ds)"
      using power_increasing [of 1 "length (d # ds)" "256::nat"] by simp
    ultimately have "2 ^ 56 * 256 \<le> unat out * 256 ^ length (d # ds)" by (rule mult_le_mono)
    then show ?thesis using False by simp
  qed
qed

theorem CBS_get_asn1_uint64_iff:
  "CBS_get_asn1_uint64 cbs = (Some v, rest) \<longleftrightarrow>
    cbs = der_tlv CBS_ASN1_INTEGER (uint_content (be_bytes 8 (unat v))) @ rest"
  (is "?L \<longleftrightarrow> ?R")
proof -
  have v: "unat v < 256 ^ 8" using unat_u64_less [of v] by simp
  have "?L \<longleftrightarrow> (\<exists>d. CBS_get_asn1 cbs CBS_ASN1_INTEGER = (Some d, rest) \<and> uint_ok d \<and> asn1_uint64_loop 0 d = Some v)"
    by (auto simp: CBS_get_asn1_uint64_def then_get_Some Let_def CBS_data_def CBS_len_def uint_ok_def
        split: if_splits)
  also have "\<dots> \<longleftrightarrow> (\<exists>d. cbs = der_tlv CBS_ASN1_INTEGER d @ rest \<and> length d < 2 ^ 32 \<and> uint_ok d \<and> be_val d = unat v)"
    using v by (auto simp: CBS_get_asn1_iff asn1_uint64_loop_iff)
  also have "\<dots> \<longleftrightarrow> ?R"
  proof
    assume "\<exists>d. cbs = der_tlv CBS_ASN1_INTEGER d @ rest \<and> length d < 2 ^ 32 \<and> uint_ok d \<and> be_val d = unat v"
    then obtain d where d: "cbs = der_tlv CBS_ASN1_INTEGER d @ rest" "uint_ok d" "be_val d = unat v" by auto
    have "d = uint_content d" by (rule uint_ok_canonical [OF d(2)])
    also have "\<dots> = uint_content (be_bytes 8 (unat v))"
      using be_bytes_strip0 [of d 8] v d(3) by (intro uint_content_cong) simp
    finally show ?R using d(1) by simp
  next
    assume ?R
    moreover have "be_val (uint_content (be_bytes 8 (unat v))) = unat v"
      using v by (simp add: uint_content_ok(2) be_val_be_bytes)
    moreover have "length (uint_content (be_bytes 8 (unat v))) < 2 ^ 32"
      using length_strip0 [of "be_bytes 8 (unat v)"] by (auto simp: uint_content_def Let_def)
    ultimately show "\<exists>d. cbs = der_tlv CBS_ASN1_INTEGER d @ rest \<and> length d < 2 ^ 32 \<and> uint_ok d \<and> be_val d = unat v"
      using uint_content_ok(1) by blast
  qed
  finally show ?thesis .
qed

section \<open>Signed integers\<close>

lemma sint_content_minimal: "bs \<noteq> [] \<Longrightarrow> sint_minimal (sint_content bs)"
  by (induction bs rule: sint_content.induct) auto

lemma sint_content_id: "sint_minimal d \<Longrightarrow> sint_content d = d"
  by (cases d rule: sint_content.cases) auto

lemma length_sint_content: "length (sint_content bs) \<le> length bs"
  by (induction bs rule: sint_content.induct) auto

lemma sint_content_ne: "bs \<noteq> [] \<Longrightarrow> sint_content bs \<noteq> []"
  by (induction bs rule: sint_content.induct) auto

lemma sint_content_pad:
  "d \<noteq> [] \<Longrightarrow> sint_content (replicate k (sign_fill d) @ d) = sint_content d"
proof (induction k)
  case (Suc k)
  obtain b r where br: "replicate k (sign_fill d) @ d = b # r"
    using Suc.prems by (cases "replicate k (sign_fill d) @ d") auto
  have "(b AND 0x80 = 0) = (sign_fill d = 0)"
    using br Suc.prems by (cases k; cases d) (auto simp: sign_fill_def split: if_splits)
  then show ?case using Suc br by (auto simp: sign_fill_def)
qed simp

lemma sint_content_extend:
  "bs \<noteq> [] \<Longrightarrow> replicate (length bs - length (sint_content bs)) (sign_fill (sint_content bs)) @ sint_content bs = bs
    \<and> sign_fill (sint_content bs) = sign_fill bs"
proof (induction bs rule: sint_content.induct)
  case (1 a b r)
  show ?case
  proof (cases "a = 0 \<and> b AND 0x80 = 0 \<or> a = 0xff \<and> b AND 0x80 \<noteq> 0")
    case True
    let ?c = "sint_content (b # r)"
    have IH: "replicate (length (b # r) - length ?c) (sign_fill ?c) @ ?c = b # r" "sign_fill ?c = sign_fill (b # r)"
      using "1.IH" [OF True] by auto
    have a: "a = sign_fill (b # r)" "sign_fill (a # b # r) = sign_fill (b # r)" using True by (auto simp: sign_fill_def)
    have "length ?c \<le> length (b # r)" by (rule length_sint_content)
    then have "length (a # b # r) - length ?c = Suc (length (b # r) - length ?c)" by simp
    then have "replicate (length (a # b # r) - length ?c) (sign_fill ?c) @ ?c = a # b # r"
      using IH a(1) by simp
    then show ?thesis using True IH(2) a(2) by simp
  next
    case False
    then show ?thesis by (simp only: sint_content.simps if_False) simp
  qed
qed auto

lemma int64_bytes:
  "length d \<le> 8 \<Longrightarrow>
    foldl (\<lambda>u i. u[i := d ! (length d - i - 1)]) (replicate 8 x) [0..<length d] = rev d @ replicate (8 - length d) x"
proof -
  assume l: "length d \<le> 8"
  have "foldl (\<lambda>u i. u[i := d ! (length d - i - 1)]) (replicate 8 x) [0..<n] =
      take n (rev d) @ replicate (8 - n) x" if "n \<le> length d" for n
    using that
  proof (induction n)
    case (Suc n)
    have "take n (rev d) @ replicate (8 - n) x = take n (rev d) @ x # replicate (8 - Suc n) x"
      using Suc.prems l by (simp add: Suc_diff_Suc flip: replicate_Suc)
    moreover have "take (Suc n) (rev d) = take n (rev d) @ [d ! (length d - n - 1)]"
      using Suc.prems by (simp add: take_Suc_conv_app_nth rev_nth)
    ultimately show ?case using Suc by (simp add: list_update_append)
  qed simp
  from this [of "length d"] show ?thesis by simp
qed

lemma int64_value:
  "length d \<le> 8 \<Longrightarrow> d \<noteq> [] \<Longrightarrow>
    le_load (foldl (\<lambda>u i. u[i := d ! (length d - i - 1)])
      (replicate 8 (if d ! 0 AND 0x80 \<noteq> 0 then 0xff else 0)) [0..<length d]) = be_load (sign_extend d)"
  by (subst int64_bytes) (simp_all add: le_load_def sign_extend_def sign_fill_def hd_conv_nth)

lemma sint_minimal_nth:
  "sint_minimal d \<longleftrightarrow> d \<noteq> [] \<and> \<not> (length d > 1 \<and> d ! 0 = 0 \<and> d ! 1 AND 0x80 = 0)
    \<and> \<not> (length d > 1 \<and> d ! 0 = 0xff \<and> d ! 1 AND 0x80 \<noteq> 0)"
  by (cases d rule: sint_minimal.cases) auto

lemma int64_body:
  "(let data = CBS_data d; len = CBS_len d
    in if len = 0 \<or> len > 8 then (None, cbs)
       else if len > 1 \<and> data ! 0 = 0 \<and> data ! 1 AND 0x80 = 0 then (None, cbs)
       else if len > 1 \<and> data ! 0 = 0xff \<and> data ! 1 AND 0x80 \<noteq> 0 then (None, cbs)
       else
         let is_negative = data ! 0 AND 0x80 \<noteq> 0;
             u_bytes = replicate 8 (if is_negative then 0xff else 0 :: u8);
             u_bytes = foldl (\<lambda>u i. u[i := data ! (len - i - 1)]) u_bytes [0..<len]
         in (Some (le_load u_bytes), cbs)) =
   (if length d \<le> 8 \<and> sint_minimal d then (Some (be_load (sign_extend d)), cbs) else (None, cbs))"
  unfolding sint_minimal_nth CBS_data_def CBS_len_def Let_def
  using int64_value [of d] by (cases "length d \<le> 8"; cases "d = []") simp_all

theorem CBS_get_asn1_int64_iff:
  "CBS_get_asn1_int64 cbs = (Some v, rest) \<longleftrightarrow>
    cbs = der_tlv CBS_ASN1_INTEGER (sint_content (be_bytes 8 (unat v))) @ rest"
  (is "?L \<longleftrightarrow> ?R")
proof -
  let ?bs = "be_bytes 8 (unat v)"
  have v: "unat v < 256 ^ 8" using unat_u64_less [of v] by simp
  have ne: "?bs \<noteq> []" using length_be_bytes [of 8 "unat v"] by (metis length_0_conv zero_neq_numeral)
  have val: "be_load bs = v \<longleftrightarrow> bs = ?bs" if "length bs = 8" for bs
    using that v be_bytes_be_val [of bs 8] by (auto simp: word_unat_eq_iff unat_be_load be_val_be_bytes)
  have "?L \<longleftrightarrow> (\<exists>d. CBS_get_asn1 cbs CBS_ASN1_INTEGER = (Some d, rest) \<and> length d \<le> 8 \<and> sint_minimal d
      \<and> be_load (sign_extend d) = v)"
    unfolding CBS_get_asn1_int64_def int64_body by (auto simp: then_get_Some split: if_splits)
  also have "\<dots> \<longleftrightarrow> (\<exists>d. cbs = der_tlv CBS_ASN1_INTEGER d @ rest \<and> length d \<le> 8 \<and> sint_minimal d \<and> sign_extend d = ?bs)"
  proof (rule ex_cong1)
    fix d :: "u8 list"
    have "length d \<le> 8 \<Longrightarrow> length d < 2 ^ 32" by simp
    moreover have "length d \<le> 8 \<Longrightarrow> be_load (sign_extend d) = v \<longleftrightarrow> sign_extend d = ?bs"
      by (rule val) (simp add: sign_extend_def)
    ultimately show "(CBS_get_asn1 cbs CBS_ASN1_INTEGER = (Some d, rest) \<and> length d \<le> 8 \<and> sint_minimal d
        \<and> be_load (sign_extend d) = v) = (cbs = der_tlv CBS_ASN1_INTEGER d @ rest \<and> length d \<le> 8
        \<and> sint_minimal d \<and> sign_extend d = ?bs)"
      unfolding CBS_get_asn1_iff by blast
  qed
  also have "\<dots> \<longleftrightarrow> ?R"
  proof
    assume "\<exists>d. cbs = der_tlv CBS_ASN1_INTEGER d @ rest \<and> length d \<le> 8 \<and> sint_minimal d \<and> sign_extend d = ?bs"
    then obtain d where d: "cbs = der_tlv CBS_ASN1_INTEGER d @ rest" "sint_minimal d" "sign_extend d = ?bs" by auto
    then have "d \<noteq> []" by auto
    then have "sint_content ?bs = d"
      using d(2,3) sint_content_pad [of d "8 - length d"] by (simp add: sign_extend_def sint_content_id)
    then show ?R using d(1) by simp
  next
    assume R: ?R
    have "sign_extend (sint_content ?bs) = ?bs"
      using sint_content_extend [OF ne] by (auto simp: sign_extend_def)
    then show "\<exists>d. cbs = der_tlv CBS_ASN1_INTEGER d @ rest \<and> length d \<le> 8 \<and> sint_minimal d \<and> sign_extend d = ?bs"
      using R length_sint_content [of ?bs] sint_content_minimal [OF ne] by auto
  qed
  finally show ?thesis .
qed

section \<open>The writers\<close>

text \<open>A child opened by \<open>CBB_add_asn1\<close>, written and flushed is one element.\<close>

lemma collapse_element:
  assumes "d \<le> length (snd a)"
  shows "collapse d (a_write (Suc d) bs (a_open d Asn1 (a_write d (der_tag tag) a)))
    = a_write d (der_tlv tag bs) a"
  using assms collapse_child [of d "a_write d (der_tag tag) a" bs Asn1]
  by (simp add: der_tlv_def der_header_def)

text \<open>The tail of every typed writer: bytes into the child and a flush of the parent.\<close>

lemma asn1_element_True:
  assumes "malloc_contract mal" "rep cbb a" "CBB_add_asn1 mal d cbb tag = (True, c)"
    and "\<And>a'. rep c a' \<Longrightarrow> rep c' (a_write (Suc d) bs a')"
    and "CBB_flush mal d c' = (True, cbb')"
  shows "d \<le> length (snd a) \<and> rep cbb' (a_write d (der_tlv tag bs) a)"
proof -
  note O = CBB_add_asn1_True [OF assms(1-3)]
  then have "rep c' (a_write (Suc d) bs (a_open d Asn1 (a_write d (der_tag tag) a)))"
    using assms(4) by blast
  from CBB_flush_True [OF assms(1) this assms(5)] O show ?thesis
    by (simp add: collapse_element)
qed

theorem CBB_add_asn1_octet_string_True:
  assumes "malloc_contract mal" "rep cbb a" "length data < 2 ^ 63"
    and "CBB_add_asn1_octet_string mal d cbb data = (True, cbb')"
  shows "d \<le> length (snd a) \<and> rep cbb' (a_write d (der_tlv CBS_ASN1_OCTETSTRING data) a)"
proof -
  obtain c c' where c: "CBB_add_asn1 mal d cbb CBS_ASN1_OCTETSTRING = (True, c)"
    "CBB_add_bytes mal (Suc d) c data = (True, c')" "CBB_flush mal d c' = (True, cbb')"
    using assms(4) by (auto simp: CBB_add_asn1_octet_string_def and_then_True)
  show ?thesis
    using CBB_add_bytes_True [OF assms(1) _ assms(3) c(2)]
    by (intro asn1_element_True [OF assms(1,2) c(1) _ c(3)]) auto
qed

theorem CBB_add_asn1_bool_True:
  assumes "malloc_contract mal" "rep cbb a" "CBB_add_asn1_bool mal d cbb v = (True, cbb')"
  shows "d \<le> length (snd a) \<and>
    rep cbb' (a_write d (der_tlv CBS_ASN1_BOOLEAN [if v \<noteq> 0 then 0xff else 0]) a)"
proof -
  obtain c c' where c: "CBB_add_asn1 mal d cbb CBS_ASN1_BOOLEAN = (True, c)"
    "CBB_add_u8 mal (Suc d) c (if v \<noteq> 0 then 0xff else 0) = (True, c')" "CBB_flush mal d c' = (True, cbb')"
    using assms(3) by (auto simp: CBB_add_asn1_bool_def and_then_True)
  show ?thesis
    using CBB_add_u8_True [OF assms(1) _ c(2)]
    by (intro asn1_element_True [OF assms(1,2) c(1) _ c(3)]) auto
qed

lemma emit_started:
  "asn1_uint64_emit mal d cbb True bs =
    (fst (add_u8_each mal d cbb bs), True, snd (add_u8_each mal d cbb bs))"
  by (induction bs arbitrary: cbb) (auto simp: and_then_def split: prod.splits bool.splits)

lemma emit_unstarted:
  "asn1_uint64_emit mal d cbb False bs =
    (if strip0 bs = [] then (True, False, cbb) else asn1_uint64_emit mal d cbb False (strip0 bs))"
  by (induction bs) auto

lemma emit_first:
  assumes "b \<noteq> 0" "asn1_uint64_emit mal d cbb False (b # r) = (True, started, c)"
  shows "add_u8_each mal d cbb (if b AND 0x80 \<noteq> 0 then 0 # b # r else b # r) = (True, c) \<and> started"
  using assms
  by (cases "b AND 0x80 = 0")
     (auto simp: emit_started and_then_def split_beta prod_eq_iff split: prod.splits bool.splits)

text \<open>The whole loop with the final zero writes the unsigned content.\<close>

lemma emit_content:
  assumes "malloc_contract mal" "rep cbb a" "asn1_uint64_emit mal d cbb False bs = (True, started, c)"
    and "(if \<not> started then CBB_add_u8 mal d c 0 else (True, c)) = (True, c')"
  shows "rep c' (a_write d (uint_content bs) a)"
proof (cases "strip0 bs")
  case Nil
  then have "c = cbb" "\<not> started" using assms(3) by (auto simp: emit_unstarted [of _ _ _ bs])
  then show ?thesis using CBB_add_u8_True [OF assms(1,2), of d 0 c'] assms(4) Nil
    by (auto simp: uint_content_def)
next
  case (Cons b r)
  then have nz: "b \<noteq> 0" using strip0_hd [of bs] by simp
  have e: "asn1_uint64_emit mal d cbb False (b # r) = (True, started, c)"
    using assms(3) Cons by (simp add: emit_unstarted [of _ _ _ bs])
  have each: "add_u8_each mal d cbb (uint_content bs) = (True, c) \<and> started"
    using emit_first [OF nz e] Cons by (simp add: uint_content_def Let_def)
  moreover have "uint_content bs \<noteq> []" by (auto simp: uint_content_def Let_def)
  ultimately show ?thesis using add_u8_each_True [OF assms(1,2), of "uint_content bs" d c] assms(4) by simp
qed

lemma ucast_and_ff: "ucast (x AND 0xff :: u64) = (ucast x :: u8)"
proof -
  have "(0xff :: u64) = mask 8" by (simp add: mask_eq_exp_minus_1)
  then show ?thesis by (auto simp: bit_eq_iff bit_simps dest: bit_imp_le_length)
qed

lemma be_store_digits: "fst (be_store n v) = map (\<lambda>i. ucast (drop_bit (8 * i) v)) (rev [0..<n])"
proof (induction n arbitrary: v)
  case (Suc n)
  show ?case
    unfolding upt_Suc_shift by (simp add: split_beta Suc.IH drop_bit_drop_bit o_def add.commute)
qed simp

lemma uint64_bytes:
  "map (\<lambda>i. ucast (drop_bit (8 * (7 - i)) v AND 0xff)) [0..<8] = be_bytes 8 (unat (v :: u64))"
proof -
  have "map (\<lambda>i. ucast (drop_bit (8 * (7 - i)) v)) [0..<8] = (map (\<lambda>i. ucast (drop_bit (8 * i) v)) (rev [0..<8]) :: u8 list)"
    by (simp add: upt_conv_Cons)
  then show ?thesis unfolding ucast_and_ff be_bytes_unat be_store_digits .
qed

theorem CBB_add_asn1_uint64_True:
  assumes "malloc_contract mal" "rep cbb a" "CBB_add_asn1_uint64 mal d cbb v = (True, cbb')"
  shows "d \<le> length (snd a) \<and>
    rep cbb' (a_write d (der_tlv CBS_ASN1_INTEGER (uint_content (be_bytes 8 (unat v)))) a)"
proof -
  obtain c started c1 c2 where c: "CBB_add_asn1 mal d cbb CBS_ASN1_INTEGER = (True, c)"
    "asn1_uint64_emit mal (Suc d) c False (be_bytes 8 (unat v)) = (True, started, c1)"
    "(if \<not> started then CBB_add_u8 mal (Suc d) c1 0 else (True, c1)) = (True, c2)"
    "CBB_flush mal d c2 = (True, cbb')"
    using assms(3) unfolding CBB_add_asn1_uint64_def and_then_True uint64_bytes
    by (fastforce simp: and_then_True split: prod.splits if_splits)
  show ?thesis
    using emit_content [OF assms(1) _ c(2,3)]
    by (intro asn1_element_True [OF assms(1,2) c(1) _ c(4)])
qed

text \<open>The signed writer drops leading bytes \<open>0xff\<close>; a non-negative value goes through the unsigned one.\<close>

lemma int64_start_le: "int64_start ys n \<le> n"
  by (induction n) auto

lemma int64_start_append: "n < length ys \<Longrightarrow> int64_start (ys @ zs) n = int64_start ys n"
  by (induction n) (auto simp: nth_append)

lemma take_append_le: "k \<le> length xs \<Longrightarrow> take k (xs @ ys) = take k xs"
  by simp

lemma int64_start_content:
  "xs \<noteq> [] \<Longrightarrow> hd xs AND 0x80 \<noteq> 0 \<Longrightarrow>
    rev (take (Suc (int64_start (rev xs) (length xs - 1))) (rev xs)) = sint_content xs"
proof (induction xs rule: sint_content.induct)
  case (1 a b r)
  let ?ys = "rev (b # r)"
  have n: "(?ys @ [a]) ! Suc (length r) = a" "(?ys @ [a]) ! length r = b"
    by (simp_all add: nth_append)
  have st: "int64_start (?ys @ [a]) (length r) = int64_start ?ys (length r)"
    by (rule int64_start_append) simp
  show ?case
  proof (cases "a = 0xff \<and> b AND 0x80 \<noteq> 0")
    case True
    have "rev (take (Suc (int64_start ?ys (length r))) ?ys) = sint_content (b # r)"
      using "1.IH" True by simp
    moreover have "take (Suc (int64_start ?ys (length r))) (?ys @ [a]) = take (Suc (int64_start ?ys (length r))) ?ys"
      using int64_start_le [of ?ys "length r"] by (intro take_append_le) simp
    moreover have "int64_start (rev (a # b # r)) (length (a # b # r) - 1) = int64_start ?ys (length r)"
    proof -
      have "rev (a # b # r) = ?ys @ [a]" "length (a # b # r) - 1 = Suc (length r)" by simp_all
      then show ?thesis using True n st by (simp only: int64_start.simps if_True) simp
    qed
    moreover have "sint_content (a # b # r) = sint_content (b # r)" using True by simp
    moreover have "rev (a # b # r) = ?ys @ [a]" by simp
    ultimately show ?thesis by metis
  next
    case False
    then show ?thesis using "1.prems" n by (auto simp: nth_append)
  qed
qed auto

lemma take_map_nth: "k \<le> length ys \<Longrightarrow> map ((!) ys) [0..<k] = take k ys"
  by (rule nth_equalityI) auto

lemma map_nth_rev: "k \<le> length ys \<Longrightarrow> map (\<lambda>i. ys ! i) (rev [0..<k]) = rev (take k ys)"
  by (simp add: rev_map [symmetric] take_map_nth)

lemma uint_eq_sint_content: "xs \<noteq> [] \<Longrightarrow> hd xs AND 0x80 = 0 \<Longrightarrow> uint_content xs = sint_content xs"
proof (induction xs rule: sint_content.induct)
  case (1 a b r)
  show ?case
  proof (cases "a = 0 \<and> b AND 0x80 = 0")
    case True
    then show ?thesis using 1 by (simp add: uint_content_def)
  next
    case False
    then show ?thesis using "1.prems" by (auto simp: uint_content_def Let_def)
  qed
qed (auto simp: uint_content_def)

lemma sint_neg_hd: "sint v < 0 \<longleftrightarrow> hd (be_bytes 8 (unat (v :: u64))) AND 0x80 \<noteq> 0"
proof -
  have h: "hd (be_bytes 8 (unat v)) = ucast (drop_bit 56 v)"
    unfolding be_bytes_unat be_store_digits by (simp add: upt_conv_Cons)
  have "bit v 63 \<longleftrightarrow> sint v < 0" using bit_last_iff [of v] by simp
  moreover have "bit v 63 \<longleftrightarrow> bit (ucast (drop_bit 56 v) :: u8) 7" by (simp add: bit_simps)
  moreover have "hd (be_bytes 8 (unat v)) AND 0x80 \<noteq> 0 \<longleftrightarrow> bit (ucast (drop_bit 56 v) :: u8) 7"
    unfolding h using and_pow_zero [of "ucast (drop_bit 56 v) :: u8" 7] by simp
  ultimately show ?thesis by simp
qed

text \<open>The bytes the signed writer emits for a negative value.\<close>

lemma int64_negative_bytes:
  assumes "\<not> 0 \<le> sint v"
  shows "map (\<lambda>i. rev (fst (be_store 8 v)) ! i) (rev [0..<Suc (int64_start (rev (fst (be_store 8 v))) 7)])
    = sint_content (be_bytes 8 (unat v))"
proof -
  let ?xs = "be_bytes 8 (unat v)"
  have l: "length ?xs = 8" by simp
  then have ne: "?xs \<noteq> []" by (metis list.size(3) zero_neq_numeral)
  let ?st = "int64_start (rev ?xs) 7"
  have "map (\<lambda>i. rev ?xs ! i) (rev [0..<Suc ?st]) = rev (take (Suc ?st) (rev ?xs))"
    using int64_start_le [of "rev ?xs" 7] l by (intro map_nth_rev) simp
  also have "\<dots> = sint_content ?xs"
    using int64_start_content [OF ne] sint_neg_hd [of v] assms l by simp
  finally show ?thesis unfolding be_bytes_unat [symmetric] .
qed

theorem CBB_add_asn1_int64_True:
  assumes "malloc_contract mal" "rep cbb a" "CBB_add_asn1_int64 mal d cbb v = (True, cbb')"
  shows "d \<le> length (snd a) \<and>
    rep cbb' (a_write d (der_tlv CBS_ASN1_INTEGER (sint_content (be_bytes 8 (unat v)))) a)"
proof -
  let ?xs = "be_bytes 8 (unat v)"
  have l: "length ?xs = 8" by simp
  then have ne: "?xs \<noteq> []" by (metis list.size(3) zero_neq_numeral)
  show ?thesis
  proof (cases "sint v \<ge> 0")
    case True
    then have "uint_content ?xs = sint_content ?xs"
      using sint_neg_hd [of v] ne by (intro uint_eq_sint_content) auto
    then show ?thesis
      using CBB_add_asn1_uint64_True [OF assms(1,2), of d v cbb'] assms(3) True
      by (simp add: CBB_add_asn1_int64_def)
  next
    case False
    obtain c c' where c: "CBB_add_asn1 mal d cbb CBS_ASN1_INTEGER = (True, c)"
      "add_u8_each mal (Suc d) c (sint_content ?xs) = (True, c')" "CBB_flush mal d c' = (True, cbb')"
      using assms(3) False unfolding CBB_add_asn1_int64_def Let_def int64_negative_bytes [OF False]
      by (auto simp: and_then_True)
    show ?thesis
      using add_u8_each_True [OF assms(1) _ sint_content_ne [OF ne] c(2)]
      by (intro asn1_element_True [OF assms(1,2) c(1) _ c(3)]) auto
  qed
qed

end
