(* ===== verification/CbbTree.thy ===== *)
theory CbbTree
  imports Asn1Int
begin

text \<open>
  Whole builder runs. A document is a tree of byte strings, length-prefixed parts and ASN.1
  elements; \<open>run_items\<close> makes the \<^verbatim>\<open>cbb.c\<close> calls that write it, a client of the
  builder in the way the library's own callers use it. The result of \<open>CBB_finish\<close> is the
  encoding of the document, and with memory available the build succeeds exactly when every
  length fits its prefix.
\<close>

section \<open>Enough memory: operations succeed\<close>

definition roomy :: "cbb_buffer \<Rightarrow> bool" where
  "roomy b \<longleftrightarrow> buf_ok b \<and> can_resize b \<and> ccap b < 2 ^ 61"

lemma roomyD: "roomy b \<Longrightarrow> buf_ok b"
  by (simp add: roomy_def)

lemma roomy_buf_write: "roomy b \<Longrightarrow> pos + length bs \<le> clen b \<Longrightarrow> roomy (buf_write b pos bs)"
  using buf_write_ok [of b pos bs] by (simp add: roomy_def)

lemma reserve_success:
  assumes "malloc_contract mal" "malloc_total mal" "roomy b" "clen b + n < 2 ^ 60"
  obtains b' where "cbb_buffer_reserve mal b n = (True, b')" "roomy b'"
proof -
  have b: "can_resize b" "ccap b < 2 ^ 61" using assms(3) by (auto simp: roomy_def)
  have nl: "(clen b + n) mod SIZE_MOD = clen b + n" "ccap b * 2 mod SIZE_MOD = ccap b * 2"
    using assms(4) b by (simp_all add: SIZE_MOD_def)
  have "\<exists>b'. cbb_buffer_reserve mal b n = (True, b') \<and> ccap b' < 2 ^ 61"
  proof (cases "clen b + n > ccap b")
    case True
    let ?c = "if ccap b * 2 < clen b + n then clen b + n else ccap b * 2"
    have c: "?c < 2 ^ 61" using True assms(4) by auto
    then obtain nb where "OPENSSL_realloc mal (Some (ccap b, cbuf b)) ?c = Some nb"
      using malloc_total_realloc [OF assms(2), of ?c "Some (ccap b, cbuf b)"] by auto
    then have "cbb_buffer_reserve mal b n = (True, b\<lparr>cbuf := nb, ccap := ?c\<rparr>)"
      using True nl b by (simp add: cbb_buffer_reserve_def Let_def)
    then show ?thesis using c by auto
  qed (use nl b in \<open>auto simp: cbb_buffer_reserve_def Let_def\<close>)
  then obtain b' where b': "cbb_buffer_reserve mal b n = (True, b')" "ccap b' < 2 ^ 61" by auto
  have "n < 2 ^ 63" using assms(4) by simp
  from reserve_True [OF assms(1) roomyD [OF assms(3)] this b'(1)] b' b(1) that
  show ?thesis by (auto simp: roomy_def)
qed

lemma add_success:
  assumes "malloc_contract mal" "malloc_total mal" "roomy b" "clen b + n < 2 ^ 60"
  obtains b' where "cbb_buffer_add mal b n = (True, b')" "roomy b'" "clen b' = clen b + n"
proof -
  obtain c where c: "cbb_buffer_reserve mal b n = (True, c)" "roomy c" by (rule reserve_success [OF assms])
  then have a: "cbb_buffer_add mal b n = (True, c\<lparr>clen := clen c + n\<rparr>)" by (simp add: cbb_buffer_add_def)
  have "n < 2 ^ 63" using assms(4) by simp
  from add_True [OF assms(1) roomyD [OF assms(3)] this a] c(2) a that
  show ?thesis by (auto simp: roomy_def)
qed

lemma flush_asn1_success:
  assumes "malloc_contract mal" "malloc_total mal" "roomy b" "coffset c + 1 + len \<le> clen b"
    and "len \<le> 0xfffffffe" "clen b + 4 < 2 ^ 60"
  obtains b' c' r where "flush_asn1_len mal b c (coffset c + 1) len = (True, b', c', r)" "roomy b'"
    "clen b \<le> clen b'" "coffset c' = coffset c + 1" "coffset c' + pending_len_len c' \<le> clen b'"
    "snd (be_store (pending_len_len c') (of_nat r)) = 0"
proof -
  obtain k ib r where form: "asn1_len_form len = (k, ib, r)" by (cases "asn1_len_form len")
  note S = asn1_len_form_spec [OF assms(5) form]
  show ?thesis
  proof (cases "k = 1")
    case True
    have "roomy (buf_write b (coffset c) [ib])" using assms(3,4) by (intro roomy_buf_write) auto
    then show ?thesis
      using that [of "buf_write b (coffset c) [ib]" "c\<lparr>coffset := coffset c + 1, pending_len_len := 0\<rparr>" r]
        form True assms(4,5) S(4) by (simp add: flush_asn1_len_def)
  next
    case False
    have "clen b + (k - 1) < 2 ^ 60" using S(2) assms(6) by auto
    then obtain b1 where b1: "cbb_buffer_add mal b (k - 1) = (True, b1)" "roomy b1" "clen b1 = clen b + (k - 1)"
      by (rule add_success [OF assms(1-3)])
    let ?w = "buf_write b1 (coffset c + 1 + (k - 1)) (take len (drop (coffset c + 1) (cbuf b1)))"
    have "roomy (buf_write ?w (coffset c) [ib])"
      using b1 assms(4) by (intro roomy_buf_write) auto
    then show ?thesis
      using that [of "buf_write ?w (coffset c) [ib]" "c\<lparr>coffset := coffset c + 1, pending_len_len := k - 1\<rparr>" r]
        form False assms(4,5) b1 S by (simp add: flush_asn1_len_def Let_def)
  qed
qed

lemma length_seg_enc: "pll k + length body \<le> length (seg_enc k body)"
  by (cases k) (auto simp: length_der_len)

lemma length_seg_enc_le: "length (seg_enc k body) \<le> pll k + length body + 4"
  using len_bytes_bounds(3) [of "length body"] by (cases k) (auto simp: length_der_len)

lemma flush_chain_success:
  "malloc_contract mal \<Longrightarrow> malloc_total mal \<Longrightarrow> roomy b \<Longrightarrow> \<not> cerror b \<Longrightarrow>
    cbytes b = pre @ raw_segs segs \<Longrightarrow> segs_wf segs \<Longrightarrow> segs_fit segs \<Longrightarrow>
    length pre + length (merge_segs segs) < 2 ^ 59 \<Longrightarrow>
    \<exists>b' cs'. flush_chain mal b (frames (length pre) segs) = (True, b', cs') \<and> roomy b'"
proof (induction segs arbitrary: b pre)
  case (Cons seg r)
  obtain k s where seg: "seg = (k, s)" by (cases seg)
  let ?P = "length pre" and ?body = "s @ merge_segs r"
  have k: "1 \<le> pll k" "pll k \<le> 8" "segs_wf r" using Cons.prems(6) seg by auto
  have fit: "seg_fits k (length ?body)" "segs_fit r" using Cons.prems(7) seg by auto
  have sz: "?P + pll k + length ?body < 2 ^ 59"
    using Cons.prems(8) seg length_seg_enc [of k ?body] by simp
  have bok: "buf_ok b" using Cons.prems(3) by (rule roomyD)
  have st: "(?P + pll k) mod SIZE_MOD = ?P + pll k" using sz by (simp add: SIZE_MOD_def)
  let ?pre' = "pre @ replicate (pll k) 0 @ s"
  have "\<exists>b1 cs1. flush_chain mal b (frames (length ?pre') r) = (True, b1, cs1) \<and> roomy b1"
    using Cons.prems(1-5) seg k(3) fit(2) sz by (intro Cons.IH) (auto simp: add.assoc)
  then obtain b1 cs1 where f: "flush_chain mal b (frames (?P + pll k + length s) r) = (True, b1, cs1)" "roomy b1"
    by (auto simp: add.assoc)
  have "cs1 = [] \<and> buf_ok b1 \<and> \<not> cerror b1 \<and> cbytes b1 = ?pre' @ merge_segs r \<and> segs_fit r"
    by (rule flush_chain_True [OF Cons.prems(1) bok _ k(3)]) (use Cons.prems(5) seg f in \<open>auto simp: add.assoc\<close>)
  then have b1: "cs1 = []" "\<not> cerror b1" "cbytes b1 = ?pre' @ merge_segs r" by auto
  have cl: "clen b1 = ?P + pll k + length ?body"
    using length_cbytes [OF roomyD [OF f(2)]] b1(3) by simp
  show ?case
  proof (cases k)
    case (Prefixed n)
    have nlen: "length ?body < 2 ^ 64" using sz by simp
    have "snd (be_store n (of_nat (length ?body))) = 0"
      using fit(1) Prefixed unat_of_nat_u64 [OF nlen] by (intro be_store_split(1)) simp
    moreover have "roomy (buf_write b1 ?P (fst (be_store n (of_nat (length ?body)))))"
      using cl Prefixed by (intro roomy_buf_write [OF f(2)]) simp
    ultimately show ?thesis
      using Cons.prems(4) k(1) st f(1) cl Prefixed seg by (simp add: Let_def split_beta)
  next
    case Asn1
    define c where "c = \<lparr>coffset = ?P, pending_len_len = pll k, pending_is_asn1 = True\<rparr>"
    have "coffset c + 1 + length ?body \<le> clen b1" "length ?body \<le> 0xfffffffe" "clen b1 + 4 < 2 ^ 60"
      using cl fit(1) sz Asn1 by (simp_all add: c_def)
    then obtain b2 c2 r2 where F0: "flush_asn1_len mal b1 c (coffset c + 1) (length ?body) = (True, b2, c2, r2)"
      "roomy b2" "coffset c2 + pending_len_len c2 \<le> clen b2" "snd (be_store (pending_len_len c2) (of_nat r2)) = 0"
      by (rule flush_asn1_success [OF Cons.prems(1,2) f(2)])
    have "coffset c + 1 = ?P + 1" by (simp add: c_def)
    note F = F0 [unfolded this]
    have "roomy (buf_write b2 (coffset c2) (fst (be_store (pending_len_len c2) (of_nat r2))))"
      using F by (intro roomy_buf_write) auto
    moreover have "clen b1 - (?P + 1) = length ?body" using cl Asn1 by simp
    ultimately show ?thesis
      using Cons.prems(4) k(1) st f(1) cl F seg Asn1 unfolding c_def
      by (simp add: Let_def split_beta)
  qed
qed auto

definition live :: "CBB \<Rightarrow> abuilder \<Rightarrow> bool" where
  "live cbb a \<longleftrightarrow> rep cbb a \<and> (\<exists>b. cbase cbb = Some b \<and> roomy b)"

text \<open>An object that can take more bytes: its open children fit and there is room.\<close>

definition room :: "nat \<Rightarrow> abuilder \<Rightarrow> nat \<Rightarrow> bool" where
  "room d a n \<longleftrightarrow> d \<le> length (snd a) \<and> segs_fit (drop d (snd a)) \<and>
     length (a_raw (collapse d a)) + n < 2 ^ 59"

lemma CBB_flush_success:
  assumes "malloc_contract mal" "malloc_total mal" "live cbb a" "room d a n"
  obtains cbb' where "CBB_flush mal d cbb = (True, cbb')" "live cbb' (collapse d a)"
proof -
  obtain b where b: "cbase cbb = Some b" "roomy b" "\<not> cerror b" "cbytes b = a_raw a"
    "children cbb = frames (length (fst a)) (snd a)" "segs_wf (snd a)"
    using assms(3) by (auto simp: live_def rep_def)
  have d: "d \<le> length (snd a)" "segs_fit (drop d (snd a))" using assms(4) by (auto simp: room_def)
  define xs ys where "xs = take d (snd a)" and "ys = drop d (snd a)"
  have split: "snd a = xs @ ys" "length xs = d" using d by (simp_all add: xs_def ys_def)
  let ?pre = "fst a @ raw_segs xs"
  have "a_raw (collapse d a) = ?pre @ merge_segs ys"
    by (simp add: collapse_def xs_def ys_def) (simp add: a_raw_def)
  then have sz: "length ?pre + length (merge_segs ys) < 2 ^ 59" using assms(4) by (simp add: room_def)
  have P: "cbytes b = ?pre @ raw_segs ys" "segs_wf ys" "segs_fit ys"
    using b d(2) [folded ys_def] split by (auto simp: a_raw_def)
  obtain b' cs' where f: "flush_chain mal b (frames (length ?pre) ys) = (True, b', cs')" "roomy b'"
    using flush_chain_success [OF assms(1,2) b(2,3) P sz] by metis
  let ?c = "\<lparr>cbase = Some b', children = frames (length (fst a)) xs @ cs'\<rparr>"
  have F: "CBB_flush mal d cbb = (True, ?c)"
    using f b split by (simp add: CBB_flush_def)
  have "rep cbb a" using assms(3) by (simp add: live_def)
  from CBB_flush_True [OF assms(1) this F] f(2) have "live ?c (collapse d a)" by (simp add: live_def)
  with F that show ?thesis by blast
qed

lemma flush_then_success:
  assumes "malloc_contract mal" "malloc_total mal" "live cbb a" "room d a n"
    and "\<And>b. roomy b \<Longrightarrow> \<not> cerror b \<Longrightarrow> cbytes b = a_raw (collapse d a) \<Longrightarrow> \<exists>b'. f b = (True, b') \<and> roomy b'"
  obtains cbb' b' where "flush_then mal d cbb f = (True, cbb')" "cbase cbb' = Some b'" "roomy b'"
proof -
  obtain c where c: "CBB_flush mal d cbb = (True, c)" "live c (collapse d a)"
    by (rule CBB_flush_success [OF assms(1-4)])
  then obtain b where b: "cbase c = Some b" "roomy b" "\<not> cerror b" "cbytes b = a_raw (collapse d a)"
    by (auto simp: live_def rep_def)
  from assms(5) [OF b(2-4)] obtain b' where "f b = (True, b')" "roomy b'" by auto
  with c b that [of "c\<lparr>cbase := Some b'\<rparr>" b'] show ?thesis by (simp add: flush_then_def)
qed

lemma roomy_clen: "roomy b \<Longrightarrow> cbytes b = xs \<Longrightarrow> clen b = length xs"
  using length_cbytes [of b] by (auto simp: roomy_def)

lemma CBB_add_bytes_success:
  assumes "malloc_contract mal" "malloc_total mal" "live cbb a" "room d a (length data)"
  obtains cbb' where "CBB_add_bytes mal d cbb data = (True, cbb')" "live cbb' (a_write d data a)"
proof -
  have sz: "length (a_raw (collapse d a)) + length data < 2 ^ 59" using assms(4) by (simp add: room_def)
  have step: "\<exists>b'. (case cbb_buffer_add mal b (length data) of (False, b') \<Rightarrow> (False, b')
        | (True, b') \<Rightarrow> (True, buf_write b' (clen b) data)) = (True, b') \<and> roomy b'"
    if r: "roomy b" "cbytes b = a_raw (collapse d a)" for b
  proof -
    have "clen b + length data < 2 ^ 60" using roomy_clen [OF r] sz by simp
    then obtain b' where "cbb_buffer_add mal b (length data) = (True, b')" "roomy b'" "clen b' = clen b + length data"
      by (rule add_success [OF assms(1,2) r(1)])
    then show ?thesis using roomy_buf_write [of b' "clen b" data] by simp
  qed
  obtain cbb' b' where c: "CBB_add_bytes mal d cbb data = (True, cbb')" "cbase cbb' = Some b'" "roomy b'"
    unfolding CBB_add_bytes_def by (rule flush_then_success [OF assms step]) auto
  have "rep cbb a" "length data < 2 ^ 63" using assms(3) sz by (simp_all add: live_def)
  from CBB_add_bytes_True [OF assms(1) this c(1)] c that show ?thesis by (simp add: live_def)
qed

lemma add_u_success:
  assumes "malloc_contract mal" "malloc_total mal" "roomy b" "clen b + k < 2 ^ 60" "unat v < 256 ^ k"
  shows "\<exists>b'. cbb_buffer_add_u mal b v k = (True, b') \<and> roomy b'"
proof (cases "k = 0")
  case False
  obtain b' where "cbb_buffer_add mal b k = (True, b')" "roomy b'" "clen b' = clen b + k"
    by (rule add_success [OF assms(1-4)])
  then show ?thesis
    using False roomy_buf_write [of b' "clen b" "fst (be_store k v)"] be_store_split(1) [OF assms(5)]
    by (simp add: cbb_buffer_add_u_def split_beta Let_def)
qed (use assms(3) in \<open>simp add: cbb_buffer_add_u_def\<close>)

lemma CBB_add_u8_success:
  assumes "malloc_contract mal" "malloc_total mal" "live cbb a" "room d a 1"
  obtains cbb' where "CBB_add_u8 mal d cbb v = (True, cbb')" "live cbb' (a_write d [v] a)"
proof -
  have sz: "length (a_raw (collapse d a)) + 1 < 2 ^ 59" using assms(4) by (simp add: room_def)
  have step: "\<exists>b'. cbb_buffer_add_u mal b (ucast v) 1 = (True, b') \<and> roomy b'"
    if "roomy b" "cbytes b = a_raw (collapse d a)" for b
    using roomy_clen [OF that] sz unat_u8_less [of v]
    by (intro add_u_success [OF assms(1,2) that(1)]) (auto simp: unat_u8_64)
  obtain cbb' b' where c: "CBB_add_u8 mal d cbb v = (True, cbb')" "cbase cbb' = Some b'" "roomy b'"
    unfolding CBB_add_u8_def by (rule flush_then_success [OF assms step]) auto
  have "rep cbb a" using assms(3) by (simp add: live_def)
  from CBB_add_u8_True [OF assms(1) this c(1)] c that show ?thesis by (simp add: live_def)
qed

lemma room_a_write: "d \<le> length (snd a) \<Longrightarrow> room d (a_write d x a) n \<longleftrightarrow> length (a_raw (collapse d a)) + length x + n < 2 ^ 59"
  by (simp add: room_def) (simp add: a_write_def)

lemma room_mono: "room d a n \<Longrightarrow> m \<le> n \<Longrightarrow> room d a m"
  by (auto simp: room_def)

lemma room_d: "room d a n \<Longrightarrow> d \<le> length (snd a)"
  by (simp add: room_def)

lemma add_u8_each_success:
  assumes "malloc_contract mal" "malloc_total mal"
  shows "live cbb a \<Longrightarrow> room d a (length bs) \<Longrightarrow> bs \<noteq> [] \<Longrightarrow>
    \<exists>cbb'. add_u8_each mal d cbb bs = (True, cbb') \<and> live cbb' (a_write d bs a)"
proof (induction bs arbitrary: cbb a)
  case (Cons b bs)
  have "room d a 1" using Cons.prems(2) by (rule room_mono) simp
  then obtain c where c: "CBB_add_u8 mal d cbb b = (True, c)" "live c (a_write d [b] a)"
    by (rule CBB_add_u8_success [OF assms Cons.prems(1)])
  show ?case
  proof (cases "bs = []")
    case True
    then show ?thesis using c by (auto simp: and_then_True)
  next
    case False
    have "room d (a_write d [b] a) (length bs)"
      using Cons.prems(2) room_d [OF Cons.prems(2)] by (simp add: room_a_write) (simp add: room_def)
    from Cons.IH [OF c(2) this False] obtain cbb' where
      "add_u8_each mal d c bs = (True, cbb')" "live cbb' (a_write d bs (a_write d [b] a))" by blast
    then show ?thesis using c room_d [OF Cons.prems(2)] by (auto simp: and_then_True)
  qed
qed simp

lemma cbb_add_length_prefixed_success:
  assumes "malloc_contract mal" "malloc_total mal" "live cbb a" "room d a k" "1 \<le> k" "k \<le> 8"
  obtains cbb' where "cbb_add_length_prefixed mal d cbb k = (True, cbb')" "live cbb' (a_open d (Prefixed k) a)"
proof -
  obtain c where c: "CBB_flush mal d cbb = (True, c)" "live c (collapse d a)"
    by (rule CBB_flush_success [OF assms(1-4)])
  then obtain b where b: "cbase c = Some b" "roomy b" "cbytes b = a_raw (collapse d a)"
    by (auto simp: live_def rep_def)
  have "clen b + k < 2 ^ 60" using roomy_clen [OF b(2,3)] assms(4) by (simp add: room_def)
  then obtain b' where b': "cbb_buffer_add mal b k = (True, b')" "roomy b'" "clen b' = clen b + k"
    by (rule add_success [OF assms(1,2) b(2)])
  have r: "roomy (buf_write b' (clen b) (replicate k 0))" using b' by (intro roomy_buf_write) auto
  obtain cbb' where "cbb_add_length_prefixed mal d cbb k = (True, cbb')" "cbase cbb' = Some (buf_write b' (clen b) (replicate k 0))"
    using c(1) b(1) b'(1) by (simp add: cbb_add_length_prefixed_def Let_def)
  moreover have "rep cbb a" using assms(3) by (simp add: live_def)
  ultimately show ?thesis
    using cbb_add_length_prefixed_True [OF assms(1) _ assms(5,6)] r that by (auto simp: live_def)
qed

lemma CBB_add_asn1_success:
  assumes "malloc_contract mal" "malloc_total mal" "live cbb a" "room d a 16"
  obtains cbb' where "CBB_add_asn1 mal d cbb tag = (True, cbb')"
    "live cbb' (a_open d Asn1 (a_write d (der_tag tag) a))"
proof -
  let ?tb = "ucast (drop_bit CBS_ASN1_TAG_SHIFT tag) AND 0xe0 :: u8"
  let ?tn = "tag AND CBS_ASN1_TAG_NUMBER_MASK"
  have d: "d \<le> length (snd a)" and sz: "length (a_raw (collapse d a)) + 16 < 2 ^ 59"
    using assms(4) by (auto simp: room_def)
  obtain c0 where c0: "CBB_flush mal d cbb = (True, c0)" "live c0 (collapse d a)"
    by (rule CBB_flush_success [OF assms])
  have r0: "room d (collapse d a) 16" using sz d by (simp add: room_def)
  have r1: "room d (collapse d a) 1" using r0 by (rule room_mono) simp
  obtain c1 where c1: "(if ?tn \<ge> 0x1f then
              and_then (CBB_add_u8 mal d c0 (?tb OR 0x1f)) (\<lambda>cbb. add_base128_integer mal d cbb (ucast ?tn))
            else CBB_add_u8 mal d c0 (?tb OR ucast ?tn)) = (True, c1)"
    and l1: "\<exists>x. length x \<le> 12 \<and> live c1 (a_write d x a)"
  proof (cases "?tn \<ge> 0x1f")
    case True
    obtain c where c: "CBB_add_u8 mal d c0 (?tb OR 0x1f) = (True, c)" "live c (a_write d [?tb OR 0x1f] a)"
      using CBB_add_u8_success [OF assms(1,2) c0(2) r1] d by (metis a_write_collapse)
    let ?x = "base128 (unat (ucast ?tn :: u64))"
    have "unat (ucast ?tn :: u64) div 128 < 128 ^ 4"
      using tag_num_less [of tag] unfolding unat_ucast_64 tag_number_word by auto
    from length_hi7 [OF this] have lx: "length ?x \<le> 5" "?x \<noteq> []" by (simp_all add: base128_def)
    have "room d (a_write d [?tb OR 0x1f] a) (length ?x)" using sz d lx by (simp add: room_a_write)
    from add_u8_each_success [OF assms(1,2) c(2) this lx(2)] obtain c1 where
      "add_u8_each mal d c ?x = (True, c1)" "live c1 (a_write d ([?tb OR 0x1f] @ ?x) a)" using d by auto
    note c1 = this
    have "add_base128_integer mal d c (ucast ?tn) = (True, c1)"
      using c1(1) by (simp add: add_base128_integer_def Let_def base128_bytes)
    then have "and_then (CBB_add_u8 mal d c0 (?tb OR 0x1f)) (\<lambda>cbb. add_base128_integer mal d cbb (ucast ?tn)) = (True, c1)"
      using c(1) by (simp add: and_then_True)
    moreover have "\<exists>x. length x \<le> 12 \<and> live c1 (a_write d x a)"
      using c1(2) lx(1) by (intro exI [of _ "[?tb OR 0x1f] @ ?x"]) simp
    ultimately show ?thesis using that [of c1] True by simp
  next
    case False
    obtain c where "CBB_add_u8 mal d c0 (?tb OR ucast ?tn) = (True, c)" "live c (a_write d [?tb OR ucast ?tn] a)"
      using CBB_add_u8_success [OF assms(1,2) c0(2) r1] d by (metis a_write_collapse)
    note c = this
    have "\<exists>x. length x \<le> 12 \<and> live c (a_write d x a)"
      using c(2) by (intro exI [of _ "[?tb OR ucast ?tn]"]) simp
    then show ?thesis using that [of c] c(1) False by simp
  qed
  then obtain x where x: "length x \<le> 12" "live c1 (a_write d x a)" by auto
  have "room d (a_write d x a) 1" using sz d x(1) by (simp add: room_a_write)
  then obtain c2 where c2: "CBB_add_u8 mal d c1 0 = (True, c2)" "live c2 (a_write d [0] (a_write d x a))"
    by (rule CBB_add_u8_success [OF assms(1,2) x(2)])
  obtain cbb' where A: "CBB_add_asn1 mal d cbb tag = (True, cbb')" "cbase cbb' = cbase c2"
    using c0(1) c1 c2(1) by (simp add: CBB_add_asn1_def Let_def and_then_def)
  have "rep cbb a" using assms(3) by (simp add: live_def)
  from CBB_add_asn1_True [OF assms(1) this A(1)] A c2(2) that show ?thesis by (auto simp: live_def)
qed

section \<open>Documents\<close>

datatype items =
    Done
  | Bytes "u8 list" items
  | Pref nat items items
  | Elem u32 items items

fun enc_items :: "items \<Rightarrow> u8 list" where
  "enc_items Done = []"
| "enc_items (Bytes bs r) = bs @ enc_items r"
| "enc_items (Pref k p r) = be_bytes k (length (enc_items p)) @ enc_items p @ enc_items r"
| "enc_items (Elem tag p r) = der_tlv tag (enc_items p) @ enc_items r"

fun items_fit :: "items \<Rightarrow> bool" where
  "items_fit Done = True"
| "items_fit (Bytes bs r) = items_fit r"
| "items_fit (Pref k p r) = (length (enc_items p) < 256 ^ k \<and> items_fit p \<and> items_fit r)"
| "items_fit (Elem tag p r) = (length (enc_items p) \<le> 0xfffffffe \<and> items_fit p \<and> items_fit r)"

fun items_wf :: "items \<Rightarrow> bool" where
  "items_wf Done = True"
| "items_wf (Bytes bs r) = (length bs < 2 ^ 63 \<and> items_wf r)"
| "items_wf (Pref k p r) = (1 \<le> k \<and> k \<le> 8 \<and> items_wf p \<and> items_wf r)"
| "items_wf (Elem tag p r) = (items_wf p \<and> items_wf r)"

text \<open>The calls that write a document to the object at depth \<open>d\<close>.\<close>

fun run_items :: "allocator \<Rightarrow> nat \<Rightarrow> items \<Rightarrow> CBB \<Rightarrow> bool \<times> CBB" where
  "run_items mal d Done cbb = (True, cbb)"
| "run_items mal d (Bytes bs r) cbb = and_then (CBB_add_bytes mal d cbb bs) (run_items mal d r)"
| "run_items mal d (Pref k p r) cbb =
     and_then (cbb_add_length_prefixed mal d cbb k) (\<lambda>cbb.
     and_then (run_items mal (Suc d) p cbb) (run_items mal d r))"
| "run_items mal d (Elem tag p r) cbb =
     and_then (CBB_add_asn1 mal d cbb tag) (\<lambda>cbb.
     and_then (run_items mal (Suc d) p cbb) (run_items mal d r))"

definition build :: "allocator \<Rightarrow> nat \<Rightarrow> items \<Rightarrow> u8 list option" where
  "build mal initial_capacity p =
     (case CBB_init mal initial_capacity of
        (False, _) \<Rightarrow> None
      | (True, cbb) \<Rightarrow>
          (case run_items mal 0 p cbb of
             (False, _) \<Rightarrow> None
           | (True, cbb) \<Rightarrow> fst (CBB_finish mal 0 cbb False)))"

text \<open>Flushing the child and then its parent is flushing the parent.\<close>

lemma open_child_split:
  assumes "Suc d \<le> length (snd a)"
  obtains f xs k s rest where "a = (f, xs @ (k, s) # rest)" "length xs = d"
proof -
  obtain f segs where a: "a = (f, segs)" by (cases a)
  have "segs = take d segs @ segs ! d # drop (Suc d) segs"
    using assms a by (simp add: id_take_nth_drop)
  then show ?thesis using that [of f "take d segs" "fst (segs ! d)" "snd (segs ! d)" "drop (Suc d) segs"]
    assms a by auto
qed

lemma collapse_Suc:
  assumes "Suc d \<le> length (snd a)"
  shows "collapse d (collapse (Suc d) a) = collapse d a"
proof -
  obtain f xs k s rest where a: "a = (f, xs @ (k, s) # rest)" "length xs = d"
    using open_child_split [OF assms] by blast
  then have "collapse (Suc d) a = (f, xs @ [(k, s @ merge_segs rest)])" by (simp add: collapse_def)
  with a show ?thesis by (simp add: collapse_def)
qed

text \<open>After a child was opened and its contents written: what the parent holds once flushed, and
  what it means for the open segments to fit.\<close>

lemma child_done:
  assumes "d \<le> length (snd a)" "Suc d \<le> length (snd a')"
    and "collapse (Suc d) a' = a_write (Suc d) body (a_open d k a)"
  shows "collapse d a' = a_write d (seg_enc k body) a"
    and "segs_fit (drop d (snd a')) \<longleftrightarrow> seg_fits k (length body) \<and> segs_fit (drop (Suc d) (snd a'))"
proof -
  show "collapse d a' = a_write d (seg_enc k body) a"
    using collapse_Suc [OF assms(2)] assms(3) collapse_child [OF assms(1)] by metis
  obtain f xs k' s rest where a': "a' = (f, xs @ (k', s) # rest)" "length xs = d"
    using open_child_split [OF assms(2)] by blast
  have "collapse (Suc d) a' = (f, xs @ [(k', s @ merge_segs rest)])" using a' by (simp add: collapse_def)
  moreover have "a_write (Suc d) body (a_open d k a) = (fst (collapse d a), snd (collapse d a) @ [(k, body)])"
    using assms(1) by (simp add: a_write_def a_open_def collapse_id)
  ultimately have "k' = k" "s @ merge_segs rest = body" using assms(3) by auto
  then show "segs_fit (drop d (snd a')) \<longleftrightarrow> seg_fits k (length body) \<and> segs_fit (drop (Suc d) (snd a'))"
    using a' by auto
qed

lemma run_items_True:
  assumes "malloc_contract mal"
  shows "rep cbb a \<Longrightarrow> d \<le> length (snd a) \<Longrightarrow> items_wf p \<Longrightarrow> run_items mal d p cbb = (True, cbb') \<Longrightarrow>
    \<exists>a'. rep cbb' a' \<and> d \<le> length (snd a') \<and> collapse d a' = a_write d (enc_items p) a \<and>
      (segs_fit (drop d (snd a')) \<longrightarrow> items_fit p \<and> segs_fit (drop d (snd a)))"
proof (induction p arbitrary: d cbb a cbb')
  case Done
  then show ?case by (intro exI [of _ a]) (auto simp: a_write_def)
next
  case (Bytes bs r)
  then obtain c where c: "CBB_add_bytes mal d cbb bs = (True, c)" "run_items mal d r c = (True, cbb')"
    by (auto simp: and_then_True)
  have "length bs < 2 ^ 63" "items_wf r" using Bytes.prems by auto
  note W = CBB_add_bytes_True [OF assms Bytes.prems(1) this(1) c(1)]
  from Bytes.IH [OF _ _ \<open>items_wf r\<close> c(2), of "a_write d bs a"] W show ?case
    by fastforce
next
  case (Pref k p r)
  then obtain c c2 where c: "cbb_add_length_prefixed mal d cbb k = (True, c)"
    "run_items mal (Suc d) p c = (True, c2)" "run_items mal d r c2 = (True, cbb')"
    by (auto simp: and_then_True)
  have k: "1 \<le> k" "k \<le> 8" "items_wf p" "items_wf r" using Pref.prems by auto
  note O = cbb_add_length_prefixed_True [OF assms Pref.prems(1) k(1,2) c(1)]
  obtain a2 where a2: "rep c2 a2" "Suc d \<le> length (snd a2)"
    "collapse (Suc d) a2 = a_write (Suc d) (enc_items p) (a_open d (Prefixed k) a)"
    "segs_fit (drop (Suc d) (snd a2)) \<longrightarrow> items_fit p"
    using Pref.IH(1) [OF _ _ k(3) c(2), of "a_open d (Prefixed k) a"] O by auto
  note C = child_done [OF Pref.prems(2) a2(2,3)]
  obtain a3 where a3: "rep cbb' a3" "d \<le> length (snd a3)" "collapse d a3 = a_write d (enc_items r) a2"
    "segs_fit (drop d (snd a3)) \<longrightarrow> items_fit r \<and> segs_fit (drop d (snd a2))"
    using Pref.IH(2) [OF a2(1) _ k(4) c(3)] a2(2) by auto
  have "collapse d a3 = a_write d (enc_items (Pref k p r)) a"
    using a3(3) a_write_collapse [of d a2 "enc_items r"] a2(2) C(1) Pref.prems(2) by simp
  then show ?case using a3 C(2) a2(4) O by (intro exI [of _ a3]) auto
next
  case (Elem tag p r)
  then obtain c c2 where c: "CBB_add_asn1 mal d cbb tag = (True, c)"
    "run_items mal (Suc d) p c = (True, c2)" "run_items mal d r c2 = (True, cbb')"
    by (auto simp: and_then_True)
  have k: "items_wf p" "items_wf r" using Elem.prems by auto
  note O = CBB_add_asn1_True [OF assms Elem.prems(1) c(1)]
  let ?a = "a_write d (der_tag tag) a"
  have d: "d \<le> length (snd ?a)" using Elem.prems(2) by simp
  obtain a2 where a2: "rep c2 a2" "Suc d \<le> length (snd a2)"
    "collapse (Suc d) a2 = a_write (Suc d) (enc_items p) (a_open d Asn1 ?a)"
    "segs_fit (drop (Suc d) (snd a2)) \<longrightarrow> items_fit p"
    using Elem.IH(1) [OF _ _ k(1) c(2), of "a_open d Asn1 ?a"] O d by auto
  note C = child_done [OF d a2(2,3)]
  obtain a3 where a3: "rep cbb' a3" "d \<le> length (snd a3)" "collapse d a3 = a_write d (enc_items r) a2"
    "segs_fit (drop d (snd a3)) \<longrightarrow> items_fit r \<and> segs_fit (drop d (snd a2))"
    using Elem.IH(2) [OF a2(1) _ k(2) c(3)] a2(2) by auto
  have "collapse d a3 = a_write d (enc_items (Elem tag p r)) a"
    using a3(3) a_write_collapse [of d a2 "enc_items r"] a2(2) C(1) Elem.prems(2)
    by (simp add: der_tlv_def der_header_def)
  then show ?case using a3 C(2) a2(4) O by (intro exI [of _ a3]) auto
qed

lemma der_tlv_size: "length (der_tag tag) + 1 + length body \<le> length (der_tlv tag body)"
  by (simp add: der_tlv_def der_header_def length_der_len)

lemma room_open:
  "d \<le> length (snd a) \<Longrightarrow> room (Suc d) (a_open d k a) n \<longleftrightarrow> length (a_raw (collapse d a)) + pll k + n < 2 ^ 59"
  by (simp add: room_def collapse_id) (simp add: a_open_def a_raw_def add.assoc)

lemma room_done:
  "d \<le> length (snd a) \<Longrightarrow> d \<le> length (snd a') \<Longrightarrow> segs_fit (drop d (snd a')) \<Longrightarrow>
    collapse d a' = a_write d x a \<Longrightarrow> room d a' n \<longleftrightarrow> length (a_raw (collapse d a)) + length x + n < 2 ^ 59"
  by (simp add: room_def) (simp add: a_write_def)

lemma run_items_success:
  assumes "malloc_contract mal" "malloc_total mal"
  shows "live cbb a \<Longrightarrow> room d a (length (enc_items p) + 32) \<Longrightarrow> items_wf p \<Longrightarrow> items_fit p \<Longrightarrow>
    \<exists>cbb' a'. run_items mal d p cbb = (True, cbb') \<and> live cbb' a' \<and> d \<le> length (snd a') \<and>
      collapse d a' = a_write d (enc_items p) a \<and> segs_fit (drop d (snd a'))"
proof (induction p arbitrary: d cbb a)
  case Done
  then show ?case by (intro exI [of _ cbb] exI [of _ a]) (auto simp: a_write_def room_def)
next
  case (Bytes bs r)
  note d = room_d [OF Bytes.prems(2)]
  have "room d a (length bs)" using Bytes.prems(2) by (rule room_mono) simp
  then obtain c where c: "CBB_add_bytes mal d cbb bs = (True, c)" "live c (a_write d bs a)"
    by (rule CBB_add_bytes_success [OF assms Bytes.prems(1)])
  have "room d (a_write d bs a) (length (enc_items r) + 32)"
    using Bytes.prems(2) d by (simp add: room_a_write) (simp add: room_def)
  from Bytes.IH [OF c(2) this] Bytes.prems(3,4) obtain cbb' a' where
    "run_items mal d r c = (True, cbb')" "live cbb' a'" "d \<le> length (snd a')"
    "collapse d a' = a_write d (enc_items r) (a_write d bs a)" "segs_fit (drop d (snd a'))" by auto
  then show ?case using c(1) d by (intro exI [of _ cbb'] exI [of _ a']) (simp add: and_then_True)
next
  case (Pref k p r)
  note d = room_d [OF Pref.prems(2)]
  have k: "1 \<le> k" "k \<le> 8" "items_wf p" "items_wf r" "items_fit p" "items_fit r"
    and fit: "length (enc_items p) < 256 ^ k" using Pref.prems by auto
  have sz: "length (a_raw (collapse d a)) + k + length (enc_items p) + length (enc_items r) + 32 < 2 ^ 59"
    using Pref.prems(2) by (simp add: room_def)
  have "room d a k" using Pref.prems(2) by (rule room_mono) simp
  then obtain c where c: "cbb_add_length_prefixed mal d cbb k = (True, c)" "live c (a_open d (Prefixed k) a)"
    using k by (metis cbb_add_length_prefixed_success [OF assms Pref.prems(1)])
  have "room (Suc d) (a_open d (Prefixed k) a) (length (enc_items p) + 32)"
    using sz d by (simp add: room_open)
  from Pref.IH(1) [OF c(2) this k(3,5)] obtain c2 a2 where c2: "run_items mal (Suc d) p c = (True, c2)" "live c2 a2"
    "Suc d \<le> length (snd a2)" "collapse (Suc d) a2 = a_write (Suc d) (enc_items p) (a_open d (Prefixed k) a)"
    "segs_fit (drop (Suc d) (snd a2))" by auto
  note C = child_done [OF d c2(3,4)]
  have F: "segs_fit (drop d (snd a2))" using C(2) c2(5) fit by simp
  have "room d a2 (length (enc_items r) + 32)"
    using sz c2(3) by (subst room_done [OF d _ F C(1)]) auto
  from Pref.IH(2) [OF c2(2) this k(4,6)] obtain c3 a3 where "run_items mal d r c2 = (True, c3)" "live c3 a3"
    "d \<le> length (snd a3)" "collapse d a3 = a_write d (enc_items r) a2" "segs_fit (drop d (snd a3))" by auto
  moreover have "a_write d (enc_items r) a2 = a_write d (enc_items (Pref k p r)) a"
    using a_write_collapse [of d a2 "enc_items r"] c2(3) C(1) d by simp
  ultimately show ?case using c(1) c2(1) by (intro exI [of _ c3] exI [of _ a3]) (simp add: and_then_True)
next
  case (Elem tag p r)
  note d = room_d [OF Elem.prems(2)]
  let ?a = "a_write d (der_tag tag) a"
  have k: "items_wf p" "items_wf r" "items_fit p" "items_fit r"
    and fit: "length (enc_items p) \<le> 0xfffffffe" using Elem.prems by auto
  have sz: "length (a_raw (collapse d a)) + length (der_tlv tag (enc_items p)) + length (enc_items r) + 32 < 2 ^ 59"
    using Elem.prems(2) by (simp add: room_def)
  have d': "d \<le> length (snd ?a)" using d by simp
  have "room d a 16" using Elem.prems(2) by (rule room_mono) simp
  then obtain c where c: "CBB_add_asn1 mal d cbb tag = (True, c)" "live c (a_open d Asn1 ?a)"
    by (rule CBB_add_asn1_success [OF assms Elem.prems(1)])
  have ra: "length (a_raw (collapse d ?a)) = length (a_raw (collapse d a)) + length (der_tag tag)"
    using d by simp (simp add: a_write_def)
  have "room (Suc d) (a_open d Asn1 ?a) (length (enc_items p) + 32)"
    using sz der_tlv_size [of tag "enc_items p"] by (simp add: room_open [OF d'] ra)
  from Elem.IH(1) [OF c(2) this k(1,3)] obtain c2 a2 where c2: "run_items mal (Suc d) p c = (True, c2)" "live c2 a2"
    "Suc d \<le> length (snd a2)" "collapse (Suc d) a2 = a_write (Suc d) (enc_items p) (a_open d Asn1 ?a)"
    "segs_fit (drop (Suc d) (snd a2))" by auto
  note C = child_done [OF d' c2(3,4)]
  have F: "segs_fit (drop d (snd a2))" using C(2) c2(5) fit by simp
  have C': "collapse d a2 = a_write d (der_tlv tag (enc_items p)) a"
    using C(1) d by (simp add: der_tlv_def der_header_def)
  have "room d a2 (length (enc_items r) + 32)"
    using sz c2(3) by (subst room_done [OF d _ F C']) auto
  from Elem.IH(2) [OF c2(2) this k(2,4)] obtain c3 a3 where "run_items mal d r c2 = (True, c3)" "live c3 a3"
    "d \<le> length (snd a3)" "collapse d a3 = a_write d (enc_items r) a2" "segs_fit (drop d (snd a3))" by auto
  moreover have "a_write d (enc_items r) a2 = a_write d (enc_items (Elem tag p r)) a"
    using a_write_collapse [of d a2 "enc_items r"] c2(3) C' d by simp
  ultimately show ?case using c(1) c2(1) by (intro exI [of _ c3] exI [of _ a3]) (simp add: and_then_True)
qed

section \<open>From the first call to the last\<close>

lemma CBB_init_True:
  assumes "malloc_contract mal" "cap < 2 ^ 63" "CBB_init mal cap = (True, cbb)"
  shows "rep cbb ([], [])"
proof (cases "OPENSSL_malloc mal cap")
  case None
  then show ?thesis using assms(3)
    by (auto simp: CBB_init_def cbb_init_def CBB_zero_def rep_def buf_ok_def cbytes_def a_raw_def
        split: if_splits option.splits)
next
  case (Some buf)
  have "cap + 8 < 2 ^ 64" using assms(2) by simp
  from OPENSSL_malloc_length [OF assms(1) this Some] Some assms(3) show ?thesis
    by (auto simp: CBB_init_def cbb_init_def CBB_zero_def rep_def buf_ok_def cbytes_def a_raw_def
        split: option.splits)
qed

lemma CBB_init_success:
  assumes "malloc_contract mal" "malloc_total mal" "cap < 2 ^ 61"
  obtains cbb where "CBB_init mal cap = (True, cbb)" "live cbb ([], [])"
proof -
  have "OPENSSL_malloc mal cap \<noteq> None" "OPENSSL_malloc mal 32 \<noteq> None"
    using malloc_total_realloc [OF assms(2), of _ None] assms(3) by (auto simp: OPENSSL_realloc_def)
  then obtain buf x where m: "OPENSSL_malloc mal cap = Some buf" "OPENSSL_malloc mal 32 = Some x" by auto
  define b where "b = \<lparr>cbuf = buf, clen = 0, ccap = cap, can_resize = True, cerror = False\<rparr>"
  have c: "CBB_init mal cap = (True, CBB_zero\<lparr>cbase := Some b\<rparr>)"
    using m by (simp add: CBB_init_def cbb_init_def b_def)
  have "rep (CBB_zero\<lparr>cbase := Some b\<rparr>) ([], [])"
    using CBB_init_True [OF assms(1) _ c] assms(3) by simp
  then have "live (CBB_zero\<lparr>cbase := Some b\<rparr>) ([], [])"
    using assms(3) by (auto simp: live_def roomy_def rep_def b_def)
  with c that show ?thesis by blast
qed

lemma CBB_finish_Some:
  assumes "malloc_contract mal" "rep cbb a" "CBB_finish mal 0 cbb False = (Some out, cbb')"
  shows "out = fst a @ merge_segs (snd a)" "segs_fit (snd a)"
proof -
  obtain c b where c: "CBB_flush mal 0 cbb = (True, c)" "cbase c = Some b" "out = take (clen b) (cbuf b)"
    using assms(3) by (auto simp: CBB_finish_def split: prod.splits bool.splits option.splits)
  note F = CBB_flush_True [OF assms(1,2) c(1)]
  then show "segs_fit (snd a)" by simp
  have "collapse 0 a = (fst a @ merge_segs (snd a), [])" by (simp add: collapse_def)
  with F c(2,3) show "out = fst a @ merge_segs (snd a)"
    by (auto simp: rep_def cbytes_def a_raw_def)
qed

lemma CBB_finish_success:
  assumes "malloc_contract mal" "malloc_total mal" "live cbb a" "room 0 a 0"
  obtains out cbb' where "CBB_finish mal 0 cbb False = (Some out, cbb')"
proof -
  obtain c where "CBB_flush mal 0 cbb = (True, c)" "live c (collapse 0 a)"
    by (rule CBB_flush_success [OF assms])
  then show ?thesis using that by (auto simp: CBB_finish_def live_def)
qed

lemma collapse_0: "collapse 0 a = (fst a @ merge_segs (snd a), [])"
  by (simp add: collapse_def)

theorem build_sound:
  assumes "malloc_contract mal" "cap < 2 ^ 63" "items_wf p" "build mal cap p = Some out"
  shows "out = enc_items p \<and> items_fit p"
proof -
  obtain c c' cc where c: "CBB_init mal cap = (True, c)" "run_items mal 0 p c = (True, c')"
    "CBB_finish mal 0 c' False = (Some out, cc)"
    using assms(4) by (auto simp: build_def prod_eq_iff split: prod.splits bool.splits)
  obtain a' where a': "rep c' a'" "collapse 0 a' = a_write 0 (enc_items p) ([], [])"
    "segs_fit (snd a') \<longrightarrow> items_fit p"
    using run_items_True [OF assms(1) CBB_init_True [OF assms(1,2) c(1)] _ assms(3) c(2)] by auto
  have "fst a' @ merge_segs (snd a') = enc_items p"
    using a'(2) by (simp add: a_write_def collapse_0)
  with CBB_finish_Some [OF assms(1) a'(1) c(3)] a'(3) show ?thesis by simp
qed

theorem build_complete:
  assumes "malloc_contract mal" "malloc_total mal" "cap < 2 ^ 61" "items_wf p" "items_fit p"
    and "length (enc_items p) < 2 ^ 58"
  shows "build mal cap p = Some (enc_items p)"
proof -
  obtain c where c: "CBB_init mal cap = (True, c)" "live c ([], [])"
    by (rule CBB_init_success [OF assms(1-3)])
  have "room 0 ([], []) (length (enc_items p) + 32)"
    using assms(6) by (simp add: room_def collapse_0 a_raw_def)
  from run_items_success [OF assms(1,2) c(2) this assms(4,5)] obtain c' a' where
    c': "run_items mal 0 p c = (True, c')" "live c' a'" "collapse 0 a' = a_write 0 (enc_items p) ([], [])"
    "segs_fit (snd a')" by auto
  have "room 0 a' 0" using c'(3,4) assms(6) by (simp add: room_def a_write_def collapse_0 a_raw_def)
  then obtain out cc where f: "CBB_finish mal 0 c' False = (Some out, cc)"
    by (rule CBB_finish_success [OF assms(1,2) c'(2)])
  then have "build mal cap p = Some out" using c(1) c'(1) by (simp add: build_def)
  with build_sound [OF assms(1) _ assms(4), of cap out] assms(3) show ?thesis by simp
qed

theorem build_eq:
  assumes "malloc_contract mal" "malloc_total mal" "cap < 2 ^ 61" "items_wf p"
    and "length (enc_items p) < 2 ^ 58"
  shows "build mal cap p = (if items_fit p then Some (enc_items p) else None)"
proof -
  have "cap < 2 ^ 63" using assms(3) by simp
  from build_complete [OF assms(1-4) _ assms(5)] build_sound [OF assms(1) this assms(4)]
  show ?thesis by (cases "build mal cap p") auto
qed

text \<open>One typed writer between \<open>CBB_init\<close> and \<open>CBB_finish\<close>.\<close>

definition single :: "allocator \<Rightarrow> nat \<Rightarrow> (CBB \<Rightarrow> bool \<times> CBB) \<Rightarrow> u8 list option" where
  "single mal cap op =
     (case and_then (CBB_init mal cap) op of
        (False, _) \<Rightarrow> None
      | (True, cbb) \<Rightarrow> fst (CBB_finish mal 0 cbb False))"

lemma single_Some:
  assumes "malloc_contract mal" "cap < 2 ^ 63" "single mal cap op = Some out"
    and "\<And>cbb cbb'. rep cbb ([], []) \<Longrightarrow> op cbb = (True, cbb') \<Longrightarrow> rep cbb' (a_write 0 bs ([], []))"
  shows "out = bs"
proof -
  obtain c c' cc where c: "CBB_init mal cap = (True, c)" "op c = (True, c')"
    "CBB_finish mal 0 c' False = (Some out, cc)"
    using assms(3) by (auto simp: single_def and_then_def prod_eq_iff split: prod.splits bool.splits if_splits)
  from assms(4) [OF CBB_init_True [OF assms(1,2) c(1)] c(2)]
  have "rep c' (bs, [])" by (simp add: a_write_def collapse_0)
  from CBB_finish_Some(1) [OF assms(1) this c(3)] show ?thesis by simp
qed

end
