(* ===== verification/Oid.thy ===== *)
theory Oid
  imports CbbTree
begin

text \<open>
  The OBJECT IDENTIFIER conversions of \<^verbatim>\<open>cbs.c\<close> (\<open>CBS_asn1_oid_to_text\<close>) and \<^verbatim>\<open>cbb.c\<close>
  (\<open>CBB_add_asn1_oid_from_text\<close>), against a specification of OIDs as lists of numbers
  with their dotted decimal text and their DER contents.
\<close>

section \<open>The code\<close>

text \<open>What \<open>snprintf\<close> prints for \<open>%llu\<close>.\<close>

fun dec :: "nat \<Rightarrow> u8 list" where
  "dec n = (if n < 10 then [byte (48 + n)] else dec (n div 10) @ [byte (48 + n mod 10)])"

declare dec.simps [simp del]

definition add_decimal :: "allocator \<Rightarrow> nat \<Rightarrow> CBB \<Rightarrow> u64 \<Rightarrow> bool \<times> CBB" where
  "add_decimal mal d out v = CBB_add_bytes mal d out (dec (unat v))"

text \<open>The loop over the remaining components.\<close>

function oid_to_text_loop :: "allocator \<Rightarrow> CBS \<Rightarrow> CBB \<Rightarrow> bool \<times> CBB" where
  "oid_to_text_loop mal copy cbb =
     (if CBS_len copy \<noteq> 0 then
        (case parse_base128_integer copy of
           (None, _) \<Rightarrow> (False, cbb)
         | (Some v, copy) \<Rightarrow>
             and_then (CBB_add_u8 mal 0 cbb 46) (\<lambda>cbb.
             and_then (add_decimal mal 0 cbb v) (\<lambda>cbb. oid_to_text_loop mal copy cbb)))
      else (True, cbb))"
  by pat_completeness auto

lemma parse_base128_shorter:
  "parse_base128_loop v cbs = (Some r, rest) \<Longrightarrow> length rest < length cbs"
  by (induction v cbs rule: parse_base128_loop.induct) (auto simp: Let_def less_SucI split: if_splits)

termination oid_to_text_loop
  by (relation "measure (\<lambda>(mal, copy, cbb). length copy)")
     (auto simp: parse_base128_integer_def dest: parse_base128_shorter [OF sym])

declare oid_to_text_loop.simps [simp del]

definition CBS_asn1_oid_to_text :: "allocator \<Rightarrow> CBS \<Rightarrow> u8 list option" where
  "CBS_asn1_oid_to_text mal cbs =
     (case and_then (CBB_init mal 32) (\<lambda>cbb.
        (case parse_base128_integer cbs of
           (None, _) \<Rightarrow> (False, cbb)
         | (Some v, copy) \<Rightarrow>
             and_then
               (if v \<ge> 80 then
                  and_then (CBB_add_bytes mal 0 cbb [50, 46]) (\<lambda>cbb. add_decimal mal 0 cbb (v - 80))
                else
                  and_then (add_decimal mal 0 cbb (v div 40)) (\<lambda>cbb.
                  and_then (CBB_add_u8 mal 0 cbb 46) (\<lambda>cbb. add_decimal mal 0 cbb (v mod 40))))
               (\<lambda>cbb. and_then (oid_to_text_loop mal copy cbb) (\<lambda>cbb. CBB_add_u8 mal 0 cbb 0)))) of
        (False, _) \<Rightarrow> None
      | (True, cbb) \<Rightarrow> fst (CBB_finish mal 0 cbb False))"

text \<open>The loop of \<open>parse_dotted_decimal\<close> with \<open>*out\<close> and \<open>seen_digit\<close>.\<close>

fun parse_dotted_loop :: "u64 \<Rightarrow> bool \<Rightarrow> CBS \<Rightarrow> u64 option \<times> CBS" where
  "parse_dotted_loop out seen_digit [] = (if seen_digit then Some out else None, [])"
| "parse_dotted_loop out seen_digit (u # cbs) =
     (if u = 46 \<and> CBS_len cbs > 0 then (if seen_digit then Some out else None, cbs)
      else if u < 48 \<or> u > 57 \<or> (seen_digit \<and> out = 0) \<or> out > (- 1) div 10 \<or>
              out * 10 > (- 1) - (ucast u - 48)
      then (None, cbs)
      else parse_dotted_loop (out * 10 + (ucast u - 48)) True cbs)"

definition parse_dotted_decimal :: "CBS \<Rightarrow> u64 option \<times> CBS" where
  "parse_dotted_decimal cbs = parse_dotted_loop 0 False cbs"

function oid_from_text_loop :: "allocator \<Rightarrow> nat \<Rightarrow> CBB \<Rightarrow> CBS \<Rightarrow> bool \<times> CBB" where
  "oid_from_text_loop mal d cbb cbs =
     (if CBS_len cbs > 0 then
        (case parse_dotted_decimal cbs of
           (None, _) \<Rightarrow> (False, cbb)
         | (Some a, cbs) \<Rightarrow>
             and_then (add_base128_integer mal d cbb a) (\<lambda>cbb. oid_from_text_loop mal d cbb cbs))
      else (True, cbb))"
  by pat_completeness auto

lemma parse_dotted_shorter:
  "cbs \<noteq> [] \<Longrightarrow> parse_dotted_loop v s cbs = (Some r, rest) \<Longrightarrow> length rest < length cbs"
proof (induction v s cbs rule: parse_dotted_loop.induct)
  case (2 out s u cbs)
  then show ?case by (cases cbs) (auto simp: less_SucI split: if_splits)
qed simp

termination oid_from_text_loop
  by (relation "measure (\<lambda>(mal, d, cbb, cbs). length cbs)")
     (auto simp: parse_dotted_decimal_def CBS_len_def dest: parse_dotted_shorter [OF _ sym, rotated])

declare oid_from_text_loop.simps [simp del]

definition CBB_add_asn1_oid_from_text :: "allocator \<Rightarrow> nat \<Rightarrow> CBB \<Rightarrow> u8 list \<Rightarrow> nat \<Rightarrow> bool \<times> CBB" where
  "CBB_add_asn1_oid_from_text mal d cbb text len =
     and_then (CBB_flush mal d cbb) (\<lambda>cbb.
       let cbs = CBS_init text len
       in (case parse_dotted_decimal cbs of
             (None, _) \<Rightarrow> (False, cbb)
           | (Some a, cbs) \<Rightarrow>
               (case parse_dotted_decimal cbs of
                  (None, _) \<Rightarrow> (False, cbb)
                | (Some b, cbs) \<Rightarrow>
                    if a > 2 \<or> (a < 2 \<and> b > 39) \<or> b > (- 1) - 80 then (False, cbb)
                    else
                      and_then (add_base128_integer mal d cbb (40 * a + b)) (\<lambda>cbb.
                        oid_from_text_loop mal d cbb cbs))))"

lemma case_run_Some:
  "(case r of (False, _) \<Rightarrow> None | (True, c) \<Rightarrow> g c) = Some t \<longleftrightarrow> (\<exists>c. r = (True, c) \<and> g c = Some t)"
  by (auto split: prod.splits bool.splits)

lemma fst_eq_iff: "fst p = x \<longleftrightarrow> (\<exists>y. p = (x, y))"
  by (cases p) auto

section \<open>The specification\<close>

fun oid_ok :: "nat list \<Rightarrow> bool" where
  "oid_ok (a # b # cs) =
     (a \<le> 2 \<and> (a < 2 \<longrightarrow> b \<le> 39) \<and> 40 * a + b < 2 ^ 64 \<and> (\<forall>c\<in>set cs. c < 2 ^ 64))"
| "oid_ok _ = False"

fun oid_text :: "nat list \<Rightarrow> u8 list" where
  "oid_text [] = []"
| "oid_text [c] = dec c"
| "oid_text (c # cs) = dec c @ 46 # oid_text cs"

fun oid_der :: "nat list \<Rightarrow> u8 list" where
  "oid_der (a # b # cs) = base128 (40 * a + b) @ concat (map base128 cs)"
| "oid_der _ = []"

lemma dec_nonempty [simp]: "dec n \<noteq> []"
  by (subst dec.simps) simp

lemma dec_digit: "c \<in> set (dec n) \<Longrightarrow> 48 \<le> unat c \<and> unat c \<le> 57"
proof (induction n rule: dec.induct)
  case (1 n)
  have "n mod 10 < 10" by simp
  then show ?case using 1 by (subst (asm) (2) dec.simps) (auto split: if_splits)
qed

text \<open>One digit: the overflow test is exact.\<close>

lemma dotted_step:
  assumes "48 \<le> unat (u :: u8)" "unat u \<le> 57"
  shows "\<not> (out > (- 1 :: u64) div 10 \<or> out * 10 > (- 1) - (ucast u - 48)) \<longleftrightarrow> 10 * unat out + (unat u - 48) < 2 ^ 64"
    and "10 * unat out + (unat u - 48) < 2 ^ 64 \<Longrightarrow>
      unat (out * 10 + (ucast u - 48)) = 10 * unat out + (unat u - 48)"
proof -
  have u: "unat (ucast u :: u64) = unat u" by (rule unat_u8_64)
  have dg: "unat (ucast u - 48 :: u64) = unat u - 48"
    using assms(1) u by (subst unat_sub) (auto simp: word_le_nat_alt)
  have m: "unat (- 1 :: u64) = 2 ^ 64 - 1" by (simp add: unsigned_minus_1_eq_mask mask_eq_exp_minus_1)
  have q: "unat ((- 1 :: u64) div 10) = 1844674407370955161" by (simp add: unat_div)
  have "(ucast u - 48 :: u64) \<le> - 1" by (simp add: word_le_nat_alt m) (use unat_u64_less [of "ucast u - 48"] in simp)
  then have r: "unat ((- 1 :: u64) - (ucast u - 48)) = 2 ^ 64 - 1 - (unat u - 48)"
    by (simp only: unat_sub m dg)
  show "\<not> (out > (- 1 :: u64) div 10 \<or> out * 10 > (- 1) - (ucast u - 48)) \<longleftrightarrow> 10 * unat out + (unat u - 48) < 2 ^ 64"
  proof (cases "unat out \<le> 1844674407370955161")
    case True
    then have "unat (out * 10) = 10 * unat out" by (subst unat_mult_lem [THEN iffD1]) auto
    then show ?thesis using True q r assms by (auto simp: word_less_nat_alt)
  next
    case False
    then show ?thesis using q by (auto simp: word_less_nat_alt)
  qed
  assume lt: "10 * unat out + (unat u - 48) < 2 ^ 64"
  then have "unat (out * 10) = 10 * unat out" by (subst unat_mult_lem [THEN iffD1]) auto
  then show "unat (out * 10 + (ucast u - 48)) = 10 * unat out + (unat u - 48)"
    using lt dg by (subst unat_add_lem [THEN iffD1]) auto
qed

lemma dec_snoc: "0 < n \<Longrightarrow> 48 \<le> unat u \<Longrightarrow> unat u \<le> 57 \<Longrightarrow> dec (10 * n + (unat u - 48)) = dec n @ [u]"
proof -
  assume a: "0 < n" "48 \<le> unat u" "unat u \<le> 57"
  define k where "k = unat u - 48"
  have "k < 10" "byte (48 + k) = u" using a by (auto simp: k_def)
  then have "dec (10 * n + k) = dec n @ [u]" using a(1) by (subst dec.simps) simp
  then show ?thesis by (simp only: k_def)
qed

lemma parse_dotted_sound:
  "parse_dotted_loop out True cbs = (Some v, rest) \<Longrightarrow>
    \<exists>ds. (cbs = ds \<and> rest = [] \<or> rest \<noteq> [] \<and> cbs = ds @ 46 # rest) \<and> dec (unat out) @ ds = dec (unat v)"
proof (induction out True cbs rule: parse_dotted_loop.induct)
  case (2 out u cbs)
  show ?case
  proof (cases "u = 46 \<and> CBS_len cbs > 0")
    case True
    then show ?thesis using "2.prems" by (auto simp: CBS_len_def intro!: exI [of _ "[]"])
  next
    case False
    let ?out = "out * 10 + (ucast u - 48) :: u64"
    have u: "48 \<le> unat u" "unat u \<le> 57" and nz: "out \<noteq> 0"
      and ov: "\<not> (out > (- 1 :: u64) div 10 \<or> out * 10 > (- 1) - (ucast u - 48))"
      and rec: "parse_dotted_loop ?out True cbs = (Some v, rest)"
      using "2.prems" False by (auto simp: word_less_nat_alt split: if_splits)
    have v: "unat ?out = 10 * unat out + (unat u - 48)"
      using dotted_step [OF u, of out] ov by simp
    from nz have "dec (unat ?out) = dec (unat out) @ [u]"
      unfolding v by (intro dec_snoc u) (simp add: unat_gt_0)
    moreover obtain ds where "cbs = ds \<and> rest = [] \<or> rest \<noteq> [] \<and> cbs = ds @ 46 # rest"
      "dec (unat ?out) @ ds = dec (unat v)"
      using "2.hyps" False u nz ov rec by (auto simp: word_less_nat_alt)
    ultimately show ?thesis by (intro exI [of _ "u # ds"]) auto
  qed
qed auto

lemma parse_dotted_dec:
  "n < 2 ^ 64 \<Longrightarrow> parse_dotted_loop 0 False (dec n @ bs) = parse_dotted_loop (of_nat n) True bs"
proof (induction n arbitrary: bs rule: dec.induct)
  case (1 n)
  let ?d = "byte (48 + n mod 10)"
  have d: "unat ?d = 48 + n mod 10" by (rule unat_byte) (simp add: less_trans [OF mod_less_divisor])
  then have u: "48 \<le> unat ?d" "unat ?d \<le> 57" using mod_less_divisor [of 10 n] by auto
  have ne: "?d \<noteq> 46"
  proof
    assume "?d = 46"
    then have "unat ?d = 46" by (simp only:) simp
    then show False using u by simp
  qed
  show ?case
  proof (cases "n < 10")
    case True
    then have h: "dec n = [?d]" by (subst dec.simps) simp
    have "\<not> ((0 :: u64) > (- 1) div 10 \<or> 0 * 10 > (- 1) - (ucast ?d - 48 :: u64))"
      "unat (0 * 10 + (ucast ?d - 48) :: u64) = n"
      using dotted_step [OF u, of 0] d True by auto
    moreover from this(2) have "(0 * 10 + (ucast ?d - 48) :: u64) = of_nat n"
      using True by (simp only: word_unat_eq_iff unat_of_nat_u64 [OF "1.prems"])
    ultimately show ?thesis using ne u True unfolding h
      by (simp add: word_less_nat_alt)
  next
    case False
    let ?o = "of_nat (n div 10) :: u64"
    have o: "unat ?o = n div 10" using "1.prems" by (intro unat_of_nat_u64) simp
    have h: "dec n = dec (n div 10) @ [?d]" using False by (subst dec.simps) simp
    have n10: "n div 10 < 2 ^ 64" using "1.prems" by simp
    have S: "\<not> (?o > (- 1) div 10 \<or> ?o * 10 > (- 1) - (ucast ?d - 48))" "unat (?o * 10 + (ucast ?d - 48)) = n"
      using dotted_step [OF u, of ?o] d o "1.prems" by auto
    have "?o \<noteq> 0" using o False by (metis div_greater_zero_iff not_less unat_0 less_irrefl zero_less_numeral)
    moreover from S(2) have "?o * 10 + (ucast ?d - 48) = of_nat n"
      by (simp only: word_unat_eq_iff unat_of_nat_u64 [OF "1.prems"])
    ultimately have "parse_dotted_loop ?o True (?d # bs) = parse_dotted_loop (of_nat n) True bs"
      using S(1) ne u
      by (simp only: parse_dotted_loop.simps) (simp add: word_less_nat_alt [of ?d] word_less_nat_alt [of _ ?d])
    then show ?thesis using "1.IH" [OF False n10, of "?d # bs"] h by simp
  qed
qed

theorem parse_dotted_decimal_iff:
  "parse_dotted_decimal cbs = (Some v, rest) \<longleftrightarrow>
    cbs = dec (unat v) \<and> rest = [] \<or> rest \<noteq> [] \<and> cbs = dec (unat v) @ 46 # rest"
proof
  assume p: "parse_dotted_decimal cbs = (Some v, rest)"
  obtain u cs where c: "cbs = u # cs" using p by (cases cbs) (auto simp: parse_dotted_decimal_def)
  have u: "48 \<le> unat u" "unat u \<le> 57" and rec: "parse_dotted_loop (0 * 10 + (ucast u - 48)) True cs = (Some v, rest)"
    using p c by (auto simp: parse_dotted_decimal_def word_less_nat_alt split: if_splits)
  have "unat (0 * 10 + (ucast u - 48) :: u64) = unat u - 48" using dotted_step(2) [OF u, of 0] u by simp
  moreover have "dec (unat u - 48) = [u]" using u by (subst dec.simps) (simp add: byte_eqI)
  ultimately show "cbs = dec (unat v) \<and> rest = [] \<or> rest \<noteq> [] \<and> cbs = dec (unat v) @ 46 # rest"
    using parse_dotted_sound [OF rec] c by auto
next
  have v: "unat v < 2 ^ 64" using unat_u64_less [of v] by simp
  assume "cbs = dec (unat v) \<and> rest = [] \<or> rest \<noteq> [] \<and> cbs = dec (unat v) @ 46 # rest"
  then show "parse_dotted_decimal cbs = (Some v, rest)"
    using parse_dotted_dec [OF v, of "[]"] parse_dotted_dec [OF v, of "46 # rest"]
    by (auto simp: parse_dotted_decimal_def CBS_len_def)
qed

section \<open>Text to DER\<close>

lemma get_then_True:
  "(case p of (None, _) \<Rightarrow> (False, s) | (Some v, r) \<Rightarrow> f v r) = (True, t) \<longleftrightarrow>
    (\<exists>v r. p = (Some v, r) \<and> f v r = (True, t))"
  by (auto split: prod.splits option.splits)

lemma oid_text_Cons: "oid_text (c # cs) = dec c @ concat (map (\<lambda>c. 46 # dec c) cs)"
  by (induction cs arbitrary: c) auto

lemma oid_from_text_loop_True:
  "malloc_contract mal \<Longrightarrow> rep cbb a \<Longrightarrow> length (snd a) = d \<Longrightarrow> oid_from_text_loop mal d cbb cbs = (True, cbb') \<Longrightarrow>
    \<exists>cs. (\<forall>c\<in>set cs. c < 2 ^ 64) \<and> cbs = oid_text cs \<and>
      rep cbb' (a_write d (concat (map base128 cs)) a) \<and> (cs = [] \<longleftrightarrow> cbs = [])"
proof (induction mal d cbb cbs arbitrary: a rule: oid_from_text_loop.induct)
  case (1 mal d cbb cbs)
  show ?case
  proof (cases "cbs = []")
    case True
    then have "cbb' = cbb" using "1.prems"(4) by (simp add: oid_from_text_loop.simps [of mal d cbb "[]"] CBS_len_def)
    then show ?thesis using True "1.prems" by (intro exI [of _ "[]"]) (simp add: a_write_def collapse_id)
  next
    case False
    then obtain v rest c where v: "parse_dotted_decimal cbs = (Some v, rest)"
      and c: "add_base128_integer mal d cbb v = (True, c)" "oid_from_text_loop mal d c rest = (True, cbb')"
      using "1.prems"(4)
      by (subst (asm) oid_from_text_loop.simps) (auto simp: CBS_len_def and_then_True get_then_True)
    have A: "rep c (a_write d (base128 (unat v)) a)"
      using add_base128_integer_True [OF "1.prems"(1,2) c(1)] by simp
    obtain cs where cs: "\<forall>c\<in>set cs. c < 2 ^ 64" "rest = oid_text cs"
      "rep cbb' (a_write d (concat (map base128 cs)) (a_write d (base128 (unat v)) a))" "cs = [] \<longleftrightarrow> rest = []"
      using "1.IH" [of "Some v" rest v c "a_write d (base128 (unat v)) a"] False v c A "1.prems"(1,3) by (auto simp: CBS_len_def)
    have "cbs = oid_text (unat v # cs)"
      using v cs(2,4) by (cases cs) (auto simp: parse_dotted_decimal_iff)
    then show ?thesis
      using cs False "1.prems"(3) unat_u64_less [of v] by (intro exI [of _ "unat v # cs"]) auto
  qed
qed

theorem CBB_add_asn1_oid_from_text_True:
  assumes "malloc_contract mal" "rep cbb a"
    and "CBB_add_asn1_oid_from_text mal d cbb text (length text) = (True, cbb')"
  shows "d \<le> length (snd a) \<and> (\<exists>cs. oid_ok cs \<and> text = oid_text cs \<and> rep cbb' (a_write d (oid_der cs) a))"
proof -
  obtain c x r1 y r2 c1 where c: "CBB_flush mal d cbb = (True, c)"
    "parse_dotted_decimal text = (Some x, r1)" "parse_dotted_decimal r1 = (Some y, r2)"
    "add_base128_integer mal d c (40 * x + y) = (True, c1)" "oid_from_text_loop mal d c1 r2 = (True, cbb')"
    and lim: "\<not> (x > 2 \<or> (x < 2 \<and> y > 39) \<or> y > (- 1) - 80)"
    using assms(3) by (auto simp: CBB_add_asn1_oid_from_text_def and_then_True CBS_init_def get_then_True
        split: if_splits)
  note F = CBB_flush_True [OF assms(1,2) c(1)]
  have x: "unat x \<le> 2" "unat x < 2 \<longrightarrow> unat y \<le> 39" "unat y \<le> 2 ^ 64 - 81"
    using lim by (auto simp: word_less_nat_alt)
  have "unat (40 * x) = 40 * unat x" using x(1) by (subst unat_mult_lem [THEN iffD1]) auto
  then have v: "unat (40 * x + y) = 40 * unat x + unat y" using x(1,3) by (subst unat_add_lem [THEN iffD1]) auto
  have "length (snd (collapse d a)) = d" using F by simp
  have R: "rep c1 (a_write d (base128 (40 * unat x + unat y)) a)"
    using add_base128_integer_True [OF assms(1) _ c(4), of "collapse d a"] F v by (simp add: a_write_collapse)
  obtain cs where cs: "\<forall>c\<in>set cs. c < 2 ^ 64" "r2 = oid_text cs" "cs = [] \<longleftrightarrow> r2 = []"
    "rep cbb' (a_write d (concat (map base128 cs)) (a_write d (base128 (40 * unat x + unat y)) a))"
    using oid_from_text_loop_True [OF assms(1) R _ c(5)] F by auto
  have "text = oid_text (unat x # unat y # cs)"
    using c(2,3) cs(2,3) by (cases cs) (auto simp: parse_dotted_decimal_iff)
  moreover have "oid_ok (unat x # unat y # cs)" using x cs(1) by auto
  moreover have "rep cbb' (a_write d (oid_der (unat x # unat y # cs)) a)" using cs(4) F by simp
  ultimately show ?thesis using F by blast
qed

section \<open>DER to text\<close>

lemma length_dec: "n < 2 ^ 64 \<Longrightarrow> length (dec n) \<le> 21"
proof -
  have "length (dec n) \<le> k + 1" if "n < 10 ^ k" for n k
    using that
  proof (induction k arbitrary: n)
    case (Suc k)
    then show ?case by (subst dec.simps) (auto simp: less_mult_imp_div_less)
  qed (subst dec.simps, simp)
  from this [of n 20] show "n < 2 ^ 64 \<Longrightarrow> length (dec n) \<le> 21" by simp
qed

lemma add_decimal_True:
  assumes "malloc_contract mal" "rep cbb a" "add_decimal mal d cbb v = (True, cbb')"
  shows "d \<le> length (snd a) \<and> rep cbb' (a_write d (dec (unat v)) a)"
proof -
  have "length (dec (unat v)) < 2 ^ 63"
    using length_dec [of "unat v"] unat_u64_less [of v] by simp
  from CBB_add_bytes_True [OF assms(1,2) this] assms(3) show ?thesis by (simp add: add_decimal_def)
qed

lemma parse_base128_iff:
  "parse_base128_integer cbs = (Some v, rest) \<longleftrightarrow> cbs = base128 (unat v) @ rest"
proof
  assume "parse_base128_integer cbs = (Some v, rest)"
  from parse_base128_sound [OF this [unfolded parse_base128_integer_def]]
  show "cbs = base128 (unat v) @ rest" by auto
next
  have "unat v < 2 ^ 64" using unat_u64_less [of v] by simp
  from parse_base128_complete [OF this] show "cbs = base128 (unat v) @ rest \<Longrightarrow> parse_base128_integer cbs = (Some v, rest)"
    by simp
qed

lemma oid_to_text_loop_True:
  "malloc_contract mal \<Longrightarrow> rep cbb a \<Longrightarrow> length (snd a) = 0 \<Longrightarrow> oid_to_text_loop mal copy cbb = (True, cbb') \<Longrightarrow>
    \<exists>cs. (\<forall>c\<in>set cs. c < 2 ^ 64) \<and> copy = concat (map base128 cs) \<and>
      rep cbb' (a_write 0 (concat (map (\<lambda>c. 46 # dec c) cs)) a)"
proof (induction mal copy cbb arbitrary: a rule: oid_to_text_loop.induct)
  case (1 mal copy cbb)
  show ?case
  proof (cases "copy = []")
    case True
    then have "cbb' = cbb" using "1.prems"(4) by (simp add: oid_to_text_loop.simps [of mal "[]"] CBS_len_def)
    then show ?thesis using True "1.prems" by (intro exI [of _ "[]"]) (simp add: a_write_def collapse_id)
  next
    case False
    then obtain v rest c c2 where v: "parse_base128_integer copy = (Some v, rest)"
      and c: "CBB_add_u8 mal 0 cbb 46 = (True, c)" "add_decimal mal 0 c v = (True, c2)"
        "oid_to_text_loop mal rest c2 = (True, cbb')"
      using "1.prems"(4)
      by (subst (asm) oid_to_text_loop.simps) (auto simp: CBS_len_def and_then_True get_then_True)
    have "rep c (a_write 0 [46] a)" using CBB_add_u8_True [OF "1.prems"(1,2) c(1)] by simp
    from add_decimal_True [OF "1.prems"(1) this c(2)]
    have A: "rep c2 (a_write 0 (46 # dec (unat v)) a)" by simp
    obtain cs where cs: "\<forall>c\<in>set cs. c < 2 ^ 64" "rest = concat (map base128 cs)"
      "rep cbb' (a_write 0 (concat (map (\<lambda>c. 46 # dec c) cs)) (a_write 0 (46 # dec (unat v)) a))"
      using "1.IH" [of "Some v" rest v c2 "a_write 0 (46 # dec (unat v)) a"] False v c A "1.prems"(1,3) by (auto simp: CBS_len_def)
    then show ?thesis
      using v unat_u64_less [of v] by (intro exI [of _ "unat v # cs"]) (auto simp: parse_base128_iff)
  qed
qed

theorem CBS_asn1_oid_to_text_sound:
  assumes "malloc_contract mal" "CBS_asn1_oid_to_text mal cbs = Some txt"
  shows "\<exists>cs. oid_ok cs \<and> cbs = oid_der cs \<and> txt = oid_text cs @ [0]"
proof -
  obtain c v copy c1 c2 c3 cc where i: "CBB_init mal 32 = (True, c)" "parse_base128_integer cbs = (Some v, copy)"
    and h: "(if v \<ge> 80 then
                  and_then (CBB_add_bytes mal 0 c [50, 46]) (\<lambda>cbb. add_decimal mal 0 cbb (v - 80))
                else
                  and_then (add_decimal mal 0 c (v div 40)) (\<lambda>cbb.
                  and_then (CBB_add_u8 mal 0 cbb 46) (\<lambda>cbb. add_decimal mal 0 cbb (v mod 40)))) = (True, c1)"
    and l: "oid_to_text_loop mal copy c1 = (True, c2)" "CBB_add_u8 mal 0 c2 0 = (True, c3)"
      "CBB_finish mal 0 c3 False = (Some txt, cc)"
    using assms(2) unfolding CBS_asn1_oid_to_text_def
    by (auto simp: case_run_Some and_then_True get_then_True fst_eq_iff)
  have R0: "rep c ([], [])" by (rule CBB_init_True [OF assms(1) _ i(1)]) simp
  have "\<exists>x y. x \<le> 2 \<and> (x < 2 \<longrightarrow> y \<le> 39) \<and> 40 * x + y = unat v \<and> rep c1 (a_write 0 (dec x @ 46 # dec y) ([], []))"
  proof (cases "v \<ge> 80")
    case True
    then obtain c0 where c0: "CBB_add_bytes mal 0 c [50, 46] = (True, c0)" "add_decimal mal 0 c0 (v - 80) = (True, c1)"
      using h by (auto simp: and_then_True)
    have "rep c0 (a_write 0 [50, 46] ([], []))" using CBB_add_bytes_True [OF assms(1) R0 _ c0(1)] by simp
    from add_decimal_True [OF assms(1) this c0(2)] have "rep c1 (a_write 0 ([50, 46] @ dec (unat (v - 80))) ([], []))" by simp
    moreover have "dec 2 = [50]" by (subst dec.simps) (simp add: byte_def)
    moreover have "unat (v - 80) = unat v - 80" "80 \<le> unat v" using True by (simp_all add: unat_sub word_le_nat_alt)
    ultimately show ?thesis by (intro exI [of _ 2] exI [of _ "unat v - 80"]) auto
  next
    case False
    then obtain c0 c0' where c0: "add_decimal mal 0 c (v div 40) = (True, c0)" "CBB_add_u8 mal 0 c0 46 = (True, c0')"
      "add_decimal mal 0 c0' (v mod 40) = (True, c1)"
      using h by (auto simp: and_then_True)
    have "rep c0 (a_write 0 (dec (unat v div 40)) ([], []))"
      using add_decimal_True [OF assms(1) R0 c0(1)] by (simp add: unat_div)
    from CBB_add_u8_True [OF assms(1) this c0(2)] have "rep c0' (a_write 0 (dec (unat v div 40) @ [46]) ([], []))" by simp
    from add_decimal_True [OF assms(1) this c0(3)]
    have "rep c1 (a_write 0 (dec (unat v div 40) @ 46 # dec (unat v mod 40)) ([], []))" by (simp add: unat_mod)
    moreover have "unat v div 40 \<le> 1" using False by (simp add: word_le_nat_alt)
    moreover have "unat v mod 40 \<le> 39" using mod_less_divisor [of 40 "unat v"] by simp
    ultimately show ?thesis by (intro exI [of _ "unat v div 40"] exI [of _ "unat v mod 40"]) auto
  qed
  then obtain x y where xy: "x \<le> 2" "x < 2 \<longrightarrow> y \<le> 39" "40 * x + y = unat v"
    and R1: "rep c1 (a_write 0 (dec x @ 46 # dec y) ([], []))" by blast
  obtain cs where cs: "\<forall>c\<in>set cs. c < 2 ^ 64" "copy = concat (map base128 cs)"
    "rep c2 (a_write 0 (concat (map (\<lambda>c. 46 # dec c) cs)) (a_write 0 (dec x @ 46 # dec y) ([], [])))"
    using oid_to_text_loop_True [OF assms(1) R1 _ l(1)] by auto
  have "rep c3 (a_write 0 (oid_text (x # y # cs) @ [0]) ([], []))"
    using CBB_add_u8_True [OF assms(1) cs(3) l(2)] by (simp add: oid_text_Cons)
  then have "rep c3 (oid_text (x # y # cs) @ [0], [])" by (simp add: a_write_def collapse_0)
  from CBB_finish_Some(1) [OF assms(1) this l(3)] have "txt = oid_text (x # y # cs) @ [0]" by simp
  moreover have "cbs = oid_der (x # y # cs)" using i(2) cs(2) xy(3) by (simp add: parse_base128_iff)
  moreover have "oid_ok (x # y # cs)" using xy cs(1) unat_u64_less [of v] by simp
  ultimately show ?thesis by blast
qed

text \<open>With memory available every OID is printed.\<close>

lemma add_decimal_success:
  assumes "malloc_contract mal" "malloc_total mal" "live cbb a" "room d a (length (dec (unat v)))"
  obtains cbb' where "add_decimal mal d cbb v = (True, cbb')" "live cbb' (a_write d (dec (unat v)) a)"
  unfolding add_decimal_def by (rule CBB_add_bytes_success [OF assms])

lemma room0: "length (snd a) = 0 \<Longrightarrow> room 0 a n \<longleftrightarrow> length (fst a) + n < 2 ^ 59"
  by (simp add: room_def collapse_id a_raw_def)

lemma a_write0: "a_write 0 bs (s, []) = (s @ bs, [])"
  by (simp add: a_write_def collapse_0)

lemma oid_to_text_loop_success:
  assumes "malloc_contract mal" "malloc_total mal"
  shows "live cbb (s, []) \<Longrightarrow> \<forall>c\<in>set cs. c < 2 ^ 64 \<Longrightarrow>
    length s + length (concat (map (\<lambda>c. 46 # dec c) cs)) < 2 ^ 59 \<Longrightarrow>
    \<exists>cbb'. oid_to_text_loop mal (concat (map base128 cs)) cbb = (True, cbb') \<and>
      live cbb' (s @ concat (map (\<lambda>c. 46 # dec c) cs), [])"
proof (induction cs arbitrary: cbb s)
  case Nil
  then show ?case by (subst oid_to_text_loop.simps) (simp add: CBS_len_def)
next
  case (Cons x cs)
  let ?v = "of_nat x :: u64"
  have v: "unat ?v = x" using Cons.prems(2) by (intro unat_of_nat_u64) simp
  obtain c where c: "CBB_add_u8 mal 0 cbb 46 = (True, c)" "live c (a_write 0 [46] (s, []))"
    using CBB_add_u8_success [OF assms Cons.prems(1), of 0 46] Cons.prems(3) by (auto simp: room0)
  obtain c2 where c2: "add_decimal mal 0 c ?v = (True, c2)" "live c2 (a_write 0 (dec x) (s @ [46], []))"
    using add_decimal_success [OF assms, of c "(s @ [46], [])" 0 ?v] c(2) Cons.prems(3) v
    by (auto simp: room0 a_write0)
  obtain cbb' where "oid_to_text_loop mal (concat (map base128 cs)) c2 = (True, cbb')"
    "live cbb' ((s @ 46 # dec x) @ concat (map (\<lambda>c. 46 # dec c) cs), [])"
    using Cons.IH [of c2 "s @ 46 # dec x"] c2(2) Cons.prems by (auto simp: a_write0)
  moreover have "parse_base128_integer (base128 x @ concat (map base128 cs)) = (Some ?v, concat (map base128 cs))"
    using v by (simp add: parse_base128_iff)
  moreover have "base128 x @ concat (map base128 cs) \<noteq> []" by (simp add: base128_def)
  ultimately show ?case
    using c(1) c2(1) by (subst oid_to_text_loop.simps) (auto simp: CBS_len_def and_then_True)
qed

theorem CBS_asn1_oid_to_text_complete:
  assumes "malloc_contract mal" "malloc_total mal" "oid_ok cs" "length (oid_text cs) < 2 ^ 58"
  shows "CBS_asn1_oid_to_text mal (oid_der cs) = Some (oid_text cs @ [0])"
proof -
  obtain x y ds where cs: "cs = x # y # ds" using assms(3) by (cases cs rule: oid_ok.cases) auto
  have xy: "x \<le> 2" "x < 2 \<longrightarrow> y \<le> 39" "40 * x + y < 2 ^ 64" "\<forall>c\<in>set ds. c < 2 ^ 64"
    using assms(3) cs by auto
  define v0 where "v0 = (of_nat (40 * x + y) :: u64)"
  let ?tail = "concat (map (\<lambda>c. 46 # dec c) ds)"
  have v: "unat v0 = 40 * x + y" unfolding v0_def using xy(3) by (rule unat_of_nat_u64)
  have tx: "oid_text cs = dec x @ 46 # dec y @ ?tail" unfolding cs oid_text_Cons by simp
  have p: "parse_base128_integer (oid_der cs) = (Some v0, concat (map base128 ds))"
    unfolding parse_base128_iff v cs by simp
  obtain c where c: "CBB_init mal 32 = (True, c)" "live c ([], [])"
    by (rule CBB_init_success [OF assms(1,2), of 32]) simp_all
  have sz: "length (dec x) + length (dec y) + length ?tail + 1 < 2 ^ 58" using assms(4) tx by simp
  obtain c1 where c1: "(if v0 \<ge> 80 then
                  and_then (CBB_add_bytes mal 0 c [50, 46]) (\<lambda>cbb. add_decimal mal 0 cbb (v0 - 80))
                else
                  and_then (add_decimal mal 0 c (v0 div 40)) (\<lambda>cbb.
                  and_then (CBB_add_u8 mal 0 cbb 46) (\<lambda>cbb. add_decimal mal 0 cbb (v0 mod 40)))) = (True, c1)"
    "live c1 (dec x @ 46 # dec y, [])"
  proof (cases "80 \<le> v0")
    case True
    then have v80: "80 \<le> 40 * x + y" using v by (simp add: word_le_nat_alt)
    have x2: "x = 2" using v80 xy(1,2) by (cases "x < 2") auto
    have d2: "dec 2 = [50]" by (subst dec.simps) (simp add: byte_def)
    have y: "unat (v0 - 80) = y" unfolding unat_sub [OF True] v using x2 by simp
    obtain c0 where c0: "CBB_add_bytes mal 0 c [50, 46] = (True, c0)" "live c0 ([50, 46], [])"
      using CBB_add_bytes_success [OF assms(1,2) c(2), of 0 "[50, 46]"] by (auto simp: room0 a_write0)
    obtain c1 where "add_decimal mal 0 c0 (v0 - 80) = (True, c1)" "live c1 ([50, 46] @ dec y, [])"
      using add_decimal_success [OF assms(1,2) c0(2), of 0 "v0 - 80"] sz unfolding y by (auto simp: room0 a_write0)
    then show ?thesis using that [of c1] c0(1) True x2 d2 by simp
  next
    case False
    then have lt: "40 * x + y < 80" using v by (simp add: word_le_nat_alt)
    then have "y \<le> 39" using xy(2) by (cases "x < 2") auto
    then have dm: "unat (v0 div 40) = x" "unat (v0 mod 40) = y" using v by (simp_all add: unat_div unat_mod)
    obtain c0 where c0: "add_decimal mal 0 c (v0 div 40) = (True, c0)" "live c0 (dec x, [])"
      using add_decimal_success [OF assms(1,2) c(2), of 0 "v0 div 40"] sz unfolding dm by (auto simp: room0 a_write0)
    obtain c0' where c0': "CBB_add_u8 mal 0 c0 46 = (True, c0')" "live c0' (dec x @ [46], [])"
      using CBB_add_u8_success [OF assms(1,2) c0(2), of 0 46] sz by (auto simp: room0 a_write0)
    obtain c1 where "add_decimal mal 0 c0' (v0 mod 40) = (True, c1)" "live c1 (dec x @ 46 # dec y, [])"
      using add_decimal_success [OF assms(1,2) c0'(2), of 0 "v0 mod 40"] sz unfolding dm by (auto simp: room0 a_write0)
    then show ?thesis using that [of c1] c0(1) c0'(1) False by simp
  qed
  obtain c2 where c2: "oid_to_text_loop mal (concat (map base128 ds)) c1 = (True, c2)" "live c2 (oid_text cs, [])"
    using oid_to_text_loop_success [OF assms(1,2) c1(2) xy(4)] sz tx by auto
  obtain c3 where c3: "CBB_add_u8 mal 0 c2 0 = (True, c3)" "live c3 (oid_text cs @ [0], [])"
    using CBB_add_u8_success [OF assms(1,2) c2(2), of 0 0] assms(4) by (auto simp: room0 a_write0)
  obtain out cc where f: "CBB_finish mal 0 c3 False = (Some out, cc)"
    using CBB_finish_success [OF assms(1,2) c3(2)] assms(4) by (auto simp: room0)
  then have "out = oid_text cs @ [0]"
    using CBB_finish_Some(1) [OF assms(1) _ f] c3(2) by (auto simp: live_def)
  then show ?thesis
    unfolding CBS_asn1_oid_to_text_def by (simp add: c(1) p c1(1) c2(1) c3(1) f)
qed

end
