(* ===== verification/Unicode.thy ===== *)
theory Unicode
  imports CbbRefine
begin

text \<open>
  \<^verbatim>\<open>crypto/bytestring/unicode.c\<close>: reading and writing code points in UTF-8, Latin-1, UCS-2
  and UTF-32. Each pair of a reader and a writer is an instance of the locale
  \<open>codec\<close>, whose laws say that the reader accepts exactly the encodings of the valid code
  points and the writer appends them; what holds for every such pair is proved once.
\<close>

section \<open>The code\<close>

definition is_valid_code_point :: "u32 \<Rightarrow> bool" where
  "is_valid_code_point v =
     (if v > 0x10ffff \<or> v AND 0xfffe = 0xfffe \<or> (v \<ge> 0xfdd0 \<and> v \<le> 0xfdef) \<or>
         (v \<ge> 0xd800 \<and> v \<le> 0xdfff)
      then False else True)"

definition BOTTOM_BITS :: "nat \<Rightarrow> u8" where
  "BOTTOM_BITS n = ucast (push_bit n 1 - 1 :: u32)"

definition TOP_BITS :: "nat \<Rightarrow> u8" where
  "TOP_BITS n = NOT (BOTTOM_BITS (8 - n))"

text \<open>The loop over the continuation bytes.\<close>

fun utf8_tail :: "nat \<Rightarrow> u32 \<Rightarrow> CBS \<Rightarrow> u32 option \<times> CBS" where
  "utf8_tail 0 v cbs = (Some v, cbs)"
| "utf8_tail (Suc n) v cbs =
     then_get (CBS_get_u8 cbs) (\<lambda>c cbs.
       if c AND TOP_BITS 2 \<noteq> TOP_BITS 1 then (None, cbs)
       else utf8_tail n (push_bit 6 v OR ucast (c AND BOTTOM_BITS 6)) cbs)"

definition cbs_get_utf8 :: "CBS \<Rightarrow> u32 option \<times> CBS" where
  "cbs_get_utf8 cbs =
     then_get (CBS_get_u8 cbs) (\<lambda>c cbs.
       if c \<le> 0x7f then (Some (ucast c), cbs)
       else
         (case (if c AND TOP_BITS 3 = TOP_BITS 2 then Some (c AND BOTTOM_BITS 5, 1, 0x80)
                else if c AND TOP_BITS 4 = TOP_BITS 3 then Some (c AND BOTTOM_BITS 4, 2, 0x800)
                else if c AND TOP_BITS 5 = TOP_BITS 4 then Some (c AND BOTTOM_BITS 3, 3, 0x10000)
                else None) of
            None \<Rightarrow> (None, cbs)
          | Some (v, len, lower_bound) \<Rightarrow>
              then_get (utf8_tail len (ucast v) cbs) (\<lambda>v cbs.
                if \<not> is_valid_code_point v \<or> v < lower_bound then (None, cbs) else (Some v, cbs))))"

definition cbs_get_latin1 :: "CBS \<Rightarrow> u32 option \<times> CBS" where
  "cbs_get_latin1 cbs = then_get (CBS_get_u8 cbs) (\<lambda>c cbs. (Some (ucast c), cbs))"

definition cbs_get_ucs2_be :: "CBS \<Rightarrow> u32 option \<times> CBS" where
  "cbs_get_ucs2_be cbs =
     then_get (CBS_get_u16 cbs) (\<lambda>c cbs.
       if \<not> is_valid_code_point (ucast c) then (None, cbs) else (Some (ucast c), cbs))"

definition cbs_get_utf32_be :: "CBS \<Rightarrow> u32 option \<times> CBS" where
  "cbs_get_utf32_be cbs =
     then_get (CBS_get_u32 cbs) (\<lambda>c cbs. if is_valid_code_point c then (Some c, cbs) else (None, cbs))"

definition cbb_get_utf8_len :: "u32 \<Rightarrow> nat" where
  "cbb_get_utf8_len u =
     (if u \<le> 0x7f then 1 else if u \<le> 0x7ff then 2 else if u \<le> 0xffff then 3 else 4)"

definition cbb_add_utf8 :: "allocator \<Rightarrow> nat \<Rightarrow> CBB \<Rightarrow> u32 \<Rightarrow> bool \<times> CBB" where
  "cbb_add_utf8 mal d cbb u =
     (if \<not> is_valid_code_point u then (False, cbb)
      else if u \<le> 0x7f then CBB_add_u8 mal d cbb (ucast u)
      else if u \<le> 0x7ff then
        and_then (CBB_add_u8 mal d cbb (ucast (ucast (TOP_BITS 2) OR drop_bit 6 u))) (\<lambda>cbb.
          CBB_add_u8 mal d cbb (ucast (ucast (TOP_BITS 1) OR (u AND ucast (BOTTOM_BITS 6)))))
      else if u \<le> 0xffff then
        and_then (CBB_add_u8 mal d cbb (ucast (ucast (TOP_BITS 3) OR drop_bit 12 u))) (\<lambda>cbb.
        and_then (CBB_add_u8 mal d cbb
          (ucast (ucast (TOP_BITS 1) OR (drop_bit 6 u AND ucast (BOTTOM_BITS 6))))) (\<lambda>cbb.
          CBB_add_u8 mal d cbb (ucast (ucast (TOP_BITS 1) OR (u AND ucast (BOTTOM_BITS 6))))))
      else if u \<le> 0x10ffff then
        and_then (CBB_add_u8 mal d cbb (ucast (ucast (TOP_BITS 4) OR drop_bit 18 u))) (\<lambda>cbb.
        and_then (CBB_add_u8 mal d cbb
          (ucast (ucast (TOP_BITS 1) OR (drop_bit 12 u AND ucast (BOTTOM_BITS 6))))) (\<lambda>cbb.
        and_then (CBB_add_u8 mal d cbb
          (ucast (ucast (TOP_BITS 1) OR (drop_bit 6 u AND ucast (BOTTOM_BITS 6))))) (\<lambda>cbb.
          CBB_add_u8 mal d cbb (ucast (ucast (TOP_BITS 1) OR (u AND ucast (BOTTOM_BITS 6)))))))
      else (False, cbb))"

definition cbb_add_latin1 :: "allocator \<Rightarrow> nat \<Rightarrow> CBB \<Rightarrow> u32 \<Rightarrow> bool \<times> CBB" where
  "cbb_add_latin1 mal d cbb u =
     (if u \<le> 0xff then CBB_add_u8 mal d cbb (ucast u) else (False, cbb))"

definition cbb_add_ucs2_be :: "allocator \<Rightarrow> nat \<Rightarrow> CBB \<Rightarrow> u32 \<Rightarrow> bool \<times> CBB" where
  "cbb_add_ucs2_be mal d cbb u =
     (if u \<le> 0xffff \<and> is_valid_code_point u then CBB_add_u16 mal d cbb (ucast u) else (False, cbb))"

definition cbb_add_utf32_be :: "allocator \<Rightarrow> nat \<Rightarrow> CBB \<Rightarrow> u32 \<Rightarrow> bool \<times> CBB" where
  "cbb_add_utf32_be mal d cbb u =
     (if is_valid_code_point u then CBB_add_u32 mal d cbb u else (False, cbb))"

section \<open>What a codec is\<close>

locale codec =
  fixes get :: "CBS \<Rightarrow> u32 option \<times> CBS"
    and add :: "allocator \<Rightarrow> nat \<Rightarrow> CBB \<Rightarrow> u32 \<Rightarrow> bool \<times> CBB"
    and enc :: "u32 \<Rightarrow> u8 list"
    and ok :: "u32 \<Rightarrow> bool"
  assumes get_iff: "get cbs = (Some v, rest) \<longleftrightarrow> ok v \<and> cbs = enc v @ rest"
    and add_True: "malloc_contract mal \<Longrightarrow> rep cbb a \<Longrightarrow> add mal d cbb u = (True, cbb') \<Longrightarrow>
      ok u \<and> d \<le> length (snd a) \<and> rep cbb' (a_write d (enc u) a)"
    and enc_nonempty: "enc u \<noteq> []"

text \<open>Reading \<open>n\<close> code points and writing a list of them, the loops of the string
  conversions.\<close>

fun get_points :: "(CBS \<Rightarrow> u32 option \<times> CBS) \<Rightarrow> nat \<Rightarrow> CBS \<Rightarrow> u32 list option \<times> CBS" where
  "get_points get 0 cbs = (Some [], cbs)"
| "get_points get (Suc n) cbs =
     then_get (get cbs) (\<lambda>u cbs. then_get (get_points get n cbs) (\<lambda>us cbs. (Some (u # us), cbs)))"

fun add_points ::
    "(allocator \<Rightarrow> nat \<Rightarrow> CBB \<Rightarrow> u32 \<Rightarrow> bool \<times> CBB) \<Rightarrow> allocator \<Rightarrow> nat \<Rightarrow> CBB \<Rightarrow> u32 list \<Rightarrow> bool \<times> CBB" where
  "add_points add mal d cbb [] = (True, cbb)"
| "add_points add mal d cbb (u # us) =
     and_then (add mal d cbb u) (\<lambda>cbb. add_points add mal d cbb us)"

context codec
begin

lemma enc_cancel: "ok u \<Longrightarrow> ok v \<Longrightarrow> enc u @ r = enc v @ s \<Longrightarrow> u = v \<and> r = s"
  using get_iff [of "enc u @ r" u r] get_iff [of "enc u @ r" v s] by auto

lemma get_points_iff:
  "get_points get n cbs = (Some us, rest) \<longleftrightarrow>
    length us = n \<and> (\<forall>u\<in>set us. ok u) \<and> cbs = concat (map enc us) @ rest"
proof (induction n arbitrary: cbs us)
  case 0
  then show ?case by auto
next
  case (Suc n)
  then show ?case by (cases us) (auto simp: then_get_Some get_iff)
qed

lemma add_points_True:
  assumes "malloc_contract mal"
  shows "rep cbb a \<Longrightarrow> us \<noteq> [] \<Longrightarrow> add_points add mal d cbb us = (True, cbb') \<Longrightarrow>
    (\<forall>u\<in>set us. ok u) \<and> d \<le> length (snd a) \<and> rep cbb' (a_write d (concat (map enc us)) a)"
proof (induction us arbitrary: cbb a)
  case (Cons u us)
  then obtain c where c: "add mal d cbb u = (True, c)" "add_points add mal d c us = (True, cbb')"
    by (auto simp: and_then_True)
  note A = add_True [OF assms Cons.prems(1) c(1)]
  show ?case
  proof (cases "us = []")
    case False
    from Cons.IH [OF _ False c(2), of "a_write d (enc u) a"] A show ?thesis by auto
  qed (use A c(2) in auto)
qed simp

end

section \<open>Fixed-width codecs\<close>

lemma cbs_get_u_iff:
  assumes "k \<le> 8"
  shows "cbs_get_u cbs k = (Some v, rest) \<longleftrightarrow> unat v < 256 ^ k \<and> cbs = be_bytes k (unat v) @ rest"
proof
  assume "cbs_get_u cbs k = (Some v, rest)"
  then obtain xs where xs: "cbs = xs @ rest" "length xs = k" "v = be_load xs" by (auto simp: cbs_get_u_Some)
  then have "unat v = be_val xs" using assms by (simp add: unat_be_load)
  then show "unat v < 256 ^ k \<and> cbs = be_bytes k (unat v) @ rest"
    using xs be_val_less [of xs] assms by (simp add: be_bytes_be_val)
next
  assume r: "unat v < 256 ^ k \<and> cbs = be_bytes k (unat v) @ rest"
  then have "be_load (be_bytes k (unat v)) = v"
    using assms by (simp add: word_unat_eq_iff unat_be_load be_val_be_bytes)
  then show "cbs_get_u cbs k = (Some v, rest)" using r by (auto simp: cbs_get_u_Some)
qed

lemma CBS_get_u16_iff: "CBS_get_u16 cbs = (Some v, rest) \<longleftrightarrow> cbs = be_bytes 2 (unat v) @ rest"
proof -
  have v: "unat v < 256 ^ 2" using unat_u16_less [of v] by simp
  have "CBS_get_u16 cbs = (Some v, rest) \<longleftrightarrow> (\<exists>w. cbs_get_u cbs 2 = (Some w, rest) \<and> v = ucast w)"
    by (auto simp: CBS_get_u16_def then_get_Some)
  also have "\<dots> \<longleftrightarrow> (\<exists>w :: u64. unat w < 256 ^ 2 \<and> cbs = be_bytes 2 (unat w) @ rest \<and> unat w = unat v)"
    by (rule ex_cong1) (auto simp: cbs_get_u_iff word_unat_eq_iff unsigned_ucast_eq take_bit_nat_eq_self)
  also have "\<dots> \<longleftrightarrow> cbs = be_bytes 2 (unat v) @ rest"
    using v unat_ucast_64(1) [of v] by (auto intro!: exI [of _ "ucast v"])
  finally show ?thesis .
qed

lemma CBS_get_u32_iff: "CBS_get_u32 cbs = (Some v, rest) \<longleftrightarrow> cbs = be_bytes 4 (unat v) @ rest"
proof -
  have v: "unat v < 256 ^ 4" using unat_u32_less [of v] by simp
  have "CBS_get_u32 cbs = (Some v, rest) \<longleftrightarrow> (\<exists>w. cbs_get_u cbs 4 = (Some w, rest) \<and> v = ucast w)"
    by (auto simp: CBS_get_u32_def then_get_Some)
  also have "\<dots> \<longleftrightarrow> (\<exists>w :: u64. unat w < 256 ^ 4 \<and> cbs = be_bytes 4 (unat w) @ rest \<and> unat w = unat v)"
    by (rule ex_cong1) (auto simp: cbs_get_u_iff word_unat_eq_iff unsigned_ucast_eq take_bit_nat_eq_self)
  also have "\<dots> \<longleftrightarrow> cbs = be_bytes 4 (unat v) @ rest"
    using v unat_ucast_64(2) [of v] by (auto intro!: exI [of _ "ucast v"])
  finally show ?thesis .
qed

lemma unat_u16_32: "unat (ucast (c :: u16) :: u32) = unat c"
  using unat_u16_less [of c] by (simp add: unsigned_ucast_eq take_bit_nat_eq_self)

lemma unat_ucast_small:
  "unat u < 256 \<Longrightarrow> unat (ucast (u :: u32) :: u8) = unat u"
  "unat u < 65536 \<Longrightarrow> unat (ucast (u :: u32) :: u16) = unat u"
  by (simp_all add: unsigned_ucast_eq take_bit_nat_eq_self)

lemma CBS_get_u8_iff: "CBS_get_u8 cbs = (Some b, rest) \<longleftrightarrow> cbs = b # rest"
  by (cases cbs) auto

lemma be_bytes_nonempty: "0 < k \<Longrightarrow> be_bytes k n \<noteq> []"
  using length_be_bytes [of k n] by (metis length_0_conv neq0_conv)

interpretation latin1: codec cbs_get_latin1 cbb_add_latin1 "\<lambda>u. [ucast u]" "\<lambda>u. u \<le> 0xff"
proof
  fix cbs rest and v :: u32
  have "ucast c = v \<longleftrightarrow> v \<le> 0xff \<and> c = ucast v" for c :: u8
    using unat_u8_less [of c] unat_ucast_small(1) [of v]
    by (auto simp: word_le_nat_alt word_unat_eq_iff unat_u8_32)
  then show "cbs_get_latin1 cbs = (Some v, rest) \<longleftrightarrow> v \<le> 0xff \<and> cbs = [ucast v] @ rest"
    by (auto simp: cbs_get_latin1_def then_get_Some CBS_get_u8_iff)
next
  fix mal cbb a d u cbb'
  assume "malloc_contract mal" "rep cbb a" "cbb_add_latin1 mal d cbb u = (True, cbb')"
  then show "u \<le> 0xff \<and> d \<le> length (snd a) \<and> rep cbb' (a_write d [ucast u] a)"
    by (auto simp: cbb_add_latin1_def dest: CBB_add_u8_True split: if_splits)
qed simp

interpretation ucs2: codec cbs_get_ucs2_be cbb_add_ucs2_be "\<lambda>u. be_bytes 2 (unat u)"
  "\<lambda>u. u \<le> 0xffff \<and> is_valid_code_point u"
proof
  fix cbs rest and v :: u32
  have w: "v \<le> 0xffff \<Longrightarrow> unat (ucast v :: u16) = unat v"
    by (intro unat_ucast_small) (simp add: word_le_nat_alt)
  then have "v \<le> 0xffff \<Longrightarrow> ucast (ucast v :: u16) = v"
    by (simp only: word_unat_eq_iff unat_u16_32)
  moreover have "(ucast c :: u32) \<le> 0xffff" for c :: u16
    using unat_u16_less [of c] by (simp add: word_le_nat_alt unat_u16_32)
  moreover note w unat_u16_32
  ultimately show "cbs_get_ucs2_be cbs = (Some v, rest) \<longleftrightarrow>
      (v \<le> 0xffff \<and> is_valid_code_point v) \<and> cbs = be_bytes 2 (unat v) @ rest"
    by (auto simp: cbs_get_ucs2_be_def then_get_Some CBS_get_u16_iff intro!: exI [of _ "ucast v :: u16"] split: if_splits)
next
  fix mal cbb a d u cbb'
  assume m: "malloc_contract mal" "rep cbb a" "cbb_add_ucs2_be mal d cbb u = (True, cbb')"
  then have "u \<le> 0xffff" "is_valid_code_point u" "CBB_add_u16 mal d cbb (ucast u) = (True, cbb')"
    by (auto simp: cbb_add_ucs2_be_def split: if_splits)
  moreover from this have "unat (ucast u :: u16) = unat u"
    by (intro unat_ucast_small) (simp add: word_le_nat_alt)
  ultimately show "(u \<le> 0xffff \<and> is_valid_code_point u) \<and> d \<le> length (snd a) \<and>
      rep cbb' (a_write d (be_bytes 2 (unat u)) a)"
    using CBB_add_u16_True [OF m(1,2), of d "ucast u" cbb'] by auto
qed (simp add: be_bytes_nonempty)

interpretation utf32: codec cbs_get_utf32_be cbb_add_utf32_be "\<lambda>u. be_bytes 4 (unat u)" is_valid_code_point
proof
  fix cbs v rest
  show "cbs_get_utf32_be cbs = (Some v, rest) \<longleftrightarrow> is_valid_code_point v \<and> cbs = be_bytes 4 (unat v) @ rest"
    by (auto simp: cbs_get_utf32_be_def then_get_Some CBS_get_u32_iff split: if_splits)
next
  fix mal cbb a d u cbb'
  assume "malloc_contract mal" "rep cbb a" "cbb_add_utf32_be mal d cbb u = (True, cbb')"
  then show "is_valid_code_point u \<and> d \<le> length (snd a) \<and> rep cbb' (a_write d (be_bytes 4 (unat u)) a)"
    by (auto simp: cbb_add_utf32_be_def dest: CBB_add_u32_True split: if_splits)
qed (simp add: be_bytes_nonempty)

section \<open>UTF-8\<close>

text \<open>The continuation bytes of a number and its encoding.\<close>

fun conts :: "nat \<Rightarrow> nat \<Rightarrow> u8 list" where
  "conts 0 n = []"
| "conts (Suc k) n = byte (128 + n div 64 ^ k mod 64) # conts k n"

definition utf8_enc :: "u32 \<Rightarrow> u8 list" where
  "utf8_enc v =
     (let n = unat v
      in if n < 0x80 then [byte n]
         else if n < 0x800 then byte (192 + n div 64) # conts 1 n
         else if n < 0x10000 then byte (224 + n div 64 ^ 2) # conts 2 n
         else byte (240 + n div 64 ^ 3) # conts 3 n)"

lemma BOTTOM_BITS_mask: "n \<le> 8 \<Longrightarrow> BOTTOM_BITS n = mask n"
  by (auto simp: BOTTOM_BITS_def bit_eq_iff bit_simps mask_eq_exp_minus_1 [symmetric] simp del: push_bit_numeral)

lemma unat_and_bottom: "n \<le> 8 \<Longrightarrow> unat (c AND BOTTOM_BITS n) = unat c mod 2 ^ n"
  by (simp add: BOTTOM_BITS_mask unat_and_mask)

lemma and_top: "n \<le> 8 \<Longrightarrow> c AND TOP_BITS n = push_bit (8 - n) (drop_bit (8 - n) c)"
  by (auto simp: TOP_BITS_def BOTTOM_BITS_mask bit_eq_iff bit_simps simp del: push_bit_numeral)

lemma unat_and_top: "n \<le> 8 \<Longrightarrow> unat (c AND TOP_BITS n) = unat c div 2 ^ (8 - n) * 2 ^ (8 - n)"
proof -
  assume n: "n \<le> 8"
  have "unat c div 2 ^ (8 - n) * 2 ^ (8 - n) \<le> unat c" by (rule div_times_less_eq_dividend)
  then have "unat c div 2 ^ (8 - n) * 2 ^ (8 - n) < 2 ^ 8"
    by (rule le_less_trans) (use unat_u8_less [of c] in simp)
  then show ?thesis
    unfolding and_top [OF n] unsigned_push_bit_eq unat_drop_bit_word
    by (simp only: push_bit_eq_mult) (simp add: take_bit_nat_eq_self)
qed

lemma top_test:
  "c AND TOP_BITS 2 = TOP_BITS 1 \<longleftrightarrow> unat c div 64 = 2"
  "c AND TOP_BITS 3 = TOP_BITS 2 \<longleftrightarrow> unat c div 32 = 6"
  "c AND TOP_BITS 4 = TOP_BITS 3 \<longleftrightarrow> unat c div 16 = 14"
  "c AND TOP_BITS 5 = TOP_BITS 4 \<longleftrightarrow> unat c div 8 = 30"
proof -
  have t: "unat (TOP_BITS 1) = 128" "unat (TOP_BITS 2) = 192" "unat (TOP_BITS 3) = 224" "unat (TOP_BITS 4) = 240"
    by (simp_all add: TOP_BITS_def BOTTOM_BITS_def)
  show "c AND TOP_BITS 2 = TOP_BITS 1 \<longleftrightarrow> unat c div 64 = 2"
    "c AND TOP_BITS 3 = TOP_BITS 2 \<longleftrightarrow> unat c div 32 = 6"
    "c AND TOP_BITS 4 = TOP_BITS 3 \<longleftrightarrow> unat c div 16 = 14"
    "c AND TOP_BITS 5 = TOP_BITS 4 \<longleftrightarrow> unat c div 8 = 30"
    by (auto simp: word_unat_eq_iff unat_and_top t t(1) [unfolded One_nat_def])
qed

lemma byte_eq_iff: "n < 256 \<Longrightarrow> c = byte n \<longleftrightarrow> unat c = n"
  by (metis byte_unat unat_byte)

lemma cont_byte:
  "(unat c div 64 = 2 \<and> q = 64 * v + unat c mod 64) \<longleftrightarrow> (q div 64 = v \<and> c = byte (128 + q mod 64))"
proof -
  have b: "c = byte (128 + q mod 64) \<longleftrightarrow> unat c = 128 + q mod 64"
    by (rule byte_eq_iff) (simp add: less_trans [OF mod_less_divisor])
  have split: "x = 64 * k + r \<longleftrightarrow> x div 64 = k \<and> x mod 64 = r" if "r < 64" for x k r :: nat
    using that mult_div_mod_eq [of 64 x] by auto
  have "unat c = 128 + q mod 64 \<longleftrightarrow> unat c div 64 = 2 \<and> unat c mod 64 = q mod 64"
    using split [of "q mod 64" "unat c" 2] by simp
  moreover have "q = 64 * v + unat c mod 64 \<longleftrightarrow> q div 64 = v \<and> q mod 64 = unat c mod 64"
    by (rule split) simp
  ultimately show ?thesis using b by auto
qed

lemma utf8_tail_iff:
  "(unat v + 1) * 64 ^ k \<le> 2 ^ 32 \<Longrightarrow>
    utf8_tail k v cbs = (Some w, rest) \<longleftrightarrow> unat w div 64 ^ k = unat v \<and> cbs = conts k (unat w) @ rest"
proof (induction k arbitrary: v cbs)
  case 0
  then show ?case by (auto simp: word_unat_eq_iff)
next
  case (Suc k)
  show ?case
  proof (cases cbs)
    case (Cons c cs)
    let ?v = "push_bit 6 v OR ucast (c AND BOTTOM_BITS 6) :: u32"
    have m: "unat (ucast (c AND BOTTOM_BITS 6) :: u32) = unat c mod 64"
      by (simp add: unat_u8_32 unat_and_bottom)
    have "1 \<le> (64::nat) ^ k" by simp
    then have "(unat v + 1) * 64 * 1 \<le> (unat v + 1) * 64 * 64 ^ k" by (rule mult_le_mono2)
    then have "(unat v + 1) * 64 \<le> 2 ^ 32" using Suc.prems by (simp add: algebra_simps)
    then have "unat v * 2 ^ 6 + unat c mod 64 < 2 ^ 32"
      using mod_less_divisor [of 64 "unat c"] by (simp add: algebra_simps)
    then have u: "unat ?v = 64 * unat v + unat c mod 64"
      using m by (subst unat_shift_or) (auto simp: mult.commute)
    have "(64 * unat v + unat c mod 64 + 1) * 64 ^ k \<le> (64 * (unat v + 1)) * 64 ^ k"
      using mod_less_divisor [of 64 "unat c"] by (intro mult_le_mono1) simp
    moreover have "(64 * (unat v + 1)) * 64 ^ k \<le> 2 ^ 32"
      using Suc.prems by (simp add: algebra_simps)
    ultimately have bound: "(unat ?v + 1) * 64 ^ k \<le> 2 ^ 32"
      unfolding u by (rule order_trans)
    have "utf8_tail (Suc k) v cbs = (Some w, rest) \<longleftrightarrow>
        unat c div 64 = 2 \<and> unat w div 64 ^ k = 64 * unat v + unat c mod 64 \<and> cs = conts k (unat w) @ rest"
      using Suc.IH [OF bound, of cs] Cons u by (auto simp: top_test top_test(1) [unfolded One_nat_def])
    also have "\<dots> \<longleftrightarrow> unat w div 64 ^ k div 64 = unat v \<and> c = byte (128 + unat w div 64 ^ k mod 64)
        \<and> cs = conts k (unat w) @ rest"
      using cont_byte [of c "unat w div 64 ^ k" "unat v"] by blast
    also have "\<dots> \<longleftrightarrow> unat w div 64 ^ Suc k = unat v \<and> cbs = conts (Suc k) (unat w) @ rest"
      by (auto simp: Cons div_mult2_eq [symmetric] mult.commute)
    finally show ?thesis .
  qed simp
qed

lemma ascii_valid: "unat v < 128 \<Longrightarrow> is_valid_code_point v"
proof -
  assume v: "unat v < 128"
  have "unat (v AND 0xfffe) \<le> unat v" by (simp add: word_le_nat_alt [symmetric] word_and_le2)
  then have "v AND 0xfffe \<noteq> 0xfffe" using v by (auto simp: word_unat_eq_iff)
  then show ?thesis using v by (simp add: is_valid_code_point_def word_less_nat_alt word_le_nat_alt)
qed

lemma valid_bound: "is_valid_code_point v \<Longrightarrow> unat v \<le> 0x10ffff"
  by (auto simp: is_valid_code_point_def word_less_nat_alt not_less split: if_splits)

text \<open>The multi-byte branch with lead bits \<open>lead\<close>, \<open>k\<close> continuation bytes and bound \<open>lo\<close>.\<close>

lemma utf8_branch:
  assumes "unat v0 = x mod m" "(m * 64 ^ k :: nat) \<le> 2 ^ 32" "0 < m"
  shows "then_get (utf8_tail k v0 cs) (\<lambda>v cbs.
        if \<not> is_valid_code_point v \<or> v < lo then (None, cbs) else (Some v, cbs)) = (Some w, rest) \<longleftrightarrow>
      is_valid_code_point w \<and> unat lo \<le> unat w \<and> unat w div 64 ^ k = x mod m \<and> cs = conts k (unat w) @ rest"
proof -
  have "(unat v0 + 1) * 64 ^ k \<le> m * 64 ^ k"
    using assms(1) mod_less_divisor [OF assms(3), of x] by (intro mult_le_mono1) simp
  then have "(unat v0 + 1) * 64 ^ k \<le> 2 ^ 32" using assms(2) by simp
  from utf8_tail_iff [OF this] show ?thesis
    by (auto simp: then_get_Some assms(1) word_less_nat_alt split: if_splits)
qed

lemma utf8_enc_Cons:
  assumes "is_valid_code_point w"
  shows "c # cs = utf8_enc w @ rest \<longleftrightarrow>
    (unat w < 0x80 \<and> unat c = unat w \<and> cs = rest) \<or>
    (0x80 \<le> unat w \<and> unat w < 0x800 \<and> unat c = 192 + unat w div 64 ^ 1 \<and> cs = conts 1 (unat w) @ rest) \<or>
    (0x800 \<le> unat w \<and> unat w < 0x10000 \<and> unat c = 224 + unat w div 64 ^ 2 \<and> cs = conts 2 (unat w) @ rest) \<or>
    (0x10000 \<le> unat w \<and> unat c = 240 + unat w div 64 ^ 3 \<and> cs = conts 3 (unat w) @ rest)"
proof -
  have "unat w \<le> 0x10ffff" using assms by (rule valid_bound)
  then have b: "unat w < 0x80 \<Longrightarrow> c = byte (unat w) \<longleftrightarrow> unat c = unat w"
    "unat w < 0x800 \<Longrightarrow> c = byte (192 + unat w div 64) \<longleftrightarrow> unat c = 192 + unat w div 64"
    "unat w < 0x10000 \<Longrightarrow> c = byte (224 + unat w div 64 ^ 2) \<longleftrightarrow> unat c = 224 + unat w div 64 ^ 2"
    "c = byte (240 + unat w div 64 ^ 3) \<longleftrightarrow> unat c = 240 + unat w div 64 ^ 3"
    by (intro byte_eq_iff; simp)+
  consider "unat w < 0x80" | "0x80 \<le> unat w" "unat w < 0x800" | "0x800 \<le> unat w" "unat w < 0x10000"
    | "0x10000 \<le> unat w" by linarith
  then show ?thesis
  proof cases
    case 1
    then show ?thesis using b(1) by (auto simp: utf8_enc_def Let_def)
  next
    case 2
    then show ?thesis using b(2) by (auto simp: utf8_enc_def Let_def simp del: conts.simps)
  next
    case 3
    then show ?thesis using b(3) by (auto simp: utf8_enc_def Let_def simp del: conts.simps)
  next
    case 4
    then show ?thesis using b(4) by (auto simp: utf8_enc_def Let_def simp del: conts.simps)
  qed
qed

lemma utf8_get_Cons:
  "cbs_get_utf8 (c # cs) = (Some w, rest) \<longleftrightarrow> is_valid_code_point w \<and> c # cs = utf8_enc w @ rest"
proof -
  let ?x = "unat c" and ?n = "unat w"
  have x: "?x < 256" by (rule unat_u8_less)
  have t: "?x \<le> 127 \<longleftrightarrow> c \<le> 0x7f" by (simp add: word_le_nat_alt)
  have m: "unat (ucast (c AND BOTTOM_BITS j) :: u32) = ?x mod 2 ^ j" if "j \<le> 8" for j
    using that by (simp add: unat_u8_32 unat_and_bottom)
  show ?thesis
  proof (cases "?x \<le> 127")
    case True
    then have "cbs_get_utf8 (c # cs) = (Some (ucast c), cs)" by (simp add: cbs_get_utf8_def t)
    moreover have "(ucast c = w) \<longleftrightarrow> ?x = ?n" by (simp add: word_unat_eq_iff unat_u8_32)
    ultimately show ?thesis using True ascii_valid [of w] utf8_enc_Cons [of w c cs rest] by auto
  next
    case f: False
    have D2: "?x div 32 = 6" if "?n < 0x800" "?x = 192 + ?n div 64 ^ 1"
    proof -
      have "?n div 64 ^ 1 < 32" using that(1) by (simp add: less_mult_imp_div_less)
      with that(2) show ?thesis by (intro div_nat_eqI) auto
    qed
    have D3: "?x div 16 = 14" if "?n < 0x10000" "?x = 224 + ?n div 64 ^ 2"
    proof -
      have "?n div 64 ^ 2 < 16" using that(1) by (simp add: less_mult_imp_div_less)
      with that(2) show ?thesis by (intro div_nat_eqI) auto
    qed
    have D4: "?x div 8 = 30" if "is_valid_code_point w" "?x = 240 + ?n div 64 ^ 3"
    proof -
      have "?n div 64 ^ 3 < 8" using valid_bound [OF that(1)] by (simp add: less_mult_imp_div_less)
      with that(2) show ?thesis by (intro div_nat_eqI) auto
    qed
    have excl: "?x div 16 = 14 \<Longrightarrow> ?x div 32 = 7" "?x div 8 = 30 \<Longrightarrow> ?x div 32 = 7" "?x div 8 = 30 \<Longrightarrow> ?x div 16 = 15"
      using div_mult2_eq [of ?x 16 2] div_mult2_eq [of ?x 8 4] div_mult2_eq [of ?x 8 2] by simp_all
    note enc = utf8_enc_Cons [of w c cs rest]
    have low: "\<not> (?n < 0x80 \<and> ?x = ?n \<and> cs = rest)" using f by simp
    consider "?x div 32 = 6" | "?x div 16 = 14" | "?x div 8 = 30"
      | "?x div 32 \<noteq> 6" "?x div 16 \<noteq> 14" "?x div 8 \<noteq> 30" by blast
    then show ?thesis
    proof cases
      case 1
      then have "cbs_get_utf8 (c # cs) = (Some w, rest) \<longleftrightarrow>
          is_valid_code_point w \<and> 0x80 \<le> ?n \<and> ?n div 64 ^ 1 = ?x mod 32 \<and> cs = conts 1 ?n @ rest"
        using f t utf8_branch [of "ucast (c AND BOTTOM_BITS 5)" ?x 32 1 cs "0x80" w rest] m [of 5]
        by (simp add: cbs_get_utf8_def top_test del: conts.simps)
      moreover have "?n div 64 ^ 1 = ?x mod 32 \<longleftrightarrow> ?n < 0x800 \<and> ?x = 192 + ?n div 64 ^ 1"
        using 1 mult_div_mod_eq [of 32 ?x] mod_less_divisor [of 32 ?x] by auto
      moreover have "?x div 16 \<noteq> 14" "?x div 8 \<noteq> 30" using 1 excl by auto
      ultimately show ?thesis using enc low D3 D4 by blast
    next
      case 2
      then have "?x div 32 \<noteq> 6" "?x div 8 \<noteq> 30" using excl by auto
      moreover from this 2 have "cbs_get_utf8 (c # cs) = (Some w, rest) \<longleftrightarrow>
          is_valid_code_point w \<and> 0x800 \<le> ?n \<and> ?n div 64 ^ 2 = ?x mod 16 \<and> cs = conts 2 ?n @ rest"
        using f t utf8_branch [of "ucast (c AND BOTTOM_BITS 4)" ?x 16 2 cs "0x800" w rest] m [of 4]
        by (simp add: cbs_get_utf8_def top_test del: conts.simps)
      moreover have "?n div 64 ^ 2 = ?x mod 16 \<longleftrightarrow> ?n < 0x10000 \<and> ?x = 224 + ?n div 64 ^ 2"
        using 2 mult_div_mod_eq [of 16 ?x] mod_less_divisor [of 16 ?x] by auto
      ultimately show ?thesis using enc low D2 D4 by blast
    next
      case 3
      then have "?x div 32 \<noteq> 6" "?x div 16 \<noteq> 14" using excl by auto
      moreover from this 3 have "cbs_get_utf8 (c # cs) = (Some w, rest) \<longleftrightarrow>
          is_valid_code_point w \<and> 0x10000 \<le> ?n \<and> ?n div 64 ^ 3 = ?x mod 8 \<and> cs = conts 3 ?n @ rest"
        using f t utf8_branch [of "ucast (c AND BOTTOM_BITS 3)" ?x 8 3 cs "0x10000" w rest] m [of 3]
        by (simp add: cbs_get_utf8_def top_test del: conts.simps)
      moreover have "is_valid_code_point w \<Longrightarrow> ?n div 64 ^ 3 = ?x mod 8 \<longleftrightarrow> ?x = 240 + ?n div 64 ^ 3"
      proof -
        assume "is_valid_code_point w"
        then have "?n div 64 ^ 3 < 8" using valid_bound [of w] by (simp add: less_mult_imp_div_less)
        then show ?thesis using 3 mult_div_mod_eq [of 8 ?x] by auto
      qed
      ultimately show ?thesis using enc low D2 D3 by blast
    next
      case 4
      then have "fst (cbs_get_utf8 (c # cs)) = None" using f t by (simp add: cbs_get_utf8_def top_test)
      then have "cbs_get_utf8 (c # cs) \<noteq> (Some w, rest)" by auto
      then show ?thesis using 4 enc low D2 D3 D4 by blast
    qed
  qed
qed

lemma utf8_get_iff:
  "cbs_get_utf8 cbs = (Some w, rest) \<longleftrightarrow> is_valid_code_point w \<and> cbs = utf8_enc w @ rest"
proof (cases cbs)
  case Nil
  then show ?thesis by (simp add: cbs_get_utf8_def utf8_enc_def Let_def)
qed (simp add: utf8_get_Cons)

text \<open>The bytes the writer computes.\<close>

lemma or_top:
  assumes "unat (y :: u32) < 2 ^ j" "unat (TOP_BITS i) = h * 2 ^ j" "h * 2 ^ j + unat y < 256"
  shows "ucast (ucast (TOP_BITS i) OR y) = byte (h * 2 ^ j + unat y)"
proof -
  have "h * 2 ^ j < 2 ^ 32" using assms(3) by simp
  then have "h < 2 ^ 32" using nat_le_linear by (metis le_less_trans mult.right_neutral mult_le_mono2 one_le_power one_le_numeral)
  then have h: "unat (of_nat h :: u32) = h" by (rule unat_of_nat_u32)
  have "unat (push_bit j (of_nat h :: u32)) = h * 2 ^ j"
    unfolding unsigned_push_bit_eq h using \<open>h * 2 ^ j < 2 ^ 32\<close>
    by (simp add: push_bit_eq_mult take_bit_nat_eq_self)
  then have "ucast (TOP_BITS i) = push_bit j (of_nat h :: u32)"
    using assms(2) by (simp add: word_unat_eq_iff unat_u8_32)
  moreover have "unat (push_bit j (of_nat h :: u32) OR y) = h * 2 ^ j + unat y"
    using assms h by (subst unat_shift_or) auto
  ultimately show ?thesis
    using assms(3) by (intro byte_eqI [symmetric]) (simp add: unat_ucast8)
qed

lemma lead_and_cont_bytes:
  "unat (u :: u32) < 0x800 \<Longrightarrow> ucast (ucast (TOP_BITS 2) OR drop_bit 6 u) = byte (192 + unat u div 64)"
  "unat u < 0x10000 \<Longrightarrow> ucast (ucast (TOP_BITS 3) OR drop_bit 12 u) = byte (224 + unat u div 4096)"
  "unat u < 0x200000 \<Longrightarrow> ucast (ucast (TOP_BITS 4) OR drop_bit 18 u) = byte (240 + unat u div 262144)"
  "ucast (ucast (TOP_BITS 1) OR (w AND ucast (BOTTOM_BITS 6))) = byte (128 + unat (w :: u32) mod 64)"
proof -
  have t: "unat (TOP_BITS 1) = 2 * 2 ^ 6" "unat (TOP_BITS 2) = 6 * 2 ^ 5" "unat (TOP_BITS 3) = 14 * 2 ^ 4"
    "unat (TOP_BITS 4) = 30 * 2 ^ 3"
    by (simp_all add: TOP_BITS_def BOTTOM_BITS_def)
  have d: "unat (drop_bit 6 u) = unat u div 64" "unat (drop_bit 12 u) = unat u div 4096"
    "unat (drop_bit 18 u) = unat u div 262144"
    by (simp_all only: unat_drop_bit_word) simp_all
  show "unat u < 0x800 \<Longrightarrow> ucast (ucast (TOP_BITS 2) OR drop_bit 6 u) = byte (192 + unat u div 64)"
    using or_top [OF _ t(2), of "drop_bit 6 u"] d(1) less_mult_imp_div_less [of "unat u" 32 64] by simp
  show "unat u < 0x10000 \<Longrightarrow> ucast (ucast (TOP_BITS 3) OR drop_bit 12 u) = byte (224 + unat u div 4096)"
    using or_top [OF _ t(3), of "drop_bit 12 u"] d(2) less_mult_imp_div_less [of "unat u" 16 4096] by simp
  show "unat u < 0x200000 \<Longrightarrow> ucast (ucast (TOP_BITS 4) OR drop_bit 18 u) = byte (240 + unat u div 262144)"
    using or_top [OF _ t(4), of "drop_bit 18 u"] d(3) less_mult_imp_div_less [of "unat u" 8 262144] by simp
  have "(ucast (BOTTOM_BITS 6) :: u32) = mask 6"
    by (simp add: BOTTOM_BITS_mask word_unat_eq_iff unat_u8_32 mask_eq_exp_minus_1)
  then have "unat (w AND ucast (BOTTOM_BITS 6)) = unat w mod 64" by (simp add: unat_and_mask)
  then show "ucast (ucast (TOP_BITS 1) OR (w AND ucast (BOTTOM_BITS 6))) = byte (128 + unat w mod 64)"
    using or_top [OF _ t(1), of "w AND ucast (BOTTOM_BITS 6)"] by simp
qed

lemma cbb_add_utf8_each:
  "cbb_add_utf8 mal d cbb u =
    (if is_valid_code_point u then add_u8_each mal d cbb (utf8_enc u) else (False, cbb))"
proof (cases "is_valid_code_point u")
  case v: True
  have n: "unat u \<le> 0x10ffff" using v by (rule valid_bound)
  have small: "u \<le> 0x7f \<longleftrightarrow> unat u < 0x80" "u \<le> 0x7ff \<longleftrightarrow> unat u < 0x800" "u \<le> 0xffff \<longleftrightarrow> unat u < 0x10000"
    "u \<le> 0x10ffff" using n by (auto simp: word_le_nat_alt)
  have d: "unat (drop_bit 6 u) = unat u div 64" "unat (drop_bit 12 u) = unat u div 4096"
    by (simp_all only: unat_drop_bit_word) simp_all
  have lead: "unat u < 0x80 \<Longrightarrow> ucast u = byte (unat u)"
    by (intro byte_eqI [symmetric] unat_ucast_small) simp
  consider "unat u < 0x80" | "\<not> unat u < 0x80" "unat u < 0x800" | "\<not> unat u < 0x800" "unat u < 0x10000"
    | "\<not> unat u < 0x10000" by blast
  then show ?thesis
  proof cases
    case 1
    then show ?thesis using v small lead by (simp add: cbb_add_utf8_def utf8_enc_def)
  next
    case 2
    then show ?thesis using v small lead_and_cont_bytes(1) [of u] lead_and_cont_bytes(4) [of u]
      by (simp add: cbb_add_utf8_def utf8_enc_def Let_def)
  next
    case 3
    then show ?thesis using v small lead_and_cont_bytes(2) [of u] lead_and_cont_bytes(4) [of u]
          lead_and_cont_bytes(4) [of "drop_bit 6 u"] d
      by (simp add: cbb_add_utf8_def utf8_enc_def Let_def numeral_2_eq_2)
  next
    case 4
    then show ?thesis using v small n lead_and_cont_bytes(3) [of u] lead_and_cont_bytes(4) [of u]
          lead_and_cont_bytes(4) [of "drop_bit 6 u"] lead_and_cont_bytes(4) [of "drop_bit 12 u"] d
      by (simp add: cbb_add_utf8_def utf8_enc_def Let_def numeral_3_eq_3)
  qed
qed (simp add: cbb_add_utf8_def)

lemma utf8_enc_nonempty [simp]: "utf8_enc u \<noteq> []"
  by (simp add: utf8_enc_def Let_def)

lemma cbb_add_utf8_True:
  assumes "malloc_contract mal" "rep cbb a" "cbb_add_utf8 mal d cbb u = (True, cbb')"
  shows "is_valid_code_point u \<and> d \<le> length (snd a) \<and> rep cbb' (a_write d (utf8_enc u) a)"
proof -
  have v: "is_valid_code_point u" "add_u8_each mal d cbb (utf8_enc u) = (True, cbb')"
    using assms(3) by (auto simp: cbb_add_utf8_each split: if_splits)
  with add_u8_each_True [OF assms(1,2) utf8_enc_nonempty v(2)] show ?thesis by blast
qed

interpretation utf8: codec cbs_get_utf8 cbb_add_utf8 utf8_enc is_valid_code_point
  by unfold_locales (rule utf8_get_iff, erule (2) cbb_add_utf8_True, simp)

lemma length_conts [simp]: "length (conts k n) = k"
  by (induction k) auto

lemma length_utf8_enc: "length (utf8_enc u) = cbb_get_utf8_len u"
  by (auto simp: utf8_enc_def cbb_get_utf8_len_def Let_def word_le_nat_alt)

end
