(* ===== verification/SetOf.thy ===== *)
theory SetOf
  imports CbbTree "HOL-Library.Multiset"
begin

text \<open>
  Comparison functions and sorting, and their use in \<open>CBB_flush_asn1_set_of\<close> of
  \<^verbatim>\<open>cbb.c\<close>. The locale \<open>comparator\<close> is the contract between a C comparison function and
  \<open>qsort\<close>; \<open>strict_comparator\<close> adds that only equal elements compare as 0, and then
  the sorted order is unique. \<open>qsort\<close> is the C library's, a parameter with the contract
  of the C standard.
\<close>

section \<open>Comparators\<close>

locale comparator =
  fixes cmp :: "'a \<Rightarrow> 'a \<Rightarrow> int"
  assumes cmp_swap: "sgn (cmp b a) = - sgn (cmp a b)"
    and cmp_trans: "cmp a b \<le> 0 \<Longrightarrow> cmp b c \<le> 0 \<Longrightarrow> cmp a c \<le> 0"

text \<open>Sorted in the sense of a comparator.\<close>

definition cmp_sorted :: "('a \<Rightarrow> 'a \<Rightarrow> int) \<Rightarrow> 'a list \<Rightarrow> bool" where
  "cmp_sorted cmp xs \<longleftrightarrow> sorted_wrt (\<lambda>a b. cmp a b \<le> 0) xs"

definition qsort_contract :: "(('a \<Rightarrow> 'a \<Rightarrow> int) \<Rightarrow> 'a list \<Rightarrow> 'a list) \<Rightarrow> bool" where
  "qsort_contract qsort \<longleftrightarrow>
     (\<forall>cmp xs. comparator cmp \<longrightarrow> mset (qsort cmp xs) = mset xs \<and> cmp_sorted cmp (qsort cmp xs))"

text \<open>A sort that meets the contract.\<close>

fun cmp_insert :: "('a \<Rightarrow> 'a \<Rightarrow> int) \<Rightarrow> 'a \<Rightarrow> 'a list \<Rightarrow> 'a list" where
  "cmp_insert cmp x [] = [x]"
| "cmp_insert cmp x (y # ys) = (if cmp x y \<le> 0 then x # y # ys else y # cmp_insert cmp x ys)"

fun isort :: "('a \<Rightarrow> 'a \<Rightarrow> int) \<Rightarrow> 'a list \<Rightarrow> 'a list" where
  "isort cmp [] = []"
| "isort cmp (x # xs) = cmp_insert cmp x (isort cmp xs)"

lemma mset_cmp_insert [simp]: "mset (cmp_insert cmp x ys) = add_mset x (mset ys)"
  by (induction ys) auto

lemma mset_isort [simp]: "mset (isort cmp xs) = mset xs"
  by (induction xs) auto

lemma set_cmp_insert [simp]: "set (cmp_insert cmp x ys) = insert x (set ys)"
  by (induction ys) auto

context comparator
begin

lemma cmp_refl: "cmp a a = 0"
  using cmp_swap [of a a] by (simp add: sgn_if split: if_splits)

lemma cmp_total: "cmp a b \<le> 0 \<or> cmp b a \<le> 0"
  using cmp_swap [of a b] by (auto simp: sgn_if split: if_splits)

lemma cmp_pos_iff: "0 < cmp a b \<longleftrightarrow> cmp b a < 0"
  using cmp_swap [of a b] by (auto simp: sgn_if split: if_splits)

lemma cmp_zero_iff: "cmp a b = 0 \<longleftrightarrow> cmp b a = 0"
  using cmp_swap [of a b] by (auto simp: sgn_if split: if_splits)

lemma cmp_le_less: "cmp a b \<le> 0 \<Longrightarrow> cmp b c < 0 \<Longrightarrow> cmp a c < 0"
  using cmp_trans [of a b c] cmp_trans [of c a b] cmp_pos_iff [of c b] cmp_zero_iff [of a c] by force

lemma cmp_less_le: "cmp a b < 0 \<Longrightarrow> cmp b c \<le> 0 \<Longrightarrow> cmp a c < 0"
  using cmp_trans [of a b c] cmp_trans [of b c a] cmp_pos_iff [of b a] cmp_zero_iff [of a c] by force

lemma sorted_cmp_insert: "cmp_sorted cmp ys \<Longrightarrow> cmp_sorted cmp (cmp_insert cmp x ys)"
  unfolding cmp_sorted_def
proof (induction ys)
  case (Cons y ys)
  then show ?case using cmp_total [of x y] by (auto intro: cmp_trans)
qed simp

lemma sorted_isort: "cmp_sorted cmp (isort cmp xs)"
proof (induction xs)
  case (Cons x xs)
  then show ?case by (simp add: sorted_cmp_insert)
qed (simp add: cmp_sorted_def)

end

lemma isort_contract: "qsort_contract isort"
  by (simp add: qsort_contract_def comparator.sorted_isort)

locale strict_comparator = comparator +
  assumes cmp_eq: "cmp a b = 0 \<Longrightarrow> a = b"

context strict_comparator
begin

text \<open>There is one sorted arrangement.\<close>

lemma sorted_unique:
  "cmp_sorted cmp xs \<Longrightarrow> cmp_sorted cmp ys \<Longrightarrow> mset xs = mset ys \<Longrightarrow> xs = ys"
proof (induction xs arbitrary: ys)
  case (Cons x xs)
  then obtain y zs where ys: "ys = y # zs" by (cases ys) auto
  have "x \<in> set ys" "y \<in> set (x # xs)"
    using Cons.prems(3) ys by (metis list.set_intros(1) set_mset_mset)+
  then have "cmp x y \<le> 0" "cmp y x \<le> 0"
    using Cons.prems(1,2) ys cmp_refl [of x] by (auto simp: cmp_sorted_def)
  then have "x = y" using cmp_swap [of x y] by (intro cmp_eq) (auto simp: sgn_if split: if_splits)
  then show ?case using Cons ys by (simp add: cmp_sorted_def)
qed simp

end

section \<open>The order of DER SET OF\<close>

text \<open>\<open>memcmp\<close>: the difference of the first bytes that differ.\<close>

fun memcmp :: "u8 list \<Rightarrow> u8 list \<Rightarrow> nat \<Rightarrow> int" where
  "memcmp (x # a) (y # b) (Suc n) = (if x = y then memcmp a b n else uint x - uint y)"
| "memcmp _ _ _ = 0"

definition compare_set_of_element :: "CBS \<Rightarrow> CBS \<Rightarrow> int" where
  "compare_set_of_element a b =
     (let a_len = CBS_len a; b_len = CBS_len b;
          min_len = (if a_len < b_len then a_len else b_len);
          ret = memcmp (CBS_data a) (CBS_data b) min_len
      in if ret \<noteq> 0 then ret
         else if a_len = b_len then 0
         else if a_len < b_len then - 1 else 1)"

lemma uint_diff: "(x :: u8) \<noteq> y \<Longrightarrow> uint x - uint y \<noteq> 0"
  by (simp add: word_uint_eq_iff)

lemma compare_set_of_simps [simp]:
  "compare_set_of_element [] [] = 0"
  "compare_set_of_element [] (y # b) = - 1"
  "compare_set_of_element (x # a) [] = 1"
  "compare_set_of_element (x # a) (y # b) =
     (if x = y then compare_set_of_element a b else uint x - uint y)"
  using uint_diff [of x y]
  by (auto simp: compare_set_of_element_def CBS_len_def CBS_data_def Let_def)

interpretation set_of_order: strict_comparator compare_set_of_element
proof
  show "sgn (compare_set_of_element b a) = - sgn (compare_set_of_element a b)" for a b
  proof (induction a arbitrary: b)
    case Nil
    then show ?case by (cases b) auto
  next
    case (Cons x a)
    show ?case
    proof (cases b)
      case b: (Cons y b')
      show ?thesis using Cons.IH [of b'] b by (cases "x = y") (auto simp: sgn_if)
    qed simp
  qed
  show "compare_set_of_element a b \<le> 0 \<Longrightarrow> compare_set_of_element b c \<le> 0 \<Longrightarrow>
      compare_set_of_element a c \<le> 0" for a b c
  proof (induction a arbitrary: b c)
    case Nil
    then show ?case by (cases c) auto
  next
    case (Cons x a)
    obtain y b' where b: "b = y # b'" using Cons.prems(1) by (cases b) auto
    obtain z c' where c: "c = z # c'" using Cons.prems(2) b by (cases c) auto
    show ?case
    proof (cases "x = y \<and> y = z")
      case True
      then show ?thesis using Cons.IH [of b' c'] Cons.prems b c by simp
    next
      case False
      have "uint x \<le> uint y" "uint y \<le> uint z"
        using Cons.prems b c by (auto split: if_splits)
      moreover have "uint x \<noteq> uint z"
        using False calculation by (auto simp: word_uint_eq_iff)
      ultimately show ?thesis using b c by (auto simp: word_uint_eq_iff)
    qed
  qed
  show "compare_set_of_element a b = 0 \<Longrightarrow> a = b" for a b
  proof (induction a arbitrary: b)
    case Nil
    then show ?case by (cases b) auto
  next
    case (Cons x a)
    then show ?case by (cases b) (auto dest: uint_diff split: if_splits)
  qed
qed

section \<open>Sorting a SET OF\<close>

text \<open>The counting loop and the collecting loop.\<close>

function count_elements :: "CBS \<Rightarrow> nat option" where
  "count_elements cbs =
     (if CBS_len cbs \<noteq> 0 then
        (case CBS_get_any_asn1_element cbs of
           (None, _) \<Rightarrow> None
         | (Some _, cbs) \<Rightarrow> map_option Suc (count_elements cbs))
      else Some 0)"
  by pat_completeness auto

lemma element_shorter:
  "CBS_get_any_asn1_element cbs = (Some e, rest) \<Longrightarrow> length rest < length cbs"
  using der_tlv_nonempty by (cases e) (fastforce simp: CBS_get_any_asn1_element_iff)

termination count_elements
  by (relation "measure length") (auto dest: element_shorter [OF sym])

declare count_elements.simps [simp del]

fun collect_elements :: "nat \<Rightarrow> CBS \<Rightarrow> CBS list option" where
  "collect_elements 0 cbs = Some []"
| "collect_elements (Suc n) cbs =
     (case CBS_get_any_asn1_element cbs of
        (None, _) \<Rightarrow> None
      | (Some (tag, header_len, out), cbs) \<Rightarrow> map_option ((#) out) (collect_elements n cbs))"

text \<open>The loop that writes the children back.\<close>

fun add_bytes_each :: "allocator \<Rightarrow> nat \<Rightarrow> CBB \<Rightarrow> CBS list \<Rightarrow> bool \<times> CBB" where
  "add_bytes_each mal d cbb [] = (True, cbb)"
| "add_bytes_each mal d cbb (c # cs) =
     and_then (CBB_add_bytes mal d cbb (CBS_data c)) (\<lambda>cbb. add_bytes_each mal d cbb cs)"

definition sizeof_CBS :: nat where
  "sizeof_CBS = 16"

definition CBB_flush_asn1_set_of ::
    "allocator \<Rightarrow> ((CBS \<Rightarrow> CBS \<Rightarrow> int) \<Rightarrow> CBS list \<Rightarrow> CBS list) \<Rightarrow> nat \<Rightarrow> CBB \<Rightarrow> bool \<times> CBB" where
  "CBB_flush_asn1_set_of mal qsort d cbb =
     and_then (CBB_flush mal d cbb) (\<lambda>cbb.
       let cbs = CBS_init (CBB_data d cbb) (CBB_len d cbb)
       in (case count_elements cbs of
             None \<Rightarrow> (False, cbb)
           | Some num_children \<Rightarrow>
               if num_children < 2 then (True, cbb)
               else if num_children > (SIZE_MOD - 1) div sizeof_CBS then (False, cbb)
               else
                 let buf_len = CBB_len d cbb;
                     buf = OPENSSL_memdup mal (take buf_len (CBB_data d cbb));
                     storage = OPENSSL_malloc mal (num_children * sizeof_CBS)
                 in (case buf of
                       None \<Rightarrow> (False, cbb)
                     | Some buf \<Rightarrow>
                         if storage = None then (False, cbb)
                         else
                           (case collect_elements num_children (CBS_init buf buf_len) of
                              None \<Rightarrow> (False, cbb)
                            | Some elems \<Rightarrow>
                                let elems = qsort compare_set_of_element elems;
                                    cbb = cbb\<lparr>cbase := map_option
                                      (\<lambda>b. b\<lparr>clen := cbb_start d cbb\<rparr>) (cbase cbb)\<rparr>
                                in add_bytes_each mal d cbb elems))))"

section \<open>What the function does\<close>

lemma collect_elements_Some:
  "collect_elements n cbs = Some es \<Longrightarrow> count_elements cbs = Some n \<Longrightarrow>
    length es = n \<and> concat es = cbs \<and> (\<forall>e\<in>set es. \<exists>tag body. e = der_tlv tag body \<and> length body < 2 ^ 32)"
proof (induction n arbitrary: cbs es)
  case 0
  then show ?case
    by (subst (asm) count_elements.simps) (auto simp: CBS_len_def split: if_splits option.splits prod.splits)
next
  case (Suc n)
  obtain tag h out rest where e: "CBS_get_any_asn1_element cbs = (Some (tag, h, out), rest)"
    using Suc.prems(1) by (auto split: option.splits prod.splits)
  have "cbs \<noteq> []" using element_shorter [OF e] by auto
  then have "count_elements rest = Some n"
    using Suc.prems(2) e by (subst (asm) count_elements.simps) (auto simp: CBS_len_def)
  moreover obtain es' where "collect_elements n rest = Some es'" "es = out # es'"
    using Suc.prems(1) e by auto
  ultimately show ?case using Suc.IH [of rest es'] e by (auto simp: CBS_get_any_asn1_element_iff)
qed

lemma count_elements_Some:
  "count_elements cbs = Some n \<Longrightarrow> \<exists>es. collect_elements n cbs = Some es"
proof (induction n arbitrary: cbs)
  case (Suc n)
  obtain tag h out rest where e: "CBS_get_any_asn1_element cbs = (Some (tag, h, out), rest)"
    and "count_elements rest = Some n"
    using Suc.prems by (subst (asm) count_elements.simps) (auto split: if_splits option.splits prod.splits)
  then show ?case using Suc.IH by force
qed simp

text \<open>The contents of the innermost object and their replacement.\<close>

definition a_body :: "abuilder \<Rightarrow> u8 list" where
  "a_body a = (if snd a = [] then fst a else snd (last (snd a)))"

definition a_with :: "abuilder \<Rightarrow> u8 list \<Rightarrow> abuilder" where
  "a_with a bs =
     (if snd a = [] then (bs, []) else (fst a, butlast (snd a) @ [(fst (last (snd a)), bs)]))"

lemma a_with_simps [simp]:
  "a_with (s, []) bs = (bs, [])" "a_with (s, segs @ [(k, t)]) bs = (s, segs @ [(k, bs)])"
  "a_body (s, []) = s" "a_body (s, segs @ [(k, t)]) = t"
  by (simp_all add: a_with_def a_body_def)

lemma put_a_with: "put (a_with a xs) ys = a_with a (xs @ ys)"
  by (cases a; cases "snd a" rule: seg_snoc_cases; simp)

lemma length_a_with [simp]: "length (snd (a_with a bs)) = length (snd a)"
  by (cases a; cases "snd a" rule: seg_snoc_cases; simp)

lemma a_with_a_body [simp]: "a_with a (a_body a) = a"
  by (cases a; cases "snd a" rule: seg_snoc_cases; simp)

text \<open>Where the object's bytes are in the buffer.\<close>

lemma rep_body:
  assumes "rep cbb a" "length (snd a) = d" "cbase cbb = Some b"
  shows "cbb_start d cbb + length (a_body a) = clen b" "take (CBB_len d cbb) (CBB_data d cbb) = a_body a"
    "CBB_len d cbb = length (a_body a)"
    and "rep (cbb\<lparr>cbase := Some (b\<lparr>clen := cbb_start d cbb\<rparr>)\<rparr>) (a_with a [])"
proof -
  have b: "buf_ok b" "\<not> cerror b" "cbytes b = a_raw a" "children cbb = frames (length (fst a)) (snd a)"
    "segs_wf (snd a)" using assms(1,3) by (auto simp: rep_def)
  have cl: "clen b = length (a_raw a)" using length_cbytes [OF b(1)] b(3) by simp
  obtain pre where pre: "a_raw a = pre @ a_body a" "cbb_start d cbb = length pre" "a_raw (a_with a []) = pre"
    "frames (length (fst (a_with a []))) (snd (a_with a [])) = children cbb" "segs_wf (snd (a_with a []))"
  proof (cases "snd a" rule: seg_snoc_cases)
    case 1
    then show ?thesis using that [of "[]"] assms(2) b(4) by (cases a) (simp add: a_raw_def cbb_start_def)
  next
    case (2 ys k t)
    have "children cbb ! (d - 1) = \<lparr>coffset = length (fst a) + length (raw_segs ys), pending_len_len = pll k,
        pending_is_asn1 = (k = Asn1)\<rparr>"
      using b(4) 2 assms(2) by (auto simp: nth_append)
    then show ?thesis
      using that [of "fst a @ raw_segs ys @ replicate (pll k) 0"] 2 assms(2) b(4,5)
      by (cases a) (auto simp: a_raw_def cbb_start_def)
  qed
  show "cbb_start d cbb + length (a_body a) = clen b" using pre cl by simp
  then show l: "CBB_len d cbb = length (a_body a)" using assms(3) by (simp add: CBB_len_def)
  have "drop (length pre) (cbytes b) = a_body a" using b(3) pre(1) by simp
  then have "take (clen b - length pre) (drop (length pre) (cbuf b)) = a_body a"
    by (simp add: cbytes_def drop_take)
  then show "take (CBB_len d cbb) (CBB_data d cbb) = a_body a"
    using assms(3) pre(2) by (simp add: CBB_len_def CBB_data_def)
  have "take (length pre) (cbytes b) = pre" using b(3) pre(1) by simp
  then have "take (length pre) (cbuf b) = pre" using cl pre(1) by (simp add: cbytes_def min_def)
  then show "rep (cbb\<lparr>cbase := Some (b\<lparr>clen := cbb_start d cbb\<rparr>)\<rparr>) (a_with a [])"
    using b pre cl by (auto simp: rep_def buf_ok_def cbytes_def)
qed

lemma add_bytes_each_True:
  assumes "malloc_contract mal" "\<forall>c\<in>set cs. length c < 2 ^ 63"
  shows "rep cbb a \<Longrightarrow> length (snd a) = d \<Longrightarrow> add_bytes_each mal d cbb cs = (True, cbb') \<Longrightarrow>
    rep cbb' (put a (concat cs))"
  using assms(2)
proof (induction cs arbitrary: cbb a)
  case (Cons c cs)
  then obtain s where s: "CBB_add_bytes mal d cbb c = (True, s)" "add_bytes_each mal d s cs = (True, cbb')"
    by (auto simp: and_then_True CBS_data_def)
  have "rep s (put a c)"
    using CBB_add_bytes_True [OF assms(1) Cons.prems(1) _ s(1)] Cons.prems by (simp add: a_write_def collapse_id)
  from Cons.IH [OF this _ s(2)] Cons.prems show ?case by simp
qed simp

theorem CBB_flush_asn1_set_of_True:
  assumes "malloc_contract mal" "qsort_contract qsort" "rep cbb a"
    and "CBB_flush_asn1_set_of mal qsort d cbb = (True, cbb')"
  shows "d \<le> length (snd a) \<and>
    (\<exists>es. a_body (collapse d a) = concat es \<and>
       (\<forall>e\<in>set es. \<exists>tag body. e = der_tlv tag body \<and> length body < 2 ^ 32) \<and>
       rep cbb' (a_with (collapse d a) (concat (qsort compare_set_of_element es))))"
proof -
  obtain c where c: "CBB_flush mal d cbb = (True, c)"
    using assms(4) by (auto simp: CBB_flush_asn1_set_of_def and_then_True)
  note F = CBB_flush_True [OF assms(1,3) c]
  let ?a = "collapse d a"
  have d: "d \<le> length (snd a)" "rep c ?a" "length (snd ?a) = d" using F by auto
  then obtain b where b: "cbase c = Some b" "buf_ok b" by (auto simp: rep_def)
  note B = rep_body [OF d(2,3) b(1)]
  have ib: "CBS_init (CBB_data d c) (CBB_len d c) = a_body ?a" using B(2) by (simp add: CBS_init_def)
  obtain n where n: "count_elements (a_body ?a) = Some n"
    using assms(4) c ib by (auto simp: CBB_flush_asn1_set_of_def split: option.splits)
  obtain es where es: "collect_elements n (a_body ?a) = Some es" using count_elements_Some [OF n] by blast
  note E = collect_elements_Some [OF es n]
  have Q: "mset (qsort compare_set_of_element es) = mset es"
    using assms(2) set_of_order.comparator_axioms by (simp add: qsort_contract_def)
  have "rep cbb' (a_with ?a (concat (qsort compare_set_of_element es)))"
  proof (cases "n < 2")
    case True
    then have "cbb' = c" using assms(4) c ib n by (simp add: CBB_flush_asn1_set_of_def)
    moreover have "qsort compare_set_of_element es = es"
    proof (cases es)
      case (Cons e r)
      then have "r = []" using True E by auto
      then show ?thesis using Q Cons by simp
    qed (use Q in simp)
    ultimately show ?thesis using E d(2) by (metis a_with_a_body)
  next
    case False
    let ?c = "c\<lparr>cbase := map_option (\<lambda>b. b\<lparr>clen := cbb_start d c\<rparr>) (cbase c)\<rparr>"
    have memdup: "OPENSSL_memdup mal x = Some y \<Longrightarrow> y = x" for x y
      by (auto simp: OPENSSL_memdup_def split: if_splits option.splits)
    have "add_bytes_each mal d ?c (qsort compare_set_of_element es) = (True, cbb')"
      using assms(4) c ib n False es B(2,3)
      by (auto simp: CBB_flush_asn1_set_of_def Let_def CBS_init_def dest!: memdup split: if_splits option.splits)
    moreover have "\<forall>e\<in>set (qsort compare_set_of_element es). length e < 2 ^ 63"
    proof
      fix e
      assume "e \<in> set (qsort compare_set_of_element es)"
      then have "e \<in> set es" using Q by (metis set_mset_mset)
      then have "length e \<le> length (concat es)" by (induction es) auto
      also have "\<dots> \<le> clen b" using B(1) E by simp
      also have "\<dots> < 2 ^ 63" using b(2) by (auto simp: buf_ok_def)
      finally show "length e < 2 ^ 63" .
    qed
    ultimately have "rep cbb' (put (a_with ?a []) (concat (qsort compare_set_of_element es)))"
      using B(4) b(1) d(3) by (intro add_bytes_each_True [OF assms(1)]) auto
    then show ?thesis by (simp add: put_a_with)
  qed
  then show ?thesis using d(1) E by (intro conjI exI [of _ es]) auto
qed

end
