(* ===== verification/CbbWrite.thy ===== *)
theory CbbWrite
  imports Oid Unicode SetOf
begin

text \<open>
  The typed writers of \<open>crypto/bytestring/cbb.c\<close> from \<open>CBB_init\<close> to \<open>CBB_finish\<close>. \<open>Asn1Int\<close>
  shows what they write when they return 1; here they are shown to return 1 whenever the allocator
  has memory, so that the bytes of a whole session are known.
\<close>

section \<open>One element\<close>

lemma element_success:
  assumes "malloc_contract mal" "malloc_total mal" "live cbb a" "room d a (length (der_tlv tag bs) + 32)"
    and "length bs \<le> 0xfffffffe"
    and op: "\<And>c a'. live c a' \<Longrightarrow> room (Suc d) a' (length bs + 2) \<Longrightarrow>
      a' = a_open d Asn1 (a_write d (der_tag tag) a) \<Longrightarrow>
      \<exists>c'. op c = (True, c') \<and> live c' (a_write (Suc d) bs a')"
  obtains cbb' where
    "and_then (CBB_add_asn1 mal d cbb tag) (\<lambda>c. and_then (op c) (\<lambda>c. CBB_flush mal d c)) = (True, cbb')"
    "live cbb' (a_write d (der_tlv tag bs) a)"
proof -
  let ?a = "a_write d (der_tag tag) a"
  let ?b = "a_write (Suc d) bs (a_open d Asn1 ?a)"
  note d = room_d [OF assms(4)]
  have d': "d \<le> length (snd ?a)" using d by simp
  have sz: "length (a_raw (collapse d a)) + length (der_tlv tag bs) + 32 < 2 ^ 59"
    using assms(4) by (simp add: room_def)
  have "room d a 16" using assms(4) by (rule room_mono) simp
  then obtain c where c: "CBB_add_asn1 mal d cbb tag = (True, c)" "live c (a_open d Asn1 ?a)"
    by (rule CBB_add_asn1_success [OF assms(1-3)])
  have ra: "length (a_raw (collapse d ?a)) = length (a_raw (collapse d a)) + length (der_tag tag)"
    using d by simp (simp add: a_write_def)
  have "room (Suc d) (a_open d Asn1 ?a) (length bs + 2)"
    using sz der_tlv_size [of tag bs] by (simp add: room_open [OF d'] ra)
  from op [OF c(2) this refl] obtain c2 where c2: "op c = (True, c2)" "live c2 ?b" by blast
  have S: "Suc d \<le> length (snd (a_open d Asn1 ?a))" using d by (simp add: a_open_def)
  then have S': "Suc d \<le> length (snd ?b)" by simp
  have "collapse (Suc d) ?b = a_write (Suc d) bs (a_open d Asn1 ?a)" using S by simp
  note C = child_done [OF d' S' this]
  have F: "segs_fit (drop d (snd ?b))" using C(2) S assms(5) by simp
  have C': "collapse d ?b = a_write d (der_tlv tag bs) a" using d by (rule collapse_element)
  have "room d ?b 0" using sz S' by (subst room_done [OF d _ F C']) auto
  then obtain cbb' where "CBB_flush mal d c2 = (True, cbb')" "live cbb' (collapse d ?b)"
    by (rule CBB_flush_success [OF assms(1,2) c2(2)])
  then show ?thesis using that [of cbb'] c(1) c2(1) C' by (simp add: and_then_True)
qed

text \<open>A whole session around one writer.\<close>

lemma single_total:
  assumes "malloc_contract mal" "malloc_total mal" "cap < 2 ^ 61" "length bs < 2 ^ 58"
    and "\<And>cbb. live cbb ([], []) \<Longrightarrow> \<exists>cbb'. op cbb = (True, cbb') \<and> live cbb' (a_write 0 bs ([], []))"
  shows "single mal cap op = Some bs"
proof -
  obtain c where c: "CBB_init mal cap = (True, c)" "live c ([], [])"
    by (rule CBB_init_success [OF assms(1-3)])
  from assms(5) [OF c(2)] obtain c' where c': "op c = (True, c')" "live c' (bs, [])"
    by (auto simp: a_write_def collapse_0)
  have "room 0 (bs, []) 0" using assms(4) by (simp add: room_def collapse_0 a_raw_def)
  then obtain out cc where f: "CBB_finish mal 0 c' False = (Some out, cc)"
    by (rule CBB_finish_success [OF assms(1,2) c'(2)])
  have "rep c' (bs, [])" using c'(2) by (simp add: live_def)
  from CBB_finish_Some(1) [OF assms(1) this f] have "out = bs" by simp
  then show ?thesis using c(1) c'(1) f by (simp add: single_def and_then_def)
qed

lemma single_None:
  assumes "\<And>c c'. CBB_init mal cap = (True, c) \<Longrightarrow> op c = (True, c') \<Longrightarrow> False"
  shows "single mal cap op = None"
  using assms by (auto simp: single_def and_then_def split: prod.splits bool.splits if_splits)

lemma open_nil: "a_open 0 Asn1 (a_write 0 bs ([], [])) = (bs, [(Asn1, [])])"
  by (simp add: a_open_def a_write_def collapse_0)

lemma single_element:
  assumes "malloc_contract mal" "malloc_total mal" "cap < 2 ^ 61" "length (der_tlv tag bs) < 2 ^ 58"
    and "length bs \<le> 0xfffffffe"
    and op: "\<And>c a'. live c a' \<Longrightarrow> room (Suc 0) a' (length bs + 2) \<Longrightarrow> a' = (der_tag tag, [(Asn1, [])]) \<Longrightarrow>
      \<exists>c'. op c = (True, c') \<and> live c' (a_write (Suc 0) bs a')"
  shows "single mal cap (\<lambda>cbb. and_then (CBB_add_asn1 mal 0 cbb tag)
      (\<lambda>c. and_then (op c) (\<lambda>c. CBB_flush mal 0 c))) = Some (der_tlv tag bs)"
proof (rule single_total [OF assms(1-4)])
  fix cbb assume l: "live cbb ([], [])"
  have "room 0 ([], []) (length (der_tlv tag bs) + 32)"
    using assms(4) by (simp add: room_def collapse_0 a_raw_def)
  then show "\<exists>cbb'. and_then (CBB_add_asn1 mal 0 cbb tag) (\<lambda>c. and_then (op c) (\<lambda>c. CBB_flush mal 0 c)) = (True, cbb')
      \<and> live cbb' (a_write 0 (der_tlv tag bs) ([], []))"
    using element_success [OF assms(1,2) l _ assms(5), where op = op and tag = tag] op
    by (metis open_nil)
qed

section \<open>The typed writers\<close>

lemma length_der_tlv: "length (der_tag tag) \<le> 2 \<Longrightarrow> length body < 2 ^ 32 \<Longrightarrow> length (der_tlv tag body) \<le> length body + 7"
  by (simp add: der_tlv_def der_header_def length_der_len len_bytes_def)

lemma octet_string_written:
  assumes "malloc_contract mal" "malloc_total mal" "cap < 2 ^ 61" "length data \<le> 0xfffffffe"
  shows "single mal cap (\<lambda>cbb. CBB_add_asn1_octet_string mal 0 cbb data)
    = Some (der_tlv CBS_ASN1_OCTETSTRING data)"
proof -
  have "length (der_tag CBS_ASN1_OCTETSTRING) \<le> 2" by (simp add: evals)
  then have "length (der_tlv CBS_ASN1_OCTETSTRING data) < 2 ^ 58"
    using length_der_tlv [of CBS_ASN1_OCTETSTRING data] assms(4) by simp
  then show ?thesis
    unfolding CBB_add_asn1_octet_string_def
    by (rule single_element [OF assms(1-3) _ assms(4)])
       (meson CBB_add_bytes_success [OF assms(1,2)] room_mono le_add1)
qed

lemma bool_written:
  assumes "malloc_contract mal" "malloc_total mal" "cap < 2 ^ 61"
  shows "single mal cap (\<lambda>cbb. CBB_add_asn1_bool mal 0 cbb v)
    = Some (der_tlv CBS_ASN1_BOOLEAN [if v \<noteq> 0 then 0xff else 0])"
proof -
  have "length (der_tag CBS_ASN1_BOOLEAN) \<le> 2" by (simp add: evals)
  then have "length (der_tlv CBS_ASN1_BOOLEAN [if v \<noteq> 0 then 0xff else 0]) < 2 ^ 58"
    using length_der_tlv [of CBS_ASN1_BOOLEAN "[if v \<noteq> 0 then 0xff else 0]"] by simp
  moreover have "\<exists>c'. CBB_add_u8 mal (Suc 0) c w = (True, c') \<and> live c' (a_write (Suc 0) [w] a)"
    if "live c a" "room (Suc 0) a (length [w] + 2)" for c a w
    using CBB_add_u8_success [OF assms(1,2) that(1) room_mono [OF that(2)], of w] by auto
  ultimately show ?thesis
    unfolding CBB_add_asn1_bool_def by (intro single_element [OF assms(1-3)]) auto
qed

lemma emit_success:
  assumes "malloc_contract mal" "malloc_total mal" "live cbb a" "room d a (length (uint_content bs) + 2)"
  shows "\<exists>started c c'. asn1_uint64_emit mal d cbb False bs = (True, started, c) \<and>
    (if \<not> started then CBB_add_u8 mal d c 0 else (True, c)) = (True, c') \<and> live c' (a_write d (uint_content bs) a)"
proof (cases "strip0 bs")
  case Nil
  have "room d a 1" using assms(4) by (rule room_mono) simp
  then obtain c' where "CBB_add_u8 mal d cbb 0 = (True, c')" "live c' (a_write d [0] a)"
    by (rule CBB_add_u8_success [OF assms(1-3)])
  then show ?thesis using Nil by (auto simp: emit_unstarted [of _ _ _ bs] uint_content_def)
next
  case (Cons b r)
  then have nz: "b \<noteq> 0" using strip0_hd [of bs] by simp
  have u: "uint_content bs = (if b AND 0x80 \<noteq> 0 then 0 # b # r else b # r)"
    using Cons by (simp add: uint_content_def Let_def)
  have "room d a (length (uint_content bs))" using assms(4) by (rule room_mono) simp
  moreover have "uint_content bs \<noteq> []" by (simp add: u)
  ultimately obtain c where c: "add_u8_each mal d cbb (uint_content bs) = (True, c)"
    "live c (a_write d (uint_content bs) a)"
    using add_u8_each_success [OF assms(1-3)] by blast
  have "asn1_uint64_emit mal d cbb False (b # r) = (True, True, c)"
    using c(1) nz unfolding u
    by (cases "b AND 0x80 = 0") (auto simp: emit_started and_then_def split_beta prod_eq_iff split: if_splits)
  then show ?thesis using c(2) Cons by (auto simp: emit_unstarted [of _ _ _ bs])
qed

lemma length_uint_content: "length (uint_content bs) \<le> length bs + 1"
  using length_strip0 [of bs] by (auto simp: uint_content_def Let_def)

text \<open>The two integer writers have the same shape: eight bytes in, minimal contents out.\<close>

lemma integer_written:
  assumes "malloc_contract mal" "malloc_total mal" "cap < 2 ^ 61" "length bs \<le> 9"
    and "\<And>c a'. live c a' \<Longrightarrow> room (Suc 0) a' (length bs + 2) \<Longrightarrow>
      \<exists>c'. op c = (True, c') \<and> live c' (a_write (Suc 0) bs a')"
  shows "single mal cap (\<lambda>cbb. and_then (CBB_add_asn1 mal 0 cbb CBS_ASN1_INTEGER)
      (\<lambda>c. and_then (op c) (\<lambda>c. CBB_flush mal 0 c))) = Some (der_tlv CBS_ASN1_INTEGER bs)"
proof -
  have "length (der_tag CBS_ASN1_INTEGER) \<le> 2" by (simp add: evals)
  then have "length (der_tlv CBS_ASN1_INTEGER bs) < 2 ^ 58"
    using length_der_tlv [of CBS_ASN1_INTEGER bs] assms(4) by simp
  then show ?thesis using assms(4,5) by (intro single_element [OF assms(1-3)]) auto
qed

lemma uint64_written:
  assumes "malloc_contract mal" "malloc_total mal" "cap < 2 ^ 61"
  shows "single mal cap (\<lambda>cbb. CBB_add_asn1_uint64 mal 0 cbb v)
    = Some (der_tlv CBS_ASN1_INTEGER (uint_content (be_bytes 8 (unat v))))"
proof -
  let ?op = "\<lambda>cbb. (case asn1_uint64_emit mal (Suc 0) cbb False (be_bytes 8 (unat v)) of
      (ok, started, cbb) \<Rightarrow> if \<not> ok then (False, cbb)
        else (if \<not> started then CBB_add_u8 mal (Suc 0) cbb 0 else (True, cbb)))"
  have "CBB_add_asn1_uint64 mal 0 cbb v = and_then (CBB_add_asn1 mal 0 cbb CBS_ASN1_INTEGER)
      (\<lambda>c. and_then (?op c) (\<lambda>c. CBB_flush mal 0 c))" for cbb
    unfolding CBB_add_asn1_uint64_def uint64_bytes
    by (intro arg_cong2 [of _ _ _ _ and_then] refl ext) (auto simp: and_then_def split: prod.splits)
  moreover have "length (uint_content (be_bytes 8 (unat v))) \<le> 9"
    using length_uint_content [of "be_bytes 8 (unat v)"] by simp
  moreover have "\<exists>c'. ?op c = (True, c') \<and> live c' (a_write (Suc 0) (uint_content (be_bytes 8 (unat v))) a)"
    if "live c a" "room (Suc 0) a (length (uint_content (be_bytes 8 (unat v))) + 2)" for c a
    using emit_success [OF assms(1,2) that] by auto
  ultimately show ?thesis by (simp only: integer_written [OF assms])
qed

lemma int64_written:
  assumes "malloc_contract mal" "malloc_total mal" "cap < 2 ^ 61"
  shows "single mal cap (\<lambda>cbb. CBB_add_asn1_int64 mal 0 cbb v)
    = Some (der_tlv CBS_ASN1_INTEGER (sint_content (be_bytes 8 (unat v))))"
proof (cases "sint v \<ge> 0")
  case True
  let ?xs = "be_bytes 8 (unat v)"
  have ne: "?xs \<noteq> []" by (metis length_be_bytes list.size(3) zero_neq_numeral)
  then have "uint_content ?xs = sint_content ?xs"
    using sint_neg_hd [of v] True by (intro uint_eq_sint_content) auto
  then show ?thesis using uint64_written [OF assms, of v] True by (simp add: CBB_add_asn1_int64_def)
next
  case False
  let ?xs = "be_bytes 8 (unat v)"
  have ne: "?xs \<noteq> []" by (metis length_be_bytes list.size(3) zero_neq_numeral)
  have "length (sint_content ?xs) \<le> 9" using length_sint_content [of ?xs] by simp
  moreover have "\<exists>c'. add_u8_each mal (Suc 0) c (sint_content ?xs) = (True, c') \<and> live c' (a_write (Suc 0) (sint_content ?xs) a)"
    if "live c a" "room (Suc 0) a (length (sint_content ?xs) + 2)" for c a
    using add_u8_each_success [OF assms(1,2) that(1) room_mono [OF that(2)] sint_content_ne [OF ne]] by simp
  ultimately show ?thesis
    using False unfolding CBB_add_asn1_int64_def Let_def int64_negative_bytes [OF False]
    by (simp only: if_False integer_written [OF assms])
qed

section \<open>Character sets\<close>

lemma CBB_add_u16_success:
  assumes "malloc_contract mal" "malloc_total mal" "live cbb a" "room d a 2"
  obtains cbb' where "CBB_add_u16 mal d cbb v = (True, cbb')" "live cbb' (a_write d (be_bytes 2 (unat v)) a)"
proof -
  have sz: "length (a_raw (collapse d a)) + 2 < 2 ^ 59" using assms(4) by (simp add: room_def)
  have v: "unat (ucast v :: u64) < 256 ^ 2" using unat_u16_less [of v] by (simp add: unat_ucast_64)
  have step: "\<exists>b'. cbb_buffer_add_u mal b (ucast v) 2 = (True, b') \<and> roomy b'"
    if "roomy b" "cbytes b = a_raw (collapse d a)" for b
    using roomy_clen [OF that] sz by (intro add_u_success [OF assms(1,2) that(1) _ v]) simp
  obtain cbb' b' where c: "CBB_add_u16 mal d cbb v = (True, cbb')" "cbase cbb' = Some b'" "roomy b'"
    unfolding CBB_add_u16_def by (rule flush_then_success [OF assms step]) auto
  have "rep cbb a" using assms(3) by (simp add: live_def)
  from CBB_add_u16_True [OF assms(1) this c(1)] c that show ?thesis by (simp add: live_def)
qed

lemma CBB_add_u32_success:
  assumes "malloc_contract mal" "malloc_total mal" "live cbb a" "room d a 4"
  obtains cbb' where "CBB_add_u32 mal d cbb v = (True, cbb')" "live cbb' (a_write d (be_bytes 4 (unat v)) a)"
proof -
  have sz: "length (a_raw (collapse d a)) + 4 < 2 ^ 59" using assms(4) by (simp add: room_def)
  have v: "unat (ucast v :: u64) < 256 ^ 4" using unat_u32_less [of v] by (simp add: unat_ucast_64)
  have step: "\<exists>b'. cbb_buffer_add_u mal b (ucast v) 4 = (True, b') \<and> roomy b'"
    if "roomy b" "cbytes b = a_raw (collapse d a)" for b
    using roomy_clen [OF that] sz by (intro add_u_success [OF assms(1,2) that(1) _ v]) simp
  obtain cbb' b' where c: "CBB_add_u32 mal d cbb v = (True, cbb')" "cbase cbb' = Some b'" "roomy b'"
    unfolding CBB_add_u32_def by (rule flush_then_success [OF assms step]) auto
  have "rep cbb a" using assms(3) by (simp add: live_def)
  from CBB_add_u32_True [OF assms(1) this c(1)] c that show ?thesis by (simp add: live_def)
qed

text \<open>A codec whose writer does write every character it accepts.\<close>

locale total_codec = codec +
  assumes add_success: "malloc_contract mal \<Longrightarrow> malloc_total mal \<Longrightarrow> live cbb a \<Longrightarrow> room d a 4 \<Longrightarrow> ok u \<Longrightarrow>
      \<exists>cbb'. add mal d cbb u = (True, cbb') \<and> live cbb' (a_write d (enc u) a)"
    and enc_length: "length (enc u) \<le> 4"
begin

lemma add_points_success:
  assumes "malloc_contract mal" "malloc_total mal"
  shows "live cbb (s, []) \<Longrightarrow> \<forall>u\<in>set us. ok u \<Longrightarrow> length s + 4 * length us < 2 ^ 58 \<Longrightarrow>
    \<exists>cbb'. add_points add mal 0 cbb us = (True, cbb') \<and> live cbb' (s @ concat (map enc us), [])"
proof (induction us arbitrary: cbb s)
  case (Cons u us)
  have "room 0 (s, []) 4" using Cons.prems(3) by (simp add: room0)
  then obtain c where c: "add mal 0 cbb u = (True, c)" "live c (s @ enc u, [])"
    using add_success [OF assms Cons.prems(1), of 0 u] Cons.prems(2) by (auto simp: a_write0)
  have "length (s @ enc u) + 4 * length us < 2 ^ 58" using Cons.prems(3) enc_length [of u] by simp
  from Cons.IH [OF c(2) _ this] c(1) Cons.prems(2) show ?case by (auto simp: and_then_True)
qed simp

lemma points_written:
  assumes "malloc_contract mal" "malloc_total mal" "cap < 2 ^ 61" "4 * length us < 2 ^ 58"
  shows "single mal cap (\<lambda>cbb. add_points add mal 0 cbb us) =
    (if \<forall>u\<in>set us. ok u then Some (concat (map enc us)) else None)"
proof (cases "\<forall>u\<in>set us. ok u")
  case True
  have "length (concat (map enc us)) \<le> 4 * length us"
    by (induction us) (use enc_length in \<open>auto intro: add_mono\<close>)
  then have "length (concat (map enc us)) < 2 ^ 58" using assms(4) by simp
  then have "single mal cap (\<lambda>cbb. add_points add mal 0 cbb us) = Some (concat (map enc us))"
    using add_points_success [OF assms(1,2), of _ "[]" us] True assms(4)
    by (intro single_total [OF assms(1-3)]) (simp_all add: a_write0)
  then show ?thesis using True by simp
next
  case False
  then have ne: "us \<noteq> []" by auto
  have "single mal cap (\<lambda>cbb. add_points add mal 0 cbb us) = None"
  proof (rule single_None)
    fix c c' assume "CBB_init mal cap = (True, c)" "add_points add mal 0 c us = (True, c')"
    moreover have "cap < 2 ^ 63" using assms(3) by simp
    ultimately show False using add_points_True [OF assms(1) CBB_init_True [OF assms(1)] ne] False by blast
  qed
  then show ?thesis using False by simp
qed

end

interpretation latin1t: total_codec cbs_get_latin1 cbb_add_latin1 "\<lambda>u. [ucast u]" "\<lambda>u. u \<le> 0xff"
proof unfold_locales
  fix mal cbb a d and u :: u32
  assume a: "malloc_contract mal" "malloc_total mal" "live cbb a" "room d a 4" "u \<le> 0xff"
  have "room d a 1" using a(4) by (rule room_mono) simp
  then show "\<exists>cbb'. cbb_add_latin1 mal d cbb u = (True, cbb') \<and> live cbb' (a_write d [ucast u] a)"
    using CBB_add_u8_success [OF a(1-3), of d "ucast u"] a(5) by (auto simp: cbb_add_latin1_def)
qed simp

interpretation ucs2t: total_codec cbs_get_ucs2_be cbb_add_ucs2_be "\<lambda>u. be_bytes 2 (unat u)"
  "\<lambda>u. u \<le> 0xffff \<and> is_valid_code_point u"
proof unfold_locales
  fix mal cbb a d and u :: u32
  assume a: "malloc_contract mal" "malloc_total mal" "live cbb a" "room d a 4" "u \<le> 0xffff \<and> is_valid_code_point u"
  have "room d a 2" using a(4) by (rule room_mono) simp
  moreover have "unat (ucast u :: u16) = unat u"
    using a(5) by (intro unat_ucast_small) (auto simp: word_le_nat_alt)
  ultimately show "\<exists>cbb'. cbb_add_ucs2_be mal d cbb u = (True, cbb') \<and> live cbb' (a_write d (be_bytes 2 (unat u)) a)"
    using CBB_add_u16_success [OF a(1-3), of d "ucast u"] a(5) by (auto simp: cbb_add_ucs2_be_def)
qed simp

interpretation utf32t: total_codec cbs_get_utf32_be cbb_add_utf32_be "\<lambda>u. be_bytes 4 (unat u)" is_valid_code_point
proof unfold_locales
  fix mal cbb a d and u :: u32
  assume a: "malloc_contract mal" "malloc_total mal" "live cbb a" "room d a 4" "is_valid_code_point u"
  then show "\<exists>cbb'. cbb_add_utf32_be mal d cbb u = (True, cbb') \<and> live cbb' (a_write d (be_bytes 4 (unat u)) a)"
    using CBB_add_u32_success [OF a(1-4), of u] by (auto simp: cbb_add_utf32_be_def)
qed simp

interpretation utf8t: total_codec cbs_get_utf8 cbb_add_utf8 utf8_enc is_valid_code_point
proof unfold_locales
  fix mal cbb a d and u :: u32
  assume a: "malloc_contract mal" "malloc_total mal" "live cbb a" "room d a 4" "is_valid_code_point u"
  have "length (utf8_enc u) \<le> 4" by (simp add: length_utf8_enc cbb_get_utf8_len_def)
  then have "room d a (length (utf8_enc u))" by (rule room_mono [OF a(4)])
  from add_u8_each_success [OF a(1-3) this utf8_enc_nonempty] a(5)
  show "\<exists>cbb'. cbb_add_utf8 mal d cbb u = (True, cbb') \<and> live cbb' (a_write d (utf8_enc u) a)"
    by (simp add: cbb_add_utf8_each)
qed (simp add: length_utf8_enc cbb_get_utf8_len_def)

section \<open>OBJECT IDENTIFIER\<close>

lemma length_base128: "n < 2 ^ 64 \<Longrightarrow> length (base128 n) \<le> 10"
proof -
  assume "n < 2 ^ 64"
  then have "n div 128 < 128 ^ 9" by (intro less_mult_imp_div_less) simp
  from length_hi7 [OF this] show ?thesis by (simp add: base128_def)
qed

lemma add_base128_integer_success:
  assumes "malloc_contract mal" "malloc_total mal" "live cbb (s, [])" "length s + 10 < 2 ^ 59"
  obtains cbb' where "add_base128_integer mal 0 cbb v = (True, cbb')" "live cbb' (s @ base128 (unat v), [])"
proof -
  have "length (base128 (unat v)) \<le> 10" using unat_u64_less [of v] by (intro length_base128) simp
  then have "room 0 (s, []) (length (base128 (unat v)))" using assms(4) by (simp add: room0)
  moreover have "base128 (unat v) \<noteq> []" by (simp add: base128_def)
  ultimately obtain c where "add_u8_each mal 0 cbb (base128 (unat v)) = (True, c)"
    "live c (a_write 0 (base128 (unat v)) (s, []))"
    using add_u8_each_success [OF assms(1-3)] by blast
  then show ?thesis using that [of c] by (simp add: add_base128_integer_def Let_def base128_bytes a_write0)
qed

lemma parse_oid_text:
  "x < 2 ^ 64 \<Longrightarrow> parse_dotted_decimal (oid_text (x # cs)) = (Some (of_nat x), oid_text cs)"
proof -
  assume x: "x < 2 ^ 64"
  have "oid_text (c # ds) \<noteq> []" for c ds by (simp add: oid_text_Cons)
  then show ?thesis using unat_of_nat_u64 [OF x]
    by (cases cs) (auto simp: parse_dotted_decimal_iff)
qed

lemma length_oid_text: "length cs \<le> length (oid_text cs)"
  by (induction cs rule: oid_text.induct) (auto simp: Suc_le_eq)

lemma oid_from_text_loop_success:
  assumes "malloc_contract mal" "malloc_total mal"
  shows "live cbb (s, []) \<Longrightarrow> \<forall>c\<in>set cs. c < 2 ^ 64 \<Longrightarrow> length s + 10 * length cs < 2 ^ 59 \<Longrightarrow>
    \<exists>cbb'. oid_from_text_loop mal 0 cbb (oid_text cs) = (True, cbb') \<and>
      live cbb' (s @ concat (map base128 cs), [])"
proof (induction cs arbitrary: cbb s)
  case Nil
  then show ?case by (subst oid_from_text_loop.simps) (simp add: CBS_len_def)
next
  case (Cons x cs)
  have x: "x < 2 ^ 64" using Cons.prems(2) by simp
  have "length s + 10 < 2 ^ 59" using Cons.prems(3) by simp
  then obtain c where c: "add_base128_integer mal 0 cbb (of_nat x) = (True, c)" "live c (s @ base128 x, [])"
    using add_base128_integer_success [OF assms Cons.prems(1), where v = "of_nat x"] unat_of_nat_u64 [OF x]
    by metis
  have "length (s @ base128 x) + 10 * length cs < 2 ^ 59"
    using Cons.prems(3) length_base128 [OF x] by simp
  from Cons.IH [OF c(2) _ this] Cons.prems(2) obtain c2 where
    "oid_from_text_loop mal 0 c (oid_text cs) = (True, c2)" "live c2 (s @ base128 x @ concat (map base128 cs), [])"
    by auto
  moreover have "CBS_len (oid_text (x # cs)) > 0" by (simp add: CBS_len_def oid_text_Cons)
  ultimately show ?case
    using c(1) parse_oid_text [OF x, of cs] by (subst oid_from_text_loop.simps) (simp add: and_then_True)
qed

lemma collapse_nil: "collapse 0 ([], []) = ([], [])"
  by (simp add: collapse_0)

lemma oid_written:
  assumes "malloc_contract mal" "malloc_total mal" "cap < 2 ^ 61" "length text < 2 ^ 54"
  shows "single mal cap (\<lambda>cbb. CBB_add_asn1_oid_from_text mal 0 cbb text (length text)) = Some der \<longleftrightarrow>
    (\<exists>cs. oid_ok cs \<and> text = oid_text cs \<and> der = oid_der cs)"
proof
  assume L: "single mal cap (\<lambda>cbb. CBB_add_asn1_oid_from_text mal 0 cbb text (length text)) = Some der"
  then obtain c c' cc where c: "CBB_init mal cap = (True, c)"
    "CBB_add_asn1_oid_from_text mal 0 c text (length text) = (True, c')"
    "CBB_finish mal 0 c' False = (Some der, cc)"
    by (auto simp: single_def and_then_def prod_eq_iff split: prod.splits bool.splits if_splits)
  have "cap < 2 ^ 63" using assms(3) by simp
  from CBB_add_asn1_oid_from_text_True [OF assms(1) CBB_init_True [OF assms(1) this c(1)] c(2)]
  obtain cs where cs: "oid_ok cs" "text = oid_text cs" "rep c' (oid_der cs, [])" by (auto simp: a_write0)
  with CBB_finish_Some(1) [OF assms(1) cs(3) c(3)] show "\<exists>cs. oid_ok cs \<and> text = oid_text cs \<and> der = oid_der cs"
    by auto
next
  assume "\<exists>cs. oid_ok cs \<and> text = oid_text cs \<and> der = oid_der cs"
  then obtain x y ds where ok: "oid_ok (x # y # ds)" and t: "text = oid_text (x # y # ds)" "der = oid_der (x # y # ds)"
    by (metis oid_ok.elims(2))
  have xy: "x \<le> 2" "x < 2 \<longrightarrow> y \<le> 39" "40 * x + y < 2 ^ 64" "\<forall>c\<in>set ds. c < 2 ^ 64" using ok by auto
  have len: "length ds + 2 < 2 ^ 54" using length_oid_text [of "x # y # ds"] assms(4) t by simp
  have "x < 2 ^ 64" "y < 2 ^ 64" using xy(1,3) by auto
  note p = parse_oid_text [OF this(1), of "y # ds"] parse_oid_text [OF this(2), of ds]
  let ?v = "40 * of_nat x + of_nat y :: u64"
  have v: "?v = of_nat (40 * x + y)" by simp
  then have uv: "unat ?v = 40 * x + y" using unat_of_nat_u64 [OF xy(3)] by simp
  have lim: "\<not> (of_nat x > (2 :: u64) \<or> (of_nat x < (2 :: u64) \<and> of_nat y > (39 :: u64)) \<or> of_nat y > (- 1 :: u64) - 80)"
    using xy \<open>x < 2 ^ 64\<close> \<open>y < 2 ^ 64\<close> by (auto simp: word_less_nat_alt unat_of_nat_u64)
  have "\<exists>c'. CBB_add_asn1_oid_from_text mal 0 c text (length text) = (True, c') \<and> live c' (a_write 0 der ([], []))"
    if l: "live c ([], [])" for c
  proof -
    have "room 0 ([], []) 0" by (simp add: room0)
    then obtain c1 where c1: "CBB_flush mal 0 c = (True, c1)" "live c1 ([], [])"
      using CBB_flush_success [OF assms(1,2) l] by (metis collapse_nil)
    obtain c2 where c2: "add_base128_integer mal 0 c1 ?v = (True, c2)" "live c2 (base128 (40 * x + y), [])"
      by (rule add_base128_integer_success [OF assms(1,2) c1(2), where v = ?v]) (simp_all add: uv)
    have "length (base128 (40 * x + y)) + 10 * length ds < 2 ^ 59"
      using length_base128 [OF xy(3)] len by simp
    from oid_from_text_loop_success [OF assms(1,2) c2(2) xy(4) this] obtain c3 where
      "oid_from_text_loop mal 0 c2 (oid_text ds) = (True, c3)" "live c3 (a_write 0 der ([], []))"
      using t(2) by (auto simp: a_write0)
    then show ?thesis
      using c1(1) c2(1) p lim unfolding t(1) CBB_add_asn1_oid_from_text_def
      by (simp add: and_then_True CBS_init_def)
  qed
  moreover have "length der < 2 ^ 58"
  proof -
    have "length (concat (map base128 ds)) \<le> 10 * length ds"
      using xy(4) by (induction ds) (use length_base128 in \<open>fastforce intro: add_mono\<close>)+
    then show ?thesis using length_base128 [OF xy(3)] len t(2) by simp
  qed
  ultimately show "single mal cap (\<lambda>cbb. CBB_add_asn1_oid_from_text mal 0 cbb text (length text)) = Some der"
    by (intro single_total [OF assms(1-3)])
qed

lemma length_oid_text_le: "\<forall>c\<in>set cs. c < 2 ^ 64 \<Longrightarrow> length (oid_text cs) \<le> 22 * length cs"
proof (induction cs rule: oid_text.induct)
  case (3 c b cs)
  have "length (dec c) \<le> 21" using 3(2) by (intro length_dec) simp
  then show ?case using 3 by simp
qed (use length_dec in fastforce)+

lemma length_oid_der: "length cs \<le> length (oid_der cs) + 1 \<or> length cs < 2"
proof (cases cs rule: oid_der.cases)
  case (1 a b ds)
  have l: "1 \<le> length (base128 n)" for n by (simp add: base128_def)
  have "length ds \<le> length (concat (map base128 ds))"
  proof (induction ds)
    case (Cons x ds)
    then show ?case using l [of x] by (simp del: One_nat_def)
  qed simp
  then show ?thesis using 1 l [of "40 * a + b"] by simp
qed auto

lemma oid_text_read:
  assumes "malloc_contract mal" "malloc_total mal" "length cbs < 2 ^ 50"
  shows "CBS_asn1_oid_to_text mal cbs = Some txt \<longleftrightarrow>
    (\<exists>cs. oid_ok cs \<and> cbs = oid_der cs \<and> txt = oid_text cs @ [0])"
proof
  assume "\<exists>cs. oid_ok cs \<and> cbs = oid_der cs \<and> txt = oid_text cs @ [0]"
  then obtain cs where cs: "oid_ok cs" "cbs = oid_der cs" "txt = oid_text cs @ [0]" by auto
  have "\<forall>c\<in>set cs. c < 2 ^ 64" using cs(1) by (cases cs rule: oid_ok.cases) auto
  then have "length (oid_text cs) \<le> 22 * length cs" by (rule length_oid_text_le)
  moreover have "length cs < 2 ^ 51" using length_oid_der [of cs] assms(3) cs(2) by auto
  ultimately have "length (oid_text cs) < 2 ^ 58" by simp
  then show "CBS_asn1_oid_to_text mal cbs = Some txt"
    using CBS_asn1_oid_to_text_complete [OF assms(1,2) cs(1)] cs by simp
qed (rule CBS_asn1_oid_to_text_sound [OF assms(1)])

section \<open>SET OF\<close>

definition der_element :: "u8 list \<Rightarrow> bool" where
  "der_element e \<longleftrightarrow> (\<exists>tag body. e = der_tlv tag body \<and> length body < 2 ^ 32)"

lemma der_elementI: "length body < 2 ^ 32 \<Longrightarrow> der_element (der_tlv tag body)"
  by (auto simp: der_element_def)

lemma get_der_element:
  "der_element e \<Longrightarrow> \<exists>tag h. CBS_get_any_asn1_element (e @ rest) = (Some (tag, h, e), rest)"
  by (auto simp: der_element_def CBS_get_any_asn1_element_iff)

lemma der_element_nonempty: "der_element e \<Longrightarrow> e \<noteq> []"
  by (auto simp: der_element_def der_tlv_nonempty [unfolded length_greater_0_conv])

lemma elements_concat:
  assumes "\<forall>e\<in>set es. der_element e"
  shows "count_elements (concat es) = Some (length es)" "collect_elements (length es) (concat es) = Some es"
  using assms
proof (induction es)
  case Nil
  { case 1 show ?case by (subst count_elements.simps) (simp add: CBS_len_def) }
  { case 2 show ?case by simp }
next
  case (Cons e es)
  { case 1
    then obtain tag h where "CBS_get_any_asn1_element (e @ concat es) = (Some (tag, h, e), concat es)"
      using get_der_element [of e "concat es"] by auto
    then show ?case using Cons.IH(1) 1 der_element_nonempty [of e]
      by (subst count_elements.simps) (auto simp: CBS_len_def) }
  { case 2
    then show ?case using Cons.IH(2) get_der_element [of e "concat es"] by auto }
qed

lemma length_concat_elements: "\<forall>e\<in>set es. der_element e \<Longrightarrow> length es \<le> length (concat es)"
proof (induction es)
  case (Cons e es)
  then have "e \<noteq> []" using der_element_nonempty by simp
  then have "Suc 0 \<le> length e" by (cases e) auto
  moreover have "length es \<le> length (concat es)" using Cons by simp
  ultimately show ?case by (simp del: One_nat_def)
qed simp

lemma room_level: "length (snd a) = d \<Longrightarrow> room d a n \<longleftrightarrow> length (a_raw a) + n < 2 ^ 59"
  by (simp add: room_def collapse_id)

lemma add_bytes_each_success:
  assumes "malloc_contract mal" "malloc_total mal"
  shows "live cbb a \<Longrightarrow> length (snd a) = d \<Longrightarrow> length (a_raw a) + length (concat cs) < 2 ^ 59 \<Longrightarrow>
    \<exists>cbb'. add_bytes_each mal d cbb cs = (True, cbb') \<and> live cbb' (put a (concat cs))"
proof (induction cs arbitrary: cbb a)
  case (Cons c cs)
  have "room d a (length c)" using Cons.prems by (simp add: room_level)
  then obtain s where s: "CBB_add_bytes mal d cbb c = (True, s)" "live s (put a c)"
    using CBB_add_bytes_success [OF assms Cons.prems(1)] Cons.prems(2) by (metis a_write_def collapse_id)
  from Cons.IH [OF s(2)] s(1) Cons.prems show ?case by (auto simp: and_then_True CBS_data_def)
qed auto

lemma set_of_flush_success:
  assumes "malloc_contract mal" "malloc_total mal" "qsort_contract qsort" "live cbb a" "length (snd a) = d"
    and "\<forall>e\<in>set es. der_element e" "a_body a = concat es" "length (a_raw a) < 2 ^ 55"
  shows "\<exists>cbb'. CBB_flush_asn1_set_of mal qsort d cbb = (True, cbb') \<and>
    live cbb' (a_with a (concat (qsort compare_set_of_element es)))"
proof -
  let ?qs = "qsort compare_set_of_element es"
  have "room d a 0" using assms(5,8) by (simp add: room_level)
  then obtain c where c: "CBB_flush mal d cbb = (True, c)" "live c a"
    using CBB_flush_success [OF assms(1,2,4)] assms(5) by (metis collapse_id)
  obtain b where b: "cbase c = Some b" "roomy b" "cbytes b = a_raw a" "rep c a" using c(2) by (auto simp: live_def rep_def)
  note B = rep_body [OF b(4) assms(5) b(1)]
  have ib: "CBS_init (CBB_data d c) (CBB_len d c) = concat es" using B(2) assms(7) by (simp add: CBS_init_def)
  note E = elements_concat [OF assms(6)]
  have cl: "clen b = length (a_raw a)" using roomy_clen [OF b(2,3)] .
  have le: "length (concat es) \<le> length (a_raw a)" using B(1) assms(7) cl by simp
  have Q: "mset ?qs = mset es"
    using assms(3) set_of_order.comparator_axioms by (simp add: qsort_contract_def)
  show ?thesis
  proof (cases "length es < 2")
    case True
    have "?qs = es"
    proof (cases es)
      case (Cons e r)
      then show ?thesis using True Q by (cases r) auto
    qed (use Q in simp)
    moreover have "CBB_flush_asn1_set_of mal qsort d cbb = (True, c)"
      using c(1) ib E True by (simp add: CBB_flush_asn1_set_of_def and_then_True)
    ultimately show ?thesis using c(2) by (metis assms(7) a_with_a_body)
  next
    case False
    let ?c = "c\<lparr>cbase := map_option (\<lambda>b. b\<lparr>clen := cbb_start d c\<rparr>) (cbase c)\<rparr>"
    have n: "length es < 2 ^ 55" using length_concat_elements [OF assms(6)] le assms(8) by simp
    have "length (concat es) \<noteq> 0" using length_concat_elements [OF assms(6)] False by linarith
    have "OPENSSL_malloc mal (length es * sizeof_CBS) \<noteq> None" "OPENSSL_malloc mal (length (concat es)) \<noteq> None"
      using malloc_total_realloc [OF assms(2), of _ None] n le assms(8)
      by (auto simp: OPENSSL_realloc_def sizeof_CBS_def)
    then have m: "\<exists>st. OPENSSL_malloc mal (length es * sizeof_CBS) = Some st"
      "OPENSSL_memdup mal (concat es) = Some (concat es)"
      using \<open>length (concat es) \<noteq> 0\<close> by (auto simp: OPENSSL_memdup_def)
    have r: "rep ?c (a_with a [])" using B(4) b(1) by simp
    moreover have "roomy (b\<lparr>clen := cbb_start d c\<rparr>)"
      using r b(1,2) by (auto simp: rep_def roomy_def)
    ultimately have l: "live ?c (a_with a [])" using b(1) by (simp add: live_def)
    have "length (a_raw (a_with a [])) + length (concat es) = length (a_raw a)"
      using put_props(1) [of "a_with a []" "a_body a"] assms(7) by (simp add: put_a_with) (metis a_with_a_body assms(7) length_append)
    moreover have "length (concat ?qs) = length (concat es)"
      using Q by (metis length_concat mset_map sum_mset_sum_list)
    ultimately obtain c' where "add_bytes_each mal d ?c ?qs = (True, c')" "live c' (put (a_with a []) (concat ?qs))"
      using add_bytes_each_success [OF assms(1,2) l, of d ?qs] assms(5,8) by auto
    moreover have "\<not> length es > (SIZE_MOD - 1) div sizeof_CBS" using n by (simp add: SIZE_MOD_def sizeof_CBS_def)
    ultimately show ?thesis
      using c(1) ib E False m B(2,3) assms(7)
      by (auto simp: CBB_flush_asn1_set_of_def and_then_True Let_def CBS_init_def put_a_with)
  qed
qed

abbreviation CBS_ASN1_SET :: u32 where
  "CBS_ASN1_SET \<equiv> 0x20000011"

text \<open>A whole session: a SET is opened, the elements are added in the given order, the SET is
  sorted and closed.\<close>

definition write_set_of ::
    "allocator \<Rightarrow> ((CBS \<Rightarrow> CBS \<Rightarrow> int) \<Rightarrow> CBS list \<Rightarrow> CBS list) \<Rightarrow> nat \<Rightarrow> u8 list list \<Rightarrow> u8 list option" where
  "write_set_of mal qsort cap es =
     single mal cap (\<lambda>cbb. and_then (CBB_add_asn1 mal 0 cbb CBS_ASN1_SET)
       (\<lambda>c. and_then (and_then (add_bytes_each mal 1 c es) (CBB_flush_asn1_set_of mal qsort 1))
         (\<lambda>c. CBB_flush mal 0 c)))"

lemma set_of_written:
  assumes "malloc_contract mal" "malloc_total mal" "qsort_contract qsort" "cap < 2 ^ 61"
    and "\<forall>e\<in>set es. der_element e" "length (concat es) \<le> 0xfffffffe"
  shows "write_set_of mal qsort cap es = Some (der_tlv CBS_ASN1_SET (concat (qsort compare_set_of_element es)))"
proof -
  let ?qs = "qsort compare_set_of_element es"
  have "mset ?qs = mset es"
    using assms(3) set_of_order.comparator_axioms by (simp add: qsort_contract_def)
  then have len: "length (concat ?qs) = length (concat es)"
    by (metis length_concat mset_map sum_mset_sum_list)
  have "length (der_tag CBS_ASN1_SET) \<le> 2" by (simp add: evals)
  then have sz: "length (der_tlv CBS_ASN1_SET (concat ?qs)) < 2 ^ 58"
    using length_der_tlv [of CBS_ASN1_SET "concat ?qs"] assms(6) len by simp
  show ?thesis
    unfolding write_set_of_def One_nat_def
  proof (rule single_element [OF assms(1,2,4) sz])
    show "length (concat ?qs) \<le> 0xfffffffe" using len assms(6) by simp
    fix c a assume l: "live c a" and a: "a = (der_tag CBS_ASN1_SET, [(Asn1, [])])"
    have c: "live c (der_tag CBS_ASN1_SET, [(Asn1, [])])" using l a by simp
    then obtain c1 where c1: "add_bytes_each mal (Suc 0) c es = (True, c1)"
      "live c1 (der_tag CBS_ASN1_SET, [(Asn1, concat es)])"
      using add_bytes_each_success [OF assms(1,2) c, of "Suc 0" es] assms(6)
      by (auto simp: a_raw_def put_def evals)
    have "\<exists>c'. CBB_flush_asn1_set_of mal qsort (Suc 0) c1 = (True, c') \<and>
        live c' (a_with (der_tag CBS_ASN1_SET, [(Asn1, concat es)]) (concat ?qs))"
      using assms(6) by (intro set_of_flush_success [OF assms(1-3) c1(2) _ assms(5)]) (auto simp: a_raw_def a_body_def evals)
    then show "\<exists>c'. and_then (add_bytes_each mal (Suc 0) c es) (CBB_flush_asn1_set_of mal qsort (Suc 0)) = (True, c') \<and>
        live c' (a_write (Suc 0) (concat ?qs) a)"
      unfolding a using c1(1) by (auto simp: and_then_True a_with_def a_write_def collapse_id put_def)
  qed
qed

end
