(* ===== verification/Ber.thy ===== *)
theory Ber
  imports SetOf Oid
begin

text \<open>
  \<^verbatim>\<open>crypto/bytestring/ber.c\<close>: finding and converting BER, and \<^verbatim>\<open>asn1_compat.c\<close>. The
  conversion loop is a partial function that is shown to return; its result on
  a BER document is the DER document with every constructed string joined and every indefinite
  length made definite.
\<close>

section \<open>Finding BER\<close>

definition kMaxDepth :: nat where
  "kMaxDepth = 2048"

definition is_string_type :: "u32 \<Rightarrow> bool" where
  "is_string_type tag \<longleftrightarrow>
     tag AND NOT CBS_ASN1_CONSTRUCTED \<in>
       {0x3, 0x4, 0xc, 0x12, 0x13, 0x14, 0x15, 0x16, 0x19, 0x1a, 0x1b, 0x1c, 0x1e}"

text \<open>The test for an indefinite-length element.\<close>

definition is_indefinite :: "nat \<Rightarrow> CBS \<Rightarrow> bool" where
  "is_indefinite header_len contents \<longleftrightarrow>
     CBS_len contents = header_len \<and> header_len > 0 \<and> CBS_data contents ! (header_len - 1) = 0x80"

lemma ber_element_facts:
  assumes "CBS_get_any_ber_asn1_element cbs = (Some (tag, h, out), rest)"
  shows "cbs = out @ rest" "0 < h" "h \<le> length out"
proof -
  from asn1_element_sound [OF assms [unfolded CBS_get_any_ber_asn1_element_def]]
  have "cbs = out @ rest" "element_ok True tag h out" by auto
  moreover have "0 < length (der_header tag n)" for n
    using length_der_tag(1) [of tag] by (auto simp: der_header_def)
  ultimately show "cbs = out @ rest" "0 < h" "h \<le> length out"
    using length_der_tag(1) [of tag] by (auto simp: element_ok_def der_tlv_def)
qed

text \<open>The loop of \<open>cbs_find_ber\<close>; \<open>found\<close> is the value of \<open>*ber_found\<close>, and
  \<open>None\<close> a failure. The recursive call starts by storing 0 and its verdict stays in place
  while the loop goes on.\<close>

function find_ber_loop :: "nat \<Rightarrow> bool \<Rightarrow> CBS \<Rightarrow> bool option" where
  "find_ber_loop depth found cbs =
     (if CBS_len cbs > 0 then
        (case CBS_get_any_ber_asn1_element cbs of
           (None, _) \<Rightarrow> None
         | (Some (tag, header_len, contents), cbs) \<Rightarrow>
             if is_indefinite header_len contents then Some True
             else if tag AND CBS_ASN1_CONSTRUCTED \<noteq> 0 then
               if is_string_type tag then Some True
               else
                 (case CBS_skip contents header_len of
                    (None, _) \<Rightarrow> None
                  | (Some _, contents) \<Rightarrow>
                      (case (if depth + 1 > kMaxDepth then None
                             else find_ber_loop (depth + 1) False contents) of
                         None \<Rightarrow> None
                       | Some found \<Rightarrow> find_ber_loop depth found cbs))
             else find_ber_loop depth found cbs)
      else Some found)"
  by pat_completeness auto

lemma CBS_skip_eq: "CBS_skip cbs n = (if length cbs < n then (None, cbs) else (Some (), drop n cbs))"
  by (simp add: CBS_skip_def cbs_get_def)

lemma ber_element_shorter:
  "(Some (tag, h, out), rest) = CBS_get_any_ber_asn1_element cbs \<Longrightarrow>
    length rest < length cbs \<and> length out - h < length cbs"
  using ber_element_facts [of cbs tag h out rest] by auto

termination find_ber_loop
  by (relation "measure (\<lambda>(depth, found, cbs). length cbs)")
     (auto simp: CBS_skip_eq dest!: ber_element_shorter split: if_splits)

declare find_ber_loop.simps [simp del]

definition cbs_find_ber :: "CBS \<Rightarrow> nat \<Rightarrow> bool option" where
  "cbs_find_ber orig_in depth =
     (if depth > kMaxDepth then None
      else find_ber_loop depth False (CBS_init (CBS_data orig_in) (CBS_len orig_in)))"

section \<open>Converting\<close>

definition is_eoc :: "nat \<Rightarrow> CBS \<Rightarrow> bool" where
  "is_eoc header_len contents \<longleftrightarrow>
     header_len = 2 \<and> CBS_len contents = 2 \<and> memcmp (CBS_data contents) [0, 0] 2 = 0"

text \<open>What an element that is not an end-of-contents does to the output: nothing inside a
  constructed string, where its tag must match, and otherwise a child is opened. The result
  has the string tag and the depth for the element's contents.\<close>

definition child_string_tag :: "u32 \<Rightarrow> u32 \<Rightarrow> u32" where
  "child_string_tag string_tag tag =
     (if string_tag = 0 \<and> tag AND CBS_ASN1_CONSTRUCTED \<noteq> 0 \<and> is_string_type tag
      then tag AND NOT CBS_ASN1_CONSTRUCTED else string_tag)"

definition out_tag :: "u32 \<Rightarrow> u32" where
  "out_tag tag =
     (if tag AND CBS_ASN1_CONSTRUCTED \<noteq> 0 \<and> is_string_type tag
      then tag AND NOT CBS_ASN1_CONSTRUCTED else tag)"

definition open_element :: "allocator \<Rightarrow> nat \<Rightarrow> u32 \<Rightarrow> u32 \<Rightarrow> CBB \<Rightarrow> bool \<times> CBB" where
  "open_element mal d string_tag tag out =
     (if string_tag \<noteq> 0 then (tag AND NOT CBS_ASN1_CONSTRUCTED = string_tag, out)
      else CBB_add_asn1 mal d out (out_tag tag))"

definition child_depth :: "nat \<Rightarrow> u32 \<Rightarrow> nat" where
  "child_depth d string_tag = (if string_tag \<noteq> 0 then d else Suc d)"

text \<open>The loop of \<open>cbs_convert_ber\<close>. The results are the return value, the reader and the
  builder after the call; the first \<open>Some\<close> says that the loop ends. \<open>d\<close> is the depth of
  \<open>out\<close> in the builder.\<close>

partial_function (option) convert_ber_loop ::
    "allocator \<Rightarrow> nat \<Rightarrow> u32 \<Rightarrow> bool \<Rightarrow> nat \<Rightarrow> CBS \<Rightarrow> CBB \<Rightarrow> (bool \<times> CBS \<times> CBB) option" where
  "convert_ber_loop mal d string_tag looking_for_eoc depth inp out =
     (if CBS_len inp > 0 then
        (case CBS_get_any_ber_asn1_element inp of
           (r, inp) \<Rightarrow>
        (case r of
           None \<Rightarrow> Some (False, inp, out)
         | Some (tag, header_len, contents) \<Rightarrow>
             if is_eoc header_len contents then Some (looking_for_eoc, inp, out)
             else
               (case open_element mal d string_tag tag out of
                  (ok, out) \<Rightarrow>
                    if \<not> ok then Some (False, inp, out)
                    else
                      Option.bind
                        (if is_indefinite header_len contents then
                           if depth + 1 > kMaxDepth then Some (False, inp, out)
                           else convert_ber_loop mal (child_depth d string_tag)
                                  (child_string_tag string_tag tag) True (depth + 1) inp out
                         else
                           (case CBS_skip contents header_len of
                              (s, contents) \<Rightarrow>
                                if s = None then Some (False, inp, out)
                                else if tag AND CBS_ASN1_CONSTRUCTED \<noteq> 0 then
                                  if depth + 1 > kMaxDepth then Some (False, inp, out)
                                  else
                                    Option.bind
                                      (convert_ber_loop mal (child_depth d string_tag)
                                         (child_string_tag string_tag tag) False (depth + 1) contents out)
                                      (\<lambda>(ok, _, out). Some (ok, inp, out))
                                else
                                  (case CBB_add_bytes mal (child_depth d string_tag) out (CBS_data contents) of
                                     (ok, out) \<Rightarrow> Some (ok, inp, out))))
                        (\<lambda>(ok, inp, out).
                          if \<not> ok then Some (False, inp, out)
                          else
                            (case CBB_flush mal d out of
                               (ok, out) \<Rightarrow>
                                 if \<not> ok then Some (False, inp, out)
                                 else convert_ber_loop mal d string_tag looking_for_eoc depth inp out)))))
      else Some (\<not> looking_for_eoc, inp, out))"

definition cbs_convert_ber ::
    "allocator \<Rightarrow> nat \<Rightarrow> CBS \<Rightarrow> CBB \<Rightarrow> u32 \<Rightarrow> bool \<Rightarrow> nat \<Rightarrow> (bool \<times> CBS \<times> CBB) option" where
  "cbs_convert_ber mal d inp out string_tag looking_for_eoc depth =
     (if depth > kMaxDepth then Some (False, inp, out)
      else convert_ber_loop mal d string_tag looking_for_eoc depth inp out)"

text \<open>\<open>None\<close> is a failure; the result is \<open>out\<close>, whether it lives in fresh storage, and
  the reader after the call.\<close>

definition CBS_asn1_ber_to_der :: "allocator \<Rightarrow> CBS \<Rightarrow> (CBS \<times> bool) option \<times> CBS" where
  "CBS_asn1_ber_to_der mal inp =
     (case cbs_find_ber inp 0 of
        None \<Rightarrow> (None, inp)
      | Some conversion_needed \<Rightarrow>
          if \<not> conversion_needed then
            then_get (CBS_get_any_asn1_element inp) (\<lambda>(tag, header_len, out) inp. (Some (out, False), inp))
          else
            (case CBB_init mal (CBS_len inp) of
               (False, _) \<Rightarrow> (None, inp)
             | (True, cbb) \<Rightarrow>
                 (case cbs_convert_ber mal 0 inp cbb 0 False 0 of
                    Some (True, inp, cbb) \<Rightarrow>
                      (case fst (CBB_finish mal 0 cbb False) of
                         None \<Rightarrow> (None, inp)
                       | Some storage \<Rightarrow> (Some (CBS_init storage (length storage), True), inp))
                  | Some (False, inp, _) \<Rightarrow> (None, inp)
                  | None \<Rightarrow> (None, inp))))"

text \<open>The loop over the chunks of a constructed string.\<close>

function implicit_string_loop :: "allocator \<Rightarrow> CBS \<Rightarrow> u32 \<Rightarrow> CBB \<Rightarrow> bool \<times> CBB" where
  "implicit_string_loop mal child inner_tag result =
     (if CBS_len child > 0 then
        (case CBS_get_asn1 child inner_tag of
           (None, _) \<Rightarrow> (False, result)
         | (Some chunk, child) \<Rightarrow>
             and_then (CBB_add_bytes mal 0 result (CBS_data chunk)) (\<lambda>result.
               implicit_string_loop mal child inner_tag result))
      else (True, result))"
  by pat_completeness auto
termination
  by (relation "measure (\<lambda>(mal, child, inner_tag, result). length child)")
     (use der_tlv_nonempty in \<open>fastforce simp: CBS_get_asn1_iff dest!: sym [of "(Some _, _)"]\<close>)+

declare implicit_string_loop.simps [simp del]

definition CBS_get_asn1_implicit_string ::
    "allocator \<Rightarrow> CBS \<Rightarrow> u32 \<Rightarrow> u32 \<Rightarrow> (CBS \<times> bool) option \<times> CBS" where
  "CBS_get_asn1_implicit_string mal inp outer_tag inner_tag =
     (if CBS_peek_asn1_tag inp outer_tag then
        then_get (CBS_get_asn1 inp outer_tag) (\<lambda>out inp. (Some (out, False), inp))
      else
        (case CBB_init mal (CBS_len inp) of
           (False, _) \<Rightarrow> (None, inp)
         | (True, result) \<Rightarrow>
             then_get (CBS_get_asn1 inp (outer_tag OR CBS_ASN1_CONSTRUCTED)) (\<lambda>child inp.
               (case implicit_string_loop mal child inner_tag result of
                  (False, _) \<Rightarrow> (None, inp)
                | (True, result) \<Rightarrow>
                    (case fst (CBB_finish mal 0 result False) of
                       None \<Rightarrow> (None, inp)
                     | Some data \<Rightarrow> (Some (CBS_init data (length data), True), inp))))))"

section \<open>The conversion loop ends\<close>

text \<open>One round of the loop: the part between opening an element and the flush.\<close>

definition convert_body ::
    "allocator \<Rightarrow> nat \<Rightarrow> u32 \<Rightarrow> nat \<Rightarrow> u32 \<Rightarrow> nat \<Rightarrow> CBS \<Rightarrow> CBS \<Rightarrow> CBB \<Rightarrow> (bool \<times> CBS \<times> CBB) option" where
  "convert_body mal d st depth tag h contents inp out =
     (if is_indefinite h contents then
        if depth + 1 > kMaxDepth then Some (False, inp, out)
        else convert_ber_loop mal (child_depth d st) (child_string_tag st tag) True (depth + 1) inp out
      else
        (case CBS_skip contents h of
           (s, contents) \<Rightarrow>
             if s = None then Some (False, inp, out)
             else if tag AND CBS_ASN1_CONSTRUCTED \<noteq> 0 then
               if depth + 1 > kMaxDepth then Some (False, inp, out)
               else
                 Option.bind
                   (convert_ber_loop mal (child_depth d st) (child_string_tag st tag) False (depth + 1) contents out)
                   (\<lambda>(ok, _, out). Some (ok, inp, out))
             else
               (case CBB_add_bytes mal (child_depth d st) out (CBS_data contents) of
                  (ok, out) \<Rightarrow> Some (ok, inp, out))))"

lemma convert_step:
  assumes "inp \<noteq> []" "CBS_get_any_ber_asn1_element inp = (Some (tag, h, contents), inp1)"
    and "open_element mal d st tag out = (ok1, out1)" "convert_body mal d st depth tag h contents inp1 out1 = Some (ok2, inp2, out2)"
    and "CBB_flush mal d out2 = (ok3, out3)"
  shows "convert_ber_loop mal d st eoc depth inp out =
          (if is_eoc h contents then Some (eoc, inp1, out)
           else if \<not> ok1 then Some (False, inp1, out1)
           else if \<not> ok2 then Some (False, inp2, out2)
           else if \<not> ok3 then Some (False, inp2, out3)
           else convert_ber_loop mal d st eoc depth inp2 out3)"
  using assms by (subst convert_ber_loop.simps) (simp add: CBS_len_def convert_body_def [symmetric])

theorem convert_ber_loop_returns:
  "\<exists>ok inp' out'. convert_ber_loop mal d st eoc depth inp out = Some (ok, inp', out') \<and> length inp' \<le> length inp"
proof (induction "length inp" arbitrary: d st eoc depth inp out rule: less_induct)
  case less
  show ?case
  proof (cases "inp = []")
    case True
    then show ?thesis by (subst convert_ber_loop.simps) (simp add: CBS_len_def)
  next
    case False
    obtain r inp1 where r: "CBS_get_any_ber_asn1_element inp = (r, inp1)"
      by (cases "CBS_get_any_ber_asn1_element inp")
    show ?thesis
    proof (cases r)
      case None
      then have "inp1 = inp" using r
        by (auto simp: CBS_get_any_ber_asn1_element_def cbs_get_any_asn1_element_def Let_def CBS_get_bytes_eq
            then_get_def split: option.splits prod.splits if_splits)
      then show ?thesis using None r False by (subst convert_ber_loop.simps) (auto simp: CBS_len_def)
    next
      case (Some e)
      obtain tag h contents where e: "e = (tag, h, contents)" by (cases e)
      have sh: "length inp1 < length inp" "length contents - h < length inp"
        using ber_element_shorter [of tag h contents inp1 inp] r Some e by auto
      obtain ok1 out1 where o1: "open_element mal d st tag out = (ok1, out1)" by (cases "open_element mal d st tag out")
      have "\<exists>ok' inp' out'. convert_body mal d st depth tag h contents inp1 out1 = Some (ok', inp', out') \<and> length inp' \<le> length inp1"
        using less [of inp1 "child_depth d st" "child_string_tag st tag" True "depth + 1" out1] sh
          less [of "drop h contents" "child_depth d st" "child_string_tag st tag" False "depth + 1" out1]
        unfolding convert_body_def CBS_skip_eq by (auto split: prod.splits if_splits)
      then obtain ok2 inp2 out2 where b2: "convert_body mal d st depth tag h contents inp1 out1 = Some (ok2, inp2, out2)"
        "length inp2 \<le> length inp1" by blast
      obtain ok3 out3 where f3: "CBB_flush mal d out2 = (ok3, out3)" by (cases "CBB_flush mal d out2")
      obtain ok4 inp4 out4 where n: "convert_ber_loop mal d st eoc depth inp2 out3 = Some (ok4, inp4, out4)"
        "length inp4 \<le> length inp2"
        using less [of inp2 d st eoc depth out3] b2(2) sh(1) by fastforce
      show ?thesis
        using convert_step [OF False r [unfolded Some e] o1 b2(1) f3, of eoc] n b2(2) sh(1) by auto
    qed
  qed
qed

section \<open>BER documents\<close>

datatype ber =
    BEnd
  | BPrim u32 "u8 list" ber
  | BDef u32 ber ber
  | BIndef u32 ber ber

fun ber_enc :: "ber \<Rightarrow> u8 list" where
  "ber_enc BEnd = []"
| "ber_enc (BPrim tag b r) = der_tlv tag b @ ber_enc r"
| "ber_enc (BDef tag c r) = der_tlv tag (ber_enc c) @ ber_enc r"
| "ber_enc (BIndef tag c r) = der_tag tag @ [0x80] @ ber_enc c @ [0, 0] @ ber_enc r"

fun ber_ok :: "ber \<Rightarrow> bool" where
  "ber_ok BEnd = True"
| "ber_ok (BPrim tag b r) =
     (tag AND CBS_ASN1_CONSTRUCTED = 0 \<and> \<not> (tag = 0 \<and> b = []) \<and> length b < 2 ^ 32 \<and> ber_ok r)"
| "ber_ok (BDef tag c r) =
     (tag AND CBS_ASN1_CONSTRUCTED \<noteq> 0 \<and> length (ber_enc c) < 2 ^ 32 \<and> ber_ok c \<and> ber_ok r)"
| "ber_ok (BIndef tag c r) = (tag AND CBS_ASN1_CONSTRUCTED \<noteq> 0 \<and> ber_ok c \<and> ber_ok r)"

text \<open>The DER of a document; with a string tag, the joined contents of its fragments.\<close>

fun ber_der :: "u32 \<Rightarrow> ber \<Rightarrow> u8 list" where
  "ber_der st BEnd = []"
| "ber_der st (BPrim tag b r) = (if st \<noteq> 0 then b else der_tlv tag b) @ ber_der st r"
| "ber_der st (BDef tag c r) =
     (if st \<noteq> 0 then ber_der st c else der_tlv (out_tag tag) (ber_der (child_string_tag 0 tag) c)) @ ber_der st r"
| "ber_der st (BIndef tag c r) =
     (if st \<noteq> 0 then ber_der st c else der_tlv (out_tag tag) (ber_der (child_string_tag 0 tag) c)) @ ber_der st r"

lemma get_ber_tlv:
  "length body < 2 ^ 32 \<Longrightarrow> CBS_get_any_ber_asn1_element (der_tlv tag body @ rest) =
    (Some (tag, length (der_header tag (length body)), der_tlv tag body), rest)"
  unfolding CBS_get_any_ber_asn1_element_def by (rule asn1_element_complete)

lemma drop_header_tlv:
  "drop (length (der_header tag (length body))) (der_tlv tag body) = body"
  "length (der_header tag (length body)) \<le> length (der_tlv tag body)"
  by (simp_all add: der_tlv_def)

lemma tlv_not_indefinite: "\<not> is_indefinite (length (der_header tag (length body))) (der_tlv tag body)"
proof
  assume i: "is_indefinite (length (der_header tag (length body))) (der_tlv tag body)"
  then have "body = []" by (auto simp: is_indefinite_def der_tlv_def CBS_len_def)
  then have "der_tlv tag body = der_tag tag @ [byte 0]" by (simp add: der_tlv_def der_header_def der_len_def)
  then have "der_tlv tag body ! (length (der_tlv tag body) - 1) = 0" by (simp add: nth_append byte_def)
  with i show False by (auto simp: is_indefinite_def CBS_data_def CBS_len_def)
qed

lemma tlv_00: "der_tlv 0 [] = [0, 0]"
  by (simp add: evals)

lemma memcmp_2: "length xs = 2 \<Longrightarrow> memcmp xs [0, 0] 2 = 0 \<longleftrightarrow> xs = [0, 0]"
proof -
  assume "length xs = 2"
  then obtain a b where "xs = [a, b]" by (auto simp: length_Suc_conv numeral_2_eq_2)
  then show ?thesis by (auto simp: numeral_2_eq_2 word_uint_eq_iff)
qed

lemma tlv_eoc:
  assumes "length body < 2 ^ 32"
  shows "is_eoc (length (der_header tag (length body))) (der_tlv tag body) \<longleftrightarrow> tag = 0 \<and> body = []"
proof
  assume "is_eoc (length (der_header tag (length body))) (der_tlv tag body)"
  then have "der_tlv tag body = [0, 0]" by (auto simp: is_eoc_def CBS_len_def CBS_data_def memcmp_2)
  then have "der_tlv tag body @ [] = der_tlv 0 [] @ []" by (simp add: tlv_00)
  then show "tag = 0 \<and> body = []" using der_tlv_cancel [of body "[]" tag "[]" 0 "[]"] assms by simp
qed (simp add: is_eoc_def tlv_00 CBS_len_def CBS_data_def numeral_2_eq_2 der_header_def der_tag_def tag_num_def
    tag_bits_def der_len_def)

lemma indefinite_not_eoc: "\<not> is_eoc h (der_tag tag @ [0x80])"
proof
  assume "is_eoc h (der_tag tag @ [0x80])"
  then have "length (der_tag tag @ [0x80]) = 2" "memcmp (der_tag tag @ [0x80]) [0, 0] 2 = 0"
    by (auto simp: is_eoc_def CBS_len_def CBS_data_def)
  then have "der_tag tag @ [0x80] = [0, 0]" by (simp only: memcmp_2)
  then show False by auto
qed

text \<open>What one successful round does.\<close>

lemma convert_round:
  assumes "CBS_get_any_ber_asn1_element inp = (Some (tag, h, contents), inp1)" "inp \<noteq> []" "\<not> is_eoc h contents"
    and "convert_ber_loop mal d st eoc depth inp out = Some (True, inp', out')"
  obtains out1 inp2 out2 out3 where "open_element mal d st tag out = (True, out1)"
    "convert_body mal d st depth tag h contents inp1 out1 = Some (True, inp2, out2)"
    "CBB_flush mal d out2 = (True, out3)" "convert_ber_loop mal d st eoc depth inp2 out3 = Some (True, inp', out')"
proof -
  obtain ok1 out1 where o1: "open_element mal d st tag out = (ok1, out1)" by (cases "open_element mal d st tag out")
  have "convert_body mal d st depth tag h contents inp1 out1 \<noteq> None"
    using convert_ber_loop_returns [of mal "child_depth d st" "child_string_tag st tag" True "depth + 1" inp1 out1]
      convert_ber_loop_returns [of mal "child_depth d st" "child_string_tag st tag" False "depth + 1" "drop h contents" out1]
    by (auto simp: convert_body_def CBS_skip_eq split: prod.splits if_splits)
  then obtain ok2 inp2 out2 where b2: "convert_body mal d st depth tag h contents inp1 out1 = Some (ok2, inp2, out2)" by auto
  obtain ok3 out3 where f3: "CBB_flush mal d out2 = (ok3, out3)" by (cases "CBB_flush mal d out2")
  have "ok1 \<and> ok2 \<and> ok3 \<and> convert_ber_loop mal d st eoc depth inp2 out3 = Some (True, inp', out')"
    using convert_step [OF assms(2,1) o1 b2 f3, of eoc] assms(3,4) by (auto split: if_splits)
  then show ?thesis using that [of out1 inp2 out2 out3] o1 b2 f3 by auto
qed

text \<open>Opening an element, writing its contents and flushing.\<close>

definition child_writes :: "allocator \<Rightarrow> nat \<Rightarrow> u32 \<Rightarrow> u32 \<Rightarrow> abuilder \<Rightarrow> abuilder \<Rightarrow> bool" where
  "child_writes mal d st tag a a1 \<longleftrightarrow>
     (\<forall>out2 a2 out3 X. rep out2 a2 \<longrightarrow> child_depth d st \<le> length (snd a2) \<longrightarrow>
        collapse (child_depth d st) a2 = a_write (child_depth d st) X a1 \<longrightarrow>
        CBB_flush mal d out2 = (True, out3) \<longrightarrow>
        rep out3 (a_write d (if st \<noteq> 0 then X else der_tlv (out_tag tag) X) a))"

lemma child_writesD:
  "child_writes mal d st tag a a1 \<Longrightarrow> rep out2 a2 \<Longrightarrow> child_depth d st \<le> length (snd a2) \<Longrightarrow>
    collapse (child_depth d st) a2 = a_write (child_depth d st) X a1 \<Longrightarrow> CBB_flush mal d out2 = (True, out3) \<Longrightarrow>
    rep out3 (a_write d (if st \<noteq> 0 then X else der_tlv (out_tag tag) X) a)"
  unfolding child_writes_def by blast

lemma element_written:
  assumes "malloc_contract mal" "rep out a" "d \<le> length (snd a)" "open_element mal d st tag out = (True, out1)"
  obtains a1 where "rep out1 a1" "child_depth d st \<le> length (snd a1)"
    "child_writes mal d st tag a a1"
proof (cases "st = 0")
  case True
  let ?a1 = "a_open d Asn1 (a_write d (der_tag (out_tag tag)) a)"
  have o: "CBB_add_asn1 mal d out (out_tag tag) = (True, out1)" using assms(4) True by (simp add: open_element_def)
  have r1: "rep out1 ?a1" using CBB_add_asn1_True [OF assms(1,2) o] by simp
  show ?thesis
  proof (rule that [OF r1])
    show "child_depth d st \<le> length (snd ?a1)" using assms(3) True by (simp add: child_depth_def)
    show "child_writes mal d st tag a ?a1"
      unfolding child_writes_def
    proof (intro allI impI)
    fix out2 a2 out3 X
    assume h: "rep out2 a2" "child_depth d st \<le> length (snd a2)"
      "collapse (child_depth d st) a2 = a_write (child_depth d st) X ?a1" "CBB_flush mal d out2 = (True, out3)"
    have "collapse d a2 = collapse d (collapse (Suc d) a2)"
      using h(2) True by (simp add: child_depth_def collapse_Suc)
    also have "\<dots> = a_write d (der_tlv (out_tag tag) X) a"
      using h(3) True assms(3) by (simp add: child_depth_def collapse_element)
    finally show "rep out3 (a_write d (if st \<noteq> 0 then X else der_tlv (out_tag tag) X) a)"
      using CBB_flush_True [OF assms(1) h(1,4)] True by simp
    qed
  qed
next
  case False
  then have "out1 = out" using assms(4) by (simp add: open_element_def)
  show ?thesis
  proof (rule that [of a])
    show "rep out1 a" using assms(2) \<open>out1 = out\<close> by simp
    show "child_depth d st \<le> length (snd a)" using assms(3) False by (simp add: child_depth_def)
    show "child_writes mal d st tag a a"
      unfolding child_writes_def
    proof (intro allI impI)
    fix out2 a2 out3 X
    assume h: "rep out2 a2" "child_depth d st \<le> length (snd a2)"
      "collapse (child_depth d st) a2 = a_write (child_depth d st) X a" "CBB_flush mal d out2 = (True, out3)"
    then show "rep out3 (a_write d (if st \<noteq> 0 then X else der_tlv (out_tag tag) X) a)"
      using CBB_flush_True [OF assms(1) h(1,4)] False by (simp add: child_depth_def)
    qed
  qed
qed

lemma child_string_tag_nz: "st \<noteq> 0 \<Longrightarrow> child_string_tag st tag = st"
  by (simp add: child_string_tag_def)

lemma out_tag_prim: "tag AND CBS_ASN1_CONSTRUCTED = 0 \<Longrightarrow> out_tag tag = tag"
  by (simp add: out_tag_def)

text \<open>The input that is left when a document ends.\<close>

definition ber_tail :: "bool \<Rightarrow> u8 list \<Rightarrow> u8 list" where
  "ber_tail eoc tail = (if eoc then [0, 0] @ tail else [])"

theorem convert_ber_correct:
  assumes "malloc_contract mal"
  shows "ber_ok t \<Longrightarrow> rep out a \<Longrightarrow> d \<le> length (snd a) \<Longrightarrow>
    convert_ber_loop mal d st eoc depth (ber_enc t @ ber_tail eoc tail) out = Some (True, inp', out') \<Longrightarrow>
    inp' = (if eoc then tail else []) \<and>
    (\<exists>a'. rep out' a' \<and> d \<le> length (snd a') \<and> collapse d a' = a_write d (ber_der st t) a)"
proof (induction t arbitrary: d st eoc depth out a tail inp' out')
  case BEnd
  show ?case
  proof (cases eoc)
    case True
    have "CBS_get_any_ber_asn1_element ([0, 0] @ tail) = (Some (0, length (der_header 0 0), der_tlv 0 []), tail)"
      using get_ber_tlv [of "[]" 0 tail] by (simp add: tlv_00)
    moreover have "is_eoc (length (der_header 0 0)) (der_tlv 0 [])" using tlv_eoc [of "[]" 0] by simp
    ultimately have "convert_ber_loop mal d st eoc depth ([0, 0] @ tail) out = Some (True, tail, out)"
      using True by (subst convert_ber_loop.simps) (simp add: CBS_len_def)
    then show ?thesis using BEnd.prems True by (intro conjI exI [of _ a]) (auto simp: ber_tail_def a_write_def)
  next
    case False
    then have "convert_ber_loop mal d st eoc depth [] out = Some (True, [], out)"
      by (subst convert_ber_loop.simps) (simp add: CBS_len_def)
    then show ?thesis using BEnd.prems False by (intro conjI exI [of _ a]) (auto simp: ber_tail_def a_write_def)
  qed
next
  case (BPrim tag b r)
  let ?rest = "ber_enc r @ ber_tail eoc tail"
  have ok: "tag AND CBS_ASN1_CONSTRUCTED = 0" "length b < 2 ^ 32" "\<not> (tag = 0 \<and> b = [])" "ber_ok r"
    using BPrim.prems(1) by auto
  have run: "convert_ber_loop mal d st eoc depth (der_tlv tag b @ ?rest) out = Some (True, inp', out')"
    using BPrim.prems(4) by simp
  obtain out1 inp2 out2 out3 where o: "open_element mal d st tag out = (True, out1)"
    and b: "convert_body mal d st depth tag (length (der_header tag (length b))) (der_tlv tag b) ?rest out1 = Some (True, inp2, out2)"
    and f: "CBB_flush mal d out2 = (True, out3)" and n: "convert_ber_loop mal d st eoc depth inp2 out3 = Some (True, inp', out')"
    by (rule convert_round [OF get_ber_tlv [OF ok(2)] _ _ run]) (use ok tlv_eoc der_tlv_nonempty [of tag b] in auto)
  obtain a1 where a1: "rep out1 a1" "child_depth d st \<le> length (snd a1)"
    and W: "child_writes mal d st tag a a1"
    by (rule element_written [OF assms BPrim.prems(2,3) o])
  have add: "CBB_add_bytes mal (child_depth d st) out1 b = (True, out2)" "inp2 = ?rest"
    using b ok(1) tlv_not_indefinite [of tag b] by (auto simp: convert_body_def CBS_data_def split: prod.splits)
  have "length b < 2 ^ 63" using ok(2) by simp
  from CBB_add_bytes_True [OF assms a1(1) this add(1)]
  have "rep out3 (a_write d (if st \<noteq> 0 then b else der_tlv (out_tag tag) b) a)"
    using a1(2) f
      child_writesD [OF W, where ?a2.0 = "a_write (child_depth d st) b a1" and X = b and ?out2.0 = out2 and ?out3.0 = out3]
    by simp
  from BPrim.IH [OF ok(4) this _ n [unfolded add(2)]] show ?case
    using BPrim.prems(3) out_tag_prim [OF ok(1)]
    by (cases "st = 0") simp_all
next
  case (BDef tag c r)
  let ?rest = "ber_enc r @ ber_tail eoc tail"
  have ok: "tag AND CBS_ASN1_CONSTRUCTED \<noteq> 0" "length (ber_enc c) < 2 ^ 32" "ber_ok c" "ber_ok r" "tag \<noteq> 0"
    using BDef.prems(1) by auto
  have run: "convert_ber_loop mal d st eoc depth (der_tlv tag (ber_enc c) @ ?rest) out = Some (True, inp', out')"
    using BDef.prems(4) by simp
  obtain out1 inp2 out2 out3 where o: "open_element mal d st tag out = (True, out1)"
    and b: "convert_body mal d st depth tag (length (der_header tag (length (ber_enc c)))) (der_tlv tag (ber_enc c)) ?rest out1 = Some (True, inp2, out2)"
    and f: "CBB_flush mal d out2 = (True, out3)" and n: "convert_ber_loop mal d st eoc depth inp2 out3 = Some (True, inp', out')"
    by (rule convert_round [OF get_ber_tlv [OF ok(2)] _ _ run])
       (use ok tlv_eoc [OF ok(2), of tag] der_tlv_nonempty [of tag "ber_enc c"] in auto)
  obtain a1 where a1: "rep out1 a1" "child_depth d st \<le> length (snd a1)"
    and W: "child_writes mal d st tag a a1"
    by (rule element_written [OF assms BDef.prems(2,3) o])
  obtain inp3 where inner: "convert_ber_loop mal (child_depth d st) (child_string_tag st tag) False (depth + 1)
      (ber_enc c @ ber_tail False []) out1 = Some (True, inp3, out2)" "inp2 = ?rest"
    using b ok(1) tlv_not_indefinite [of tag "ber_enc c"]
    by (auto simp: convert_body_def ber_tail_def bind_eq_Some_conv split: if_splits)
  obtain a2 where "rep out2 a2" "child_depth d st \<le> length (snd a2)"
    "collapse (child_depth d st) a2 = a_write (child_depth d st) (ber_der (child_string_tag st tag) c) a1"
    using BDef.IH(1) [OF ok(3) a1 inner(1)] by blast
  from child_writesD [OF W this f]
  have R: "rep out3 (a_write d (if st \<noteq> 0 then ber_der st c else der_tlv (out_tag tag) (ber_der (child_string_tag 0 tag) c)) a)"
    by (cases "st = 0") (simp_all add: child_string_tag_nz)
  from BDef.IH(2) [OF ok(4) R _ n [unfolded inner(2)]] show ?case using BDef.prems(3)
    by (cases "st = 0") simp_all
next
  case (BIndef tag c r)
  let ?rest = "ber_enc r @ ber_tail eoc tail"
  let ?in = "ber_enc c @ ber_tail True ?rest"
  have ok: "tag AND CBS_ASN1_CONSTRUCTED \<noteq> 0" "ber_ok c" "ber_ok r" using BIndef.prems(1) by auto
  have run: "convert_ber_loop mal d st eoc depth (der_tag tag @ 0x80 # ?in) out = Some (True, inp', out')"
    using BIndef.prems(4) by (simp add: ber_tail_def)
  have get: "CBS_get_any_ber_asn1_element (der_tag tag @ 0x80 # ?in)
      = (Some (tag, Suc (length (der_tag tag)), der_tag tag @ [0x80]), ?in)"
    unfolding CBS_get_any_ber_asn1_element_def by (rule asn1_indefinite_complete [OF ok(1)])
  obtain out1 inp2 out2 out3 where o: "open_element mal d st tag out = (True, out1)"
    and b: "convert_body mal d st depth tag (Suc (length (der_tag tag))) (der_tag tag @ [0x80]) ?in out1 = Some (True, inp2, out2)"
    and f: "CBB_flush mal d out2 = (True, out3)" and n: "convert_ber_loop mal d st eoc depth inp2 out3 = Some (True, inp', out')"
    by (rule convert_round [OF get _ indefinite_not_eoc run]) simp
  obtain a1 where a1: "rep out1 a1" "child_depth d st \<le> length (snd a1)"
    and W: "child_writes mal d st tag a a1"
    by (rule element_written [OF assms BIndef.prems(2,3) o])
  have "is_indefinite (Suc (length (der_tag tag))) (der_tag tag @ [0x80])"
    by (simp add: is_indefinite_def CBS_len_def CBS_data_def)
  then have inner: "convert_ber_loop mal (child_depth d st) (child_string_tag st tag) True (depth + 1) ?in out1 = Some (True, inp2, out2)"
    using b by (auto simp: convert_body_def split: if_splits)
  obtain a2 where a2: "rep out2 a2" "child_depth d st \<le> length (snd a2)"
    "collapse (child_depth d st) a2 = a_write (child_depth d st) (ber_der (child_string_tag st tag) c) a1" "inp2 = ?rest"
    using BIndef.IH(1) [OF ok(2) a1 inner] by auto
  from child_writesD [OF W a2(1-3) f]
  have R: "rep out3 (a_write d (if st \<noteq> 0 then ber_der st c else der_tlv (out_tag tag) (ber_der (child_string_tag 0 tag) c)) a)"
    by (cases "st = 0") (simp_all add: child_string_tag_nz)
  from BIndef.IH(2) [OF ok(3) R _ n [unfolded a2(4)]] show ?case using BIndef.prems(3)
    by (cases "st = 0") simp_all
qed

lemma ber_to_der_converted:
  assumes "malloc_contract mal" "ber_ok t" "length (ber_enc t) < 2 ^ 63"
    and "CBS_asn1_ber_to_der mal (ber_enc t) = (Some (out, True), rest)"
  shows "out = ber_der 0 t \<and> rest = []"
proof -
  obtain cbb cbb' inp' cc where c: "CBB_init mal (length (ber_enc t)) = (True, cbb)"
    "cbs_convert_ber mal 0 (ber_enc t) cbb 0 False 0 = Some (True, inp', cbb')"
    "CBB_finish mal 0 cbb' False = (Some out, cc)" "rest = inp'"
    using assms(4)
    by (auto simp: CBS_asn1_ber_to_der_def CBS_len_def CBS_init_def then_get_Some fst_eq_iff
        split: option.splits if_splits prod.splits bool.splits)
  have r: "rep cbb ([], [])" by (rule CBB_init_True [OF assms(1,3) c(1)])
  have "convert_ber_loop mal 0 0 False 0 (ber_enc t @ ber_tail False []) cbb = Some (True, inp', cbb')"
    using c(2) by (simp add: cbs_convert_ber_def ber_tail_def)
  from convert_ber_correct [OF assms(1,2) r _ this] obtain a' where
    a': "inp' = []" "rep cbb' a'" "collapse 0 a' = a_write 0 (ber_der 0 t) ([], [])" by auto
  have "fst a' @ merge_segs (snd a') = ber_der 0 t"
    using a'(3) by (simp add: a_write_def collapse_0)
  then show ?thesis using CBB_finish_Some(1) [OF assms(1) a'(2) c(3)] a'(1) c(4) by simp
qed

section \<open>What can be converted is converted\<close>

text \<open>The fragments of a string have its type, and no element is nested deeper than the limit.\<close>

fun ber_conv :: "nat \<Rightarrow> u32 \<Rightarrow> ber \<Rightarrow> bool" where
  "ber_conv depth st BEnd = True"
| "ber_conv depth st (BPrim tag b r) =
     ((st \<noteq> 0 \<longrightarrow> tag AND NOT CBS_ASN1_CONSTRUCTED = st) \<and> ber_conv depth st r)"
| "ber_conv depth st (BDef tag c r) =
     ((st \<noteq> 0 \<longrightarrow> tag AND NOT CBS_ASN1_CONSTRUCTED = st) \<and> depth < kMaxDepth \<and>
      ber_conv (depth + 1) (child_string_tag st tag) c \<and> ber_conv depth st r)"
| "ber_conv depth st (BIndef tag c r) =
     ((st \<noteq> 0 \<longrightarrow> tag AND NOT CBS_ASN1_CONSTRUCTED = st) \<and> depth < kMaxDepth \<and>
      ber_conv (depth + 1) (child_string_tag st tag) c \<and> ber_conv depth st r)"

abbreviation piece :: "u32 \<Rightarrow> u32 \<Rightarrow> u8 list \<Rightarrow> u8 list" where
  "piece st tag X \<equiv> (if st \<noteq> 0 then X else der_tlv (out_tag tag) X)"

text \<open>A child that has been filled is closed by the flush of its parent.\<close>

definition child_closes :: "allocator \<Rightarrow> nat \<Rightarrow> u32 \<Rightarrow> u32 \<Rightarrow> abuilder \<Rightarrow> abuilder \<Rightarrow> u8 list \<Rightarrow> bool" where
  "child_closes mal d st tag a a1 X \<longleftrightarrow>
     (\<forall>out2 a2. live out2 a2 \<longrightarrow> child_depth d st \<le> length (snd a2) \<longrightarrow>
        collapse (child_depth d st) a2 = a_write (child_depth d st) X a1 \<longrightarrow>
        segs_fit (drop (child_depth d st) (snd a2)) \<longrightarrow>
        (\<exists>out3. CBB_flush mal d out2 = (True, out3) \<and> live out3 (a_write d (piece st tag X) a)))"

lemma child_closesD:
  assumes "child_closes mal d st tag a a1 X" "live out2 a2" "child_depth d st \<le> length (snd a2)"
    "collapse (child_depth d st) a2 = a_write (child_depth d st) X a1" "segs_fit (drop (child_depth d st) (snd a2))"
  obtains out3 where "CBB_flush mal d out2 = (True, out3)" "live out3 (a_write d (piece st tag X) a)"
  using assms unfolding child_closes_def by blast

lemma element_opened:
  assumes mal: "malloc_contract mal" "malloc_total mal" and "live out a" "room d a (length (piece st tag X) + 32)"
    and "st \<noteq> 0 \<longrightarrow> tag AND NOT CBS_ASN1_CONSTRUCTED = st" "length X \<le> 0xfffffffe"
  obtains out1 a1 where "open_element mal d st tag out = (True, out1)" "live out1 a1"
    "room (child_depth d st) a1 (length X + 32)" "child_closes mal d st tag a a1 X"
proof (cases "st = 0")
  case True
  let ?t = "der_tag (out_tag tag)" let ?a = "a_write d ?t a"
  note d = room_d [OF assms(4)]
  have d': "d \<le> length (snd ?a)" using d by simp
  have sz: "length (a_raw (collapse d a)) + length (der_tlv (out_tag tag) X) + 32 < 2 ^ 59"
    using assms(4) True by (simp add: room_def)
  have ra: "length (a_raw (collapse d ?a)) = length (a_raw (collapse d a)) + length ?t"
    using d by simp (simp add: a_write_def)
  have "room d a 16" using assms(4) by (rule room_mono) simp
  then obtain out1 where o: "CBB_add_asn1 mal d out (out_tag tag) = (True, out1)" "live out1 (a_open d Asn1 ?a)"
    by (rule CBB_add_asn1_success [OF mal assms(3)])
  have "child_closes mal d st tag a (a_open d Asn1 ?a) X"
    unfolding child_closes_def
  proof (intro allI impI)
    fix out2 a2
    assume "live out2 a2" "child_depth d st \<le> length (snd a2)"
      "collapse (child_depth d st) a2 = a_write (child_depth d st) X (a_open d Asn1 ?a)"
      "segs_fit (drop (child_depth d st) (snd a2))"
    then have h: "live out2 a2" "Suc d \<le> length (snd a2)" "collapse (Suc d) a2 = a_write (Suc d) X (a_open d Asn1 ?a)"
      "segs_fit (drop (Suc d) (snd a2))" using True by (simp_all add: child_depth_def)
    note C = child_done [OF d' h(2,3)]
    have F: "segs_fit (drop d (snd a2))" using C(2) h(4) assms(6) by simp
    have C': "collapse d a2 = a_write d (der_tlv (out_tag tag) X) a"
      using C(1) d by (simp add: der_tlv_def der_header_def)
    have "room d a2 0" using sz h(2) by (subst room_done [OF d _ F C']) auto
    then obtain out3 where "CBB_flush mal d out2 = (True, out3)" "live out3 (collapse d a2)"
      by (rule CBB_flush_success [OF mal h(1)])
    then show "\<exists>out3. CBB_flush mal d out2 = (True, out3) \<and> live out3 (a_write d (piece st tag X) a)"
      using C' True by auto
  qed
  moreover have "room (Suc d) (a_open d Asn1 ?a) (length X + 32)"
    using sz der_tlv_size [of "out_tag tag" X] by (simp add: room_open [OF d'] ra)
  ultimately show ?thesis using that [of out1 "a_open d Asn1 ?a"] o True by (simp add: open_element_def child_depth_def)
next
  case False
  have "child_closes mal d st tag a a X"
    unfolding child_closes_def
  proof (intro allI impI)
    fix out2 a2
    assume "live out2 a2" "child_depth d st \<le> length (snd a2)"
      "collapse (child_depth d st) a2 = a_write (child_depth d st) X a" "segs_fit (drop (child_depth d st) (snd a2))"
    then have h: "live out2 a2" "d \<le> length (snd a2)" "collapse d a2 = a_write d X a" "segs_fit (drop d (snd a2))"
      using False by (simp_all add: child_depth_def)
    have "room d a2 0"
      using assms(4) False h(2) room_d [OF assms(4)] by (subst room_done [OF _ h(2,4,3)]) (auto simp: room_def)
    then obtain out3 where "CBB_flush mal d out2 = (True, out3)" "live out3 (collapse d a2)"
      by (rule CBB_flush_success [OF mal h(1)])
    then show "\<exists>out3. CBB_flush mal d out2 = (True, out3) \<and> live out3 (a_write d (piece st tag X) a)"
      using h(3) False by auto
  qed
  then show ?thesis using that [of out a] assms False by (simp add: open_element_def child_depth_def)
qed

text \<open>What a call of the loop leaves behind when it succeeds.\<close>

definition converted ::
    "allocator \<Rightarrow> nat \<Rightarrow> u32 \<Rightarrow> bool \<Rightarrow> nat \<Rightarrow> CBS \<Rightarrow> CBB \<Rightarrow> CBS \<Rightarrow> abuilder \<Rightarrow> u8 list \<Rightarrow> bool" where
  "converted mal d st eoc depth inp out inp' a X \<longleftrightarrow>
     (\<exists>out' a'. convert_ber_loop mal d st eoc depth inp out = Some (True, inp', out') \<and> live out' a' \<and>
        d \<le> length (snd a') \<and> collapse d a' = a_write d X a \<and> segs_fit (drop d (snd a')))"

lemma round_converted:
  assumes mal: "malloc_contract mal" "malloc_total mal" and "live out a" "room d a (length (piece st tag X @ Y) + 32)"
    and "st \<noteq> 0 \<longrightarrow> tag AND NOT CBS_ASN1_CONSTRUCTED = st" "length X \<le> 0xfffffffe"
    and inp: "inp \<noteq> []" "CBS_get_any_ber_asn1_element inp = (Some (tag, h, contents), inp1)" "\<not> is_eoc h contents"
    and body: "\<And>out1 a1. live out1 a1 \<Longrightarrow> room (child_depth d st) a1 (length X + 32) \<Longrightarrow>
      \<exists>out2 a2. convert_body mal d st depth tag h contents inp1 out1 = Some (True, inp2, out2) \<and> live out2 a2 \<and>
        child_depth d st \<le> length (snd a2) \<and> collapse (child_depth d st) a2 = a_write (child_depth d st) X a1 \<and>
        segs_fit (drop (child_depth d st) (snd a2))"
    and rest: "\<And>out3 a3. live out3 a3 \<Longrightarrow> room d a3 (length Y + 32) \<Longrightarrow> converted mal d st eoc depth inp2 out3 inp' a3 Y"
  shows "converted mal d st eoc depth inp out inp' a (piece st tag X @ Y)"
proof -
  note d = room_d [OF assms(4)]
  have "room d a (length (piece st tag X) + 32)" using assms(4) by (rule room_mono) simp
  then obtain out1 a1 where o: "open_element mal d st tag out = (True, out1)" "live out1 a1"
    "room (child_depth d st) a1 (length X + 32)" and W: "child_closes mal d st tag a a1 X"
    by (rule element_opened [OF mal assms(3) _ assms(5,6)])
  obtain out2 a2 where b: "convert_body mal d st depth tag h contents inp1 out1 = Some (True, inp2, out2)"
    and a2: "live out2 a2" "child_depth d st \<le> length (snd a2)"
      "collapse (child_depth d st) a2 = a_write (child_depth d st) X a1" "segs_fit (drop (child_depth d st) (snd a2))"
    using body [OF o(2,3)] by blast
  obtain out3 where f: "CBB_flush mal d out2 = (True, out3)" "live out3 (a_write d (piece st tag X) a)"
    by (rule child_closesD [OF W a2])
  have "room d (a_write d (piece st tag X) a) (length Y + 32)"
    using assms(4) d by (simp add: room_a_write) (auto simp: room_def)
  from rest [OF f(2) this] obtain out' a' where
    r: "convert_ber_loop mal d st eoc depth inp2 out3 = Some (True, inp', out')" "live out' a'" "d \<le> length (snd a')"
      "collapse d a' = a_write d Y (a_write d (piece st tag X) a)" "segs_fit (drop d (snd a'))"
    unfolding converted_def by blast
  have "convert_ber_loop mal d st eoc depth inp out = Some (True, inp', out')"
    using convert_step [OF inp(1,2) o(1) b f(1), of eoc] inp(3) r(1) by simp
  moreover have "collapse d a' = a_write d (piece st tag X @ Y) a"
    using r(4) d by (simp only: a_write_a_write)
  ultimately show ?thesis using r unfolding converted_def by blast
qed

lemma converted_end:
  assumes "live out a" "room d a n"
  shows "converted mal d st eoc depth (ber_tail eoc tail) out (if eoc then tail else []) a []"
proof -
  have "convert_ber_loop mal d st eoc depth (ber_tail eoc tail) out = Some (True, if eoc then tail else [], out)"
  proof (cases eoc)
    case True
    have "CBS_get_any_ber_asn1_element ([0, 0] @ tail) = (Some (0, length (der_header 0 0), der_tlv 0 []), tail)"
      using get_ber_tlv [of "[]" 0 tail] by (simp add: tlv_00)
    moreover have "is_eoc (length (der_header 0 0)) (der_tlv 0 [])" using tlv_eoc [of "[]" 0] by simp
    ultimately show ?thesis using True
      by (subst convert_ber_loop.simps) (simp add: CBS_len_def ber_tail_def)
  qed (subst convert_ber_loop.simps, simp add: CBS_len_def ber_tail_def)
  then show ?thesis using assms unfolding converted_def
    by (intro exI [of _ out] exI [of _ a]) (auto simp: a_write_def room_def)
qed

lemma convert_ber_success:
  assumes mal: "malloc_contract mal" "malloc_total mal"
  shows "ber_ok t \<Longrightarrow> ber_conv depth st t \<Longrightarrow> live out a \<Longrightarrow> room d a (length (ber_der st t) + 32) \<Longrightarrow>
    length (ber_der st t) \<le> 0xfffffffe \<Longrightarrow>
    converted mal d st eoc depth (ber_enc t @ ber_tail eoc tail) out (if eoc then tail else []) a (ber_der st t)"
proof (induction t arbitrary: d st eoc depth out a tail)
  case BEnd
  then show ?case using converted_end [of out a d] by simp
next
  case (BPrim tag b r)
  let ?rest = "ber_enc r @ ber_tail eoc tail"
  have ok: "tag AND CBS_ASN1_CONSTRUCTED = 0" "length b < 2 ^ 32" "\<not> (tag = 0 \<and> b = [])" "ber_ok r"
    using BPrim.prems(1) by auto
  have X: "ber_der st (BPrim tag b r) = piece st tag b @ ber_der st r" using out_tag_prim [OF ok(1)] by simp
  have "converted mal d st eoc depth (der_tlv tag b @ ?rest) out (if eoc then tail else []) a (piece st tag b @ ber_der st r)"
  proof (rule round_converted [OF mal BPrim.prems(3) BPrim.prems(4) [unfolded X] _ _ _ get_ber_tlv [OF ok(2)]])
    have "length b \<le> length (piece st tag b)" using der_tlv_size [of "out_tag tag" b] by auto
    then show "length b \<le> 0xfffffffe" using BPrim.prems(5) unfolding X length_append by linarith
    fix out1 a1 assume l: "live out1 a1" "room (child_depth d st) a1 (length b + 32)"
    have "room (child_depth d st) a1 (length b)" using l(2) by (rule room_mono) simp
    then obtain out2 where "CBB_add_bytes mal (child_depth d st) out1 b = (True, out2)" "live out2 (a_write (child_depth d st) b a1)"
      by (rule CBB_add_bytes_success [OF mal l(1)])
    then show "\<exists>out2 a2. convert_body mal d st depth tag (length (der_header tag (length b))) (der_tlv tag b) ?rest out1 =
          Some (True, ?rest, out2) \<and> live out2 a2 \<and> child_depth d st \<le> length (snd a2) \<and>
          collapse (child_depth d st) a2 = a_write (child_depth d st) b a1 \<and> segs_fit (drop (child_depth d st) (snd a2))"
      using ok(1) tlv_not_indefinite [of tag b] room_d [OF l(2)]
      by (intro exI [of _ out2] exI [of _ "a_write (child_depth d st) b a1"])
         (simp add: convert_body_def CBS_data_def CBS_skip_eq drop_header_tlv not_less)
  qed (use BPrim ok tlv_eoc [OF ok(2), of tag] der_tlv_nonempty [of tag b] X in auto)
  then show ?case using X by simp
next
  case (BDef tag c r)
  let ?rest = "ber_enc r @ ber_tail eoc tail" let ?st = "child_string_tag st tag"
  have ok: "tag AND CBS_ASN1_CONSTRUCTED \<noteq> 0" "length (ber_enc c) < 2 ^ 32" "ber_ok c" "ber_ok r" "tag \<noteq> 0"
    using BDef.prems(1) by auto
  have X: "ber_der st (BDef tag c r) = piece st tag (ber_der ?st c) @ ber_der st r"
    by (cases "st = 0") (simp_all add: child_string_tag_nz)
  have le: "length (ber_der ?st c) \<le> 0xfffffffe"
    using BDef.prems(5) der_tlv_size [of "out_tag tag" "ber_der ?st c"] unfolding X by (simp split: if_splits)
  have "converted mal d st eoc depth (der_tlv tag (ber_enc c) @ ?rest) out (if eoc then tail else []) a (piece st tag (ber_der ?st c) @ ber_der st r)"
  proof (rule round_converted [OF mal BDef.prems(3) BDef.prems(4) [unfolded X] _ le _ get_ber_tlv [OF ok(2)]])
    fix out1 a1 assume l: "live out1 a1" "room (child_depth d st) a1 (length (ber_der ?st c) + 32)"
    have "converted mal (child_depth d st) ?st False (depth + 1) (ber_enc c @ ber_tail False []) out1 [] a1 (ber_der ?st c)"
      using BDef.IH(1) [OF ok(3) _ l le, of "depth + 1" False "[]"] BDef.prems(2) by simp
    then obtain out2 a2 where i: "convert_ber_loop mal (child_depth d st) ?st False (depth + 1) (ber_enc c) out1 = Some (True, [], out2)"
      and "live out2 a2" "child_depth d st \<le> length (snd a2)" "segs_fit (drop (child_depth d st) (snd a2))"
        "collapse (child_depth d st) a2 = a_write (child_depth d st) (ber_der ?st c) a1"
      by (auto simp: converted_def ber_tail_def)
    moreover have "convert_body mal d st depth tag (length (der_header tag (length (ber_enc c)))) (der_tlv tag (ber_enc c)) ?rest out1 =
        Some (True, ?rest, out2)"
      using i ok(1) tlv_not_indefinite [of tag "ber_enc c"] BDef.prems(2)
      by (simp add: convert_body_def CBS_skip_eq drop_header_tlv not_less)
    ultimately show "\<exists>out2 a2. convert_body mal d st depth tag (length (der_header tag (length (ber_enc c)))) (der_tlv tag (ber_enc c)) ?rest out1 =
          Some (True, ?rest, out2) \<and> live out2 a2 \<and> child_depth d st \<le> length (snd a2) \<and>
          collapse (child_depth d st) a2 = a_write (child_depth d st) (ber_der ?st c) a1 \<and> segs_fit (drop (child_depth d st) (snd a2))"
      by blast
  next
    fix out3 a3 assume l: "live out3 a3" "room d a3 (length (ber_der st r) + 32)"
    have "length (ber_der st r) \<le> 0xfffffffe" using BDef.prems(5) unfolding X by simp
    then show "converted mal d st eoc depth ?rest out3 (if eoc then tail else []) a3 (ber_der st r)"
      using BDef.IH(2) [OF ok(4) _ l] BDef.prems(2) by simp
  qed (use BDef.prems(2) ok(1,5) tlv_eoc [OF ok(2), of tag] der_tlv_nonempty [of tag "ber_enc c"] in simp_all)
  then show ?case using X by simp
next
  case (BIndef tag c r)
  let ?rest = "ber_enc r @ ber_tail eoc tail" let ?in = "ber_enc c @ ber_tail True ?rest"
  let ?st = "child_string_tag st tag"
  have ok: "tag AND CBS_ASN1_CONSTRUCTED \<noteq> 0" "ber_ok c" "ber_ok r" using BIndef.prems(1) by auto
  have X: "ber_der st (BIndef tag c r) = piece st tag (ber_der ?st c) @ ber_der st r"
    by (cases "st = 0") (simp_all add: child_string_tag_nz)
  have le: "length (ber_der ?st c) \<le> 0xfffffffe"
    using BIndef.prems(5) der_tlv_size [of "out_tag tag" "ber_der ?st c"] unfolding X by (simp split: if_splits)
  have get: "CBS_get_any_ber_asn1_element (der_tag tag @ 0x80 # ?in)
      = (Some (tag, Suc (length (der_tag tag)), der_tag tag @ [0x80]), ?in)"
    unfolding CBS_get_any_ber_asn1_element_def by (rule asn1_indefinite_complete [OF ok(1)])
  have i: "is_indefinite (Suc (length (der_tag tag))) (der_tag tag @ [0x80])"
    by (simp add: is_indefinite_def CBS_len_def CBS_data_def)
  have "converted mal d st eoc depth (der_tag tag @ 0x80 # ?in) out (if eoc then tail else []) a (piece st tag (ber_der ?st c) @ ber_der st r)"
  proof (rule round_converted [OF mal BIndef.prems(3) BIndef.prems(4) [unfolded X] _ le _ get])
    fix out1 a1 assume l: "live out1 a1" "room (child_depth d st) a1 (length (ber_der ?st c) + 32)"
    have "converted mal (child_depth d st) ?st True (depth + 1) ?in out1 ?rest a1 (ber_der ?st c)"
      using BIndef.IH(1) [OF ok(2) _ l le, of "depth + 1" True ?rest] BIndef.prems(2) by simp
    then show "\<exists>out2 a2. convert_body mal d st depth tag (Suc (length (der_tag tag))) (der_tag tag @ [0x80]) ?in out1 =
          Some (True, ?rest, out2) \<and> live out2 a2 \<and> child_depth d st \<le> length (snd a2) \<and>
          collapse (child_depth d st) a2 = a_write (child_depth d st) (ber_der ?st c) a1 \<and> segs_fit (drop (child_depth d st) (snd a2))"
      using i BIndef.prems(2) by (auto simp: converted_def convert_body_def)
  qed (use BIndef ok indefinite_not_eoc [of _ tag] X in auto)
  then show ?case using X by (simp add: ber_tail_def)
qed

section \<open>What \<open>cbs_find_ber\<close> finds\<close>

lemma find_ber_Nil: "find_ber_loop depth found [] = Some found"
  by (subst find_ber_loop.simps) (simp add: CBS_len_def)

lemma find_ber_tlv:
  assumes "length body < 2 ^ 32"
  shows "find_ber_loop depth found (der_tlv tag body @ rest) =
    (if tag AND CBS_ASN1_CONSTRUCTED \<noteq> 0 then
       if is_string_type tag then Some True
       else if depth + 1 > kMaxDepth then None
       else (case find_ber_loop (depth + 1) False body of
               None \<Rightarrow> None
             | Some found \<Rightarrow> find_ber_loop depth found rest)
     else find_ber_loop depth found rest)"
  using der_tlv_nonempty [of tag body]
  by (subst find_ber_loop.simps) (simp add: CBS_len_def get_ber_tlv [OF assms] tlv_not_indefinite)

lemma find_ber_indefinite:
  "tag AND CBS_ASN1_CONSTRUCTED \<noteq> 0 \<Longrightarrow> find_ber_loop depth found (der_tag tag @ 0x80 # rest) = Some True"
  by (subst find_ber_loop.simps)
     (simp add: CBS_len_def CBS_get_any_ber_asn1_element_def asn1_indefinite_complete is_indefinite_def CBS_data_def)

text \<open>A document has BER when it has an indefinite length or a constructed string.\<close>

fun has_ber :: "ber \<Rightarrow> bool" where
  "has_ber BEnd = False"
| "has_ber (BPrim tag b r) = has_ber r"
| "has_ber (BDef tag c r) = (is_string_type tag \<or> has_ber c \<or> has_ber r)"
| "has_ber (BIndef tag c r) = True"

text \<open>The answer of \<open>cbs_find_ber\<close> on a document within the depth limit. A definite-length
  constructed element overwrites what was found before it.\<close>

fun finds :: "bool \<Rightarrow> ber \<Rightarrow> bool" where
  "finds found BEnd = found"
| "finds found (BPrim tag b r) = finds found r"
| "finds found (BDef tag c r) = (is_string_type tag \<or> finds (finds False c) r)"
| "finds found (BIndef tag c r) = True"

lemma find_ber_eq:
  "ber_ok t \<Longrightarrow> ber_conv depth st t \<Longrightarrow> find_ber_loop depth found (ber_enc t) = Some (finds found t)"
proof (induction t arbitrary: depth st found)
  case (BIndef tag c r)
  then show ?case using find_ber_indefinite [of tag] by simp
qed (auto simp: find_ber_Nil find_ber_tlv)

lemma finds_has_ber: "finds found t \<Longrightarrow> found \<or> has_ber t"
  by (induction t arbitrary: found) fastforce+

lemma no_ber_der: "\<not> has_ber t \<Longrightarrow> ber_ok t \<Longrightarrow> ber_der 0 t = ber_enc t"
  by (induction t) (auto simp: out_tag_def child_string_tag_def)

text \<open>The whole function on a single element.\<close>

fun one_element :: "ber \<Rightarrow> bool" where
  "one_element BEnd = False"
| "one_element (BPrim tag b r) = (r = BEnd)"
| "one_element (BDef tag c r) = (r = BEnd)"
| "one_element (BIndef tag c r) = (r = BEnd)"

lemma unconverted_element:
  assumes "ber_ok t" "one_element t" "\<not> finds False t"
  shows "\<exists>tag h. CBS_get_any_asn1_element (ber_enc t) = (Some (tag, h, ber_enc t), [])"
  using assms by (cases t) (auto simp: CBS_get_any_asn1_element_iff)

lemma ber_to_der_eq:
  assumes mal: "malloc_contract mal" "malloc_total mal" and t: "ber_ok t" "ber_conv 0 0 t" "one_element t"
    and sz: "length (ber_enc t) < 2 ^ 61" "length (ber_der 0 t) \<le> 0xfffffffe"
  shows "CBS_asn1_ber_to_der mal (ber_enc t) =
    (Some (if finds False t then (ber_der 0 t, True) else (ber_enc t, False)), [])"
proof -
  have f: "cbs_find_ber (ber_enc t) 0 = Some (finds False t)"
    using find_ber_eq [OF t(1,2), of False] by (simp add: cbs_find_ber_def CBS_init_def CBS_data_def CBS_len_def)
  show ?thesis
  proof (cases "finds False t")
    case False
    then show ?thesis using f unconverted_element [OF t(1,3)] by (auto simp: CBS_asn1_ber_to_der_def then_get_def)
  next
    case True
    obtain cbb where c: "CBB_init mal (length (ber_enc t)) = (True, cbb)" "live cbb ([], [])"
      by (rule CBB_init_success [OF mal sz(1)])
    have "room 0 ([], []) (length (ber_der 0 t) + 32)" using sz(2) by (simp add: room_def collapse_0 a_raw_def)
    from convert_ber_success [OF mal t(1,2) c(2) this sz(2), of False "[]"] obtain cbb' a' where
      r: "convert_ber_loop mal 0 0 False 0 (ber_enc t) cbb = Some (True, [], cbb')" "live cbb' a'"
        "collapse 0 a' = a_write 0 (ber_der 0 t) ([], [])" "segs_fit (snd a')"
      by (auto simp: converted_def ber_tail_def)
    have "room 0 a' 0" using r(3,4) sz(2) by (simp add: room_def a_write_def collapse_0 a_raw_def)
    then obtain out cc where fin: "CBB_finish mal 0 cbb' False = (Some out, cc)"
      by (rule CBB_finish_success [OF mal r(2)])
    have "fst a' @ merge_segs (snd a') = ber_der 0 t" using r(3) by (simp add: a_write_def collapse_0)
    moreover have "rep cbb' a'" using r(2) by (simp add: live_def)
    ultimately have "out = ber_der 0 t" using CBB_finish_Some(1) [OF mal(1) _ fin] by metis
    then show ?thesis using f True c(1) r(1) fin
      by (simp add: CBS_asn1_ber_to_der_def CBS_len_def cbs_convert_ber_def kMaxDepth_def CBS_init_def)
  qed
qed

section \<open>Concrete documents\<close>

lemma constructed_value: "CBS_ASN1_CONSTRUCTED = 0x20000000"
  by (simp add: CBS_ASN1_CONSTRUCTED_def CBS_ASN1_TAG_SHIFT_def)

text \<open>Two tags for concrete documents.\<close>

lemma tag_evals [evals]:
  "is_string_type 0x20000004" "\<not> is_string_type 0x20000010"
  "out_tag 0x20000004 = 4" "out_tag 0x20000010 = 0x20000010"
  "child_string_tag 0 0x20000004 = 4" "child_string_tag 0 0x20000010 = 0"
  "(4 :: u32) AND NOT CBS_ASN1_CONSTRUCTED = 4" "(4 :: u32) AND CBS_ASN1_CONSTRUCTED = 0"
  "(0x20000004 :: u32) AND CBS_ASN1_CONSTRUCTED = 0x20000000" "(0x20000010 :: u32) AND CBS_ASN1_CONSTRUCTED = 0x20000000"
proof -
  have n: "(0x20000004 :: u32) AND NOT 0x20000000 = 4" "(0x20000010 :: u32) AND NOT 0x20000000 = 0x10" by simp_all
  have c: "(0x20000004 :: u32) AND 0x20000000 = 0x20000000" "(0x20000010 :: u32) AND 0x20000000 = 0x20000000" by simp_all
  show "is_string_type 0x20000004" "\<not> is_string_type 0x20000010" 
    unfolding is_string_type_def constructed_value n by simp_all
  then show "out_tag 0x20000004 = 4" "out_tag 0x20000010 = 0x20000010"
  "child_string_tag 0 0x20000004 = 4" "child_string_tag 0 0x20000010 = 0"
    by (simp_all add: out_tag_def child_string_tag_def constructed_value n c)
  show "(4 :: u32) AND NOT CBS_ASN1_CONSTRUCTED = 4" "(4 :: u32) AND CBS_ASN1_CONSTRUCTED = 0"
  "(0x20000004 :: u32) AND CBS_ASN1_CONSTRUCTED = 0x20000000" "(0x20000010 :: u32) AND CBS_ASN1_CONSTRUCTED = 0x20000000"
    unfolding constructed_value by simp_all
qed
section \<open>\<open>CBB_finish_i2d\<close>\<close>

text \<open>\<open>outp\<close> is absent, a NULL \<open>*outp\<close>, or the memory at \<open>*outp\<close>. The results are the
  return value, \<open>*outp\<close> and how far the pointer moved.\<close>

definition CBB_finish_i2d :: "allocator \<Rightarrow> CBB \<Rightarrow> u8 list option option \<Rightarrow> int \<times> u8 list option option \<times> nat" where
  "CBB_finish_i2d mal cbb outp =
     (case fst (CBB_finish mal 0 cbb False) of
        None \<Rightarrow> (- 1, outp, 0)
      | Some der \<Rightarrow>
          if length der > INT_MAX then (- 1, outp, 0)
          else
            (case outp of
               None \<Rightarrow> (int (length der), None, 0)
             | Some None \<Rightarrow> (int (length der), Some (Some der), 0)
             | Some (Some mem) \<Rightarrow>
                 (int (length der), Some (Some (der @ drop (length der) mem)), length der)))"

end
