(* ===== verification/ConstTime.thy ===== *)
theory ConstTime
  imports Prelude
begin

text \<open>
  The constant-time helpers of \<^verbatim>\<open>crypto/internal.h\<close> on 64-bit words: comparisons as
  all-ones or all-zeros masks and selection by a mask. Each is shown to be the comparison or the
  choice it stands for.
\<close>

definition value_barrier_w :: "u64 \<Rightarrow> u64" where
  "value_barrier_w a = a"

definition constant_time_msb_w :: "u64 \<Rightarrow> u64" where
  "constant_time_msb_w a = 0 - drop_bit (8 * 8 - 1) a"

definition constant_time_lt_w :: "u64 \<Rightarrow> u64 \<Rightarrow> u64" where
  "constant_time_lt_w a b = constant_time_msb_w (a XOR ((a XOR b) OR ((a - b) XOR a)))"

definition constant_time_lt_8 :: "u64 \<Rightarrow> u64 \<Rightarrow> u8" where
  "constant_time_lt_8 a b = ucast (constant_time_lt_w a b)"

definition constant_time_ge_w :: "u64 \<Rightarrow> u64 \<Rightarrow> u64" where
  "constant_time_ge_w a b = NOT (constant_time_lt_w a b)"

definition constant_time_ge_8 :: "u64 \<Rightarrow> u64 \<Rightarrow> u8" where
  "constant_time_ge_8 a b = ucast (constant_time_ge_w a b)"

definition constant_time_is_zero_w :: "u64 \<Rightarrow> u64" where
  "constant_time_is_zero_w a = constant_time_msb_w (NOT a AND (a - 1))"

definition constant_time_is_zero_8 :: "u64 \<Rightarrow> u8" where
  "constant_time_is_zero_8 a = ucast (constant_time_is_zero_w a)"

definition constant_time_eq_w :: "u64 \<Rightarrow> u64 \<Rightarrow> u64" where
  "constant_time_eq_w a b = constant_time_is_zero_w (a XOR b)"

definition constant_time_eq_8 :: "u64 \<Rightarrow> u64 \<Rightarrow> u8" where
  "constant_time_eq_8 a b = ucast (constant_time_eq_w a b)"

definition constant_time_select_w :: "u64 \<Rightarrow> u64 \<Rightarrow> u64 \<Rightarrow> u64" where
  "constant_time_select_w m a b = (value_barrier_w m AND a) OR (value_barrier_w (NOT m) AND b)"

definition constant_time_select_8 :: "u8 \<Rightarrow> u8 \<Rightarrow> u8 \<Rightarrow> u8" where
  "constant_time_select_8 m a b = ucast (constant_time_select_w (ucast m) (ucast a) (ucast b))"

section \<open>What they compute\<close>

lemma bit_top_u64: "bit (a :: u64) 63 \<longleftrightarrow> 2 ^ 63 \<le> unat a"
proof -
  have "bit a 63 \<longleftrightarrow> odd (unat a div 2 ^ 63)"
    by (metis bit_iff_odd bit_unsigned_iff possible_bit_nat)
  moreover have "unat a div 2 ^ 63 < 2" using unat_u64_less [of a] by (intro less_mult_imp_div_less) simp
  ultimately show ?thesis by (auto simp: odd_iff_mod_2_eq_one less_2_cases_iff div_eq_0_iff not_less)
qed

lemma constant_time_msb_w_eq: "constant_time_msb_w a = (if bit a 63 then - 1 else 0)"
proof -
  have u: "unat (drop_bit 63 a) = unat a div 2 ^ 63" by (simp only: unat_drop_bit_word)
  have "drop_bit 63 a = (if bit a 63 then 1 else 0)"
  proof (cases "bit a 63")
    case True
    then have "2 ^ 63 \<le> unat a" by (simp only: bit_top_u64)
    then have "unat a div 2 ^ 63 = 1" using unat_u64_less [of a] by (intro div_nat_eqI) auto
    then show ?thesis using True u by (simp only: word_unat_eq_iff) simp
  next
    case False
    then have "unat a div 2 ^ 63 = 0" by (simp only: bit_top_u64 div_eq_0_iff not_le) simp
    then show ?thesis using False u by (simp only: word_unat_eq_iff) simp
  qed
  then show ?thesis by (simp add: constant_time_msb_w_def)
qed

lemma constant_time_lt_w_eq [simp]: "constant_time_lt_w a b = (if a < b then - 1 else 0)"
proof -
  have s: "unat (a - b) = (if unat b \<le> unat a then unat a - unat b else 2 ^ 64 + unat a - unat b)"
    by (auto simp: unat_sub_if_size word_size)
  have "bit (a XOR ((a XOR b) OR ((a - b) XOR a))) 63 \<longleftrightarrow>
      (if bit a 63 = bit b 63 then bit (a - b) 63 else bit b 63)"
    by (auto simp: bit_simps)
  also have "\<dots> \<longleftrightarrow> a < b"
    using unat_u64_less [of a] unat_u64_less [of b]
    by (auto simp: bit_top_u64 s word_less_nat_alt)
  finally show ?thesis by (simp add: constant_time_lt_w_def constant_time_msb_w_eq)
qed

lemma constant_time_is_zero_w_eq [simp]: "constant_time_is_zero_w a = (if a = 0 then - 1 else 0)"
proof -
  have "bit (NOT a AND (a - 1)) 63 \<longleftrightarrow> \<not> bit a 63 \<and> bit (a - 1) 63" by (simp add: bit_simps)
  also have "\<dots> \<longleftrightarrow> a = 0"
  proof (cases "a = 0")
    case False
    then have "unat (a - 1) = unat a - 1" by (simp add: unat_minus_one)
    then show ?thesis using False by (auto simp: bit_top_u64)
  qed (simp add: bit_simps)
  finally show ?thesis by (simp add: constant_time_is_zero_w_def constant_time_msb_w_eq)
qed

lemma constant_time_eq_w_eq [simp]: "constant_time_eq_w a b = (if a = b then - 1 else 0)"
proof -
  have "a XOR b = 0 \<longleftrightarrow> a = b" by (auto simp: bit_eq_iff bit_simps)
  then show ?thesis by (simp add: constant_time_eq_w_def)
qed

lemma ucast_minus_1_u8: "(ucast (- 1 :: u64) :: u8) = 0xff"
  by (simp add: word_unat_eq_iff unat_ucast8 unsigned_minus_1_eq_mask mask_eq_exp_minus_1)

lemma constant_time_8_eq [simp]:
  "constant_time_lt_8 a b = (if a < b then 0xff else 0)"
  "constant_time_ge_8 a b = (if b \<le> a then 0xff else 0)"
  "constant_time_is_zero_8 a = (if a = 0 then 0xff else 0)"
  "constant_time_eq_8 a b = (if a = b then 0xff else 0)"
  by (auto simp: constant_time_lt_8_def constant_time_ge_8_def constant_time_ge_w_def
      constant_time_is_zero_8_def constant_time_eq_8_def ucast_minus_1_u8)

lemma constant_time_ge_w_eq [simp]: "constant_time_ge_w a b = (if b \<le> a then - 1 else 0)"
  by (auto simp: constant_time_ge_w_def)

lemma constant_time_select_w_eq [simp]:
  "constant_time_select_w (- 1) a b = a" "constant_time_select_w 0 a b = b"
  by (simp_all add: constant_time_select_w_def value_barrier_w_def)

lemma constant_time_select_8_eq [simp]:
  "constant_time_select_8 0xff a b = a" "constant_time_select_8 0 a b = b"
proof -
  have m: "(0xff :: u64) = mask 8" by (simp add: mask_eq_exp_minus_1)
  show "constant_time_select_8 0xff a b = a"
    unfolding constant_time_select_8_def constant_time_select_w_def value_barrier_w_def
    by (rule bit_eqI) (simp add: m bit_simps)
  show "constant_time_select_8 0 a b = b"
    unfolding constant_time_select_8_def constant_time_select_w_def value_barrier_w_def
    by (rule bit_eqI) (simp add: bit_simps)
qed

end
