(* ===== verification/Base64.thy ===== *)
theory Base64
  imports ConstTime
begin

text \<open>
  \<^verbatim>\<open>crypto/base64/base64.c\<close>: the block encoder and decoder and the streaming ones over
  \<open>EVP_ENCODE_CTX\<close>. An output pointer is the list of the bytes written from it on.
  The theorems relate the code to the base-64 digits of the data, show that the streaming
  functions depend only on the concatenation of their inputs, and that decoding inverts encoding.
\<close>

section \<open>The code\<close>

definition constant_time_lt_args_8 :: "u8 \<Rightarrow> u8 \<Rightarrow> u8" where
  "constant_time_lt_args_8 a b =
     (let aw = ucast a :: u64; bw = ucast b :: u64 in ucast (constant_time_msb_w (aw - bw)))"

definition constant_time_in_range_8 :: "u8 \<Rightarrow> u8 \<Rightarrow> u8 \<Rightarrow> u8" where
  "constant_time_in_range_8 a lo hi =
     (let a = a - lo in constant_time_lt_args_8 a (hi - lo + 1))"

definition conv_bin2ascii :: "u8 \<Rightarrow> u8" where
  "conv_bin2ascii a =
     (let a = a AND 0x3f;
          ret = constant_time_select_8 (constant_time_eq_8 (ucast a) 62) 43 47;
          ret = constant_time_select_8 (constant_time_lt_args_8 a 62) (a - 52 + 48) ret;
          ret = constant_time_select_8 (constant_time_lt_args_8 a 52) (a - 26 + 97) ret;
          ret = constant_time_select_8 (constant_time_lt_args_8 a 26) (a + 65) ret
      in ret)"

definition EVP_EncodedLength :: "nat \<Rightarrow> nat option" where
  "EVP_EncodedLength len =
     (if (len + 2) mod SIZE_MOD < len then None
      else
        let len = (len + 2) mod SIZE_MOD div 3
        in if (len * 4 mod SIZE_MOD) div 4 \<noteq> len then None
           else
             let len = len * 4 mod SIZE_MOD
             in if (len + 1) mod SIZE_MOD < len then None
                else Some ((len + 1) mod SIZE_MOD))"

record EVP_ENCODE_CTX =
  data_used :: nat
  cdata :: "u8 list"
  eof_seen :: bool
  error_encountered :: bool

text \<open>\<open>sizeof(ctx->data)\<close>, and the write of some bytes into a buffer at an offset.\<close>

definition DATA_SIZE :: nat where
  "DATA_SIZE = 48"

definition write_at :: "u8 list \<Rightarrow> nat \<Rightarrow> u8 list \<Rightarrow> u8 list" where
  "write_at buf off bs = take off buf @ bs @ drop (off + length bs) buf"

definition EVP_EncodeInit :: EVP_ENCODE_CTX where
  "EVP_EncodeInit = \<lparr>data_used = 0, cdata = replicate DATA_SIZE 0, eof_seen = False, error_encountered = False\<rparr>"

text \<open>The encoding loop, without the terminating NUL.\<close>

fun encode_loop :: "u8 list \<Rightarrow> u8 list" where
  "encode_loop [] = []"
| "encode_loop [a] =
     (let l = push_bit 16 (ucast a) :: u32
      in [conv_bin2ascii (ucast (drop_bit 18 l)), conv_bin2ascii (ucast (drop_bit 12 l)), 61, 61])"
| "encode_loop [a, b] =
     (let l = push_bit 16 (ucast a) OR push_bit 8 (ucast b) :: u32
      in [conv_bin2ascii (ucast (drop_bit 18 l)), conv_bin2ascii (ucast (drop_bit 12 l)),
          conv_bin2ascii (ucast (drop_bit 6 l)), 61])"
| "encode_loop (a # b # c # src) =
     (let l = push_bit 16 (ucast a) OR push_bit 8 (ucast b) OR ucast c :: u32
      in [conv_bin2ascii (ucast (drop_bit 18 l)), conv_bin2ascii (ucast (drop_bit 12 l)),
          conv_bin2ascii (ucast (drop_bit 6 l)), conv_bin2ascii (ucast l)] @ encode_loop src)"

text \<open>The bytes written, the NUL included, and the returned length.\<close>

definition EVP_EncodeBlock :: "u8 list \<Rightarrow> u8 list \<times> nat" where
  "EVP_EncodeBlock src = (let out = encode_loop src in (out @ [0], length out))"

text \<open>
  The loop over whole blocks. The state is the output so far (a NUL follows it when it is not
  empty) and the total; the loop gives up when the total wraps around.
\<close>

function encode_blocks :: "u8 list \<Rightarrow> nat \<Rightarrow> u8 list \<Rightarrow> u8 list \<times> (nat \<times> u8 list) option" where
  "encode_blocks out tot inp =
     (if DATA_SIZE \<le> length inp then
        let (blk, encoded) = EVP_EncodeBlock (take DATA_SIZE inp);
            out = out @ take encoded blk @ [10]
        in if (tot + encoded + 1) mod SIZE_MOD < tot then (out, None)
           else encode_blocks out ((tot + encoded + 1) mod SIZE_MOD) (drop DATA_SIZE inp)
      else (out, Some (tot, inp)))"
  by pat_completeness auto
termination by (relation "measure (\<lambda>(_, _, inp). length inp)") (auto simp: DATA_SIZE_def)

declare encode_blocks.simps [simp del]

definition nul :: "u8 list \<Rightarrow> u8 list" where
  "nul out = (if out = [] then [] else out @ [0])"

text \<open>The result: the context, \<open>*out_len\<close> and the bytes written to \<open>out\<close>.\<close>

definition EVP_EncodeUpdate :: "EVP_ENCODE_CTX \<Rightarrow> u8 list \<Rightarrow> EVP_ENCODE_CTX \<times> nat \<times> u8 list" where
  "EVP_EncodeUpdate ctx inp =
     (if length inp = 0 then (ctx, 0, [])
      else if DATA_SIZE - data_used ctx > length inp then
        (ctx\<lparr>cdata := write_at (cdata ctx) (data_used ctx) inp, data_used := data_used ctx + length inp\<rparr>, 0, [])
      else
        let (ctx, out, tot, inp) =
          (if data_used ctx \<noteq> 0 then
             let todo = DATA_SIZE - data_used ctx;
                 ctx = ctx\<lparr>cdata := write_at (cdata ctx) (data_used ctx) (take todo inp)\<rparr>;
                 (blk, encoded) = EVP_EncodeBlock (cdata ctx)
             in (ctx\<lparr>data_used := 0\<rparr>, take encoded blk @ [10], encoded + 1, drop todo inp)
           else (ctx, [], 0, inp))
        in case encode_blocks out tot inp of
             (out, None) \<Rightarrow> (ctx, 0, nul out)
           | (out, Some (tot, inp)) \<Rightarrow>
               let ctx = (if length inp \<noteq> 0 then ctx\<lparr>cdata := write_at (cdata ctx) 0 inp\<rparr> else ctx);
                   ctx = ctx\<lparr>data_used := length inp\<rparr>;
                   tot = (if tot > INT_MAX then 0 else tot)
               in (ctx, tot, nul out))"

definition EVP_EncodeFinal :: "EVP_ENCODE_CTX \<Rightarrow> EVP_ENCODE_CTX \<times> nat \<times> u8 list" where
  "EVP_EncodeFinal ctx =
     (if data_used ctx = 0 then (ctx, 0, [])
      else
        let (blk, encoded) = EVP_EncodeBlock (take (data_used ctx) (cdata ctx));
            out = write_at blk encoded [10] @ [0]
        in (ctx\<lparr>data_used := 0\<rparr>, encoded + 1, out))"

definition EVP_DecodedLength :: "nat \<Rightarrow> nat option" where
  "EVP_DecodedLength len = (if len mod 4 \<noteq> 0 then None else Some (len div 4 * 3))"

definition EVP_DecodeInit :: EVP_ENCODE_CTX where
  "EVP_DecodeInit = \<lparr>data_used = 0, cdata = replicate DATA_SIZE 0, eof_seen = False, error_encountered = False\<rparr>"

definition base64_ascii_to_bin :: "u8 \<Rightarrow> u8" where
  "base64_ascii_to_bin a =
     (let is_upper = constant_time_in_range_8 a 65 90;
          is_lower = constant_time_in_range_8 a 97 122;
          is_digit = constant_time_in_range_8 a 48 57;
          is_plus = constant_time_eq_8 (ucast a) 43;
          is_slash = constant_time_eq_8 (ucast a) 47;
          is_equals = constant_time_eq_8 (ucast a) 61;
          ret = 0xff;
          ret = constant_time_select_8 is_upper (a - 65) ret;
          ret = constant_time_select_8 is_lower (a - 97 + 26) ret;
          ret = constant_time_select_8 is_digit (a - 48 + 52) ret;
          ret = constant_time_select_8 is_plus 62 ret;
          ret = constant_time_select_8 is_slash 63 ret;
          ret = constant_time_select_8 is_equals 0 ret
      in ret)"

text \<open>The bytes of one quad, one to three of them; \<open>None\<close> is a return of 0.\<close>

definition base64_decode_quad :: "u8 \<Rightarrow> u8 \<Rightarrow> u8 \<Rightarrow> u8 \<Rightarrow> u8 list option" where
  "base64_decode_quad in0 in1 in2 in3 =
     (let a = base64_ascii_to_bin in0; b = base64_ascii_to_bin in1;
          c = base64_ascii_to_bin in2; d = base64_ascii_to_bin in3
      in if a = 0xff \<or> b = 0xff \<or> c = 0xff \<or> d = 0xff then None
         else
           let v = push_bit 18 (ucast a) OR push_bit 12 (ucast b) OR push_bit 6 (ucast c) OR ucast d :: u32;
               eq = (\<lambda>ch. if ch = 61 then 1 else 0 :: nat);
               padding_pattern = eq in0 * 8 + eq in1 * 4 + eq in2 * 2 + eq in3
           in if padding_pattern = 0 then
                Some [ucast (drop_bit 16 v), ucast (drop_bit 8 v), ucast v]
              else if padding_pattern = 1 then
                Some [ucast (drop_bit 16 v), ucast (drop_bit 8 v)]
              else if padding_pattern = 3 then Some [ucast (drop_bit 16 v)]
              else None)"

definition is_blank :: "u8 \<Rightarrow> bool" where
  "is_blank c \<longleftrightarrow> c = 32 \<or> c = 9 \<or> c = 13 \<or> c = 10"

text \<open>
  The loop of \<open>EVP_DecodeUpdate\<close>: \<open>None\<close> is the early return of \<open>-1\<close>; the bytes written until then
  are the last component.
\<close>

fun decode_loop :: "EVP_ENCODE_CTX \<Rightarrow> u8 list \<Rightarrow> u8 list \<Rightarrow> EVP_ENCODE_CTX \<times> bool \<times> u8 list" where
  "decode_loop ctx out [] = (ctx, True, out)"
| "decode_loop ctx out (c # inp) =
     (if is_blank c then decode_loop ctx out inp
      else if eof_seen ctx then (ctx\<lparr>error_encountered := True\<rparr>, False, out)
      else
        let ctx = ctx\<lparr>cdata := write_at (cdata ctx) (data_used ctx) [c], data_used := data_used ctx + 1\<rparr>
        in if data_used ctx = 4 then
             (case base64_decode_quad (cdata ctx ! 0) (cdata ctx ! 1) (cdata ctx ! 2) (cdata ctx ! 3) of
                None \<Rightarrow> (ctx\<lparr>error_encountered := True\<rparr>, False, out)
              | Some bs \<Rightarrow>
                  let ctx = ctx\<lparr>data_used := 0\<rparr>;
                      ctx = (if length bs < 3 then ctx\<lparr>eof_seen := True\<rparr> else ctx)
                  in decode_loop ctx (out @ bs) inp)
           else decode_loop ctx out inp)"

text \<open>The result: the return value, the context, \<open>*out_len\<close> and the bytes written.\<close>

definition EVP_DecodeUpdate :: "EVP_ENCODE_CTX \<Rightarrow> u8 list \<Rightarrow> int \<times> EVP_ENCODE_CTX \<times> nat \<times> u8 list" where
  "EVP_DecodeUpdate ctx inp =
     (if error_encountered ctx then (- 1, ctx, 0, [])
      else case decode_loop ctx [] inp of
        (ctx, False, out) \<Rightarrow> (- 1, ctx, 0, out)
      | (ctx, True, out) \<Rightarrow>
          if length out > INT_MAX then (- 1, ctx\<lparr>error_encountered := True\<rparr>, 0, out)
          else (if eof_seen ctx then 0 else 1, ctx, length out, out))"

definition EVP_DecodeFinal :: "EVP_ENCODE_CTX \<Rightarrow> int" where
  "EVP_DecodeFinal ctx = (if error_encountered ctx \<or> data_used ctx \<noteq> 0 then - 1 else 1)"

fun decode_quads :: "u8 list \<Rightarrow> u8 list \<Rightarrow> bool \<times> u8 list" where
  "decode_quads out (a # b # c # d # inp) =
     (case base64_decode_quad a b c d of
        None \<Rightarrow> (False, out)
      | Some bs \<Rightarrow>
          if length bs \<noteq> 3 \<and> inp \<noteq> [] then (False, out @ bs)
          else decode_quads (out @ bs) inp)"
| "decode_quads out inp = (True, out)"

text \<open>The result: the return value, \<open>*out_len\<close> and the bytes written.\<close>

definition EVP_DecodeBase64 :: "nat \<Rightarrow> u8 list \<Rightarrow> bool \<times> nat \<times> u8 list" where
  "EVP_DecodeBase64 max_out inp =
     (if length inp mod 4 \<noteq> 0 then (False, 0, [])
      else case EVP_DecodedLength (length inp) of
        None \<Rightarrow> (False, 0, [])
      | Some max_len \<Rightarrow>
          if max_out < max_len then (False, 0, [])
          else case decode_quads [] inp of
            (False, out) \<Rightarrow> (False, 0, out)
          | (True, out) \<Rightarrow> (True, length out, out))"

definition EVP_DecodeBlock :: "u8 list \<Rightarrow> int \<times> u8 list" where
  "EVP_DecodeBlock src =
     (let src = dropWhile (\<lambda>c. c = 32 \<or> c = 9) src;
          src = rev (dropWhile is_blank (rev src))
      in case EVP_DecodedLength (length src) of
           None \<Rightarrow> (- 1, [])
         | Some dst_len \<Rightarrow>
             if dst_len > INT_MAX then (- 1, [])
             else case EVP_DecodeBase64 dst_len src of
               (False, _, out) \<Rightarrow> (- 1, out)
             | (True, dst_len, out) \<Rightarrow>
                 let pad = (3 - dst_len mod 3) mod 3
                 in (int (dst_len + pad), out @ replicate pad 0))"

section \<open>The alphabet\<close>

lemma unat_sub_u8: "unat (a - b :: u8) = (if unat b \<le> unat a then unat a - unat b else 256 + unat a - unat b)"
  by (auto simp: unat_sub_if_size word_size)

lemma constant_time_lt_args_8_eq [simp]:
  "constant_time_lt_args_8 a b = (if a < b then 0xff else 0)"
proof -
  have "unat (ucast a - ucast b :: u64) = (if unat b \<le> unat a then unat a - unat b else 2 ^ 64 + unat a - unat b)"
    by (auto simp: unat_sub_if_size word_size unat_u8_64)
  then have "bit (ucast a - ucast b :: u64) 63 \<longleftrightarrow> a < b"
    using unat_u8_less [of a] unat_u8_less [of b] by (auto simp: bit_top_u64 word_less_nat_alt)
  then show ?thesis
    by (simp add: constant_time_lt_args_8_def constant_time_msb_w_eq ucast_minus_1_u8)
qed

lemma constant_time_in_range_8_eq:
  assumes "unat lo \<le> unat hi" "unat hi < 255"
  shows "constant_time_in_range_8 a lo hi = (if unat lo \<le> unat a \<and> unat a \<le> unat hi then 0xff else 0)"
proof -
  have "unat (hi - lo + 1) = unat hi - unat lo + 1"
    using assms by (auto simp: unat_word_ariths unat_sub_u8)
  then have "a - lo < hi - lo + 1 \<longleftrightarrow> unat lo \<le> unat a \<and> unat a \<le> unat hi"
    using assms unat_u8_less [of a] unat_u8_less [of hi] by (auto simp: word_less_nat_alt unat_sub_u8)
  then show ?thesis by (simp add: constant_time_in_range_8_def)
qed

text \<open>The alphabet of RFC 4648, and the value of a character (\<open>=\<close> counts as zero).\<close>

definition b64_digit :: "nat \<Rightarrow> u8" where
  "b64_digit n = byte (if n < 26 then 65 + n else if n < 52 then 97 + (n - 26)
     else if n < 62 then 48 + (n - 52) else if n = 62 then 43 else 47)"

lemma unat_b64_digit: "unat (b64_digit n) = (if n < 26 then 65 + n else if n < 52 then 97 + (n - 26)
     else if n < 62 then 48 + (n - 52) else if n = 62 then 43 else 47)"
  by (auto simp: b64_digit_def)

lemma conv_bin2ascii_eq: "conv_bin2ascii a = b64_digit (unat a mod 64)"
proof -
  define c where "c = a AND 0x3f"
  have c: "unat c = unat a mod 64"
    using unat_and_mask [of a 6] by (simp add: c_def mask_eq_exp_minus_1)
  then have l: "unat c < 64" by simp
  show ?thesis
    using l unfolding conv_bin2ascii_def Let_def c_def [symmetric] c [symmetric]
    by (auto simp: unat_u8_64 word_less_nat_alt word_unat_eq_iff unat_b64_digit unat_word_ariths unat_sub_u8)
qed

lemma base64_ascii_to_bin_eq:
  "unat (base64_ascii_to_bin a) =
     (let n = unat a in
      if 65 \<le> n \<and> n \<le> 90 then n - 65 else if 97 \<le> n \<and> n \<le> 122 then n - 97 + 26
      else if 48 \<le> n \<and> n \<le> 57 then n - 48 + 52 else if n = 43 then 62 else if n = 47 then 63
      else if n = 61 then 0 else 255)"
proof -
  have e: "(ucast a :: u64) = numeral k \<longleftrightarrow> unat a = unat (numeral k :: u64)" for k
    by (simp add: word_unat_eq_iff unat_u8_64)
  show ?thesis
    using unat_u8_less [of a] unfolding base64_ascii_to_bin_def Let_def
    by (auto simp: e constant_time_in_range_8_eq unat_word_ariths unat_sub_u8)
qed

lemma base64_ascii_to_bin_digit [simp]: "n < 64 \<Longrightarrow> base64_ascii_to_bin (b64_digit n) = byte n"
  by (auto simp: word_unat_eq_iff base64_ascii_to_bin_eq unat_b64_digit Let_def)

lemma b64_digit_not_blank [simp]: "b64_digit n \<noteq> 61" "\<not> is_blank (b64_digit n)"
  by (auto simp: word_unat_eq_iff unat_b64_digit is_blank_def split: if_splits)

lemma base64_ascii_to_bin_cases:
  obtains (none) "base64_ascii_to_bin a = 0xff" | (padding) "a = 61" "base64_ascii_to_bin a = 0"
  | (digit) n where "n < 64" "a = b64_digit n" "base64_ascii_to_bin a = byte n"
proof -
  let ?n = "unat a"
  have v: thesis if "n < 64" "?n = unat (b64_digit n)" for n
  proof -
    have "a = b64_digit n" using that(2) by (simp only: word_unat_eq_iff)
    then show ?thesis using that(1) digit by simp
  qed
  consider "65 \<le> ?n" "?n \<le> 90" | "97 \<le> ?n" "?n \<le> 122" | "48 \<le> ?n" "?n \<le> 57" | "?n = 43" | "?n = 47" | "?n = 61"
    | "\<not> (65 \<le> ?n \<and> ?n \<le> 90)" "\<not> (97 \<le> ?n \<and> ?n \<le> 122)" "\<not> (48 \<le> ?n \<and> ?n \<le> 57)" "?n \<noteq> 43" "?n \<noteq> 47" "?n \<noteq> 61"
    by linarith
  then show ?thesis
  proof cases
    case 1 then show ?thesis by (intro v [of "?n - 65"]) (auto simp: unat_b64_digit)
  next
    case 2 then show ?thesis by (intro v [of "?n - 97 + 26"]) (auto simp: unat_b64_digit)
  next
    case 3 then show ?thesis by (intro v [of "?n - 48 + 52"]) (auto simp: unat_b64_digit)
  next
    case 4 then show ?thesis by (intro v [of 62]) (auto simp: unat_b64_digit)
  next
    case 5 then show ?thesis by (intro v [of 63]) (auto simp: unat_b64_digit)
  next
    case 6 then show ?thesis by (intro padding) (simp_all add: word_unat_eq_iff base64_ascii_to_bin_eq)
  next
    case 7 then show ?thesis by (intro none) (auto simp: word_unat_eq_iff base64_ascii_to_bin_eq Let_def)
  qed
qed

section \<open>Quads\<close>

text \<open>
  Three bytes are one number below \<open>2\<^sup>24\<close>, written as four digits; \<open>quad\<close> and \<open>triple\<close> are the
  two ways to write it.
\<close>

definition quad :: "nat \<Rightarrow> u8 list" where
  "quad l = [b64_digit (l div 2 ^ 18 mod 64), b64_digit (l div 2 ^ 12 mod 64),
             b64_digit (l div 2 ^ 6 mod 64), b64_digit (l mod 64)]"

definition triple :: "nat \<Rightarrow> u8 list" where
  "triple v = [byte (v div 65536 mod 256), byte (v div 256 mod 256), byte (v mod 256)]"

lemma mod_256_64: "(x mod 256) mod 64 = x mod (64 :: nat)"
  by (simp add: mod_mod_cancel)

lemma conv_quad:
  "[conv_bin2ascii (ucast (drop_bit 18 l)), conv_bin2ascii (ucast (drop_bit 12 l)),
    conv_bin2ascii (ucast (drop_bit 6 l)), conv_bin2ascii (ucast (l :: u32))] = quad (unat l)"
  unfolding quad_def conv_bin2ascii_eq unat_ucast8 unat_drop_bit_word mod_256_64 by simp

lemma unat_three_bytes:
  fixes a b c :: u8
  shows "unat (push_bit 16 (ucast a) OR push_bit 8 (ucast b) OR ucast c :: u32)
    = 65536 * unat a + 256 * unat b + unat c"
proof -
  have i: "unat (push_bit 8 (ucast b) OR ucast c :: u32) = unat b * 2 ^ 8 + unat c"
    using unat_u8_less [of b] unat_u8_less [of c] by (subst unat_shift_or) (simp_all add: unat_u8_32)
  show ?thesis
    using unat_u8_less [of a] unat_u8_less [of b] unat_u8_less [of c]
    by (subst unat_shift_or) (simp_all only: i unat_u8_32, simp_all)
qed

lemmas unat_two_bytes = unat_three_bytes [where c = 0, simplified]
lemmas unat_one_byte = unat_two_bytes [where b = 0, simplified]

lemma encode_loop_eq:
  "encode_loop (a # b # c # src) = quad (65536 * unat a + 256 * unat b + unat c) @ encode_loop src"
  "encode_loop [a, b] = take 3 (quad (65536 * unat a + 256 * unat b)) @ [61]"
  "encode_loop [a] = take 2 (quad (65536 * unat a)) @ [61, 61]"
proof -
  show "encode_loop (a # b # c # src) = quad (65536 * unat a + 256 * unat b + unat c) @ encode_loop src"
    unfolding unat_three_bytes [symmetric] conv_quad [symmetric] by (simp add: Let_def)
  show "encode_loop [a, b] = take 3 (quad (65536 * unat a + 256 * unat b)) @ [61]"
    unfolding unat_two_bytes [symmetric] conv_quad [symmetric] by (simp add: Let_def)
  show "encode_loop [a] = take 2 (quad (65536 * unat a)) @ [61, 61]"
    unfolding unat_one_byte [symmetric] conv_quad [symmetric] by (simp add: Let_def)
qed

declare encode_loop.simps(2-4) [simp del]

lemma length_quad [simp]: "length (quad l) = 4"
  by (simp add: quad_def)

lemma length_triple [simp]: "length (triple l) = 3"
  by (simp add: triple_def)

lemma triple_bytes: "triple (65536 * unat a + 256 * unat b + unat c) = [a, b, c]"
proof -
  have "x div 65536 mod 256 = a" "x div 256 mod 256 = b" "x mod 256 = c"
    if "x = 65536 * a + 256 * b + c" "a < 256" "b < 256" "c < 256" for x a b c :: nat
  proof -
    have x: "x = 256 * (256 * a + b) + c" using that by simp
    have d: "x div 256 = 256 * a + b" using that by (simp add: x)
    then have "x div 65536 = (256 * a + b) div 256"
      by (simp add: div_mult2_eq [of x 256 256, simplified])
    then show "x div 65536 mod 256 = a" "x div 256 mod 256 = b"
      using that d by simp_all
    show "x mod 256 = c"
      using that(4) by (simp only: x mod_mult_self4 mod_less)
  qed
  then show ?thesis
    using unat_u8_less [of a] unat_u8_less [of b] unat_u8_less [of c]
    by (auto simp: triple_def intro!: byte_eqI [OF sym])
qed

section \<open>Decoding a quad\<close>

lemma unat_four_digits:
  assumes "p < 64" "q < 64" "r < 64" "s < 64"
  shows "unat (push_bit 18 (ucast (byte p)) OR push_bit 12 (ucast (byte q)) OR push_bit 6 (ucast (byte r))
      OR ucast (byte s) :: u32) = 2 ^ 18 * p + 2 ^ 12 * q + 2 ^ 6 * r + s"
proof -
  have i: "unat (push_bit 6 (ucast (byte r)) OR ucast (byte s) :: u32) = r * 2 ^ 6 + s"
    using assms by (subst unat_shift_or) (simp_all add: unat_u8_32)
  have j: "unat (push_bit 12 (ucast (byte q)) OR push_bit 6 (ucast (byte r)) OR ucast (byte s) :: u32)
      = q * 2 ^ 12 + (r * 2 ^ 6 + s)"
    using assms by (subst unat_shift_or) (simp_all only: i unat_u8_32, simp_all)
  show ?thesis
    using assms by (subst unat_shift_or) (simp_all only: j unat_u8_32, simp_all)
qed

definition dval :: "u8 \<Rightarrow> nat" where
  "dval a = unat (base64_ascii_to_bin a)"

lemma dval_simps [simp]: "n < 64 \<Longrightarrow> dval (b64_digit n) = n" "dval 61 = 0"
  by (auto simp: dval_def base64_ascii_to_bin_eq)

lemma base64_decode_quad_eq:
  assumes "dval a < 64" "dval b < 64" "dval c < 64" "dval d < 64"
  shows "base64_decode_quad a b c d =
    (let v = triple (2 ^ 18 * dval a + 2 ^ 12 * dval b + 2 ^ 6 * dval c + dval d)
     in if a = 61 \<or> b = 61 then None
        else if c = 61 then (if d = 61 then Some (take 1 v) else None)
        else if d = 61 then Some (take 2 v) else Some v)"
proof -
  define v where "v = 2 ^ 18 * dval a + 2 ^ 12 * dval b + 2 ^ 6 * dval c + dval d"
  have ne: "base64_ascii_to_bin x \<noteq> 0xff" "byte (dval x) = base64_ascii_to_bin x" if "dval x < 64" for x
    using that by (auto simp: dval_def)
  define w :: u32 where "w = push_bit 18 (ucast (base64_ascii_to_bin a)) OR
      push_bit 12 (ucast (base64_ascii_to_bin b)) OR push_bit 6 (ucast (base64_ascii_to_bin c))
      OR ucast (base64_ascii_to_bin d)"
  have w: "unat w = v"
    using unat_four_digits [OF assms] ne(2) assms by (simp add: w_def v_def)
  have "unat (drop_bit 16 w) = v div 65536" "unat (drop_bit 8 w) = v div 256"
    using w by (simp_all only: unat_drop_bit_word) simp_all
  then have t: "[ucast (drop_bit 16 w), ucast (drop_bit 8 w), ucast w] = triple v"
    using w by (auto simp: triple_def unat_ucast8 intro!: byte_eqI [symmetric])
  show ?thesis
    using ne(1) [OF assms(1)] ne(1) [OF assms(2)] ne(1) [OF assms(3)] ne(1) [OF assms(4)]
    unfolding base64_decode_quad_def Let_def w_def [symmetric] v_def [symmetric] t [symmetric]
    by auto
qed

lemma base64_decode_quad_None:
  "64 \<le> dval a \<or> 64 \<le> dval b \<or> 64 \<le> dval c \<or> 64 \<le> dval d \<Longrightarrow> base64_decode_quad a b c d = None"
proof -
  have "base64_ascii_to_bin x = 0xff" if "64 \<le> dval x" for x
    by (rule base64_ascii_to_bin_cases [of x]) (use that in \<open>auto simp: dval_def\<close>)
  then show "64 \<le> dval a \<or> 64 \<le> dval b \<or> 64 \<le> dval c \<or> 64 \<le> dval d \<Longrightarrow> ?thesis"
    by (auto simp: base64_decode_quad_def Let_def)
qed

lemma b64_dval: "dval a < 64 \<Longrightarrow> a \<noteq> 61 \<Longrightarrow> b64_digit (dval a) = a"
  by (rule base64_ascii_to_bin_cases [of a]) (auto simp: dval_def)

section \<open>Blocks\<close>

lemma length_encode_loop: "length (encode_loop xs) = 4 * ((length xs + 2) div 3)"
proof (induction xs rule: encode_loop.induct)
  case (4 a b c src)
  have "(5 + length src) div 3 = (length src + 2) div 3 + 1" by presburger
  then show ?case using 4 by (simp add: encode_loop_eq add.commute)
qed (simp_all add: encode_loop_eq)

lemma encode_loop_not_blank: "\<forall>c \<in> set (encode_loop xs). \<not> is_blank c"
proof -
  have q: "\<forall>c \<in> set (quad l). \<not> is_blank c" for l by (simp add: quad_def)
  have "\<not> is_blank 61" by (simp add: is_blank_def)
  then show ?thesis
    using q by (induction xs rule: encode_loop.induct) (auto simp: encode_loop_eq dest: in_set_takeD)
qed

lemma quad_value: "l < 2 ^ 24 \<Longrightarrow>
    2 ^ 18 * (l div 2 ^ 18 mod 64) + 2 ^ 12 * (l div 2 ^ 12 mod 64) + 2 ^ 6 * (l div 2 ^ 6 mod 64) + l mod 64 = (l :: nat)"
proof -
  assume l: "l < 2 ^ 24"
  have a: "l div 2 ^ 18 mod 64 = l div 2 ^ 18" using l by (simp add: less_mult_imp_div_less)
  have b: "64 * (l div 2 ^ 18) + l div 2 ^ 12 mod 64 = l div 2 ^ 12"
    using mult_div_mod_eq [of 64 "l div 2 ^ 12"] by (simp add: div_mult2_eq [symmetric])
  have c: "64 * (l div 2 ^ 12) + l div 2 ^ 6 mod 64 = l div 2 ^ 6"
    using mult_div_mod_eq [of 64 "l div 2 ^ 6"] by (simp add: div_mult2_eq [symmetric])
  have "2 ^ 18 * p + 2 ^ 12 * q + 2 ^ 6 * r + s = l" if "64 * p + q = x" "64 * x + r = y" "64 * y + s = l" for p q r s x y
    using that by simp
  from this [OF b c, of "l mod 64"] show ?thesis unfolding a by simp
qed

lemma decode_quad_quad:
  "l < 2 ^ 24 \<Longrightarrow> quad l = [a, b, c, d] \<Longrightarrow> base64_decode_quad a b c d = Some (triple l)"
  "l < 2 ^ 24 \<Longrightarrow> l mod 64 = 0 \<Longrightarrow> quad l = [a, b, c, d] \<Longrightarrow>
    base64_decode_quad a b c 61 = Some (take 2 (triple l))"
  "l < 2 ^ 24 \<Longrightarrow> l mod 2 ^ 12 = 0 \<Longrightarrow> quad l = [a, b, c, d] \<Longrightarrow>
    base64_decode_quad a b 61 61 = Some (take 1 (triple l))"
proof -
  assume l: "l < 2 ^ 24" and q: "quad l = [a, b, c, d]"
  have abcd: "a = b64_digit (l div 2 ^ 18 mod 64)" "b = b64_digit (l div 2 ^ 12 mod 64)"
      "c = b64_digit (l div 2 ^ 6 mod 64)" "d = b64_digit (l mod 64)"
    using q by (auto simp: quad_def)
  note v = quad_value [OF l]
  have digits: "base64_decode_quad (b64_digit p) (b64_digit q) (b64_digit r) (b64_digit s) = Some (triple w)"
    "s = 0 \<Longrightarrow> base64_decode_quad (b64_digit p) (b64_digit q) (b64_digit r) 61 = Some (take 2 (triple w))"
    "r = 0 \<Longrightarrow> s = 0 \<Longrightarrow> base64_decode_quad (b64_digit p) (b64_digit q) 61 61 = Some (take 1 (triple w))"
    if "2 ^ 18 * p + 2 ^ 12 * q + 2 ^ 6 * r + s = w" "p < 64" "q < 64" "r < 64" "s < 64" for p q r s w
    using that by (simp_all add: base64_decode_quad_eq Let_def)
  have m: "x mod 64 < (64 :: nat)" for x by simp
  note digits = digits [OF v m m m m, folded abcd]
  show "base64_decode_quad a b c d = Some (triple l)" by (rule digits(1))
  show "base64_decode_quad a b c 61 = Some (take 2 (triple l))" if "l mod 64 = 0"
    using that by (rule digits(2))
  show "base64_decode_quad a b 61 61 = Some (take 1 (triple l))" if "l mod 2 ^ 12 = 0"
    using that mod_mult2_eq [of l 64 64] by (intro digits(3)) simp_all
qed

lemma three_bytes_less: "65536 * unat (a :: u8) + 256 * unat (b :: u8) + unat (c :: u8) < 2 ^ 24"
  using unat_u8_less [of a] unat_u8_less [of b] unat_u8_less [of c] by simp

lemma quad_list: obtains a b c d where "quad l = [a, b, c, d]"
  by (simp add: quad_def)

lemma decode_quads_encode: "decode_quads out (encode_loop xs) = (True, out @ xs)"
proof (induction xs arbitrary: out rule: encode_loop.induct)
  case (2 a)
  have t: "triple (65536 * unat a) = [a, 0, 0]" using triple_bytes [of a 0 0] by simp
  have l: "65536 * unat a < 2 ^ 24" using three_bytes_less [of a 0 0] by simp
  have m: "65536 * unat a mod 2 ^ 12 = 0"
    using mod_mult_self1_is_0 [of "2 ^ 12" "16 * unat a"] by simp
  obtain p q r s where q: "quad (65536 * unat a) = [p, q, r, s]" by (rule quad_list)
  have "base64_decode_quad p q 61 61 = Some [a]"
    using decode_quad_quad(3) [OF l m q] by (simp add: t)
  then show ?case by (simp add: encode_loop_eq q)
next
  case (3 a b)
  have t: "triple (65536 * unat a + 256 * unat b) = [a, b, 0]" using triple_bytes [of a b 0] by simp
  have l: "65536 * unat a + 256 * unat b < 2 ^ 24" using three_bytes_less [of a b 0] by simp
  have m: "(65536 * unat a + 256 * unat b) mod 64 = 0"
    using mod_mult_self1_is_0 [of 64 "1024 * unat a + 4 * unat b"] by (simp add: algebra_simps)
  obtain p q r s where q: "quad (65536 * unat a + 256 * unat b) = [p, q, r, s]" by (rule quad_list)
  have "base64_decode_quad p q r 61 = Some [a, b]"
    using decode_quad_quad(2) [OF l m q] by (simp add: t)
  then show ?case by (simp add: encode_loop_eq q)
next
  case (4 a b c src)
  show ?case
    by (rule quad_list [of "65536 * unat a + 256 * unat b + unat c"])
      (simp add: encode_loop_eq(1) decode_quad_quad(1) [OF three_bytes_less] triple_bytes 4)
qed simp

lemma EVP_EncodedLength_eq:
  assumes "len < 2 ^ 64"
  shows "EVP_EncodedLength len =
    (if 4 * ((len + 2) div 3) < 2 ^ 64 then Some (4 * ((len + 2) div 3) + 1) else None)"
proof (cases "len + 2 < 2 ^ 64")
  case False
  then have "(len + 2) mod SIZE_MOD < len" "\<not> 4 * ((len + 2) div 3) < 2 ^ 64"
    using assms by (auto simp: SIZE_MOD_def mod_if)
  then show ?thesis by (simp add: EVP_EncodedLength_def)
next
  case True
  define m where "m = (len + 2) div 3"
  have m: "(4 * m) mod SIZE_MOD div 4 = m \<longleftrightarrow> 4 * m < 2 ^ 64"
  proof
    assume "4 * m mod SIZE_MOD div 4 = m"
    moreover have "4 * m mod SIZE_MOD div 4 < 2 ^ 62" by (simp add: SIZE_MOD_def less_mult_imp_div_less)
    ultimately show "4 * m < 2 ^ 64" by simp
  qed (simp add: SIZE_MOD_def)
  have "4 * m + 1 < 2 ^ 64" if "4 * m < 2 ^ 64"
  proof -
    from that have "m < 2 ^ 62" by simp
    then show ?thesis by simp
  qed
  then have o: "4 * m < 2 ^ 64 \<Longrightarrow> (4 * m + 1) mod SIZE_MOD = 4 * m + 1 \<and> 4 * m mod SIZE_MOD = 4 * m"
    by (simp only: SIZE_MOD_def mod_less)
  have t: "(len + 2) mod SIZE_MOD = len + 2" using True by (simp add: SIZE_MOD_def)
  have e: "EVP_EncodedLength len =
    (if 4 * m mod SIZE_MOD div 4 \<noteq> m then None
     else if (4 * m mod SIZE_MOD + 1) mod SIZE_MOD < 4 * m mod SIZE_MOD then None
     else Some ((4 * m mod SIZE_MOD + 1) mod SIZE_MOD))"
    unfolding EVP_EncodedLength_def t Let_def m_def [symmetric] by (simp add: mult.commute)
  show ?thesis
    unfolding e m_def [symmetric] m using o by (cases "4 * m < 2 ^ 64") simp_all
qed

lemma EVP_DecodeBase64_encode:
  "3 * ((length xs + 2) div 3) \<le> max_out \<Longrightarrow>
    EVP_DecodeBase64 max_out (encode_loop xs) = (True, length xs, xs)"
  by (simp add: EVP_DecodeBase64_def EVP_DecodedLength_def length_encode_loop decode_quads_encode mult.commute)

text \<open>Trimming leaves the middle of the line.\<close>

lemma trim_block:
  assumes "\<forall>c \<in> set pre. c = 32 \<or> c = 9" "\<forall>c \<in> set post. is_blank c" "\<forall>c \<in> set body. \<not> is_blank c"
    and "body \<noteq> []"
  shows "rev (dropWhile is_blank (rev (dropWhile (\<lambda>c. c = 32 \<or> c = 9) (pre @ body @ post)))) = body"
proof -
  have "dropWhile (\<lambda>c. c = 32 \<or> c = 9) (pre @ body @ post) = body @ post"
    using assms(1,3,4) by (cases body) (auto simp: dropWhile_append2 is_blank_def)
  moreover have "dropWhile is_blank (rev post @ rev body) = dropWhile is_blank (rev body)"
    using assms(2) by (intro dropWhile_append2) auto
  moreover have "dropWhile is_blank (rev body) = rev body"
    using assms(3,4) by (cases body rule: rev_cases) auto
  ultimately show ?thesis by simp
qed

lemma round_up_3:
  "(3 - n mod 3) mod 3 = 3 * ((n + 2) div 3) - n" "n \<le> 3 * ((n + 2) div 3)" "3 * ((n + 2) div 3) \<le> n + (2 :: nat)"
proof -
  obtain q r where n: "n = 3 * q + r" and "r < 3"
    by (metis mult_div_mod_eq mod_less_divisor zero_less_numeral)
  then have r: "r = 0 \<or> r = 1 \<or> r = 2" by auto
  show "(3 - n mod 3) mod 3 = 3 * ((n + 2) div 3) - n" "n \<le> 3 * ((n + 2) div 3)" "3 * ((n + 2) div 3) \<le> n + 2"
    using r by (auto simp: n)
qed

lemma EVP_DecodeBlock_encode:
  assumes "\<forall>c \<in> set pre. c = 32 \<or> c = 9" "\<forall>c \<in> set post. is_blank c" "xs \<noteq> []" "length xs + 2 \<le> INT_MAX"
  shows "EVP_DecodeBlock (pre @ encode_loop xs @ post) =
    (int (3 * ((length xs + 2) div 3)), xs @ replicate (3 * ((length xs + 2) div 3) - length xs) 0)"
proof -
  have ne: "encode_loop xs \<noteq> []"
    using assms(3) length_encode_loop [of xs] by (cases xs) auto
  define L where "L = (length xs + 2) div 3"
  have pad: "(3 - length xs mod 3) mod 3 = 3 * L - length xs" and L: "length xs \<le> 3 * L" "3 * L \<le> length xs + 2"
    unfolding L_def by (rule round_up_3)+
  have d: "EVP_DecodedLength (length (encode_loop xs)) = Some (3 * L)"
    by (simp add: EVP_DecodedLength_def length_encode_loop L_def)
  have e: "EVP_DecodeBase64 (3 * L) (encode_loop xs) = (True, length xs, xs)"
    by (rule EVP_DecodeBase64_encode) (simp add: L_def)
  have "\<not> 3 * L > INT_MAX" using L assms(4) by linarith
  then show ?thesis
    unfolding EVP_DecodeBlock_def trim_block [OF assms(1,2) encode_loop_not_blank ne] Let_def d L_def [symmetric]
    using L by (simp add: e pad)
qed

section \<open>The streaming encoder\<close>

text \<open>The lines that are complete, and what is left for the next one.\<close>

function full_lines :: "u8 list \<Rightarrow> u8 list" where
  "full_lines xs =
     (if length xs < DATA_SIZE then []
      else encode_loop (take DATA_SIZE xs) @ [10] @ full_lines (drop DATA_SIZE xs))"
  by pat_completeness auto
termination by (relation "measure length") (auto simp: DATA_SIZE_def)

declare full_lines.simps [simp del]

definition leftover :: "u8 list \<Rightarrow> u8 list" where
  "leftover xs = drop (DATA_SIZE * (length xs div DATA_SIZE)) xs"

definition enc_lines :: "u8 list \<Rightarrow> u8 list" where
  "enc_lines xs = full_lines xs @ (if leftover xs = [] then [] else encode_loop (leftover xs) @ [10])"

lemma leftover_short [simp]: "length xs < DATA_SIZE \<Longrightarrow> leftover xs = xs"
  by (simp add: leftover_def)

lemma leftover_step: "DATA_SIZE \<le> length xs \<Longrightarrow> leftover xs = leftover (drop DATA_SIZE xs)"
  by (simp add: leftover_def DATA_SIZE_def le_div_geq add.commute)

lemma length_leftover: "length (leftover xs) = length xs mod DATA_SIZE"
  by (simp add: leftover_def minus_mult_div_eq_mod)

lemma length_leftover_less [simp]: "length (leftover xs) < DATA_SIZE"
  by (simp add: length_leftover DATA_SIZE_def)

lemma full_lines_append:
  "full_lines (xs @ ys) = full_lines xs @ full_lines (leftover xs @ ys)"
  "leftover (xs @ ys) = leftover (leftover xs @ ys)"
proof (induction xs rule: full_lines.induct)
  case (1 xs)
  have *: "full_lines (xs @ ys) = full_lines xs @ full_lines (leftover xs @ ys) \<and>
      leftover (xs @ ys) = leftover (leftover xs @ ys)"
  proof (cases "length xs < DATA_SIZE")
    case True
    then show ?thesis by (simp add: full_lines.simps [of xs])
  next
    case False
    then show ?thesis
      using 1 by (simp add: full_lines.simps [of xs] full_lines.simps [of "xs @ ys"] leftover_step)
  qed
  case 1 from * show ?case by simp
  case 2 from * show ?case by simp
qed

lemma length_full_lines: "length (full_lines xs) = 65 * (length xs div DATA_SIZE)"
proof (induction xs rule: full_lines.induct)
  case (1 xs)
  then show ?case
    by (cases "length xs < DATA_SIZE")
      (simp_all add: full_lines.simps [of xs] length_encode_loop DATA_SIZE_def le_div_geq)
qed

lemma encode_blocks_eq:
  "tot + length (full_lines inp) < 2 ^ 64 \<Longrightarrow>
    encode_blocks out tot inp = (out @ full_lines inp, Some (tot + length (full_lines inp), leftover inp))"
proof (induction out tot inp rule: encode_blocks.induct)
  case (1 out tot inp)
  show ?case
  proof (cases "DATA_SIZE \<le> length inp")
    case True
    let ?e = "encode_loop (take DATA_SIZE inp)" and ?r = "full_lines (drop DATA_SIZE inp)"
    have f: "full_lines inp = ?e @ [10] @ ?r"
      using True by (subst full_lines.simps) simp
    with 1(2) have b: "tot + length ?e + 1 + length ?r < SIZE_MOD" by (simp add: SIZE_MOD_def)
    then have m: "(tot + length ?e + 1) mod SIZE_MOD = tot + length ?e + 1" by simp
    have b': "tot + length ?e + 1 + length ?r < 2 ^ 64" using b by (simp only: SIZE_MOD_def)
    note ih = 1(1) [OF True, unfolded EVP_EncodeBlock_def Let_def, OF refl refl refl, unfolded m, OF _ b']
    show ?thesis
      using True ih b'
      by (subst encode_blocks.simps)
        (simp add: EVP_EncodeBlock_def Let_def m [simplified] m f leftover_step)
  qed (simp add: encode_blocks.simps [of out] full_lines.simps [of inp])
qed

text \<open>A context that holds the bytes \<open>p\<close> back.\<close>

definition enc_rep :: "EVP_ENCODE_CTX \<Rightarrow> u8 list \<Rightarrow> bool" where
  "enc_rep ctx p \<longleftrightarrow> length (cdata ctx) = DATA_SIZE \<and> data_used ctx = length p \<and> length p < DATA_SIZE
     \<and> take (length p) (cdata ctx) = p"

lemma enc_rep_init [simp]: "enc_rep EVP_EncodeInit []"
  by (simp add: enc_rep_def EVP_EncodeInit_def DATA_SIZE_def)

lemma length_write_at [simp]: "off + length bs \<le> length buf \<Longrightarrow> length (write_at buf off bs) = length buf"
  by (simp add: write_at_def)

lemma take_write_at [simp]: "off + length bs \<le> length buf \<Longrightarrow> take (off + length bs) (write_at buf off bs) = take off buf @ bs"
  by (simp add: write_at_def)

lemma enc_rep_write:
  assumes "enc_rep ctx p" "length p + length bs < DATA_SIZE"
  shows "enc_rep (ctx\<lparr>cdata := write_at (cdata ctx) (length p) bs, data_used := length p + length bs\<rparr>) (p @ bs)"
  using assms take_write_at [of "length p" bs "cdata ctx"]
  by (auto simp: enc_rep_def simp del: take_write_at)

lemma EVP_EncodeUpdate_rep:
  assumes r: "enc_rep ctx p" and le: "length (full_lines (p @ inp)) \<le> INT_MAX"
  obtains ctx' out where "EVP_EncodeUpdate ctx inp = (ctx', length (full_lines (p @ inp)), out)"
    and "enc_rep ctx' (leftover (p @ inp))" and "take (length (full_lines (p @ inp))) out = full_lines (p @ inp)"
proof (cases "inp = [] \<or> length p + length inp < DATA_SIZE")
  case True
  then have f: "full_lines (p @ inp) = []" "leftover (p @ inp) = p @ inp"
    using r by (auto simp: full_lines.simps [of "p @ inp"] full_lines.simps [of p] enc_rep_def)
  show ?thesis
  proof (cases "inp = []")
    case True
    then show ?thesis using r f by (intro that [of ctx "[]"]) (simp_all add: EVP_EncodeUpdate_def)
  next
    case False
    with True have l: "length p + length inp < DATA_SIZE" by simp
    then show ?thesis
      using r f False enc_rep_write [OF r l] by (intro that) (auto simp: EVP_EncodeUpdate_def enc_rep_def)
  qed
next
  case False
  then have big: "DATA_SIZE \<le> length p + length inp" and ne: "inp \<noteq> []" by simp_all
  let ?todo = "DATA_SIZE - length p"
  have p: "data_used ctx = length p" "length p < DATA_SIZE" "length (cdata ctx) = DATA_SIZE" "take (length p) (cdata ctx) = p"
    using r by (auto simp: enc_rep_def)
  define F where "F = full_lines (p @ inp)"
  have F: "length F < 2 ^ 64" using le by (simp add: F_def INT_MAX_def)
  have nF: "F \<noteq> []" using big by (simp add: F_def full_lines.simps [of "p @ inp"])
  obtain ctx1 out1 inp1 where first:
      "(if data_used ctx \<noteq> 0 then
          let todo = DATA_SIZE - data_used ctx;
              ctx = ctx\<lparr>cdata := write_at (cdata ctx) (data_used ctx) (take todo inp)\<rparr>;
              (blk, encoded) = EVP_EncodeBlock (cdata ctx)
          in (ctx\<lparr>data_used := 0\<rparr>, take encoded blk @ [10], encoded + 1, drop todo inp)
        else (ctx, [], 0, inp)) = (ctx1, out1, length out1, inp1)"
    and len1: "length (cdata ctx1) = DATA_SIZE"
    and F1: "F = out1 @ full_lines inp1" and L1: "leftover (p @ inp) = leftover inp1"
  proof (cases "p = []")
    case True
    then show ?thesis using p by (intro that [of ctx "[]" inp]) (simp_all add: F_def)
  next
    case False
    let ?c = "write_at (cdata ctx) (length p) (take ?todo inp)"
    have "?c = take DATA_SIZE ?c" using p big by simp
    also have "\<dots> = p @ take ?todo inp"
      using p big take_write_at [of "length p" "take ?todo inp" "cdata ctx"] by simp
    finally have c: "?c = p @ take ?todo inp" .
    have tk: "take DATA_SIZE (p @ inp) = p @ take ?todo inp" "drop DATA_SIZE (p @ inp) = drop ?todo inp"
      using p by simp_all
    have "F = encode_loop ?c @ [10] @ full_lines (drop ?todo inp)"
      unfolding F_def c using big tk by (subst full_lines.simps) simp
    moreover have "leftover (p @ inp) = leftover (drop ?todo inp)"
      using big tk leftover_step [of "p @ inp"] by simp
    ultimately show ?thesis
      using False p big
      by (intro that [of "ctx\<lparr>cdata := ?c, data_used := 0\<rparr>" "encode_loop ?c @ [10]" "drop ?todo inp"])
        (simp_all add: EVP_EncodeBlock_def Let_def)
  qed
  have blocks: "encode_blocks out1 (length out1) inp1 = (F, Some (length F, leftover inp1))"
    using F F1 by (subst encode_blocks_eq) simp_all
  let ?l = "leftover inp1"
  let ?ctx = "(if length ?l \<noteq> 0 then ctx1\<lparr>cdata := write_at (cdata ctx1) 0 ?l\<rparr> else ctx1)\<lparr>data_used := length ?l\<rparr>"
  have c2: "\<not> DATA_SIZE - data_used ctx > length inp" using big p(1) by linarith
  have "EVP_EncodeUpdate ctx inp = (?ctx, length F, nul F)"
    unfolding EVP_EncodeUpdate_def first
    using ne c2 le by (simp add: blocks F_def [symmetric])
  moreover have "enc_rep ?ctx (leftover (p @ inp))"
    using len1 less_imp_le [OF length_leftover_less [of inp1]] take_write_at [of 0 ?l "cdata ctx1"]
    unfolding L1 by (auto simp: enc_rep_def)
  moreover have "take (length F) (nul F) = F" using nF by (simp add: nul_def)
  ultimately show ?thesis unfolding F_def by (rule that)
qed

text \<open>A client that feeds the chunks one after the other and keeps what each call reports.\<close>

fun encode_chunks :: "EVP_ENCODE_CTX \<Rightarrow> u8 list list \<Rightarrow> u8 list" where
  "encode_chunks ctx [] = (let (_, n, out) = EVP_EncodeFinal ctx in take n out)"
| "encode_chunks ctx (c # cs) =
     (let (ctx, n, out) = EVP_EncodeUpdate ctx c in take n out @ encode_chunks ctx cs)"

lemma EVP_EncodeFinal_rep:
  "enc_rep ctx p \<Longrightarrow> EVP_EncodeFinal ctx =
    (ctx\<lparr>data_used := 0\<rparr>, if p = [] then 0 else length (encode_loop p) + 1,
     if p = [] then [] else encode_loop p @ [10, 0])"
  by (auto simp: EVP_EncodeFinal_def enc_rep_def EVP_EncodeBlock_def write_at_def Let_def)

lemma encode_chunks_rep:
  assumes "enc_rep ctx p" "\<forall>c \<in> set cs. length c \<le> 2 ^ 30"
  shows "encode_chunks ctx cs = enc_lines (p @ concat cs)"
  using assms
proof (induction cs arbitrary: ctx p)
  case Nil
  have "length p < DATA_SIZE" using Nil by (simp add: enc_rep_def)
  then show ?case
    by (simp add: EVP_EncodeFinal_rep [OF Nil(1)] enc_lines_def full_lines.simps [of p])
next
  case (Cons c cs)
  have l: "length (full_lines (p @ c)) \<le> INT_MAX"
  proof -
    have "length p < DATA_SIZE" using Cons.prems(1) by (simp add: enc_rep_def)
    then have "length p + length c \<le> 48 + 2 ^ 30" using Cons.prems(2) by (simp add: DATA_SIZE_def)
    then have "(length p + length c) div 48 \<le> (48 + 2 ^ 30) div 48" by (rule div_le_mono)
    then show ?thesis by (simp add: length_full_lines DATA_SIZE_def INT_MAX_def)
  qed
  obtain ctx' out where u: "EVP_EncodeUpdate ctx c = (ctx', length (full_lines (p @ c)), out)"
    and r: "enc_rep ctx' (leftover (p @ c))" and t: "take (length (full_lines (p @ c))) out = full_lines (p @ c)"
    using EVP_EncodeUpdate_rep [OF Cons.prems(1) l] by blast
  show ?case
    using Cons.IH [OF r] Cons.prems(2) full_lines_append [of "p @ c" "concat cs"]
    by (simp add: u t enc_lines_def)
qed

lemma filter_not_blank_lines: "filter (\<lambda>c. \<not> is_blank c) (enc_lines xs) = encode_loop xs"
proof -
  have enc: "filter (\<lambda>c. \<not> is_blank c) (encode_loop ys) = encode_loop ys" for ys
    using encode_loop_not_blank [of ys] by (auto simp: filter_id_conv)
  have nl: "is_blank 10" by (simp add: is_blank_def)
  have app: "encode_loop (ys @ zs) = encode_loop ys @ encode_loop zs" if "length ys mod 3 = 0" for ys zs
    using that by (induction ys rule: encode_loop.induct) (simp_all add: encode_loop_eq(1))
  have full: "filter (\<lambda>c. \<not> is_blank c) (full_lines xs) @ encode_loop (leftover xs) = encode_loop xs"
  proof (induction xs rule: full_lines.induct)
    case (1 xs)
    show ?case
    proof (cases "length xs < DATA_SIZE")
      case False
      then have "encode_loop xs = encode_loop (take DATA_SIZE xs) @ encode_loop (drop DATA_SIZE xs)"
        using app [of "take DATA_SIZE xs" "drop DATA_SIZE xs"] by (simp add: DATA_SIZE_def)
      then show ?thesis
        using False 1 by (simp add: full_lines.simps [of xs] enc nl leftover_step)
    qed (simp add: full_lines.simps [of xs])
  qed
  show ?thesis using full by (auto simp: enc_lines_def enc nl)
qed

section \<open>The streaming decoder\<close>

lemma decode_loop_append:
  "decode_loop ctx out (xs @ ys) =
    (case decode_loop ctx out xs of (ctx, True, out) \<Rightarrow> decode_loop ctx out ys | r \<Rightarrow> r)"
  by (induction xs arbitrary: ctx out) (simp_all add: Let_def split: option.split)

lemma decode_loop_blanks: "decode_loop ctx out xs = decode_loop ctx out (filter (\<lambda>c. \<not> is_blank c) xs)"
  by (induction xs arbitrary: ctx out) (simp_all add: Let_def split: option.split)

lemma decode_quad_length: "base64_decode_quad p q r s = Some bs \<Longrightarrow> 1 \<le> length bs \<and> length bs \<le> 3"
  using base64_decode_quad_None [of p q r s]
  by (cases "dval p < 64 \<and> dval q < 64 \<and> dval r < 64 \<and> dval s < 64")
    (auto simp: base64_decode_quad_eq Let_def split: if_splits)

lemma decode_loop_keeps:
  "decode_loop ctx out xs = (ctx', b, out') \<Longrightarrow> data_used ctx < 4 \<Longrightarrow>
    4 * length out' \<le> 4 * length out + 3 * data_used ctx + 3 * length xs \<and>
    (b \<longrightarrow> error_encountered ctx' = error_encountered ctx \<and> data_used ctx' < 4 \<and>
      4 * length out' + 3 * data_used ctx' \<le> 4 * length out + 3 * data_used ctx + 3 * length xs)"
proof (induction xs arbitrary: ctx out)
  case (Cons c xs)
  let ?ctx = "ctx\<lparr>cdata := write_at (cdata ctx) (data_used ctx) [c], data_used := data_used ctx + 1\<rparr>"
  consider "is_blank c" | "\<not> is_blank c" "eof_seen ctx" | "\<not> is_blank c" "\<not> eof_seen ctx" "data_used ctx + 1 < 4"
    | "\<not> is_blank c" "\<not> eof_seen ctx" "data_used ctx = 3"
    using Cons.prems(2) by linarith
  then show ?case
  proof cases
    case 1
    then show ?thesis using Cons.IH [of ctx out] Cons.prems by auto
  next
    case 2
    then show ?thesis using Cons.prems by auto
  next
    case 3
    then show ?thesis using Cons.IH [of ?ctx out] Cons.prems by (auto simp: Let_def)
  next
    case 4
    show ?thesis
    proof (cases "base64_decode_quad (cdata ?ctx ! 0) (cdata ?ctx ! 1) (cdata ?ctx ! 2) (cdata ?ctx ! 3)")
      case None
      then show ?thesis using 4 Cons.prems by (auto simp: Let_def)
    next
      case (Some bs)
      let ?c0 = "?ctx\<lparr>data_used := 0\<rparr>"
      define c1 where "c1 = (if length bs < 3 then ?c0\<lparr>eof_seen := True\<rparr> else ?c0)"
      have c1: "data_used c1 = 0" "error_encountered c1 = error_encountered ctx" by (simp_all add: c1_def)
      have "decode_loop c1 (out @ bs) xs = (ctx', b, out')"
        unfolding c1_def
        using Some 4 Cons.prems(1) by (simp add: Let_def split: if_splits)
      from Cons.IH [OF this] show ?thesis
        using decode_quad_length [OF Some] 4 c1 by auto
    qed
  qed
qed auto

text \<open>A client of the decoder: it stops at a return of \<open>-1\<close>.\<close>

fun decode_chunks :: "EVP_ENCODE_CTX \<Rightarrow> u8 list list \<Rightarrow> u8 list option" where
  "decode_chunks ctx [] = (if EVP_DecodeFinal ctx = 1 then Some [] else None)"
| "decode_chunks ctx (c # cs) =
     (let (r, ctx, n, out) = EVP_DecodeUpdate ctx c
      in if r < 0 then None else map_option ((@) (take n out)) (decode_chunks ctx cs))"

definition stream_result :: "EVP_ENCODE_CTX \<times> bool \<times> u8 list \<Rightarrow> u8 list option" where
  "stream_result r = (case r of (ctx, ok, out) \<Rightarrow> if ok \<and> data_used ctx = 0 then Some out else None)"

lemma decode_loop_out: "decode_loop ctx out xs = (let (ctx, b, o') = decode_loop ctx [] xs in (ctx, b, out @ o'))"
proof (induction xs arbitrary: ctx out)
  case (Cons c xs)
  have s: "decode_loop ctx (out @ bs) xs = (let (ctx, b, o') = decode_loop ctx bs xs in (ctx, b, out @ o'))" for ctx bs
    using Cons [of ctx "out @ bs"] Cons [of ctx bs] by (simp add: split_beta Let_def)
  have s0: "decode_loop ctx out xs = (let (ctx, b, o') = decode_loop ctx [] xs in (ctx, b, out @ o'))" for ctx
    by (rule Cons)
  show ?case by (simp add: s s0 Let_def split_beta split: option.splits)
qed simp

lemma decode_chunks_eq:
  assumes "\<not> error_encountered ctx" "data_used ctx < 4" "\<forall>c \<in> set cs. length c \<le> INT_MAX"
  shows "decode_chunks ctx cs = stream_result (decode_loop ctx [] (concat cs))"
  using assms
proof (induction cs arbitrary: ctx)
  case Nil
  then show ?case by (simp add: EVP_DecodeFinal_def stream_result_def)
next
  case (Cons c cs)
  obtain ctx' b out where d: "decode_loop ctx [] c = (ctx', b, out)" by (metis prod_cases3)
  show ?case
  proof (cases b)
    case False
    then show ?thesis
      using Cons.prems d by (simp add: EVP_DecodeUpdate_def decode_loop_append stream_result_def)
  next
    case True
    note k = decode_loop_keeps [OF d Cons.prems(2)]
    have "length c \<le> INT_MAX" using Cons.prems(3) by simp
    then have "length out \<le> INT_MAX"
      using k Cons.prems(2) by (simp add: INT_MAX_def)
    moreover have "decode_loop ctx [] (concat (c # cs)) = (let (c2, b2, o2) = decode_loop ctx' [] (concat cs) in (c2, b2, out @ o2))"
      using d True decode_loop_out [of ctx' out] by (simp add: decode_loop_append)
    moreover have "decode_chunks ctx' cs = stream_result (decode_loop ctx' [] (concat cs))"
      using k True Cons.prems by (intro Cons.IH) auto
    ultimately show ?thesis
      using Cons.prems(1) d True by (simp add: EVP_DecodeUpdate_def stream_result_def Let_def split_beta)
  qed
qed

text \<open>A clean context decodes quads.\<close>

lemma write_at_update: "off < length buf \<Longrightarrow> write_at buf off [c] = buf[off := c]"
  by (simp add: write_at_def upd_conv_take_nth_drop)

lemma decode_loop_quads:
  assumes "\<forall>c \<in> set xs. \<not> is_blank c" "data_used ctx = 0" "length (cdata ctx) = DATA_SIZE"
    and "\<not> eof_seen ctx"
  shows "stream_result (decode_loop ctx out xs) =
    (let (ok, out) = decode_quads out xs in if ok \<and> length xs mod 4 = 0 then Some out else None)"
  using assms
proof (induction out xs arbitrary: ctx rule: decode_quads.induct)
  case (1 out a b c d inp)
  define ctx4 where "ctx4 = ctx\<lparr>cdata := ((((cdata ctx)[0 := a])[1 := b])[2 := c])[3 := d], data_used := 4\<rparr>"
  have len: "(0 :: nat) < length (cdata ctx)" "1 < length (cdata ctx)" "2 < length (cdata ctx)" "3 < length (cdata ctx)"
    using 1(4) by (simp_all add: DATA_SIZE_def)
  have nth: "cdata ctx4 ! 0 = a" "cdata ctx4 ! 1 = b" "cdata ctx4 ! 2 = c" "cdata ctx4 ! 3 = d"
    using len by (simp_all add: ctx4_def)
  have step: "decode_loop ctx out (a # b # c # d # inp) =
    (case base64_decode_quad a b c d of
       None \<Rightarrow> (ctx4\<lparr>error_encountered := True\<rparr>, False, out)
     | Some bs \<Rightarrow>
         let ctx = ctx4\<lparr>data_used := 0\<rparr>;
             ctx = (if length bs < 3 then ctx\<lparr>eof_seen := True\<rparr> else ctx)
         in decode_loop ctx (out @ bs) inp)"
    using 1(2,3,5) len nth by (simp add: Let_def write_at_update ctx4_def eval_nat_numeral split: option.splits)
  show ?case
  proof (cases "base64_decode_quad a b c d")
    case None
    then show ?thesis unfolding step by (simp add: stream_result_def)
  next
    case (Some bs)
    note bl = decode_quad_length [OF Some]
    show ?thesis
    proof (cases "length bs = 3")
      case True
      then show ?thesis
        using 1(1) [OF Some _, of "ctx4\<lparr>data_used := 0\<rparr>"] 1(2-5) Some bl
        unfolding step by (simp add: ctx4_def Let_def)
    next
      case False
      then show ?thesis
        using 1(2) Some bl unfolding step by (cases inp) (simp_all add: stream_result_def Let_def ctx4_def)
    qed
  qed
qed (simp_all add: stream_result_def Let_def)

lemma decode_chunks_decode:
  assumes "\<forall>c \<in> set cs. length c \<le> INT_MAX"
  shows "decode_chunks EVP_DecodeInit cs =
    (let inp = filter (\<lambda>c. \<not> is_blank c) (concat cs);
         (ok, n, out) = EVP_DecodeBase64 (length inp) inp
     in if ok then Some out else None)"
proof -
  let ?inp = "filter (\<lambda>c. \<not> is_blank c) (concat cs)"
  have "decode_chunks EVP_DecodeInit cs = stream_result (decode_loop EVP_DecodeInit [] ?inp)"
    using assms decode_loop_blanks [of EVP_DecodeInit "[]" "concat cs"]
    by (subst decode_chunks_eq) (simp_all add: EVP_DecodeInit_def)
  also have "\<dots> = (let (ok, out) = decode_quads [] ?inp in if ok \<and> length ?inp mod 4 = 0 then Some out else None)"
    by (rule decode_loop_quads) (simp_all add: EVP_DecodeInit_def)
  also have "\<dots> = (let (ok, n, out) = EVP_DecodeBase64 (length ?inp) ?inp in if ok then Some out else None)"
  proof -
    have "\<not> length ?inp < length ?inp div 4 * 3" by presburger
    then show ?thesis
      by (auto simp: EVP_DecodeBase64_def EVP_DecodedLength_def split: prod.splits bool.splits)
  qed
  finally show ?thesis by (simp add: Let_def)
qed

lemma decode_chunks_encode:
  assumes "\<forall>c \<in> set cs. length c \<le> INT_MAX" "concat cs = enc_lines xs"
  shows "decode_chunks EVP_DecodeInit cs = Some xs"
proof -
  have "length xs \<le> length (encode_loop xs)" "3 * ((length xs + 2) div 3) \<le> length (encode_loop xs)"
    by (simp_all add: length_encode_loop)
  then show ?thesis
    using assms by (simp add: decode_chunks_decode filter_not_blank_lines EVP_DecodeBase64_encode)
qed

end
