(* ===== verification/Stack.thy ===== *)
theory Stack
  imports SetOf
begin

text \<open>
  \<^verbatim>\<open>crypto/stack/stack.c\<close>: the pointer stack behind every \<open>STACK_OF(type)\<close>. A pointer is
  an option, \<open>None\<close> for NULL; a stack argument is an option as well. A comparison function is an
  opaque function pointer \<open>'f\<close> that only \<open>call_cmp_func\<close> can run, as in the source. The slots
  beyond \<open>num\<close> that a reallocation leaves uninitialised are \<open>None\<close> here; no operation reads
  them. The abstract value of a stack is the list of its first \<open>num\<close> slots.
\<close>

section \<open>The code\<close>

record ('f, 'a) STACK =
  snum :: nat
  sdata :: "'a option list"
  ssorted :: bool
  snum_alloc :: nat
  scomp :: "'f option"

definition kMinSize :: nat where
  "kMinSize = 4"

definition SIZEOF_STACK :: nat where
  "SIZEOF_STACK = 40"

definition sk_new :: "allocator \<Rightarrow> 'f option \<Rightarrow> ('f, 'a) STACK option" where
  "sk_new mal cmpf =
     (case OPENSSL_malloc mal SIZEOF_STACK of
        None \<Rightarrow> None
      | Some _ \<Rightarrow>
          (case OPENSSL_malloc mal (8 * kMinSize) of
             None \<Rightarrow> None
           | Some _ \<Rightarrow>
               Some \<lparr>snum = 0, sdata = replicate kMinSize None, ssorted = False, snum_alloc = kMinSize,
                     scomp = cmpf\<rparr>))"

definition sk_new_null :: "allocator \<Rightarrow> ('f, 'a) STACK option" where
  "sk_new_null mal = sk_new mal None"

definition sk_num :: "('f, 'a) STACK option \<Rightarrow> nat" where
  "sk_num sk = (case sk of None \<Rightarrow> 0 | Some s \<Rightarrow> snum s)"

definition sk_zero :: "('f, 'a) STACK option \<Rightarrow> ('f, 'a) STACK option" where
  "sk_zero sk =
     (case sk of
        None \<Rightarrow> None
      | Some s \<Rightarrow>
          if snum s = 0 then Some s
          else Some (s\<lparr>sdata := replicate (snum s) None @ drop (snum s) (sdata s), snum := 0, ssorted := False\<rparr>))"

definition sk_value :: "('f, 'a) STACK option \<Rightarrow> nat \<Rightarrow> 'a option" where
  "sk_value sk i = (case sk of None \<Rightarrow> None | Some s \<Rightarrow> if i \<ge> snum s then None else sdata s ! i)"

definition sk_set :: "('f, 'a) STACK option \<Rightarrow> nat \<Rightarrow> 'a option \<Rightarrow> 'a option \<times> ('f, 'a) STACK option" where
  "sk_set sk i v =
     (case sk of
        None \<Rightarrow> (None, None)
      | Some s \<Rightarrow> if i \<ge> snum s then (None, Some s) else (v, Some (s\<lparr>sdata := (sdata s)[i := v]\<rparr>)))"

text \<open>The calls of the client's free function, threaded through the client's state.\<close>

definition free_each :: "('g \<Rightarrow> 'a \<Rightarrow> 's \<Rightarrow> 's) \<Rightarrow> 'g \<Rightarrow> 'a option list \<Rightarrow> 's \<Rightarrow> 's" where
  "free_each call_free_func free_func ps =
     fold (\<lambda>p s. case p of None \<Rightarrow> s | Some x \<Rightarrow> call_free_func free_func x s) ps"

definition sk_pop_free_ex :: "('f, 'a) STACK option \<Rightarrow> ('g \<Rightarrow> 'a \<Rightarrow> 's \<Rightarrow> 's) \<Rightarrow> 'g \<Rightarrow> 's \<Rightarrow> 's" where
  "sk_pop_free_ex sk call_free_func free_func st =
     (case sk of None \<Rightarrow> st | Some s \<Rightarrow> free_each call_free_func free_func (take (snum s) (sdata s)) st)"

definition sk_pop_free :: "('f, 'a) STACK option \<Rightarrow> ('a \<Rightarrow> 's \<Rightarrow> 's) \<Rightarrow> 's \<Rightarrow> 's" where
  "sk_pop_free sk free_func = sk_pop_free_ex sk (\<lambda>func ptr. func ptr) free_func"

definition realloc_ptrs :: "allocator \<Rightarrow> 'a option list \<Rightarrow> nat \<Rightarrow> nat \<Rightarrow> 'a option list option" where
  "realloc_ptrs mal old new_alloc alloc_size =
     (case OPENSSL_malloc mal alloc_size of
        None \<Rightarrow> None
      | Some _ \<Rightarrow> Some (take new_alloc old @ replicate (new_alloc - length old) None))"

text \<open>\<open>None\<close> is the return of 0 without a change.\<close>

definition sk_grow :: "allocator \<Rightarrow> ('f, 'a) STACK \<Rightarrow> ('f, 'a) STACK option" where
  "sk_grow mal s =
     (if snum_alloc s \<le> snum s + 1 then
        let new_alloc = snum_alloc s * 2 mod SIZE_MOD;
            alloc_size = new_alloc * 8 mod SIZE_MOD;
            (new_alloc, alloc_size) =
              (if new_alloc < snum_alloc s \<or> alloc_size div 8 \<noteq> new_alloc
               then ((snum_alloc s + 1) mod SIZE_MOD, (snum_alloc s + 1) mod SIZE_MOD * 8 mod SIZE_MOD)
               else (new_alloc, alloc_size))
        in if new_alloc < snum_alloc s \<or> alloc_size div 8 \<noteq> new_alloc then None
           else (case realloc_ptrs mal (sdata s) new_alloc alloc_size of
                   None \<Rightarrow> None
                 | Some d \<Rightarrow> Some (s\<lparr>sdata := d, snum_alloc := new_alloc\<rparr>))
      else Some s)"

definition sk_insert :: "allocator \<Rightarrow> ('f, 'a) STACK option \<Rightarrow> 'a option \<Rightarrow> nat \<Rightarrow> nat \<times> ('f, 'a) STACK option" where
  "sk_insert mal sk p idx =
     (case sk of
        None \<Rightarrow> (0, None)
      | Some s \<Rightarrow>
          (case sk_grow mal s of
             None \<Rightarrow> (0, Some s)
           | Some s \<Rightarrow>
               let d = (if idx \<ge> snum s then (sdata s)[snum s := p]
                        else take idx (sdata s) @ [p] @ take (snum s - idx) (drop idx (sdata s))
                               @ drop (snum s + 1) (sdata s))
               in (snum s + 1, Some (s\<lparr>sdata := d, snum := snum s + 1, ssorted := False\<rparr>))))"

definition sk_delete :: "('f, 'a) STACK option \<Rightarrow> nat \<Rightarrow> 'a option \<times> ('f, 'a) STACK option" where
  "sk_delete sk idx =
     (case sk of
        None \<Rightarrow> (None, None)
      | Some s \<Rightarrow>
          if idx \<ge> snum s then (None, Some s)
          else
            let ret = sdata s ! idx;
                d = (if idx \<noteq> snum s - 1
                     then take idx (sdata s) @ take (snum s - idx - 1) (drop (idx + 1) (sdata s))
                            @ drop (snum s - 1) (sdata s)
                     else sdata s)
            in (ret, Some (s\<lparr>sdata := d, snum := snum s - 1\<rparr>)))"

text \<open>A \<open>for\<close> loop that returns the index of the first element with a property.\<close>

fun first_from :: "('b \<Rightarrow> bool) \<Rightarrow> 'b list \<Rightarrow> nat \<Rightarrow> nat option" where
  "first_from P [] i = None"
| "first_from P (x # xs) i = (if P x then Some i else first_from P xs (Suc i))"

definition sk_delete_ptr :: "('f, 'a) STACK option \<Rightarrow> 'a option \<Rightarrow> 'a option \<times> ('f, 'a) STACK option" where
  "sk_delete_ptr sk p =
     (case sk of
        None \<Rightarrow> (None, None)
      | Some s \<Rightarrow>
          (case first_from (\<lambda>q. q = p) (take (snum s) (sdata s)) 0 of
             None \<Rightarrow> (None, Some s)
           | Some i \<Rightarrow> sk_delete (Some s) i))"

definition sk_is_sorted :: "('f, 'a) STACK option \<Rightarrow> bool" where
  "sk_is_sorted sk = (case sk of None \<Rightarrow> True | Some s \<Rightarrow> ssorted s)"

text \<open>The binary search; \<open>cmp\<close> compares the wanted pointer with an element.\<close>

function find_loop :: "('a option \<Rightarrow> int) \<Rightarrow> 'a option list \<Rightarrow> nat \<Rightarrow> nat \<Rightarrow> nat option" where
  "find_loop cmp d lo hi =
     (if lo < hi then
        let mid = lo + (hi - lo - 1) div 2; r = cmp (d ! mid)
        in if r > 0 then find_loop cmp d (mid + 1) hi
           else if r < 0 then find_loop cmp d lo mid
           else if hi - lo = 1 then Some mid
           else find_loop cmp d lo (mid + 1)
      else None)"
  by pat_completeness auto
termination by (relation "measure (\<lambda>(_, _, lo, hi). hi - lo)") auto

declare find_loop.simps [simp del]

type_synonym ('f, 'a) call_cmp = "'f \<Rightarrow> 'a option \<Rightarrow> 'a option \<Rightarrow> int"

text \<open>A return of 1 with \<open>*out_index\<close>, or a return of 0.\<close>

definition sk_find :: "('f, 'a) STACK option \<Rightarrow> 'a option \<Rightarrow> ('f, 'a) call_cmp \<Rightarrow> nat option" where
  "sk_find sk p call_cmp_func =
     (case sk of
        None \<Rightarrow> None
      | Some s \<Rightarrow>
          (case scomp s of
             None \<Rightarrow> first_from (\<lambda>q. q = p) (take (snum s) (sdata s)) 0
           | Some cmpf \<Rightarrow>
               if p = None then None
               else if \<not> sk_is_sorted sk then
                 first_from (\<lambda>elem. call_cmp_func cmpf p elem = 0) (take (snum s) (sdata s)) 0
               else find_loop (call_cmp_func cmpf p) (sdata s) 0 (snum s)))"

definition sk_shift :: "('f, 'a) STACK option \<Rightarrow> 'a option \<times> ('f, 'a) STACK option" where
  "sk_shift sk =
     (case sk of None \<Rightarrow> (None, None) | Some s \<Rightarrow> if snum s = 0 then (None, Some s) else sk_delete sk 0)"

definition sk_push :: "allocator \<Rightarrow> ('f, 'a) STACK option \<Rightarrow> 'a option \<Rightarrow> nat \<times> ('f, 'a) STACK option" where
  "sk_push mal sk p = sk_insert mal sk p (sk_num sk)"

definition sk_pop :: "('f, 'a) STACK option \<Rightarrow> 'a option \<times> ('f, 'a) STACK option" where
  "sk_pop sk =
     (case sk of None \<Rightarrow> (None, None) | Some s \<Rightarrow> if snum s = 0 then (None, Some s) else sk_delete sk (snum s - 1))"

definition sk_dup :: "allocator \<Rightarrow> ('f, 'a) STACK option \<Rightarrow> ('f, 'a) STACK option" where
  "sk_dup mal sk =
     (case sk of
        None \<Rightarrow> None
      | Some s \<Rightarrow>
          (case sk_new mal (scomp s) of
             None \<Rightarrow> None
           | Some ret \<Rightarrow>
               (case realloc_ptrs mal (sdata ret) (snum_alloc s) (8 * snum_alloc s mod SIZE_MOD) of
                  None \<Rightarrow> None
                | Some d \<Rightarrow>
                    Some (ret\<lparr>sdata := take (snum s) (sdata s) @ drop (snum s) d, snum := snum s,
                              ssorted := ssorted s, snum_alloc := snum_alloc s, scomp := scomp s\<rparr>))))"

type_synonym ('f, 'a) qsort = "('a option \<Rightarrow> 'a option \<Rightarrow> int) \<Rightarrow> 'a option list \<Rightarrow> 'a option list"

definition sk_sort :: "('f, 'a) call_cmp \<Rightarrow> ('f, 'a) qsort \<Rightarrow> ('f, 'a) STACK option \<Rightarrow> ('f, 'a) STACK option" where
  "sk_sort call_cmp_func qsort sk =
     (case sk of
        None \<Rightarrow> None
      | Some s \<Rightarrow>
          (case scomp s of
             None \<Rightarrow> Some s
           | Some cmpf \<Rightarrow>
               if ssorted s then Some s
               else
                 let d = (if snum s \<ge> 2
                          then qsort (call_cmp_func cmpf) (take (snum s) (sdata s)) @ drop (snum s) (sdata s)
                          else sdata s)
                 in Some (s\<lparr>sdata := d, ssorted := True\<rparr>)))"

definition sk_set_cmp_func :: "('f, 'a) STACK \<Rightarrow> 'f option \<Rightarrow> 'f option \<times> ('f, 'a) STACK" where
  "sk_set_cmp_func s cmpf =
     (let old = scomp s;
          s = (if scomp s \<noteq> cmpf then s\<lparr>ssorted := False\<rparr> else s)
      in (old, s\<lparr>scomp := cmpf\<rparr>))"

text \<open>The loop of \<open>sk_deep_copy\<close>: the copies so far, the rest, and the client's state.\<close>

fun deep_copy_loop :: "('c \<Rightarrow> 'a \<Rightarrow> 's \<Rightarrow> 'a option \<times> 's) \<Rightarrow> 'c \<Rightarrow> ('g \<Rightarrow> 'a \<Rightarrow> 's \<Rightarrow> 's) \<Rightarrow> 'g
    \<Rightarrow> 'a option list \<Rightarrow> 'a option list \<Rightarrow> 's \<Rightarrow> 'a option list option \<times> 's" where
  "deep_copy_loop call_copy copy_func call_free free_func copied [] st = (Some copied, st)"
| "deep_copy_loop call_copy copy_func call_free free_func copied (None # xs) st =
     deep_copy_loop call_copy copy_func call_free free_func (copied @ [None]) xs st"
| "deep_copy_loop call_copy copy_func call_free free_func copied (Some x # xs) st =
     (case call_copy copy_func x st of
        (None, st) \<Rightarrow> (None, free_each call_free free_func copied st)
      | (Some y, st) \<Rightarrow> deep_copy_loop call_copy copy_func call_free free_func (copied @ [Some y]) xs st)"

definition sk_deep_copy :: "allocator \<Rightarrow> ('f, 'a) STACK option \<Rightarrow> ('c \<Rightarrow> 'a \<Rightarrow> 's \<Rightarrow> 'a option \<times> 's) \<Rightarrow> 'c
    \<Rightarrow> ('g \<Rightarrow> 'a \<Rightarrow> 's \<Rightarrow> 's) \<Rightarrow> 'g \<Rightarrow> 's \<Rightarrow> ('f, 'a) STACK option \<times> 's" where
  "sk_deep_copy mal sk call_copy_func copy_func call_free_func free_func st =
     (case sk_dup mal sk of
        None \<Rightarrow> (None, st)
      | Some ret \<Rightarrow>
          (case deep_copy_loop call_copy_func copy_func call_free_func free_func []
                  (take (snum ret) (sdata ret)) st of
             (None, st) \<Rightarrow> (None, st)
           | (Some d, st) \<Rightarrow> (Some (ret\<lparr>sdata := d @ drop (snum ret) (sdata ret)\<rparr>), st)))"

section \<open>Contents and invariant\<close>

definition sk_list :: "('f, 'a) STACK \<Rightarrow> 'a option list" where
  "sk_list s = take (snum s) (sdata s)"

text \<open>There is always a free slot, and the array fits the address space.\<close>

definition sk_wf :: "('f, 'a) STACK \<Rightarrow> bool" where
  "sk_wf s \<longleftrightarrow> snum s < snum_alloc s \<and> length (sdata s) = snum_alloc s \<and> snum_alloc s < 2 ^ 60"

text \<open>The \<open>sorted\<close> flag tells the truth.\<close>

definition sk_flag :: "('f, 'a) call_cmp \<Rightarrow> ('f, 'a) STACK \<Rightarrow> bool" where
  "sk_flag run s \<longleftrightarrow> (ssorted s \<longrightarrow> (\<exists>f. scomp s = Some f \<and> cmp_sorted (run f) (sk_list s)))"

lemma length_sk_list [simp]: "sk_wf s \<Longrightarrow> length (sk_list s) = snum s"
  by (simp add: sk_list_def sk_wf_def)

lemma sk_new_wf: "sk_new mal f = Some s \<Longrightarrow> sk_wf s \<and> sk_list s = [] \<and> \<not> ssorted s \<and> scomp s = f"
  by (auto simp: sk_new_def sk_wf_def sk_list_def kMinSize_def split: option.splits)

lemma realloc_ptrs_Some:
  assumes "malloc_contract mal" "alloc_size + 8 < 2 ^ 64" "realloc_ptrs mal old new alloc_size = Some d" "length old \<le> new"
  shows "length d = new" "take (length old) d = old" "alloc_size < 2 ^ 63 - 8"
  using assms OPENSSL_malloc_length(2) [OF assms(1,2)]
  by (auto simp: realloc_ptrs_def split: option.splits)

lemma sk_grow_Some:
  assumes mal: "malloc_contract mal" and wf: "sk_wf s" and g: "sk_grow mal s = Some s'"
  shows "snum s' + 1 < snum_alloc s'" "length (sdata s') = snum_alloc s'" "snum_alloc s' < 2 ^ 60"
    and "sk_list s' = sk_list s" "snum s' = snum s" "scomp s' = scomp s" "ssorted s' = ssorted s"
proof -
  have "snum s' + 1 < snum_alloc s' \<and> length (sdata s') = snum_alloc s' \<and> snum_alloc s' < 2 ^ 60 \<and>
      sk_list s' = sk_list s \<and> snum s' = snum s \<and> scomp s' = scomp s \<and> ssorted s' = ssorted s"
  proof (cases "snum_alloc s \<le> snum s + 1")
    case False
    then show ?thesis using wf g by (auto simp: sk_grow_def sk_wf_def)
  next
    case True
    let ?n = "snum_alloc s"
    have n: "snum s + 1 = ?n" "length (sdata s) = ?n" "?n < 2 ^ 60" using wf True by (auto simp: sk_wf_def)
    then have b: "16 * ?n + 8 < 2 ^ 64" by simp
    have m: "?n * 2 mod SIZE_MOD = 2 * ?n" "2 * ?n mod SIZE_MOD = 2 * ?n" "16 * ?n mod SIZE_MOD = 16 * ?n"
      using b by (simp_all add: SIZE_MOD_def)
    have "sk_grow mal s = (case realloc_ptrs mal (sdata s) (2 * ?n) (16 * ?n) of
        None \<Rightarrow> None | Some d \<Rightarrow> Some (s\<lparr>sdata := d, snum_alloc := 2 * ?n\<rparr>))"
      using True by (simp add: sk_grow_def Let_def m)
    then obtain d where d: "realloc_ptrs mal (sdata s) (2 * ?n) (16 * ?n) = Some d"
      and s': "s' = s\<lparr>sdata := d, snum_alloc := 2 * ?n\<rparr>"
      using g by (auto split: option.splits)
    note r = realloc_ptrs_Some [OF mal b d]
    have t: "take ?n d = sdata s" "length d = 2 * ?n" "16 * ?n < 2 ^ 63 - 8" using r n by simp_all
    have "take (snum s) d = take (snum s) (sdata s)"
      using t(1) n(1) by (metis le_add1 min.absorb1 take_take)
    then show ?thesis using t n by (simp add: s' sk_list_def)
  qed
  then show "snum s' + 1 < snum_alloc s'" "length (sdata s') = snum_alloc s'" "snum_alloc s' < 2 ^ 60"
    "sk_list s' = sk_list s" "snum s' = snum s" "scomp s' = scomp s" "ssorted s' = ssorted s" by simp_all
qed

lemma sk_insert_cases:
  assumes mal: "malloc_contract mal" and wf: "sk_wf s"
  obtains "sk_insert mal (Some s) p i = (0, Some s)"
  | s' where "sk_insert mal (Some s) p i = (snum s + 1, Some s')" "sk_wf s'" "\<not> ssorted s'" "scomp s' = scomp s"
    "sk_list s' = take i (sk_list s) @ [p] @ drop i (sk_list s)" "snum s' = snum s + 1"
proof (cases "sk_grow mal s")
  case None
  then show ?thesis by (intro that(1)) (simp add: sk_insert_def)
next
  case (Some t)
  note t = sk_grow_Some [OF mal wf Some]
  define d where "d = (if i \<ge> snum t then (sdata t)[snum t := p]
      else take i (sdata t) @ [p] @ take (snum t - i) (drop i (sdata t)) @ drop (snum t + 1) (sdata t))"
  have n: "snum t < length (sdata t)" using t by simp
  have len: "length d = snum_alloc t" using t by (simp add: d_def)
  have "take (snum t + 1) d = take i (sk_list s) @ [p] @ drop i (sk_list s)"
  proof (cases "i \<ge> snum t")
    case True
    have "take (snum t + 1) d = take (snum t) (sdata t) @ [p]"
      using True n by (simp add: d_def take_Suc_conv_app_nth)
    then show ?thesis using True n t(4,5) by (simp add: sk_list_def)
  next
    case False
    have ls: "sk_list s = take (snum t) (sdata t)" using t(4) by (simp add: sk_list_def)
    show ?thesis
      using False n by (simp add: d_def ls drop_take Suc_diff_le)
  qed
  moreover have "sk_insert mal (Some s) p i = (snum s + 1, Some (t\<lparr>sdata := d, snum := snum t + 1, ssorted := False\<rparr>))"
    using t(5) by (simp add: sk_insert_def Some d_def Let_def)
  ultimately show ?thesis
    using t len
    by (intro that(2) [of "t\<lparr>sdata := d, snum := snum t + 1, ssorted := False\<rparr>"])
      (simp_all add: sk_wf_def sk_list_def)
qed

lemma sk_insert_success:
  assumes mal: "malloc_contract mal" and total: "malloc_total mal" and wf: "sk_wf s" and n: "snum_alloc s < 2 ^ 56"
  obtains s' where "sk_insert mal (Some s) p i = (snum s + 1, Some s')" "sk_wf s'"
    "sk_list s' = take i (sk_list s) @ [p] @ drop i (sk_list s)" "snum s' = snum s + 1"
proof -
  let ?n = "snum_alloc s"
  have m: "?n * 2 mod SIZE_MOD = 2 * ?n" "2 * ?n mod SIZE_MOD = 2 * ?n" "16 * ?n mod SIZE_MOD = 16 * ?n"
    using n by (simp_all add: SIZE_MOD_def)
  obtain x where x: "OPENSSL_malloc mal (16 * ?n) = Some x"
    using malloc_total_malloc [OF total, of "16 * ?n"] n by auto
  have "sk_grow mal s = (if ?n \<le> snum s + 1 then (case realloc_ptrs mal (sdata s) (2 * ?n) (16 * ?n) of
      None \<Rightarrow> None | Some d \<Rightarrow> Some (s\<lparr>sdata := d, snum_alloc := 2 * ?n\<rparr>)) else Some s)"
    by (simp add: sk_grow_def Let_def m)
  then have "sk_grow mal s \<noteq> None" by (simp add: realloc_ptrs_def x)
  then have ne: "fst (sk_insert mal (Some s) p i) \<noteq> 0" by (auto simp: sk_insert_def Let_def split: option.splits)
  show ?thesis
  proof (rule sk_insert_cases [OF mal wf, of p i])
    assume "sk_insert mal (Some s) p i = (0, Some s)"
    with ne show ?thesis by simp
  qed (rule that)
qed

lemma sk_delete_eq:
  assumes wf: "sk_wf s" and i: "i < snum s"
  obtains s' where "sk_delete (Some s) i = (sk_list s ! i, Some s')" "sk_wf s'"
    "sk_list s' = take i (sk_list s) @ drop (i + 1) (sk_list s)" "scomp s' = scomp s" "ssorted s' = ssorted s"
    "snum s' = snum s - 1"
proof -
  define d where "d = (if i \<noteq> snum s - 1
      then take i (sdata s) @ take (snum s - i - 1) (drop (i + 1) (sdata s)) @ drop (snum s - 1) (sdata s)
      else sdata s)"
  have n: "snum s < length (sdata s)" using wf by (simp add: sk_wf_def)
  have len: "length d = snum_alloc s" using wf i by (auto simp: d_def sk_wf_def)
  have "take (snum s - 1) d = take i (sk_list s) @ drop (i + 1) (sk_list s)"
    using n i by (auto simp: d_def sk_list_def drop_take)
  moreover have "sk_delete (Some s) i = (sk_list s ! i, Some (s\<lparr>sdata := d, snum := snum s - 1\<rparr>))"
    using i by (simp add: sk_delete_def d_def Let_def sk_list_def)
  ultimately show ?thesis
    using wf i len
    by (intro that [of "s\<lparr>sdata := d, snum := snum s - 1\<rparr>"]) (auto simp: sk_wf_def sk_list_def)
qed

lemma sk_zero_eq:
  assumes "sk_wf s"
  obtains s' where "sk_zero (Some s) = Some s'" "sk_wf s'" "sk_list s' = []" "scomp s' = scomp s" "snum s' = 0"
    "sk_flag run s \<Longrightarrow> sk_flag run s'"
proof (cases "snum s = 0")
  case True
  then show ?thesis using assms by (intro that [of s]) (auto simp: sk_zero_def sk_list_def)
next
  case False
  then show ?thesis
    using assms
    by (intro that [of "s\<lparr>sdata := replicate (snum s) None @ drop (snum s) (sdata s), snum := 0, ssorted := False\<rparr>"])
      (auto simp: sk_zero_def sk_wf_def sk_list_def sk_flag_def)
qed

lemma sk_value_eq: "sk_wf s \<Longrightarrow> sk_value (Some s) i = (if i < length (sk_list s) then sk_list s ! i else None)"
  by (auto simp: sk_value_def sk_list_def sk_wf_def)

lemma sk_set_eq:
  assumes "sk_wf s" "i < snum s"
  obtains s' where "sk_set (Some s) i v = (v, Some s')" "sk_wf s'" "sk_list s' = (sk_list s)[i := v]"
    "ssorted s' = ssorted s" "scomp s' = scomp s"
  using assms by (intro that [of "s\<lparr>sdata := (sdata s)[i := v]\<rparr>"])
    (auto simp: sk_set_def sk_wf_def sk_list_def take_update_swap)

lemma sk_push_eq: "sk_push mal (Some s) p = sk_insert mal (Some s) p (snum s)"
  by (simp add: sk_push_def sk_num_def)

lemma sk_pop_eq: "snum s \<noteq> 0 \<Longrightarrow> sk_pop (Some s) = sk_delete (Some s) (snum s - 1)"
  by (simp add: sk_pop_def)

lemma sk_shift_eq: "snum s \<noteq> 0 \<Longrightarrow> sk_shift (Some s) = sk_delete (Some s) 0"
  by (simp add: sk_shift_def)

text \<open>What is pushed is what is popped.\<close>

lemma sk_pop_push:
  assumes "malloc_contract mal" "sk_wf s" "sk_push mal (Some s) p = (n, Some s')" "n \<noteq> 0"
  obtains s'' where "sk_pop (Some s') = (p, Some s'')" "sk_wf s''" "sk_list s'' = sk_list s" "scomp s'' = scomp s"
proof -
  obtain t where t: "sk_insert mal (Some s) p (snum s) = (snum s + 1, Some t)" "sk_wf t" "scomp t = scomp s"
      "sk_list t = take (snum s) (sk_list s) @ [p] @ drop (snum s) (sk_list s)" "snum t = snum s + 1"
    using assms(3,4) by (rule_tac sk_insert_cases [OF assms(1,2), of p "snum s"]) (auto simp: sk_push_eq)
  have s': "s' = t" using assms(3) t(1) by (simp add: sk_push_eq)
  have l: "sk_list t = sk_list s @ [p]" using t(4) assms(2) by simp
  obtain u where u: "sk_delete (Some t) (snum s) = (sk_list t ! snum s, Some u)" "sk_wf u"
      "sk_list u = take (snum s) (sk_list t) @ drop (snum s + 1) (sk_list t)" "scomp u = scomp t"
    using sk_delete_eq [OF t(2), of "snum s"] t(5) by auto
  show ?thesis
    using u t(3,5) assms(2) by (intro that [of u]) (simp_all add: s' sk_pop_eq l nth_append)
qed

section \<open>Searching\<close>

lemma first_from_Some:
  "first_from P xs j = Some k \<longleftrightarrow> (\<exists>i < length xs. k = j + i \<and> P (xs ! i) \<and> (\<forall>m < i. \<not> P (xs ! m)))"
proof (induction xs arbitrary: j)
  case (Cons x xs)
  show ?case
  proof (cases "P x")
    case True
    then show ?thesis by (auto simp: less_Suc_eq_0_disj)
  next
    case False
    then show ?thesis using Cons by (simp add: Ex_less_Suc2 All_less_Suc2)
  qed
qed simp

lemma first_from_None: "first_from P xs j = None \<longleftrightarrow> (\<forall>x \<in> set xs. \<not> P x)"
  by (induction xs arbitrary: j) auto

text \<open>The element that is compared with sorted elements: bigger ones, equal ones, smaller ones.\<close>

definition monotone_cmp :: "('a option \<Rightarrow> int) \<Rightarrow> 'a option list \<Rightarrow> nat \<Rightarrow> bool" where
  "monotone_cmp c d n \<longleftrightarrow> (\<forall>a b. a \<le> b \<longrightarrow> b < n \<longrightarrow> (0 < c (d ! b) \<longrightarrow> 0 < c (d ! a)) \<and> (c (d ! a) < 0 \<longrightarrow> c (d ! b) < 0))"

lemma find_loop_step:
  assumes "lo < hi" "mid = lo + (hi - lo - 1) div 2"
  shows "find_loop c d lo hi =
      (if c (d ! mid) > 0 then find_loop c d (mid + 1) hi
       else if c (d ! mid) < 0 then find_loop c d lo mid
       else if hi - lo = 1 then Some mid else find_loop c d lo (mid + 1))"
  using assms by (subst find_loop.simps) (simp only: Let_def if_True)

lemma find_loop_None: "\<forall>k < n. c (d ! k) \<noteq> 0 \<Longrightarrow> hi \<le> n \<Longrightarrow> find_loop c d lo hi = None"
proof (induction c d lo hi rule: find_loop.induct)
  case (1 c d lo hi)
  show ?case
  proof (cases "lo < hi")
    case True
    define mid where "mid = lo + (hi - lo - 1) div 2"
    have mid: "mid < hi" using True by (simp add: mid_def)
    then have "c (d ! mid) \<noteq> 0" using 1(4,5) by simp
    note unf = find_loop_step [OF True mid_def, of c d]
    then show ?thesis
      using unf 1(1,2) [OF True mid_def refl] 1(4,5) mid \<open>c (d ! mid) \<noteq> 0\<close> by auto
  qed (simp add: find_loop.simps [of c d lo hi])
qed

lemma find_loop_Some:
  assumes "monotone_cmp c d n" "k < n" "c (d ! k) = 0" "\<forall>m < k. c (d ! m) \<noteq> 0"
  shows "lo \<le> k \<Longrightarrow> k < hi \<Longrightarrow> hi \<le> n \<Longrightarrow> find_loop c d lo hi = Some k"
proof (induction "hi - lo" arbitrary: lo hi rule: less_induct)
  case less
  define mid where "mid = lo + (hi - lo - 1) div 2"
  have lh: "lo < hi" using less.prems by simp
  then have mid: "lo \<le> mid" "mid < hi" by (simp_all add: mid_def)
  note unf = find_loop_step [OF lh mid_def, of c d]
  consider "c (d ! mid) > 0" | "c (d ! mid) < 0" | "c (d ! mid) = 0" by linarith
  then show ?case
  proof cases
    case 1
    have "\<not> k \<le> mid"
      using assms(1,3) 1 mid less.prems(3) unfolding monotone_cmp_def by (metis less_irrefl less_le_trans)
    then show ?thesis using unf 1 less.hyps [of hi "mid + 1"] less.prems mid lh by (simp add: diff_less_mono2)
  next
    case 2
    have "\<not> mid \<le> k"
      using assms(1-3) 2 unfolding monotone_cmp_def by (metis less_irrefl)
    then show ?thesis using unf 2 less.hyps [of mid lo] less.prems mid by simp
  next
    case 3
    have km: "k \<le> mid" using assms(4) 3 by (meson not_le)
    show ?thesis
    proof (cases "hi - lo = 1")
      case True
      then show ?thesis using unf 3 km less.prems mid by simp
    next
      case False
      then have "mid + 1 < hi" using lh by (simp add: mid_def)
      then show ?thesis using unf 3 False km less.hyps [of "mid + 1" lo] less.prems mid by simp
    qed
  qed
qed

context comparator
begin

lemma cmp_pos_le: "0 < cmp p b \<Longrightarrow> cmp a b \<le> 0 \<Longrightarrow> 0 < cmp p a"
  using cmp_le_less [of a b p] by (simp add: cmp_pos_iff)

end

lemma monotone_sorted:
  assumes "comparator run" "cmp_sorted run (take n d)" "n \<le> length d"
  shows "monotone_cmp (run p) d n"
  unfolding monotone_cmp_def
proof (intro allI impI conjI)
  fix a b assume ab: "a \<le> b" "b < n"
  have le: "run (d ! a) (d ! b) \<le> 0"
  proof (cases "a = b")
    case False
    then show ?thesis
      using assms(2,3) ab sorted_wrt_nth_less [of _ "take n d" a b] by (simp add: cmp_sorted_def)
  qed (simp add: comparator.cmp_refl [OF assms(1)])
  show "0 < run p (d ! a)" if "0 < run p (d ! b)"
    using that le by (rule comparator.cmp_pos_le [OF assms(1)])
  show "run p (d ! b) < 0" if "run p (d ! a) < 0"
    using that le by (rule comparator.cmp_less_le [OF assms(1)])
qed

lemma find_loop_first:
  assumes "comparator run" "cmp_sorted run (take n d)" "n \<le> length d"
  shows "find_loop (run p) d 0 n = first_from (\<lambda>e. run p e = 0) (take n d) 0"
proof (cases "first_from (\<lambda>e. run p e = 0) (take n d) 0")
  case None
  then have "\<forall>k < n. run p (d ! k) \<noteq> 0"
    using assms(3) by (metis (mono_tags, lifting) first_from_None in_set_conv_nth length_take min.absorb2 nth_take)
  then show ?thesis using None by (simp add: find_loop_None)
next
  case (Some k)
  then have "k < n" "run p (d ! k) = 0" "\<forall>m < k. run p (d ! m) \<noteq> 0"
    using assms(3) by (auto simp: first_from_Some)
  then show ?thesis
    using Some find_loop_Some [OF monotone_sorted [OF assms, of p], of k 0 n] by simp
qed

text \<open>\<open>sk_find\<close> finds the first match, however it searches.\<close>

lemma sk_find_first:
  assumes "sk_wf s" "sk_flag run s" "\<forall>f. scomp s = Some f \<longrightarrow> comparator (run f)"
  shows "sk_find (Some s) p run =
    (case scomp s of
       None \<Rightarrow> first_from (\<lambda>q. q = p) (sk_list s) 0
     | Some f \<Rightarrow> if p = None then None else first_from (\<lambda>e. run f p e = 0) (sk_list s) 0)"
proof (cases "scomp s")
  case None
  then show ?thesis by (simp add: sk_find_def sk_list_def)
next
  case (Some f)
  have n: "snum s \<le> length (sdata s)" using assms(1) by (simp add: sk_wf_def)
  show ?thesis
  proof (cases "ssorted s")
    case True
    then have "cmp_sorted (run f) (take (snum s) (sdata s))"
      using assms(2) Some by (simp add: sk_flag_def sk_list_def)
    then show ?thesis
      using Some True find_loop_first [OF _ _ n, of "run f" p] assms(3)
      by (simp add: sk_find_def sk_is_sorted_def sk_list_def)
  qed (simp add: Some sk_find_def sk_is_sorted_def sk_list_def)
qed

section \<open>Sorting and the flag\<close>

lemma sk_sort_eq:
  assumes "sk_wf s" "sk_flag run s" "qsort_contract qsort" "scomp s = Some f" "comparator (run f)"
  obtains s' where "sk_sort run qsort (Some s) = Some s'" "sk_wf s'" "mset (sk_list s') = mset (sk_list s)"
    "cmp_sorted (run f) (sk_list s')" "ssorted s'" "scomp s' = Some f"
proof (cases "ssorted s")
  case True
  then show ?thesis using assms by (intro that [of s]) (auto simp: sk_sort_def sk_flag_def)
next
  case False
  have q: "mset (qsort (run f) xs) = mset xs" "cmp_sorted (run f) (qsort (run f) xs)" for xs
    using assms(3,5) by (simp_all add: qsort_contract_def)
  have ql: "length (qsort (run f) xs) = length xs" for xs using q(1) by (metis size_mset)
  define d where "d = (if snum s \<ge> 2 then qsort (run f) (take (snum s) (sdata s)) @ drop (snum s) (sdata s) else sdata s)"
  have n: "snum s < length (sdata s)" using assms(1) by (simp add: sk_wf_def)
  have "mset (take (snum s) d) = mset (sk_list s) \<and> cmp_sorted (run f) (take (snum s) d) \<and> length d = length (sdata s)"
  proof (cases "snum s \<ge> 2")
    case True
    then have d: "d = qsort (run f) (take (snum s) (sdata s)) @ drop (snum s) (sdata s)" by (simp add: d_def)
    show ?thesis using n q by (simp add: d ql sk_list_def)
  next
    case False
    then have "length (sk_list s) = 0 \<or> length (sk_list s) = 1" using assms(1) by auto
    then have "cmp_sorted (run f) (sk_list s)"
      by (auto simp: cmp_sorted_def length_Suc_conv)
    then show ?thesis using False by (simp add: d_def sk_list_def)
  qed
  then show ?thesis
    using assms False
    by (intro that [of "s\<lparr>sdata := d, ssorted := True\<rparr>"]) (simp_all add: sk_sort_def d_def [symmetric] sk_wf_def sk_list_def)
qed

lemma cmp_sorted_remove: "cmp_sorted cmp xs \<Longrightarrow> cmp_sorted cmp (take i xs @ drop j xs) \<or> j < i"
proof (cases "j < i")
  case False
  assume "cmp_sorted cmp xs"
  then have "cmp_sorted cmp (take i xs @ drop i xs)" by simp
  moreover have "set (drop j xs) \<subseteq> set (drop i xs)" using False by (intro set_drop_subset_set_drop) simp
  moreover have "cmp_sorted cmp (drop j xs)" using \<open>cmp_sorted cmp xs\<close> by (simp add: cmp_sorted_def sorted_wrt_drop)
  ultimately show ?thesis unfolding cmp_sorted_def sorted_wrt_append by blast
qed simp

text \<open>Every operation but \<open>sk_set\<close> keeps the flag true.\<close>

lemma sk_flag_delete: "sk_wf s \<Longrightarrow> sk_flag run s \<Longrightarrow> sk_delete (Some s) i = (p, Some s') \<Longrightarrow> sk_wf s' \<and> sk_flag run s'"
proof -
  assume s: "sk_wf s" "sk_flag run s" "sk_delete (Some s) i = (p, Some s')"
  show ?thesis
  proof (cases "i < snum s")
    case True
    obtain t where "sk_delete (Some s) i = (sk_list s ! i, Some t)" and t: "sk_wf t"
        "sk_list t = take i (sk_list s) @ drop (i + 1) (sk_list s)" "scomp t = scomp s" "ssorted t = ssorted s"
      using sk_delete_eq [OF s(1) True] by blast
    then show ?thesis using s cmp_sorted_remove [of _ "sk_list s" i "i + 1"] by (auto simp: sk_flag_def)
  next
    case False
    then show ?thesis using s by (auto simp: sk_delete_def)
  qed
qed

lemma sk_flag_insert:
  assumes "malloc_contract mal" "sk_wf s" "sk_flag run s" "sk_insert mal (Some s) p i = (n, Some s')"
  shows "sk_wf s' \<and> sk_flag run s'"
  by (rule sk_insert_cases [OF assms(1,2), of p i]) (use assms in \<open>auto simp: sk_flag_def\<close>)

lemma sk_flag_sort:
  assumes "sk_wf s" "sk_flag run s" "qsort_contract qsort" "\<forall>f. scomp s = Some f \<longrightarrow> comparator (run f)"
    and "sk_sort run qsort (Some s) = Some s'"
  shows "sk_wf s' \<and> sk_flag run s'"
proof (cases "scomp s")
  case None
  then show ?thesis using assms by (simp add: sk_sort_def)
next
  case (Some f)
  then show ?thesis
    using assms by (rule_tac sk_sort_eq [OF assms(1-3) Some]) (auto simp: sk_flag_def)
qed

lemma sk_flag_set_cmp:
  "sk_wf s \<Longrightarrow> sk_flag run s \<Longrightarrow> sk_set_cmp_func s f = (old, s') \<Longrightarrow> sk_wf s' \<and> sk_flag run s' \<and> scomp s' = f"
  by (auto simp: sk_set_cmp_func_def sk_wf_def sk_flag_def sk_list_def Let_def)

lemma sk_dup_eq:
  assumes "malloc_contract mal" "sk_wf s" "sk_dup mal (Some s) = Some s'"
  shows "sk_wf s'" "sk_list s' = sk_list s" "ssorted s' = ssorted s" "scomp s' = scomp s" "snum s' = snum s"
proof -
  obtain r d where d: "realloc_ptrs mal (sdata r) (snum_alloc s) (8 * snum_alloc s mod SIZE_MOD) = Some d"
    and r: "sk_new mal (scomp s) = Some r"
    and s': "s' = r\<lparr>sdata := take (snum s) (sdata s) @ drop (snum s) d, snum := snum s,
                     ssorted := ssorted s, snum_alloc := snum_alloc s, scomp := scomp s\<rparr>"
    using assms(3) by (auto simp: sk_dup_def split: option.splits)
  have "length d = snum_alloc s"
    using d by (auto simp: realloc_ptrs_def split: option.splits)
  then show "sk_wf s'" "sk_list s' = sk_list s" "ssorted s' = ssorted s" "scomp s' = scomp s" "snum s' = snum s"
    using assms(2) by (auto simp: s' sk_wf_def sk_list_def)
qed

section \<open>Deep copies\<close>

text \<open>
  A client whose state is the multiset of the live objects: copying an object makes one or
  fails, freeing one removes it.
\<close>

definition live_copy :: "('a \<Rightarrow> 'a option) \<Rightarrow> 'a \<Rightarrow> 'a multiset \<Rightarrow> 'a option \<times> 'a multiset" where
  "live_copy cp x heap = (case cp x of None \<Rightarrow> (None, heap) | Some y \<Rightarrow> (Some y, add_mset y heap))"

definition live_free :: "'g \<Rightarrow> 'a \<Rightarrow> 'a multiset \<Rightarrow> 'a multiset" where
  "live_free g x heap = heap - {#x#}"

fun objects :: "'a option list \<Rightarrow> 'a list" where
  "objects [] = []"
| "objects (None # xs) = objects xs"
| "objects (Some x # xs) = x # objects xs"

lemma objects_append [simp]: "objects (xs @ ys) = objects xs @ objects ys"
  by (induction xs rule: objects.induct) auto

lemma objects_cases: "objects (p # xs) = (case p of None \<Rightarrow> [] | Some x \<Rightarrow> [x]) @ objects xs"
  by (cases p) auto

lemma free_each_live: "free_each live_free g ps heap = heap - mset (objects ps)"
proof (induction ps arbitrary: heap)
  case (Cons p ps)
  then show ?case by (cases p) (simp_all add: free_each_def live_free_def)
qed (simp add: free_each_def)

definition copy_slot :: "('a \<Rightarrow> 'a option) \<Rightarrow> 'a option \<Rightarrow> 'a option" where
  "copy_slot cp p = (case p of None \<Rightarrow> None | Some x \<Rightarrow> cp x)"

lemma copy_slot_simps [simp]: "copy_slot cp None = None" "copy_slot cp (Some x) = cp x"
  by (simp_all add: copy_slot_def)

lemma deep_copy_loop_live:
  "deep_copy_loop live_copy cp live_free g copied xs (heap + mset (objects copied)) =
    (if \<forall>x \<in> set (objects xs). cp x \<noteq> None
     then (Some (copied @ map (copy_slot cp) xs), heap + mset (objects (copied @ map (copy_slot cp) xs)))
     else (None, heap))"
proof (induction xs arbitrary: copied)
  case (Cons p xs)
  show ?case
  proof (cases p)
    case None
    then show ?thesis using Cons [of "copied @ [None]"] by simp
  next
    case (Some x)
    show ?thesis
    proof (cases "cp x")
      case None
      then show ?thesis using Some by (simp add: live_copy_def free_each_live)
    next
      case (Some y)
      then show ?thesis
        using \<open>p = Some x\<close> Cons [of "copied @ [Some y]"] by (simp add: live_copy_def)
    qed
  qed
qed simp

lemma sk_dup_success:
  fixes s :: "('f, 'a) STACK"
  assumes "malloc_total mal" "snum_alloc s < 2 ^ 56"
  shows "sk_dup mal (Some s) \<noteq> None"
proof -
  note m = malloc_total_malloc [OF assms(1)]
  have "OPENSSL_malloc mal SIZEOF_STACK \<noteq> None" "OPENSSL_malloc mal (8 * kMinSize) \<noteq> None"
    by (rule m, simp add: SIZEOF_STACK_def kMinSize_def)+
  then have "\<exists>t :: ('f, 'a) STACK. sk_new mal (scomp s) = Some t" by (auto simp: sk_new_def)
  moreover have "8 * snum_alloc s mod SIZE_MOD < 2 ^ 61 + 1" using assms(2) by (simp add: SIZE_MOD_def)
  then have "OPENSSL_malloc mal (8 * snum_alloc s mod SIZE_MOD) \<noteq> None" by (rule m)
  ultimately show ?thesis by (auto simp: sk_dup_def realloc_ptrs_def)
qed

lemma sk_deep_copy_eq:
  assumes "malloc_contract mal" "malloc_total mal" "sk_wf s" "snum_alloc s < 2 ^ 56"
  shows "\<exists>s'. sk_deep_copy mal (Some s) live_copy cp live_free g heap =
      (if \<forall>x\<in>set (objects (sk_list s)). cp x \<noteq> None then (Some s', heap + mset (objects (sk_list s'))) else (None, heap))
    \<and> sk_wf s' \<and> sk_list s' = map (copy_slot cp) (sk_list s)"
proof -
  obtain t where t': "sk_dup mal (Some s) = Some t" using sk_dup_success [OF assms(2,4)] by auto
  note t = sk_dup_eq [OF assms(1,3) t']
  have l: "take (snum t) (sdata t) = sk_list s" using t(2) by (simp add: sk_list_def)
  note loop = deep_copy_loop_live [of cp g "[]" "sk_list s" heap, simplified]
  let ?s = "t\<lparr>sdata := map (copy_slot cp) (sk_list s) @ drop (snum t) (sdata t)\<rparr>"
  have ls: "sk_list ?s = map (copy_slot cp) (sk_list s)"
    using t(5) assms(3) unfolding sk_list_def [of ?s] by simp
  moreover have "sk_wf ?s" using t(1,5) assms(3) unfolding sk_wf_def [of ?s] by (simp add: sk_wf_def [of t])
  moreover have "sk_deep_copy mal (Some s) live_copy cp live_free g heap =
      (if \<forall>x\<in>set (objects (sk_list s)). cp x \<noteq> None then (Some ?s, heap + mset (objects (sk_list ?s))) else (None, heap))"
    using loop by (auto simp: sk_deep_copy_def t' l ls)
  ultimately show ?thesis by blast
qed

section \<open>Stacks that a program can build\<close>

text \<open>Every operation but \<open>sk_set\<close>. A comparator that is installed is a total preorder.\<close>

inductive sk_reach :: "allocator \<Rightarrow> ('f, 'a) qsort \<Rightarrow> ('f, 'a) call_cmp \<Rightarrow> ('f, 'a) STACK \<Rightarrow> bool"
  for mal and qsort :: "('f, 'a) qsort" and run :: "('f, 'a) call_cmp" where
  new: "sk_new mal f = Some s \<Longrightarrow> \<forall>g. f = Some g \<longrightarrow> comparator (run g) \<Longrightarrow> sk_reach mal qsort run s"
| insert: "sk_reach mal qsort run s \<Longrightarrow> sk_insert mal (Some s) p i = (n, Some s') \<Longrightarrow> sk_reach mal qsort run s'"
| push: "sk_reach mal qsort run s \<Longrightarrow> sk_push mal (Some s) p = (n, Some s') \<Longrightarrow> sk_reach mal qsort run s'"
| delete: "sk_reach mal qsort run s \<Longrightarrow> sk_delete (Some s) i = (p, Some s') \<Longrightarrow> sk_reach mal qsort run s'"
| delete_ptr: "sk_reach mal qsort run s \<Longrightarrow> sk_delete_ptr (Some s) q = (p, Some s') \<Longrightarrow> sk_reach mal qsort run s'"
| pop: "sk_reach mal qsort run s \<Longrightarrow> sk_pop (Some s) = (p, Some s') \<Longrightarrow> sk_reach mal qsort run s'"
| shift: "sk_reach mal qsort run s \<Longrightarrow> sk_shift (Some s) = (p, Some s') \<Longrightarrow> sk_reach mal qsort run s'"
| zero: "sk_reach mal qsort run s \<Longrightarrow> sk_zero (Some s) = Some s' \<Longrightarrow> sk_reach mal qsort run s'"
| dup: "sk_reach mal qsort run s \<Longrightarrow> sk_dup mal (Some s) = Some s' \<Longrightarrow> sk_reach mal qsort run s'"
| sort: "sk_reach mal qsort run s \<Longrightarrow> sk_sort run qsort (Some s) = Some s' \<Longrightarrow> sk_reach mal qsort run s'"
| set_cmp: "sk_reach mal qsort run s \<Longrightarrow> sk_set_cmp_func s f = (old, s') \<Longrightarrow>
    \<forall>g. f = Some g \<longrightarrow> comparator (run g) \<Longrightarrow> sk_reach mal qsort run s'"

definition sk_inv :: "('f, 'a) call_cmp \<Rightarrow> ('f, 'a) STACK \<Rightarrow> bool" where
  "sk_inv run s \<longleftrightarrow> sk_wf s \<and> sk_flag run s \<and> (\<forall>f. scomp s = Some f \<longrightarrow> comparator (run f))"

lemma scomp_unchanged:
  "sk_insert mal (Some s) p i = (n, Some s') \<Longrightarrow> malloc_contract mal \<Longrightarrow> sk_wf s \<Longrightarrow> scomp s' = scomp s"
  "sk_delete (Some s) i = (q, Some s') \<Longrightarrow> scomp s' = scomp s"
  "sk_sort run qsort (Some s) = Some s' \<Longrightarrow> scomp s' = scomp s"
  by (auto simp: sk_insert_def sk_delete_def sk_sort_def sk_grow_def Let_def split: if_splits option.splits)

lemma inv_insert:
  "malloc_contract mal \<Longrightarrow> sk_inv run s \<Longrightarrow> sk_insert mal (Some s) p i = (n, Some s') \<Longrightarrow> sk_inv run s'"
  using sk_flag_insert [of mal s run p i n s'] scomp_unchanged(1) [of mal s p i n s'] by (simp add: sk_inv_def)

lemma inv_delete: "sk_inv run s \<Longrightarrow> sk_delete (Some s) i = (p, Some s') \<Longrightarrow> sk_inv run s'"
  using sk_flag_delete [of s run i p s'] scomp_unchanged(2) [of s i p s'] by (simp add: sk_inv_def)

lemma sk_reach_inv:
  assumes "malloc_contract mal" "qsort_contract qsort"
  shows "sk_reach mal qsort run s \<Longrightarrow> sk_inv run s"
proof (induction rule: sk_reach.induct)
  case (new f s)
  then show ?case using sk_new_wf [OF new(1)] by (simp add: sk_inv_def sk_flag_def)
next
  case (insert s p i n s')
  then show ?case using inv_insert [OF assms(1)] by blast
next
  case (push s p n s')
  then show ?case using inv_insert [OF assms(1)] by (simp only: sk_push_eq)
next
  case (delete s i p s')
  then show ?case using inv_delete by blast
next
  case (delete_ptr s q p s')
  then show ?case using inv_delete by (auto simp: sk_delete_ptr_def split: option.splits)
next
  case (pop s p s')
  then show ?case using inv_delete by (cases "snum s = 0") (auto simp: sk_pop_eq, auto simp: sk_pop_def)
next
  case (shift s p s')
  then show ?case using inv_delete by (cases "snum s = 0") (auto simp: sk_shift_eq, auto simp: sk_shift_def)
next
  case (zero s s')
  have w: "sk_wf s" "sk_flag run s" "\<forall>f. scomp s = Some f \<longrightarrow> comparator (run f)" using zero by (simp_all add: sk_inv_def)
  show ?case
    by (rule sk_zero_eq [OF w(1), of run]) (use zero(2) w in \<open>simp add: sk_inv_def\<close>)
next
  case (dup s s')
  then have "sk_wf s" by (simp add: sk_inv_def)
  then show ?case using sk_dup_eq [OF assms(1) _ dup(2)] dup by (simp add: sk_inv_def sk_flag_def)
next
  case (sort s s')
  then show ?case using sk_flag_sort [of s run qsort s'] scomp_unchanged(3) [OF sort(2)] assms(2)
    by (simp add: sk_inv_def)
next
  case (set_cmp s f old s')
  then show ?case using sk_flag_set_cmp [of s run f old s'] by (simp add: sk_inv_def)
qed

section \<open>A stack of numbers\<close>

definition num_cmp :: "unit \<Rightarrow> int option \<Rightarrow> int option \<Rightarrow> int" where
  "num_cmp _ a b = (case a of None \<Rightarrow> 0 | Some x \<Rightarrow> x) - (case b of None \<Rightarrow> 0 | Some y \<Rightarrow> y)"

interpretation num: comparator "num_cmp u" for u
  by unfold_locales (auto simp: num_cmp_def sgn_if)

definition num_stack :: "int list \<Rightarrow> bool \<Rightarrow> (unit, int) STACK" where
  "num_stack xs srt = \<lparr>snum = length xs, sdata = map Some xs @ replicate (4 - length xs) None, ssorted = srt,
     snum_alloc = 4, scomp = Some ()\<rparr>"

lemma num_stack_wf: "length xs < 4 \<Longrightarrow> sk_wf (num_stack xs srt)" "length xs < 4 \<Longrightarrow> sk_list (num_stack xs srt) = map Some xs"
  by (simp_all add: sk_wf_def sk_list_def num_stack_def)

lemma num_stack_fields [simp]:
  "scomp (num_stack xs srt) = Some ()" "snum (num_stack xs srt) = length xs" "snum_alloc (num_stack xs srt) = 4"
  "ssorted (num_stack xs srt) = srt"
  by (simp_all add: num_stack_def)

lemma num_stack_reach: "sk_reach zero_malloc isort num_cmp (num_stack [1, 2, 3] True)"
proof -
  have n: "sk_new zero_malloc (Some ()) = Some (num_stack [] False)"
    by (simp add: sk_new_def num_stack_def kMinSize_def SIZEOF_STACK_def OPENSSL_malloc_def OPENSSL_MALLOC_PREFIX_def
        zero_malloc_def SIZE_MOD_def)
  have p: "sk_push zero_malloc (Some (num_stack [] False)) (Some 3) = (1, Some (num_stack [3] False))"
    "sk_push zero_malloc (Some (num_stack [3] False)) (Some 1) = (2, Some (num_stack [3, 1] False))"
    "sk_insert zero_malloc (Some (num_stack [3, 1] False)) (Some 2) 1 = (3, Some (num_stack [3, 2, 1] False))"
    by (simp_all add: sk_push_def sk_num_def sk_insert_def sk_grow_def num_stack_def eval_nat_numeral)
  have "sk_sort num_cmp isort (Some (num_stack [3, 2, 1] False)) = Some (num_stack [1, 2, 3] True)"
    by (simp add: sk_sort_def num_stack_def num_cmp_def eval_nat_numeral)
  then show ?thesis
    using sk_reach.new [OF n] num.comparator_axioms
      sk_reach.push [OF _ p(1)] sk_reach.push [OF _ p(2)] sk_reach.insert [OF _ p(3)] sk_reach.sort by blast
qed

end
