(* ===== verification/LHash.thy ===== *)
theory LHash
  imports Mem "HOL-Library.Multiset"
begin

text \<open>
  \<^verbatim>\<open>crypto/lhash/lhash.c\<close>: the chained hash table behind every \<open>LHASH_OF(type)\<close>. A chain is
  the list of its items in link order, so a pointer to a link (\<open>LHASH_ITEM **\<close>) is a position in a
  bucket. The locale \<open>hash_interface\<close> is what the table asks of a client's hash and comparison
  functions; inside it the table is proved to be a finite map from the classes of equal elements,
  through every resize. It is interpreted on C strings with \<open>lh_strhash\<close> and \<open>strcmp\<close>.
\<close>

section \<open>The code\<close>

definition kMinNumBuckets :: nat where
  "kMinNumBuckets = 16"

definition kMaxAverageChainLength :: nat where
  "kMaxAverageChainLength = 2"

definition kMinAverageChainLength :: nat where
  "kMinAverageChainLength = 1"

definition UINT_MAX :: nat where
  "UINT_MAX = 2 ^ 32 - 1"

record 'a LHASH_ITEM =
  idata :: 'a
  ihash :: u32

record 'a LHASH =
  num_items :: nat
  buckets :: "'a LHASH_ITEM list list"
  num_buckets :: nat
  callback_depth :: nat

text \<open>\<open>sizeof(_LHASH)\<close> and \<open>sizeof(LHASH_ITEM)\<close>.\<close>

definition SIZEOF_LHASH :: nat where
  "SIZEOF_LHASH = 48"

definition SIZEOF_LHASH_ITEM :: nat where
  "SIZEOF_LHASH_ITEM = 24"

text \<open>The table's functions are given with each call: \<open>call_hash_func(lh->hash, _)\<close> is \<open>hash\<close> and
  \<open>call_cmp_func(lh->comp, _, _)\<close> is \<open>cmp\<close>.\<close>

definition lh_new :: "allocator \<Rightarrow> 'a LHASH option" where
  "lh_new mal =
     (case OPENSSL_malloc mal SIZEOF_LHASH of
        None \<Rightarrow> None
      | Some _ \<Rightarrow>
          (case OPENSSL_malloc mal (8 * kMinNumBuckets) of
             None \<Rightarrow> None
           | Some _ \<Rightarrow>
               Some \<lparr>num_items = 0, buckets = replicate kMinNumBuckets [], num_buckets = kMinNumBuckets,
                     callback_depth = 0\<rparr>))"

definition lh_num_items :: "'a LHASH \<Rightarrow> nat" where
  "lh_num_items lh = num_items lh"

text \<open>The position in the bucket of the first matching item, or the length of the chain (where the
  link is NULL).\<close>

fun chain_pos :: "('a \<Rightarrow> int) \<Rightarrow> 'a LHASH_ITEM list \<Rightarrow> nat" where
  "chain_pos c [] = 0"
| "chain_pos c (cur # rest) = (if c (idata cur) = 0 then 0 else Suc (chain_pos c rest))"

text \<open>The bucket, the position in it and the hash value.\<close>

definition get_next_ptr_and_hash :: "('a \<Rightarrow> u32) \<Rightarrow> ('a \<Rightarrow> 'a \<Rightarrow> int) \<Rightarrow> 'a LHASH \<Rightarrow> 'a \<Rightarrow> (nat \<times> nat) \<times> u32" where
  "get_next_ptr_and_hash hash cmp lh d =
     (let h = hash d; b = unat h mod num_buckets lh
      in ((b, chain_pos (\<lambda>x. cmp x d) (buckets lh ! b)), h))"

definition get_next_ptr_by_key :: "('k \<Rightarrow> 'a \<Rightarrow> int) \<Rightarrow> 'a LHASH \<Rightarrow> 'k \<Rightarrow> u32 \<Rightarrow> nat \<times> nat" where
  "get_next_ptr_by_key cmp_key lh key key_hash =
     (let b = unat key_hash mod num_buckets lh in (b, chain_pos (cmp_key key) (buckets lh ! b)))"

definition deref :: "'a LHASH \<Rightarrow> nat \<times> nat \<Rightarrow> 'a LHASH_ITEM option" where
  "deref lh p = (if snd p < length (buckets lh ! fst p) then Some (buckets lh ! fst p ! snd p) else None)"

definition lh_retrieve :: "('a \<Rightarrow> u32) \<Rightarrow> ('a \<Rightarrow> 'a \<Rightarrow> int) \<Rightarrow> 'a LHASH \<Rightarrow> 'a \<Rightarrow> 'a option" where
  "lh_retrieve hash cmp lh d = map_option idata (deref lh (fst (get_next_ptr_and_hash hash cmp lh d)))"

definition lh_retrieve_key :: "('k \<Rightarrow> 'a \<Rightarrow> int) \<Rightarrow> 'a LHASH \<Rightarrow> 'k \<Rightarrow> u32 \<Rightarrow> 'a option" where
  "lh_retrieve_key cmp_key lh key key_hash = map_option idata (deref lh (get_next_ptr_by_key cmp_key lh key key_hash))"

text \<open>Each item is moved to the front of its new chain.\<close>

definition rebucket_item :: "nat \<Rightarrow> 'a LHASH_ITEM \<Rightarrow> 'a LHASH_ITEM list list \<Rightarrow> 'a LHASH_ITEM list list" where
  "rebucket_item n cur bs = (let b = unat (ihash cur) mod n in bs[b := cur # bs ! b])"

definition lh_rebucket :: "allocator \<Rightarrow> 'a LHASH \<Rightarrow> nat \<Rightarrow> 'a LHASH" where
  "lh_rebucket mal lh new_num_buckets =
     (let alloc_size = 8 * new_num_buckets mod SIZE_MOD
      in if alloc_size div 8 \<noteq> new_num_buckets then lh
         else (case OPENSSL_malloc mal alloc_size of
                 None \<Rightarrow> lh
               | Some _ \<Rightarrow>
                   lh\<lparr>num_buckets := new_num_buckets,
                      buckets := fold (rebucket_item new_num_buckets) (concat (take (num_buckets lh) (buckets lh)))
                                   (replicate new_num_buckets [])\<rparr>))"

definition lh_maybe_resize :: "allocator \<Rightarrow> 'a LHASH \<Rightarrow> 'a LHASH" where
  "lh_maybe_resize mal lh =
     (if callback_depth lh > 0 then lh
      else
        let avg_chain_length = num_items lh div num_buckets lh
        in if avg_chain_length > kMaxAverageChainLength then
             let new_num_buckets = num_buckets lh * 2 mod SIZE_MOD
             in if new_num_buckets > num_buckets lh then lh_rebucket mal lh new_num_buckets else lh
           else if avg_chain_length < kMinAverageChainLength \<and> num_buckets lh > kMinNumBuckets then
             let new_num_buckets = num_buckets lh div 2;
                 new_num_buckets = (if new_num_buckets < kMinNumBuckets then kMinNumBuckets else new_num_buckets)
             in lh_rebucket mal lh new_num_buckets
           else lh)"

text \<open>The result: the return value, \<open>*old_data\<close> and the table.\<close>

definition lh_insert :: "allocator \<Rightarrow> ('a \<Rightarrow> u32) \<Rightarrow> ('a \<Rightarrow> 'a \<Rightarrow> int) \<Rightarrow> 'a LHASH \<Rightarrow> 'a \<Rightarrow> bool \<times> 'a option \<times> 'a LHASH" where
  "lh_insert mal hash cmp lh d =
     (let ((b, i), h) = get_next_ptr_and_hash hash cmp lh d
      in case deref lh (b, i) of
           Some item \<Rightarrow>
             (True, Some (idata item),
              lh\<lparr>buckets := (buckets lh)[b := (buckets lh ! b)[i := item\<lparr>idata := d\<rparr>]]\<rparr>)
         | None \<Rightarrow>
             (case OPENSSL_malloc mal SIZEOF_LHASH_ITEM of
                None \<Rightarrow> (False, None, lh)
              | Some _ \<Rightarrow>
                  let item = \<lparr>idata = d, ihash = h\<rparr>;
                      lh = lh\<lparr>buckets := (buckets lh)[b := buckets lh ! b @ [item]], num_items := num_items lh + 1\<rparr>
                  in (True, None, lh_maybe_resize mal lh)))"

definition lh_delete :: "allocator \<Rightarrow> ('a \<Rightarrow> u32) \<Rightarrow> ('a \<Rightarrow> 'a \<Rightarrow> int) \<Rightarrow> 'a LHASH \<Rightarrow> 'a \<Rightarrow> 'a option \<times> 'a LHASH" where
  "lh_delete mal hash cmp lh d =
     (let ((b, i), h) = get_next_ptr_and_hash hash cmp lh d
      in case deref lh (b, i) of
           None \<Rightarrow> (None, lh)
         | Some item \<Rightarrow>
             let lh = lh\<lparr>buckets := (buckets lh)[b := take i (buckets lh ! b) @ drop (i + 1) (buckets lh ! b)],
                         num_items := num_items lh - 1\<rparr>
             in (Some (idata item), lh_maybe_resize mal lh))"

text \<open>
  The walk over all items with a callback that changes its own state (\<open>arg\<close>) and leaves the table
  alone; a callback that inserts or deletes is outside the model.
\<close>

definition lh_doall_arg :: "allocator \<Rightarrow> 'a LHASH \<Rightarrow> ('a \<Rightarrow> 's \<Rightarrow> 's) \<Rightarrow> 's \<Rightarrow> 's \<times> 'a LHASH" where
  "lh_doall_arg mal lh func arg =
     (let lh = (if callback_depth lh < UINT_MAX then lh\<lparr>callback_depth := callback_depth lh + 1\<rparr> else lh);
          arg = fold (\<lambda>cur. func (idata cur)) (concat (take (num_buckets lh) (buckets lh))) arg;
          lh = (if callback_depth lh < UINT_MAX then lh\<lparr>callback_depth := callback_depth lh - 1\<rparr> else lh)
      in (arg, lh_maybe_resize mal lh))"

definition lh_strhash :: "u8 list option \<Rightarrow> u32 option" where
  "lh_strhash c =
     (case c of None \<Rightarrow> Some 0 | Some s \<Rightarrow> map_option (\<lambda>n. OPENSSL_hash32 (take n s)) (strlen s))"

section \<open>The contents of a table\<close>

text \<open>The stored elements as a multiset, and the finite map they are: from an element to the stored
  one that compares equal to it.\<close>

definition lh_elems :: "'a LHASH \<Rightarrow> 'a multiset" where
  "lh_elems lh = mset (map idata (concat (buckets lh)))"

definition lh_map :: "('a \<Rightarrow> 'a \<Rightarrow> int) \<Rightarrow> 'a LHASH \<Rightarrow> 'a \<Rightarrow> 'a option" where
  "lh_map cmp lh x = find (\<lambda>y. cmp y x = 0) (map idata (concat (buckets lh)))"

definition well_placed :: "('a \<Rightarrow> u32) \<Rightarrow> 'a LHASH \<Rightarrow> bool" where
  "well_placed hash lh \<longleftrightarrow> (\<forall>b < num_buckets lh. \<forall>it \<in> set (buckets lh ! b).
     ihash it = hash (idata it) \<and> unat (ihash it) mod num_buckets lh = b)"

definition one_each :: "('a \<Rightarrow> 'a \<Rightarrow> int) \<Rightarrow> 'a multiset \<Rightarrow> bool" where
  "one_each cmp M \<longleftrightarrow> (\<forall>x. size (filter_mset (\<lambda>y. cmp y x = 0) M) \<le> 1)"

definition lh_inv :: "('a \<Rightarrow> u32) \<Rightarrow> ('a \<Rightarrow> 'a \<Rightarrow> int) \<Rightarrow> 'a LHASH \<Rightarrow> bool" where
  "lh_inv hash cmp lh \<longleftrightarrow>
     kMinNumBuckets \<le> num_buckets lh \<and> length (buckets lh) = num_buckets lh \<and>
     num_items lh = size (lh_elems lh) \<and> well_placed hash lh \<and> one_each cmp (lh_elems lh)"

lemma lh_invD:
  assumes "lh_inv hash cmp lh"
  shows "0 < num_buckets lh" "length (buckets lh) = num_buckets lh" "num_items lh = size (lh_elems lh)"
    "well_placed hash lh" "one_each cmp (lh_elems lh)"
  using assms by (auto simp: lh_inv_def kMinNumBuckets_def)

lemma concat_replicate_Nil [simp]: "concat (replicate n []) = []"
  by (induction n) auto

lemma lh_new_inv: "lh_new mal = Some lh \<Longrightarrow> lh_inv hash cmp lh \<and> lh_elems lh = {#}"
  by (auto simp: lh_new_def lh_inv_def lh_elems_def well_placed_def one_each_def split: option.splits)

lemma mset_concat_update:
  "b < length bs \<Longrightarrow> mset (concat (bs[b := c])) + mset (bs ! b) = mset (concat bs) + mset c"
proof (induction bs arbitrary: b)
  case (Cons x bs)
  then show ?case by (cases b) (simp_all add: ac_simps)
qed simp

lemma elems_update:
  assumes "b < length (buckets lh)"
  shows "lh_elems (lh\<lparr>buckets := (buckets lh)[b := c]\<rparr>) + mset (map idata (buckets lh ! b))
    = lh_elems lh + mset (map idata c)"
  using arg_cong [OF mset_concat_update [OF assms, of c], of "image_mset idata"]
  by (simp add: lh_elems_def)

lemma in_elems: "y \<in># lh_elems lh \<longleftrightarrow> (\<exists>b < length (buckets lh). \<exists>it \<in> set (buckets lh ! b). idata it = y)"
proof -
  have "(\<exists>c \<in> set bs. P c) \<longleftrightarrow> (\<exists>b < length bs. P (bs ! b))" for bs :: "'b list" and P
    by (metis in_set_conv_nth)
  from this [of "buckets lh" "\<lambda>c. \<exists>it \<in> set c. idata it = y"] show ?thesis
    by (auto simp: lh_elems_def)
qed

lemma find_SomeD: "find P xs = Some y \<Longrightarrow> y \<in> set xs \<and> P y"
  by (auto simp: find_Some_iff)

lemma chain_pos_deref:
  "deref lh (b, chain_pos c (buckets lh ! b)) = Some it \<longleftrightarrow>
    (\<exists>pre post. buckets lh ! b = pre @ it # post \<and> chain_pos c (buckets lh ! b) = length pre \<and> c (idata it) = 0)"
proof -
  have "(chain_pos c xs < length xs \<and> xs ! chain_pos c xs = it) \<longleftrightarrow>
      (\<exists>pre post. xs = pre @ it # post \<and> chain_pos c xs = length pre \<and> c (idata it) = 0)" for xs
  proof (induction xs)
    case (Cons x xs)
    show ?case
    proof (cases "c (idata x) = 0")
      case False
      have "(\<exists>pre post. x # xs = pre @ it # post \<and> Suc (chain_pos c xs) = length pre \<and> c (idata it) = 0) \<longleftrightarrow>
          (\<exists>pre post. xs = pre @ it # post \<and> chain_pos c xs = length pre \<and> c (idata it) = 0)"
        by (rule iffI; elim exE conjE)
          (rename_tac pre post, case_tac pre, auto, metis append_Cons length_Cons)
      then show ?thesis using False Cons by simp
    qed auto
  qed simp
  from this [of "buckets lh ! b"] show ?thesis by (auto simp: deref_def)
qed

lemma chain_pos_None:
  "deref lh (b, chain_pos c (buckets lh ! b)) = None \<longleftrightarrow> (\<forall>it \<in> set (buckets lh ! b). c (idata it) \<noteq> 0)"
proof -
  have "length xs \<le> chain_pos c xs \<longleftrightarrow> (\<forall>it \<in> set xs. c (idata it) \<noteq> 0)" for xs
    by (induction xs) auto
  then show ?thesis by (simp add: deref_def not_less flip: not_le)
qed

text \<open>What the table asks of the client's functions.\<close>

locale hash_interface =
  fixes hash :: "'a \<Rightarrow> u32" and cmp :: "'a \<Rightarrow> 'a \<Rightarrow> int"
  assumes cmp_refl: "cmp a a = 0"
    and cmp_sym: "cmp a b = 0 \<Longrightarrow> cmp b a = 0"
    and cmp_trans: "cmp a b = 0 \<Longrightarrow> cmp b c = 0 \<Longrightarrow> cmp a c = 0"
    and hash_equal: "cmp a b = 0 \<Longrightarrow> hash a = hash b"

context hash_interface
begin

lemma one_eachD: "one_each cmp M \<Longrightarrow> y \<in># M \<Longrightarrow> z \<in># M \<Longrightarrow> cmp y x = 0 \<Longrightarrow> cmp z x = 0 \<Longrightarrow> y = z"
proof (rule ccontr)
  assume M: "one_each cmp M" "y \<in># M" "z \<in># M" "cmp y x = 0" "cmp z x = 0" "y \<noteq> z"
  then obtain N where N: "M = add_mset y (add_mset z N)"
    by (metis insert_DiffM insert_noteq_member)
  from M(1) [unfolded one_each_def, rule_format, of x] show False
    using M(4,5) by (simp add: N)
qed

lemma lh_map_Some:
  assumes "one_each cmp (lh_elems lh)"
  shows "lh_map cmp lh x = Some y \<longleftrightarrow> y \<in># lh_elems lh \<and> cmp y x = 0"
proof -
  let ?xs = "map idata (concat (buckets lh))"
  have e: "y \<in># lh_elems lh \<longleftrightarrow> y \<in> set ?xs" for y by (simp add: lh_elems_def)
  show ?thesis
  proof
    assume "lh_map cmp lh x = Some y"
    then show "y \<in># lh_elems lh \<and> cmp y x = 0"
      unfolding lh_map_def e by (rule find_SomeD)
  next
    assume y: "y \<in># lh_elems lh \<and> cmp y x = 0"
    then obtain z where z: "find (\<lambda>y. cmp y x = 0) ?xs = Some z"
      unfolding e by (cases "find (\<lambda>y. cmp y x = 0) ?xs") (auto simp: find_None_iff)
    have "z \<in> set ?xs" "cmp z x = 0" using find_SomeD [OF z] by auto
    then have "z = y" using one_eachD [OF assms, of z y x] y e by blast
    then show "lh_map cmp lh x = Some y" using z by (simp add: lh_map_def)
  qed
qed

lemma lh_map_None: "lh_map cmp lh x = None \<longleftrightarrow> (\<forall>y. y \<in># lh_elems lh \<longrightarrow> cmp y x \<noteq> 0)"
  by (auto simp: lh_map_def find_None_iff lh_elems_def)

text \<open>An element that compares equal is in the bucket of the hash.\<close>

lemma equal_in_bucket:
  assumes "lh_inv hash cmp lh" "y \<in># lh_elems lh" "cmp y x = 0"
  shows "\<exists>it \<in> set (buckets lh ! (unat (hash x) mod num_buckets lh)). idata it = y"
  using assms(2) lh_invD(2,4) [OF assms(1)] hash_equal [OF assms(3)]
  by (fastforce simp: in_elems well_placed_def)

lemma next_ptr_lookup:
  assumes "lh_inv hash cmp lh"
  shows "map_option idata (deref lh (fst (get_next_ptr_and_hash hash cmp lh x))) = lh_map cmp lh x"
proof -
  let ?b = "unat (hash x) mod num_buckets lh"
  have b: "?b < length (buckets lh)" using lh_invD(1,2) [OF assms] by simp
  have n: "fst (get_next_ptr_and_hash hash cmp lh x) = (?b, chain_pos (\<lambda>y. cmp y x) (buckets lh ! ?b))"
    by (simp add: get_next_ptr_and_hash_def Let_def)
  show ?thesis
  proof (cases "deref lh (?b, chain_pos (\<lambda>y. cmp y x) (buckets lh ! ?b))")
    case None
    then have "lh_map cmp lh x = None"
      unfolding chain_pos_None lh_map_None using equal_in_bucket [OF assms] by fastforce
    then show ?thesis using None n by simp
  next
    case (Some it)
    then have "it \<in> set (buckets lh ! ?b)" "cmp (idata it) x = 0" by (auto simp: chain_pos_deref)
    then have "lh_map cmp lh x = Some (idata it)"
      unfolding lh_map_Some [OF lh_invD(5) [OF assms]] using b by (auto simp: in_elems)
    then show ?thesis using Some n by simp
  qed
qed

lemma lh_retrieve_map: "lh_inv hash cmp lh \<Longrightarrow> lh_retrieve hash cmp lh x = lh_map cmp lh x"
  by (simp add: lh_retrieve_def next_ptr_lookup)

lemma lh_retrieve_key_map:
  assumes "lh_inv hash cmp lh" "hash x = key_hash" "\<And>v. cmp_key key v = 0 \<longleftrightarrow> cmp v x = 0"
  shows "lh_retrieve_key cmp_key lh key key_hash = lh_map cmp lh x"
proof -
  have "chain_pos (cmp_key key) xs = chain_pos (\<lambda>y. cmp y x) xs" for xs :: "'a LHASH_ITEM list"
    by (induction xs) (simp_all add: assms(3))
  then have "get_next_ptr_by_key cmp_key lh key key_hash = fst (get_next_ptr_and_hash hash cmp lh x)"
    using assms(2) by (simp add: get_next_ptr_by_key_def get_next_ptr_and_hash_def Let_def)
  then show ?thesis using next_ptr_lookup [OF assms(1), of x] by (simp add: lh_retrieve_key_def)
qed

text \<open>Replacing the element that compares equal, adding one, removing one.\<close>

lemma size_equal_add:
  "size {#y \<in># add_mset z M. cmp y x = 0#} = (if cmp z x = 0 then 1 else 0) + size {#y \<in># M. cmp y x = 0#}"
  by simp

lemma one_each_replace:
  assumes "one_each cmp (add_mset old M)" "cmp old d = 0"
  shows "one_each cmp (add_mset d M)"
proof -
  have "cmp d x = 0 \<longleftrightarrow> cmp old x = 0" for x
    using assms(2) cmp_sym cmp_trans by blast
  then show ?thesis using assms(1) by (simp only: one_each_def size_equal_add simp_thms)
qed

lemma one_each_add:
  assumes "one_each cmp M" "\<forall>y. y \<in># M \<longrightarrow> cmp y d \<noteq> 0"
  shows "one_each cmp (add_mset d M)"
  unfolding one_each_def
proof
  fix x
  show "size {#y \<in># add_mset d M. cmp y x = 0#} \<le> 1"
  proof (cases "cmp d x = 0")
    case True
    have "\<forall>y. y \<in># M \<longrightarrow> cmp y x \<noteq> 0" using assms(2) True cmp_sym cmp_trans by blast
    then have "{#y \<in># M. cmp y x = 0#} = {#}"
      by (intro multiset_eqI) (auto simp: count_eq_zero_iff)
    then show ?thesis using True by simp
  qed (use assms(1) in \<open>simp add: one_each_def\<close>)
qed

lemma one_each_sub: "one_each cmp (add_mset y M) \<Longrightarrow> one_each cmp M"
  unfolding one_each_def size_equal_add by (metis add_leD2)

lemma lh_map_eqI:
  assumes "one_each cmp (lh_elems lh)" "\<And>y. r = Some y \<longleftrightarrow> y \<in># lh_elems lh \<and> cmp y x = 0"
  shows "lh_map cmp lh x = r"
  using lh_map_Some [OF assms(1), of x] assms(2) by (cases "lh_map cmp lh x"; cases r) auto

text \<open>The map after an element is put in the place of the one that compares equal, and after an
  element is taken out.\<close>

lemma lh_map_put:
  assumes "one_each cmp (lh_elems lh)" "one_each cmp (lh_elems lh')" "lh_elems lh' = add_mset d M"
    and "lh_elems lh = M \<or> (\<exists>old. lh_elems lh = add_mset old M \<and> cmp old d = 0)"
  shows "lh_map cmp lh' x = (if cmp d x = 0 then Some d else lh_map cmp lh x)"
proof (cases "cmp d x = 0")
  case True
  then show ?thesis using lh_map_Some [OF assms(2), of x d] assms(3) by simp
next
  case False
  then have "y \<in># lh_elems lh' \<and> cmp y x = 0 \<longleftrightarrow> y \<in># lh_elems lh \<and> cmp y x = 0" for y
    using assms(3,4) cmp_sym cmp_trans by (metis insert_iff set_mset_add_mset_insert)
  then have "lh_map cmp lh' x = lh_map cmp lh x"
    using lh_map_Some [OF assms(1), of x] by (intro lh_map_eqI [OF assms(2)]) simp
  then show ?thesis using False by simp
qed

lemma lh_map_take:
  assumes "one_each cmp (lh_elems lh)" "lh_elems lh = add_mset old (lh_elems lh')" "cmp old d = 0"
  shows "lh_map cmp lh' x = (if cmp d x = 0 then None else lh_map cmp lh x)"
proof -
  have o': "one_each cmp (lh_elems lh')" using assms(1,2) one_each_sub by metis
  show ?thesis
  proof (cases "cmp d x = 0")
    case True
    then have ox: "cmp old x = 0" using assms(3) cmp_trans by blast
    have "cmp y x \<noteq> 0" if "y \<in># lh_elems lh'" for y
    proof
      assume "cmp y x = 0"
      moreover from multi_member_split [OF that] obtain N where "lh_elems lh' = add_mset y N" ..
      ultimately show False
        using assms(1) ox unfolding one_each_def assms(2) by (force simp: dest: spec [of _ x])
    qed
    then show ?thesis using True by (simp add: lh_map_None)
  next
    case False
    then have "cmp old x \<noteq> 0" using assms(3) cmp_sym cmp_trans by blast
    then have "lh_map cmp lh' x = lh_map cmp lh x"
      using lh_map_Some [OF assms(1), of x] assms(2) by (intro lh_map_eqI [OF o']) auto
    then show ?thesis using False by simp
  qed
qed

end

section \<open>Resizing\<close>

lemma rebucket_fold:
  assumes "length bs = n" "0 < n"
  shows "length (fold (rebucket_item n) its bs) = n \<and>
    mset (concat (fold (rebucket_item n) its bs)) = mset its + mset (concat bs) \<and>
    (\<forall>b < n. set (fold (rebucket_item n) its bs ! b) = set (bs ! b) \<union> {it \<in> set its. unat (ihash it) mod n = b})"
  using assms(1)
proof (induction its arbitrary: bs)
  case (Cons it its)
  let ?k = "unat (ihash it) mod n"
  let ?bs = "bs[?k := it # bs ! ?k]"
  have k: "?k < length bs" using Cons.prems assms(2) by simp
  have "mset (concat ?bs) + mset (bs ! ?k) = mset (concat bs) + mset (it # bs ! ?k)"
    using k by (rule mset_concat_update)
  then have m: "mset (concat ?bs) = add_mset it (mset (concat bs))" by simp
  have l: "length ?bs = n" using Cons.prems by simp
  show ?case using Cons.IH [OF l] m k Cons.prems by (auto simp: rebucket_item_def Let_def nth_list_update)
qed auto

lemma lh_rebucket_keeps:
  assumes "lh_inv hash cmp lh" "kMinNumBuckets \<le> n"
  shows "lh_inv hash cmp (lh_rebucket mal lh n) \<and> lh_elems (lh_rebucket mal lh n) = lh_elems lh"
proof (cases "lh_rebucket mal lh n = lh")
  case False
  let ?its = "concat (buckets lh)"
  let ?bs = "fold (rebucket_item n) ?its (replicate n [])"
  have t: "take (num_buckets lh) (buckets lh) = buckets lh" using lh_invD(2) [OF assms(1)] by simp
  have r: "lh_rebucket mal lh n = lh\<lparr>num_buckets := n, buckets := ?bs\<rparr>"
    using False by (auto simp: lh_rebucket_def Let_def t split: if_splits option.splits)
  have n: "0 < n" using assms(2) by (simp add: kMinNumBuckets_def)
  note f = rebucket_fold [of "replicate n []" n ?its, OF length_replicate n]
  have e: "lh_elems (lh\<lparr>num_buckets := n, buckets := ?bs\<rparr>) = lh_elems lh"
    using f by (simp add: lh_elems_def flip: mset_map) (simp add: mset_map)
  have "well_placed hash (lh\<lparr>num_buckets := n, buckets := ?bs\<rparr>)"
    using f lh_invD(2,4) [OF assms(1)]
    by (fastforce simp: well_placed_def in_set_conv_nth [of _ "buckets lh"])
  then show ?thesis using r f e assms by (simp add: lh_inv_def)
qed (use assms in simp)

lemma lh_maybe_resize_keeps:
  assumes "lh_inv hash cmp lh"
  shows "lh_inv hash cmp (lh_maybe_resize mal lh) \<and> lh_elems (lh_maybe_resize mal lh) = lh_elems lh"
proof -
  have "kMinNumBuckets \<le> num_buckets lh" using assms by (simp add: lh_inv_def)
  then show ?thesis
    using assms lh_rebucket_keeps [OF assms] unfolding lh_maybe_resize_def Let_def
    by (auto intro: le_trans less_imp_le)
qed

section \<open>The operations on the map\<close>

context hash_interface
begin

lemma lh_inv_elems: "lh_inv hash cmp lh \<Longrightarrow> lh_inv hash cmp lh' \<Longrightarrow> lh_elems lh' = lh_elems lh \<Longrightarrow> lh_map cmp lh' = lh_map cmp lh"
proof
  fix x
  assume i: "lh_inv hash cmp lh" "lh_inv hash cmp lh'" "lh_elems lh' = lh_elems lh"
  then show "lh_map cmp lh' x = lh_map cmp lh x"
    using lh_map_Some [OF lh_invD(5), OF i(1), of x] by (intro lh_map_eqI) (auto dest: lh_invD)
qed

lemma well_placed_update:
  assumes "well_placed hash lh" "b < num_buckets lh" "length (buckets lh) = num_buckets lh"
    and "\<forall>it \<in> set c. it \<in> set (buckets lh ! b) \<or> ihash it = hash (idata it) \<and> unat (ihash it) mod num_buckets lh = b"
  shows "well_placed hash (lh\<lparr>buckets := (buckets lh)[b := c]\<rparr>)"
proof (unfold well_placed_def, intro allI impI ballI)
  let ?lh = "lh\<lparr>buckets := (buckets lh)[b := c]\<rparr>"
  fix b' it
  assume "b' < num_buckets ?lh" "it \<in> set (buckets ?lh ! b')"
  then have a: "b' < num_buckets lh" "it \<in> set ((buckets lh)[b := c] ! b')" by simp_all
  have "ihash it = hash (idata it) \<and> unat (ihash it) mod num_buckets lh = b'"
  proof (cases "b' = b")
    case True
    then have "it \<in> set c" using a assms(2,3) by simp
    then show ?thesis using assms(1,2,4) True unfolding well_placed_def by blast
  next
    case False
    then have "it \<in> set (buckets lh ! b')" using a by simp
    then show ?thesis using assms(1) a unfolding well_placed_def by blast
  qed
  then show "ihash it = hash (idata it) \<and> unat (ihash it) mod num_buckets ?lh = b'" by auto
qed

lemma well_placed_num_items: "well_placed hash (lh\<lparr>num_items := n\<rparr>) = well_placed hash lh"
  by (simp add: well_placed_def)

lemma lh_elems_num_items [simp]: "lh_elems (lh\<lparr>num_items := n\<rparr>) = lh_elems lh"
  by (simp add: lh_elems_def)

lemma lh_insert_correct:
  assumes inv: "lh_inv hash cmp lh"
  shows "(\<exists>lh'. lh_insert mal hash cmp lh d = (True, lh_map cmp lh d, lh') \<and> lh_inv hash cmp lh' \<and>
           (\<forall>x. lh_map cmp lh' x = (if cmp d x = 0 then Some d else lh_map cmp lh x)))
    \<or> (OPENSSL_malloc mal SIZEOF_LHASH_ITEM = None \<and> lh_map cmp lh d = None \<and> lh_insert mal hash cmp lh d = (False, None, lh))"
proof -
  let ?b = "unat (hash d) mod num_buckets lh"
  let ?i = "chain_pos (\<lambda>x. cmp x d) (buckets lh ! ?b)"
  note I = lh_invD [OF inv]
  have b: "?b < num_buckets lh" "?b < length (buckets lh)" using I(1,2) by simp_all
  have g: "get_next_ptr_and_hash hash cmp lh d = ((?b, ?i), hash d)"
    by (simp add: get_next_ptr_and_hash_def Let_def)
  have look: "lh_map cmp lh d = map_option idata (deref lh (?b, ?i))"
    using next_ptr_lookup [OF inv, of d] g by simp
  show ?thesis
  proof (cases "deref lh (?b, ?i)")
    case (Some it)
    then obtain pre post where c: "buckets lh ! ?b = pre @ it # post" "?i = length pre" "cmp (idata it) d = 0"
      unfolding chain_pos_deref by blast
    let ?c = "pre @ it\<lparr>idata := d\<rparr> # post"
    let ?lh = "lh\<lparr>buckets := (buckets lh)[?b := ?c]\<rparr>"
    have r: "lh_insert mal hash cmp lh d = (True, lh_map cmp lh d, ?lh)"
      using c Some look by (simp add: lh_insert_def g)
    have "idata it \<in># lh_elems lh" using b c(1) by (auto simp: in_elems)
    then obtain M where M: "lh_elems lh = add_mset (idata it) M" by (metis multi_member_split)
    have M': "lh_elems ?lh = add_mset d M"
      using elems_update [OF b(2), of ?c] c(1) M by simp
    have o: "one_each cmp (lh_elems ?lh)"
      using I(5) one_each_replace c(3) by (simp only: M M')
    have "ihash it = hash d \<and> unat (ihash it) mod num_buckets lh = ?b"
      using I(4) b(1) c hash_equal [OF c(3)] by (simp add: well_placed_def)
    then have "well_placed hash ?lh"
      by (intro well_placed_update I b) (auto simp: c(1))
    then have "lh_inv hash cmp ?lh"
      using inv o I(3) by (simp add: lh_inv_def M M')
    then show ?thesis
      using r lh_map_put [OF I(5) o M'] M c(3) by blast
  next
    case None
    have n: "lh_map cmp lh d = None" using look None by simp
    show ?thesis
    proof (cases "OPENSSL_malloc mal SIZEOF_LHASH_ITEM")
      case None
      then show ?thesis using \<open>deref lh (?b, ?i) = None\<close> n by (simp add: lh_insert_def g)
    next
      case (Some m)
      let ?it = "\<lparr>idata = d, ihash = hash d\<rparr>"
      let ?l1 = "lh\<lparr>buckets := (buckets lh)[?b := buckets lh ! ?b @ [?it]]\<rparr>"
      let ?lh = "?l1\<lparr>num_items := num_items lh + 1\<rparr>"
      have r: "lh_insert mal hash cmp lh d = (True, None, lh_maybe_resize mal ?lh)"
        using Some None by (simp add: lh_insert_def g Let_def)
      have M': "lh_elems ?lh = add_mset d (lh_elems lh)"
        using elems_update [OF b(2), of "buckets lh ! ?b @ [?it]"] by (simp add: lh_elems_def)
      have "\<forall>y. y \<in># lh_elems lh \<longrightarrow> cmp y d \<noteq> 0" using n by (simp add: lh_map_None)
      then have o: "one_each cmp (lh_elems ?lh)" unfolding M' using I(5) one_each_add by blast
      have "well_placed hash ?lh"
        unfolding well_placed_num_items by (intro well_placed_update I b) auto
      then have inv': "lh_inv hash cmp ?lh"
        using inv o I(3) M' by (simp add: lh_inv_def)
      note k = lh_maybe_resize_keeps [OF inv', of mal]
      have "lh_map cmp (lh_maybe_resize mal ?lh) x = (if cmp d x = 0 then Some d else lh_map cmp lh x)" for x
        using lh_map_put [OF I(5) o M', of x] lh_inv_elems [OF inv'] k by auto
      then show ?thesis using r k n by auto
    qed
  qed
qed

lemma lh_delete_correct:
  assumes inv: "lh_inv hash cmp lh"
  shows "\<exists>lh'. lh_delete mal hash cmp lh d = (lh_map cmp lh d, lh') \<and> lh_inv hash cmp lh' \<and>
    (\<forall>x. lh_map cmp lh' x = (if cmp d x = 0 then None else lh_map cmp lh x))"
proof -
  let ?b = "unat (hash d) mod num_buckets lh"
  let ?i = "chain_pos (\<lambda>x. cmp x d) (buckets lh ! ?b)"
  note I = lh_invD [OF inv]
  have b: "?b < num_buckets lh" "?b < length (buckets lh)" using I(1,2) by simp_all
  have g: "get_next_ptr_and_hash hash cmp lh d = ((?b, ?i), hash d)"
    by (simp add: get_next_ptr_and_hash_def Let_def)
  have look: "lh_map cmp lh d = map_option idata (deref lh (?b, ?i))"
    using next_ptr_lookup [OF inv, of d] g by simp
  show ?thesis
  proof (cases "deref lh (?b, ?i)")
    case None
    then have n: "lh_map cmp lh d = None" using look by simp
    have "lh_map cmp lh x = None" if "cmp d x = 0" for x
      using n that unfolding lh_map_None by (meson cmp_sym cmp_trans)
    then show ?thesis using None inv n by (intro exI [of _ lh]) (simp add: lh_delete_def g)
  next
    case (Some it)
    then obtain pre post where c: "buckets lh ! ?b = pre @ it # post" "?i = length pre" "cmp (idata it) d = 0"
      unfolding chain_pos_deref by blast
    let ?l1 = "lh\<lparr>buckets := (buckets lh)[?b := pre @ post]\<rparr>"
    let ?lh = "?l1\<lparr>num_items := num_items lh - 1\<rparr>"
    have r: "lh_delete mal hash cmp lh d = (lh_map cmp lh d, lh_maybe_resize mal ?lh)"
      using c Some look by (simp add: lh_delete_def g Let_def)
    obtain N where N: "lh_elems lh = add_mset (idata it) N" "lh_elems ?l1 = N"
      by (rule that [OF _ refl]) (use elems_update [OF b(2), of "pre @ post"] c(1) in simp)
    then have M: "lh_elems lh = add_mset (idata it) (lh_elems ?lh)" by simp
    have "well_placed hash ?lh"
      unfolding well_placed_num_items by (intro well_placed_update I b) (auto simp: c(1))
    moreover have "one_each cmp N" using I(5) one_each_sub by (simp only: N) 
    ultimately have inv': "lh_inv hash cmp ?lh"
      using inv I(3) N by (simp add: lh_inv_def)
    note k = lh_maybe_resize_keeps [OF inv', of mal]
    have "lh_map cmp (lh_maybe_resize mal ?lh) x = (if cmp d x = 0 then None else lh_map cmp lh x)" for x
      using lh_map_take [OF I(5) M c(3), of x] lh_inv_elems [OF inv'] k by auto
    then show ?thesis using r k by blast
  qed
qed

end

section \<open>Walking the table\<close>

lemma lh_doall_arg_correct:
  assumes "lh_inv hash cmp lh" "callback_depth lh < UINT_MAX - 1"
  shows "\<exists>xs lh'. lh_doall_arg mal lh func arg = (fold func xs arg, lh') \<and> mset xs = lh_elems lh \<and>
    lh_inv hash cmp lh' \<and> lh_elems lh' = lh_elems lh"
proof -
  let ?up = "lh\<lparr>callback_depth := callback_depth lh + 1\<rparr>"
  have b: "take (num_buckets lh) (buckets lh) = buckets lh" using assms(1) by (simp add: lh_inv_def)
  have f: "fold (\<lambda>cur. func (idata cur)) ys arg = fold func (map idata ys) arg" for ys
    by (induction ys arbitrary: arg) auto
  have "lh_doall_arg mal lh func arg = (fold func (map idata (concat (buckets lh))) arg, lh_maybe_resize mal lh)"
    using assms(2) by (simp add: lh_doall_arg_def Let_def b f)
  then show ?thesis
    using lh_maybe_resize_keeps [OF assms(1), of mal]
    by (intro exI [of _ "map idata (concat (buckets lh))"]) (auto simp: lh_elems_def)
qed

section \<open>Strings as keys\<close>

text \<open>The table of C strings: an element is the memory of a string, up to a NUL that is appended
  here so that there always is one.\<close>

fun strcmp :: "u8 list \<Rightarrow> u8 list \<Rightarrow> int" where
  "strcmp (x # a) (y # b) = (if x \<noteq> y then uint x - uint y else if x = 0 then 0 else strcmp a b)"
| "strcmp _ _ = 0"

definition str_hash :: "u8 list \<Rightarrow> u32" where
  "str_hash t = (case lh_strhash (Some (t @ [0])) of None \<Rightarrow> 0 | Some h \<Rightarrow> h)"

definition str_cmp :: "u8 list \<Rightarrow> u8 list \<Rightarrow> int" where
  "str_cmp t u = strcmp (t @ [0]) (u @ [0])"

lemma strcmp_zero: "is_cstr a \<Longrightarrow> is_cstr b \<Longrightarrow> strcmp a b = 0 \<longleftrightarrow> cstr a = cstr b"
proof (induction a b rule: strcmp.induct)
  case (1 x a y b)
  have "x \<noteq> y \<Longrightarrow> uint x - uint y \<noteq> 0" by (simp add: word_uint_eq_iff)
  then show ?case using 1 by (auto simp: cstr_def is_cstr_def)
qed (auto simp: is_cstr_def)

lemma take_cstr: "take (length (cstr s)) s = cstr s"
  unfolding cstr_def by (metis takeWhile_eq_take)

lemma str_hash_eq: "str_hash t = OPENSSL_hash32 (cstr (t @ [0]))"
  by (simp add: str_hash_def lh_strhash_def strlen_cstr is_cstr_def take_cstr del: take_append)

lemma str_cmp_zero: "str_cmp t u = 0 \<longleftrightarrow> cstr (t @ [0]) = cstr (u @ [0])"
  by (simp add: str_cmp_def strcmp_zero is_cstr_def)

interpretation lh_strings: hash_interface str_hash str_cmp
  by unfold_locales (simp_all add: str_cmp_zero str_hash_eq)

lemmas lh_strings_correct =
  lh_strings.lh_retrieve_map lh_strings.lh_insert_correct lh_strings.lh_delete_correct

section \<open>A session\<close>

text \<open>A sequence of calls on one table, and the same on a map in which equal keys share a value.
  Each call answers with the element it found.\<close>

datatype 'a call = Insert 'a | Delete 'a | Retrieve 'a

fun lh_calls :: "allocator \<Rightarrow> ('a \<Rightarrow> u32) \<Rightarrow> ('a \<Rightarrow> 'a \<Rightarrow> int) \<Rightarrow> 'a LHASH \<Rightarrow> 'a call list \<Rightarrow> 'a option list" where
  "lh_calls mal hash cmp lh [] = []"
| "lh_calls mal hash cmp lh (Insert d # cs) =
     (let (ok, old, lh) = lh_insert mal hash cmp lh d in old # lh_calls mal hash cmp lh cs)"
| "lh_calls mal hash cmp lh (Delete d # cs) =
     (let (old, lh) = lh_delete mal hash cmp lh d in old # lh_calls mal hash cmp lh cs)"
| "lh_calls mal hash cmp lh (Retrieve d # cs) =
     lh_retrieve hash cmp lh d # lh_calls mal hash cmp lh cs"

fun map_calls :: "('a \<Rightarrow> 'a \<Rightarrow> int) \<Rightarrow> ('a \<Rightarrow> 'a option) \<Rightarrow> 'a call list \<Rightarrow> 'a option list" where
  "map_calls cmp m [] = []"
| "map_calls cmp m (Insert d # cs) = m d # map_calls cmp (\<lambda>x. if cmp d x = 0 then Some d else m x) cs"
| "map_calls cmp m (Delete d # cs) = m d # map_calls cmp (\<lambda>x. if cmp d x = 0 then None else m x) cs"
| "map_calls cmp m (Retrieve d # cs) = m d # map_calls cmp m cs"

context hash_interface
begin

lemma lh_calls_map:
  assumes "OPENSSL_malloc mal SIZEOF_LHASH_ITEM \<noteq> None"
  shows "lh_inv hash cmp lh \<Longrightarrow> lh_calls mal hash cmp lh cs = map_calls cmp (lh_map cmp lh) cs"
proof (induction cs arbitrary: lh)
  case (Cons c cs)
  show ?case
  proof (cases c)
    case (Insert d)
    obtain lh' where i: "lh_insert mal hash cmp lh d = (True, lh_map cmp lh d, lh')" "lh_inv hash cmp lh'"
      and m: "\<forall>x. lh_map cmp lh' x = (if cmp d x = 0 then Some d else lh_map cmp lh x)"
      using lh_insert_correct [OF Cons.prems, of mal d] assms by blast
    from m have "lh_map cmp lh' = (\<lambda>x. if cmp d x = 0 then Some d else lh_map cmp lh x)" by blast
    then show ?thesis using Insert i Cons.IH [OF i(2)] by simp
  next
    case (Delete d)
    obtain lh' where i: "lh_delete mal hash cmp lh d = (lh_map cmp lh d, lh')" "lh_inv hash cmp lh'"
      and m: "\<forall>x. lh_map cmp lh' x = (if cmp d x = 0 then None else lh_map cmp lh x)"
      using lh_delete_correct [OF Cons.prems, of mal d] by blast
    from m have "lh_map cmp lh' = (\<lambda>x. if cmp d x = 0 then None else lh_map cmp lh x)" by blast
    then show ?thesis using Delete i Cons.IH [OF i(2)] by simp
  next
    case (Retrieve d)
    then show ?thesis using Cons.IH [OF Cons.prems] lh_retrieve_map [OF Cons.prems] by simp
  qed
qed simp

end

text \<open>A table with one string, for concrete runs.\<close>

definition table_a :: "u8 list LHASH" where
  "table_a = \<lparr>num_items = 1, buckets = replicate 12 [] @ [[\<lparr>idata = [97], ihash = 0xe40c292c\<rparr>]] @ replicate 3 [],
     num_buckets = 16, callback_depth = 0\<rparr>"

lemma str_hash_a: "str_hash [97] = 0xe40c292c"
  by (simp add: str_hash_eq cstr_def OPENSSL_hash32_def)

lemma table_a_inv: "lh_inv str_hash str_cmp table_a" "lh_elems table_a = {#[97]#}"
  by (auto simp: table_a_def lh_inv_def lh_elems_def kMinNumBuckets_def well_placed_def one_each_def nth_append nth_Cons'
      str_hash_a split: if_splits)

end
