(* ===== verification/StreamModes.thy ===== *)
theory StreamModes
  imports Prelude
begin

text \<open>
  \<^verbatim>\<open>crypto/fipsmodule/modes/{cfb,ofb,ctr}.c\<close>: the modes that turn a block cipher into a stream
  cipher. The block function with its key is a parameter; \<open>ivec\<close>, \<open>ecount_buf\<close> and the position
  \<open>*num\<close> in the block are the state that a call takes and leaves. \<open>in\<close> and \<open>out\<close> are the same
  buffer or do not overlap: every byte is read before the byte of the same index is written. The
  loops that move words are the exclusive or of the 16 bytes.

  Each optimised routine is shown to be the fold of a step on one byte, so a message may be cut
  into calls anywhere; decryption inverts encryption; the 32-bit counter routine is the 128-bit one.
\<close>

section \<open>The code\<close>

type_synonym block_fn = "u8 list \<Rightarrow> u8 list"

definition xor_bytes :: "u8 list \<Rightarrow> u8 list \<Rightarrow> u8 list" where
  "xor_bytes xs ys = map2 (XOR) xs ys"

subsection \<open>OFB\<close>

text \<open>\<open>while (n && len)\<close>: the output, the position and the input that is left.\<close>

fun ofb_head :: "u8 list \<Rightarrow> nat \<Rightarrow> u8 list \<Rightarrow> u8 list \<times> nat \<times> u8 list" where
  "ofb_head ks n [] = ([], n, [])"
| "ofb_head ks n (x # xs) =
     (if n \<noteq> 0 then
        let (out, n', rest) = ofb_head ks ((n + 1) mod 16) xs in ((x XOR ks ! n) # out, n', rest)
      else ([], n, x # xs))"

text \<open>\<open>while (len >= 16)\<close>; the position is 0 here.\<close>

function ofb_blocks :: "block_fn \<Rightarrow> u8 list \<Rightarrow> u8 list \<Rightarrow> u8 list \<times> u8 list \<times> u8 list" where
  "ofb_blocks block ivec inp =
     (if length inp \<ge> 16 then
        let ivec = block ivec;
            (out, ivec', rest) = ofb_blocks block ivec (drop 16 inp)
        in (xor_bytes (take 16 inp) ivec @ out, ivec', rest)
      else ([], ivec, inp))"
  by pat_completeness auto
termination by (relation "measure (\<lambda>(_, _, inp). length inp)") auto

declare ofb_blocks.simps [simp del]

definition CRYPTO_ofb128_encrypt :: "block_fn \<Rightarrow> u8 list \<Rightarrow> u8 list \<Rightarrow> nat \<Rightarrow> u8 list \<times> u8 list \<times> nat" where
  "CRYPTO_ofb128_encrypt block inp ivec num =
     (let (out1, n, inp) = ofb_head ivec num inp;
          (out2, ivec, inp) = ofb_blocks block ivec inp
      in if inp \<noteq> [] then
           let ivec = block ivec in (out1 @ out2 @ xor_bytes inp (drop n ivec), ivec, n + length inp)
         else (out1 @ out2, ivec, n))"

subsection \<open>CFB\<close>

fun cfb_head :: "bool \<Rightarrow> u8 list \<Rightarrow> nat \<Rightarrow> u8 list \<Rightarrow> u8 list \<times> u8 list \<times> nat \<times> u8 list" where
  "cfb_head enc ivec n [] = ([], ivec, n, [])"
| "cfb_head enc ivec n (x # xs) =
     (if n \<noteq> 0 then
        let y = ivec ! n XOR x;
            (out, ivec', n', rest) = cfb_head enc (ivec[n := (if enc then y else x)]) ((n + 1) mod 16) xs
        in (y # out, ivec', n', rest)
      else ([], ivec, n, x # xs))"

function cfb_blocks :: "bool \<Rightarrow> block_fn \<Rightarrow> u8 list \<Rightarrow> u8 list \<Rightarrow> u8 list \<times> u8 list \<times> u8 list" where
  "cfb_blocks enc block ivec inp =
     (if length inp \<ge> 16 then
        let ivec = block ivec;
            t = take 16 inp;
            y = xor_bytes t ivec;
            (out, ivec', rest) = cfb_blocks enc block (if enc then y else t) (drop 16 inp)
        in (y @ out, ivec', rest)
      else ([], ivec, inp))"
  by pat_completeness auto
termination by (relation "measure (\<lambda>(_, _, _, inp). length inp)") auto

declare cfb_blocks.simps [simp del]

definition CRYPTO_cfb128_encrypt :: "block_fn \<Rightarrow> u8 list \<Rightarrow> u8 list \<Rightarrow> nat \<Rightarrow> bool \<Rightarrow> u8 list \<times> u8 list \<times> nat" where
  "CRYPTO_cfb128_encrypt block inp ivec num enc =
     (let (out1, ivec, n, inp) = cfb_head enc ivec num inp;
          (out2, ivec, inp) = cfb_blocks enc block ivec inp
      in if inp \<noteq> [] then
           let ivec = block ivec;
               y = xor_bytes inp (drop n ivec)
           in (out1 @ out2 @ y,
               take n ivec @ (if enc then y else inp) @ drop (n + length inp) ivec, n + length inp)
         else (out1 @ out2, ivec, n))"

text \<open>
  A step on \<open>nbits\<close> bits. \<open>ovec\<close> is the old IV followed by the bytes of ciphertext; the bytes
  behind them are not read. \<open>None\<close> is the return for a bad \<open>nbits\<close>, which leaves everything.
\<close>

definition cfbr_encrypt_block :: "block_fn \<Rightarrow> u8 list \<Rightarrow> nat \<Rightarrow> u8 list \<Rightarrow> bool \<Rightarrow> (u8 list \<times> u8 list) option" where
  "cfbr_encrypt_block block inp nbits ivec enc =
     (if nbits = 0 \<or> nbits > 128 then None
      else
        let old = ivec;
            ivec = block ivec;
            num = (nbits + 7) div 8;
            out = xor_bytes (take num inp) ivec;
            ovec = old @ (if enc then out else take num inp);
            rem = nbits mod 8;
            num = nbits div 8
        in Some (out,
             if rem = 0 then take 16 (drop num ovec)
             else map (\<lambda>n. push_bit rem (ovec ! (n + num)) OR drop_bit (8 - rem) (ovec ! (n + num + 1))) [0..<16]))"

text \<open>The bits of a packed message; \<open>out\<close> keeps the bits that are not written yet.\<close>

fun cfb1_loop :: "block_fn \<Rightarrow> u8 list \<Rightarrow> bool \<Rightarrow> nat \<Rightarrow> nat \<Rightarrow> u8 list \<Rightarrow> u8 list \<Rightarrow> u8 list \<times> u8 list" where
  "cfb1_loop block inp enc n 0 out ivec = (out, ivec)"
| "cfb1_loop block inp enc n (Suc k) out ivec =
     (let c = (if inp ! (n div 8) AND push_bit (7 - n mod 8) 1 \<noteq> 0 then 0x80 else 0 :: u8)
      in case cfbr_encrypt_block block [c] 1 ivec enc of
           None \<Rightarrow> (out, ivec)
         | Some (d, ivec) \<Rightarrow>
             cfb1_loop block inp enc (n + 1) k
               (out[n div 8 := (out ! (n div 8) AND NOT (push_bit (7 - n mod 8) 1))
                               OR drop_bit (n mod 8) (d ! 0 AND 0x80)]) ivec)"

definition CRYPTO_cfb128_1_encrypt :: "block_fn \<Rightarrow> u8 list \<Rightarrow> u8 list \<Rightarrow> nat \<Rightarrow> u8 list \<Rightarrow> bool \<Rightarrow> u8 list \<times> u8 list" where
  "CRYPTO_cfb128_1_encrypt block inp out bits ivec enc = cfb1_loop block inp enc 0 bits out ivec"

fun CRYPTO_cfb128_8_encrypt :: "block_fn \<Rightarrow> u8 list \<Rightarrow> u8 list \<Rightarrow> bool \<Rightarrow> u8 list \<times> u8 list" where
  "CRYPTO_cfb128_8_encrypt block [] ivec enc = ([], ivec)"
| "CRYPTO_cfb128_8_encrypt block (x # xs) ivec enc =
     (case cfbr_encrypt_block block [x] 8 ivec enc of
        None \<Rightarrow> ([], ivec)
      | Some (d, ivec) \<Rightarrow> let (out, ivec) = CRYPTO_cfb128_8_encrypt block xs ivec enc in (d @ out, ivec))"

subsection \<open>CTR\<close>

text \<open>The loop \<open>do { --n; c += counter[n]; counter[n] = c; c >>= 8; } while (n)\<close>.\<close>

fun ctr_inc :: "nat \<Rightarrow> u32 \<Rightarrow> u8 list \<Rightarrow> u8 list" where
  "ctr_inc 0 c counter = counter"
| "ctr_inc (Suc n) c counter =
     (let c = c + ucast (counter ! n) in ctr_inc n (drop_bit 8 c) (counter[n := ucast c]))"

definition ctr128_inc :: "u8 list \<Rightarrow> u8 list" where
  "ctr128_inc counter = ctr_inc 16 1 counter"

function ctr_blocks :: "block_fn \<Rightarrow> u8 list \<Rightarrow> u8 list \<Rightarrow> u8 list \<Rightarrow> u8 list \<times> u8 list \<times> u8 list \<times> u8 list" where
  "ctr_blocks block ivec ecount_buf inp =
     (if length inp \<ge> 16 then
        let ecount_buf = block ivec;
            (out, ivec', ecount_buf', rest) = ctr_blocks block (ctr128_inc ivec) ecount_buf (drop 16 inp)
        in (xor_bytes (take 16 inp) ecount_buf @ out, ivec', ecount_buf', rest)
      else ([], ivec, ecount_buf, inp))"
  by pat_completeness auto
termination by (relation "measure (\<lambda>(_, _, _, inp). length inp)") auto

declare ctr_blocks.simps [simp del]

definition CRYPTO_ctr128_encrypt ::
    "block_fn \<Rightarrow> u8 list \<Rightarrow> u8 list \<Rightarrow> u8 list \<Rightarrow> nat \<Rightarrow> u8 list \<times> u8 list \<times> u8 list \<times> nat" where
  "CRYPTO_ctr128_encrypt block inp ivec ecount_buf num =
     (let (out1, n, inp) = ofb_head ecount_buf num inp;
          (out2, ivec, ecount_buf, inp) = ctr_blocks block ivec ecount_buf inp
      in if inp \<noteq> [] then
           let ecount_buf = block ivec; ivec = ctr128_inc ivec
           in (out1 @ out2 @ xor_bytes inp (drop n ecount_buf), ivec, ecount_buf, n + length inp)
         else (out1 @ out2, ivec, ecount_buf, n))"

definition ctr96_inc :: "u8 list \<Rightarrow> u8 list" where
  "ctr96_inc counter = ctr_inc 12 1 counter"

definition GETU32 :: "u8 list \<Rightarrow> u32" where
  "GETU32 p = ucast (be_load (take 4 p))"

definition PUTU32 :: "u8 list \<Rightarrow> nat \<Rightarrow> u32 \<Rightarrow> u8 list" where
  "PUTU32 buf off v = take off buf @ fst (be_store 4 (ucast v)) @ drop (off + 4) buf"

text \<open>\<open>(*func)(in, out, blocks, key, ivec)\<close>: the output for the first \<open>blocks\<close> blocks.\<close>

type_synonym ctr_fn = "u8 list \<Rightarrow> nat \<Rightarrow> u8 list \<Rightarrow> u8 list"

text \<open>The number of blocks of one round and the counter after it.\<close>

definition ctr32_round :: "u32 \<Rightarrow> nat \<Rightarrow> nat \<times> u32" where
  "ctr32_round ctr32 len =
     (let blocks = len div 16;
          blocks = (if blocks > 2 ^ 28 then 2 ^ 28 else blocks);
          ctr32 = ctr32 + of_nat blocks
      in if unat ctr32 < blocks then (blocks - unat ctr32, 0) else (blocks, ctr32))"

lemma ctr32_round_bounds: "16 \<le> len \<Longrightarrow> 0 < fst (ctr32_round c len) \<and> 16 * fst (ctr32_round c len) \<le> len"
  by (auto simp: ctr32_round_def Let_def)

function ctr32_blocks :: "ctr_fn \<Rightarrow> u8 list \<Rightarrow> u32 \<Rightarrow> u8 list \<Rightarrow> u8 list \<times> u8 list \<times> u32 \<times> u8 list" where
  "ctr32_blocks func ivec ctr32 inp =
     (if length inp \<ge> 16 then
        let (blocks, ctr32) = ctr32_round ctr32 (length inp);
            y = func inp blocks ivec;
            ivec = PUTU32 ivec 12 ctr32;
            ivec = (if ctr32 = 0 then ctr96_inc ivec else ivec);
            (out, ivec', ctr32', rest) = ctr32_blocks func ivec ctr32 (drop (16 * blocks) inp)
        in (y @ out, ivec', ctr32', rest)
      else ([], ivec, ctr32, inp))"
  by pat_completeness auto
termination
  by (relation "measure (\<lambda>(_, _, _, inp). length inp)")
    (auto dest!: sym [of "(_, _)" "ctr32_round _ _"], metis ctr32_round_bounds diff_less fst_conv length_greater_0_conv
      less_le_trans mult_pos_pos zero_less_numeral)

declare ctr32_blocks.simps [simp del]

definition CRYPTO_ctr128_encrypt_ctr32 ::
    "ctr_fn \<Rightarrow> u8 list \<Rightarrow> u8 list \<Rightarrow> u8 list \<Rightarrow> nat \<Rightarrow> u8 list \<times> u8 list \<times> u8 list \<times> nat" where
  "CRYPTO_ctr128_encrypt_ctr32 func inp ivec ecount_buf num =
     (let (out1, n, inp) = ofb_head ecount_buf num inp;
          (out2, ivec, ctr32, inp) = ctr32_blocks func ivec (GETU32 (drop 12 ivec)) inp
      in if inp \<noteq> [] then
           let ecount_buf = func (replicate 16 0) 1 ivec;
               ctr32 = ctr32 + 1;
               ivec = PUTU32 ivec 12 ctr32;
               ivec = (if ctr32 = 0 then ctr96_inc ivec else ivec)
           in (out1 @ out2 @ xor_bytes inp (drop n ecount_buf), ivec, ecount_buf, n + length inp)
         else (out1 @ out2, ivec, ecount_buf, n))"

section \<open>Streams of bytes\<close>

fun bytewise :: "('s \<Rightarrow> u8 \<Rightarrow> 's \<times> u8) \<Rightarrow> 's \<Rightarrow> u8 list \<Rightarrow> 's \<times> u8 list" where
  "bytewise step s [] = (s, [])"
| "bytewise step s (x # xs) =
     (let (s, y) = step s x; (s, ys) = bytewise step s xs in (s, y # ys))"

lemma bytewise_append:
  "bytewise step s (xs @ ys) =
    (let (s, out1) = bytewise step s xs; (s, out2) = bytewise step s ys in (s, out1 @ out2))"
  by (induction xs arbitrary: s) (simp_all add: split_beta Let_def)

text \<open>
  A routine that may be called again and again on the pieces of a message. \<open>ok\<close> is the invariant
  of its state.
\<close>

locale byte_stream =
  fixes run :: "'s \<Rightarrow> u8 list \<Rightarrow> 's \<times> u8 list" and step :: "'s \<Rightarrow> u8 \<Rightarrow> 's \<times> u8" and ok :: "'s \<Rightarrow> bool"
  assumes run_step: "ok s \<Longrightarrow> run s xs = bytewise step s xs"
    and ok_step: "ok s \<Longrightarrow> ok (fst (step s x))"

text \<open>Feeding the pieces one after the other.\<close>

fun run_pieces :: "('s \<Rightarrow> u8 list \<Rightarrow> 's \<times> u8 list) \<Rightarrow> 's \<Rightarrow> u8 list list \<Rightarrow> 's \<times> u8 list" where
  "run_pieces run s [] = (s, [])"
| "run_pieces run s (p # ps) =
     (let (s, out) = run s p; (s, rest) = run_pieces run s ps in (s, out @ rest))"

context byte_stream
begin

lemma ok_bytewise: "ok s \<Longrightarrow> ok (fst (bytewise step s xs))"
proof (induction xs arbitrary: s)
  case (Cons x xs)
  then show ?case using ok_step [of s x] by (simp add: split_beta Let_def)
qed simp

lemma ok_run: "ok s \<Longrightarrow> ok (fst (run s xs))"
  by (simp add: run_step ok_bytewise)

lemma run_append: "ok s \<Longrightarrow> run s (xs @ ys) = (let (s, out1) = run s xs; (s, out2) = run s ys in (s, out1 @ out2))"
  using ok_bytewise [of s xs] by (simp add: run_step bytewise_append split_beta Let_def)

lemma run_pieces_concat: "ok s \<Longrightarrow> run_pieces run s ps = run s (concat ps)"
proof (induction ps arbitrary: s)
  case Nil
  then show ?case by (simp add: run_step)
next
  case (Cons p ps)
  have "ok (fst (run s p))" using Cons.prems by (rule ok_run)
  then show ?case using Cons by (simp add: run_append split_beta Let_def)
qed

lemma length_run: "ok s \<Longrightarrow> length (snd (run s xs)) = length xs"
proof -
  have "length (snd (bytewise step s xs)) = length xs" for s
    by (induction xs arbitrary: s) (simp_all add: split_beta Let_def)
  then show "ok s \<Longrightarrow> ?thesis" by (simp add: run_step)
qed

end

text \<open>Two streams, the second of which undoes the first and keeps the same state.\<close>

locale stream_pair = enc: byte_stream enc estep ok + dec: byte_stream dec dstep ok
  for enc :: "'s \<Rightarrow> u8 list \<Rightarrow> 's \<times> u8 list" and estep and dec and dstep and ok +
  assumes undo: "ok s \<Longrightarrow> estep s x = (t, y) \<Longrightarrow> dstep s y = (t, x)"

context stream_pair
begin

lemma dec_enc: "ok s \<Longrightarrow> enc s xs = (t, ys) \<Longrightarrow> dec s ys = (t, xs)"
proof -
  have "ok s \<Longrightarrow> bytewise estep s xs = (t, ys) \<Longrightarrow> bytewise dstep s ys = (t, xs)" for s
  proof (induction xs arbitrary: s ys)
    case (Cons x xs)
    obtain u y where e: "estep s x = (u, y)" by fastforce
    obtain zs where z: "bytewise estep u xs = (t, zs)" "ys = y # zs"
      using Cons.prems(2) by (auto simp: e split_beta Let_def prod_eq_iff)
    have "ok u" using enc.ok_step [OF Cons.prems(1), of x] by (simp add: e)
    then show ?case using Cons.IH [of u zs] z undo [OF Cons.prems(1) e] by simp
  qed simp
  then show "ok s \<Longrightarrow> enc s xs = (t, ys) \<Longrightarrow> dec s ys = (t, xs)"
    by (simp add: enc.run_step dec.run_step)
qed

end

section \<open>OFB is a stream\<close>

definition keeps16 :: "block_fn \<Rightarrow> bool" where
  "keeps16 block \<longleftrightarrow> (\<forall>b. length b = 16 \<longrightarrow> length (block b) = 16)"

definition ofb_step :: "block_fn \<Rightarrow> u8 list \<times> nat \<Rightarrow> u8 \<Rightarrow> (u8 list \<times> nat) \<times> u8" where
  "ofb_step block s x =
     (let (ivec, n) = s; ivec = (if n = 0 then block ivec else ivec)
      in ((ivec, (n + 1) mod 16), x XOR ivec ! n))"

lemma ofb_step_simps [simp]:
  "n \<noteq> 0 \<Longrightarrow> ofb_step block (iv, n) x = ((iv, (n + 1) mod 16), x XOR iv ! n)"
  "ofb_step block (iv, 0) x = ((block iv, 1), x XOR block iv ! 0)"
  by (simp_all add: ofb_step_def Let_def)

definition ofb_run :: "block_fn \<Rightarrow> u8 list \<times> nat \<Rightarrow> u8 list \<Rightarrow> (u8 list \<times> nat) \<times> u8 list" where
  "ofb_run block s inp = (let (out, ivec, num) = CRYPTO_ofb128_encrypt block inp (fst s) (snd s) in ((ivec, num), out))"

definition iv_ok :: "block_fn \<Rightarrow> u8 list \<times> nat \<Rightarrow> bool" where
  "iv_ok block s \<longleftrightarrow> keeps16 block \<and> length (fst s) = 16 \<and> snd s < 16"

lemma xor_bytes_simps [simp]:
  "xor_bytes [] ys = []" "xor_bytes xs [] = []"
  "xor_bytes (x # xs) (y # ys) = (x XOR y) # xor_bytes xs ys"
  by (simp_all add: xor_bytes_def)

lemma length_xor_bytes [simp]: "length (xor_bytes xs ys) = min (length xs) (length ys)"
  by (simp add: xor_bytes_def)

lemma xor_bytes_Cons_drop: "n < length ys \<Longrightarrow> xor_bytes (x # xs) (drop n ys) = (x XOR ys ! n) # xor_bytes xs (drop (Suc n) ys)"
  by (simp add: Cons_nth_drop_Suc [symmetric])

lemma ofb_head_bytewise:
  assumes "ofb_head iv n xs = (out, m, rest)"
  shows "bytewise (ofb_step block) (iv, n) xs =
      (let (s, out2) = bytewise (ofb_step block) (iv, m) rest in (s, out @ out2)) \<and> (rest \<noteq> [] \<longrightarrow> m = 0) \<and> (n < 16 \<longrightarrow> m < 16)"
  using assms
proof (induction xs arbitrary: n out)
  case (Cons x xs)
  show ?case
  proof (cases "n = 0")
    case False
    obtain o' where h: "ofb_head iv ((n + 1) mod 16) xs = (o', m, rest)" "out = (x XOR iv ! n) # o'"
      using Cons.prems False by (auto simp: Let_def split: prod.splits)
    show ?thesis using Cons.IH [OF h(1)] False h(2) by (simp add: split_beta Let_def)
  qed (use Cons.prems in auto)
qed auto

lemma ofb_segment:
  "n \<noteq> 0 \<Longrightarrow> n + length xs \<le> 16 \<Longrightarrow> length iv = 16 \<Longrightarrow>
    bytewise (ofb_step block) (iv, n mod 16) xs = ((iv, (n + length xs) mod 16), xor_bytes xs (drop n iv))"
proof (induction xs arbitrary: n)
  case (Cons x xs)
  then have n: "n mod 16 = n" "n < 16" by simp_all
  have "bytewise (ofb_step block) (iv, Suc n mod 16) xs = ((iv, (Suc n + length xs) mod 16), xor_bytes xs (drop (Suc n) iv))"
    using Cons.prems by (intro Cons.IH) simp_all
  then show ?case
    using n Cons.prems by (simp add: xor_bytes_Cons_drop)
qed simp

lemma ofb_block:
  assumes "keeps16 block" "length iv = 16" "xs \<noteq> []" "length xs \<le> 16"
  shows "bytewise (ofb_step block) (iv, 0) xs = ((block iv, length xs mod 16), xor_bytes xs (block iv))"
proof -
  obtain x ys where xs: "xs = x # ys" using assms(3) by (cases xs) auto
  have l: "length (block iv) = 16" using assms(1,2) by (simp add: keeps16_def)
  then have "xor_bytes xs (block iv) = (x XOR block iv ! 0) # xor_bytes ys (drop 1 (block iv))"
    using xor_bytes_Cons_drop [of 0 "block iv" x ys] by (simp add: xs)
  then show ?thesis
    using ofb_segment [of 1 ys "block iv" block] assms l by (simp add: xs)
qed

lemma ofb_blocks_bytewise:
  assumes "keeps16 block" "length iv = 16" "ofb_blocks block iv inp = (out, iv', rest)"
  shows "bytewise (ofb_step block) (iv, 0) inp = (let (s, out2) = bytewise (ofb_step block) (iv', 0) rest in (s, out @ out2))
    \<and> length rest < 16 \<and> length iv' = 16"
  using assms(2,3)
proof (induction "length inp" arbitrary: inp iv out rule: less_induct)
  case less
  show ?case
  proof (cases "length inp \<ge> 16")
    case True
    have l: "length (block iv) = 16" using assms(1) less.prems(1) by (simp add: keeps16_def)
    obtain o' where r: "ofb_blocks block (block iv) (drop 16 inp) = (o', iv', rest)"
        "out = xor_bytes (take 16 inp) (block iv) @ o'"
      using less.prems(2) True by (subst (asm) ofb_blocks.simps) (auto simp: Let_def split: prod.splits)
    have "bytewise (ofb_step block) (iv, 0) (take 16 inp) = ((block iv, 0), xor_bytes (take 16 inp) (block iv))"
      using ofb_block [OF assms(1) less.prems(1), of "take 16 inp"] True by force
    then have "bytewise (ofb_step block) (iv, 0) (take 16 inp @ drop 16 inp) =
        (let (s, out2) = bytewise (ofb_step block) (block iv, 0) (drop 16 inp) in (s, xor_bytes (take 16 inp) (block iv) @ out2))"
      unfolding bytewise_append by simp
    then show ?thesis
      using less.hyps [OF _ l r(1)] True r(2) by (simp add: split_beta Let_def)
  next
    case False
    then show ?thesis using less.prems by (subst (asm) ofb_blocks.simps) auto
  qed
qed

lemma ofb_run_step:
  assumes "iv_ok block s"
  shows "ofb_run block s xs = bytewise (ofb_step block) s xs"
proof -
  obtain iv n where s: "s = (iv, n)" by fastforce
  have ok: "keeps16 block" "length iv = 16" "n < 16" using assms by (simp_all add: s iv_ok_def)
  obtain out1 m r1 where h: "ofb_head iv n xs = (out1, m, r1)" by (metis prod_cases3)
  obtain out2 iv' r2 where b: "ofb_blocks block iv r1 = (out2, iv', r2)" by (metis prod_cases3)
  note H = ofb_head_bytewise [OF h, of block] and B = ofb_blocks_bytewise [OF ok(1,2) b]
  show ?thesis
  proof (cases "r1 = []")
    case True
    then have "out2 = [] \<and> iv' = iv \<and> r2 = []" using b by (subst (asm) ofb_blocks.simps) simp
    then show ?thesis
      using H True b by (simp add: ofb_run_def CRYPTO_ofb128_encrypt_def s h)
  next
    case False
    then have m: "m = 0" using H by simp
    show ?thesis
    proof (cases "r2 = []")
      case True
      then show ?thesis using H B m by (simp add: ofb_run_def CRYPTO_ofb128_encrypt_def s h b Let_def)
    next
      case False
      then show ?thesis
        using H B m ofb_block [OF ok(1), of iv' r2]
        by (simp add: ofb_run_def CRYPTO_ofb128_encrypt_def s h b Let_def)
    qed
  qed
qed

lemma iv_ok_length: "iv_ok block (iv, n) \<Longrightarrow> length iv = 16 \<and> length (block iv) = 16 \<and> n < 16"
  by (simp add: iv_ok_def keeps16_def)

lemma ofb_step_ok: "iv_ok block s \<Longrightarrow> iv_ok block (fst (ofb_step block s x))"
  by (cases s; cases "snd s = 0") (auto simp: iv_ok_def keeps16_def)

lemma xor_xor_byte [simp]: "(x XOR k) XOR k = (x :: u8)" "(k XOR x) XOR k = x" "k XOR (x XOR k) = x" "k XOR (k XOR x) = x"
  by (simp_all add: bit_eq_iff bit_simps) blast+

lemma ofb_step_undo: "ofb_step block s x = (t, y) \<Longrightarrow> ofb_step block s y = (t, x)"
  by (cases s; cases "snd s = 0") auto

interpretation ofb: stream_pair "ofb_run block" "ofb_step block" "ofb_run block" "ofb_step block" "iv_ok block" for block
  by unfold_locales (auto intro: ofb_run_step ofb_step_ok ofb_step_undo)

section \<open>CFB is a stream\<close>

definition cfb_step :: "bool \<Rightarrow> block_fn \<Rightarrow> u8 list \<times> nat \<Rightarrow> u8 \<Rightarrow> (u8 list \<times> nat) \<times> u8" where
  "cfb_step enc block s x =
     (let (ivec, n) = s; ivec = (if n = 0 then block ivec else ivec); y = ivec ! n XOR x
      in ((ivec[n := (if enc then y else x)], (n + 1) mod 16), y))"

definition cfb_run :: "bool \<Rightarrow> block_fn \<Rightarrow> u8 list \<times> nat \<Rightarrow> u8 list \<Rightarrow> (u8 list \<times> nat) \<times> u8 list" where
  "cfb_run enc block s inp =
     (let (out, ivec, num) = CRYPTO_cfb128_encrypt block inp (fst s) (snd s) enc in ((ivec, num), out))"

lemma cfb_step_simps [simp]:
  "n \<noteq> 0 \<Longrightarrow> cfb_step enc block (iv, n) x = ((iv[n := (if enc then iv ! n XOR x else x)], (n + 1) mod 16), iv ! n XOR x)"
  "cfb_step enc block (iv, 0) x = (((block iv)[0 := (if enc then block iv ! 0 XOR x else x)], 1), block iv ! 0 XOR x)"
  by (simp_all add: cfb_step_def Let_def)

lemma cfb_head_bytewise:
  assumes "cfb_head enc iv n xs = (out, iv', m, rest)"
  shows "bytewise (cfb_step enc block) (iv, n) xs =
      (let (s, out2) = bytewise (cfb_step enc block) (iv', m) rest in (s, out @ out2)) \<and> (rest \<noteq> [] \<longrightarrow> m = 0)
      \<and> (n < 16 \<longrightarrow> m < 16) \<and> length iv' = length iv"
  using assms
proof (induction xs arbitrary: n out iv)
  case (Cons x xs)
  show ?case
  proof (cases "n = 0")
    case False
    let ?y = "iv ! n XOR x"
    obtain o' where h: "cfb_head enc (iv[n := (if enc then ?y else x)]) ((n + 1) mod 16) xs = (o', iv', m, rest)" "out = ?y # o'"
      using Cons.prems False by (auto simp: Let_def split: prod.splits)
    show ?thesis using Cons.IH [OF h(1)] False h(2) by (simp add: split_beta Let_def)
  qed (use Cons.prems in auto)
qed auto

lemma xor_bytes_commute: "xor_bytes xs ys = xor_bytes ys xs"
  unfolding xor_bytes_def by (rule nth_equalityI) (auto simp: xor.commute)

lemma cfb_segment:
  "n \<noteq> 0 \<Longrightarrow> n + length xs \<le> 16 \<Longrightarrow> length iv = 16 \<Longrightarrow>
    bytewise (cfb_step enc block) (iv, n mod 16) xs =
      ((take n iv @ (if enc then xor_bytes xs (drop n iv) else xs) @ drop (n + length xs) iv, (n + length xs) mod 16),
       xor_bytes xs (drop n iv))"
proof (induction xs arbitrary: n iv)
  case (Cons x xs)
  let ?z = "if enc then iv ! n XOR x else x"
  have n: "n mod 16 = n" "n < 16" using Cons.prems by simp_all
  have "bytewise (cfb_step enc block) (iv[n := ?z], Suc n mod 16) xs =
    ((take (Suc n) (iv[n := ?z]) @ (if enc then xor_bytes xs (drop (Suc n) (iv[n := ?z])) else xs)
        @ drop (Suc n + length xs) (iv[n := ?z]), (Suc n + length xs) mod 16),
       xor_bytes xs (drop (Suc n) (iv[n := ?z])))"
    using Cons.prems by (intro Cons.IH) simp_all
  moreover have "take (Suc n) (iv[n := ?z]) = take n iv @ [?z]"
    using n Cons.prems(3) by (simp add: take_Suc_conv_app_nth)
  ultimately show ?case
    using n Cons.prems(1,3) by (simp add: xor_bytes_Cons_drop xor.commute)
qed simp

lemma cfb_block:
  assumes "keeps16 block" "length iv = 16" "xs \<noteq> []" "length xs \<le> 16"
  shows "bytewise (cfb_step enc block) (iv, 0) xs =
    (((if enc then xor_bytes xs (block iv) else xs) @ drop (length xs) (block iv), length xs mod 16), xor_bytes xs (block iv))"
proof -
  obtain x ys where xs: "xs = x # ys" using assms(3) by (cases xs) auto
  let ?b = "block iv"
  let ?z = "if enc then ?b ! 0 XOR x else x"
  have l: "length ?b = 16" using assms(1,2) by (simp add: keeps16_def)
  then have y: "xor_bytes xs ?b = (x XOR ?b ! 0) # xor_bytes ys (drop 1 ?b)"
    using xor_bytes_Cons_drop [of 0 ?b x ys] by (simp add: xs)
  have t: "take 1 (?b[0 := ?z]) = [?z]" using l by (cases ?b) auto
  show ?thesis
    using cfb_segment [of 1 ys "?b[0 := ?z]" enc block] assms l t unfolding y by (simp add: xs xor.commute)
qed

lemma cfb_blocks_bytewise:
  assumes "keeps16 block" "length iv = 16" "cfb_blocks enc block iv inp = (out, iv', rest)"
  shows "bytewise (cfb_step enc block) (iv, 0) inp =
      (let (s, out2) = bytewise (cfb_step enc block) (iv', 0) rest in (s, out @ out2))
    \<and> length rest < 16 \<and> length iv' = 16"
  using assms(2,3)
proof (induction "length inp" arbitrary: inp iv out rule: less_induct)
  case less
  show ?case
  proof (cases "length inp \<ge> 16")
    case True
    let ?y = "xor_bytes (take 16 inp) (block iv)"
    let ?z = "if enc then ?y else take 16 inp"
    have b: "length (block iv) = 16" using assms(1) less.prems(1) by (simp add: keeps16_def)
    then have l: "length ?z = 16" using True by simp
    obtain o' where r: "cfb_blocks enc block ?z (drop 16 inp) = (o', iv', rest)" "out = ?y @ o'"
      using less.prems(2) True by (subst (asm) cfb_blocks.simps) (auto simp: Let_def split: prod.splits)
    have "bytewise (cfb_step enc block) (iv, 0) (take 16 inp) = ((?z, 0), ?y)"
      using cfb_block [OF assms(1) less.prems(1), of "take 16 inp" enc] True b by force
    then have "bytewise (cfb_step enc block) (iv, 0) (take 16 inp @ drop 16 inp) =
        (let (s, out2) = bytewise (cfb_step enc block) (?z, 0) (drop 16 inp) in (s, ?y @ out2))"
      unfolding bytewise_append by simp
    then show ?thesis
      using less.hyps [OF _ l r(1)] True r(2) by (simp add: split_beta Let_def)
  next
    case False
    then show ?thesis using less.prems by (subst (asm) cfb_blocks.simps) auto
  qed
qed

lemma cfb_run_step:
  assumes "iv_ok block s"
  shows "cfb_run enc block s xs = bytewise (cfb_step enc block) s xs"
proof -
  obtain iv n where s: "s = (iv, n)" by fastforce
  have ok: "keeps16 block" "length iv = 16" "n < 16" using assms by (simp_all add: s iv_ok_def)
  obtain out1 iv1 m r1 where h: "cfb_head enc iv n xs = (out1, iv1, m, r1)" by (metis prod_cases4)
  note H = cfb_head_bytewise [OF h, of block]
  then have iv1: "length iv1 = 16" using ok by simp
  obtain out2 iv' r2 where b: "cfb_blocks enc block iv1 r1 = (out2, iv', r2)" by (metis prod_cases3)
  note B = cfb_blocks_bytewise [OF ok(1) iv1 b]
  show ?thesis
  proof (cases "r1 = []")
    case True
    then have "out2 = [] \<and> iv' = iv1 \<and> r2 = []" using b by (subst (asm) cfb_blocks.simps) simp
    then show ?thesis
      using H True b by (simp add: cfb_run_def CRYPTO_cfb128_encrypt_def s h)
  next
    case False
    then have m: "m = 0" using H by simp
    show ?thesis
    proof (cases "r2 = []")
      case True
      then show ?thesis using H B m by (simp add: cfb_run_def CRYPTO_cfb128_encrypt_def s h b Let_def)
    next
      case False
      then show ?thesis
        using H B m cfb_block [OF ok(1), of iv' r2 enc]
        by (simp add: cfb_run_def CRYPTO_cfb128_encrypt_def s h b Let_def)
    qed
  qed
qed

lemma cfb_step_ok: "iv_ok block s \<Longrightarrow> iv_ok block (fst (cfb_step enc block s x))"
  by (cases s; cases "snd s = 0") (auto simp: iv_ok_def keeps16_def)

lemma cfb_step_undo: "cfb_step True block s x = (t, y) \<Longrightarrow> cfb_step False block s y = (t, x)"
  by (cases s; cases "snd s = 0") (auto simp: xor.commute)

interpretation cfb: stream_pair "cfb_run True block" "cfb_step True block" "cfb_run False block" "cfb_step False block"
    "iv_ok block" for block
  by unfold_locales (auto intro: cfb_run_step cfb_step_ok cfb_step_undo)

section \<open>CTR is a stream\<close>

text \<open>The state is \<open>ivec\<close>, \<open>ecount_buf\<close> and \<open>*num\<close>.\<close>

definition ctr_step :: "block_fn \<Rightarrow> u8 list \<times> u8 list \<times> nat \<Rightarrow> u8 \<Rightarrow> (u8 list \<times> u8 list \<times> nat) \<times> u8" where
  "ctr_step block s x =
     (let (ivec, e, n) = s;
          (ivec, e) = (if n = 0 then (ctr128_inc ivec, block ivec) else (ivec, e))
      in ((ivec, e, (n + 1) mod 16), x XOR e ! n))"

definition ctr_run :: "block_fn \<Rightarrow> u8 list \<times> u8 list \<times> nat \<Rightarrow> u8 list \<Rightarrow> (u8 list \<times> u8 list \<times> nat) \<times> u8 list" where
  "ctr_run block s inp =
     (let (out, ivec, e, num) = CRYPTO_ctr128_encrypt block inp (fst s) (fst (snd s)) (snd (snd s))
      in ((ivec, e, num), out))"

definition ctr_ok :: "block_fn \<Rightarrow> u8 list \<times> u8 list \<times> nat \<Rightarrow> bool" where
  "ctr_ok block s \<longleftrightarrow> keeps16 block \<and> length (fst s) = 16 \<and> length (fst (snd s)) = 16 \<and> snd (snd s) < 16"

lemma ctr_step_simps [simp]:
  "n \<noteq> 0 \<Longrightarrow> ctr_step block (iv, e, n) x = ((iv, e, (n + 1) mod 16), x XOR e ! n)"
  "ctr_step block (iv, e, 0) x = ((ctr128_inc iv, block iv, 1), x XOR block iv ! 0)"
  by (simp_all add: ctr_step_def Let_def)

lemma length_ctr_inc [simp]: "length (ctr_inc n c counter) = length counter"
  by (induction n arbitrary: c counter) (simp_all add: Let_def)

lemma length_ctr128_inc [simp]: "length (ctr128_inc iv) = length iv"
  by (simp add: ctr128_inc_def)

lemma ctr_head_bytewise:
  assumes "ofb_head e n xs = (out, m, rest)"
  shows "bytewise (ctr_step block) (iv, e, n) xs =
      (let (s, out2) = bytewise (ctr_step block) (iv, e, m) rest in (s, out @ out2))
      \<and> (rest \<noteq> [] \<longrightarrow> m = 0) \<and> (n < 16 \<longrightarrow> m < 16)"
  using assms
proof (induction xs arbitrary: n out)
  case (Cons x xs)
  show ?case
  proof (cases "n = 0")
    case False
    obtain o' where h: "ofb_head e ((n + 1) mod 16) xs = (o', m, rest)" "out = (x XOR e ! n) # o'"
      using Cons.prems False by (auto simp: Let_def split: prod.splits)
    show ?thesis using Cons.IH [OF h(1)] False h(2) by (simp add: split_beta Let_def)
  qed (use Cons.prems in auto)
qed auto

lemma ctr_segment:
  "n \<noteq> 0 \<Longrightarrow> n + length xs \<le> 16 \<Longrightarrow> length e = 16 \<Longrightarrow>
    bytewise (ctr_step block) (iv, e, n mod 16) xs = ((iv, e, (n + length xs) mod 16), xor_bytes xs (drop n e))"
proof (induction xs arbitrary: n)
  case (Cons x xs)
  then have n: "n mod 16 = n" "n < 16" by simp_all
  have "bytewise (ctr_step block) (iv, e, Suc n mod 16) xs = ((iv, e, (Suc n + length xs) mod 16), xor_bytes xs (drop (Suc n) e))"
    using Cons.prems by (intro Cons.IH) simp_all
  then show ?case using n Cons.prems by (simp add: xor_bytes_Cons_drop)
qed simp

lemma ctr_block:
  assumes "keeps16 block" "length iv = 16" "xs \<noteq> []" "length xs \<le> 16"
  shows "bytewise (ctr_step block) (iv, e, 0) xs = ((ctr128_inc iv, block iv, length xs mod 16), xor_bytes xs (block iv))"
proof -
  obtain x ys where xs: "xs = x # ys" using assms(3) by (cases xs) auto
  have l: "length (block iv) = 16" using assms(1,2) by (simp add: keeps16_def)
  then have "xor_bytes xs (block iv) = (x XOR block iv ! 0) # xor_bytes ys (drop 1 (block iv))"
    using xor_bytes_Cons_drop [of 0 "block iv" x ys] by (simp add: xs)
  then show ?thesis
    using ctr_segment [of 1 ys "block iv" block "ctr128_inc iv"] assms l by (simp add: xs)
qed

lemma ctr_blocks_bytewise:
  assumes "keeps16 block" "length iv = 16" "ctr_blocks block iv e inp = (out, iv', e', rest)"
  shows "bytewise (ctr_step block) (iv, e, 0) inp =
      (let (s, out2) = bytewise (ctr_step block) (iv', e', 0) rest in (s, out @ out2))
    \<and> length rest < 16 \<and> length iv' = 16"
  using assms(2,3)
proof (induction "length inp" arbitrary: inp iv e out rule: less_induct)
  case less
  show ?case
  proof (cases "length inp \<ge> 16")
    case True
    let ?y = "xor_bytes (take 16 inp) (block iv)"
    have l: "length (ctr128_inc iv) = 16" using less.prems(1) by simp
    obtain o' where r: "ctr_blocks block (ctr128_inc iv) (block iv) (drop 16 inp) = (o', iv', e', rest)" "out = ?y @ o'"
      using less.prems(2) True by (subst (asm) ctr_blocks.simps) (auto simp: Let_def split: prod.splits)
    have "bytewise (ctr_step block) (iv, e, 0) (take 16 inp) = ((ctr128_inc iv, block iv, 0), ?y)"
      using ctr_block [OF assms(1) less.prems(1), of "take 16 inp" e] True by force
    then have "bytewise (ctr_step block) (iv, e, 0) (take 16 inp @ drop 16 inp) =
        (let (s, out2) = bytewise (ctr_step block) (ctr128_inc iv, block iv, 0) (drop 16 inp) in (s, ?y @ out2))"
      unfolding bytewise_append by simp
    then show ?thesis
      using less.hyps [OF _ l r(1)] True r(2) by (simp add: split_beta Let_def)
  next
    case False
    then show ?thesis using less.prems by (subst (asm) ctr_blocks.simps) auto
  qed
qed

lemma ctr_run_step:
  assumes "ctr_ok block s"
  shows "ctr_run block s xs = bytewise (ctr_step block) s xs"
proof -
  obtain iv e n where s: "s = (iv, e, n)" by (metis prod_cases3)
  have ok: "keeps16 block" "length iv = 16" "n < 16" using assms by (simp_all add: s ctr_ok_def)
  obtain out1 m r1 where h: "ofb_head e n xs = (out1, m, r1)" by (metis prod_cases3)
  obtain out2 iv' e' r2 where b: "ctr_blocks block iv e r1 = (out2, iv', e', r2)" by (metis prod_cases4)
  note H = ctr_head_bytewise [OF h, of block iv] and B = ctr_blocks_bytewise [OF ok(1,2) b]
  show ?thesis
  proof (cases "r1 = []")
    case True
    then have "out2 = [] \<and> iv' = iv \<and> e' = e \<and> r2 = []" using b by (subst (asm) ctr_blocks.simps) simp
    then show ?thesis
      using H True b by (simp add: ctr_run_def CRYPTO_ctr128_encrypt_def s h)
  next
    case False
    then have m: "m = 0" using H by simp
    show ?thesis
    proof (cases "r2 = []")
      case True
      then show ?thesis using H B m by (simp add: ctr_run_def CRYPTO_ctr128_encrypt_def s h b Let_def)
    next
      case False
      then show ?thesis
        using H B m ctr_block [OF ok(1), of iv' r2 e']
        by (simp add: ctr_run_def CRYPTO_ctr128_encrypt_def s h b Let_def)
    qed
  qed
qed

lemma ctr_step_ok: "ctr_ok block s \<Longrightarrow> ctr_ok block (fst (ctr_step block s x))"
  by (cases s; cases "snd (snd s) = 0") (auto simp: ctr_ok_def keeps16_def)

lemma ctr_step_undo: "ctr_step block s x = (t, y) \<Longrightarrow> ctr_step block s y = (t, x)"
  by (cases s; cases "snd (snd s) = 0") auto

interpretation ctr: stream_pair "ctr_run block" "ctr_step block" "ctr_run block" "ctr_step block" "ctr_ok block" for block
  by unfold_locales (auto intro: ctr_run_step ctr_step_ok ctr_step_undo)

section \<open>The counter\<close>

lemma ctr_inc_value:
  "n \<le> length counter \<Longrightarrow> unat c \<le> 1 \<Longrightarrow>
    be_val (take n (ctr_inc n c counter)) = (be_val (take n counter) + unat c) mod 256 ^ n \<and>
    drop n (ctr_inc n c counter) = drop n counter"
proof (induction n arbitrary: c counter)
  case (Suc n)
  let ?s = "c + ucast (counter ! n) :: u32"
  let ?ctr = "counter[n := ucast ?s]"
  have s: "unat ?s = unat c + unat (counter ! n)"
    using Suc.prems(2) unat_u8_less [of "counter ! n"] by (simp add: unat_word_ariths unat_u8_32)
  then have carry: "unat (drop_bit 8 ?s) = (unat c + unat (counter ! n)) div 256" by (simp only: unat_drop_bit_word) simp
  then have c1: "unat (drop_bit 8 ?s) \<le> 1" using Suc.prems(2) unat_u8_less [of "counter ! n"] by simp
  have n: "n < length counter" using Suc.prems(1) by simp
  note ih = Suc.IH [of ?ctr "drop_bit 8 ?s", OF _ c1]
  let ?r = "ctr_inc n (drop_bit 8 ?s) ?ctr"
  have d: "drop n ?r = ucast ?s # drop (Suc n) counter" using ih n by (simp add: Cons_nth_drop_Suc [symmetric])
  then have rn: "?r ! n = ucast ?s" using n by (metis length_ctr_inc length_list_update nth_via_drop)
  have t: "take (Suc n) ?r = take n ?r @ [ucast ?s]" "take (Suc n) counter = take n counter @ [counter ! n]"
    using n by (simp_all add: take_Suc_conv_app_nth rn)
  define V where "V = be_val (take n counter)"
  define x where "x = unat c + unat (counter ! n)"
  have v: "be_val (take n ?r) = (V + x div 256) mod 256 ^ n" using ih n carry by (simp add: V_def x_def)
  have "be_val (take (Suc n) ?r) = 256 * ((V + x div 256) mod 256 ^ n) + x mod 256"
    by (simp add: t v unat_ucast8 s x_def)
  also have "\<dots> = (256 * V + x) mod 256 ^ Suc n"
  proof -
    have "256 * V + x = 256 * (V + x div 256) + x mod 256" by simp
    then show ?thesis
      using mod_mult2_eq [of "256 * V + x" 256 "256 ^ n"] by simp
  qed
  also have "256 * V + x = be_val (take (Suc n) counter) + unat c" by (simp add: t V_def x_def)
  finally have "be_val (take (Suc n) ?r) = (be_val (take (Suc n) counter) + unat c) mod 256 ^ Suc n" .
  moreover have "drop (Suc n) ?r = drop (Suc n) counter" using d by (metis drop_Suc list.sel(3) tl_drop)
  ultimately show ?case by (simp add: Let_def)
qed simp

lemma length_ctr96_inc [simp]: "length (ctr96_inc iv) = length iv"
  by (simp add: ctr96_inc_def)

lemma ctr128_inc_value: "length iv = 16 \<Longrightarrow> be_val (ctr128_inc iv) = (be_val iv + 1) mod 2 ^ 128"
  using ctr_inc_value [of 16 iv 1] by (simp add: ctr128_inc_def)

lemma ctr96_inc_value:
  "length iv = 16 \<Longrightarrow> be_val (take 12 (ctr96_inc iv)) = (be_val (take 12 iv) + 1) mod 2 ^ 96 \<and> drop 12 (ctr96_inc iv) = drop 12 iv"
  using ctr_inc_value [of 12 iv 1] by (simp add: ctr96_inc_def)

section \<open>The 32-bit counter routine\<close>

text \<open>What \<open>ctr128_f\<close> promises: the counter in the last four bytes is counted up modulo
  \<open>2\<^sup>32\<close>, one block each.\<close>

definition ctr_contract :: "block_fn \<Rightarrow> ctr_fn \<Rightarrow> bool" where
  "ctr_contract block func \<longleftrightarrow>
     (\<forall>inp k iv. length iv = 16 \<longrightarrow> 16 * k \<le> length inp \<longrightarrow>
        func inp k iv = xor_bytes (take (16 * k) inp)
          (concat (map (\<lambda>i. block (PUTU32 iv 12 (GETU32 (drop 12 iv) + of_nat i))) [0..<k])))"

definition bump :: "u8 list \<Rightarrow> u32 \<Rightarrow> u8 list" where
  "bump iv c = (if c = 0 then ctr96_inc (PUTU32 iv 12 c) else PUTU32 iv 12 c)"

lemma unat_GETU32: "length p \<ge> 4 \<Longrightarrow> unat (GETU32 p) = be_val (take 4 p)"
proof -
  have l: "be_val (take 4 p) < 2 ^ 32" using be_val_bound [of "take 4 p" 4] by simp
  show ?thesis
    using unat_be_load [of "take 4 p"] l
    by (simp add: GETU32_def unsigned_ucast_eq take_bit_nat_eq_self)
qed

lemma PUTU32_parts:
  assumes "length iv = 16"
  shows "length (PUTU32 iv 12 c) = 16" "take 12 (PUTU32 iv 12 c) = take 12 iv" "be_val (drop 12 (PUTU32 iv 12 c)) = unat c"
proof -
  have u: "unat (ucast c :: u64) = unat c" by (simp add: unsigned_ucast_eq take_bit_nat_eq_self less_trans [OF unat_u32_less])
  then have "be_val (fst (be_store 4 (ucast c))) = unat c"
    using be_store_split(2) [of "ucast c" 4] unat_u32_less [of c] by simp
  then show "length (PUTU32 iv 12 c) = 16" "take 12 (PUTU32 iv 12 c) = take 12 iv" "be_val (drop 12 (PUTU32 iv 12 c)) = unat c"
    using assms by (simp_all add: PUTU32_def)
qed

lemma GETU32_PUTU32 [simp]: "length iv = 16 \<Longrightarrow> GETU32 (drop 12 (PUTU32 iv 12 c)) = c"
  using PUTU32_parts [of iv c] unat_GETU32 [of "drop 12 (PUTU32 iv 12 c)"] by (simp add: word_unat_eq_iff)

lemma PUTU32_PUTU32 [simp]: "length iv = 16 \<Longrightarrow> PUTU32 (PUTU32 iv 12 c) 12 d = PUTU32 iv 12 d"
  by (simp add: PUTU32_def)

lemma length_PUTU32 [simp]: "length iv = 16 \<Longrightarrow> length (PUTU32 iv 12 c) = 16"
  by (rule PUTU32_parts)

lemma length_bump [simp]: "length iv = 16 \<Longrightarrow> length (bump iv c) = 16"
  by (simp add: bump_def ctr96_inc_def)

lemma be_val_split: "length iv = 16 \<Longrightarrow> be_val iv = 2 ^ 32 * be_val (take 12 iv) + be_val (drop 12 iv)"
  using be_val_append [of "take 12 iv" "drop 12 iv"] by simp

lemma PUTU32_GETU32 [simp]: "length iv = 16 \<Longrightarrow> PUTU32 iv 12 (GETU32 (drop 12 iv)) = iv"
proof (rule be_val_inj)
  assume l: "length iv = 16"
  then show "length (PUTU32 iv 12 (GETU32 (drop 12 iv))) = length iv" by simp
  show "be_val (PUTU32 iv 12 (GETU32 (drop 12 iv))) = be_val iv"
    using l PUTU32_parts [OF l] unat_GETU32 [of "drop 12 iv"] by (simp add: be_val_split)
qed

lemma ctr128_inc_bump:
  assumes l: "length iv = 16"
  shows "ctr128_inc iv = bump iv (GETU32 (drop 12 iv) + 1)"
proof (rule be_val_inj)
  let ?c = "GETU32 (drop 12 iv)"
  let ?top = "be_val (take 12 iv)"
  show "length (ctr128_inc iv) = length (bump iv (?c + 1))" using l by simp
  have c: "be_val (drop 12 iv) = unat ?c" using l unat_GETU32 [of "drop 12 iv"] by simp
  have v: "be_val (ctr128_inc iv) = (2 ^ 32 * ?top + unat ?c + 1) mod 2 ^ 128"
    using ctr128_inc_value [OF l] be_val_split [OF l] c by simp
  have top: "?top < 2 ^ 96" using be_val_bound [of "take 12 iv" 12] l by simp
  show "be_val (ctr128_inc iv) = be_val (bump iv (?c + 1))"
  proof (cases "?c + 1 = 0")
    case True
    then have "?c = - 1" by (simp add: eq_neg_iff_add_eq_0)
    then have "unat ?c = 2 ^ 32 - 1" by (simp add: unsigned_minus_1_eq_mask mask_eq_exp_minus_1)
    then have "be_val (ctr128_inc iv) = (2 ^ 32 * (?top + 1)) mod (2 ^ 32 * 2 ^ 96)"
      using v by simp
    also have "\<dots> = 2 ^ 32 * ((?top + 1) mod 2 ^ 96)" by (rule mult_mod_right [symmetric])
    also have "\<dots> = be_val (bump iv (?c + 1))"
      using True PUTU32_parts [OF l, of 0] ctr96_inc_value [of "PUTU32 iv 12 0"] be_val_split [of "bump iv 0"] l
      by (simp add: bump_def)
    finally show ?thesis .
  next
    case False
    then have u: "unat (?c + 1) = unat ?c + 1" by (metis Suc_eq_plus1 add.commute unatSuc)
    have "2 ^ 32 * ?top + (unat ?c + 1) < 2 ^ 32 * (?top + 1)"
      using unat_u32_less [of "?c + 1"] u by simp
    also have "\<dots> \<le> 2 ^ 32 * 2 ^ 96" using top by (intro mult_le_mono2) simp
    finally have "be_val (ctr128_inc iv) = 2 ^ 32 * ?top + (unat ?c + 1)" using v by simp
    then show ?thesis
      using False PUTU32_parts [OF l, of "?c + 1"] be_val_split [of "PUTU32 iv 12 (?c + 1)"] l u by (simp add: bump_def)
  qed
qed

lemma bump_bump: "length iv = 16 \<Longrightarrow> c \<noteq> 0 \<Longrightarrow> bump (bump iv c) d = bump iv d"
  by (simp add: bump_def)

lemma ctr128_inc_power:
  assumes "length iv = 16" "0 < k" "unat (GETU32 (drop 12 iv)) + k \<le> 2 ^ 32"
  shows "(ctr128_inc ^^ k) iv = bump iv (GETU32 (drop 12 iv) + of_nat k)"
  using assms(2,3)
proof (induction k)
  case (Suc k)
  let ?c = "GETU32 (drop 12 iv)"
  show ?case
  proof (cases "k = 0")
    case True
    then show ?thesis using ctr128_inc_bump [OF assms(1)] by simp
  next
    case False
    have u: "unat (?c + of_nat k) = unat ?c + k"
      using Suc.prems(2) by (simp add: unat_word_ariths unat_of_nat_u32)
    then have nz: "?c + of_nat k \<noteq> 0" using False by (metis add_is_0 unat_0)
    have "(ctr128_inc ^^ k) iv = PUTU32 iv 12 (?c + of_nat k)" using Suc False nz by (simp add: bump_def)
    then show ?thesis
      using assms(1) ctr128_inc_bump [of "PUTU32 iv 12 (?c + of_nat k)"]
      by (simp add: bump_def add.assoc add.commute)
  qed
qed simp

lemma ctr128_inc_inside:
  assumes "length iv = 16" "unat (GETU32 (drop 12 iv)) + i < 2 ^ 32"
  shows "(ctr128_inc ^^ i) iv = PUTU32 iv 12 (GETU32 (drop 12 iv) + of_nat i)"
proof (cases "i = 0")
  case False
  have "unat (GETU32 (drop 12 iv) + of_nat i) = unat (GETU32 (drop 12 iv)) + i"
    using assms(2) by (simp add: unat_word_ariths unat_of_nat_u32)
  then have "GETU32 (drop 12 iv) + of_nat i \<noteq> 0" using False by (metis add_is_0 unat_0)
  then show ?thesis using ctr128_inc_power [OF assms(1), of i] assms(2) False by (simp add: bump_def)
qed (use assms in simp)

text \<open>Several blocks of the 128-bit routine at once.\<close>

definition keystream :: "block_fn \<Rightarrow> u8 list \<Rightarrow> nat \<Rightarrow> u8 list" where
  "keystream block iv k = concat (map (\<lambda>i. block ((ctr128_inc ^^ i) iv)) [0..<k])"

lemma keystream_Suc: "keystream block iv (Suc k) = block iv @ keystream block (ctr128_inc iv) k"
  unfolding keystream_def upt_conv_Cons [OF zero_less_Suc] by (simp add: funpow_swap1 map_Suc_upt [symmetric] comp_def del: upt_Suc)

lemma xor_bytes_append:
  "length xs = length ys \<Longrightarrow> xor_bytes (xs @ xs') (ys @ ys') = xor_bytes xs ys @ xor_bytes xs' ys'"
  by (simp add: xor_bytes_def)

lemma ctr_blocks_many:
  assumes "keeps16 block"
  shows "length iv = 16 \<Longrightarrow> 16 * k \<le> length inp \<Longrightarrow> 0 < k \<Longrightarrow>
    \<exists>e'. ctr_blocks block iv e inp =
      (let (out, r) = ctr_blocks block ((ctr128_inc ^^ k) iv) e' (drop (16 * k) inp)
       in (xor_bytes (take (16 * k) inp) (keystream block iv k) @ out, r))"
proof (induction k arbitrary: iv e inp)
  case (Suc k)
  have b: "length (block iv) = 16" using assms Suc.prems(1) by (simp add: keeps16_def)
  have one: "ctr_blocks block iv e inp =
      (let (out, r) = ctr_blocks block (ctr128_inc iv) (block iv) (drop 16 inp) in (xor_bytes (take 16 inp) (block iv) @ out, r))"
    using Suc.prems(2) by (subst ctr_blocks.simps) (simp add: Let_def split_beta)
  show ?case
  proof (cases "k = 0")
    case True
    then show ?thesis using one b by (intro exI [of _ "block iv"]) (simp add: keystream_def)
  next
    case False
    obtain e' where e': "ctr_blocks block (ctr128_inc iv) (block iv) (drop 16 inp) =
      (let (out, r) = ctr_blocks block ((ctr128_inc ^^ k) (ctr128_inc iv)) e' (drop (16 * k) (drop 16 inp))
       in (xor_bytes (take (16 * k) (drop 16 inp)) (keystream block (ctr128_inc iv) k) @ out, r))"
    proof -
      have "length (ctr128_inc iv) = 16" "16 * k \<le> length (drop 16 inp)" "0 < k" using Suc.prems False by simp_all
      from Suc.IH [OF this, of "block iv"] show ?thesis using that by blast
    qed
    have "take (16 * Suc k) inp = take 16 inp @ take (16 * k) (drop 16 inp)"
      using take_add [of 16 "16 * k" inp] by simp
    then have x: "xor_bytes (take (16 * Suc k) inp) (keystream block iv (Suc k)) =
        xor_bytes (take 16 inp) (block iv) @ xor_bytes (take (16 * k) (drop 16 inp)) (keystream block (ctr128_inc iv) k)"
      using b Suc.prems(2) by (simp add: keystream_Suc xor_bytes_append)
    show ?thesis
      by (rule exI [of _ e'])
        (simp only: one e' x, simp add: Let_def split_beta funpow_swap1 add.commute)
  qed
qed simp

lemma ctr32_round_eq:
  assumes "16 \<le> len" "ctr32_round c len = (k, c')"
  shows "0 < k" "16 * k \<le> len" "unat c + k \<le> 2 ^ 32" "c' = c + of_nat k"
proof -
  define b where "b = (if len div 16 > 2 ^ 28 then 2 ^ 28 else len div 16)"
  have b: "b \<le> 2 ^ 28" "0 < b" "16 * b \<le> len" using assms(1) by (auto simp: b_def)
  have s: "unat (c + of_nat b) = (unat c + b) mod 2 ^ 32"
    using b(1) by (simp add: unat_word_ariths unat_of_nat_u32)
  have r: "ctr32_round c len = (if unat (c + of_nat b) < b then (b - unat (c + of_nat b), 0) else (b, c + of_nat b))"
    by (simp add: ctr32_round_def b_def Let_def)
  have "0 < k \<and> 16 * k \<le> len \<and> unat c + k \<le> 2 ^ 32 \<and> c' = c + of_nat k"
  proof (cases "unat c + b < 2 ^ 32")
    case True
    then show ?thesis using s b r assms(2) by simp
  next
    case False
    then have "unat (c + of_nat b) = unat c + b - 2 ^ 32"
      using s b(1) unat_u32_less [of c] by (simp add: mod_if)
    then have k: "k = 2 ^ 32 - unat c" "c' = 0" using False r assms(2) b(1) unat_u32_less [of c] by (auto split: if_splits)
    moreover have "k \<le> b" using k False by simp
    moreover have "c + of_nat (2 ^ 32 - unat c) = 0"
    proof -
      have "(of_nat (unat c) + of_nat (2 ^ 32 - unat c) :: u32) = of_nat (2 ^ 32)"
        using unat_u32_less [of c] by (simp flip: of_nat_add)
      then show ?thesis by simp
    qed
    ultimately show ?thesis using b(3) unat_u32_less [of c] by simp
  qed
  then show "0 < k" "16 * k \<le> len" "unat c + k \<le> 2 ^ 32" "c' = c + of_nat k" by simp_all
qed

lemma GETU32_bump: "length iv = 16 \<Longrightarrow> GETU32 (drop 12 (bump iv c)) = c"
  using ctr96_inc_value [of "PUTU32 iv 12 c"] GETU32_PUTU32 [of iv 0] by (cases "c = 0") (auto simp: bump_def)

lemma ctr_contract_keystream:
  assumes "ctr_contract block func" "length iv = 16" "16 * k \<le> length inp" "unat (GETU32 (drop 12 iv)) + k \<le> 2 ^ 32"
  shows "func inp k iv = xor_bytes (take (16 * k) inp) (keystream block iv k)"
proof -
  have m: "map (\<lambda>i. block (PUTU32 iv 12 (GETU32 (drop 12 iv) + of_nat i))) [0..<k] = map (\<lambda>i. block ((ctr128_inc ^^ i) iv)) [0..<k]"
    using ctr128_inc_inside [OF assms(2)] assms(4) by (intro map_cong) auto
  have "func inp k iv = xor_bytes (take (16 * k) inp)
      (concat (map (\<lambda>i. block (PUTU32 iv 12 (GETU32 (drop 12 iv) + of_nat i))) [0..<k]))"
    using assms(1-3) unfolding ctr_contract_def by blast
  then show ?thesis by (simp only: m keystream_def)
qed

lemma ctr32_blocks_eq:
  assumes "keeps16 block" "ctr_contract block func" "length iv = 16"
    and "ctr32_blocks func iv (GETU32 (drop 12 iv)) inp = (out, iv', c', rest)"
  shows "\<exists>e'. ctr_blocks block iv e inp = (out, iv', e', rest) \<and> c' = GETU32 (drop 12 iv') \<and> length iv' = 16 \<and> length rest < 16
    \<and> (length inp < 16 \<longrightarrow> e' = e)"
  using assms(3,4)
proof (induction "length inp" arbitrary: inp iv out e rule: less_induct)
  case less
  let ?c = "GETU32 (drop 12 iv)"
  show ?case
  proof (cases "length inp \<ge> 16")
    case False
    then show ?thesis
      using less.prems by (subst (asm) ctr32_blocks.simps, subst ctr_blocks.simps) auto
  next
    case True
    obtain k d where r: "ctr32_round ?c (length inp) = (k, d)" by fastforce
    note R = ctr32_round_eq [OF True r]
    obtain o' where o': "ctr32_blocks func (bump iv d) d (drop (16 * k) inp) = (o', iv', c', rest)" "out = func inp k iv @ o'"
      using less.prems(2) True by (subst (asm) ctr32_blocks.simps) (auto simp: r Let_def bump_def split: prod.splits)
    have b: "(ctr128_inc ^^ k) iv = bump iv d" using ctr128_inc_power [OF less.prems(1) R(1,3)] R(4) by simp
    obtain e1 where e1: "ctr_blocks block iv e inp =
      (let (out, r) = ctr_blocks block (bump iv d) e1 (drop (16 * k) inp) in (xor_bytes (take (16 * k) inp) (keystream block iv k) @ out, r))"
      using ctr_blocks_many [OF assms(1) less.prems(1) R(2,1), of e] b by auto
    have l: "length (bump iv d) = 16" using less.prems(1) by simp
    have sm: "length (drop (16 * k) inp) < length inp" using R(1) True by simp
    have "ctr32_blocks func (bump iv d) (GETU32 (drop 12 (bump iv d))) (drop (16 * k) inp) = (o', iv', c', rest)"
      using o'(1) less.prems(1) by (simp add: GETU32_bump)
    from less.hyps [OF sm l this, of e1] obtain e' where e': "ctr_blocks block (bump iv d) e1 (drop (16 * k) inp) = (o', iv', e', rest)"
        "c' = GETU32 (drop 12 iv')" "length iv' = 16" "length rest < 16" by blast
    have "out = xor_bytes (take (16 * k) inp) (keystream block iv k) @ o'"
      using o'(2) ctr_contract_keystream [OF assms(2) less.prems(1) R(2,3)] by simp
    then show ?thesis using e1 e' True by simp
  qed
qed

text \<open>The key stream a call leaves in \<open>ecount_buf\<close> matters only when the call stops inside a block.\<close>

lemma CRYPTO_ctr128_encrypt_ctr32_eq:
  assumes "keeps16 block" "ctr_contract block func" "length iv = 16" "num < 16"
    and "CRYPTO_ctr128_encrypt_ctr32 func inp iv e num = (out, iv1, e1, n1)"
    and "CRYPTO_ctr128_encrypt block inp iv e num = (out', iv2, e2, n2)"
  shows "out = out' \<and> iv1 = iv2 \<and> n1 = n2 \<and> (n1 \<noteq> 0 \<longrightarrow> e1 = e2)"
proof -
  obtain o1 m r1 where h: "ofb_head e num inp = (o1, m, r1)" by (metis prod_cases3)
  note H = ctr_head_bytewise [OF h]
  obtain o2 iv' c' r2 where b: "ctr32_blocks func iv (GETU32 (drop 12 iv)) r1 = (o2, iv', c', r2)" by (metis prod_cases4)
  obtain e' where B: "ctr_blocks block iv e r1 = (o2, iv', e', r2)" "c' = GETU32 (drop 12 iv')" "length iv' = 16" "length r2 < 16"
      "length r1 < 16 \<longrightarrow> e' = e"
    using ctr32_blocks_eq [OF assms(1-3) b, of e] by blast
  have last: "ctr128_inc iv' = bump iv' (c' + 1)" using ctr128_inc_bump [OF B(3)] B(2) by simp
  show ?thesis
  proof (cases "r2 = []")
    case True
    have a: "(o1 @ o2, iv', e, m) = (out, iv1, e1, n1)"
      using assms(5) True by (simp add: CRYPTO_ctr128_encrypt_ctr32_def h b)
    have c: "(o1 @ o2, iv', e', m) = (out', iv2, e2, n2)"
      using assms(6) True by (simp add: CRYPTO_ctr128_encrypt_def h B(1))
    show ?thesis using a c H B(5) by auto
  next
    case False
    have k: "func (replicate 16 0) 1 iv' = block iv'"
    proof -
      have "length (block iv') = 16" using assms(1) B(3) by (simp add: keeps16_def)
      then have "xor_bytes (replicate 16 0) (block iv') = block iv'"
        unfolding xor_bytes_def by (intro nth_equalityI) auto
      moreover have "unat (GETU32 (drop 12 iv')) + 1 \<le> 2 ^ 32"
        using unat_u32_less [of "GETU32 (drop 12 iv')"] by simp
      ultimately show ?thesis
        using ctr_contract_keystream [OF assms(2) B(3), of 1 "replicate 16 0"] by (simp add: keystream_def)
    qed
    have a: "(o1 @ o2 @ xor_bytes r2 (drop m (block iv')), bump iv' (c' + 1), block iv', m + length r2) = (out, iv1, e1, n1)"
      using assms(5) False by (auto simp: CRYPTO_ctr128_encrypt_ctr32_def h b k [unfolded One_nat_def] Let_def bump_def)
    have c: "(o1 @ o2 @ xor_bytes r2 (drop m (block iv')), ctr128_inc iv', block iv', m + length r2) = (out', iv2, e2, n2)"
      using assms(6) False by (auto simp: CRYPTO_ctr128_encrypt_def h B(1) Let_def)
    show ?thesis using a c last by auto
  qed
qed

text \<open>A routine that keeps the promise.\<close>

definition ctr_reference :: "block_fn \<Rightarrow> ctr_fn" where
  "ctr_reference block inp k iv = xor_bytes (take (16 * k) inp)
     (concat (map (\<lambda>i. block (PUTU32 iv 12 (GETU32 (drop 12 iv) + of_nat i))) [0..<k]))"

lemma ctr_reference_contract [simp]: "ctr_contract block (ctr_reference block)"
  by (simp add: ctr_contract_def ctr_reference_def)

section \<open>CFB on bytes is a stream\<close>

definition cfb8_step :: "bool \<Rightarrow> block_fn \<Rightarrow> u8 list \<Rightarrow> u8 \<Rightarrow> u8 list \<times> u8" where
  "cfb8_step enc block iv x =
     (let y = x XOR block iv ! 0 in (tl iv @ [if enc then y else x], y))"

definition cfb8_run :: "bool \<Rightarrow> block_fn \<Rightarrow> u8 list \<Rightarrow> u8 list \<Rightarrow> u8 list \<times> u8 list" where
  "cfb8_run enc block iv inp = (let (out, iv) = CRYPTO_cfb128_8_encrypt block inp iv enc in (iv, out))"

definition cfb8_ok :: "block_fn \<Rightarrow> u8 list \<Rightarrow> bool" where
  "cfb8_ok block iv \<longleftrightarrow> keeps16 block \<and> length iv = 16"

lemma cfbr_encrypt_byte:
  assumes "cfb8_ok block iv"
  shows "cfbr_encrypt_block block [x] 8 iv enc = Some ([snd (cfb8_step enc block iv x)], fst (cfb8_step enc block iv x))"
proof -
  obtain v vs where v: "iv = v # vs" "length vs = 15" using assms by (cases iv) (auto simp: cfb8_ok_def)
  have "length (block (v # vs)) = 16" using assms by (simp add: v(1) cfb8_ok_def keeps16_def)
  then obtain b bs where b: "block (v # vs) = b # bs" by (cases "block (v # vs)") auto
  show ?thesis using v by (simp add: cfbr_encrypt_block_def cfb8_step_def b Let_def)
qed

lemma cfb8_step_ok: "cfb8_ok block iv \<Longrightarrow> cfb8_ok block (fst (cfb8_step enc block iv x))"
  by (simp add: cfb8_ok_def cfb8_step_def Let_def)

lemma cfb8_run_step: "cfb8_ok block iv \<Longrightarrow> cfb8_run enc block iv xs = bytewise (cfb8_step enc block) iv xs"
proof (induction xs arbitrary: iv)
  case (Cons x xs)
  let ?s = "cfb8_step enc block iv x"
  have "cfb8_run enc block (fst ?s) xs = bytewise (cfb8_step enc block) (fst ?s) xs"
    using Cons.IH cfb8_step_ok [OF Cons.prems] by blast
  then show ?case
    using cfbr_encrypt_byte [OF Cons.prems, of x enc]
    by (auto simp: cfb8_run_def split_beta Let_def prod_eq_iff)
qed (simp add: cfb8_run_def)

lemma cfb8_step_undo: "cfb8_step True block iv x = (t, y) \<Longrightarrow> cfb8_step False block iv y = (t, x)"
  by (auto simp: cfb8_step_def Let_def)

interpretation cfb8: stream_pair "cfb8_run True block" "cfb8_step True block" "cfb8_run False block" "cfb8_step False block"
    "cfb8_ok block" for block
  by unfold_locales (auto intro: cfb8_run_step cfb8_step_ok cfb8_step_undo)

end
