(* ===== verification/Cbc.thy ===== *)
theory Cbc
  imports StreamModes
begin

text \<open>
  \<^verbatim>\<open>crypto/fipsmodule/modes/cbc.c\<close> on a flat memory: \<open>in\<close>, \<open>out\<close> and \<open>ivec\<close> are addresses, so the
  overlaps the code allows are overlaps of the model. A \<open>size_t\<close> word is moved as eight bytes.
  Addresses do not wrap around. The theorems say for every permitted overlap that the code
  computes the chaining of whole blocks and leaves the rest of the memory alone.
\<close>

section \<open>Memory\<close>

type_synonym memory = "nat \<Rightarrow> u8"

definition rd :: "memory \<Rightarrow> nat \<Rightarrow> nat \<Rightarrow> u8 list" where
  "rd m a n = map m [a..<a + n]"

definition wr :: "memory \<Rightarrow> nat \<Rightarrow> u8 list \<Rightarrow> memory" where
  "wr m a bs = (\<lambda>x. if a \<le> x \<and> x < a + length bs then bs ! (x - a) else m x)"

section \<open>The code\<close>

text \<open>\<open>store_word_le(out + n, load_word_le(in + n) ^ load_word_le(iv + n))\<close> for \<open>n = 0, 8\<close>.\<close>

definition xor_word :: "memory \<Rightarrow> nat \<Rightarrow> nat \<Rightarrow> nat \<Rightarrow> nat \<Rightarrow> memory" where
  "xor_word m inp out iv n = wr m (out + n) (xor_bytes (rd m (inp + n) 8) (rd m (iv + n) 8))"

definition xor_words :: "memory \<Rightarrow> nat \<Rightarrow> nat \<Rightarrow> nat \<Rightarrow> memory" where
  "xor_words m inp out iv = xor_word (xor_word m inp out iv 0) inp out iv 8"

text \<open>The loop over whole blocks: the memory, \<open>in\<close>, \<open>out\<close>, \<open>len\<close> and \<open>iv\<close> after it.\<close>

fun cbc_encrypt_loop :: "block_fn \<Rightarrow> memory \<Rightarrow> nat \<Rightarrow> nat \<Rightarrow> nat \<Rightarrow> nat \<Rightarrow> memory \<times> nat \<times> nat \<times> nat \<times> nat" where
  "cbc_encrypt_loop block m inp out len iv =
     (if len \<ge> 16 then
        let m = xor_words m inp out iv;
            m = wr m out (block (rd m out 16))
        in cbc_encrypt_loop block m (inp + 16) (out + 16) (len - 16) out
      else (m, inp, out, len, iv))"

declare cbc_encrypt_loop.simps [simp del]

text \<open>The bytes of the last, short block: \<open>k\<close> more of them from index \<open>n\<close> on.\<close>

fun xor_tail :: "nat \<Rightarrow> memory \<Rightarrow> nat \<Rightarrow> nat \<Rightarrow> nat \<Rightarrow> nat \<Rightarrow> memory" where
  "xor_tail 0 m inp out iv n = m"
| "xor_tail (Suc k) m inp out iv n = xor_tail k (wr m (out + n) [m (inp + n) XOR m (iv + n)]) inp out iv (n + 1)"

fun copy_tail :: "nat \<Rightarrow> memory \<Rightarrow> nat \<Rightarrow> nat \<Rightarrow> nat \<Rightarrow> memory" where
  "copy_tail 0 m src dst n = m"
| "copy_tail (Suc k) m src dst n = copy_tail k (wr m (dst + n) [m (src + n)]) src dst (n + 1)"

definition CRYPTO_cbc128_encrypt :: "block_fn \<Rightarrow> memory \<Rightarrow> nat \<Rightarrow> nat \<Rightarrow> nat \<Rightarrow> nat \<Rightarrow> memory" where
  "CRYPTO_cbc128_encrypt block m inp out len ivec =
     (let (m, inp, out, len, iv) = cbc_encrypt_loop block m inp out len ivec;
          (m, iv) =
            (if len \<noteq> 0 then
               let m = xor_tail len m inp out iv 0;
                   m = copy_tail (16 - len) m iv out len
               in (wr m out (block (rd m out 16)), out)
             else (m, iv))
      in wr m ivec (rd m iv 16))"

text \<open>The loop when \<open>out\<close> is behind \<open>in\<close> by two blocks or does not overlap it.\<close>

fun cbc_decrypt_apart :: "block_fn \<Rightarrow> memory \<Rightarrow> nat \<Rightarrow> nat \<Rightarrow> nat \<Rightarrow> nat \<Rightarrow> memory \<times> nat \<times> nat \<times> nat \<times> nat" where
  "cbc_decrypt_apart block m inp out len iv =
     (if len \<ge> 16 then
        let m = wr m out (block (rd m inp 16));
            m = xor_words m out out iv
        in cbc_decrypt_apart block m (inp + 16) (out + 16) (len - 16) inp
      else (m, inp, out, len, iv))"

declare cbc_decrypt_apart.simps [simp del]

text \<open>A word of the loop with the temporary block.\<close>

definition decrypt_word :: "memory \<Rightarrow> u8 list \<Rightarrow> nat \<Rightarrow> nat \<Rightarrow> nat \<Rightarrow> nat \<Rightarrow> memory" where
  "decrypt_word m tmp inp out ivec n =
     (let c = rd m (inp + n) 8;
          m = wr m (out + n) (xor_bytes (take 8 (drop n tmp)) (rd m (ivec + n) 8))
      in wr m (ivec + n) c)"

fun cbc_decrypt_tmp :: "block_fn \<Rightarrow> memory \<Rightarrow> nat \<Rightarrow> nat \<Rightarrow> nat \<Rightarrow> nat \<Rightarrow> memory \<times> nat \<times> nat \<times> nat" where
  "cbc_decrypt_tmp block m inp out len ivec =
     (if len \<ge> 16 then
        let tmp = block (rd m inp 16);
            m = decrypt_word m tmp inp out ivec 0;
            m = decrypt_word m tmp inp out ivec 8
        in cbc_decrypt_tmp block m (inp + 16) (out + 16) (len - 16) ivec
      else (m, inp, out, len))"

declare cbc_decrypt_tmp.simps [simp del]

fun decrypt_tail :: "nat \<Rightarrow> memory \<Rightarrow> u8 list \<Rightarrow> nat \<Rightarrow> nat \<Rightarrow> nat \<Rightarrow> nat \<Rightarrow> memory" where
  "decrypt_tail 0 m tmp inp out ivec n = m"
| "decrypt_tail (Suc k) m tmp inp out ivec n =
     (let c = m (inp + n);
          m = wr m (out + n) [tmp ! n XOR m (ivec + n)];
          m = wr m (ivec + n) [c]
      in decrypt_tail k m tmp inp out ivec (n + 1))"

definition CRYPTO_cbc128_decrypt :: "block_fn \<Rightarrow> memory \<Rightarrow> nat \<Rightarrow> nat \<Rightarrow> nat \<Rightarrow> nat \<Rightarrow> memory" where
  "CRYPTO_cbc128_decrypt block m inp out len ivec =
     (let (m, inp, out, len) =
            (if (inp \<ge> 32 \<and> out \<le> inp - 32) \<or> inp < out then
               let (m, inp, out, len, iv) = cbc_decrypt_apart block m inp out len ivec
               in (wr m ivec (rd m iv 16), inp, out, len)
             else cbc_decrypt_tmp block m inp out len ivec)
      in if len \<noteq> 0 then
           let tmp = block (rd m inp 16);
               m = decrypt_tail len m tmp inp out ivec 0
           in copy_tail (16 - len) m inp ivec len
         else m)"

section \<open>Reading what was written\<close>

lemma length_rd [simp]: "length (rd m a n) = n"
  by (simp add: rd_def)

lemma rd_const [simp]: "rd (\<lambda>_. c) a n = replicate n c"
  by (simp add: rd_def map_replicate_const)

lemma rd_0 [simp]: "rd m a 0 = []"
  by (simp add: rd_def)

lemma rd_cong: "(\<And>x. a \<le> x \<Longrightarrow> x < a + n \<Longrightarrow> m x = m' x) \<Longrightarrow> rd m a n = rd m' a n"
  by (simp add: rd_def)

lemma rd_add: "rd m a (i + j) = rd m a i @ rd m (a + i) j"
  using upt_add_eq_append [of a "a + i" j] by (simp add: rd_def add.assoc)

lemma rd_take: "n \<le> k \<Longrightarrow> take n (rd m a k) = rd m a n"
  using rd_add [of m a n "k - n"] by simp

lemma rd_drop: "n \<le> k \<Longrightarrow> drop n (rd m a k) = rd m (a + n) (k - n)"
  using rd_add [of m a n "k - n"] by simp

lemma rd_wr_same: "n = length bs \<Longrightarrow> rd (wr m a bs) a n = bs"
  by (rule nth_equalityI) (simp_all add: rd_def wr_def)

lemma wr_outside: "x < a \<or> a + length bs \<le> x \<Longrightarrow> wr m a bs x = m x"
  by (auto simp: wr_def)

lemma rd_wr_apart: "a + n \<le> b \<or> b + length bs \<le> a \<Longrightarrow> rd (wr m b bs) a n = rd m a n"
  by (rule rd_cong) (auto simp: wr_outside)

lemma rd_16: "rd m a 16 = rd m a 8 @ rd m (a + 8) 8"
  using rd_add [of m a 8 8] by simp

text \<open>The word loop is the exclusive or of two blocks, when neither is changed too early.\<close>

lemma xor_words_16:
  assumes "out \<le> inp \<or> inp + 16 \<le> out" "iv + 16 \<le> out \<or> out + 16 \<le> iv"
  shows "rd (xor_words m inp out iv) out 16 = xor_bytes (rd m inp 16) (rd m iv 16)"
    and "x < out \<or> out + 16 \<le> x \<Longrightarrow> xor_words m inp out iv x = m x"
proof -
  let ?m = "xor_word m inp out iv 0"
  have m: "?m = wr m out (xor_bytes (rd m inp 8) (rd m iv 8))" by (simp add: xor_word_def)
  have r: "rd ?m (inp + 8) 8 = rd m (inp + 8) 8" "rd ?m (iv + 8) 8 = rd m (iv + 8) 8"
    unfolding m using assms by (auto intro!: rd_wr_apart)
  have w: "xor_words m inp out iv = wr ?m (out + 8) (xor_bytes (rd m (inp + 8) 8) (rd m (iv + 8) 8))"
    unfolding xor_words_def by (subst xor_word_def) (simp only: r)
  have "rd (xor_words m inp out iv) out 8 = rd ?m out 8" unfolding w by (rule rd_wr_apart) simp
  also have "\<dots> = xor_bytes (rd m inp 8) (rd m iv 8)" unfolding m by (rule rd_wr_same) simp
  finally have "rd (xor_words m inp out iv) out 8 = xor_bytes (rd m inp 8) (rd m iv 8)" .
  moreover have "rd (xor_words m inp out iv) (out + 8) 8 = xor_bytes (rd m (inp + 8) 8) (rd m (iv + 8) 8)"
    unfolding w by (rule rd_wr_same) simp
  ultimately show "rd (xor_words m inp out iv) out 16 = xor_bytes (rd m inp 16) (rd m iv 16)"
    by (simp add: rd_16 xor_bytes_append)
  show "x < out \<or> out + 16 \<le> x \<Longrightarrow> xor_words m inp out iv x = m x"
    unfolding w m by (auto simp: wr_def)
qed

section \<open>The chaining\<close>

function cbc_enc :: "block_fn \<Rightarrow> u8 list \<Rightarrow> u8 list \<Rightarrow> u8 list" where
  "cbc_enc block iv xs =
     (if length xs < 16 then []
      else let c = block (xor_bytes (take 16 xs) iv) in c @ cbc_enc block c (drop 16 xs))"
  by pat_completeness auto
termination by (relation "measure (\<lambda>(_, _, xs). length xs)") auto

function cbc_dec :: "block_fn \<Rightarrow> u8 list \<Rightarrow> u8 list \<Rightarrow> u8 list" where
  "cbc_dec block iv xs =
     (if length xs < 16 then []
      else xor_bytes (block (take 16 xs)) iv @ cbc_dec block (take 16 xs) (drop 16 xs))"
  by pat_completeness auto
termination by (relation "measure (\<lambda>(_, _, xs). length xs)") auto

declare cbc_enc.simps [simp del] cbc_dec.simps [simp del]

lemma cbc_encrypt_loop_eq:
  assumes "keeps16 block"
  shows "out \<le> inp \<or> inp + 16 * k \<le> out \<Longrightarrow> iv + 16 \<le> out \<or> out + 16 * k \<le> iv \<Longrightarrow>
    \<exists>m'. cbc_encrypt_loop block m inp out (16 * k) iv = (m', inp + 16 * k, out + 16 * k, 0, if k = 0 then iv else out + 16 * k - 16)
      \<and> rd m' out (16 * k) = cbc_enc block (rd m iv 16) (rd m inp (16 * k))
      \<and> (\<forall>x. x < out \<or> out + 16 * k \<le> x \<longrightarrow> m' x = m x)"
proof (induction k arbitrary: m inp out iv)
  case 0
  show ?case by (simp add: cbc_encrypt_loop.simps [of block m] cbc_enc.simps [of block "rd m iv 16" "[]"])
next
  case (Suc k)
  let ?m1 = "xor_words m inp out iv"
  let ?m2 = "wr ?m1 out (block (rd ?m1 out 16))"
  let ?c = "block (xor_bytes (rd m inp 16) (rd m iv 16))"
  have hyps: "out \<le> inp \<or> inp + 16 \<le> out" "iv + 16 \<le> out \<or> out + 16 \<le> iv" using Suc.prems by auto
  note x = xor_words_16(1) [OF hyps, of m] xor_words_16(2) [OF hyps]
  have c: "block (rd ?m1 out 16) = ?c" "length ?c = 16" using x(1) assms by (simp_all add: keeps16_def)
  have out2: "?m2 z = m z" if "z < out \<or> out + 16 \<le> z" for z
    using that c x(2) by (simp add: wr_outside)
  have r2: "rd ?m2 out 16 = ?c" using c by (simp add: rd_wr_same)
  have in2: "rd ?m2 (inp + 16) (16 * k) = rd m (inp + 16) (16 * k)"
    using Suc.prems(1) by (intro rd_cong out2) auto
  have "out + 16 \<le> inp + 16 \<or> inp + 16 + 16 * k \<le> out + 16" "out + 16 \<le> out + 16 \<or> out + 16 + 16 * k \<le> out"
    using Suc.prems(1) by auto
  from Suc.IH [OF this, of ?m2] obtain m' where m':
    "cbc_encrypt_loop block ?m2 (inp + 16) (out + 16) (16 * k) out =
      (m', inp + 16 + 16 * k, out + 16 + 16 * k, 0, if k = 0 then out else out + 16 + 16 * k - 16)"
    "rd m' (out + 16) (16 * k) = cbc_enc block ?c (rd m (inp + 16) (16 * k))"
    "\<forall>z. z < out + 16 \<or> out + 16 + 16 * k \<le> z \<longrightarrow> m' z = ?m2 z"
    unfolding r2 in2 by blast
  have "cbc_encrypt_loop block m inp out (16 * Suc k) iv = cbc_encrypt_loop block ?m2 (inp + 16) (out + 16) (16 * k) out"
    by (subst cbc_encrypt_loop.simps) (simp add: Let_def)
  also have "\<dots> = (m', inp + 16 * Suc k, out + 16 * Suc k, 0, if Suc k = 0 then iv else out + 16 * Suc k - 16)"
    unfolding m'(1) by auto
  finally have l: "cbc_encrypt_loop block m inp out (16 * Suc k) iv =
      (m', inp + 16 * Suc k, out + 16 * Suc k, 0, if Suc k = 0 then iv else out + 16 * Suc k - 16)" .
  have "rd m' out 16 = rd ?m2 out 16" using m'(3) by (intro rd_cong) auto
  then have "rd m' out (16 * Suc k) = ?c @ cbc_enc block ?c (rd m (inp + 16) (16 * k))"
    using rd_add [of m' out 16 "16 * k"] r2 m'(2) by simp
  also have "\<dots> = cbc_enc block (rd m iv 16) (rd m inp (16 * Suc k))"
    by (subst (2) cbc_enc.simps) (simp add: Let_def rd_take rd_drop)
  finally have "rd m' out (16 * Suc k) = cbc_enc block (rd m iv 16) (rd m inp (16 * Suc k))" .
  moreover have "\<forall>z. z < out \<or> out + 16 * Suc k \<le> z \<longrightarrow> m' z = m z" using m'(3) out2 by auto
  ultimately show ?case using l by blast
qed

lemma CRYPTO_cbc128_encrypt_blocks:
  assumes "keeps16 block" "out \<le> inp \<or> inp + 16 * k \<le> out" "ivec + 16 \<le> out \<or> out + 16 * k \<le> ivec"
    and "m' = CRYPTO_cbc128_encrypt block m inp out (16 * k) ivec"
  shows "rd m' out (16 * k) = cbc_enc block (rd m ivec 16) (rd m inp (16 * k))"
    and "rd m' ivec 16 = (if k = 0 then rd m ivec 16 else rd m' (out + 16 * k - 16) 16)"
    and "(x < out \<or> out + 16 * k \<le> x) \<and> (x < ivec \<or> ivec + 16 \<le> x) \<Longrightarrow> m' x = m x"
proof -
  obtain m1 where m1: "cbc_encrypt_loop block m inp out (16 * k) ivec =
      (m1, inp + 16 * k, out + 16 * k, 0, if k = 0 then ivec else out + 16 * k - 16)"
    "rd m1 out (16 * k) = cbc_enc block (rd m ivec 16) (rd m inp (16 * k))"
    "\<forall>x. x < out \<or> out + 16 * k \<le> x \<longrightarrow> m1 x = m x"
    using cbc_encrypt_loop_eq [OF assms(1-3), of m] by blast
  let ?iv = "if k = 0 then ivec else out + 16 * k - 16"
  have m': "m' = wr m1 ivec (rd m1 ?iv 16)"
    unfolding assms(4) CRYPTO_cbc128_encrypt_def m1(1) by simp
  have apart: "rd m' a n = rd m1 a n" if "out \<le> a" "a + n \<le> out + 16 * k" for a n
    unfolding m' using that assms(3) by (intro rd_wr_apart) auto
  show "rd m' out (16 * k) = cbc_enc block (rd m ivec 16) (rd m inp (16 * k))"
    using apart m1(2) by simp
  have "rd m' ivec 16 = rd m1 ?iv 16" unfolding m' by (rule rd_wr_same) simp
  also have "\<dots> = (if k = 0 then rd m ivec 16 else rd m' (out + 16 * k - 16) 16)"
    using apart m1(3) assms(3) by (cases k) (auto intro: rd_cong)
  finally show "rd m' ivec 16 = (if k = 0 then rd m ivec 16 else rd m' (out + 16 * k - 16) 16)" .
  show "(x < out \<or> out + 16 * k \<le> x) \<and> (x < ivec \<or> ivec + 16 \<le> x) \<Longrightarrow> m' x = m x"
    using m1(3) by (auto simp: m' wr_outside)
qed

section \<open>Decryption apart\<close>

lemma cbc_decrypt_apart_eq:
  assumes "keeps16 block"
  shows "out + 32 \<le> inp \<or> inp + 16 * k \<le> out \<Longrightarrow> iv + 16 = inp \<or> iv + 16 \<le> out \<or> out + 16 * k \<le> iv \<Longrightarrow>
    \<exists>m'. cbc_decrypt_apart block m inp out (16 * k) iv = (m', inp + 16 * k, out + 16 * k, 0, if k = 0 then iv else inp + 16 * k - 16)
      \<and> rd m' out (16 * k) = cbc_dec block (rd m iv 16) (rd m inp (16 * k))
      \<and> rd m' (if k = 0 then iv else inp + 16 * k - 16) 16 = (if k = 0 then rd m iv 16 else rd m (inp + 16 * k - 16) 16)
      \<and> (\<forall>x. x < out \<or> out + 16 * k \<le> x \<longrightarrow> m' x = m x)"
proof (induction k arbitrary: m inp out iv)
  case 0
  show ?case by (simp add: cbc_decrypt_apart.simps [of block m] cbc_dec.simps [of block "rd m iv 16" "[]"])
next
  case (Suc k)
  let ?b = "block (rd m inp 16)"
  let ?m1 = "wr m out ?b"
  let ?m2 = "xor_words ?m1 out out iv"
  have b: "length ?b = 16" using assms by (simp add: keeps16_def)
  have hyps: "out \<le> out \<or> out + 16 \<le> out" "iv + 16 \<le> out \<or> out + 16 \<le> iv" using Suc.prems by auto
  note x = xor_words_16(1) [OF hyps, of ?m1] xor_words_16(2) [OF hyps]
  have iv1: "rd ?m1 iv 16 = rd m iv 16" using hyps(2) b by (intro rd_wr_apart) auto
  have r2: "rd ?m2 out 16 = xor_bytes ?b (rd m iv 16)" using x(1) iv1 b by (simp add: rd_wr_same)
  have out2: "?m2 z = m z" if "z < out \<or> out + 16 \<le> z" for z
    using that b x(2) by (simp add: wr_outside)
  have in2: "rd ?m2 a n = rd m a n" if "inp \<le> a" "a + n \<le> inp + 16 * Suc k" for a n
    using that Suc.prems(1) by (intro rd_cong out2) auto
  have "out + 16 + 32 \<le> inp + 16 \<or> inp + 16 + 16 * k \<le> out + 16" "inp + 16 = inp + 16 \<or> inp + 16 \<le> out + 16 \<or> out + 16 + 16 * k \<le> inp"
    using Suc.prems(1) by auto
  from Suc.IH [OF this, of ?m2] obtain m' where m':
    "cbc_decrypt_apart block ?m2 (inp + 16) (out + 16) (16 * k) inp =
      (m', inp + 16 + 16 * k, out + 16 + 16 * k, 0, if k = 0 then inp else inp + 16 + 16 * k - 16)"
    "rd m' (out + 16) (16 * k) = cbc_dec block (rd ?m2 inp 16) (rd ?m2 (inp + 16) (16 * k))"
    "rd m' (if k = 0 then inp else inp + 16 + 16 * k - 16) 16 = (if k = 0 then rd ?m2 inp 16 else rd ?m2 (inp + 16 + 16 * k - 16) 16)"
    "\<forall>z. z < out + 16 \<or> out + 16 + 16 * k \<le> z \<longrightarrow> m' z = ?m2 z" by blast
  have i: "rd ?m2 inp 16 = rd m inp 16" "rd ?m2 (inp + 16) (16 * k) = rd m (inp + 16) (16 * k)"
      "k \<noteq> 0 \<Longrightarrow> rd ?m2 (inp + 16 + 16 * k - 16) 16 = rd m (inp + 16 + 16 * k - 16) 16"
    by (simp_all add: in2)
  have iv': "(if k = 0 then inp else inp + 16 + 16 * k - 16) = inp + 16 * Suc k - 16" by simp
  have "cbc_decrypt_apart block m inp out (16 * Suc k) iv = cbc_decrypt_apart block ?m2 (inp + 16) (out + 16) (16 * k) inp"
    by (subst cbc_decrypt_apart.simps) (simp add: Let_def)
  then have l: "cbc_decrypt_apart block m inp out (16 * Suc k) iv =
      (m', inp + 16 * Suc k, out + 16 * Suc k, 0, if Suc k = 0 then iv else inp + 16 * Suc k - 16)"
    unfolding m'(1) by simp
  have "rd m' out 16 = rd ?m2 out 16" using m'(4) by (intro rd_cong) auto
  then have "rd m' out (16 * Suc k) = xor_bytes ?b (rd m iv 16) @ cbc_dec block (rd m inp 16) (rd m (inp + 16) (16 * k))"
    using rd_add [of m' out 16 "16 * k"] r2 m'(2) i by simp
  also have "\<dots> = cbc_dec block (rd m iv 16) (rd m inp (16 * Suc k))"
    by (subst (2) cbc_dec.simps) (simp add: rd_take rd_drop)
  finally have "rd m' out (16 * Suc k) = cbc_dec block (rd m iv 16) (rd m inp (16 * Suc k))" .
  moreover have "rd m' (inp + 16 * Suc k - 16) 16 = rd m (inp + 16 * Suc k - 16) 16"
    using m'(3) i(1,3) by (cases k) simp_all
  moreover have "\<forall>z. z < out \<or> out + 16 * Suc k \<le> z \<longrightarrow> m' z = m z" using m'(4) out2 by auto
  ultimately show ?case using l by (intro exI [of _ m']) simp
qed

section \<open>Decryption with a temporary block\<close>

lemma decrypt_words_16:
  assumes "length tmp = 16" "out \<le> inp"
    and "ivec + 16 \<le> out \<or> out + 16 \<le> ivec" "ivec + 16 \<le> inp \<or> inp + 16 \<le> ivec"
    and "m' = decrypt_word (decrypt_word m tmp inp out ivec 0) tmp inp out ivec 8"
  shows "rd m' out 16 = xor_bytes tmp (rd m ivec 16)" and "rd m' ivec 16 = rd m inp 16"
    and "(x < out \<or> out + 16 \<le> x) \<and> (x < ivec \<or> ivec + 16 \<le> x) \<Longrightarrow> m' x = m x"
proof -
  let ?y0 = "xor_bytes (take 8 tmp) (rd m ivec 8)"
  let ?y8 = "xor_bytes (take 8 (drop 8 tmp)) (rd m (ivec + 8) 8)"
  let ?m1 = "wr (wr m out ?y0) ivec (rd m inp 8)"
  let ?m2 = "wr (wr ?m1 (out + 8) ?y8) (ivec + 8) (rd m (inp + 8) 8)"
  have y: "length ?y0 = 8" "length ?y8 = 8" using assms(1) by simp_all
  have m1: "decrypt_word m tmp inp out ivec 0 = ?m1" by (simp add: decrypt_word_def)
  have r: "rd ?m1 (inp + 8) 8 = rd m (inp + 8) 8" "rd ?m1 (ivec + 8) 8 = rd m (ivec + 8) 8"
    using assms(2-4) y by (intro rd_cong; auto simp: wr_outside)+
  have m': "m' = ?m2" unfolding assms(5) m1 by (subst decrypt_word_def) (simp only: r Let_def)
  have o1: "rd ?m2 out 8 = ?y0"
  proof -
    have "rd ?m2 out 8 = rd (wr m out ?y0) out 8" using assms(3) y by (intro rd_cong) (auto simp: wr_outside)
    then show ?thesis using y by (simp add: rd_wr_same)
  qed
  have o2: "rd ?m2 (out + 8) 8 = ?y8"
  proof -
    have "rd ?m2 (out + 8) 8 = rd (wr ?m1 (out + 8) ?y8) (out + 8) 8" using assms(3) y by (intro rd_wr_apart) auto
    then show ?thesis using y by (simp add: rd_wr_same)
  qed
  have t: "take 8 tmp @ take 8 (drop 8 tmp) = tmp" using append_take_drop_id [of 8 tmp] assms(1) by (simp del: append_take_drop_id)
  show "rd m' out 16 = xor_bytes tmp (rd m ivec 16)"
    unfolding m' rd_16 o1 o2 using xor_bytes_append [of "take 8 tmp" "rd m ivec 8" "take 8 (drop 8 tmp)" "rd m (ivec + 8) 8"] assms(1)
    by (simp add: t)
  have i1: "rd ?m2 ivec 8 = rd m inp 8"
  proof -
    have "rd ?m2 ivec 8 = rd ?m1 ivec 8" using assms(3) y by (intro rd_cong) (auto simp: wr_outside)
    then show ?thesis by (simp add: rd_wr_same)
  qed
  have i2: "rd ?m2 (ivec + 8) 8 = rd m (inp + 8) 8" by (simp add: rd_wr_same)
  show "rd m' ivec 16 = rd m inp 16" unfolding m' rd_16 i1 i2 ..
  show "(x < out \<or> out + 16 \<le> x) \<and> (x < ivec \<or> ivec + 16 \<le> x) \<Longrightarrow> m' x = m x"
    unfolding m' using y by (auto simp: wr_outside)
qed

lemma cbc_decrypt_tmp_eq:
  assumes "keeps16 block"
  shows "out \<le> inp \<Longrightarrow> ivec + 16 \<le> out \<or> out + 16 * k \<le> ivec \<Longrightarrow> ivec + 16 \<le> inp \<or> inp + 16 * k \<le> ivec \<Longrightarrow>
    \<exists>m'. cbc_decrypt_tmp block m inp out (16 * k) ivec = (m', inp + 16 * k, out + 16 * k, 0)
      \<and> rd m' out (16 * k) = cbc_dec block (rd m ivec 16) (rd m inp (16 * k))
      \<and> rd m' ivec 16 = (if k = 0 then rd m ivec 16 else rd m (inp + 16 * k - 16) 16)
      \<and> (\<forall>x. (x < out \<or> out + 16 * k \<le> x) \<and> (x < ivec \<or> ivec + 16 \<le> x) \<longrightarrow> m' x = m x)"
proof (induction k arbitrary: m inp out)
  case 0
  show ?case by (simp add: cbc_decrypt_tmp.simps [of block m] cbc_dec.simps [of block "rd m ivec 16" "[]"])
next
  case (Suc k)
  let ?b = "block (rd m inp 16)"
  define m2 where "m2 = decrypt_word (decrypt_word m ?b inp out ivec 0) ?b inp out ivec 8"
  have b: "length ?b = 16" using assms by (simp add: keeps16_def)
  have hyps: "ivec + 16 \<le> out \<or> out + 16 \<le> ivec" "ivec + 16 \<le> inp \<or> inp + 16 \<le> ivec" using Suc.prems by auto
  note x = decrypt_words_16(1,2) [OF b Suc.prems(1) hyps m2_def] decrypt_words_16(3) [OF b Suc.prems(1) hyps m2_def]
  have in2: "rd m2 a n = rd m a n" if "inp + 16 \<le> a" "a + n \<le> inp + 16 * Suc k" for a n
    using that Suc.prems by (intro rd_cong x(3)) auto
  have "out + 16 \<le> inp + 16" "ivec + 16 \<le> out + 16 \<or> out + 16 + 16 * k \<le> ivec" "ivec + 16 \<le> inp + 16 \<or> inp + 16 + 16 * k \<le> ivec"
    using Suc.prems by auto
  from Suc.IH [OF this, of m2] obtain m' where m':
    "cbc_decrypt_tmp block m2 (inp + 16) (out + 16) (16 * k) ivec = (m', inp + 16 + 16 * k, out + 16 + 16 * k, 0)"
    "rd m' (out + 16) (16 * k) = cbc_dec block (rd m2 ivec 16) (rd m2 (inp + 16) (16 * k))"
    "rd m' ivec 16 = (if k = 0 then rd m2 ivec 16 else rd m2 (inp + 16 + 16 * k - 16) 16)"
    "\<forall>x. (x < out + 16 \<or> out + 16 + 16 * k \<le> x) \<and> (x < ivec \<or> ivec + 16 \<le> x) \<longrightarrow> m' x = m2 x" by blast
  have "cbc_decrypt_tmp block m inp out (16 * Suc k) ivec = cbc_decrypt_tmp block m2 (inp + 16) (out + 16) (16 * k) ivec"
    by (subst cbc_decrypt_tmp.simps) (simp add: Let_def m2_def)
  then have l: "cbc_decrypt_tmp block m inp out (16 * Suc k) ivec = (m', inp + 16 * Suc k, out + 16 * Suc k, 0)"
    unfolding m'(1) by simp
  have "rd m' out 16 = rd m2 out 16" using m'(4) hyps(1) by (intro rd_cong) auto
  moreover have "rd m2 (inp + 16) (16 * k) = rd m (inp + 16) (16 * k)" by (rule in2) simp_all
  ultimately have "rd m' out (16 * Suc k) = xor_bytes ?b (rd m ivec 16) @ cbc_dec block (rd m inp 16) (rd m (inp + 16) (16 * k))"
    using rd_add [of m' out 16 "16 * k"] x(1,2) m'(2) by simp
  also have "\<dots> = cbc_dec block (rd m ivec 16) (rd m inp (16 * Suc k))"
    by (subst (2) cbc_dec.simps) (simp add: rd_take rd_drop)
  finally have "rd m' out (16 * Suc k) = cbc_dec block (rd m ivec 16) (rd m inp (16 * Suc k))" .
  moreover have "rd m' ivec 16 = rd m (inp + 16 * Suc k - 16) 16"
    using m'(3) x(2) in2 [of "inp + 16 + 16 * k - 16" 16] by (cases k) simp_all
  moreover have "\<forall>z. (z < out \<or> out + 16 * Suc k \<le> z) \<and> (z < ivec \<or> ivec + 16 \<le> z) \<longrightarrow> m' z = m z"
    using m'(4) x(3) by auto
  ultimately show ?case using l by (intro exI [of _ m']) simp
qed

text \<open>Every overlap the code's assertion permits.\<close>

lemma CRYPTO_cbc128_decrypt_blocks:
  assumes "keeps16 block" "out \<le> inp \<or> inp + 16 * k \<le> out"
    and "ivec + 16 \<le> out \<or> out + 16 * k \<le> ivec" "ivec + 16 \<le> inp \<or> inp + 16 * k \<le> ivec"
    and "m' = CRYPTO_cbc128_decrypt block m inp out (16 * k) ivec"
  shows "rd m' out (16 * k) = cbc_dec block (rd m ivec 16) (rd m inp (16 * k))
    \<and> rd m' ivec 16 = (if k = 0 then rd m ivec 16 else rd m (inp + 16 * k - 16) 16)
    \<and> (\<forall>x. (x < out \<or> out + 16 * k \<le> x) \<and> (x < ivec \<or> ivec + 16 \<le> x) \<longrightarrow> m' x = m x)"
proof (cases "(inp \<ge> 32 \<and> out \<le> inp - 32) \<or> inp < out")
  case True
  then have o: "out + 32 \<le> inp \<or> inp + 16 * k \<le> out" using assms(2) by auto
  have i: "ivec + 16 = inp \<or> ivec + 16 \<le> out \<or> out + 16 * k \<le> ivec" using assms(3) by auto
  obtain m1 where m1: "cbc_decrypt_apart block m inp out (16 * k) ivec =
      (m1, inp + 16 * k, out + 16 * k, 0, if k = 0 then ivec else inp + 16 * k - 16)"
    "rd m1 out (16 * k) = cbc_dec block (rd m ivec 16) (rd m inp (16 * k))"
    "rd m1 (if k = 0 then ivec else inp + 16 * k - 16) 16 = (if k = 0 then rd m ivec 16 else rd m (inp + 16 * k - 16) 16)"
    "\<forall>x. x < out \<or> out + 16 * k \<le> x \<longrightarrow> m1 x = m x"
    using cbc_decrypt_apart_eq [OF assms(1) o i, of m] by blast
  let ?iv = "if k = 0 then ivec else inp + 16 * k - 16"
  have m': "m' = wr m1 ivec (rd m1 ?iv 16)"
    unfolding assms(5) CRYPTO_cbc128_decrypt_def m1(1) using True by simp
  have "rd m' out (16 * k) = rd m1 out (16 * k)" unfolding m' using assms(3) by (intro rd_wr_apart) auto
  moreover have "rd m' ivec 16 = rd m1 ?iv 16" unfolding m' by (rule rd_wr_same) simp
  moreover have "\<forall>x. (x < out \<or> out + 16 * k \<le> x) \<and> (x < ivec \<or> ivec + 16 \<le> x) \<longrightarrow> m' x = m x"
    using m1(4) by (auto simp: m' wr_outside)
  ultimately show ?thesis using m1(2,3) by simp
next
  case False
  then have o: "out \<le> inp" by simp
  show ?thesis
    using cbc_decrypt_tmp_eq [OF assms(1) o assms(3,4), of m] False assms(5)
    by (auto simp: CRYPTO_cbc128_decrypt_def)
qed

lemma cbc_dec_enc:
  assumes "keeps16 block" "\<And>b. length b = 16 \<Longrightarrow> dblock (block b) = b"
  shows "length xs = 16 * k \<Longrightarrow> length iv = 16 \<Longrightarrow> cbc_dec dblock iv (cbc_enc block iv xs) = xs"
proof (induction k arbitrary: xs iv)
  case 0
  then show ?case by (simp add: cbc_enc.simps [of block] cbc_dec.simps [of dblock])
next
  case (Suc k)
  let ?x = "xor_bytes (take 16 xs) iv"
  have l: "length ?x = 16" "length (block ?x) = 16" using Suc.prems assms(1) by (simp_all add: keeps16_def)
  have "xor_bytes ?x iv = take 16 xs"
    using Suc.prems unfolding xor_bytes_def by (intro nth_equalityI) simp_all
  moreover have "cbc_dec dblock (block ?x) (cbc_enc block (block ?x) (drop 16 xs)) = drop 16 xs"
    using Suc.prems l by (intro Suc.IH) simp_all
  ultimately show ?case
    using Suc.prems l assms(2) by (simp add: cbc_enc.simps [of block iv xs] cbc_dec.simps [of dblock iv] Let_def)
qed

end
