(* ===== verification/AsnString.thy ===== *)
theory AsnString
  imports CbbWrite
begin

text \<open>
  ASN.1 string objects: the operations of \<^verbatim>\<open>crypto/asn1/asn1_lib.c\<close> on \<open>ASN1_STRING\<close>, the
  conversion of text between character sets of \<^verbatim>\<open>crypto/asn1/a_mbstr.c\<close> and
  \<open>ASN1_STRING_to_UTF8\<close> of \<^verbatim>\<open>crypto/x509/a_strex.c\<close>. The conversion reads with the decoders and
  writes with the encoders of \<^verbatim>\<open>Unicode\<close> into a builder of \<^verbatim>\<open>Cbb\<close>; what holds for every pair of
  character sets comes from the locale \<open>total_codec\<close>. As in \<^verbatim>\<open>Mem\<close>, \<open>None\<close> is an access outside
  the memory a pointer refers to.
\<close>

section \<open>String objects\<close>

record ASN1_STRING =
  str_length :: int
  str_type :: int
  str_data :: "u8 list option"
  str_flags :: u64

text \<open>The data block holds the contents and a NUL that is not counted in the length.\<close>

definition str_ok :: "ASN1_STRING \<Rightarrow> bool" where
  "str_ok s \<longleftrightarrow>
     (case str_data s of
        None \<Rightarrow> str_length s = 0
      | Some b \<Rightarrow> 0 \<le> str_length s \<and> nat (str_length s) < length b \<and> b ! nat (str_length s) = 0)"

definition contents :: "ASN1_STRING \<Rightarrow> u8 list" where
  "contents s = (case str_data s of None \<Rightarrow> [] | Some b \<Rightarrow> take (nat (str_length s)) b)"

text \<open>\<open>sizeof(ASN1_STRING)\<close>.\<close>

definition ASN1_STRING_SIZE :: nat where
  "ASN1_STRING_SIZE = 24"

definition ASN1_STRING_type_new :: "allocator \<Rightarrow> int \<Rightarrow> ASN1_STRING option" where
  "ASN1_STRING_type_new mal type =
     (case OPENSSL_malloc mal ASN1_STRING_SIZE of
        None \<Rightarrow> None
      | Some _ \<Rightarrow> Some \<lparr>str_length = 0, str_type = type, str_data = None, str_flags = 0\<rparr>)"

definition ASN1_STRING_set ::
    "allocator \<Rightarrow> ASN1_STRING \<Rightarrow> u8 list option \<Rightarrow> int \<Rightarrow> (bool \<times> ASN1_STRING) option" where
  "ASN1_STRING_set mal str src len =
     (if len < 0 \<and> src = None then Some (False, str)
      else case (if len < 0 then map_option int (strlen (the src)) else Some len) of
        None \<Rightarrow> None
      | Some len \<Rightarrow>
          (case (if str_length str \<le> len \<or> str_data str = None then
                   (case str_data str of
                      None \<Rightarrow> OPENSSL_malloc mal (nat len + 1)
                    | Some c \<Rightarrow> OPENSSL_realloc mal (Some (length c, c)) (nat len + 1))
                 else str_data str) of
             None \<Rightarrow> Some (False, str)
           | Some b \<Rightarrow>
               (case src of
                  None \<Rightarrow> Some (True, str\<lparr>str_data := Some b, str_length := len\<rparr>)
                | Some d \<Rightarrow>
                    if length d < nat len \<or> length b < nat len + 1 then None
                    else Some (True, str\<lparr>str_length := len,
                           str_data := Some (take (nat len) d @ 0 # drop (nat len + 1) b)\<rparr>))))"

definition ASN1_STRING_set0 :: "ASN1_STRING \<Rightarrow> u8 list option \<Rightarrow> int \<Rightarrow> ASN1_STRING" where
  "ASN1_STRING_set0 str data len = str\<lparr>str_data := data, str_length := len\<rparr>"

definition ASN1_STRING_copy ::
    "allocator \<Rightarrow> ASN1_STRING \<Rightarrow> ASN1_STRING option \<Rightarrow> (bool \<times> ASN1_STRING) option" where
  "ASN1_STRING_copy mal dst src =
     (case src of
        None \<Rightarrow> Some (False, dst)
      | Some str \<Rightarrow>
          (case ASN1_STRING_set mal (dst\<lparr>str_type := str_type str\<rparr>) (str_data str) (str_length str) of
             None \<Rightarrow> None
           | Some (False, d) \<Rightarrow> Some (False, d)
           | Some (True, d) \<Rightarrow> Some (True, d\<lparr>str_flags := str_flags str\<rparr>)))"

definition V_ASN1_OCTET_STRING :: int where
  "V_ASN1_OCTET_STRING = 4"

definition ASN1_STRING_new :: "allocator \<Rightarrow> ASN1_STRING option" where
  "ASN1_STRING_new mal = ASN1_STRING_type_new mal V_ASN1_OCTET_STRING"

definition ASN1_STRING_dup :: "allocator \<Rightarrow> ASN1_STRING option \<Rightarrow> ASN1_STRING option option" where
  "ASN1_STRING_dup mal str =
     (case str of
        None \<Rightarrow> Some None
      | Some s \<Rightarrow>
          (case ASN1_STRING_new mal of
             None \<Rightarrow> Some None
           | Some ret \<Rightarrow>
               (case ASN1_STRING_copy mal ret (Some s) of
                  None \<Rightarrow> None
                | Some (False, _) \<Rightarrow> Some None
                | Some (True, d) \<Rightarrow> Some (Some d))))"

text \<open>\<open>OPENSSL_memcmp\<close>, the value as the sign of the first difference (C leaves the magnitude
  open).\<close>

fun mem_cmp :: "u8 list \<Rightarrow> u8 list \<Rightarrow> int" where
  "mem_cmp (a # as) (b # bs) = (if a < b then -1 else if b < a then 1 else mem_cmp as bs)"
| "mem_cmp _ _ = 0"

definition ASN1_STRING_cmp :: "ASN1_STRING \<Rightarrow> ASN1_STRING \<Rightarrow> int" where
  "ASN1_STRING_cmp a b =
     (let i = str_length a - str_length b
      in if i = 0 then
           (let i = mem_cmp (contents a) (contents b)
            in if i = 0 then str_type a - str_type b else i)
         else i)"

section \<open>Character sets\<close>

text \<open>The four values of \<open>inform\<close> and \<open>outform\<close>, with their decoders and encoders.\<close>

datatype mbform = MB_UTF8 | MB_ASC | MB_BMP | MB_UNIV

definition MBSTRING_FLAG :: int where
  "MBSTRING_FLAG = 0x1000"

definition mbform_of :: "int \<Rightarrow> mbform option" where
  "mbform_of inform =
     (if inform = MBSTRING_FLAG + 2 then Some MB_BMP
      else if inform = MBSTRING_FLAG + 4 then Some MB_UNIV
      else if inform = MBSTRING_FLAG then Some MB_UTF8
      else if inform = MBSTRING_FLAG + 1 then Some MB_ASC
      else None)"

fun decode_func :: "mbform \<Rightarrow> CBS \<Rightarrow> u32 option \<times> CBS" where
  "decode_func MB_BMP = cbs_get_ucs2_be"
| "decode_func MB_UNIV = cbs_get_utf32_be"
| "decode_func MB_UTF8 = cbs_get_utf8"
| "decode_func MB_ASC = cbs_get_latin1"

fun encode_func :: "mbform \<Rightarrow> allocator \<Rightarrow> nat \<Rightarrow> CBB \<Rightarrow> u32 \<Rightarrow> bool \<times> CBB" where
  "encode_func MB_BMP = cbb_add_ucs2_be"
| "encode_func MB_UNIV = cbb_add_utf32_be"
| "encode_func MB_UTF8 = cbb_add_utf8"
| "encode_func MB_ASC = cbb_add_latin1"

text \<open>The encoding of a code point in a character set, and the code points the set has.\<close>

fun mb_enc :: "mbform \<Rightarrow> u32 \<Rightarrow> u8 list" where
  "mb_enc MB_BMP = (\<lambda>u. be_bytes 2 (unat u))"
| "mb_enc MB_UNIV = (\<lambda>u. be_bytes 4 (unat u))"
| "mb_enc MB_UTF8 = utf8_enc"
| "mb_enc MB_ASC = (\<lambda>u. [ucast u])"

fun mb_ok :: "mbform \<Rightarrow> u32 \<Rightarrow> bool" where
  "mb_ok MB_BMP = (\<lambda>u. u \<le> 0xffff \<and> is_valid_code_point u)"
| "mb_ok MB_UNIV = is_valid_code_point"
| "mb_ok MB_UTF8 = is_valid_code_point"
| "mb_ok MB_ASC = (\<lambda>u. u \<le> 0xff)"

lemma mb_codec: "total_codec (decode_func f) (encode_func f) (mb_enc f) (mb_ok f)"
  by (cases f) (simp_all add: latin1t.total_codec_axioms ucs2t.total_codec_axioms utf32t.total_codec_axioms
      utf8t.total_codec_axioms)

lemmas mb_get_iff = codec.get_iff [OF total_codec.axioms(1) [OF mb_codec]]
lemmas mb_enc_nonempty = codec.enc_nonempty [OF total_codec.axioms(1) [OF mb_codec]]
lemmas mb_enc_length = total_codec.enc_length [OF mb_codec]

lemma decode_shorter: "decode_func f cbs = (Some c, rest) \<Longrightarrow> length rest < length cbs"
  using mb_enc_nonempty [of f c] by (auto simp: mb_get_iff)

section \<open>The types a text fits in\<close>

definition B_ASN1_PRINTABLESTRING :: u64 where "B_ASN1_PRINTABLESTRING = 0x0002"
definition B_ASN1_T61STRING :: u64 where "B_ASN1_T61STRING = 0x0004"
definition B_ASN1_IA5STRING :: u64 where "B_ASN1_IA5STRING = 0x0010"
definition B_ASN1_UNIVERSALSTRING :: u64 where "B_ASN1_UNIVERSALSTRING = 0x0100"
definition B_ASN1_BMPSTRING :: u64 where "B_ASN1_BMPSTRING = 0x0800"
definition B_ASN1_UTF8STRING :: u64 where "B_ASN1_UTF8STRING = 0x2000"

definition DIRSTRING_TYPE :: u64 where
  "DIRSTRING_TYPE =
     B_ASN1_PRINTABLESTRING OR B_ASN1_T61STRING OR B_ASN1_BMPSTRING OR B_ASN1_UTF8STRING"

definition V_ASN1_UTF8STRING :: int where "V_ASN1_UTF8STRING = 12"
definition V_ASN1_PRINTABLESTRING :: int where "V_ASN1_PRINTABLESTRING = 19"
definition V_ASN1_T61STRING :: int where "V_ASN1_T61STRING = 20"
definition V_ASN1_IA5STRING :: int where "V_ASN1_IA5STRING = 22"
definition V_ASN1_UNIVERSALSTRING :: int where "V_ASN1_UNIVERSALSTRING = 28"
definition V_ASN1_BMPSTRING :: int where "V_ASN1_BMPSTRING = 30"

text \<open>\<open>strchr\<close> also finds the NUL that ends its string, the last element of the list.\<close>

definition is_printable :: "u32 \<Rightarrow> bool" where
  "is_printable value =
     (if value > 0x7f then False
      else if value \<ge> 97 \<and> value \<le> 122 then True
      else if value \<ge> 65 \<and> value \<le> 90 then True
      else if value \<ge> 48 \<and> value \<le> 57 then True
      else value = 32 \<or> value \<in> set [39, 40, 41, 43, 44, 45, 46, 47, 58, 61, 63, 0])"

text \<open>The output types that are still possible after a character.\<close>

definition narrow_mask :: "u32 \<Rightarrow> u64 \<Rightarrow> u64" where
  "narrow_mask c msk =
     (let msk = (if msk AND B_ASN1_PRINTABLESTRING \<noteq> 0 \<and> \<not> is_printable c
                  then msk AND NOT B_ASN1_PRINTABLESTRING else msk);
          msk = (if msk AND B_ASN1_IA5STRING \<noteq> 0 \<and> c > 127
                  then msk AND NOT B_ASN1_IA5STRING else msk);
          msk = (if msk AND B_ASN1_T61STRING \<noteq> 0 \<and> c > 0xff
                  then msk AND NOT B_ASN1_T61STRING else msk)
      in if msk AND B_ASN1_BMPSTRING \<noteq> 0 \<and> c > 0xffff
         then msk AND NOT B_ASN1_BMPSTRING else msk)"

text \<open>The first pass over the input: the number of characters, their length in UTF-8 and the
  types that remain.\<close>

function mb_scan :: "mbform \<Rightarrow> CBS \<Rightarrow> nat \<Rightarrow> nat \<Rightarrow> u64 \<Rightarrow> (nat \<times> nat \<times> u64) option" where
  "mb_scan f cbs nchar utf8_len msk =
     (if cbs = [] then Some (nchar, utf8_len, msk)
      else (case decode_func f cbs of
              (None, _) \<Rightarrow> None
            | (Some c, rest) \<Rightarrow>
                if nchar = 0 \<and> (f = MB_BMP \<or> f = MB_UNIV) \<and> c = 0xfeff then None
                else (let msk = narrow_mask c msk
                      in if msk = 0 then None
                         else mb_scan f rest (nchar + 1) (utf8_len + cbb_get_utf8_len c) msk)))"
  by auto
termination
  by (relation "measure (\<lambda>(f, cbs, _). length cbs)") (auto dest: decode_shorter [OF sym])

declare mb_scan.simps [simp del]

text \<open>The second pass.\<close>

function mb_recode :: "allocator \<Rightarrow> mbform \<Rightarrow> mbform \<Rightarrow> CBB \<Rightarrow> CBS \<Rightarrow> bool \<times> CBB" where
  "mb_recode mal f g cbb cbs =
     (if cbs = [] then (True, cbb)
      else (case decode_func f cbs of
              (None, _) \<Rightarrow> (False, cbb)
            | (Some c, rest) \<Rightarrow>
                (case encode_func g mal 0 cbb c of
                   (False, cbb) \<Rightarrow> (False, cbb)
                 | (True, cbb) \<Rightarrow> mb_recode mal f g cbb rest)))"
  by auto
termination
  by (relation "measure (\<lambda>(mal, f, g, cbb, cbs). length cbs)") (auto dest: decode_shorter [OF sym])

declare mb_recode.simps [simp del]

text \<open>The type of the result, its character set and the estimate of its size.\<close>

definition mb_output :: "u64 \<Rightarrow> nat \<Rightarrow> nat \<Rightarrow> int \<times> mbform \<times> nat" where
  "mb_output msk nchar utf8_len =
     (if msk AND B_ASN1_PRINTABLESTRING \<noteq> 0 then (V_ASN1_PRINTABLESTRING, MB_ASC, nchar)
      else if msk AND B_ASN1_IA5STRING \<noteq> 0 then (V_ASN1_IA5STRING, MB_ASC, nchar)
      else if msk AND B_ASN1_T61STRING \<noteq> 0 then (V_ASN1_T61STRING, MB_ASC, nchar)
      else if msk AND B_ASN1_BMPSTRING \<noteq> 0 then (V_ASN1_BMPSTRING, MB_BMP, 2 * nchar)
      else if msk AND B_ASN1_UNIVERSALSTRING \<noteq> 0 then (V_ASN1_UNIVERSALSTRING, MB_UNIV, 4 * nchar)
      else (V_ASN1_UTF8STRING, MB_UTF8, utf8_len))"

text \<open>What \<open>*out\<close> points to: nothing, an object, or an object that has been freed.\<close>

datatype str_ptr = Null | Live ASN1_STRING | Freed

text \<open>The object the text goes to, \<open>None\<close> when its allocation fails.\<close>

definition mb_dest :: "allocator \<Rightarrow> ASN1_STRING option \<Rightarrow> int \<Rightarrow> ASN1_STRING option" where
  "mb_dest mal old type =
     (case old of
        Some dest \<Rightarrow>
          Some ((if str_data dest \<noteq> None then dest\<lparr>str_length := 0, str_data := None\<rparr> else dest)
                \<lparr>str_type := type\<rparr>)
      | None \<Rightarrow> ASN1_STRING_type_new mal type)"

definition mb_store ::
    "allocator \<Rightarrow> mbform \<Rightarrow> CBS \<Rightarrow> int \<times> mbform \<times> nat \<Rightarrow> ASN1_STRING option \<Rightarrow> (int \<times> str_ptr) option" where
  "mb_store mal f bs fmt old =
     (case fmt of (type, outform, size_estimate) \<Rightarrow>
       (case mb_dest mal old type of
          None \<Rightarrow> Some (-1, Null)
        | Some dest \<Rightarrow>
            if f = outform then
              (case ASN1_STRING_set mal dest (Some bs) (int (length bs)) of
                 None \<Rightarrow> None
               | Some (False, dest) \<Rightarrow> Some (-1, Live dest)
               | Some (True, dest) \<Rightarrow> Some (type, Live dest))
            else
              (case single mal (size_estimate + 1) (\<lambda>cbb.
                      and_then (mb_recode mal f outform cbb bs) (\<lambda>cbb. CBB_add_u8 mal 0 cbb 0)) of
                 None \<Rightarrow> Some (-1, if old = None then Freed else Live dest)
               | Some data \<Rightarrow>
                   if length data < 1 \<or> length data > INT_MAX
                   then Some (-1, if old = None then Freed else Live dest)
                   else Some (type, Live (dest\<lparr>str_length := int (length data) - 1,
                                               str_data := Some data\<rparr>)))))"

definition mb_ncopy ::
    "allocator \<Rightarrow> str_ptr option \<Rightarrow> CBS \<Rightarrow> int \<Rightarrow> u64 \<Rightarrow> int \<Rightarrow> int \<Rightarrow> (int \<times> str_ptr option) option" where
  "mb_ncopy mal out bs inform msk minsize maxsize =
     (case mbform_of inform of
        None \<Rightarrow> Some (-1, out)
      | Some f \<Rightarrow>
          (case mb_scan f bs 0 0 msk of
             None \<Rightarrow> Some (-1, out)
           | Some (nchar, utf8_len, msk) \<Rightarrow>
               if minsize > 0 \<and> nchar < nat minsize then Some (-1, out)
               else if maxsize > 0 \<and> nchar > nat maxsize then Some (-1, out)
               else (let fmt = mb_output msk nchar utf8_len
                     in case out of
                          None \<Rightarrow> Some (fst fmt, None)
                        | Some Null \<Rightarrow> map_option (map_prod id Some) (mb_store mal f bs fmt None)
                        | Some (Live s) \<Rightarrow> map_option (map_prod id Some) (mb_store mal f bs fmt (Some s))
                        | Some Freed \<Rightarrow> None)))"

definition ASN1_mbstring_ncopy ::
    "allocator \<Rightarrow> str_ptr option \<Rightarrow> u8 list \<Rightarrow> int \<Rightarrow> int \<Rightarrow> u64 \<Rightarrow> int \<Rightarrow> int \<Rightarrow>
      (int \<times> str_ptr option) option" where
  "ASN1_mbstring_ncopy mal out inp len inform msk minsize maxsize =
     (case (if len = -1 then map_option (\<lambda>n. sint (of_nat n :: u32)) (strlen inp) else Some len) of
        None \<Rightarrow> None
      | Some len \<Rightarrow>
          if len < 0 \<or> int (length inp) < len then None
          else mb_ncopy mal out (take (nat len) inp) inform
                 (if msk = 0 then DIRSTRING_TYPE else msk) minsize maxsize)"

definition ASN1_mbstring_copy ::
    "allocator \<Rightarrow> str_ptr option \<Rightarrow> u8 list \<Rightarrow> int \<Rightarrow> int \<Rightarrow> u64 \<Rightarrow> (int \<times> str_ptr option) option" where
  "ASN1_mbstring_copy mal out inp len inform msk = ASN1_mbstring_ncopy mal out inp len inform msk 0 0"

definition tag2nbyte :: "int list" where
  "tag2nbyte =
     [-1, -1, -1, -1, -1,
      -1, -1, -1, -1, -1,
      -1, -1, 0, -1,
      -1, -1, -1, -1,
      1, 1, 1,
      -1, 1, 1, 1,
      -1, 1, -1,
      4, -1, 2]"

text \<open>The result is the returned number and the block \<open>*out\<close> is set to.\<close>

definition ASN1_STRING_to_UTF8 ::
    "allocator \<Rightarrow> ASN1_STRING option \<Rightarrow> (int \<times> u8 list option) option" where
  "ASN1_STRING_to_UTF8 mal inp =
     (case inp of
        None \<Rightarrow> Some (-1, None)
      | Some s \<Rightarrow>
          (let type = str_type s
           in if type < 0 \<or> type > 30 then Some (-1, None)
              else (let mbflag = tag2nbyte ! nat type
                    in if mbflag = -1 then Some (-1, None)
                       else (case ASN1_mbstring_copy mal
                                    (Some (Live \<lparr>str_length = 0, str_type = 0, str_data = None, str_flags = 0\<rparr>))
                                    (case str_data s of None \<Rightarrow> [] | Some b \<Rightarrow> b) (str_length s)
                                    (mbflag + MBSTRING_FLAG) B_ASN1_UTF8STRING of
                               Some (ret, Some (Live t)) \<Rightarrow>
                                 if ret < 0 then Some (ret, None) else Some (str_length t, str_data t)
                             | Some (ret, _) \<Rightarrow> Some (ret, None)
                             | None \<Rightarrow> None))))"

section \<open>String objects stay well formed\<close>

lemma ASN1_STRING_type_new_ok: "ASN1_STRING_type_new mal t = Some s \<Longrightarrow> str_ok s \<and> contents s = [] \<and> str_type s = t"
  by (auto simp: ASN1_STRING_type_new_def str_ok_def contents_def split: option.splits)

lemma nth_NUL [simp]: "length xs = n \<Longrightarrow> (xs @ c # ys) ! n = c"
  by auto

lemma str_okI:
  "str_data s = Some (xs @ 0 # ys) \<Longrightarrow> str_length s = int (length xs) \<Longrightarrow> str_ok s \<and> contents s = xs"
  by (auto simp: str_ok_def contents_def)

text \<open>Replacing the contents of a well-formed object needs no hypothesis on the allocator beyond
  its contract: on a failure the object is unchanged.\<close>

lemma ASN1_STRING_set_eq:
  "ASN1_STRING_set mal str (Some d) (int (length d)) =
     (case (if str_length str \<le> int (length d) \<or> str_data str = None then
              (case str_data str of
                 None \<Rightarrow> OPENSSL_malloc mal (length d + 1)
               | Some c \<Rightarrow> OPENSSL_realloc mal (Some (length c, c)) (length d + 1))
            else str_data str) of
        None \<Rightarrow> Some (False, str)
      | Some b \<Rightarrow>
          if length b < length d + 1 then None
          else Some (True, str\<lparr>str_length := int (length d),
                 str_data := Some (d @ 0 # drop (length d + 1) b)\<rparr>))"
  by (simp add: ASN1_STRING_set_def cong: option.case_cong if_cong)

lemma ASN1_STRING_set_cases:
  assumes "malloc_contract mal" "str_ok str" "length d \<le> 2 ^ 62"
  shows "ASN1_STRING_set mal str (Some d) (int (length d)) = Some (False, str) \<or>
    (\<exists>s ys. ASN1_STRING_set mal str (Some d) (int (length d)) = Some (True, s) \<and>
      str_data s = Some (d @ 0 # ys) \<and> str_length s = int (length d) \<and>
      str_type s = str_type str \<and> str_flags s = str_flags str)"
proof -
  have sz: "length d + 1 + 8 < 2 ^ 64" using assms(3) by simp
  let ?r = "if str_length str \<le> int (length d) \<or> str_data str = None then
              (case str_data str of
                 None \<Rightarrow> OPENSSL_malloc mal (length d + 1)
               | Some c \<Rightarrow> OPENSSL_realloc mal (Some (length c, c)) (length d + 1))
            else str_data str"
  show ?thesis
  proof (cases ?r)
    case None
    show ?thesis unfolding ASN1_STRING_set_eq None by simp
  next
    case (Some b)
    have "length d + 1 \<le> length b"
    proof (cases "str_length str \<le> int (length d) \<or> str_data str = None")
      case True
      show ?thesis
      proof (cases "str_data str")
        case None
        then have "OPENSSL_malloc mal (length d + 1) = Some b" using Some by simp
        from OPENSSL_malloc_length(1) [OF assms(1) sz this] show ?thesis by simp
      next
        case (Some c)
        then have "OPENSSL_realloc mal (Some (length c, c)) (length d + 1) = Some b"
          using \<open>?r = Some b\<close> True by simp
        from OPENSSL_realloc_Some(1) [OF assms(1) sz this] show ?thesis by simp
      qed
    qed (use Some assms(2) in \<open>auto simp: str_ok_def\<close>)
    then show ?thesis unfolding ASN1_STRING_set_eq Some by simp
  qed
qed

lemma ASN1_STRING_set_result:
  assumes "malloc_contract mal" "str_ok s" "length d \<le> 2 ^ 62"
  shows "\<exists>ok s'. ASN1_STRING_set mal s (Some d) (int (length d)) = Some (ok, s') \<and> str_ok s' \<and>
    str_type s' = str_type s \<and> contents s' = (if ok then d else contents s) \<and>
    str_length s' = int (length (contents s')) \<and> (\<not> ok \<longrightarrow> s' = s)"
  using ASN1_STRING_set_cases [OF assms]
proof (elim disjE exE conjE)
  assume "ASN1_STRING_set mal s (Some d) (int (length d)) = Some (False, s)"
  moreover have "str_length s = int (length (contents s))"
    using assms(2) by (auto simp: str_ok_def contents_def split: option.splits)
  ultimately show ?thesis using assms(2) by auto
next
  fix s' ys
  assume *: "ASN1_STRING_set mal s (Some d) (int (length d)) = Some (True, s')" "str_data s' = Some (d @ 0 # ys)"
    "str_length s' = int (length d)" "str_type s' = str_type s" "str_flags s' = str_flags s"
  from str_okI [OF *(2,3)] * show ?thesis by auto
qed

lemma ASN1_STRING_set_take:
  "0 \<le> n \<Longrightarrow> nat n \<le> length b \<Longrightarrow>
    ASN1_STRING_set mal s (Some b) n = ASN1_STRING_set mal s (Some (take (nat n) b)) (int (length (take (nat n) b)))"
  by (simp add: ASN1_STRING_set_def cong: option.case_cong if_cong)

lemma mem_cmp_refl [simp]: "mem_cmp a a = 0"
  by (induction a) auto

lemma str_ok_update [simp]:
  "str_ok (s\<lparr>str_type := k\<rparr>) = str_ok s" "contents (s\<lparr>str_type := k\<rparr>) = contents s"
  "str_ok (s\<lparr>str_flags := fl\<rparr>) = str_ok s" "contents (s\<lparr>str_flags := fl\<rparr>) = contents s"
  by (cases "str_data s"; simp add: str_ok_def contents_def)+

lemma ASN1_STRING_copy_result:
  assumes "malloc_contract mal" "str_ok s" "str_ok t" "length (contents t) \<le> 2 ^ 62" "str_data t \<noteq> None"
  shows "\<exists>ok s'. ASN1_STRING_copy mal s (Some t) = Some (ok, s') \<and> str_ok s' \<and> str_type s' = str_type t \<and>
    contents s' = (if ok then contents t else contents s) \<and>
    (ok \<longrightarrow> str_flags s' = str_flags t \<and> ASN1_STRING_cmp s' t = 0)"
proof -
  obtain b where b: "str_data t = Some b" "0 \<le> str_length t" "nat (str_length t) < length b"
    using assms(3,5) by (auto simp: str_ok_def split: option.splits)
  then have c: "contents t = take (nat (str_length t)) b" by (simp add: contents_def)
  let ?s = "s\<lparr>str_type := str_type t\<rparr>"
  have s: "str_ok ?s" "contents ?s = contents s" using assms(2) by simp_all
  have eq: "ASN1_STRING_set mal ?s (str_data t) (str_length t) =
      ASN1_STRING_set mal ?s (Some (contents t)) (int (length (contents t)))"
    using ASN1_STRING_set_take [OF b(2), of b mal ?s] b c by simp
  obtain ok s' where r: "ASN1_STRING_set mal ?s (Some (contents t)) (int (length (contents t))) = Some (ok, s')"
    "str_ok s'" "str_type s' = str_type t" "contents s' = (if ok then contents t else contents s)"
    "str_length s' = int (length (contents s'))"
    using ASN1_STRING_set_result [OF assms(1) s(1) assms(4), unfolded s(2)] by auto
  have l: "str_length t = int (length (contents t))" using b c by simp
  show ?thesis
  proof (cases ok)
    case True
    let ?t = "s'\<lparr>str_flags := str_flags t\<rparr>"
    have "str_ok ?t" "contents ?t = contents t" using r True by simp_all
    moreover have "ASN1_STRING_cmp ?t t = 0"
      using calculation r l True by (simp add: ASN1_STRING_cmp_def)
    moreover have "ASN1_STRING_copy mal s (Some t) = Some (True, ?t)"
      using eq r True by (simp add: ASN1_STRING_copy_def)
    ultimately show ?thesis using r(3) True by auto
  next
    case False
    then have "ASN1_STRING_copy mal s (Some t) = Some (False, s')"
      using eq r by (simp add: ASN1_STRING_copy_def)
    with r False show ?thesis by auto
  qed
qed

text \<open>With an allocator that does not fail, setting the contents of a fresh object.\<close>

lemma ASN1_STRING_set_fresh:
  assumes "malloc_contract mal" "malloc_total mal" "length d < 2 ^ 61" "str_data str = None"
  shows "ASN1_STRING_set mal str (Some d) (int (length d)) =
    Some (True, str\<lparr>str_length := int (length d), str_data := Some (d @ [0])\<rparr>)"
proof -
  obtain b where b: "OPENSSL_malloc mal (length d + 1) = Some b"
    using malloc_total_malloc [OF assms(2), of "length d + 1"] assms(3) by auto
  have "length b = length d + 1"
    using OPENSSL_malloc_length(1) [OF assms(1) _ b] assms(3) by simp
  then show ?thesis using b assms(4) by (simp add: ASN1_STRING_set_eq)
qed

section \<open>The text a block of bytes encodes\<close>

definition encodes :: "mbform \<Rightarrow> u32 list \<Rightarrow> u8 list \<Rightarrow> bool" where
  "encodes f us bs \<longleftrightarrow> bs = concat (map (mb_enc f) us) \<and> (\<forall>u\<in>set us. mb_ok f u)"

lemma encodes_Nil [simp]: "encodes f [] bs \<longleftrightarrow> bs = []"
  by (auto simp: encodes_def)

lemma encodes_Cons: "encodes f (u # us) bs \<longleftrightarrow> mb_ok f u \<and> (\<exists>r. bs = mb_enc f u @ r \<and> encodes f us r)"
  by (auto simp: encodes_def)

lemma encodes_ConsE:
  assumes "encodes f (u # us) bs"
  obtains r where "decode_func f bs = (Some u, r)" "encodes f us r" "bs \<noteq> []" "mb_ok f u"
  using assms mb_enc_nonempty [of f u] by (auto simp: encodes_Cons mb_get_iff)

lemma encodes_nil_iff: "encodes f us [] \<longleftrightarrow> us = []"
  by (cases us) (auto simp: encodes_Cons mb_enc_nonempty)

lemma encodes_unique: "encodes f us bs \<Longrightarrow> encodes f vs bs \<Longrightarrow> us = vs"
proof (induction us arbitrary: bs vs)
  case Nil
  then show ?case by (simp add: encodes_nil_iff)
next
  case (Cons u us)
  from Cons.prems(1) obtain r where r: "decode_func f bs = (Some u, r)" "encodes f us r" "bs \<noteq> []"
    by (rule encodes_ConsE)
  then obtain v vs' where vs: "vs = v # vs'" using Cons.prems(2) by (cases vs) auto
  with Cons.prems(2) obtain r' where "decode_func f bs = (Some v, r')" "encodes f vs' r'"
    by (auto elim: encodes_ConsE)
  with r Cons.IH vs show ?case by auto
qed

lemma encodes_length: "encodes f us bs \<Longrightarrow> length us \<le> length bs"
proof (induction us arbitrary: bs)
  case (Cons u us)
  then obtain r where "bs = mb_enc f u @ r" "encodes f us r" by (auto simp: encodes_Cons)
  moreover have "0 < length (mb_enc f u)" using mb_enc_nonempty by blast
  ultimately have "length bs = length (mb_enc f u) + length r" "length us \<le> length r" "0 < length (mb_enc f u)"
    using Cons.IH by auto
  then have "Suc (length us) \<le> length bs" by linarith
  then show ?case by simp
qed simp

section \<open>The types that remain\<close>

text \<open>Whether a character may be in a string of the type with a given bit of the mask.\<close>

definition fits :: "nat \<Rightarrow> u32 \<Rightarrow> bool" where
  "fits k c =
     (if k = 1 then is_printable c else if k = 4 then c \<le> 127 else if k = 2 then c \<le> 0xff
      else if k = 11 then c \<le> 0xffff else True)"

definition narrows :: "u32 list \<Rightarrow> u64 \<Rightarrow> u64" where
  "narrows us m = foldl (\<lambda>m c. narrow_mask c m) m us"

lemma B_bits:
  "B_ASN1_PRINTABLESTRING = 2 ^ 1" "B_ASN1_T61STRING = 2 ^ 2" "B_ASN1_IA5STRING = 2 ^ 4"
  "B_ASN1_UNIVERSALSTRING = 2 ^ 8" "B_ASN1_BMPSTRING = 2 ^ 11" "B_ASN1_UTF8STRING = 2 ^ 13"
  by (simp_all add: B_ASN1_PRINTABLESTRING_def B_ASN1_T61STRING_def B_ASN1_IA5STRING_def
      B_ASN1_UNIVERSALSTRING_def B_ASN1_BMPSTRING_def B_ASN1_UTF8STRING_def)

lemma bit_clear_flag:
  "bit (if m AND 2 ^ k \<noteq> 0 \<and> P then m AND NOT (2 ^ k) else m :: u64) i \<longleftrightarrow> bit m i \<and> \<not> (i = k \<and> P)"
  by (cases "i < 64")
    (auto simp: and_exp_eq_0_iff_not_bit bit_and_iff bit_not_iff bit_exp_iff dest: bit_imp_le_length)

lemma bit_narrow: "bit (narrow_mask c m) i \<longleftrightarrow> bit m i \<and> fits i c"
  unfolding narrow_mask_def Let_def B_bits bit_clear_flag fits_def by auto

lemma bit_narrows: "bit (narrows us m) i \<longleftrightarrow> bit m i \<and> (\<forall>c\<in>set us. fits i c)"
  by (induction us arbitrary: m) (auto simp: narrows_def bit_narrow)

lemma narrows_Cons: "narrows (u # us) m = narrows us (narrow_mask u m)"
  by (simp add: narrows_def)

lemma narrows_Nil [simp]: "narrows [] m = m"
  by (simp add: narrows_def)

lemma narrows_zero [simp]: "narrows us 0 = 0"
  by (simp add: bit_eq_iff bit_narrows)

section \<open>The two passes\<close>

text \<open>A byte-order mark at the front of a two- or four-byte form.\<close>

definition has_bom :: "mbform \<Rightarrow> u32 list \<Rightarrow> bool" where
  "has_bom f us \<longleftrightarrow> us \<noteq> [] \<and> hd us = 0xfeff \<and> (f = MB_BMP \<or> f = MB_UNIV)"

lemma mb_scan_Nil [simp]: "mb_scan f [] n l m = Some (n, l, m)"
  by (simp add: mb_scan.simps)

lemma mb_scan_encodes:
  "encodes f us bs \<Longrightarrow> mb_scan f bs n l m =
    (if us = [] then Some (n, l, m)
     else if (n = 0 \<and> has_bom f us) \<or> narrows us m = 0 then None
     else Some (n + length us, l + length (concat (map utf8_enc us)), narrows us m))"
proof (induction us arbitrary: bs n l m)
  case Nil
  then show ?case by simp
next
  case (Cons u us)
  from Cons.prems obtain r where r: "decode_func f bs = (Some u, r)" "encodes f us r" "bs \<noteq> []"
    by (rule encodes_ConsE)
  have step: "mb_scan f bs n l m =
      (if n = 0 \<and> has_bom f (u # us) then None
       else if narrow_mask u m = 0 then None
       else mb_scan f r (n + 1) (l + cbb_get_utf8_len u) (narrow_mask u m))"
    using r by (subst mb_scan.simps) (auto simp: has_bom_def Let_def)
  have "us = [] \<Longrightarrow> r = []" using r(2) by simp
  then show ?case
    using Cons.IH [OF r(2), of "n + 1" "l + cbb_get_utf8_len u" "narrow_mask u m"]
    unfolding step narrows_Cons by (cases "us = []") (auto simp: length_utf8_enc)
qed

lemma mb_scan_Some: "mb_scan f bs n l m = Some r \<Longrightarrow> \<exists>us. encodes f us bs"
proof (induction f bs n l m rule: mb_scan.induct)
  case (1 f cbs n l m)
  show ?case
  proof (cases "cbs = []")
    case False
    with "1.prems" obtain c rest where c: "decode_func f cbs = (Some c, rest)"
      "\<not> (n = 0 \<and> (f = MB_BMP \<or> f = MB_UNIV) \<and> c = 0xfeff)" "narrow_mask c m \<noteq> 0"
      "mb_scan f rest (n + 1) (l + cbb_get_utf8_len c) (narrow_mask c m) = Some r"
      by (subst (asm) mb_scan.simps) (auto simp: Let_def split: prod.splits option.splits if_splits)
    from "1.IH" [OF False c(1) [symmetric] refl c(2) refl c(3) c(4)] obtain us where "encodes f us rest"
      by blast
    with c(1) have "encodes f (c # us) cbs" by (auto simp: encodes_Cons mb_get_iff)
    then show ?thesis by blast
  qed (auto intro: exI [of _ "[]"])
qed

lemma mb_recode_encodes:
  "encodes f us bs \<Longrightarrow> mb_recode mal f g cbb bs = add_points (encode_func g) mal 0 cbb us"
proof (induction us arbitrary: bs cbb)
  case Nil
  then show ?case by (simp add: mb_recode.simps)
next
  case (Cons u us)
  from Cons.prems obtain r where r: "decode_func f bs = (Some u, r)" "encodes f us r" "bs \<noteq> []"
    by (rule encodes_ConsE)
  then show ?case
    using Cons.IH [OF r(2)] by (subst mb_recode.simps) (simp add: and_then_def split: prod.split bool.split)
qed

section \<open>Which type is chosen\<close>

text \<open>The first type, in the order of the code, that the mask permits and the text fits in.\<close>

definition mb_format :: "u64 \<Rightarrow> u32 list \<Rightarrow> int \<times> mbform" where
  "mb_format m us =
     (let may = (\<lambda>k. bit m k \<and> (\<forall>c\<in>set us. fits k c))
      in if may 1 then (V_ASN1_PRINTABLESTRING, MB_ASC)
         else if may 4 then (V_ASN1_IA5STRING, MB_ASC)
         else if may 2 then (V_ASN1_T61STRING, MB_ASC)
         else if may 11 then (V_ASN1_BMPSTRING, MB_BMP)
         else if may 8 then (V_ASN1_UNIVERSALSTRING, MB_UNIV)
         else (V_ASN1_UTF8STRING, MB_UTF8))"

lemma mb_output_format:
  "mb_output (narrows us m) n l = (case mb_format m us of (t, g) \<Rightarrow>
     (t, g, case g of MB_ASC \<Rightarrow> n | MB_BMP \<Rightarrow> 2 * n | MB_UNIV \<Rightarrow> 4 * n | MB_UTF8 \<Rightarrow> l))"
  unfolding mb_output_def mb_format_def Let_def B_bits and_exp_eq_0_iff_not_bit bit_narrows by simp

lemma latin1_valid: "u \<le> 0xff \<Longrightarrow> is_valid_code_point u"
proof -
  assume "u \<le> 0xff"
  then have u: "unat u < 256" by (simp add: word_le_nat_alt)
  have "unat (u AND 0xfffe) \<le> unat u" by (simp add: word_and_le2 flip: word_le_nat_alt)
  then have "u AND 0xfffe \<noteq> 0xfffe" using u by auto
  with u show ?thesis by (simp add: is_valid_code_point_def word_le_nat_alt word_less_nat_alt)
qed

lemma mb_ok_valid: "mb_ok f u \<Longrightarrow> is_valid_code_point u"
  by (cases f) (auto intro: latin1_valid)

lemma printable_small: "is_printable c \<Longrightarrow> c \<le> 0xff"
  by (auto simp: is_printable_def word_le_nat_alt word_less_nat_alt split: if_splits)

lemma mb_format_ok:
  assumes "\<forall>u\<in>set us. is_valid_code_point u" "u \<in> set us"
  shows "mb_ok (snd (mb_format m us)) u"
proof -
  have "c \<le> 127 \<Longrightarrow> c \<le> 255" for c :: u32 by (simp add: word_le_nat_alt)
  then show ?thesis
    using assms by (auto simp: mb_format_def Let_def fits_def intro: printable_small)
qed

section \<open>The conversion\<close>

definition text_string :: "int \<Rightarrow> mbform \<Rightarrow> u32 list \<Rightarrow> ASN1_STRING \<Rightarrow> ASN1_STRING" where
  "text_string t g us s =
     (let bs = concat (map (mb_enc g) us)
      in s\<lparr>str_length := int (length bs), str_type := t, str_data := Some (bs @ [0])\<rparr>)"

lemma length_concat_enc: "length (concat (map (mb_enc g) us)) \<le> 4 * length us"
  by (induction us) (use mb_enc_length in \<open>auto intro: add_mono\<close>)

lemma add_points_then_NUL:
  assumes "malloc_contract mal" "malloc_total mal" "cap < 2 ^ 61" "length us < 2 ^ 55"
    and ok: "\<forall>u\<in>set us. mb_ok g u"
  shows "single mal cap (\<lambda>cbb. and_then (add_points (encode_func g) mal 0 cbb us) (\<lambda>cbb. CBB_add_u8 mal 0 cbb 0)) =
    Some (concat (map (mb_enc g) us) @ [0])"
proof (rule single_total [OF assms(1-3)])
  show "length (concat (map (mb_enc g) us) @ [0]) < 2 ^ 58"
    using length_concat_enc [of g us] assms(4) by simp
next
  fix cbb assume l: "live cbb ([], [])"
  have "length ([] :: u8 list) + 4 * length us < 2 ^ 58" using assms(4) by simp
  from total_codec.add_points_success [OF mb_codec assms(1,2) l ok this]
  obtain c where c: "add_points (encode_func g) mal 0 cbb us = (True, c)"
    "live c (concat (map (mb_enc g) us), [])" by auto
  have "room 0 (concat (map (mb_enc g) us), []) 1"
    using length_concat_enc [of g us] assms(4) by (simp add: room0)
  then obtain c' where "CBB_add_u8 mal 0 c 0 = (True, c')" "live c' (a_write 0 [0] (concat (map (mb_enc g) us), []))"
    by (rule CBB_add_u8_success [OF assms(1,2) c(2)])
  with c(1) show "\<exists>cbb'. and_then (add_points (encode_func g) mal 0 cbb us) (\<lambda>cbb. CBB_add_u8 mal 0 cbb 0) = (True, cbb')
      \<and> live cbb' (a_write 0 (concat (map (mb_enc g) us) @ [0]) ([], []))"
    by (simp add: a_write0)
qed


lemma mb_store_text:
  assumes mal: "malloc_contract mal" "malloc_total mal" and enc: "encodes f us bs" and sz: "length bs < 2 ^ 28"
    and fmt: "mb_format m us = (t, g)" and est: "est \<le> 4 * length us"
  shows "mb_store mal f bs (t, g, est) old =
    Some (t, Live (text_string t g us
      (case old of None \<Rightarrow> \<lparr>str_length = 0, str_type = t, str_data = None, str_flags = 0\<rparr> | Some s \<Rightarrow> s)))"
proof -
  have n: "length us < 2 ^ 28" using encodes_length [OF enc] sz by simp
  obtain dest where dest: "mb_dest mal old t = Some dest" "str_data dest = None"
    "text_string t g us dest = text_string t g us
      (case old of None \<Rightarrow> \<lparr>str_length = 0, str_type = t, str_data = None, str_flags = 0\<rparr> | Some s \<Rightarrow> s)"
    using malloc_total_malloc [OF mal(2), of ASN1_STRING_SIZE]
    by (cases old) (auto simp: mb_dest_def ASN1_STRING_type_new_def ASN1_STRING_SIZE_def text_string_def
        split: option.splits)
  have type: "str_type dest = t"
    using dest(1) by (cases old) (auto simp: mb_dest_def ASN1_STRING_type_new_def split: option.splits if_splits)
  show ?thesis
  proof (cases "f = g")
    case True
    have "length bs < 2 ^ 61" using sz by simp
    from ASN1_STRING_set_fresh [OF mal this dest(2)] have
      "mb_store mal f bs (t, g, est) old =
        Some (t, Live (dest\<lparr>str_length := int (length bs), str_data := Some (bs @ [0])\<rparr>))"
      using dest(1) True by (simp add: mb_store_def)
    also have "dest\<lparr>str_length := int (length bs), str_data := Some (bs @ [0])\<rparr> = text_string t g us dest"
      using enc type True by (simp add: text_string_def encodes_def Let_def)
    finally show ?thesis by (simp only: dest(3))
  next
    case False
    have ok: "\<forall>u\<in>set us. mb_ok g u"
      using mb_format_ok [of us _ m] enc fmt by (auto simp: encodes_def intro: mb_ok_valid)
    have "est + 1 < 2 ^ 61" "length us < 2 ^ 55" using est n by simp_all
    from add_points_then_NUL [OF mal this ok]
    have w: "single mal (est + 1) (\<lambda>cbb. and_then (mb_recode mal f g cbb bs) (\<lambda>cbb. CBB_add_u8 mal 0 cbb 0)) =
        Some (concat (map (mb_enc g) us) @ [0])"
      by (simp add: mb_recode_encodes [OF enc])
    have "Suc (length (concat (map (mb_enc g) us))) \<le> INT_MAX"
      using length_concat_enc [of g us] n by (simp add: INT_MAX_def)
    with w False dest(1) have "mb_store mal f bs (t, g, est) old =
        Some (t, Live (dest\<lparr>str_length := int (length (concat (map (mb_enc g) us))),
          str_data := Some (concat (map (mb_enc g) us) @ [0])\<rparr>))"
      by (simp add: mb_store_def)
    also have "dest\<lparr>str_length := int (length (concat (map (mb_enc g) us))),
          str_data := Some (concat (map (mb_enc g) us) @ [0])\<rparr> = text_string t g us dest"
      using type by (simp add: text_string_def Let_def)
    finally show ?thesis by (simp only: dest(3))
  qed
qed

definition fresh_string :: ASN1_STRING where
  "fresh_string = \<lparr>str_length = 0, str_type = 0, str_data = None, str_flags = 0\<rparr>"

text \<open>When the conversion refuses a text it can read.\<close>

definition mb_refused :: "mbform \<Rightarrow> u32 list \<Rightarrow> u64 \<Rightarrow> int \<Rightarrow> int \<Rightarrow> bool" where
  "mb_refused f us m minsize maxsize \<longleftrightarrow>
     has_bom f us \<or> us \<noteq> [] \<and> narrows us m = 0 \<or>
     0 < minsize \<and> length us < nat minsize \<or> 0 < maxsize \<and> nat maxsize < length us"

lemma mb_ncopy_text:
  assumes mal: "malloc_contract mal" "malloc_total mal" and enc: "encodes f us bs" and sz: "length bs < 2 ^ 28"
    and form: "mbform_of inform = Some f" and out: "out = Null \<or> (\<exists>s. out = Live s)"
  shows "mb_ncopy mal (Some out) bs inform m minsize maxsize =
    (if mb_refused f us m minsize maxsize then Some (-1, Some out)
     else Some (fst (mb_format m us), Some (Live (text_string (fst (mb_format m us)) (snd (mb_format m us)) us
       (case out of Live s \<Rightarrow> s | _ \<Rightarrow> fresh_string)))))"
proof -
  obtain t g where f: "mb_format m us = (t, g)" by (cases "mb_format m us")
  let ?l = "length (concat (map utf8_enc us))"
  let ?est = "case g of MB_ASC \<Rightarrow> length us | MB_BMP \<Rightarrow> 2 * length us | MB_UNIV \<Rightarrow> 4 * length us | MB_UTF8 \<Rightarrow> ?l"
  have scan: "mb_scan f bs 0 0 m =
      (if us \<noteq> [] \<and> (has_bom f us \<or> narrows us m = 0) then None else Some (length us, ?l, narrows us m))"
    by (subst mb_scan_encodes [OF enc]) auto
  have "?est \<le> 4 * length us"
    using length_concat_enc [of MB_UTF8 us] by (cases g) auto
  note st = mb_store_text [OF mal enc sz f this]
  have fresh: "text_string t g us \<lparr>str_length = 0, str_type = t, str_data = None, str_flags = 0\<rparr> =
      text_string t g us fresh_string"
    by (simp add: text_string_def fresh_string_def)
  show ?thesis
  proof (cases "mb_refused f us m minsize maxsize")
    case True
    then show ?thesis
      by (auto simp: mb_ncopy_def form scan mb_refused_def has_bom_def)
  next
    case False
    then have "mb_ncopy mal (Some out) bs inform m minsize maxsize =
        (case out of Null \<Rightarrow> map_option (map_prod id Some) (mb_store mal f bs (t, g, ?est) None)
         | Live s \<Rightarrow> map_option (map_prod id Some) (mb_store mal f bs (t, g, ?est) (Some s)) | Freed \<Rightarrow> None)"
      using f by (auto simp: mb_ncopy_def form scan mb_refused_def mb_output_format Let_def)
    then show ?thesis using False out f by (auto simp: st fresh)
  qed
qed

lemma mb_ncopy_bad:
  assumes "mbform_of inform = Some f" "\<nexists>us. encodes f us bs"
  shows "mb_ncopy mal out bs inform m minsize maxsize = Some (-1, out)"
proof -
  have "mb_scan f bs 0 0 m = None"
  proof (cases "mb_scan f bs 0 0 m")
    case (Some r)
    from mb_scan_Some [OF this] assms(2) show ?thesis by blast
  qed
  then show ?thesis using assms(1) by (simp add: mb_ncopy_def)
qed

text \<open>The character set of a string type.\<close>

definition str_form :: "int \<Rightarrow> mbform option" where
  "str_form t = (if t < 0 \<or> t > 30 \<or> tag2nbyte ! nat t = -1 then None else mbform_of (tag2nbyte ! nat t + MBSTRING_FLAG))"

definition utf8_text :: "u32 list \<Rightarrow> u8 list" where
  "utf8_text us = concat (map utf8_enc us)"

lemma bit_UTF8STRING: "bit B_ASN1_UTF8STRING k \<longleftrightarrow> k = 13"
  unfolding B_bits(6) bit_exp_iff by auto

lemma narrows_UTF8: "narrows us B_ASN1_UTF8STRING \<noteq> 0"
proof -
  have "bit (narrows us B_ASN1_UTF8STRING) 13" by (simp add: bit_narrows bit_UTF8STRING fits_def)
  then show ?thesis by auto
qed

lemma mb_format_UTF8: "mb_format B_ASN1_UTF8STRING us = (V_ASN1_UTF8STRING, MB_UTF8)"
  by (simp add: mb_format_def bit_UTF8STRING)

lemma ASN1_STRING_to_UTF8_text:
  assumes mal: "malloc_contract mal" "malloc_total mal" and ok: "str_ok s" and sz: "length (contents s) < 2 ^ 28"
    and form: "str_form (str_type s) = Some f"
  shows "encodes f us (contents s) \<Longrightarrow> \<not> has_bom f us \<Longrightarrow>
      ASN1_STRING_to_UTF8 mal (Some s) = Some (int (length (utf8_text us)), Some (utf8_text us @ [0]))"
    and "\<nexists>us. encodes f us (contents s) \<and> \<not> has_bom f us \<Longrightarrow> ASN1_STRING_to_UTF8 mal (Some s) = Some (-1, None)"
proof -
  let ?mem = "case str_data s of None \<Rightarrow> [] | Some b \<Rightarrow> b"
  let ?inform = "tag2nbyte ! nat (str_type s) + MBSTRING_FLAG"
  have len: "0 \<le> str_length s" "str_length s \<le> int (length ?mem)" "take (nat (str_length s)) ?mem = contents s"
    using ok by (auto simp: str_ok_def contents_def split: option.splits)
  have t: "\<not> str_type s < 0" "\<not> str_type s > 30" "tag2nbyte ! nat (str_type s) \<noteq> -1" "mbform_of ?inform = Some f"
    using form by (auto simp: str_form_def split: if_splits)
  have run: "ASN1_mbstring_copy mal (Some (Live fresh_string)) ?mem (str_length s) ?inform B_ASN1_UTF8STRING =
      mb_ncopy mal (Some (Live fresh_string)) (contents s) ?inform B_ASN1_UTF8STRING 0 0"
    using len by (simp add: ASN1_mbstring_copy_def ASN1_mbstring_ncopy_def B_ASN1_UTF8STRING_def)
  have utf8: "ASN1_STRING_to_UTF8 mal (Some s) =
      (case mb_ncopy mal (Some (Live fresh_string)) (contents s) ?inform B_ASN1_UTF8STRING 0 0 of
         Some (ret, Some (Live t)) \<Rightarrow> if ret < 0 then Some (ret, None) else Some (str_length t, str_data t)
       | Some (ret, _) \<Rightarrow> Some (ret, None)
       | None \<Rightarrow> None)"
    using t by (simp add: ASN1_STRING_to_UTF8_def run [unfolded fresh_string_def] fresh_string_def Let_def)
  have ref: "mb_refused f us B_ASN1_UTF8STRING 0 0 \<longleftrightarrow> has_bom f us" for us
    by (simp add: mb_refused_def narrows_UTF8)
  show "ASN1_STRING_to_UTF8 mal (Some s) = Some (int (length (utf8_text us)), Some (utf8_text us @ [0]))"
    if "encodes f us (contents s)" "\<not> has_bom f us"
    using that mb_ncopy_text [OF mal that(1) sz t(4), of "Live fresh_string" B_ASN1_UTF8STRING 0 0]
    by (simp add: utf8 ref mb_format_UTF8 text_string_def utf8_text_def Let_def V_ASN1_UTF8STRING_def)
  show "ASN1_STRING_to_UTF8 mal (Some s) = Some (-1, None)"
    if none: "\<nexists>us. encodes f us (contents s) \<and> \<not> has_bom f us"
  proof (cases "\<exists>us. encodes f us (contents s)")
    case True
    then obtain us where us: "encodes f us (contents s)" by blast
    with none have "has_bom f us" by blast
    with mb_ncopy_text [OF mal us sz t(4), of "Live fresh_string" B_ASN1_UTF8STRING 0 0]
    show ?thesis by (simp add: utf8 ref)
  next
    case False
    from mb_ncopy_bad [OF t(4) this] show ?thesis by (simp add: utf8)
  qed
qed

end
