(* ===== verification/IpAddr.thy ===== *)
theory IpAddr
  imports AsnString "HOL-Library.Monad_Syntax"
begin

text \<open>
  Text forms of octets and of IP addresses: the hexadecimal strings, \<open>a2i_ipadd\<close> and its callers
  in \<^verbatim>\<open>crypto/x509v3/v3_utl.c\<close>, with the list parser \<open>CONF_parse_list\<close> of
  \<^verbatim>\<open>crypto/conf/conf.c\<close> that IPv6 addresses are read with. A C string is given by its text, the
  bytes before its NUL, except where a NUL inside the memory matters. The parser calls back for each
  element; the locale \<open>list_visitor\<close> says what a callback must keep for the whole list to keep it.
\<close>

section \<open>Hexadecimal strings\<close>

definition hexdig :: "u8 list" where
  "hexdig = [48, 49, 50, 51, 52, 53, 54, 55, 56, 57, 65, 66, 67, 68, 69, 70]"

definition hex_byte :: "u8 \<Rightarrow> u8 list" where
  "hex_byte p = [hexdig ! unat (drop_bit 4 p AND 0xf), hexdig ! unat (p AND 0xf), 58]"

text \<open>The block that is returned: three bytes for an octet, the last separator overwritten by the
  NUL.\<close>

definition x509v3_bytes_to_hex :: "allocator \<Rightarrow> u8 list option \<Rightarrow> u8 list option" where
  "x509v3_bytes_to_hex mal buffer =
     (case buffer of
        None \<Rightarrow> None
      | Some bs \<Rightarrow>
          if bs = [] then None
          else do {
            tmp \<leftarrow> OPENSSL_malloc mal (length bs * 3 + 1);
            let q = length bs * 3;
            Some ((concat (map hex_byte bs) @ drop q tmp)[q - 1 := 0])
          })"

datatype hex_error = INVALID_NULL_ARGUMENT | MALLOC_FAILURE | ODD_NUMBER_OF_DIGITS | ILLEGAL_HEX_DIGIT

definition hex_nibble :: "u8 \<Rightarrow> u8 option" where
  "hex_nibble ch =
     (if ch \<ge> 48 \<and> ch \<le> 57 then Some (ch - 48)
      else if ch \<ge> 97 \<and> ch \<le> 102 then Some (ch - (97 - 10))
      else if ch \<ge> 65 \<and> ch \<le> 70 then Some (ch - (65 - 10))
      else None)"

fun hex_loop :: "u8 list \<Rightarrow> hex_error + u8 list" where
  "hex_loop [] = Inr []"
| "hex_loop (ch # p) =
     (if ch = 58 then hex_loop p
      else (case p of
              [] \<Rightarrow> Inl ODD_NUMBER_OF_DIGITS
            | cl # p \<Rightarrow>
                (case (hex_nibble ch, hex_nibble cl) of
                   (Some h, Some l) \<Rightarrow>
                     (case hex_loop p of
                        Inl e \<Rightarrow> Inl e
                      | Inr q \<Rightarrow> Inr ((push_bit 4 h OR l) # q))
                 | _ \<Rightarrow> Inl ILLEGAL_HEX_DIGIT)))"

text \<open>The block of half the length of the text and the number of bytes written to it.\<close>

definition x509v3_hex_to_bytes :: "allocator \<Rightarrow> u8 list option \<Rightarrow> hex_error + u8 list \<times> nat" where
  "x509v3_hex_to_bytes mal str =
     (case str of
        None \<Rightarrow> Inl INVALID_NULL_ARGUMENT
      | Some s \<Rightarrow>
          (case OPENSSL_malloc mal (length s div 2) of
             None \<Rightarrow> Inl MALLOC_FAILURE
           | Some hexbuf \<Rightarrow>
               (case hex_loop s of
                  Inl e \<Rightarrow> Inl e
                | Inr q \<Rightarrow> Inr (q @ drop (length q) hexbuf, length q))))"

section \<open>Lists\<close>

definition isspace :: "u8 \<Rightarrow> bool" where
  "isspace c \<longleftrightarrow> 9 \<le> c \<and> c \<le> 13 \<or> c = 32"

text \<open>
  The callback is given the text from the start of the element on and the length of the element;
  for an empty element the code passes \<open>NULL\<close> and 0, here the empty text and 0.
\<close>

type_synonym 's list_cb = "u8 list \<Rightarrow> int \<Rightarrow> 's \<Rightarrow> int \<times> 's"

function parse_list_loop :: "u8 \<Rightarrow> bool \<Rightarrow> 's list_cb \<Rightarrow> u8 list \<Rightarrow> 's \<Rightarrow> int \<times> 's" where
  "parse_list_loop sep remove_whitespace list_cb lstart arg =
     (let lstart = (if remove_whitespace then dropWhile isspace lstart else lstart);
          elem = takeWhile (\<lambda>c. c \<noteq> sep) lstart;
          p = dropWhile (\<lambda>c. c \<noteq> sep) lstart;
          (ret, arg) =
            (if elem = [] then list_cb [] 0 arg
             else (let elem = (if remove_whitespace then rev (dropWhile isspace (rev elem)) else elem)
                   in list_cb lstart (int (length elem)) arg))
      in if ret \<le> 0 then (ret, arg)
         else if p = [] then (1, arg)
         else parse_list_loop sep remove_whitespace list_cb (tl p) arg)"
  by auto
termination
proof (relation "measure (\<lambda>(_, _, _, s, _). length s)")
  show "((sep, ws, cb, tl p, arg'), sep, ws, cb, s, arg) \<in> measure (\<lambda>(_, _, _, s, _). length s)"
    if "ls = (if ws then dropWhile isspace s else s)" "p = dropWhile (\<lambda>c. c \<noteq> sep) ls" "p \<noteq> []"
    for sep ws s ls p arg' arg and cb :: "'a list_cb"
  proof -
    have "length (dropWhile P xs) \<le> length xs" for P and xs :: "u8 list"
      by (induction xs) auto
    then have "length p \<le> length s" using that(1,2) by (metis le_trans order_refl)
    with that(3) show ?thesis by (cases p) auto
  qed
qed simp

declare parse_list_loop.simps [simp del]

definition CONF_parse_list :: "u8 list option \<Rightarrow> u8 \<Rightarrow> bool \<Rightarrow> 's list_cb \<Rightarrow> 's \<Rightarrow> int \<times> 's" where
  "CONF_parse_list list sep remove_whitespace list_cb arg =
     (case list of
        None \<Rightarrow> (0, arg)
      | Some lstart \<Rightarrow> parse_list_loop sep remove_whitespace list_cb lstart arg)"

section \<open>IPv4\<close>

text \<open>
  \<open>%d\<close> of \<open>sscanf\<close>: white space, a sign, decimal digits. A number outside the range of \<open>int\<close> is
  undefined in C: what is stored then is a parameter, \<open>conv\<close>, the identity on the range.
\<close>

definition int_conv :: "(int \<Rightarrow> int) \<Rightarrow> bool" where
  "int_conv conv \<longleftrightarrow> (\<forall>n. - (2 ^ 31) \<le> n \<and> n < 2 ^ 31 \<longrightarrow> conv n = n)"

definition isdigit :: "u8 \<Rightarrow> bool" where
  "isdigit c \<longleftrightarrow> 48 \<le> c \<and> c \<le> 57"

definition digits_value :: "u8 list \<Rightarrow> nat" where
  "digits_value ds = foldl (\<lambda>n c. 10 * n + (unat c - 48)) 0 ds"

definition scan_d :: "(int \<Rightarrow> int) \<Rightarrow> u8 list \<Rightarrow> (int \<times> u8 list) option" where
  "scan_d conv s =
     (let s = dropWhile isspace s;
          (sign, s) = (case s of
                         c # r \<Rightarrow> if c = 45 then (-1, r) else if c = 43 then (1, r) else (1, s)
                       | [] \<Rightarrow> (1, s));
          ds = takeWhile isdigit s
      in if ds = [] then None
         else Some (conv (sign * int (digits_value ds)), dropWhile isdigit s))"

fun scan_char :: "u8 \<Rightarrow> u8 list \<Rightarrow> u8 list option" where
  "scan_char c [] = None"
| "scan_char c (d # s) = (if d = c then Some s else None)"

text \<open>The format \<open>"%d.%d.%d.%d"\<close>, all four numbers read.\<close>

definition sscanf_dotted :: "(int \<Rightarrow> int) \<Rightarrow> u8 list \<Rightarrow> (int \<times> int \<times> int \<times> int) option" where
  "sscanf_dotted conv s = do {
     (a0, s) \<leftarrow> scan_d conv s;
     s \<leftarrow> scan_char 46 s;
     (a1, s) \<leftarrow> scan_d conv s;
     s \<leftarrow> scan_char 46 s;
     (a2, s) \<leftarrow> scan_d conv s;
     s \<leftarrow> scan_char 46 s;
     (a3, s) \<leftarrow> scan_d conv s;
     Some (a0, a1, a2, a3)
   }"

definition ipv4_from_asc :: "(int \<Rightarrow> int) \<Rightarrow> u8 list \<Rightarrow> u8 list option" where
  "ipv4_from_asc conv s =
     (case sscanf_dotted conv s of
        None \<Rightarrow> None
      | Some (a0, a1, a2, a3) \<Rightarrow>
          if a0 < 0 \<or> a0 > 255 \<or> a1 < 0 \<or> a1 > 255 \<or> a2 < 0 \<or> a2 > 255 \<or> a3 < 0 \<or> a3 > 255 then None
          else Some [word_of_int a0, word_of_int a1, word_of_int a2, word_of_int a3])"

section \<open>IPv6\<close>

definition ipv6_digit :: "u8 \<Rightarrow> u32 option" where
  "ipv6_digit c =
     (if c \<ge> 48 \<and> c \<le> 57 then Some (ucast c - 48)
      else if c \<ge> 65 \<and> c \<le> 70 then Some (ucast c - 65 + 10)
      else if c \<ge> 97 \<and> c \<le> 102 then Some (ucast c - 97 + 10)
      else None)"

fun ipv6_hex_loop :: "u8 list \<Rightarrow> u32 \<Rightarrow> u32 option" where
  "ipv6_hex_loop [] n = Some n"
| "ipv6_hex_loop (c # s) n =
     (case ipv6_digit c of
        None \<Rightarrow> None
      | Some d \<Rightarrow> ipv6_hex_loop s (push_bit 4 n OR d))"

definition ipv6_hex :: "u8 list \<Rightarrow> int \<Rightarrow> u8 list option" where
  "ipv6_hex s inlen =
     (if inlen > 4 then None
      else (case ipv6_hex_loop (take (nat inlen) s) 0 of
              None \<Rightarrow> None
            | Some n \<Rightarrow> Some [ucast (drop_bit 8 n), ucast (n AND 0xff)]))"

record IPV6_STAT =
  v6tmp :: "u8 list"
  v6total :: int
  v6zero_pos :: int
  v6zero_cnt :: int

text \<open>Writing into \<open>tmp\<close> at the end of what is there.\<close>

definition v6_write :: "IPV6_STAT \<Rightarrow> u8 list \<Rightarrow> IPV6_STAT" where
  "v6_write s bs =
     s\<lparr>v6tmp := take (nat (v6total s)) (v6tmp s) @ bs @ drop (nat (v6total s) + length bs) (v6tmp s),
       v6total := v6total s + int (length bs)\<rparr>"

definition ipv6_cb :: "(int \<Rightarrow> int) \<Rightarrow> IPV6_STAT list_cb" where
  "ipv6_cb conv elem len s =
     (if v6total s = 16 then (0, s)
      else if len = 0 then
        (if v6zero_pos s = -1 then (1, s\<lparr>v6zero_pos := v6total s, v6zero_cnt := v6zero_cnt s + 1\<rparr>)
         else if v6zero_pos s \<noteq> v6total s then (0, s)
         else (1, s\<lparr>v6zero_cnt := v6zero_cnt s + 1\<rparr>))
      else if len > 4 then
        (if v6total s > 12 then (0, s)
         else if nat len < length elem then (0, s)
         else (case ipv4_from_asc conv elem of
                 None \<Rightarrow> (0, s)
               | Some a \<Rightarrow> (1, v6_write s a)))
      else
        (case ipv6_hex elem len of
           None \<Rightarrow> (0, s)
         | Some a \<Rightarrow> (1, v6_write s a)))"

definition v6_init :: IPV6_STAT where
  "v6_init = \<lparr>v6tmp = replicate 16 0, v6total = 0, v6zero_pos = -1, v6zero_cnt = 0\<rparr>"

text \<open>The checks on the position and the number of empty elements.\<close>

definition v6_sane :: "IPV6_STAT \<Rightarrow> bool" where
  "v6_sane s =
     (if v6zero_pos s = -1 then
        (if v6total s \<noteq> 16 then False else True)
      else if v6total s = 16 then False
      else if v6zero_cnt s > 3 then False
      else if v6zero_cnt s = 3 then (if v6total s > 0 then False else True)
      else if v6zero_cnt s = 2 then
        (if v6zero_pos s \<noteq> 0 \<and> v6zero_pos s \<noteq> v6total s then False else True)
      else (if v6zero_pos s = 0 \<or> v6zero_pos s = v6total s then False else True))"

definition ipv6_from_asc :: "(int \<Rightarrow> int) \<Rightarrow> u8 list \<Rightarrow> u8 list option" where
  "ipv6_from_asc conv s =
     (case CONF_parse_list (Some s) 58 False (ipv6_cb conv) v6_init of
        (ret, st) \<Rightarrow>
          if ret = 0 then None
          else if \<not> v6_sane st then None
          else if v6zero_pos st \<ge> 0 then
            (let zp = nat (v6zero_pos st); n = nat (v6total st)
             in Some (take zp (v6tmp st) @ replicate (16 - n) 0 @
                  (if n \<noteq> zp then take (n - zp) (drop zp (v6tmp st)) else [])))
          else Some (take 16 (v6tmp st)))"

text \<open>The octets written to \<open>ipout\<close>; their number is the returned one, \<open>None\<close> is a return of 0.\<close>

definition a2i_ipadd :: "(int \<Rightarrow> int) \<Rightarrow> u8 list \<Rightarrow> u8 list option" where
  "a2i_ipadd conv ipasc =
     (if 58 \<in> set ipasc then ipv6_from_asc conv ipasc else ipv4_from_asc conv ipasc)"

text \<open>An octet string with the given contents; \<open>ASN1_OCTET_STRING_set\<close> is \<open>ASN1_STRING_set\<close>.\<close>

definition new_octet_string :: "allocator \<Rightarrow> u8 list \<Rightarrow> ASN1_STRING option option" where
  "new_octet_string mal bs =
     (case ASN1_STRING_type_new mal V_ASN1_OCTET_STRING of
        None \<Rightarrow> Some None
      | Some ret \<Rightarrow>
          (case ASN1_STRING_set mal ret (Some bs) (int (length bs)) of
             None \<Rightarrow> None
           | Some (False, _) \<Rightarrow> Some None
           | Some (True, ret) \<Rightarrow> Some (Some ret)))"

definition a2i_IPADDRESS :: "allocator \<Rightarrow> (int \<Rightarrow> int) \<Rightarrow> u8 list \<Rightarrow> ASN1_STRING option option" where
  "a2i_IPADDRESS mal conv ipasc =
     (case a2i_ipadd conv ipasc of
        None \<Rightarrow> Some None
      | Some ipout \<Rightarrow> new_octet_string mal ipout)"

definition a2i_IPADDRESS_NC :: "allocator \<Rightarrow> (int \<Rightarrow> int) \<Rightarrow> u8 list \<Rightarrow> ASN1_STRING option option" where
  "a2i_IPADDRESS_NC mal conv ipasc =
     (if 47 \<notin> set ipasc then Some None
      else (case OPENSSL_strdup mal (Some (ipasc @ [0])) of
              None \<Rightarrow> Some None
            | Some iptmp \<Rightarrow>
                (case (a2i_ipadd conv (takeWhile (\<lambda>c. c \<noteq> 47) (cstr iptmp)),
                       a2i_ipadd conv (tl (dropWhile (\<lambda>c. c \<noteq> 47) (cstr iptmp)))) of
                   (None, _) \<Rightarrow> Some None
                 | (_, None) \<Rightarrow> Some None
                 | (Some a, Some m) \<Rightarrow>
                     if length a \<noteq> length m then Some None
                     else new_octet_string mal (a @ m))))"

section \<open>Hexadecimal round trip\<close>

lemma upto16: "n < 16 \<Longrightarrow> n \<in> {0, 1, 2, 3, 4, 5, 6, 7, 8, 9, 10, 11, 12, 13, 14, 15 :: nat}"
  unfolding insert_iff empty_iff by arith

lemma hexdig_nibble:
  assumes "unat (w :: u8) < 16"
  shows "hex_nibble (hexdig ! unat w) = Some w" and "hexdig ! unat w \<noteq> 58" and "hexdig ! unat w \<noteq> 0"
proof -
  have "\<forall>n\<in>{0, 1, 2, 3, 4, 5, 6, 7, 8, 9, 10, 11, 12, 13, 14, 15 :: nat}.
      hex_nibble (hexdig ! n) = Some (of_nat n) \<and> hexdig ! n \<noteq> 58 \<and> hexdig ! n \<noteq> 0"
    by (simp add: hexdig_def hex_nibble_def)
  from bspec [OF this upto16 [OF assms]]
  show "hex_nibble (hexdig ! unat w) = Some w" "hexdig ! unat w \<noteq> 58" "hexdig ! unat w \<noteq> 0"
    by simp_all
qed

lemma unat_and_f: "unat (b AND 0xf :: u8) < 16"
  using unat_and_mask [of b 4] by (simp add: mask_eq_exp_minus_1)

lemma split_nibbles: "push_bit 4 (drop_bit 4 p AND 0xf) OR (p AND 0xf) = (p :: u8)"
proof -
  have m: "0xf = (mask 4 :: u8)" by (simp add: mask_eq_exp_minus_1)
  show ?thesis unfolding m by (auto simp: bit_eq_iff bit_simps dest: bit_imp_le_length)
qed

lemmas split_nibbles' = split_nibbles [simplified]

lemma hex_byte_nonempty [simp]: "hex_byte p \<noteq> []"
  by (simp add: hex_byte_def)

lemma hex_byte_loop:
  "hex_loop (hex_byte p @ s) = (case hex_loop s of Inl e \<Rightarrow> Inl e | Inr q \<Rightarrow> Inr (p # q))"
  "hex_loop (butlast (hex_byte p)) = Inr [p]"
  using hexdig_nibble [OF unat_and_f, of "drop_bit 4 p"] hexdig_nibble [OF unat_and_f, of p]
  by (auto simp: hex_byte_def split_nibbles' split: sum.splits)

lemma hex_loop_text: "bs \<noteq> [] \<Longrightarrow> hex_loop (butlast (concat (map hex_byte bs))) = Inr bs"
proof (induction bs)
  case (Cons b bs)
  show ?case
  proof (cases "bs = []")
    case True
    then show ?thesis by (simp add: hex_byte_loop(2))
  next
    case False
    then have "concat (map hex_byte bs) \<noteq> []" by (cases bs) (auto simp: hex_byte_def)
    then have "butlast (concat (map hex_byte (b # bs))) = hex_byte b @ butlast (concat (map hex_byte bs))"
      by (simp only: list.map concat.simps butlast_append if_False)
    with Cons.IH [OF False] show ?thesis by (simp only: hex_byte_loop(1)) simp
  qed
qed simp

lemma hex_text_props: "0 \<notin> set (concat (map hex_byte bs))" "length (concat (map hex_byte bs)) = 3 * length bs"
  using hexdig_nibble(3) [OF unat_and_f] by (induction bs) (auto simp: hex_byte_def)

lemma cstr_append: "0 \<notin> set xs \<Longrightarrow> cstr (xs @ ys) = xs @ cstr ys"
  by (induction xs) auto

lemma bytes_to_hex_cstr:
  assumes "x509v3_bytes_to_hex mal (Some bs) = Some t"
  shows "bs \<noteq> [] \<and> is_cstr t \<and> cstr t = butlast (concat (map hex_byte bs))"
proof -
  let ?c = "concat (map hex_byte bs)"
  from assms obtain tmp where bs: "bs \<noteq> []" and t: "t = (?c @ drop (3 * length bs) tmp)[3 * length bs - 1 := 0]"
    by (auto simp: x509v3_bytes_to_hex_def bind_eq_Some_conv mult.commute Let_def split: if_splits)
  have ne: "?c \<noteq> []" using bs by (cases bs) (auto simp: hex_byte_def)
  have l: "length (butlast ?c) = 3 * length bs - 1" using hex_text_props(2) [of bs] by simp
  have "?c @ drop (3 * length bs) tmp = butlast ?c @ List.last ?c # drop (3 * length bs) tmp"
    using ne by simp
  then have "t = butlast ?c @ 0 # drop (3 * length bs) tmp"
    unfolding t by (metis l list_update_length)
  moreover have "0 \<notin> set (butlast ?c)" using hex_text_props(1) by (metis in_set_butlastD)
  ultimately show ?thesis using bs by (auto simp: cstr_append is_cstr_def)
qed

lemma hex_loop_length: "hex_loop s = Inr q \<Longrightarrow> 2 * length q \<le> length s"
  by (induction s arbitrary: q rule: hex_loop.induct)
    (fastforce split: if_splits list.splits option.splits sum.splits)+

section \<open>Callbacks\<close>

lemma parse_list_step:
  fixes cb :: "'s list_cb"
  defines "l ws ls \<equiv> if ws then dropWhile isspace ls else ls"
  assumes "(if takeWhile (\<lambda>c. c \<noteq> sep) (l ws ls) = [] then cb [] 0 s
     else cb (l ws ls) (int (length (if ws then rev (dropWhile isspace (rev (takeWhile (\<lambda>c. c \<noteq> sep) (l ws ls))))
                                     else takeWhile (\<lambda>c. c \<noteq> sep) (l ws ls)))) s) = (r, t)"
  shows "parse_list_loop sep ws cb ls s =
    (if r \<le> 0 then (r, t) else if dropWhile (\<lambda>c. c \<noteq> sep) (l ws ls) = [] then (1, t)
     else parse_list_loop sep ws cb (tl (dropWhile (\<lambda>c. c \<noteq> sep) (l ws ls))) t)"
  using assms(2) unfolding l_def by (subst parse_list_loop.simps) (simp only: Let_def prod.case)

text \<open>What a callback keeps, whatever the element, holds after the whole list.\<close>

locale list_visitor =
  fixes cb :: "'s list_cb" and inv :: "'s \<Rightarrow> bool"
  assumes keeps: "inv s \<Longrightarrow> 0 \<le> n \<Longrightarrow> n \<le> int (length e) \<Longrightarrow> cb e n s = (ret, s') \<Longrightarrow> inv s'"
begin

lemma length_strip [simp]: "length (dropWhile P (rev xs)) \<le> length xs"
  by (induction xs rule: rev_induct) auto

lemma parse_list_loop_keeps: "inv s \<Longrightarrow> parse_list_loop sep ws cb ls s = (ret, s') \<Longrightarrow> inv s'"
proof (induction "length ls" arbitrary: ls s rule: less_induct)
  case less
  let ?l = "if ws then dropWhile isspace ls else ls"
  let ?e = "takeWhile (\<lambda>c. c \<noteq> sep) ?l" and ?p = "dropWhile (\<lambda>c. c \<noteq> sep) ?l"
  let ?n = "length (if ws then rev (dropWhile isspace (rev ?e)) else ?e)"
  obtain r t where c: "(if ?e = [] then cb [] 0 s else cb ?l (int ?n) s) = (r, t)" by (metis surj_pair)
  have "?n \<le> length ?e" by simp
  also have "length ?e \<le> length ?l" by (rule length_takeWhile_le)
  finally have t: "inv t"
    using c keeps [OF less.prems(1), of 0 "[]" r t] keeps [OF less.prems(1), of "int ?n" ?l r t]
    by (simp split: if_splits)
  have f: "(if r \<le> 0 then (r, t) else if ?p = [] then (1, t) else parse_list_loop sep ws cb (tl ?p) t) = (ret, s')"
    using less.prems(2) unfolding parse_list_step [where cb = cb, OF c] .
  have l: "length (tl ?p) < length ls" if "?p \<noteq> []"
  proof -
    have "length ?p \<le> length ?l" "length ?l \<le> length ls" by (simp_all add: length_dropWhile_le)
    then show ?thesis using that by (cases ?p) auto
  qed
  show ?case
  proof (cases "r \<le> 0")
    case True
    then have "(r, t) = (ret, s')" using f by (simp only: if_True)
    then show ?thesis using t by simp
  next
    case False
    then have g: "(if ?p = [] then (1, t) else parse_list_loop sep ws cb (tl ?p) t) = (ret, s')"
      using f by (simp only: if_False)
    show ?thesis
    proof (cases "?p = []")
      case True
      then have "(1, t) = (ret, s')" using g by (simp only: refl if_True)
      then show ?thesis using t by simp
    next
      case p: False
      then have "parse_list_loop sep ws cb (tl ?p) t = (ret, s')" using g by (simp only: if_False)
      from less.hyps [OF l [OF p] t this] show ?thesis .
    qed
  qed
qed

lemma CONF_parse_list_keeps: "inv s \<Longrightarrow> CONF_parse_list ls sep ws cb s = (ret, s') \<Longrightarrow> inv s'"
  by (auto simp: CONF_parse_list_def dest: parse_list_loop_keeps split: option.splits)

end

text \<open>The reader of IPv6 addresses stays inside its sixteen bytes.\<close>

definition v6_ok :: "IPV6_STAT \<Rightarrow> bool" where
  "v6_ok s \<longleftrightarrow> length (v6tmp s) = 16 \<and> 0 \<le> v6total s \<and> v6total s \<le> 16 \<and> even (v6total s) \<and>
     -1 \<le> v6zero_pos s \<and> v6zero_pos s \<le> v6total s \<and> 0 \<le> v6zero_cnt s \<and> (v6zero_pos s = -1 \<longleftrightarrow> v6zero_cnt s = 0)"

lemma ipv4_length: "ipv4_from_asc conv s = Some a \<Longrightarrow> length a = 4"
  by (auto simp: ipv4_from_asc_def split: option.splits prod.splits if_splits)

lemma ipv6_hex_length: "ipv6_hex s n = Some a \<Longrightarrow> length a = 2"
  by (auto simp: ipv6_hex_def split: option.splits if_splits)

lemma v6_write_ok:
  assumes "v6_ok s" "v6total s + int (length a) \<le> 16" "even (length a)"
  shows "v6_ok (v6_write s a)"
  using assms by (auto simp: v6_ok_def v6_write_def)

interpretation v6: list_visitor "ipv6_cb conv" v6_ok
proof
  fix s s' e n ret assume s: "v6_ok s" and cb: "ipv6_cb conv e n s = (ret, s')"
  have "v6total s \<noteq> 16 \<Longrightarrow> v6total s \<le> 14"
    using s by (auto simp: v6_ok_def elim!: evenE)
  then show "v6_ok s'"
    using s cb ipv4_length ipv6_hex_length
    by (auto simp: ipv6_cb_def intro!: v6_write_ok split: if_splits option.splits) (auto simp: v6_ok_def)
qed


section \<open>Reading an IPv6 address\<close>

text \<open>The elements of a list text, joined by the separator.\<close>

fun joined :: "u8 \<Rightarrow> u8 list list \<Rightarrow> u8 list" where
  "joined sep [] = []"
| "joined sep [e] = e"
| "joined sep (e # es) = e @ sep # joined sep es"

lemma joined_Cons: "es \<noteq> [] \<Longrightarrow> joined sep (e # es) = e @ sep # joined sep es"
  by (cases es) auto

text \<open>The callback over the elements, one after the other.\<close>

fun visit :: "'s list_cb \<Rightarrow> u8 list list \<Rightarrow> 's \<Rightarrow> int \<times> 's" where
  "visit cb [] s = (1, s)"
| "visit cb (e # es) s = (case cb e (int (length e)) s of (r, t) \<Rightarrow> if r \<le> 0 then (r, t) else visit cb es t)"

lemma split_at_sep:
  "sep \<notin> set e \<Longrightarrow> takeWhile (\<lambda>c. c \<noteq> sep) (e @ sep # s) = e"
  "sep \<notin> set e \<Longrightarrow> dropWhile (\<lambda>c. c \<noteq> sep) (e @ sep # s) = sep # s"
  "sep \<notin> set e \<Longrightarrow> takeWhile (\<lambda>c. c \<noteq> sep) e = e"
  "sep \<notin> set e \<Longrightarrow> dropWhile (\<lambda>c. c \<noteq> sep) e = []"
  by (induction e) auto

lemma parse_list_loop_visit:
  assumes ext: "\<And>e r s. e \<in> E \<Longrightarrow> cb (e @ r) (int (length e)) s = cb e (int (length e)) s"
  shows "es \<noteq> [] \<Longrightarrow> \<forall>e\<in>set es. e \<in> E \<and> sep \<notin> set e \<Longrightarrow>
    parse_list_loop sep False cb (joined sep es) s = visit cb es s"
proof (induction es arbitrary: s)
  case (Cons e es)
  obtain r t where r: "cb e (int (length e)) s = (r, t)" by (metis surj_pair)
  have e: "sep \<notin> set e" "e \<in> E" using Cons.prems(2) by auto
  show ?case
  proof (cases "es = []")
    case True
    then have "(if takeWhile (\<lambda>c. c \<noteq> sep) (joined sep (e # es)) = [] then cb [] 0 s
        else cb (joined sep (e # es)) (int (length (takeWhile (\<lambda>c. c \<noteq> sep) (joined sep (e # es))))) s) = (r, t)"
      using r e by (auto simp: split_at_sep)
    then show ?thesis
      using r e True by (subst parse_list_step [where r = r and t = t]) (auto simp: split_at_sep)
  next
    case False
    then have j: "joined sep (e # es) = e @ sep # joined sep es" by (rule joined_Cons)
    have "(if takeWhile (\<lambda>c. c \<noteq> sep) (e @ sep # joined sep es) = [] then cb [] 0 s
        else cb (e @ sep # joined sep es) (int (length (takeWhile (\<lambda>c. c \<noteq> sep) (e @ sep # joined sep es)))) s) = (r, t)"
      using r ext [OF e(2), of "sep # joined sep es" s] e by (auto simp: split_at_sep)
    then show ?thesis
      unfolding j using r e Cons.IH [OF False] Cons.prems(2)
      by (subst parse_list_step [where r = r and t = t]) (auto simp: split_at_sep)
  qed
qed simp

text \<open>A group of up to four hexadecimal digits and its two octets.\<close>

definition is_group :: "u8 list \<Rightarrow> bool" where
  "is_group g \<longleftrightarrow> g \<noteq> [] \<and> length g \<le> 4 \<and> (\<forall>c\<in>set g. hex_nibble c \<noteq> None)"

definition hex_value :: "u8 list \<Rightarrow> nat" where
  "hex_value g = foldl (\<lambda>n c. 16 * n + unat (the (hex_nibble c))) 0 g"

definition group_octets :: "u8 list \<Rightarrow> u8 list" where
  "group_octets g = be_bytes 2 (hex_value g)"

lemma ucast_diff:
  assumes "k \<le> (c :: u8)"
  shows "ucast (c - k) = (ucast c - ucast k :: u32)"
proof -
  have "(ucast k :: u32) \<le> ucast c" using assms by (simp add: word_le_nat_alt unat_u8_32)
  then show ?thesis
    using assms by (simp add: word_unat_eq_iff unat_sub unat_u8_32)
qed

lemma hex_digit_cases:
  assumes "hex_nibble c = Some d"
  shows "unat d < 16" and "ipv6_digit c = Some (ucast d)" and "c \<noteq> 58" and "c \<noteq> 47"
proof -
  consider "48 \<le> c" "c \<le> 57" "d = c - 48" | "65 \<le> c" "c \<le> 70" "d = c - 55" | "97 \<le> c" "c \<le> 102" "d = c - 87"
    using assms by (auto simp: hex_nibble_def split: if_splits)
  then have "unat d < 16 \<and> ipv6_digit c = Some (ucast d) \<and> c \<noteq> 58 \<and> c \<noteq> 47"
  proof cases
    case 1
    then have "unat d = unat c - 48" by (simp add: unat_sub)
    with 1 show ?thesis using ucast_diff [of 48 c] by (auto simp: ipv6_digit_def word_le_nat_alt)
  next
    case 2
    then have "55 \<le> c" by (simp add: word_le_nat_alt)
    with 2 have "unat d = unat c - 55" "ucast d = (ucast c - 55 :: u32)"
      using ucast_diff [of 55 c] by (simp_all add: unat_sub)
    with 2 show ?thesis by (auto simp: ipv6_digit_def word_le_nat_alt)
  next
    case 3
    then have "87 \<le> c" by (simp add: word_le_nat_alt)
    with 3 have "unat d = unat c - 87" "ucast d = (ucast c - 87 :: u32)"
      using ucast_diff [of 87 c] by (simp_all add: unat_sub)
    with 3 show ?thesis by (auto simp: ipv6_digit_def word_le_nat_alt)
  qed
  then show "unat d < 16" "ipv6_digit c = Some (ucast d)" "c \<noteq> 58" "c \<noteq> 47" by blast+
qed

lemma hex_value_snoc: "hex_value (g @ [c]) = 16 * hex_value g + unat (the (hex_nibble c))"
  by (simp add: hex_value_def)

lemma hex_value_less: "\<forall>c\<in>set g. hex_nibble c \<noteq> None \<Longrightarrow> hex_value g < 16 ^ length g"
proof (induction g rule: rev_induct)
  case (snoc c g)
  then obtain d where "hex_nibble c = Some d" "unat d < 16" by (auto dest: hex_digit_cases(1))
  moreover have "hex_value g + 1 \<le> 16 ^ length g" using snoc by simp
  ultimately show ?case by (simp add: hex_value_snoc)
qed (simp add: hex_value_def)

lemma ipv6_hex_loop_value:
  "\<forall>c\<in>set g. hex_nibble c \<noteq> None \<Longrightarrow> 16 ^ length g * unat n + (16 ^ length g - 1) < 2 ^ 32 \<Longrightarrow>
    \<exists>m. ipv6_hex_loop g n = Some m \<and> unat m = foldl (\<lambda>n c. 16 * n + unat (the (hex_nibble c))) (unat n) g"
proof (induction g arbitrary: n)
  case (Cons c g)
  then obtain d where d: "hex_nibble c = Some d" by auto
  note dd = hex_digit_cases(1,2) [OF d]
  have "1 \<le> (16 :: nat) ^ length g" by simp
  with Cons.prems(2) have b: "16 ^ length g * (16 * unat n + 16) \<le> 2 ^ 32"
    by (simp add: algebra_simps)
  have "16 * unat n + 16 = 1 * (16 * unat n + 16)" by simp
  also have "\<dots> \<le> 16 ^ length g * (16 * unat n + 16)" by (rule mult_le_mono1) simp
  also note b
  finally have "16 * unat n + 16 \<le> 2 ^ 32" .
  then have u: "unat (push_bit 4 n OR ucast d) = 16 * unat n + unat d"
    using dd(1) by (subst unat_shift_or) (simp_all add: unat_u8_32)
  have "16 ^ length g * (16 * unat n + unat d) + 16 ^ length g \<le> 16 ^ length g * (16 * unat n + 16)"
  proof -
    have "16 ^ length g * (16 * unat n + unat d + 1) \<le> 16 ^ length g * (16 * unat n + 16)"
      by (rule mult_le_mono2) (use dd(1) in simp)
    then show ?thesis by (simp only: distrib_left mult_1_right)
  qed
  with b have "16 ^ length g * unat (push_bit 4 n OR ucast d) + (16 ^ length g - 1) < 2 ^ 32"
    unfolding u using \<open>1 \<le> 16 ^ length g\<close> by linarith
  from Cons.IH [OF _ this] Cons.prems(1) show ?case by (simp add: d dd(2) u)
qed simp

lemma ipv6_hex_group:
  assumes "is_group g"
  shows "ipv6_hex (g @ r) (int (length g)) = Some (group_octets g)"
proof -
  have l: "length g \<le> 4" and h: "\<forall>c\<in>set g. hex_nibble c \<noteq> None" using assms by (auto simp: is_group_def)
  have p: "(16 :: nat) ^ length g \<le> 16 ^ 4" using l by (rule power_increasing) simp
  then have "16 ^ length g * unat (0 :: u32) + (16 ^ length g - 1) < 2 ^ 32" by simp
  from ipv6_hex_loop_value [OF h this] obtain m where m: "ipv6_hex_loop g 0 = Some m" "unat m = hex_value g"
    by (auto simp: hex_value_def)
  have "unat m < 65536" using hex_value_less [OF h] p m(2) by simp
  then have "be_val [ucast (drop_bit 8 m), ucast (m AND 0xff)] = unat m"
    using unat_and_mask [of m 8]
    by (simp add: be_val_def wordsimps mask_eq_exp_minus_1 div_less_iff_less_mult)
  then have "[ucast (drop_bit 8 m), ucast (m AND 0xff)] = group_octets g"
    using be_bytes_be_val [of "[ucast (drop_bit 8 m), ucast (m AND 0xff)]" 2] m(2) by (simp add: group_octets_def)
  with m l show ?thesis by (simp add: ipv6_hex_def)
qed

text \<open>The octets the reader holds, and what it knows of the omission.\<close>

definition v6_holds :: "u8 list \<Rightarrow> int \<Rightarrow> int \<Rightarrow> IPV6_STAT \<Rightarrow> bool" where
  "v6_holds bs zp zc st \<longleftrightarrow> length (v6tmp st) = 16 \<and> v6total st = int (length bs) \<and>
     take (length bs) (v6tmp st) = bs \<and> v6zero_pos st = zp \<and> v6zero_cnt st = zc"

lemma v6_holds_write:
  assumes "v6_holds bs zp zc st" "length bs + length a \<le> 16"
  shows "v6_holds (bs @ a) zp zc (v6_write st a)"
  using assms by (auto simp: v6_holds_def v6_write_def)

lemma length_group_octets [simp]: "length (group_octets g) = 2"
  by (simp add: group_octets_def)

lemma length_octets: "length (concat (map group_octets gs)) = 2 * length gs"
  by (induction gs) auto

lemma cb_group:
  assumes "is_group g" "v6_holds bs zp zc st" "length bs + 2 \<le> 16"
  obtains st' where "ipv6_cb conv g (int (length g)) st = (1, st')" "v6_holds (bs @ group_octets g) zp zc st'"
proof
  have "g \<noteq> []" "length g \<le> 4" using assms(1) by (auto simp: is_group_def)
  then show "ipv6_cb conv g (int (length g)) st = (1, v6_write st (group_octets g))"
    using ipv6_hex_group [OF assms(1), of "[]"] assms(2,3) by (auto simp: ipv6_cb_def v6_holds_def)
  show "v6_holds (bs @ group_octets g) zp zc (v6_write st (group_octets g))"
    using assms(2,3) by (intro v6_holds_write) auto
qed

lemma cb_empty:
  assumes "v6_holds bs zp zc st" "length bs < 16" "zp = -1 \<or> zp = int (length bs)"
  obtains st' where "ipv6_cb conv [] 0 st = (1, st')" "v6_holds bs (int (length bs)) (zc + 1) st'"
  using assms that by (auto simp: ipv6_cb_def v6_holds_def split: if_splits)

lemma visit_groups:
  "\<forall>g\<in>set gs. is_group g \<Longrightarrow> v6_holds bs zp zc st \<Longrightarrow> length bs + 2 * length gs \<le> 16 \<Longrightarrow>
    \<exists>st'. visit (ipv6_cb conv) (gs @ es) st = visit (ipv6_cb conv) es st' \<and>
      v6_holds (bs @ concat (map group_octets gs)) zp zc st'"
proof (induction gs arbitrary: bs st)
  case (Cons g gs)
  then obtain t where t: "ipv6_cb conv g (int (length g)) st = (1, t)" "v6_holds (bs @ group_octets g) zp zc t"
    by (auto intro: cb_group [of g bs zp zc st conv])
  have "length (bs @ group_octets g) + 2 * length gs \<le> 16" using Cons.prems(3) by simp
  from Cons.IH [OF _ t(2) this] Cons.prems(1) t(1) show ?case by auto
qed auto

lemma visit_empty:
  assumes "v6_holds bs zp zc st" "length bs < 16" "zp = -1 \<or> zp = int (length bs)"
  shows "\<exists>st'. visit (ipv6_cb conv) ([] # es) st = visit (ipv6_cb conv) es st' \<and>
    v6_holds bs (int (length bs)) (zc + 1) st'"
  using cb_empty [OF assms, of conv] by fastforce

lemma group_no_colon: "is_group g \<Longrightarrow> 58 \<notin> set g"
  using hex_digit_cases(3) by (fastforce simp: is_group_def)

lemma ipv6_list:
  assumes "es \<noteq> []" "\<forall>e\<in>set es. e = [] \<or> is_group e"
  shows "CONF_parse_list (Some (joined 58 es)) 58 False (ipv6_cb conv) s = visit (ipv6_cb conv) es s"
proof -
  have "ipv6_cb conv (e @ r) (int (length e)) s = ipv6_cb conv e (int (length e)) s"
    if "e \<in> {e. e = [] \<or> is_group e}" for e r s
    using that ipv6_hex_group [of e r] ipv6_hex_group [of e "[]"]
    by (auto simp: ipv6_cb_def is_group_def)
  moreover have "\<forall>e\<in>set es. 58 \<notin> set e"
    using assms(2) group_no_colon by fastforce
  ultimately show ?thesis
    using parse_list_loop_visit [where E = "{e. e = [] \<or> is_group e}" and cb = "ipv6_cb conv" and es = es and sep = 58 and s = s, OF _ assms(1)] assms(2)
    by (simp add: CONF_parse_list_def)
qed

lemma v6_init_holds: "v6_holds [] (-1) 0 v6_init"
  by (simp add: v6_holds_def v6_init_def)

lemma joined_append: "xs \<noteq> [] \<Longrightarrow> ys \<noteq> [] \<Longrightarrow> joined sep (xs @ ys) = joined sep xs @ sep # joined sep ys"
  by (induction xs rule: joined.induct) (auto simp: joined_Cons)

text \<open>The text with an omission as a list of elements: the omission is one empty element, and one
  more at an end of the text.\<close>

definition omitted :: "u8 list list \<Rightarrow> u8 list list \<Rightarrow> u8 list list" where
  "omitted xs ys = (if xs = [] then [[]] else xs) @ [[]] @ (if ys = [] then [[]] else ys)"

lemma joined_omitted: "joined 58 (omitted xs ys) = joined 58 xs @ [58, 58] @ joined 58 ys"
  by (cases "xs = []"; cases "ys = []") (simp_all add: omitted_def joined_append joined_Cons)

lemma visit_omitted:
  assumes g: "\<forall>g\<in>set xs \<union> set ys. is_group g" and n: "length xs + length ys \<le> 7"
  obtains st where "visit (ipv6_cb conv) (omitted xs ys) v6_init = (1, st)"
    "v6_holds (concat (map group_octets (xs @ ys))) (int (2 * length xs))
       (1 + (if xs = [] then 1 else 0) + (if ys = [] then 1 else 0)) st"
proof -
  let ?X = "concat (map group_octets xs)" and ?Y = "concat (map group_octets ys)"
  let ?cb = "ipv6_cb conv"
  have l: "length ?X = 2 * length xs" by (rule length_octets)
  let ?es = "[] # (if ys = [] then [[]] else ys)"
  obtain s1 where s1: "visit ?cb (omitted xs ys) v6_init = visit ?cb ?es s1"
    "v6_holds ?X (if xs = [] then 0 else -1) (if xs = [] then 1 else 0) s1"
  proof (cases "xs = []")
    case True
    then show ?thesis
      using that visit_empty [OF v6_init_holds, of conv ?es] by (auto simp: omitted_def)
  next
    case False
    then show ?thesis
      using that visit_groups [OF _ v6_init_holds, of xs conv ?es] g n by (auto simp: omitted_def)
  qed
  obtain s2 where s2: "visit ?cb ?es s1 = visit ?cb (if ys = [] then [[]] else ys) s2"
    "v6_holds ?X (int (2 * length xs)) (1 + (if xs = [] then 1 else 0)) s2"
  proof -
    have "length ?X < 16" "(if xs = [] then 0 else -1) = (-1 :: int) \<or> (if xs = [] then 0 else -1) = int (length ?X)"
      using n l by auto
    from visit_empty [OF s1(2) this, of conv "if ys = [] then [[]] else ys"] show ?thesis
      using that l by (auto simp: add.commute)
  qed
  obtain s3 where s3: "visit ?cb (if ys = [] then [[]] else ys) s2 = (1, s3)"
    "v6_holds (?X @ ?Y) (int (2 * length xs)) (1 + (if xs = [] then 1 else 0) + (if ys = [] then 1 else 0)) s3"
  proof (cases "ys = []")
    case True
    then show ?thesis
      using that visit_empty [OF s2(2), of conv "[]"] n l by (auto simp: add.commute)
  next
    case False
    then show ?thesis
      using that visit_groups [OF _ s2(2), of ys conv "[]"] g n l by auto
  qed
  show ?thesis by (rule that [of s3]) (use s1(1) s2(1) s3 in simp_all)
qed

lemma ipv6_omission:
  assumes g: "\<forall>g\<in>set xs \<union> set ys. is_group g" and n: "length xs + length ys \<le> 7"
  shows "a2i_ipadd conv (joined 58 xs @ [58, 58] @ joined 58 ys) =
    Some (concat (map group_octets xs) @ replicate (16 - 2 * (length xs + length ys)) 0 @
      concat (map group_octets ys))"
proof -
  let ?X = "concat (map group_octets xs)" and ?Y = "concat (map group_octets ys)"
  have l: "length ?X = 2 * length xs" "length ?Y = 2 * length ys" by (rule length_octets)+
  obtain st where st: "visit (ipv6_cb conv) (omitted xs ys) v6_init = (1, st)"
    "v6_holds (?X @ ?Y) (int (2 * length xs)) (1 + (if xs = [] then 1 else 0) + (if ys = [] then 1 else 0)) st"
    using visit_omitted [OF g n, of conv] by auto
  have "CONF_parse_list (Some (joined 58 (omitted xs ys))) 58 False (ipv6_cb conv) v6_init = (1, st)"
    using st(1) g by (subst ipv6_list) (auto simp: omitted_def)
  moreover have "v6_sane st"
    using st(2) n l by (auto simp: v6_sane_def v6_holds_def)
  moreover have "take (2 * length xs) (v6tmp st) = ?X"
    "take (2 * length ys) (drop (2 * length xs) (v6tmp st)) = ?Y"
  proof -
    have t: "take (2 * length xs + 2 * length ys) (v6tmp st) = ?X @ ?Y"
      using st(2) l by (simp add: v6_holds_def)
    have "take (2 * length xs) (v6tmp st) = take (2 * length xs) (take (2 * length xs + 2 * length ys) (v6tmp st))"
      by (simp add: min_def)
    then show "take (2 * length xs) (v6tmp st) = ?X" unfolding t using l by simp
    have "take (2 * length ys) (drop (2 * length xs) (v6tmp st)) =
        drop (2 * length xs) (take (2 * length xs + 2 * length ys) (v6tmp st))"
      by (simp add: take_drop add.commute)
    then show "take (2 * length ys) (drop (2 * length xs) (v6tmp st)) = ?Y" unfolding t using l by simp
  qed
  ultimately show ?thesis
    using st(2) l unfolding a2i_ipadd_def ipv6_from_asc_def joined_omitted
    by (auto simp: v6_holds_def Let_def nat_add_distrib nat_mult_distrib)
qed

lemma ipv6_full:
  assumes g: "\<forall>g\<in>set xs. is_group g" and n: "length xs = 8"
  shows "a2i_ipadd conv (joined 58 xs) = Some (concat (map group_octets xs))"
proof -
  let ?X = "concat (map group_octets xs)"
  have l: "length ?X = 16" using length_octets [of xs] n by simp
  have ne: "xs \<noteq> []" "tl xs \<noteq> []" using n by (auto simp: neq_Nil_conv length_Suc_conv numeral_eq_Suc)
  then have "joined 58 xs = hd xs @ 58 # joined 58 (tl xs)" by (metis joined_Cons list.collapse)
  then have c: "58 \<in> set (joined 58 xs)" by (metis in_set_conv_decomp)
  obtain st where st: "visit (ipv6_cb conv) xs v6_init = (1, st)" "v6_holds ?X (-1) 0 st"
    using visit_groups [OF g v6_init_holds, of conv "[]"] n by auto
  have "CONF_parse_list (Some (joined 58 xs)) 58 False (ipv6_cb conv) v6_init = (1, st)"
    using st(1) g ne by (subst ipv6_list) auto
  moreover have "v6_sane st" "v6zero_pos st = -1" "take 16 (v6tmp st) = ?X"
    using st(2) l by (auto simp: v6_sane_def v6_holds_def)
  ultimately show ?thesis using c by (simp add: a2i_ipadd_def ipv6_from_asc_def)
qed

section \<open>Reading an IPv4 address\<close>

lemma isdigit_dec: "c \<in> set (dec n) \<Longrightarrow> isdigit c"
  using dec_digit [of c n] by (auto simp: isdigit_def word_le_nat_alt)

lemma isdigit_props: "isdigit c \<Longrightarrow> \<not> isspace c \<and> c \<noteq> 45 \<and> c \<noteq> 43 \<and> c \<noteq> 46 \<and> c \<noteq> 58"
  by (auto simp: isdigit_def isspace_def word_le_nat_alt)

lemma digits_value_dec: "digits_value (dec n) = n"
proof (induction n rule: dec.induct)
  case (1 n)
  show ?case
  proof (cases "n < 10")
    case True
    then show ?thesis by (subst dec.simps) (simp add: digits_value_def)
  next
    case False
    then have "dec n = dec (n div 10) @ [byte (48 + n mod 10)]" by (subst dec.simps) simp
    moreover have "48 + n mod 10 < 256" by (simp add: trans_less_add1 less_trans [OF mod_less_divisor])
    ultimately show ?thesis using 1 [OF False] by (simp add: digits_value_def)
  qed
qed

lemma scan_d_dec:
  assumes "int_conv conv" "n < 2 ^ 31" "r = [] \<or> \<not> isdigit (hd r)"
  shows "scan_d conv (dec n @ r) = Some (int n, r)"
proof -
  obtain c ds where d: "dec n = c # ds" using dec_nonempty by (metis neq_Nil_conv)
  have c: "\<not> isspace c" "c \<noteq> 45" "c \<noteq> 43"
    using isdigit_props [OF isdigit_dec [of c n]] d by auto
  have t: "takeWhile isdigit (dec n @ r) = dec n" "dropWhile isdigit (dec n @ r) = r"
    using isdigit_dec assms(3) by (simp_all add: takeWhile_append2 dropWhile_append2 takeWhile_eq_Nil_iff dropWhile_eq_self_iff)
  have "conv (int n) = int n" using assms(1,2) unfolding int_conv_def by simp
  then show ?thesis
    using c t by (simp add: scan_d_def Let_def d digits_value_dec [of n, unfolded d])
qed

lemma ipv4_dotted:
  assumes conv: "int_conv conv" and b: "a < 256" "b < 256" "c < 256" "d < 256"
    and r: "58 \<notin> set r" "r = [] \<or> \<not> isdigit (hd r)"
  shows "a2i_ipadd conv (dec a @ 46 # dec b @ 46 # dec c @ 46 # dec d @ r) =
    Some [byte a, byte b, byte c, byte d]"
proof -
  have "58 \<notin> set (dec n)" for n using isdigit_dec isdigit_props by blast
  moreover have "\<not> isdigit 46" by (simp add: isdigit_def)
  moreover have "a < 2 ^ 31" "b < 2 ^ 31" "c < 2 ^ 31" "d < 2 ^ 31" using b by simp_all
  ultimately show ?thesis
    using b r by (simp add: a2i_ipadd_def ipv4_from_asc_def sscanf_dotted_def scan_d_dec [OF conv] byte_def)
qed

section \<open>Results\<close>

lemma ipv6_from_asc_length:
  assumes "ipv6_from_asc conv s = Some a"
  shows "length a = 16"
proof -
  obtain ret st where p: "CONF_parse_list (Some s) 58 False (ipv6_cb conv) v6_init = (ret, st)"
    by (metis surj_pair)
  have "v6_ok v6_init" by (simp add: v6_ok_def v6_init_def)
  from v6.CONF_parse_list_keeps [OF this p] have ok: "v6_ok st" .
  then obtain n where n: "v6total st = int n" "n \<le> 16" "length (v6tmp st) = 16"
    by (auto simp: v6_ok_def intro: that [of "nat (v6total st)"])
  show ?thesis
  proof (cases "0 \<le> v6zero_pos st")
    case True
    then obtain z where z: "v6zero_pos st = int z" using zero_le_imp_eq_int by blast
    then have "z \<le> n" using ok n(1) by (simp add: v6_ok_def)
    then show ?thesis using assms p n z by (auto simp: ipv6_from_asc_def Let_def split: if_splits)
  next
    case False
    then show ?thesis using assms p n by (auto simp: ipv6_from_asc_def split: if_splits)
  qed
qed

lemma a2i_ipadd_length: "a2i_ipadd conv s = Some a \<Longrightarrow> length a = (if 58 \<in> set s then 16 else 4)"
  by (auto simp: a2i_ipadd_def dest: ipv6_from_asc_length ipv4_length split: if_splits)

end
