(* ===== verification/HostName.thy ===== *)
theory HostName
  imports IpAddr
begin

text \<open>
  Matching the names of a certificate: \<open>X509_check_host\<close>, \<open>X509_check_email\<close>, \<open>X509_check_ip\<close> and
  what they call in \<^verbatim>\<open>crypto/x509v3/v3_utl.c\<close>. Patterns and subjects are byte strings with a
  length and not C strings: they are lists of bytes. A comparison function gives \<open>None\<close> when it
  reads past its argument.
\<close>

section \<open>Flags\<close>

definition X509_CHECK_FLAG_NO_WILDCARDS :: u32 where "X509_CHECK_FLAG_NO_WILDCARDS = 0x2"
definition X509_CHECK_FLAG_NO_PARTIAL_WILDCARDS :: u32 where "X509_CHECK_FLAG_NO_PARTIAL_WILDCARDS = 0x4"
definition X509_CHECK_FLAG_MULTI_LABEL_WILDCARDS :: u32 where "X509_CHECK_FLAG_MULTI_LABEL_WILDCARDS = 0x8"
definition X509_CHECK_FLAG_SINGLE_LABEL_SUBDOMAINS :: u32 where "X509_CHECK_FLAG_SINGLE_LABEL_SUBDOMAINS = 0x10"
definition X509_CHECK_FLAG_NEVER_CHECK_SUBJECT :: u32 where "X509_CHECK_FLAG_NEVER_CHECK_SUBJECT = 0x20"
definition X509_CHECK_FLAG_DOT_SUBDOMAINS :: u32 where "X509_CHECK_FLAG_DOT_SUBDOMAINS = 0x8000"

section \<open>Comparison\<close>

fun skip_loop :: "u32 \<Rightarrow> nat \<Rightarrow> u8 list \<Rightarrow> u8 list" where
  "skip_loop flags subject_len [] = []"
| "skip_loop flags subject_len (c # pattern) =
     (if length (c # pattern) > subject_len \<and> c \<noteq> 0 then
        (if flags AND X509_CHECK_FLAG_SINGLE_LABEL_SUBDOMAINS \<noteq> 0 \<and> c = 46 then c # pattern
         else skip_loop flags subject_len pattern)
      else c # pattern)"

definition skip_prefix :: "u8 list \<Rightarrow> u8 list \<Rightarrow> u32 \<Rightarrow> u8 list" where
  "skip_prefix p subject flags =
     (if flags AND X509_CHECK_FLAG_DOT_SUBDOMAINS = 0 then p
      else (let pattern = skip_loop flags (length subject) p
            in if length pattern = length subject then pattern else p))"

definition ascii_lower :: "u8 \<Rightarrow> u8" where
  "ascii_lower c = (if 65 \<le> c \<and> c \<le> 90 then c - 65 + 97 else c)"

fun nocase_loop :: "u8 list \<Rightarrow> u8 list \<Rightarrow> bool" where
  "nocase_loop (l # pattern) (r # subject) =
     (if l = 0 then False
      else if l \<noteq> r \<and> ascii_lower l \<noteq> ascii_lower r then False
      else nocase_loop pattern subject)"
| "nocase_loop _ _ = True"

definition equal_nocase :: "u8 list \<Rightarrow> u8 list \<Rightarrow> u32 \<Rightarrow> bool" where
  "equal_nocase pattern subject flags =
     (let pattern = skip_prefix pattern subject flags
      in if length pattern \<noteq> length subject then False else nocase_loop pattern subject)"

definition equal_case :: "u8 list \<Rightarrow> u8 list \<Rightarrow> u32 \<Rightarrow> bool" where
  "equal_case pattern subject flags =
     (let pattern = skip_prefix pattern subject flags
      in if length pattern \<noteq> length subject then False else pattern = subject)"

text \<open>The backward search for the at sign: \<open>None\<close> when the parts after it differ, otherwise the
  index the loop ends with.\<close>

fun email_loop :: "u8 list \<Rightarrow> u8 list \<Rightarrow> nat \<Rightarrow> nat option" where
  "email_loop a b 0 = Some 0"
| "email_loop a b (Suc i) =
     (if a ! i = 64 \<or> b ! i = 64 then
        (if \<not> equal_nocase (drop i a) (drop i b) 0 then None else Some i)
      else email_loop a b i)"

definition equal_email :: "u8 list \<Rightarrow> u8 list \<Rightarrow> u32 \<Rightarrow> bool" where
  "equal_email a b unused_flags =
     (if length a \<noteq> length b then False
      else (case email_loop a b (length a) of
              None \<Rightarrow> False
            | Some i \<Rightarrow> (let i = (if i = 0 then length a else i) in equal_case (take i a) (take i b) 0)))"

text \<open>\<open>"xn--"\<close>\<close>

definition xn_prefix :: "u8 list" where
  "xn_prefix = [120, 110, 45, 45]"

definition ldh :: "u8 \<Rightarrow> bool" where
  "ldh c \<longleftrightarrow> 48 \<le> c \<and> c \<le> 57 \<or> 65 \<le> c \<and> c \<le> 90 \<or> 97 \<le> c \<and> c \<le> 122 \<or> c = 45"

definition wildcard_match :: "u8 list \<Rightarrow> u8 list \<Rightarrow> u8 list \<Rightarrow> u32 \<Rightarrow> bool option" where
  "wildcard_match prefix suffix subject flags =
     (if length subject < length prefix + length suffix then Some False
      else if \<not> equal_nocase prefix (take (length prefix) subject) flags then Some False
      else (let wildcard = take (length subject - length suffix - length prefix) (drop (length prefix) subject);
                wildcard_end = drop (length subject - length suffix) subject
            in if \<not> equal_nocase wildcard_end suffix flags then Some False
               else if prefix = [] \<and> suffix = [] then None
               else (let full = (prefix = [] \<and> hd suffix = 46);
                         allow_multi = (full \<and> flags AND X509_CHECK_FLAG_MULTI_LABEL_WILDCARDS \<noteq> 0);
                         allow_idna = full
                     in if full \<and> wildcard = [] then Some False
                        else if \<not> allow_idna \<and> length subject \<ge> 4 \<and> OPENSSL_strncasecmp subject xn_prefix 4 = Some 0
                        then Some False
                        else if wildcard = [42] then Some True
                        else Some (\<forall>c\<in>set wildcard. ldh c \<or> (allow_multi \<and> c = 46)))))"

section \<open>Wildcard patterns\<close>

text \<open>The variables of the scan; the bits of \<open>state\<close> are truth values.\<close>

record star_scan =
  star :: "nat option"
  label_start :: bool
  label_hyphen :: bool
  label_idna :: bool
  dots :: nat

fun valid_star_loop :: "u32 \<Rightarrow> star_scan \<Rightarrow> nat \<Rightarrow> u8 list \<Rightarrow> star_scan option" where
  "valid_star_loop flags st i [] = Some st"
| "valid_star_loop flags st i (c # p) =
     (if c = 42 then
        (let atstart = label_start st; atend = (p = [] \<or> hd p = 46)
         in if star st \<noteq> None \<or> label_idna st \<or> dots st \<noteq> 0 then None
            else if flags AND X509_CHECK_FLAG_NO_PARTIAL_WILDCARDS \<noteq> 0 \<and> (\<not> atstart \<or> \<not> atend) then None
            else if \<not> atstart \<and> \<not> atend then None
            else valid_star_loop flags (st\<lparr>star := Some i, label_start := False\<rparr>) (i + 1) p)
      else if 97 \<le> c \<and> c \<le> 122 \<or> 65 \<le> c \<and> c \<le> 90 \<or> 48 \<le> c \<and> c \<le> 57 then
        (let idna = (label_start st \<and> length (c # p) \<ge> 4 \<and> OPENSSL_strncasecmp (c # p) xn_prefix 4 = Some 0)
         in valid_star_loop flags (st\<lparr>label_idna := label_idna st \<or> idna, label_hyphen := False, label_start := False\<rparr>) (i + 1) p)
      else if c = 46 then
        (if label_hyphen st \<or> label_start st then None
         else valid_star_loop flags
                (st\<lparr>label_start := True, label_hyphen := False, label_idna := False, dots := dots st + 1\<rparr>) (i + 1) p)
      else if c = 45 then
        (if label_start st then None
         else valid_star_loop flags (st\<lparr>label_hyphen := True\<rparr>) (i + 1) p)
      else None)"

definition valid_star :: "u8 list \<Rightarrow> u32 \<Rightarrow> nat option" where
  "valid_star p flags =
     (case valid_star_loop flags
        \<lparr>star = None, label_start = True, label_hyphen = False, label_idna = False, dots = 0\<rparr> 0 p of
        None \<Rightarrow> None
      | Some st \<Rightarrow> if label_start st \<or> label_hyphen st \<or> dots st < 2 then None else star st)"

definition equal_wildcard :: "u8 list \<Rightarrow> u8 list \<Rightarrow> u32 \<Rightarrow> bool option" where
  "equal_wildcard pattern subject flags =
     (case (if \<not> (length subject > 1 \<and> hd subject = 46) then valid_star pattern flags else None) of
        None \<Rightarrow> Some (equal_nocase pattern subject flags)
      | Some k \<Rightarrow> wildcard_match (take k pattern) (drop (k + 1) pattern) subject flags)"

text \<open>The loop over the characters, with the start of the current label.\<close>

fun dns_name_loop :: "u8 list \<Rightarrow> nat \<Rightarrow> nat \<Rightarrow> bool" where
  "dns_name_loop [] i start = True"
| "dns_name_loop (c # s) i start =
     (if 97 \<le> c \<and> c \<le> 122 \<or> 48 \<le> c \<and> c \<le> 57 \<or> 65 \<le> c \<and> c \<le> 90 \<or> (c = 45 \<and> i > start) \<or> c = 95 \<or> c = 58
      then dns_name_loop s (i + 1) start
      else if c = 46 \<and> i > start \<and> s \<noteq> [] then dns_name_loop s (i + 1) (i + 1)
      else False)"

definition x509v3_looks_like_dns_name :: "u8 list \<Rightarrow> bool" where
  "x509v3_looks_like_dns_name s =
     (let s = (if length s > 0 \<and> s ! (length s - 1) = 46 then take (length s - 1) s else s);
          s = (if length s \<ge> 2 \<and> s ! 0 = 42 \<and> s ! 1 = 46 then drop 2 s else s)
      in if s = [] then False else dns_name_loop s 0 0)"

section \<open>Certificates\<close>

text \<open>A name is a list of entries, each with the number of its attribute type; \<open>canon_enc\<close> is its
  canonical encoding, up to date when \<open>modified\<close> is false.\<close>

record X509_NAME_ENTRY =
  ne_nid :: int
  ne_value :: ASN1_STRING

record X509_NAME =
  nm_entries :: "X509_NAME_ENTRY list"
  nm_modified :: bool
  nm_canon_enc :: "u8 list"

datatype GENERAL_NAME =
    GN_OTHERNAME
  | GN_EMAIL ASN1_STRING
  | GN_DNS ASN1_STRING
  | GN_X400
  | GN_DIRNAME X509_NAME
  | GN_EDIPARTY
  | GN_URI ASN1_STRING
  | GN_IPADD ASN1_STRING
  | GN_RID

fun gen_type :: "GENERAL_NAME \<Rightarrow> int" where
  "gen_type GN_OTHERNAME = 0"
| "gen_type (GN_EMAIL _) = 1"
| "gen_type (GN_DNS _) = 2"
| "gen_type GN_X400 = 3"
| "gen_type (GN_DIRNAME _) = 4"
| "gen_type GN_EDIPARTY = 5"
| "gen_type (GN_URI _) = 6"
| "gen_type (GN_IPADD _) = 7"
| "gen_type GN_RID = 8"

definition GEN_EMAIL :: int where "GEN_EMAIL = 1"
definition GEN_DNS :: int where "GEN_DNS = 2"
definition GEN_IPADD :: int where "GEN_IPADD = 7"

text \<open>The parts of a certificate the checks look at: the subject and the decoded subject alternative
  names, when there are any.\<close>

record X509 =
  x_subject :: X509_NAME
  x_altname :: "GENERAL_NAME list option"

definition NID_commonName :: int where "NID_commonName = 13"
definition NID_pkcs9_emailAddress :: int where "NID_pkcs9_emailAddress = 48"

text \<open>The index after \<open>lastpos\<close> of an entry with the type, -1 when there is none.\<close>

definition X509_NAME_get_index_by_NID :: "X509_NAME \<Rightarrow> int \<Rightarrow> int \<Rightarrow> int" where
  "X509_NAME_get_index_by_NID name nid lastpos =
     (let lastpos = (if lastpos < 0 then -1 else lastpos)
      in case filter (\<lambda>i. ne_nid (nm_entries name ! i) = nid) [nat (lastpos + 1)..<length (nm_entries name)] of
           [] \<Rightarrow> -1
         | i # _ \<Rightarrow> int i)"

lemma get_index_bounds:
  assumes "0 \<le> X509_NAME_get_index_by_NID name nid j"
  shows "j < X509_NAME_get_index_by_NID name nid j \<and>
    X509_NAME_get_index_by_NID name nid j < int (length (nm_entries name))"
proof -
  let ?js = "filter (\<lambda>i. ne_nid (nm_entries name ! i) = nid)
    [nat ((if j < 0 then -1 else j) + 1)..<length (nm_entries name)]"
  obtain k ks where k: "?js = k # ks"
    using assms by (cases ?js) (auto simp: X509_NAME_get_index_by_NID_def Let_def split: if_splits)
  then have "k \<in> set ?js" by simp
  then have "nat ((if j < 0 then -1 else j) + 1) \<le> k \<and> k < length (nm_entries name)" by simp
  moreover have "X509_NAME_get_index_by_NID name nid j = int k"
    using k by (simp add: X509_NAME_get_index_by_NID_def Let_def)
  ultimately show ?thesis by (auto split: if_splits)
qed

section \<open>Checking a name\<close>

type_synonym equal_fn = "u8 list \<Rightarrow> u8 list \<Rightarrow> u32 \<Rightarrow> bool option"

text \<open>What a check returns: the number and, when \<open>*peername\<close> is set, the copy it is set to. The
  copy is only made when \<open>peername\<close> is given.\<close>

type_synonym check_result = "(int \<times> u8 list option option) option"

definition peer_copy :: "allocator \<Rightarrow> bool \<Rightarrow> bool \<Rightarrow> u8 list \<Rightarrow> u8 list option option" where
  "peer_copy mal peername matched s =
     (if matched \<and> peername then Some (OPENSSL_strndup mal (Some s) (length s)) else None)"

definition do_check_string ::
    "allocator \<Rightarrow> ASN1_STRING \<Rightarrow> int \<Rightarrow> equal_fn \<Rightarrow> u32 \<Rightarrow> int \<Rightarrow> u8 list \<Rightarrow> bool \<Rightarrow> check_result" where
  "do_check_string mal a cmp_type equal flags check_type b peername =
     (if str_data a = None \<or> str_length a = 0 then Some (0, None)
      else if cmp_type > 0 then
        (if cmp_type \<noteq> str_type a then Some (0, None)
         else (case (if cmp_type = V_ASN1_IA5STRING then equal (contents a) b flags
                     else Some (str_length a = sint (of_nat (length b) :: u32) \<and> contents a = b)) of
                 None \<Rightarrow> None
               | Some rv \<Rightarrow> Some (of_bool rv, peer_copy mal peername rv (contents a))))
      else (case ASN1_STRING_to_UTF8 mal (Some a) of
              None \<Rightarrow> None
            | Some (astrlen, out) \<Rightarrow>
                if astrlen < 0 then Some (-1, None)
                else (case out of
                        None \<Rightarrow> None
                      | Some block \<Rightarrow>
                          (let astr = take (nat astrlen) block
                           in case (if check_type = GEN_DNS \<and> \<not> x509v3_looks_like_dns_name astr then Some False
                                    else equal astr b flags) of
                                None \<Rightarrow> None
                              | Some rv \<Rightarrow> Some (of_bool rv, peer_copy mal peername rv astr)))))"

text \<open>The string of a name of the wanted type, and the loop over the alternative names until one
  matches or fails.\<close>

definition gen_string :: "int \<Rightarrow> GENERAL_NAME \<Rightarrow> ASN1_STRING option" where
  "gen_string check_type gen =
     (if gen_type gen \<noteq> check_type then None
      else (case gen of GN_EMAIL s \<Rightarrow> Some s | GN_DNS s \<Rightarrow> Some s | GN_IPADD s \<Rightarrow> Some s | _ \<Rightarrow> None))"

fun check_gens :: "(ASN1_STRING \<Rightarrow> check_result) \<Rightarrow> int \<Rightarrow> GENERAL_NAME list \<Rightarrow> check_result" where
  "check_gens check check_type [] = Some (0, None)"
| "check_gens check check_type (gen # gens) =
     (case gen_string check_type gen of
        None \<Rightarrow> check_gens check check_type gens
      | Some s \<Rightarrow>
          (case check s of
             None \<Rightarrow> None
           | Some (rv, peer) \<Rightarrow> if rv \<noteq> 0 then Some (rv, peer) else check_gens check check_type gens))"

text \<open>The loop over the entries of the subject with the wanted type.\<close>

function check_subject :: "(ASN1_STRING \<Rightarrow> check_result) \<Rightarrow> X509_NAME \<Rightarrow> int \<Rightarrow> int \<Rightarrow> check_result" where
  "check_subject check name cnid j =
     (let j = X509_NAME_get_index_by_NID name cnid j
      in if j < 0 then Some (0, None)
         else (case check (ne_value (nm_entries name ! nat j)) of
                 None \<Rightarrow> None
               | Some (rv, peer) \<Rightarrow> if rv \<noteq> 0 then Some (rv, peer) else check_subject check name cnid j))"
  by auto
termination
proof (relation "measure (\<lambda>(_, name, _, j). nat (int (length (nm_entries name)) - j))")
  fix check :: "ASN1_STRING \<Rightarrow> check_result" and name cnid j x
  assume "x = X509_NAME_get_index_by_NID name cnid j" "\<not> x < 0"
  with get_index_bounds [of name cnid j]
  show "((check, name, cnid, x), check, name, cnid, j)
      \<in> measure (\<lambda>(_, name, _, j). nat (int (length (nm_entries name)) - j))" by auto
qed simp

declare check_subject.simps [simp del]

definition do_x509_check ::
    "allocator \<Rightarrow> X509 \<Rightarrow> u8 list \<Rightarrow> u32 \<Rightarrow> int \<Rightarrow> bool \<Rightarrow> check_result" where
  "do_x509_check mal x chk flags check_type peername =
     (let flags = flags AND NOT X509_CHECK_FLAG_DOT_SUBDOMAINS;
          flags = (if check_type = GEN_DNS \<and> length chk > 1 \<and> hd chk = 46
                   then flags OR X509_CHECK_FLAG_DOT_SUBDOMAINS else flags);
          cnid = (if check_type = GEN_EMAIL then Some NID_pkcs9_emailAddress
                  else if check_type = GEN_DNS then Some NID_commonName else None);
          alt_type = (if check_type = GEN_EMAIL \<or> check_type = GEN_DNS then V_ASN1_IA5STRING
                      else V_ASN1_OCTET_STRING);
          equal = (if check_type = GEN_EMAIL then (\<lambda>p s f. Some (equal_email p s f))
                   else if check_type = GEN_DNS then
                     (if flags AND X509_CHECK_FLAG_NO_WILDCARDS \<noteq> 0 then (\<lambda>p s f. Some (equal_nocase p s f))
                      else equal_wildcard)
                   else (\<lambda>p s f. Some (equal_case p s f)))
      in case x_altname x of
           Some gens \<Rightarrow>
             check_gens (\<lambda>name_str. do_check_string mal name_str alt_type equal flags check_type chk peername)
               check_type gens
         | None \<Rightarrow>
             (case cnid of
                None \<Rightarrow> Some (0, None)
              | Some nid \<Rightarrow>
                  if flags AND X509_CHECK_FLAG_NEVER_CHECK_SUBJECT \<noteq> 0 then Some (0, None)
                  else check_subject
                         (\<lambda>str. do_check_string mal str (-1) equal flags check_type chk peername)
                         (x_subject x) nid (-1)))"

definition X509_check_host :: "allocator \<Rightarrow> X509 \<Rightarrow> u8 list option \<Rightarrow> u32 \<Rightarrow> bool \<Rightarrow> check_result" where
  "X509_check_host mal x chk flags peername =
     (case chk of
        None \<Rightarrow> Some (-2, None)
      | Some chk \<Rightarrow>
          if 0 \<in> set chk then Some (-2, None)
          else do_x509_check mal x chk flags GEN_DNS peername)"

definition X509_check_email :: "allocator \<Rightarrow> X509 \<Rightarrow> u8 list option \<Rightarrow> u32 \<Rightarrow> check_result" where
  "X509_check_email mal x chk flags =
     (case chk of
        None \<Rightarrow> Some (-2, None)
      | Some chk \<Rightarrow>
          if 0 \<in> set chk then Some (-2, None)
          else do_x509_check mal x chk flags GEN_EMAIL False)"

definition X509_check_ip :: "allocator \<Rightarrow> X509 \<Rightarrow> u8 list option \<Rightarrow> u32 \<Rightarrow> check_result" where
  "X509_check_ip mal x chk flags =
     (case chk of
        None \<Rightarrow> Some (-2, None)
      | Some chk \<Rightarrow> do_x509_check mal x chk flags GEN_IPADD False)"

definition X509_check_ip_asc ::
    "allocator \<Rightarrow> (int \<Rightarrow> int) \<Rightarrow> X509 \<Rightarrow> u8 list option \<Rightarrow> u32 \<Rightarrow> check_result" where
  "X509_check_ip_asc mal conv x ipasc flags =
     (case ipasc of
        None \<Rightarrow> Some (-2, None)
      | Some s \<Rightarrow>
          (case a2i_ipadd conv s of
             None \<Rightarrow> Some (-2, None)
           | Some ipout \<Rightarrow> do_x509_check mal x ipout flags GEN_IPADD False))"

section \<open>Labels\<close>

fun labels :: "u8 list \<Rightarrow> u8 list list" where
  "labels [] = [[]]"
| "labels (c # s) = (if c = 46 then [] # labels s else (c # hd (labels s)) # tl (labels s))"

lemma labels_nonempty [simp]: "labels s \<noteq> []"
  by (induction s) auto

lemma labels_append: "46 \<notin> set x \<Longrightarrow> labels (x @ y) = (x @ hd (labels y)) # tl (labels y)"
  by (induction x) auto

lemma ascii_lower_dot [simp]: "ascii_lower c = 46 \<longleftrightarrow> c = 46"
proof -
  have "c - 65 + 97 \<noteq> 46" if "65 \<le> c" "c \<le> 90"
  proof
    assume "c - 65 + 97 = 46"
    then have "c = 14" by (simp add: algebra_simps)
    with that show False by simp
  qed
  then show ?thesis by (auto simp: ascii_lower_def)
qed

abbreviation lower_text :: "u8 list \<Rightarrow> u8 list" where
  "lower_text s \<equiv> map ascii_lower s"

lemma dot_in_lower: "46 \<in> set (lower_text s) \<longleftrightarrow> 46 \<in> set s"
proof -
  have "46 = ascii_lower c \<longleftrightarrow> c = 46" for c using ascii_lower_dot [of c] by metis
  then show ?thesis by (induction s) auto
qed

lemma labels_lower: "labels (lower_text s) = map lower_text (labels s)"
  by (induction s) (auto simp: hd_map map_tl)

lemma labels_cong: "lower_text p = lower_text s \<Longrightarrow> map lower_text (labels p) = map lower_text (labels s)"
  by (metis labels_lower)

lemma nocase_loop_lower:
  "length p = length s \<Longrightarrow> nocase_loop p s \<longleftrightarrow> 0 \<notin> set p \<and> lower_text p = lower_text s"
  by (induction p s rule: nocase_loop.induct) auto

lemma equal_nocase_lower:
  assumes "flags AND X509_CHECK_FLAG_DOT_SUBDOMAINS = 0"
  shows "equal_nocase p s flags \<longleftrightarrow> 0 \<notin> set p \<and> lower_text p = lower_text s"
proof (cases "length p = length s")
  case True
  then show ?thesis using assms by (simp add: equal_nocase_def skip_prefix_def nocase_loop_lower)
next
  case False
  then have "lower_text p \<noteq> lower_text s" by (metis length_map)
  with False assms show ?thesis by (simp add: equal_nocase_def skip_prefix_def)
qed

section \<open>What a wildcard pattern is\<close>

lemma ldh_props: "ldh c \<Longrightarrow> c \<noteq> 46 \<and> c \<noteq> 42 \<and> c \<noteq> 0"
  by (auto simp: ldh_def word_le_nat_alt)

lemma length_labels: "length (labels q) = Suc (length (filter (\<lambda>c. c = 46) q))"
  by (induction q) auto

text \<open>A star at the given position, at the start of its label or at the end, with only letters, digits
  and hyphens before it.\<close>

definition star_at :: "bool \<Rightarrow> nat \<Rightarrow> u8 list \<Rightarrow> bool" where
  "star_at start k q \<longleftrightarrow>
     (\<exists>pre post. q = pre @ 42 # post \<and> length pre = k \<and> (\<forall>c\<in>set pre. ldh c) \<and>
        (\<forall>c\<in>set post. ldh c \<or> c = 46) \<and> (start \<and> pre = [] \<or> post = [] \<or> hd post = 46))"

lemma star_at_here:
  assumes "start \<or> p = [] \<or> hd p = 46" "\<forall>c\<in>set p. ldh c \<or> c = 46"
  shows "star_at start 0 (42 # p)"
  using assms unfolding star_at_def by (intro exI [of _ "[]"] exI [of _ p]) auto

lemma star_at_shift:
  assumes "ldh c" "star_at False k p"
  shows "star_at start (Suc k) (c # p)"
proof -
  from assms(2) obtain pre post where p: "p = pre @ 42 # post" "length pre = k" "\<forall>c\<in>set pre. ldh c"
    "\<forall>c\<in>set post. ldh c \<or> c = 46" "post = [] \<or> hd post = 46"
    by (auto simp: star_at_def)
  then show ?thesis
    using assms(1) unfolding star_at_def by (intro exI [of _ "c # pre"] exI [of _ post]) simp
qed

lemma valid_star_loop_shape:
  "valid_star_loop flags st i q = Some st' \<Longrightarrow>
    dots st' + 1 = dots st + length (labels q) \<and>
    (case star st of
       Some k \<Rightarrow> star st' = Some k \<and> (\<forall>c\<in>set q. ldh c \<or> c = 46)
     | None \<Rightarrow> star st' = None \<or>
         (dots st = 0 \<and> (\<exists>k. star st' = Some (i + k) \<and> star_at (label_start st) k q)))"
proof (induction q arbitrary: st i)
  case Nil
  then show ?case by (auto split: option.splits)
next
  case (Cons c p)
  have shift: "\<exists>k. star st' = Some (i + k) \<and> star_at b k (c # p)"
    if "ldh c" "star st' = Some (i + 1 + k)" "star_at False k p" for k b
    using that star_at_shift [of c k p b] by (intro exI [of _ "Suc k"]) simp
  consider (wild) "c = 42" | (alnum) "c \<noteq> 42" "97 \<le> c \<and> c \<le> 122 \<or> 65 \<le> c \<and> c \<le> 90 \<or> 48 \<le> c \<and> c \<le> 57"
    | (dot) "c = 46" | (hyphen) "c = 45" | (other) "valid_star_loop flags st i (c # p) = None"
    by (cases "c = 42"; cases "c = 46"; cases "c = 45";
        cases "97 \<le> c \<and> c \<le> 122 \<or> 65 \<le> c \<and> c \<le> 90 \<or> 48 \<le> c \<and> c \<le> 57") auto
  then show ?case
  proof cases
    case wild
    with Cons.prems have *: "star st = None" "dots st = 0" "label_start st \<or> p = [] \<or> hd p = 46"
      "valid_star_loop flags (st\<lparr>star := Some i, label_start := False\<rparr>) (i + 1) p = Some st'"
      by (auto simp: Let_def split: if_splits)
    from Cons.IH [OF *(4)] * have IH: "dots st' + 1 = length (labels p)" "star st' = Some i" "\<forall>c\<in>set p. ldh c \<or> c = 46"
      by auto
    then have "star st' = Some (i + 0) \<and> star_at (label_start st) 0 (c # p)"
      using star_at_here [OF *(3)] wild by simp
    then show ?thesis using * IH(1) wild by auto
  next
    case alnum
    then obtain idna where "valid_star_loop flags
        (st\<lparr>label_idna := idna, label_hyphen := False, label_start := False\<rparr>) (i + 1) p = Some st'"
      using Cons.prems by (auto simp: Let_def)
    note IH = Cons.IH [OF this]
    have c: "ldh c" "c \<noteq> 46" using alnum by (auto simp: ldh_def word_le_nat_alt)
    show ?thesis
    proof (cases "star st")
      case None
      with IH shift [OF c(1)] show ?thesis using c(2) by auto
    qed (use IH c in auto)
  next
    case dot
    then have "valid_star_loop flags
        (st\<lparr>label_start := True, label_hyphen := False, label_idna := False, dots := dots st + 1\<rparr>) (i + 1) p = Some st'"
      using Cons.prems by (auto split: if_splits)
    note IH = Cons.IH [OF this]
    show ?thesis using IH dot by (cases "star st") auto
  next
    case hyphen
    then have run: "\<not> label_start st" "valid_star_loop flags (st\<lparr>label_hyphen := True\<rparr>) (i + 1) p = Some st'"
      using Cons.prems by (auto split: if_splits)
    note IH = Cons.IH [OF run(2)]
    have c: "ldh c" "c \<noteq> 46" using hyphen by (auto simp: ldh_def)
    show ?thesis
    proof (cases "star st")
      case None
      with IH run(1) shift [OF c(1)] show ?thesis using c(2) by auto
    qed (use IH c in auto)
  qed (use Cons.prems in simp)
qed

lemma valid_star_shape:
  assumes "valid_star p flags = Some k"
  obtains pre post where "p = pre @ 42 # post" "length pre = k" "\<forall>c\<in>set pre. ldh c"
    "\<forall>c\<in>set post. ldh c \<or> c = 46" "pre = [] \<or> hd (labels post) = []" "3 \<le> length (labels post)"
proof -
  from assms obtain st where st: "valid_star_loop flags
      \<lparr>star = None, label_start = True, label_hyphen = False, label_idna = False, dots = 0\<rparr> 0 p = Some st"
    "2 \<le> dots st" "star st = Some k"
    by (auto simp: valid_star_def split: option.splits if_splits)
  from valid_star_loop_shape [OF st(1)] st(2,3) obtain pre post where p: "p = pre @ 42 # post" "length pre = k"
    "\<forall>c\<in>set pre. ldh c" "\<forall>c\<in>set post. ldh c \<or> c = 46" "pre = [] \<or> post = [] \<or> hd post = 46"
    "3 \<le> length (labels p)"
    by (auto simp: star_at_def)
  have nd: "46 \<notin> set (pre @ [42])" using p(3) ldh_props by auto
  have "labels p = (pre @ [42] @ hd (labels post)) # tl (labels post)"
    using labels_append [OF nd, of post] p(1) by simp
  then have "3 \<le> length (labels post)" using p(6) by (simp add: Suc_le_eq)
  moreover from p(5) have "pre = [] \<or> hd (labels post) = []" by (cases post) auto
  ultimately show ?thesis using that p(1-4) by blast
qed

section \<open>What a wildcard covers\<close>

lemma nocase_same_length:
  assumes "flags AND X509_CHECK_FLAG_DOT_SUBDOMAINS = 0" "equal_nocase p s flags"
  shows "lower_text p = lower_text s" "length p = length s"
  using assms equal_nocase_lower [OF assms(1)] by (auto dest: map_eq_imp_length_eq)

lemma wildcard_match_Some:
  "prefix \<noteq> [] \<or> suffix \<noteq> [] \<Longrightarrow> wildcard_match prefix suffix s flags \<noteq> None"
  by (auto simp: wildcard_match_def Let_def)

lemma wildcard_matchD:
  assumes d: "flags AND X509_CHECK_FLAG_DOT_SUBDOMAINS = 0"
    and m: "wildcard_match prefix suffix s flags = Some True"
  obtains s1 w s2 where "s = s1 @ w @ s2" "lower_text prefix = lower_text s1" "lower_text suffix = lower_text s2"
    "w = [42] \<or> (\<forall>c\<in>set w. ldh c \<or> c = 46 \<and> flags AND X509_CHECK_FLAG_MULTI_LABEL_WILDCARDS \<noteq> 0)"
    "prefix = [] \<and> hd suffix = 46 \<longrightarrow> w \<noteq> []"
proof -
  let ?n = "length s - length suffix - length prefix"
  define s1 w s2 where "s1 = take (length prefix) s" and "w = take ?n (drop (length prefix) s)"
    and "s2 = drop (length s - length suffix) s"
  have l: "length prefix + length suffix \<le> length s" and e1: "equal_nocase prefix s1 flags"
    and e2: "equal_nocase s2 suffix flags"
    using m by (auto simp: wildcard_match_def Let_def s1_def s2_def not_less split: if_splits)
  have w: "w = [42] \<or> (\<forall>c\<in>set w. ldh c \<or> c = 46 \<and> flags AND X509_CHECK_FLAG_MULTI_LABEL_WILDCARDS \<noteq> 0)"
    "prefix = [] \<and> hd suffix = 46 \<longrightarrow> w \<noteq> []"
    using m by (auto simp: wildcard_match_def Let_def w_def split: if_splits)
  have "drop ?n (drop (length prefix) s) = s2"
    using l by (simp add: s2_def algebra_simps)
  then have "s = s1 @ w @ s2"
    by (metis append_take_drop_id s1_def w_def)
  with w nocase_same_length(1) [OF d e1] nocase_same_length(1) [OF d e2] show ?thesis
    by (intro that [of s1 w s2]) auto
qed

text \<open>A label that a label with a star stands for.\<close>

definition star_label :: "u8 list \<Rightarrow> u8 list \<Rightarrow> bool" where
  "star_label l m \<longleftrightarrow>
     (\<exists>pre post pre' mid post'. l = pre @ 42 # post \<and> (pre = [] \<or> post = []) \<and> m = pre' @ mid @ post' \<and>
        lower_text pre = lower_text pre' \<and> lower_text post = lower_text post' \<and>
        (mid = [42] \<or> (\<forall>c\<in>set mid. ldh c)) \<and> (pre = [] \<and> post = [] \<longrightarrow> mid \<noteq> []))"

lemma equal_wildcard_Some: "equal_wildcard p s flags \<noteq> None"
proof (cases "if \<not> (length s > 1 \<and> hd s = 46) then valid_star p flags else None")
  case None
  then show ?thesis unfolding equal_wildcard_def by simp
next
  case (Some k)
  then have "valid_star p flags = Some k" by (simp split: if_splits)
  then obtain pre post where p: "p = pre @ 42 # post" "length pre = k" "3 \<le> length (labels post)"
    by (rule valid_star_shape)
  then have "post \<noteq> []" by auto
  then have "wildcard_match (take k p) (drop (k + 1) p) s flags \<noteq> None"
    using p by (intro wildcard_match_Some) auto
  then show ?thesis using Some unfolding equal_wildcard_def by simp
qed

lemma labels_two_parts:
  assumes "46 \<notin> set x" "46 \<notin> set x'" "lower_text y = lower_text y'"
  shows "map lower_text (tl (labels (x @ y))) = map lower_text (tl (labels (x' @ y')))"
  using assms labels_cong [OF assms(3)] by (simp add: labels_append map_tl)

lemma equal_wildcard_labels:
  assumes m: "equal_wildcard p s flags = Some True"
    and d: "flags AND X509_CHECK_FLAG_DOT_SUBDOMAINS = 0" "flags AND X509_CHECK_FLAG_MULTI_LABEL_WILDCARDS = 0"
  shows "lower_text p = lower_text s \<or>
    (3 \<le> length (labels p) \<and> map lower_text (tl (labels p)) = map lower_text (tl (labels s)) \<and>
     star_label (hd (labels p)) (hd (labels s)))"
proof (cases "if \<not> (length s > 1 \<and> hd s = 46) then valid_star p flags else None")
  case None
  then have "equal_nocase p s flags" using m unfolding equal_wildcard_def by simp
  with equal_nocase_lower [OF d(1)] show ?thesis by simp
next
  case (Some k)
  then have "valid_star p flags = Some k" by (simp split: if_splits)
  then obtain pre post where p: "p = pre @ 42 # post" "length pre = k" "\<forall>c\<in>set pre. ldh c"
    "pre = [] \<or> hd (labels post) = []" "3 \<le> length (labels post)"
    by (rule valid_star_shape)
  have "wildcard_match pre post s flags = Some True"
    using m Some p(1,2) unfolding equal_wildcard_def by simp
  then obtain s1 w s2 where s: "s = s1 @ w @ s2" "lower_text pre = lower_text s1" "lower_text post = lower_text s2"
    "w = [42] \<or> (\<forall>c\<in>set w. ldh c \<or> c = 46 \<and> flags AND X509_CHECK_FLAG_MULTI_LABEL_WILDCARDS \<noteq> 0)"
    "pre = [] \<and> hd post = 46 \<longrightarrow> w \<noteq> []"
    by (rule wildcard_matchD [OF d(1)])
  have w: "w = [42] \<or> (\<forall>c\<in>set w. ldh c)" using s(4) d(2) by simp
  have nd: "46 \<notin> set (pre @ [42])" using p(3) ldh_props by auto
  have "46 \<notin> set s1" using nd s(2) dot_in_lower [of pre] dot_in_lower [of s1] by simp
  then have nd': "46 \<notin> set (s1 @ w)" using w ldh_props by auto
  have lp: "labels p = (pre @ [42] @ hd (labels post)) # tl (labels post)"
    using labels_append [OF nd, of post] p(1) by simp
  have ls: "labels s = (s1 @ w @ hd (labels s2)) # tl (labels s2)"
    using labels_append [OF nd', of s2] s(1) by simp
  note lc = labels_cong [OF s(3)]
  then have hd: "lower_text (hd (labels post)) = lower_text (hd (labels s2))"
    by (metis hd_map labels_nonempty)
  have full: "hd (labels post) = [] \<Longrightarrow> hd post = 46"
    using p(5) by (cases post) (auto split: if_splits)
  have "star_label (hd (labels p)) (hd (labels s))"
    unfolding star_label_def lp ls list.sel
    by (rule exI [of _ pre], rule exI [of _ "hd (labels post)"], rule exI [of _ s1], rule exI [of _ w],
        rule exI [of _ "hd (labels s2)"]) (use p(4) s(2,5) w hd full in auto)
  moreover have "map lower_text (tl (labels p)) = map lower_text (tl (labels s))"
    unfolding lp ls list.sel using lc by (simp add: map_tl)
  moreover have "3 \<le> length (labels p)" unfolding lp using p(5) by (simp add: Suc_le_eq)
  ultimately show ?thesis by blast
qed

section \<open>Patterns that begin with a star\<close>

text \<open>The labels the scan accepts after the star: letters, digits and hyphens, not empty and with no
  hyphen at an end.\<close>

definition good_label :: "bool \<Rightarrow> bool \<Rightarrow> u8 list \<Rightarrow> bool" where
  "good_label start hyphen l \<longleftrightarrow>
     (\<forall>c\<in>set l. ldh c) \<and> (start \<longrightarrow> l \<noteq> [] \<and> hd l \<noteq> 45) \<and>
     (if l = [] then \<not> hyphen else List.last l \<noteq> 45)"

lemma good_label_Cons:
  "good_label start hyphen (c # l) \<longleftrightarrow> ldh c \<and> (start \<longrightarrow> c \<noteq> 45) \<and> good_label False (c = 45) l"
  by (auto simp: good_label_def)

lemma valid_star_loop_labels:
  "good_label (label_start st) (label_hyphen st) (hd (labels q)) \<Longrightarrow>
    \<forall>l\<in>set (tl (labels q)). good_label True False l \<Longrightarrow>
    \<exists>st'. valid_star_loop flags st i q = Some st' \<and> \<not> label_start st' \<and> \<not> label_hyphen st' \<and>
      dots st' + 1 = dots st + length (labels q) \<and> star st' = star st"
proof (induction q arbitrary: st i)
  case Nil
  then show ?case by (simp add: good_label_def split: if_splits)
next
  case (Cons c p)
  show ?case
  proof (cases "c = 46")
    case True
    let ?st = "st\<lparr>label_start := True, label_hyphen := False, label_idna := False, dots := dots st + 1\<rparr>"
    have "\<not> label_start st" "\<not> label_hyphen st"
      using Cons.prems(1) True by (auto simp: good_label_def)
    moreover have "good_label True False (hd (labels p))" "\<forall>l\<in>set (tl (labels p)). good_label True False l"
      using Cons.prems(2) True by (auto simp: list.set_sel)
    ultimately show ?thesis using Cons.IH [of ?st "i + 1"] True by simp
  next
    case False
    then have l: "ldh c" "label_start st \<longrightarrow> c \<noteq> 45" "good_label False (c = 45) (hd (labels p))"
      "\<forall>l\<in>set (tl (labels p)). good_label True False l"
      using Cons.prems by (auto simp: good_label_Cons)
    note c = ldh_props [OF l(1)]
    show ?thesis
    proof (cases "c = 45")
      case True
      then show ?thesis using l Cons.IH [of "st\<lparr>label_hyphen := True\<rparr>" "i + 1"] by simp
    next
      case False
      then have "97 \<le> c \<and> c \<le> 122 \<or> 65 \<le> c \<and> c \<le> 90 \<or> 48 \<le> c \<and> c \<le> 57"
        using l(1) by (auto simp: ldh_def)
      then show ?thesis
        using l c False Cons.IH [of "st\<lparr>label_idna := idna, label_hyphen := False, label_start := False\<rparr>" "i + 1" for idna]
        by (auto simp: Let_def)
    qed
  qed
qed

lemma valid_star_first:
  assumes "\<forall>l\<in>set (labels rest). good_label True False l" "2 \<le> length (labels rest)"
  shows "valid_star (42 # 46 # rest) flags = Some 0"
proof -
  let ?st = "\<lparr>star = Some 0, label_start = False, label_hyphen = False, label_idna = False, dots = 0\<rparr>"
  have "good_label False False (hd (labels (46 # rest)))" by (simp add: good_label_def)
  moreover have "\<forall>l\<in>set (tl (labels (46 # rest))). good_label True False l" using assms(1) by simp
  ultimately obtain st' where "valid_star_loop flags ?st 1 (46 # rest) = Some st'" "\<not> label_start st'"
    "\<not> label_hyphen st'" "dots st' + 1 = length (labels (46 # rest))" "star st' = Some 0"
    using valid_star_loop_labels [of ?st "46 # rest" flags 1] by auto
  with assms(2) show ?thesis by (simp add: valid_star_def)
qed

lemma labels_chars: "c \<in> set s \<Longrightarrow> c = 46 \<or> (\<exists>l\<in>set (labels s). c \<in> set l)"
proof (induction s)
  case (Cons a s)
  have "hd (labels s) \<in> set (labels s)" by simp
  with Cons show ?case by (cases "labels s") (auto simp: list.set_sel)
qed simp

lemma ascii_lower_zero [simp]: "ascii_lower c = 0 \<longleftrightarrow> c = 0"
proof -
  have "c - 65 + 97 \<noteq> 0" if "65 \<le> c" "c \<le> 90"
  proof
    assume "c - 65 + 97 = 0"
    then have "c = -32" by (simp add: eq_neg_iff_add_eq_0 add.commute)
    then have "c = 224" by simp
    with that show False by simp
  qed
  then show ?thesis by (auto simp: ascii_lower_def)
qed

lemma zero_in_lower: "0 \<in> set (lower_text s) \<longleftrightarrow> 0 \<in> set s"
proof -
  have "0 = ascii_lower c \<longleftrightarrow> c = 0" for c using ascii_lower_zero [of c] by metis
  then show ?thesis by (induction s) auto
qed

lemma equal_wildcard_first:
  assumes good: "\<forall>l\<in>set (labels rest). good_label True False l" "2 \<le> length (labels rest)"
    and d: "flags AND X509_CHECK_FLAG_DOT_SUBDOMAINS = 0" "flags AND X509_CHECK_FLAG_MULTI_LABEL_WILDCARDS = 0"
  shows "equal_wildcard (42 # 46 # rest) s flags = Some True \<longleftrightarrow>
    (\<exists>l r. s = l @ 46 # r \<and> l \<noteq> [] \<and> (l = [42] \<or> (\<forall>c\<in>set l. ldh c)) \<and> lower_text r = lower_text rest)"
    (is "?L \<longleftrightarrow> ?R")
proof (cases "length s > 1 \<and> hd s = 46")
  case True
  then obtain t where s: "s = 46 # t" by (cases s) auto
  have "ascii_lower 42 \<noteq> ascii_lower 46" by (simp add: ascii_lower_def)
  then have "\<not> equal_nocase (42 # 46 # rest) s flags"
    unfolding equal_nocase_lower [OF d(1)] s by simp
  then have "\<not> ?L" using True by (simp add: equal_wildcard_def)
  moreover have "\<not> ?R"
  proof
    assume ?R
    then obtain l r where "46 # t = l @ 46 # r" "l \<noteq> []" "l = [42] \<or> (\<forall>c\<in>set l. ldh c)" using s by auto
    then show False using ldh_props [of 46] by (cases l) auto
  qed
  ultimately show ?thesis by blast
next
  case False
  then have w: "?L \<longleftrightarrow> wildcard_match [] (46 # rest) s flags = Some True"
    unfolding equal_wildcard_def using valid_star_first [OF good, of flags] by simp
  show ?thesis
  proof
    assume ?L
    then have "wildcard_match [] (46 # rest) s flags = Some True" using w by simp
    then show ?R
    proof (rule wildcard_matchD [OF d(1)])
      fix s1 l s2
      assume l: "s = s1 @ l @ s2" "lower_text [] = lower_text s1" "lower_text (46 # rest) = lower_text s2"
        "l = [42] \<or> (\<forall>c\<in>set l. ldh c \<or> c = 46 \<and> flags AND X509_CHECK_FLAG_MULTI_LABEL_WILDCARDS \<noteq> 0)"
        "[] = [] \<and> hd (46 # rest) = 46 \<longrightarrow> l \<noteq> []"
      from l(3) obtain c r where r: "s2 = c # r" "ascii_lower c = ascii_lower 46" "lower_text r = lower_text rest"
        by (cases s2) auto
      then have "c = 46" using ascii_lower_dot by metis
      then show ?R using l d(2) r by (intro exI [of _ l] exI [of _ r]) auto
    qed
  next
    assume ?R
    then obtain l r where r: "s = l @ 46 # r" "l \<noteq> []" "l = [42] \<or> (\<forall>c\<in>set l. ldh c)" "lower_text r = lower_text rest"
      by auto
    have len: "length r = length rest" using r(4) by (metis length_map)
    have "0 \<notin> set rest" using labels_chars good(1) ldh_props by (fastforce simp: good_label_def)
    then have "0 \<notin> set r" using r(4) zero_in_lower by metis
    then have "equal_nocase (46 # r) (46 # rest) flags" "equal_nocase [] [] flags"
      using r(4) by (simp_all add: equal_nocase_lower [OF d(1)])
    then have "wildcard_match [] (46 # rest) s flags = Some True"
      using r(1-3) len d(2) by (auto simp: wildcard_match_def Let_def)
    then show ?L using w by simp
  qed
qed

section \<open>Alternative names\<close>

definition usable :: "int \<Rightarrow> ASN1_STRING \<Rightarrow> bool" where
  "usable t a \<longleftrightarrow> str_data a \<noteq> None \<and> str_length a \<noteq> 0 \<and> str_type a = t"

lemma do_check_IA5:
  assumes "equal (contents a) b flags \<noteq> None"
  shows "\<exists>peer. do_check_string mal a V_ASN1_IA5STRING equal flags ct b p =
    Some (of_bool (usable V_ASN1_IA5STRING a \<and> equal (contents a) b flags = Some True), peer)"
  using assms by (auto simp: do_check_string_def usable_def V_ASN1_IA5STRING_def)

lemma do_check_octets:
  assumes "str_ok a" "length b < 2 ^ 31"
  shows "\<exists>peer. do_check_string mal a V_ASN1_OCTET_STRING equal flags ct b p =
    Some (of_bool (usable V_ASN1_OCTET_STRING a \<and> contents a = b), peer)"
proof -
  have "sint (of_nat (length b) :: u32) = int (length b)"
    using assms(2) by (simp add: signed_of_nat signed_take_bit_int_eq_self)
  moreover have "str_data a \<noteq> None \<Longrightarrow> contents a = b \<Longrightarrow> str_length a = int (length b)"
    using assms(1) by (auto simp: contents_def str_ok_def split: option.splits)
  ultimately show ?thesis
    by (auto simp: do_check_string_def usable_def V_ASN1_OCTET_STRING_def V_ASN1_IA5STRING_def)
qed

lemma check_gens_result:
  "(\<And>gen s. gen \<in> set gens \<Longrightarrow> gen_string t gen = Some s \<Longrightarrow> \<exists>peer. check s = Some (of_bool (M s), peer)) \<Longrightarrow>
    \<exists>peer. check_gens check t gens = Some (of_bool (\<exists>gen\<in>set gens. \<exists>s. gen_string t gen = Some s \<and> M s), peer)"
proof (induction gens)
  case (Cons gen gens)
  have "\<exists>peer. check_gens check t gens = Some (of_bool (\<exists>gen\<in>set gens. \<exists>s. gen_string t gen = Some s \<and> M s), peer)"
    by (rule Cons.IH) (rule Cons.prems, auto)
  then obtain peer where
    IH: "check_gens check t gens = Some (of_bool (\<exists>gen\<in>set gens. \<exists>s. gen_string t gen = Some s \<and> M s), peer)" ..
  show ?case
  proof (cases "gen_string t gen")
    case None
    then show ?thesis using IH by simp
  next
    case (Some s)
    with Cons.prems [of gen s] obtain q where "check s = Some (of_bool (M s), q)" by auto
    then show ?thesis using IH Some by (cases "M s") simp_all
  qed
qed simp

text \<open>The comparison a host name is checked with.\<close>

definition host_equal :: "u32 \<Rightarrow> u8 list \<Rightarrow> u8 list \<Rightarrow> bool" where
  "host_equal flags pattern subject =
     (if flags AND X509_CHECK_FLAG_NO_WILDCARDS \<noteq> 0 then equal_nocase pattern subject flags
      else equal_wildcard pattern subject flags = Some True)"

text \<open>The flags of a check whose subject does not begin with a dot.\<close>

abbreviation plain_flags :: "u32 \<Rightarrow> u32" where
  "plain_flags flags \<equiv> flags AND NOT X509_CHECK_FLAG_DOT_SUBDOMAINS"

lemma plain_flags_dot: "plain_flags flags AND X509_CHECK_FLAG_DOT_SUBDOMAINS = 0"
  by (simp add: and.assoc and.commute [of "NOT X509_CHECK_FLAG_DOT_SUBDOMAINS"])

lemma X509_check_host_result:
  assumes san: "x_altname x = Some gens" and chk: "0 \<notin> set chk" "\<not> (1 < length chk \<and> hd chk = 46)"
  shows "\<exists>peer. X509_check_host mal x (Some chk) flags p =
    Some (of_bool (\<exists>s. GN_DNS s \<in> set gens \<and> usable V_ASN1_IA5STRING s \<and>
      host_equal (plain_flags flags) (contents s) chk), peer)"
proof -
  let ?f = "plain_flags flags"
  let ?eq = "if ?f AND X509_CHECK_FLAG_NO_WILDCARDS \<noteq> 0 then (\<lambda>p s f. Some (equal_nocase p s f)) else equal_wildcard"
  let ?check = "\<lambda>s. do_check_string mal s V_ASN1_IA5STRING ?eq ?f GEN_DNS chk p"
  let ?M = "\<lambda>s. usable V_ASN1_IA5STRING s \<and> host_equal ?f (contents s) chk"
  have run: "X509_check_host mal x (Some chk) flags p = check_gens ?check GEN_DNS gens"
    using san chk by (auto simp: X509_check_host_def do_x509_check_def Let_def GEN_DNS_def GEN_EMAIL_def)
  have "\<exists>peer. check_gens ?check GEN_DNS gens =
      Some (of_bool (\<exists>gen\<in>set gens. \<exists>s. gen_string GEN_DNS gen = Some s \<and> ?M s), peer)"
  proof (rule check_gens_result)
    fix gen s
    have eq: "?eq (contents s) chk ?f = Some True \<longleftrightarrow> host_equal ?f (contents s) chk"
      by (simp add: host_equal_def)
    have "?eq (contents s) chk ?f \<noteq> None" using equal_wildcard_Some by simp
    from do_check_IA5 [where equal = ?eq, OF this, of mal GEN_DNS p] show "\<exists>peer. ?check s = Some (of_bool (?M s), peer)"
      unfolding eq .
  qed
  moreover have "(\<exists>gen\<in>set gens. \<exists>s. gen_string GEN_DNS gen = Some s \<and> ?M s) \<longleftrightarrow> (\<exists>s. GN_DNS s \<in> set gens \<and> ?M s)"
  proof -
    have "gen_string GEN_DNS gen = Some s \<longleftrightarrow> gen = GN_DNS s" for gen s
      by (cases gen) (auto simp: gen_string_def GEN_DNS_def)
    then show ?thesis by auto
  qed
  ultimately show ?thesis unfolding run by auto
qed

lemma X509_check_ip_result:
  assumes san: "x_altname x = Some gens" and ok: "\<forall>s. GN_IPADD s \<in> set gens \<longrightarrow> str_ok s" and chk: "length ip < 2 ^ 31"
  shows "\<exists>peer. do_x509_check mal x ip flags GEN_IPADD p =
    Some (of_bool (\<exists>s. GN_IPADD s \<in> set gens \<and> usable V_ASN1_OCTET_STRING s \<and> contents s = ip), peer)"
proof -
  let ?f = "plain_flags flags"
  let ?check = "\<lambda>s. do_check_string mal s V_ASN1_OCTET_STRING (\<lambda>p s f. Some (equal_case p s f)) ?f GEN_IPADD ip p"
  let ?M = "\<lambda>s. usable V_ASN1_OCTET_STRING s \<and> contents s = ip"
  have sel: "gen_string GEN_IPADD gen = Some s \<longleftrightarrow> gen = GN_IPADD s" for gen s
    by (cases gen) (auto simp: gen_string_def GEN_IPADD_def)
  have run: "do_x509_check mal x ip flags GEN_IPADD p = check_gens ?check GEN_IPADD gens"
    using san by (simp add: do_x509_check_def Let_def GEN_DNS_def GEN_EMAIL_def GEN_IPADD_def)
  have "\<exists>peer. check_gens ?check GEN_IPADD gens =
      Some (of_bool (\<exists>gen\<in>set gens. \<exists>s. gen_string GEN_IPADD gen = Some s \<and> ?M s), peer)"
  proof (rule check_gens_result)
    fix gen s assume "gen \<in> set gens" "gen_string GEN_IPADD gen = Some s"
    then have "str_ok s" using sel ok by auto
    from do_check_octets [OF this chk] show "\<exists>peer. ?check s = Some (of_bool (?M s), peer)" .
  qed
  moreover have "(\<exists>gen\<in>set gens. \<exists>s. gen_string GEN_IPADD gen = Some s \<and> ?M s) \<longleftrightarrow> (\<exists>s. GN_IPADD s \<in> set gens \<and> ?M s)"
    unfolding sel by auto
  ultimately show ?thesis unfolding run by simp
qed

end
