(* ===== verification/NameCons.thy ===== *)
theory NameCons
  imports HostName "HOL-Library.Sublist"
begin

text \<open>
  Name constraints: \<^verbatim>\<open>NAME_CONSTRAINTS_check\<close> of \<^verbatim>\<open>crypto/x509v3/v3_ncons.c\<close> and the matching of
  directory names, DNS names, mail addresses and URIs. The strings are handled as C strings here:
  a match reads the memory of the string object from its data pointer on, and \<open>None\<close> is an access
  outside that memory or of the wrong member of the union. The template encoder that brings the
  canonical form of a changed name up to date is the parameter \<open>i2d\<close>.
\<close>

section \<open>C strings\<close>

text \<open>\<open>strchr\<close>: the offset of the character, if it is found.\<close>

fun strchr :: "u8 list \<Rightarrow> u8 \<Rightarrow> nat option option" where
  "strchr [] c = None"
| "strchr (a # s) c =
     (if a = c then Some (Some 0) else if a = 0 then Some None
      else map_option (map_option Suc) (strchr s c))"

fun strncmp :: "u8 list \<Rightarrow> u8 list \<Rightarrow> nat \<Rightarrow> int option" where
  "strncmp _ _ 0 = Some 0"
| "strncmp (a # as) (b # bs) (Suc n) =
     (if a < b then Some (- 1) else if b < a then Some 1 else if a = 0 then Some 0 else strncmp as bs n)"
| "strncmp _ _ (Suc n) = None"

section \<open>Results\<close>

definition X509_V_OK :: int where "X509_V_OK = 0"
definition X509_V_ERR_UNSPECIFIED :: int where "X509_V_ERR_UNSPECIFIED = 1"
definition X509_V_ERR_OUT_OF_MEM :: int where "X509_V_ERR_OUT_OF_MEM = 17"
definition X509_V_ERR_PERMITTED_VIOLATION :: int where "X509_V_ERR_PERMITTED_VIOLATION = 47"
definition X509_V_ERR_EXCLUDED_VIOLATION :: int where "X509_V_ERR_EXCLUDED_VIOLATION = 48"
definition X509_V_ERR_SUBTREE_MINMAX :: int where "X509_V_ERR_SUBTREE_MINMAX = 49"
definition X509_V_ERR_UNSUPPORTED_CONSTRAINT_TYPE :: int where "X509_V_ERR_UNSUPPORTED_CONSTRAINT_TYPE = 51"
definition X509_V_ERR_UNSUPPORTED_NAME_SYNTAX :: int where "X509_V_ERR_UNSUPPORTED_NAME_SYNTAX = 53"

lemmas verdicts = X509_V_OK_def X509_V_ERR_UNSPECIFIED_def X509_V_ERR_OUT_OF_MEM_def
  X509_V_ERR_PERMITTED_VIOLATION_def X509_V_ERR_EXCLUDED_VIOLATION_def X509_V_ERR_SUBTREE_MINMAX_def
  X509_V_ERR_UNSUPPORTED_CONSTRAINT_TYPE_def X509_V_ERR_UNSUPPORTED_NAME_SYNTAX_def

section \<open>Matching one name\<close>

text \<open>Bringing the canonical encoding up to date, then comparing prefixes.\<close>

definition nc_dn :: "(X509_NAME \<Rightarrow> X509_NAME option) \<Rightarrow> X509_NAME \<Rightarrow> X509_NAME \<Rightarrow> int" where
  "nc_dn i2d nm base =
     (case (if nm_modified nm then i2d nm else Some nm) of
        None \<Rightarrow> X509_V_ERR_OUT_OF_MEM
      | Some nm \<Rightarrow>
          (case (if nm_modified base then i2d base else Some base) of
             None \<Rightarrow> X509_V_ERR_OUT_OF_MEM
           | Some base \<Rightarrow>
               if length (nm_canon_enc base) > length (nm_canon_enc nm) then X509_V_ERR_PERMITTED_VIOLATION
               else if take (length (nm_canon_enc base)) (nm_canon_enc nm) \<noteq> nm_canon_enc base
               then X509_V_ERR_PERMITTED_VIOLATION
               else X509_V_OK))"

definition nc_dns :: "ASN1_STRING \<Rightarrow> ASN1_STRING \<Rightarrow> int option" where
  "nc_dns dns base = do {
     baseptr \<leftarrow> str_data base;
     if baseptr = [] then None
     else if hd baseptr = 0 then Some X509_V_OK
     else do {
       dnsptr \<leftarrow> str_data dns;
       let off = (if str_length dns > str_length base then nat (str_length dns - str_length base) else 0);
       if length dnsptr < off then None
       else if off > 0 \<and> hd baseptr \<noteq> 46 \<and> dnsptr ! (off - 1) \<noteq> 46 then Some X509_V_ERR_PERMITTED_VIOLATION
       else do {
         r \<leftarrow> OPENSSL_strcasecmp baseptr (drop off dnsptr);
         Some (if r \<noteq> 0 then X509_V_ERR_PERMITTED_VIOLATION else X509_V_OK)
       }
     }
   }"

definition nc_email :: "ASN1_STRING \<Rightarrow> ASN1_STRING \<Rightarrow> int option" where
  "nc_email eml base = do {
     baseptr \<leftarrow> str_data base;
     emlptr \<leftarrow> str_data eml;
     baseat \<leftarrow> strchr baseptr 64;
     emlat \<leftarrow> strchr emlptr 64;
     case emlat of
       None \<Rightarrow> Some X509_V_ERR_UNSUPPORTED_NAME_SYNTAX
     | Some e \<Rightarrow>
         if baseat = None \<and> hd baseptr = 46 then
           (if str_length eml > str_length base then
              (let off = nat (str_length eml - str_length base)
               in if length emlptr < off then None
                  else do {
                    r \<leftarrow> OPENSSL_strcasecmp baseptr (drop off emlptr);
                    Some (if r = 0 then X509_V_OK else X509_V_ERR_PERMITTED_VIOLATION)
                  })
            else Some X509_V_ERR_PERMITTED_VIOLATION)
         else do {
           local \<leftarrow> (case baseat of
                      None \<Rightarrow> Some True
                    | Some b \<Rightarrow>
                        if b \<noteq> 0 then
                          (if b \<noteq> e then Some False
                           else map_option (\<lambda>r. r = 0) (strncmp baseptr emlptr e))
                        else Some True);
           if \<not> local then Some X509_V_ERR_PERMITTED_VIOLATION
           else do {
             r \<leftarrow> OPENSSL_strcasecmp (case baseat of None \<Rightarrow> baseptr | Some b \<Rightarrow> drop (b + 1) baseptr)
                                      (drop (e + 1) emlptr);
             Some (if r \<noteq> 0 then X509_V_ERR_PERMITTED_VIOLATION else X509_V_OK)
           }
         }
   }"

text \<open>\<open>p[1]\<close> and \<open>p[2]\<close> are read one after the other.\<close>

definition nc_uri :: "ASN1_STRING \<Rightarrow> ASN1_STRING \<Rightarrow> int option" where
  "nc_uri uri base = do {
     hostptr \<leftarrow> str_data uri;
     p \<leftarrow> strchr hostptr 58;
     case p of
       None \<Rightarrow> Some X509_V_ERR_UNSUPPORTED_NAME_SYNTAX
     | Some i \<Rightarrow>
         if length hostptr \<le> i + 1 then None
         else if hostptr ! (i + 1) \<noteq> 47 then Some X509_V_ERR_UNSUPPORTED_NAME_SYNTAX
         else if length hostptr \<le> i + 2 then None
         else if hostptr ! (i + 2) \<noteq> 47 then Some X509_V_ERR_UNSUPPORTED_NAME_SYNTAX
         else do {
           let host = drop (i + 3) hostptr;
           colon \<leftarrow> strchr host 58;
           slash \<leftarrow> (if colon = None then strchr host 47 else Some None);
           len \<leftarrow> (if colon = None \<and> slash = None then strlen host else Some 0);
           let hostlen = (case colon of Some k \<Rightarrow> k | None \<Rightarrow> (case slash of Some k \<Rightarrow> k | None \<Rightarrow> len));
           if hostlen = 0 then Some X509_V_ERR_UNSUPPORTED_NAME_SYNTAX
           else do {
             baseptr \<leftarrow> str_data base;
             if baseptr = [] then None
             else if hd baseptr = 46 then
               (if int hostlen > str_length base then do {
                  r \<leftarrow> OPENSSL_strncasecmp (drop (nat (int hostlen - str_length base)) host) baseptr
                         (nat (str_length base));
                  Some (if r = 0 then X509_V_OK else X509_V_ERR_PERMITTED_VIOLATION)
                }
                else Some X509_V_ERR_PERMITTED_VIOLATION)
             else if str_length base \<noteq> int hostlen then Some X509_V_ERR_PERMITTED_VIOLATION
             else do {
               r \<leftarrow> OPENSSL_strncasecmp host baseptr hostlen;
               Some (if r \<noteq> 0 then X509_V_ERR_PERMITTED_VIOLATION else X509_V_OK)
             }
           }
         }
   }"

fun nc_match_single :: "(X509_NAME \<Rightarrow> X509_NAME option) \<Rightarrow> GENERAL_NAME \<Rightarrow> GENERAL_NAME \<Rightarrow> int option" where
  "nc_match_single i2d gen (GN_DIRNAME b) = (case gen of GN_DIRNAME n \<Rightarrow> Some (nc_dn i2d n b) | _ \<Rightarrow> None)"
| "nc_match_single i2d gen (GN_DNS b) = (case gen of GN_DNS s \<Rightarrow> nc_dns s b | _ \<Rightarrow> None)"
| "nc_match_single i2d gen (GN_EMAIL b) = (case gen of GN_EMAIL s \<Rightarrow> nc_email s b | _ \<Rightarrow> None)"
| "nc_match_single i2d gen (GN_URI b) = (case gen of GN_URI s \<Rightarrow> nc_uri s b | _ \<Rightarrow> None)"
| "nc_match_single i2d gen _ = Some X509_V_ERR_UNSUPPORTED_CONSTRAINT_TYPE"

section \<open>Subtrees\<close>

record GENERAL_SUBTREE =
  sub_base :: GENERAL_NAME
  sub_minimum :: "ASN1_STRING option"
  sub_maximum :: "ASN1_STRING option"

record NAME_CONSTRAINTS =
  permittedSubtrees :: "GENERAL_SUBTREE list"
  excludedSubtrees :: "GENERAL_SUBTREE list"

text \<open>The loop over the permitted subtrees: an error, or the last value of \<open>match\<close>.\<close>

fun nc_permitted ::
    "(X509_NAME \<Rightarrow> X509_NAME option) \<Rightarrow> GENERAL_NAME \<Rightarrow> nat \<Rightarrow> GENERAL_SUBTREE list \<Rightarrow> (int + nat) option" where
  "nc_permitted i2d gen m [] = Some (Inr m)"
| "nc_permitted i2d gen m (sub # subs) =
     (if gen_type gen \<noteq> gen_type (sub_base sub) then nc_permitted i2d gen m subs
      else if sub_minimum sub \<noteq> None \<or> sub_maximum sub \<noteq> None then Some (Inl X509_V_ERR_SUBTREE_MINMAX)
      else if m = 2 then nc_permitted i2d gen m subs
      else (let m = (if m = 0 then 1 else m)
            in case nc_match_single i2d gen (sub_base sub) of
                 None \<Rightarrow> None
               | Some r \<Rightarrow>
                   if r = X509_V_OK then nc_permitted i2d gen 2 subs
                   else if r \<noteq> X509_V_ERR_PERMITTED_VIOLATION then Some (Inl r)
                   else nc_permitted i2d gen m subs))"

fun nc_excluded ::
    "(X509_NAME \<Rightarrow> X509_NAME option) \<Rightarrow> GENERAL_NAME \<Rightarrow> GENERAL_SUBTREE list \<Rightarrow> int option" where
  "nc_excluded i2d gen [] = Some X509_V_OK"
| "nc_excluded i2d gen (sub # subs) =
     (if gen_type gen \<noteq> gen_type (sub_base sub) then nc_excluded i2d gen subs
      else if sub_minimum sub \<noteq> None \<or> sub_maximum sub \<noteq> None then Some X509_V_ERR_SUBTREE_MINMAX
      else (case nc_match_single i2d gen (sub_base sub) of
              None \<Rightarrow> None
            | Some r \<Rightarrow>
                if r = X509_V_OK then Some X509_V_ERR_EXCLUDED_VIOLATION
                else if r \<noteq> X509_V_ERR_PERMITTED_VIOLATION then Some r
                else nc_excluded i2d gen subs))"

definition nc_match :: "(X509_NAME \<Rightarrow> X509_NAME option) \<Rightarrow> GENERAL_NAME \<Rightarrow> NAME_CONSTRAINTS \<Rightarrow> int option" where
  "nc_match i2d gen nc =
     (case nc_permitted i2d gen 0 (permittedSubtrees nc) of
        None \<Rightarrow> None
      | Some (Inl r) \<Rightarrow> Some r
      | Some (Inr m) \<Rightarrow>
          if m = 1 then Some X509_V_ERR_PERMITTED_VIOLATION
          else nc_excluded i2d gen (excludedSubtrees nc))"

section \<open>The check of a certificate\<close>

text \<open>The loop over the mail addresses of the subject.\<close>

function nc_emails ::
    "(X509_NAME \<Rightarrow> X509_NAME option) \<Rightarrow> NAME_CONSTRAINTS \<Rightarrow> X509_NAME \<Rightarrow> int \<Rightarrow> int option" where
  "nc_emails i2d nc nm i =
     (let i = X509_NAME_get_index_by_NID nm NID_pkcs9_emailAddress i
      in if i < 0 then Some X509_V_OK
         else (let s = ne_value (nm_entries nm ! nat i)
               in if str_type s \<noteq> V_ASN1_IA5STRING then Some X509_V_ERR_UNSUPPORTED_NAME_SYNTAX
                  else (case nc_match i2d (GN_EMAIL s) nc of
                          None \<Rightarrow> None
                        | Some r \<Rightarrow> if r \<noteq> X509_V_OK then Some r else nc_emails i2d nc nm i)))"
  by auto
termination
proof (relation "measure (\<lambda>(_, _, nm, i). nat (int (length (nm_entries nm)) - i))")
  fix i2d :: "X509_NAME \<Rightarrow> X509_NAME option" and nc nm i x
  assume "x = X509_NAME_get_index_by_NID nm NID_pkcs9_emailAddress i" "\<not> x < 0"
  with get_index_bounds [of nm NID_pkcs9_emailAddress i]
  show "((i2d, nc, nm, x), i2d, nc, nm, i) \<in> measure (\<lambda>(_, _, nm, i). nat (int (length (nm_entries nm)) - i))"
    by auto
qed simp

declare nc_emails.simps [simp del]

text \<open>The loop over the alternative names.\<close>

fun nc_altnames ::
    "(X509_NAME \<Rightarrow> X509_NAME option) \<Rightarrow> NAME_CONSTRAINTS \<Rightarrow> GENERAL_NAME list \<Rightarrow> int option" where
  "nc_altnames i2d nc [] = Some X509_V_OK"
| "nc_altnames i2d nc (gen # gens) =
     (case nc_match i2d gen nc of
        None \<Rightarrow> None
      | Some r \<Rightarrow> if r \<noteq> X509_V_OK then Some r else nc_altnames i2d nc gens)"

text \<open>The guard against too many comparisons; the counts are of type \<open>size_t\<close>.\<close>

definition nc_too_many :: "nat \<Rightarrow> nat \<Rightarrow> nat \<Rightarrow> nat \<Rightarrow> bool" where
  "nc_too_many entries altnames permitted excluded =
     (let name_count = (entries + altnames) mod SIZE_MOD;
          constraint_count = (permitted + excluded) mod SIZE_MOD;
          check_count = (constraint_count * name_count) mod SIZE_MOD
      in name_count < entries \<or> constraint_count < permitted \<or>
         (constraint_count \<noteq> 0 \<and> check_count div constraint_count \<noteq> name_count) \<or>
         check_count > 2 ^ 20)"

definition NAME_CONSTRAINTS_check ::
    "(X509_NAME \<Rightarrow> X509_NAME option) \<Rightarrow> X509 \<Rightarrow> NAME_CONSTRAINTS \<Rightarrow> int option" where
  "NAME_CONSTRAINTS_check i2d x nc =
     (let nm = x_subject x;
          altname = (case x_altname x of None \<Rightarrow> [] | Some gens \<Rightarrow> gens)
      in if nc_too_many (length (nm_entries nm)) (length altname)
              (length (permittedSubtrees nc)) (length (excludedSubtrees nc))
         then Some X509_V_ERR_UNSPECIFIED
         else (case (if length (nm_entries nm) > 0 then
                       (case nc_match i2d (GN_DIRNAME nm) nc of
                          None \<Rightarrow> None
                        | Some r \<Rightarrow> if r \<noteq> X509_V_OK then Some r else nc_emails i2d nc nm (-1))
                     else Some X509_V_OK) of
                 None \<Rightarrow> None
               | Some r \<Rightarrow> if r \<noteq> X509_V_OK then Some r else nc_altnames i2d nc altname))"

section \<open>Strings without NUL\<close>

definition plain_str :: "ASN1_STRING \<Rightarrow> bool" where
  "plain_str s \<longleftrightarrow> str_ok s \<and> str_data s \<noteq> None \<and> 0 \<notin> set (contents s)"

lemma plain_strE:
  assumes "plain_str s"
  obtains ys where "str_data s = Some (contents s @ 0 # ys)" "str_length s = int (length (contents s))"
proof -
  obtain b where b: "str_data s = Some b" "0 \<le> str_length s" "nat (str_length s) < length b" "b ! nat (str_length s) = 0"
    using assms by (auto simp: plain_str_def str_ok_def split: option.splits)
  then have "contents s = take (nat (str_length s)) b" by (simp add: contents_def)
  with b have "b = contents s @ 0 # drop (Suc (nat (str_length s))) b"
    by (metis id_take_nth_drop)
  moreover have "length (contents s) = nat (str_length s)" using b by (simp add: contents_def)
  ultimately show ?thesis using that b by (metis int_nat_eq)
qed

lemma cstr_plain: "0 \<notin> set xs \<Longrightarrow> cstr (xs @ 0 # ys) = xs \<and> is_cstr (xs @ 0 # ys)"
  by (simp add: cstr_append is_cstr_def)

lemma sint_small_u8: "unat (c :: u8) < 128 \<Longrightarrow> sint c = uint c"
proof -
  assume "unat c < 128"
  then have "int (unat c) < int 128" by linarith
  then have "uint c < 128" by simp
  moreover have "-128 \<le> uint c" by (rule order_trans [of _ 0]) simp_all
  ultimately show "sint c = uint c" using signed_take_bit_int_eq_self [of 7 "uint c"] by (simp add: sint_uint)
qed

lemma sint_large_u8: "128 \<le> unat (c :: u8) \<Longrightarrow> sint c < 0"
  using bit_top_u8 [of c] bit_last_iff [of c] by simp

lemma lower_ascii: "lower c = sint (ascii_lower c)"
proof (cases "65 \<le> c \<and> c \<le> 90")
  case True
  then have u: "65 \<le> unat c" "unat c \<le> 90" by (simp_all add: word_le_nat_alt)
  then have "unat (c + 32) = unat c + 32" by (simp add: unat_word_ariths)
  then have "sint (c + 32) = int (unat c + 32)" using u by (simp add: sint_small_u8 uint_nat del: of_nat_unat)
  moreover have "sint c = int (unat c)" using u by (simp add: sint_small_u8)
  ultimately show ?thesis
    using True u by (simp add: lower_def OPENSSL_tolower_def ascii_lower_def add.commute del: of_nat_unat)
next
  case False
  then have u: "\<not> (65 \<le> uint c \<and> uint c \<le> 90)" by (simp add: word_le_def)
  have "\<not> (65 \<le> sint c \<and> sint c \<le> 90)"
  proof (cases "unat c < 128")
    case True
    with u sint_small_u8 [OF True] show ?thesis by auto
  next
    case False
    with sint_large_u8 [of c] show ?thesis by simp
  qed
  with False show ?thesis unfolding lower_def OPENSSL_tolower_def ascii_lower_def by (simp only: if_False)
qed

lemma lower_eq_iff: "lower a = lower b \<longleftrightarrow> ascii_lower a = ascii_lower b"
  by (metis lower_ascii signed_word_eqI)

lemma map_lower_iff: "map lower xs = map lower ys \<longleftrightarrow> lower_text xs = lower_text ys"
  by (auto simp: list_eq_iff_nth_eq lower_eq_iff)

lemma strcasecmp_total: "is_cstr a \<Longrightarrow> is_cstr b \<Longrightarrow> \<exists>r. OPENSSL_strcasecmp a b = Some r"
proof (induction a b rule: OPENSSL_strcasecmp.induct)
  case (1 a as b bs)
  show ?case
  proof (cases "lower a = lower b \<and> a \<noteq> 0")
    case True
    then have "b \<noteq> 0" by (metis lower_zero)
    with True 1 show ?thesis by (auto simp: OPENSSL_strcasecmp_Cons simp flip: lower_def simp del: OPENSSL_strcasecmp.simps)
  next
    case False
    then show ?thesis by (auto simp: OPENSSL_strcasecmp_Cons simp del: OPENSSL_strcasecmp.simps)
  qed
qed auto

lemma strcasecmp_plain:
  assumes "0 \<notin> set xs" "0 \<notin> set ys"
  obtains r where "OPENSSL_strcasecmp (xs @ 0 # xs') (ys @ 0 # ys') = Some r"
    "r = 0 \<longleftrightarrow> lower_text xs = lower_text ys"
  using strcasecmp_total [of "xs @ 0 # xs'" "ys @ 0 # ys'"] OPENSSL_strcasecmp_zero [of "xs @ 0 # xs'" "ys @ 0 # ys'"]
    cstr_plain [OF assms(1)] cstr_plain [OF assms(2)] map_lower_iff
  by (metis option.inject that)

lemma strcasecmp_result:
  assumes "0 \<notin> set xs" "0 \<notin> set ys"
  shows "\<exists>r. OPENSSL_strcasecmp (xs @ 0 # xs') (ys @ 0 # ys') = Some r \<and> (r = 0 \<longleftrightarrow> lower_text xs = lower_text ys)"
  using strcasecmp_plain [OF assms] by metis

lemma strchr_plain:
  "strchr (xs @ 0 # ys) c = Some (if c \<in> set xs then Some (length (takeWhile (\<lambda>a. a \<noteq> c) xs)) else None)"
  if "c \<noteq> 0" "0 \<notin> set xs"
  using that by (induction xs) auto

lemma strncmp_prefix:
  "0 \<notin> set xs \<Longrightarrow> length xs = length ys \<Longrightarrow> \<exists>r. strncmp (xs @ xs') (ys @ ys') (length xs) = Some r \<and> (r = 0 \<longleftrightarrow> xs = ys)"
proof (induction xs ys rule: list_induct2')
  case (4 x xs y ys)
  then show ?case by (cases "x = y") (auto simp: not_less_iff_gr_or_eq)
qed auto

lemma strncasecmp_take:
  "length xs = length ys \<Longrightarrow> 0 \<notin> set xs \<Longrightarrow>
    \<exists>r. OPENSSL_strncasecmp (xs @ xs') (ys @ ys') (length xs) = Some r \<and> (r = 0 \<longleftrightarrow> lower_text xs = lower_text ys)"
proof (induction xs ys rule: list_induct2)
  case (Cons x xs y ys)
  have "OPENSSL_strncasecmp ((x # xs) @ xs') ((y # ys) @ ys') (length (x # xs)) =
      (if lower x < lower y then Some (- 1) else if lower y < lower x then Some 1
       else if x = 0 then Some 0 else OPENSSL_strncasecmp (xs @ xs') (ys @ ys') (length xs))"
    by (simp add: Let_def flip: lower_def)
  moreover have "lower x = lower y \<longleftrightarrow> ascii_lower x = ascii_lower y" by (rule lower_eq_iff)
  ultimately show ?case using Cons by (auto simp: not_less_iff_gr_or_eq)
qed simp

section \<open>DNS names\<close>

text \<open>A name under a base: the base with something on the left that ends at a label.\<close>

definition dns_under :: "u8 list \<Rightarrow> u8 list \<Rightarrow> bool" where
  "dns_under y x \<longleftrightarrow> y = [] \<or>
     (\<exists>p q. x = p @ q \<and> lower_text q = lower_text y \<and> (p = [] \<or> hd y = 46 \<or> List.last p = 46))"

lemma dns_under_drop:
  assumes "y \<noteq> []"
  shows "dns_under y x \<longleftrightarrow> length y \<le> length x \<and> lower_text (drop (length x - length y) x) = lower_text y \<and>
    (length x = length y \<or> hd y = 46 \<or> x ! (length x - length y - 1) = 46)"
proof
  assume "dns_under y x"
  then obtain p q where pq: "x = p @ q" "lower_text q = lower_text y" "p = [] \<or> hd y = 46 \<or> List.last p = 46"
    using assms by (auto simp: dns_under_def)
  have "length q = length y" using pq(2) by (metis length_map)
  with pq show "length y \<le> length x \<and> lower_text (drop (length x - length y) x) = lower_text y \<and>
    (length x = length y \<or> hd y = 46 \<or> x ! (length x - length y - 1) = 46)"
    by (cases p rule: rev_cases) (auto simp: nth_append)
next
  let ?k = "length x - length y"
  assume r: "length y \<le> length x \<and> lower_text (drop ?k x) = lower_text y \<and>
    (length x = length y \<or> hd y = 46 \<or> x ! (?k - 1) = 46)"
  have "List.last (take ?k x) = x ! (?k - 1)" if "?k \<noteq> 0" "length y \<le> length x"
  proof -
    have l: "length (take ?k x) = ?k" by simp
    with that(1) have ne: "take ?k x \<noteq> []" by (metis list.size(3))
    show ?thesis using last_conv_nth [OF ne] that(1) unfolding l by simp
  qed
  with r show "dns_under y x" unfolding dns_under_def
    by (intro disjI2 exI [of _ "take ?k x"] exI [of _ "drop ?k x"]) auto
qed

lemma nc_dns_result:
  assumes "plain_str s" "plain_str b"
  shows "nc_dns s b = Some (if dns_under (contents b) (contents s) then X509_V_OK else X509_V_ERR_PERMITTED_VIOLATION)"
proof -
  let ?x = "contents s" and ?y = "contents b"
  obtain xs where x: "str_data s = Some (?x @ 0 # xs)" "str_length s = int (length ?x)"
    using assms(1) by (rule plain_strE)
  obtain ys where y: "str_data b = Some (?y @ 0 # ys)" "str_length b = int (length ?y)"
    using assms(2) by (rule plain_strE)
  have n: "0 \<notin> set ?x" "0 \<notin> set ?y" using assms by (auto simp: plain_str_def)
  show ?thesis
  proof (cases "?y = []")
    case True
    then show ?thesis using y by (simp add: nc_dns_def dns_under_def)
  next
    case False
    let ?k = "length ?x - length ?y"
    have h: "hd (?y @ 0 # ys) = hd ?y" "hd ?y \<noteq> 0"
      using False n(2) hd_in_set [OF False] by (simp, metis)
    have off: "(if str_length s > str_length b then nat (str_length s - str_length b) else 0) = ?k"
      unfolding x(2) y(2) by (simp add: nat_diff_distrib')
    have d: "drop ?k (?x @ 0 # xs) = drop ?k ?x @ 0 # xs" by simp
    have nth: "?k \<noteq> 0 \<Longrightarrow> (?x @ 0 # xs) ! (?k - 1) = ?x ! (?k - 1)"
    proof -
      assume "?k \<noteq> 0"
      then have "?k - 1 < length ?x" by linarith
      then show ?thesis by (simp only: nth_append if_True)
    qed
    obtain r where r: "OPENSSL_strcasecmp (?y @ 0 # ys) (drop ?k ?x @ 0 # xs) = Some r"
      "r = 0 \<longleftrightarrow> lower_text (drop ?k ?x) = lower_text ?y"
    proof -
      have "0 \<notin> set (drop ?k ?x)" using n(1) by (auto dest: in_set_dropD)
      from strcasecmp_plain [OF n(2) this, of ys xs] show ?thesis using that by metis
    qed
    have len: "lower_text (drop ?k ?x) = lower_text ?y \<Longrightarrow> length ?y \<le> length ?x"
      by (metis diff_le_self length_drop length_map)
    have "nc_dns s b = Some (if ?k \<noteq> 0 \<and> hd ?y \<noteq> 46 \<and> ?x ! (?k - 1) \<noteq> 46 \<or> r \<noteq> 0
        then X509_V_ERR_PERMITTED_VIOLATION else X509_V_OK)"
    proof -
      have ne: "(?y @ 0 # ys = []) = False" "(hd (?y @ 0 # ys) = 0) = False" using h by simp_all
      have bd: "(length (?x @ 0 # xs) < ?k) = False" by simp
      have P: "(0 < ?k \<and> hd (?y @ 0 # ys) \<noteq> 46 \<and> (?x @ 0 # xs) ! (?k - 1) \<noteq> 46) =
          (?k \<noteq> 0 \<and> hd ?y \<noteq> 46 \<and> ?x ! (?k - 1) \<noteq> 46)"
        unfolding h(1) using nth by (cases "?k = 0") (simp_all only: neq0_conv [symmetric] simp_thms)
      show ?thesis
        unfolding nc_dns_def x(1) y(1) off Let_def Option.bind.simps ne bd if_False P d r(1) by simp
    qed
    also have "\<dots> = Some (if dns_under ?y ?x then X509_V_OK else X509_V_ERR_PERMITTED_VIOLATION)"
    proof -
      have "?k \<noteq> 0 \<longleftrightarrow> length ?x \<noteq> length ?y" if "length ?y \<le> length ?x" using that by auto
      then show ?thesis unfolding dns_under_drop [OF False] r(2) using len by auto
    qed
    finally show ?thesis .
  qed
qed

text \<open>In terms of labels: the labels of the base are the last labels of the name.\<close>

lemma labels_dot: "labels (a @ 46 # b) = labels a @ labels b"
  by (induction a) simp_all

lemma joined_labels: "joined 46 (labels s) = s"
proof (induction s)
  case (Cons c s)
  obtain l ls where l: "labels s = l # ls" by (cases "labels s") auto
  with Cons show ?case by (cases ls) auto
qed simp

lemma dns_under_labels:
  assumes y: "y \<noteq> []" "hd y \<noteq> 46"
  shows "dns_under y x \<longleftrightarrow> suffix (map lower_text (labels y)) (map lower_text (labels x))"
proof
  assume "dns_under y x"
  then obtain p q where pq: "x = p @ q" "lower_text q = lower_text y" "p = [] \<or> List.last p = 46"
    using y by (auto simp: dns_under_def)
  show "suffix (map lower_text (labels y)) (map lower_text (labels x))"
  proof (cases "p = []")
    case True
    then show ?thesis using pq labels_cong [OF pq(2)] by simp
  next
    case False
    then have "x = butlast p @ 46 # q" using pq(1,3) by (metis append_butlast_last_id append_Cons append_Nil append_assoc)
    then show ?thesis using labels_cong [OF pq(2)] by (auto simp: labels_dot suffix_def)
  qed
next
  assume "suffix (map lower_text (labels y)) (map lower_text (labels x))"
  then obtain L where L: "map lower_text (labels x) = L @ map lower_text (labels y)" by (auto simp: suffix_def)
  define A B where "A = take (length L) (labels x)" and "B = drop (length L) (labels x)"
  have AB: "labels x = A @ B" by (simp add: A_def B_def)
  have "drop (length L) (map lower_text (labels x)) = map lower_text (labels y)" using L by simp
  then have B: "map lower_text B = map lower_text (labels y)" by (simp add: B_def drop_map)
  then have ne: "B \<noteq> []" by auto
  have lj: "lower_text (joined 46 es) = joined 46 (map lower_text es)" for es
  proof (induction es)
    case (Cons e es)
    have "ascii_lower 46 = 46" by simp
    with Cons show ?case by (cases es) (simp_all del: ascii_lower_dot)
  qed simp
  have q: "lower_text (joined 46 B) = lower_text y"
    unfolding lj B unfolding lj [symmetric] joined_labels ..
  show "dns_under y x"
  proof (cases "A = []")
    case True
    then have "x = [] @ joined 46 B" using AB joined_labels [of x] by simp
    with q show ?thesis unfolding dns_under_def by blast
  next
    case False
    then have "x = (joined 46 A @ [46]) @ joined 46 B"
      using AB joined_labels [of x] joined_append [OF False ne, of 46] by simp
    moreover have "List.last (joined 46 A @ [46]) = 46" by simp
    ultimately show ?thesis using q unfolding dns_under_def by blast
  qed
qed

section \<open>Mail addresses\<close>

text \<open>What stands before and after the first occurrence of a character.\<close>

definition before :: "u8 \<Rightarrow> u8 list \<Rightarrow> u8 list" where
  "before c x = takeWhile (\<lambda>a. a \<noteq> c) x"

definition after :: "u8 \<Rightarrow> u8 list \<Rightarrow> u8 list" where
  "after c x = drop (length (before c x) + 1) x"

lemma before_after: "c \<in> set x \<Longrightarrow> x = before c x @ c # after c x"
  unfolding before_def after_def by (induction x) auto

lemma set_before_after: "set (before c x) \<subseteq> set x" "set (after c x) \<subseteq> set x"
  unfolding before_def after_def by (auto dest: set_takeWhileD in_set_dropD)

text \<open>The verdict on an address \<open>x\<close> for the base \<open>y\<close>: a base that begins with a dot names hosts
  below a domain, one with an at sign a mailbox, any other a host.\<close>

definition email_verdict :: "u8 list \<Rightarrow> u8 list \<Rightarrow> int" where
  "email_verdict y x =
     (if 64 \<notin> set x then X509_V_ERR_UNSUPPORTED_NAME_SYNTAX
      else if (if 64 \<notin> set y \<and> y \<noteq> [] \<and> hd y = 46
               then length y < length x \<and> lower_text (drop (length x - length y) x) = lower_text y
               else if 64 \<notin> set y then lower_text y = lower_text (after 64 x)
               else (before 64 y = [] \<or> before 64 y = before 64 x) \<and>
                    lower_text (after 64 y) = lower_text (after 64 x))
      then X509_V_OK else X509_V_ERR_PERMITTED_VIOLATION)"

lemma strchr_before:
  "c \<noteq> 0 \<Longrightarrow> 0 \<notin> set xs \<Longrightarrow>
    strchr (xs @ 0 # ys) c = Some (if c \<in> set xs then Some (length (before c xs)) else None)"
  by (simp add: strchr_plain before_def)

lemma drop_after: "c \<in> set x \<Longrightarrow> drop (length (before c x) + 1) (x @ ys) = after c x @ ys"
proof -
  assume "c \<in> set x"
  then have "x @ ys = (before c x @ [c]) @ after c x @ ys"
    using before_after [of c x] by (metis append_Cons append_Nil append_assoc)
  then show ?thesis by (metis append_eq_conv_conj length_append_singleton Suc_eq_plus1)
qed

lemma nc_email_result:
  assumes "plain_str s" "plain_str b"
  shows "nc_email s b = Some (email_verdict (contents b) (contents s))"
proof -
  let ?x = "contents s" and ?y = "contents b"
  obtain xs where x: "str_data s = Some (?x @ 0 # xs)" "str_length s = int (length ?x)"
    using assms(1) by (rule plain_strE)
  obtain ys where y: "str_data b = Some (?y @ 0 # ys)" "str_length b = int (length ?y)"
    using assms(2) by (rule plain_strE)
  have n: "0 \<notin> set ?x" "0 \<notin> set ?y" using assms by (auto simp: plain_str_def)
  have hd: "hd (?y @ 0 # ys) = 46 \<longleftrightarrow> ?y \<noteq> [] \<and> hd ?y = 46" by (cases ?y) auto
  note at = strchr_before [OF _ n(1), of 64 xs] strchr_before [OF _ n(2), of 64 ys]
  show ?thesis
  proof (cases "64 \<in> set ?x")
    case False
    then show ?thesis by (simp add: nc_email_def x(1) y(1) at email_verdict_def)
  next
    case X: True
    note dx = drop_after [OF X, of "0 # xs"]
    have nx: "0 \<notin> set (after 64 ?x)" using n(1) set_before_after(2) by auto
    show ?thesis
    proof (cases "64 \<in> set ?y")
      case Y: True
      note dy = drop_after [OF Y, of "0 # ys"]
      have ny: "0 \<notin> set (after 64 ?y)" using n(2) set_before_after(2) by auto
      obtain r where r: "OPENSSL_strcasecmp (after 64 ?y @ 0 # ys) (after 64 ?x @ 0 # xs) = Some r"
        "r = 0 \<longleftrightarrow> lower_text (after 64 ?y) = lower_text (after 64 ?x)"
        using strcasecmp_plain [OF ny nx] by metis
      let ?by = "before 64 ?y" and ?bx = "before 64 ?x"
      have loc: "(if length ?by \<noteq> 0 then if length ?by \<noteq> length ?bx then Some False
            else map_option (\<lambda>r. r = 0) (strncmp (?y @ 0 # ys) (?x @ 0 # xs) (length ?bx)) else Some True) =
          Some (?by = [] \<or> ?by = ?bx)"
      proof (cases "length ?by = length ?bx")
        case True
        have "0 \<notin> set ?by" using n(2) set_before_after(1) by auto
        from strncmp_prefix [OF this True, of "64 # after 64 ?y @ 0 # ys" "64 # after 64 ?x @ 0 # xs"]
        obtain q where "strncmp (?y @ 0 # ys) (?x @ 0 # xs) (length ?bx) = Some q" "q = 0 \<longleftrightarrow> ?by = ?bx"
          using before_after [OF X] before_after [OF Y] True by (metis append_Cons append_assoc)
        with True show ?thesis by auto
      next
        case False
        then show ?thesis by auto
      qed
      have "nc_email s b = Some (if \<not> (?by = [] \<or> ?by = ?bx) then X509_V_ERR_PERMITTED_VIOLATION
          else if r \<noteq> 0 then X509_V_ERR_PERMITTED_VIOLATION else X509_V_OK)"
      proof -
        have a: "strchr (?y @ 0 # ys) 64 = Some (Some (length ?by))" "strchr (?x @ 0 # xs) 64 = Some (Some (length ?bx))"
          using X Y at by simp_all
        show ?thesis
          unfolding nc_email_def x(1) y(1) Option.bind.simps a option.case
          using loc r(1) by (simp only: option.distinct simp_thms if_False bind_eq_Some_conv Option.bind.simps
              dx dy if_True split: if_split) simp
      qed
      then show ?thesis using X Y r(2) by (auto simp: email_verdict_def)
    next
      case Y: False
      show ?thesis
      proof (cases "?y \<noteq> [] \<and> hd ?y = 46")
        case True
        let ?k = "length ?x - length ?y"
        have "0 \<notin> set (drop ?k ?x)" using n(1) by (auto dest: in_set_dropD)
        from strcasecmp_plain [OF n(2) this, of ys xs]
        obtain r where r: "OPENSSL_strcasecmp (?y @ 0 # ys) (drop ?k ?x @ 0 # xs) = Some r"
          "r = 0 \<longleftrightarrow> lower_text (drop ?k ?x) = lower_text ?y" by metis
        have k: "nat (str_length s - str_length b) = ?k" unfolding x(2) y(2) by (simp add: nat_diff_distrib')
        have "nc_email s b = Some (if length ?y < length ?x \<and> r = 0 then X509_V_OK else X509_V_ERR_PERMITTED_VIOLATION)"
          using X Y True r(1) by (simp add: nc_email_def x(1) y(1) at hd k Let_def) (simp add: x(2) y(2), linarith)
        then show ?thesis using X Y True r(2) by (simp add: email_verdict_def)
      next
        case False
        obtain r where r: "OPENSSL_strcasecmp (?y @ 0 # ys) (after 64 ?x @ 0 # xs) = Some r"
          "r = 0 \<longleftrightarrow> lower_text ?y = lower_text (after 64 ?x)"
          using strcasecmp_plain [OF n(2) nx] by metis
        have "nc_email s b = Some (if r \<noteq> 0 then X509_V_ERR_PERMITTED_VIOLATION else X509_V_OK)"
          using X Y False r(1) by (auto simp: nc_email_def x(1) y(1) at hd dx [simplified])
        then show ?thesis using X Y False r(2) by (auto simp: email_verdict_def)
      qed
    qed
  qed
qed

section \<open>URIs\<close>

text \<open>The host of a URI: what follows \<^verbatim>\<open>://\<close>, up to the first colon if there is one and else up to the
  first slash.\<close>

definition uri_host :: "u8 list \<Rightarrow> u8 list" where
  "uri_host x =
     (if 58 \<in> set x \<and> take 2 (after 58 x) = [47, 47]
      then (let h = drop 2 (after 58 x) in if 58 \<in> set h then before 58 h else before 47 h)
      else [])"

definition uri_verdict :: "u8 list \<Rightarrow> u8 list \<Rightarrow> int" where
  "uri_verdict y x =
     (let h = uri_host x
      in if h = [] then X509_V_ERR_UNSUPPORTED_NAME_SYNTAX
         else if (if y \<noteq> [] \<and> hd y = 46
                  then length y < length h \<and> lower_text (drop (length h - length y) h) = lower_text y
                  else lower_text h = lower_text y)
         then X509_V_OK else X509_V_ERR_PERMITTED_VIOLATION)"

lemma before_absent: "c \<notin> set x \<Longrightarrow> before c x = x"
  unfolding before_def by (simp add: takeWhile_eq_all_conv) metis

lemma before_prefix: "\<exists>r. x = before c x @ r"
  unfolding before_def by (metis takeWhile_dropWhile_id)

lemma strlen_plain: "0 \<notin> set xs \<Longrightarrow> strlen (xs @ 0 # ys) = Some (length xs)"
  by (induction xs) auto

lemma uri_base:
  assumes "0 \<notin> set h" "0 \<notin> set y" "h \<noteq> []"
  shows "(do {
             baseptr \<leftarrow> Some (y @ 0 # ys);
             if baseptr = [] then None
             else if hd baseptr = 46 then
               (if int (length h) > int (length y) then do {
                  r \<leftarrow> OPENSSL_strncasecmp (drop (nat (int (length h) - int (length y))) (h @ t)) baseptr
                         (nat (int (length y)));
                  Some (if r = 0 then X509_V_OK else X509_V_ERR_PERMITTED_VIOLATION)
                }
                else Some X509_V_ERR_PERMITTED_VIOLATION)
             else if int (length y) \<noteq> int (length h) then Some X509_V_ERR_PERMITTED_VIOLATION
             else do {
               r \<leftarrow> OPENSSL_strncasecmp (h @ t) baseptr (length h);
               Some (if r \<noteq> 0 then X509_V_ERR_PERMITTED_VIOLATION else X509_V_OK)
             }
           }) = Some (if (if y \<noteq> [] \<and> hd y = 46
                  then length y < length h \<and> lower_text (drop (length h - length y) h) = lower_text y
                  else lower_text h = lower_text y)
         then X509_V_OK else X509_V_ERR_PERMITTED_VIOLATION)"
proof (cases "y \<noteq> [] \<and> hd y = 46")
  case True
  let ?k = "length h - length y"
  have h: "hd (y @ 0 # ys) = 46" using True by simp
  have "\<exists>r. OPENSSL_strncasecmp (drop ?k h @ t) (y @ 0 # ys) (length y) = Some r \<and>
      (r = 0 \<longleftrightarrow> lower_text (drop ?k h) = lower_text y)" if "length y < length h"
    using strncasecmp_take [of "drop ?k h" y t "0 # ys"] assms(1) that by (auto dest: in_set_dropD)
  with True h show ?thesis by (auto simp: nat_diff_distrib')
next
  case False
  then have h: "hd (y @ 0 # ys) \<noteq> 46" by (cases y) auto
  have "\<exists>r. OPENSSL_strncasecmp (h @ t) (y @ 0 # ys) (length h) = Some r \<and>
      (r = 0 \<longleftrightarrow> lower_text h = lower_text y)" if "length h = length y"
    using strncasecmp_take [of h y t "0 # ys"] assms(1) that by auto
  moreover have "lower_text h = lower_text y \<Longrightarrow> length h = length y" by (metis length_map)
  ultimately show ?thesis unfolding if_not_P [OF False] using h by auto
qed

lemma slashes:
  "take 2 a \<noteq> [47, 47] \<Longrightarrow> (a @ 0 # xs) ! 0 \<noteq> (47 :: u8) \<or> a \<noteq> [] \<and> (a @ 0 # xs) ! 1 \<noteq> 47"
proof (cases a)
  case (Cons c as)
  then show "take 2 a \<noteq> [47, 47] \<Longrightarrow> ?thesis" by (cases as) auto
qed simp

lemma nc_uri_result:
  assumes "plain_str s" "plain_str b"
  shows "nc_uri s b = Some (uri_verdict (contents b) (contents s))"
proof -
  let ?x = "contents s" and ?y = "contents b"
  obtain xs where x: "str_data s = Some (?x @ 0 # xs)" "str_length s = int (length ?x)"
    using assms(1) by (rule plain_strE)
  obtain ys where y: "str_data b = Some (?y @ 0 # ys)" "str_length b = int (length ?y)"
    using assms(2) by (rule plain_strE)
  have n: "0 \<notin> set ?x" "0 \<notin> set ?y" using assms by (auto simp: plain_str_def)
  show ?thesis
  proof (cases "58 \<in> set ?x \<and> take 2 (after 58 ?x) = [47, 47]")
    case False
    have "nc_uri s b = Some X509_V_ERR_UNSUPPORTED_NAME_SYNTAX"
    proof (cases "58 \<in> set ?x")
      case True
      let ?a = "after 58 ?x"
      have d: "?x @ 0 # xs = (before 58 ?x @ [58]) @ ?a @ 0 # xs"
        using before_after [OF True] by (metis append_Cons append_Nil append_assoc)
      have i: "(?x @ 0 # xs) ! (length (before 58 ?x) + 1) = (?a @ 0 # xs) ! 0"
        "(?x @ 0 # xs) ! (length (before 58 ?x) + 2) = (?a @ 0 # xs) ! 1"
        unfolding d by (simp_all add: nth_append)
      have l: "length (?x @ 0 # xs) = length (before 58 ?x) + 2 + length ?a + length xs"
        unfolding d by simp
      have a: "strchr (?x @ 0 # xs) 58 = Some (Some (length (before 58 ?x)))"
        using strchr_before [OF _ n(1), of 58 xs] True by simp
      from False True have "take 2 ?a \<noteq> [47, 47]" by simp
      then have "(?a @ 0 # xs) ! 0 \<noteq> 47 \<or> ?a \<noteq> [] \<and> (?a @ 0 # xs) ! 1 \<noteq> 47" by (rule slashes)
      then show ?thesis
        unfolding nc_uri_def x(1) Option.bind.simps a option.case i l by (cases ?a) simp_all
    next
      case False
      then show ?thesis using strchr_before [OF _ n(1), of 58 xs] by (simp add: nc_uri_def x(1))
    qed
    moreover have "uri_host ?x = []" unfolding uri_host_def by (rule if_not_P [OF False])
    ultimately show ?thesis by (simp add: uri_verdict_def)
  next
    case True
    let ?i = "length (before 58 ?x)"
    obtain h where h: "after 58 ?x = 47 # 47 # h"
      using True by (cases "after 58 ?x" rule: remdups_adj.cases) auto
    have d: "?x @ 0 # xs = (before 58 ?x @ [58, 47, 47]) @ h @ 0 # xs"
      using before_after [of 58 ?x] True h by (metis append_Cons append_Nil append_assoc)
    have hn: "0 \<notin> set h" using n(1) set_before_after(2) [where c=58 and x="?x"] h by auto
    have a: "strchr (?x @ 0 # xs) 58 = Some (Some ?i)"
      using strchr_before [OF _ n(1), of 58 xs] True by simp
    have host: "uri_host ?x = (if 58 \<in> set h then before 58 h else before 47 h)"
      unfolding uri_host_def using True h by simp
    let ?h = "uri_host ?x"
    have "\<exists>r. h = ?h @ r"
      unfolding host using before_prefix [of h 58] before_prefix [of h 47] by simp
    then obtain r where r: "h = ?h @ r" ..
    define t where "t = r @ 0 # xs"
    have t: "h @ 0 # xs = ?h @ t" unfolding t_def using r by (metis append_assoc)
    have hh: "0 \<notin> set ?h" using hn r by (metis UnCI set_append)
    have len: "(do {
         colon \<leftarrow> strchr (h @ 0 # xs) 58;
         slash \<leftarrow> (if colon = None then strchr (h @ 0 # xs) 47 else Some None);
         len \<leftarrow> (if colon = None \<and> slash = None then strlen (h @ 0 # xs) else Some 0);
         let hostlen = (case colon of Some k \<Rightarrow> k | None \<Rightarrow> (case slash of Some k \<Rightarrow> k | None \<Rightarrow> len));
         f hostlen
       }) = f (length ?h)" for f :: "nat \<Rightarrow> int option"
      unfolding host using strchr_before [OF _ hn, of 58 xs] strchr_before [OF _ hn, of 47 xs]
        strlen_plain [OF hn, of xs] before_absent [of 47 h] by simp
    have e: "length (?x @ 0 # xs) = ?i + 4 + length h + length xs" "(?x @ 0 # xs) ! (?i + 1) = 47"
      "(?x @ 0 # xs) ! (?i + 2) = 47" "drop (?i + 3) (?x @ 0 # xs) = h @ 0 # xs"
      unfolding d by (simp_all add: nth_append)
    show ?thesis
    proof (cases "?h = []")
      case True
      then show ?thesis
        unfolding nc_uri_def x(1) Option.bind.simps a option.case e Let_def [of "h @ 0 # xs"] len
        by (simp add: uri_verdict_def)
    next
      case False
      have "nc_uri s b = Some (if (if ?y \<noteq> [] \<and> hd ?y = 46
                  then length ?y < length ?h \<and> lower_text (drop (length ?h - length ?y) ?h) = lower_text ?y
                  else lower_text ?h = lower_text ?y)
         then X509_V_OK else X509_V_ERR_PERMITTED_VIOLATION)"
        unfolding uri_base [OF hh n(2) False, of ys t, symmetric]
        unfolding nc_uri_def x(1) Option.bind.simps a option.case e Let_def [of "h @ 0 # xs"] len
        using False unfolding y t by simp
      then show ?thesis using False by (simp add: uri_verdict_def)
    qed
  qed
qed

section \<open>What the check accepts\<close>

text \<open>The subtrees that apply to a name: those whose base has its type.\<close>

definition typed :: "GENERAL_NAME \<Rightarrow> GENERAL_SUBTREE list \<Rightarrow> GENERAL_SUBTREE list" where
  "typed g subs = filter (\<lambda>sub. gen_type (sub_base sub) = gen_type g) subs"

lemma typed_simps [simp]:
  "typed g [] = []"
  "typed g (sub # subs) = (if gen_type (sub_base sub) = gen_type g then sub # typed g subs else typed g subs)"
  by (simp_all add: typed_def)

definition unbounded :: "GENERAL_SUBTREE \<Rightarrow> bool" where
  "unbounded sub \<longleftrightarrow> sub_minimum sub = None \<and> sub_maximum sub = None"

text \<open>A name obeys the constraints when one of the permitted subtrees of its type matches, if there
  are any, and none of the excluded ones does.\<close>

definition obeys :: "(X509_NAME \<Rightarrow> X509_NAME option) \<Rightarrow> NAME_CONSTRAINTS \<Rightarrow> GENERAL_NAME \<Rightarrow> bool" where
  "obeys i2d nc g \<longleftrightarrow>
     (\<forall>sub\<in>set (typed g (permittedSubtrees nc @ excludedSubtrees nc)). unbounded sub) \<and>
     (typed g (permittedSubtrees nc) = [] \<or>
       (\<exists>sub\<in>set (typed g (permittedSubtrees nc)). nc_match_single i2d g (sub_base sub) = Some X509_V_OK)) \<and>
     (\<forall>sub\<in>set (typed g (excludedSubtrees nc)).
       nc_match_single i2d g (sub_base sub) = Some X509_V_ERR_PERMITTED_VIOLATION)"

lemma typed_append [simp]: "typed g (a @ b) = typed g a @ typed g b"
  by (simp add: typed_def)

lemma nc_permitted_Inr:
  "nc_permitted i2d g m subs = Some (Inr k) \<Longrightarrow> m \<le> 2 \<Longrightarrow>
    (\<forall>sub\<in>set (typed g subs). unbounded sub) \<and> k \<le> 2 \<and>
    (k = 2 \<longrightarrow> m = 2 \<or> (\<exists>sub\<in>set (typed g subs). nc_match_single i2d g (sub_base sub) = Some X509_V_OK)) \<and>
    (k = 0 \<longrightarrow> m = 0 \<and> typed g subs = [])"
proof (induction subs arbitrary: m)
  case (Cons sub subs)
  show ?case
  proof (cases "gen_type g = gen_type (sub_base sub)")
    case False
    then show ?thesis using Cons by auto
  next
    case T: True
    then have mm: "unbounded sub"
      using Cons.prems(1) by (auto simp: unbounded_def split: if_splits)
    show ?thesis
    proof (cases "m = 2")
      case True
      then have "nc_permitted i2d g 2 subs = Some (Inr k)"
        using Cons.prems(1) T mm by (simp add: unbounded_def)
      from Cons.IH [OF this] show ?thesis using T mm True by auto
    next
      case False
      let ?m = "if m = 0 then 1 else m"
      obtain r where r: "nc_match_single i2d g (sub_base sub) = Some r"
        "(if r = X509_V_OK then nc_permitted i2d g 2 subs
          else if r \<noteq> X509_V_ERR_PERMITTED_VIOLATION then Some (Inl r)
          else nc_permitted i2d g ?m subs) = Some (Inr k)"
        using Cons.prems(1) T mm False by (auto simp: unbounded_def Let_def split: option.splits)
      show ?thesis
      proof (cases "r = X509_V_OK")
        case True
        from r(2) True have "nc_permitted i2d g 2 subs = Some (Inr k)" by simp
        from Cons.IH [OF this] show ?thesis using r(1) True T mm by auto
      next
        case False
        have one: "?m = 1" using \<open>m \<noteq> 2\<close> Cons.prems(2) by auto
        from r(2) False have "nc_permitted i2d g 1 subs = Some (Inr k)" unfolding one by (auto split: if_splits)
        from Cons.IH [OF this] show ?thesis using T mm by auto
      qed
    qed
  qed
qed auto

lemma nc_excluded_OK:
  "nc_excluded i2d g subs = Some X509_V_OK \<Longrightarrow>
    \<forall>sub\<in>set (typed g subs). unbounded sub \<and>
      nc_match_single i2d g (sub_base sub) = Some X509_V_ERR_PERMITTED_VIOLATION"
proof (induction subs)
  case (Cons sub subs)
  have v: "X509_V_ERR_SUBTREE_MINMAX \<noteq> X509_V_OK" "X509_V_ERR_EXCLUDED_VIOLATION \<noteq> X509_V_OK"
    by (simp_all add: verdicts)
  from Cons v show ?case
    by (auto simp: unbounded_def split: if_splits option.splits)
qed simp

lemma nc_match_OK: "nc_match i2d g nc = Some X509_V_OK \<Longrightarrow> obeys i2d nc g"
proof -
  assume a: "nc_match i2d g nc = Some X509_V_OK"
  have v: "nc_permitted i2d g 0 (permittedSubtrees nc) \<noteq> Some (Inl X509_V_OK)"
  proof -
    have "nc_permitted i2d g m subs \<noteq> Some (Inl X509_V_OK)" for m subs
      by (induction subs arbitrary: m) (auto simp: Let_def verdicts split: option.splits)
    then show ?thesis .
  qed
  obtain k where k: "nc_permitted i2d g 0 (permittedSubtrees nc) = Some (Inr k)" "k \<noteq> 1"
    "nc_excluded i2d g (excludedSubtrees nc) = Some X509_V_OK"
    using a v unfolding nc_match_def
    by (auto simp: X509_V_OK_def X509_V_ERR_PERMITTED_VIOLATION_def split: option.splits sum.splits if_splits)
  from nc_permitted_Inr [OF k(1)] nc_excluded_OK [OF k(3)] k(2) show "obeys i2d nc g"
    unfolding obeys_def by (auto simp: le_Suc_eq numeral_2_eq_2)
qed

lemma get_index_first:
  assumes "i < int k" "k < length (nm_entries nm)" "ne_nid (nm_entries nm ! k) = nid"
  shows "0 \<le> X509_NAME_get_index_by_NID nm nid i \<and> X509_NAME_get_index_by_NID nm nid i \<le> int k"
proof -
  let ?n = "nat ((if i < 0 then -1 else i) + 1)"
  let ?js = "filter (\<lambda>i. ne_nid (nm_entries nm ! i) = nid) [?n..<length (nm_entries nm)]"
  have "k \<in> set ?js" using assms by auto
  then obtain j js where j: "?js = j # js" by (cases ?js) auto
  have "List.sorted ?js" by (rule sorted_wrt_filter) simp
  then have "j \<le> k" using \<open>k \<in> set ?js\<close> unfolding j by auto
  then show ?thesis using j by (simp add: X509_NAME_get_index_by_NID_def Let_def)
qed

lemma nc_emails_OK:
  "nc_emails i2d nc nm i = Some X509_V_OK \<Longrightarrow> i < int k \<Longrightarrow> k < length (nm_entries nm) \<Longrightarrow>
    ne_nid (nm_entries nm ! k) = NID_pkcs9_emailAddress \<Longrightarrow>
    str_type (ne_value (nm_entries nm ! k)) = V_ASN1_IA5STRING \<and>
    obeys i2d nc (GN_EMAIL (ne_value (nm_entries nm ! k)))"
proof (induction i2d nc nm i rule: nc_emails.induct)
  case (1 i2d nc nm i)
  let ?j = "X509_NAME_get_index_by_NID nm NID_pkcs9_emailAddress i"
  let ?s = "ne_value (nm_entries nm ! nat ?j)"
  note j = get_index_first [OF 1(3) 1(4) 1(5)]
  have u: "X509_V_ERR_UNSUPPORTED_NAME_SYNTAX \<noteq> X509_V_OK" by (simp add: verdicts)
  have s: "str_type ?s = V_ASN1_IA5STRING" "nc_match i2d (GN_EMAIL ?s) nc = Some X509_V_OK"
    "nc_emails i2d nc nm ?j = Some X509_V_OK"
    using 1(2) j u unfolding nc_emails.simps [of i2d nc nm i] Let_def
    by (auto split: if_splits option.splits)
  show ?case
  proof (cases "?j = int k")
    case True
    then show ?thesis using s nc_match_OK [OF s(2)] by simp
  next
    case False
    have "\<not> ?j < 0" using j by simp
    from 1(1) [OF refl this refl _ s(2) _ s(3)] show ?thesis using s False j 1(4,5) by auto
  qed
qed

lemma nc_altnames_OK:
  "nc_altnames i2d nc gens = Some X509_V_OK \<Longrightarrow> g \<in> set gens \<Longrightarrow> obeys i2d nc g"
  by (induction gens) (auto split: option.splits if_splits intro: nc_match_OK)

text \<open>The work the check is willing to do.\<close>

lemma nc_too_many_iff:
  assumes "a < SIZE_MOD" "b < SIZE_MOD" "c < SIZE_MOD" "d < SIZE_MOD"
  shows "\<not> nc_too_many a b c d \<longleftrightarrow> a + b < SIZE_MOD \<and> c + d < SIZE_MOD \<and> (a + b) * (c + d) \<le> 2 ^ 20"
proof -
  have wrap: "(x + y) mod SIZE_MOD < x \<longleftrightarrow> \<not> x + y < SIZE_MOD" if "x < SIZE_MOD" "y < SIZE_MOD" for x y
  proof (cases "x + y < SIZE_MOD")
    case False
    then have "(x + y) mod SIZE_MOD = x + y - SIZE_MOD" using that by (simp add: mod_if)
    then show ?thesis using that False by simp
  qed simp
  show ?thesis
  proof (cases "a + b < SIZE_MOD \<and> c + d < SIZE_MOD")
    case False
    then show ?thesis using wrap [of a b] wrap [of c d] assms by (auto simp: nc_too_many_def Let_def)
  next
    case True
    let ?n = "a + b" and ?c = "c + d"
    have e: "?n mod SIZE_MOD = ?n" "?c mod SIZE_MOD = ?c" using True by simp_all
    have "?c \<noteq> 0 \<and> (?c * ?n) mod SIZE_MOD div ?c \<noteq> ?n \<longleftrightarrow> \<not> ?c * ?n < SIZE_MOD"
    proof (cases "?c * ?n < SIZE_MOD")
      case False
      then have "(?c * ?n) mod SIZE_MOD < ?c * ?n"
        using mod_less_divisor [of SIZE_MOD "?c * ?n"] by (simp add: SIZE_MOD_def)
      then have "(?c * ?n) mod SIZE_MOD div ?c < ?n" by (metis less_mult_imp_div_less mult.commute)
      moreover have "?c \<noteq> 0" using False by (intro notI) (simp add: SIZE_MOD_def)
      ultimately show ?thesis using False by simp
    qed auto
    moreover have "?c * ?n < SIZE_MOD" if "?n * ?c \<le> 2 ^ 20"
      using that by (simp add: SIZE_MOD_def mult.commute)
    ultimately show ?thesis
      unfolding nc_too_many_def e Let_def using True by (auto simp: mult.commute)
  qed
qed

text \<open>A certificate that passes: its subject, the addresses in it and every alternative name obey
  the constraints, and few enough comparisons were made.\<close>

definition cert_obeys :: "(X509_NAME \<Rightarrow> X509_NAME option) \<Rightarrow> X509 \<Rightarrow> NAME_CONSTRAINTS \<Rightarrow> bool" where
  "cert_obeys i2d x nc \<longleftrightarrow>
     (nm_entries (x_subject x) \<noteq> [] \<longrightarrow> obeys i2d nc (GN_DIRNAME (x_subject x))) \<and>
     (\<forall>e\<in>set (nm_entries (x_subject x)). ne_nid e = NID_pkcs9_emailAddress \<longrightarrow>
        str_type (ne_value e) = V_ASN1_IA5STRING \<and> obeys i2d nc (GN_EMAIL (ne_value e))) \<and>
     (\<forall>gens g. x_altname x = Some gens \<longrightarrow> g \<in> set gens \<longrightarrow> obeys i2d nc g)"

lemma check_obeys:
  assumes "NAME_CONSTRAINTS_check i2d x nc = Some X509_V_OK"
  shows "cert_obeys i2d x nc"
proof -
  let ?nm = "x_subject x" and ?alt = "case x_altname x of None \<Rightarrow> [] | Some gens \<Rightarrow> gens"
  have v: "X509_V_ERR_UNSPECIFIED \<noteq> X509_V_OK" by (simp add: verdicts)
  have alt: "nc_altnames i2d nc ?alt = Some X509_V_OK"
    and sub: "nm_entries ?nm \<noteq> [] \<Longrightarrow> nc_match i2d (GN_DIRNAME ?nm) nc = Some X509_V_OK \<and>
        nc_emails i2d nc ?nm (-1) = Some X509_V_OK"
    using assms v unfolding NAME_CONSTRAINTS_check_def Let_def by (auto split: if_splits option.splits)
  have "str_type (ne_value e) = V_ASN1_IA5STRING \<and> obeys i2d nc (GN_EMAIL (ne_value e))"
    if e: "e \<in> set (nm_entries ?nm)" "ne_nid e = NID_pkcs9_emailAddress" for e
  proof -
    obtain k where k: "k < length (nm_entries ?nm)" "nm_entries ?nm ! k = e"
      using e(1) by (auto simp: in_set_conv_nth)
    then have "nm_entries ?nm \<noteq> []" by auto
    with sub k e(2) nc_emails_OK [of i2d nc ?nm "-1" k] show ?thesis by auto
  qed
  then show ?thesis
    unfolding cert_obeys_def using sub nc_match_OK nc_altnames_OK [OF alt] by auto
qed

lemma check_count:
  assumes "NAME_CONSTRAINTS_check i2d x nc = Some X509_V_OK"
    and "length (nm_entries (x_subject x)) < SIZE_MOD" "length (case x_altname x of None \<Rightarrow> [] | Some gens \<Rightarrow> gens) < SIZE_MOD"
    and "length (permittedSubtrees nc) < SIZE_MOD" "length (excludedSubtrees nc) < SIZE_MOD"
  shows "(length (nm_entries (x_subject x)) + length (case x_altname x of None \<Rightarrow> [] | Some gens \<Rightarrow> gens)) *
    (length (permittedSubtrees nc) + length (excludedSubtrees nc)) \<le> 2 ^ 20"
proof -
  have "X509_V_ERR_UNSPECIFIED \<noteq> X509_V_OK" by (simp add: verdicts)
  then have "\<not> nc_too_many (length (nm_entries (x_subject x))) (length (case x_altname x of None \<Rightarrow> [] | Some gens \<Rightarrow> gens))
      (length (permittedSubtrees nc)) (length (excludedSubtrees nc))"
    using assms(1) unfolding NAME_CONSTRAINTS_check_def Let_def by (simp only: split: if_splits) auto
  then show ?thesis unfolding nc_too_many_iff [OF assms(2-5)] by blast
qed

end
