(* ===== verification/Md32.thy ===== *)
theory Md32
  imports Mem
begin

unbundle bit_operations_syntax

text \<open>
  The collector of message digests, \<^verbatim>\<open>crypto/fipsmodule/digest/md32_common.h\<close>, which cuts the input
  into blocks and pads it. The macros that an algorithm sets before it includes the file are
  arguments here: the block function \<open>block\<close> (\<^verbatim>\<open>HASH_BLOCK_DATA_ORDER\<close>), the byte order \<open>big\<close> and
  the output \<open>make_string\<close>. The locale \<open>md32\<close> says what the file asks of a block function, that it
  runs one compression function over the blocks in turn; it is interpreted by each algorithm.
  Both functions return 1 on every path of their own, which is left out.
\<close>

section \<open>State\<close>

record HASH_CTX =
  hash_h :: "u32 list"
  hash_Nl :: u32
  hash_Nh :: u32
  hash_data :: "u8 list"
  hash_num :: nat

definition HASH_CBLOCK :: nat where
  "HASH_CBLOCK = 64"

type_synonym block_data_fn = "u32 list \<Rightarrow> u8 list \<Rightarrow> nat \<Rightarrow> u32 list"

section \<open>Words and bytes\<close>

definition ROTATE :: "'a :: len word \<Rightarrow> nat \<Rightarrow> 'a word" where
  "ROTATE a n = push_bit n a OR drop_bit (LENGTH('a) - n) a"

fun HOST_c2l_be :: "u8 list \<Rightarrow> u32" where
  "HOST_c2l_be (c0 # c1 # c2 # c3 # _) =
     push_bit 24 (ucast c0) OR push_bit 16 (ucast c1) OR push_bit 8 (ucast c2) OR ucast c3"
| "HOST_c2l_be _ = 0"

fun HOST_c2l_le :: "u8 list \<Rightarrow> u32" where
  "HOST_c2l_le (c0 # c1 # c2 # c3 # _) =
     ucast c0 OR push_bit 8 (ucast c1) OR push_bit 16 (ucast c2) OR push_bit 24 (ucast c3)"
| "HOST_c2l_le _ = 0"

lemma HOST_c2l_append:
  "4 \<le> length p \<Longrightarrow> HOST_c2l_be (p @ x) = HOST_c2l_be p"
  "4 \<le> length p \<Longrightarrow> HOST_c2l_le (p @ x) = HOST_c2l_le p"
  by (cases p rule: HOST_c2l_be.cases; simp)+

definition HOST_l2c_be :: "u32 \<Rightarrow> u8 list" where
  "HOST_l2c_be l =
     [ucast (drop_bit 24 l AND 0xff), ucast (drop_bit 16 l AND 0xff), ucast (drop_bit 8 l AND 0xff),
      ucast (l AND 0xff)]"

definition HOST_l2c_le :: "u32 \<Rightarrow> u8 list" where
  "HOST_l2c_le l =
     [ucast (l AND 0xff), ucast (drop_bit 8 l AND 0xff), ucast (drop_bit 16 l AND 0xff),
      ucast (drop_bit 24 l AND 0xff)]"

section \<open>Collecting\<close>

text \<open>\<open>OPENSSL_memcpy(c->data + n, src, len)\<close>.\<close>

definition copy_at :: "'a list \<Rightarrow> nat \<Rightarrow> 'a list \<Rightarrow> 'a list" where
  "copy_at d n src = take n d @ src @ drop (n + length src) d"

text \<open>The second half of the update: the whole blocks, then what is left over.\<close>

definition hash_update_blocks ::
    "block_data_fn \<Rightarrow> 'a HASH_CTX_scheme \<Rightarrow> u8 list \<Rightarrow> 'a HASH_CTX_scheme" where
  "hash_update_blocks block c data =
     (let n = length data div HASH_CBLOCK;
          c = (if n > 0 then c\<lparr>hash_h := block (hash_h c) data n\<rparr> else c);
          rest = drop (n * HASH_CBLOCK) data
      in if rest \<noteq> []
         then c\<lparr>hash_num := length rest, hash_data := copy_at (hash_data c) 0 rest\<rparr>
         else c)"

definition HASH_UPDATE :: "block_data_fn \<Rightarrow> 'a HASH_CTX_scheme \<Rightarrow> u8 list \<Rightarrow> 'a HASH_CTX_scheme" where
  "HASH_UPDATE block c data =
     (let len = length data
      in if len = 0 then c
         else
           (let l = hash_Nl c + push_bit 3 (of_nat len);
                Nh = (if l < hash_Nl c then hash_Nh c + 1 else hash_Nh c) + of_nat (len div 2 ^ 29);
                c = c\<lparr>hash_Nl := l, hash_Nh := Nh\<rparr>;
                n = hash_num c
            in if n \<noteq> 0 then
                 (if len \<ge> HASH_CBLOCK \<or> (len + n) mod SIZE_MOD \<ge> HASH_CBLOCK then
                    (let d = copy_at (hash_data c) n (take (HASH_CBLOCK - n) data);
                         c = c\<lparr>hash_h := block (hash_h c) d 1, hash_num := 0,
                               hash_data := replicate HASH_CBLOCK 0\<rparr>
                     in hash_update_blocks block c (drop (HASH_CBLOCK - n) data))
                  else c\<lparr>hash_data := copy_at (hash_data c) n data, hash_num := n + len\<rparr>)
               else hash_update_blocks block c data))"

definition HASH_TRANSFORM :: "block_data_fn \<Rightarrow> 'a HASH_CTX_scheme \<Rightarrow> u8 list \<Rightarrow> 'a HASH_CTX_scheme" where
  "HASH_TRANSFORM block c data = c\<lparr>hash_h := block (hash_h c) data 1\<rparr>"

text \<open>The length in bits, in the byte order of the algorithm.\<close>

definition hash_length_bytes :: "bool \<Rightarrow> u32 \<Rightarrow> u32 \<Rightarrow> u8 list" where
  "hash_length_bytes big Nh Nl =
     (if big then HOST_l2c_be Nh @ HOST_l2c_be Nl else HOST_l2c_le Nl @ HOST_l2c_le Nh)"

text \<open>The output is \<open>None\<close> when \<^verbatim>\<open>HASH_MAKE_STRING\<close> returns 0. \<open>num\<close> below the block size is asserted
  by the code.\<close>

definition HASH_FINAL ::
    "block_data_fn \<Rightarrow> bool \<Rightarrow> ('a HASH_CTX_scheme \<Rightarrow> u8 list option) \<Rightarrow> 'a HASH_CTX_scheme \<Rightarrow>
      'a HASH_CTX_scheme \<times> u8 list option" where
  "HASH_FINAL block big make_string c =
     (let n = hash_num c;
          d = (hash_data c)[n := 0x80];
          n = n + 1;
          (h, d, n) =
            (if n > HASH_CBLOCK - 8
             then (block (hash_h c) (copy_at d n (replicate (HASH_CBLOCK - n) 0)) 1,
                   copy_at d n (replicate (HASH_CBLOCK - n) 0), 0)
             else (hash_h c, d, n));
          d = copy_at d n (replicate (HASH_CBLOCK - 8 - n) 0);
          d = copy_at d (HASH_CBLOCK - 8) (hash_length_bytes big (hash_Nh c) (hash_Nl c));
          c = c\<lparr>hash_h := block h d 1, hash_num := 0, hash_data := replicate HASH_CBLOCK 0\<rparr>
      in (c, make_string c))"

section \<open>What is computed\<close>

text \<open>The blocks of a message, and a message with its padding: the bit 1, zeros up to eight bytes
  before the end of a block, and the length in bits modulo \<open>2\<^sup>64\<close>.\<close>

function chunks :: "nat \<Rightarrow> u8 list \<Rightarrow> u8 list list" where
  "chunks k m = (if k = 0 \<or> length m < k then [] else take k m # chunks k (drop k m))"
  by pat_completeness auto
termination by (relation "measure (\<lambda>(k, m). length m)") auto

declare chunks.simps [simp del]

abbreviation chunks64 :: "u8 list \<Rightarrow> u8 list list" where
  "chunks64 m \<equiv> chunks 64 m"

definition md_length :: "bool \<Rightarrow> u8 list \<Rightarrow> u8 list" where
  "md_length big m =
     (let n = of_nat (8 * length m) :: u64
      in hash_length_bytes big (ucast (drop_bit 32 n)) (ucast n))"

definition md_pad :: "bool \<Rightarrow> u8 list \<Rightarrow> u8 list" where
  "md_pad big m = m @ 0x80 # replicate ((119 - length m mod 64) mod 64) 0 @ md_length big m"

text \<open>A context that has collected a message: what stands in the buffer is the part of the message
  after its last whole block, followed by zeros.\<close>

definition hash_core :: "(u32 list \<Rightarrow> u8 list \<Rightarrow> u32 list) \<Rightarrow> u32 list \<Rightarrow> 'a HASH_CTX_scheme \<Rightarrow> u8 list \<Rightarrow> bool" where
  "hash_core f h0 c m \<longleftrightarrow>
     hash_num c = length m mod 64 \<and>
     hash_data c = drop (64 * (length m div 64)) m @ replicate (64 - length m mod 64) 0 \<and>
     hash_h c = foldl f h0 (chunks64 m)"

definition hash_rep :: "(u32 list \<Rightarrow> u8 list \<Rightarrow> u32 list) \<Rightarrow> u32 list \<Rightarrow> 'a HASH_CTX_scheme \<Rightarrow> u8 list \<Rightarrow> bool" where
  "hash_rep f h0 c m \<longleftrightarrow> hash_core f h0 c m \<and>
     unat (hash_Nl c) + 2 ^ 32 * unat (hash_Nh c) = 8 * length m mod 2 ^ 64"

locale md32 =
  fixes block :: block_data_fn and f :: "u32 list \<Rightarrow> u8 list \<Rightarrow> u32 list"
  assumes block_eq: "0 < n \<Longrightarrow> 64 * n \<le> length d \<Longrightarrow> block h d n = foldl f h (chunks64 (take (64 * n) d))"

section \<open>Blocks\<close>

lemma chunks_short [simp]: "length m < k \<Longrightarrow> chunks k m = []"
  by (simp add: chunks.simps)

lemma chunks_Cons: "0 < k \<Longrightarrow> length a = k \<Longrightarrow> chunks k (a @ m) = a # chunks k m"
  by (subst chunks.simps) simp

lemma chunks_single [simp]: "0 < k \<Longrightarrow> length a = k \<Longrightarrow> chunks k a = [a]"
  using chunks_Cons [of k a "[]"] by simp

lemma chunks_append: "0 < k \<Longrightarrow> length a = k * n \<Longrightarrow> chunks k (a @ m) = chunks k a @ chunks k m"
proof (induction n arbitrary: a)
  case (Suc n)
  have s: "a = take k a @ drop k a" "length (take k a) = k" "length (drop k a) = k * n"
    using Suc.prems by simp_all
  have "chunks k (a @ m) = take k a # chunks k (drop k a @ m)"
    using chunks_Cons [OF Suc.prems(1) s(2), of "drop k a @ m"] s(1) by (metis append_assoc)
  moreover have "chunks k a = take k a # chunks k (drop k a)"
    using chunks_Cons [OF Suc.prems(1) s(2), of "drop k a"] s(1) by metis
  ultimately show ?case using Suc.IH [OF Suc.prems(1) s(3)] by simp
qed simp

text \<open>The whole blocks of a message do not change when bytes are added, and the rest is not a block.\<close>

lemma tail_length: "length (drop (k * (length m div k)) m) = length m mod k"
  by (simp add: minus_mult_div_eq_mod)

lemma whole_length: "length (take (k * (length m div k)) m) = k * (length m div k)"
  by simp

lemma chunks_split:
  assumes "0 < k"
  shows "chunks k m = chunks k (take (k * (length m div k)) m)"
proof -
  let ?n = "length m div k"
  have "length (drop (k * ?n) m) < k" unfolding tail_length using assms by simp
  then show ?thesis using chunks_append [OF assms whole_length, of m "drop (k * ?n) m"] by simp
qed

lemma chunks_extend:
  assumes "0 < k"
  shows "chunks k (m @ x) = chunks k m @ chunks k (drop (k * (length m div k)) m @ x)"
proof -
  let ?n = "length m div k"
  have "chunks k (m @ x) = chunks k (take (k * ?n) m @ (drop (k * ?n) m @ x))" by (simp flip: append_assoc)
  also have "\<dots> = chunks k m @ chunks k (drop (k * ?n) m @ x)"
    unfolding chunks_append [OF assms whole_length] chunks_split [OF assms, of m, symmetric] ..
  finally show ?thesis .
qed

text \<open>Positions within blocks.\<close>

lemma div_mod_block: "0 < k \<Longrightarrow> n = k * (n div k) + n mod k \<and> n mod k < k" for n k :: nat
  by simp

lemma block_pos: "n = k * q + r \<Longrightarrow> r < k \<Longrightarrow> n mod k = r \<and> n div k = q" for n :: nat
  by simp

lemma fill_block: "m = k * q + r \<Longrightarrow> r < k \<Longrightarrow> m + (k - r) = k * (q + 1)" for m :: nat
  by simp

lemma add_blocks: "m = k * p \<Longrightarrow> x = k * q + r \<Longrightarrow> m + x = k * (p + q) + r" for m :: nat
  by (simp add: add_mult_distrib2)

lemma block_size: "0 < (64 :: nat)"
  by simp

section \<open>The length\<close>

lemma wrap_carry:
  fixes a x M :: nat
  assumes "a < M" "x < M"
  shows "(a + x) mod M < a \<longleftrightarrow> M \<le> a + x" "(a + x) mod M + M * (if M \<le> a + x then 1 else 0) = a + x"
proof -
  have "(a + x) mod M = (if M \<le> a + x then a + x - M else a + x)"
    using assms by (simp add: mod_if)
  then show "(a + x) mod M < a \<longleftrightarrow> M \<le> a + x" "(a + x) mod M + M * (if M \<le> a + x then 1 else 0) = a + x"
    using assms by auto
qed

lemma bits_add:
  fixes Nl Nh :: "'a :: len word"
  assumes "l = Nl + push_bit 3 (of_nat len)"
    and "h = (if l < Nl then Nh + 1 else Nh) + of_nat (len div 2 ^ (LENGTH('a) - 3))" and w: "3 \<le> LENGTH('a)"
  shows "(unat l + 2 ^ LENGTH('a) * unat h) mod 2 ^ (2 * LENGTH('a)) =
    (unat Nl + 2 ^ LENGTH('a) * unat Nh + 8 * len) mod 2 ^ (2 * LENGTH('a))"
proof -
  let ?M = "2 ^ LENGTH('a) :: nat"
  let ?q = "len div 2 ^ (LENGTH('a) - 3)"
  let ?x = "8 * len mod ?M"
  have p: "unat (push_bit 3 (of_nat len :: 'a word)) = ?x"
  proof -
    have "push_bit 3 (of_nat len :: 'a word) = of_nat (8 * len)" by (simp add: push_bit_eq_mult mult.commute)
    then show ?thesis by (simp only: unat_of_nat)
  qed
  have l: "unat l = (unat Nl + ?x) mod ?M"
    unfolding assms(1) by (simp add: unat_word_ariths p)
  have b: "unat Nl < ?M" "?x < ?M" by simp_all
  have c: "l < Nl \<longleftrightarrow> ?M \<le> unat Nl + ?x"
    unfolding word_less_nat_alt l by (rule wrap_carry(1) [OF b])
  have e: "unat l + ?M * (if l < Nl then 1 else 0) = unat Nl + ?x"
    unfolding c l by (rule wrap_carry(2) [OF b])
  have q: "8 * len = ?x + ?M * ?q"
  proof -
    have "?M = 8 * 2 ^ (LENGTH('a) - 3)" using w power_add [of "2 :: nat" 3 "LENGTH('a) - 3"] by simp
    then have "8 * len div ?M = ?q" using div_mult_mult1 [of 8 len "2 ^ (LENGTH('a) - 3)"] by simp
    then show ?thesis using mod_mult_div_eq [of "8 * len" ?M] by simp
  qed
  have h: "unat h mod ?M = (unat Nh + (if l < Nl then 1 else 0) + ?q) mod ?M"
    unfolding assms(2) by (simp add: unat_word_ariths unat_of_nat mod_simps)
  have "(unat l + ?M * unat h) mod (?M * ?M) =
      (unat l + ?M * (unat Nh + (if l < Nl then 1 else 0) + ?q)) mod (?M * ?M)"
  proof -
    have "?M * unat h mod (?M * ?M) = ?M * (unat Nh + (if l < Nl then 1 else 0) + ?q) mod (?M * ?M)"
      unfolding mult_mod_right [symmetric] h ..
    then show ?thesis by (metis mod_add_right_eq)
  qed
  also have "unat l + ?M * (unat Nh + (if l < Nl then 1 else 0) + ?q) = unat Nl + ?M * unat Nh + 8 * len"
    using e q by (simp add: algebra_simps)
  finally show ?thesis by (simp add: mult_2 flip: power_add)
qed

lemma word_pair_less:
  fixes l h :: "'a :: len word"
  shows "unat l + 2 ^ LENGTH('a) * unat h < 2 ^ (2 * LENGTH('a))"
proof -
  let ?M = "2 ^ LENGTH('a) :: nat"
  have "unat l < ?M" by simp
  moreover have "unat h < ?M" by simp
  then have "unat h + 1 \<le> ?M" by (simp only: Suc_eq_plus1 [symmetric] Suc_le_eq)
  ultimately have "unat l + ?M * unat h < ?M * (unat h + 1)" by simp
  also have "\<dots> \<le> ?M * ?M" using \<open>unat h + 1 \<le> ?M\<close> by (rule mult_le_mono2)
  finally show ?thesis by (simp add: mult_2 power_add)
qed

lemma length_halves:
  fixes Nl Nh :: u32
  assumes "unat Nl + 2 ^ 32 * unat Nh = unat (n :: u64)"
  shows "ucast (drop_bit 32 n) = Nh" "ucast n = Nl"
proof -
  have b: "unat Nl < 2 ^ 32" "unat Nh < 2 ^ 32" using unsigned_less [where w = Nl] unsigned_less [where w = Nh] by simp_all
  have "unat (ucast (drop_bit 32 n) :: u32) = unat n div 2 ^ 32 mod 2 ^ 32"
  proof -
    have "unat n < 2 ^ 64" using unsigned_less [where w = n] by simp
    then show ?thesis
      unfolding unsigned_ucast_eq unsigned_drop_bit_eq by (simp add: take_bit_eq_mod drop_bit_eq_div)
  qed
  also have "\<dots> = unat Nh" unfolding assms [symmetric] using b by simp
  finally show "ucast (drop_bit 32 n) = Nh" by (simp add: word_unat_eq_iff)
  have "unat (ucast n :: u32) = unat n mod 2 ^ 32"
    by (simp add: unsigned_ucast_eq take_bit_eq_mod)
  also have "\<dots> = unat Nl" unfolding assms [symmetric] using b by simp
  finally show "ucast n = Nl" by (simp add: word_unat_eq_iff)
qed

section \<open>Collecting is right\<close>

lemma update_blocks_length [simp]:
  "hash_Nl (hash_update_blocks block c x) = hash_Nl c" "hash_Nh (hash_update_blocks block c x) = hash_Nh c"
  by (simp_all add: hash_update_blocks_def Let_def)

definition zero_ctx :: "'a HASH_CTX_scheme \<Rightarrow> bool" where
  "zero_ctx c \<longleftrightarrow> hash_Nl c = 0 \<and> hash_Nh c = 0 \<and> hash_num c = 0 \<and> hash_data c = replicate 64 0"

lemma hash_rep_init: "zero_ctx c \<Longrightarrow> hash_rep f (hash_h c) c []"
  by (simp add: zero_ctx_def hash_rep_def hash_core_def)

lemma hash_core_lengths:
  "hash_core f h0 (c\<lparr>hash_Nl := l, hash_Nh := h\<rparr>) m = hash_core f h0 c m"
  by (simp add: hash_core_def)

lemma clear_block:
  "length a = 64 \<Longrightarrow> length L = 8 \<Longrightarrow> copy_at (copy_at a 0 (replicate 56 0)) 56 L = replicate 56 0 @ L"
  by (simp add: copy_at_def)

lemma close_block:
  "length t = r \<Longrightarrow> r \<le> 55 \<Longrightarrow> length L = 8 \<Longrightarrow>
    copy_at (copy_at (t @ x # replicate (63 - r) 0) (r + 1) (replicate (55 - r) 0)) 56 L = t @ x # replicate (55 - r) 0 @ L"
proof -
  assume a: "length t = r" "r \<le> 55" "length L = 8"
  then have "56 - r = Suc (55 - r)" by simp
  with a show ?thesis by (simp add: copy_at_def)
qed

context md32
begin

lemma block_one: "length d = 64 \<Longrightarrow> block h d (Suc 0) = f h d"
  using block_eq [of 1 d h] by simp

lemma core_blocks:
  assumes c: "hash_core f h0 c m" and m: "64 dvd length m"
  shows "hash_core f h0 (hash_update_blocks block c x) (m @ x)"
proof -
  let ?n = "length x div 64"
  let ?r = "drop (64 * ?n) x"
  obtain k where k: "length m = 64 * k" using m by (rule dvdE)
  have len: "length (m @ x) = 64 * (k + ?n) + length ?r" "length ?r < 64"
    unfolding tail_length length_append using add_blocks [OF k] div_mod_block [OF block_size, of "length x"] by blast+
  note mo = block_pos [OF len, THEN conjunct1] and di = block_pos [OF len, THEN conjunct2]
  have rest: "drop (64 * (k + ?n)) (m @ x) = ?r" using k by simp
  have h: "(if ?n > 0 then block (hash_h c) x ?n else hash_h c) = foldl f h0 (chunks64 (m @ x))"
  proof -
    have "chunks64 (m @ x) = chunks64 m @ chunks64 (take (64 * ?n) x)"
      unfolding chunks_append [OF block_size k] chunks_split [OF block_size, of x, symmetric] ..
    then show ?thesis using c block_eq [of ?n x "hash_h c"] by (simp add: hash_core_def)
  qed
  have d: "hash_data c = replicate 64 0" "hash_num c = 0" using c k by (simp_all add: hash_core_def)
  have z: "copy_at (replicate 64 0) 0 ?r = ?r @ replicate (64 - length ?r) (0 :: u8)"
    by (simp add: copy_at_def)
  show ?thesis
    unfolding hash_core_def mo di rest hash_update_blocks_def Let_def HASH_CBLOCK_def
    using h d z by (auto simp: mult.commute)
qed

lemma core_update:
  assumes c: "hash_core f h0 c m"
  shows "hash_core f h0 (HASH_UPDATE block c x) (m @ x)"
proof (cases "x = []")
  case True
  then show ?thesis using c by (simp add: HASH_UPDATE_def)
next
  case x: False
  let ?r = "length m mod 64"
  let ?t = "drop (64 * (length m div 64)) m"
  have t: "length ?t = ?r" by (rule tail_length)
  obtain l h where u: "HASH_UPDATE block c x =
      (let c = c\<lparr>hash_Nl := l, hash_Nh := h\<rparr>; n = hash_num c; len = length x
       in if n \<noteq> 0 then
            (if len \<ge> HASH_CBLOCK \<or> (len + n) mod SIZE_MOD \<ge> HASH_CBLOCK then
               (let d = copy_at (hash_data c) n (take (HASH_CBLOCK - n) x);
                    c = c\<lparr>hash_h := block (hash_h c) d 1, hash_num := 0,
                          hash_data := replicate HASH_CBLOCK 0\<rparr>
                in hash_update_blocks block c (drop (HASH_CBLOCK - n) x))
             else c\<lparr>hash_data := copy_at (hash_data c) n x, hash_num := n + len\<rparr>)
          else hash_update_blocks block c x)"
    using x by (simp add: HASH_UPDATE_def Let_def)
  let ?c = "c\<lparr>hash_Nl := l, hash_Nh := h\<rparr>"
  have c': "hash_core f h0 ?c m" using c by (simp add: hash_core_def)
  then have p: "hash_num ?c = ?r" "hash_data ?c = ?t @ replicate (64 - ?r) 0" "hash_h ?c = foldl f h0 (chunks64 m)"
    by (simp_all add: hash_core_def)
  have r: "?r < 64" by simp
  show ?thesis
  proof (cases "?r = 0")
    case True
    then have "64 dvd length m" by (rule dvd_eq_mod_eq_0 [THEN iffD2])
    from core_blocks [OF c' this, of x] show ?thesis unfolding u Let_def p(1) using True by simp
  next
    case rn: False
    have full: "(length x \<ge> HASH_CBLOCK \<or> (length x + ?r) mod SIZE_MOD \<ge> HASH_CBLOCK) \<longleftrightarrow> 64 \<le> length x + ?r"
    proof (cases "64 \<le> length x")
      case False
      then have "length x + ?r < SIZE_MOD" using r by (simp add: SIZE_MOD_def)
      then show ?thesis using False by (simp add: HASH_CBLOCK_def)
    qed (simp add: HASH_CBLOCK_def)
    show ?thesis
    proof (cases "64 \<le> length x + ?r")
      case True
      let ?a = "take (64 - ?r) x"
      have d: "copy_at (hash_data ?c) ?r ?a = ?t @ ?a" "length (?t @ ?a) = 64"
        unfolding p(2) copy_at_def using t r True by simp_all
      have m': "length (m @ ?a) = 64 * (length m div 64 + 1)" 
      proof -
        have "length (m @ ?a) = length m + (64 - ?r)" using True by simp
        then show ?thesis using fill_block div_mod_block [OF block_size, of "length m"] by metis
      qed
      then have dv: "64 dvd length (m @ ?a)" by (rule dvdI)
      have ch: "chunks64 (m @ ?a) = chunks64 m @ [?t @ ?a]"
        unfolding chunks_extend [OF block_size, of m ?a] using d(2) by simp
      let ?c1 = "?c\<lparr>hash_h := block (hash_h ?c) (?t @ ?a) 1, hash_num := 0, hash_data := replicate 64 0\<rparr>"
      have "hash_core f h0 ?c1 (m @ ?a)"
        unfolding hash_core_def ch using block_one [OF d(2)] p(3) m' by simp
      from core_blocks [OF this dv, of "drop (64 - ?r) x"]
      have "hash_core f h0 (hash_update_blocks block ?c1 (drop (64 - ?r) x)) (m @ x)" by simp
      then show ?thesis
        unfolding u Let_def p(1) full d(1)
        using True rn d(1) p(1) by (simp add: HASH_CBLOCK_def)
    next
      case False
      then have e: "length (m @ x) mod 64 = ?r + length x" "length (m @ x) div 64 = length m div 64"
        using block_pos [of "length (m @ x)" 64 "length m div 64" "?r + length x"] div_mod_block [OF block_size, of "length m"]
        unfolding length_append by linarith+
      have "copy_at (hash_data ?c) ?r x = ?t @ x @ replicate (64 - (?r + length x)) 0"
        unfolding p(2) copy_at_def using t False by simp
      moreover have "drop (64 * (length m div 64)) (m @ x) = ?t @ x" by simp
      moreover have "chunks64 (m @ x) = chunks64 m"
        unfolding chunks_extend [OF block_size, of m x] using False t by simp
      ultimately show ?thesis
        unfolding u Let_def p(1) full hash_core_def e using False rn p by simp
    qed
  qed
qed

lemma rep_update:
  assumes "hash_rep f h0 c m"
  shows "hash_rep f h0 (HASH_UPDATE block c x) (m @ x)"
proof -
  let ?c = "HASH_UPDATE block c x"
  have core: "hash_core f h0 ?c (m @ x)" using assms core_update unfolding hash_rep_def by blast
  have n: "unat (hash_Nl c) + 2 ^ 32 * unat (hash_Nh c) = 8 * length m mod 2 ^ 64"
    using assms by (simp add: hash_rep_def)
  have "unat (hash_Nl ?c) + 2 ^ 32 * unat (hash_Nh ?c) = 8 * length (m @ x) mod 2 ^ 64"
  proof (cases "x = []")
    case True
    then show ?thesis using n by (simp add: HASH_UPDATE_def)
  next
    case False
    let ?l = "hash_Nl c + push_bit 3 (of_nat (length x))"
    let ?h = "(if ?l < hash_Nl c then hash_Nh c + 1 else hash_Nh c) + of_nat (length x div 2 ^ 29)"
    have e: "hash_Nl ?c = ?l" "hash_Nh ?c = ?h"
      using False by (simp_all add: HASH_UPDATE_def Let_def)
    have "unat ?l + 2 ^ 32 * unat ?h = (unat ?l + 2 ^ 32 * unat ?h) mod 2 ^ 64"
      using word_pair_less [of ?l ?h] by simp
    also have "\<dots> = (8 * length m mod 2 ^ 64 + 8 * length x) mod 2 ^ 64"
      using bits_add [where l = ?l and h = ?h and Nl = "hash_Nl c" and Nh = "hash_Nh c" and len = "length x"] n by simp
    also have "\<dots> = 8 * length (m @ x) mod 2 ^ 64" by (simp add: mod_simps)
    finally show ?thesis unfolding e .
  qed
  with core show ?thesis by (simp add: hash_rep_def)
qed

lemma rep_updates: "hash_rep f h0 c m \<Longrightarrow> hash_rep f h0 (foldl (HASH_UPDATE block) c xs) (m @ concat xs)"
proof (induction xs arbitrary: c m)
  case (Cons x xs)
  from Cons.IH [OF rep_update [OF Cons.prems]] show ?case by simp
qed simp

lemma final_rep:
  assumes c: "hash_rep f h0 c m"
  shows "HASH_FINAL block big mk c =
    (let c' = c\<lparr>hash_h := foldl f h0 (chunks64 (md_pad big m)), hash_num := 0, hash_data := replicate 64 0\<rparr>
     in (c', mk c'))"
proof -
  let ?r = "length m mod 64"
  let ?t = "drop (64 * (length m div 64)) m"
  have t: "length ?t = ?r" by (rule tail_length)
  have r: "?r < 64" by simp
  have p: "hash_num c = ?r" "hash_data c = ?t @ replicate (64 - ?r) 0" "hash_h c = foldl f h0 (chunks64 m)"
    using c by (simp_all add: hash_rep_def hash_core_def)
  let ?n = "of_nat (8 * length m) :: u64"
  have "unat (hash_Nl c) + 2 ^ 32 * unat (hash_Nh c) = unat ?n"
    using c by (simp add: hash_rep_def unat_of_nat del: of_nat_mult)
  from length_halves [OF this]
  have L: "hash_length_bytes big (hash_Nh c) (hash_Nl c) = md_length big m" by (simp add: md_length_def)
  have Ll: "length (md_length big m) = 8"
    by (simp add: md_length_def hash_length_bytes_def HOST_l2c_be_def HOST_l2c_le_def Let_def)
  have d: "(hash_data c)[?r := 0x80] = ?t @ 0x80 # replicate (63 - ?r) 0"
  proof -
    have "64 - ?r = Suc (63 - ?r)" using r by simp
    then show ?thesis unfolding p(2) using t by (simp only: replicate.simps) (simp add: list_update_append)
  qed
  have pad: "chunks64 (md_pad big m) =
      chunks64 m @ chunks64 (?t @ 0x80 # replicate ((119 - ?r) mod 64) 0 @ md_length big m)"
    unfolding md_pad_def by (rule chunks_extend [OF block_size])
  show ?thesis
  proof (cases "?r + 1 > 56")
    case True
    let ?a = "?t @ 0x80 # replicate (63 - ?r) 0" and ?b = "replicate 56 0 @ md_length big m"
    have l: "length ?a = 64" "length ?b = 64" using t r Ll by simp_all
    have "(119 - ?r) mod 64 = 63 - ?r + 56" using True r by simp
    then have z: "replicate ((119 - ?r) mod 64) 0 = replicate (63 - ?r) (0 :: u8) @ replicate 56 0"
      by (simp only: replicate_add)
    have ch: "chunks64 (md_pad big m) = chunks64 m @ [?a, ?b]"
      unfolding pad z using chunks_Cons [OF block_size l(1), of ?b] chunks_single [OF block_size l(2)] by simp
    have c1: "copy_at ?a (?r + 1) (replicate (64 - (?r + 1)) 0) = ?a"
      unfolding copy_at_def using t r by simp
    have c2: "copy_at (copy_at ?a 0 (replicate (64 - 8 - 0) 0)) (64 - 8) (md_length big m) = ?b"
      using clear_block [OF l(1) Ll] by simp
    show ?thesis
      unfolding HASH_FINAL_def Let_def p(1) HASH_CBLOCK_def d L ch
      using True block_one [OF l(1)] block_one [OF l(2)] p(3) c1 c2 by (simp add: Let_def)
  next
    case False
    let ?a = "?t @ 0x80 # replicate (55 - ?r) 0 @ md_length big m"
    have l: "length ?a = 64" using t False Ll by simp
    have "(119 - ?r) mod 64 = 55 - ?r"
    proof -
      have "119 - ?r = 55 - ?r + 64" "55 - ?r < 64" using False by simp_all
      then show ?thesis by (metis mod_add_self2 mod_less)
    qed
    then have ch: "chunks64 (md_pad big m) = chunks64 m @ [?a]"
      unfolding pad using l by simp
    have c2: "copy_at (copy_at (?t @ 0x80 # replicate (63 - ?r) 0) (?r + 1) (replicate (64 - 8 - (?r + 1)) 0)) (64 - 8)
        (md_length big m) = ?a"
      using close_block [OF t _ Ll, of "0x80"] False by simp
    show ?thesis
      unfolding HASH_FINAL_def Let_def p(1) HASH_CBLOCK_def d L ch
      using False block_one [OF l] p(3) c2 by (simp add: Let_def)
  qed
qed

end

section \<open>Output\<close>

lemma foldl_length:
  "(\<And>h b. length (f h b) = n) \<Longrightarrow> length h0 = n \<Longrightarrow> length (foldl f h0 xs) = n"
  by (induction xs arbitrary: h0) auto

lemma words_of:
  "length h = 4 \<Longrightarrow> concat (map w h) = w (h ! 0) @ w (h ! 1) @ w (h ! 2) @ w (h ! 3)"
  "length h = 5 \<Longrightarrow> concat (map w h) = w (h ! 0) @ w (h ! 1) @ w (h ! 2) @ w (h ! 3) @ w (h ! 4)"
  by (auto simp: eval_nat_numeral length_Suc_conv)

lemma words_upto: "n \<le> length h \<Longrightarrow> concat (map (\<lambda>i. w (h ! i)) [0..<n]) = concat (map w (take n h))"
  by (rule arg_cong [of _ _ concat], rule nth_equalityI) simp_all

text \<open>A relation between contexts and messages that one update keeps is kept by many.\<close>

lemma foldl_rep:
  assumes step: "\<And>c m x. R c m \<Longrightarrow> R (upd c x) (m @ x)" and init: "R c []"
  shows "R (foldl upd c xs) (concat xs)"
proof -
  have "R (foldl upd c xs) (m @ concat xs)" if "R c m" for m
    using that
  proof (induction xs arbitrary: c m)
    case (Cons x xs)
    from Cons.IH [OF step [OF Cons.prems]] show ?case by simp
  qed simp
  from this [OF init] show ?thesis by simp
qed

section \<open>Block functions\<close>

lemma md32_loop:
  assumes loop: "\<And>h d n. block h d (Suc n) = (if n = 0 then g h d else block (g h d) (drop 64 d) n)"
    and one: "\<And>h d. 64 \<le> length d \<Longrightarrow> g h d = f h (take 64 d)"
  shows "md32 block f"
proof
  show "0 < n \<Longrightarrow> 64 * n \<le> length d \<Longrightarrow> block h d n = foldl f h (chunks64 (take (64 * n) d))" for n h d
  proof (induction n arbitrary: h d)
    case (Suc n)
    let ?b = "take 64 d" and ?t = "take (64 * n) (drop 64 d)"
    have b: "length ?b = 64" using Suc.prems by simp
    have s: "take (64 * Suc n) d = ?b @ ?t" by (simp add: take_add)
    have g: "g h d = f h ?b" using one Suc.prems by simp
    show ?case
    proof (cases "n = 0")
      case True
      then show ?thesis using g b by (simp add: loop)
    next
      case False
      then have "block (f h ?b) (drop 64 d) n = foldl f (f h ?b) (chunks64 ?t)"
        using Suc.IH [of "drop 64 d"] Suc.prems by simp
      then show ?thesis unfolding s chunks_Cons [OF block_size b] using g False by (simp add: loop)
    qed
  qed simp
qed

lemma word_of_block:
  assumes "64 \<le> length d" "t < 16"
  shows "HOST_c2l_be (drop (4 * t) (take 64 d)) = HOST_c2l_be (drop (4 * t) d)"
    "HOST_c2l_le (drop (4 * t) (take 64 d)) = HOST_c2l_le (drop (4 * t) d)"
proof -
  have "drop (4 * t) d = drop (4 * t) (take 64 d) @ drop 64 d"
    using assms append_take_drop_id [of 64 d] drop_append [of "4 * t" "take 64 d" "drop 64 d"] by simp
  moreover have "4 \<le> length (drop (4 * t) (take 64 d))" using assms by simp
  ultimately show "HOST_c2l_be (drop (4 * t) (take 64 d)) = HOST_c2l_be (drop (4 * t) d)"
    "HOST_c2l_le (drop (4 * t) (take 64 d)) = HOST_c2l_le (drop (4 * t) d)"
    using HOST_c2l_append by metis+
qed

section \<open>Rounds\<close>

lemma ROTATE_rotl:
  fixes a :: "'a :: len word"
  assumes "n < LENGTH('a)"
  shows "ROTATE a n = word_rotl n a"
proof (rule bit_word_eqI)
  fix k assume k: "k < LENGTH('a)"
  show "bit (ROTATE a n) k = bit (word_rotl n a) k"
  proof (cases "n \<le> k")
    case True
    then have "(k + (LENGTH('a) - n)) mod LENGTH('a) = k - n"
      using assms k by (simp add: mod_if)
    moreover have "\<not> bit a (k + (LENGTH('a) - n))" using True assms by (auto dest: bit_imp_le_length)
    ultimately show ?thesis
      using True assms k by (auto simp: ROTATE_def bit_word_rotl_iff bit_or_iff bit_push_bit_iff bit_drop_bit_eq add.commute)
  next
    case False
    then have "(k + (LENGTH('a) - n)) mod LENGTH('a) = k + (LENGTH('a) - n)" using assms k by simp
    then show ?thesis
      using False assms k by (auto simp: ROTATE_def bit_word_rotl_iff bit_or_iff bit_push_bit_iff bit_drop_bit_eq add.commute)
  qed
qed

lemma ROTATE_rotr:
  fixes a :: "'a :: len word"
  assumes "0 < n" "n < LENGTH('a)"
  shows "ROTATE a n = word_rotr (LENGTH('a) - n) a"
proof (rule bit_word_eqI)
  fix k assume k: "k < LENGTH('a)"
  have "(k + (LENGTH('a) - n)) mod LENGTH('a) = (k + (LENGTH('a) - n mod LENGTH('a))) mod LENGTH('a)"
    using assms by simp
  then show "bit (ROTATE a n) k = bit (word_rotr (LENGTH('a) - n) a) k"
    using k assms by (simp add: ROTATE_rotl bit_word_rotl_iff bit_word_rotr_iff)
qed

text \<open>A message schedule kept in a window of sixteen words: the window holds the last sixteen.\<close>

definition window :: "(nat \<Rightarrow> 'a) \<Rightarrow> nat \<Rightarrow> 'a list \<Rightarrow> bool" where
  "window W i X \<longleftrightarrow> length X = 16 \<and> (\<forall>j. (j < 16 \<or> j < i) \<and> i \<le> j + 16 \<longrightarrow> X ! (j mod 16) = W j)"

lemma window_get: "window W i X \<Longrightarrow> 16 \<le> i \<Longrightarrow> k < 16 \<Longrightarrow> X ! ((i + k) mod 16) = W (i + k - 16)"
proof -
  assume a: "window W i X" "16 \<le> i" "k < 16"
  then have "i + k - 16 < i" "i \<le> i + k - 16 + 16" "(i + k - 16) mod 16 = (i + k) mod 16"
    by (simp_all add: le_mod_geq [symmetric])
  with a(1) show ?thesis unfolding window_def by metis
qed

lemma mod16_differ: "0 < d \<Longrightarrow> d < 16 \<Longrightarrow> j mod 16 \<noteq> (j + d) mod (16 :: nat)"
  using mod_eq_dvd_iff_nat [of j "j + d" 16] by (auto dest: dvd_imp_le)

lemma window_put:
  assumes "window W i X" "16 \<le> i"
  shows "window W (Suc i) (X[i mod 16 := W i])"
proof -
  have "X[i mod 16 := W i] ! (j mod 16) = W j" if j: "j < Suc i" "Suc i \<le> j + 16" for j
  proof (cases "j = i")
    case False
    define d where "d = i - j"
    have d: "i = j + d" "0 < d" "d < 16" using False j by (simp_all add: d_def)
    have "j mod 16 \<noteq> i mod 16" unfolding d(1) using d(2,3) by (rule mod16_differ)
    with False j assms show ?thesis by (simp add: window_def)
  qed (use assms in \<open>simp add: window_def\<close>)
  moreover have "length (X[i mod 16 := W i]) = 16" using assms by (simp add: window_def)
  moreover have "j < Suc i" if "j < 16 \<or> j < Suc i" for j using that assms(2) by auto
  ultimately show ?thesis unfolding window_def by blast
qed

lemma window_keep: "window W i X \<Longrightarrow> i < 16 \<Longrightarrow> window W (Suc i) X"
  by (auto simp: window_def)

end
