(* ===== verification/Sha1.thy ===== *)
theory Sha1
  imports Md32
begin

text \<open>
  SHA-1, \<^verbatim>\<open>crypto/fipsmodule/sha/sha1.c\<close>. The code writes its eighty rounds out: each call of a macro
  \<^verbatim>\<open>BODY_\<dots>\<close> has the registers of the one before moved one place to the right, and the message
  schedule overwrites a window of sixteen words. The reference is the text of FIPS 180-4 with its
  schedule \<open>W\<close> of eighty words; the simulation of the rounds gives the interpretation of the locale
  \<open>md32\<close>.
\<close>

section \<open>The block function\<close>

definition K_00_19 :: u32 where "K_00_19 = 0x5a827999"
definition K_20_39 :: u32 where "K_20_39 = 0x6ed9eba1"
definition K_40_59 :: u32 where "K_40_59 = 0x8f1bbcdc"
definition K_60_79 :: u32 where "K_60_79 = 0xca62c1d6"

definition F_00_19 :: "u32 \<Rightarrow> u32 \<Rightarrow> u32 \<Rightarrow> u32" where
  "F_00_19 b c d = ((c XOR d) AND b) XOR d"

definition F_20_39 :: "u32 \<Rightarrow> u32 \<Rightarrow> u32 \<Rightarrow> u32" where
  "F_20_39 b c d = b XOR c XOR d"

definition F_40_59 :: "u32 \<Rightarrow> u32 \<Rightarrow> u32 \<Rightarrow> u32" where
  "F_40_59 b c d = (b AND c) OR ((b OR c) AND d)"

definition F_60_79 :: "u32 \<Rightarrow> u32 \<Rightarrow> u32 \<Rightarrow> u32" where
  "F_60_79 b c d = F_20_39 b c d"

text \<open>The word that goes both to the register and back into the window.\<close>

definition Xupdate :: "u32 \<Rightarrow> u32 \<Rightarrow> u32 \<Rightarrow> u32 \<Rightarrow> u32" where
  "Xupdate wa wb wc wd = ROTATE (wa XOR wb XOR wc XOR wd) 1"

text \<open>The registers in the order of the macro's arguments.\<close>

type_synonym sha1_regs = "u32 \<times> u32 \<times> u32 \<times> u32 \<times> u32 \<times> u32"

fun BODY_00_15 :: "sha1_regs \<Rightarrow> u32 \<Rightarrow> sha1_regs" where
  "BODY_00_15 (a, b, c, d, e, f) xi =
     (a, ROTATE b 30, c, d, e, xi + e + K_00_19 + ROTATE a 5 + F_00_19 b c d)"

fun BODY_16_19 :: "sha1_regs \<Rightarrow> u32 \<Rightarrow> sha1_regs" where
  "BODY_16_19 (a, b, c, d, e, f) x =
     (a, ROTATE b 30, c, d, e, x + (e + K_00_19 + ROTATE a 5 + F_00_19 b c d))"

fun BODY_20_39 :: "sha1_regs \<Rightarrow> u32 \<Rightarrow> sha1_regs" where
  "BODY_20_39 (a, b, c, d, e, f) x =
     (a, ROTATE b 30, c, d, e, x + (e + K_20_39 + ROTATE a 5 + F_20_39 b c d))"

fun BODY_40_59 :: "sha1_regs \<Rightarrow> u32 \<Rightarrow> sha1_regs" where
  "BODY_40_59 (a, b, c, d, e, f) x =
     (a, ROTATE b 30, c, d, e, x + (e + K_40_59 + ROTATE a 5 + F_40_59 b c d))"

fun BODY_60_79 :: "sha1_regs \<Rightarrow> u32 \<Rightarrow> sha1_regs" where
  "BODY_60_79 (a, b, c, d, e, f) x =
     (a, ROTATE b 30, c, d, e, x + e + K_60_79 + ROTATE a 5 + F_60_79 b c d)"

text \<open>The registers of the next call.\<close>

fun sha1_next :: "sha1_regs \<Rightarrow> sha1_regs" where
  "sha1_next (a, b, c, d, e, f) = (f, a, b, c, d, e)"

definition sha1_step :: "sha1_regs \<times> u32 list \<Rightarrow> nat \<Rightarrow> sha1_regs \<times> u32 list" where
  "sha1_step s i =
     (case s of (r, X) \<Rightarrow>
        if i < 16 then (sha1_next (BODY_00_15 r (X ! i)), X)
        else
          (let x = Xupdate (X ! (i mod 16)) (X ! ((i + 2) mod 16)) (X ! ((i + 8) mod 16)) (X ! ((i + 13) mod 16));
               r = (if i < 20 then BODY_16_19 r x
                    else if i < 40 then BODY_20_39 r x
                    else if i < 60 then BODY_40_59 r x
                    else BODY_60_79 r x)
           in (sha1_next r, X[i mod 16 := x])))"

text \<open>One turn of the loop. The sixth register is written before it is read.\<close>

definition sha1_block :: "u32 list \<Rightarrow> u8 list \<Rightarrow> u32 list" where
  "sha1_block state data =
     (let X = map (\<lambda>i. HOST_c2l_be (drop (4 * i) data)) [0..<16]
      in case foldl sha1_step ((state ! 0, state ! 1, state ! 2, state ! 3, state ! 4, 0), X) [0..<80] of
           ((e, t, a, b, c, d), _) \<Rightarrow>
             [state ! 0 + e, state ! 1 + t, state ! 2 + a, state ! 3 + b, state ! 4 + c])"

text \<open>The loop tests its counter at the end, and is entered with at least one block.\<close>

fun sha1_block_data_order :: "u32 list \<Rightarrow> u8 list \<Rightarrow> nat \<Rightarrow> u32 list" where
  "sha1_block_data_order state data (Suc n) =
     (let state = sha1_block state data
      in if n = 0 then state else sha1_block_data_order state (drop 64 data) n)"

section \<open>The digest\<close>

definition SHA1_Init :: HASH_CTX where
  "SHA1_Init =
     \<lparr>hash_h = [0x67452301, 0xefcdab89, 0x98badcfe, 0x10325476, 0xc3d2e1f0],
      hash_Nl = 0, hash_Nh = 0, hash_data = replicate 64 0, hash_num = 0\<rparr>"

definition SHA1_Update :: "HASH_CTX \<Rightarrow> u8 list \<Rightarrow> HASH_CTX" where
  "SHA1_Update = HASH_UPDATE sha1_block_data_order"

definition sha1_make_string :: "HASH_CTX \<Rightarrow> u8 list option" where
  "sha1_make_string c =
     Some (HOST_l2c_be (hash_h c ! 0) @ HOST_l2c_be (hash_h c ! 1) @ HOST_l2c_be (hash_h c ! 2) @
           HOST_l2c_be (hash_h c ! 3) @ HOST_l2c_be (hash_h c ! 4))"

definition SHA1_Final :: "HASH_CTX \<Rightarrow> HASH_CTX \<times> u8 list option" where
  "SHA1_Final = HASH_FINAL sha1_block_data_order True sha1_make_string"

definition SHA1_Transform :: "HASH_CTX \<Rightarrow> u8 list \<Rightarrow> HASH_CTX" where
  "SHA1_Transform = HASH_TRANSFORM sha1_block_data_order"

definition SHA1 :: "u8 list \<Rightarrow> u8 list option" where
  "SHA1 data = snd (SHA1_Final (SHA1_Update SHA1_Init data))"

section \<open>FIPS 180-4\<close>

fun sha1_W :: "u8 list \<Rightarrow> nat \<Rightarrow> u32" where
  "sha1_W blk t =
     (if t < 16 then HOST_c2l_be (drop (4 * t) blk)
      else word_rotl 1 (sha1_W blk (t - 3) XOR sha1_W blk (t - 8) XOR sha1_W blk (t - 14) XOR sha1_W blk (t - 16)))"

declare sha1_W.simps [simp del]

definition sha1_f :: "nat \<Rightarrow> u32 \<Rightarrow> u32 \<Rightarrow> u32 \<Rightarrow> u32" where
  "sha1_f t x y z =
     (if t < 20 then (x AND y) XOR (NOT x AND z)
      else if 40 \<le> t \<and> t < 60 then (x AND y) XOR (x AND z) XOR (y AND z)
      else x XOR y XOR z)"

definition sha1_K :: "nat \<Rightarrow> u32" where
  "sha1_K t = (if t < 20 then 0x5a827999 else if t < 40 then 0x6ed9eba1 else if t < 60 then 0x8f1bbcdc else 0xca62c1d6)"

definition sha1_round ::
    "u8 list \<Rightarrow> u32 \<times> u32 \<times> u32 \<times> u32 \<times> u32 \<Rightarrow> nat \<Rightarrow> u32 \<times> u32 \<times> u32 \<times> u32 \<times> u32" where
  "sha1_round blk s t =
     (case s of (a, b, c, d, e) \<Rightarrow>
        (word_rotl 5 a + sha1_f t b c d + e + sha1_K t + sha1_W blk t, a, word_rotl 30 b, c, d))"

definition sha1_compress :: "u32 list \<Rightarrow> u8 list \<Rightarrow> u32 list" where
  "sha1_compress h blk =
     (case foldl (sha1_round blk) (h ! 0, h ! 1, h ! 2, h ! 3, h ! 4) [0..<80] of
        (a, b, c, d, e) \<Rightarrow> [a + h ! 0, b + h ! 1, c + h ! 2, d + h ! 3, e + h ! 4])"

definition sha1_digest :: "u8 list \<Rightarrow> u8 list" where
  "sha1_digest m = concat (map HOST_l2c_be (foldl sha1_compress (hash_h SHA1_Init) (chunks64 (md_pad True m))))"

section \<open>The rounds agree\<close>

lemma F_choose: "F_00_19 b c d = (b AND c) XOR (NOT b AND d)"
  unfolding F_00_19_def by (intro bit_word_eqI) (auto simp: bit_simps)

lemma F_majority: "F_40_59 b c d = (b AND c) XOR (b AND d) XOR (c AND d)"
  unfolding F_40_59_def by (intro bit_word_eqI) (auto simp: bit_simps)

lemma Xupdate_W:
  assumes "16 \<le> t"
  shows "Xupdate (sha1_W blk (t - 16)) (sha1_W blk (t - 14)) (sha1_W blk (t - 8)) (sha1_W blk (t - 3)) = sha1_W blk t"
  using assms unfolding Xupdate_def sha1_W.simps [of blk t]
  by (simp add: ROTATE_rotl xor.commute xor.left_commute xor.assoc)

definition sha1_sim ::
    "u8 list \<Rightarrow> nat \<Rightarrow> sha1_regs \<times> u32 list \<Rightarrow> u32 \<times> u32 \<times> u32 \<times> u32 \<times> u32 \<Rightarrow> bool" where
  "sha1_sim blk i s r \<longleftrightarrow>
     (case s of ((a, b, c, d, e, f), X) \<Rightarrow> r = (a, b, c, d, e) \<and> window (sha1_W blk) i X)"

lemma sha1_step_sim:
  assumes s: "sha1_sim blk i s r" and i: "i < 80"
  shows "sha1_sim blk (Suc i) (sha1_step s i) (sha1_round blk r i)"
proof -
  obtain a b c d e f X where e: "s = ((a, b, c, d, e, f), X)" "r = (a, b, c, d, e)" and w: "window (sha1_W blk) i X"
    using s by (auto simp: sha1_sim_def)
  show ?thesis
  proof (cases "i < 16")
    case True
    have "X ! i = sha1_W blk i" using w True by (simp add: window_def)
    then show ?thesis
      using True window_keep [OF w True]
      by (simp add: e sha1_sim_def sha1_step_def sha1_round_def sha1_f_def sha1_K_def K_00_19_def ROTATE_rotl F_choose)
  next
    case False
    then have i16: "16 \<le> i" by simp
    let ?x = "Xupdate (X ! (i mod 16)) (X ! ((i + 2) mod 16)) (X ! ((i + 8) mod 16)) (X ! ((i + 13) mod 16))"
    have x: "?x = sha1_W blk i"
      using window_get [OF w i16, of 0] window_get [OF w i16, of 2] window_get [OF w i16, of 8]
        window_get [OF w i16, of 13] Xupdate_W [OF i16, of blk] i16 by simp
    note K = K_00_19_def K_20_39_def K_40_59_def K_60_79_def
    note F = F_choose F_majority F_20_39_def F_60_79_def
    show ?thesis
      unfolding sha1_step_def e prod.case x Let_def
      using False i window_put [OF w i16]
      by (simp add: sha1_sim_def sha1_round_def sha1_f_def sha1_K_def K F ROTATE_rotl xor.assoc)
  qed
qed

lemma sha1_fold_sim:
  "sha1_sim blk 0 s r \<Longrightarrow> n \<le> 80 \<Longrightarrow>
    sha1_sim blk n (foldl sha1_step s [0..<n]) (foldl (sha1_round blk) r [0..<n])"
  by (induction n) (simp_all add: sha1_step_sim)

lemma sha1_block_compress: "sha1_block h blk = sha1_compress h blk"
proof -
  let ?X = "map (\<lambda>i. HOST_c2l_be (drop (4 * i) blk)) [0..<16]"
  let ?s = "((h ! 0, h ! 1, h ! 2, h ! 3, h ! 4, 0), ?X)" and ?r = "(h ! 0, h ! 1, h ! 2, h ! 3, h ! 4)"
  have "window (sha1_W blk) 0 ?X"
    by (auto simp: window_def sha1_W.simps del: upt.simps)
  then have "sha1_sim blk 0 ?s ?r" by (simp add: sha1_sim_def)
  from sha1_fold_sim [OF this order_refl] show ?thesis
    unfolding sha1_block_def sha1_compress_def Let_def
    by (auto simp: sha1_sim_def add.commute simp del: upt.simps upt_conv_Cons split: prod.splits)
qed

lemma sha1_compress_take:
  assumes "64 \<le> length d"
  shows "sha1_compress h (take 64 d) = sha1_compress h d"
proof -
  have "sha1_W (take 64 d) t = sha1_W d t" for t
  proof (induction t rule: less_induct)
    case (less t)
    with word_of_block(1) [OF assms, of t] show ?case by (simp add: sha1_W.simps [of _ t])
  qed
  then show ?thesis by (simp add: sha1_compress_def sha1_round_def [abs_def])
qed

interpretation sha1: md32 sha1_block_data_order sha1_compress
  by (rule md32_loop [where g = sha1_block]) (simp_all add: sha1_block_compress sha1_compress_take)

section \<open>The digest is that of FIPS 180-4\<close>

abbreviation sha1_rep :: "HASH_CTX \<Rightarrow> u8 list \<Rightarrow> bool" where
  "sha1_rep \<equiv> hash_rep sha1_compress (hash_h SHA1_Init)"

lemma sha1_init_rep: "sha1_rep SHA1_Init []"
  by (rule hash_rep_init) (simp add: zero_ctx_def SHA1_Init_def)

lemma sha1_update_rep: "sha1_rep c m \<Longrightarrow> sha1_rep (SHA1_Update c x) (m @ x)"
  unfolding SHA1_Update_def by (rule sha1.rep_update)

lemma sha1_final_rep: "sha1_rep c m \<Longrightarrow> snd (SHA1_Final c) = Some (sha1_digest m)"
proof -
  assume c: "sha1_rep c m"
  let ?h = "foldl sha1_compress (hash_h SHA1_Init) (chunks64 (md_pad True m))"
  have "length ?h = 5"
    by (rule foldl_length) (simp_all add: sha1_compress_def SHA1_Init_def split: prod.splits)
  from words_of(2) [OF this, of HOST_l2c_be] show ?thesis
    unfolding SHA1_Final_def sha1.final_rep [OF c] Let_def by (simp add: sha1_make_string_def sha1_digest_def)
qed

end
