(* ===== verification/Sha256.thy ===== *)
theory Sha256
  imports Md32
begin

text \<open>
  SHA-256 and SHA-224, \<^verbatim>\<open>crypto/fipsmodule/sha/sha256.c\<close>, modelled like SHA-1: the rounds are written
  out with the registers of each call moved one place, and the schedule is kept in sixteen words.
  \<^verbatim>\<open>Sigma0\<close> to \<^verbatim>\<open>sigma1\<close> are left rotations in the code and right rotations in FIPS 180-4.
\<close>

section \<open>The block function\<close>

text \<open>The table, in the rows of the source.\<close>

definition K256 :: "u32 list" where
  "K256 = concat
     [[0x428a2f98, 0x71374491, 0xb5c0fbcf, 0xe9b5dba5, 0x3956c25b],
      [0x59f111f1, 0x923f82a4, 0xab1c5ed5, 0xd807aa98, 0x12835b01],
      [0x243185be, 0x550c7dc3, 0x72be5d74, 0x80deb1fe, 0x9bdc06a7],
      [0xc19bf174, 0xe49b69c1, 0xefbe4786, 0x0fc19dc6, 0x240ca1cc],
      [0x2de92c6f, 0x4a7484aa, 0x5cb0a9dc, 0x76f988da, 0x983e5152],
      [0xa831c66d, 0xb00327c8, 0xbf597fc7, 0xc6e00bf3, 0xd5a79147],
      [0x06ca6351, 0x14292967, 0x27b70a85, 0x2e1b2138, 0x4d2c6dfc],
      [0x53380d13, 0x650a7354, 0x766a0abb, 0x81c2c92e, 0x92722c85],
      [0xa2bfe8a1, 0xa81a664b, 0xc24b8b70, 0xc76c51a3, 0xd192e819],
      [0xd6990624, 0xf40e3585, 0x106aa070, 0x19a4c116, 0x1e376c08],
      [0x2748774c, 0x34b0bcb5, 0x391c0cb3, 0x4ed8aa4a, 0x5b9cca4f],
      [0x682e6ff3, 0x748f82ee, 0x78a5636f, 0x84c87814, 0x8cc70208],
      [0x90befffa, 0xa4506ceb, 0xbef9a3f7, 0xc67178f2]]"

definition Sigma0 :: "u32 \<Rightarrow> u32" where
  "Sigma0 x = ROTATE x 30 XOR ROTATE x 19 XOR ROTATE x 10"

definition Sigma1 :: "u32 \<Rightarrow> u32" where
  "Sigma1 x = ROTATE x 26 XOR ROTATE x 21 XOR ROTATE x 7"

definition sigma0 :: "u32 \<Rightarrow> u32" where
  "sigma0 x = ROTATE x 25 XOR ROTATE x 14 XOR drop_bit 3 x"

definition sigma1 :: "u32 \<Rightarrow> u32" where
  "sigma1 x = ROTATE x 15 XOR ROTATE x 13 XOR drop_bit 10 x"

definition Ch :: "'a :: len word \<Rightarrow> 'a word \<Rightarrow> 'a word \<Rightarrow> 'a word" where
  "Ch x y z = (x AND y) XOR (NOT x AND z)"

definition Maj :: "'a :: len word \<Rightarrow> 'a word \<Rightarrow> 'a word \<Rightarrow> 'a word" where
  "Maj x y z = (x AND y) XOR (x AND z) XOR (y AND z)"

type_synonym sha256_regs = "u32 \<times> u32 \<times> u32 \<times> u32 \<times> u32 \<times> u32 \<times> u32 \<times> u32"

fun ROUND_00_15 :: "nat \<Rightarrow> u32 \<Rightarrow> sha256_regs \<Rightarrow> sha256_regs" where
  "ROUND_00_15 i T1 (a, b, c, d, e, f, g, h) =
     (let T1 = T1 + (h + Sigma1 e + Ch e f g + K256 ! i);
          h = Sigma0 a + Maj a b c;
          d = d + T1;
          h = h + T1
      in (a, b, c, d, e, f, g, h))"

fun sha256_next :: "sha256_regs \<Rightarrow> sha256_regs" where
  "sha256_next (a, b, c, d, e, f, g, h) = (h, a, b, c, d, e, f, g)"

definition sha256_step :: "sha256_regs \<times> u32 list \<Rightarrow> nat \<Rightarrow> sha256_regs \<times> u32 list" where
  "sha256_step s i =
     (case s of (r, X) \<Rightarrow>
        if i < 16 then (sha256_next (ROUND_00_15 i (X ! i) r), X)
        else
          (let s0 = sigma0 (X ! ((i + 1) mod 16));
               s1 = sigma1 (X ! ((i + 14) mod 16));
               T1 = X ! (i mod 16) + (s0 + s1 + X ! ((i + 9) mod 16))
           in (sha256_next (ROUND_00_15 i T1 r), X[i mod 16 := T1])))"

definition sha256_block :: "u32 list \<Rightarrow> u8 list \<Rightarrow> u32 list" where
  "sha256_block st data =
     (let X = map (\<lambda>i. HOST_c2l_be (drop (4 * i) data)) [0..<16]
      in case foldl sha256_step ((st ! 0, st ! 1, st ! 2, st ! 3, st ! 4, st ! 5, st ! 6, st ! 7), X) [0..<64] of
           ((a, b, c, d, e, f, g, h), _) \<Rightarrow>
             [st ! 0 + a, st ! 1 + b, st ! 2 + c, st ! 3 + d, st ! 4 + e, st ! 5 + f, st ! 6 + g, st ! 7 + h])"

fun sha256_block_data_order :: "u32 list \<Rightarrow> u8 list \<Rightarrow> nat \<Rightarrow> u32 list" where
  "sha256_block_data_order state data 0 = state"
| "sha256_block_data_order state data (Suc n) = sha256_block_data_order (sha256_block state data) (drop 64 data) n"

definition SHA256_TransformBlocks :: "u32 list \<Rightarrow> u8 list \<Rightarrow> nat \<Rightarrow> u32 list" where
  "SHA256_TransformBlocks state data num_blocks = sha256_block_data_order state data num_blocks"

section \<open>The digests\<close>

record SHA256_CTX = HASH_CTX +
  sha_md_len :: nat

definition SHA224_DIGEST_LENGTH :: nat where "SHA224_DIGEST_LENGTH = 28"
definition SHA256_DIGEST_LENGTH :: nat where "SHA256_DIGEST_LENGTH = 32"

definition SHA224_Init :: SHA256_CTX where
  "SHA224_Init =
     \<lparr>hash_h = [0xc1059ed8, 0x367cd507, 0x3070dd17, 0xf70e5939, 0xffc00b31, 0x68581511, 0x64f98fa7, 0xbefa4fa4],
      hash_Nl = 0, hash_Nh = 0, hash_data = replicate 64 0, hash_num = 0, sha_md_len = SHA224_DIGEST_LENGTH\<rparr>"

definition SHA256_Init :: SHA256_CTX where
  "SHA256_Init =
     \<lparr>hash_h = [0x6a09e667, 0xbb67ae85, 0x3c6ef372, 0xa54ff53a, 0x510e527f, 0x9b05688c, 0x1f83d9ab, 0x5be0cd19],
      hash_Nl = 0, hash_Nh = 0, hash_data = replicate 64 0, hash_num = 0, sha_md_len = SHA256_DIGEST_LENGTH\<rparr>"

definition sha256_words :: "SHA256_CTX \<Rightarrow> nat \<Rightarrow> u8 list" where
  "sha256_words c n = concat (map (\<lambda>nn. HOST_l2c_be (hash_h c ! nn)) [0..<n])"

definition sha256_make_string :: "SHA256_CTX \<Rightarrow> u8 list option" where
  "sha256_make_string c =
     (if sha_md_len c = SHA224_DIGEST_LENGTH then Some (sha256_words c (SHA224_DIGEST_LENGTH div 4))
      else if sha_md_len c = SHA256_DIGEST_LENGTH then Some (sha256_words c (SHA256_DIGEST_LENGTH div 4))
      else if sha_md_len c > SHA256_DIGEST_LENGTH then None
      else Some (sha256_words c (sha_md_len c div 4)))"

definition SHA256_Update :: "SHA256_CTX \<Rightarrow> u8 list \<Rightarrow> SHA256_CTX" where
  "SHA256_Update = HASH_UPDATE sha256_block_data_order"

definition SHA256_Transform :: "SHA256_CTX \<Rightarrow> u8 list \<Rightarrow> SHA256_CTX" where
  "SHA256_Transform = HASH_TRANSFORM sha256_block_data_order"

definition SHA256_Final :: "SHA256_CTX \<Rightarrow> SHA256_CTX \<times> u8 list option" where
  "SHA256_Final = HASH_FINAL sha256_block_data_order True sha256_make_string"

definition SHA224_Update :: "SHA256_CTX \<Rightarrow> u8 list \<Rightarrow> SHA256_CTX" where
  "SHA224_Update = SHA256_Update"

definition SHA224_Final :: "SHA256_CTX \<Rightarrow> SHA256_CTX \<times> u8 list option" where
  "SHA224_Final = SHA256_Final"

definition SHA224 :: "u8 list \<Rightarrow> u8 list option" where
  "SHA224 data = snd (SHA224_Final (SHA224_Update SHA224_Init data))"

definition SHA256 :: "u8 list \<Rightarrow> u8 list option" where
  "SHA256 data = snd (SHA256_Final (SHA256_Update SHA256_Init data))"

section \<open>FIPS 180-4\<close>

fun sha256_W :: "u8 list \<Rightarrow> nat \<Rightarrow> u32" where
  "sha256_W blk t =
     (if t < 16 then HOST_c2l_be (drop (4 * t) blk)
      else
        (let x = sha256_W blk (t - 2); y = sha256_W blk (t - 15)
         in (word_rotr 17 x XOR word_rotr 19 x XOR drop_bit 10 x) + sha256_W blk (t - 7) +
            (word_rotr 7 y XOR word_rotr 18 y XOR drop_bit 3 y) + sha256_W blk (t - 16)))"

declare sha256_W.simps [simp del]

definition sha256_round :: "u8 list \<Rightarrow> sha256_regs \<Rightarrow> nat \<Rightarrow> sha256_regs" where
  "sha256_round blk s t =
     (case s of (a, b, c, d, e, f, g, h) \<Rightarrow>
        (let T1 = h + (word_rotr 6 e XOR word_rotr 11 e XOR word_rotr 25 e) + Ch e f g + K256 ! t + sha256_W blk t;
             T2 = (word_rotr 2 a XOR word_rotr 13 a XOR word_rotr 22 a) + Maj a b c
         in (T1 + T2, a, b, c, d + T1, e, f, g)))"

definition sha256_compress :: "u32 list \<Rightarrow> u8 list \<Rightarrow> u32 list" where
  "sha256_compress st blk =
     (case foldl (sha256_round blk) (st ! 0, st ! 1, st ! 2, st ! 3, st ! 4, st ! 5, st ! 6, st ! 7) [0..<64] of
        (a, b, c, d, e, f, g, h) \<Rightarrow>
          [a + st ! 0, b + st ! 1, c + st ! 2, d + st ! 3, e + st ! 4, f + st ! 5, g + st ! 6, h + st ! 7])"

definition sha256_digest :: "u8 list \<Rightarrow> u8 list" where
  "sha256_digest m = concat (map HOST_l2c_be (foldl sha256_compress (hash_h SHA256_Init) (chunks64 (md_pad True m))))"

definition sha224_digest :: "u8 list \<Rightarrow> u8 list" where
  "sha224_digest m =
     concat (map HOST_l2c_be (take 7 (foldl sha256_compress (hash_h SHA224_Init) (chunks64 (md_pad True m)))))"

section \<open>The rounds agree\<close>

lemma Sigma_rotr:
  "Sigma0 x = word_rotr 2 x XOR word_rotr 13 x XOR word_rotr 22 x"
  "Sigma1 x = word_rotr 6 x XOR word_rotr 11 x XOR word_rotr 25 x"
  "sigma0 x = word_rotr 7 x XOR word_rotr 18 x XOR drop_bit 3 x"
  "sigma1 x = word_rotr 17 x XOR word_rotr 19 x XOR drop_bit 10 x"
  by (simp_all add: Sigma0_def Sigma1_def sigma0_def sigma1_def ROTATE_rotr)

definition sha256_sim :: "u8 list \<Rightarrow> nat \<Rightarrow> sha256_regs \<times> u32 list \<Rightarrow> sha256_regs \<Rightarrow> bool" where
  "sha256_sim blk i s r \<longleftrightarrow> fst s = r \<and> window (sha256_W blk) i (snd s)"

lemma sha256_step_sim:
  assumes s: "sha256_sim blk i s r"
  shows "sha256_sim blk (Suc i) (sha256_step s i) (sha256_round blk r i)"
proof -
  obtain a b c d e f g h X where e: "s = ((a, b, c, d, e, f, g, h), X)" "r = (a, b, c, d, e, f, g, h)"
    and w: "window (sha256_W blk) i X"
    using s by (cases s; cases r) (auto simp: sha256_sim_def)
  show ?thesis
  proof (cases "i < 16")
    case True
    have "X ! i = sha256_W blk i" using w True by (simp add: window_def)
    then show ?thesis
      using True window_keep [OF w True]
      by (simp add: e sha256_sim_def sha256_step_def sha256_round_def Sigma_rotr Let_def ac_simps)
  next
    case False
    then have i16: "16 \<le> i" by simp
    let ?T = "X ! (i mod 16) + (sigma0 (X ! ((i + 1) mod 16)) + sigma1 (X ! ((i + 14) mod 16)) + X ! ((i + 9) mod 16))"
    have x: "?T = sha256_W blk i"
      using window_get [OF w i16, of 0] window_get [OF w i16, of 1] window_get [OF w i16, of 14]
        window_get [OF w i16, of 9] i16
      by (simp add: sha256_W.simps [of blk i] Sigma_rotr Let_def ac_simps numeral_2_eq_2)
    show ?thesis
      unfolding sha256_step_def e prod.case Let_def x
      using False window_put [OF w i16]
      by (simp add: sha256_sim_def sha256_round_def Sigma_rotr Let_def ac_simps)
  qed
qed

lemma sha256_fold_sim:
  "sha256_sim blk 0 s r \<Longrightarrow> sha256_sim blk n (foldl sha256_step s [0..<n]) (foldl (sha256_round blk) r [0..<n])"
  by (induction n) (simp_all add: sha256_step_sim)

lemma sha256_block_compress: "sha256_block st blk = sha256_compress st blk"
proof -
  let ?X = "map (\<lambda>i. HOST_c2l_be (drop (4 * i) blk)) [0..<16]"
  let ?r = "(st ! 0, st ! 1, st ! 2, st ! 3, st ! 4, st ! 5, st ! 6, st ! 7)"
  have "window (sha256_W blk) 0 ?X"
    by (auto simp: window_def sha256_W.simps del: upt.simps)
  then have "sha256_sim blk 0 (?r, ?X) ?r" by (simp add: sha256_sim_def)
  from sha256_fold_sim [OF this, of 64] show ?thesis
    unfolding sha256_block_def sha256_compress_def Let_def
    by (auto simp: sha256_sim_def add.commute simp del: upt.simps upt_conv_Cons split: prod.splits)
qed

lemma sha256_compress_take:
  assumes "64 \<le> length d"
  shows "sha256_compress st (take 64 d) = sha256_compress st d"
proof -
  have "sha256_W (take 64 d) t = sha256_W d t" for t
  proof (induction t rule: less_induct)
    case (less t)
    with word_of_block(1) [OF assms, of t] show ?case by (simp add: sha256_W.simps [of _ t])
  qed
  then show ?thesis by (simp add: sha256_compress_def sha256_round_def [abs_def])
qed

interpretation sha256: md32 sha256_block_data_order sha256_compress
  by (rule md32_loop [where g = sha256_block]) (simp_all add: sha256_block_compress sha256_compress_take)

section \<open>The digests are those of FIPS 180-4\<close>

lemma hash_update_more: "HASH_CTX.more (HASH_UPDATE block c x) = HASH_CTX.more c"
  by (simp add: HASH_UPDATE_def hash_update_blocks_def Let_def)

lemma sha256_update_md_len [simp]: "sha_md_len (SHA256_Update c x) = sha_md_len c"
  by (simp add: SHA256_Update_def HASH_UPDATE_def hash_update_blocks_def Let_def)

abbreviation sha256_rep :: "SHA256_CTX \<Rightarrow> SHA256_CTX \<Rightarrow> u8 list \<Rightarrow> bool" where
  "sha256_rep c0 c m \<equiv> hash_rep sha256_compress (hash_h c0) c m \<and> sha_md_len c = sha_md_len c0"

lemma sha256_init_rep: "sha256_rep SHA256_Init SHA256_Init []" "sha256_rep SHA224_Init SHA224_Init []"
  by (rule conjI [OF hash_rep_init refl], simp add: zero_ctx_def SHA256_Init_def SHA224_Init_def)+

lemma sha256_update_rep: "sha256_rep c0 c m \<Longrightarrow> sha256_rep c0 (SHA256_Update c x) (m @ x)"
  using sha256.rep_update [of "hash_h c0" c m x] by (simp flip: SHA256_Update_def)

lemma sha256_state_length:
  "length (hash_h c0) = 8 \<Longrightarrow> length (foldl sha256_compress (hash_h c0) xs) = 8"
  by (rule foldl_length) (simp_all add: sha256_compress_def split: prod.splits)

lemma sha256_final_rep:
  "sha256_rep SHA256_Init c m \<Longrightarrow> snd (SHA256_Final c) = Some (sha256_digest m)"
  "sha256_rep SHA224_Init c m \<Longrightarrow> snd (SHA224_Final c) = Some (sha224_digest m)"
proof -
  assume c: "sha256_rep SHA256_Init c m"
  let ?h = "foldl sha256_compress (hash_h SHA256_Init) (chunks64 (md_pad True m))"
  have h: "length ?h = 8" by (rule sha256_state_length) (simp add: SHA256_Init_def)
  have "sha_md_len c = 32" using c by (simp add: SHA256_Init_def SHA256_DIGEST_LENGTH_def)
  then show "snd (SHA256_Final c) = Some (sha256_digest m)"
    unfolding SHA256_Final_def sha256.final_rep [OF conjunct1 [OF c]] Let_def
    using words_upto [of 8 ?h HOST_l2c_be] h
    by (simp add: sha256_make_string_def sha256_digest_def SHA224_DIGEST_LENGTH_def SHA256_DIGEST_LENGTH_def
        sha256_words_def del: upt.simps upt_conv_Cons)
next
  assume c: "sha256_rep SHA224_Init c m"
  let ?h = "foldl sha256_compress (hash_h SHA224_Init) (chunks64 (md_pad True m))"
  have h: "length ?h = 8" by (rule sha256_state_length) (simp add: SHA224_Init_def)
  have "sha_md_len c = 28" using c by (simp add: SHA224_Init_def SHA224_DIGEST_LENGTH_def)
  then show "snd (SHA224_Final c) = Some (sha224_digest m)"
    unfolding SHA224_Final_def SHA256_Final_def sha256.final_rep [OF conjunct1 [OF c]] Let_def
    using words_upto [of 7 ?h HOST_l2c_be] h
    by (simp add: sha256_make_string_def sha224_digest_def SHA224_DIGEST_LENGTH_def SHA256_DIGEST_LENGTH_def
        sha256_words_def del: upt.simps upt_conv_Cons)
qed

end
