(* ===== verification/Sha512.thy ===== *)
theory Sha512
  imports Sha256
begin

text \<open>
  SHA-512 and SHA-384, \<^verbatim>\<open>crypto/fipsmodule/sha/sha512.c\<close>, with their own collector for blocks of 128
  bytes and a length of 128 bits; the buffer is not cleared when it has been used. The block function
  is the one for machines with many registers.
\<close>

section \<open>The block function\<close>

definition K512 :: "u64 list" where
  "K512 = concat
     [[0x428a2f98d728ae22, 0x7137449123ef65cd], [0xb5c0fbcfec4d3b2f, 0xe9b5dba58189dbbc],
      [0x3956c25bf348b538, 0x59f111f1b605d019], [0x923f82a4af194f9b, 0xab1c5ed5da6d8118],
      [0xd807aa98a3030242, 0x12835b0145706fbe], [0x243185be4ee4b28c, 0x550c7dc3d5ffb4e2],
      [0x72be5d74f27b896f, 0x80deb1fe3b1696b1], [0x9bdc06a725c71235, 0xc19bf174cf692694],
      [0xe49b69c19ef14ad2, 0xefbe4786384f25e3], [0x0fc19dc68b8cd5b5, 0x240ca1cc77ac9c65],
      [0x2de92c6f592b0275, 0x4a7484aa6ea6e483], [0x5cb0a9dcbd41fbd4, 0x76f988da831153b5],
      [0x983e5152ee66dfab, 0xa831c66d2db43210], [0xb00327c898fb213f, 0xbf597fc7beef0ee4],
      [0xc6e00bf33da88fc2, 0xd5a79147930aa725], [0x06ca6351e003826f, 0x142929670a0e6e70],
      [0x27b70a8546d22ffc, 0x2e1b21385c26c926], [0x4d2c6dfc5ac42aed, 0x53380d139d95b3df],
      [0x650a73548baf63de, 0x766a0abb3c77b2a8], [0x81c2c92e47edaee6, 0x92722c851482353b],
      [0xa2bfe8a14cf10364, 0xa81a664bbc423001], [0xc24b8b70d0f89791, 0xc76c51a30654be30],
      [0xd192e819d6ef5218, 0xd69906245565a910], [0xf40e35855771202a, 0x106aa07032bbd1b8],
      [0x19a4c116b8d2d0c8, 0x1e376c085141ab53], [0x2748774cdf8eeb99, 0x34b0bcb5e19b48a8],
      [0x391c0cb3c5c95a63, 0x4ed8aa4ae3418acb], [0x5b9cca4f7763e373, 0x682e6ff3d6b2b8a3],
      [0x748f82ee5defb2fc, 0x78a5636f43172f60], [0x84c87814a1f0ab72, 0x8cc702081a6439ec],
      [0x90befffa23631e28, 0xa4506cebde82bde9], [0xbef9a3f7b2c67915, 0xc67178f2e372532b],
      [0xca273eceea26619c, 0xd186b8c721c0c207], [0xeada7dd6cde0eb1e, 0xf57d4f7fee6ed178],
      [0x06f067aa72176fba, 0x0a637dc5a2c898a6], [0x113f9804bef90dae, 0x1b710b35131c471b],
      [0x28db77f523047d84, 0x32caab7b40c72493], [0x3c9ebe0a15c9bebc, 0x431d67c49c100d4c],
      [0x4cc5d4becb3e42b6, 0x597f299cfc657e2a], [0x5fcb6fab3ad6faec, 0x6c44198c4a475817]]"

definition ROTR :: "u64 \<Rightarrow> nat \<Rightarrow> u64" where
  "ROTR x s = drop_bit s x OR push_bit (64 - s) x"

fun load_u64_be :: "u8 list \<Rightarrow> u64" where
  "load_u64_be (c0 # c1 # c2 # c3 # c4 # c5 # c6 # c7 # _) =
     push_bit 56 (ucast c0) OR push_bit 48 (ucast c1) OR push_bit 40 (ucast c2) OR push_bit 32 (ucast c3) OR
     push_bit 24 (ucast c4) OR push_bit 16 (ucast c5) OR push_bit 8 (ucast c6) OR ucast c7"
| "load_u64_be _ = 0"

definition Sigma0_512 :: "u64 \<Rightarrow> u64" where
  "Sigma0_512 x = ROTR x 28 XOR ROTR x 34 XOR ROTR x 39"

definition Sigma1_512 :: "u64 \<Rightarrow> u64" where
  "Sigma1_512 x = ROTR x 14 XOR ROTR x 18 XOR ROTR x 41"

definition sigma0_512 :: "u64 \<Rightarrow> u64" where
  "sigma0_512 x = ROTR x 1 XOR ROTR x 8 XOR drop_bit 7 x"

definition sigma1_512 :: "u64 \<Rightarrow> u64" where
  "sigma1_512 x = ROTR x 19 XOR ROTR x 61 XOR drop_bit 6 x"

type_synonym sha512_regs = "u64 \<times> u64 \<times> u64 \<times> u64 \<times> u64 \<times> u64 \<times> u64 \<times> u64"

fun ROUND_512 :: "nat \<Rightarrow> u64 \<Rightarrow> sha512_regs \<Rightarrow> sha512_regs" where
  "ROUND_512 i T1 (a, b, c, d, e, f, g, h) =
     (let T1 = T1 + (h + Sigma1_512 e + Ch e f g + K512 ! i);
          h = Sigma0_512 a + Maj a b c;
          d = d + T1;
          h = h + T1
      in (a, b, c, d, e, f, g, h))"

fun sha512_next :: "sha512_regs \<Rightarrow> sha512_regs" where
  "sha512_next (a, b, c, d, e, f, g, h) = (h, a, b, c, d, e, f, g)"

definition sha512_step :: "sha512_regs \<times> u64 list \<Rightarrow> nat \<Rightarrow> sha512_regs \<times> u64 list" where
  "sha512_step s i =
     (case s of (r, X) \<Rightarrow>
        if i < 16 then (sha512_next (ROUND_512 i (X ! i) r), X)
        else
          (let s0 = sigma0_512 (X ! ((i + 1) mod 16));
               s1 = sigma1_512 (X ! ((i + 14) mod 16));
               T1 = X ! (i mod 16) + (s0 + s1 + X ! ((i + 9) mod 16))
           in (sha512_next (ROUND_512 i T1 r), X[i mod 16 := T1])))"

definition sha512_block :: "u64 list \<Rightarrow> u8 list \<Rightarrow> u64 list" where
  "sha512_block st inp =
     (let X = map (\<lambda>i. load_u64_be (drop (8 * i) inp)) [0..<16]
      in case foldl sha512_step ((st ! 0, st ! 1, st ! 2, st ! 3, st ! 4, st ! 5, st ! 6, st ! 7), X) [0..<80] of
           ((a, b, c, d, e, f, g, h), _) \<Rightarrow>
             [st ! 0 + a, st ! 1 + b, st ! 2 + c, st ! 3 + d, st ! 4 + e, st ! 5 + f, st ! 6 + g, st ! 7 + h])"

fun sha512_block_data_order :: "u64 list \<Rightarrow> u8 list \<Rightarrow> nat \<Rightarrow> u64 list" where
  "sha512_block_data_order state inp 0 = state"
| "sha512_block_data_order state inp (Suc n) = sha512_block_data_order (sha512_block state inp) (drop 128 inp) n"

section \<open>The digests\<close>

record SHA512_CTX =
  sha5_h :: "u64 list"
  sha5_Nl :: u64
  sha5_Nh :: u64
  sha5_p :: "u8 list"
  sha5_num :: nat
  sha5_md_len :: nat

definition SHA384_DIGEST_LENGTH :: nat where "SHA384_DIGEST_LENGTH = 48"
definition SHA512_DIGEST_LENGTH :: nat where "SHA512_DIGEST_LENGTH = 64"

text \<open>The initialisation of an object whose buffer holds \<open>p\<close>.\<close>

definition SHA384_Init :: "u8 list \<Rightarrow> SHA512_CTX" where
  "SHA384_Init p =
     \<lparr>sha5_h = [0xcbbb9d5dc1059ed8, 0x629a292a367cd507, 0x9159015a3070dd17, 0x152fecd8f70e5939,
        0x67332667ffc00b31, 0x8eb44a8768581511, 0xdb0c2e0d64f98fa7, 0x47b5481dbefa4fa4],
      sha5_Nl = 0, sha5_Nh = 0, sha5_p = p, sha5_num = 0, sha5_md_len = SHA384_DIGEST_LENGTH\<rparr>"

definition SHA512_Init :: "u8 list \<Rightarrow> SHA512_CTX" where
  "SHA512_Init p =
     \<lparr>sha5_h = [0x6a09e667f3bcc908, 0xbb67ae8584caa73b, 0x3c6ef372fe94f82b, 0xa54ff53a5f1d36f1,
        0x510e527fade682d1, 0x9b05688c2b3e6c1f, 0x1f83d9abfb41bd6b, 0x5be0cd19137e2179],
      sha5_Nl = 0, sha5_Nh = 0, sha5_p = p, sha5_num = 0, sha5_md_len = SHA512_DIGEST_LENGTH\<rparr>"

definition SHA512_Transform :: "SHA512_CTX \<Rightarrow> u8 list \<Rightarrow> SHA512_CTX" where
  "SHA512_Transform c blk = c\<lparr>sha5_h := sha512_block_data_order (sha5_h c) blk 1\<rparr>"

definition sha512_update_blocks :: "SHA512_CTX \<Rightarrow> u8 list \<Rightarrow> SHA512_CTX" where
  "sha512_update_blocks c data =
     (let len = length data;
          c = (if len \<ge> 128 then c\<lparr>sha5_h := sha512_block_data_order (sha5_h c) data (len div 128)\<rparr> else c);
          data = (if len \<ge> 128 then drop (len - len mod 128) data else data)
      in if data \<noteq> [] then c\<lparr>sha5_p := copy_at (sha5_p c) 0 data, sha5_num := length data\<rparr> else c)"

definition SHA512_Update :: "SHA512_CTX \<Rightarrow> u8 list \<Rightarrow> SHA512_CTX" where
  "SHA512_Update c data =
     (let len = length data
      in if len = 0 then c
         else
           (let l = sha5_Nl c + push_bit 3 (of_nat len);
                Nh = (if l < sha5_Nl c then sha5_Nh c + 1 else sha5_Nh c) + of_nat (len div 2 ^ 61);
                c = c\<lparr>sha5_Nl := l, sha5_Nh := Nh\<rparr>
            in if sha5_num c \<noteq> 0 then
                 (let n = 128 - sha5_num c
                  in if len < n
                     then c\<lparr>sha5_p := copy_at (sha5_p c) (sha5_num c) data, sha5_num := sha5_num c + len\<rparr>
                     else
                       (let p = copy_at (sha5_p c) (sha5_num c) (take n data);
                            c = c\<lparr>sha5_p := p, sha5_num := 0, sha5_h := sha512_block_data_order (sha5_h c) p 1\<rparr>
                        in sha512_update_blocks c (drop n data)))
               else sha512_update_blocks c data))"

definition SHA384_Update :: "SHA512_CTX \<Rightarrow> u8 list \<Rightarrow> SHA512_CTX" where
  "SHA384_Update = SHA512_Update"

text \<open>The eight bytes of a word from the most significant on.\<close>

definition word_bytes :: "u64 \<Rightarrow> u8 list" where
  "word_bytes t =
     [ucast (drop_bit 56 t), ucast (drop_bit 48 t), ucast (drop_bit 40 t), ucast (drop_bit 32 t),
      ucast (drop_bit 24 t), ucast (drop_bit 16 t), ucast (drop_bit 8 t), ucast t]"

definition sha512_words :: "SHA512_CTX \<Rightarrow> nat \<Rightarrow> u8 list" where
  "sha512_words c n = concat (map (\<lambda>i. word_bytes (sha5_h c ! i)) [0..<n])"

text \<open>\<open>out\<close> tells whether the caller gave a place for the digest.\<close>

definition SHA512_Final :: "bool \<Rightarrow> SHA512_CTX \<Rightarrow> SHA512_CTX \<times> u8 list option" where
  "SHA512_Final out c =
     (let n = sha5_num c;
          p = (sha5_p c)[n := 0x80];
          n = n + 1;
          (h, p, n) =
            (if n > 128 - 16
             then (let p = copy_at p n (replicate (128 - n) 0) in (sha512_block_data_order (sha5_h c) p 1, p, 0))
             else (sha5_h c, p, n));
          p = copy_at p n (replicate (128 - 16 - n) 0);
          p = copy_at p (128 - 16) (word_bytes (sha5_Nh c) @ word_bytes (sha5_Nl c));
          c = c\<lparr>sha5_h := sha512_block_data_order h p 1, sha5_p := p\<rparr>
      in (c,
          if \<not> out then None
          else if sha5_md_len c = SHA384_DIGEST_LENGTH then Some (sha512_words c (SHA384_DIGEST_LENGTH div 8))
          else if sha5_md_len c = SHA512_DIGEST_LENGTH then Some (sha512_words c (SHA512_DIGEST_LENGTH div 8))
          else None))"

definition SHA384_Final :: "bool \<Rightarrow> SHA512_CTX \<Rightarrow> SHA512_CTX \<times> u8 list option" where
  "SHA384_Final = SHA512_Final"

definition SHA384 :: "u8 list \<Rightarrow> u8 list \<Rightarrow> u8 list option" where
  "SHA384 stack data = snd (SHA384_Final True (SHA384_Update (SHA384_Init stack) data))"

definition SHA512 :: "u8 list \<Rightarrow> u8 list \<Rightarrow> u8 list option" where
  "SHA512 stack data = snd (SHA512_Final True (SHA512_Update (SHA512_Init stack) data))"

section \<open>FIPS 180-4\<close>

fun sha512_W :: "u8 list \<Rightarrow> nat \<Rightarrow> u64" where
  "sha512_W blk t =
     (if t < 16 then load_u64_be (drop (8 * t) blk)
      else
        (let x = sha512_W blk (t - 2); y = sha512_W blk (t - 15)
         in (word_rotr 19 x XOR word_rotr 61 x XOR drop_bit 6 x) + sha512_W blk (t - 7) +
            (word_rotr 1 y XOR word_rotr 8 y XOR drop_bit 7 y) + sha512_W blk (t - 16)))"

declare sha512_W.simps [simp del]

definition sha512_round :: "u8 list \<Rightarrow> sha512_regs \<Rightarrow> nat \<Rightarrow> sha512_regs" where
  "sha512_round blk s t =
     (case s of (a, b, c, d, e, f, g, h) \<Rightarrow>
        (let T1 = h + (word_rotr 14 e XOR word_rotr 18 e XOR word_rotr 41 e) + Ch e f g + K512 ! t + sha512_W blk t;
             T2 = (word_rotr 28 a XOR word_rotr 34 a XOR word_rotr 39 a) + Maj a b c
         in (T1 + T2, a, b, c, d + T1, e, f, g)))"

definition sha512_compress :: "u64 list \<Rightarrow> u8 list \<Rightarrow> u64 list" where
  "sha512_compress st blk =
     (case foldl (sha512_round blk) (st ! 0, st ! 1, st ! 2, st ! 3, st ! 4, st ! 5, st ! 6, st ! 7) [0..<80] of
        (a, b, c, d, e, f, g, h) \<Rightarrow>
          [a + st ! 0, b + st ! 1, c + st ! 2, d + st ! 3, e + st ! 4, f + st ! 5, g + st ! 6, h + st ! 7])"

text \<open>The padding: a one, zeros up to sixteen bytes before the end of a block, the length in bits.\<close>

definition pad128 :: "u8 list \<Rightarrow> u8 list" where
  "pad128 m =
     m @ 0x80 # replicate ((239 - length m mod 128) mod 128) 0 @
     word_bytes (of_nat (8 * length m div 2 ^ 64)) @ word_bytes (of_nat (8 * length m))"

definition sha512_digest :: "u8 list \<Rightarrow> u8 list" where
  "sha512_digest m = concat (map word_bytes (foldl sha512_compress (sha5_h (SHA512_Init [])) (chunks 128 (pad128 m))))"

definition sha384_digest :: "u8 list \<Rightarrow> u8 list" where
  "sha384_digest m =
     concat (map word_bytes (take 6 (foldl sha512_compress (sha5_h (SHA384_Init [])) (chunks 128 (pad128 m)))))"

section \<open>The rounds agree\<close>

lemma ROTR_rotr: "0 < s \<Longrightarrow> s < 64 \<Longrightarrow> ROTR x s = word_rotr s x"
  using ROTATE_rotr [of "64 - s" x] by (simp add: ROTR_def ROTATE_def or.commute)

lemma Sigma_512_rotr:
  "Sigma0_512 x = word_rotr 28 x XOR word_rotr 34 x XOR word_rotr 39 x"
  "Sigma1_512 x = word_rotr 14 x XOR word_rotr 18 x XOR word_rotr 41 x"
  "sigma0_512 x = word_rotr 1 x XOR word_rotr 8 x XOR drop_bit 7 x"
  "sigma1_512 x = word_rotr 19 x XOR word_rotr 61 x XOR drop_bit 6 x"
  by (simp_all add: Sigma0_512_def Sigma1_512_def sigma0_512_def sigma1_512_def ROTR_rotr)

definition sha512_sim :: "u8 list \<Rightarrow> nat \<Rightarrow> sha512_regs \<times> u64 list \<Rightarrow> sha512_regs \<Rightarrow> bool" where
  "sha512_sim blk i s r \<longleftrightarrow> fst s = r \<and> window (sha512_W blk) i (snd s)"

lemma sha512_step_sim:
  assumes s: "sha512_sim blk i s r"
  shows "sha512_sim blk (Suc i) (sha512_step s i) (sha512_round blk r i)"
proof -
  obtain a b c d e f g h X where e: "s = ((a, b, c, d, e, f, g, h), X)" "r = (a, b, c, d, e, f, g, h)"
    and w: "window (sha512_W blk) i X"
    using s by (cases s; cases r) (auto simp: sha512_sim_def)
  show ?thesis
  proof (cases "i < 16")
    case True
    have "X ! i = sha512_W blk i" using w True by (simp add: window_def)
    then show ?thesis
      using True window_keep [OF w True]
      by (simp add: e sha512_sim_def sha512_step_def sha512_round_def Sigma_512_rotr Let_def ac_simps)
  next
    case False
    then have i16: "16 \<le> i" by simp
    let ?T = "X ! (i mod 16) +
      (sigma0_512 (X ! ((i + 1) mod 16)) + sigma1_512 (X ! ((i + 14) mod 16)) + X ! ((i + 9) mod 16))"
    have x: "?T = sha512_W blk i"
      using window_get [OF w i16, of 0] window_get [OF w i16, of 1] window_get [OF w i16, of 14]
        window_get [OF w i16, of 9] i16
      by (simp add: sha512_W.simps [of blk i] Sigma_512_rotr Let_def ac_simps numeral_2_eq_2)
    show ?thesis
      unfolding sha512_step_def e prod.case Let_def x
      using False window_put [OF w i16]
      by (simp add: sha512_sim_def sha512_round_def Sigma_512_rotr Let_def ac_simps)
  qed
qed

lemma sha512_fold_sim:
  "sha512_sim blk 0 s r \<Longrightarrow> sha512_sim blk n (foldl sha512_step s [0..<n]) (foldl (sha512_round blk) r [0..<n])"
  by (induction n) (simp_all add: sha512_step_sim)

lemma sha512_block_compress: "sha512_block st blk = sha512_compress st blk"
proof -
  let ?X = "map (\<lambda>i. load_u64_be (drop (8 * i) blk)) [0..<16]"
  let ?r = "(st ! 0, st ! 1, st ! 2, st ! 3, st ! 4, st ! 5, st ! 6, st ! 7)"
  have "window (sha512_W blk) 0 ?X"
    by (auto simp: window_def sha512_W.simps del: upt.simps)
  then have "sha512_sim blk 0 (?r, ?X) ?r" by (simp add: sha512_sim_def)
  from sha512_fold_sim [OF this, of 80] show ?thesis
    unfolding sha512_block_def sha512_compress_def Let_def
    by (auto simp: sha512_sim_def add.commute simp del: upt.simps upt_conv_Cons split: prod.splits)
qed

lemma load_append: "8 \<le> length p \<Longrightarrow> load_u64_be (p @ x) = load_u64_be p"
  by (cases p rule: load_u64_be.cases) simp_all

lemma sha512_compress_take:
  assumes "128 \<le> length d"
  shows "sha512_compress st (take 128 d) = sha512_compress st d"
proof -
  have "sha512_W (take 128 d) t = sha512_W d t" for t
  proof (induction t rule: less_induct)
    case (less t)
    have "load_u64_be (drop (8 * t) (take 128 d)) = load_u64_be (drop (8 * t) d)" if "t < 16"
    proof -
      have "drop (8 * t) d = drop (8 * t) (take 128 d) @ drop 128 d"
        using assms that append_take_drop_id [of 128 d] drop_append [of "8 * t" "take 128 d" "drop 128 d"] by simp
      moreover have "8 \<le> length (drop (8 * t) (take 128 d))" using assms that by simp
      ultimately show ?thesis using load_append by metis
    qed
    with less show ?case by (simp add: sha512_W.simps [of _ t])
  qed
  then show ?thesis by (simp add: sha512_compress_def sha512_round_def [abs_def])
qed

lemma sha512_blocks:
  "128 * n \<le> length d \<Longrightarrow> sha512_block_data_order h d n = foldl sha512_compress h (chunks 128 (take (128 * n) d))"
proof (induction n arbitrary: h d)
  case (Suc n)
  let ?b = "take 128 d" and ?t = "take (128 * n) (drop 128 d)"
  have b: "0 < (128 :: nat)" "length ?b = 128" using Suc.prems by simp_all
  have s: "take (128 * Suc n) d = ?b @ ?t" by (simp add: take_add)
  have "sha512_block h d = sha512_compress h ?b"
    using sha512_block_compress sha512_compress_take Suc.prems by simp
  then show ?case unfolding s chunks_Cons [OF b] using Suc.IH [of "drop 128 d"] Suc.prems by simp
qed simp

section \<open>Collecting is right\<close>

definition sha512_core :: "u64 list \<Rightarrow> SHA512_CTX \<Rightarrow> u8 list \<Rightarrow> bool" where
  "sha512_core h0 c m \<longleftrightarrow>
     length (sha5_p c) = 128 \<and> sha5_num c = length m mod 128 \<and>
     take (length m mod 128) (sha5_p c) = drop (128 * (length m div 128)) m \<and>
     sha5_h c = foldl sha512_compress h0 (chunks 128 m)"

definition sha512_rep :: "u64 list \<Rightarrow> SHA512_CTX \<Rightarrow> u8 list \<Rightarrow> bool" where
  "sha512_rep h0 c m \<longleftrightarrow> sha512_core h0 c m \<and>
     unat (sha5_Nl c) + 2 ^ 64 * unat (sha5_Nh c) = 8 * length m mod 2 ^ 128"

lemma sha512_rep_init:
  "length p = 128 \<Longrightarrow> sha512_rep (sha5_h (SHA512_Init [])) (SHA512_Init p) []"
  "length p = 128 \<Longrightarrow> sha512_rep (sha5_h (SHA384_Init [])) (SHA384_Init p) []"
  by (simp_all add: sha512_rep_def sha512_core_def SHA512_Init_def SHA384_Init_def)

lemma size128: "0 < (128 :: nat)"
  by simp

lemma sha512_block_one: "length d = 128 \<Longrightarrow> sha512_block_data_order h d (Suc 0) = sha512_compress h d"
  using sha512_blocks [of 1 d h] by simp

lemma take_copy: "length x + n \<le> length p \<Longrightarrow> take (n + length x) (copy_at p n x) = take n p @ x"
  by (simp add: copy_at_def)

lemma length_copy: "length x + n \<le> length p \<Longrightarrow> length (copy_at p n x) = length p"
  by (simp add: copy_at_def)

lemma sha512_core_blocks:
  assumes c: "sha512_core h0 c m" and m: "128 dvd length m"
  shows "sha512_core h0 (sha512_update_blocks c x) (m @ x)"
proof -
  let ?n = "length x div 128"
  let ?r = "drop (128 * ?n) x"
  obtain k where k: "length m = 128 * k" using m by (rule dvdE)
  have r: "length ?r = length x mod 128" by (rule tail_length)
  have len: "length (m @ x) = 128 * (k + ?n) + length x mod 128" "length x mod 128 < 128"
    unfolding length_append using add_blocks [OF k] div_mod_block [OF size128, of "length x"] by blast+
  note mo = block_pos [OF len, THEN conjunct1] and di = block_pos [OF len, THEN conjunct2]
  have rest: "drop (128 * (k + ?n)) (m @ x) = ?r" using k by simp
  have ch: "chunks 128 (m @ x) = chunks 128 m @ chunks 128 (take (128 * ?n) x)"
    unfolding chunks_append [OF size128 k] chunks_split [OF size128, of x, symmetric] ..
  have d: "(if length x \<ge> 128 then drop (length x - length x mod 128) x else x) = ?r"
    by (simp add: minus_mod_eq_mult_div)
  have h: "(if length x \<ge> 128 then sha512_block_data_order (sha5_h c) x ?n else sha5_h c) =
      foldl sha512_compress h0 (chunks 128 (m @ x))"
  proof (cases "128 \<le> length x")
    case True
    then show ?thesis using c sha512_blocks [of ?n x "sha5_h c"] ch by (simp add: sha512_core_def)
  next
    case False
    then have "?n = 0" by simp
    then show ?thesis using c ch False by (simp add: sha512_core_def)
  qed
  have p: "length (sha5_p c) = 128" "sha5_num c = 0" using c k by (simp_all add: sha512_core_def)
  have cp: "take (length ?r) (copy_at (sha5_p c) 0 ?r) = ?r" "length (copy_at (sha5_p c) 0 ?r) = 128"
    using take_copy [of ?r 0 "sha5_p c"] length_copy [of ?r 0 "sha5_p c"] p len(2) unfolding r by simp_all
  have u: "sha512_update_blocks c x =
      (let c = c\<lparr>sha5_h := foldl sha512_compress h0 (chunks 128 (m @ x))\<rparr>
       in if ?r \<noteq> [] then c\<lparr>sha5_p := copy_at (sha5_p c) 0 ?r, sha5_num := length ?r\<rparr> else c)"
    unfolding sha512_update_blocks_def Let_def d using h by (auto split: if_splits)
  show ?thesis
  proof (cases "?r = []")
    case True
    then have "length x mod 128 = 0" using r by simp
    then show ?thesis unfolding u Let_def sha512_core_def mo di rest using True p by simp
  next
    case False
    then show ?thesis unfolding u Let_def sha512_core_def mo di rest using cp r by simp
  qed
qed

lemma sha512_blocks_length [simp]:
  "sha5_Nl (sha512_update_blocks c x) = sha5_Nl c" "sha5_Nh (sha512_update_blocks c x) = sha5_Nh c"
  by (simp_all add: sha512_update_blocks_def Let_def)

lemma sha512_core_update:
  assumes c: "sha512_core h0 c m"
  shows "sha512_core h0 (SHA512_Update c x) (m @ x)"
proof (cases "x = []")
  case True
  then show ?thesis using c by (simp add: SHA512_Update_def)
next
  case x: False
  let ?r = "length m mod 128"
  let ?t = "drop (128 * (length m div 128)) m"
  obtain l h where u: "SHA512_Update c x =
      (let c = c\<lparr>sha5_Nl := l, sha5_Nh := h\<rparr>; len = length x
       in if sha5_num c \<noteq> 0 then
            (let n = 128 - sha5_num c
             in if len < n
                then c\<lparr>sha5_p := copy_at (sha5_p c) (sha5_num c) x, sha5_num := sha5_num c + len\<rparr>
                else
                  (let p = copy_at (sha5_p c) (sha5_num c) (take n x);
                       c = c\<lparr>sha5_p := p, sha5_num := 0, sha5_h := sha512_block_data_order (sha5_h c) p 1\<rparr>
                   in sha512_update_blocks c (drop n x)))
          else sha512_update_blocks c x)"
    using x by (simp add: SHA512_Update_def Let_def)
  let ?c = "c\<lparr>sha5_Nl := l, sha5_Nh := h\<rparr>"
  have c': "sha512_core h0 ?c m" using c by (simp add: sha512_core_def)
  then have p: "sha5_num ?c = ?r" "length (sha5_p ?c) = 128" "take ?r (sha5_p ?c) = ?t"
    "sha5_h ?c = foldl sha512_compress h0 (chunks 128 m)"
    by (simp_all add: sha512_core_def)
  have t: "length ?t = ?r" by (rule tail_length)
  have r: "?r < 128" by simp
  show ?thesis
  proof (cases "?r = 0")
    case True
    then have "128 dvd length m" by (rule dvd_eq_mod_eq_0 [THEN iffD2])
    from sha512_core_blocks [OF c' this, of x] show ?thesis unfolding u Let_def p(1) using True by simp
  next
    case rn: False
    show ?thesis
    proof (cases "length x < 128 - ?r")
      case False
      let ?a = "take (128 - ?r) x"
      have a: "length ?a = 128 - ?r" using False by simp
      have d: "copy_at (sha5_p ?c) ?r ?a = ?t @ ?a" "length (?t @ ?a) = 128"
        using t a r p(2,3) by (simp_all add: copy_at_def)
      have m': "length (m @ ?a) = 128 * (length m div 128 + 1)"
        unfolding length_append a using fill_block div_mod_block [OF size128, of "length m"] by metis
      then have dv: "128 dvd length (m @ ?a)" by (rule dvdI)
      have ch: "chunks 128 (m @ ?a) = chunks 128 m @ [?t @ ?a]"
        unfolding chunks_extend [OF size128, of m ?a] using d(2) by simp
      let ?c1 = "?c\<lparr>sha5_p := ?t @ ?a, sha5_num := 0, sha5_h := sha512_block_data_order (sha5_h ?c) (?t @ ?a) 1\<rparr>"
      have "sha512_core h0 ?c1 (m @ ?a)"
        unfolding sha512_core_def ch using sha512_block_one [OF d(2)] p(4) m' d(2) by simp
      from sha512_core_blocks [OF this dv, of "drop (128 - ?r) x"]
      have "sha512_core h0 (sha512_update_blocks ?c1 (drop (128 - ?r) x)) (m @ x)" by simp
      then show ?thesis
        unfolding u Let_def p(1) d(1) using False rn by simp
    next
      case True
      then have e: "length (m @ x) mod 128 = ?r + length x" "length (m @ x) div 128 = length m div 128"
        using block_pos [of "length (m @ x)" 128 "length m div 128" "?r + length x"] div_mod_block [OF size128, of "length m"]
        unfolding length_append by linarith+
      have fit: "length x + ?r \<le> length (sha5_p ?c)" using True p(2) by simp
      have "take (?r + length x) (copy_at (sha5_p ?c) ?r x) = ?t @ x" "length (copy_at (sha5_p ?c) ?r x) = 128"
        using take_copy [OF fit] length_copy [OF fit] p(2,3) by simp_all
      moreover have "drop (128 * (length m div 128)) (m @ x) = ?t @ x" by simp
      moreover have "chunks 128 (m @ x) = chunks 128 m"
        unfolding chunks_extend [OF size128, of m x] using True t by simp
      ultimately show ?thesis
        unfolding u Let_def p(1) sha512_core_def e using True rn p by simp
    qed
  qed
qed

lemma sha512_rep_update:
  assumes "sha512_rep h0 c m"
  shows "sha512_rep h0 (SHA512_Update c x) (m @ x)"
proof -
  let ?c = "SHA512_Update c x"
  have core: "sha512_core h0 ?c (m @ x)" using assms sha512_core_update unfolding sha512_rep_def by blast
  have n: "unat (sha5_Nl c) + 2 ^ 64 * unat (sha5_Nh c) = 8 * length m mod 2 ^ 128"
    using assms by (simp add: sha512_rep_def)
  have "unat (sha5_Nl ?c) + 2 ^ 64 * unat (sha5_Nh ?c) = 8 * length (m @ x) mod 2 ^ 128"
  proof (cases "x = []")
    case True
    then show ?thesis using n by (simp add: SHA512_Update_def)
  next
    case False
    let ?l = "sha5_Nl c + push_bit 3 (of_nat (length x))"
    let ?h = "(if ?l < sha5_Nl c then sha5_Nh c + 1 else sha5_Nh c) + of_nat (length x div 2 ^ 61)"
    have e: "sha5_Nl ?c = ?l" "sha5_Nh ?c = ?h"
      using False by (simp_all add: SHA512_Update_def Let_def)
    have "unat ?l + 2 ^ 64 * unat ?h = (unat ?l + 2 ^ 64 * unat ?h) mod 2 ^ 128"
      using word_pair_less [of ?l ?h] by simp
    also have "\<dots> = (8 * length m mod 2 ^ 128 + 8 * length x) mod 2 ^ 128"
      using bits_add [where l = ?l and h = ?h and Nl = "sha5_Nl c" and Nh = "sha5_Nh c" and len = "length x"] n by simp
    also have "\<dots> = 8 * length (m @ x) mod 2 ^ 128" by (simp add: mod_simps)
    finally show ?thesis unfolding e .
  qed
  with core show ?thesis by (simp add: sha512_rep_def)
qed

lemma sha512_rep_updates: "sha512_rep h0 c m \<Longrightarrow> sha512_rep h0 (foldl SHA512_Update c xs) (m @ concat xs)"
proof (induction xs arbitrary: c m)
  case (Cons x xs)
  from Cons.IH [OF sha512_rep_update [OF Cons.prems]] show ?case by simp
qed simp

lemma sha512_halves:
  fixes Nl Nh :: u64
  assumes "unat Nl + 2 ^ 64 * unat Nh = n mod 2 ^ 128"
  shows "of_nat n = Nl" "of_nat (n div 2 ^ 64) = Nh"
proof -
  let ?M = "2 ^ 64 :: nat"
  have b: "unat Nl < ?M" using unsigned_less [where w = Nl and ?'a = nat] by simp
  have "n mod 2 ^ 128 = n mod (?M * ?M)" by simp
  also have "\<dots> = ?M * (n div ?M mod ?M) + n mod ?M" by (rule mod_mult2_eq)
  finally have e: "unat Nl + ?M * unat Nh = n mod ?M + ?M * (n div ?M mod ?M)" using assms by simp
  have "unat Nl = n mod ?M"
  proof -
    have "(unat Nl + ?M * unat Nh) mod ?M = unat Nl" using b by simp
    moreover have "(n mod ?M + ?M * (n div ?M mod ?M)) mod ?M = n mod ?M" by simp
    ultimately show ?thesis unfolding e by metis
  qed
  moreover from this e have "unat Nh = n div ?M mod ?M" by simp
  ultimately show "of_nat n = Nl" "of_nat (n div 2 ^ 64) = Nh"
    by (simp_all add: word_unat_eq_iff unat_of_nat)
qed

lemma length_word_bytes [simp]: "length (word_bytes w) = 8"
  by (simp add: word_bytes_def)

lemma clear_block128:
  "length a = 128 \<Longrightarrow> length L = 16 \<Longrightarrow> copy_at (copy_at a 0 (replicate 112 0)) 112 L = replicate 112 0 @ L"
  by (simp add: copy_at_def)

lemma close_block128:
  assumes "length t = r" "r \<le> 111" "length L = 16" "length s = 127 - r"
  shows "copy_at (copy_at (t @ x # s) (r + 1) (replicate (111 - r) 0)) 112 L = t @ x # replicate (111 - r) 0 @ L"
proof -
  have "112 - r = Suc (111 - r)" using assms(2) by simp
  with assms show ?thesis by (simp add: copy_at_def)
qed

lemma sha512_final:
  assumes c: "sha512_rep h0 c m"
  shows "\<exists>p. SHA512_Final out c =
    (let c' = c\<lparr>sha5_h := foldl sha512_compress h0 (chunks 128 (pad128 m)), sha5_p := p\<rparr>
     in (c', if \<not> out then None
             else if sha5_md_len c = SHA384_DIGEST_LENGTH then Some (sha512_words c' 6)
             else if sha5_md_len c = SHA512_DIGEST_LENGTH then Some (sha512_words c' 8)
             else None))"
proof -
  let ?r = "length m mod 128"
  let ?t = "drop (128 * (length m div 128)) m"
  let ?L = "word_bytes (sha5_Nh c) @ word_bytes (sha5_Nl c)"
  have t: "length ?t = ?r" by (rule tail_length)
  have r: "?r < 128" by simp
  have p: "sha5_num c = ?r" "length (sha5_p c) = 128" "take ?r (sha5_p c) = ?t"
    "sha5_h c = foldl sha512_compress h0 (chunks 128 m)"
    using c by (simp_all add: sha512_rep_def sha512_core_def)
  have "unat (sha5_Nl c) + 2 ^ 64 * unat (sha5_Nh c) = 8 * length m mod 2 ^ 128"
    using c by (simp add: sha512_rep_def)
  note L = sha512_halves [OF this]
  have Ll: "length ?L = 16" by simp
  obtain s where d: "(sha5_p c)[?r := 0x80] = ?t @ 0x80 # s" and s: "length s = 127 - ?r"
  proof
    show "(sha5_p c)[?r := 0x80] = ?t @ 0x80 # drop (Suc ?r) (sha5_p c)"
      using p(2,3) r by (simp add: upd_conv_take_nth_drop)
    show "length (drop (Suc ?r) (sha5_p c)) = 127 - ?r" using p(2) by simp
  qed
  have pad: "chunks 128 (pad128 m) = chunks 128 m @ chunks 128 (?t @ 0x80 # replicate ((239 - ?r) mod 128) 0 @ ?L)"
    unfolding pad128_def L by (rule chunks_extend [OF size128])
  have len: "SHA384_DIGEST_LENGTH div 8 = 6" "SHA512_DIGEST_LENGTH div 8 = 8"
    by (simp_all add: SHA384_DIGEST_LENGTH_def SHA512_DIGEST_LENGTH_def)
  show ?thesis
  proof (cases "?r + 1 > 112")
    case True
    let ?a = "?t @ 0x80 # replicate (127 - ?r) 0" and ?b = "replicate 112 0 @ ?L"
    have l: "length ?a = 128" "length ?b = 128" using t r Ll by simp_all
    have "(239 - ?r) mod 128 = 127 - ?r + 112" using True r by simp
    then have z: "replicate ((239 - ?r) mod 128) 0 = replicate (127 - ?r) (0 :: u8) @ replicate 112 0"
      by (simp only: replicate_add)
    have ch: "chunks 128 (pad128 m) = chunks 128 m @ [?a, ?b]"
      unfolding pad z using chunks_Cons [OF size128 l(1), of ?b] chunks_single [OF size128 l(2)] by simp
    have c1: "copy_at (?t @ 0x80 # s) (?r + 1) (replicate (128 - (?r + 1)) 0) = ?a"
      unfolding copy_at_def using t r s by simp
    have c2: "copy_at (copy_at ?a 0 (replicate (128 - 16 - 0) 0)) (128 - 16) ?L = ?b"
      using clear_block128 [OF l(1) Ll] by simp
    show ?thesis
      unfolding SHA512_Final_def Let_def p(1) d ch len
      using True sha512_block_one [OF l(1)] sha512_block_one [OF l(2)] p(4) c1 c2
      by (intro exI [of _ ?b]) (simp add: Let_def)
  next
    case False
    let ?a = "?t @ 0x80 # replicate (111 - ?r) 0 @ ?L"
    have l: "length ?a = 128" using t False Ll by simp
    have "(239 - ?r) mod 128 = 111 - ?r"
    proof -
      have "239 - ?r = 111 - ?r + 128" "111 - ?r < 128" using False by simp_all
      then show ?thesis by (metis mod_add_self2 mod_less)
    qed
    then have ch: "chunks 128 (pad128 m) = chunks 128 m @ [?a]"
      unfolding pad using l size128 by simp
    have c2: "copy_at (copy_at (?t @ 0x80 # s) (?r + 1) (replicate (128 - 16 - (?r + 1)) 0)) (128 - 16) ?L = ?a"
      using close_block128 [OF t _ Ll s, of "0x80"] False by simp
    show ?thesis
      unfolding SHA512_Final_def Let_def p(1) d ch len
      using False sha512_block_one [OF l] p(4) c2 by (intro exI [of _ ?a]) (simp add: Let_def)
  qed
qed

section \<open>The digests are those of FIPS 180-4\<close>

lemma sha512_update_md_len [simp]: "sha5_md_len (SHA512_Update c x) = sha5_md_len c"
  by (simp add: SHA512_Update_def sha512_update_blocks_def Let_def)

lemma sha512_state_length:
  "length h0 = 8 \<Longrightarrow> length (foldl sha512_compress h0 xs) = 8"
  by (rule foldl_length) (simp_all add: sha512_compress_def split: prod.splits)

abbreviation sha512_state :: "SHA512_CTX \<Rightarrow> SHA512_CTX \<Rightarrow> u8 list \<Rightarrow> bool" where
  "sha512_state c0 c m \<equiv> sha512_rep (sha5_h c0) c m \<and> sha5_md_len c = sha5_md_len c0"

lemma sha512_init_state:
  "length p = 128 \<Longrightarrow> sha512_state (SHA512_Init []) (SHA512_Init p) []"
  "length p = 128 \<Longrightarrow> sha512_state (SHA384_Init []) (SHA384_Init p) []"
  using sha512_rep_init [of p] by (simp_all add: SHA512_Init_def SHA384_Init_def)

lemma sha512_update_state: "sha512_state c0 c m \<Longrightarrow> sha512_state c0 (SHA512_Update c x) (m @ x)"
  by (simp add: sha512_rep_update)

lemma sha512_words_take: "n \<le> length (sha5_h c) \<Longrightarrow> sha512_words c n = concat (map word_bytes (take n (sha5_h c)))"
  unfolding sha512_words_def by (rule words_upto)

lemma sha512_final_state:
  "sha512_state (SHA512_Init []) c m \<Longrightarrow> snd (SHA512_Final True c) = Some (sha512_digest m)"
  "sha512_state (SHA384_Init []) c m \<Longrightarrow> snd (SHA384_Final True c) = Some (sha384_digest m)"
proof -
  assume c: "sha512_state (SHA512_Init []) c m"
  let ?h = "foldl sha512_compress (sha5_h (SHA512_Init [])) (chunks 128 (pad128 m))"
  have h: "length ?h = 8" by (rule sha512_state_length) (simp add: SHA512_Init_def)
  have n: "sha5_md_len c = 64" using c by (simp add: SHA512_Init_def SHA512_DIGEST_LENGTH_def)
  obtain p where "SHA512_Final True c =
    (let c' = c\<lparr>sha5_h := ?h, sha5_p := p\<rparr>
     in (c', if \<not> True then None
             else if sha5_md_len c = SHA384_DIGEST_LENGTH then Some (sha512_words c' 6)
             else if sha5_md_len c = SHA512_DIGEST_LENGTH then Some (sha512_words c' 8)
             else None))"
    using sha512_final [OF conjunct1 [OF c]] by blast
  then show "snd (SHA512_Final True c) = Some (sha512_digest m)"
    using h n sha512_words_take [of 8 "c\<lparr>sha5_h := ?h, sha5_p := p\<rparr>"]
    by (simp add: Let_def sha512_digest_def SHA384_DIGEST_LENGTH_def SHA512_DIGEST_LENGTH_def)
next
  assume c: "sha512_state (SHA384_Init []) c m"
  let ?h = "foldl sha512_compress (sha5_h (SHA384_Init [])) (chunks 128 (pad128 m))"
  have h: "length ?h = 8" by (rule sha512_state_length) (simp add: SHA384_Init_def)
  have n: "sha5_md_len c = 48" using c by (simp add: SHA384_Init_def SHA384_DIGEST_LENGTH_def)
  obtain p where "SHA512_Final True c =
    (let c' = c\<lparr>sha5_h := ?h, sha5_p := p\<rparr>
     in (c', if \<not> True then None
             else if sha5_md_len c = SHA384_DIGEST_LENGTH then Some (sha512_words c' 6)
             else if sha5_md_len c = SHA512_DIGEST_LENGTH then Some (sha512_words c' 8)
             else None))"
    using sha512_final [OF conjunct1 [OF c]] by blast
  then show "snd (SHA384_Final True c) = Some (sha384_digest m)"
    using h n sha512_words_take [of 6 "c\<lparr>sha5_h := ?h, sha5_p := p\<rparr>"]
    by (simp add: Let_def sha384_digest_def SHA384_Final_def SHA384_DIGEST_LENGTH_def SHA512_DIGEST_LENGTH_def)
qed

end
