(* ===== verification/Md5.thy ===== *)
theory Md5
  imports Md32
begin

text \<open>
  MD5 and MD4, \<^verbatim>\<open>crypto/fipsmodule/md5/md5.c\<close> and \<^verbatim>\<open>md4/md4.c\<close>. The code writes out its steps as calls
  of the macros \<^verbatim>\<open>R0\<close> to \<^verbatim>\<open>R3\<close> with a message word, a rotation and a constant; here the calls are the
  rows of a table, in the order of the source, and the registers move one place from call to call.
  The references are RFC 1321 and RFC 1320 with their formulas for the words and the rotations.
\<close>

type_synonym md_regs = "u32 \<times> u32 \<times> u32 \<times> u32"

section \<open>MD5\<close>

definition md5_F :: "u32 \<Rightarrow> u32 \<Rightarrow> u32 \<Rightarrow> u32" where
  "md5_F b c d = ((c XOR d) AND b) XOR d"

definition md5_G :: "u32 \<Rightarrow> u32 \<Rightarrow> u32 \<Rightarrow> u32" where
  "md5_G b c d = ((b XOR c) AND d) XOR c"

definition md5_H :: "u32 \<Rightarrow> u32 \<Rightarrow> u32 \<Rightarrow> u32" where
  "md5_H b c d = b XOR c XOR d"

definition md5_I :: "u32 \<Rightarrow> u32 \<Rightarrow> u32 \<Rightarrow> u32" where
  "md5_I b c d = (NOT d OR b) XOR c"

text \<open>The four macros differ in the function only.\<close>

fun md5_R :: "(u32 \<Rightarrow> u32 \<Rightarrow> u32 \<Rightarrow> u32) \<Rightarrow> md_regs \<Rightarrow> u32 \<Rightarrow> nat \<Rightarrow> u32 \<Rightarrow> md_regs" where
  "md5_R f (a, b, c, d) k s t =
     (let a = a + (k + t + f b c d);
          a = ROTATE a s;
          a = a + b
      in (a, b, c, d))"

definition md5_calls :: "(nat \<times> nat \<times> u32) list" where
  "md5_calls =
     [(0, 7, 0xd76aa478), (1, 12, 0xe8c7b756), (2, 17, 0x242070db), (3, 22, 0xc1bdceee),
      (4, 7, 0xf57c0faf), (5, 12, 0x4787c62a), (6, 17, 0xa8304613), (7, 22, 0xfd469501),
      (8, 7, 0x698098d8), (9, 12, 0x8b44f7af), (10, 17, 0xffff5bb1), (11, 22, 0x895cd7be),
      (12, 7, 0x6b901122), (13, 12, 0xfd987193), (14, 17, 0xa679438e), (15, 22, 0x49b40821),
      (1, 5, 0xf61e2562), (6, 9, 0xc040b340), (11, 14, 0x265e5a51), (0, 20, 0xe9b6c7aa),
      (5, 5, 0xd62f105d), (10, 9, 0x02441453), (15, 14, 0xd8a1e681), (4, 20, 0xe7d3fbc8),
      (9, 5, 0x21e1cde6), (14, 9, 0xc33707d6), (3, 14, 0xf4d50d87), (8, 20, 0x455a14ed),
      (13, 5, 0xa9e3e905), (2, 9, 0xfcefa3f8), (7, 14, 0x676f02d9), (12, 20, 0x8d2a4c8a),
      (5, 4, 0xfffa3942), (8, 11, 0x8771f681), (11, 16, 0x6d9d6122), (14, 23, 0xfde5380c),
      (1, 4, 0xa4beea44), (4, 11, 0x4bdecfa9), (7, 16, 0xf6bb4b60), (10, 23, 0xbebfbc70),
      (13, 4, 0x289b7ec6), (0, 11, 0xeaa127fa), (3, 16, 0xd4ef3085), (6, 23, 0x04881d05),
      (9, 4, 0xd9d4d039), (12, 11, 0xe6db99e5), (15, 16, 0x1fa27cf8), (2, 23, 0xc4ac5665),
      (0, 6, 0xf4292244), (7, 10, 0x432aff97), (14, 15, 0xab9423a7), (5, 21, 0xfc93a039),
      (12, 6, 0x655b59c3), (3, 10, 0x8f0ccc92), (10, 15, 0xffeff47d), (1, 21, 0x85845dd1),
      (8, 6, 0x6fa87e4f), (15, 10, 0xfe2ce6e0), (6, 15, 0xa3014314), (13, 21, 0x4e0811a1),
      (4, 6, 0xf7537e82), (11, 10, 0xbd3af235), (2, 15, 0x2ad7d2bb), (9, 21, 0xeb86d391)]"

fun md_next :: "md_regs \<Rightarrow> md_regs" where
  "md_next (a, b, c, d) = (d, a, b, c)"

definition md5_step :: "u32 list \<Rightarrow> md_regs \<Rightarrow> nat \<Rightarrow> md_regs" where
  "md5_step X r i =
     (case md5_calls ! i of (k, s, t) \<Rightarrow>
        md_next (md5_R (if i < 16 then md5_F else if i < 32 then md5_G else if i < 48 then md5_H else md5_I)
                   r (X ! k) s t))"

definition md5_block :: "u32 list \<Rightarrow> u8 list \<Rightarrow> u32 list" where
  "md5_block st data =
     (let X = map (\<lambda>i. HOST_c2l_le (drop (4 * i) data)) [0..<16]
      in case foldl (md5_step X) (st ! 0, st ! 1, st ! 2, st ! 3) [0..<64] of
           (a, b, c, d) \<Rightarrow> [st ! 0 + a, st ! 1 + b, st ! 2 + c, st ! 3 + d])"

fun md5_block_data_order :: "u32 list \<Rightarrow> u8 list \<Rightarrow> nat \<Rightarrow> u32 list" where
  "md5_block_data_order state data 0 = state"
| "md5_block_data_order state data (Suc n) = md5_block_data_order (md5_block state data) (drop 64 data) n"

text \<open>MD5 and MD4 have the same initial state and the same output.\<close>

definition MD5_Init :: HASH_CTX where
  "MD5_Init =
     \<lparr>hash_h = [0x67452301, 0xefcdab89, 0x98badcfe, 0x10325476],
      hash_Nl = 0, hash_Nh = 0, hash_data = replicate 64 0, hash_num = 0\<rparr>"

definition md5_make_string :: "HASH_CTX \<Rightarrow> u8 list option" where
  "md5_make_string c =
     Some (HOST_l2c_le (hash_h c ! 0) @ HOST_l2c_le (hash_h c ! 1) @
           HOST_l2c_le (hash_h c ! 2) @ HOST_l2c_le (hash_h c ! 3))"

definition MD5_Update :: "HASH_CTX \<Rightarrow> u8 list \<Rightarrow> HASH_CTX" where
  "MD5_Update = HASH_UPDATE md5_block_data_order"

definition MD5_Transform :: "HASH_CTX \<Rightarrow> u8 list \<Rightarrow> HASH_CTX" where
  "MD5_Transform = HASH_TRANSFORM md5_block_data_order"

definition MD5_Final :: "HASH_CTX \<Rightarrow> HASH_CTX \<times> u8 list option" where
  "MD5_Final = HASH_FINAL md5_block_data_order False md5_make_string"

definition MD5 :: "u8 list \<Rightarrow> u8 list option" where
  "MD5 data = snd (MD5_Final (MD5_Update MD5_Init data))"

section \<open>MD4\<close>

definition md4_G :: "u32 \<Rightarrow> u32 \<Rightarrow> u32 \<Rightarrow> u32" where
  "md4_G b c d = (b AND c) OR (b AND d) OR (c AND d)"

fun md4_R :: "(u32 \<Rightarrow> u32 \<Rightarrow> u32 \<Rightarrow> u32) \<Rightarrow> md_regs \<Rightarrow> u32 \<Rightarrow> nat \<Rightarrow> u32 \<Rightarrow> md_regs" where
  "md4_R f (a, b, c, d) k s t =
     (let a = a + (k + t + f b c d);
          a = ROTATE a s
      in (a, b, c, d))"

definition md4_calls :: "(nat \<times> nat \<times> u32) list" where
  "md4_calls =
     [(0, 3, 0), (1, 7, 0), (2, 11, 0), (3, 19, 0),
      (4, 3, 0), (5, 7, 0), (6, 11, 0), (7, 19, 0),
      (8, 3, 0), (9, 7, 0), (10, 11, 0), (11, 19, 0),
      (12, 3, 0), (13, 7, 0), (14, 11, 0), (15, 19, 0),
      (0, 3, 0x5a827999), (4, 5, 0x5a827999), (8, 9, 0x5a827999), (12, 13, 0x5a827999),
      (1, 3, 0x5a827999), (5, 5, 0x5a827999), (9, 9, 0x5a827999), (13, 13, 0x5a827999),
      (2, 3, 0x5a827999), (6, 5, 0x5a827999), (10, 9, 0x5a827999), (14, 13, 0x5a827999),
      (3, 3, 0x5a827999), (7, 5, 0x5a827999), (11, 9, 0x5a827999), (15, 13, 0x5a827999),
      (0, 3, 0x6ed9eba1), (8, 9, 0x6ed9eba1), (4, 11, 0x6ed9eba1), (12, 15, 0x6ed9eba1),
      (2, 3, 0x6ed9eba1), (10, 9, 0x6ed9eba1), (6, 11, 0x6ed9eba1), (14, 15, 0x6ed9eba1),
      (1, 3, 0x6ed9eba1), (9, 9, 0x6ed9eba1), (5, 11, 0x6ed9eba1), (13, 15, 0x6ed9eba1),
      (3, 3, 0x6ed9eba1), (11, 9, 0x6ed9eba1), (7, 11, 0x6ed9eba1), (15, 15, 0x6ed9eba1)]"

definition md4_step :: "u32 list \<Rightarrow> md_regs \<Rightarrow> nat \<Rightarrow> md_regs" where
  "md4_step X r i =
     (case md4_calls ! i of (k, s, t) \<Rightarrow>
        md_next (md4_R (if i < 16 then md5_F else if i < 32 then md4_G else md5_H) r (X ! k) s t))"

definition md4_block :: "u32 list \<Rightarrow> u8 list \<Rightarrow> u32 list" where
  "md4_block st data =
     (let X = map (\<lambda>i. HOST_c2l_le (drop (4 * i) data)) [0..<16]
      in case foldl (md4_step X) (st ! 0, st ! 1, st ! 2, st ! 3) [0..<48] of
           (a, b, c, d) \<Rightarrow> [st ! 0 + a, st ! 1 + b, st ! 2 + c, st ! 3 + d])"

fun md4_block_data_order :: "u32 list \<Rightarrow> u8 list \<Rightarrow> nat \<Rightarrow> u32 list" where
  "md4_block_data_order state data 0 = state"
| "md4_block_data_order state data (Suc n) = md4_block_data_order (md4_block state data) (drop 64 data) n"

definition MD4_Init :: HASH_CTX where
  "MD4_Init =
     \<lparr>hash_h = [0x67452301, 0xefcdab89, 0x98badcfe, 0x10325476],
      hash_Nl = 0, hash_Nh = 0, hash_data = replicate 64 0, hash_num = 0\<rparr>"

definition MD4_Update :: "HASH_CTX \<Rightarrow> u8 list \<Rightarrow> HASH_CTX" where
  "MD4_Update = HASH_UPDATE md4_block_data_order"

definition MD4_Transform :: "HASH_CTX \<Rightarrow> u8 list \<Rightarrow> HASH_CTX" where
  "MD4_Transform = HASH_TRANSFORM md4_block_data_order"

definition MD4_Final :: "HASH_CTX \<Rightarrow> HASH_CTX \<times> u8 list option" where
  "MD4_Final = HASH_FINAL md4_block_data_order False md5_make_string"

definition MD4 :: "u8 list \<Rightarrow> u8 list option" where
  "MD4 data = snd (MD4_Final (MD4_Update MD4_Init data))"

section \<open>RFC 1321 and RFC 1320\<close>

text \<open>The word and the rotation of step \<open>i\<close>; the constants are the table of the code.\<close>

definition md5_word :: "nat \<Rightarrow> nat" where
  "md5_word i =
     (if i < 16 then i else if i < 32 then (1 + 5 * i) mod 16 else if i < 48 then (5 + 3 * i) mod 16 else 7 * i mod 16)"

definition md5_rot :: "nat \<Rightarrow> nat" where
  "md5_rot i =
     (if i < 16 then [7, 12, 17, 22] else if i < 32 then [5, 9, 14, 20] else if i < 48 then [4, 11, 16, 23]
      else [6, 10, 15, 21]) ! (i mod 4)"

definition md5_fn :: "nat \<Rightarrow> u32 \<Rightarrow> u32 \<Rightarrow> u32 \<Rightarrow> u32" where
  "md5_fn i x y z =
     (if i < 16 then (x AND y) OR (NOT x AND z) else if i < 32 then (x AND z) OR (y AND NOT z)
      else if i < 48 then x XOR y XOR z else y XOR (x OR NOT z))"

definition md5_round :: "u8 list \<Rightarrow> md_regs \<Rightarrow> nat \<Rightarrow> md_regs" where
  "md5_round blk r i =
     (case r of (a, b, c, d) \<Rightarrow>
        (d, b + word_rotl (md5_rot i) (a + md5_fn i b c d + HOST_c2l_le (drop (4 * md5_word i) blk) +
               snd (snd (md5_calls ! i))), b, c))"

definition md5_compress :: "u32 list \<Rightarrow> u8 list \<Rightarrow> u32 list" where
  "md5_compress st blk =
     (case foldl (md5_round blk) (st ! 0, st ! 1, st ! 2, st ! 3) [0..<64] of
        (a, b, c, d) \<Rightarrow> [a + st ! 0, b + st ! 1, c + st ! 2, d + st ! 3])"

definition md5_digest :: "u8 list \<Rightarrow> u8 list" where
  "md5_digest m = concat (map HOST_l2c_le (foldl md5_compress (hash_h MD5_Init) (chunks64 (md_pad False m))))"

definition md4_word :: "nat \<Rightarrow> nat" where
  "md4_word i =
     (if i < 16 then i else if i < 32 then i mod 4 * 4 + i div 4 mod 4
      else [0, 8, 4, 12, 2, 10, 6, 14, 1, 9, 5, 13, 3, 11, 7, 15] ! (i mod 16))"

definition md4_rot :: "nat \<Rightarrow> nat" where
  "md4_rot i = (if i < 16 then [3, 7, 11, 19] else if i < 32 then [3, 5, 9, 13] else [3, 9, 11, 15]) ! (i mod 4)"

definition md4_fn :: "nat \<Rightarrow> u32 \<Rightarrow> u32 \<Rightarrow> u32 \<Rightarrow> u32" where
  "md4_fn i x y z =
     (if i < 16 then (x AND y) OR (NOT x AND z)
      else if i < 32 then ((x AND y) OR (x AND z) OR (y AND z)) + 0x5a827999
      else (x XOR y XOR z) + 0x6ed9eba1)"

definition md4_round :: "u8 list \<Rightarrow> md_regs \<Rightarrow> nat \<Rightarrow> md_regs" where
  "md4_round blk r i =
     (case r of (a, b, c, d) \<Rightarrow>
        (d, word_rotl (md4_rot i) (a + md4_fn i b c d + HOST_c2l_le (drop (4 * md4_word i) blk)), b, c))"

definition md4_compress :: "u32 list \<Rightarrow> u8 list \<Rightarrow> u32 list" where
  "md4_compress st blk =
     (case foldl (md4_round blk) (st ! 0, st ! 1, st ! 2, st ! 3) [0..<48] of
        (a, b, c, d) \<Rightarrow> [a + st ! 0, b + st ! 1, c + st ! 2, d + st ! 3])"

definition md4_digest :: "u8 list \<Rightarrow> u8 list" where
  "md4_digest m = concat (map HOST_l2c_le (foldl md4_compress (hash_h MD4_Init) (chunks64 (md_pad False m))))"

section \<open>The steps agree\<close>

lemma md5_table:
  "map (\<lambda>(k, s, t). (k, s)) md5_calls = map (\<lambda>i. (md5_word i, md5_rot i)) [0..<64]"
  by code_simp

lemma md4_table:
  "md4_calls = map (\<lambda>i. (md4_word i, md4_rot i, if i < 16 then 0 else if i < 32 then 0x5a827999 else 0x6ed9eba1)) [0..<48]"
  by code_simp

lemma md5_call:
  assumes "i < 64"
  shows "md5_calls ! i = (md5_word i, md5_rot i, snd (snd (md5_calls ! i)))"
proof -
  have l: "length md5_calls = 64" using arg_cong [OF md5_table, of length] by simp
  have "(\<lambda>(k, s, t). (k, s)) (md5_calls ! i) = (md5_word i, md5_rot i)"
    using arg_cong [OF md5_table, of "\<lambda>xs. xs ! i"] assms l by simp
  then show ?thesis by (cases "md5_calls ! i") simp
qed

lemma md4_call:
  "i < 48 \<Longrightarrow> md4_calls ! i =
    (md4_word i, md4_rot i, if i < 16 then 0 else if i < 32 then 0x5a827999 else 0x6ed9eba1)"
  unfolding md4_table by simp

lemma md_bounds: "md5_word i < 16" "md5_rot i < 32" "md4_word i < 16" "md4_rot i < 32"
proof -
  have m: "i mod 4 < 4" "i mod 16 < 16" by simp_all
  have lt: "xs ! k < n" if "k < length xs" "\<forall>x\<in>set xs. x < n" for xs :: "nat list" and k n
    using that nth_mem by blast
  show "md5_word i < 16" by (simp add: md5_word_def)
  show "md5_rot i < 32" unfolding md5_rot_def by (rule lt) auto
  show "md4_rot i < 32" unfolding md4_rot_def by (rule lt) auto
  have "[0, 8, 4, 12, 2, 10, 6, 14, 1, 9, 5, 13, 3, 11, 7, 15] ! (i mod 16) < (16 :: nat)" by (rule lt) auto
  moreover have "i mod 4 * 4 + i div 4 mod 4 < 16" using m(1) mod_less_divisor [of 4 "i div 4"] by linarith
  ultimately show "md4_word i < 16" by (simp add: md4_word_def)
qed

lemma md_functions:
  "md5_F b c d = (b AND c) OR (NOT b AND d)"
  "md5_G b c d = (b AND d) OR (c AND NOT d)"
  "md5_I b c d = c XOR (b OR NOT d)"
  unfolding md5_F_def md5_G_def md5_I_def by (intro bit_word_eqI; auto simp: bit_simps)+

lemma md_rotate:
  "ROTATE (x :: u32) (md5_rot i) = word_rotl (md5_rot i) x" "ROTATE (x :: u32) (md4_rot i) = word_rotl (md4_rot i) x"
  using md_bounds [of i] by (simp_all add: ROTATE_rotl)

lemma md_words:
  "map (\<lambda>i. HOST_c2l_le (drop (4 * i) blk)) [0..<16] ! md5_word i = HOST_c2l_le (drop (4 * md5_word i) blk)"
  "map (\<lambda>i. HOST_c2l_le (drop (4 * i) blk)) [0..<16] ! md4_word i = HOST_c2l_le (drop (4 * md4_word i) blk)"
  using md_bounds [of i] by (simp_all del: upt.simps)

lemma md5_step_round:
  assumes "i < 64"
  shows "md5_step (map (\<lambda>i. HOST_c2l_le (drop (4 * i) blk)) [0..<16]) r i = md5_round blk r i"
proof -
  obtain a b c d where r: "r = (a, b, c, d)" by (cases r)
  show ?thesis
    unfolding md5_step_def r
    by (subst md5_call [OF assms], simp only: prod.case md_words)
      (simp add: md_rotate md5_round_def md_functions md5_H_def md5_fn_def ac_simps del: upt.simps upt_conv_Cons)
qed

lemma md4_step_round:
  assumes "i < 48"
  shows "md4_step (map (\<lambda>i. HOST_c2l_le (drop (4 * i) blk)) [0..<16]) r i = md4_round blk r i"
proof -
  obtain a b c d where r: "r = (a, b, c, d)" by (cases r)
  show ?thesis
    unfolding md4_step_def r md4_call [OF assms] prod.case md_words
    by (simp add: md_rotate md4_round_def md_functions md5_H_def md4_G_def md4_fn_def ac_simps
        del: upt.simps upt_conv_Cons)
qed

lemma foldl_agree: "(\<And>x r. x \<in> set xs \<Longrightarrow> f r x = g r x) \<Longrightarrow> foldl f r xs = foldl g r xs"
  by (induction xs arbitrary: r) auto

lemma md5_block_compress: "md5_block st blk = md5_compress st blk"
  unfolding md5_block_def md5_compress_def Let_def
  by (subst foldl_agree [where g = "md5_round blk"])
    (auto simp: md5_step_round add.commute simp del: upt.simps upt_conv_Cons split: prod.splits)

lemma md4_block_compress: "md4_block st blk = md4_compress st blk"
  unfolding md4_block_def md4_compress_def Let_def
  by (subst foldl_agree [where g = "md4_round blk"])
    (auto simp: md4_step_round add.commute simp del: upt.simps upt_conv_Cons split: prod.splits)

lemma md_compress_take:
  assumes "64 \<le> length d"
  shows "md5_compress st (take 64 d) = md5_compress st d" "md4_compress st (take 64 d) = md4_compress st d"
  using word_of_block(2) [OF assms] md_bounds
  by (simp_all add: md5_compress_def md4_compress_def md5_round_def [abs_def] md4_round_def [abs_def])

interpretation md5: md32 md5_block_data_order md5_compress
  by (rule md32_loop [where g = md5_block]) (simp_all add: md5_block_compress md_compress_take)

interpretation md4: md32 md4_block_data_order md4_compress
  by (rule md32_loop [where g = md4_block]) (simp_all add: md4_block_compress md_compress_take)

section \<open>The digests are those of the RFCs\<close>

abbreviation md5_rep :: "HASH_CTX \<Rightarrow> u8 list \<Rightarrow> bool" where
  "md5_rep \<equiv> hash_rep md5_compress (hash_h MD5_Init)"

abbreviation md4_rep :: "HASH_CTX \<Rightarrow> u8 list \<Rightarrow> bool" where
  "md4_rep \<equiv> hash_rep md4_compress (hash_h MD4_Init)"

lemma md_init_rep: "md5_rep MD5_Init []" "md4_rep MD4_Init []"
  by (rule hash_rep_init, simp add: zero_ctx_def MD5_Init_def MD4_Init_def)+

lemma md_update_rep:
  "md5_rep c m \<Longrightarrow> md5_rep (MD5_Update c x) (m @ x)" "md4_rep c m \<Longrightarrow> md4_rep (MD4_Update c x) (m @ x)"
  unfolding MD5_Update_def MD4_Update_def by (rule md5.rep_update md4.rep_update; assumption)+

lemma md_final_rep:
  "md5_rep c m \<Longrightarrow> snd (MD5_Final c) = Some (md5_digest m)"
  "md4_rep c m \<Longrightarrow> snd (MD4_Final c) = Some (md4_digest m)"
proof -
  assume c: "md5_rep c m"
  let ?h = "foldl md5_compress (hash_h MD5_Init) (chunks64 (md_pad False m))"
  have "length ?h = 4"
    by (rule foldl_length) (simp_all add: md5_compress_def MD5_Init_def split: prod.splits)
  from words_of(1) [OF this, of HOST_l2c_le] show "snd (MD5_Final c) = Some (md5_digest m)"
    unfolding MD5_Final_def md5.final_rep [OF c] Let_def by (simp add: md5_make_string_def md5_digest_def)
next
  assume c: "md4_rep c m"
  let ?h = "foldl md4_compress (hash_h MD4_Init) (chunks64 (md_pad False m))"
  have "length ?h = 4"
    by (rule foldl_length) (simp_all add: md4_compress_def MD4_Init_def split: prod.splits)
  from words_of(1) [OF this, of HOST_l2c_le] show "snd (MD4_Final c) = Some (md4_digest m)"
    unfolding MD4_Final_def md4.final_rep [OF c] Let_def by (simp add: md5_make_string_def md4_digest_def)
qed

end
