(* ===== verification/Digest.thy ===== *)
theory Digest
  imports Sha1 Sha256 Sha512 Md5
begin

text \<open>
  The digest interface, \<^verbatim>\<open>crypto/fipsmodule/digest/digest.c\<close> and \<^verbatim>\<open>digests.c\<close>. A digest is a static
  object \<^verbatim>\<open>EVP_MD\<close> of sizes and function pointers; the code compares digests by address, and the
  constructors of \<open>EVP_MD\<close> stand for the addresses, with \<open>evp_md\<close> giving the object. The state that
  \<^verbatim>\<open>md_data\<close> points to is one of the digest's contexts, or the bytes of a fresh allocation. The
  signing context \<^verbatim>\<open>pctx\<close> of the public-key code is opaque; the \<^verbatim>\<open>dup\<close> of its \<^verbatim>\<open>pctx_ops\<close> is an
  argument. A digest operation on a context without a digest dereferences NULL in the code; the
  definitions leave such a context as it is, and the lemmas assume a digest. The error queue is not
  modelled.

  The locale \<open>digest_methods\<close> is the contract behind the function pointers, interpreted on the eight
  digests of the library: what an object has hashed so far, and that the output is the digest of it.
\<close>

section \<open>Digest methods\<close>

datatype md_data =
    MD_HASH HASH_CTX
  | MD_SHA256 SHA256_CTX
  | MD_SHA512 SHA512_CTX
  | MD_MD5_SHA1 HASH_CTX HASH_CTX
  | MD_RAW "u8 list"

text \<open>The buffer inside a \<^verbatim>\<open>SHA512_CTX\<close>, which follows eight words and the length.\<close>

fun sha512_buffer :: "md_data \<Rightarrow> u8 list" where
  "sha512_buffer (MD_SHA512 c) = sha5_p c"
| "sha512_buffer (MD_RAW b) = take 128 (drop 80 b)"
| "sha512_buffer _ = []"

record env_md_st =
  md_type :: nat
  md_size :: nat
  md_flags :: u32
  md_init :: "md_data \<Rightarrow> md_data"
  md_update :: "md_data \<Rightarrow> u8 list \<Rightarrow> md_data"
  md_final :: "md_data \<Rightarrow> md_data \<times> u8 list option"
  md_block_size :: nat
  md_ctx_size :: nat

definition SIZEOF_MD4_CTX :: nat where "SIZEOF_MD4_CTX = 92"
definition SIZEOF_MD5_CTX :: nat where "SIZEOF_MD5_CTX = 92"
definition SIZEOF_SHA_CTX :: nat where "SIZEOF_SHA_CTX = 96"
definition SIZEOF_SHA256_CTX :: nat where "SIZEOF_SHA256_CTX = 112"
definition SIZEOF_SHA512_CTX :: nat where "SIZEOF_SHA512_CTX = 216"

definition md4_init :: "md_data \<Rightarrow> md_data" where
  "md4_init d = MD_HASH (MD4_Init)"

definition md4_update :: "md_data \<Rightarrow> u8 list \<Rightarrow> md_data" where
  "md4_update d data = (case d of MD_HASH c \<Rightarrow> MD_HASH (MD4_Update c data) | _ \<Rightarrow> d)"

definition md4_final :: "md_data \<Rightarrow> md_data \<times> u8 list option" where
  "md4_final d = (case d of MD_HASH c \<Rightarrow> apfst MD_HASH (MD4_Final c) | _ \<Rightarrow> (d, None))"

definition EVP_md4_method :: env_md_st where
  "EVP_md4_method =
     \<lparr>md_type = 257, md_size = 16, md_flags = 0, md_init = md4_init, md_update = md4_update,
      md_final = md4_final, md_block_size = 64, md_ctx_size = SIZEOF_MD4_CTX\<rparr>"

definition md5_init :: "md_data \<Rightarrow> md_data" where
  "md5_init d = MD_HASH (MD5_Init)"

definition md5_update :: "md_data \<Rightarrow> u8 list \<Rightarrow> md_data" where
  "md5_update d data = (case d of MD_HASH c \<Rightarrow> MD_HASH (MD5_Update c data) | _ \<Rightarrow> d)"

definition md5_final :: "md_data \<Rightarrow> md_data \<times> u8 list option" where
  "md5_final d = (case d of MD_HASH c \<Rightarrow> apfst MD_HASH (MD5_Final c) | _ \<Rightarrow> (d, None))"

definition EVP_md5_method :: env_md_st where
  "EVP_md5_method =
     \<lparr>md_type = 4, md_size = 16, md_flags = 0, md_init = md5_init, md_update = md5_update,
      md_final = md5_final, md_block_size = 64, md_ctx_size = SIZEOF_MD5_CTX\<rparr>"

definition sha1_init :: "md_data \<Rightarrow> md_data" where
  "sha1_init d = MD_HASH (SHA1_Init)"

definition sha1_update :: "md_data \<Rightarrow> u8 list \<Rightarrow> md_data" where
  "sha1_update d data = (case d of MD_HASH c \<Rightarrow> MD_HASH (SHA1_Update c data) | _ \<Rightarrow> d)"

definition sha1_final :: "md_data \<Rightarrow> md_data \<times> u8 list option" where
  "sha1_final d = (case d of MD_HASH c \<Rightarrow> apfst MD_HASH (SHA1_Final c) | _ \<Rightarrow> (d, None))"

definition EVP_sha1_method :: env_md_st where
  "EVP_sha1_method =
     \<lparr>md_type = 64, md_size = 20, md_flags = 0, md_init = sha1_init, md_update = sha1_update,
      md_final = sha1_final, md_block_size = 64, md_ctx_size = SIZEOF_SHA_CTX\<rparr>"

definition sha224_init :: "md_data \<Rightarrow> md_data" where
  "sha224_init d = MD_SHA256 (SHA224_Init)"

definition sha224_update :: "md_data \<Rightarrow> u8 list \<Rightarrow> md_data" where
  "sha224_update d data = (case d of MD_SHA256 c \<Rightarrow> MD_SHA256 (SHA224_Update c data) | _ \<Rightarrow> d)"

definition sha224_final :: "md_data \<Rightarrow> md_data \<times> u8 list option" where
  "sha224_final d = (case d of MD_SHA256 c \<Rightarrow> apfst MD_SHA256 (SHA224_Final c) | _ \<Rightarrow> (d, None))"

definition EVP_sha224_method :: env_md_st where
  "EVP_sha224_method =
     \<lparr>md_type = 675, md_size = SHA224_DIGEST_LENGTH, md_flags = 0, md_init = sha224_init, md_update = sha224_update,
      md_final = sha224_final, md_block_size = 64, md_ctx_size = SIZEOF_SHA256_CTX\<rparr>"

definition sha256_init :: "md_data \<Rightarrow> md_data" where
  "sha256_init d = MD_SHA256 (SHA256_Init)"

definition sha256_update :: "md_data \<Rightarrow> u8 list \<Rightarrow> md_data" where
  "sha256_update d data = (case d of MD_SHA256 c \<Rightarrow> MD_SHA256 (SHA256_Update c data) | _ \<Rightarrow> d)"

definition sha256_final :: "md_data \<Rightarrow> md_data \<times> u8 list option" where
  "sha256_final d = (case d of MD_SHA256 c \<Rightarrow> apfst MD_SHA256 (SHA256_Final c) | _ \<Rightarrow> (d, None))"

definition EVP_sha256_method :: env_md_st where
  "EVP_sha256_method =
     \<lparr>md_type = 672, md_size = SHA256_DIGEST_LENGTH, md_flags = 0, md_init = sha256_init, md_update = sha256_update,
      md_final = sha256_final, md_block_size = 64, md_ctx_size = SIZEOF_SHA256_CTX\<rparr>"

definition sha384_init :: "md_data \<Rightarrow> md_data" where
  "sha384_init d = MD_SHA512 (SHA384_Init (sha512_buffer d))"

definition sha384_update :: "md_data \<Rightarrow> u8 list \<Rightarrow> md_data" where
  "sha384_update d data = (case d of MD_SHA512 c \<Rightarrow> MD_SHA512 (SHA384_Update c data) | _ \<Rightarrow> d)"

definition sha384_final :: "md_data \<Rightarrow> md_data \<times> u8 list option" where
  "sha384_final d = (case d of MD_SHA512 c \<Rightarrow> apfst MD_SHA512 (SHA384_Final True c) | _ \<Rightarrow> (d, None))"

definition EVP_sha384_method :: env_md_st where
  "EVP_sha384_method =
     \<lparr>md_type = 673, md_size = SHA384_DIGEST_LENGTH, md_flags = 0, md_init = sha384_init, md_update = sha384_update,
      md_final = sha384_final, md_block_size = 128, md_ctx_size = SIZEOF_SHA512_CTX\<rparr>"

definition sha512_init :: "md_data \<Rightarrow> md_data" where
  "sha512_init d = MD_SHA512 (SHA512_Init (sha512_buffer d))"

definition sha512_update :: "md_data \<Rightarrow> u8 list \<Rightarrow> md_data" where
  "sha512_update d data = (case d of MD_SHA512 c \<Rightarrow> MD_SHA512 (SHA512_Update c data) | _ \<Rightarrow> d)"

definition sha512_final :: "md_data \<Rightarrow> md_data \<times> u8 list option" where
  "sha512_final d = (case d of MD_SHA512 c \<Rightarrow> apfst MD_SHA512 (SHA512_Final True c) | _ \<Rightarrow> (d, None))"

definition EVP_sha512_method :: env_md_st where
  "EVP_sha512_method =
     \<lparr>md_type = 674, md_size = SHA512_DIGEST_LENGTH, md_flags = 0, md_init = sha512_init, md_update = sha512_update,
      md_final = sha512_final, md_block_size = 128, md_ctx_size = SIZEOF_SHA512_CTX\<rparr>"

text \<open>Both digests side by side; the outputs are written one after the other.\<close>

definition md5_sha1_init :: "md_data \<Rightarrow> md_data" where
  "md5_sha1_init d = MD_MD5_SHA1 MD5_Init SHA1_Init"

definition md5_sha1_update :: "md_data \<Rightarrow> u8 list \<Rightarrow> md_data" where
  "md5_sha1_update d data =
     (case d of MD_MD5_SHA1 a b \<Rightarrow> MD_MD5_SHA1 (MD5_Update a data) (SHA1_Update b data) | _ \<Rightarrow> d)"

definition md5_sha1_final :: "md_data \<Rightarrow> md_data \<times> u8 list option" where
  "md5_sha1_final d =
     (case d of
        MD_MD5_SHA1 a b \<Rightarrow>
          (case (MD5_Final a, SHA1_Final b) of
             ((a, Some x), (b, Some y)) \<Rightarrow> (MD_MD5_SHA1 a b, Some (x @ y))
           | _ \<Rightarrow> (d, None))
      | _ \<Rightarrow> (d, None))"

definition EVP_md5_sha1_method :: env_md_st where
  "EVP_md5_sha1_method =
     \<lparr>md_type = 114, md_size = 36, md_flags = 0, md_init = md5_sha1_init, md_update = md5_sha1_update,
      md_final = md5_sha1_final, md_block_size = 64, md_ctx_size = SIZEOF_MD5_CTX + SIZEOF_SHA_CTX\<rparr>"

datatype EVP_MD = EVP_md4 | EVP_md5 | EVP_sha1 | EVP_sha224 | EVP_sha256 | EVP_sha384 | EVP_sha512 | EVP_md5_sha1

fun evp_md :: "EVP_MD \<Rightarrow> env_md_st" where
  "evp_md EVP_md4 = EVP_md4_method"
| "evp_md EVP_md5 = EVP_md5_method"
| "evp_md EVP_sha1 = EVP_sha1_method"
| "evp_md EVP_sha224 = EVP_sha224_method"
| "evp_md EVP_sha256 = EVP_sha256_method"
| "evp_md EVP_sha384 = EVP_sha384_method"
| "evp_md EVP_sha512 = EVP_sha512_method"
| "evp_md EVP_md5_sha1 = EVP_md5_sha1_method"

definition EVP_MD_type :: "EVP_MD \<Rightarrow> nat" where "EVP_MD_type d = md_type (evp_md d)"
definition EVP_MD_flags :: "EVP_MD \<Rightarrow> u32" where "EVP_MD_flags d = md_flags (evp_md d)"
definition EVP_MD_size :: "EVP_MD \<Rightarrow> nat" where "EVP_MD_size d = md_size (evp_md d)"
definition EVP_MD_block_size :: "EVP_MD \<Rightarrow> nat" where "EVP_MD_block_size d = md_block_size (evp_md d)"

section \<open>Contexts\<close>

record 'p EVP_MD_CTX =
  ctx_digest :: "EVP_MD option"
  ctx_md_data :: "md_data option"
  ctx_pctx :: "'p option"

definition EVP_MD_CTX_init :: "'p EVP_MD_CTX" where
  "EVP_MD_CTX_init = \<lparr>ctx_digest = None, ctx_md_data = None, ctx_pctx = None\<rparr>"

definition EVP_MD_CTX_cleanup :: "'p EVP_MD_CTX \<Rightarrow> 'p EVP_MD_CTX" where
  "EVP_MD_CTX_cleanup ctx = EVP_MD_CTX_init"

definition EVP_MD_CTX_reset :: "'p EVP_MD_CTX \<Rightarrow> 'p EVP_MD_CTX" where
  "EVP_MD_CTX_reset ctx = (let ctx = EVP_MD_CTX_cleanup ctx in EVP_MD_CTX_init)"

text \<open>\<open>OPENSSL_cleanse\<close> on each of the states.\<close>

definition hash_zero :: "'a HASH_CTX_scheme \<Rightarrow> 'a HASH_CTX_scheme" where
  "hash_zero c =
     c\<lparr>hash_h := replicate (length (hash_h c)) 0, hash_Nl := 0, hash_Nh := 0,
       hash_data := replicate (length (hash_data c)) 0, hash_num := 0\<rparr>"

fun md_cleanse :: "md_data \<Rightarrow> md_data" where
  "md_cleanse (MD_HASH c) = MD_HASH (hash_zero c)"
| "md_cleanse (MD_SHA256 c) = MD_SHA256 ((hash_zero c)\<lparr>sha_md_len := 0\<rparr>)"
| "md_cleanse (MD_SHA512 c) =
     MD_SHA512 \<lparr>sha5_h = replicate (length (sha5_h c)) 0, sha5_Nl = 0, sha5_Nh = 0,
       sha5_p = replicate (length (sha5_p c)) 0, sha5_num = 0, sha5_md_len = 0\<rparr>"
| "md_cleanse (MD_MD5_SHA1 a b) = MD_MD5_SHA1 (hash_zero a) (hash_zero b)"
| "md_cleanse (MD_RAW b) = MD_RAW (replicate (length b) 0)"

definition EVP_DigestInit_ex :: "allocator \<Rightarrow> 'p EVP_MD_CTX \<Rightarrow> EVP_MD \<Rightarrow> bool \<times> 'p EVP_MD_CTX" where
  "EVP_DigestInit_ex mal ctx type =
     (if ctx_digest ctx \<noteq> Some type then
        (case OPENSSL_malloc mal (md_ctx_size (evp_md type)) of
           None \<Rightarrow> (False, ctx)
         | Some b \<Rightarrow> (True, ctx\<lparr>ctx_md_data := Some (md_init (evp_md type) (MD_RAW b)), ctx_digest := Some type\<rparr>))
      else (True, ctx\<lparr>ctx_md_data := map_option (md_init (evp_md type)) (ctx_md_data ctx)\<rparr>))"

definition EVP_DigestInit :: "allocator \<Rightarrow> EVP_MD \<Rightarrow> bool \<times> 'p EVP_MD_CTX" where
  "EVP_DigestInit mal type = EVP_DigestInit_ex mal EVP_MD_CTX_init type"

definition EVP_DigestUpdate :: "'p EVP_MD_CTX \<Rightarrow> u8 list \<Rightarrow> 'p EVP_MD_CTX" where
  "EVP_DigestUpdate ctx data =
     (case (ctx_digest ctx, ctx_md_data ctx) of
        (Some type, Some d) \<Rightarrow> ctx\<lparr>ctx_md_data := Some (md_update (evp_md type) d data)\<rparr>
      | _ \<Rightarrow> ctx)"

text \<open>The output, and the size it reports.\<close>

definition EVP_DigestFinal_ex :: "'p EVP_MD_CTX \<Rightarrow> 'p EVP_MD_CTX \<times> u8 list option \<times> nat" where
  "EVP_DigestFinal_ex ctx =
     (case (ctx_digest ctx, ctx_md_data ctx) of
        (Some type, Some d) \<Rightarrow>
          (case md_final (evp_md type) d of
             (d, out) \<Rightarrow> (ctx\<lparr>ctx_md_data := Some (md_cleanse d)\<rparr>, out, md_size (evp_md type)))
      | _ \<Rightarrow> (ctx, None, 0))"

definition EVP_DigestFinal :: "'p EVP_MD_CTX \<Rightarrow> 'p EVP_MD_CTX \<times> u8 list option \<times> nat" where
  "EVP_DigestFinal ctx =
     (case EVP_DigestFinal_ex ctx of (ctx, out, sz) \<Rightarrow> (EVP_MD_CTX_cleanup ctx, out, sz))"

definition EVP_Digest :: "allocator \<Rightarrow> u8 list \<Rightarrow> EVP_MD \<Rightarrow> bool \<times> u8 list option \<times> nat" where
  "EVP_Digest mal data type =
     (case EVP_DigestInit_ex mal (EVP_MD_CTX_init :: unit EVP_MD_CTX) type of
        (False, ctx) \<Rightarrow> (False, None, 0)
      | (True, ctx) \<Rightarrow>
          (case EVP_DigestFinal_ex (EVP_DigestUpdate ctx data) of (_, out, sz) \<Rightarrow> (True, out, sz)))"

text \<open>\<open>in\<close> is \<open>None\<close> when it is NULL; \<open>out\<close> and \<open>in\<close> are different objects.\<close>

definition EVP_MD_CTX_copy_ex ::
    "allocator \<Rightarrow> ('p \<Rightarrow> 'p option) \<Rightarrow> 'p EVP_MD_CTX \<Rightarrow> 'p EVP_MD_CTX option \<Rightarrow> bool \<times> 'p EVP_MD_CTX" where
  "EVP_MD_CTX_copy_ex mal dup out inp =
     (case inp of
        None \<Rightarrow> (False, out)
      | Some ctx \<Rightarrow>
          if ctx_pctx ctx = None \<and> ctx_digest ctx = None then (False, out)
          else
            (case (case ctx_pctx ctx of None \<Rightarrow> Some None | Some p \<Rightarrow> map_option Some (dup p)) of
               None \<Rightarrow> (False, out)
             | Some pctx \<Rightarrow>
                 (case ctx_digest ctx of
                    None \<Rightarrow> (True, (EVP_MD_CTX_cleanup out)\<lparr>ctx_pctx := pctx\<rparr>)
                  | Some d \<Rightarrow>
                      if ctx_digest out \<noteq> Some d \<and> OPENSSL_malloc mal (md_ctx_size (evp_md d)) = None
                      then (False, out)
                      else (True, (EVP_MD_CTX_cleanup out)
                              \<lparr>ctx_digest := Some d, ctx_md_data := ctx_md_data ctx, ctx_pctx := pctx\<rparr>))))"

definition EVP_MD_CTX_copy ::
    "allocator \<Rightarrow> ('p \<Rightarrow> 'p option) \<Rightarrow> 'p EVP_MD_CTX option \<Rightarrow> bool \<times> 'p EVP_MD_CTX" where
  "EVP_MD_CTX_copy mal dup inp = EVP_MD_CTX_copy_ex mal dup EVP_MD_CTX_init inp"

section \<open>Well-formed states\<close>

definition hash_fits :: "nat \<Rightarrow> 'a HASH_CTX_scheme \<Rightarrow> bool" where
  "hash_fits k c \<longleftrightarrow> length (hash_h c) = k \<and> length (hash_data c) = 64 \<and> hash_num c < 64"

definition sha512_fits :: "SHA512_CTX \<Rightarrow> bool" where
  "sha512_fits c \<longleftrightarrow> length (sha5_h c) = 8 \<and> length (sha5_p c) = 128 \<and> sha5_num c < 128"

fun md_fits :: "EVP_MD \<Rightarrow> md_data \<Rightarrow> bool" where
  "md_fits EVP_md4 (MD_HASH c) = hash_fits 4 c"
| "md_fits EVP_md5 (MD_HASH c) = hash_fits 4 c"
| "md_fits EVP_sha1 (MD_HASH c) = hash_fits 5 c"
| "md_fits EVP_sha224 (MD_SHA256 c) = hash_fits 8 c"
| "md_fits EVP_sha256 (MD_SHA256 c) = hash_fits 8 c"
| "md_fits EVP_sha384 (MD_SHA512 c) = sha512_fits c"
| "md_fits EVP_sha512 (MD_SHA512 c) = sha512_fits c"
| "md_fits EVP_md5_sha1 (MD_MD5_SHA1 a b) = (hash_fits 4 a \<and> hash_fits 5 b)"
| "md_fits _ _ = False"

fun_cases md_fitsE: "md_fits d x"

lemma length_copy_at: "n + length x \<le> length d \<Longrightarrow> length (copy_at d n x) = length d"
  by (simp add: copy_at_def)

lemma hash_fits_blocks:
  assumes "\<And>h d n. 0 < n \<Longrightarrow> length (block h d n) = k" "hash_fits k c"
  shows "hash_fits k (hash_update_blocks block c x)"
proof -
  have "length (drop (length x div 64 * 64) x) < 64"
    by (simp add: minus_div_mult_eq_mod)
  then show ?thesis
    using assms by (auto simp: hash_fits_def hash_update_blocks_def Let_def HASH_CBLOCK_def copy_at_def)
qed

lemma hash_fits_update:
  assumes b: "\<And>h d n. 0 < n \<Longrightarrow> length (block h d n) = k" and c: "hash_fits k c"
  shows "hash_fits k (HASH_UPDATE block c x)"
proof -
  have lens: "hash_fits k (c\<lparr>hash_Nl := l, hash_Nh := h\<rparr>)" for l h
    using c by (simp add: hash_fits_def)
  have part: "length x + hash_num c < 64"
    if "\<not> (64 \<le> length x \<or> 64 \<le> (length x + hash_num c) mod SIZE_MOD)"
  proof -
    have "length x + hash_num c < SIZE_MOD" using that c by (simp add: hash_fits_def SIZE_MOD_def)
    with that show ?thesis by simp
  qed
  have full: "hash_fits k (c\<lparr>hash_Nl := l, hash_Nh := h, hash_h := block (hash_h c) d 1, hash_num := 0,
      hash_data := replicate 64 0\<rparr>)" for l h d
    using b by (simp add: hash_fits_def)
  show ?thesis
    unfolding HASH_UPDATE_def Let_def HASH_CBLOCK_def
    using c part hash_fits_blocks [OF b lens] hash_fits_blocks [OF b full]
    by (auto simp: hash_fits_def length_copy_at)
qed

lemma hash_fits_final:
  assumes b: "\<And>h d n. 0 < n \<Longrightarrow> length (block h d n) = k"
  shows "hash_fits k (fst (HASH_FINAL block big mk c))"
  unfolding HASH_FINAL_def Let_def HASH_CBLOCK_def using b by (simp add: hash_fits_def split: prod.splits)

lemma sha512_fits_blocks: "sha512_fits c \<Longrightarrow> (\<And>h d n. length h = 8 \<Longrightarrow> length (sha512_block_data_order h d n) = 8) \<Longrightarrow>
   sha512_fits (sha512_update_blocks c x)"
  by (auto simp: sha512_fits_def sha512_update_blocks_def Let_def length_copy_at)

lemma order_length:
  assumes loop: "\<And>h d n. block h d (Suc n) = (if n = 0 then g h d else block (g h d) (drop 64 d) n)"
    and one: "\<And>h d. length (g h d) = k"
  shows "0 < n \<Longrightarrow> length (block h d n) = k"
proof (induction n arbitrary: h d)
  case (Suc n) then show ?case by (cases "n = 0") (simp_all add: loop one)
qed simp

lemma block_length:
  "length (md4_block h d) = 4" "length (md5_block h d) = 4" "length (sha1_block h d) = 5"
  "length (sha256_block h d) = 8" "length (sha512_block g d) = 8"
  by (simp_all add: md4_block_def md5_block_def sha1_block_def sha256_block_def sha512_block_def Let_def
      del: upt.simps upt_conv_Cons split: prod.splits)

lemma block_order_length:
  "0 < n \<Longrightarrow> length (md4_block_data_order h d n) = 4" "0 < n \<Longrightarrow> length (md5_block_data_order h d n) = 4"
  "0 < n \<Longrightarrow> length (sha1_block_data_order h d n) = 5" "0 < n \<Longrightarrow> length (sha256_block_data_order h d n) = 8"
  by (rule order_length [where g = md4_block] order_length [where g = md5_block]
      order_length [where g = sha1_block] order_length [where g = sha256_block];
      simp add: block_length)+

lemma sha512_order_length: "length h = 8 \<Longrightarrow> length (sha512_block_data_order h d n) = 8"
  by (induction n arbitrary: h d) (simp_all add: block_length)

lemma sha512_fits_update:
  assumes c: "sha512_fits c"
  shows "sha512_fits (SHA512_Update c x)"
proof -
  have lens: "sha512_fits (c\<lparr>sha5_Nl := l, sha5_Nh := h\<rparr>)" for l h
    using c by (simp add: sha512_fits_def)
  have full: "sha512_fits (c\<lparr>sha5_Nl := l, sha5_Nh := h, sha5_p := copy_at (sha5_p c) (sha5_num c) (take (128 - sha5_num c) x),
      sha5_num := 0, sha5_h := sha512_block_data_order (sha5_h c) d 1\<rparr>)" if "128 - sha5_num c \<le> length x" for l h d
    using c that by (simp add: sha512_fits_def length_copy_at block_length)
  have part: "sha512_fits (c\<lparr>sha5_Nl := l, sha5_Nh := h, sha5_p := copy_at (sha5_p c) (sha5_num c) x,
      sha5_num := sha5_num c + length x\<rparr>)" if "length x < 128 - sha5_num c" for l h
    using c that by (simp add: sha512_fits_def length_copy_at)
  note blocks = sha512_fits_blocks [OF _ sha512_order_length]
  show ?thesis
    unfolding SHA512_Update_def Let_def
    using c part blocks [OF lens] blocks [OF full] by (simp add: not_less)
qed

lemma sha512_fits_final: "sha512_fits c \<Longrightarrow> sha512_fits (fst (SHA512_Final out c))"
  unfolding SHA512_Final_def Let_def
  by (auto simp: sha512_fits_def length_copy_at block_length sha512_order_length)

lemma hash_fits_zero: "hash_fits k c \<Longrightarrow> hash_fits k (hash_zero c)"
  by (simp add: hash_fits_def hash_zero_def)

lemmas md_method_defs = EVP_md4_method_def EVP_md5_method_def EVP_sha1_method_def EVP_sha224_method_def
  EVP_sha256_method_def EVP_sha384_method_def EVP_sha512_method_def EVP_md5_sha1_method_def

lemmas md_init_defs = md4_init_def md5_init_def sha1_init_def sha224_init_def sha256_init_def sha384_init_def
  sha512_init_def md5_sha1_init_def

lemmas md_update_defs = md4_update_def md5_update_def sha1_update_def sha224_update_def sha256_update_def
  sha384_update_def sha512_update_def md5_sha1_update_def

lemmas md_final_defs = md4_final_def md5_final_def sha1_final_def sha224_final_def sha256_final_def
  sha384_final_def sha512_final_def md5_sha1_final_def

lemma md_init_fits: "length b = md_ctx_size (evp_md d) \<Longrightarrow> md_fits d (md_init (evp_md d) (MD_RAW b))"
  by (cases d) (simp_all add: md_method_defs md_init_defs hash_fits_def sha512_fits_def MD4_Init_def MD5_Init_def
    SHA1_Init_def SHA224_Init_def SHA256_Init_def SHA384_Init_def SHA512_Init_def SIZEOF_SHA512_CTX_def)

lemma md_reinit_fits: "md_fits d x \<Longrightarrow> md_fits d (md_init (evp_md d) x)"
  by (elim md_fitsE) (simp_all add: md_method_defs md_init_defs hash_fits_def sha512_fits_def MD4_Init_def
    MD5_Init_def SHA1_Init_def SHA224_Init_def SHA256_Init_def SHA384_Init_def SHA512_Init_def)

lemma md_update_fits: "md_fits d x \<Longrightarrow> md_fits d (md_update (evp_md d) x y)"
  by (elim md_fitsE) (simp_all add: md_method_defs md_update_defs hash_fits_update block_order_length
    sha512_fits_update MD4_Update_def MD5_Update_def SHA1_Update_def SHA224_Update_def SHA256_Update_def
    SHA384_Update_def)

lemma md_cleanse_fits: "md_fits d x \<Longrightarrow> md_fits d (md_cleanse x)"
  by (elim md_fitsE) (simp_all add: hash_fits_zero, simp_all add: hash_fits_def hash_zero_def sha512_fits_def)

lemma final_fits:
  "hash_fits 4 (fst (MD4_Final c))" "hash_fits 4 (fst (MD5_Final c))" "hash_fits 5 (fst (SHA1_Final c))"
  "hash_fits 8 (fst (SHA256_Final e))"
  by (simp_all add: MD4_Final_def MD5_Final_def SHA1_Final_def SHA256_Final_def hash_fits_final block_order_length)

lemma fst_apfst: "fst (apfst f p) = f (fst p)"
  by (cases p) simp

lemma md_final_fits:
  assumes "md_fits d x"
  shows "md_fits d (fst (md_final (evp_md d) x))"
  using assms
proof (elim md_fitsE)
  fix a b assume e: "d = EVP_md5_sha1" "x = MD_MD5_SHA1 a b" "hash_fits 4 a" "hash_fits 5 b"
  then show ?thesis
    using final_fits(2) [of a] final_fits(3) [of b]
    by (cases "MD5_Final a"; cases "SHA1_Final b") (auto simp: md_method_defs md_final_defs split: option.splits)
qed (simp_all add: md_method_defs md_final_defs final_fits sha512_fits_final SHA224_Final_def SHA384_Final_def fst_apfst)

section \<open>What has been hashed\<close>

text \<open>The digest of a message, by the standards.\<close>

fun md_digest :: "EVP_MD \<Rightarrow> u8 list \<Rightarrow> u8 list" where
  "md_digest EVP_md4 m = md4_digest m"
| "md_digest EVP_md5 m = md5_digest m"
| "md_digest EVP_sha1 m = sha1_digest m"
| "md_digest EVP_sha224 m = sha224_digest m"
| "md_digest EVP_sha256 m = sha256_digest m"
| "md_digest EVP_sha384 m = sha384_digest m"
| "md_digest EVP_sha512 m = sha512_digest m"
| "md_digest EVP_md5_sha1 m = md5_digest m @ sha1_digest m"

fun md_rep :: "EVP_MD \<Rightarrow> md_data \<Rightarrow> u8 list \<Rightarrow> bool" where
  "md_rep EVP_md4 (MD_HASH c) m = md4_rep c m"
| "md_rep EVP_md5 (MD_HASH c) m = md5_rep c m"
| "md_rep EVP_sha1 (MD_HASH c) m = sha1_rep c m"
| "md_rep EVP_sha224 (MD_SHA256 c) m = sha256_rep SHA224_Init c m"
| "md_rep EVP_sha256 (MD_SHA256 c) m = sha256_rep SHA256_Init c m"
| "md_rep EVP_sha384 (MD_SHA512 c) m = sha512_state (SHA384_Init []) c m"
| "md_rep EVP_sha512 (MD_SHA512 c) m = sha512_state (SHA512_Init []) c m"
| "md_rep EVP_md5_sha1 (MD_MD5_SHA1 a b) m = (md5_rep a m \<and> sha1_rep b m)"
| "md_rep _ _ _ = False"

fun_cases md_repE: "md_rep d x m"

lemma md_init_rep_raw: "length b = md_ctx_size (evp_md d) \<Longrightarrow> md_rep d (md_init (evp_md d) (MD_RAW b)) []"
  by (cases d) (simp_all add: md_method_defs md_init_defs md_init_rep sha1_init_rep sha256_init_rep [simplified]
    sha512_init_state [simplified] SIZEOF_SHA512_CTX_def)

lemma md_init_rep_fits: "md_fits d x \<Longrightarrow> md_rep d (md_init (evp_md d) x) []"
  by (elim md_fitsE) (simp_all add: md_method_defs md_init_defs md_init_rep sha1_init_rep sha256_init_rep [simplified]
    sha512_init_state [simplified] sha512_fits_def)

lemma md_update_rep_all: "md_rep d x m \<Longrightarrow> md_rep d (md_update (evp_md d) x y) (m @ y)"
  by (elim md_repE) (simp_all add: md_method_defs md_update_defs md_update_rep sha1_update_rep
    sha256_update_rep [THEN conjunct1] SHA224_Update_def SHA384_Update_def sha512_rep_update)

lemma snd_apfst: "snd (apfst f p) = snd p"
  by (cases p) simp

lemma md_final_rep_all:
  assumes "md_rep d x m"
  shows "snd (md_final (evp_md d) x) = Some (md_digest d m)"
  using assms
proof (elim md_repE)
  fix a b assume e: "d = EVP_md5_sha1" "x = MD_MD5_SHA1 a b" "md5_rep a m" "sha1_rep b m"
  then show ?thesis
    using md_final_rep(1) [of a m] sha1_final_rep [of b m]
    by (cases "MD5_Final a"; cases "SHA1_Final b") (simp add: md_method_defs md_final_defs)
qed (simp_all add: md_method_defs md_final_defs snd_apfst md_final_rep sha1_final_rep sha256_final_rep sha512_final_state)

lemma hash_rep_fits:
  assumes "hash_rep f h0 c m" "length h0 = k" "\<And>h b. length (f h b) = k"
  shows "hash_fits k c"
proof -
  have "length (foldl f h0 (chunks64 m)) = k" by (rule foldl_length [OF assms(3,2)])
  moreover have "length m mod 64 < 64" by simp
  ultimately show ?thesis
    using assms(1) tail_length [of 64 m] by (simp add: hash_rep_def hash_core_def hash_fits_def)
qed

lemma sha512_rep_fits:
  assumes "sha512_rep h0 c m" "length h0 = 8"
  shows "sha512_fits c"
  using assms sha512_state_length [of h0 "chunks 128 m"] by (simp add: sha512_rep_def sha512_core_def sha512_fits_def)

lemma compress_length:
  "length (md4_compress h d) = 4" "length (md5_compress h d) = 4" "length (sha1_compress h d) = 5"
  "length (sha256_compress h d) = 8"
  by (simp_all add: block_length flip: md4_block_compress md5_block_compress sha1_block_compress sha256_block_compress)

lemma md_rep_fits: "md_rep d x m \<Longrightarrow> md_fits d x"
  by (elim md_repE) (auto intro!: hash_rep_fits sha512_rep_fits simp: compress_length
    MD4_Init_def MD5_Init_def SHA1_Init_def SHA224_Init_def SHA256_Init_def SHA384_Init_def SHA512_Init_def)

section \<open>The contract of the methods\<close>

text \<open>A context that has hashed \<open>m\<close> with the digest \<open>d\<close>, and a context that may be initialised.\<close>

definition ctx_holds ::
    "(EVP_MD \<Rightarrow> md_data \<Rightarrow> u8 list \<Rightarrow> bool) \<Rightarrow> 'p EVP_MD_CTX \<Rightarrow> EVP_MD \<Rightarrow> u8 list \<Rightarrow> bool" where
  "ctx_holds R ctx d m \<longleftrightarrow>
     ctx_digest ctx = Some d \<and> (case ctx_md_data ctx of None \<Rightarrow> False | Some x \<Rightarrow> R d x m)"

definition ctx_fits :: "(EVP_MD \<Rightarrow> md_data \<Rightarrow> bool) \<Rightarrow> 'p EVP_MD_CTX \<Rightarrow> bool" where
  "ctx_fits F ctx \<longleftrightarrow>
     (case ctx_digest ctx of
        None \<Rightarrow> ctx_md_data ctx = None
      | Some d \<Rightarrow> (case ctx_md_data ctx of None \<Rightarrow> False | Some x \<Rightarrow> F d x))"

locale digest_methods =
  fixes F :: "EVP_MD \<Rightarrow> md_data \<Rightarrow> bool"
    and R :: "EVP_MD \<Rightarrow> md_data \<Rightarrow> u8 list \<Rightarrow> bool"
    and D :: "EVP_MD \<Rightarrow> u8 list \<Rightarrow> u8 list"
  assumes init_raw: "length b = md_ctx_size (evp_md d) \<Longrightarrow> R d (md_init (evp_md d) (MD_RAW b)) []"
    and init_again: "F d x \<Longrightarrow> R d (md_init (evp_md d) x) []"
    and rep_fits: "R d x m \<Longrightarrow> F d x"
    and update: "R d x m \<Longrightarrow> R d (md_update (evp_md d) x y) (m @ y)"
    and update_fits: "F d x \<Longrightarrow> F d (md_update (evp_md d) x y)"
    and finish: "R d x m \<Longrightarrow> snd (md_final (evp_md d) x) = Some (D d m)"
    and finish_fits: "F d x \<Longrightarrow> F d (md_cleanse (fst (md_final (evp_md d) x)))"
    and digest_length: "length (D d m) = md_size (evp_md d)"
    and small: "md_ctx_size (evp_md d) \<le> 216"
begin

lemma holds_fits: "ctx_holds R ctx d m \<Longrightarrow> ctx_fits F ctx"
  by (auto simp: ctx_holds_def ctx_fits_def rep_fits split: option.splits)

lemma init_holds:
  assumes "malloc_contract mal" "ctx_fits F ctx" "EVP_DigestInit_ex mal ctx d = (True, ctx')"
  shows "ctx_holds R ctx' d []" "ctx_pctx ctx' = ctx_pctx ctx"
proof -
  have len: "length b = md_ctx_size (evp_md d)" if "OPENSSL_malloc mal (md_ctx_size (evp_md d)) = Some b" for b
    using OPENSSL_malloc_length(1) [OF assms(1) _ that] small [of d] by simp
  from assms(2,3) len show "ctx_holds R ctx' d []" "ctx_pctx ctx' = ctx_pctx ctx"
    by (auto simp: EVP_DigestInit_ex_def ctx_holds_def ctx_fits_def init_raw init_again
        split: if_splits option.splits)
qed

lemma init_again_works: "ctx_digest ctx = Some d \<Longrightarrow> fst (EVP_DigestInit_ex mal ctx d)"
  by (simp add: EVP_DigestInit_ex_def)

lemma init_works: "malloc_total mal \<Longrightarrow> fst (EVP_DigestInit_ex mal ctx d)"
  using malloc_total_malloc [of mal "md_ctx_size (evp_md d)"] small [of d]
  by (auto simp: EVP_DigestInit_ex_def split: option.splits)

lemma init_fails: "\<not> fst (EVP_DigestInit_ex mal ctx d) \<Longrightarrow> snd (EVP_DigestInit_ex mal ctx d) = ctx"
  by (auto simp: EVP_DigestInit_ex_def split: option.splits)

lemma update_holds: "ctx_holds R ctx d m \<Longrightarrow> ctx_holds R (EVP_DigestUpdate ctx x) d (m @ x)"
  by (auto simp: ctx_holds_def EVP_DigestUpdate_def update split: option.splits)

lemma updates_hold: "ctx_holds R ctx d m \<Longrightarrow> ctx_holds R (foldl EVP_DigestUpdate ctx xs) d (m @ concat xs)"
proof (induction xs arbitrary: ctx m)
  case (Cons x xs)
  from Cons.IH [OF update_holds [OF Cons.prems]] show ?case by simp
qed simp

lemma update_fits_ctx: "ctx_fits F ctx \<Longrightarrow> ctx_fits F (EVP_DigestUpdate ctx x)"
  by (auto simp: ctx_fits_def EVP_DigestUpdate_def update_fits split: option.splits)

lemma final_holds:
  assumes "ctx_holds R ctx d m"
  obtains ctx' where "EVP_DigestFinal_ex ctx = (ctx', Some (D d m), length (D d m))"
    "ctx_digest ctx' = Some d" "ctx_fits F ctx'" "ctx_pctx ctx' = ctx_pctx ctx"
proof -
  obtain x where x: "ctx_digest ctx = Some d" "ctx_md_data ctx = Some x" "R d x m"
    using assms by (auto simp: ctx_holds_def split: option.splits)
  let ?c = "ctx\<lparr>ctx_md_data := Some (md_cleanse (fst (md_final (evp_md d) x)))\<rparr>"
  have "EVP_DigestFinal_ex ctx = (?c, Some (D d m), length (D d m))"
    using finish [OF x(3)] x(1,2) by (cases "md_final (evp_md d) x") (simp add: EVP_DigestFinal_ex_def digest_length)
  moreover have "ctx_fits F ?c"
    using finish_fits [OF rep_fits [OF x(3)]] x(1) by (simp add: ctx_fits_def)
  ultimately show ?thesis using that x(1) by simp
qed

lemma final_fits_ctx: "ctx_fits F ctx \<Longrightarrow> ctx_fits F (fst (EVP_DigestFinal_ex ctx))"
  by (auto simp: ctx_fits_def EVP_DigestFinal_ex_def finish_fits split: option.splits prod.splits)
    (metis finish_fits fst_conv)

lemma copy_holds:
  assumes "EVP_MD_CTX_copy_ex mal dup out (Some inp) = (True, out')" "ctx_holds R inp d m"
  shows "ctx_holds R out' d m"
  using assms by (auto simp: EVP_MD_CTX_copy_ex_def ctx_holds_def split: if_splits option.splits)

lemma copy_fits:
  assumes "EVP_MD_CTX_copy_ex mal dup out inp = (r, out')" "ctx_fits F out" "\<And>c. inp = Some c \<Longrightarrow> ctx_fits F c"
  shows "ctx_fits F out'"
  using assms by (auto simp: EVP_MD_CTX_copy_ex_def ctx_fits_def EVP_MD_CTX_cleanup_def EVP_MD_CTX_init_def
      split: if_splits option.splits)

lemma copy_works:
  assumes "ctx_digest inp = Some d" "ctx_pctx inp = None" "ctx_digest out = Some d \<or> malloc_total mal"
  obtains out' where "EVP_MD_CTX_copy_ex mal dup out (Some inp) = (True, out')" "ctx_digest out' = Some d" "ctx_pctx out' = None"
  using assms malloc_total_malloc [of mal "md_ctx_size (evp_md d)"] small [of d]
  by (auto simp: EVP_MD_CTX_copy_ex_def)

end

lemma words_length:
  "length (concat (map HOST_l2c_be h)) = 4 * length h" "length (concat (map HOST_l2c_le h)) = 4 * length h"
  "length (concat (map word_bytes g)) = 8 * length g"
  by (induction h; simp add: HOST_l2c_be_def HOST_l2c_le_def)+ (induction g; simp)

lemma md_digest_length: "length (md_digest d m) = md_size (evp_md d)"
  by (cases d) (simp_all add: md_method_defs md4_digest_def md5_digest_def sha1_digest_def sha224_digest_def
    sha256_digest_def sha384_digest_def sha512_digest_def words_length foldl_length [OF compress_length(1)]
    foldl_length [OF compress_length(2)] foldl_length [OF compress_length(3)] foldl_length [OF compress_length(4)]
    sha512_state_length MD4_Init_def MD5_Init_def SHA1_Init_def SHA224_Init_def SHA256_Init_def SHA384_Init_def
    SHA512_Init_def SHA224_DIGEST_LENGTH_def SHA256_DIGEST_LENGTH_def SHA384_DIGEST_LENGTH_def SHA512_DIGEST_LENGTH_def)

interpretation evp: digest_methods md_fits md_rep md_digest
proof
  show "md_ctx_size (evp_md d) \<le> 216" for d
    by (cases d) (simp_all add: md_method_defs SIZEOF_MD4_CTX_def SIZEOF_MD5_CTX_def SIZEOF_SHA_CTX_def
      SIZEOF_SHA256_CTX_def SIZEOF_SHA512_CTX_def)
qed (simp_all add: md_init_rep_raw md_init_rep_fits md_rep_fits md_update_rep_all md_update_fits md_final_rep_all
  md_cleanse_fits md_final_fits md_digest_length)

end
