(* ===== verification/Hmac.thy ===== *)
theory Hmac
  imports Digest
begin

text \<open>
  HMAC, \<^verbatim>\<open>crypto/fipsmodule/hmac/hmac.c\<close>. The code keeps the two keyed states \<^verbatim>\<open>i_ctx\<close> and \<^verbatim>\<open>o_ctx\<close> and copies them for every message, so that a context is used again
  without its key. The lemmas rest on the interpretation \<open>evp\<close> of the contract of the digests; the
  reference is RFC 2104. A pointer to a key is \<open>None\<close> when it is NULL; no context of
  HMAC has a signing context, and its type is \<open>unit\<close>.
\<close>

unbundle bit_operations_syntax

section \<open>Contexts\<close>

definition EVP_MAX_MD_BLOCK_SIZE :: nat where "EVP_MAX_MD_BLOCK_SIZE = 128"

record HMAC_CTX =
  hmac_md :: "EVP_MD option"
  hmac_md_ctx :: "unit EVP_MD_CTX"
  hmac_i_ctx :: "unit EVP_MD_CTX"
  hmac_o_ctx :: "unit EVP_MD_CTX"

definition HMAC_CTX_init :: HMAC_CTX where
  "HMAC_CTX_init =
     \<lparr>hmac_md = None, hmac_md_ctx = EVP_MD_CTX_init, hmac_i_ctx = EVP_MD_CTX_init, hmac_o_ctx = EVP_MD_CTX_init\<rparr>"

text \<open>The cleanup clears the whole object.\<close>

definition HMAC_CTX_cleanup :: "HMAC_CTX \<Rightarrow> HMAC_CTX" where
  "HMAC_CTX_cleanup ctx =
     \<lparr>hmac_md = None, hmac_md_ctx = EVP_MD_CTX_cleanup (hmac_md_ctx ctx),
      hmac_i_ctx = EVP_MD_CTX_cleanup (hmac_i_ctx ctx), hmac_o_ctx = EVP_MD_CTX_cleanup (hmac_o_ctx ctx)\<rparr>"

text \<open>What a digest wrote to a buffer.\<close>

definition written :: "u8 list option \<Rightarrow> u8 list" where
  "written out = (case out of Some b \<Rightarrow> b | None \<Rightarrow> [])"

section \<open>Keys\<close>

text \<open>The key in a block of the largest size, hashed when it is longer than the block of the digest,
  and padded with zeros.\<close>

definition hmac_key_block ::
    "allocator \<Rightarrow> unit EVP_MD_CTX \<Rightarrow> EVP_MD \<Rightarrow> u8 list \<Rightarrow> u8 list option \<times> unit EVP_MD_CTX" where
  "hmac_key_block mal md_ctx md key =
     (if EVP_MD_block_size md < length key then
        (case EVP_DigestInit_ex mal md_ctx md of
           (False, c) \<Rightarrow> (None, c)
         | (True, c) \<Rightarrow>
             (case EVP_DigestFinal_ex (EVP_DigestUpdate c key) of
                (c, out, n) \<Rightarrow> (Some (written out @ replicate (EVP_MAX_MD_BLOCK_SIZE - n) 0), c)))
      else (Some (key @ replicate (EVP_MAX_MD_BLOCK_SIZE - length key) 0), md_ctx))"

definition hmac_pad_ctx ::
    "allocator \<Rightarrow> unit EVP_MD_CTX \<Rightarrow> EVP_MD \<Rightarrow> u8 \<Rightarrow> u8 list \<Rightarrow> bool \<times> unit EVP_MD_CTX" where
  "hmac_pad_ctx mal c md x key_block =
     (let pad = map (\<lambda>b. x XOR b) key_block
      in case EVP_DigestInit_ex mal c md of
           (False, c) \<Rightarrow> (False, c)
         | (True, c) \<Rightarrow> (True, EVP_DigestUpdate c (take (EVP_MD_block_size md) pad)))"

text \<open>The keyed part. Each failure leaves the context as far as it has come.\<close>

definition hmac_set_key :: "allocator \<Rightarrow> HMAC_CTX \<Rightarrow> EVP_MD \<Rightarrow> u8 list \<Rightarrow> bool \<times> HMAC_CTX" where
  "hmac_set_key mal ctx md key =
     (case hmac_key_block mal (hmac_md_ctx ctx) md key of
        (None, c) \<Rightarrow> (False, ctx\<lparr>hmac_md_ctx := c\<rparr>)
      | (Some key_block, c) \<Rightarrow>
          (case hmac_pad_ctx mal (hmac_i_ctx ctx) md 0x36 key_block of
             (False, i) \<Rightarrow> (False, ctx\<lparr>hmac_md_ctx := c, hmac_i_ctx := i\<rparr>)
           | (True, i) \<Rightarrow>
               (case hmac_pad_ctx mal (hmac_o_ctx ctx) md 0x5c key_block of
                  (False, o') \<Rightarrow> (False, ctx\<lparr>hmac_md_ctx := c, hmac_i_ctx := i, hmac_o_ctx := o'\<rparr>)
                | (True, o') \<Rightarrow>
                    (True, ctx\<lparr>hmac_md_ctx := c, hmac_i_ctx := i, hmac_o_ctx := o', hmac_md := Some md\<rparr>))))"

text \<open>With neither a digest nor one in the context, a key makes the code dereference NULL; the
  definition fails.\<close>

definition HMAC_Init_ex :: "allocator \<Rightarrow> HMAC_CTX \<Rightarrow> u8 list option \<Rightarrow> EVP_MD option \<Rightarrow> bool \<times> HMAC_CTX" where
  "HMAC_Init_ex mal ctx key md =
     (let md = (if md = None then hmac_md ctx else md);
          (ok, ctx) =
            (if md \<noteq> hmac_md ctx \<or> key \<noteq> None then
               (case md of
                  None \<Rightarrow> (False, ctx)
                | Some d \<Rightarrow> hmac_set_key mal ctx d (case key of None \<Rightarrow> [] | Some k \<Rightarrow> k))
             else (True, ctx))
      in if \<not> ok then (False, ctx)
         else (case EVP_MD_CTX_copy_ex mal Some (hmac_md_ctx ctx) (Some (hmac_i_ctx ctx)) of
                 (r, c) \<Rightarrow> (r, ctx\<lparr>hmac_md_ctx := c\<rparr>)))"

definition HMAC_Init :: "allocator \<Rightarrow> HMAC_CTX \<Rightarrow> u8 list option \<Rightarrow> EVP_MD option \<Rightarrow> bool \<times> HMAC_CTX" where
  "HMAC_Init mal ctx key md =
     HMAC_Init_ex mal (if key \<noteq> None \<and> md \<noteq> None then HMAC_CTX_init else ctx) key md"

section \<open>Messages\<close>

definition HMAC_Update :: "HMAC_CTX \<Rightarrow> u8 list \<Rightarrow> HMAC_CTX" where
  "HMAC_Update ctx data = ctx\<lparr>hmac_md_ctx := EVP_DigestUpdate (hmac_md_ctx ctx) data\<rparr>"

text \<open>The result, the context, the output and its length.\<close>

definition HMAC_Final :: "allocator \<Rightarrow> HMAC_CTX \<Rightarrow> bool \<times> HMAC_CTX \<times> u8 list option \<times> nat" where
  "HMAC_Final mal ctx =
     (case EVP_DigestFinal_ex (hmac_md_ctx ctx) of
        (c, buf, i) \<Rightarrow>
          (case EVP_MD_CTX_copy_ex mal Some c (Some (hmac_o_ctx ctx)) of
             (False, c) \<Rightarrow> (False, ctx\<lparr>hmac_md_ctx := c\<rparr>, None, 0)
           | (True, c) \<Rightarrow>
               (case EVP_DigestFinal_ex (EVP_DigestUpdate c (take i (written buf))) of
                  (c, out, n) \<Rightarrow> (True, ctx\<lparr>hmac_md_ctx := c\<rparr>, out, n))))"

definition HMAC_size :: "HMAC_CTX \<Rightarrow> nat option" where
  "HMAC_size ctx = map_option EVP_MD_size (hmac_md ctx)"

definition HMAC :: "allocator \<Rightarrow> EVP_MD \<Rightarrow> u8 list option \<Rightarrow> u8 list \<Rightarrow> u8 list option \<times> nat" where
  "HMAC mal md key data =
     (case HMAC_Init_ex mal HMAC_CTX_init key (Some md) of
        (False, _) \<Rightarrow> (None, 0)
      | (True, ctx) \<Rightarrow>
          (case HMAC_Final mal (HMAC_Update ctx data) of
             (False, _, _, n) \<Rightarrow> (None, n)
           | (True, _, out, n) \<Rightarrow> (out, n)))"

definition HMAC_CTX_copy_ex :: "allocator \<Rightarrow> HMAC_CTX \<Rightarrow> HMAC_CTX \<Rightarrow> bool \<times> HMAC_CTX" where
  "HMAC_CTX_copy_ex mal dest src =
     (case EVP_MD_CTX_copy_ex mal Some (hmac_i_ctx dest) (Some (hmac_i_ctx src)) of
        (False, i) \<Rightarrow> (False, dest\<lparr>hmac_i_ctx := i\<rparr>)
      | (True, i) \<Rightarrow>
          (case EVP_MD_CTX_copy_ex mal Some (hmac_o_ctx dest) (Some (hmac_o_ctx src)) of
             (False, o') \<Rightarrow> (False, dest\<lparr>hmac_i_ctx := i, hmac_o_ctx := o'\<rparr>)
           | (True, o') \<Rightarrow>
               (case EVP_MD_CTX_copy_ex mal Some (hmac_md_ctx dest) (Some (hmac_md_ctx src)) of
                  (False, c) \<Rightarrow> (False, dest\<lparr>hmac_i_ctx := i, hmac_o_ctx := o', hmac_md_ctx := c\<rparr>)
                | (True, c) \<Rightarrow>
                    (True, dest\<lparr>hmac_i_ctx := i, hmac_o_ctx := o', hmac_md_ctx := c, hmac_md := hmac_md src\<rparr>))))"

definition HMAC_CTX_copy :: "allocator \<Rightarrow> HMAC_CTX \<Rightarrow> bool \<times> HMAC_CTX" where
  "HMAC_CTX_copy mal src = HMAC_CTX_copy_ex mal HMAC_CTX_init src"

definition HMAC_CTX_reset :: "HMAC_CTX \<Rightarrow> HMAC_CTX" where
  "HMAC_CTX_reset ctx = (let ctx = HMAC_CTX_cleanup ctx in HMAC_CTX_init)"

section \<open>RFC 2104\<close>

definition hmac_key :: "EVP_MD \<Rightarrow> u8 list \<Rightarrow> u8 list" where
  "hmac_key d k =
     (let k = (if EVP_MD_block_size d < length k then md_digest d k else k)
      in k @ replicate (EVP_MD_block_size d - length k) 0)"

definition hmac_ipad :: "EVP_MD \<Rightarrow> u8 list \<Rightarrow> u8 list" where
  "hmac_ipad d k = map (\<lambda>b. b XOR 0x36) (hmac_key d k)"

definition hmac_opad :: "EVP_MD \<Rightarrow> u8 list \<Rightarrow> u8 list" where
  "hmac_opad d k = map (\<lambda>b. b XOR 0x5c) (hmac_key d k)"

definition hmac_rfc :: "EVP_MD \<Rightarrow> u8 list \<Rightarrow> u8 list \<Rightarrow> u8 list" where
  "hmac_rfc d k m = md_digest d (hmac_opad d k @ md_digest d (hmac_ipad d k @ m))"

text \<open>A context with a key, and one that has also collected a message.\<close>

definition hmac_keyed :: "HMAC_CTX \<Rightarrow> EVP_MD \<Rightarrow> u8 list \<Rightarrow> bool" where
  "hmac_keyed ctx d k \<longleftrightarrow>
     hmac_md ctx = Some d \<and>
     ctx_holds md_rep (hmac_i_ctx ctx) d (hmac_ipad d k) \<and> ctx_pctx (hmac_i_ctx ctx) = None \<and>
     ctx_holds md_rep (hmac_o_ctx ctx) d (hmac_opad d k) \<and> ctx_pctx (hmac_o_ctx ctx) = None \<and>
     ctx_digest (hmac_md_ctx ctx) = Some d"

definition hmac_holds :: "HMAC_CTX \<Rightarrow> EVP_MD \<Rightarrow> u8 list \<Rightarrow> u8 list \<Rightarrow> bool" where
  "hmac_holds ctx d k m \<longleftrightarrow>
     hmac_keyed ctx d k \<and> ctx_holds md_rep (hmac_md_ctx ctx) d (hmac_ipad d k @ m)"

definition hmac_fits :: "HMAC_CTX \<Rightarrow> bool" where
  "hmac_fits ctx \<longleftrightarrow>
     (\<forall>c\<in>{hmac_md_ctx ctx, hmac_i_ctx ctx, hmac_o_ctx ctx}. ctx_fits md_fits c \<and> ctx_pctx c = None)"

lemma hmac_init_fits: "hmac_fits HMAC_CTX_init"
  by (simp add: hmac_fits_def HMAC_CTX_init_def EVP_MD_CTX_init_def ctx_fits_def)

lemma md_sizes: "EVP_MD_block_size d \<le> 128" "md_size (evp_md d) \<le> EVP_MD_block_size d" "16 \<le> md_size (evp_md d)"
   "md_size (evp_md d) \<le> 64"
  by (cases d; simp add: EVP_MD_block_size_def md_method_defs SHA224_DIGEST_LENGTH_def SHA256_DIGEST_LENGTH_def
    SHA384_DIGEST_LENGTH_def SHA512_DIGEST_LENGTH_def)+

section \<open>Keys are set as in RFC 2104\<close>

lemma pads_comm: "map (\<lambda>b. 0x36 XOR b) l = map (\<lambda>b. b XOR (0x36 :: u8)) l" "map (\<lambda>b. 0x5c XOR b) l = map (\<lambda>b. b XOR (0x5c :: u8)) l"
  by (simp_all add: xor.commute)

lemma key_block_correct:
  assumes mal: "malloc_contract mal" and c: "ctx_fits md_fits c" "ctx_pctx c = None"
    and k: "hmac_key_block mal c d k = (Some b, c')"
  shows "take (EVP_MD_block_size d) b = hmac_key d k" "ctx_fits md_fits c'" "ctx_pctx c' = None"
proof -
  have "take (EVP_MD_block_size d) b = hmac_key d k \<and> ctx_fits md_fits c' \<and> ctx_pctx c' = None"
  proof (cases "EVP_MD_block_size d < length k")
    case True
    obtain c1 where i: "EVP_DigestInit_ex mal c d = (True, c1)"
      using k True by (auto simp: hmac_key_block_def split: prod.splits bool.splits)
    have "ctx_holds md_rep (EVP_DigestUpdate c1 k) d k"
      using evp.update_holds [OF evp.init_holds(1) [OF mal c(1) i]] by simp
    from evp.final_holds [OF this] obtain c2 where e:
      "EVP_DigestFinal_ex (EVP_DigestUpdate c1 k) = (c2, Some (md_digest d k), length (md_digest d k))"
      "ctx_fits md_fits c2" "ctx_pctx c2 = ctx_pctx (EVP_DigestUpdate c1 k)" by blast
    have "ctx_pctx c2 = None"
      using e(3) evp.init_holds(2) [OF mal c(1) i] c(2) by (simp add: EVP_DigestUpdate_def split: option.splits)
    moreover have "length (md_digest d k) \<le> EVP_MD_block_size d"
      using md_sizes(2) [of d] md_digest_length [of d k] by simp
    ultimately show ?thesis
      using k True i e md_sizes(1) [of d] by (auto simp: hmac_key_block_def written_def hmac_key_def EVP_MAX_MD_BLOCK_SIZE_def Let_def)
  next
    case False
    then show ?thesis
      using k c md_sizes(1) [of d] by (auto simp: hmac_key_block_def hmac_key_def EVP_MAX_MD_BLOCK_SIZE_def)
  qed
  then show "take (EVP_MD_block_size d) b = hmac_key d k" "ctx_fits md_fits c'" "ctx_pctx c' = None" by simp_all
qed

lemma pad_ctx_correct:
  assumes "malloc_contract mal" "ctx_fits md_fits c" "ctx_pctx c = None" "hmac_pad_ctx mal c d x b = (True, c')"
  shows "ctx_holds md_rep c' d (map (\<lambda>y. x XOR y) (take (EVP_MD_block_size d) b))" "ctx_pctx c' = None"
proof -
  obtain c1 where i: "EVP_DigestInit_ex mal c d = (True, c1)"
    and e: "c' = EVP_DigestUpdate c1 (take (EVP_MD_block_size d) (map (\<lambda>y. x XOR y) b))"
    using assms(4) by (auto simp: hmac_pad_ctx_def Let_def split: prod.splits bool.splits)
  show "ctx_holds md_rep c' d (map (\<lambda>y. x XOR y) (take (EVP_MD_block_size d) b))"
    unfolding e using evp.update_holds [OF evp.init_holds(1) [OF assms(1,2) i]] by (simp add: take_map)
  show "ctx_pctx c' = None"
    using evp.init_holds(2) [OF assms(1,2) i] assms(3) unfolding e by (simp add: EVP_DigestUpdate_def split: option.splits)
qed

lemma set_key_correct:
  assumes mal: "malloc_contract mal" and f: "hmac_fits ctx" and s: "hmac_set_key mal ctx d k = (True, ctx')"
  shows "hmac_md ctx' = Some d"
    "ctx_holds md_rep (hmac_i_ctx ctx') d (hmac_ipad d k)" "ctx_pctx (hmac_i_ctx ctx') = None"
    "ctx_holds md_rep (hmac_o_ctx ctx') d (hmac_opad d k)" "ctx_pctx (hmac_o_ctx ctx') = None"
proof -
  obtain b c i o' where e: "hmac_key_block mal (hmac_md_ctx ctx) d k = (Some b, c)"
    "hmac_pad_ctx mal (hmac_i_ctx ctx) d 0x36 b = (True, i)" "hmac_pad_ctx mal (hmac_o_ctx ctx) d 0x5c b = (True, o')"
    "ctx' = ctx\<lparr>hmac_md_ctx := c, hmac_i_ctx := i, hmac_o_ctx := o', hmac_md := Some d\<rparr>"
    using s by (auto simp: hmac_set_key_def split: prod.splits option.splits bool.splits)
  note fits = f [unfolded hmac_fits_def]
  have b: "take (EVP_MD_block_size d) b = hmac_key d k" using key_block_correct(1) [OF mal _ _ e(1)] fits by simp
  show "hmac_md ctx' = Some d" by (simp add: e(4))
  show "ctx_holds md_rep (hmac_i_ctx ctx') d (hmac_ipad d k)" "ctx_pctx (hmac_i_ctx ctx') = None"
    using pad_ctx_correct [OF mal _ _ e(2)] fits by (simp_all add: e(4) hmac_ipad_def b xor.commute)
  show "ctx_holds md_rep (hmac_o_ctx ctx') d (hmac_opad d k)" "ctx_pctx (hmac_o_ctx ctx') = None"
    using pad_ctx_correct [OF mal _ _ e(3)] fits by (simp_all add: e(4) hmac_opad_def b xor.commute)
qed

text \<open>The copy of the inner state starts a message.\<close>

lemma rewind_holds:
  assumes "hmac_md ctx = Some d" "ctx_holds md_rep (hmac_i_ctx ctx) d (hmac_ipad d k)" "ctx_pctx (hmac_i_ctx ctx) = None"
    "ctx_holds md_rep (hmac_o_ctx ctx) d (hmac_opad d k)" "ctx_pctx (hmac_o_ctx ctx) = None"
    "EVP_MD_CTX_copy_ex mal Some (hmac_md_ctx ctx) (Some (hmac_i_ctx ctx)) = (True, c)"
  shows "hmac_holds (ctx\<lparr>hmac_md_ctx := c\<rparr>) d k []"
  using evp.copy_holds [OF assms(6,2)] assms(1-5) by (simp add: hmac_holds_def hmac_keyed_def) (simp add: ctx_holds_def)

lemma init_key:
  assumes "malloc_contract mal" "hmac_fits ctx" "HMAC_Init_ex mal ctx (Some k) (Some d) = (True, ctx')"
  shows "hmac_holds ctx' d k []"
proof -
  obtain ctx1 where s: "hmac_set_key mal ctx d k = (True, ctx1)"
    and c: "(case EVP_MD_CTX_copy_ex mal Some (hmac_md_ctx ctx1) (Some (hmac_i_ctx ctx1)) of
               (r, c) \<Rightarrow> (r, ctx1\<lparr>hmac_md_ctx := c\<rparr>)) = (True, ctx')"
    using assms(3) by (cases "hmac_set_key mal ctx d k") (auto simp: HMAC_Init_ex_def Let_def split: if_splits)
  from c obtain c' where "EVP_MD_CTX_copy_ex mal Some (hmac_md_ctx ctx1) (Some (hmac_i_ctx ctx1)) = (True, c')"
    "ctx' = ctx1\<lparr>hmac_md_ctx := c'\<rparr>" by (auto split: prod.splits)
  with rewind_holds [OF set_key_correct [OF assms(1,2) s]] show ?thesis by simp
qed

lemma init_rewind:
  assumes "hmac_keyed ctx d k" "md = None \<or> md = Some d"
  obtains ctx' where "HMAC_Init_ex mal ctx None md = (True, ctx')" "hmac_holds ctx' d k []"
proof -
  from assms(1) have a: "ctx_digest (hmac_i_ctx ctx) = Some d" "ctx_pctx (hmac_i_ctx ctx) = None"
    "ctx_digest (hmac_md_ctx ctx) = Some d"
    by (auto simp: hmac_keyed_def ctx_holds_def)
  from evp.copy_works [OF a(1,2) disjI1 [OF a(3)]] obtain c where
    c: "EVP_MD_CTX_copy_ex mal Some (hmac_md_ctx ctx) (Some (hmac_i_ctx ctx)) = (True, c)" by metis
  show ?thesis
  proof
    show "HMAC_Init_ex mal ctx None md = (True, ctx\<lparr>hmac_md_ctx := c\<rparr>)"
      using assms c by (auto simp: HMAC_Init_ex_def hmac_keyed_def Let_def)
    show "hmac_holds (ctx\<lparr>hmac_md_ctx := c\<rparr>) d k []"
      using assms(1) by (intro rewind_holds [OF _ _ _ _ _ c]) (simp_all add: hmac_keyed_def)
  qed
qed

section \<open>Messages are authenticated as in RFC 2104\<close>

lemma update_digest [simp]: "ctx_digest (EVP_DigestUpdate c x) = ctx_digest c" "ctx_pctx (EVP_DigestUpdate c x) = ctx_pctx c"
  by (simp_all add: EVP_DigestUpdate_def split: option.splits)

lemma hmac_update: "hmac_holds ctx d k m \<Longrightarrow> hmac_holds (HMAC_Update ctx x) d k (m @ x)"
  using evp.update_holds [of "hmac_md_ctx ctx" d "hmac_ipad d k @ m" x]
  by (simp add: hmac_holds_def hmac_keyed_def HMAC_Update_def)

lemma hmac_updates: "hmac_holds ctx d k m \<Longrightarrow> hmac_holds (foldl HMAC_Update ctx xs) d k (m @ concat xs)"
proof (induction xs arbitrary: ctx m)
  case (Cons x xs)
  from Cons.IH [OF hmac_update [OF Cons.prems]] show ?case by simp
qed simp

text \<open>The final step cannot fail: the copy is to a context of the same digest, and allocates nothing.\<close>

lemma hmac_final:
  assumes "hmac_holds ctx d k m"
  obtains ctx' where "HMAC_Final mal ctx = (True, ctx', Some (hmac_rfc d k m), EVP_MD_size d)" "hmac_keyed ctx' d k"
proof -
  have h: "ctx_holds md_rep (hmac_md_ctx ctx) d (hmac_ipad d k @ m)"
    "ctx_holds md_rep (hmac_o_ctx ctx) d (hmac_opad d k)" "ctx_pctx (hmac_o_ctx ctx) = None"
    "ctx_digest (hmac_o_ctx ctx) = Some d"
    using assms by (auto simp: hmac_holds_def hmac_keyed_def ctx_holds_def)
  let ?i = "md_digest d (hmac_ipad d k @ m)"
  from evp.final_holds [OF h(1)] obtain c1 where c1:
    "EVP_DigestFinal_ex (hmac_md_ctx ctx) = (c1, Some ?i, length ?i)" "ctx_digest c1 = Some d" by metis
  from evp.copy_works [OF h(4,3) disjI1 [OF c1(2)]] obtain c2 where
    c2: "EVP_MD_CTX_copy_ex mal Some c1 (Some (hmac_o_ctx ctx)) = (True, c2)" by metis
  from evp.update_holds [OF evp.copy_holds [OF c2 h(2)]]
  have "ctx_holds md_rep (EVP_DigestUpdate c2 ?i) d (hmac_opad d k @ ?i)" .
  from evp.final_holds [OF this] obtain c3 where c3:
    "EVP_DigestFinal_ex (EVP_DigestUpdate c2 ?i) = (c3, Some (hmac_rfc d k m), length (hmac_rfc d k m))"
    "ctx_digest c3 = Some d" unfolding hmac_rfc_def by metis
  show ?thesis
  proof
    show "HMAC_Final mal ctx = (True, ctx\<lparr>hmac_md_ctx := c3\<rparr>, Some (hmac_rfc d k m), EVP_MD_size d)"
      using c1 c2 c3 by (simp add: HMAC_Final_def written_def hmac_rfc_def md_digest_length EVP_MD_size_def)
    show "hmac_keyed (ctx\<lparr>hmac_md_ctx := c3\<rparr>) d k"
      using assms c3(2) by (simp add: hmac_holds_def hmac_keyed_def)
  qed
qed

lemma copy_pctx:
  "EVP_MD_CTX_copy_ex mal dup out (Some inp) = (True, out') \<Longrightarrow> ctx_pctx inp = None \<Longrightarrow> ctx_pctx out' = None"
  by (auto simp: EVP_MD_CTX_copy_ex_def EVP_MD_CTX_cleanup_def EVP_MD_CTX_init_def split: if_splits option.splits)

text \<open>A copy goes on by itself.\<close>

lemma hmac_copy:
  assumes "HMAC_CTX_copy_ex mal dest src = (True, dest')" "hmac_holds src d k m"
  shows "hmac_holds dest' d k m"
proof -
  obtain i o' c where e: "EVP_MD_CTX_copy_ex mal Some (hmac_i_ctx dest) (Some (hmac_i_ctx src)) = (True, i)"
    "EVP_MD_CTX_copy_ex mal Some (hmac_o_ctx dest) (Some (hmac_o_ctx src)) = (True, o')"
    "EVP_MD_CTX_copy_ex mal Some (hmac_md_ctx dest) (Some (hmac_md_ctx src)) = (True, c)"
    "dest' = dest\<lparr>hmac_i_ctx := i, hmac_o_ctx := o', hmac_md_ctx := c, hmac_md := hmac_md src\<rparr>"
    using assms(1) by (auto simp: HMAC_CTX_copy_ex_def split: prod.splits bool.splits)
  have h: "hmac_md src = Some d" "ctx_holds md_rep (hmac_i_ctx src) d (hmac_ipad d k)" "ctx_pctx (hmac_i_ctx src) = None"
    "ctx_holds md_rep (hmac_o_ctx src) d (hmac_opad d k)" "ctx_pctx (hmac_o_ctx src) = None"
    "ctx_holds md_rep (hmac_md_ctx src) d (hmac_ipad d k @ m)"
    using assms(2) by (simp_all add: hmac_holds_def hmac_keyed_def)
  from evp.copy_holds [OF e(3) h(6)] have "ctx_digest c = Some d" "ctx_holds md_rep c d (hmac_ipad d k @ m)"
    by (simp_all add: ctx_holds_def)
  with evp.copy_holds [OF e(1) h(2)] evp.copy_holds [OF e(2) h(4)] copy_pctx [OF e(1) h(3)] copy_pctx [OF e(2) h(5)] h(1)
  show ?thesis by (simp add: hmac_holds_def hmac_keyed_def e(4))
qed

section \<open>Initialisation succeeds when there is memory\<close>

lemma set_key_works:
  assumes "malloc_total mal"
  shows "\<exists>ctx'. hmac_set_key mal ctx d k = (True, ctx')"
proof -
  have i: "\<exists>c'. EVP_DigestInit_ex mal c d = (True, c')" for c :: "unit EVP_MD_CTX"
    using evp.init_works [OF assms, of c d] by (cases "EVP_DigestInit_ex mal c d") auto
  have p: "\<exists>c'. hmac_pad_ctx mal c d x b = (True, c')" for c x b
    using i [of c] by (auto simp: hmac_pad_ctx_def)
  have "\<exists>b c'. hmac_key_block mal c d k = (Some b, c')" for c
    using i [of c] by (auto simp: hmac_key_block_def split: prod.splits)
  then obtain b c where b: "hmac_key_block mal (hmac_md_ctx ctx) d k = (Some b, c)" by blast
  obtain c1 c2 where "hmac_pad_ctx mal (hmac_i_ctx ctx) d 0x36 b = (True, c1)"
    "hmac_pad_ctx mal (hmac_o_ctx ctx) d 0x5c b = (True, c2)" using p by blast
  with b show ?thesis by (simp add: hmac_set_key_def)
qed

lemma hmac_init_works:
  assumes "malloc_contract mal" "malloc_total mal" "hmac_fits ctx"
  obtains ctx' where "HMAC_Init_ex mal ctx (Some k) (Some d) = (True, ctx')" "hmac_holds ctx' d k []"
proof -
  obtain ctx1 where s: "hmac_set_key mal ctx d k = (True, ctx1)" using set_key_works [OF assms(2)] by blast
  note h = set_key_correct [OF assms(1,3) s]
  from h(2) have "ctx_digest (hmac_i_ctx ctx1) = Some d" by (simp add: ctx_holds_def)
  from evp.copy_works [OF this h(3) disjI2 [OF assms(2)]] obtain c where
    "EVP_MD_CTX_copy_ex mal Some (hmac_md_ctx ctx1) (Some (hmac_i_ctx ctx1)) = (True, c)" by metis
  then have "HMAC_Init_ex mal ctx (Some k) (Some d) = (True, ctx1\<lparr>hmac_md_ctx := c\<rparr>)"
    using s by (auto simp: HMAC_Init_ex_def Let_def)
  with init_key [OF assms(1,3) this] show ?thesis using that by blast
qed

text \<open>A NULL key starts the empty key, when the context had another digest.\<close>

lemma init_null:
  "hmac_md ctx \<noteq> Some d \<Longrightarrow> HMAC_Init_ex mal ctx None (Some d) = HMAC_Init_ex mal ctx (Some []) (Some d)"
  by (simp add: HMAC_Init_ex_def Let_def)

end
