(* ===== verification/Hkdf.thy ===== *)
theory Hkdf
  imports Hmac
begin

text \<open>
  HKDF, \<^verbatim>\<open>crypto/hkdf/hkdf.c\<close>. The expansion runs one HMAC context through all blocks, starting each
  after the first with a NULL key. The reference is RFC 5869.
\<close>

section \<open>The code\<close>

text \<open>The pseudorandom key.\<close>

definition HKDF_extract :: "allocator \<Rightarrow> EVP_MD \<Rightarrow> u8 list \<Rightarrow> u8 list option \<Rightarrow> u8 list option" where
  "HKDF_extract mal digest secret salt = fst (HMAC mal digest salt secret)"

text \<open>The loop, with the number of blocks that are left; \<open>out\<close> holds the bytes written so far. The
  test before the loop keeps \<^verbatim>\<open>done + todo\<close> below \<open>2\<^sup>64\<close>.\<close>

fun hkdf_loop ::
    "allocator \<Rightarrow> nat \<Rightarrow> nat \<Rightarrow> u8 list \<Rightarrow> nat \<Rightarrow> nat \<Rightarrow> HMAC_CTX \<Rightarrow> u8 list \<Rightarrow> u8 list \<Rightarrow> u8 list option" where
  "hkdf_loop mal digest_len out_len info i 0 hmac previous out = Some out"
| "hkdf_loop mal digest_len out_len info i (Suc left) hmac previous out =
     (let ctr = of_nat (i + 1) :: u8;
          (ok, hmac) =
            (if i \<noteq> 0 then
               (case HMAC_Init_ex mal hmac None None of
                  (False, hmac) \<Rightarrow> (False, hmac)
                | (True, hmac) \<Rightarrow> (True, HMAC_Update hmac (take digest_len previous)))
             else (True, hmac))
      in if \<not> ok then None
         else
           (case HMAC_Final mal (HMAC_Update (HMAC_Update hmac info) [ctr]) of
              (False, _) \<Rightarrow> None
            | (True, hmac, buf, _) \<Rightarrow>
                (let previous = written buf;
                     todo = (if length out + digest_len > out_len then out_len - length out else digest_len)
                 in hkdf_loop mal digest_len out_len info (i + 1) left hmac previous (out @ take todo previous))))"

definition HKDF_expand :: "allocator \<Rightarrow> nat \<Rightarrow> EVP_MD \<Rightarrow> u8 list \<Rightarrow> u8 list \<Rightarrow> u8 list option" where
  "HKDF_expand mal out_len digest prk info =
     (let digest_len = EVP_MD_size digest;
          n = (out_len + digest_len - 1) mod SIZE_MOD div digest_len
      in if (out_len + digest_len) mod SIZE_MOD < out_len \<or> n > 255 then None
         else
           (case HMAC_Init_ex mal HMAC_CTX_init (Some prk) (Some digest) of
              (False, _) \<Rightarrow> None
            | (True, hmac) \<Rightarrow> hkdf_loop mal digest_len out_len info 0 n hmac [] []))"

definition HKDF ::
    "allocator \<Rightarrow> nat \<Rightarrow> EVP_MD \<Rightarrow> u8 list \<Rightarrow> u8 list option \<Rightarrow> u8 list \<Rightarrow> u8 list option" where
  "HKDF mal out_len digest secret salt info =
     (case HKDF_extract mal digest secret salt of
        None \<Rightarrow> None
      | Some prk \<Rightarrow> HKDF_expand mal out_len digest prk info)"

section \<open>RFC 5869\<close>

fun hkdf_T :: "EVP_MD \<Rightarrow> u8 list \<Rightarrow> u8 list \<Rightarrow> nat \<Rightarrow> u8 list" where
  "hkdf_T d prk info 0 = []"
| "hkdf_T d prk info (Suc i) = hmac_rfc d prk (hkdf_T d prk info i @ info @ [of_nat (Suc i)])"

definition hkdf_okm :: "EVP_MD \<Rightarrow> u8 list \<Rightarrow> u8 list \<Rightarrow> nat \<Rightarrow> u8 list" where
  "hkdf_okm d prk info L = take L (concat (map (hkdf_T d prk info) [1..<256]))"

section \<open>The blocks\<close>

definition hkdf_blocks :: "EVP_MD \<Rightarrow> u8 list \<Rightarrow> u8 list \<Rightarrow> nat \<Rightarrow> u8 list" where
  "hkdf_blocks d prk info n = concat (map (hkdf_T d prk info) [1..<Suc n])"

lemma hmac_rfc_length: "length (hmac_rfc d k m) = EVP_MD_size d"
  by (simp add: hmac_rfc_def md_digest_length EVP_MD_size_def)

lemma hkdf_blocks_0 [simp]: "hkdf_blocks d prk info 0 = []"
  by (simp add: hkdf_blocks_def)

lemma hkdf_blocks_Suc: "hkdf_blocks d prk info (Suc n) = hkdf_blocks d prk info n @ hkdf_T d prk info (Suc n)"
  by (simp add: hkdf_blocks_def)

lemma hkdf_blocks_length [simp]: "length (hkdf_blocks d prk info n) = n * EVP_MD_size d"
  by (induction n) (simp_all add: hkdf_blocks_Suc hmac_rfc_length)

lemma hkdf_blocks_prefix: "n \<le> k \<Longrightarrow> take (n * EVP_MD_size d) (hkdf_blocks d prk info k) = hkdf_blocks d prk info n"
proof (induction k)
  case (Suc k)
  then show ?case by (cases "n = Suc k") (simp_all add: hkdf_blocks_Suc hmac_rfc_length)
qed simp

lemma hkdf_loop_correct:
  assumes "i = 0 \<Longrightarrow> hmac_holds h d prk []" "i \<noteq> 0 \<Longrightarrow> hmac_keyed h d prk"
    and "i \<noteq> 0 \<Longrightarrow> previous = hkdf_T d prk info i" "out = take L (hkdf_blocks d prk info i)"
  shows "hkdf_loop mal (EVP_MD_size d) L info i left h previous out = Some (take L (hkdf_blocks d prk info (i + left)))"
  using assms
proof (induction left arbitrary: i h previous out)
  case (Suc left)
  let ?len = "EVP_MD_size d" and ?T = "hkdf_T d prk info"
  have start: "\<exists>h'. (if i \<noteq> 0 then
               (case HMAC_Init_ex mal h None None of
                  (False, h) \<Rightarrow> (False, h)
                | (True, h) \<Rightarrow> (True, HMAC_Update h (take ?len previous)))
             else (True, h)) = (True, h') \<and> hmac_holds h' d prk (?T i)"
  proof (cases "i = 0")
    case True
    then show ?thesis using Suc.prems(1) by simp
  next
    case False
    from init_rewind [OF Suc.prems(2) [OF False], of None mal] obtain h' where
      h': "HMAC_Init_ex mal h None None = (True, h')" "hmac_holds h' d prk []" by blast
    have "take ?len previous = ?T i"
      using Suc.prems(3) [OF False] False by (cases i) (simp_all add: hmac_rfc_length)
    with h' hmac_update [OF h'(2), of "?T i"] False show ?thesis by simp
  qed
  then obtain h' where h': "(if i \<noteq> 0 then
               (case HMAC_Init_ex mal h None None of
                  (False, h) \<Rightarrow> (False, h)
                | (True, h) \<Rightarrow> (True, HMAC_Update h (take ?len previous)))
             else (True, h)) = (True, h')" "hmac_holds h' d prk (?T i)" by blast
  have "hmac_holds (HMAC_Update (HMAC_Update h' info) [of_nat (i + 1)]) d prk (?T i @ info @ [of_nat (Suc i)])"
    using hmac_update [OF hmac_update [OF h'(2)], of info "[of_nat (Suc i)]"] by simp
  from hmac_final [OF this, of mal] obtain h'' where h'':
    "HMAC_Final mal (HMAC_Update (HMAC_Update h' info) [of_nat (i + 1)]) = (True, h'', Some (?T (Suc i)), ?len)"
    "hmac_keyed h'' d prk" by auto
  let ?todo = "if length out + ?len > L then L - length out else ?len"
  have T: "length (?T (Suc i)) = ?len" by (simp add: hmac_rfc_length)
  have out: "out @ take ?todo (?T (Suc i)) = take L (hkdf_blocks d prk info (Suc i))"
    using Suc.prems(4) T by (auto simp: hkdf_blocks_Suc min_def simp del: hkdf_T.simps)
  have "hkdf_loop mal ?len L info i (Suc left) h previous out =
      hkdf_loop mal ?len L info (i + 1) left h'' (?T (Suc i)) (out @ take ?todo (?T (Suc i)))"
    unfolding hkdf_loop.simps Let_def h'(1) prod.case h''(1) bool.case by (simp add: written_def)
  also have "\<dots> = Some (take L (hkdf_blocks d prk info (i + 1 + left)))"
    by (rule Suc.IH) (use h''(2) out in simp_all)
  finally show ?case by simp
qed simp

lemma blocks_needed:
  fixes L k :: nat
  assumes "0 < k"
  shows "L \<le> (L + k - 1) div k * k" "(L + k - 1) div k \<le> n \<longleftrightarrow> L \<le> n * k"
proof -
  have "L + k - 1 = (L + k - 1) div k * k + (L + k - 1) mod k" by simp
  moreover have "(L + k - 1) mod k < k" using assms by simp
  ultimately show up: "L \<le> (L + k - 1) div k * k" by linarith
  show "(L + k - 1) div k \<le> n \<longleftrightarrow> L \<le> n * k"
  proof
    assume "(L + k - 1) div k \<le> n"
    then have "(L + k - 1) div k * k \<le> n * k" by (rule mult_le_mono1)
    with up show "L \<le> n * k" by (rule order_trans)
  next
    assume "L \<le> n * k"
    then have "L + k - 1 < (n + 1) * k" using assms by (simp add: add_mult_distrib)
    then have "(L + k - 1) div k < n + 1" by (rule less_mult_imp_div_less)
    then show "(L + k - 1) div k \<le> n" by simp
  qed
qed

lemma hkdf_blocks_all: "L \<le> n * EVP_MD_size d \<Longrightarrow> n \<le> k \<Longrightarrow> take L (hkdf_blocks d prk info k) = take L (hkdf_blocks d prk info n)"
  using hkdf_blocks_prefix [of n k d prk info] by (metis min.absorb1 take_take)

lemma hkdf_size: "16 \<le> EVP_MD_size d" "EVP_MD_size d \<le> 64"
  using md_sizes(3,4) [of d] by (simp_all add: EVP_MD_size_def)

lemma hkdf_expand_total:
  assumes mal: "malloc_contract mal" "malloc_total mal" and L: "L < 2 ^ 64"
  shows "HKDF_expand mal L d prk info =
    (if L \<le> 255 * EVP_MD_size d then Some (hkdf_okm d prk info L) else None)"
proof -
  let ?len = "EVP_MD_size d"
  let ?n = "(L + ?len - 1) mod SIZE_MOD div ?len"
  show ?thesis
  proof (cases "L \<le> 255 * ?len")
    case True
    then have fit: "L + ?len < SIZE_MOD" using hkdf_size(2) [of d] by (simp add: SIZE_MOD_def)
    then have n: "?n = (L + ?len - 1) div ?len" "(L + ?len) mod SIZE_MOD = L + ?len" by simp_all
    have b: "?n \<le> 255" "L \<le> ?n * ?len"
      unfolding n using blocks_needed [of ?len L] hkdf_size(1) [of d] True by simp_all
    from hmac_init_works [OF mal hmac_init_fits] obtain h where
      h: "HMAC_Init_ex mal HMAC_CTX_init (Some prk) (Some d) = (True, h)" "hmac_holds h d prk []" by metis
    have "hkdf_loop mal ?len L info 0 ?n h [] [] = Some (take L (hkdf_blocks d prk info (0 + ?n)))"
      by (rule hkdf_loop_correct) (use h(2) in simp_all)
    moreover have "take L (hkdf_blocks d prk info ?n) = hkdf_okm d prk info L"
      using hkdf_blocks_all [OF b(2,1)] by (simp add: hkdf_okm_def hkdf_blocks_def del: upt.simps upt_conv_Cons)
    ultimately show ?thesis
      using True b(1) h(1) n(2) unfolding HKDF_expand_def Let_def by simp
  next
    case False
    have "(L + ?len) mod SIZE_MOD < L \<or> ?n > 255"
    proof (cases "L + ?len < SIZE_MOD")
      case True
      then show ?thesis using blocks_needed(2) [of ?len L 255] hkdf_size(1) [of d] False by (simp add: not_le)
    next
      case over: False
      then have "(L + ?len) mod SIZE_MOD = L + ?len - SIZE_MOD"
        using L hkdf_size(2) [of d] by (subst mod_if) (auto simp: SIZE_MOD_def)
      moreover have "L + ?len - SIZE_MOD < L"
        using L hkdf_size(2) [of d] over by (simp add: SIZE_MOD_def)
      ultimately show ?thesis by simp
    qed
    then show ?thesis using False by (simp add: HKDF_expand_def Let_def)
  qed
qed

lemma hmac_total:
  assumes mal: "malloc_contract mal" "malloc_total mal"
  shows "HMAC mal d key m = (Some (hmac_rfc d (case key of None \<Rightarrow> [] | Some k \<Rightarrow> k) m), EVP_MD_size d)"
proof -
  let ?k = "case key of None \<Rightarrow> [] | Some k \<Rightarrow> k"
  have "HMAC_Init_ex mal HMAC_CTX_init key (Some d) = HMAC_Init_ex mal HMAC_CTX_init (Some ?k) (Some d)"
    by (cases key) (simp_all add: init_null HMAC_CTX_init_def)
  moreover from hmac_init_works [OF mal hmac_init_fits] obtain h where
    h: "HMAC_Init_ex mal HMAC_CTX_init (Some ?k) (Some d) = (True, h)" "hmac_holds h d ?k []" by metis
  moreover have "hmac_holds (HMAC_Update h m) d ?k m" using hmac_update [OF h(2), of m] by simp
  from hmac_final [OF this, of mal] obtain h' where
    "HMAC_Final mal (HMAC_Update h m) = (True, h', Some (hmac_rfc d ?k m), EVP_MD_size d)" by blast
  ultimately show ?thesis unfolding HMAC_def by (simp split: option.splits)
qed

end
