(* ===== verification/PbStream.thy ===== *)
theory PbStream
  imports Prelude
begin

text \<open>
  The streams of nanopb, \<^verbatim>\<open>nanopb/pb_decode.c\<close> and \<^verbatim>\<open>nanopb/pb_encode.c\<close>. A stream is a record with
  the callback as a field, as in the C structs; \<open>is_buffer\<close> is the comparison of the callback with
  \<^verbatim>\<open>buf_read\<close>. A callback takes its state and returns the new one; a reader that returns true has
  filled the buffer. The states of the streams on buffers are the memory from the pointer on for
  reading, and the memory with the position for writing.

  What the library asks of a callback are the locales \<open>input_stream\<close> and \<open>output_stream\<close>: a reader
  delivers its bytes in order, a writer appends. They are interpreted on the buffers. The bytes that
  a stream still holds are \<open>content\<close>.
\<close>

unbundle bit_operations_syntax

section \<open>Input\<close>

type_synonym 's read_fn = "'s \<Rightarrow> nat \<Rightarrow> u8 list option \<times> 's"

record 's pb_istream =
  is_callback :: "'s read_fn"
  is_buffer :: bool
  is_state :: 's
  is_left :: nat
  is_errmsg :: "string option"

text \<open>\<^verbatim>\<open>PB_SET_ERROR\<close> keeps the first message.\<close>

definition is_error :: "string \<Rightarrow> 's pb_istream \<Rightarrow> 's pb_istream" where
  "is_error msg st = st\<lparr>is_errmsg := (case is_errmsg st of None \<Rightarrow> Some msg | Some m \<Rightarrow> Some m)\<rparr>"

definition buf_read :: "u8 list read_fn" where
  "buf_read s n = (Some (take n s), drop n s)"

definition pb_istream_from_buffer :: "u8 list \<Rightarrow> nat \<Rightarrow> u8 list pb_istream" where
  "pb_istream_from_buffer buf bufsize =
     \<lparr>is_callback = buf_read, is_buffer = True, is_state = buf, is_left = bufsize, is_errmsg = None\<rparr>"

text \<open>\<open>pb_read\<close> with a buffer, and with NULL; without a buffer the bytes of a stream that is no buffer are
  read in pieces of 16.\<close>

definition pb_read :: "'s pb_istream \<Rightarrow> nat \<Rightarrow> u8 list option \<times> 's pb_istream" where
  "pb_read st count =
     (if count = 0 then (Some [], st)
      else if is_left st < count then (None, is_error ''end-of-stream'' st)
      else
        (case is_callback st (is_state st) count of
           (None, s) \<Rightarrow> (None, is_error ''io error'' (st\<lparr>is_state := s\<rparr>))
         | (Some b, s) \<Rightarrow> (Some b, st\<lparr>is_state := s, is_left := is_left st - count\<rparr>)))"

function pb_read_null :: "'s pb_istream \<Rightarrow> nat \<Rightarrow> bool \<times> 's pb_istream" where
  "pb_read_null st count =
     (if \<not> is_buffer st \<and> count > 16 then
        (case pb_read st 16 of
           (None, st) \<Rightarrow> (False, st)
         | (Some _, st) \<Rightarrow> pb_read_null st (count - 16))
      else (case pb_read st count of (r, st) \<Rightarrow> (r \<noteq> None, st)))"
  by pat_completeness auto
termination by (relation "measure snd") auto

declare pb_read_null.simps [simp del]

definition pb_readbyte :: "'s pb_istream \<Rightarrow> u8 option \<times> 's pb_istream" where
  "pb_readbyte st =
     (if is_left st = 0 then (None, is_error ''end-of-stream'' st)
      else
        (case is_callback st (is_state st) 1 of
           (Some (b # _), s) \<Rightarrow> (Some b, st\<lparr>is_state := s, is_left := is_left st - 1\<rparr>)
         | (_, s) \<Rightarrow> (None, is_error ''io error'' (st\<lparr>is_state := s\<rparr>))))"

lemma pb_readbyte_less: "pb_readbyte st = (Some b, st') \<Longrightarrow> is_left st' < is_left st"
  by (auto simp: pb_readbyte_def split: if_splits prod.splits option.splits list.splits)

section \<open>Output\<close>

type_synonym 's write_fn = "'s \<Rightarrow> u8 list \<Rightarrow> bool \<times> 's"

record 's pb_ostream =
  os_callback :: "'s write_fn option"
  os_state :: 's
  os_max :: nat
  os_written :: nat
  os_errmsg :: "string option"

definition os_error :: "string \<Rightarrow> 's pb_ostream \<Rightarrow> 's pb_ostream" where
  "os_error msg st = st\<lparr>os_errmsg := (case os_errmsg st of None \<Rightarrow> Some msg | Some m \<Rightarrow> Some m)\<rparr>"

definition buf_write :: "(u8 list \<times> nat) write_fn" where
  "buf_write s b = (case s of (m, p) \<Rightarrow> (True, (take p m @ b @ drop (p + length b) m, p + length b)))"

definition pb_ostream_from_buffer :: "u8 list \<Rightarrow> nat \<Rightarrow> (u8 list \<times> nat) pb_ostream" where
  "pb_ostream_from_buffer buf bufsize =
     \<lparr>os_callback = Some buf_write, os_state = (buf, 0), os_max = bufsize, os_written = 0, os_errmsg = None\<rparr>"

text \<open>A stream without a callback only counts.\<close>

definition pb_write :: "'s pb_ostream \<Rightarrow> u8 list \<Rightarrow> bool \<times> 's pb_ostream" where
  "pb_write st buf =
     (let count = length buf; total' = (os_written st + count) mod SIZE_MOD in
      case os_callback st of
        Some cb \<Rightarrow>
          if count > 0 then
            (if total' < os_written st \<or> total' > os_max st then (False, os_error ''stream full'' st)
             else (case cb (os_state st) buf of
                     (False, s) \<Rightarrow> (False, os_error ''io error'' (st\<lparr>os_state := s\<rparr>))
                   | (True, s) \<Rightarrow> (True, st\<lparr>os_state := s, os_written := total'\<rparr>)))
          else (True, st\<lparr>os_written := total'\<rparr>)
      | None \<Rightarrow> (True, st\<lparr>os_written := total'\<rparr>))"

text \<open>\<^verbatim>\<open>PB_OSTREAM_SIZING\<close>. Its state is never used; it is given one of the right type.\<close>

definition PB_OSTREAM_SIZING :: "'s \<Rightarrow> 's pb_ostream" where
  "PB_OSTREAM_SIZING s = \<lparr>os_callback = None, os_state = s, os_max = 0, os_written = 0, os_errmsg = None\<rparr>"

section \<open>The contracts of the callbacks\<close>

definition content :: "('s \<Rightarrow> u8 list) \<Rightarrow> 's pb_istream \<Rightarrow> u8 list" where
  "content avail st = take (is_left st) (avail (is_state st))"

locale input_stream =
  fixes cb :: "'s read_fn" and avail :: "'s \<Rightarrow> u8 list"
  assumes reads: "n \<le> length (avail s) \<Longrightarrow> \<exists>s'. cb s n = (Some (take n (avail s)), s') \<and> avail s' = drop n (avail s)"
begin

text \<open>A stream on this callback with the bytes it announces, and \<open>t\<close> behind them.\<close>

definition ok :: "u8 list \<Rightarrow> 's pb_istream \<Rightarrow> bool" where
  "ok t st \<longleftrightarrow> is_callback st = cb \<and> is_left st \<le> length (avail (is_state st)) \<and>
     drop (is_left st) (avail (is_state st)) = t"

lemma content_length: "ok t st \<Longrightarrow> length (content avail st) = is_left st"
  by (simp add: ok_def content_def)

lemma read_some:
  assumes "ok t st" "n \<le> is_left st"
  obtains s where "pb_read st n = (Some (take n (content avail st)), st\<lparr>is_state := s, is_left := is_left st - n\<rparr>)"
    "ok t (st\<lparr>is_state := s, is_left := is_left st - n\<rparr>)"
    "content avail (st\<lparr>is_state := s, is_left := is_left st - n\<rparr>) = drop n (content avail st)"
proof (cases "n = 0")
  case True
  then show ?thesis using assms(1) that [of "is_state st"] by (simp add: pb_read_def)
next
  case False
  have l: "n \<le> length (avail (is_state st))" using assms by (simp add: ok_def)
  obtain s where s: "cb (is_state st) n = (Some (take n (avail (is_state st))), s)" "avail s = drop n (avail (is_state st))"
    using reads [OF l] by blast
  show ?thesis
  proof (rule that [of s])
    show "pb_read st n = (Some (take n (content avail st)), st\<lparr>is_state := s, is_left := is_left st - n\<rparr>)"
      using False assms s by (simp add: pb_read_def ok_def content_def min_def)
    show "ok t (st\<lparr>is_state := s, is_left := is_left st - n\<rparr>)"
      "content avail (st\<lparr>is_state := s, is_left := is_left st - n\<rparr>) = drop n (content avail st)"
      using assms s(2) by (auto simp: ok_def content_def drop_take)
  qed
qed

lemma read_none: "is_left st < n \<Longrightarrow> pb_read st n = (None, is_error ''end-of-stream'' st)"
  by (simp add: pb_read_def)

text \<open>Skipping drops the bytes, in whatever pieces they are read.\<close>

lemma skip_some:
  "ok t st \<Longrightarrow> n \<le> is_left st \<Longrightarrow>
    \<exists>s. pb_read_null st n = (True, st\<lparr>is_state := s, is_left := is_left st - n\<rparr>) \<and>
      ok t (st\<lparr>is_state := s, is_left := is_left st - n\<rparr>) \<and>
      content avail (st\<lparr>is_state := s, is_left := is_left st - n\<rparr>) = drop n (content avail st)"
proof (induction st n rule: pb_read_null.induct)
  case (1 st n)
  show ?case
  proof (cases "\<not> is_buffer st \<and> n > 16")
    case True
    obtain s where s: "pb_read st 16 = (Some (take 16 (content avail st)), st\<lparr>is_state := s, is_left := is_left st - 16\<rparr>)"
      "ok t (st\<lparr>is_state := s, is_left := is_left st - 16\<rparr>)"
      "content avail (st\<lparr>is_state := s, is_left := is_left st - 16\<rparr>) = drop 16 (content avail st)"
      using read_some [OF 1(2), of 16] True 1(3) by auto
    from 1(1) [OF True s(1) [symmetric] refl s(2)] 1(3) True s(1,3)
    show ?thesis by (auto simp: pb_read_null.simps [of st n])
  next
    case False
    from read_some [OF 1(2,3)] obtain s where
      "pb_read st n = (Some (take n (content avail st)), st\<lparr>is_state := s, is_left := is_left st - n\<rparr>)"
      "ok t (st\<lparr>is_state := s, is_left := is_left st - n\<rparr>)"
      "content avail (st\<lparr>is_state := s, is_left := is_left st - n\<rparr>) = drop n (content avail st)" by blast
    with False show ?thesis by (auto simp: pb_read_null.simps [of st n])
  qed
qed

lemma skip_none: "ok t st \<Longrightarrow> is_left st < n \<Longrightarrow> \<exists>st'. pb_read_null st n = (False, st')"
proof (induction st n rule: pb_read_null.induct)
  case (1 st n)
  show ?case
  proof (cases "\<not> is_buffer st \<and> n > 16")
    case True
    show ?thesis
    proof (cases "is_left st < 16")
      case True
      then show ?thesis using \<open>\<not> is_buffer st \<and> n > 16\<close> by (simp add: pb_read_null.simps [of st n] read_none)
    next
      case False
      then obtain s where s: "pb_read st 16 = (Some (take 16 (content avail st)), st\<lparr>is_state := s, is_left := is_left st - 16\<rparr>)"
        "ok t (st\<lparr>is_state := s, is_left := is_left st - 16\<rparr>)"
        using read_some [OF 1(2), of 16] by auto
      from 1(1) [OF True s(1) [symmetric] refl s(2)] 1(3) True s(1) False
      show ?thesis by (auto simp: pb_read_null.simps [of st n])
    qed
  next
    case False
    then show ?thesis using 1(3) by (auto simp: pb_read_null.simps [of st n] read_none)
  qed
qed

lemma readbyte_Cons:
  assumes "ok t st" "content avail st = b # m"
  obtains st' where "pb_readbyte st = (Some b, st')" "ok t st'" "content avail st' = m"
    "is_buffer st' = is_buffer st" "is_errmsg st' = is_errmsg st" "is_left st = Suc (is_left st')"
proof -
  have "length (content avail st) = is_left st" by (rule content_length [OF assms(1)])
  then have l: "0 < is_left st" "1 \<le> length (avail (is_state st))"
    using assms by (auto simp: ok_def)
  obtain s where s: "cb (is_state st) 1 = (Some (take 1 (avail (is_state st))), s)" "avail s = drop 1 (avail (is_state st))"
    using reads [OF l(2)] by blast
  obtain x r where xr: "avail (is_state st) = x # r" using l(2) by (cases "avail (is_state st)") auto
  have r: "x = b" "m = take (is_left st - 1) r"
    using assms(2) l(1) by (simp_all add: content_def xr take_Cons')
  let ?st = "st\<lparr>is_state := s, is_left := is_left st - 1\<rparr>"
  show ?thesis
  proof (rule that [of ?st])
    show "pb_readbyte st = (Some b, ?st)" using assms(1) l(1) s(1) xr r(1) by (simp add: pb_readbyte_def ok_def)
    show "ok t ?st" "content avail ?st = m" using assms(1) s(2) xr r(2) l(1) by (auto simp: ok_def content_def drop_Cons')
  qed (use l(1) in simp_all)
qed

lemma readbyte_Nil: "ok t st \<Longrightarrow> content avail st = [] \<Longrightarrow> pb_readbyte st = (None, is_error ''end-of-stream'' st)"
  using content_length [of t st] by (simp add: pb_readbyte_def)

end

interpretation ibuf: input_stream buf_read "\<lambda>m. m"
  by unfold_locales (simp add: buf_read_def)

locale output_stream =
  fixes cb :: "'s write_fn" and sink :: "'s \<Rightarrow> u8 list" and room :: "'s \<Rightarrow> nat"
  assumes writes: "length b \<le> room s \<Longrightarrow>
    \<exists>s'. cb s b = (True, s') \<and> sink s' = sink s @ b \<and> room s' = room s - length b"
begin

text \<open>A stream on this callback whose limit is within the room of the sink.\<close>

definition ok :: "'s pb_ostream \<Rightarrow> bool" where
  "ok st \<longleftrightarrow> os_callback st = Some cb \<and> os_written st \<le> os_max st \<and> os_max st < SIZE_MOD \<and>
     os_max st - os_written st \<le> room (os_state st)"

definition appends :: "'s pb_ostream \<Rightarrow> u8 list \<Rightarrow> 's pb_ostream \<Rightarrow> bool" where
  "appends st b st' \<longleftrightarrow> ok st' \<and> sink (os_state st') = sink (os_state st) @ b \<and>
     room (os_state st') = room (os_state st) - length b \<and>
     os_written st' = os_written st + length b \<and> os_max st' = os_max st \<and> os_errmsg st' = os_errmsg st"

lemma appends_refl: "ok st \<Longrightarrow> appends st [] st"
  by (simp add: appends_def)

lemma appends_trans: "appends st a st' \<Longrightarrow> appends st' b st'' \<Longrightarrow> appends st (a @ b) st''"
  by (simp add: appends_def)

lemma write_room:
  assumes "ok st" "os_written st + length b \<le> os_max st"
  shows "\<exists>st'. pb_write st b = (True, st') \<and> appends st b st'"
proof -
  have t: "(os_written st + length b) mod SIZE_MOD = os_written st + length b"
    using assms by (simp add: ok_def)
  have "length b \<le> room (os_state st)" using assms unfolding ok_def by linarith
  from writes [OF this] obtain s where "cb (os_state st) b = (True, s)" "sink s = sink (os_state st) @ b"
    "room s = room (os_state st) - length b" by blast
  then show ?thesis
    using assms t by (cases "b = []") (auto simp: pb_write_def ok_def appends_def Let_def)
qed

lemma write_full:
  assumes "ok st" "os_max st < os_written st + length b" "length b < SIZE_MOD"
  shows "pb_write st b = (False, os_error ''stream full'' st)"
proof -
  have "b \<noteq> []" using assms(1,2) by (auto simp: ok_def)
  moreover have "(os_written st + length b) mod SIZE_MOD < os_written st \<or> (os_written st + length b) mod SIZE_MOD > os_max st"
  proof (cases "os_written st + length b < SIZE_MOD")
    case True
    then show ?thesis using assms(2) by simp
  next
    case False
    moreover have "os_written st < SIZE_MOD" using assms(1) by (simp add: ok_def)
    ultimately have "(os_written st + length b) mod SIZE_MOD = os_written st + length b - SIZE_MOD"
      using assms(3) by (simp add: mod_if)
    moreover have "os_written st + length b - SIZE_MOD < os_written st" using False assms(3) by linarith
    ultimately show ?thesis by simp
  qed
  ultimately show ?thesis using assms(1) by (simp add: pb_write_def ok_def Let_def)
qed

end

text \<open>What a stream on a buffer has written.\<close>

interpretation obuf: output_stream buf_write "\<lambda>(m, p). take p m" "\<lambda>(m, p). length m - p"
proof
  fix b :: "u8 list" and s :: "u8 list \<times> nat"
  assume a: "length b \<le> (case s of (m, p) \<Rightarrow> length m - p)"
  obtain m p where s: "s = (m, p)" by (cases s)
  show "\<exists>s'. buf_write s b = (True, s') \<and> (case s' of (m, p) \<Rightarrow> take p m) = (case s of (m, p) \<Rightarrow> take p m) @ b \<and>
      (case s' of (m, p) \<Rightarrow> length m - p) = (case s of (m, p) \<Rightarrow> length m - p) - length b"
    using a by (cases "p \<le> length m") (auto simp: s buf_write_def)
qed

end
