(* ===== verification/PbWire.thy ===== *)
theory PbWire
  imports PbStream
begin

text \<open>
  The wire format of nanopb, \<^verbatim>\<open>nanopb/pb_decode.c\<close> and \<^verbatim>\<open>nanopb/pb_encode.c\<close>: variable-length and
  fixed integers, tags, strings, submessages, the skipping of fields and the integer fields with their
  checks of the size. A decoder returns the value, or \<open>None\<close> for false, and the stream. \<open>uint_fast8_t\<close>
  is a \<open>uint8_t\<close> on the platforms of the pod; the options \<^verbatim>\<open>PB_BUFFER_ONLY\<close>, \<^verbatim>\<open>PB_NO_ERRMSG\<close> and
  \<^verbatim>\<open>PB_WITHOUT_64BIT\<close> are not set. Signed integers are words; the descriptors of messages and what is
  driven by them are not modelled, the encoder of a message is an argument.

  The reference is base 128 on natural numbers, \<open>leb\<close> and \<open>vval\<close>.
\<close>

section \<open>Writing\<close>

function varint_bytes :: "u64 \<Rightarrow> u8 list" where
  "varint_bytes value =
     (if value = 0 then [] else (ucast (value AND 0x7F) OR 0x80) # varint_bytes (drop_bit 7 value))"
  by pat_completeness auto
termination
proof (relation "measure unat")
  fix v :: u64 assume "v \<noteq> 0"
  then have "0 < unat v" by (simp add: unat_gt_0)
  then have "unat v div 2 ^ 7 < unat v" by simp
  then show "(drop_bit 7 v, v) \<in> measure unat" by (simp only: in_measure unat_drop_bit_word)
qed simp

declare varint_bytes.simps [simp del]

definition pb_encode_varint :: "'s pb_ostream \<Rightarrow> u64 \<Rightarrow> bool \<times> 's pb_ostream" where
  "pb_encode_varint st value =
     (if value \<le> 0x7F then pb_write st [ucast value]
      else (let b = varint_bytes value in pb_write st (butlast b @ [last b AND 0x7F])))"

definition zigzag :: "u64 \<Rightarrow> u64" where
  "zigzag value = (if sint value < 0 then NOT (push_bit 1 value) else push_bit 1 value)"

definition pb_encode_svarint :: "'s pb_ostream \<Rightarrow> u64 \<Rightarrow> bool \<times> 's pb_ostream" where
  "pb_encode_svarint st value = pb_encode_varint st (zigzag value)"

definition pb_encode_fixed32 :: "'s pb_ostream \<Rightarrow> u32 \<Rightarrow> bool \<times> 's pb_ostream" where
  "pb_encode_fixed32 st v =
     pb_write st [ucast (v AND 0xFF), ucast (drop_bit 8 v AND 0xFF), ucast (drop_bit 16 v AND 0xFF),
       ucast (drop_bit 24 v AND 0xFF)]"

definition pb_encode_fixed64 :: "'s pb_ostream \<Rightarrow> u64 \<Rightarrow> bool \<times> 's pb_ostream" where
  "pb_encode_fixed64 st v =
     pb_write st [ucast (v AND 0xFF), ucast (drop_bit 8 v AND 0xFF), ucast (drop_bit 16 v AND 0xFF),
       ucast (drop_bit 24 v AND 0xFF), ucast (drop_bit 32 v AND 0xFF), ucast (drop_bit 40 v AND 0xFF),
       ucast (drop_bit 48 v AND 0xFF), ucast (drop_bit 56 v AND 0xFF)]"

definition PB_WT_VARINT :: u32 where "PB_WT_VARINT = 0"
definition PB_WT_64BIT :: u32 where "PB_WT_64BIT = 1"
definition PB_WT_STRING :: u32 where "PB_WT_STRING = 2"
definition PB_WT_32BIT :: u32 where "PB_WT_32BIT = 5"

definition pb_encode_tag :: "'s pb_ostream \<Rightarrow> u32 \<Rightarrow> u32 \<Rightarrow> bool \<times> 's pb_ostream" where
  "pb_encode_tag st wiretype field_number =
     pb_encode_varint st (push_bit 3 (ucast field_number) OR ucast wiretype)"

definition pb_encode_string :: "'s pb_ostream \<Rightarrow> u8 list \<Rightarrow> bool \<times> 's pb_ostream" where
  "pb_encode_string st buffer =
     (case pb_encode_varint st (of_nat (length buffer)) of
        (False, st) \<Rightarrow> (False, st)
      | (True, st) \<Rightarrow> pb_write st buffer)"

text \<open>\<open>enc\<close> is \<open>pb_encode\<close> with the descriptor and the message. It runs twice, first to count.\<close>

definition pb_encode_submessage ::
    "'s pb_ostream \<Rightarrow> ('s pb_ostream \<Rightarrow> bool \<times> 's pb_ostream) \<Rightarrow> bool \<times> 's pb_ostream" where
  "pb_encode_submessage st enc =
     (case enc (PB_OSTREAM_SIZING (os_state st)) of
        (False, sub) \<Rightarrow> (False, st\<lparr>os_errmsg := os_errmsg sub\<rparr>)
      | (True, sub) \<Rightarrow>
          (let n = os_written sub in
           case pb_encode_varint st (of_nat n) of
             (False, st) \<Rightarrow> (False, st)
           | (True, st) \<Rightarrow>
               if os_callback st = None then pb_write st (replicate n 0)
               else if (os_written st + n) mod SIZE_MOD > os_max st then (False, os_error ''stream full'' st)
               else
                 (case enc \<lparr>os_callback = os_callback st, os_state = os_state st, os_max = n, os_written = 0,
                            os_errmsg = None\<rparr> of
                    (status, sub) \<Rightarrow>
                      (let st = st\<lparr>os_written := (os_written st + os_written sub) mod SIZE_MOD,
                                   os_state := os_state sub, os_errmsg := os_errmsg sub\<rparr>
                       in if os_written sub \<noteq> n then (False, os_error ''submsg size changed'' st)
                          else (status, st)))))"

section \<open>Reading\<close>

text \<open>The loop of \<open>pb_decode_varint32_eof\<close> after the first byte.\<close>

function varint32_loop :: "'s pb_istream \<Rightarrow> u32 \<Rightarrow> u8 \<Rightarrow> u32 option \<times> 's pb_istream" where
  "varint32_loop st result bitpos =
     (case pb_readbyte st of
        (None, st) \<Rightarrow> (None, st)
      | (Some b, st) \<Rightarrow>
          if bitpos \<ge> 32 \<and> b AND 0x7F \<noteq> 0 \<and>
             (drop_bit 31 result = 0 \<or> b \<noteq> (if bitpos < 63 then 0xFF else 0x01))
          then (None, is_error ''varint overflow'' st)
          else
            (let result = (if bitpos \<ge> 32 then result
                           else result OR push_bit (unat bitpos) (ucast (b AND 0x7F)));
                 bitpos = bitpos + 7
             in if b AND 0x80 \<noteq> 0 then varint32_loop st result bitpos
                else if bitpos = 35 \<and> b AND 0x70 \<noteq> 0 then (None, is_error ''varint overflow'' st)
                else (Some result, st)))"
  by pat_completeness auto
termination
proof (relation "measure (\<lambda>(st, result, bitpos). is_left st)")
qed (use pb_readbyte_less [OF sym] in \<open>auto split: if_splits\<close>)

declare varint32_loop.simps [simp del]

text \<open>The last component is what is stored through \<open>eof\<close>.\<close>

definition pb_decode_varint32_eof :: "'s pb_istream \<Rightarrow> u32 option \<times> 's pb_istream \<times> bool" where
  "pb_decode_varint32_eof st =
     (case pb_readbyte st of
        (None, st) \<Rightarrow> (None, st, is_left st = 0)
      | (Some b, st) \<Rightarrow>
          if b AND 0x80 = 0 then (Some (ucast b), st, False)
          else (case varint32_loop st (ucast (b AND 0x7F)) 7 of (r, st) \<Rightarrow> (r, st, False)))"

definition pb_decode_varint32 :: "'s pb_istream \<Rightarrow> u32 option \<times> 's pb_istream" where
  "pb_decode_varint32 st = (case pb_decode_varint32_eof st of (r, st, _) \<Rightarrow> (r, st))"

function varint_loop :: "'s pb_istream \<Rightarrow> u64 \<Rightarrow> u8 \<Rightarrow> u64 option \<times> 's pb_istream" where
  "varint_loop st result bitpos =
     (if bitpos \<ge> 64 then (None, is_error ''varint overflow'' st)
      else
        (case pb_readbyte st of
           (None, st) \<Rightarrow> (None, st)
         | (Some b, st) \<Rightarrow>
             (let result = result OR push_bit (unat bitpos) (ucast (b AND 0x7F))
              in if b AND 0x80 \<noteq> 0 then varint_loop st result (bitpos + 7) else (Some result, st))))"
  by pat_completeness auto
termination
proof (relation "measure (\<lambda>(st, result, bitpos). is_left st)")
qed (use pb_readbyte_less [OF sym] in auto)

declare varint_loop.simps [simp del]

definition pb_decode_varint :: "'s pb_istream \<Rightarrow> u64 option \<times> 's pb_istream" where
  "pb_decode_varint st = varint_loop st 0 0"

definition unzigzag :: "u64 \<Rightarrow> u64" where
  "unzigzag value = (if value AND 1 \<noteq> 0 then NOT (drop_bit 1 value) else drop_bit 1 value)"

definition pb_decode_svarint :: "'s pb_istream \<Rightarrow> u64 option \<times> 's pb_istream" where
  "pb_decode_svarint st = apfst (map_option unzigzag) (pb_decode_varint st)"

fun le32 :: "u8 list \<Rightarrow> u32" where
  "le32 (b0 # b1 # b2 # b3 # _) =
     push_bit 0 (ucast b0) OR push_bit 8 (ucast b1) OR push_bit 16 (ucast b2) OR push_bit 24 (ucast b3)"
| "le32 _ = 0"

fun le64 :: "u8 list \<Rightarrow> u64" where
  "le64 (b0 # b1 # b2 # b3 # b4 # b5 # b6 # b7 # _) =
     push_bit 0 (ucast b0) OR push_bit 8 (ucast b1) OR push_bit 16 (ucast b2) OR push_bit 24 (ucast b3) OR
     push_bit 32 (ucast b4) OR push_bit 40 (ucast b5) OR push_bit 48 (ucast b6) OR push_bit 56 (ucast b7)"
| "le64 _ = 0"

definition pb_decode_fixed32 :: "'s pb_istream \<Rightarrow> u32 option \<times> 's pb_istream" where
  "pb_decode_fixed32 st = apfst (map_option le32) (pb_read st 4)"

definition pb_decode_fixed64 :: "'s pb_istream \<Rightarrow> u64 option \<times> 's pb_istream" where
  "pb_decode_fixed64 st = apfst (map_option le64) (pb_read st 8)"

text \<open>Wire type and field number, and whether the message has ended.\<close>

definition pb_decode_tag :: "'s pb_istream \<Rightarrow> (u32 \<times> u32) option \<times> 's pb_istream \<times> bool" where
  "pb_decode_tag st =
     (case pb_decode_varint32_eof st of
        (None, st, eof) \<Rightarrow> (None, st, eof)
      | (Some temp, st, eof) \<Rightarrow>
          if temp = 0 then (None, st, True) else (Some (temp AND 7, drop_bit 3 temp), st, eof))"

function pb_skip_varint :: "'s pb_istream \<Rightarrow> bool \<times> 's pb_istream" where
  "pb_skip_varint st =
     (case pb_read st 1 of
        (None, st) \<Rightarrow> (False, st)
      | (Some b, st) \<Rightarrow> if b \<noteq> [] \<and> hd b AND 0x80 \<noteq> 0 then pb_skip_varint st else (True, st))"
  by pat_completeness auto
termination
proof (relation "measure is_left")
qed (auto simp: pb_read_def split: if_splits prod.splits option.splits)

declare pb_skip_varint.simps [simp del]

definition pb_skip_string :: "'s pb_istream \<Rightarrow> bool \<times> 's pb_istream" where
  "pb_skip_string st =
     (case pb_decode_varint32 st of
        (None, st) \<Rightarrow> (False, st)
      | (Some n, st) \<Rightarrow> pb_read_null st (unat n))"

definition pb_skip_field :: "'s pb_istream \<Rightarrow> u32 \<Rightarrow> bool \<times> 's pb_istream" where
  "pb_skip_field st wire_type =
     (if wire_type = PB_WT_VARINT then pb_skip_varint st
      else if wire_type = PB_WT_64BIT then pb_read_null st 8
      else if wire_type = PB_WT_STRING then pb_skip_string st
      else if wire_type = PB_WT_32BIT then pb_read_null st 4
      else (False, is_error ''invalid wire_type'' st))"

text \<open>The substream and the stream that is left, which still has the state of before.\<close>

definition pb_make_string_substream :: "'s pb_istream \<Rightarrow> 's pb_istream option \<times> 's pb_istream" where
  "pb_make_string_substream st =
     (case pb_decode_varint32 st of
        (None, st) \<Rightarrow> (None, st)
      | (Some n, st) \<Rightarrow>
          if is_left st < unat n then (None, is_error ''parent stream too short'' st)
          else (Some (st\<lparr>is_left := unat n\<rparr>), st\<lparr>is_left := is_left st - unat n\<rparr>))"

definition pb_close_string_substream :: "'s pb_istream \<Rightarrow> 's pb_istream \<Rightarrow> bool \<times> 's pb_istream" where
  "pb_close_string_substream st sub =
     (case (if is_left sub \<noteq> 0 then pb_read_null sub (is_left sub) else (True, sub)) of
        (False, sub) \<Rightarrow> (False, st)
      | (True, sub) \<Rightarrow> (True, st\<lparr>is_state := is_state sub, is_errmsg := is_errmsg sub\<rparr>))"

section \<open>Integer fields\<close>

text \<open>\<open>v\<close> holds the bytes of the field, read at its size and extended by its sign or zeros.\<close>

definition load_signed :: "nat \<Rightarrow> u64 \<Rightarrow> u64 option" where
  "load_signed data_size v =
     (if data_size = 1 then Some (scast (ucast v :: u8)) else if data_size = 2 then Some (scast (ucast v :: u16))
      else if data_size = 4 then Some (scast (ucast v :: u32)) else if data_size = 8 then Some v else None)"

definition load_unsigned :: "nat \<Rightarrow> u64 \<Rightarrow> u64 option" where
  "load_unsigned data_size v =
     (if data_size = 1 then Some (ucast (ucast v :: u8)) else if data_size = 2 then Some (ucast (ucast v :: u16))
      else if data_size = 4 then Some (ucast (ucast v :: u32)) else if data_size = 8 then Some v else None)"

definition pb_enc_varint :: "nat \<Rightarrow> u64 \<Rightarrow> 's pb_ostream \<Rightarrow> bool \<times> 's pb_ostream" where
  "pb_enc_varint data_size v st =
     (case load_signed data_size v of
        None \<Rightarrow> (False, os_error ''invalid data_size'' st)
      | Some value \<Rightarrow> pb_encode_varint st value)"

definition pb_enc_uvarint :: "nat \<Rightarrow> u64 \<Rightarrow> 's pb_ostream \<Rightarrow> bool \<times> 's pb_ostream" where
  "pb_enc_uvarint data_size v st =
     (case load_unsigned data_size v of
        None \<Rightarrow> (False, os_error ''invalid data_size'' st)
      | Some value \<Rightarrow> pb_encode_varint st value)"

definition pb_enc_svarint :: "nat \<Rightarrow> u64 \<Rightarrow> 's pb_ostream \<Rightarrow> bool \<times> 's pb_ostream" where
  "pb_enc_svarint data_size v st =
     (case load_signed data_size v of
        None \<Rightarrow> (False, os_error ''invalid data_size'' st)
      | Some value \<Rightarrow> pb_encode_svarint st value)"

text \<open>The value that the field holds when the decoder returns true. When the value is too large the field
  has been written as well.\<close>

definition store_field :: "(nat \<Rightarrow> u64 \<Rightarrow> u64 option) \<Rightarrow> nat \<Rightarrow> u64 \<Rightarrow> 's pb_istream \<Rightarrow> u64 option \<times> 's pb_istream" where
  "store_field ld data_size value st =
     (case ld data_size value of
        None \<Rightarrow> (None, is_error ''invalid data_size'' st)
      | Some clamped \<Rightarrow>
          if clamped \<noteq> value then (None, is_error ''integer too large'' st) else (Some clamped, st))"

definition pb_dec_varint :: "nat \<Rightarrow> 's pb_istream \<Rightarrow> u64 option \<times> 's pb_istream" where
  "pb_dec_varint data_size st =
     (case pb_decode_varint st of
        (None, st) \<Rightarrow> (None, st)
      | (Some value, st) \<Rightarrow>
          store_field load_signed data_size (if data_size = 8 then value else scast (ucast value :: u32)) st)"

definition pb_dec_uvarint :: "nat \<Rightarrow> 's pb_istream \<Rightarrow> u64 option \<times> 's pb_istream" where
  "pb_dec_uvarint data_size st =
     (case pb_decode_varint st of
        (None, st) \<Rightarrow> (None, st)
      | (Some value, st) \<Rightarrow> store_field load_unsigned data_size value st)"

definition pb_dec_svarint :: "nat \<Rightarrow> 's pb_istream \<Rightarrow> u64 option \<times> 's pb_istream" where
  "pb_dec_svarint data_size st =
     (case pb_decode_svarint st of
        (None, st) \<Rightarrow> (None, st)
      | (Some value, st) \<Rightarrow> store_field load_signed data_size value st)"

definition pb_dec_bool :: "'s pb_istream \<Rightarrow> bool option \<times> 's pb_istream" where
  "pb_dec_bool st = apfst (map_option (\<lambda>v. v \<noteq> 0)) (pb_decode_varint32 st)"

definition pb_enc_bool :: "bool \<Rightarrow> 's pb_ostream \<Rightarrow> bool \<times> 's pb_ostream" where
  "pb_enc_bool v st = pb_encode_varint st (if v then 1 else 0)"

section \<open>Base 128\<close>

fun vval :: "u8 list \<Rightarrow> nat" where
  "vval [] = 0"
| "vval (b # bs) = unat b mod 128 + 128 * vval bs"

fun leb :: "nat \<Rightarrow> u8 list" where
  "leb v = (if v < 128 then [byte v] else byte (v mod 128 + 128) # leb (v div 128))"

declare leb.simps [simp del]

text \<open>A varint at the start of some bytes: bytes with the top bit, and one without.\<close>

definition vsplit :: "u8 list \<Rightarrow> (u8 list \<times> u8 list) option" where
  "vsplit m =
     (let p = takeWhile (\<lambda>b. 128 \<le> unat b) m
      in if length p < length m then Some (take (Suc (length p)) m, drop (Suc (length p)) m) else None)"

lemma vsplit_Nil [simp]: "vsplit [] = None"
  by (simp add: vsplit_def)

lemma vsplit_Cons:
  "vsplit (b # m) = (if unat b < 128 then Some ([b], m)
     else (case vsplit m of None \<Rightarrow> None | Some (v, r) \<Rightarrow> Some (b # v, r)))"
  by (simp add: vsplit_def Let_def)

lemma vsplit_append: "vsplit m = Some (v, r) \<Longrightarrow> m = v @ r \<and> v \<noteq> []"
  by (induction m arbitrary: v) (auto simp: vsplit_Cons split: if_splits option.splits)

lemma leb_value: "vval (leb v) = v"
proof (induction v rule: leb.induct)
  case (1 v)
  show ?case
  proof (cases "v < 128")
    case True
    then show ?thesis by (simp add: leb.simps [of v])
  next
    case False
    have "v mod 128 + 128 < 256" by simp
    then have "unat (byte (v mod 128 + 128)) mod 128 = v mod 128" by (simp only: unat_byte) simp
    then show ?thesis using False 1 by (simp add: leb.simps [of v])
  qed
qed

lemma leb_split: "vsplit (leb v @ r) = Some (leb v, r)"
proof (induction v rule: leb.induct)
  case (1 v)
  have "v mod 128 + 128 < 256" by simp
  then have "unat (byte (v mod 128 + 128)) = v mod 128 + 128" by (rule unat_byte)
  then show ?case using 1 by (simp add: leb.simps [of v] vsplit_Cons)
qed

lemma leb_length: "v < 128 ^ Suc k \<Longrightarrow> length (leb v) \<le> Suc k"
proof (induction k arbitrary: v)
  case 0
  then show ?case by (simp add: leb.simps)
next
  case (Suc k)
  then have "v div 128 < 128 ^ Suc k" by (simp add: div_less_iff_less_mult mult.commute)
  with Suc.IH show ?case by (simp add: leb.simps [of v])
qed

lemma leb_nonempty [simp]: "leb v \<noteq> []"
  by (simp add: leb.simps)

section \<open>Varints are written in base 128\<close>

lemma byte_or_80: "unat b < 128 \<Longrightarrow> b OR 0x80 = b + (0x80 :: u8)"
proof -
  assume "unat b < 128"
  then have "push_bit 7 1 OR b = push_bit 7 1 + (b :: u8)" by (intro shift_or_eq_add) simp
  then show ?thesis by (simp add: or.commute add.commute)
qed

lemma low7: "ucast (v AND 0x7F :: u64) = byte (unat v mod 128)"
proof -
  have "unat (v AND 0x7F) = unat v mod 128" using unat_and_mask [of v 7] by (simp add: mask_eq_exp_minus_1)
  then have "unat (ucast (v AND 0x7F) :: u8) = unat v mod 128" by (simp add: unat_ucast8)
  then show ?thesis by (rule byte_eqI [symmetric])
qed

lemma varint_bytes_leb:
  "v \<noteq> 0 \<Longrightarrow> butlast (varint_bytes v) @ [last (varint_bytes v) AND 0x7F] = leb (unat v)"
proof (induction v rule: varint_bytes.induct)
  case (1 v)
  let ?d = "drop_bit 7 v"
  have m: "unat v mod 128 < 128" by simp
  have b: "ucast (v AND 0x7F) OR 0x80 = byte (unat v mod 128 + 128)"
  proof -
    have "unat (byte (unat v mod 128) + 0x80) = unat v mod 128 + 128"
      using m by (subst unat_add_lem [THEN iffD1]) simp_all
    then have "byte (unat v mod 128) + 0x80 = byte (unat v mod 128 + 128)" by (rule byte_eqI [symmetric])
    then show ?thesis unfolding low7 using m byte_or_80 [of "byte (unat v mod 128)"] by simp
  qed
  have d: "unat ?d = unat v div 128" by (simp add: unat_drop_bit_word)
  show ?case
  proof (cases "?d = 0")
    case True
    then have v: "unat v < 128" using d by (simp add: unat_eq_0 div_eq_0_iff)
    then have "byte (unat v mod 128 + 128) AND 0x7F = byte (unat v)"
      by (simp add: word_unat_eq_iff unat_and_7f)
    then show ?thesis using True 1(2) v b by (simp add: varint_bytes.simps [of v] varint_bytes.simps [of 0] leb.simps [of "unat v"])
  next
    case False
    then have "\<not> unat v < 128" using d by (auto simp: unat_eq_0 [symmetric])
    moreover have "varint_bytes ?d \<noteq> []" using False by (simp add: varint_bytes.simps [of ?d])
    ultimately show ?thesis
      using 1(1) [OF 1(2) False] 1(2) b d by (simp add: varint_bytes.simps [of v] leb.simps [of "unat v"])
  qed
qed

lemma encode_varint_leb: "pb_encode_varint st v = pb_write st (leb (unat v))"
proof (cases "v \<le> 0x7F")
  case True
  then have "unat v < 128" by (simp add: word_le_nat_alt)
  moreover from this have "ucast v = byte (unat v)" by (intro byte_eqI [symmetric]) (simp add: unat_ucast8)
  ultimately show ?thesis using True by (simp add: pb_encode_varint_def leb.simps [of "unat v"])
next
  case False
  then have "v \<noteq> 0" by auto
  then show ?thesis using False by (simp add: pb_encode_varint_def varint_bytes_leb)
qed

section \<open>Varints are read in base 128\<close>

lemma vval_append: "vval (xs @ ys) = vval xs + 128 ^ length xs * vval ys"
  by (induction xs) (simp_all add: algebra_simps)

lemma vval_less: "vval xs < 128 ^ length xs"
proof (induction xs)
  case (Cons b bs)
  have "unat b mod 128 < 128" by simp
  with Cons show ?case by simp
qed simp

lemma add_chunk:
  fixes w :: "'a :: len word"
  assumes "R < 2 ^ n" "n < LENGTH('a)"
  shows "of_nat R OR push_bit n w = of_nat (R + 2 ^ n * unat w)"
proof -
  have "R < 2 ^ LENGTH('a)" using assms by (meson less_trans power_strict_increasing one_less_numeral_iff semiring_norm(76))
  then have "unat (of_nat R :: 'a word) < 2 ^ n" using assms(1) by (simp add: unat_of_nat)
  from shift_or_eq_add [OF this, of w] show ?thesis
    by (simp add: or.commute push_bit_eq_mult add.commute mult.commute)
qed

lemma pow128: "(128 :: nat) ^ k = 2 ^ (7 * k)"
  by (simp add: power_mult)

lemma low7_64: "unat (ucast (b AND 0x7F :: u8) :: u64) = unat b mod 128"
  by (simp add: unat_u8_64 unat_and_7f)

lemma bitpos_unat: "k \<le> 11 \<Longrightarrow> unat (of_nat (7 * k) :: u8) = 7 * k"
  by (simp add: unat_of_nat del: of_nat_mult)

lemma bitpos_step: "(of_nat (7 * k) :: u8) + 7 = of_nat (7 * Suc k)"
  by simp

lemma word_of_natI: "unat w = n \<Longrightarrow> w = of_nat n"
  by (drule sym) simp

lemma top_bits:
  assumes "unat (b :: u8) < 128"
  shows "b AND 0x70 = 0 \<longleftrightarrow> unat b < 16"
proof -
  have d: "unat (drop_bit 4 b) = unat b div 16" by (simp add: unat_drop_bit_word)
  have m: "(0x70 :: u8) = push_bit 4 (mask 3)" "mask 3 = (7 :: u8)" by (simp_all add: mask_eq_exp_minus_1)
  have "b AND push_bit 4 (mask 3) = push_bit 4 (drop_bit 4 b AND mask 3)"
    by (rule bit_word_eqI) (auto simp: bit_simps simp del: push_bit_numeral)
  then have "b AND 0x70 = push_bit 4 (drop_bit 4 b AND 7)" unfolding m .
  moreover have "drop_bit 4 b AND 7 = drop_bit 4 b"
  proof -
    have "unat (drop_bit 4 b AND 7) = unat (drop_bit 4 b)"
      using unat_and_mask [of "drop_bit 4 b" 3] assms d by (simp add: mask_eq_exp_minus_1)
    then show ?thesis by (simp add: word_unat_eq_iff)
  qed
  moreover have "push_bit 4 (drop_bit 4 b) = 0 \<longleftrightarrow> drop_bit 4 b = 0"
  proof -
    have "unat b div 16 * 16 < 256" using assms div_times_less_eq_dividend [of "unat b" 16] by linarith
    then show ?thesis using d by (simp add: word_unat_eq_iff push_bit_eq_mult unat_word_ariths)
  qed
  moreover have "drop_bit 4 b = 0 \<longleftrightarrow> unat b < 16" using d by (auto simp: word_unat_eq_iff div_eq_0_iff)
  ultimately show ?thesis by simp
qed

context input_stream
begin

lemma varint_loop_content:
  "ok t st \<Longrightarrow> content avail st = m \<Longrightarrow> R < 128 ^ k \<Longrightarrow> k \<le> 10 \<Longrightarrow>
    (case vsplit m of
       Some (v, r) \<Rightarrow>
         if k + length v \<le> 10
         then \<exists>st'. varint_loop st (of_nat R) (of_nat (7 * k)) = (Some (of_nat (R + 128 ^ k * vval v)), st') \<and>
           ok t st' \<and> content avail st' = r
         else \<exists>st'. varint_loop st (of_nat R) (of_nat (7 * k)) = (None, st')
     | None \<Rightarrow> \<exists>st'. varint_loop st (of_nat R) (of_nat (7 * k)) = (None, st'))"
proof (induction m arbitrary: st R k)
  case Nil
  then show ?case using readbyte_Nil [OF Nil(1,2)] by (simp add: varint_loop.simps [of st])
next
  case (Cons b m)
  show ?case
  proof (cases "k = 10")
    case True
    then have "varint_loop st (of_nat R) (of_nat (7 * k)) = (None, is_error ''varint overflow'' st)"
      by (subst varint_loop.simps) (simp add: word_le_nat_alt)
    moreover have "length v > 0" if "vsplit (b # m) = Some (v, r)" for v r using vsplit_append [OF that] by simp
    ultimately show ?thesis using True by (fastforce split: option.splits)
  next
    case False
    then have k: "k \<le> 9" using Cons.prems(4) by simp
    obtain st1 where r: "pb_readbyte st = (Some b, st1)" "ok t st1" "content avail st1 = m"
      by (rule readbyte_Cons [OF Cons.prems(1,2)])
    let ?R = "R + 128 ^ k * (unat b mod 128)"
    have pos: "unat (of_nat (7 * k) :: u8) = 7 * k" using k by (intro bitpos_unat) simp
    then have lt: "\<not> (of_nat (7 * k) :: u8) \<ge> 64" using k by (simp add: word_le_nat_alt del: of_nat_mult)
    have acc: "of_nat R OR push_bit (7 * k) (ucast (b AND 0x7F)) = (of_nat ?R :: u64)"
      using add_chunk [of R "7 * k" "ucast (b AND 0x7F) :: u64"] Cons.prems(3) k by (simp add: pow128 low7_64)
    have step: "varint_loop st (of_nat R) (of_nat (7 * k)) =
      (if b AND 0x80 \<noteq> 0 then varint_loop st1 (of_nat ?R) (of_nat (7 * Suc k)) else (Some (of_nat ?R), st1))"
      by (subst varint_loop.simps) (simp only: lt r(1) prod.case option.case pos acc bitpos_step Let_def if_False)
    have "unat b mod 128 \<le> 127" using mod_less_divisor [of 128 "unat b"] by linarith
    then have "128 ^ k * (unat b mod 128) \<le> 128 ^ k * 127" by (rule mult_le_mono2)
    then have R: "?R < 128 ^ Suc k" using Cons.prems(3) power_Suc [of "128 :: nat" k] by linarith
    show ?thesis
    proof (cases "unat b < 128")
      case True
      then show ?thesis using step r(2,3) k by (auto simp: vsplit_Cons and_80_zero)
    next
      case False
      then have "b AND 0x80 \<noteq> 0" by (simp add: and_80_zero)
      with step have e: "varint_loop st (of_nat R) (of_nat (7 * k)) = varint_loop st1 (of_nat ?R) (of_nat (7 * Suc k))"
        by simp
      have val: "?R + 128 ^ Suc k * vval v = R + 128 ^ k * vval (b # v)" for v by (simp add: algebra_simps)
      from Cons.IH [OF r(2,3) R] k False show ?thesis
        unfolding e vsplit_Cons
        by (cases "vsplit m") (auto simp: val simp del: vval.simps of_nat_add of_nat_mult power_Suc)
    qed
  qed
qed

lemma decode_varint_content:
  assumes "ok t st"
  shows "case vsplit (content avail st) of
       Some (v, r) \<Rightarrow>
         if length v \<le> 10
         then \<exists>st'. pb_decode_varint st = (Some (of_nat (vval v)), st') \<and> ok t st' \<and> content avail st' = r
         else \<exists>st'. pb_decode_varint st = (None, st')
     | None \<Rightarrow> \<exists>st'. pb_decode_varint st = (None, st')"
proof -
  have "(0 :: nat) < 128 ^ 0" "(0 :: nat) \<le> 10" by simp_all
  from varint_loop_content [OF assms refl this] show ?thesis
    unfolding pb_decode_varint_def by (auto split: option.splits if_splits)
qed

lemma decode_varint_leb:
  assumes "ok t st" "content avail st = leb n @ r" "n < 2 ^ 64"
  obtains st' where "pb_decode_varint st = (Some (of_nat n), st')" "ok t st'" "content avail st' = r"
proof -
  have "length (leb n) \<le> Suc 9" using assms(3) by (intro leb_length) simp
  with decode_varint_content [OF assms(1)] show ?thesis using that by (auto simp: assms(2) leb_split leb_value)
qed

text \<open>The 32-bit reader is exact on encodings of at most five bytes.\<close>

lemma varint32_loop_content:
  "ok t st \<Longrightarrow> content avail st = m \<Longrightarrow> R < 128 ^ k \<Longrightarrow> 1 \<le> k \<Longrightarrow> vsplit m = Some (v, r) \<Longrightarrow> k + length v \<le> 5 \<Longrightarrow>
    \<exists>st'. varint32_loop st (of_nat R) (of_nat (7 * k)) =
      (if R + 128 ^ k * vval v < 2 ^ 32 then Some (of_nat (R + 128 ^ k * vval v)) else None, st') \<and>
      (R + 128 ^ k * vval v < 2 ^ 32 \<longrightarrow> ok t st' \<and> content avail st' = r)"
proof (induction m arbitrary: st R k v)
  case (Cons b m)
  have lv: "0 < length v" using vsplit_append [OF Cons.prems(5)] by simp
  then have k: "k \<le> 4" using Cons.prems(6) by linarith
  obtain st1 where r: "pb_readbyte st = (Some b, st1)" "ok t st1" "content avail st1 = m"
    by (rule readbyte_Cons [OF Cons.prems(1,2)])
  let ?R = "R + 128 ^ k * (unat b mod 128)"
  have pos: "unat (of_nat (7 * k) :: u8) = 7 * k" using k by (intro bitpos_unat) simp
  then have lt: "\<not> (of_nat (7 * k) :: u8) \<ge> 32" using k by (simp add: word_le_nat_alt del: of_nat_mult)
  have b7: "unat (ucast (b AND 0x7F :: u8) :: u32) = unat b mod 128" by (simp add: unat_u8_32 unat_and_7f)
  have acc: "of_nat R OR push_bit (7 * k) (ucast (b AND 0x7F)) = (of_nat ?R :: u32)"
    using add_chunk [of R "7 * k" "ucast (b AND 0x7F) :: u32"] Cons.prems(3) k by (simp add: pow128 b7)
  have last5: "(of_nat (7 * Suc k) :: u8) = 35 \<longleftrightarrow> k = 4"
    using bitpos_unat [of "Suc k"] k by (auto simp: word_unat_eq_iff simp del: of_nat_mult of_nat_Suc)
  have step: "varint32_loop st (of_nat R) (of_nat (7 * k)) =
    (if b AND 0x80 \<noteq> 0 then varint32_loop st1 (of_nat ?R) (of_nat (7 * Suc k))
     else if k = 4 \<and> b AND 0x70 \<noteq> 0 then (None, is_error ''varint overflow'' st1)
     else (Some (of_nat ?R), st1))"
    by (subst varint32_loop.simps)
      (simp only: lt r(1) prod.case option.case pos acc bitpos_step last5 Let_def if_False simp_thms)
  have "unat b mod 128 \<le> 127" using mod_less_divisor [of 128 "unat b"] by linarith
  then have "128 ^ k * (unat b mod 128) \<le> 128 ^ k * 127" by (rule mult_le_mono2)
  then have R: "?R < 128 ^ Suc k" using Cons.prems(3) power_Suc [of "128 :: nat" k] by linarith
  show ?case
  proof (cases "unat b < 128")
    case True
    then have v: "v = [b]" "r = m" using Cons.prems(5) by (simp_all add: vsplit_Cons)
    have fits: "R + 128 ^ k * vval v < 2 ^ 32 \<longleftrightarrow> \<not> (k = 4 \<and> b AND 0x70 \<noteq> 0)"
    proof (cases "k = 4")
      case k4: True
      have b70: "b AND 0x70 = 0 \<longleftrightarrow> unat b < 16" using True
        by (simp add: top_bits)
      have "R + 128 ^ k * vval v = R + 2 ^ 28 * unat b" using True by (simp add: v k4)
      moreover have "R < 2 ^ 28" using Cons.prems(3) by (simp add: k4)
      ultimately show ?thesis using k4 b70 by auto
    next
      case False
      then have "128 ^ Suc k \<le> (128 :: nat) ^ 4" using k by (intro power_increasing) auto
      then show ?thesis using R False by (simp add: v)
    qed
    show ?thesis using step True r(2,3) fits v by (auto simp: and_80_zero)
  next
    case False
    then have "b AND 0x80 \<noteq> 0" by (simp add: and_80_zero)
    with step have e: "varint32_loop st (of_nat R) (of_nat (7 * k)) = varint32_loop st1 (of_nat ?R) (of_nat (7 * Suc k))"
      by simp
    obtain v' where v': "vsplit m = Some (v', r)" "v = b # v'"
      using Cons.prems(5) False by (auto simp: vsplit_Cons split: option.splits)
    have val: "?R + 128 ^ Suc k * vval v' = R + 128 ^ k * vval v" by (simp add: v'(2) algebra_simps)
    from Cons.IH [OF r(2,3) R _ v'(1)] Cons.prems(6) v'(2) show ?thesis unfolding e val by simp
  qed
qed simp

lemma decode_varint32_eof_content:
  assumes "ok t st" "vsplit (content avail st) = Some (v, r)" "length v \<le> 5"
  shows "\<exists>st'. pb_decode_varint32_eof st = (if vval v < 2 ^ 32 then Some (of_nat (vval v)) else None, st', False) \<and>
    (vval v < 2 ^ 32 \<longrightarrow> ok t st' \<and> content avail st' = r)"
proof -
  obtain b m where m: "content avail st = b # m" using assms(2) by (cases "content avail st") auto
  obtain st1 where r: "pb_readbyte st = (Some b, st1)" "ok t st1" "content avail st1 = m"
    by (rule readbyte_Cons [OF assms(1) m])
  show ?thesis
  proof (cases "unat b < 128")
    case True
    then have "v = [b]" "r = m" using assms(2) by (simp_all add: m vsplit_Cons)
    moreover have "ucast b = (of_nat (unat b) :: u32)" by (simp add: word_unat_eq_iff unat_u8_32 unat_of_nat_u32 less_trans [OF unat_u8_less])
    ultimately show ?thesis using True r by (auto simp: pb_decode_varint32_eof_def and_80_zero less_trans [OF unat_u8_less])
  next
    case False
    then have b: "b AND 0x80 \<noteq> 0" by (simp add: and_80_zero)
    obtain v' where v': "vsplit m = Some (v', r)" "v = b # v'"
      using assms(2) False by (auto simp: m vsplit_Cons split: option.splits)
    have "unat b mod 128 < 128 ^ 1" "(1 :: nat) \<le> 1" "1 + length v' \<le> 5" using assms(3) v'(2) by simp_all
    from varint32_loop_content [OF r(2,3) this(1,2) v'(1) this(3)] obtain st' where st':
      "varint32_loop st1 (of_nat (unat b mod 128)) 7 = (if vval v < 2 ^ 32 then Some (of_nat (vval v)) else None, st')"
      "vval v < 2 ^ 32 \<longrightarrow> ok t st' \<and> content avail st' = r" by (auto simp: v'(2))
    moreover have "ucast (b AND 0x7F) = (of_nat (unat b mod 128) :: u32)"
      by (simp add: word_unat_eq_iff unat_u8_32 unat_and_7f unat_of_nat_u32 less_trans [OF mod_less_divisor])
    ultimately show ?thesis using b r(1) by (simp add: pb_decode_varint32_eof_def)
  qed
qed

lemma decode_varint32_eof_leb:
  assumes "ok t st" "content avail st = leb n @ r" "n < 2 ^ 32"
  obtains st' where "pb_decode_varint32_eof st = (Some (of_nat n), st', False)" "ok t st'" "content avail st' = r"
proof -
  have "length (leb n) \<le> Suc 4" using assms(3) by (intro leb_length) simp
  then show ?thesis
    using decode_varint32_eof_content [OF assms(1), of "leb n" r] assms(2,3) that by (auto simp: leb_split leb_value)
qed

lemma decode_varint32_leb:
  assumes "ok t st" "content avail st = leb n @ r" "n < 2 ^ 32"
  obtains st' where "pb_decode_varint32 st = (Some (of_nat n), st')" "ok t st'" "content avail st' = r"
  by (rule decode_varint32_eof_leb [OF assms]) (use that in \<open>simp add: pb_decode_varint32_def\<close>)

lemma decode_tag_leb:
  assumes "ok t st" "content avail st = leb (8 * f + w) @ r" "8 * f + w < 2 ^ 32" "w < 8" "0 < f"
  obtains st' where "pb_decode_tag st = (Some (of_nat w, of_nat f), st', False)" "ok t st'" "content avail st' = r"
proof (rule decode_varint32_eof_leb [OF assms(1-3)])
  fix st' assume st': "pb_decode_varint32_eof st = (Some (of_nat (8 * f + w)), st', False)"
    "ok t st'" "content avail st' = r"
  let ?t = "of_nat (8 * f + w) :: u32"
  have t: "unat ?t = 8 * f + w" using assms(3) by (simp add: unat_of_nat del: of_nat_add of_nat_mult)
  then have "?t \<noteq> 0" using assms(5) by (intro notI) simp
  moreover have "?t AND 7 = of_nat w"
  proof (rule word_of_natI)
    have "unat (?t AND mask 3) = (8 * f + w) mod 2 ^ 3" by (subst unat_and_mask) (simp only: t)
    then show "unat (?t AND 7) = w" using assms(4) by (simp only: mask_eq_exp_minus_1) simp
  qed
  moreover have "drop_bit 3 ?t = of_nat f"
  proof (rule word_of_natI)
    show "unat (drop_bit 3 ?t) = f" using assms(4) by (simp only: unat_drop_bit_word t) simp
  qed
  ultimately show ?thesis using st' that by (simp add: pb_decode_tag_def del: of_nat_add of_nat_mult)
qed

lemma decode_fixed32_bytes:
  assumes "ok t st" "content avail st = b @ r" "length b = 4"
  obtains st' where "pb_decode_fixed32 st = (Some (le32 b), st')" "ok t st'" "content avail st' = r"
proof -
  have "4 \<le> is_left st" using content_length [OF assms(1)] assms(2,3) by simp
  from read_some [OF assms(1) this] obtain s where s:
    "pb_read st 4 = (Some (take 4 (content avail st)), st\<lparr>is_state := s, is_left := is_left st - 4\<rparr>)"
    "ok t (st\<lparr>is_state := s, is_left := is_left st - 4\<rparr>)"
    "content avail (st\<lparr>is_state := s, is_left := is_left st - 4\<rparr>) = drop 4 (content avail st)" .
  show ?thesis
    by (rule that [OF _ s(2)]) (simp_all add: pb_decode_fixed32_def s(1,3) assms(2,3))
qed

lemma decode_fixed64_bytes:
  assumes "ok t st" "content avail st = b @ r" "length b = 8"
  obtains st' where "pb_decode_fixed64 st = (Some (le64 b), st')" "ok t st'" "content avail st' = r"
proof -
  have "8 \<le> is_left st" using content_length [OF assms(1)] assms(2,3) by simp
  from read_some [OF assms(1) this] obtain s where s:
    "pb_read st 8 = (Some (take 8 (content avail st)), st\<lparr>is_state := s, is_left := is_left st - 8\<rparr>)"
    "ok t (st\<lparr>is_state := s, is_left := is_left st - 8\<rparr>)"
    "content avail (st\<lparr>is_state := s, is_left := is_left st - 8\<rparr>) = drop 8 (content avail st)" .
  show ?thesis
    by (rule that [OF _ s(2)]) (simp_all add: pb_decode_fixed64_def s(1,3) assms(2,3))
qed

lemma read_null_bytes:
  assumes "ok t st" "content avail st = b @ r" "length b = n"
  obtains st' where "pb_read_null st n = (True, st')" "ok t st'" "content avail st' = r"
proof -
  have "n \<le> is_left st" using content_length [OF assms(1)] assms(2,3) by simp
  from skip_some [OF assms(1) this] show ?thesis using that assms(2,3) by auto
qed

text \<open>A string, with its length in front. The substream has its bytes. When it is closed, however much of
  it has been read, the stream goes on behind them.\<close>

lemma substream_bytes:
  assumes "ok t st" "content avail st = leb (length b) @ b @ r" "length b < 2 ^ 32"
  obtains sub st' where "pb_make_string_substream st = (Some sub, st')" "ok (r @ t) sub" "content avail sub = b"
    "is_left sub = length b"
    "\<And>sub'. ok (r @ t) sub' \<Longrightarrow>
       \<exists>st''. pb_close_string_substream st' sub' = (True, st'') \<and> ok t st'' \<and> content avail st'' = r"
proof (rule decode_varint32_leb [OF assms])
  fix s assume s: "pb_decode_varint32 st = (Some (of_nat (length b)), s)" "ok t s" "content avail s = b @ r"
  have n: "unat (of_nat (length b) :: u32) = length b" using assms(3) by (simp add: unat_of_nat)
  have l: "is_left s = length b + length r" using content_length [OF s(2)] s(3) by simp
  have av: "avail (is_state s) = b @ r @ t"
    using s(2,3) append_take_drop_id [of "is_left s" "avail (is_state s)"] by (simp add: ok_def content_def)
  let ?sub = "s\<lparr>is_left := length b\<rparr>" and ?st = "s\<lparr>is_left := length r\<rparr>"
  show ?thesis
  proof (rule that [of ?sub ?st])
    show "pb_make_string_substream st = (Some ?sub, ?st)"
      by (simp add: pb_make_string_substream_def s(1) n l)
    show "ok (r @ t) ?sub" "content avail ?sub = b" "is_left ?sub = length b"
      using s(2) by (simp_all add: ok_def content_def av)
    fix sub' assume sub': "ok (r @ t) sub'"
    obtain x where x: "(if is_left sub' \<noteq> 0 then pb_read_null sub' (is_left sub') else (True, sub')) = (True, x)"
      "avail (is_state x) = r @ t"
    proof (cases "is_left sub' = 0")
      case True
      then show ?thesis using that [of sub'] sub' by (simp add: ok_def)
    next
      case False
      from skip_some [OF sub' order_refl] obtain y where
        "pb_read_null sub' (is_left sub') = (True, sub'\<lparr>is_state := y, is_left := is_left sub' - is_left sub'\<rparr>)"
        "ok (r @ t) (sub'\<lparr>is_state := y, is_left := is_left sub' - is_left sub'\<rparr>)" by blast
      then show ?thesis using that False by (simp add: ok_def)
    qed
    show "\<exists>st''. pb_close_string_substream ?st sub' = (True, st'') \<and> ok t st'' \<and> content avail st'' = r"
      unfolding pb_close_string_substream_def x(1) using s(2) by (simp add: ok_def content_def x(2))
  qed
qed

lemma skip_varint_content:
  "ok t st \<Longrightarrow> content avail st = m \<Longrightarrow>
    (case vsplit m of
       Some (v, r) \<Rightarrow> \<exists>st'. pb_skip_varint st = (True, st') \<and> ok t st' \<and> content avail st' = r
     | None \<Rightarrow> \<exists>st'. pb_skip_varint st = (False, st'))"
proof (induction m arbitrary: st)
  case Nil
  then have "is_left st = 0" using content_length [OF Nil(1)] by simp
  then have "pb_read st 1 = (None, is_error ''end-of-stream'' st)" by (simp add: read_none)
  then show ?case by (simp add: pb_skip_varint.simps [of st])
next
  case (Cons b m)
  have "1 \<le> is_left st" using content_length [OF Cons.prems(1)] Cons.prems(2) by simp
  from read_some [OF Cons.prems(1) this] obtain s where s:
    "pb_read st 1 = (Some (take 1 (content avail st)), st\<lparr>is_state := s, is_left := is_left st - 1\<rparr>)"
    "ok t (st\<lparr>is_state := s, is_left := is_left st - 1\<rparr>)"
    "content avail (st\<lparr>is_state := s, is_left := is_left st - 1\<rparr>) = drop 1 (content avail st)" .
  let ?st = "st\<lparr>is_state := s, is_left := is_left st - 1\<rparr>"
  have e: "pb_skip_varint st = (if unat b < 128 then (True, ?st) else pb_skip_varint ?st)"
    unfolding pb_skip_varint.simps [of st] s(1) Cons.prems(2) by (simp add: and_80_zero)
  have c: "content avail ?st = m" using s(3) Cons.prems(2) by simp
  show ?case
  proof (cases "unat b < 128")
    case True
    then show ?thesis using s(2) c by (simp add: e vsplit_Cons)
  next
    case False
    then show ?thesis using Cons.IH [OF s(2) c] by (auto simp: e vsplit_Cons split: option.splits)
  qed
qed

lemma skip_varint_leb:
  assumes "ok t st" "content avail st = leb n @ r"
  obtains st' where "pb_skip_varint st = (True, st')" "ok t st'" "content avail st' = r"
  using skip_varint_content [OF assms] that by (auto simp: leb_split)

lemma skip_string_bytes:
  assumes "ok t st" "content avail st = leb (length b) @ b @ r" "length b < 2 ^ 32"
  obtains st' where "pb_skip_string st = (True, st')" "ok t st'" "content avail st' = r"
proof (rule decode_varint32_leb [OF assms])
  fix st' assume st': "pb_decode_varint32 st = (Some (of_nat (length b)), st')" "ok t st'" "content avail st' = b @ r"
  have n: "unat (of_nat (length b) :: u32) = length b" using assms(3) by (simp add: unat_of_nat)
  show ?thesis
    by (rule read_null_bytes [OF st'(2,3) refl]) (use that in \<open>simp add: pb_skip_string_def st'(1) n\<close>)
qed

end

section \<open>What the encoders write\<close>

lemma unzigzag_zigzag: "unzigzag (zigzag v) = v"
proof -
  have neg: "sint v < 0 \<longleftrightarrow> bit v 63" using bit_last_iff [of v] by simp
  have odd1: "w AND 1 \<noteq> 0 \<longleftrightarrow> bit w 0" for w :: u64 by (auto simp: and_one_eq bit_0 odd_iff_mod_2_eq_one)
  show ?thesis
  proof (cases "bit v 63")
    case True
    then have z: "zigzag v = NOT (push_bit 1 v)" by (simp add: zigzag_def neg)
    have "bit (NOT (push_bit 1 v)) 0" by (simp only: bit_not_iff bit_push_bit_iff) simp
    then have "unzigzag (zigzag v) = NOT (drop_bit 1 (NOT (push_bit 1 v)))"
      unfolding z unzigzag_def odd1 by simp
    also have "\<dots> = v"
    proof (rule bit_word_eqI)
      fix n assume "n < LENGTH(64)"
      then show "bit (NOT (drop_bit 1 (NOT (push_bit 1 v)))) n = bit v n"
        using True by (cases "n = 63") (simp_all only: bit_not_iff bit_drop_bit_eq bit_push_bit_iff comp_apply, auto)
    qed
    finally show ?thesis .
  next
    case False
    then have z: "zigzag v = push_bit 1 v" by (simp add: zigzag_def neg)
    have "\<not> bit (push_bit 1 v) 0" by (simp only: bit_push_bit_iff) simp
    then have "unzigzag (zigzag v) = drop_bit 1 (push_bit 1 v)" unfolding z unzigzag_def odd1 by simp
    also have "\<dots> = v"
    proof (rule bit_word_eqI)
      fix n assume "n < LENGTH(64)"
      then show "bit (drop_bit 1 (push_bit 1 v)) n = bit v n"
        using False by (cases "n = 63") (simp_all only: bit_drop_bit_eq bit_push_bit_iff comp_apply, auto)
    qed
    finally show ?thesis .
  qed
qed

definition fixed32_bytes :: "u32 \<Rightarrow> u8 list" where
  "fixed32_bytes v = [ucast (v AND 0xFF), ucast (drop_bit 8 v AND 0xFF), ucast (drop_bit 16 v AND 0xFF),
     ucast (drop_bit 24 v AND 0xFF)]"

definition fixed64_bytes :: "u64 \<Rightarrow> u8 list" where
  "fixed64_bytes v = [ucast (v AND 0xFF), ucast (drop_bit 8 v AND 0xFF), ucast (drop_bit 16 v AND 0xFF),
     ucast (drop_bit 24 v AND 0xFF), ucast (drop_bit 32 v AND 0xFF), ucast (drop_bit 40 v AND 0xFF),
     ucast (drop_bit 48 v AND 0xFF), ucast (drop_bit 56 v AND 0xFF)]"

lemma ucast_low8: "ucast (v AND 0xFF) = (ucast v :: u8)"
  for v :: "'a :: len word"
proof -
  have m: "(mask 8 :: 'a word) = 0xFF" by (simp add: mask_eq_exp_minus_1)
  have "ucast (v AND mask 8) = (ucast v :: u8)"
    by (rule bit_word_eqI) (auto simp: bit_simps dest: bit_imp_le_length)
  then show ?thesis unfolding m .
qed

lemma ucast_u8_take_bit: "ucast (ucast v :: u8) = (take_bit 8 v :: 'a :: len word)"
  by (rule bit_word_eqI) (auto simp: bit_simps)

lemma bytes_join:
  "push_bit k (take_bit 8 (drop_bit k v)) OR push_bit (k + 8) (drop_bit (k + 8) v) =
    push_bit k (drop_bit k (v :: 'a :: len word))"
proof (rule bit_word_eqI)
  fix n
  show "bit (push_bit k (take_bit 8 (drop_bit k v)) OR push_bit (k + 8) (drop_bit (k + 8) v)) n =
      bit (push_bit k (drop_bit k v)) n"
    by (cases "n < k + 8") (auto simp: bit_push_bit_iff bit_take_bit_iff bit_drop_bit_eq bit_or_iff)
qed

lemma le32_fixed32: "le32 (fixed32_bytes v) = v"
proof -
  have t: "take_bit 8 (drop_bit 24 v) = drop_bit 24 v" by (rule bit_word_eqI) (auto simp: bit_simps dest: bit_imp_le_length)
  show ?thesis
    unfolding fixed32_bytes_def ucast_low8 le32.simps ucast_u8_take_bit t
    using bytes_join [of 0 v] bytes_join [of 8 v] bytes_join [of 16 v] by simp
qed

lemma le64_fixed64: "le64 (fixed64_bytes v) = v"
proof -
  have t: "take_bit 8 (drop_bit 56 v) = drop_bit 56 v" by (rule bit_word_eqI) (auto simp: bit_simps dest: bit_imp_le_length)
  show ?thesis
    unfolding fixed64_bytes_def ucast_low8 le64.simps ucast_u8_take_bit t
    using bytes_join [of 0 v] bytes_join [of 8 v] bytes_join [of 16 v] bytes_join [of 24 v] bytes_join [of 32 v]
      bytes_join [of 40 v] bytes_join [of 48 v] by simp
qed

lemma fixed_bytes_length [simp]: "length (fixed32_bytes v) = 4" "length (fixed64_bytes w) = 8"
  by (simp_all add: fixed32_bytes_def fixed64_bytes_def)

lemma encode_fixed_bytes:
  "pb_encode_fixed32 st v = pb_write st (fixed32_bytes v)"
  "pb_encode_fixed64 st w = pb_write st (fixed64_bytes w)"
  by (simp_all add: pb_encode_fixed32_def pb_encode_fixed64_def fixed32_bytes_def fixed64_bytes_def)

lemma encode_svarint_leb: "pb_encode_svarint st v = pb_write st (leb (unat (zigzag v)))"
  by (simp add: pb_encode_svarint_def encode_varint_leb)

lemma encode_tag_leb:
  assumes "unat w < 8"
  shows "pb_encode_tag st w f = pb_write st (leb (8 * unat f + unat w))"
proof -
  have f: "unat (ucast f :: u64) = unat f" and w: "unat (ucast w :: u64) = unat w"
    by (simp_all add: unsigned_ucast_eq take_bit_eq_mod less_trans [OF unsigned_less])
  have lt: "unat f < 2 ^ 32" using unsigned_less [where w = f and ?'a = nat] by simp
  have "of_nat (unat w) OR push_bit 3 (ucast f) = (of_nat (unat w + 2 ^ 3 * unat (ucast f :: u64)) :: u64)"
    using assms by (intro add_chunk) simp_all
  then have "push_bit 3 (ucast f) OR ucast w = (of_nat (unat w + 2 ^ 3 * unat (ucast f :: u64)) :: u64)"
    unfolding word_of_natI [OF w, symmetric] by (simp only: or.commute)
  then have "unat (push_bit 3 (ucast f) OR ucast w :: u64) = 8 * unat f + unat w"
    using lt assms by (simp add: f unat_of_nat del: of_nat_add of_nat_mult)
  then show ?thesis by (simp add: pb_encode_tag_def encode_varint_leb)
qed

text \<open>A stream that only counts.\<close>

lemma write_counts:
  "os_callback st = None \<Longrightarrow> pb_write st b = (True, st\<lparr>os_written := (os_written st + length b) mod SIZE_MOD\<rparr>)"
  by (simp add: pb_write_def Let_def)

context output_stream
begin

lemma encode_string_room:
  assumes "ok st" "length b < 2 ^ 64" "os_written st + length (leb (length b) @ b) \<le> os_max st"
  shows "\<exists>st'. pb_encode_string st b = (True, st') \<and> appends st (leb (length b) @ b) st'"
proof -
  have "unat (of_nat (length b) :: u64) = length b" using assms(2) by (simp add: unat_of_nat)
  moreover have "os_written st + length (leb (length b)) \<le> os_max st" using assms(3) by simp
  from write_room [OF assms(1) this] obtain s where s: "pb_write st (leb (length b)) = (True, s)"
    "appends st (leb (length b)) s" by blast
  moreover from s(2) assms(3) have "ok s" "os_written s + length b \<le> os_max s" by (simp_all add: appends_def)
  from write_room [OF this] obtain s' where "pb_write s b = (True, s')" "appends s b s'" by blast
  ultimately show ?thesis by (auto simp: pb_encode_string_def encode_varint_leb intro: appends_trans)
qed

end

section \<open>Integer fields and their range\<close>

lemma narrow_unsigned:
  "LENGTH('b) \<le> 64 \<Longrightarrow> ucast (ucast v :: 'b :: len word) = v \<longleftrightarrow> unat (v :: u64) < 2 ^ LENGTH('b)"
  by (simp add: word_unat_eq_iff unsigned_ucast_eq unsigned_take_bit_eq take_bit_nat_eq_self_iff)

lemma narrow_signed:
  assumes "LENGTH('b) \<le> 64"
  shows "scast (ucast v :: 'b :: len word) = v \<longleftrightarrow>
    - (2 ^ (LENGTH('b) - 1)) \<le> sint (v :: u64) \<and> sint v < 2 ^ (LENGTH('b) - 1)"
proof -
  have "sint (scast (ucast v :: 'b word) :: u64) = signed_take_bit (LENGTH('b) - 1) (sint v)"
  proof -
    have "sint (scast (ucast v :: 'b word) :: u64) = signed_take_bit 63 (signed_take_bit (LENGTH('b) - 1) (uint v))"
      by (subst signed_scast_eq, subst signed_ucast_eq) simp
    moreover have "min 63 (LENGTH('b) - 1) = LENGTH('b) - 1" "min (LENGTH('b) - 1) 63 = LENGTH('b) - 1"
      using assms by simp_all
    moreover have "sint v = signed_take_bit 63 (uint v)" by (simp add: sint_uint)
    ultimately show ?thesis by (simp only: signed_take_bit_signed_take_bit)
  qed
  then have "sint (scast (ucast v :: 'b word) :: u64) = sint v \<longleftrightarrow>
      - (2 ^ (LENGTH('b) - 1)) \<le> sint v \<and> sint v < 2 ^ (LENGTH('b) - 1)"
    by (simp only: signed_take_bit_int_eq_self_iff)
  then show ?thesis by (metis signed_word_eqI)
qed

lemma load_unsigned_exact:
  assumes "n \<in> {1, 2, 4, 8}"
  shows "load_unsigned n v = Some v \<longleftrightarrow> unat v < 2 ^ (8 * n)"
proof -
  have "unat v < 2 ^ 64" using unsigned_less [where w = v and ?'a = nat] by simp
  then show ?thesis
    using assms narrow_unsigned [of v, where 'b = 8] narrow_unsigned [of v, where 'b = 16] narrow_unsigned [of v, where 'b = 32]
    by (auto simp: load_unsigned_def)
qed

lemma load_signed_exact:
  assumes "n \<in> {1, 2, 4, 8}"
  shows "load_signed n v = Some v \<longleftrightarrow> - (2 ^ (8 * n - 1)) \<le> sint v \<and> sint v < 2 ^ (8 * n - 1)"
proof -
  have "- (2 ^ 63) \<le> sint v" "sint v < 2 ^ 63"
    using sint_greater_eq [of v] sint_less [of v] by simp_all
  then show ?thesis
    using assms narrow_signed [of v, where 'b = 8] narrow_signed [of v, where 'b = 16] narrow_signed [of v, where 'b = 32]
    by (auto simp: load_signed_def)
qed

context input_stream
begin

text \<open>A varint is stored in a field of its size, or refused as too large.\<close>

lemma dec_uvarint_leb:
  assumes "ok t st" "content avail st = leb (unat x) @ r" "n \<in> {1, 2, 4, 8}"
  shows "\<exists>st'. pb_dec_uvarint n st = (if unat x < 2 ^ (8 * n) then Some x else None, st') \<and>
    (unat x < 2 ^ (8 * n) \<longrightarrow> ok t st' \<and> content avail st' = r)"
proof -
  have "unat x < 2 ^ 64" using unsigned_less [where w = x and ?'a = nat] by simp
  from decode_varint_leb [OF assms(1,2) this] obtain s where
    s: "pb_decode_varint st = (Some x, s)" "ok t s" "content avail s = r" by auto
  obtain c where c: "load_unsigned n x = Some c" using assms(3) by (auto simp: load_unsigned_def)
  then have "c = x \<longleftrightarrow> unat x < 2 ^ (8 * n)" using load_unsigned_exact [OF assms(3), of x] by simp
  then show ?thesis using s c by (auto simp: pb_dec_uvarint_def store_field_def)
qed

lemma dec_svarint_leb:
  assumes "ok t st" "content avail st = leb (unat (zigzag x)) @ r" "n \<in> {1, 2, 4, 8}"
  shows "\<exists>st'. pb_dec_svarint n st =
      (if - (2 ^ (8 * n - 1)) \<le> sint x \<and> sint x < 2 ^ (8 * n - 1) then Some x else None, st') \<and>
    (- (2 ^ (8 * n - 1)) \<le> sint x \<and> sint x < 2 ^ (8 * n - 1) \<longrightarrow> ok t st' \<and> content avail st' = r)"
proof -
  have "unat (zigzag x) < 2 ^ 64" using unsigned_less [where w = "zigzag x" and ?'a = nat] by simp
  from decode_varint_leb [OF assms(1,2) this] obtain s where
    "pb_decode_varint st = (Some (of_nat (unat (zigzag x))), s)" and s: "ok t s" "content avail s = r" .
  then have d: "pb_decode_svarint st = (Some x, s)" by (simp add: pb_decode_svarint_def unzigzag_zigzag)
  obtain c where c: "load_signed n x = Some c" using assms(3) by (auto simp: load_signed_def)
  then have "c = x \<longleftrightarrow> - (2 ^ (8 * n - 1)) \<le> sint x \<and> sint x < 2 ^ (8 * n - 1)"
    using load_signed_exact [OF assms(3), of x] by simp
  then show ?thesis using d s c by (auto simp: pb_dec_svarint_def store_field_def)
qed

text \<open>In a field of at most 32 bits the low 32 bits of the varint are taken for its value.\<close>

lemma dec_varint_leb:
  fixes x :: u64 and n :: nat
  defines "y \<equiv> if n = 8 then x else scast (ucast x :: u32)"
  assumes "ok t st" "content avail st = leb (unat x) @ r" "n \<in> {1, 2, 4, 8}"
  shows "\<exists>st'. pb_dec_varint n st =
      (if - (2 ^ (8 * n - 1)) \<le> sint y \<and> sint y < 2 ^ (8 * n - 1) then Some y else None, st') \<and>
    (- (2 ^ (8 * n - 1)) \<le> sint y \<and> sint y < 2 ^ (8 * n - 1) \<longrightarrow> ok t st' \<and> content avail st' = r)"
proof -
  have "unat x < 2 ^ 64" using unsigned_less [where w = x and ?'a = nat] by simp
  from decode_varint_leb [OF assms(2,3) this] obtain s where
    s: "pb_decode_varint st = (Some x, s)" "ok t s" "content avail s = r" by auto
  obtain c where c: "load_signed n y = Some c" using assms(4) by (auto simp: load_signed_def)
  then have "c = y \<longleftrightarrow> - (2 ^ (8 * n - 1)) \<le> sint y \<and> sint y < 2 ^ (8 * n - 1)"
    using load_signed_exact [OF assms(4), of y] by simp
  moreover have "pb_dec_varint n st = store_field load_signed n y s"
    unfolding pb_dec_varint_def s(1) y_def by simp
  ultimately show ?thesis using s(2,3) c by (auto simp: store_field_def)
qed

end

end
