(* ===== verification/PbField.thy ===== *)
theory PbField
  imports PbWire
begin

text \<open>
  Fields of nanopb, \<^verbatim>\<open>nanopb/pb_encode.c\<close> and \<^verbatim>\<open>nanopb/pb_decode.c\<close>: the dispatch of the packable
  types, repeated fields in static arrays, packed or not, and the fields of bytes and strings. A field
  descriptor is a record with the parts of the C struct that are used; an integer of a field is the
  contents of its memory as a word, an array the list of its entries with the count beside it. A decoder
  that fails leaves what it has written in the entry; that is not followed here. Fields
  that are pointers, callbacks or submessages, and the iteration over a message are not modelled.

  The contract of an encoder with its decoder is the locale \<open>field_codec\<close>; arrays are read back
  for every pair that keeps it.
\<close>

section \<open>Descriptors\<close>

datatype pb_ltype = PB_LTYPE_BOOL | PB_LTYPE_VARINT | PB_LTYPE_UVARINT | PB_LTYPE_SVARINT | PB_LTYPE_FIXED32
  | PB_LTYPE_FIXED64 | PB_LTYPE_BYTES | PB_LTYPE_STRING | PB_LTYPE_SUBMESSAGE | PB_LTYPE_EXTENSION
  | PB_LTYPE_FIXED_LENGTH_BYTES

record pb_field =
  fd_tag :: u32
  fd_ltype :: pb_ltype
  fd_pointer :: bool
  fd_data_size :: nat
  fd_array_size :: nat

text \<open>The comparison with \<^verbatim>\<open>PB_LTYPE_LAST_PACKABLE\<close>.\<close>

fun packable :: "pb_ltype \<Rightarrow> bool" where
  "packable PB_LTYPE_BOOL = True"
| "packable PB_LTYPE_VARINT = True"
| "packable PB_LTYPE_UVARINT = True"
| "packable PB_LTYPE_SVARINT = True"
| "packable PB_LTYPE_FIXED32 = True"
| "packable PB_LTYPE_FIXED64 = True"
| "packable _ = False"

definition field_wire_type :: "pb_ltype \<Rightarrow> u32 option" where
  "field_wire_type lt =
     (case lt of
        PB_LTYPE_BOOL \<Rightarrow> Some PB_WT_VARINT | PB_LTYPE_VARINT \<Rightarrow> Some PB_WT_VARINT
      | PB_LTYPE_UVARINT \<Rightarrow> Some PB_WT_VARINT | PB_LTYPE_SVARINT \<Rightarrow> Some PB_WT_VARINT
      | PB_LTYPE_FIXED32 \<Rightarrow> Some PB_WT_32BIT | PB_LTYPE_FIXED64 \<Rightarrow> Some PB_WT_64BIT
      | PB_LTYPE_BYTES \<Rightarrow> Some PB_WT_STRING | PB_LTYPE_STRING \<Rightarrow> Some PB_WT_STRING
      | PB_LTYPE_SUBMESSAGE \<Rightarrow> Some PB_WT_STRING | PB_LTYPE_FIXED_LENGTH_BYTES \<Rightarrow> Some PB_WT_STRING
      | PB_LTYPE_EXTENSION \<Rightarrow> None)"

definition pb_encode_tag_for_field :: "'s pb_ostream \<Rightarrow> pb_field \<Rightarrow> bool \<times> 's pb_ostream" where
  "pb_encode_tag_for_field st fd =
     (case field_wire_type (fd_ltype fd) of
        None \<Rightarrow> (False, os_error ''invalid field type'' st)
      | Some wiretype \<Rightarrow> pb_encode_tag st wiretype (fd_tag fd))"

section \<open>Packable types\<close>

fun PB_ENCODERS :: "pb_ltype \<Rightarrow> nat \<Rightarrow> u64 \<Rightarrow> 's pb_ostream \<Rightarrow> bool \<times> 's pb_ostream" where
  "PB_ENCODERS PB_LTYPE_BOOL _ v st = pb_enc_bool (v \<noteq> 0) st"
| "PB_ENCODERS PB_LTYPE_VARINT n v st = pb_enc_varint n v st"
| "PB_ENCODERS PB_LTYPE_UVARINT n v st = pb_enc_uvarint n v st"
| "PB_ENCODERS PB_LTYPE_SVARINT n v st = pb_enc_svarint n v st"
| "PB_ENCODERS PB_LTYPE_FIXED32 _ v st = pb_encode_fixed32 st (ucast v)"
| "PB_ENCODERS PB_LTYPE_FIXED64 _ v st = pb_encode_fixed64 st v"

fun PB_DECODERS :: "pb_ltype \<Rightarrow> nat \<Rightarrow> 's pb_istream \<Rightarrow> u64 option \<times> 's pb_istream" where
  "PB_DECODERS PB_LTYPE_BOOL _ st = apfst (map_option (\<lambda>b. if b then 1 else 0)) (pb_dec_bool st)"
| "PB_DECODERS PB_LTYPE_VARINT n st = pb_dec_varint n st"
| "PB_DECODERS PB_LTYPE_UVARINT n st = pb_dec_uvarint n st"
| "PB_DECODERS PB_LTYPE_SVARINT n st = pb_dec_svarint n st"
| "PB_DECODERS PB_LTYPE_FIXED32 _ st = apfst (map_option ucast) (pb_decode_fixed32 st)"
| "PB_DECODERS PB_LTYPE_FIXED64 _ st = pb_decode_fixed64 st"

section \<open>Arrays\<close>

fun encode_items :: "('a \<Rightarrow> 's pb_ostream \<Rightarrow> bool \<times> 's pb_ostream) \<Rightarrow> 'a list \<Rightarrow> 's pb_ostream \<Rightarrow> bool \<times> 's pb_ostream" where
  "encode_items func [] st = (True, st)"
| "encode_items func (x # xs) st =
     (case func x st of (False, st) \<Rightarrow> (False, st) | (True, st) \<Rightarrow> encode_items func xs st)"

definition packed_size ::
    "'s pb_ostream \<Rightarrow> pb_field \<Rightarrow> 'a list \<Rightarrow> ('a \<Rightarrow> 's pb_ostream \<Rightarrow> bool \<times> 's pb_ostream) \<Rightarrow> nat option" where
  "packed_size st fd xs func =
     (if fd_ltype fd = PB_LTYPE_FIXED32 then Some (4 * length xs)
      else if fd_ltype fd = PB_LTYPE_FIXED64 then Some (8 * length xs)
      else (case encode_items func xs (PB_OSTREAM_SIZING (os_state st)) of
              (False, _) \<Rightarrow> None
            | (True, sizestream) \<Rightarrow> Some (os_written sizestream)))"

definition encode_array ::
    "'s pb_ostream \<Rightarrow> pb_field \<Rightarrow> 'a list \<Rightarrow> ('a \<Rightarrow> 's pb_ostream \<Rightarrow> bool \<times> 's pb_ostream) \<Rightarrow> bool \<times> 's pb_ostream" where
  "encode_array st fd xs func =
     (if xs = [] then (True, st)
      else if \<not> fd_pointer fd \<and> length xs > fd_array_size fd then (False, os_error ''array max size exceeded'' st)
      else if packable (fd_ltype fd) then
        (case pb_encode_tag st PB_WT_STRING (fd_tag fd) of
           (False, st) \<Rightarrow> (False, st)
         | (True, st) \<Rightarrow>
             (case packed_size st fd xs func of
                None \<Rightarrow> (False, st)
              | Some sz \<Rightarrow>
                  (case pb_encode_varint st (of_nat sz) of
                     (False, st) \<Rightarrow> (False, st)
                   | (True, st) \<Rightarrow>
                       if os_callback st = None then pb_write st (replicate sz 0)
                       else encode_items func xs st)))
      else
        encode_items (\<lambda>x st. case pb_encode_tag_for_field st fd of (False, st) \<Rightarrow> (False, st) | (True, st) \<Rightarrow> func x st)
          xs st)"

text \<open>The count and the entries of an array.\<close>

type_synonym 'a pb_array = "nat \<times> 'a list"

function packed_items ::
    "('s pb_istream \<Rightarrow> 'a option \<times> 's pb_istream) \<Rightarrow> nat \<Rightarrow> 'a pb_array \<Rightarrow> 's pb_istream \<Rightarrow>
      bool \<times> 'a pb_array \<times> 's pb_istream" where
  "packed_items func array_size (n, xs) sub =
     (if is_left sub > 0 \<and> n < array_size then
        (case func sub of
           (None, sub) \<Rightarrow> (False, (n, xs), sub)
         | (Some v, sub) \<Rightarrow> packed_items func array_size (Suc n, xs[n := v]) sub)
      else (True, (n, xs), sub))"
  by pat_completeness auto
termination by (relation "measure (\<lambda>(func, array_size, (n, xs), sub). array_size - n)") auto

declare packed_items.simps [simp del]

text \<open>The case \<^verbatim>\<open>PB_HTYPE_REPEATED\<close> of \<open>decode_static_field\<close>.\<close>

definition decode_repeated ::
    "'s pb_istream \<Rightarrow> u32 \<Rightarrow> pb_field \<Rightarrow> ('s pb_istream \<Rightarrow> 'a option \<times> 's pb_istream) \<Rightarrow> 'a pb_array \<Rightarrow>
      bool \<times> 'a pb_array \<times> 's pb_istream" where
  "decode_repeated st wire_type fd func a =
     (if wire_type = PB_WT_STRING \<and> packable (fd_ltype fd) then
        (case pb_make_string_substream st of
           (None, st) \<Rightarrow> (False, a, st)
         | (Some sub, st) \<Rightarrow>
             (case packed_items func (fd_array_size fd) a sub of
                (status, a, sub) \<Rightarrow>
                  if is_left sub \<noteq> 0 then (False, a, is_error ''array overflow'' st)
                  else (case pb_close_string_substream st sub of
                          (False, st) \<Rightarrow> (False, a, st)
                        | (True, st) \<Rightarrow> (status, a, st))))
      else
        (case a of
           (n, xs) \<Rightarrow>
             if n \<ge> fd_array_size fd then (False, (Suc n, xs), is_error ''array overflow'' st)
             else (case func st of
                     (None, st) \<Rightarrow> (False, (Suc n, xs), st)
                   | (Some v, st) \<Rightarrow> (True, (Suc n, xs[n := v]), st))))"

section \<open>Bytes and strings\<close>

text \<open>A source that is NULL is \<open>None\<close>. A string is the memory from its pointer on.\<close>

definition pb_enc_string :: "pb_field \<Rightarrow> u8 list option \<Rightarrow> 's pb_ostream \<Rightarrow> bool \<times> 's pb_ostream" where
  "pb_enc_string fd src st =
     (case src of
        None \<Rightarrow> pb_encode_string st []
      | Some m \<Rightarrow>
          pb_encode_string st (takeWhile (\<lambda>b. b \<noteq> 0) (if fd_pointer fd then m else take (fd_data_size fd) m)))"

text \<open>The offset of the bytes in \<^verbatim>\<open>pb_bytes_array_t\<close>, behind a 32-bit size.\<close>

definition PB_BYTES_ARRAY_T_ALLOCSIZE :: "nat \<Rightarrow> nat" where
  "PB_BYTES_ARRAY_T_ALLOCSIZE n = (n + 4) mod SIZE_MOD"

definition pb_enc_bytes :: "pb_field \<Rightarrow> (u32 \<times> u8 list) option \<Rightarrow> 's pb_ostream \<Rightarrow> bool \<times> 's pb_ostream" where
  "pb_enc_bytes fd src st =
     (case src of
        None \<Rightarrow> pb_encode_string st []
      | Some (sz, m) \<Rightarrow>
          (let allocsize = PB_BYTES_ARRAY_T_ALLOCSIZE (unat sz)
           in if allocsize < unat sz \<or> \<not> fd_pointer fd \<and> allocsize > fd_data_size fd
              then (False, os_error ''bytes size exceeded'' st)
              else pb_encode_string st (take (unat sz) m)))"

definition pb_enc_fixed_length_bytes :: "pb_field \<Rightarrow> u8 list \<Rightarrow> 's pb_ostream \<Rightarrow> bool \<times> 's pb_ostream" where
  "pb_enc_fixed_length_bytes fd src st = pb_encode_string st (take (fd_data_size fd) src)"

text \<open>The decoders of fields that are no pointers, with the memory of the field before and after. When one
  returns false the memory is not followed.\<close>

definition pb_dec_string :: "pb_field \<Rightarrow> u8 list \<Rightarrow> 's pb_istream \<Rightarrow> u8 list option \<times> 's pb_istream" where
  "pb_dec_string fd dest st =
     (case pb_decode_varint32 st of
        (None, st) \<Rightarrow> (None, st)
      | (Some sz, st) \<Rightarrow>
          (let alloc_size = unat (sz + 1)
           in if alloc_size < unat sz then (None, is_error ''size too large'' st)
              else if alloc_size > fd_data_size fd then (None, is_error ''string overflow'' st)
              else (case pb_read st (unat sz) of
                      (None, st) \<Rightarrow> (None, st)
                    | (Some b, st) \<Rightarrow> (Some (b @ 0 # drop (Suc (unat sz)) dest), st))))"

definition pb_dec_bytes :: "pb_field \<Rightarrow> u8 list \<Rightarrow> 's pb_istream \<Rightarrow> (u32 \<times> u8 list) option \<times> 's pb_istream" where
  "pb_dec_bytes fd dest st =
     (case pb_decode_varint32 st of
        (None, st) \<Rightarrow> (None, st)
      | (Some sz, st) \<Rightarrow>
          (let alloc_size = PB_BYTES_ARRAY_T_ALLOCSIZE (unat sz)
           in if unat sz > alloc_size then (None, is_error ''size too large'' st)
              else if alloc_size > fd_data_size fd then (None, is_error ''bytes overflow'' st)
              else (case pb_read st (unat sz) of
                      (None, st) \<Rightarrow> (None, st)
                    | (Some b, st) \<Rightarrow> (Some (sz, b @ drop (unat sz) dest), st))))"

definition pb_dec_fixed_length_bytes :: "pb_field \<Rightarrow> 's pb_istream \<Rightarrow> u8 list option \<times> 's pb_istream" where
  "pb_dec_fixed_length_bytes fd st =
     (case pb_decode_varint32 st of
        (None, st) \<Rightarrow> (None, st)
      | (Some sz, st) \<Rightarrow>
          if sz = 0 then (Some (replicate (fd_data_size fd) 0), st)
          else if unat sz \<noteq> fd_data_size fd then (None, is_error ''incorrect fixed length bytes size'' st)
          else pb_read st (fd_data_size fd))"

section \<open>The contract of a codec\<close>

locale field_codec = rd: input_stream icb avail + wr: output_stream ocb sink room
  for icb :: "'t read_fn" and avail :: "'t \<Rightarrow> u8 list"
    and ocb :: "'s write_fn" and sink :: "'s \<Rightarrow> u8 list" and room :: "'s \<Rightarrow> nat" +
  fixes enc :: "'a \<Rightarrow> 's pb_ostream \<Rightarrow> bool \<times> 's pb_ostream"
    and dec :: "'t pb_istream \<Rightarrow> 'a option \<times> 't pb_istream"
    and bytes :: "'a \<Rightarrow> u8 list" and valid :: "'a \<Rightarrow> bool"
  assumes enc: "valid v \<Longrightarrow> enc v st = pb_write st (bytes v)"
    and dec: "valid v \<Longrightarrow> rd.ok t ist \<Longrightarrow> content avail ist = bytes v @ r \<Longrightarrow>
      \<exists>ist'. dec ist = (Some v, ist') \<and> rd.ok t ist' \<and> content avail ist' = r"
    and nonempty: "valid v \<Longrightarrow> bytes v \<noteq> []"
begin

lemma items_room:
  "\<forall>x\<in>set xs. valid x \<Longrightarrow> wr.ok st \<Longrightarrow> os_written st + length (concat (map bytes xs)) \<le> os_max st \<Longrightarrow>
    \<exists>st'. encode_items enc xs st = (True, st') \<and> wr.appends st (concat (map bytes xs)) st'"
proof (induction xs arbitrary: st)
  case Nil
  then show ?case by (simp add: wr.appends_refl)
next
  case (Cons x xs)
  have "os_written st + length (bytes x) \<le> os_max st" using Cons.prems(3) by simp
  from wr.write_room [OF Cons.prems(2) this] obtain s where
    s: "pb_write st (bytes x) = (True, s)" "wr.appends st (bytes x) s" by blast
  then have "wr.ok s" "os_written s + length (concat (map bytes xs)) \<le> os_max s"
    using Cons.prems(3) by (simp_all add: wr.appends_def)
  from Cons.IH [OF _ this] Cons.prems(1) obtain s' where
    "encode_items enc xs s = (True, s')" "wr.appends s (concat (map bytes xs)) s'" by auto
  then show ?case using s Cons.prems(1) by (auto simp: enc intro: wr.appends_trans)
qed

lemma items_counted:
  "\<forall>x\<in>set xs. valid x \<Longrightarrow> os_callback st = None \<Longrightarrow> os_written st + length (concat (map bytes xs)) < SIZE_MOD \<Longrightarrow>
    \<exists>st'. encode_items enc xs st = (True, st') \<and> os_written st' = os_written st + length (concat (map bytes xs))"
proof (induction xs arbitrary: st)
  case (Cons x xs)
  let ?s = "st\<lparr>os_written := os_written st + length (bytes x)\<rparr>"
  have s: "pb_write st (bytes x) = (True, ?s)" using Cons.prems(2,3) by (simp add: write_counts)
  from Cons.IH [of ?s] Cons.prems show ?case by (auto simp: enc s)
qed simp

lemma items_read:
  "\<forall>x\<in>set xs. valid x \<Longrightarrow> rd.ok t ist \<Longrightarrow> content avail ist = concat (map bytes xs) \<Longrightarrow>
    n + length xs \<le> k \<Longrightarrow> length ys = k \<Longrightarrow>
    \<exists>ist'. packed_items dec k (n, ys) ist = (True, (n + length xs, take n ys @ xs @ drop (n + length xs) ys), ist') \<and>
      rd.ok t ist' \<and> is_left ist' = 0"
proof (induction xs arbitrary: ist n ys)
  case Nil
  then have "is_left ist = 0" using rd.content_length [OF Nil(2)] by simp
  then show ?case using Nil by (simp add: packed_items.simps [of dec k n ys])
next
  case (Cons x xs)
  have v: "valid x" using Cons.prems(1) by simp
  have "0 < length (bytes x)" using nonempty [OF v] by simp
  moreover have "is_left ist = length (bytes x) + length (concat (map bytes xs))"
    using rd.content_length [OF Cons.prems(2)] Cons.prems(3) by simp
  ultimately have l: "0 < is_left ist" "n < k" using Cons.prems(4) by (linarith, simp)
  have "content avail ist = bytes x @ concat (map bytes xs)" using Cons.prems(3) by simp
  from dec [OF v Cons.prems(2) this] obtain s where
    s: "dec ist = (Some x, s)" "rd.ok t s" "content avail s = concat (map bytes xs)" by blast
  have n: "Suc n + length xs \<le> k" "length (ys[n := x]) = k" using Cons.prems(4,5) by simp_all
  from Cons.IH [OF _ s(2,3) n] Cons.prems(1) obtain s' where
    s': "packed_items dec k (Suc n, ys[n := x]) s =
      (True, (Suc n + length xs, take (Suc n) (ys[n := x]) @ xs @ drop (Suc n + length xs) (ys[n := x])), s')"
    "rd.ok t s'" "is_left s' = 0" by auto
  have "take (Suc n) (ys[n := x]) = take n ys @ [x]" using l(2) Cons.prems(5) by (simp add: take_Suc_conv_app_nth)
  then show ?case using s' l by (simp add: packed_items.simps [of dec k n ys] s(1))
qed

text \<open>A packed array is written as a string of its entries, and read back behind the entries that are
  there.\<close>

lemma packed_written:
  assumes "\<forall>x\<in>set xs. valid x" "xs \<noteq> []" "packable (fd_ltype fd)" "fd_pointer fd \<or> length xs \<le> fd_array_size fd"
    and size: "fd_ltype fd = PB_LTYPE_FIXED32 \<Longrightarrow> \<forall>x. length (bytes x) = 4"
      "fd_ltype fd = PB_LTYPE_FIXED64 \<Longrightarrow> \<forall>x. length (bytes x) = 8"
  defines "p \<equiv> concat (map bytes xs)"
  defines "out \<equiv> leb (8 * unat (fd_tag fd) + 2) @ leb (length p) @ p"
  assumes "wr.ok st" "os_written st + length out \<le> os_max st"
  shows "\<exists>st'. encode_array st fd xs enc = (True, st') \<and> wr.appends st out st'"
proof -
  have mx: "os_max st < SIZE_MOD" using assms(9) by (simp add: wr.ok_def)
  have lp: "length p < SIZE_MOD" using assms(10) mx by (simp add: out_def)
  have cnt: "packed_size s fd xs enc = Some (length p)" for s :: "'s pb_ostream"
  proof -
    have "length p = 4 * length xs" if "fd_ltype fd = PB_LTYPE_FIXED32"
      using size(1) [OF that] unfolding p_def by (induction xs) simp_all
    moreover have "length p = 8 * length xs" if "fd_ltype fd = PB_LTYPE_FIXED64"
      using size(2) [OF that] unfolding p_def by (induction xs) simp_all
    moreover obtain s' where "encode_items enc xs (PB_OSTREAM_SIZING (os_state s)) = (True, s')" "os_written s' = length p"
      using items_counted [OF assms(1), of "PB_OSTREAM_SIZING (os_state s)"] lp by (auto simp: PB_OSTREAM_SIZING_def p_def)
    ultimately show ?thesis by (simp add: packed_size_def)
  qed
  have l: "unat (of_nat (length p) :: u64) = length p" using lp by (simp add: unat_of_nat SIZE_MOD_def)
  let ?t = "leb (8 * unat (fd_tag fd) + 2)"
  have r1: "os_written st + length ?t \<le> os_max st" using assms(10) by (simp add: out_def)
  from wr.write_room [OF assms(9) r1] obtain s1 where s1: "pb_write st ?t = (True, s1)" "wr.appends st ?t s1" by blast
  have r2: "wr.ok s1" "os_written s1 + length (leb (length p)) \<le> os_max s1"
    using s1(2) assms(10) by (simp_all add: wr.appends_def out_def)
  from wr.write_room [OF r2] obtain s2 where s2: "pb_write s1 (leb (length p)) = (True, s2)" "wr.appends s1 (leb (length p)) s2"
    by blast
  have r3: "wr.ok s2" "os_written s2 + length p \<le> os_max s2"
    using s1(2) s2(2) assms(10) by (simp_all add: wr.appends_def out_def)
  from items_room [OF assms(1), of s2] r3 obtain s3 where s3: "encode_items enc xs s2 = (True, s3)" "wr.appends s2 p s3"
    by (auto simp: p_def)
  have "os_callback s2 \<noteq> None" using r3(1) by (simp add: wr.ok_def)
  then have "encode_array st fd xs enc = (True, s3)"
    using assms(2,3,4) s1(1) s2(1) s3(1) l
    by (auto simp: encode_array_def encode_tag_leb PB_WT_STRING_def cnt encode_varint_leb)
  moreover have "wr.appends st out s3"
    unfolding out_def by (intro wr.appends_trans [OF s1(2)] wr.appends_trans [OF s2(2)] s3(2))
  ultimately show ?thesis by blast
qed

lemma packed_read:
  assumes "\<forall>x\<in>set xs. valid x" "packable (fd_ltype fd)" "rd.ok t ist"
    "content avail ist = leb (length (concat (map bytes xs))) @ concat (map bytes xs) @ r"
    "length (concat (map bytes xs)) < 2 ^ 32" "n + length xs \<le> fd_array_size fd" "length ys = fd_array_size fd"
  shows "\<exists>ist'. decode_repeated ist PB_WT_STRING fd dec (n, ys) =
      (True, (n + length xs, take n ys @ xs @ drop (n + length xs) ys), ist') \<and> rd.ok t ist' \<and> content avail ist' = r"
proof -
  from rd.substream_bytes [OF assms(3,4,5)] obtain sub s where
    s: "pb_make_string_substream ist = (Some sub, s)" "rd.ok (r @ t) sub" "content avail sub = concat (map bytes xs)"
    "\<And>sub'. rd.ok (r @ t) sub' \<Longrightarrow>
       \<exists>s'. pb_close_string_substream s sub' = (True, s') \<and> rd.ok t s' \<and> content avail s' = r" by metis
  from items_read [OF assms(1) s(2,3) assms(6,7)] obtain sub' where
    i: "packed_items dec (fd_array_size fd) (n, ys) sub =
      (True, (n + length xs, take n ys @ xs @ drop (n + length xs) ys), sub')" "rd.ok (r @ t) sub'" "is_left sub' = 0"
    by blast
  from s(4) [OF i(2)] show ?thesis using assms(2) by (auto simp: decode_repeated_def s(1) i(1,3))
qed

end

section \<open>The packable types\<close>

text \<open>The values that fit in a field of a type and size, and their bytes.\<close>

fun item_ok :: "pb_ltype \<Rightarrow> nat \<Rightarrow> u64 \<Rightarrow> bool" where
  "item_ok PB_LTYPE_BOOL n v \<longleftrightarrow> v = 0 \<or> v = 1"
| "item_ok PB_LTYPE_VARINT n v \<longleftrightarrow> n \<in> {1, 2, 4, 8} \<and> - (2 ^ (8 * n - 1)) \<le> sint v \<and> sint v < 2 ^ (8 * n - 1)"
| "item_ok PB_LTYPE_SVARINT n v \<longleftrightarrow> n \<in> {1, 2, 4, 8} \<and> - (2 ^ (8 * n - 1)) \<le> sint v \<and> sint v < 2 ^ (8 * n - 1)"
| "item_ok PB_LTYPE_UVARINT n v \<longleftrightarrow> n \<in> {1, 2, 4, 8} \<and> unat v < 2 ^ (8 * n)"
| "item_ok PB_LTYPE_FIXED32 n v \<longleftrightarrow> unat v < 2 ^ 32"
| "item_ok PB_LTYPE_FIXED64 n v \<longleftrightarrow> True"
| "item_ok _ n v \<longleftrightarrow> False"

fun item_bytes :: "pb_ltype \<Rightarrow> u64 \<Rightarrow> u8 list" where
  "item_bytes PB_LTYPE_SVARINT v = leb (unat (zigzag v))"
| "item_bytes PB_LTYPE_FIXED32 v = fixed32_bytes (ucast v)"
| "item_bytes PB_LTYPE_FIXED64 v = fixed64_bytes v"
| "item_bytes _ v = leb (unat v)"

lemma low32_fits:
  assumes "n \<in> {1, 2, 4}" "- (2 ^ (8 * n - 1)) \<le> sint v" "sint v < 2 ^ (8 * n - 1)"
  shows "scast (ucast v :: u32) = (v :: u64)"
proof -
  have "(2 :: int) ^ (8 * n - 1) \<le> 2 ^ 31" using assms(1) by auto
  then have "- (2 ^ 31) \<le> sint v \<and> sint v < 2 ^ 31" using assms(2,3) by linarith
  then show ?thesis using narrow_signed [of v, where 'b = 32] by simp
qed

lemma PB_ENCODERS_bytes: "item_ok lt n v \<Longrightarrow> PB_ENCODERS lt n v st = pb_write st (item_bytes lt v)"
  by (cases lt)
    (auto simp: pb_enc_bool_def pb_enc_varint_def pb_enc_uvarint_def pb_enc_svarint_def encode_varint_leb
      encode_svarint_leb encode_fixed_bytes load_signed_exact [THEN iffD2] load_unsigned_exact [THEN iffD2])

context input_stream
begin

lemma dec_bool_leb:
  assumes "ok t st" "content avail st = leb (unat v) @ r" "v = 0 \<or> v = (1 :: u64)"
  shows "\<exists>st'. pb_dec_bool st = (Some (v \<noteq> 0), st') \<and> ok t st' \<and> content avail st' = r"
proof -
  have "unat v < 2 ^ 32" using assms(3) by auto
  from decode_varint32_leb [OF assms(1,2) this] obtain s where
    "pb_decode_varint32 st = (Some (of_nat (unat v)), s)" "ok t s" "content avail s = r" .
  then show ?thesis using assms(3) by (auto simp: pb_dec_bool_def)
qed

lemma PB_DECODERS_bytes:
  assumes "item_ok lt n v" "ok t st" "content avail st = item_bytes lt v @ r"
  shows "\<exists>st'. PB_DECODERS lt n st = (Some v, st') \<and> ok t st' \<and> content avail st' = r"
proof (cases lt)
  case PB_LTYPE_BOOL
  then show ?thesis using assms dec_bool_leb [OF assms(2), of v r] by auto
next
  case PB_LTYPE_VARINT
  have a: "n \<in> {1, 2, 4, 8}" "- (2 ^ (8 * n - 1)) \<le> sint v" "sint v < 2 ^ (8 * n - 1)"
    "content avail st = leb (unat v) @ r"
    using assms(1,3) PB_LTYPE_VARINT by auto
  have "(if n = 8 then v else scast (ucast v :: u32)) = v" using low32_fits [of n v] a(1-3) by auto
  with dec_varint_leb [OF assms(2) a(4,1)] a(2,3) PB_LTYPE_VARINT show ?thesis by auto
next
  case PB_LTYPE_UVARINT
  then show ?thesis using assms dec_uvarint_leb [OF assms(2), of v r n] by auto
next
  case PB_LTYPE_SVARINT
  then show ?thesis using assms dec_svarint_leb [OF assms(2), of v r n] by auto
next
  case PB_LTYPE_FIXED32
  then have "content avail st = fixed32_bytes (ucast v) @ r" "ucast (ucast v :: u32) = v"
    using assms(1,3) narrow_unsigned [of v, where 'b = 32] by simp_all
  then show ?thesis using PB_LTYPE_FIXED32
    by (auto simp: le32_fixed32 elim!: decode_fixed32_bytes [OF assms(2)])
next
  case PB_LTYPE_FIXED64
  then have "content avail st = fixed64_bytes v @ r" using assms(3) by simp
  then show ?thesis using PB_LTYPE_FIXED64 by (auto simp: le64_fixed64 elim!: decode_fixed64_bytes [OF assms(2)])
qed (use assms(1) in simp_all)

end

interpretation packed: field_codec buf_read "\<lambda>m. m" buf_write "\<lambda>(m, p). take p m" "\<lambda>(m, p). length m - p"
    "PB_ENCODERS lt n" "PB_DECODERS lt n" "item_bytes lt" "item_ok lt n" for lt n
proof unfold_locales
  show "item_ok lt n v \<Longrightarrow> item_bytes lt v \<noteq> []" for v
    by (cases lt) (simp_all add: fixed32_bytes_def fixed64_bytes_def)
qed (use PB_ENCODERS_bytes ibuf.PB_DECODERS_bytes in blast)+

section \<open>Submessages, strings and the skipping of fields\<close>

context output_stream
begin

text \<open>A message that is written with the same bytes on every stream gets its length in front.\<close>

lemma encode_submessage_room:
  assumes counts: "\<And>s. os_callback s = None \<Longrightarrow> os_written s = 0 \<Longrightarrow> \<exists>s'. enc s = (True, s') \<and> os_written s' = length b"
    and writes: "\<And>s. ok s \<Longrightarrow> os_written s + length b \<le> os_max s \<Longrightarrow> \<exists>s'. enc s = (True, s') \<and> appends s b s'"
    and st: "ok st" "os_errmsg st = None" "os_written st + length (leb (length b) @ b) \<le> os_max st"
  shows "\<exists>st'. pb_encode_submessage st enc = (True, st') \<and> appends st (leb (length b) @ b) st'"
proof -
  obtain c where c: "enc (PB_OSTREAM_SIZING (os_state st)) = (True, c)" "os_written c = length b"
    using counts [of "PB_OSTREAM_SIZING (os_state st)"] by (auto simp: PB_OSTREAM_SIZING_def)
  have mx: "os_max st < SIZE_MOD" using st(1) by (simp add: ok_def)
  have "length b < SIZE_MOD" using mx st(3) by simp
  then have l: "unat (of_nat (length b) :: u64) = length b" by (simp add: unat_of_nat SIZE_MOD_def)
  have r1: "os_written st + length (leb (length b)) \<le> os_max st" using st(3) by simp
  from write_room [OF st(1) this] obtain s where s: "pb_write st (leb (length b)) = (True, s)"
    "appends st (leb (length b)) s" by blast
  have so: "ok s" "os_written s + length b \<le> os_max s" using s(2) st(3) by (simp_all add: appends_def)
  define sub where "sub = \<lparr>os_callback = Some cb, os_state = os_state s, os_max = length b, os_written = 0,
    os_errmsg = None\<rparr>"
  have "ok sub" "os_written sub + length b \<le> os_max sub" using so \<open>length b < SIZE_MOD\<close> by (auto simp: ok_def sub_def)
  from writes [OF this] obtain s' where s': "enc sub = (True, s')" "appends sub b s'" by blast
  let ?s = "s\<lparr>os_written := os_written s + length b, os_state := os_state s', os_errmsg := os_errmsg s'\<rparr>"
  have w: "os_written s' = length b" "os_errmsg s' = None" "sink (os_state s') = sink (os_state s) @ b"
    using s'(2) by (simp_all add: appends_def sub_def)
  have t: "(os_written s + length b) mod SIZE_MOD = os_written s + length b"
    using so mx s(2) by (simp add: ok_def)
  have "os_callback s = Some cb" using so(1) by (simp add: ok_def)
  then have "pb_encode_submessage st enc = (True, ?s)"
    using so(2) by (simp add: pb_encode_submessage_def c Let_def encode_varint_leb l s(1) t sub_def [symmetric] s'(1) w)
  moreover have "appends st (leb (length b) @ b) ?s"
    using s(2) s'(2) so st(2) by (auto simp: appends_def ok_def sub_def)
  ultimately show ?thesis by blast
qed

end

context input_stream
begin

text \<open>A field behind its tag is skipped by its wire type.\<close>

lemma skip_varint_field:
  assumes "ok t st" "content avail st = leb n @ r"
  obtains st' where "pb_skip_field st PB_WT_VARINT = (True, st')" "ok t st'" "content avail st' = r"
  by (rule skip_varint_leb [OF assms]) (use that in \<open>simp add: pb_skip_field_def\<close>)

lemma skip_fixed_field:
  assumes "ok t st" "content avail st = b @ r" "wt = PB_WT_32BIT \<and> length b = 4 \<or> wt = PB_WT_64BIT \<and> length b = 8"
  obtains st' where "pb_skip_field st wt = (True, st')" "ok t st'" "content avail st' = r"
  by (rule read_null_bytes [OF assms(1,2) refl])
    (use that assms(3) in \<open>auto simp: pb_skip_field_def PB_WT_VARINT_def PB_WT_32BIT_def PB_WT_64BIT_def PB_WT_STRING_def\<close>)

lemma skip_string_field:
  assumes "ok t st" "content avail st = leb (length b) @ b @ r" "length b < 2 ^ 32"
  obtains st' where "pb_skip_field st PB_WT_STRING = (True, st')" "ok t st'" "content avail st' = r"
  by (rule skip_string_bytes [OF assms])
    (use that in \<open>simp add: pb_skip_field_def PB_WT_VARINT_def PB_WT_64BIT_def PB_WT_STRING_def\<close>)

text \<open>The fields of strings and bytes.\<close>

lemma dec_string_bytes:
  assumes "ok t st" "content avail st = leb (length b) @ b @ r" "length b < 2 ^ 32 - 1"
  shows "\<exists>st'. pb_dec_string fd dest st =
      (if length b < fd_data_size fd then Some (b @ 0 # drop (Suc (length b)) dest) else None, st') \<and>
    (length b < fd_data_size fd \<longrightarrow> ok t st' \<and> content avail st' = r)"
proof -
  have "length b < 2 ^ 32" using assms(3) by simp
  from decode_varint32_leb [OF assms(1,2) this] obtain s where
    s: "pb_decode_varint32 st = (Some (of_nat (length b)), s)" "ok t s" "content avail s = b @ r" .
  have n: "unat (of_nat (length b) :: u32) = length b" "unat (of_nat (length b) + 1 :: u32) = Suc (length b)"
    using assms(3) by (simp_all add: unat_of_nat unat_word_ariths)
  have "length b \<le> is_left s" using content_length [OF s(2)] s(3) by simp
  from read_some [OF s(2) this] obtain x where
    "pb_read s (length b) = (Some (take (length b) (content avail s)), s\<lparr>is_state := x, is_left := is_left s - length b\<rparr>)"
    "ok t (s\<lparr>is_state := x, is_left := is_left s - length b\<rparr>)"
    "content avail (s\<lparr>is_state := x, is_left := is_left s - length b\<rparr>) = drop (length b) (content avail s)" .
  then show ?thesis by (auto simp: pb_dec_string_def s(1,3) n Let_def)
qed

lemma dec_bytes_bytes:
  assumes "ok t st" "content avail st = leb (length b) @ b @ r" "length b < 2 ^ 32"
  shows "\<exists>st'. pb_dec_bytes fd dest st =
      (if length b + 4 \<le> fd_data_size fd then Some (of_nat (length b), b @ drop (length b) dest) else None, st') \<and>
    (length b + 4 \<le> fd_data_size fd \<longrightarrow> ok t st' \<and> content avail st' = r)"
proof -
  from decode_varint32_leb [OF assms] obtain s where
    s: "pb_decode_varint32 st = (Some (of_nat (length b)), s)" "ok t s" "content avail s = b @ r" .
  have n: "unat (of_nat (length b) :: u32) = length b" "PB_BYTES_ARRAY_T_ALLOCSIZE (length b) = length b + 4"
    using assms(3) by (simp_all add: unat_of_nat PB_BYTES_ARRAY_T_ALLOCSIZE_def SIZE_MOD_def)
  have "length b \<le> is_left s" using content_length [OF s(2)] s(3) by simp
  from read_some [OF s(2) this] obtain x where
    "pb_read s (length b) = (Some (take (length b) (content avail s)), s\<lparr>is_state := x, is_left := is_left s - length b\<rparr>)"
    "ok t (s\<lparr>is_state := x, is_left := is_left s - length b\<rparr>)"
    "content avail (s\<lparr>is_state := x, is_left := is_left s - length b\<rparr>) = drop (length b) (content avail s)" .
  then show ?thesis by (auto simp: pb_dec_bytes_def s(1,3) n Let_def)
qed

end

section \<open>Writing into a buffer and reading it again\<close>

text \<open>What has been written into the buffer of a stream, and a stream on some bytes.\<close>

definition wrote :: "(u8 list \<times> nat) pb_ostream \<Rightarrow> u8 list" where
  "wrote st = (case os_state st of (m, p) \<Rightarrow> take p m)"

definition reader :: "u8 list \<Rightarrow> u8 list pb_istream" where
  "reader m = pb_istream_from_buffer m (length m)"

abbreviation left_over :: "u8 list pb_istream \<Rightarrow> u8 list" where
  "left_over \<equiv> content (\<lambda>m. m)"

lemma reader_ok: "ibuf.ok [] (reader m)" "left_over (reader m) = m"
  by (simp_all add: reader_def pb_istream_from_buffer_def ibuf.ok_def content_def)

lemma from_buffer_ok:
  assumes "n \<le> length m"
  shows "ibuf.ok (drop n m) (pb_istream_from_buffer m n)" "left_over (pb_istream_from_buffer m n) = take n m"
  using assms by (simp_all add: pb_istream_from_buffer_def ibuf.ok_def content_def)

lemma writer_ok:
  assumes "n \<le> length buf" "n < SIZE_MOD"
  shows "obuf.ok (pb_ostream_from_buffer buf n)"
  using assms by (simp add: pb_ostream_from_buffer_def obuf.ok_def)

lemma writer_appends:
  assumes "obuf.appends (pb_ostream_from_buffer buf n) b st'"
  shows "wrote st' = b"
  using assms unfolding obuf.appends_def wrote_def by (simp add: pb_ostream_from_buffer_def)

lemma writer_start [simp]:
  "os_written (pb_ostream_from_buffer buf n) = 0" "os_max (pb_ostream_from_buffer buf n) = n"
  "os_errmsg (pb_ostream_from_buffer buf n) = None"
  by (simp_all add: pb_ostream_from_buffer_def)

lemma leb_length_64: "n < 2 ^ 64 \<Longrightarrow> length (leb n) \<le> 10"
  using leb_length [of n 9] by simp

lemma leb_length_32: "n < 2 ^ 32 \<Longrightarrow> length (leb n) \<le> 5"
  using leb_length [of n 4] by simp

lemma item_bytes_length: "length (item_bytes lt v) \<le> 10"
proof -
  have "unat w < 2 ^ 64" for w :: u64 using unsigned_less [where w = w and ?'a = nat] by simp
  then show ?thesis by (cases lt) (simp_all add: leb_length_64)
qed

lemma packed_length: "length (concat (map (item_bytes lt) xs)) \<le> 10 * length xs"
proof (induction xs)
  case (Cons x xs)
  then show ?case using item_bytes_length [of lt x] by simp
qed simp

text \<open>The wire type of a packable field is that of its bytes.\<close>

lemma skip_item:
  assumes "packable lt" "field_wire_type lt = Some wt" "item_ok lt n v" "ibuf.ok t st" "left_over st = item_bytes lt v @ r"
  obtains st' where "pb_skip_field st wt = (True, st')" "ibuf.ok t st'" "left_over st' = r"
proof (cases "lt = PB_LTYPE_FIXED32 \<or> lt = PB_LTYPE_FIXED64")
  case True
  then have "wt = PB_WT_32BIT \<and> length (item_bytes lt v) = 4 \<or> wt = PB_WT_64BIT \<and> length (item_bytes lt v) = 8"
    using assms(2) by (auto simp: field_wire_type_def)
  from ibuf.skip_fixed_field [OF assms(4,5) this] that show ?thesis by blast
next
  case False
  then obtain k where "item_bytes lt v = leb k" "wt = PB_WT_VARINT"
    using assms(1,2) by (cases lt) (auto simp: field_wire_type_def)
  then show ?thesis using ibuf.skip_varint_field [OF assms(4), of k r] assms(5) that by auto
qed

lemma wire_type_less: "field_wire_type lt = Some wt \<Longrightarrow> unat wt < 8"
  by (cases lt) (auto simp: field_wire_type_def PB_WT_VARINT_def PB_WT_32BIT_def PB_WT_64BIT_def PB_WT_STRING_def)

lemma tag_bounds:
  assumes "f < 2 ^ 29" "w < 8"
  shows "8 * unat (f :: u32) + w < 2 ^ 32"
proof -
  have "unat f < 2 ^ 29" using assms(1) by (simp add: word_less_nat_alt)
  then show ?thesis using assms(2) by simp
qed

lemma decode_tag_reader:
  assumes "ibuf.ok t st" "left_over st = leb (8 * unat f + unat w) @ r" "0 < f" "f < 2 ^ 29" "unat w < 8"
  obtains st' where "pb_decode_tag st = (Some (w, f), st', False)" "ibuf.ok t st'" "left_over st' = r"
proof -
  have "0 < unat f" using assms(3) by (simp add: word_less_nat_alt)
  from ibuf.decode_tag_leb [OF assms(1,2) tag_bounds [OF assms(4,5)] assms(5) this] that show ?thesis by auto
qed

text \<open>A string in a buffer.\<close>

lemma string_written:
  assumes "length b < 2 ^ 32" "5 + length b \<le> n" "n \<le> length buf" "n < SIZE_MOD"
  obtains st where "pb_encode_string (pb_ostream_from_buffer buf n) b = (True, st)" "wrote st = leb (length b) @ b"
proof -
  let ?st = "pb_ostream_from_buffer buf n"
  have "os_written ?st + length (leb (length b) @ b) \<le> os_max ?st"
    using assms(2) leb_length_32 [OF assms(1)] by simp
  moreover have "length b < 2 ^ 64" using assms(1) by simp
  ultimately show ?thesis
    using obuf.encode_string_room [OF writer_ok [OF assms(3,4)]] writer_appends that by blast
qed

lemma field_string_length: "length (takeWhile (\<lambda>b. b \<noteq> 0) (take n m)) \<le> n"
  by (rule order_trans [OF length_takeWhile_le]) simp

section \<open>Where the 32-bit reader is wrong\<close>

text \<open>The position in the result is 8 bits wide and goes round; bytes without payload are always let through.\<close>

context input_stream
begin

lemma varint32_padding:
  "ok t st \<Longrightarrow> content avail st = replicate n 0x80 @ m \<Longrightarrow>
    \<exists>st'. varint32_loop st v p = varint32_loop st' v (p + of_nat (7 * n)) \<and> ok t st' \<and> content avail st' = m"
proof (induction n arbitrary: st p)
  case 0
  then show ?case by auto
next
  case (Suc n)
  then have "content avail st = 0x80 # replicate n 0x80 @ m" by simp
  then obtain s where s: "pb_readbyte st = (Some 0x80, s)" "ok t s" "content avail s = replicate n 0x80 @ m"
    by (rule readbyte_Cons [OF Suc.prems(1)])
  have "varint32_loop st v p = varint32_loop s v (p + 7)"
    unfolding varint32_loop.simps [of st v p] s(1) by simp
  with Suc.IH [OF s(2,3), of "p + 7"] show ?case by (auto simp: algebra_simps)
qed

end

text \<open>A sixth byte hides the bits 32 to 34 of the fifth one from the check, and a long padding moves the last
  bits to the bottom: the varints of \<open>7 \<cdot> 2\<^sup>3\<^sup>2\<close> and \<open>2\<^sup>2\<^sup>5\<^sup>9\<close> are read as 0 and 8.\<close>

theorem pb_decode_varint32_overflow_missed:
  "vval [0x80, 0x80, 0x80, 0x80, 0xF0, 0x00] = 7 * 2 ^ 32"
  "fst (pb_decode_varint32 (reader [0x80, 0x80, 0x80, 0x80, 0xF0, 0x00])) = Some 0"
  "vval (replicate 37 0x80 @ [1]) = 2 ^ 259"
  "fst (pb_decode_varint32 (reader (replicate 37 0x80 @ [1]))) = Some 8"
proof -
  show "vval [0x80, 0x80, 0x80, 0x80, 0xF0, 0x00] = 7 * 2 ^ 32" by simp
  show "fst (pb_decode_varint32 (reader [0x80, 0x80, 0x80, 0x80, 0xF0, 0x00])) = Some 0" by code_simp
  have "vval (replicate n 0x80 @ [1]) = 128 ^ n" for n by (induction n) simp_all
  from this [of 37] show "vval (replicate 37 0x80 @ [1]) = 2 ^ 259" by simp
  let ?m = "replicate 36 0x80 @ [1]"
  have "left_over (reader (replicate 37 0x80 @ [1])) = 0x80 # ?m"
    by (simp add: reader_ok numeral_eq_Suc)
  from ibuf.readbyte_Cons [OF reader_ok(1) this] obtain s where
    s: "pb_readbyte (reader (replicate 37 0x80 @ [1])) = (Some 0x80, s)" "ibuf.ok [] s" "left_over s = ?m" .
  have pos: "7 + of_nat (7 * 36) = (3 :: u8)" by (rule word_unat_eq_iff [THEN iffD2]) (simp add: unat_word_ariths)
  from ibuf.varint32_padding [OF s(2,3), of 0 7] obtain s' where
    s': "varint32_loop s 0 7 = varint32_loop s' 0 3" "ibuf.ok [] s'" "left_over s' = [1]"
    unfolding pos by blast
  from ibuf.readbyte_Cons [OF s'(2,3)] obtain s'' where "pb_readbyte s' = (Some 1, s'')" .
  then have "varint32_loop s' 0 3 = (Some 8, s'')" by (subst varint32_loop.simps) simp
  then show "fst (pb_decode_varint32 (reader (replicate 37 0x80 @ [1]))) = Some 8"
    by (simp add: pb_decode_varint32_def pb_decode_varint32_eof_def s(1) s'(1))
qed

end
