(* ===== verification/Bio.thy ===== *)
theory Bio
  imports Der
begin

text \<open>
  \<^verbatim>\<open>crypto/bio/bio.c\<close>: the input and output objects and the calls that go through their method
  table. The record \<open>bio\<close> is the C struct, of which references and the chain are left out. A method acts
  on a state in which the BIO at hand is one part (for a BIO pair, the other end is there too);
  \<open>handle\<close> says how to get at the BIO and has the functions of the table, \<open>None\<close> for NULL. A reading method
  takes the size of the buffer and returns the result of the C function and the bytes it has put
  there.

  The contract of a BIO that is read from is the locale \<open>byte_source\<close>; inside it the readers of a given
  number of bytes and of an ASN.1 element are right however the bytes come.
\<close>

unbundle bit_operations_syntax

section \<open>The object\<close>

record 'p bio =
  bio_init :: bool
  bio_shutdown :: int
  bio_flags :: u32
  bio_retry_reason :: int
  bio_num :: int
  bio_ptr :: 'p
  num_read :: nat
  num_write :: nat

definition BIO_FLAGS_READ :: u32 where "BIO_FLAGS_READ = 0x01"
definition BIO_FLAGS_WRITE :: u32 where "BIO_FLAGS_WRITE = 0x02"
definition BIO_FLAGS_IO_SPECIAL :: u32 where "BIO_FLAGS_IO_SPECIAL = 0x04"
definition BIO_FLAGS_RWS :: u32 where "BIO_FLAGS_RWS = BIO_FLAGS_READ OR BIO_FLAGS_WRITE OR BIO_FLAGS_IO_SPECIAL"
definition BIO_FLAGS_SHOULD_RETRY :: u32 where "BIO_FLAGS_SHOULD_RETRY = 0x08"
definition BIO_FLAGS_MEM_RDONLY :: u32 where "BIO_FLAGS_MEM_RDONLY = 0x200"

definition kRetryFlags :: u32 where "kRetryFlags = BIO_FLAGS_RWS OR BIO_FLAGS_SHOULD_RETRY"

definition BIO_set_flags :: "'p bio \<Rightarrow> u32 \<Rightarrow> 'p bio" where
  "BIO_set_flags b flags = b\<lparr>bio_flags := bio_flags b OR flags\<rparr>"

definition BIO_clear_flags :: "'p bio \<Rightarrow> u32 \<Rightarrow> 'p bio" where
  "BIO_clear_flags b flags = b\<lparr>bio_flags := bio_flags b AND NOT flags\<rparr>"

definition BIO_test_flags :: "'p bio \<Rightarrow> u32 \<Rightarrow> bool" where
  "BIO_test_flags b flags \<longleftrightarrow> bio_flags b AND flags \<noteq> 0"

definition BIO_should_read :: "'p bio \<Rightarrow> bool" where
  "BIO_should_read b = BIO_test_flags b BIO_FLAGS_READ"

definition BIO_should_write :: "'p bio \<Rightarrow> bool" where
  "BIO_should_write b = BIO_test_flags b BIO_FLAGS_WRITE"

definition BIO_should_retry :: "'p bio \<Rightarrow> bool" where
  "BIO_should_retry b = BIO_test_flags b BIO_FLAGS_SHOULD_RETRY"

definition BIO_set_retry_read :: "'p bio \<Rightarrow> 'p bio" where
  "BIO_set_retry_read b = b\<lparr>bio_flags := bio_flags b OR (BIO_FLAGS_READ OR BIO_FLAGS_SHOULD_RETRY)\<rparr>"

definition BIO_set_retry_write :: "'p bio \<Rightarrow> 'p bio" where
  "BIO_set_retry_write b = b\<lparr>bio_flags := bio_flags b OR (BIO_FLAGS_WRITE OR BIO_FLAGS_SHOULD_RETRY)\<rparr>"

definition BIO_clear_retry_flags :: "'p bio \<Rightarrow> 'p bio" where
  "BIO_clear_retry_flags b = b\<lparr>bio_flags := bio_flags b AND NOT kRetryFlags, bio_retry_reason := 0\<rparr>"

definition SIZEOF_BIO :: nat where "SIZEOF_BIO = 64"

text \<open>\<open>create\<close> is the function of the method, which may fail.\<close>

definition BIO_new :: "allocator \<Rightarrow> 'p \<Rightarrow> ('p bio \<Rightarrow> 'p bio option) \<Rightarrow> 'p bio option" where
  "BIO_new mal null create =
     (case OPENSSL_malloc mal SIZEOF_BIO of
        None \<Rightarrow> None
      | Some _ \<Rightarrow>
          create \<lparr>bio_init = False, bio_shutdown = 1, bio_flags = 0, bio_retry_reason = 0, bio_num = 0,
                  bio_ptr = null, num_read = 0, num_write = 0\<rparr>)"

section \<open>Calls through the method table\<close>

record ('s, 'p) handle =
  the_bio :: "'s \<Rightarrow> 'p bio"
  map_bio :: "('p bio \<Rightarrow> 'p bio) \<Rightarrow> 's \<Rightarrow> 's"
  bread :: "(int \<Rightarrow> 's \<Rightarrow> int \<times> u8 list \<times> 's) option"
  bwrite :: "(u8 list \<Rightarrow> 's \<Rightarrow> int \<times> 's) option"
  bgets :: "(int \<Rightarrow> 's \<Rightarrow> int \<times> u8 list \<times> 's) option"

definition count_read :: "int \<Rightarrow> 'p bio \<Rightarrow> 'p bio" where
  "count_read ret b = b\<lparr>num_read := (num_read b + nat ret) mod SIZE_MOD\<rparr>"

definition count_write :: "int \<Rightarrow> 'p bio \<Rightarrow> 'p bio" where
  "count_write ret b = b\<lparr>num_write := (num_write b + nat ret) mod SIZE_MOD\<rparr>"

definition BIO_read :: "('s, 'p) handle \<Rightarrow> int \<Rightarrow> 's \<Rightarrow> int \<times> u8 list \<times> 's" where
  "BIO_read h len s =
     (case bread h of
        None \<Rightarrow> (-2, [], s)
      | Some f \<Rightarrow>
          if \<not> bio_init (the_bio h s) then (-2, [], s)
          else if len \<le> 0 then (0, [], s)
          else (case f len s of
                  (ret, out, s) \<Rightarrow> (ret, out, if ret > 0 then map_bio h (count_read ret) s else s)))"

definition BIO_gets :: "('s, 'p) handle \<Rightarrow> int \<Rightarrow> 's \<Rightarrow> int \<times> u8 list \<times> 's" where
  "BIO_gets h len s =
     (case bgets h of
        None \<Rightarrow> (-2, [], s)
      | Some f \<Rightarrow>
          if \<not> bio_init (the_bio h s) then (-2, [], s)
          else if len \<le> 0 then (0, [], s)
          else (case f len s of
                  (ret, out, s) \<Rightarrow> (ret, out, if ret > 0 then map_bio h (count_read ret) s else s)))"

text \<open>\<^verbatim>\<open>inl\<close> is the length of the data, which is not negative.\<close>

definition BIO_write :: "('s, 'p) handle \<Rightarrow> u8 list \<Rightarrow> 's \<Rightarrow> int \<times> 's" where
  "BIO_write h data s =
     (case bwrite h of
        None \<Rightarrow> (-2, s)
      | Some f \<Rightarrow>
          if \<not> bio_init (the_bio h s) then (-2, s)
          else if data = [] then (0, s)
          else (case f data s of
                  (ret, s) \<Rightarrow> (ret, if ret > 0 then map_bio h (count_write ret) s else s)))"

function BIO_write_all :: "('s, 'p) handle \<Rightarrow> u8 list \<Rightarrow> 's \<Rightarrow> bool \<times> 's" where
  "BIO_write_all h data s =
     (if data = [] then (True, s)
      else (case BIO_write h (take INT_MAX data) s of
              (ret, s) \<Rightarrow> if ret \<le> 0 then (False, s) else BIO_write_all h (drop (nat ret) data) s))"
  by pat_completeness auto
termination by (relation "measure (\<lambda>(h, data, s). length data)") auto

declare BIO_write_all.simps [simp del]

definition BIO_puts :: "('s, 'p) handle \<Rightarrow> u8 list \<Rightarrow> 's \<Rightarrow> int \<times> 's" where
  "BIO_puts h str s = BIO_write h (cstr str) s"

fun BIO_indent_loop :: "('s, 'p) handle \<Rightarrow> nat \<Rightarrow> 's \<Rightarrow> bool \<times> 's" where
  "BIO_indent_loop h 0 s = (True, s)"
| "BIO_indent_loop h (Suc n) s =
     (case BIO_puts h [32, 0] s of (ret, s) \<Rightarrow> if ret \<noteq> 1 then (False, s) else BIO_indent_loop h n s)"

definition BIO_indent :: "('s, 'p) handle \<Rightarrow> nat \<Rightarrow> nat \<Rightarrow> 's \<Rightarrow> bool \<times> 's" where
  "BIO_indent h indent max_indent s = BIO_indent_loop h (if indent > max_indent then max_indent else indent) s"

section \<open>Reading until enough has come\<close>

text \<open>The flag in front is what is stored through \<^verbatim>\<open>out_eof_on_first_read\<close>.\<close>

function bio_read_full_loop :: "('s, 'p) handle \<Rightarrow> bool \<Rightarrow> nat \<Rightarrow> 's \<Rightarrow> bool \<times> u8 list option \<times> 's" where
  "bio_read_full_loop h first_read len s =
     (if len = 0 then (False, Some [], s)
      else (case BIO_read h (int (if len \<le> INT_MAX then len else INT_MAX)) s of
              (ret, out, s) \<Rightarrow>
                if ret \<le> 0 then (first_read \<and> ret = 0, None, s)
                else (case bio_read_full_loop h False (len - nat ret) s of
                        (eof, r, s) \<Rightarrow> (eof, map_option (\<lambda>rest. out @ rest) r, s))))"
  by pat_completeness auto
termination by (relation "measure (\<lambda>(h, first_read, len, s). len)") auto

declare bio_read_full_loop.simps [simp del]

definition bio_read_full :: "('s, 'p) handle \<Rightarrow> nat \<Rightarrow> 's \<Rightarrow> bool \<times> u8 list option \<times> 's" where
  "bio_read_full h len s = bio_read_full_loop h True len s"

text \<open>The loop of \<open>bio_read_all\<close>; \<open>out\<close> are the bytes that are there, \<open>len\<close> the size of the buffer. It ends when the
  BIO does, so not returning is a value. A negative result other than \<open>- 1\<close> is added to the position like
  a count; the position does not go below 0 here.\<close>

definition kChunkSize :: nat where "kChunkSize = 4096"

partial_function (option) read_all_loop ::
    "allocator \<Rightarrow> ('s, 'p) handle \<Rightarrow> nat \<Rightarrow> nat \<Rightarrow> u8 list \<Rightarrow> 's \<Rightarrow> (u8 list option \<times> 's) option" where
  "read_all_loop mal h max_len len out s =
     (if length out = len then Some (None, s)
      else (case BIO_read h (int (len - length out)) s of
              (n, b, s) \<Rightarrow>
                if n = 0 then Some (Some out, s)
                else if n = -1 then Some (None, s)
                else
                  (let out = (if n < 0 then take (nat (int (length out) + n)) out else out @ b) in
                   if len < max_len \<and> len - length out < kChunkSize div 2 then
                     (let len' = (len + kChunkSize) mod SIZE_MOD;
                          len' = (if len' < kChunkSize \<or> len' > max_len then max_len else len')
                      in case OPENSSL_realloc mal (Some (len, out @ replicate (len - length out) 0)) len' of
                           None \<Rightarrow> Some (None, s)
                         | Some new_buf \<Rightarrow> read_all_loop mal h max_len len' (take (length out) new_buf) s)
                   else read_all_loop mal h max_len len out s)))"

definition bio_read_all ::
    "allocator \<Rightarrow> ('s, 'p) handle \<Rightarrow> u8 list \<Rightarrow> nat \<Rightarrow> 's \<Rightarrow> (u8 list option \<times> 's) option" where
  "bio_read_all mal h prefix max_len s =
     (let len = (length prefix + kChunkSize) mod SIZE_MOD;
          len = (if len > max_len then max_len else len)
      in if len < length prefix then Some (None, s)
         else (case OPENSSL_malloc mal len of
                 None \<Rightarrow> Some (None, s)
               | Some _ \<Rightarrow> read_all_loop mal h max_len len prefix s))"

section \<open>Reading an ASN.1 element\<close>

datatype asn1_reason = ASN1_R_HEADER_TOO_LONG | ASN1_R_NOT_ENOUGH_DATA | ASN1_R_DECODE_ERROR | ASN1_R_TOO_LONG
  | ERR_R_MALLOC_FAILURE

text \<open>The end of \<open>BIO_read_asn1\<close>, when header and length are known.\<close>

definition read_asn1_body ::
    "allocator \<Rightarrow> ('s, 'p) handle \<Rightarrow> nat \<Rightarrow> u8 list \<Rightarrow> nat \<Rightarrow> 's \<Rightarrow> (asn1_reason + u8 list) \<times> 's" where
  "read_asn1_body mal h max_len header len s =
     (let total' = (len + length header) mod SIZE_MOD in
      if total' < len \<or> total' > max_len \<or> len > INT_MAX then (Inl ASN1_R_TOO_LONG, s)
      else (case OPENSSL_malloc mal total' of
              None \<Rightarrow> (Inl ERR_R_MALLOC_FAILURE, s)
            | Some _ \<Rightarrow>
                (case bio_read_full h (total' - length header) s of
                   (_, None, s) \<Rightarrow> (Inl ASN1_R_NOT_ENOUGH_DATA, s)
                 | (_, Some body, s) \<Rightarrow> (Inr (header @ body), s))))"

definition read_asn1_len32 :: "u8 list \<Rightarrow> u32" where
  "read_asn1_len32 bs = foldl (\<lambda>len32 b. push_bit 8 len32 OR ucast b) 0 bs"

definition BIO_read_asn1 ::
    "allocator \<Rightarrow> ('s, 'p) handle \<Rightarrow> nat \<Rightarrow> 's \<Rightarrow> ((asn1_reason + u8 list) \<times> 's) option" where
  "BIO_read_asn1 mal h max_len s =
     (case bio_read_full h 2 s of
        (eof_on_first_read, None, s) \<Rightarrow>
          Some (Inl (if eof_on_first_read then ASN1_R_HEADER_TOO_LONG else ASN1_R_NOT_ENOUGH_DATA), s)
      | (_, Some header, s) \<Rightarrow>
          (let tag = header ! 0; length_byte = header ! 1 in
           if tag AND 0x1f = 0x1f then Some (Inl ASN1_R_DECODE_ERROR, s)
           else if length_byte AND 0x80 = 0 then Some (read_asn1_body mal h max_len header (unat length_byte) s)
           else
             (let num_bytes = unat (length_byte AND 0x7f) in
              if tag AND 0x20 \<noteq> 0 \<and> num_bytes = 0 then
                (case bio_read_all mal h header max_len s of
                   None \<Rightarrow> None
                 | Some (None, s) \<Rightarrow> Some (Inl ASN1_R_NOT_ENOUGH_DATA, s)
                 | Some (Some out, s) \<Rightarrow> Some (Inr out, s))
              else if num_bytes = 0 \<or> num_bytes > 4 then Some (Inl ASN1_R_DECODE_ERROR, s)
              else
                (case bio_read_full h num_bytes s of
                   (_, None, s) \<Rightarrow> Some (Inl ASN1_R_NOT_ENOUGH_DATA, s)
                 | (_, Some ext, s) \<Rightarrow>
                     (let len32 = read_asn1_len32 ext in
                      if len32 < 128 then Some (Inl ASN1_R_DECODE_ERROR, s)
                      else if drop_bit ((num_bytes - 1) * 8) len32 = 0 then Some (Inl ASN1_R_DECODE_ERROR, s)
                      else Some (read_asn1_body mal h max_len (header @ ext) (unat len32) s))))))"

section \<open>The contract of a BIO that is read from\<close>

locale byte_source =
  fixes h :: "('s, 'p) handle" and inv :: "'s \<Rightarrow> bool" and content :: "'s \<Rightarrow> u8 list"
  assumes read_some: "inv s \<Longrightarrow> content s \<noteq> [] \<Longrightarrow> 0 < n \<Longrightarrow> n \<le> INT_MAX \<Longrightarrow>
      \<exists>k s'. BIO_read h (int n) s = (int k, take k (content s), s') \<and> 0 < k \<and> k \<le> n \<and> k \<le> length (content s) \<and>
        content s' = drop k (content s) \<and> inv s'"
    and read_none: "inv s \<Longrightarrow> content s = [] \<Longrightarrow> 0 < n \<Longrightarrow> n \<le> INT_MAX \<Longrightarrow>
      \<exists>r s'. BIO_read h (int n) s = (r, [], s') \<and> r \<le> 0 \<and> content s' = [] \<and> inv s'"
begin

text \<open>However the bytes come, a full read gets them all or ends at the end.\<close>

lemma full_loop_exact:
  "inv s \<Longrightarrow>
    (if n \<le> length (content s)
     then \<exists>s'. bio_read_full_loop h f n s = (False, Some (take n (content s)), s') \<and> inv s' \<and>
       content s' = drop n (content s)
     else \<exists>eof s'. bio_read_full_loop h f n s = (eof, None, s') \<and> inv s' \<and> content s' = [])"
proof (induction n arbitrary: s f rule: less_induct)
  case (less n)
  show ?case
  proof (cases "n = 0")
    case True
    then show ?thesis using less.prems by (simp add: bio_read_full_loop.simps)
  next
    case False
    let ?m = "if n \<le> INT_MAX then n else INT_MAX"
    have m: "0 < ?m" "?m \<le> INT_MAX" "?m \<le> n" using False by (auto simp: INT_MAX_def)
    show ?thesis
    proof (cases "content s = []")
      case True
      from read_none [OF less.prems True m(1,2)] obtain r s' where
        "BIO_read h (int ?m) s = (r, [], s')" "r \<le> 0" "content s' = []" "inv s'" by blast
      then show ?thesis using False True by (auto simp: bio_read_full_loop.simps [of h f n s])
    next
      case ne: False
      from read_some [OF less.prems ne m(1,2)] obtain k s' where
        k: "BIO_read h (int ?m) s = (int k, take k (content s), s')" "0 < k" "k \<le> ?m" "k \<le> length (content s)"
        "content s' = drop k (content s)" "inv s'" by blast
      have kn: "k \<le> n" using k(3) m(3) by linarith
      have step: "bio_read_full_loop h f n s =
          (case bio_read_full_loop h False (n - k) s' of
             (eof, r, x) \<Rightarrow> (eof, map_option (\<lambda>rest. take k (content s) @ rest) r, x))"
        using False k(1,2) by (subst bio_read_full_loop.simps) simp
      have "n - k < n" using k(2) False by simp
      from less.IH [OF this k(6), of False] show ?thesis
      proof (cases "n \<le> length (content s)")
        case True
        then have "n - k \<le> length (content s')" using k(5) by simp
        with less.IH [OF \<open>n - k < n\<close> k(6), of False] obtain x where
          "bio_read_full_loop h False (n - k) s' = (False, Some (take (n - k) (content s')), x)" "inv x"
          "content x = drop (n - k) (content s')" by auto
        moreover have "take k (content s) @ take (n - k) (drop k (content s)) = take n (content s)"
          using kn take_add [of k "n - k" "content s"] by simp
        ultimately show ?thesis using True step k(5) kn by simp
      next
        case False
        then have "\<not> n - k \<le> length (content s')" using k(4,5) by auto
        with less.IH [OF \<open>n - k < n\<close> k(6), of False] obtain eof x where
          "bio_read_full_loop h False (n - k) s' = (eof, None, x)" "inv x" "content x = []" by auto
        then show ?thesis using False step by simp
      qed
    qed
  qed
qed

lemma full_some:
  assumes "inv s" "n \<le> length (content s)"
  obtains s' where "bio_read_full h n s = (False, Some (take n (content s)), s')" "inv s'" "content s' = drop n (content s)"
  using full_loop_exact [OF assms(1), of n True] assms(2) that by (auto simp: bio_read_full_def)

lemma full_none:
  assumes "inv s" "length (content s) < n"
  obtains eof s' where "bio_read_full h n s = (eof, None, s')"
  using full_loop_exact [OF assms(1), of n True] assms(2) that by (auto simp: bio_read_full_def)

end

section \<open>Elements\<close>

lemma unat_len32: "length bs \<le> 4 \<Longrightarrow> unat (read_asn1_len32 bs) = be_val bs"
proof (induction bs rule: rev_induct)
  case Nil
  then show ?case by (simp add: read_asn1_len32_def)
next
  case (snoc b bs)
  have "be_val bs < 256 ^ 3" using snoc.prems by (intro be_val_bound) simp
  then have "unat (read_asn1_len32 bs) < 2 ^ 24" using snoc by simp
  moreover have "read_asn1_len32 (bs @ [b]) = push_bit 8 (read_asn1_len32 bs) OR ucast b"
    by (simp add: read_asn1_len32_def)
  ultimately have "unat (read_asn1_len32 (bs @ [b])) = 256 * unat (read_asn1_len32 bs) + unat b"
    using unat_u8_less [of b] by (subst \<open>read_asn1_len32 (bs @ [b]) = _\<close>, subst unat_shift_or) (auto simp: wordsimps)
  then show ?case using snoc by simp
qed

lemma len32_minimal:
  assumes "length xs = k" "1 \<le> k" "k \<le> 4"
  shows "\<not> read_asn1_len32 xs < 128 \<and> drop_bit ((k - 1) * 8) (read_asn1_len32 xs) \<noteq> 0 \<longleftrightarrow>
    der_len (be_val xs) = byte (128 + k) # xs"
proof -
  have u: "unat (read_asn1_len32 xs) = be_val xs" using assms by (intro unat_len32) simp
  have lt: "be_val xs < 256 ^ k" using be_val_less [of xs] assms(1) by simp
  have d: "drop_bit ((k - 1) * 8) (read_asn1_len32 xs) \<noteq> 0 \<longleftrightarrow> 256 ^ (k - 1) \<le> be_val xs"
    using u by (simp only: drop_bit_zero_iff not_less pow_256)
  have s: "read_asn1_len32 xs < 128 \<longleftrightarrow> be_val xs < 128" using u by (simp add: word_less_nat_alt)
  show ?thesis
  proof
    assume a: "\<not> read_asn1_len32 xs < 128 \<and> drop_bit ((k - 1) * 8) (read_asn1_len32 xs) \<noteq> 0"
    then have "len_bytes (be_val xs) = k" using lt d assms by (intro len_bytes_eq) simp_all
    then show "der_len (be_val xs) = byte (128 + k) # xs" using a s assms by (simp add: der_len_def be_bytes_be_val)
  next
    assume e: "der_len (be_val xs) = byte (128 + k) # xs"
    have "xs \<noteq> []" using assms by auto
    then have n: "\<not> be_val xs < 128" using e by (auto simp: der_len_def)
    then have "len_bytes (be_val xs) = k" using e assms(1) by (auto simp: der_len_def) (metis length_be_bytes)
    then have "256 ^ (k - 1) \<le> be_val xs" using n by (auto simp: len_bytes_def split: if_splits)
    then show "\<not> read_asn1_len32 xs < 128 \<and> drop_bit ((k - 1) * 8) (read_asn1_len32 xs) \<noteq> 0" using n d s by simp
  qed
qed

text \<open>An element with a tag of one byte and its length in the shortest form.\<close>

definition asn1_element :: "u8 \<Rightarrow> u8 list \<Rightarrow> u8 list" where
  "asn1_element tag body = tag # der_len (length body) @ body"

lemma length_asn1_element: "length (asn1_element tag body) = Suc (length (der_len (length body)) + length body)"
  by (simp add: asn1_element_def)

context byte_source
begin

lemma body_exact:
  assumes "malloc_total mal" "inv s" "len < 2 ^ 32" "length header \<le> 6"
  shows "if len + length header \<le> max_len \<and> len \<le> INT_MAX \<and> len \<le> length (content s)
    then \<exists>s'. read_asn1_body mal h max_len header len s = (Inr (header @ take len (content s)), s') \<and> inv s' \<and>
      content s' = drop len (content s)
    else \<exists>e s'. read_asn1_body mal h max_len header len s = (Inl e, s')"
proof -
  have t: "(len + length header) mod SIZE_MOD = len + length header" using assms(3,4) by (simp add: SIZE_MOD_def)
  have "OPENSSL_malloc mal (len + length header) \<noteq> None"
    using assms(3,4) by (intro malloc_total_malloc [OF assms(1)]) simp
  then obtain nb where nb: "OPENSSL_malloc mal (len + length header) = Some nb" by blast
  have b: "read_asn1_body mal h max_len header len s =
      (if len + length header > max_len \<or> len > INT_MAX then (Inl ASN1_R_TOO_LONG, s)
       else (case bio_read_full h len s of
               (_, None, s) \<Rightarrow> (Inl ASN1_R_NOT_ENOUGH_DATA, s)
             | (_, Some body, s) \<Rightarrow> (Inr (header @ body), s)))"
    by (simp add: read_asn1_body_def t nb Let_def)
  show ?thesis
  proof (cases "len \<le> length (content s)")
    case True
    from full_some [OF assms(2) True] obtain x where
      "bio_read_full h len s = (False, Some (take len (content s)), x)" "inv x" "content x = drop len (content s)" .
    then show ?thesis using True by (simp add: b)
  next
    case False
    then have "length (content s) < len" by simp
    from full_none [OF assms(2) this] obtain eof x where "bio_read_full h len s = (eof, None, x)" .
    then show ?thesis using False by (simp add: b)
  qed
qed

lemma body_Inr:
  assumes "malloc_total mal" "inv s" "len < 2 ^ 32" "length header \<le> 6"
    "read_asn1_body mal h max_len header len s = (Inr e, s')"
  shows "len + length header \<le> max_len" "len \<le> length (content s)" "e = header @ take len (content s)"
    "content s' = drop len (content s)"
  using body_exact [OF assms(1-4), of max_len] assms(5) by (auto split: if_splits)

lemma read_asn1_complete:
  assumes "malloc_total mal" "inv s" "content s = asn1_element tag body @ rest" "tag AND 0x1f \<noteq> 0x1f"
    "length (asn1_element tag body) \<le> max_len" "length body \<le> INT_MAX"
  shows "\<exists>s'. BIO_read_asn1 mal h max_len s = Some (Inr (asn1_element tag body), s') \<and> inv s' \<and> content s' = rest"
proof -
  let ?n = "length body"
  have n32: "?n < 2 ^ 32" using assms(6) by (simp add: INT_MAX_def)
  show ?thesis
  proof (cases "?n < 128")
    case True
    then have c: "content s = [tag, byte ?n] @ body @ rest" by (simp add: assms(3) asn1_element_def der_len_def)
    from full_some [OF assms(2), of 2] obtain s1 where s1:
      "bio_read_full h 2 s = (False, Some [tag, byte ?n], s1)" "inv s1" "content s1 = body @ rest" by (auto simp: c)
    have "byte ?n AND 0x80 = 0" "unat (byte ?n) = ?n" using True by (simp_all add: and_80_zero unat_byte)
    then have "BIO_read_asn1 mal h max_len s = Some (read_asn1_body mal h max_len [tag, byte ?n] ?n s1)"
      using assms(4) by (simp add: BIO_read_asn1_def s1(1) Let_def)
    moreover have "\<exists>s'. read_asn1_body mal h max_len [tag, byte ?n] ?n s1 = (Inr ([tag, byte ?n] @ body), s') \<and>
        inv s' \<and> content s' = rest"
      using body_exact [OF assms(1) s1(2) n32, of "[tag, byte ?n]" max_len] True assms(5,6)
      by (simp add: s1(3) length_asn1_element der_len_def)
    ultimately show ?thesis using True by (auto simp: asn1_element_def der_len_def)
  next
    case False
    let ?k = "len_bytes ?n" let ?xs = "be_bytes ?k ?n" let ?l = "byte (128 + ?k)"
    note kb = len_bytes_bounds(1) [OF n32] len_bytes_bounds(2,3) [of ?n]
    have d: "der_len ?n = ?l # ?xs" using False by (simp add: der_len_def)
    then have c: "content s = [tag, ?l] @ ?xs @ body @ rest" by (simp add: assms(3) asn1_element_def)
    from full_some [OF assms(2), of 2] obtain s1 where s1:
      "bio_read_full h 2 s = (False, Some [tag, ?l], s1)" "inv s1" "content s1 = ?xs @ body @ rest" by (auto simp: c)
    from full_some [OF s1(2), of ?k] obtain s2 where s2:
      "bio_read_full h ?k s1 = (False, Some ?xs, s2)" "inv s2" "content s2 = body @ rest" by (auto simp: s1(3))
    have l: "?l AND 0x80 \<noteq> 0" "unat (?l AND 0x7f) = ?k" using kb by (simp_all add: and_80_zero unat_byte unat_and_7f)
    have v: "be_val ?xs = ?n" using kb by (intro be_val_be_bytes) simp_all
    then have u: "unat (read_asn1_len32 ?xs) = ?n" using kb by (simp add: unat_len32)
    have m: "\<not> read_asn1_len32 ?xs < 128" "drop_bit ((?k - 1) * 8) (read_asn1_len32 ?xs) \<noteq> 0"
      using len32_minimal [of ?xs ?k] kb d v by simp_all
    have "BIO_read_asn1 mal h max_len s = Some (read_asn1_body mal h max_len ([tag, ?l] @ ?xs) ?n s2)"
      using assms(4) l m kb by (simp add: BIO_read_asn1_def s1(1) s2(1) u Let_def)
    moreover have "\<exists>s'. read_asn1_body mal h max_len ([tag, ?l] @ ?xs) ?n s2 = (Inr (([tag, ?l] @ ?xs) @ body), s') \<and>
        inv s' \<and> content s' = rest"
      using body_exact [OF assms(1) s2(2) n32, of "[tag, ?l] @ ?xs" max_len] assms(5,6) kb d
      by (simp add: s2(3) length_asn1_element)
    ultimately show ?thesis using d by (auto simp: asn1_element_def)
  qed
qed

text \<open>Nothing else is accepted, apart from a constructed element of indefinite length.\<close>

lemma read_asn1_sound:
  assumes "malloc_total mal" "inv s" "BIO_read_asn1 mal h max_len s = Some (Inr e, s')"
    "\<not> (hd (content s) AND 0x20 \<noteq> 0 \<and> hd (tl (content s)) = 0x80)"
  shows "\<exists>tag body. e = asn1_element tag body \<and> tag AND 0x1f \<noteq> 0x1f \<and> content s = e @ content s' \<and> length e \<le> max_len"
proof -
  have "2 \<le> length (content s)"
  proof (rule ccontr)
    assume "\<not> 2 \<le> length (content s)"
    then have "length (content s) < 2" by simp
    from full_none [OF assms(2) this] obtain eof x where "bio_read_full h 2 s = (eof, None, x)" .
    then show False using assms(3) by (simp add: BIO_read_asn1_def)
  qed
  then obtain t l m where c: "content s = t # l # m" by (cases "content s"; cases "tl (content s)") auto
  from full_some [OF assms(2), of 2] obtain s1 where s1:
    "bio_read_full h 2 s = (False, Some [t, l], s1)" "inv s1" "content s1 = m" by (auto simp: c)
  have t: "t AND 0x1f \<noteq> 0x1f" using assms(3) by (auto simp: BIO_read_asn1_def s1(1) Let_def split: if_splits)
  show ?thesis
  proof (cases "l AND 0x80 = 0")
    case True
    then have l: "unat l < 128" by (simp add: and_80_zero)
    have "read_asn1_body mal h max_len [t, l] (unat l) s1 = (Inr e, s')"
      using assms(3) t True by (simp add: BIO_read_asn1_def s1(1) Let_def)
    then have r: "unat l + 2 \<le> max_len" "unat l \<le> length m" "e = [t, l] @ take (unat l) m" "content s' = drop (unat l) m"
      using body_Inr [OF assms(1) s1(2), of "unat l" "[t, l]" max_len e s'] l by (simp_all add: s1(3))
    then show ?thesis using t l
      by (intro exI [of _ t] exI [of _ "take (unat l) m"]) (simp add: asn1_element_def der_len_def c)
  next
    case False
    define k where "k = unat (l AND 0x7f)"
    have "128 \<le> unat l" using False by (simp add: and_80_zero)
    moreover have "unat l < 256" by (rule unat_u8_less)
    ultimately have "unat l mod 128 = unat l - 128" by (simp add: mod_if)
    then have kl: "unat l = 128 + k" "k < 128" using \<open>128 \<le> unat l\<close> unat_u8_less [of l] by (simp_all add: k_def unat_and_7f)
    then have lk: "l = byte (128 + k)" by (intro byte_eqI [symmetric]) simp
    have k0: "\<not> (t AND 0x20 \<noteq> 0 \<and> k = 0)"
      using assms(4) lk by (auto simp: c byte_def)
    have r: "BIO_read_asn1 mal h max_len s =
        (if k = 0 \<or> k > 4 then Some (Inl ASN1_R_DECODE_ERROR, s1)
         else (case bio_read_full h k s1 of
                 (_, None, s) \<Rightarrow> Some (Inl ASN1_R_NOT_ENOUGH_DATA, s)
               | (_, Some ext, s) \<Rightarrow>
                   (let len32 = read_asn1_len32 ext in
                    if len32 < 128 then Some (Inl ASN1_R_DECODE_ERROR, s)
                    else if drop_bit ((k - 1) * 8) len32 = 0 then Some (Inl ASN1_R_DECODE_ERROR, s)
                    else Some (read_asn1_body mal h max_len ([t, l] @ ext) (unat len32) s))))"
      using t False k0 by (auto simp: BIO_read_asn1_def s1(1) k_def [symmetric] Let_def)
    then have k: "1 \<le> k" "k \<le> 4" using assms(3) by (auto split: if_splits)
    have "k \<le> length m"
    proof (rule ccontr)
      assume "\<not> k \<le> length m"
      then have "length (content s1) < k" by (simp add: s1(3))
      from full_none [OF s1(2) this] obtain eof x where "bio_read_full h k s1 = (eof, None, x)" .
      then show False using r k assms(3) by simp
    qed
    then obtain s2 where s2: "bio_read_full h k s1 = (False, Some (take k m), s2)" "inv s2" "content s2 = drop k m"
      using full_some [OF s1(2), of k] by (auto simp: s1(3))
    let ?xs = "take k m" let ?n = "unat (read_asn1_len32 ?xs)"
    have x: "\<not> read_asn1_len32 ?xs < 128" "drop_bit ((k - 1) * 8) (read_asn1_len32 ?xs) \<noteq> 0"
      "read_asn1_body mal h max_len ([t, l] @ ?xs) ?n s2 = (Inr e, s')"
      using r s2(1) k assms(3) by (auto simp: Let_def split: if_splits)
    have lx: "length ?xs = k" using \<open>k \<le> length m\<close> by simp
    have n: "?n = be_val ?xs" using lx k(2) by (intro unat_len32) simp
    have d: "der_len ?n = l # ?xs" using len32_minimal [OF lx k] x(1,2) lk n by simp
    have "?n < 2 ^ 32" using unsigned_less [where w = "read_asn1_len32 ?xs" and ?'a = nat] by simp
    moreover have "length ([t, l] @ ?xs) \<le> 6" using lx k(2) by simp
    ultimately have b: "?n \<le> length (drop k m)" "e = ([t, l] @ ?xs) @ take ?n (drop k m)" "content s' = drop ?n (drop k m)"
      "?n + length ([t, l] @ ?xs) \<le> max_len"
      using body_Inr [OF assms(1) s2(2) _ _ x(3)] unfolding s2(3) by blast+
    let ?b = "take ?n (drop k m)"
    have lb: "length ?b = ?n" using b(1) by simp
    have "e = asn1_element t ?b" unfolding asn1_element_def lb d b(2) by simp
    moreover have "content s = e @ content s'" unfolding b(2,3) c by (simp del: drop_drop)
    moreover have "length e \<le> max_len" using b(1,2,4) lx by simp
    ultimately show ?thesis using t by blast
  qed
qed

end

section \<open>Sources that end\<close>

locale ending_source = byte_source +
  assumes read_end: "inv s \<Longrightarrow> content s = [] \<Longrightarrow> 0 < n \<Longrightarrow> n \<le> INT_MAX \<Longrightarrow>
      \<exists>s'. BIO_read h (int n) s = (0, [], s') \<and> content s' = [] \<and> inv s'"
begin

lemma read_all_loop_exact:
  assumes "malloc_contract mal" "malloc_total mal" "max_len < 2 ^ 60" "inv s" "length out \<le> len" "len \<le> max_len"
    "len - length out \<le> 2 * kChunkSize" "len < max_len \<Longrightarrow> length out < len"
  shows "\<exists>s'. read_all_loop mal h max_len len out s =
    Some (if length out + length (content s) < max_len then Some (out @ content s) else None, s')"
  using assms(4-8)
proof (induction "length (content s)" arbitrary: s out len rule: less_induct)
  case less
  show ?case
  proof (cases "length out = len")
    case True
    then show ?thesis using less.prems(3,5) by (subst read_all_loop.simps) auto
  next
    case False
    let ?t = "len - length out"
    have t: "0 < ?t" "?t \<le> INT_MAX" using False less.prems(2,4) by (auto simp: kChunkSize_def INT_MAX_def)
    show ?thesis
    proof (cases "content s = []")
      case True
      from read_end [OF less.prems(1) True t] obtain s' where "BIO_read h (int ?t) s = (0, [], s')" by blast
      then show ?thesis using False True less.prems(2,3) by (subst read_all_loop.simps) auto
    next
      case ne: False
      from read_some [OF less.prems(1) ne t] obtain k s' where
        k: "BIO_read h (int ?t) s = (int k, take k (content s), s')" "0 < k" "k \<le> ?t" "k \<le> length (content s)"
          "content s' = drop k (content s)" "inv s'" by blast
      define out' where "out' = out @ take k (content s)"
      have o: "length out' = length out + k" "out' @ content s' = out @ content s"
        "length out' + length (content s') = length out + length (content s)"
        using k(4,5) by (simp_all add: out'_def)
      have m: "length (content s') < length (content s)" using k(2,4,5) by simp
      let ?grow = "len < max_len \<and> len - length out' < kChunkSize div 2"
      let ?len = "if len + kChunkSize > max_len then max_len else len + kChunkSize"
      have w: "(len + kChunkSize) mod SIZE_MOD = len + kChunkSize"
        using less.prems(3) assms(3) by (simp add: SIZE_MOD_def kChunkSize_def)
      have step: "read_all_loop mal h max_len len out s =
          (if ?grow then
             (case OPENSSL_realloc mal (Some (len, out' @ replicate (len - length out') 0)) ?len of
                None \<Rightarrow> Some (None, s')
              | Some new_buf \<Rightarrow> read_all_loop mal h max_len ?len (take (length out') new_buf) s')
           else read_all_loop mal h max_len len out' s')"
      proof -
        have n: "(length out = len) = False" "(int k = 0) = False" "(int k = - 1) = False" "(int k < 0) = False"
          "(len + kChunkSize < kChunkSize) = False"
          using False k(2) by auto
        show ?thesis
          by (subst read_all_loop.simps)
            (simp only: k(1) n w out'_def [symmetric] Let_def prod.case if_False simp_thms)
      qed
      show ?thesis
      proof (cases ?grow)
        case True
        have b: "len \<le> ?len" "?len + 8 < 2 ^ 64" "?len < 2 ^ 61 + 1" "?len \<le> max_len" "len < ?len"
          using True assms(3) by (auto simp: kChunkSize_def)
        obtain nb where nb: "OPENSSL_realloc mal (Some (len, out' @ replicate (len - length out') 0)) ?len = Some nb"
          using malloc_total_realloc [OF assms(2) b(3)] by blast
        have lo: "length out' \<le> len" using k(3) o(1) less.prems(2) by simp
        have "take len nb = out' @ replicate (len - length out') 0"
          using OPENSSL_realloc_grow(3) [OF assms(1) b(2), of "out' @ replicate (len - length out') 0" nb] b(1) nb lo
          by (simp del: if_split)
        then have "take (length out') (take len nb) = out'" by simp
        then have tk: "take (length out') nb = out'" using lo by (simp add: min.absorb1)
        have "?len - length out' \<le> 2 * kChunkSize" using True by (auto simp: kChunkSize_def)
        moreover have "length out' \<le> ?len" "length out' < ?len" using lo b(1,5) by linarith+
        ultimately have "\<exists>s''. read_all_loop mal h max_len ?len out' s' =
            Some (if length out' + length (content s') < max_len then Some (out' @ content s') else None, s'')"
          using less.hyps [OF m k(6), of out' ?len] b(4) by blast
        moreover have "?grow = True" using True by simp
        ultimately show ?thesis by (simp only: step nb tk o(2,3) option.case if_True)
      next
        case grow: False
        have "length out' \<le> len" "len - length out' \<le> 2 * kChunkSize" "len < max_len \<Longrightarrow> length out' < len"
          using grow k(3) o(1) less.prems(2,4) by (auto simp: kChunkSize_def)
        then have "\<exists>s''. read_all_loop mal h max_len len out' s' =
            Some (if length out' + length (content s') < max_len then Some (out' @ content s') else None, s'')"
          using less.hyps [OF m k(6), of out' len] less.prems(3) by blast
        moreover have "?grow = False" using grow by simp
        ultimately show ?thesis by (simp only: step o(2,3) if_False)
      qed
    qed
  qed
qed

lemma read_all_exact:
  assumes "malloc_contract mal" "malloc_total mal" "max_len < 2 ^ 60" "inv s" "length prefix \<le> kChunkSize"
  shows "\<exists>s'. bio_read_all mal h prefix max_len s =
    Some (if length prefix + length (content s) < max_len then Some (prefix @ content s) else None, s')"
proof -
  have w: "(length prefix + kChunkSize) mod SIZE_MOD = length prefix + kChunkSize"
    using assms(5) by (simp add: SIZE_MOD_def kChunkSize_def)
  let ?len = "if length prefix + kChunkSize > max_len then max_len else length prefix + kChunkSize"
  show ?thesis
  proof (cases "?len < length prefix")
    case True
    then show ?thesis by (auto simp: bio_read_all_def w Let_def split: if_splits)
  next
    case False
    have "?len < 2 ^ 61 + 1" using assms(3) by auto
    then obtain b where b: "OPENSSL_malloc mal ?len = Some b" using malloc_total_malloc [OF assms(2)] by blast
    have "length prefix \<le> ?len" "?len \<le> max_len" "?len - length prefix \<le> 2 * kChunkSize" "?len < max_len \<Longrightarrow> length prefix < ?len"
      using False assms(5) by (auto simp: kChunkSize_def split: if_splits)
    from read_all_loop_exact [OF assms(1-4) this] show ?thesis
      unfolding bio_read_all_def w Let_def b using False by simp
  qed
qed

text \<open>The whole input stands for an element of indefinite length, if it is shorter than the limit.\<close>

lemma read_asn1_indefinite:
  assumes "malloc_contract mal" "malloc_total mal" "max_len < 2 ^ 60" "inv s" "content s = tag # 0x80 # rest"
    "tag AND 0x1f \<noteq> 0x1f" "tag AND 0x20 \<noteq> 0"
  shows "\<exists>s'. BIO_read_asn1 mal h max_len s =
    Some (if length (content s) < max_len then Inr (content s) else Inl ASN1_R_NOT_ENOUGH_DATA, s')"
proof -
  from full_some [OF assms(4), of 2] obtain s1 where s1:
    "bio_read_full h 2 s = (False, Some [tag, 0x80], s1)" "inv s1" "content s1 = rest" by (auto simp: assms(5))
  from read_all_exact [OF assms(1-3) s1(2), of "[tag, 0x80]"] obtain s2 where
    "bio_read_all mal h [tag, 0x80] max_len s1 =
      Some (if length (content s) < max_len then Some (content s) else None, s2)"
    by (auto simp: s1(3) assms(5) kChunkSize_def)
  then show ?thesis using assms(6,7) by (simp add: BIO_read_asn1_def s1(1) Let_def)
qed

end

end
