(* ===== verification/BioPair.thy ===== *)
theory BioPair
  imports Bio
begin

text \<open>
  \<^verbatim>\<open>crypto/bio/pair.c\<close>: two BIOs, each with a ring buffer for what is written to it and read from the
  other one. The state is that of both ends; \<open>peer\<close> is a pointer to the other end or NULL. Assertions are
  conditions of the theorems, not branches. The loops that copy to and from the ring have at most two
  rounds, which is shown, not assumed: they are partial functions.

  The abstract view of an end is a queue, \<open>ring\<close>; \<open>pair_step\<close> is the exchange of a message by a
  writer and a reader in any order.
\<close>

section \<open>State\<close>

record bio_bio_st =
  peer :: bool
  closed :: bool
  rlen :: nat
  roffset :: nat
  rsize :: nat
  rbuf :: "u8 list option"
  request :: nat

datatype side = Left | Right

fun other :: "side \<Rightarrow> side" where
  "other Left = Right"
| "other Right = Left"

type_synonym bio_pair = "side \<Rightarrow> bio_bio_st bio"

definition set_end :: "side \<Rightarrow> (bio_bio_st bio \<Rightarrow> bio_bio_st bio) \<Rightarrow> bio_pair \<Rightarrow> bio_pair" where
  "set_end e f p = p(e := f (p e))"

definition set_ptr :: "(bio_bio_st \<Rightarrow> bio_bio_st) \<Rightarrow> bio_bio_st bio \<Rightarrow> bio_bio_st bio" where
  "set_ptr f b = b\<lparr>bio_ptr := f (bio_ptr b)\<rparr>"

definition SIZEOF_bio_bio_st :: nat where "SIZEOF_bio_bio_st = 56"

definition null_bio_st :: bio_bio_st where
  "null_bio_st = \<lparr>peer = False, closed = False, rlen = 0, roffset = 0, rsize = 0, rbuf = None, request = 0\<rparr>"

definition bio_new :: "allocator \<Rightarrow> bio_bio_st bio \<Rightarrow> bio_bio_st bio option" where
  "bio_new mal bio =
     (case OPENSSL_malloc mal SIZEOF_bio_bio_st of
        None \<Rightarrow> None
      | Some _ \<Rightarrow> Some (bio\<lparr>bio_ptr := null_bio_st\<lparr>rsize := 17 * 1024\<rparr>\<rparr>))"

text \<open>One end, when the pair is taken apart.\<close>

definition unpair :: "bio_bio_st bio \<Rightarrow> bio_bio_st bio" where
  "unpair bio = set_ptr (\<lambda>b. b\<lparr>peer := False, rlen := 0, roffset := 0\<rparr>) (bio\<lparr>bio_init := False\<rparr>)"

definition bio_destroy_pair :: "side \<Rightarrow> bio_pair \<Rightarrow> bio_pair" where
  "bio_destroy_pair e p =
     (if \<not> peer (bio_ptr (p e)) then p else set_end e unpair (set_end (other e) unpair p))"

section \<open>Reading and writing\<close>

partial_function (option) read_ring :: "bio_bio_st \<Rightarrow> u8 list \<Rightarrow> nat \<Rightarrow> (u8 list \<times> bio_bio_st) option" where
  "read_ring b m rest =
     (let chunk = (if roffset b + rest \<le> rsize b then rest else rsize b - roffset b);
          out = take chunk (drop (roffset b) m);
          b = b\<lparr>rlen := rlen b - chunk\<rparr>;
          b = (if rlen b \<noteq> 0
               then b\<lparr>roffset := (if roffset b + chunk = rsize b then 0 else roffset b + chunk)\<rparr>
               else b\<lparr>roffset := 0\<rparr>);
          rest = rest - chunk
      in if rest = 0 then Some (out, b)
         else Option.bind (read_ring b m rest) (\<lambda>(out', b). Some (out @ out', b)))"

text \<open>\<open>None\<close> is a call that does not return.\<close>

definition bio_read :: "side \<Rightarrow> int \<Rightarrow> bio_pair \<Rightarrow> (int \<times> u8 list \<times> bio_pair) option" where
  "bio_read e sz0 p =
     (let sz = nat sz0; p = set_end e BIO_clear_retry_flags p in
      if \<not> bio_init (p e) then Some (0, [], p)
      else
        (let p = set_end (other e) (set_ptr (request_update (\<lambda>_. 0))) p;
             peer_b = bio_ptr (p (other e))
         in if sz = 0 then Some (0, [], p)
            else if rlen peer_b = 0 then
              (if closed peer_b then Some (0, [], p)
               else
                 (let p = set_end e BIO_set_retry_read p
                  in Some (-1, [],
                       set_end (other e)
                         (set_ptr (request_update (\<lambda>_. if sz \<le> rsize peer_b then sz else rsize peer_b))) p)))
            else
              (let sz = (if rlen peer_b < sz then rlen peer_b else sz)
               in case read_ring peer_b (the (rbuf peer_b)) sz of
                    None \<Rightarrow> None
                  | Some (out, peer_b) \<Rightarrow> Some (int sz, out, set_end (other e) (set_ptr (\<lambda>_. peer_b)) p))))"

partial_function (option) write_ring :: "bio_bio_st \<Rightarrow> u8 list \<Rightarrow> u8 list \<Rightarrow> (u8 list \<times> bio_bio_st) option" where
  "write_ring b m data =
     (let write_offset = roffset b + rlen b;
          write_offset = (if write_offset \<ge> rsize b then write_offset - rsize b else write_offset);
          chunk = (if write_offset + length data \<le> rsize b then length data else rsize b - write_offset);
          m = take write_offset m @ take chunk data @ drop (write_offset + chunk) m;
          b = b\<lparr>rlen := rlen b + chunk\<rparr>;
          data = drop chunk data
      in if data = [] then Some (m, b) else write_ring b m data)"

definition bio_write :: "side \<Rightarrow> u8 list \<Rightarrow> bio_pair \<Rightarrow> (int \<times> bio_pair) option" where
  "bio_write e data p =
     (let p = set_end e BIO_clear_retry_flags p in
      if \<not> bio_init (p e) \<or> data = [] then Some (0, p)
      else
        (let p = set_end e (set_ptr (request_update (\<lambda>_. 0))) p; b = bio_ptr (p e)
         in if closed b then Some (-1, p)
            else if rlen b = rsize b then Some (-1, set_end e BIO_set_retry_write p)
            else
              (let num = (if length data > rsize b - rlen b then rsize b - rlen b else length data)
               in case write_ring b (the (rbuf b)) (take num data) of
                    None \<Rightarrow> None
                  | Some (m, b) \<Rightarrow> Some (int num, set_end e (set_ptr (\<lambda>_. b\<lparr>rbuf := Some m\<rparr>)) p))))"

section \<open>Making and controlling a pair\<close>

definition alloc_ring :: "allocator \<Rightarrow> nat \<Rightarrow> bio_bio_st \<Rightarrow> bio_bio_st option" where
  "alloc_ring mal writebuf_len b =
     (if rbuf b = None then
        (let b = (if writebuf_len \<noteq> 0 then b\<lparr>rsize := writebuf_len\<rparr> else b)
         in case OPENSSL_malloc mal (rsize b) of
              None \<Rightarrow> None
            | Some m \<Rightarrow> Some (b\<lparr>rbuf := Some m, rlen := 0, roffset := 0\<rparr>))
      else Some b)"

definition connect_end :: "bio_bio_st bio \<Rightarrow> bio_bio_st bio" where
  "connect_end bio = set_ptr (\<lambda>b. b\<lparr>peer := True, closed := False, request := 0\<rparr>) (bio\<lparr>bio_init := True\<rparr>)"

text \<open>The two BIOs given are the ends. When it fails the caller frees both.\<close>

definition bio_make_pair :: "allocator \<Rightarrow> nat \<Rightarrow> nat \<Rightarrow> bio_pair \<Rightarrow> bio_pair option" where
  "bio_make_pair mal writebuf1_len writebuf2_len p =
     (if peer (bio_ptr (p Left)) \<or> peer (bio_ptr (p Right)) then None
      else (case alloc_ring mal writebuf1_len (bio_ptr (p Left)) of
              None \<Rightarrow> None
            | Some b1 \<Rightarrow>
                (case alloc_ring mal writebuf2_len (bio_ptr (p Right)) of
                   None \<Rightarrow> None
                 | Some b2 \<Rightarrow>
                     Some (set_end Left connect_end (set_end Right connect_end
                       (set_end Left (set_ptr (\<lambda>_. b1)) (set_end Right (set_ptr (\<lambda>_. b2)) p)))))))"

definition BIO_new_bio_pair :: "allocator \<Rightarrow> nat \<Rightarrow> nat \<Rightarrow> bio_pair option" where
  "BIO_new_bio_pair mal writebuf1_len writebuf2_len =
     (case (BIO_new mal null_bio_st (bio_new mal), BIO_new mal null_bio_st (bio_new mal)) of
        (Some bio1, Some bio2) \<Rightarrow>
          bio_make_pair mal writebuf1_len writebuf2_len (\<lambda>e. case e of Left \<Rightarrow> bio1 | Right \<Rightarrow> bio2)
      | _ \<Rightarrow> None)"

text \<open>The commands of \<open>bio_ctrl\<close>; \<open>CTRL_EOF\<close> has the BIO that is passed to it.\<close>

datatype pair_cmd = GET_WRITE_BUF_SIZE | GET_WRITE_GUARANTEE | GET_READ_REQUEST | RESET_READ_REQUEST | SHUTDOWN_WR
  | CTRL_GET_CLOSE | CTRL_SET_CLOSE int | CTRL_PENDING | CTRL_WPENDING | CTRL_FLUSH | CTRL_EOF "side option"
  | CTRL_OTHER

definition pair_ctrl :: "side \<Rightarrow> pair_cmd \<Rightarrow> bio_pair \<Rightarrow> int \<times> bio_pair" where
  "pair_ctrl e cmd p =
     (let b = bio_ptr (p e) in
      case cmd of
        GET_WRITE_BUF_SIZE \<Rightarrow> (int (rsize b), p)
      | GET_WRITE_GUARANTEE \<Rightarrow> (if \<not> peer b \<or> closed b then 0 else int (rsize b) - int (rlen b), p)
      | GET_READ_REQUEST \<Rightarrow> (int (request b), p)
      | RESET_READ_REQUEST \<Rightarrow> (1, set_end e (set_ptr (request_update (\<lambda>_. 0))) p)
      | SHUTDOWN_WR \<Rightarrow> (1, set_end e (set_ptr (closed_update (\<lambda>_. True))) p)
      | CTRL_GET_CLOSE \<Rightarrow> (bio_shutdown (p e), p)
      | CTRL_SET_CLOSE num \<Rightarrow> (1, set_end e (bio_shutdown_update (\<lambda>_. num)) p)
      | CTRL_PENDING \<Rightarrow> (if peer b then int (rlen (bio_ptr (p (other e)))) else 0, p)
      | CTRL_WPENDING \<Rightarrow> (if rbuf b \<noteq> None then int (rlen b) else 0, p)
      | CTRL_FLUSH \<Rightarrow> (1, p)
      | CTRL_EOF (Some other_bio) \<Rightarrow>
          (let ob = bio_ptr (p other_bio) in (if rlen ob = 0 \<and> closed ob then 1 else 0, p))
      | CTRL_EOF None \<Rightarrow> (1, p)
      | CTRL_OTHER \<Rightarrow> (0, p))"

text \<open>The methods of one end for the calls of \<open>Bio\<close>.\<close>

definition bio_s_bio :: "side \<Rightarrow> (bio_pair, bio_bio_st) handle" where
  "bio_s_bio e =
     \<lparr>the_bio = (\<lambda>p. p e), map_bio = set_end e, bread = Some (\<lambda>len p. the (bio_read e len p)),
      bwrite = Some (\<lambda>data p. the (bio_write e data p)), bgets = None\<rparr>"

section \<open>The ring\<close>

definition ring_ok :: "bio_bio_st \<Rightarrow> u8 list \<Rightarrow> bool" where
  "ring_ok b m \<longleftrightarrow> length m = rsize b \<and> rlen b \<le> rsize b \<and> roffset b < rsize b"

definition ring :: "bio_bio_st \<Rightarrow> u8 list \<Rightarrow> u8 list" where
  "ring b m = map (\<lambda>i. m ! ((roffset b + i) mod rsize b)) [0..<rlen b]"

lemma length_ring [simp]: "length (ring b m) = rlen b"
  by (simp add: ring_def)

lemma ring_nth: "i < rlen b \<Longrightarrow> ring b m ! i = m ! ((roffset b + i) mod rsize b)"
  by (simp add: ring_def)

text \<open>What is kept besides the ring.\<close>

definition same_end :: "bio_bio_st \<Rightarrow> bio_bio_st \<Rightarrow> bool" where
  "same_end b b' \<longleftrightarrow> peer b' = peer b \<and> closed b' = closed b \<and> rsize b' = rsize b \<and> rbuf b' = rbuf b \<and>
     request b' = request b"

lemma read_chunk:
  assumes "ring_ok b m" "chunk \<le> rlen b" "roffset b + chunk \<le> rsize b"
  shows "take chunk (drop (roffset b) m) = take chunk (ring b m)"
  using assms by (intro nth_equalityI) (auto simp: ring_ok_def ring_nth)

lemma read_rest:
  assumes "ring_ok b m" "chunk \<le> rlen b" "roffset b + chunk \<le> rsize b"
  defines "b1 \<equiv> b\<lparr>rlen := rlen b - chunk\<rparr>"
  defines "b2 \<equiv> if rlen b1 \<noteq> 0
      then b1\<lparr>roffset := (if roffset b1 + chunk = rsize b1 then 0 else roffset b1 + chunk)\<rparr> else b1\<lparr>roffset := 0\<rparr>"
  shows "ring_ok b2 m" "ring b2 m = drop chunk (ring b m)" "rlen b2 = rlen b - chunk" "same_end b b2"
proof -
  show "ring_ok b2 m" "rlen b2 = rlen b - chunk" "same_end b b2"
    using assms(1-3) by (auto simp: b1_def b2_def ring_ok_def same_end_def)
  show "ring b2 m = drop chunk (ring b m)"
  proof (rule nth_equalityI)
    fix i assume i: "i < length (ring b2 m)"
    have "rlen b2 = rlen b - chunk" by (simp add: b2_def b1_def)
    then have "rlen b - chunk \<noteq> 0" "i < rlen b - chunk" using i by simp_all
    moreover from this have "ring b2 m ! i = m ! ((roffset b + chunk + i) mod rsize b)"
      by (subst ring_nth) (auto simp: b1_def b2_def)
    ultimately show "ring b2 m ! i = drop chunk (ring b m) ! i" using assms(2) by (simp add: ring_nth add.assoc)
  qed (simp add: b1_def b2_def)
qed

lemma read_ring_take:
  "ring_ok b m \<Longrightarrow> 0 < rest \<Longrightarrow> rest \<le> rlen b \<Longrightarrow>
    \<exists>b'. read_ring b m rest = Some (take rest (ring b m), b') \<and> ring_ok b' m \<and>
      ring b' m = drop rest (ring b m) \<and> same_end b b'"
proof (induction rest arbitrary: b rule: less_induct)
  case (less rest)
  define chunk where "chunk = (if roffset b + rest \<le> rsize b then rest else rsize b - roffset b)"
  have c: "0 < chunk" "chunk \<le> rest" "chunk \<le> rlen b" "roffset b + chunk \<le> rsize b"
    using less.prems by (auto simp: chunk_def ring_ok_def)
  define b1 where "b1 = b\<lparr>rlen := rlen b - chunk\<rparr>"
  define b2 where "b2 = (if rlen b1 \<noteq> 0
      then b1\<lparr>roffset := (if roffset b1 + chunk = rsize b1 then 0 else roffset b1 + chunk)\<rparr> else b1\<lparr>roffset := 0\<rparr>)"
  note r = read_rest [OF less.prems(1) c(3,4), folded b1_def, folded b2_def]
  have step: "read_ring b m rest = (if rest - chunk = 0 then Some (take chunk (ring b m), b2)
      else Option.bind (read_ring b2 m (rest - chunk)) (\<lambda>(out', c). Some (take chunk (ring b m) @ out', c)))"
    using read_chunk [OF less.prems(1) c(3,4)]
    by (subst read_ring.simps) (simp only: Let_def chunk_def [symmetric] b1_def [symmetric] b2_def [symmetric])
  show ?case
  proof (cases "rest - chunk = 0")
    case True
    then have "chunk = rest" using c(2) by simp
    then show ?thesis using step r by simp
  next
    case False
    then have "rest - chunk < rest" "0 < rest - chunk" "rest - chunk \<le> rlen b2" using c r(3) less.prems(3) by auto
    from less.IH [OF this(1) r(1) this(2,3)] obtain b' where
      b': "read_ring b2 m (rest - chunk) = Some (take (rest - chunk) (ring b2 m), b')" "ring_ok b' m"
      "ring b' m = drop (rest - chunk) (ring b2 m)" "same_end b2 b'" by blast
    have "take chunk (ring b m) @ take (rest - chunk) (drop chunk (ring b m)) = take rest (ring b m)"
      using c(2) take_add [of chunk "rest - chunk" "ring b m"] by simp
    then show ?thesis using step False b' r(2,4) c(2) by (auto simp: same_end_def)
  qed
qed

lemma ring_pos:
  assumes "off < n" "i < (n :: nat)"
  shows "(off + i) mod n = (if off + i < n then off + i else off + i - n)"
  using assms by (simp add: mod_if)

lemma write_chunk:
  assumes "ring_ok b m" "rlen b + chunk \<le> rsize b" "0 < chunk" "chunk \<le> length data"
  defines "w \<equiv> (if roffset b + rlen b \<ge> rsize b then roffset b + rlen b - rsize b else roffset b + rlen b)"
  assumes "w + chunk \<le> rsize b"
  defines "m' \<equiv> take w m @ take chunk data @ drop (w + chunk) m" and "b' \<equiv> b\<lparr>rlen := rlen b + chunk\<rparr>"
  shows "ring_ok b' m'" "ring b' m' = ring b m @ take chunk data"
proof -
  have l: "length m = rsize b" "roffset b < rsize b" using assms(1) by (simp_all add: ring_ok_def)
  have lm: "length m' = rsize b" using l(1) assms(4,6) by (simp add: m'_def)
  show "ring_ok b' m'" using assms(2) l lm by (simp add: ring_ok_def b'_def)
  show "ring b' m' = ring b m @ take chunk data"
  proof (rule nth_equalityI)
    show "length (ring b' m') = length (ring b m @ take chunk data)" using assms(4) by (simp add: b'_def)
    fix i assume "i < length (ring b' m')"
    then have i: "i < rlen b + chunk" by (simp add: b'_def)
    let ?p = "(roffset b + i) mod rsize b"
    have p: "?p = (if roffset b + i < rsize b then roffset b + i else roffset b + i - rsize b)"
      using i assms(2) l(2) by (intro ring_pos) auto
    have e: "ring b' m' ! i = m' ! ?p" using i by (simp add: ring_nth b'_def)
    show "ring b' m' ! i = (ring b m @ take chunk data) ! i"
    proof (cases "i < rlen b")
      case True
      have "?p < w \<or> w + chunk \<le> ?p" using p True assms(2) l(2) unfolding w_def by (auto split: if_splits)
      moreover have "?p < rsize b" using l(2) by (intro mod_less_divisor) auto
      ultimately have "m' ! ?p = m ! ?p" using l(1) assms(4,6) by (auto simp: m'_def nth_append)
      then show ?thesis using True e by (simp add: nth_append ring_nth)
    next
      case False
      have "?p = w + (i - rlen b)" using p False i assms(2,6) l(2) unfolding w_def by (auto split: if_splits)
      moreover have "i - rlen b < chunk" using i False by simp
      ultimately have "m' ! ?p = data ! (i - rlen b)" using l(1) assms(4,6) by (simp add: m'_def nth_append)
      then show ?thesis using False e i by (simp add: nth_append)
    qed
  qed
qed

lemma write_ring_append:
  "ring_ok b m \<Longrightarrow> data \<noteq> [] \<Longrightarrow> rlen b + length data \<le> rsize b \<Longrightarrow>
    \<exists>b' m'. write_ring b m data = Some (m', b') \<and> ring_ok b' m' \<and> ring b' m' = ring b m @ data \<and> same_end b b'"
proof (induction "length data" arbitrary: b m data rule: less_induct)
  case less
  define w where "w = (if roffset b + rlen b \<ge> rsize b then roffset b + rlen b - rsize b else roffset b + rlen b)"
  define chunk where "chunk = (if w + length data \<le> rsize b then length data else rsize b - w)"
  have r: "roffset b < rsize b" "rlen b \<le> rsize b" using less.prems(1) by (simp_all add: ring_ok_def)
  have "0 < length data" using less.prems(2) by simp
  then have w: "w < rsize b" using r less.prems(3) by (auto simp: w_def)
  then have c: "0 < chunk" "chunk \<le> length data" "w + chunk \<le> rsize b" "rlen b + chunk \<le> rsize b"
    using \<open>0 < length data\<close> less.prems(3) by (auto simp: chunk_def)
  let ?m = "take w m @ take chunk data @ drop (w + chunk) m" and ?b = "b\<lparr>rlen := rlen b + chunk\<rparr>"
  have k: "ring_ok ?b ?m" "ring ?b ?m = ring b m @ take chunk data"
    using write_chunk [OF less.prems(1) c(4,1,2)] c(3) by (simp_all add: w_def)
  have step: "write_ring b m data = (if drop chunk data = [] then Some (?m, ?b) else write_ring ?b ?m (drop chunk data))"
    by (subst write_ring.simps) (simp only: Let_def w_def [symmetric] chunk_def [symmetric])
  show ?case
  proof (cases "drop chunk data = []")
    case True
    then have "take chunk data = data" by (metis append_Nil2 append_take_drop_id)
    then show ?thesis using step True k by (auto simp: same_end_def)
  next
    case False
    have "length (drop chunk data) < length data" "rlen ?b + length (drop chunk data) \<le> rsize ?b"
      using c less.prems(3) by auto
    from less.hyps [OF this(1) k(1) False this(2)] obtain b' m' where
      "write_ring ?b ?m (drop chunk data) = Some (m', b')" "ring_ok b' m'"
      "ring b' m' = ring ?b ?m @ drop chunk data" "same_end ?b b'" by blast
    then show ?thesis using step False k(2) by (auto simp: same_end_def)
  qed
qed

section \<open>The pair as two queues\<close>

definition pair_ok :: "bio_pair \<Rightarrow> bool" where
  "pair_ok p \<longleftrightarrow> (\<forall>e. bio_init (p e) \<and> peer (bio_ptr (p e)) \<and>
     (\<exists>m. rbuf (bio_ptr (p e)) = Some m \<and> ring_ok (bio_ptr (p e)) m))"

text \<open>What has been written to an end and not been read at the other one, its limit, and whether the writer
  has closed it.\<close>

record chan =
  queue :: "u8 list"
  capacity :: nat
  shut :: bool

definition view :: "bio_pair \<Rightarrow> side \<Rightarrow> chan" where
  "view p e = (let b = bio_ptr (p e) in \<lparr>queue = ring b (the (rbuf b)), capacity = rsize b, shut = closed b\<rparr>)"

definition chan_write :: "u8 list \<Rightarrow> chan \<Rightarrow> int \<times> chan" where
  "chan_write data c =
     (if shut c \<or> length (queue c) = capacity c then (-1, c)
      else let n = min (length data) (capacity c - length (queue c))
           in (int n, c\<lparr>queue := queue c @ take n data\<rparr>))"

definition chan_read :: "nat \<Rightarrow> chan \<Rightarrow> int \<times> u8 list \<times> chan" where
  "chan_read n c =
     (if queue c = [] then (if shut c then 0 else -1, [], c)
      else let k = min n (length (queue c)) in (int k, take k (queue c), c\<lparr>queue := drop k (queue c)\<rparr>))"

lemma other_neq [simp]: "other e \<noteq> e" "e \<noteq> other e" "other (other e) = e"
  by (cases e; simp)+

lemma set_end_other [simp]: "x \<noteq> e \<Longrightarrow> set_end e f p x = p x"
  by (simp add: set_end_def)

lemma set_end_same [simp]: "set_end e f p e = f (p e)"
  by (simp add: set_end_def)

lemma bio_fields [simp]:
  "bio_ptr (BIO_clear_retry_flags b) = bio_ptr b" "bio_init (BIO_clear_retry_flags b) = bio_init b"
  "bio_ptr (BIO_set_retry_read b) = bio_ptr b" "bio_init (BIO_set_retry_read b) = bio_init b"
  "bio_ptr (BIO_set_retry_write b) = bio_ptr b" "bio_init (BIO_set_retry_write b) = bio_init b"
  "bio_ptr (count_read n b) = bio_ptr b" "bio_init (count_read n b) = bio_init b"
  "bio_ptr (count_write n b) = bio_ptr b" "bio_init (count_write n b) = bio_init b"
  "bio_flags (count_read n b) = bio_flags b" "bio_flags (count_write n b) = bio_flags b"
  "bio_ptr (set_ptr f b) = f (bio_ptr b)" "bio_init (set_ptr f b) = bio_init b" "bio_flags (set_ptr f b) = bio_flags b"
  by (simp_all add: BIO_clear_retry_flags_def BIO_set_retry_read_def BIO_set_retry_write_def count_read_def
      count_write_def set_ptr_def)

lemma flags_retry:
  "\<not> BIO_should_retry (BIO_clear_retry_flags b)" "BIO_should_retry (BIO_set_retry_read b)"
  "BIO_should_retry (BIO_set_retry_write b)" "BIO_should_read (BIO_set_retry_read b)" "BIO_should_write (BIO_set_retry_write b)"
proof -
  have b: "bit (8 :: u32) 3" "bit (1 :: u32) 0" "bit (2 :: u32) 1" by (simp_all add: bit_numeral_rec(1))
  have t: "(w OR (v OR k)) AND k \<noteq> 0" "(w OR (k OR v)) AND k \<noteq> 0" if "bit k n" for w v k :: u32 and n
    using that by (metis (no_types, opaque_lifting) bit_0_eq bit_and_iff bit_or_iff bot_apply bot_bool_def)+
  have f: "bio_flags (BIO_set_retry_read b) = bio_flags b OR (BIO_FLAGS_READ OR BIO_FLAGS_SHOULD_RETRY)"
    "bio_flags (BIO_set_retry_write b) = bio_flags b OR (BIO_FLAGS_WRITE OR BIO_FLAGS_SHOULD_RETRY)"
    by (simp_all add: BIO_set_retry_read_def BIO_set_retry_write_def)
  show "BIO_should_retry (BIO_set_retry_read b)" "BIO_should_retry (BIO_set_retry_write b)"
    "BIO_should_read (BIO_set_retry_read b)" "BIO_should_write (BIO_set_retry_write b)"
    using t(1) [OF b(1)] t(2) [OF b(2)] t(2) [OF b(3)]
    by (simp_all only: f simp_thms BIO_should_retry_def BIO_should_read_def BIO_should_write_def BIO_test_flags_def
        BIO_FLAGS_SHOULD_RETRY_def BIO_FLAGS_READ_def BIO_FLAGS_WRITE_def)
  have "(w AND NOT (v OR k)) AND k = 0" for w v k :: u32
    by (rule bit_word_eqI) (simp add: bit_simps)
  then show "\<not> BIO_should_retry (BIO_clear_retry_flags b)"
    by (simp add: BIO_should_retry_def BIO_test_flags_def BIO_clear_retry_flags_def kRetryFlags_def)
qed

lemma retry_by_flags: "BIO_should_retry b = (bio_flags b AND BIO_FLAGS_SHOULD_RETRY \<noteq> 0)"
  by (simp add: BIO_should_retry_def BIO_test_flags_def)

lemma retry_kept [simp]:
  "BIO_should_retry (count_read n b) = BIO_should_retry b" "BIO_should_retry (count_write n b) = BIO_should_retry b"
  "BIO_should_retry (set_ptr f b) = BIO_should_retry b"
  by (simp_all add: retry_by_flags)

lemma pair_okD:
  assumes "pair_ok p"
  obtains m where "rbuf (bio_ptr (p e)) = Some m" "ring_ok (bio_ptr (p e)) m" "bio_init (p e)" "peer (bio_ptr (p e))"
  using assms by (auto simp: pair_ok_def)

text \<open>A pair in which one end has been replaced.\<close>

lemma pair_ok_upd:
  assumes "pair_ok p" "\<And>x. x \<noteq> e \<Longrightarrow> bio_init (p' x) = bio_init (p x) \<and> (bio_ptr (p' x) = bio_ptr (p x) \<or> bio_ptr (p' x) = (bio_ptr (p x))\<lparr>request := r\<rparr>)"
    and "bio_init (p' e)" "peer (bio_ptr (p' e))" "rbuf (bio_ptr (p' e)) = Some m" "ring_ok (bio_ptr (p' e)) m"
  shows "pair_ok p'"
  unfolding pair_ok_def
proof
  fix x
  show "bio_init (p' x) \<and> peer (bio_ptr (p' x)) \<and> (\<exists>m. rbuf (bio_ptr (p' x)) = Some m \<and> ring_ok (bio_ptr (p' x)) m)"
  proof (cases "x = e")
    case False
    obtain k where "rbuf (bio_ptr (p x)) = Some k" "ring_ok (bio_ptr (p x)) k" "peer (bio_ptr (p x))" "bio_init (p x)"
      by (rule pair_okD [OF assms(1), of x])
    then show ?thesis using assms(2) [OF False] by (auto simp: ring_ok_def)
  qed (use assms(3-6) in auto)
qed


lemma view_upd:
  assumes "\<And>x. x \<noteq> e \<Longrightarrow> bio_ptr (p' x) = bio_ptr (p x) \<or> bio_ptr (p' x) = (bio_ptr (p x))\<lparr>request := r\<rparr>"
  shows "view p' = (view p)(e := view p' e)"
proof
  fix x
  show "view p' x = ((view p)(e := view p' e)) x"
    using assms [of x] by (cases "x = e") (auto simp: view_def Let_def ring_def)
qed

lemma BIO_write_pair:
  assumes "pair_ok p" "data \<noteq> []"
  shows "\<exists>p'. BIO_write (bio_s_bio e) data p = (fst (chan_write data (view p e)), p') \<and> pair_ok p' \<and>
    view p' = (view p)(e := snd (chan_write data (view p e))) \<and>
    (BIO_should_retry (p' e) \<longleftrightarrow> \<not> shut (view p e) \<and> length (queue (view p e)) = capacity (view p e))"
proof -
  obtain m where m: "rbuf (bio_ptr (p e)) = Some m" "ring_ok (bio_ptr (p e)) m" "bio_init (p e)" "peer (bio_ptr (p e))"
    by (rule pair_okD [OF assms(1)])
  let ?b = "bio_ptr (p e)"
  define p1 where "p1 = set_end e (set_ptr (request_update (\<lambda>_. 0))) (set_end e BIO_clear_retry_flags p)"
  define b1 where "b1 = ?b\<lparr>request := 0\<rparr>"
  have p1: "bio_ptr (p1 e) = b1" "bio_init (p1 e)" "\<And>x. x \<noteq> e \<Longrightarrow> p1 x = p x" "\<not> BIO_should_retry (p1 e)"
    using m(3) by (simp_all add: p1_def b1_def flags_retry)
  have b1: "ring_ok b1 m" "ring b1 m = ring ?b m" "rbuf b1 = Some m" "peer b1" "closed b1 = closed ?b"
    "rsize b1 = rsize ?b" "rlen b1 = rlen ?b"
    using m by (simp_all add: b1_def ring_ok_def ring_def)
  have v: "view p e = \<lparr>queue = ring ?b m, capacity = rsize ?b, shut = closed ?b\<rparr>" by (simp add: view_def m(1) Let_def)
  then have vs: "queue (view p e) = ring ?b m" "capacity (view p e) = rsize ?b" "shut (view p e) = closed ?b" by simp_all
  have w: "BIO_write (bio_s_bio e) data p =
      (case the (bio_write e data p) of (ret, s) \<Rightarrow> (ret, if ret > 0 then set_end e (count_write ret) s else s))"
    using m(3) assms(2) by (simp add: BIO_write_def bio_s_bio_def split: prod.split)
  have bw: "bio_write e data p =
      (if closed b1 then Some (-1, p1)
       else if rlen b1 = rsize b1 then Some (-1, set_end e BIO_set_retry_write p1)
       else (let num = (if length data > rsize b1 - rlen b1 then rsize b1 - rlen b1 else length data)
             in case write_ring b1 m (take num data) of
                  None \<Rightarrow> None
                | Some (m, b) \<Rightarrow> Some (int num, set_end e (set_ptr (\<lambda>_. b\<lparr>rbuf := Some m\<rparr>)) p1)))"
    using m(3) assms(2) b1(3) p1(1)
    by (simp add: bio_write_def p1_def [symmetric] Let_def cong: option.case_cong prod.case_cong)
  consider "closed b1" | "\<not> closed b1" "rlen b1 = rsize b1" | "\<not> closed b1" "rlen b1 \<noteq> rsize b1" by blast
  then show ?thesis
  proof cases
    case 1
    have "view p1 e = view p e" by (simp add: view_def Let_def p1(1) b1 m(1))
    then have "view p1 = view p" using view_upd [of e p1 p 0] p1(3) by simp
    moreover have "pair_ok p1" using p1 b1 by (intro pair_ok_upd [OF assms(1), of e p1 0]) auto
    ultimately show ?thesis
      using 1 bw w b1(5) p1(4) by (simp add: chan_write_def vs)
  next
    case 2
    let ?p = "set_end e BIO_set_retry_write p1"
    have "view ?p e = view p e" by (simp add: view_def Let_def p1(1) b1 m(1))
    then have "view ?p = view p" using view_upd [of e ?p p 0] p1(3) by simp
    moreover have "pair_ok ?p" using p1 b1 by (intro pair_ok_upd [OF assms(1), of e ?p 0]) auto
    ultimately show ?thesis
      using 2 bw w b1 by (simp add: chan_write_def flags_retry vs)
  next
    case 3
    let ?n = "min (length data) (rsize b1 - rlen b1)"
    have n: "(if length data > rsize b1 - rlen b1 then rsize b1 - rlen b1 else length data) = ?n" by simp
    have r: "rlen b1 \<le> rsize b1" using b1(1) by (simp add: ring_ok_def)
    have "take ?n data \<noteq> []" "rlen b1 + length (take ?n data) \<le> rsize b1" using 3 r assms(2) by auto
    from write_ring_append [OF b1(1) this] obtain b' m' where b':
      "write_ring b1 m (take ?n data) = Some (m', b')" "ring_ok b' m'" "ring b' m' = ring b1 m @ take ?n data"
      "same_end b1 b'" by blast
    let ?p = "set_end e (count_write (int ?n)) (set_end e (set_ptr (\<lambda>_. b'\<lparr>rbuf := Some m'\<rparr>)) p1)"
    have "0 < ?n" using 3 r assms(2) by auto
    then have "BIO_write (bio_s_bio e) data p = (int ?n, ?p)"
      using 3 by (simp add: w bw n b'(1) Let_def)
    moreover have "pair_ok ?p"
      using b'(2,4) b1 p1 by (intro pair_ok_upd [OF assms(1), of e ?p 0 m']) (auto simp: same_end_def ring_ok_def)
    moreover have "view ?p e = snd (chan_write data (view p e))"
      using 3 b1 b'(3,4) by (simp add: v chan_write_def) (simp add: view_def Let_def same_end_def ring_def)
    moreover have "view ?p = (view p)(e := view ?p e)" using p1(3) by (intro view_upd [of e ?p p 0]) simp
    ultimately show ?thesis using 3 v b1 p1(4) by (simp add: chan_write_def Let_def)
  qed
qed


lemma BIO_read_pair:
  assumes "pair_ok p" "0 < n"
  shows "\<exists>p'. BIO_read (bio_s_bio e) (int n) p =
      (fst (chan_read n (view p (other e))), fst (snd (chan_read n (view p (other e)))), p') \<and> pair_ok p' \<and>
    view p' = (view p)(other e := snd (snd (chan_read n (view p (other e))))) \<and>
    (BIO_should_retry (p' e) \<longleftrightarrow> queue (view p (other e)) = [] \<and> \<not> shut (view p (other e)))"
proof -
  let ?o = "other e" let ?b = "bio_ptr (p ?o)"
  obtain m where m: "rbuf ?b = Some m" "ring_ok ?b m" "bio_init (p ?o)" "peer ?b"
    by (rule pair_okD [OF assms(1)])
  have i: "bio_init (p e)" using assms(1) by (simp add: pair_ok_def)
  define p1 where "p1 = set_end ?o (set_ptr (request_update (\<lambda>_. 0))) (set_end e BIO_clear_retry_flags p)"
  define b1 where "b1 = ?b\<lparr>request := 0\<rparr>"
  have p1: "bio_ptr (p1 ?o) = b1" "bio_init (p1 ?o)" "bio_init (p1 e)" "bio_ptr (p1 e) = bio_ptr (p e)"
    "\<not> BIO_should_retry (p1 e)"
    using m(3) i by (simp_all add: p1_def b1_def flags_retry)
  have oe: "x \<noteq> ?o \<Longrightarrow> x = e" for x by (cases x; cases e) simp_all
  have b1: "ring_ok b1 m" "ring b1 m = ring ?b m" "rbuf b1 = Some m" "peer b1" "closed b1 = closed ?b"
    "rsize b1 = rsize ?b" "rlen b1 = rlen ?b"
    using m by (simp_all add: b1_def ring_ok_def ring_def)
  have v: "view p ?o = \<lparr>queue = ring ?b m, capacity = rsize ?b, shut = closed ?b\<rparr>" by (simp add: view_def m(1) Let_def)
  then have vs: "queue (view p ?o) = ring ?b m" "capacity (view p ?o) = rsize ?b" "shut (view p ?o) = closed ?b" by simp_all
  have q: "ring ?b m = [] \<longleftrightarrow> rlen ?b = 0" by (metis length_0_conv length_ring)
  have w: "BIO_read (bio_s_bio e) (int n) p =
      (case the (bio_read e (int n) p) of (ret, out, s) \<Rightarrow> (ret, out, if ret > 0 then set_end e (count_read ret) s else s))"
    using i assms(2) by (simp add: BIO_read_def bio_s_bio_def split: prod.split)
  define p2 where "p2 = set_end ?o (set_ptr (request_update (\<lambda>_. if n \<le> rsize b1 then n else rsize b1)))
    (set_end e BIO_set_retry_read p1)"
  have br: "bio_read e (int n) p =
      (if rlen b1 = 0 then (if closed b1 then Some (0, [], p1) else Some (-1, [], p2))
       else (let sz = (if rlen b1 < n then rlen b1 else n)
             in case read_ring b1 m sz of
                  None \<Rightarrow> None
                | Some (out, b) \<Rightarrow> Some (int sz, out, set_end ?o (set_ptr (\<lambda>_. b)) p1)))"
    using i assms(2) b1(3) p1(1)
    by (simp add: bio_read_def p1_def [symmetric] p2_def Let_def cong: option.case_cong prod.case_cong)
  consider "rlen b1 = 0" "closed b1" | "rlen b1 = 0" "\<not> closed b1" | "rlen b1 \<noteq> 0" by blast
  then show ?thesis
  proof cases
    case 1
    have "view p1 ?o = view p ?o" by (simp add: view_def Let_def p1(1) b1 m(1))
    then have "view p1 = view p" using view_upd [of ?o p1 p 0] p1(4) oe by (metis fun_upd_triv)
    moreover have "pair_ok p1"
      using p1 b1 i by (intro pair_ok_upd [OF assms(1), of ?o p1 0]) (auto dest: oe)
    ultimately show ?thesis
      using 1 br w b1 p1(5) q by (simp add: chan_read_def vs)
  next
    case 2
    have p2: "bio_ptr (p2 ?o) = b1\<lparr>request := min n (rsize b1)\<rparr>" "bio_init (p2 ?o)" "bio_init (p2 e)"
      "bio_ptr (p2 e) = bio_ptr (p e)" "BIO_should_retry (p2 e)"
      using p1 by (simp_all add: p2_def min_def flags_retry)
    have "view p2 ?o = view p ?o" by (simp add: view_def Let_def p2(1) b1 m(1)) (simp add: b1_def ring_def)
    then have "view p2 = view p" using view_upd [of ?o p2 p 0] p2(4) oe by (metis fun_upd_triv)
    moreover have "pair_ok p2"
      using p2 b1 i by (intro pair_ok_upd [OF assms(1), of ?o p2 0]) (auto dest: oe simp: ring_ok_def)
    ultimately show ?thesis
      using 2 br w b1 p2(5) q by (simp add: chan_read_def vs)
  next
    case 3
    let ?k = "min n (rlen b1)"
    have k: "(if rlen b1 < n then rlen b1 else n) = ?k" by simp
    have "0 < ?k" "?k \<le> rlen b1" using 3 assms(2) by auto
    from read_ring_take [OF b1(1) this] obtain b' where b':
      "read_ring b1 m ?k = Some (take ?k (ring b1 m), b')" "ring_ok b' m" "ring b' m = drop ?k (ring b1 m)"
      "same_end b1 b'" by blast
    let ?p = "set_end e (count_read (int ?k)) (set_end ?o (set_ptr (\<lambda>_. b')) p1)"
    have "BIO_read (bio_s_bio e) (int n) p = (int ?k, take ?k (ring b1 m), ?p)"
      using 3 \<open>0 < ?k\<close> by (simp add: w br k b'(1) Let_def)
    moreover have "pair_ok ?p"
      using b'(2,4) b1 p1 i by (intro pair_ok_upd [OF assms(1), of ?o ?p 0 m]) (auto simp: same_end_def dest: oe)
    moreover have "view ?p ?o = snd (snd (chan_read n (view p ?o)))"
      using 3 b1 b'(3,4) q by (simp add: v chan_read_def) (simp add: view_def Let_def same_end_def m(1))
    moreover have "view ?p = (view p)(?o := view ?p ?o)" using p1(4) by (intro view_upd [of ?o ?p p 0]) (auto dest: oe)
    ultimately show ?thesis using 3 b1 p1(5) q by (simp add: chan_read_def Let_def vs)
  qed
qed

text \<open>\<open>BIO_write_all\<close> writes all that fits, and succeeds if that is all.\<close>

lemma BIO_write_all_pair:
  "pair_ok p \<Longrightarrow> \<not> shut (view p e) \<Longrightarrow>
    \<exists>p'. BIO_write_all (bio_s_bio e) data p = (length data \<le> capacity (view p e) - length (queue (view p e)), p') \<and> pair_ok p' \<and>
      view p' = (view p)(e := (view p e)\<lparr>queue := queue (view p e) @
        take (capacity (view p e) - length (queue (view p e))) data\<rparr>)"
proof (induction "length data" arbitrary: data p rule: less_induct)
  case less
  let ?c = "view p e" let ?room = "capacity ?c - length (queue ?c)"
  show ?case
  proof (cases "data = []")
    case True
    then show ?thesis using less.prems by (auto simp: BIO_write_all.simps fun_eq_iff)
  next
    case False
    let ?d = "take INT_MAX data"
    have d: "?d \<noteq> []" using False by (simp add: INT_MAX_def)
    from BIO_write_pair [OF less.prems(1) d, of e] obtain p1 where
      w: "BIO_write (bio_s_bio e) ?d p = (fst (chan_write ?d ?c), p1)" "pair_ok p1"
        "view p1 = (view p)(e := snd (chan_write ?d ?c))" by blast
    have le: "length (queue ?c) \<le> capacity ?c"
      using pair_okD [OF less.prems(1), of e] by (auto simp: view_def Let_def ring_ok_def)
    show ?thesis
    proof (cases "?room = 0")
      case True
      then have "chan_write ?d ?c = (-1, ?c)" using le by (simp add: chan_write_def)
      then show ?thesis using False True w by (subst BIO_write_all.simps) (auto simp: fun_eq_iff)
    next
      case room: False
      define n where "n = min (length ?d) ?room"
      have c: "chan_write ?d ?c = (int n, ?c\<lparr>queue := queue ?c @ take n ?d\<rparr>)"
        using room less.prems(2) by (simp add: chan_write_def n_def Let_def)
      have n: "0 < n" "n \<le> length data" "n \<le> ?room" "take n ?d = take n data"
        using room d by (auto simp: n_def min_def)
      have v1: "view p1 e = ?c\<lparr>queue := queue ?c @ take n data\<rparr>" using w(3) c n(4) by simp
      have "length (drop n data) < length data" using n(1) False by simp
      from less.hyps [OF this w(2)] less.prems(2) v1 obtain p2 where
        p2: "BIO_write_all (bio_s_bio e) (drop n data) p1 = (length data - n \<le> ?room - n, p2)" "pair_ok p2"
          "view p2 = (view p1)(e := ?c\<lparr>queue := queue ?c @ take n data @ take (?room - n) (drop n data)\<rparr>)"
        using n(2,3) by (auto simp: diff_diff_left add.commute)
      have "take n data @ take (?room - n) (drop n data) = take ?room data"
        using take_add [of n "?room - n" data] le_add_diff_inverse [OF n(3)] by (simp only:)
      moreover have "(length data - n \<le> ?room - n) = (length data \<le> ?room)" using n(2,3) by linarith
      moreover have "BIO_write_all (bio_s_bio e) data p = BIO_write_all (bio_s_bio e) (drop n data) p1"
        using False n(1) by (subst BIO_write_all.simps) (simp add: w(1) c)
      ultimately show ?thesis using p2 w(3) by (auto simp: fun_eq_iff)
    qed
  qed
qed

text \<open>Each end is a source of what the other one has written.\<close>

interpretation pair_end: byte_source "bio_s_bio e" pair_ok "\<lambda>p. queue (view p (other e))" for e
proof
  fix p :: bio_pair and n :: nat
  let ?c = "view p (other e)"
  assume p: "pair_ok p" "0 < n"
  from BIO_read_pair [OF this, of e] obtain p' where
    r: "BIO_read (bio_s_bio e) (int n) p = (fst (chan_read n ?c), fst (snd (chan_read n ?c)), p')" and
    p': "pair_ok p'" "view p' (other e) = snd (snd (chan_read n ?c))" by auto
  show "\<exists>k s'. BIO_read (bio_s_bio e) (int n) p = (int k, take k (queue ?c), s') \<and> 0 < k \<and> k \<le> n \<and> k \<le> length (queue ?c) \<and>
      queue (view s' (other e)) = drop k (queue ?c) \<and> pair_ok s'" if "queue ?c \<noteq> []"
    using that r p' p(2) by (intro exI [of _ "min n (length (queue ?c))"] exI [of _ p']) (simp add: chan_read_def Let_def)
  show "\<exists>x s'. BIO_read (bio_s_bio e) (int n) p = (x, [], s') \<and> x \<le> 0 \<and> queue (view s' (other e)) = [] \<and> pair_ok s'"
    if "queue ?c = []"
    using that r p' by (simp add: chan_read_def split: if_splits)
qed

section \<open>New pairs and commands\<close>

lemma alloc_ring_new:
  assumes "malloc_contract mal" "alloc_ring mal w b = Some b'" "rbuf b = None" "rsize b = 17 * 1024" "w + 8 < 2 ^ 64"
  shows "\<exists>m. rbuf b' = Some m \<and> ring_ok b' m \<and> ring b' m = [] \<and> rsize b' = (if w = 0 then 17 * 1024 else w) \<and>
    closed b' = closed b"
proof -
  let ?n = "if w = 0 then 17 * 1024 else w"
  obtain m where m: "OPENSSL_malloc mal ?n = Some m"
    "b' = (if w \<noteq> 0 then b\<lparr>rsize := w\<rparr> else b)\<lparr>rbuf := Some m, rlen := 0, roffset := 0\<rparr>"
    using assms(2-4) by (auto simp: alloc_ring_def Let_def split: option.splits if_splits)
  have "length m = ?n" using OPENSSL_malloc_length(1) [OF assms(1) _ m(1)] assms(5) by (auto split: if_splits)
  then show ?thesis using m(2) assms(4) by (auto simp: ring_ok_def ring_def)
qed

lemma alloc_ring_total:
  "malloc_total mal \<Longrightarrow> w < 2 ^ 61 \<Longrightarrow> rsize b < 2 ^ 61 \<Longrightarrow> alloc_ring mal w b \<noteq> None"
  using malloc_total_malloc [of mal w] malloc_total_malloc [of mal "rsize b"]
  by (auto simp: alloc_ring_def Let_def split: option.splits)

lemma BIO_new_bio_pair_total:
  assumes "malloc_total mal" "w1 < 2 ^ 61" "w2 < 2 ^ 61"
  shows "\<exists>p. BIO_new_bio_pair mal w1 w2 = Some p"
proof -
  obtain b where b: "BIO_new mal null_bio_st (bio_new mal) = Some b" "rsize (bio_ptr b) = 17 * 1024" "\<not> peer (bio_ptr b)"
    using malloc_total_malloc [OF assms(1), of SIZEOF_BIO] malloc_total_malloc [OF assms(1), of SIZEOF_bio_bio_st]
    by (auto simp: BIO_new_def bio_new_def null_bio_st_def SIZEOF_BIO_def SIZEOF_bio_bio_st_def)
  have r: "rsize (bio_ptr b) < 2 ^ 61" using b(2) by simp
  from alloc_ring_total [OF assms(1,2) r] alloc_ring_total [OF assms(1,3) r] show ?thesis
    using b(1,3) by (auto simp: BIO_new_bio_pair_def bio_make_pair_def)
qed

lemma BIO_new_bio_pair_queues:
  assumes "malloc_contract mal" "BIO_new_bio_pair mal w1 w2 = Some p" "w1 + 8 < 2 ^ 64" "w2 + 8 < 2 ^ 64"
  shows "pair_ok p" "view p e = \<lparr>queue = [], capacity = (case (case e of Left \<Rightarrow> w1 | Right \<Rightarrow> w2) of 0 \<Rightarrow> 17 * 1024 | Suc n \<Rightarrow> Suc n),
    shut = False\<rparr>"
proof -
  obtain b where b: "BIO_new mal null_bio_st (bio_new mal) = Some b"
    using assms(2) by (auto simp: BIO_new_bio_pair_def split: option.splits)
  then have n: "rbuf (bio_ptr b) = None" "rsize (bio_ptr b) = 17 * 1024"
    by (auto simp: BIO_new_def bio_new_def null_bio_st_def split: option.splits)
  from assms(2) b obtain b1 b2 where a: "alloc_ring mal w1 (bio_ptr b) = Some b1" "alloc_ring mal w2 (bio_ptr b) = Some b2"
    and p: "p = set_end Left connect_end (set_end Right connect_end
      (set_end Left (set_ptr (\<lambda>_. b1)) (set_end Right (set_ptr (\<lambda>_. b2)) (\<lambda>e. case e of Left \<Rightarrow> b | Right \<Rightarrow> b))))"
    by (auto simp: BIO_new_bio_pair_def bio_make_pair_def split: option.splits if_splits)
  obtain m1 where m1: "rbuf b1 = Some m1" "ring_ok b1 m1" "ring b1 m1 = []" "rsize b1 = (if w1 = 0 then 17 * 1024 else w1)"
    using alloc_ring_new [OF assms(1) a(1) n assms(3)] by blast
  obtain m2 where m2: "rbuf b2 = Some m2" "ring_ok b2 m2" "ring b2 m2 = []" "rsize b2 = (if w2 = 0 then 17 * 1024 else w2)"
    using alloc_ring_new [OF assms(1) a(2) n assms(4)] by blast
  have e: "bio_ptr (p Left) = b1\<lparr>peer := True, closed := False, request := 0\<rparr>" "bio_init (p Left)"
    "bio_ptr (p Right) = b2\<lparr>peer := True, closed := False, request := 0\<rparr>" "bio_init (p Right)"
    by (simp_all add: p connect_end_def set_ptr_def)
  show "pair_ok p" unfolding pair_ok_def
  proof
    fix x
    show "bio_init (p x) \<and> peer (bio_ptr (p x)) \<and> (\<exists>m. rbuf (bio_ptr (p x)) = Some m \<and> ring_ok (bio_ptr (p x)) m)"
      using e m1(1,2) m2(1,2) by (cases x) (auto simp: ring_ok_def)
  qed
  show "view p e = \<lparr>queue = [], capacity = (case (case e of Left \<Rightarrow> w1 | Right \<Rightarrow> w2) of 0 \<Rightarrow> 17 * 1024 | Suc n \<Rightarrow> Suc n),
    shut = False\<rparr>"
    using e m1 m2 by (cases e) (auto simp: view_def Let_def ring_def split: nat.splits)
qed

lemma pair_ctrl_queues:
  assumes "pair_ok p"
  shows "pair_ctrl e CTRL_PENDING p = (int (length (queue (view p (other e)))), p)"
    "pair_ctrl e GET_WRITE_GUARANTEE p =
      (if shut (view p e) then 0 else int (capacity (view p e)) - int (length (queue (view p e))), p)"
    "fst (pair_ctrl e SHUTDOWN_WR p) = 1" "pair_ok (snd (pair_ctrl e SHUTDOWN_WR p))"
    "view (snd (pair_ctrl e SHUTDOWN_WR p)) = (view p)(e := (view p e)\<lparr>shut := True\<rparr>)"
proof -
  have pe: "peer (bio_ptr (p x))" for x using assms by (simp add: pair_ok_def)
  show "pair_ctrl e CTRL_PENDING p = (int (length (queue (view p (other e)))), p)"
    "pair_ctrl e GET_WRITE_GUARANTEE p =
      (if shut (view p e) then 0 else int (capacity (view p e)) - int (length (queue (view p e))), p)"
    "fst (pair_ctrl e SHUTDOWN_WR p) = 1"
    by (simp_all add: pair_ctrl_def Let_def pe view_def)
  let ?p = "set_end e (set_ptr (closed_update (\<lambda>_. True))) p"
  have p: "snd (pair_ctrl e SHUTDOWN_WR p) = ?p" by (simp add: pair_ctrl_def Let_def)
  obtain m where m: "rbuf (bio_ptr (p e)) = Some m" "ring_ok (bio_ptr (p e)) m" "bio_init (p e)" "peer (bio_ptr (p e))"
    by (rule pair_okD [OF assms])
  show "pair_ok (snd (pair_ctrl e SHUTDOWN_WR p))"
    unfolding p using m by (intro pair_ok_upd [OF assms, of e ?p 0]) (auto simp: ring_ok_def)
  show "view (snd (pair_ctrl e SHUTDOWN_WR p)) = (view p)(e := (view p e)\<lparr>shut := True\<rparr>)"
    unfolding p using view_upd [of e ?p p 0] by (simp add: view_def Let_def ring_def)
qed

section \<open>The transfer of a message\<close>

text \<open>A writer at \<open>e\<close> with the data that it still has to write, and a reader at the other end with what it
  has got. Either makes a step when a call does something, in any order and with any sizes.\<close>

inductive pair_step :: "side \<Rightarrow> bio_pair \<times> u8 list \<times> u8 list \<Rightarrow> bio_pair \<times> u8 list \<times> u8 list \<Rightarrow> bool" for e where
  send: "BIO_write (bio_s_bio e) (take j data) p = (n, p') \<Longrightarrow> 0 < n \<Longrightarrow>
    pair_step e (p, data, got) (p', drop (nat n) data, got)"
| recv: "BIO_read (bio_s_bio (other e)) (int k) p = (n, out, p') \<Longrightarrow> 0 < k \<Longrightarrow> 0 < n \<Longrightarrow>
    pair_step e (p, data, got) (p', data, got @ out)"

inductive_cases pair_stepE: "pair_step e (p, data, got) t"

definition transfer :: "side \<Rightarrow> u8 list \<Rightarrow> bio_pair \<times> u8 list \<times> u8 list \<Rightarrow> bool" where
  "transfer e msg t \<longleftrightarrow>
     (case t of (p, data, got) \<Rightarrow>
        pair_ok p \<and> \<not> shut (view p e) \<and> 0 < capacity (view p e) \<and> got @ queue (view p e) @ data = msg)"

fun transfer_left :: "side \<Rightarrow> bio_pair \<times> u8 list \<times> u8 list \<Rightarrow> nat" where
  "transfer_left e (p, data, got) = 2 * length data + length (queue (view p e))"

lemma BIO_write_nothing: "BIO_write h [] s = (n, s') \<Longrightarrow> n \<le> 0"
  by (auto simp: BIO_write_def split: option.splits if_splits)

lemma transfer_step:
  assumes "transfer e msg t" "pair_step e t t'"
  shows "transfer e msg t'" "transfer_left e t' < transfer_left e t"
proof -
  obtain p data got where t: "t = (p, data, got)" by (cases t)
  have i: "pair_ok p" "\<not> shut (view p e)" "0 < capacity (view p e)" "got @ queue (view p e) @ data = msg"
    using assms(1) by (simp_all add: transfer_def t)
  let ?q = "queue (view p e)"
  from assms(2) [unfolded t] have "transfer e msg t' \<and> transfer_left e t' < transfer_left e t"
  proof (rule pair_stepE)
    fix j n p' assume s: "t' = (p', drop (nat n) data, got)" "BIO_write (bio_s_bio e) (take j data) p = (n, p')" "0 < n"
    then have "take j data \<noteq> []" using BIO_write_nothing by force
    from BIO_write_pair [OF i(1) this, of e] s(2) have
      w: "n = fst (chan_write (take j data) (view p e))" "pair_ok p'"
      "view p' = (view p)(e := snd (chan_write (take j data) (view p e)))" by auto
    have nf: "length ?q \<noteq> capacity (view p e)" using w(1) s(3) by (auto simp: chan_write_def)
    define k where "k = min (length (take j data)) (capacity (view p e) - length ?q)"
    have c: "chan_write (take j data) (view p e) = (int k, (view p e)\<lparr>queue := ?q @ take k (take j data)\<rparr>)"
      using i(2) nf by (simp add: chan_write_def k_def Let_def)
    have k: "nat n = k" "k \<le> j" "k \<le> length data" "0 < k" using w(1) c s(3) by (auto simp: k_def)
    have "take k (take j data) = take k data" using k(2) by (simp add: min_def)
    then have v: "view p' e = (view p e)\<lparr>queue := ?q @ take k data\<rparr>" using w(3) c by simp
    show ?thesis using w(2) v i k by (simp add: transfer_def t s(1))
  next
    fix k n out p' assume s: "t' = (p', data, got @ out)" "BIO_read (bio_s_bio (other e)) (int k) p = (n, out, p')"
      "0 < k" "0 < n"
    from BIO_read_pair [OF i(1) s(3), of "other e"] s(2) have
      r: "n = fst (chan_read k (view p e))" "out = fst (snd (chan_read k (view p e)))" "pair_ok p'"
      "view p' = (view p)(e := snd (snd (chan_read k (view p e))))" by auto
    have ne: "?q \<noteq> []" using r(1) s(4) by (auto simp: chan_read_def split: if_splits)
    then have "0 < min k (length ?q)" using s(3) by simp
    then show ?thesis using r i ne by (auto simp: transfer_def t s(1) chan_read_def Let_def min_def)
  qed
  then show "transfer e msg t'" "transfer_left e t' < transfer_left e t" by simp_all
qed

lemma transfer_stuck:
  assumes "transfer e msg (p, data, got)" "\<And>t. \<not> pair_step e (p, data, got) t"
  shows "got = msg \<and> data = [] \<and> queue (view p e) = []"
proof -
  have i: "pair_ok p" "\<not> shut (view p e)" "0 < capacity (view p e)" "got @ queue (view p e) @ data = msg"
    using assms(1) by (simp_all add: transfer_def)
  have q: "queue (view p e) = []"
  proof (rule ccontr)
    assume ne: "queue (view p e) \<noteq> []"
    from BIO_read_pair [OF i(1), of 1 "other e"] obtain p' where
      r: "BIO_read (bio_s_bio (other e)) (int 1) p = (fst (chan_read 1 (view p e)), fst (snd (chan_read 1 (view p e))), p')"
      by auto
    have "0 < fst (chan_read 1 (view p e))" using ne by (simp add: chan_read_def Let_def Suc_le_eq)
    from recv [OF r zero_less_one this] assms(2) show False by blast
  qed
  have "data = []"
  proof (rule ccontr)
    assume ne: "data \<noteq> []"
    from BIO_write_pair [OF i(1) ne, of e] obtain p' where
      w: "BIO_write (bio_s_bio e) (take (length data) data) p = (fst (chan_write data (view p e)), p')" by auto
    have "0 < fst (chan_write data (view p e))" using ne q i(2,3) by (simp add: chan_write_def Let_def)
    from send [OF w this] assms(2) show False by blast
  qed
  with q i(4) show ?thesis by simp
qed

lemma transfer_run:
  "(pair_step e ^^ k) t t' \<Longrightarrow> transfer e msg t \<Longrightarrow> transfer e msg t' \<and> k + transfer_left e t' \<le> transfer_left e t"
proof (induction k arbitrary: t')
  case (Suc k)
  then obtain u where u: "(pair_step e ^^ k) t u" "pair_step e u t'" by auto
  with Suc.IH Suc.prems(2) have "transfer e msg u" "k + transfer_left e u \<le> transfer_left e t" by auto
  with transfer_step [OF this(1) u(2)] show ?case by simp
qed simp

end
