(* ===== verification/Buf.thy ===== *)
theory Buf
  imports Mem
begin

text \<open>
  \<^verbatim>\<open>crypto/buf/buf.c\<close>: the growable buffer \<open>BUF_MEM\<close>. The record has the source's
  fields; \<open>bdata\<close> is the allocated block, of which the first \<open>blength\<close> bytes are in use.
  \<open>data\<close> is NULL exactly when \<open>max\<close> is 0: every block the code allocates has at least
  four bytes.
\<close>

record BUF_MEM =
  blength :: nat
  bdata :: "u8 list"
  bmax :: nat

definition BUF_MEM_new :: "allocator \<Rightarrow> BUF_MEM option" where
  "BUF_MEM_new mal =
     (case OPENSSL_malloc mal 24 of
        None \<Rightarrow> None
      | Some _ \<Rightarrow> Some \<lparr>blength = 0, bdata = [], bmax = 0\<rparr>)"

text \<open>The blocks handed to \<open>free\<close>: the data and the structure itself (\<open>self\<close>).\<close>

definition BUF_MEM_free :: "mblock \<Rightarrow> BUF_MEM option \<Rightarrow> u8 list option list" where
  "BUF_MEM_free self buf =
     (case buf of
        None \<Rightarrow> []
      | Some b \<Rightarrow>
          [OPENSSL_free (if bmax b = 0 then None else Some (bmax b, bdata b)),
           OPENSSL_free (Some self)])"

definition BUF_MEM_reserve :: "allocator \<Rightarrow> BUF_MEM \<Rightarrow> nat \<Rightarrow> bool \<times> BUF_MEM" where
  "BUF_MEM_reserve mal buf cap =
     (if bmax buf \<ge> cap then (True, buf)
      else
        let n = (cap + 3) mod SIZE_MOD
        in if n < cap then (False, buf)
           else
             let n = n div 3; alloc_size = n * 4 mod SIZE_MOD
             in if alloc_size div 4 \<noteq> n then (False, buf)
                else (case OPENSSL_realloc mal (if bmax buf = 0 then None else Some (bmax buf, bdata buf))
                          alloc_size of
                        None \<Rightarrow> (False, buf)
                      | Some new_buf \<Rightarrow> (True, buf\<lparr>bdata := new_buf, bmax := alloc_size\<rparr>)))"

definition BUF_MEM_grow :: "allocator \<Rightarrow> BUF_MEM \<Rightarrow> nat \<Rightarrow> nat \<times> BUF_MEM" where
  "BUF_MEM_grow mal buf len =
     (case BUF_MEM_reserve mal buf len of
        (False, buf) \<Rightarrow> (0, buf)
      | (True, buf) \<Rightarrow>
          let buf = (if blength buf < len
                     then buf\<lparr>bdata := take (blength buf) (bdata buf)
                                 @ replicate (len - blength buf) 0 @ drop len (bdata buf)\<rparr>
                     else buf)
          in (len, buf\<lparr>blength := len\<rparr>))"

definition BUF_MEM_grow_clean :: "allocator \<Rightarrow> BUF_MEM \<Rightarrow> nat \<Rightarrow> nat \<times> BUF_MEM" where
  "BUF_MEM_grow_clean mal buf len = BUF_MEM_grow mal buf len"

definition BUF_MEM_append :: "allocator \<Rightarrow> BUF_MEM \<Rightarrow> u8 list \<Rightarrow> bool \<times> BUF_MEM" where
  "BUF_MEM_append mal buf inp =
     (if length inp = 0 then (True, buf)
      else
        let new_len = (blength buf + length inp) mod SIZE_MOD
        in if new_len < length inp then (False, buf)
           else (case BUF_MEM_reserve mal buf new_len of
                   (False, buf) \<Rightarrow> (False, buf)
                 | (True, buf) \<Rightarrow>
                     (True, buf\<lparr>bdata := take (blength buf) (bdata buf) @ inp
                                  @ drop (blength buf + length inp) (bdata buf),
                                blength := new_len\<rparr>)))"

definition BUF_strdup :: "allocator \<Rightarrow> u8 list option \<Rightarrow> u8 list option" where
  "BUF_strdup mal str = OPENSSL_strdup mal str"

definition BUF_strnlen :: "u8 list \<Rightarrow> nat \<Rightarrow> nat option" where
  "BUF_strnlen str max_len = OPENSSL_strnlen str max_len"

definition BUF_strndup :: "allocator \<Rightarrow> u8 list option \<Rightarrow> nat \<Rightarrow> u8 list option" where
  "BUF_strndup mal str n = OPENSSL_strndup mal str n"

definition BUF_strlcpy :: "u8 list \<Rightarrow> u8 list \<Rightarrow> nat \<Rightarrow> (u8 list \<times> nat) option" where
  "BUF_strlcpy dst src dst_size = OPENSSL_strlcpy dst src dst_size"

definition BUF_strlcat :: "u8 list \<Rightarrow> u8 list \<Rightarrow> nat \<Rightarrow> (u8 list \<times> nat) option" where
  "BUF_strlcat dst src dst_size = OPENSSL_strlcat dst src dst_size"

definition BUF_memdup :: "allocator \<Rightarrow> u8 list \<Rightarrow> u8 list option" where
  "BUF_memdup mal data = OPENSSL_memdup mal data"

section \<open>Invariant and contents\<close>

definition buf_inv :: "BUF_MEM \<Rightarrow> bool" where
  "buf_inv b \<longleftrightarrow> blength b \<le> bmax b \<and> length (bdata b) = bmax b \<and> bmax b < 2 ^ 63"

text \<open>The abstract value: the bytes in use.\<close>

definition buf_bytes :: "BUF_MEM \<Rightarrow> u8 list" where
  "buf_bytes b = take (blength b) (bdata b)"

lemma BUF_MEM_new_inv: "BUF_MEM_new mal = Some b \<Longrightarrow> buf_inv b \<and> buf_bytes b = []"
  by (auto simp: BUF_MEM_new_def buf_inv_def buf_bytes_def split: option.splits)

lemma BUF_MEM_reserve_True:
  assumes "malloc_contract mal" "buf_inv b" "cap < 2 ^ 63" "BUF_MEM_reserve mal b cap = (True, b')"
  shows "buf_inv b'" "cap \<le> bmax b'" "blength b' = blength b" "buf_bytes b' = buf_bytes b"
proof -
  have "buf_inv b' \<and> cap \<le> bmax b' \<and> blength b' = blength b \<and> buf_bytes b' = buf_bytes b"
  proof (cases "bmax b \<ge> cap")
    case True
    with assms show "buf_inv b' \<and> cap \<le> bmax b' \<and> blength b' = blength b \<and> buf_bytes b' = buf_bytes b"
      by (auto simp: BUF_MEM_reserve_def)
  next
    case False
    let ?a = "(cap + 3) div 3 * 4"
    have mods: "(cap + 3) mod SIZE_MOD = cap + 3" "?a mod SIZE_MOD = ?a" "?a + 8 < 2 ^ 64"
      using assms(3) by (auto simp: SIZE_MOD_def)
    then obtain nb where nb: "OPENSSL_realloc mal (Some (bmax b, bdata b)) ?a = Some nb"
      and b': "b' = b\<lparr>bdata := nb, bmax := ?a\<rparr>"
      using assms(4) False
      by (auto simp: BUF_MEM_reserve_def Let_def OPENSSL_realloc_NULL [of _ _ "bdata b"]
          split: if_splits option.splits)
    have "length (bdata b) = bmax b" "blength b \<le> bmax b" using assms(2) by (auto simp: buf_inv_def)
    have "bmax b \<le> ?a" "cap \<le> ?a" using False by auto
    with OPENSSL_realloc_grow [OF assms(1) mods(3), of "bdata b" nb] nb
    have "length nb = ?a" "?a < 2 ^ 63 - 8" "take (bmax b) nb = bdata b"
      using \<open>length (bdata b) = bmax b\<close> by auto
    moreover have "take (blength b) nb = take (blength b) (bdata b)"
      using \<open>take (bmax b) nb = bdata b\<close> \<open>blength b \<le> bmax b\<close> by (metis min.absorb1 take_take)
    ultimately show "buf_inv b' \<and> cap \<le> bmax b' \<and> blength b' = blength b \<and> buf_bytes b' = buf_bytes b"
      using b' \<open>blength b \<le> bmax b\<close> \<open>bmax b \<le> ?a\<close> \<open>cap \<le> ?a\<close> by (auto simp: buf_inv_def buf_bytes_def)
  qed
  then show "buf_inv b'" "cap \<le> bmax b'" "blength b' = blength b" "buf_bytes b' = buf_bytes b"
    by auto
qed

lemma BUF_MEM_reserve_False: "BUF_MEM_reserve mal b cap = (False, b') \<Longrightarrow> b' = b"
  by (auto simp: BUF_MEM_reserve_def Let_def split: if_splits option.splits)

lemma BUF_MEM_append_True:
  assumes "malloc_contract mal" "buf_inv b" "length inp < 2 ^ 63 - blength b"
    and "BUF_MEM_append mal b inp = (True, b')"
  shows "buf_inv b' \<and> buf_bytes b' = buf_bytes b @ inp"
proof (cases "inp = []")
  case True
  with assms show ?thesis by (auto simp: BUF_MEM_append_def)
next
  case False
  have sum: "(blength b + length inp) mod SIZE_MOD = blength b + length inp"
    using assms(3) by (auto simp: SIZE_MOD_def)
  obtain c where c: "BUF_MEM_reserve mal b (blength b + length inp) = (True, c)"
    and b': "b' = c\<lparr>bdata := take (blength c) (bdata c) @ inp
                    @ drop (blength c + length inp) (bdata c), blength := blength b + length inp\<rparr>"
    using assms(4) False sum
    by (auto simp: BUF_MEM_append_def Let_def split: if_splits prod.splits bool.splits)
  have "blength b + length inp < 2 ^ 63" using assms(3) by auto
  from BUF_MEM_reserve_True [OF assms(1,2) this c] b' assms(2) show ?thesis
    by (auto simp: buf_inv_def buf_bytes_def)
qed

lemma BUF_MEM_reserve_success:
  assumes "malloc_total mal" "cap < 2 ^ 60"
  shows "\<exists>b'. BUF_MEM_reserve mal b cap = (True, b')"
proof -
  let ?a = "(cap + 3) div 3 * 4"
  have m: "(cap + 3) mod SIZE_MOD = cap + 3" "?a mod SIZE_MOD = ?a" "?a < 2 ^ 61 + 1"
    using assms(2) by (simp_all add: SIZE_MOD_def)
  obtain nb where "OPENSSL_realloc mal (if bmax b = 0 then None else Some (bmax b, bdata b)) ?a = Some nb"
    using malloc_total_realloc [OF assms(1) m(3)] by blast
  then show ?thesis using m(1,2) by (simp add: BUF_MEM_reserve_def Let_def)
qed

lemma BUF_MEM_append_success:
  assumes "malloc_contract mal" "malloc_total mal" "buf_inv b" "blength b + length inp < 2 ^ 60"
  shows "\<exists>b'. BUF_MEM_append mal b inp = (True, b') \<and> buf_inv b' \<and> buf_bytes b' = buf_bytes b @ inp"
proof -
  let ?cap = "blength b + length inp"
  have m: "?cap mod SIZE_MOD = ?cap" using assms(4) by (simp add: SIZE_MOD_def)
  have "fst (BUF_MEM_reserve mal b ?cap)" using BUF_MEM_reserve_success [OF assms(2,4), of b] by auto
  then have "fst (BUF_MEM_append mal b inp)"
    using m by (auto simp: BUF_MEM_append_def Let_def split: prod.splits bool.splits)
  then obtain b' where "BUF_MEM_append mal b inp = (True, b')" by (cases "BUF_MEM_append mal b inp") auto
  moreover have "length inp < 2 ^ 63 - blength b" using assms(4) by simp
  ultimately show ?thesis using BUF_MEM_append_True [OF assms(1,3)] by blast
qed

lemma BUF_MEM_grow_inv:
  assumes "malloc_contract mal" "buf_inv b" "0 < len" "len < 2 ^ 63" "BUF_MEM_grow mal b len = (len, b')"
  shows "buf_inv b' \<and> buf_bytes b' = take len (buf_bytes b @ replicate (len - blength b) 0)"
proof -
  obtain c where c: "BUF_MEM_reserve mal b len = (True, c)"
    using assms(3,5) by (cases "BUF_MEM_reserve mal b len"; cases "fst (BUF_MEM_reserve mal b len)")
      (auto simp: BUF_MEM_grow_def)
  have "b' = (if blength c < len then c\<lparr>bdata := take (blength c) (bdata c)
            @ replicate (len - blength c) 0 @ drop len (bdata c)\<rparr> else c)\<lparr>blength := len\<rparr>"
    using assms(5) c by (auto simp: BUF_MEM_grow_def Let_def)
  moreover have "take len (bdata c) = take len (bdata b)" if "len \<le> blength b"
    using that BUF_MEM_reserve_True(3,4) [OF assms(1,2,4) c]
    by (metis buf_bytes_def min.absorb1 take_take)
  ultimately show ?thesis
    using BUF_MEM_reserve_True [OF assms(1,2,4) c] assms(2)
    by (auto simp: buf_inv_def buf_bytes_def min_def)
qed

end
