(* ===== verification/BioMem.thy ===== *)
theory BioMem
  imports Bio Buf
begin

text \<open>
  \<^verbatim>\<open>crypto/bio/bio_mem.c\<close>: BIOs on a buffer in memory. The pointer of the BIO is a \<open>BUF_MEM\<close> with the distance of
  its \<^verbatim>\<open>data\<close> from the start of the block, which is 0 except on a read-only BIO, where reading moves it.
\<close>

record mem_ptr =
  mbuf :: BUF_MEM
  moff :: nat

type_synonym mem_bio = "mem_ptr bio"

definition null_mem_ptr :: mem_ptr where
  "null_mem_ptr = \<lparr>mbuf = \<lparr>blength = 0, bdata = [], bmax = 0\<rparr>, moff = 0\<rparr>"

definition read_only :: "mem_bio \<Rightarrow> bool" where
  "read_only bio = BIO_test_flags bio BIO_FLAGS_MEM_RDONLY"

definition mem_new :: "allocator \<Rightarrow> mem_bio \<Rightarrow> mem_bio option" where
  "mem_new mal bio =
     (case BUF_MEM_new mal of
        None \<Rightarrow> None
      | Some b \<Rightarrow> Some (bio\<lparr>bio_shutdown := 1, bio_init := True, bio_num := -1, bio_ptr := \<lparr>mbuf = b, moff = 0\<rparr>\<rparr>))"

text \<open>A negative length stands for a C string.\<close>

definition BIO_new_mem_buf :: "allocator \<Rightarrow> u8 list option \<Rightarrow> int \<Rightarrow> mem_bio option" where
  "BIO_new_mem_buf mal buf len =
     (case buf of
        None \<Rightarrow>
          if len \<noteq> 0 then None
          else map_option (\<lambda>bio. BIO_set_flags (bio\<lparr>bio_num := 0\<rparr>) BIO_FLAGS_MEM_RDONLY)
                 (BIO_new mal null_mem_ptr (mem_new mal))
      | Some m \<Rightarrow>
          (let sz = (if len < 0 then length (cstr m) else nat len)
           in case BIO_new mal null_mem_ptr (mem_new mal) of
                None \<Rightarrow> None
              | Some ret \<Rightarrow>
                  Some (BIO_set_flags (ret\<lparr>bio_ptr := \<lparr>mbuf = \<lparr>blength = sz, bdata = m, bmax = sz\<rparr>, moff = 0\<rparr>,
                    bio_num := 0\<rparr>) BIO_FLAGS_MEM_RDONLY)))"

section \<open>Reading and writing\<close>

definition mem_read :: "int \<Rightarrow> mem_bio \<Rightarrow> int \<times> u8 list \<times> mem_bio" where
  "mem_read outl bio =
     (let p = bio_ptr bio; b = mbuf p; bio = BIO_clear_retry_flags bio;
          ret = (if blength b < INT_MAX \<and> outl > int (blength b) then int (blength b) else outl)
      in if ret > 0 then
           (let n = nat ret; out = take n (drop (moff p) (bdata b)); len = blength b - n
            in (ret, out,
                if read_only bio then bio\<lparr>bio_ptr := \<lparr>mbuf = b\<lparr>blength := len\<rparr>, moff = moff p + n\<rparr>\<rparr>
                else bio\<lparr>bio_ptr := p\<lparr>mbuf := b\<lparr>blength := len,
                       bdata := take len (drop n (bdata b)) @ drop len (bdata b)\<rparr>\<rparr>\<rparr>))
         else if blength b = 0 then
           (bio_num bio, [], if bio_num bio \<noteq> 0 then BIO_set_retry_read bio else bio)
         else (ret, [], bio))"

definition to_int :: "nat \<Rightarrow> int" where
  "to_int n = sint (of_nat n :: u32)"

definition mem_write :: "allocator \<Rightarrow> u8 list \<Rightarrow> mem_bio \<Rightarrow> int \<times> mem_bio" where
  "mem_write mal inp bio =
     (if read_only bio then (-1, bio)
      else
        (let p = bio_ptr bio; bio = BIO_clear_retry_flags bio; blen = to_int (blength (mbuf p)); inl = int (length inp)
         in if int INT_MAX - blen < inl then (-1, bio)
            else (case BUF_MEM_grow_clean mal (mbuf p) (nat (blen + inl)) of
                    (n, b) \<Rightarrow>
                      if int n \<noteq> blen + inl then (-1, bio\<lparr>bio_ptr := p\<lparr>mbuf := b\<rparr>\<rparr>)
                      else
                        (let k = nat blen in
                         (inl, bio\<lparr>bio_ptr := p\<lparr>mbuf :=
                            b\<lparr>bdata := take k (bdata b) @ inp @ drop (k + length inp) (bdata b)\<rparr>\<rparr>\<rparr>)))))"

text \<open>The number of bytes up to the first newline and with it, or all.\<close>

fun line_length :: "u8 list \<Rightarrow> nat" where
  "line_length [] = 0"
| "line_length (c # cs) = (if c = 10 then 1 else Suc (line_length cs))"

definition mem_gets :: "int \<Rightarrow> mem_bio \<Rightarrow> int \<times> u8 list \<times> mem_bio" where
  "mem_gets sz bio =
     (let p = bio_ptr bio; b = mbuf p; bio = BIO_clear_retry_flags bio; j = to_int (blength b);
          j = (if sz - 1 < j then sz - 1 else j)
      in if j \<le> 0 then (0, if sz > 0 then [0] else [], bio)
         else (case mem_read (int (line_length (take (nat j) (drop (moff p) (bdata b))))) bio of
                 (i, out, bio) \<Rightarrow> (i, if i > 0 then out @ [0] else out, bio)))"

section \<open>Commands\<close>

text \<open>A command with the pointer to a \<^verbatim>\<open>BUF_MEM\<close> gets the \<open>mem_ptr\<close>. The bytes are what
  \<^verbatim>\<open>BIO_CTRL_INFO\<close> shows; the pointer that \<open>MEM_GET_BUF_PTR\<close> gives away is not shown.\<close>

datatype mem_cmd = MEM_RESET | MEM_EOF | MEM_SET_EOF_RETURN int | MEM_INFO | MEM_SET_BUF int mem_ptr | MEM_GET_BUF_PTR | MEM_GET_CLOSE
  | MEM_SET_CLOSE int | MEM_WPENDING | MEM_PENDING | MEM_FLUSH | MEM_OTHER

definition mem_ctrl :: "mem_cmd \<Rightarrow> mem_bio \<Rightarrow> int \<times> u8 list \<times> mem_bio" where
  "mem_ctrl cmd bio =
     (let p = bio_ptr bio; b = mbuf p in
      case cmd of
        MEM_RESET \<Rightarrow>
          (1, [],
           if bmax b = 0 then bio
           else if read_only bio then
             bio\<lparr>bio_ptr := \<lparr>mbuf = b\<lparr>blength := bmax b\<rparr>, moff = moff p - (bmax b - blength b)\<rparr>\<rparr>
           else bio\<lparr>bio_ptr := p\<lparr>mbuf := b\<lparr>bdata := replicate (bmax b) 0, blength := 0\<rparr>\<rparr>\<rparr>)
      | MEM_EOF \<Rightarrow> (if blength b = 0 then 1 else 0, [], bio)
      | MEM_SET_EOF_RETURN num \<Rightarrow> (1, [], bio\<lparr>bio_num := num\<rparr>)
      | MEM_INFO \<Rightarrow> (int (blength b), drop (moff p) (bdata b), bio)
      | MEM_SET_BUF num ptr \<Rightarrow> (1, [], bio\<lparr>bio_shutdown := num, bio_ptr := ptr\<rparr>)
      | MEM_GET_BUF_PTR \<Rightarrow> (1, [], bio)
      | MEM_GET_CLOSE \<Rightarrow> (bio_shutdown bio, [], bio)
      | MEM_SET_CLOSE num \<Rightarrow> (1, [], bio\<lparr>bio_shutdown := num\<rparr>)
      | MEM_WPENDING \<Rightarrow> (0, [], bio)
      | MEM_PENDING \<Rightarrow> (int (blength b), [], bio)
      | MEM_FLUSH \<Rightarrow> (1, [], bio)
      | MEM_OTHER \<Rightarrow> (0, [], bio))"

definition BIO_mem_contents :: "mem_bio \<Rightarrow> u8 list" where
  "BIO_mem_contents bio = take (blength (mbuf (bio_ptr bio))) (drop (moff (bio_ptr bio)) (bdata (mbuf (bio_ptr bio))))"

definition BIO_s_mem :: "allocator \<Rightarrow> (mem_bio, mem_ptr) handle" where
  "BIO_s_mem mal =
     \<lparr>the_bio = (\<lambda>b. b), map_bio = (\<lambda>f. f), bread = Some mem_read, bwrite = Some (mem_write mal), bgets = Some mem_gets\<rparr>"

section \<open>The invariant\<close>

definition mem_ok :: "mem_bio \<Rightarrow> bool" where
  "mem_ok bio \<longleftrightarrow>
     (let p = bio_ptr bio; b = mbuf p
      in bio_init bio \<and> moff p + blength b \<le> length (bdata b) \<and>
         (if read_only bio then moff p + blength b = bmax b else moff p = 0 \<and> buf_inv b))"

lemma contents_writable: "mem_ok bio \<Longrightarrow> \<not> read_only bio \<Longrightarrow> BIO_mem_contents bio = buf_bytes (mbuf (bio_ptr bio))"
  by (simp add: mem_ok_def BIO_mem_contents_def buf_bytes_def Let_def)

lemma length_contents: "mem_ok bio \<Longrightarrow> length (BIO_mem_contents bio) = blength (mbuf (bio_ptr bio))"
  by (auto simp: mem_ok_def BIO_mem_contents_def Let_def)

lemma mem_fields [simp]:
  "bio_ptr (BIO_clear_retry_flags b) = bio_ptr b" "bio_init (BIO_clear_retry_flags b) = bio_init b"
  "bio_num (BIO_clear_retry_flags b) = bio_num b"
  "bio_ptr (BIO_set_retry_read b) = bio_ptr b" "bio_init (BIO_set_retry_read b) = bio_init b"
  "bio_num (BIO_set_retry_read b) = bio_num b"
  "bio_ptr (count_read n b) = bio_ptr b" "bio_init (count_read n b) = bio_init b" "bio_num (count_read n b) = bio_num b"
  "bio_ptr (count_write n b) = bio_ptr b" "bio_init (count_write n b) = bio_init b"
  "bio_num (count_write n b) = bio_num b"
  by (simp_all add: BIO_clear_retry_flags_def BIO_set_retry_read_def count_read_def count_write_def)

lemma rdonly_bits: "(w AND NOT kRetryFlags) AND BIO_FLAGS_MEM_RDONLY = w AND BIO_FLAGS_MEM_RDONLY"
  "(w OR (BIO_FLAGS_READ OR BIO_FLAGS_SHOULD_RETRY)) AND BIO_FLAGS_MEM_RDONLY = w AND BIO_FLAGS_MEM_RDONLY"
proof -
  have "NOT kRetryFlags AND BIO_FLAGS_MEM_RDONLY = BIO_FLAGS_MEM_RDONLY"
    "(BIO_FLAGS_READ OR BIO_FLAGS_SHOULD_RETRY) AND BIO_FLAGS_MEM_RDONLY = 0"
    by (simp_all add: kRetryFlags_def BIO_FLAGS_RWS_def BIO_FLAGS_READ_def BIO_FLAGS_WRITE_def BIO_FLAGS_IO_SPECIAL_def
        BIO_FLAGS_SHOULD_RETRY_def BIO_FLAGS_MEM_RDONLY_def)
  then show "(w AND NOT kRetryFlags) AND BIO_FLAGS_MEM_RDONLY = w AND BIO_FLAGS_MEM_RDONLY"
    "(w OR (BIO_FLAGS_READ OR BIO_FLAGS_SHOULD_RETRY)) AND BIO_FLAGS_MEM_RDONLY = w AND BIO_FLAGS_MEM_RDONLY"
    by (simp_all add: and.assoc bit.conj_disj_distrib2)
qed

lemma read_only_kept [simp]:
  "read_only (BIO_clear_retry_flags b) = read_only b" "read_only (BIO_set_retry_read b) = read_only b"
  "read_only (count_read n b) = read_only b" "read_only (count_write n b) = read_only b"
  "read_only (b\<lparr>bio_ptr := p\<rparr>) = read_only b"
  by (simp_all add: read_only_def BIO_test_flags_def BIO_clear_retry_flags_def BIO_set_retry_read_def count_read_def
      count_write_def rdonly_bits)

lemma mem_ok_ptr: "mem_ok b \<Longrightarrow> bio_ptr b' = bio_ptr b \<Longrightarrow> bio_init b' = bio_init b \<Longrightarrow> read_only b' = read_only b \<Longrightarrow>
    mem_ok b' \<and> BIO_mem_contents b' = BIO_mem_contents b"
  by (simp add: mem_ok_def BIO_mem_contents_def Let_def)

section \<open>Reading takes the front\<close>

lemma mem_read_some:
  assumes "mem_ok bio" "BIO_mem_contents bio \<noteq> []" "0 < n" "n \<le> INT_MAX"
  defines "k \<equiv> min n (length (BIO_mem_contents bio))"
  shows "\<exists>bio'. mem_read (int n) bio = (int k, take k (BIO_mem_contents bio), bio') \<and> 0 < k \<and> mem_ok bio' \<and>
    BIO_mem_contents bio' = drop k (BIO_mem_contents bio) \<and> read_only bio' = read_only bio \<and> bio_num bio' = bio_num bio"
proof -
  let ?p = "bio_ptr bio" let ?b = "mbuf ?p" let ?c = "BIO_clear_retry_flags bio"
  have l: "length (BIO_mem_contents bio) = blength ?b" by (rule length_contents [OF assms(1)])
  then have k: "0 < k" "k \<le> blength ?b" "k = min n (blength ?b)" using assms(2,3) by (auto simp: k_def simp flip: length_greater_0_conv)
  have r: "(if blength ?b < INT_MAX \<and> int n > int (blength ?b) then int (blength ?b) else int n) = int k"
    using assms(4) k(3) by auto
  have i: "bio_init bio" "moff ?p + blength ?b \<le> length (bdata ?b)"
    "read_only bio \<Longrightarrow> moff ?p + blength ?b = bmax ?b" "\<not> read_only bio \<Longrightarrow> moff ?p = 0 \<and> buf_inv ?b"
    using assms(1) by (auto simp: mem_ok_def Let_def)
  have o: "take k (drop (moff ?p) (bdata ?b)) = take k (BIO_mem_contents bio)"
    using k(2) by (simp add: BIO_mem_contents_def)
  have d: "drop k (BIO_mem_contents bio) = take (blength ?b - k) (drop (moff ?p + k) (bdata ?b))"
    by (simp add: BIO_mem_contents_def drop_take add.commute)
  show ?thesis
  proof (cases "read_only bio")
    case True
    let ?bio = "?c\<lparr>bio_ptr := \<lparr>mbuf = ?b\<lparr>blength := blength ?b - k\<rparr>, moff = moff ?p + k\<rparr>\<rparr>"
    have "mem_read (int n) bio = (int k, take k (BIO_mem_contents bio), ?bio)"
      unfolding mem_read_def Let_def r using k(1) True by (simp add: o)
    moreover have "mem_ok ?bio" using i k(2) True by (simp add: mem_ok_def Let_def)
    ultimately show ?thesis using True k(1) d by (simp add: BIO_mem_contents_def)
  next
    case False
    let ?bio = "?c\<lparr>bio_ptr := ?p\<lparr>mbuf := ?b\<lparr>blength := blength ?b - k,
      bdata := take (blength ?b - k) (drop k (bdata ?b)) @ drop (blength ?b - k) (bdata ?b)\<rparr>\<rparr>\<rparr>"
    have "mem_read (int n) bio = (int k, take k (BIO_mem_contents bio), ?bio)"
      unfolding mem_read_def Let_def r using k(1) False by (simp add: o)
    moreover have "mem_ok ?bio" using i k(2) False by (auto simp: mem_ok_def Let_def buf_inv_def min_def)
    moreover have "BIO_mem_contents ?bio = drop k (BIO_mem_contents bio)"
      using i(2,4) False k(2) by (simp add: d) (simp add: BIO_mem_contents_def)
    ultimately show ?thesis using False k(1) by simp
  qed
qed

lemma mem_read_none:
  assumes "mem_ok bio" "BIO_mem_contents bio = []" "0 < n"
  shows "mem_read (int n) bio = (bio_num bio, [],
    if bio_num bio \<noteq> 0 then BIO_set_retry_read (BIO_clear_retry_flags bio) else BIO_clear_retry_flags bio)"
proof -
  have "blength (mbuf (bio_ptr bio)) = 0" using length_contents [OF assms(1)] assms(2) by simp
  then show ?thesis using assms(3) by (simp add: mem_read_def Let_def INT_MAX_def)
qed

section \<open>Writing appends\<close>

lemma to_int_small: "n \<le> INT_MAX \<Longrightarrow> to_int n = int n"
  by (simp add: to_int_def INT_MAX_def signed_of_nat signed_take_bit_int_eq_self)

lemma mem_write_full:
  "\<not> read_only bio \<Longrightarrow> blength (mbuf (bio_ptr bio)) \<le> INT_MAX \<Longrightarrow> INT_MAX < blength (mbuf (bio_ptr bio)) + length inp \<Longrightarrow>
    mem_write mal inp bio = (-1, BIO_clear_retry_flags bio)"
  by (simp add: mem_write_def Let_def to_int_small)

lemma mem_write_append:
  assumes "malloc_contract mal" "mem_ok bio" "\<not> read_only bio" "inp \<noteq> []" "blength (mbuf (bio_ptr bio)) + length inp \<le> INT_MAX"
  shows "\<exists>bio'. mem_ok bio' \<and> read_only bio' = read_only bio \<and> bio_num bio' = bio_num bio \<and>
    (mem_write mal inp bio = (int (length inp), bio') \<and> BIO_mem_contents bio' = BIO_mem_contents bio @ inp \<or>
     mem_write mal inp bio = (-1, bio') \<and> BIO_mem_contents bio' = BIO_mem_contents bio \<and> \<not> malloc_total mal)"
proof -
  let ?p = "bio_ptr bio" let ?b = "mbuf ?p" let ?c = "BIO_clear_retry_flags bio" let ?n = "blength ?b + length inp"
  have t: "to_int (blength ?b) = int (blength ?b)" using assms(5) by (intro to_int_small) simp
  have b: "buf_inv ?b" "moff ?p = 0" using assms(2,3) by (auto simp: mem_ok_def Let_def)
  have w: "mem_write mal inp bio = (case BUF_MEM_grow_clean mal ?b ?n of
      (n, b) \<Rightarrow> if n \<noteq> ?n then (-1, ?c\<lparr>bio_ptr := ?p\<lparr>mbuf := b\<rparr>\<rparr>)
        else (int (length inp), ?c\<lparr>bio_ptr := ?p\<lparr>mbuf :=
          b\<lparr>bdata := take (blength ?b) (bdata b) @ inp @ drop ?n (bdata b)\<rparr>\<rparr>\<rparr>))"
    using assms(3,5) by (auto simp: mem_write_def Let_def t nat_int_add split: prod.split)
  show ?thesis
  proof (cases "fst (BUF_MEM_reserve mal ?b ?n)")
    case True
    then obtain r where r: "BUF_MEM_reserve mal ?b ?n = (True, r)" by (cases "BUF_MEM_reserve mal ?b ?n") auto
    then obtain g where g: "BUF_MEM_grow mal ?b ?n = (?n, g)" by (simp add: BUF_MEM_grow_def Let_def)
    have "0 < ?n" "?n < 2 ^ 63" using assms(4,5) by (simp_all add: INT_MAX_def)
    from BUF_MEM_grow_inv [OF assms(1) b(1) this g] have gi: "buf_inv g" "buf_bytes g = take ?n (buf_bytes ?b @ replicate (length inp) 0)"
      by simp_all
    have gl: "blength g = ?n" using g r by (auto simp: BUF_MEM_grow_def Let_def)
    have "take (blength ?b) (buf_bytes g) = buf_bytes ?b" using gi(2) b(1) by (simp add: buf_bytes_def buf_inv_def)
    then have gt: "take (blength ?b) (bdata g) = buf_bytes ?b" by (simp add: buf_bytes_def gl)
    let ?bio = "?c\<lparr>bio_ptr := ?p\<lparr>mbuf := g\<lparr>bdata := take (blength ?b) (bdata g) @ inp @ drop ?n (bdata g)\<rparr>\<rparr>\<rparr>"
    have lb: "length (buf_bytes ?b) = blength ?b" using b(1) by (simp add: buf_bytes_def buf_inv_def)
    have "mem_write mal inp bio = (int (length inp), ?bio)" by (simp add: w BUF_MEM_grow_clean_def g)
    moreover have "mem_ok ?bio"
      using assms(2,3) gi(1) b(2) by (auto simp: mem_ok_def Let_def buf_inv_def gl)
    moreover have "BIO_mem_contents ?bio = BIO_mem_contents bio @ inp"
      using contents_writable [OF assms(2,3)] b(2) lb by (simp add: BIO_mem_contents_def gt gl)
    ultimately show ?thesis by auto
  next
    case False
    then have r: "BUF_MEM_reserve mal ?b ?n = (False, ?b)"
      using BUF_MEM_reserve_False by (cases "BUF_MEM_reserve mal ?b ?n") auto
    have "\<not> malloc_total mal"
      using BUF_MEM_reserve_success [of mal ?n ?b] r assms(5) by (auto simp: INT_MAX_def)
    moreover have "mem_write mal inp bio = (-1, ?c\<lparr>bio_ptr := ?p\<rparr>)"
      using assms(4) by (auto simp: w BUF_MEM_grow_clean_def BUF_MEM_grow_def r)
    moreover have "mem_ok (?c\<lparr>bio_ptr := ?p\<rparr>) \<and> BIO_mem_contents (?c\<lparr>bio_ptr := ?p\<rparr>) = BIO_mem_contents bio"
      by (rule mem_ok_ptr [OF assms(2)]) simp_all
    ultimately show ?thesis by auto
  qed
qed

section \<open>Lines\<close>

lemma line_length_le: "line_length xs \<le> length xs" "xs \<noteq> [] \<Longrightarrow> 0 < line_length xs"
  by (induction xs) auto

lemma line_length_takeWhile:
  "line_length xs = length (takeWhile (\<lambda>c. c \<noteq> 10) xs) + (if 10 \<in> set xs then 1 else 0)"
  by (induction xs) auto

lemma line_length_first:
  "10 \<notin> set (take (line_length xs - 1) xs)" "10 \<in> set xs \<Longrightarrow> xs ! (line_length xs - 1) = 10"
proof -
  have "take (length (takeWhile (\<lambda>c. c \<noteq> 10) xs)) xs = takeWhile (\<lambda>c. c \<noteq> 10) xs"
    by (metis takeWhile_eq_take)
  then have "10 \<notin> set (take (length (takeWhile (\<lambda>c. c \<noteq> 10) xs)) xs)" by (metis (mono_tags, lifting) set_takeWhileD)
  then show "10 \<notin> set (take (line_length xs - 1) xs)"
    by (auto simp: line_length_takeWhile dest: in_set_takeD set_take_subset_set_take [THEN subsetD, rotated])
  show "xs ! (line_length xs - 1) = 10" if "10 \<in> set xs"
  proof -
    have "length (takeWhile (\<lambda>c. c \<noteq> 10) xs) < length xs"
      using that by (induction xs) auto
    from nth_length_takeWhile [OF this] show ?thesis using that by (simp add: line_length_takeWhile)
  qed
qed

lemma mem_gets_line:
  assumes "mem_ok bio" "BIO_mem_contents bio \<noteq> []" "1 < n" "n \<le> INT_MAX" "length (BIO_mem_contents bio) \<le> INT_MAX"
  defines "k \<equiv> line_length (take (n - 1) (BIO_mem_contents bio))"
  shows "\<exists>bio'. mem_gets (int n) bio = (int k, take k (BIO_mem_contents bio) @ [0], bio') \<and> 0 < k \<and> k < n \<and> mem_ok bio' \<and>
    BIO_mem_contents bio' = drop k (BIO_mem_contents bio)"
proof -
  let ?m = "BIO_mem_contents bio" let ?b = "mbuf (bio_ptr bio)"
  have l: "blength ?b = length ?m" using length_contents [OF assms(1)] by simp
  have t: "to_int (blength ?b) = int (length ?m)" using l assms(5) by (simp add: to_int_small)
  let ?j = "min (n - 1) (length ?m)"
  have j: "(if int n - 1 < int (length ?m) then int n - 1 else int (length ?m)) = int ?j" "0 < ?j"
    using assms(2,3) by (auto simp: min_def)
  have k: "0 < k" "k \<le> ?j"
    using line_length_le [of "take (n - 1) ?m"] assms(2,3) by (auto simp: k_def)
  have d: "take ?j (drop (moff (bio_ptr bio)) (bdata ?b)) = take (n - 1) ?m"
    unfolding l [symmetric] by (simp add: BIO_mem_contents_def)
  let ?c = "BIO_clear_retry_flags bio"
  have c: "mem_ok ?c" "BIO_mem_contents ?c = ?m" using mem_ok_ptr [OF assms(1), of ?c] by simp_all
  have "k \<le> INT_MAX" using k(2) assms(4) by linarith
  from mem_read_some [OF c(1) _ k(1) this] obtain bio' where r:
    "mem_read (int k) ?c = (int k, take k ?m, bio')" "mem_ok bio'" "BIO_mem_contents bio' = drop k ?m"
    using c(2) assms(2) k(2) by auto
  have "mem_gets (int n) bio = (int k, take k ?m @ [0], bio')"
    unfolding mem_gets_def Let_def mem_fields t j(1) using j(2) k(1) by (simp del: One_nat_def add: d k_def [symmetric] r(1))
  then show ?thesis using r(2,3) k by (intro exI [of _ bio']) auto
qed

section \<open>Starting again\<close>

lemma mem_reset_read_only:
  assumes "mem_ok bio" "read_only bio"
  shows "\<exists>bio'. mem_ctrl MEM_RESET bio = (1, [], bio') \<and> mem_ok bio' \<and>
    BIO_mem_contents bio' = take (bmax (mbuf (bio_ptr bio))) (bdata (mbuf (bio_ptr bio)))"
  using assms by (auto simp: mem_ctrl_def mem_ok_def BIO_mem_contents_def Let_def)

lemma mem_reset_writable:
  assumes "mem_ok bio" "\<not> read_only bio"
  shows "\<exists>bio'. mem_ctrl MEM_RESET bio = (1, [], bio') \<and> mem_ok bio' \<and> BIO_mem_contents bio' = []"
  using assms by (auto simp: mem_ctrl_def mem_ok_def BIO_mem_contents_def buf_inv_def Let_def)

lemma mem_read_kept: "read_only bio \<Longrightarrow> mem_read n bio = (r, out, bio') \<Longrightarrow>
    bdata (mbuf (bio_ptr bio')) = bdata (mbuf (bio_ptr bio)) \<and> bmax (mbuf (bio_ptr bio')) = bmax (mbuf (bio_ptr bio))"
  by (auto simp: mem_read_def Let_def split: if_splits)

section \<open>The calls on a BIO in memory\<close>

lemma BIO_read_mem:
  assumes "mem_ok bio" "0 < n" "n \<le> INT_MAX"
  shows "\<exists>bio'. mem_ok bio' \<and> read_only bio' = read_only bio \<and> bio_num bio' = bio_num bio \<and>
    (let c = BIO_mem_contents bio; k = min n (length c)
     in BIO_read (BIO_s_mem mal) (int n) bio = (if c = [] then bio_num bio else int k, take k c, bio') \<and>
        BIO_mem_contents bio' = drop k c)"
proof (cases "BIO_mem_contents bio = []")
  case True
  let ?b = "if bio_num bio \<noteq> 0 then BIO_set_retry_read (BIO_clear_retry_flags bio) else BIO_clear_retry_flags bio"
  let ?b' = "if bio_num bio > 0 then count_read (bio_num bio) ?b else ?b"
  have "bio_init bio" using assms(1) by (simp add: mem_ok_def Let_def)
  then have "BIO_read (BIO_s_mem mal) (int n) bio = (bio_num bio, [], ?b')"
    using mem_read_none [OF assms(1) True assms(2)] assms(2) by (simp add: BIO_read_def BIO_s_mem_def)
  moreover have "mem_ok ?b' \<and> BIO_mem_contents ?b' = BIO_mem_contents bio" by (rule mem_ok_ptr [OF assms(1)]) simp_all
  ultimately show ?thesis using True by (intro exI [of _ ?b']) (simp add: Let_def)
next
  case False
  let ?k = "min n (length (BIO_mem_contents bio))"
  from mem_read_some [OF assms(1) False assms(2,3)] obtain b where b:
    "mem_read (int n) bio = (int ?k, take ?k (BIO_mem_contents bio), b)" "0 < ?k" "mem_ok b"
    "BIO_mem_contents b = drop ?k (BIO_mem_contents bio)" "read_only b = read_only bio" "bio_num b = bio_num bio" by blast
  let ?b' = "count_read (int ?k) b"
  have "bio_init bio" using assms(1) by (simp add: mem_ok_def Let_def)
  then have "BIO_read (BIO_s_mem mal) (int n) bio = (int ?k, take ?k (BIO_mem_contents bio), ?b')"
    using b(1,2) assms(2) by (simp add: BIO_read_def BIO_s_mem_def)
  moreover have "mem_ok ?b' \<and> BIO_mem_contents ?b' = BIO_mem_contents b" by (rule mem_ok_ptr [OF b(3)]) simp_all
  ultimately show ?thesis using False b(4-6) by (intro exI [of _ ?b']) (simp add: Let_def)
qed

text \<open>What reads need: with a positive \<^verbatim>\<open>num\<close> an empty BIO claims to have read something.\<close>

definition mem_source :: "mem_bio \<Rightarrow> bool" where
  "mem_source bio \<longleftrightarrow> mem_ok bio \<and> bio_num bio \<le> 0"

lemma BIO_read_mem_some:
  assumes "mem_ok bio" "BIO_mem_contents bio \<noteq> []" "0 < n" "n \<le> INT_MAX"
  shows "\<exists>k bio'. BIO_read (BIO_s_mem mal) (int n) bio = (int k, take k (BIO_mem_contents bio), bio') \<and> 0 < k \<and> k \<le> n \<and>
    k \<le> length (BIO_mem_contents bio) \<and> BIO_mem_contents bio' = drop k (BIO_mem_contents bio) \<and> mem_ok bio' \<and>
    bio_num bio' = bio_num bio"
proof -
  from BIO_read_mem [OF assms(1,3,4), of mal, unfolded Let_def] obtain bio' where
    "mem_ok bio'" "bio_num bio' = bio_num bio"
    "BIO_read (BIO_s_mem mal) (int n) bio = (int (min n (length (BIO_mem_contents bio))),
       take (min n (length (BIO_mem_contents bio))) (BIO_mem_contents bio), bio')"
    "BIO_mem_contents bio' = drop (min n (length (BIO_mem_contents bio))) (BIO_mem_contents bio)"
    using assms(2) by (simp only: if_False simp_thms) blast
  then show ?thesis
    using assms(2,3) by (intro exI [of _ "min n (length (BIO_mem_contents bio))"] exI [of _ bio']) simp
qed

lemma BIO_read_mem_end:
  assumes "mem_ok bio" "BIO_mem_contents bio = []" "0 < n" "n \<le> INT_MAX"
  shows "\<exists>bio'. BIO_read (BIO_s_mem mal) (int n) bio = (bio_num bio, [], bio') \<and> BIO_mem_contents bio' = [] \<and> mem_ok bio' \<and>
    bio_num bio' = bio_num bio"
  using BIO_read_mem [OF assms(1,3,4), of mal] assms(2) by (auto simp: Let_def)

interpretation mem: byte_source "BIO_s_mem mal" mem_source BIO_mem_contents for mal
proof
  fix s :: mem_bio and n :: nat
  assume s: "mem_source s" "0 < n" "n \<le> INT_MAX"
  then have m: "mem_ok s" "bio_num s \<le> 0" by (simp_all add: mem_source_def)
  show "\<exists>k s'. BIO_read (BIO_s_mem mal) (int n) s = (int k, take k (BIO_mem_contents s), s') \<and> 0 < k \<and> k \<le> n \<and>
      k \<le> length (BIO_mem_contents s) \<and> BIO_mem_contents s' = drop k (BIO_mem_contents s) \<and> mem_source s'"
    if "BIO_mem_contents s \<noteq> []"
    using BIO_read_mem_some [OF m(1) that s(2,3), of mal] m(2) by (auto simp: mem_source_def)
  show "\<exists>r s'. BIO_read (BIO_s_mem mal) (int n) s = (r, [], s') \<and> r \<le> 0 \<and> BIO_mem_contents s' = [] \<and> mem_source s'"
    if "BIO_mem_contents s = []"
    using BIO_read_mem_end [OF m(1) that s(2,3), of mal] m(2) by (auto simp: mem_source_def)
qed

text \<open>With the return value 0 at the end, as on a read-only BIO, the input ends.\<close>

definition mem_static :: "mem_bio \<Rightarrow> bool" where
  "mem_static bio \<longleftrightarrow> mem_ok bio \<and> bio_num bio = 0"

interpretation static: ending_source "BIO_s_mem mal" mem_static BIO_mem_contents for mal
proof
  fix s :: mem_bio and n :: nat
  assume s: "mem_static s" "0 < n" "n \<le> INT_MAX"
  then have m: "mem_ok s" "bio_num s = 0" by (simp_all add: mem_static_def)
  show "\<exists>k s'. BIO_read (BIO_s_mem mal) (int n) s = (int k, take k (BIO_mem_contents s), s') \<and> 0 < k \<and> k \<le> n \<and>
      k \<le> length (BIO_mem_contents s) \<and> BIO_mem_contents s' = drop k (BIO_mem_contents s) \<and> mem_static s'"
    if "BIO_mem_contents s \<noteq> []"
    using BIO_read_mem_some [OF m(1) that s(2,3), of mal] m(2) by (auto simp: mem_static_def)
  show "\<exists>s'. BIO_read (BIO_s_mem mal) (int n) s = (0, [], s') \<and> BIO_mem_contents s' = [] \<and> mem_static s'"
    "\<exists>r s'. BIO_read (BIO_s_mem mal) (int n) s = (r, [], s') \<and> r \<le> 0 \<and> BIO_mem_contents s' = [] \<and> mem_static s'"
    if "BIO_mem_contents s = []"
    using BIO_read_mem_end [OF m(1) that s(2,3), of mal] m(2) by (auto simp: mem_static_def)
qed

lemma BIO_gets_mem:
  assumes "mem_ok bio" "BIO_mem_contents bio \<noteq> []" "1 < n" "n \<le> INT_MAX" "length (BIO_mem_contents bio) \<le> INT_MAX"
  shows "\<exists>bio' line. BIO_gets (BIO_s_mem mal) (int n) bio = (int (length line), line @ [0], bio') \<and> mem_ok bio' \<and>
    BIO_mem_contents bio = line @ BIO_mem_contents bio' \<and> 0 < length line \<and> length line < n \<and> 10 \<notin> set (butlast line) \<and>
    (last line = 10 \<or> length line = n - 1 \<or> BIO_mem_contents bio' = [])"
proof -
  let ?c = "BIO_mem_contents bio" let ?x = "take (n - 1) ?c" let ?k = "line_length ?x"
  from mem_gets_line [OF assms] obtain b where b: "mem_gets (int n) bio = (int ?k, take ?k ?c @ [0], b)" "0 < ?k" "?k < n"
    "mem_ok b" "BIO_mem_contents b = drop ?k ?c" by blast
  have le: "?k \<le> length ?c" using line_length_le(1) [of ?x] by simp
  have line: "take ?k ?c = take ?k ?x" using b(3) by (simp add: min_def)
  let ?b = "count_read (int ?k) b"
  have "bio_init bio" using assms(1) by (simp add: mem_ok_def Let_def)
  then have "BIO_gets (BIO_s_mem mal) (int n) bio = (int ?k, take ?k ?c @ [0], ?b)"
    using assms(3) b(1,2) by (simp add: BIO_gets_def BIO_s_mem_def)
  moreover have "mem_ok ?b \<and> BIO_mem_contents ?b = BIO_mem_contents b" by (rule mem_ok_ptr [OF b(4)]) simp_all
  moreover have "10 \<notin> set (butlast (take ?k ?c))"
    using line_length_first(1) [of ?x] le b(2,3) by (simp add: butlast_take min_def split: if_splits)
  moreover have "last (take ?k ?c) = 10 \<or> ?k = n - 1 \<or> drop ?k ?c = []"
  proof (cases "10 \<in> set ?x")
    case True
    then have "?x ! (?k - 1) = 10" by (rule line_length_first(2))
    moreover have "last (take ?k ?c) = ?c ! (?k - 1)" using b(2) le by (subst last_conv_nth) auto
    ultimately show ?thesis using b(2,3) by simp
  next
    case False
    then have "takeWhile (\<lambda>c. c \<noteq> 10) ?x = ?x" by (auto simp: takeWhile_eq_all_conv)
    then have "?k = length ?x" using False by (simp only: line_length_takeWhile if_False add_0_right)
    then show ?thesis by (simp add: min_def split: if_splits)
  qed
  ultimately show ?thesis using b(2,3,5) le by (intro exI [of _ ?b] exI [of _ "take ?k ?c"]) simp
qed

lemma BIO_write_mem:
  assumes "malloc_contract mal" "malloc_total mal" "mem_ok bio" "\<not> read_only bio" "data \<noteq> []"
    "length (BIO_mem_contents bio) \<le> INT_MAX"
  shows "\<exists>bio'. mem_ok bio' \<and> read_only bio' = read_only bio \<and> bio_num bio' = bio_num bio \<and>
    (if length (BIO_mem_contents bio) + length data \<le> INT_MAX
     then BIO_write (BIO_s_mem mal) data bio = (int (length data), bio') \<and> BIO_mem_contents bio' = BIO_mem_contents bio @ data
     else BIO_write (BIO_s_mem mal) data bio = (-1, bio') \<and> BIO_mem_contents bio' = BIO_mem_contents bio)"
proof -
  have i: "bio_init bio" using assms(3) by (simp add: mem_ok_def Let_def)
  note l = length_contents [OF assms(3)]
  show ?thesis
  proof (cases "length (BIO_mem_contents bio) + length data \<le> INT_MAX")
    case True
    with mem_write_append [OF assms(1,3,4,5)] assms(2) l obtain b where b:
      "mem_write mal data bio = (int (length data), b)" "BIO_mem_contents b = BIO_mem_contents bio @ data" "mem_ok b"
      "read_only b = read_only bio" "bio_num b = bio_num bio" by auto
    have "mem_ok (count_write n b) \<and> BIO_mem_contents (count_write n b) = BIO_mem_contents b" for n
      by (rule mem_ok_ptr [OF b(3)]) simp_all
    then show ?thesis using True b i assms(5) by (simp add: BIO_write_def BIO_s_mem_def)
  next
    case False
    have "mem_ok (BIO_clear_retry_flags bio) \<and> BIO_mem_contents (BIO_clear_retry_flags bio) = BIO_mem_contents bio"
      by (rule mem_ok_ptr [OF assms(3)]) simp_all
    then show ?thesis using False mem_write_full [OF assms(4), of data mal] l i assms(5,6) by (simp add: BIO_write_def BIO_s_mem_def)
  qed
qed

text \<open>Spaces in front of a line.\<close>

lemma BIO_indent_loop_mem:
  "malloc_contract mal \<Longrightarrow> malloc_total mal \<Longrightarrow> mem_ok bio \<Longrightarrow> \<not> read_only bio \<Longrightarrow> length (BIO_mem_contents bio) + n \<le> INT_MAX \<Longrightarrow>
    \<exists>bio'. BIO_indent_loop (BIO_s_mem mal) n bio = (True, bio') \<and> mem_ok bio' \<and> \<not> read_only bio' \<and>
      BIO_mem_contents bio' = BIO_mem_contents bio @ replicate n 32"
proof (induction n arbitrary: bio)
  case (Suc n)
  from BIO_write_mem [OF Suc.prems(1-4), of "[32]"] Suc.prems(4,5) obtain b where
    b: "BIO_write (BIO_s_mem mal) [32] bio = (1, b)" "BIO_mem_contents b = BIO_mem_contents bio @ [32]" "mem_ok b" "\<not> read_only b"
    by (auto split: if_splits)
  from Suc.IH [OF Suc.prems(1,2) b(3,4)] Suc.prems(5) b(2) obtain b' where
    "BIO_indent_loop (BIO_s_mem mal) n b = (True, b')" "mem_ok b'" "\<not> read_only b'"
    "BIO_mem_contents b' = BIO_mem_contents bio @ 32 # replicate n 32" by auto
  then show ?case by (simp add: BIO_puts_def b(1) replicate_app_Cons_same)
qed simp

section \<open>New BIOs\<close>

lemma BIO_new_mem:
  assumes "BIO_new mal null_mem_ptr (mem_new mal) = Some bio"
  shows "mem_ok bio \<and> \<not> read_only bio \<and> BIO_mem_contents bio = [] \<and> bio_num bio = -1"
  using assms BUF_MEM_new_inv
  by (auto simp: BIO_new_def mem_new_def mem_ok_def read_only_def BIO_test_flags_def BIO_mem_contents_def BUF_MEM_new_def
      buf_inv_def split: option.splits)

lemma BIO_new_mem_total: "malloc_total mal \<Longrightarrow> \<exists>bio. BIO_new mal null_mem_ptr (mem_new mal) = Some bio"
  using malloc_total_malloc [of mal SIZEOF_BIO] malloc_total_malloc [of mal 24]
  by (auto simp: BIO_new_def mem_new_def BUF_MEM_new_def SIZEOF_BIO_def)

lemma BIO_new_mem_buf_contents:
  assumes "BIO_new_mem_buf mal (Some m) len = Some bio" "nat len \<le> length m"
  shows "mem_ok bio \<and> read_only bio \<and> bio_num bio = 0 \<and>
    BIO_mem_contents bio = (if len < 0 then cstr m else take (nat len) m)"
proof -
  obtain ret where ret: "BIO_new mal null_mem_ptr (mem_new mal) = Some ret"
    using assms(1) by (auto simp: BIO_new_mem_buf_def Let_def split: option.splits)
  let ?sz = "if len < 0 then length (cstr m) else nat len"
  have bio: "bio = BIO_set_flags (ret\<lparr>bio_ptr := \<lparr>mbuf = \<lparr>blength = ?sz, bdata = m, bmax = ?sz\<rparr>, moff = 0\<rparr>,
      bio_num := 0\<rparr>) BIO_FLAGS_MEM_RDONLY"
    using assms(1) by (simp add: BIO_new_mem_buf_def Let_def ret)
  have "bio_init ret" using BIO_new_mem [OF ret] by (simp add: mem_ok_def Let_def)
  moreover have "read_only bio" unfolding bio
    by (simp add: read_only_def BIO_test_flags_def BIO_set_flags_def BIO_FLAGS_MEM_RDONLY_def)
  ultimately show ?thesis
    using assms(2) length_takeWhile_le [of "\<lambda>c. c \<noteq> 0" m]
    by (simp add: mem_ok_def BIO_mem_contents_def Let_def)
       (simp add: bio BIO_set_flags_def cstr_def takeWhile_eq_take [symmetric])
qed

end
