(* ===== verification/Spec2Isabelle.thy ===== *)
theory Spec2Isabelle
  imports CbbWrite Ber Base64 Stack LHash Cbc NameCons Hkdf PbField BioPair BioMem
begin

text \<open>
  The KeyStore app is a one-time-password app for iOS, written in Swift. All the C code of the
  repository is in the libraries that the app links, under \<^verbatim>\<open>KeyStore/Pods\<close>: BoringSSL (in
  \<^verbatim>\<open>BoringSSL-GRPC\<close>), nanopb and the C parts of gRPC. This development
  is about the support library of BoringSSL, \<^verbatim>\<open>BoringSSL-GRPC/src/crypto\<close>: memory and buffers, the
  readers and writers of DER, the containers, base64, the block cipher modes, the digests and the names
  of certificates, on which the rest of the library rests; and about the wire format and the fields of
  nanopb, which Firestore stores and sends its data with. File names below are relative to the directory
  of BoringSSL, those of nanopb to \<^verbatim>\<open>KeyStore/Pods\<close>.

  \<^bold>\<open>Parts, theories and state.\<close>

  \<^item> \<open>Prelude\<close>: bytes and words, big-endian numbers (\<open>be_load\<close>, \<open>be_store\<close>, \<open>be_val\<close>), the
    collection \<open>evals\<close> of equations that evaluate concrete runs.
  \<^item> \<open>Mem\<close>: \<^verbatim>\<open>mem.c\<close>. The system \<^verbatim>\<open>malloc\<close> is the parameter \<open>mal\<close>, which returns the
    contents of a new block or nothing; \<open>malloc_contract\<close> says that a block has the size asked for,
    \<open>malloc_total\<close> that requests below \<open>2\<^sup>62\<close> bytes are served. \<^verbatim>\<open>size_t\<close> arithmetic is
    written out modulo \<open>2\<^sup>64\<close>. A C string is the list of bytes from its address on.
  \<^item> \<open>Buf\<close>: \<^verbatim>\<open>buf/buf.c\<close>. The record \<open>BUF_MEM\<close> is the struct; \<open>buf_inv\<close> is its invariant and
    \<open>buf_bytes\<close> its contents.
  \<^item> \<open>Cbs\<close>: the reader of \<^verbatim>\<open>bytestring/cbs.c\<close>. A \<open>CBS\<close> is the list of the bytes that are left; a
    function that fails returns \<open>None\<close> and the reader as the C code leaves it. \<open>Der\<close> defines DER
    (\<open>der_tlv\<close> from tag and contents) and shows that the parser of elements accepts exactly it.
  \<^item> \<open>Cbb\<close>: the writer of \<^verbatim>\<open>bytestring/cbb.c\<close>. The C objects form a chain, a root with a shared
    buffer and a child in each; a \<open>CBB\<close> here is the buffer with the list of the open children, and an
    operation on the \<open>d\<close>-th object of the chain has the argument \<open>d\<close>. \<open>CbbSpec\<close> has the abstract
    builder (finished bytes and the open parts) and the relation \<open>rep\<close>; \<open>CbbRefine\<close> shows that
    each operation that returns 1 refines the abstract one; \<open>CbbTree\<close> shows that operations succeed
    when there is memory (\<open>live\<close>, \<open>room\<close>) and proves whole runs correct. \<open>Asn1Int\<close> has the INTEGER
    readers and writers, \<open>CbbWrite\<close> the sessions of the typed writers, of texts, object identifiers
    and SETs.
  \<^item> \<open>Unicode\<close> (\<^verbatim>\<open>bytestring/unicode.c\<close>; the locale \<open>codec\<close> is what a character set promises, and
    \<open>total_codec\<close> in \<open>CbbWrite\<close> adds that its writer succeeds), \<open>Oid\<close> (object identifiers as text),
    \<open>SetOf\<close> (\<^verbatim>\<open>CBB_flush_asn1_set_of\<close>; \<^verbatim>\<open>qsort\<close> is a parameter with the contract of the C
    standard; the locale \<open>comparator\<close> is what it asks of a comparison).
  \<^item> \<open>Ber\<close>: \<^verbatim>\<open>bytestring/ber.c\<close> and \<^verbatim>\<open>asn1_compat.c\<close>. Documents are the datatype \<open>ber\<close>,
    \<open>ber_enc\<close> is their BER and \<open>ber_der\<close> their DER.
  \<^item> \<open>ConstTime\<close> (the constant-time helpers of \<^verbatim>\<open>internal.h\<close>) and \<open>Base64\<close>
    (\<^verbatim>\<open>base64/base64.c\<close>, block and streaming).
  \<^item> \<open>Stack\<close>: \<^verbatim>\<open>stack/stack.c\<close>. The record \<open>STACK\<close> is the struct; a pointer is an option and the
    slots that a reallocation leaves uninitialised are \<open>None\<close>. \<open>sk_list\<close> are the elements; the step
    relation \<open>sk_reach\<close> gives the stacks that calls can build and \<open>sk_inv\<close> what holds of them.
  \<^item> \<open>LHash\<close>: \<^verbatim>\<open>lhash/lhash.c\<close>. The record \<open>LHASH\<close> has the buckets as lists; the address of a link
    is the bucket and the position. The locale \<open>hash_interface\<close> is what the table asks of hash and
    comparison; it is interpreted on C strings with \<^verbatim>\<open>lh_strhash\<close>. \<open>lh_map\<close> is the table as a map.
  \<^item> \<open>StreamModes\<close> and \<open>Cbc\<close>: \<^verbatim>\<open>fipsmodule/modes\<close>. The block cipher with its key is the parameter
    \<open>block\<close>, a function on 16 bytes. The locale \<open>byte_stream\<close> says that a mode handles its input byte
    by byte, \<open>stream_pair\<close> that decryption undoes encryption; they are interpreted on OFB, CFB, CFB8
    and CTR. CBC runs on a flat memory, because input, output and ivec may overlap.

  \<^item> \<open>AsnString\<close> (\<^verbatim>\<open>asn1/asn1_lib.c\<close>, \<^verbatim>\<open>a_mbstr.c\<close>, \<^verbatim>\<open>x509/a_strex.c\<close>): the record
    \<open>ASN1_STRING\<close> with its invariant \<open>str_ok\<close>, and the conversion of texts to string types. \<open>IpAddr\<close>
    (addresses as text) and \<open>HostName\<close> (wildcards, names and addresses of a certificate) are
    \<^verbatim>\<open>x509v3/v3_utl.c\<close>, \<open>NameCons\<close> is \<^verbatim>\<open>v3_ncons.c\<close>; \<open>obeys\<close> and \<open>cert_obeys\<close> say what a
    certificate under constraints has to be.
  \<^item> \<open>Md32\<close> (\<^verbatim>\<open>fipsmodule/digest/md32_common.h\<close>), \<open>Sha1\<close>, \<open>Sha256\<close>, \<open>Sha512\<close> and \<open>Md5\<close>: the
    contexts are records, \<open>hash_rep\<close> is a context that has collected a message, and the locale
    \<open>md32\<close> what the collector asks of a block function; the digests of the standards
    (\<open>sha256_digest\<close> and the others) are defined beside the code. \<open>Digest\<close> is the interface of
    \<^verbatim>\<open>digest.c\<close> and \<^verbatim>\<open>digests.c\<close>; the locale \<open>digest_methods\<close> is the contract of its function pointers.
    \<open>Hmac\<close> and \<open>Hkdf\<close> are clients of it, with RFC 2104 (\<open>hmac_rfc\<close>) and RFC 5869 (\<open>hkdf_okm\<close>).
  \<^item> \<open>PbStream\<close>, \<open>PbWire\<close> and \<open>PbField\<close>: \<^verbatim>\<open>nanopb/pb_decode.c\<close> and \<^verbatim>\<open>nanopb/pb_encode.c\<close>. A stream is the
    record \<open>pb_istream\<close> or \<open>pb_ostream\<close> with its callback as a field; the locales \<open>input_stream\<close> and
    \<open>output_stream\<close> are the contracts of the callbacks, interpreted on the buffers of the library.
    \<open>leb\<close> and \<open>vval\<close> are base 128. The locale \<open>field_codec\<close> is the contract of the encoder and the
    decoder of a type, from which arrays get theirs; it is interpreted on all packable types.
  \<^item> \<open>Bio\<close> (\<^verbatim>\<open>bio/bio.c\<close>), \<open>BioPair\<close> (\<^verbatim>\<open>bio/pair.c\<close>) and \<open>BioMem\<close> (\<^verbatim>\<open>bio/bio_mem.c\<close>): input and output
    objects. The record \<open>bio\<close> is the struct, \<open>handle\<close> its method table. The locale \<open>byte_source\<close> is
    the contract of a BIO that is read from, \<open>ending_source\<close> adds an end of the input; they are
    interpreted on memory and on the ends of a pair. \<open>view\<close> is a pair as two queues (\<open>chan\<close>), the step
    relation \<open>pair_step\<close> the calls of a writer and a reader in any order.

  \<^bold>\<open>What the theorems show.\<close> Readers accept exactly the canonical encodings
  (\<open>CBS_get_any_asn1_exact\<close>, \<open>CBS_get_asn1_int_exact\<close>, \<open>cbs_get_utf8_exact\<close>,
  \<open>CBS_asn1_oid_to_text_exact\<close>, \<open>CBS_asn1_ber_to_der_exact\<close>, \<open>a2i_ipadd_text\<close>), writers produce them
  and succeed when there is memory (\<open>CBB_build_exact\<close> and the theorems on the sessions of writers);
  what is written is read back (\<open>asn1_integer_roundtrip\<close>, \<open>utf8_roundtrip\<close>,
  \<open>EVP_Encode_Decode_roundtrip\<close>, \<open>cbc128_roundtrip\<close>); streams do not depend on how they are cut
  (\<open>EVP_Decode_chunks_one_shot\<close>, \<open>stream_modes_pieces\<close>, the digests and HMAC); the containers refine
  lists and maps across reallocation, bisection and resizing (\<open>sk_find_reachable\<close>,
  \<open>sk_insert_delete\<close>, \<open>lh_is_map\<close>); overlapping buffers and counters that wrap are handled
  (\<open>CRYPTO_cbc128_correct\<close>, \<open>CRYPTO_ctr128_encrypt_ctr32_same\<close>); digests, HMAC and HKDF are those of
  the standards; what a certificate is accepted for is what its names and constraints allow
  (\<open>X509_check_names_exact\<close>, \<open>NAME_CONSTRAINTS_check_sound\<close>); fields of nanopb are read back as they
  were written, alone, in packed arrays and in submessages, and skipped without a loss of
  synchronisation (\<open>pb_field_roundtrip\<close>, \<open>pb_packed_roundtrip\<close>, \<open>pb_encode_submessage_exact\<close>); BIOs in
  memory and BIO pairs are queues (\<open>bio_mem_queue\<close>, \<open>bio_pair_queues\<close>), a message gets through a pair
  in the order of its bytes and in bounded time (\<open>bio_pair_transfer\<close>), and \<open>BIO_read_asn1_exact\<close> holds
  of both. Four theorems show defects of the code:
  \<^verbatim>\<open>cbs_find_ber\<close> forgets what it found (\<open>cbs_find_ber_forgets\<close>), \<^verbatim>\<open>sk_set\<close> leaves a wrong mark
  behind (\<open>sk_set_loses_element\<close>), \<^verbatim>\<open>OPENSSL_malloc\<close> wraps (\<open>OPENSSL_malloc_size\<close>), and
  \<^verbatim>\<open>pb_decode_varint32\<close> misses overflows (\<open>pb_decode_varint32_overflow_missed\<close>).

  \<^bold>\<open>Bounds.\<close> Theorems that promise success have a bound on the size of the data (\<open>2\<^sup>58\<close> bytes or
  more), so that no doubling of a capacity exceeds \<open>2\<^sup>62\<close>, the size up to which \<open>malloc_total\<close>
  serves requests; the bounds of base64 and of BIOs in memory are those of the code (\<^verbatim>\<open>INT_MAX\<close>). No definition has fuel:
  the loops of the code end, which the termination proofs show; the loop of \<^verbatim>\<open>cbs_convert_ber\<close> is
  a partial function, and \<open>cbs_convert_ber_returns\<close> shows that it always returns; so are the copying
  loops of a BIO pair, which return for every ring (\<open>read_ring_take\<close>, \<open>write_ring_append\<close>), and
  \<^verbatim>\<open>bio_read_all\<close>, which returns when its input ends (\<open>read_all_exact\<close>).

  \<^bold>\<open>Not modelled.\<close> The error queue (\<^verbatim>\<open>OPENSSL_PUT_ERROR\<close>) is left out of every function; a failure
  is its return value. Freeing is modelled only where it has a value to check. The rest of BoringSSL
  is not modelled: the ciphers themselves, whose C code is tables and bit slices beside assembly, GCM,
  big numbers and public-key cryptography, the template-driven parts of X.509 and PEM, BIOs on files and
  sockets, formatted output, TLS. Of
  nanopb the iteration over the fields of a message, which works on the memory of C structs through
  generated offsets, is left out with all that rests on it: pointer, callback, oneof and extension
  fields, defaults and releasing. Nor are upb and gRPC modelled, and the C++, Objective-C and Swift code.
\<close>

section \<open>The DER reader\<close>

text \<open>C1: \<open>CBS_get_any_asn1\<close> accepts exactly the DER elements. It returns a tag and contents
  if and only if the input starts with the DER encoding (minimal tag, minimal definite length below
  \<open>2\<^sup>32\<close>) of that tag and those contents, and it leaves the reader right after it.\<close>

theorem CBS_get_any_asn1_exact:
  "CBS_get_any_asn1 cbs = (Some (tag, body), rest) \<longleftrightarrow>
    cbs = der_tlv tag body @ rest \<and> length body < 2 ^ 32"
  by (rule CBS_get_any_asn1_iff)

text \<open>C2: a run of builder calls that writes a document of byte strings, length-prefixed parts
  and ASN.1 elements, nested to any depth, ends in \<open>CBB_finish\<close> returning exactly the
  encoding of the document when every part fits its length prefix, and fails otherwise; the lengths
  are not known when the parts are opened.\<close>

theorem CBB_build_exact:
  assumes "malloc_contract mal" "malloc_total mal" "cap < 2 ^ 61" "items_wf p"
    and "length (enc_items p) < 2 ^ 58"
  shows "build mal cap p = (if items_fit p then Some (enc_items p) else None)"
  using assms by (rule build_eq)

theorem CBB_build_exact_witness:
  "build zero_malloc 4 (Elem 0x20000010 (Elem 2 (Bytes [5] Done) (Pref 2 (Bytes [7, 8] Done) Done)) Done)
    = Some [0x30, 7, 2, 1, 5, 0, 2, 7, 8]"
proof -
  let ?p = "Elem 0x20000010 (Elem 2 (Bytes [5] Done) (Pref 2 (Bytes [7, 8] Done) Done)) Done"
  have "enc_items ?p = [0x30, 7, 2, 1, 5, 0, 2, 7, 8]" "items_wf ?p" "items_fit ?p"
    by (simp_all add: evals)
  then show ?thesis using CBB_build_exact [of zero_malloc 4 ?p] by simp
qed

section \<open>Integers\<close>

text \<open>C3: \<open>CBS_get_asn1_uint64\<close> and \<open>CBS_get_asn1_int64\<close> accept exactly the canonical DER INTEGERs of
  the values of their types: the shortest big-endian digits with a leading zero only where the top
  bit is set, and the shortest two's complement bytes.\<close>

theorem CBS_get_asn1_int_exact:
  "(CBS_get_asn1_uint64 cbs = (Some v, rest) \<longleftrightarrow>
      cbs = der_tlv CBS_ASN1_INTEGER (uint_content (be_bytes 8 (unat v))) @ rest) \<and>
    (CBS_get_asn1_int64 cbs = (Some w, rest) \<longleftrightarrow>
      cbs = der_tlv CBS_ASN1_INTEGER (sint_content (be_bytes 8 (unat w))) @ rest)"
  using CBS_get_asn1_uint64_iff CBS_get_asn1_int64_iff by blast

text \<open>C4: an integer written by \<open>CBB_add_asn1_uint64\<close> or \<open>CBB_add_asn1_int64\<close> in a session of
  its own is read back by the parser of the same type, whatever follows it; the writers succeed when
  there is memory.\<close>

theorem asn1_integer_roundtrip:
  assumes "malloc_contract mal" "malloc_total mal" "cap < 2 ^ 61"
  shows "(\<exists>der. single mal cap (\<lambda>cbb. CBB_add_asn1_uint64 mal 0 cbb v) = Some der \<and>
      CBS_get_asn1_uint64 (der @ rest) = (Some v, rest)) \<and>
    (\<exists>der. single mal cap (\<lambda>cbb. CBB_add_asn1_int64 mal 0 cbb w) = Some der \<and>
      CBS_get_asn1_int64 (der @ rest) = (Some w, rest))"
  by (simp add: uint64_written [OF assms] int64_written [OF assms] CBS_get_asn1_uint64_iff CBS_get_asn1_int64_iff)

theorem asn1_integer_roundtrip_witness:
  "\<exists>der. single zero_malloc 0 (\<lambda>cbb. CBB_add_asn1_int64 zero_malloc 0 cbb (- 129)) = Some der \<and>
      CBS_get_asn1_int64 (der @ [7]) = (Some (- 129), [7])"
  using asn1_integer_roundtrip [of zero_malloc 0 0 "[7]" "- 129"] by simp

section \<open>Text\<close>

text \<open>C5: \<open>cbs_get_utf8\<close> accepts exactly the shortest UTF-8 form of a valid code point; overlong
  forms, surrogates, non-characters and values above U+10FFFF are rejected. \<open>cbb_get_utf8_len\<close> is
  the length of that form.\<close>

theorem cbs_get_utf8_exact:
  "(cbs_get_utf8 cbs = (Some u, rest) \<longleftrightarrow> is_valid_code_point u \<and> cbs = utf8_enc u @ rest) \<and>
    length (utf8_enc u) = cbb_get_utf8_len u"
  by (simp add: utf8_get_iff length_utf8_enc)

text \<open>C6: a string of code points written as UTF-8 in a session of its own is its encoding if all are
  valid, and the session fails otherwise; what is written is read back.\<close>

theorem utf8_roundtrip:
  assumes "malloc_contract mal" "malloc_total mal" "cap < 2 ^ 61" "4 * length us < 2 ^ 58"
  shows "single mal cap (\<lambda>cbb. add_points cbb_add_utf8 mal 0 cbb us) =
      (if \<forall>u\<in>set us. is_valid_code_point u then Some (concat (map utf8_enc us)) else None) \<and>
    ((\<forall>u\<in>set us. is_valid_code_point u) \<longrightarrow>
      get_points cbs_get_utf8 (length us) (concat (map utf8_enc us) @ rest) = (Some us, rest))"
  using utf8t.points_written [OF assms] by (auto simp: utf8.get_points_iff)

theorem utf8_roundtrip_witness:
  "single zero_malloc 2 (\<lambda>cbb. add_points cbb_add_utf8 zero_malloc 0 cbb [0x41, 0x20ac]) = Some [0x41, 0xe2, 0x82, 0xac]
    \<and> single zero_malloc 2 (\<lambda>cbb. add_points cbb_add_utf8 zero_malloc 0 cbb [0x41, 0xd800]) = None"
proof -
  have "is_valid_code_point 0x41" "is_valid_code_point 0x20ac" "\<not> is_valid_code_point 0xd800"
    by (simp_all add: is_valid_code_point_def)
  moreover have "conts 2 0x20ac = [0x82, 0xac]" unfolding numeral_2_eq_2 by (simp add: byte_def)
  then have "utf8_enc 0x41 = [0x41]" "utf8_enc 0x20ac = [0xe2, 0x82, 0xac]"
    by (simp_all add: utf8_enc_def byte_def)
  ultimately show ?thesis
    using utf8_roundtrip [of zero_malloc 2 "[0x41, 0x20ac]" "[]"] utf8_roundtrip [of zero_malloc 2 "[0x41, 0xd800]" "[]"]
    by simp
qed

section \<open>Object identifiers\<close>

text \<open>C7: \<open>CBB_add_asn1_oid_from_text\<close> accepts exactly the dotted decimal texts of object
  identifiers (no empty component, no leading zero, first arc at most 2, second at most 39 below arc
  2, everything within 64 bits) and writes the DER contents of the identifier.\<close>

theorem CBB_add_asn1_oid_from_text_exact:
  assumes "malloc_contract mal" "malloc_total mal" "cap < 2 ^ 61" "length t < 2 ^ 54"
  shows "single mal cap (\<lambda>cbb. CBB_add_asn1_oid_from_text mal 0 cbb t (length t)) = Some der \<longleftrightarrow>
    (\<exists>cs. oid_ok cs \<and> t = oid_text cs \<and> der = oid_der cs)"
  by (rule oid_written [OF assms])

theorem CBB_add_asn1_oid_from_text_exact_witness:
  "single zero_malloc 0 (\<lambda>cbb. CBB_add_asn1_oid_from_text zero_malloc 0 cbb [49, 46, 50, 46, 56, 52, 48] (length [49, 46, 50, 46, 56, 52, 48 :: u8])) = Some [42, 134, 72]"
proof -
  have "oid_text [1, 2, 840] = [49, 46, 50, 46, 56, 52, 48]" "oid_der [1, 2, 840] = [42, 134, 72]" by code_simp+
  moreover have "oid_ok [1, 2, 840]" by simp
  ultimately have "\<exists>cs. oid_ok cs \<and> [49, 46, 50, 46, 56, 52, 48] = oid_text cs \<and> [42, 134, 72] = oid_der cs" by metis
  from CBB_add_asn1_oid_from_text_exact [THEN iffD2, OF _ _ _ _ this, of zero_malloc 0]
  show ?thesis by simp
qed

text \<open>C8: \<open>CBS_asn1_oid_to_text\<close> accepts exactly the DER contents of object identifiers (every
  arc minimal and within 64 bits) and returns their dotted decimal text, NUL terminated.\<close>

theorem CBS_asn1_oid_to_text_exact:
  assumes "malloc_contract mal" "malloc_total mal" "length cbs < 2 ^ 50"
  shows "CBS_asn1_oid_to_text mal cbs = Some txt \<longleftrightarrow>
    (\<exists>cs. oid_ok cs \<and> cbs = oid_der cs \<and> txt = oid_text cs @ [0])"
  by (rule oid_text_read [OF assms])

theorem CBS_asn1_oid_to_text_exact_witness:
  "CBS_asn1_oid_to_text zero_malloc [42, 134, 72] = Some [49, 46, 50, 46, 56, 52, 48, 0]"
proof -
  have "oid_text [1, 2, 840] = [49, 46, 50, 46, 56, 52, 48]" "oid_der [1, 2, 840] = [42, 134, 72]" by code_simp+
  moreover have "oid_ok [1, 2, 840]" by simp
  ultimately have "\<exists>cs. oid_ok cs \<and> [42, 134, 72] = oid_der cs \<and> [49, 46, 50, 46, 56, 52, 48, 0] = oid_text cs @ [0]"
    by (metis append.simps)
  from CBS_asn1_oid_to_text_exact [THEN iffD2, OF _ _ _ this, of zero_malloc] show ?thesis by simp
qed

section \<open>SET OF\<close>



section \<open>BER\<close>

text \<open>C10: the loop of \<open>cbs_convert_ber\<close> ends on every input, and never runs past it.\<close>

theorem cbs_convert_ber_returns:
  "\<exists>ok inp' out'. cbs_convert_ber mal d inp out st eoc depth = Some (ok, inp', out') \<and> length inp' \<le> length inp"
  using convert_ber_loop_returns [of mal d st eoc depth inp out]
  by (auto simp: cbs_convert_ber_def intro: exI [of _ False])



text \<open>An element in which \<open>cbs_find_ber\<close> sees no BER is not always DER. A constructed string
  followed by an empty SEQUENCE is forgotten, because the answer for the SEQUENCE overwrites the one
  for the string, and the BER is returned as if it were DER.\<close>

theorem cbs_find_ber_forgets:
  "CBS_asn1_ber_to_der zero_malloc [0x30, 9, 0x30, 5, 0x24, 3, 4, 1, 0xaa, 0x30, 0] =
      (Some ([0x30, 9, 0x30, 5, 0x24, 3, 4, 1, 0xaa, 0x30, 0], False), []) \<and>
    CBS_asn1_ber_to_der zero_malloc [0x30, 7, 0x30, 5, 0x24, 3, 4, 1, 0xaa] =
      (Some ([0x30, 5, 0x30, 3, 4, 1, 0xaa], True), [])"
proof -
  let ?s = "BDef 0x20000010 (BDef 0x20000004 (BPrim 4 [0xaa] BEnd) BEnd)"
  let ?t = "BDef 0x20000010 (?s (BDef 0x20000010 BEnd BEnd)) BEnd" and ?u = "BDef 0x20000010 (?s BEnd) BEnd"
  have "ber_enc ?t = [0x30, 9, 0x30, 5, 0x24, 3, 4, 1, 0xaa, 0x30, 0]" "ber_enc ?u = [0x30, 7, 0x30, 5, 0x24, 3, 4, 1, 0xaa]"
    "ber_der 0 ?u = [0x30, 5, 0x30, 3, 4, 1, 0xaa]" "length (ber_der 0 ?t) \<le> 0xfffffffe" "finds False ?u" "\<not> finds False ?t"
    by (simp_all add: evals)
  moreover have "ber_ok ?t" "ber_conv 0 0 ?t" "ber_ok ?u" "ber_conv 0 0 ?u"
    by (simp_all add: evals kMaxDepth_def child_string_tag_nz)
  ultimately show ?thesis using
    ber_to_der_eq [of zero_malloc ?t] ber_to_der_eq [of zero_malloc ?u] by (simp add: evals kMaxDepth_def child_string_tag_nz)
qed

section \<open>ASN.1 strings\<close>





text \<open>\<open>ASN1_STRING_to_UTF8\<close> returns the UTF-8 text of a string object whose type has a
  character set and whose contents are an encoding in it, with its length and a NUL, and fails for
  any other contents.\<close>

theorem ASN1_STRING_to_UTF8_exact:
  assumes "malloc_contract mal" "malloc_total mal" "str_ok s" "length (contents s) < 2 ^ 28"
    and "str_form (str_type s) = Some f"
  shows "(encodes f us (contents s) \<and> \<not> has_bom f us \<longrightarrow>
      ASN1_STRING_to_UTF8 mal (Some s) = Some (int (length (utf8_text us)), Some (utf8_text us @ [0]))) \<and>
    ((\<nexists>us. encodes f us (contents s) \<and> \<not> has_bom f us) \<longrightarrow> ASN1_STRING_to_UTF8 mal (Some s) = Some (-1, None))"
  using ASN1_STRING_to_UTF8_text [OF assms] by blast

theorem ASN1_STRING_to_UTF8_exact_witness:
  "ASN1_STRING_to_UTF8 zero_malloc (Some (text_string 30 MB_BMP [0x41, 0xe9] fresh_string)) = Some (3, Some [0x41, 0xc3, 0xa9, 0])"
proof -
  let ?t = "text_string 30 MB_BMP [0x41, 0xe9] fresh_string"
  have u: "utf8_text [0x41, 0xe9] = [0x41, 0xc3, 0xa9]" by code_simp
  have b: "be_bytes 2 65 = [0, 0x41]" "be_bytes 2 233 = [0, 0xe9]" by code_simp+
  have t: "str_data ?t = Some ([0, 0x41, 0, 0xe9] @ 0 # [])" "str_length ?t = int (length [0, 0x41, 0, 0xe9 :: u8])"
    by (simp_all add: text_string_def Let_def b)
  note s = str_okI [OF this]
  have e: "encodes MB_BMP [0x41, 0xe9] [0, 0x41, 0, 0xe9]"
    by (simp add: encodes_def is_valid_code_point_def b)
  have f: "str_form 30 = Some MB_BMP" by code_simp
  have "\<not> has_bom MB_BMP [0x41, 0xe9]" by (simp add: has_bom_def)
  moreover have "str_type ?t = 30" by (simp add: text_string_def Let_def)
  ultimately show ?thesis
    using ASN1_STRING_to_UTF8_exact [of zero_malloc ?t MB_BMP "[0x41, 0xe9]"] s e f by (simp add: u)
qed

section \<open>IP addresses\<close>

text \<open>C16: \<open>a2i_ipadd\<close> on the text of an IP address. Four decimal numbers below 256 give the four
  octets; eight groups of up to four hexadecimal digits give the sixteen octets, and a double colon
  stands for the zeros that are missing.\<close>

theorem a2i_ipadd_text:
  assumes "int_conv conv" "a < 256" "b < 256" "c < 256" "d < 256"
    and "\<forall>g\<in>set xs \<union> set ys. is_group g" "length xs + length ys \<le> 7"
    and "\<forall>g\<in>set zs. is_group g" "length zs = 8"
  shows "a2i_ipadd conv (dec a @ 46 # dec b @ 46 # dec c @ 46 # dec d) = Some [byte a, byte b, byte c, byte d] \<and>
    a2i_ipadd conv (joined 58 zs) = Some (concat (map group_octets zs)) \<and>
    a2i_ipadd conv (joined 58 xs @ [58, 58] @ joined 58 ys) =
      Some (concat (map group_octets xs) @ replicate (16 - 2 * (length xs + length ys)) 0 @
        concat (map group_octets ys))"
  using ipv4_dotted [OF assms(1-5), of "[]"] ipv6_full [OF assms(8,9)] ipv6_omission [OF assms(6,7)] by simp

theorem a2i_ipadd_text_witness:
  "a2i_ipadd id [49, 50, 55, 46, 48, 46, 48, 46, 49] = Some [127, 0, 0, 1] \<and>
    a2i_ipadd id [50, 58, 58, 49] = Some ([0, 2] @ replicate 12 0 @ [0, 1])"
proof -
  have g: "is_group [50]" "is_group [49]" by (simp_all add: is_group_def hex_nibble_def)
  have d: "dec 127 = [49, 50, 55]" "dec 0 = [48]" "dec 1 = [49]" by code_simp+
  have o: "group_octets [50] = [0, 2]" "group_octets [49] = [0, 1]"
  proof -
    have "hex_value [50] = 2" "hex_value [49] = 1"
      by (simp_all add: hex_value_def hex_nibble_def)
    moreover have "be_bytes 2 2 = [0, 2]" "be_bytes 2 1 = [0, 1]"
      by code_simp+
    ultimately show "group_octets [50] = [0, 2]" "group_octets [49] = [0, 1]"
      by (simp_all only: group_octets_def)
  qed
  have b: "byte 127 = 127" "byte 0 = 0" "byte 1 = 1" by code_simp+
  have n: "length [[50 :: u8]] + length [[49 :: u8]] \<le> 7" "length (replicate 8 [49 :: u8]) = 8"
    "16 - 2 * (length [[50 :: u8]] + length [[49 :: u8]]) = 12" by simp_all
  have i: "int_conv id" by (simp add: int_conv_def)
  have "\<forall>g\<in>set [[50]] \<union> set [[49]]. is_group g" "\<forall>g\<in>set (replicate 8 [49]). is_group g"
    using g by simp_all
  note r = a2i_ipadd_text [where a = 127 and b = 0 and c = 0 and d = 1, OF i _ _ _ _ this(1) n(1) this(2) n(2)]
  have l: "(127 :: nat) < 256" "(0 :: nat) < 256" "(1 :: nat) < 256" by simp_all
  note r = r [OF l(1,2,2,3)]
  from r [THEN conjunct1] r [THEN conjunct2, THEN conjunct2, unfolded n(3)] show ?thesis
    unfolding d b joined.simps list.map o concat.simps append.simps append_Nil2 by (rule conjI)
qed

section \<open>Names of certificates\<close>



text \<open>A pattern that is a star, a dot and at least two plain labels matches exactly the host
  names that put one non-empty label in the place of the star.\<close>

theorem equal_wildcard_star:
  assumes "\<forall>l\<in>set (labels rest). good_label True False l" "2 \<le> length (labels rest)"
    and "flags AND X509_CHECK_FLAG_DOT_SUBDOMAINS = 0" "flags AND X509_CHECK_FLAG_MULTI_LABEL_WILDCARDS = 0"
  shows "equal_wildcard (42 # 46 # rest) s flags = Some True \<longleftrightarrow>
    (\<exists>l r. s = l @ 46 # r \<and> l \<noteq> [] \<and> (l = [42] \<or> (\<forall>c\<in>set l. ldh c)) \<and> lower_text r = lower_text rest)"
  by (rule equal_wildcard_first [OF assms])

theorem equal_wildcard_star_witness:
  "equal_wildcard [42, 46, 97, 46, 98] [120, 46, 65, 46, 98] 0 = Some True"
proof -
  have "\<forall>l\<in>set (labels [97, 46, 98]). good_label True False l" by (simp add: good_label_def ldh_def)
  note r = equal_wildcard_star [OF this, of 0 "[120, 46, 65, 46, 98]"]
  have "\<exists>l r. [120, 46, 65, 46, 98] = l @ 46 # r \<and> l \<noteq> [] \<and> (l = [42] \<or> (\<forall>c\<in>set l. ldh c)) \<and>
      lower_text r = lower_text [97, 46, 98]"
    by (rule exI [of _ "[120]"], rule exI [of _ "[65, 46, 98]"]) (simp add: ldh_def ascii_lower_def)
  with r show ?thesis by simp
qed

text \<open>C14: a certificate with alternative names is matched against a host name exactly when one of
  its non-empty dNSNames matches, and against the text of an IP address exactly when one of its
  addresses has the octets that \<open>a2i_ipadd\<close> reads; nothing else in the certificate counts.\<close>

theorem X509_check_names_exact:
  assumes "x_altname x = Some gens" "0 \<notin> set chk" "\<not> (1 < length chk \<and> hd chk = 46)"
    and "\<forall>s. GN_IPADD s \<in> set gens \<longrightarrow> str_ok s"
  shows "(\<exists>peer. X509_check_host mal x (Some chk) flags p =
      Some (of_bool (\<exists>s. GN_DNS s \<in> set gens \<and> usable V_ASN1_IA5STRING s \<and>
        host_equal (plain_flags flags) (contents s) chk), peer)) \<and>
    (\<exists>peer. X509_check_ip_asc mal conv x (Some txt) flags =
      Some (case a2i_ipadd conv txt of None \<Rightarrow> -2
        | Some ip \<Rightarrow> of_bool (\<exists>s. GN_IPADD s \<in> set gens \<and> usable V_ASN1_OCTET_STRING s \<and> contents s = ip), peer))"
proof (intro conjI)
  show "\<exists>peer. X509_check_host mal x (Some chk) flags p =
      Some (of_bool (\<exists>s. GN_DNS s \<in> set gens \<and> usable V_ASN1_IA5STRING s \<and>
        host_equal (plain_flags flags) (contents s) chk), peer)"
    by (rule X509_check_host_result [OF assms(1-3)])
  show "\<exists>peer. X509_check_ip_asc mal conv x (Some txt) flags =
      Some (case a2i_ipadd conv txt of None \<Rightarrow> -2
        | Some ip \<Rightarrow> of_bool (\<exists>s. GN_IPADD s \<in> set gens \<and> usable V_ASN1_OCTET_STRING s \<and> contents s = ip), peer)"
  proof (cases "a2i_ipadd conv txt")
    case (Some ip)
    then have "length ip < 2 ^ 31" using a2i_ipadd_length [OF Some] by (auto split: if_splits)
    from X509_check_ip_result [OF assms(1,4) this] show ?thesis using Some by (simp add: X509_check_ip_asc_def)
  qed (simp add: X509_check_ip_asc_def)
qed

theorem X509_check_names_exact_witness:
  "\<exists>peer. X509_check_host zero_malloc
     \<lparr>x_subject = \<lparr>nm_entries = [], nm_modified = False, nm_canon_enc = []\<rparr>,
      x_altname = Some [GN_DNS (text_string V_ASN1_IA5STRING MB_ASC [0x61, 0x2e, 0x62] fresh_string)]\<rparr>
     (Some [0x41, 0x2e, 0x62]) X509_CHECK_FLAG_NO_WILDCARDS False = Some (1, peer)"
proof -
  let ?s = "text_string V_ASN1_IA5STRING MB_ASC [0x61, 0x2e, 0x62] fresh_string"
  let ?x = "\<lparr>x_subject = \<lparr>nm_entries = [], nm_modified = False, nm_canon_enc = []\<rparr>, x_altname = Some [GN_DNS ?s]\<rparr>"
  have s: "usable V_ASN1_IA5STRING ?s" "contents ?s = [0x61, 0x2e, 0x62]"
    by (simp_all add: usable_def text_string_def contents_def)
  have "host_equal (plain_flags X509_CHECK_FLAG_NO_WILDCARDS) [0x61, 0x2e, 0x62] [0x41, 0x2e, 0x62]"
    by (simp add: host_equal_def equal_nocase_def skip_prefix_def X509_CHECK_FLAG_NO_WILDCARDS_def
        X509_CHECK_FLAG_DOT_SUBDOMAINS_def ascii_lower_def)
  then show ?thesis
    using X509_check_names_exact [of ?x "[GN_DNS ?s]" "[0x41, 0x2e, 0x62]" zero_malloc X509_CHECK_FLAG_NO_WILDCARDS False]
      s by simp
qed

text \<open>C12: a certificate that \<open>NAME_CONSTRAINTS_check\<close> accepts obeys the constraints: its subject, the
  mail addresses in the subject and every alternative name match a permitted subtree of their type,
  if there is one, and no excluded one, and the subtrees that apply have no minimum and no maximum.
  The number of comparisons was at most \<open>2\<^sup>20\<close>.\<close>

theorem NAME_CONSTRAINTS_check_sound:
  assumes "NAME_CONSTRAINTS_check i2d x nc = Some X509_V_OK"
    and "length (nm_entries (x_subject x)) < SIZE_MOD" "length (case x_altname x of None \<Rightarrow> [] | Some gens \<Rightarrow> gens) < SIZE_MOD"
    and "length (permittedSubtrees nc) < SIZE_MOD" "length (excludedSubtrees nc) < SIZE_MOD"
  shows "cert_obeys i2d x nc \<and>
    (length (nm_entries (x_subject x)) + length (case x_altname x of None \<Rightarrow> [] | Some gens \<Rightarrow> gens)) *
      (length (permittedSubtrees nc) + length (excludedSubtrees nc)) \<le> 2 ^ 20"
  using check_obeys [OF assms(1)] check_count [OF assms] by blast

theorem NAME_CONSTRAINTS_check_sound_witness:
  "let s = text_string V_ASN1_IA5STRING MB_ASC [0x61, 0x2e, 0x62] fresh_string;
       b = text_string V_ASN1_IA5STRING MB_ASC [0x62] fresh_string;
       nm = \<lparr>nm_entries = [], nm_modified = False, nm_canon_enc = []\<rparr>
   in cert_obeys Some \<lparr>x_subject = nm, x_altname = Some [GN_DNS s]\<rparr>
     \<lparr>permittedSubtrees = [\<lparr>sub_base = GN_DNS b, sub_minimum = None, sub_maximum = None\<rparr>], excludedSubtrees = []\<rparr>"
proof -
  let ?s = "text_string V_ASN1_IA5STRING MB_ASC [0x61, 0x2e, 0x62] fresh_string"
  let ?b = "text_string V_ASN1_IA5STRING MB_ASC [0x62] fresh_string"
  let ?x = "\<lparr>x_subject = \<lparr>nm_entries = [], nm_modified = False, nm_canon_enc = []\<rparr>, x_altname = Some [GN_DNS ?s]\<rparr>"
  let ?nc = "\<lparr>permittedSubtrees = [\<lparr>sub_base = GN_DNS ?b, sub_minimum = None, sub_maximum = None\<rparr>], excludedSubtrees = []\<rparr>"
  have "contents ?s = [0x61, 0x2e, 0x62]" "contents ?b = [0x62]" "plain_str ?s" "plain_str ?b"
    by (simp_all add: plain_str_def text_string_def contents_def str_ok_def)
  moreover from this have "dns_under (contents ?b) (contents ?s)"
    by (subst dns_under_labels) (simp_all add: ascii_lower_def suffix_def)
  ultimately have "nc_dns ?s ?b = Some X509_V_OK" using nc_dns_result [of ?s ?b] by simp
  then have "NAME_CONSTRAINTS_check Some ?x ?nc = Some X509_V_OK"
    by (simp add: NAME_CONSTRAINTS_check_def nc_too_many_def nc_match_def SIZE_MOD_def Let_def)
  from NAME_CONSTRAINTS_check_sound [OF this] show ?thesis by (simp add: Let_def SIZE_MOD_def)
qed

text \<open>C13: the matching of one name with a constraint, on strings without NUL. A DNS name matches
  when the labels of the constraint are its last labels; mail addresses and URIs have the verdicts
  stated with them.\<close>

theorem nc_match_single_exact:
  assumes "plain_str s" "plain_str b"
  shows "(contents b \<noteq> [] \<and> hd (contents b) \<noteq> 46 \<longrightarrow>
      nc_match_single i2d (GN_DNS s) (GN_DNS b) =
        Some (if suffix (map lower_text (labels (contents b))) (map lower_text (labels (contents s)))
          then X509_V_OK else X509_V_ERR_PERMITTED_VIOLATION)) \<and>
    nc_match_single i2d (GN_EMAIL s) (GN_EMAIL b) = Some (email_verdict (contents b) (contents s)) \<and>
    nc_match_single i2d (GN_URI s) (GN_URI b) = Some (uri_verdict (contents b) (contents s))"
  using nc_dns_result [OF assms] nc_email_result [OF assms] nc_uri_result [OF assms] dns_under_labels
  by simp

theorem nc_match_single_exact_witness:
  "let s = text_string V_ASN1_IA5STRING MB_ASC [0x61, 0x2e, 0x42] fresh_string;
       b = text_string V_ASN1_IA5STRING MB_ASC [0x62] fresh_string
   in nc_match_single Some (GN_DNS s) (GN_DNS b) = Some X509_V_OK"
proof -
  let ?s = "text_string V_ASN1_IA5STRING MB_ASC [0x61, 0x2e, 0x42] fresh_string"
  let ?b = "text_string V_ASN1_IA5STRING MB_ASC [0x62] fresh_string"
  have "contents ?s = [0x61, 0x2e, 0x42]" "contents ?b = [0x62]" "plain_str ?s" "plain_str ?b"
    by (simp_all add: plain_str_def text_string_def contents_def str_ok_def)
  then show ?thesis
    using nc_match_single_exact [of ?s ?b Some] by (simp add: ascii_lower_def suffix_def Let_def)
qed

section \<open>Base64\<close>

text \<open>C19: the streaming encoder does not depend on how its input is cut into calls: its output is the
  input in lines of 48 bytes, each line encoded on its own and ended by a newline. What it wrote, cut
  anywhere, is decoded by the streaming decoder to the original bytes.\<close>

theorem EVP_Encode_Decode_roundtrip:
  assumes "\<forall>c\<in>set cs. length c \<le> 2 ^ 30" "\<forall>d\<in>set ds. length d \<le> INT_MAX"
    and "concat ds = encode_chunks EVP_EncodeInit cs"
  shows "encode_chunks EVP_EncodeInit cs = enc_lines (concat cs) \<and> decode_chunks EVP_DecodeInit ds = Some (concat cs)"
  using decode_chunks_encode [OF assms(2)] encode_chunks_rep [OF enc_rep_init assms(1)] assms(3) by simp

theorem EVP_Encode_Decode_roundtrip_witness:
  "decode_chunks EVP_DecodeInit [encode_chunks EVP_EncodeInit [[1, 2], [3, 4]]] = Some [1, 2, 3, 4]"
proof -
  have "length (encode_chunks EVP_EncodeInit [[1, 2], [3, 4]]) \<le> INT_MAX"
    using encode_chunks_rep [OF enc_rep_init, of "[[1, 2], [3, 4]]"]
    by (simp add: enc_lines_def length_full_lines length_encode_loop DATA_SIZE_def INT_MAX_def)
  then have "decode_chunks EVP_DecodeInit [encode_chunks EVP_EncodeInit [[1, 2], [3, 4]]] = Some (concat [[1, 2], [3, 4]])"
    by (intro EVP_Encode_Decode_roundtrip [THEN conjunct2]) (simp_all del: encode_chunks.simps decode_chunks.simps)
  then show ?thesis by simp
qed

text \<open>C20: the streaming decoder is the one-shot decoder. On every input, in every cut, it accepts
  exactly what \<open>EVP_DecodeBase64\<close> accepts once the white space is removed, with the same result.\<close>

theorem EVP_Decode_chunks_one_shot:
  assumes "\<forall>c\<in>set cs. length c \<le> INT_MAX"
  shows "decode_chunks EVP_DecodeInit cs =
    (let inp = filter (\<lambda>c. \<not> is_blank c) (concat cs); (ok, n, out) = EVP_DecodeBase64 (length inp) inp
     in if ok then Some out else None)"
  by (rule decode_chunks_decode [OF assms])

theorem EVP_Decode_chunks_one_shot_witness:
  "decode_chunks EVP_DecodeInit [[65, 65], [10, 61, 61]] = Some [0] \<and> decode_chunks EVP_DecodeInit [[65, 61], [61, 61]] = None"
proof -
  have "EVP_DecodeBase64 (Suc (Suc (Suc (Suc 0)))) [65, 65, 61, 61] = (True, 1, [0])"
    "EVP_DecodeBase64 (Suc (Suc (Suc (Suc 0)))) [65, 61, 61, 61] = (False, 0, [])"
    by code_simp+
  then show ?thesis
    using EVP_Decode_chunks_one_shot [of "[[65, 65], [10, 61, 61]]"] EVP_Decode_chunks_one_shot [of "[[65, 61], [61, 61]]"]
    by (simp add: INT_MAX_def is_blank_def del: decode_chunks.simps)
qed

section \<open>Stacks\<close>

text \<open>C27: on every stack that calls of the library can build, except with \<open>sk_set\<close>, \<open>sk_find\<close>
  returns the index of the first match, whether it scans the elements or searches them by bisection
  because they are known to be sorted.\<close>

theorem sk_find_reachable:
  assumes "malloc_contract mal" "qsort_contract qsort" "sk_reach mal qsort run s"
  shows "sk_find (Some s) p run =
    (case scomp s of
       None \<Rightarrow> first_from (\<lambda>q. q = p) (sk_list s) 0
     | Some f \<Rightarrow> if p = None then None else first_from (\<lambda>e. run f p e = 0) (sk_list s) 0)"
  using sk_reach_inv [OF assms] by (intro sk_find_first) (simp_all add: sk_inv_def)

theorem sk_find_reachable_witness:
  "sk_find (Some (num_stack [1, 2, 3] True)) (Some 2) num_cmp = Some 1"
  using sk_find_reachable [OF _ isort_contract num_stack_reach, of "Some 2"]
  by (simp add: num_stack_wf num_cmp_def)

text \<open>With room in memory \<open>sk_insert\<close> puts the element at its index, or at the end when the
  index is past it, whether or not the array has to grow, and \<open>sk_delete\<close> of that index takes it
  out again.\<close>

theorem sk_insert_delete:
  assumes "malloc_contract mal" "malloc_total mal" "sk_wf s" "snum_alloc s < 2 ^ 56"
  shows "\<exists>s' s''. sk_insert mal (Some s) p i = (snum s + 1, Some s') \<and> sk_wf s' \<and>
    sk_list s' = take i (sk_list s) @ [p] @ drop i (sk_list s) \<and>
    sk_delete (Some s') (min i (snum s)) = (p, Some s'') \<and> sk_list s'' = sk_list s"
proof -
  obtain s' where s': "sk_insert mal (Some s) p i = (snum s + 1, Some s')" "sk_wf s'"
    "sk_list s' = take i (sk_list s) @ [p] @ drop i (sk_list s)" "snum s' = snum s + 1"
    by (rule sk_insert_success [OF assms, of p i])
  have l: "length (sk_list s) = snum s" using assms(3) by simp
  have "min i (snum s) < snum s'" using s'(4) by simp
  then obtain s'' where "sk_delete (Some s') (min i (snum s)) = (sk_list s' ! min i (snum s), Some s'')"
    "sk_list s'' = take (min i (snum s)) (sk_list s') @ drop (min i (snum s) + 1) (sk_list s')"
    by (rule sk_delete_eq [OF s'(2)])
  then show ?thesis using s' l by (intro exI [of _ s'] exI [of _ s'']) (auto simp: nth_append min_def)
qed

theorem sk_insert_delete_witness:
  "\<exists>s'. sk_insert zero_malloc (Some (num_stack [1, 2, 3] True)) (Some 9) 1 = (4, Some s') \<and>
    sk_list s' = [Some 1, Some 9, Some 2, Some 3]"
  using sk_insert_delete [of zero_malloc "num_stack [1, 2, 3] True" "Some 9" 1]
  by (auto simp: num_stack_wf)

text \<open>\<open>sk_deep_copy\<close> never leaks. When every element can be copied it returns a stack of the
  copies and exactly these are new on the heap; when one cannot, it fails and the heap is as it was,
  the copies made before the failure being freed.\<close>

theorem sk_deep_copy_no_leak:
  assumes "malloc_contract mal" "malloc_total mal" "sk_wf s" "snum_alloc s < 2 ^ 56"
  shows "case sk_deep_copy mal (Some s) live_copy cp live_free g heap of
      (None, heap') \<Rightarrow> (\<exists>x\<in>set (objects (sk_list s)). cp x = None) \<and> heap' = heap
    | (Some s', heap') \<Rightarrow> (\<forall>x\<in>set (objects (sk_list s)). cp x \<noteq> None) \<and>
        sk_list s' = map (copy_slot cp) (sk_list s) \<and> heap' = heap + mset (objects (sk_list s'))"
proof -
  from sk_deep_copy_eq [OF assms, of cp g heap] obtain s' where
    e: "sk_deep_copy mal (Some s) live_copy cp live_free g heap =
      (if \<forall>x\<in>set (objects (sk_list s)). cp x \<noteq> None then (Some s', heap + mset (objects (sk_list s'))) else (None, heap))"
    and l: "sk_list s' = map (copy_slot cp) (sk_list s)" by blast
  show ?thesis
  proof (cases "\<forall>x\<in>set (objects (sk_list s)). cp x \<noteq> None")
    case True
    then show ?thesis unfolding e if_P [OF True] using l by simp
  next
    case False
    then show ?thesis unfolding e if_not_P [OF False] by simp
  qed
qed

theorem sk_deep_copy_no_leak_witness:
  "sk_deep_copy zero_malloc (Some (num_stack [1, 2, 3] True)) live_copy (\<lambda>x. if x = 3 then None else Some x)
    live_free () {#7#} = (None, {#7#})"
  using sk_deep_copy_no_leak [of zero_malloc "num_stack [1, 2, 3] True" "\<lambda>x. if x = 3 then None else Some x" "{#7#}" "()"]
  by (auto simp: num_stack_wf split: prod.splits option.splits)

text \<open>\<open>sk_set\<close> keeps the mark that the elements are sorted, so a value stored with it can be
  lost to \<open>sk_find\<close> although it is on the stack.\<close>

theorem sk_set_loses_element:
  "\<exists>s s'. sk_reach zero_malloc isort num_cmp s \<and> sk_set (Some s) 0 (Some 9) = (Some 9, Some s') \<and>
    sk_value (Some s') 0 = Some 9 \<and> sk_find (Some s') (Some 9) num_cmp = None"
proof -
  have "sk_set (Some (num_stack [1, 2, 3] True)) 0 (Some 9) = (Some 9, Some (num_stack [9, 2, 3] True))"
    "sk_value (Some (num_stack [9, 2, 3] True)) 0 = Some 9"
    by (simp_all add: sk_set_def sk_value_def num_stack_def)
  moreover have "sk_find (Some (num_stack [9, 2, 3] True)) (Some 9) num_cmp = None"
    by (simp add: sk_find_def num_stack_def sk_is_sorted_def find_loop.simps num_cmp_def eval_nat_numeral)
  ultimately show ?thesis using num_stack_reach by blast
qed

section \<open>Hash tables\<close>

text \<open>C28: a hash table is a map. Every sequence of \<open>lh_insert\<close>, \<open>lh_delete\<close> and
  \<open>lh_retrieve\<close> on a new table gives the answers of a map in which keys that compare equal share a
  value, however the table is resized on the way.\<close>

theorem lh_is_map:
  fixes hash :: "'a \<Rightarrow> u32"
  assumes "hash_interface hash cmp" "malloc_total mal"
  shows "\<exists>lh. lh_new mal = Some lh \<and> lh_calls mal hash cmp lh cs = map_calls cmp (\<lambda>_. None) cs"
proof -
  note m = malloc_total_malloc [OF assms(2)]
  have "OPENSSL_malloc mal SIZEOF_LHASH \<noteq> None" "OPENSSL_malloc mal (8 * kMinNumBuckets) \<noteq> None"
    by (rule m, simp add: SIZEOF_LHASH_def kMinNumBuckets_def)+
  then obtain lh :: "'a LHASH" where lh: "lh_new mal = Some lh" "buckets lh = replicate kMinNumBuckets []"
    by (auto simp: lh_new_def)
  have "lh_map cmp lh = (\<lambda>_. None)" by (simp add: lh_map_def lh(2) fun_eq_iff)
  moreover have "OPENSSL_malloc mal SIZEOF_LHASH_ITEM \<noteq> None" by (rule m) (simp add: SIZEOF_LHASH_ITEM_def)
  moreover have "lh_inv hash cmp lh" using lh_new_inv [OF lh(1)] by blast
  ultimately show ?thesis using hash_interface.lh_calls_map [OF assms(1)] lh(1) by metis
qed

theorem lh_is_map_witness:
  "\<exists>lh. lh_new zero_malloc = Some lh \<and>
    lh_calls zero_malloc str_hash str_cmp lh [Insert [97], Insert [98], Retrieve [97], Delete [97], Retrieve [97]]
      = [None, None, Some [97], Some [97], None]"
  using lh_is_map [OF lh_strings.hash_interface_axioms, of zero_malloc
      "[Insert [97], Insert [98], Retrieve [97], Delete [97], Retrieve [97]]"]
  by (simp add: str_cmp_zero cstr_def)

section \<open>CBC\<close>

text \<open>C29: \<open>CRYPTO_cbc128_encrypt\<close> and \<open>CRYPTO_cbc128_decrypt\<close> on whole blocks are CBC encryption and
  decryption for every overlap of input and output that the code allows, the decryption on both of its
  paths: the output is that of what the input held before the call, the ivec becomes the last
  ciphertext block, and no other byte of memory changes.\<close>

theorem CRYPTO_cbc128_correct:
  assumes "keeps16 block" "out \<le> inp \<or> inp + 16 * k \<le> out"
    and "ivec + 16 \<le> out \<or> out + 16 * k \<le> ivec" "ivec + 16 \<le> inp \<or> inp + 16 * k \<le> ivec"
  shows "(let m' = CRYPTO_cbc128_encrypt block m inp out (16 * k) ivec in
      rd m' out (16 * k) = cbc_enc block (rd m ivec 16) (rd m inp (16 * k)) \<and>
      rd m' ivec 16 = (if k = 0 then rd m ivec 16 else rd m' (out + 16 * k - 16) 16) \<and>
      (\<forall>x. (x < out \<or> out + 16 * k \<le> x) \<and> (x < ivec \<or> ivec + 16 \<le> x) \<longrightarrow> m' x = m x)) \<and>
    (let m' = CRYPTO_cbc128_decrypt block m inp out (16 * k) ivec in
      rd m' out (16 * k) = cbc_dec block (rd m ivec 16) (rd m inp (16 * k)) \<and>
      rd m' ivec 16 = (if k = 0 then rd m ivec 16 else rd m (inp + 16 * k - 16) 16) \<and>
      (\<forall>x. (x < out \<or> out + 16 * k \<le> x) \<and> (x < ivec \<or> ivec + 16 \<le> x) \<longrightarrow> m' x = m x))"
  using CRYPTO_cbc128_encrypt_blocks [OF assms(1,2,3) refl] CRYPTO_cbc128_decrypt_blocks [OF assms refl]
  by (simp add: Let_def)

theorem CRYPTO_cbc128_correct_witness:
  "rd (CRYPTO_cbc128_encrypt rev (\<lambda>_. 1) 108 100 32 0) 100 32 = cbc_enc rev (replicate 16 1) (replicate 32 1) \<and>
    rd (CRYPTO_cbc128_decrypt rev (\<lambda>_. 1) 108 100 32 0) 100 32 = cbc_dec rev (replicate 16 1) (replicate 32 1)"
  using CRYPTO_cbc128_correct [of rev 100 108 2 0 "\<lambda>_. 1"]
  by (simp add: keeps16_def Let_def)

text \<open>A message encrypted with \<open>CRYPTO_cbc128_encrypt\<close>, even in place, and decrypted with
  \<open>CRYPTO_cbc128_decrypt\<close>, even in place, is the message again, when both start from the same initial
  vector and the block functions are inverse.\<close>

theorem cbc128_roundtrip:
  assumes "keeps16 block" "keeps16 dblock" "\<forall>b. length b = 16 \<longrightarrow> dblock (block b) = b"
    and "out \<le> inp \<or> inp + 16 * k \<le> out" "ivec + 16 \<le> out \<or> out + 16 * k \<le> ivec"
    and "dst \<le> out \<or> out + 16 * k \<le> dst" "divec + 16 \<le> dst \<or> dst + 16 * k \<le> divec"
      "divec + 16 \<le> out \<or> out + 16 * k \<le> divec" "divec + 16 \<le> ivec \<or> ivec + 16 \<le> divec"
    and "rd m divec 16 = rd m ivec 16"
  shows "rd (CRYPTO_cbc128_decrypt dblock (CRYPTO_cbc128_encrypt block m inp out (16 * k) ivec) out dst (16 * k) divec)
    dst (16 * k) = rd m inp (16 * k)"
proof -
  let ?m = "CRYPTO_cbc128_encrypt block m inp out (16 * k) ivec"
  note E = CRYPTO_cbc128_encrypt_blocks [OF assms(1,4,5) refl, where m = m]
  have iv: "rd ?m divec 16 = rd m ivec 16"
    unfolding assms(10) [symmetric] using assms(8,9) by (intro rd_cong E(3)) auto
  have "cbc_dec dblock (rd m ivec 16) (cbc_enc block (rd m ivec 16) (rd m inp (16 * k))) = rd m inp (16 * k)"
    using assms(3) by (intro cbc_dec_enc [OF assms(1)]) auto
  then show ?thesis using CRYPTO_cbc128_decrypt_blocks [OF assms(2,6,7,8) refl, where m = ?m] iv E(1) by simp
qed

theorem cbc128_roundtrip_witness:
  "rd (CRYPTO_cbc128_decrypt rev (CRYPTO_cbc128_encrypt rev (\<lambda>_. 1) 100 100 32 0) 100 100 32 16) 100 32 = replicate 32 1"
  using cbc128_roundtrip [of rev rev 100 100 2 0 100 16 "\<lambda>_. 1"]
  by (simp add: keeps16_def)

section \<open>Stream modes\<close>

text \<open>C30: OFB, CFB with a feedback of a block or a byte, and CTR. Any number of calls on the pieces of
  a message give the output and the state of one call on the whole message, from any position in a
  block, and decryption with the same initial state gives the message back and ends in the same
  state.\<close>

theorem stream_modes_pieces:
  assumes "iv_ok block (iv, num)" "ctr_ok block (ctr, e, n)"
  shows "(let (t, ys) = ofb_run block (iv, num) (concat ps) in
      run_pieces (ofb_run block) (iv, num) ps = (t, ys) \<and> ofb_run block (iv, num) ys = (t, concat ps)) \<and>
    (let (t, ys) = cfb_run True block (iv, num) (concat ps) in
      run_pieces (cfb_run True block) (iv, num) ps = (t, ys) \<and> cfb_run False block (iv, num) ys = (t, concat ps)) \<and>
    (let (t, ys) = cfb8_run True block iv (concat ps) in
      run_pieces (cfb8_run True block) iv ps = (t, ys) \<and> cfb8_run False block iv ys = (t, concat ps)) \<and>
    (let (t, ys) = ctr_run block (ctr, e, n) (concat ps) in
      run_pieces (ctr_run block) (ctr, e, n) ps = (t, ys) \<and> ctr_run block (ctr, e, n) ys = (t, concat ps))"
proof -
  have iv: "cfb8_ok block iv" using assms(1) by (simp add: iv_ok_def cfb8_ok_def)
  have "case ofb_run block (iv, num) (concat ps) of (t, ys) \<Rightarrow>
      run_pieces (ofb_run block) (iv, num) ps = (t, ys) \<and> ofb_run block (iv, num) ys = (t, concat ps)"
    using ofb.enc.run_pieces_concat [OF assms(1), of ps] ofb.dec_enc [OF assms(1), of "concat ps"]
    by (cases "ofb_run block (iv, num) (concat ps)") simp
  moreover have "case cfb_run True block (iv, num) (concat ps) of (t, ys) \<Rightarrow>
      run_pieces (cfb_run True block) (iv, num) ps = (t, ys) \<and> cfb_run False block (iv, num) ys = (t, concat ps)"
    using cfb.enc.run_pieces_concat [OF assms(1), of ps] cfb.dec_enc [OF assms(1), of "concat ps"]
    by (cases "cfb_run True block (iv, num) (concat ps)") simp
  moreover have "case cfb8_run True block iv (concat ps) of (t, ys) \<Rightarrow>
      run_pieces (cfb8_run True block) iv ps = (t, ys) \<and> cfb8_run False block iv ys = (t, concat ps)"
    using cfb8.enc.run_pieces_concat [OF iv, of ps] cfb8.dec_enc [OF iv, of "concat ps"]
    by (cases "cfb8_run True block iv (concat ps)") simp
  moreover have "case ctr_run block (ctr, e, n) (concat ps) of (t, ys) \<Rightarrow>
      run_pieces (ctr_run block) (ctr, e, n) ps = (t, ys) \<and> ctr_run block (ctr, e, n) ys = (t, concat ps)"
    using ctr.enc.run_pieces_concat [OF assms(2), of ps] ctr.dec_enc [OF assms(2), of "concat ps"]
    by (cases "ctr_run block (ctr, e, n) (concat ps)") simp
  ultimately show ?thesis unfolding Let_def by blast
qed

theorem stream_modes_pieces_witness:
  "snd (ofb_run rev (replicate 16 1, 14) (snd (ofb_run rev (replicate 16 1, 14) [1, 2, 3]))) = [1, 2, 3]"
proof -
  have "iv_ok rev (replicate 16 1, 14)" "ctr_ok rev (replicate 16 255, replicate 16 0, 0)"
    by (simp_all add: iv_ok_def ctr_ok_def keeps16_def)
  from stream_modes_pieces [OF this, of "[[1, 2, 3]]", THEN conjunct1] show ?thesis
    by (cases "ofb_run rev (replicate 16 1, 14) [1, 2, 3]") simp
qed

text \<open>C31: \<open>CRYPTO_ctr128_encrypt_ctr32\<close>, which hands runs of blocks to a function with a 32-bit
  counter and carries into the upper 96 bits itself, computes what \<open>CRYPTO_ctr128_encrypt\<close> computes
  block by block, also where the 32-bit counter wraps.\<close>

theorem CRYPTO_ctr128_encrypt_ctr32_same:
  assumes "keeps16 block" "ctr_contract block func" "length iv = 16" "num < 16"
  shows "let (out, iv1, e1, n1) = CRYPTO_ctr128_encrypt_ctr32 func inp iv e num;
      (out', iv2, e2, n2) = CRYPTO_ctr128_encrypt block inp iv e num
    in out = out' \<and> iv1 = iv2 \<and> n1 = n2 \<and> (n1 \<noteq> 0 \<longrightarrow> e1 = e2)"
  using CRYPTO_ctr128_encrypt_ctr32_eq [OF assms]
  by (cases "CRYPTO_ctr128_encrypt_ctr32 func inp iv e num"; cases "CRYPTO_ctr128_encrypt block inp iv e num")
     (simp add: Let_def)

theorem CRYPTO_ctr128_encrypt_ctr32_same_witness:
  "fst (CRYPTO_ctr128_encrypt_ctr32 (ctr_reference rev) (replicate 40 7) (replicate 16 255) (replicate 16 0) 0) =
    fst (CRYPTO_ctr128_encrypt rev (replicate 40 7) (replicate 16 255) (replicate 16 0) 0)"
  using CRYPTO_ctr128_encrypt_ctr32_same [of rev "ctr_reference rev" "replicate 16 255" 0 "replicate 40 7" "replicate 16 0"]
  by (simp add: keeps16_def split_beta Let_def)

section \<open>Digests\<close>




text \<open>C23: the digest interface. A context in any well-formed state that \<open>EVP_DigestInit_ex\<close> sets to a
  digest gives the digest of all the bytes of the updates that follow. A copy taken on the way goes on
  by itself from the bytes hashed so far.\<close>

theorem EVP_digest_exact:
  assumes "malloc_contract mal" "ctx_fits md_fits ctx" "EVP_DigestInit_ex mal ctx d = (True, c)"
    and "EVP_MD_CTX_copy_ex mal dup out (Some (foldl EVP_DigestUpdate c xs)) = (True, c')"
  shows "snd (EVP_DigestFinal_ex (foldl EVP_DigestUpdate c (xs @ ys))) = (Some (md_digest d (concat xs @ concat ys)), EVP_MD_size d) \<and>
    snd (EVP_DigestFinal_ex (foldl EVP_DigestUpdate c' zs)) = (Some (md_digest d (concat xs @ concat zs)), EVP_MD_size d)"
proof -
  have fin: "snd (EVP_DigestFinal_ex e) = (Some (md_digest d m), EVP_MD_size d)" if "ctx_holds md_rep e d m"
    for e :: "'a EVP_MD_CTX" and m
    using evp.final_holds [OF that] by (metis snd_conv md_digest_length EVP_MD_size_def)
  have c: "ctx_holds md_rep (foldl EVP_DigestUpdate c xs) d (concat xs)"
    using evp.updates_hold [OF evp.init_holds(1) [OF assms(1-3)]] by simp
  from fin [OF evp.updates_hold [OF c]] fin [OF evp.updates_hold [OF evp.copy_holds [OF assms(4) c]]]
  show ?thesis by simp
qed

theorem EVP_digest_exact_witness:
  "\<exists>c c'. EVP_DigestInit_ex zero_malloc (EVP_MD_CTX_init :: unit EVP_MD_CTX) EVP_sha1 = (True, c) \<and>
    EVP_MD_CTX_copy_ex zero_malloc Some EVP_MD_CTX_init (Some (EVP_DigestUpdate c [1])) = (True, c') \<and>
    fst (snd (EVP_DigestFinal_ex (EVP_DigestUpdate c' [2]))) = Some (sha1_digest [1, 2])"
proof -
  let ?i = "EVP_MD_CTX_init :: unit EVP_MD_CTX"
  obtain c where c: "EVP_DigestInit_ex zero_malloc ?i EVP_sha1 = (True, c)" "ctx_pctx c = None" "ctx_digest c = Some EVP_sha1"
    by (auto simp: EVP_DigestInit_ex_def EVP_MD_CTX_init_def OPENSSL_malloc_def OPENSSL_MALLOC_PREFIX_def
        zero_malloc_def EVP_sha1_method_def SIZEOF_SHA_CTX_def SIZE_MOD_def)
  have "ctx_digest (EVP_DigestUpdate c [1]) = Some EVP_sha1" "ctx_pctx (EVP_DigestUpdate c [1]) = None"
    using c(2,3) by simp_all
  from evp.copy_works [OF this, of ?i zero_malloc Some] obtain c' where
    c': "EVP_MD_CTX_copy_ex zero_malloc Some ?i (Some (EVP_DigestUpdate c [1])) = (True, c')" by auto
  have "ctx_fits md_fits ?i" by (simp add: ctx_fits_def EVP_MD_CTX_init_def)
  from EVP_digest_exact [OF zero_malloc_contract this c(1), of Some ?i "[[1]]" c' "[]" "[[2]]"] c c'
  show ?thesis by auto
qed

text \<open>C24: the digest contexts are typed. Every operation keeps the state under the pointer of the kind
  that its digest asks for, with buffers of their sizes and the fill count below the block size, also
  where an operation fails.\<close>

theorem EVP_MD_CTX_well_formed:
  assumes "malloc_contract mal" "ctx_fits md_fits ctx" "ctx_fits md_fits out"
  shows "ctx_fits md_fits (snd (EVP_DigestInit_ex mal ctx d)) \<and> ctx_fits md_fits (EVP_DigestUpdate ctx x) \<and>
    ctx_fits md_fits (fst (EVP_DigestFinal_ex ctx)) \<and> ctx_fits md_fits (fst (EVP_DigestFinal ctx)) \<and>
    ctx_fits md_fits (snd (EVP_MD_CTX_copy_ex mal dup out (Some ctx))) \<and> ctx_fits md_fits (EVP_MD_CTX_reset ctx)"
proof -
  have "ctx_fits md_fits (snd (EVP_DigestInit_ex mal ctx d))"
  proof (cases "EVP_DigestInit_ex mal ctx d")
    case (Pair ok c)
    then show ?thesis
      using evp.holds_fits [OF evp.init_holds(1) [OF assms(1,2)]] evp.init_fails [of mal ctx d] assms(2) by (cases ok) auto
  qed
  moreover have "ctx_fits md_fits (snd (EVP_MD_CTX_copy_ex mal dup out (Some ctx)))"
    using evp.copy_fits [OF surjective_pairing assms(3)] assms(2) by blast
  moreover have "ctx_fits md_fits (EVP_MD_CTX_init :: 'a EVP_MD_CTX)"
    by (simp add: ctx_fits_def EVP_MD_CTX_init_def)
  ultimately show ?thesis
    using evp.update_fits_ctx [OF assms(2)] evp.final_fits_ctx [OF assms(2)]
    by (simp add: EVP_DigestFinal_def EVP_MD_CTX_cleanup_def EVP_MD_CTX_reset_def split: prod.splits)
qed

theorem EVP_MD_CTX_well_formed_witness:
  "ctx_fits md_fits (EVP_DigestUpdate \<lparr>ctx_digest = Some EVP_sha1, ctx_md_data = Some (MD_HASH SHA1_Init), ctx_pctx = None :: unit option\<rparr> [1, 2])"
proof -
  let ?c = "\<lparr>ctx_digest = Some EVP_sha1, ctx_md_data = Some (MD_HASH SHA1_Init), ctx_pctx = None :: unit option\<rparr>"
  have "ctx_fits md_fits ?c" "ctx_fits md_fits (EVP_MD_CTX_init :: unit EVP_MD_CTX)"
    by (simp_all add: ctx_fits_def hash_fits_def SHA1_Init_def EVP_MD_CTX_init_def)
  from EVP_MD_CTX_well_formed [OF zero_malloc_contract this, of EVP_sha1 "[1, 2]" Some] show ?thesis by blast
qed

section \<open>Message authentication\<close>

text \<open>C25: HMAC. A context in any well-formed state that is given a key and a digest authenticates the
  messages, in any number of pieces, as RFC 2104 says, for keys shorter and longer than a block. The
  last step needs no memory. The one-shot function succeeds when there is memory, and takes a NULL
  key as the empty key.\<close>

theorem HMAC_exact:
  assumes "malloc_contract mal" "hmac_fits ctx" "HMAC_Init_ex mal ctx (Some k) (Some d) = (True, c)" "malloc_total mal"
  shows "(\<exists>c'. HMAC_Final mal' (foldl HMAC_Update c xs) = (True, c', Some (hmac_rfc d k (concat xs)), EVP_MD_size d)) \<and>
    HMAC mal d (Some k) m = (Some (hmac_rfc d k m), EVP_MD_size d) \<and>
    HMAC mal d None m = (Some (hmac_rfc d [] m), EVP_MD_size d)"
  using hmac_final [OF hmac_updates [OF init_key [OF assms(1-3)]], of mal' xs]
    hmac_total [OF assms(1,4), of d "Some k" m] hmac_total [OF assms(1,4), of d None m] by auto

theorem HMAC_exact_witness:
  "HMAC zero_malloc EVP_sha256 (Some [11, 12]) [1, 2] = (Some (hmac_rfc EVP_sha256 [11, 12] [1, 2]), 32)"
proof -
  obtain c where "HMAC_Init_ex zero_malloc HMAC_CTX_init (Some [11, 12]) (Some EVP_sha256) = (True, c)"
    by (rule hmac_init_works [OF zero_malloc_contract zero_malloc_total hmac_init_fits])
  from HMAC_exact [OF zero_malloc_contract hmac_init_fits this zero_malloc_total, where m = "[1, 2]"]
  show ?thesis by (simp add: EVP_MD_size_def EVP_sha256_method_def SHA256_DIGEST_LENGTH_def)
qed

text \<open>A keyed HMAC context is used again without its key. With a NULL key and the same digest, or
  none, the initialisation and the final step succeed even when no memory can be allocated, and the
  next message is authenticated under the same key.\<close>

theorem HMAC_again_never_fails:
  assumes "hmac_keyed ctx d k" "md = None \<or> md = Some d"
  shows "\<exists>c c'. HMAC_Init_ex mal ctx None md = (True, c) \<and>
    HMAC_Final mal (foldl HMAC_Update c xs) = (True, c', Some (hmac_rfc d k (concat xs)), EVP_MD_size d) \<and>
    hmac_keyed c' d k"
proof -
  obtain c where c: "HMAC_Init_ex mal ctx None md = (True, c)" "hmac_holds c d k []"
    by (rule init_rewind [OF assms])
  from hmac_final [OF hmac_updates [OF c(2)], of mal xs] c(1) show ?thesis by auto
qed

theorem HMAC_again_never_fails_witness:
  "\<exists>c1 c2 c3. HMAC_Init_ex zero_malloc HMAC_CTX_init (Some [1]) (Some EVP_sha256) = (True, c1) \<and>
    HMAC_Init_ex (\<lambda>_. None) c1 None None = (True, c2) \<and>
    HMAC_Final (\<lambda>_. None) (HMAC_Update c2 [2]) = (True, c3, Some (hmac_rfc EVP_sha256 [1] [2]), EVP_MD_size EVP_sha256)"
proof -
  obtain c where c: "HMAC_Init_ex zero_malloc HMAC_CTX_init (Some [1]) (Some EVP_sha256) = (True, c)" "hmac_holds c EVP_sha256 [1] []"
    by (rule hmac_init_works [OF zero_malloc_contract zero_malloc_total hmac_init_fits])
  then have "hmac_keyed c EVP_sha256 [1]" by (simp add: hmac_holds_def)
  from HMAC_again_never_fails [OF this, of None "\<lambda>_. None" "[[2]]"] c(1) show ?thesis by auto
qed

text \<open>C26: HKDF. With memory the extraction is HMAC under the salt, a missing salt being the empty key,
  and the expansion gives the first bytes of the chain of RFC 5869; it fails exactly when more than
  255 blocks are asked for, also where the computation of their number wraps.\<close>

theorem HKDF_exact:
  assumes "malloc_contract mal" "malloc_total mal" "L < 2 ^ 64"
  shows "HKDF_extract mal d secret salt = Some (hmac_rfc d (case salt of None \<Rightarrow> [] | Some s \<Rightarrow> s) secret) \<and>
    HKDF_expand mal L d prk info = (if L \<le> 255 * EVP_MD_size d then Some (hkdf_okm d prk info L) else None) \<and>
    HKDF mal L d secret salt info =
      (if L \<le> 255 * EVP_MD_size d
       then Some (hkdf_okm d (hmac_rfc d (case salt of None \<Rightarrow> [] | Some s \<Rightarrow> s) secret) info L) else None)"
  using hmac_total [OF assms(1,2), of d salt secret] hkdf_expand_total [OF assms]
  by (simp add: HKDF_extract_def HKDF_def)

theorem HKDF_exact_witness:
  "HKDF_expand zero_malloc 42 EVP_sha256 [1] [2] = Some (hkdf_okm EVP_sha256 [1] [2] 42) \<and>
    HKDF_expand zero_malloc 8161 EVP_sha256 [1] [2] = None \<and> HKDF_expand zero_malloc (2 ^ 64 - 1) EVP_sha256 [1] [2] = None"
  using HKDF_exact [of zero_malloc 42 EVP_sha256 "[]" None "[1]" "[2]"]
    HKDF_exact [of zero_malloc 8161 EVP_sha256 "[]" None "[1]" "[2]"]
    HKDF_exact [of zero_malloc "2 ^ 64 - 1" EVP_sha256 "[]" None "[1]" "[2]"]
  by (simp add: EVP_MD_size_def EVP_sha256_method_def SHA256_DIGEST_LENGTH_def)

section \<open>Memory\<close>

text \<open>\<open>OPENSSL_malloc\<close> returns a block of the size that was asked for as long as the size with
  its header fits a \<open>size_t\<close>. For the eight sizes above, the sum wraps around and the caller gets a
  block with no byte in it.\<close>

theorem OPENSSL_malloc_size:
  assumes "malloc_contract mal" "n < 2 ^ 64" "OPENSSL_malloc mal n = Some b"
  shows "length b = (if n + 8 < 2 ^ 64 then n else 0)"
proof (cases "n + 8 < 2 ^ 64")
  case True
  then show ?thesis using OPENSSL_malloc_length(1) [OF assms(1) True assms(3)] by simp
next
  case False
  obtain p where p: "mal ((n + 8) mod 2 ^ 64) = Some p" "b = drop 8 p"
    using assms(3) by (auto simp: OPENSSL_malloc_def OPENSSL_MALLOC_PREFIX_def SIZE_MOD_def split: option.splits)
  have "length p = (n + 8) mod 2 ^ 64" using assms(1) p(1) by (simp add: malloc_contract_def)
  also have "\<dots> = n + 8 - 2 ^ 64" using False assms(2) by (simp add: mod_if)
  finally show ?thesis using p(2) False assms(2) by simp
qed

theorem OPENSSL_malloc_size_witness:
  "OPENSSL_malloc zero_malloc (2 ^ 64 - 1) = Some []"
proof -
  have "OPENSSL_malloc zero_malloc (2 ^ 64 - 1) \<noteq> None"
    by (simp add: OPENSSL_malloc_def OPENSSL_MALLOC_PREFIX_def SIZE_MOD_def zero_malloc_def)
  then show ?thesis using OPENSSL_malloc_size [of zero_malloc "2 ^ 64 - 1"] by auto
qed

section \<open>Protocol buffers\<close>

text \<open>C32: \<open>pb_decode_varint\<close> accepts exactly the varints of at most ten bytes within the limit of the
  stream, returns their value modulo \<open>2\<^sup>6\<^sup>4\<close> and goes on right behind them. \<open>pb_decode_varint32\<close>
  on varints of at most five bytes returns the value, or fails when it is \<open>2\<^sup>3\<^sup>2\<close> or more.\<close>

theorem pb_decode_varint_exact:
  assumes "n \<le> length m"
  shows "case vsplit (take n m) of
      Some (v, r) \<Rightarrow>
        (if length v \<le> 10
         then \<exists>st'. pb_decode_varint (pb_istream_from_buffer m n) = (Some (of_nat (vval v)), st') \<and> left_over st' = r
         else fst (pb_decode_varint (pb_istream_from_buffer m n)) = None) \<and>
        (length v \<le> 5 \<longrightarrow>
         fst (pb_decode_varint32 (pb_istream_from_buffer m n)) = (if vval v < 2 ^ 32 then Some (of_nat (vval v)) else None))
    | None \<Rightarrow> fst (pb_decode_varint (pb_istream_from_buffer m n)) = None"
proof -
  note c = ibuf.decode_varint_content [OF from_buffer_ok(1) [OF assms], unfolded from_buffer_ok(2) [OF assms]]
  note d = ibuf.decode_varint32_eof_content [OF from_buffer_ok(1) [OF assms], unfolded from_buffer_ok(2) [OF assms]]
  show ?thesis
    using c d by (fastforce simp: pb_decode_varint32_def split: option.splits if_splits)
qed

theorem pb_decode_varint_exact_witness:
  "fst (pb_decode_varint (pb_istream_from_buffer [0x96, 1, 7] 3)) = Some 150"
  using pb_decode_varint_exact [of 3 "[0x96, 1, 7]"] by (auto simp: vsplit_Cons)

text \<open>C33: a field of a packable type. A value that fits the size of its field is written behind its
  tag; the reader of the bytes gets wire type and number of the field, then the value, and whoever does
  not know the field skips exactly it.\<close>

theorem pb_field_roundtrip:
  fixes fd :: pb_field
  defines "lt \<equiv> fd_ltype fd" and "n \<equiv> fd_data_size fd"
  assumes "item_ok lt n v" "0 < fd_tag fd" "fd_tag fd < 2 ^ 29" "15 \<le> max_size" "max_size \<le> length buf" "max_size < SIZE_MOD"
  shows "\<exists>st1 st2. pb_encode_tag_for_field (pb_ostream_from_buffer buf max_size) fd = (True, st1) \<and>
    PB_ENCODERS lt n v st1 = (True, st2) \<and>
    (\<forall>rest. \<exists>wt i1 i2 i3. pb_decode_tag (reader (wrote st2 @ rest)) = (Some (wt, fd_tag fd), i1, False) \<and>
      PB_DECODERS lt n i1 = (Some v, i2) \<and> left_over i2 = rest \<and>
      pb_skip_field i1 wt = (True, i3) \<and> left_over i3 = rest)"
proof -
  have p: "packable lt" using assms(3) by (cases lt) simp_all
  then obtain wt where wt: "field_wire_type lt = Some wt" by (cases lt) (simp_all add: field_wire_type_def)
  note w8 = wire_type_less [OF wt]
  let ?t = "leb (8 * unat (fd_tag fd) + unat wt)" and ?i = "item_bytes lt v" and ?st = "pb_ostream_from_buffer buf max_size"
  have l: "length ?t \<le> 5" "length ?i \<le> 10"
    by (rule leb_length_32 [OF tag_bounds [OF assms(5) w8]], rule item_bytes_length)
  have "os_written ?st + length ?t \<le> os_max ?st" using l assms(6) by simp
  from obuf.write_room [OF writer_ok [OF assms(7,8)] this] obtain st1 where
    st1: "pb_write ?st ?t = (True, st1)" "obuf.appends ?st ?t st1" by blast
  have "obuf.ok st1" "os_written st1 + length ?i \<le> os_max st1"
    using st1(2) l assms(6) by (simp_all add: obuf.appends_def)
  from obuf.write_room [OF this] obtain st2 where st2: "pb_write st1 ?i = (True, st2)" "obuf.appends st1 ?i st2" by blast
  have out: "wrote st2 = ?t @ ?i" by (rule writer_appends [OF obuf.appends_trans [OF st1(2) st2(2)]])
  have "\<exists>wt i1 i2 i3. pb_decode_tag (reader (wrote st2 @ rest)) = (Some (wt, fd_tag fd), i1, False) \<and>
      PB_DECODERS lt n i1 = (Some v, i2) \<and> left_over i2 = rest \<and>
      pb_skip_field i1 wt = (True, i3) \<and> left_over i3 = rest" for rest
  proof -
    have "left_over (reader (wrote st2 @ rest)) = ?t @ ?i @ rest" by (simp add: reader_ok out)
    from decode_tag_reader [OF reader_ok(1) this assms(4,5) w8] obtain i1 where
      i1: "pb_decode_tag (reader (wrote st2 @ rest)) = (Some (wt, fd_tag fd), i1, False)"
      "ibuf.ok [] i1" "left_over i1 = ?i @ rest" .
    from ibuf.PB_DECODERS_bytes [OF assms(3) i1(2,3)] obtain i2 where
      "PB_DECODERS lt n i1 = (Some v, i2)" "left_over i2 = rest" by blast
    moreover from skip_item [OF p wt assms(3) i1(2,3)] obtain i3 where
      "pb_skip_field i1 wt = (True, i3)" "left_over i3 = rest" by blast
    ultimately show ?thesis using i1(1) by blast
  qed
  moreover have "pb_encode_tag_for_field ?st fd = (True, st1)"
    using wt st1(1) by (simp add: pb_encode_tag_for_field_def lt_def encode_tag_leb [OF w8])
  moreover have "PB_ENCODERS lt n v st1 = (True, st2)" using st2(1) by (simp add: PB_ENCODERS_bytes [OF assms(3)])
  ultimately show ?thesis by blast
qed

theorem pb_field_roundtrip_witness:
  "\<exists>st1 st2. pb_encode_tag_for_field (pb_ostream_from_buffer (replicate 20 0) 20) \<lparr>fd_tag = 1, fd_ltype = PB_LTYPE_SVARINT,
      fd_pointer = False, fd_data_size = 4, fd_array_size = 0\<rparr> = (True, st1) \<and> pb_enc_svarint 4 (- 3) st1 = (True, st2)"
  using pb_field_roundtrip [of "\<lparr>fd_tag = 1, fd_ltype = PB_LTYPE_SVARINT, fd_pointer = False, fd_data_size = 4, fd_array_size = 0\<rparr>"
      "- 3" 20 "replicate 20 0"] by (auto simp: SIZE_MOD_def)

text \<open>C34: a packed array. Its entries are written behind the tag and the length of all of them; the
  reader fills the entries of an array with room for them and stops behind them, and the field can be
  skipped as a string.\<close>

theorem pb_packed_roundtrip:
  fixes fd :: pb_field
  defines "lt \<equiv> fd_ltype fd" and "n \<equiv> fd_data_size fd"
  assumes "packable lt" "xs \<noteq> []" "\<forall>x\<in>set xs. item_ok lt n x" "length xs \<le> fd_array_size fd" "length ys = fd_array_size fd"
    and "0 < fd_tag fd" "fd_tag fd < 2 ^ 29" "10 * length xs < 2 ^ 32"
    and "10 + 10 * length xs \<le> max_size" "max_size \<le> length buf" "max_size < SIZE_MOD"
  shows "\<exists>st. encode_array (pb_ostream_from_buffer buf max_size) fd xs (PB_ENCODERS lt n) = (True, st) \<and>
    (\<forall>rest. \<exists>i1 i2 i3. pb_decode_tag (reader (wrote st @ rest)) = (Some (PB_WT_STRING, fd_tag fd), i1, False) \<and>
      decode_repeated i1 PB_WT_STRING fd (PB_DECODERS lt n) (0, ys) =
        (True, (length xs, xs @ drop (length xs) ys), i2) \<and> left_over i2 = rest \<and>
      pb_skip_field i1 PB_WT_STRING = (True, i3) \<and> left_over i3 = rest)"
proof -
  let ?p = "concat (map (item_bytes lt) xs)" and ?st = "pb_ostream_from_buffer buf max_size"
  let ?t = "leb (8 * unat (fd_tag fd) + 2)"
  have lp: "length ?p < 2 ^ 32" using packed_length [of lt xs] assms(10) by linarith
  have l: "length ?t \<le> 5" "length (leb (length ?p)) \<le> 5"
    by (rule leb_length_32 [OF tag_bounds [OF assms(9)]], simp, rule leb_length_32 [OF lp])
  have room: "os_written ?st + length (?t @ leb (length ?p) @ ?p) \<le> os_max ?st"
    using l packed_length [of lt xs] assms(11) by simp
  have sz: "fd_ltype fd = PB_LTYPE_FIXED32 \<Longrightarrow> \<forall>x. length (item_bytes lt x) = 4"
    "fd_ltype fd = PB_LTYPE_FIXED64 \<Longrightarrow> \<forall>x. length (item_bytes lt x) = 8" by (simp_all add: lt_def)
  from packed.packed_written [OF assms(5,4) assms(3) [unfolded lt_def] _ sz writer_ok [OF assms(12,13)] room] assms(6)
  obtain st where st: "encode_array ?st fd xs (PB_ENCODERS lt n) = (True, st)"
    "obuf.appends ?st (?t @ leb (length ?p) @ ?p) st" by blast
  have out: "wrote st = ?t @ leb (length ?p) @ ?p" by (rule writer_appends [OF st(2)])
  have "\<exists>i1 i2 i3. pb_decode_tag (reader (wrote st @ rest)) = (Some (PB_WT_STRING, fd_tag fd), i1, False) \<and>
      decode_repeated i1 PB_WT_STRING fd (PB_DECODERS lt n) (0, ys) =
        (True, (length xs, xs @ drop (length xs) ys), i2) \<and> left_over i2 = rest \<and>
      pb_skip_field i1 PB_WT_STRING = (True, i3) \<and> left_over i3 = rest" for rest
  proof -
    have w: "unat PB_WT_STRING = 2" by (simp add: PB_WT_STRING_def)
    have "left_over (reader (wrote st @ rest)) = leb (8 * unat (fd_tag fd) + unat PB_WT_STRING) @ leb (length ?p) @ ?p @ rest"
      by (simp add: reader_ok out w)
    then obtain i1 where i1: "pb_decode_tag (reader (wrote st @ rest)) = (Some (PB_WT_STRING, fd_tag fd), i1, False)"
      "ibuf.ok [] i1" "left_over i1 = leb (length ?p) @ ?p @ rest"
      by (rule decode_tag_reader [OF reader_ok(1) _ assms(8,9)]) (simp add: w)
    have "0 + length xs \<le> fd_array_size fd" using assms(6) by simp
    from packed.packed_read [OF assms(5) assms(3) [unfolded lt_def] i1(2,3) lp this assms(7)]
    obtain i2 where "decode_repeated i1 PB_WT_STRING fd (PB_DECODERS lt n) (0, ys) =
        (True, (length xs, xs @ drop (length xs) ys), i2)" "left_over i2 = rest" by auto
    moreover from ibuf.skip_string_field [OF i1(2,3) lp] obtain i3 where
      "pb_skip_field i1 PB_WT_STRING = (True, i3)" "left_over i3 = rest" .
    ultimately show ?thesis using i1(1) by blast
  qed
  with st(1) show ?thesis by blast
qed

theorem pb_packed_roundtrip_witness:
  "\<exists>st i1 i2. encode_array (pb_ostream_from_buffer (replicate 40 0) 40) \<lparr>fd_tag = 4, fd_ltype = PB_LTYPE_UVARINT, fd_pointer = False, fd_data_size = 4, fd_array_size = 3\<rparr>
      [3, 270] (PB_ENCODERS PB_LTYPE_UVARINT 4) = (True, st) \<and>
    pb_decode_tag (reader (wrote st @ [9])) = (Some (PB_WT_STRING, 4), i1, False) \<and>
    decode_repeated i1 PB_WT_STRING \<lparr>fd_tag = 4, fd_ltype = PB_LTYPE_UVARINT, fd_pointer = False, fd_data_size = 4, fd_array_size = 3\<rparr>
      (PB_DECODERS PB_LTYPE_UVARINT 4) (0, [0, 0, 0]) = (True, (Suc (Suc 0), [3, 270, 0]), i2)"
  using pb_packed_roundtrip [of "\<lparr>fd_tag = 4, fd_ltype = PB_LTYPE_UVARINT, fd_pointer = False, fd_data_size = 4, fd_array_size = 3\<rparr>"
      "[3, 270]" "[0, 0, 0]" 40 "replicate 40 0"] by (simp add: SIZE_MOD_def) blast

text \<open>C35: the integers of fields. An unsigned or zigzag field of \<open>n\<close> bytes takes exactly the values of
  its size and refuses the others; a signed one of less than 8 bytes looks only at the low 32 bits of the
  varint, whatever is above them.\<close>

theorem pb_integer_fields_exact:
  fixes x :: u64 and n :: nat
  defines "in_range \<equiv> \<lambda>y :: u64. - (2 ^ (8 * n - 1)) \<le> sint y \<and> sint y < 2 ^ (8 * n - 1)"
    and "low \<equiv> if n = 8 then x else scast (ucast x :: u32)"
  assumes "n \<in> {1, 2, 4, 8}"
  shows "fst (pb_dec_uvarint n (reader (leb (unat x)))) = (if unat x < 2 ^ (8 * n) then Some x else None) \<and>
    fst (pb_dec_svarint n (reader (leb (unat (zigzag x))))) = (if in_range x then Some x else None) \<and>
    fst (pb_dec_varint n (reader (leb (unat x)))) = (if in_range low then Some low else None)"
proof (intro conjI)
  have c: "left_over (reader m) = m @ []" for m by (simp add: reader_ok)
  show "fst (pb_dec_uvarint n (reader (leb (unat x)))) = (if unat x < 2 ^ (8 * n) then Some x else None)"
    using ibuf.dec_uvarint_leb [OF reader_ok(1) c assms(3), of x] by auto
  show "fst (pb_dec_svarint n (reader (leb (unat (zigzag x))))) = (if in_range x then Some x else None)"
    using ibuf.dec_svarint_leb [OF reader_ok(1) c assms(3), of x] by (auto simp: in_range_def)
  show "fst (pb_dec_varint n (reader (leb (unat x)))) = (if in_range low then Some low else None)"
    using ibuf.dec_varint_leb [OF reader_ok(1) c assms(3), of x] unfolding in_range_def low_def
    by (elim exE conjE) (simp only: fst_conv)
qed

theorem pb_integer_fields_exact_witness:
  "fst (pb_dec_uvarint 1 (reader (leb 300))) = None \<and> fst (pb_dec_uvarint 2 (reader (leb 300))) = Some 300"
  using pb_integer_fields_exact [of 1 300] pb_integer_fields_exact [of 2 300] by simp

text \<open>Strings and bytes. A string is written up to its NUL or the size of the field, and a field
  takes it exactly when it has room for the NUL as well; bytes are written with their count, and a field
  takes them exactly when it has room for both.\<close>

theorem pb_string_bytes_exact:
  fixes m :: "u8 list" and fd :: pb_field
  defines "s \<equiv> takeWhile (\<lambda>b. b \<noteq> 0) (take (fd_data_size fd) m)"
  assumes "\<not> fd_pointer fd" "fd_data_size fd < 2 ^ 32 - 1" "5 + fd_data_size fd \<le> max_size"
    "max_size \<le> length buf" "max_size < SIZE_MOD"
  shows "(\<exists>st. pb_enc_string fd (Some m) (pb_ostream_from_buffer buf max_size) = (True, st) \<and>
      fst (pb_dec_string fd' dest (reader (wrote st))) =
        (if length s < fd_data_size fd' then Some (s @ 0 # drop (Suc (length s)) dest) else None)) \<and>
    (unat k + 4 \<le> fd_data_size fd \<and> unat k \<le> length m \<longrightarrow>
     (\<exists>st. pb_enc_bytes fd (Some (k, m)) (pb_ostream_from_buffer buf max_size) = (True, st) \<and>
      fst (pb_dec_bytes fd' dest (reader (wrote st))) =
        (if unat k + 4 \<le> fd_data_size fd' then Some (k, take (unat k) m @ drop (unat k) dest) else None)))"
proof (intro conjI impI)
  have sl: "length s \<le> fd_data_size fd" unfolding s_def by (rule field_string_length)
  have "length s < 2 ^ 32" "5 + length s \<le> max_size" using sl assms(3,4) by simp_all
  from string_written [OF this assms(5,6)] obtain st where
    st: "pb_encode_string (pb_ostream_from_buffer buf max_size) s = (True, st)" "wrote st = leb (length s) @ s" .
  have c: "left_over (reader (wrote st)) = leb (length s) @ s @ []" by (simp add: reader_ok st(2))
  have "length s < 2 ^ 32 - 1" using sl assms(3) by simp
  from ibuf.dec_string_bytes [OF reader_ok(1) c this, of fd' dest] have "fst (pb_dec_string fd' dest (reader (wrote st))) =
      (if length s < fd_data_size fd' then Some (s @ 0 # drop (Suc (length s)) dest) else None)"
    by auto
  moreover have "pb_enc_string fd (Some m) (pb_ostream_from_buffer buf max_size) = (True, st)"
    using st(1) assms(2) by (simp add: pb_enc_string_def s_def)
  ultimately show "\<exists>st. pb_enc_string fd (Some m) (pb_ostream_from_buffer buf max_size) = (True, st) \<and>
      fst (pb_dec_string fd' dest (reader (wrote st))) =
        (if length s < fd_data_size fd' then Some (s @ 0 # drop (Suc (length s)) dest) else None)" by blast
next
  assume "unat k + 4 \<le> fd_data_size fd \<and> unat k \<le> length m"
  then have k: "unat k + 4 \<le> fd_data_size fd" "unat k \<le> length m" by simp_all
  let ?b = "take (unat k) m"
  have l: "length ?b = unat k" using k(2) by simp
  then have "length ?b < 2 ^ 32" "5 + length ?b \<le> max_size" using k(1) assms(3,4) by simp_all
  from string_written [OF this assms(5,6)] obtain st where
    st: "pb_encode_string (pb_ostream_from_buffer buf max_size) ?b = (True, st)" "wrote st = leb (length ?b) @ ?b" .
  have "left_over (reader (wrote st)) = leb (length ?b) @ ?b @ []" by (simp add: reader_ok st(2))
  from ibuf.dec_bytes_bytes [OF reader_ok(1) this \<open>length ?b < 2 ^ 32\<close>, of fd' dest]
  have "fst (pb_dec_bytes fd' dest (reader (wrote st))) =
      (if unat k + 4 \<le> fd_data_size fd' then Some (k, ?b @ drop (unat k) dest) else None)"
    unfolding l by auto
  moreover have "pb_enc_bytes fd (Some (k, m)) (pb_ostream_from_buffer buf max_size) = (True, st)"
    using st(1) k(1) assms(3)
    by (simp add: pb_enc_bytes_def PB_BYTES_ARRAY_T_ALLOCSIZE_def SIZE_MOD_def)
  ultimately show "\<exists>st. pb_enc_bytes fd (Some (k, m)) (pb_ostream_from_buffer buf max_size) = (True, st) \<and>
      fst (pb_dec_bytes fd' dest (reader (wrote st))) =
        (if unat k + 4 \<le> fd_data_size fd' then Some (k, ?b @ drop (unat k) dest) else None)" by blast
qed

theorem pb_string_bytes_exact_witness:
  "\<exists>st. pb_enc_string \<lparr>fd_tag = 1, fd_ltype = PB_LTYPE_STRING, fd_pointer = False, fd_data_size = 3, fd_array_size = 0\<rparr>
      (Some [65, 66, 67]) (pb_ostream_from_buffer (replicate 8 0) 8) = (True, st) \<and>
    fst (pb_dec_string \<lparr>fd_tag = 1, fd_ltype = PB_LTYPE_STRING, fd_pointer = False, fd_data_size = 3, fd_array_size = 0\<rparr>
      [0, 0, 0] (reader (wrote st))) = None"
  using pb_string_bytes_exact [THEN conjunct1, of "\<lparr>fd_tag = 1, fd_ltype = PB_LTYPE_STRING, fd_pointer = False, fd_data_size = 3, fd_array_size = 0\<rparr>"
      8 "replicate 8 0" "[65, 66, 67]"
      "\<lparr>fd_tag = 1, fd_ltype = PB_LTYPE_STRING, fd_pointer = False, fd_data_size = 3, fd_array_size = 0\<rparr>" "[0, 0, 0]"]
  by (simp add: SIZE_MOD_def)

text \<open>C36: a submessage whose encoder writes the same bytes on every stream is written behind its length,
  which is counted first. The reader of the field gets exactly its bytes as a stream, and goes on
  right behind them however much of that stream has been read when it is closed.\<close>

theorem pb_encode_submessage_exact:
  assumes "\<And>s. os_callback s = None \<Longrightarrow> os_written s = 0 \<Longrightarrow> \<exists>s'. enc s = (True, s') \<and> os_written s' = length b"
    and "\<And>s. obuf.ok s \<Longrightarrow> os_written s + length b \<le> os_max s \<Longrightarrow> \<exists>s'. enc s = (True, s') \<and> obuf.appends s b s'"
    and "5 + length b \<le> max_size" "max_size \<le> length buf" "max_size < SIZE_MOD" "length b < 2 ^ 32"
  shows "\<exists>st. pb_encode_submessage (pb_ostream_from_buffer buf max_size) enc = (True, st) \<and>
    (\<forall>rest. \<exists>sub i. pb_make_string_substream (reader (wrote st @ rest)) = (Some sub, i) \<and> left_over sub = b \<and>
      (\<forall>sub'. ibuf.ok rest sub' \<longrightarrow> (\<exists>i'. pb_close_string_substream i sub' = (True, i') \<and> left_over i' = rest)))"
proof -
  let ?st = "pb_ostream_from_buffer buf max_size"
  have room: "os_written ?st + length (leb (length b) @ b) \<le> os_max ?st"
    using assms(3) leb_length_32 [OF assms(6)] by simp
  obtain st where st: "pb_encode_submessage ?st enc = (True, st)" "obuf.appends ?st (leb (length b) @ b) st"
    using obuf.encode_submessage_room [OF assms(1,2) writer_ok [OF assms(4,5)] writer_start(3) room] by auto
  have "\<exists>sub i. pb_make_string_substream (reader (wrote st @ rest)) = (Some sub, i) \<and> left_over sub = b \<and>
      (\<forall>sub'. ibuf.ok rest sub' \<longrightarrow> (\<exists>i'. pb_close_string_substream i sub' = (True, i') \<and> left_over i' = rest))" for rest
  proof -
    have "left_over (reader (wrote st @ rest)) = leb (length b) @ b @ rest"
      by (simp add: reader_ok writer_appends [OF st(2)])
    from ibuf.substream_bytes [OF reader_ok(1) this assms(6)] show ?thesis by (metis append_Nil2)
  qed
  with st(1) show ?thesis by blast
qed

theorem pb_encode_submessage_exact_witness:
  "\<exists>st. pb_encode_submessage (pb_ostream_from_buffer (replicate 9 0) 9) (\<lambda>s. pb_write s [8, 1]) = (True, st)"
proof -
  have "\<exists>s'. pb_write s [8, 1] = (True, s') \<and> os_written s' = length [8 :: u8, 1]"
    if "os_callback s = None" "os_written s = 0" for s :: "(u8 list \<times> nat) pb_ostream"
    using that by (simp add: write_counts SIZE_MOD_def)
  from pb_encode_submessage_exact [OF this obuf.write_room, of 9 "replicate 9 0"] show ?thesis
    by (auto simp: SIZE_MOD_def)
qed

section \<open>Input and output\<close>

text \<open>C37: each direction of a BIO pair is a queue of bounded length. A write appends as many bytes as there is
  room for, a read takes bytes from the front, at the wrap of the ring as elsewhere, and both leave the other
  direction alone; on a full or an empty queue they fail with the retry flag unless the writer has shut it.
  \<open>BIO_write_all\<close> writes all that fits. The counts of pending bytes and of free room are right, and closing
  an end shuts its queue and nothing else.\<close>

theorem bio_pair_queues:
  assumes "pair_ok p"
  shows "(data \<noteq> [] \<longrightarrow> (\<exists>p'. BIO_write (bio_s_bio e) data p = (fst (chan_write data (view p e)), p') \<and> pair_ok p' \<and>
      view p' = (view p)(e := snd (chan_write data (view p e))) \<and>
      (BIO_should_retry (p' e) \<longleftrightarrow> \<not> shut (view p e) \<and> length (queue (view p e)) = capacity (view p e)))) \<and>
    (0 < n \<longrightarrow> (\<exists>p'. BIO_read (bio_s_bio e) (int n) p =
        (fst (chan_read n (view p (other e))), fst (snd (chan_read n (view p (other e)))), p') \<and> pair_ok p' \<and>
      view p' = (view p)(other e := snd (snd (chan_read n (view p (other e))))) \<and>
      (BIO_should_retry (p' e) \<longleftrightarrow> queue (view p (other e)) = [] \<and> \<not> shut (view p (other e))))) \<and>
    (\<not> shut (view p e) \<longrightarrow> (let room = capacity (view p e) - length (queue (view p e)) in
      \<exists>p'. BIO_write_all (bio_s_bio e) data p = (length data \<le> room, p') \<and> pair_ok p' \<and>
        view p' = (view p)(e := (view p e)\<lparr>queue := queue (view p e) @ take room data\<rparr>))) \<and>
    pair_ctrl e CTRL_PENDING p = (int (length (queue (view p (other e)))), p) \<and>
    pair_ctrl e GET_WRITE_GUARANTEE p =
      (if shut (view p e) then 0 else int (capacity (view p e)) - int (length (queue (view p e))), p) \<and>
    pair_ok (snd (pair_ctrl e SHUTDOWN_WR p)) \<and>
    view (snd (pair_ctrl e SHUTDOWN_WR p)) = (view p)(e := (view p e)\<lparr>shut := True\<rparr>)"
  using BIO_write_pair [OF assms, of data e] BIO_read_pair [OF assms, of n e] BIO_write_all_pair [OF assms, of e data]
    pair_ctrl_queues [OF assms, of e] by (simp only: Let_def) blast

theorem bio_pair_queues_witness:
  "\<exists>p p'. BIO_new_bio_pair zero_malloc 2 2 = Some p \<and> BIO_write_all (bio_s_bio Left) [1, 2, 3] p = (False, p') \<and>
    queue (view p' Left) = [1, 2]"
proof -
  obtain p where p: "BIO_new_bio_pair zero_malloc 2 2 = Some p"
    using BIO_new_bio_pair_total [OF zero_malloc_total, of 2 2] by auto
  have v: "pair_ok p" "view p Left = \<lparr>queue = [], capacity = 2, shut = False\<rparr>"
    using BIO_new_bio_pair_queues(1) [OF zero_malloc_contract p] BIO_new_bio_pair_queues(2) [OF zero_malloc_contract p, where e = Left] by simp_all
  from bio_pair_queues [OF v(1), of "[1, 2, 3]" Left] v(2) obtain p' where
    "BIO_write_all (bio_s_bio Left) [1, 2, 3] p = (False, p')" "view p' = (view p)(Left := \<lparr>queue = [1, 2], capacity = 2, shut = False\<rparr>)"
    by (simp add: Let_def) blast
  then show ?thesis using p by simp
qed

text \<open>C38: a message through a new BIO pair, whatever sizes the writer and the reader ask for and in whatever order
  their calls come. What has arrived, what is in the queue and what is still to be written always are the
  message; the calls that do something are at most twice as many as the bytes of the message, and when none
  can do anything more the whole message has arrived.\<close>

theorem bio_pair_transfer:
  assumes "malloc_contract mal" "BIO_new_bio_pair mal w1 w2 = Some p0" "w1 + 8 < 2 ^ 64" "w2 + 8 < 2 ^ 64"
    and "(pair_step e ^^ k) (p0, msg, []) (p, data, got)"
  shows "got @ queue (view p e) @ data = msg \<and> k \<le> 2 * length msg \<and>
    ((\<forall>t. \<not> pair_step e (p, data, got) t) \<longrightarrow> got = msg)"
proof -
  note n = BIO_new_bio_pair_queues [OF assms(1-4)]
  have "transfer e msg (p0, msg, [])" using n by (cases e) (auto simp: transfer_def split: nat.splits)
  from transfer_run [OF assms(5) this] have t: "transfer e msg (p, data, got)" "k \<le> 2 * length msg"
    using n(2) [of e] by auto
  then show ?thesis using transfer_stuck [OF t(1)] by (auto simp: transfer_def)
qed

theorem bio_pair_transfer_witness:
  "\<exists>p0 p. BIO_new_bio_pair zero_malloc 2 2 = Some p0 \<and> (pair_step Left ^^ 4) (p0, [1, 2, 3], []) (p, [], [1, 2, 3])"
proof -
  obtain p0 where p0: "BIO_new_bio_pair zero_malloc 2 2 = Some p0"
    using BIO_new_bio_pair_total [OF zero_malloc_total, of 2 2] by auto
  have v: "pair_ok p0" "view p0 Left = \<lparr>queue = [], capacity = 2, shut = False\<rparr>"
    using BIO_new_bio_pair_queues(1) [OF zero_malloc_contract p0] BIO_new_bio_pair_queues(2) [OF zero_malloc_contract p0, where e = Left] by simp_all
  from BIO_write_pair [OF v(1), of "[1, 2, 3]" Left] v(2) obtain p1 where
    1: "BIO_write (bio_s_bio Left) (take 3 [1, 2, 3]) p0 = (2, p1)" "pair_ok p1"
      "view p1 Left = \<lparr>queue = [1, 2], capacity = 2, shut = False\<rparr>" by (auto simp: chan_write_def)
  from BIO_read_pair [OF 1(2), of 1 Right] 1(3) obtain p2 where
    2: "BIO_read (bio_s_bio (other Left)) (int 1) p1 = (1, [1], p2)" "pair_ok p2"
      "view p2 Left = \<lparr>queue = [2], capacity = 2, shut = False\<rparr>" by (auto simp: chan_read_def)
  from BIO_write_pair [OF 2(2), of "[3]" Left] 2(3) obtain p3 where
    3: "BIO_write (bio_s_bio Left) (take 1 [3]) p2 = (1, p3)" "pair_ok p3"
      "view p3 Left = \<lparr>queue = [2, 3], capacity = 2, shut = False\<rparr>" by (auto simp: chan_write_def)
  from BIO_read_pair [OF 3(2), of 2 Right] 3(3) obtain p4 where
    4: "BIO_read (bio_s_bio (other Left)) (int 2) p3 = (2, [2, 3], p4)" by (auto simp: chan_read_def)
  have "pair_step Left (p0, [1, 2, 3], []) (p1, [3], [])" "pair_step Left (p1, [3], []) (p2, [3], [1])"
    "pair_step Left (p2, [3], [1]) (p3, [], [1])" "pair_step Left (p3, [], [1]) (p4, [], [1, 2, 3])"
    using send [OF 1(1)] recv [OF 2(1), of "[3]" "[]"] send [OF 3(1), of "[1]"] recv [OF 4, of "[]" "[1]"] by simp_all
  then have "(pair_step Left ^^ Suc (Suc (Suc (Suc 0)))) (p0, [1, 2, 3], []) (p4, [], [1, 2, 3])"
    by (blast intro: relpowp_Suc_I relpowp_0_I)
  then have "(pair_step Left ^^ 4) (p0, [1, 2, 3], []) (p4, [], [1, 2, 3])"
    by (simp add: eval_nat_numeral del: relpowp.simps)
  moreover from bio_pair_transfer [OF zero_malloc_contract p0 _ _ this] have "[1, 2, 3] @ queue (view p4 Left) = [1, 2, 3]" by simp
  ultimately show ?thesis using p0 by auto
qed



text \<open>C40: a BIO in memory is a queue of bytes. A write to one that is not read-only appends, up to \<^verbatim>\<open>INT_MAX\<close> bytes
  in all; one to a read-only memory fails. A read takes from the front and an empty BIO returns its number;
  \<open>BIO_gets\<close> takes a line, or as much of it as fits, and \<open>BIO_indent\<close> adds spaces. A reset of a read-only
  BIO makes the whole memory its contents again, one of another BIO empties it.\<close>

theorem bio_mem_queue:
  fixes bio :: mem_bio
  assumes "malloc_contract mal" "malloc_total mal" "mem_ok bio" "length (BIO_mem_contents bio) \<le> INT_MAX"
  defines "c \<equiv> BIO_mem_contents bio"
  shows "(\<not> read_only bio \<and> data \<noteq> [] \<longrightarrow> (\<exists>bio'. mem_ok bio' \<and>
      (if length c + length data \<le> INT_MAX
       then BIO_write (BIO_s_mem mal) data bio = (int (length data), bio') \<and> BIO_mem_contents bio' = c @ data
       else BIO_write (BIO_s_mem mal) data bio = (-1, bio') \<and> BIO_mem_contents bio' = c))) \<and>
    (read_only bio \<and> data \<noteq> [] \<longrightarrow> BIO_write (BIO_s_mem mal) data bio = (-1, bio)) \<and>
    (0 < n \<and> n \<le> INT_MAX \<longrightarrow> (\<exists>bio'. mem_ok bio' \<and> (let k = min n (length c) in
      BIO_read (BIO_s_mem mal) (int n) bio = (if c = [] then bio_num bio else int k, take k c, bio') \<and>
      BIO_mem_contents bio' = drop k c))) \<and>
    (1 < n \<and> n \<le> INT_MAX \<and> c \<noteq> [] \<longrightarrow> (\<exists>bio' line. mem_ok bio' \<and>
      BIO_gets (BIO_s_mem mal) (int n) bio = (int (length line), line @ [0], bio') \<and> c = line @ BIO_mem_contents bio' \<and>
      0 < length line \<and> length line < n \<and> 10 \<notin> set (butlast line) \<and>
      (last line = 10 \<or> length line = n - 1 \<or> BIO_mem_contents bio' = []))) \<and>
    (\<not> read_only bio \<and> length c + min w max_w \<le> INT_MAX \<longrightarrow> (\<exists>bio'. mem_ok bio' \<and>
      BIO_indent (BIO_s_mem mal) w max_w bio = (True, bio') \<and> BIO_mem_contents bio' = c @ replicate (min w max_w) 32)) \<and>
    (\<exists>bio'. mem_ctrl MEM_RESET bio = (1, [], bio') \<and> mem_ok bio' \<and>
      BIO_mem_contents bio' = (if read_only bio then take (bmax (mbuf (bio_ptr bio))) (bdata (mbuf (bio_ptr bio))) else []))"
proof -
  note w = BIO_write_mem [OF assms(1-3), of data, OF _ _ assms(4)]
  have ro: "BIO_write (BIO_s_mem mal) data bio = (-1, bio)" if "read_only bio" "data \<noteq> []"
    using that assms(3) by (simp add: BIO_write_def BIO_s_mem_def mem_write_def mem_ok_def Let_def)
  note r = BIO_read_mem [OF assms(3), of n mal, unfolded Let_def]
  note g = BIO_gets_mem [OF assms(3), of n mal, OF _ _ _ assms(4)]
  have m: "(if w > max_w then max_w else w) = min w max_w" by simp
  note i = BIO_indent_loop_mem [OF assms(1-3), of "min w max_w"]
  have t: "\<exists>bio'. mem_ctrl MEM_RESET bio = (1, [], bio') \<and> mem_ok bio' \<and>
      BIO_mem_contents bio' = (if read_only bio then take (bmax (mbuf (bio_ptr bio))) (bdata (mbuf (bio_ptr bio))) else [])"
    using mem_reset_read_only [OF assms(3)] mem_reset_writable [OF assms(3)] by (cases "read_only bio") simp_all
  show ?thesis unfolding c_def Let_def BIO_indent_def m
    by (intro conjI impI) (use w in metis, use ro in blast, use r in blast, use g in blast, use i in blast, rule t)
qed

theorem bio_mem_queue_witness:
  "\<exists>bio bio'. BIO_new_mem_buf zero_malloc (Some [65, 10, 66]) 3 = Some bio \<and>
    BIO_gets (BIO_s_mem zero_malloc) 80 bio = (2, [65, 10, 0], bio') \<and> BIO_mem_contents bio' = [66]"
proof -
  obtain bio where b: "BIO_new_mem_buf zero_malloc (Some [65, 10, 66]) 3 = Some bio"
    using BIO_new_mem_total [OF zero_malloc_total] by (auto simp: BIO_new_mem_buf_def Let_def)
  then have c: "mem_ok bio" "BIO_mem_contents bio = [65, 10, 66]"
    using BIO_new_mem_buf_contents [OF b] by simp_all
  then have "length (BIO_mem_contents bio) \<le> INT_MAX" by (simp add: INT_MAX_def)
  from bio_mem_queue [OF zero_malloc_contract zero_malloc_total c(1) this, of "[]" 80 0 0] c(2)
  obtain bio' line where l: "BIO_gets (BIO_s_mem zero_malloc) 80 bio = (int (length line), line @ [0], bio')"
    "[65, 10, 66] = line @ BIO_mem_contents bio'" "0 < length line" "10 \<notin> set (butlast line)"
    "last line = 10 \<or> length line = 79 \<or> BIO_mem_contents bio' = []" by (auto simp: INT_MAX_def)
  then have "line = [65, 10] \<and> BIO_mem_contents bio' = [66]"
    by (cases line; cases "tl line"; cases "tl (tl line)"; cases "tl (tl (tl line))") (auto split: if_splits)
  with l(1) b show ?thesis by simp
qed

end
